(* ===== verification/Machine_Float.thy ===== *)
theory Machine_Float
  imports Complex_Main "HOL-Library.Word"
begin

text \<open>
  Binary floating point as the game and the calculators use it.  A \<^verbatim>\<open>float\<close> or
  \<^verbatim>\<open>double\<close> value is the rational number it denotes; every arithmetic operation is the
  exact rational operation followed by one rounding to nearest, ties to even, with 24
  or 53 significant bits and gradual underflow.  The two rounding functions compute, so
  concrete runs can be evaluated.  The contract a client needs of a rounding (monotone,
  odd, identity on representable numbers) is the locale \<open>rounding\<close>; its client lemmas
  are proved once and obtained for both formats by interpretation.  Infinities and NaN
  are not values of this model: a division by zero is reported as an error where the
  code can reach one.
\<close>

section \<open>Rounding to an integer, ties to even\<close>

definition rne :: "rat \<Rightarrow> int" where
  "rne x = (let r = \<lfloor>x\<rfloor>; d = x - of_int r
            in if d < 1/2 \<or> (d = 1/2 \<and> even r) then r else r + 1)"

lemma rne_of_int [simp]: "rne (of_int n) = n"
  by (simp add: rne_def)

lemma rne_bounds: "of_int (rne x) - 1/2 \<le> x \<and> x \<le> of_int (rne x) + 1/2"
proof -
  define r where "r = \<lfloor>x\<rfloor>"
  have "of_int r \<le> x" "x < of_int r + 1"
    using floor_correct [of x] by (auto simp: r_def)
  then show ?thesis by (auto simp: rne_def Let_def r_def [symmetric] not_less)
qed

lemma rne_mono:
  assumes "x \<le> y"
  shows "rne x \<le> rne y"
proof (cases "\<lfloor>x\<rfloor> = \<lfloor>y\<rfloor>")
  case True
  with assms show ?thesis by (auto simp: rne_def Let_def)
next
  case False
  with floor_mono [OF assms] have "\<lfloor>x\<rfloor> + 1 \<le> \<lfloor>y\<rfloor>" by simp
  then show ?thesis by (auto simp: rne_def Let_def)
qed

lemma rne_minus [simp]: "rne (- x) = - rne x"
proof (cases "x = of_int \<lfloor>x\<rfloor>")
  case True
  then have "- x = of_int (- \<lfloor>x\<rfloor>)" by simp
  then show ?thesis using True by (metis rne_of_int)
next
  case False
  then have "\<lfloor>- x\<rfloor> = - \<lfloor>x\<rfloor> - 1"
    using floor_correct [of x] by (simp add: floor_eq_iff less_le)
  then show ?thesis by (auto simp: rne_def Let_def)
qed

lemma rne_le_int: "x \<le> of_int n \<Longrightarrow> rne x \<le> n"
  using rne_mono [of x "of_int n"] by simp

lemma rne_ge_int: "of_int n \<le> x \<Longrightarrow> n \<le> rne x"
  using rne_mono [of "of_int n" x] by simp

section \<open>Rounding to a number of significant bits\<close>

fun ilog2 :: "int \<Rightarrow> nat" where
  "ilog2 n = (if n < 2 then 0 else Suc (ilog2 (n div 2)))"

declare ilog2.simps [simp del]

lemma ilog2_bounds: "0 < n \<Longrightarrow> 2 ^ ilog2 n \<le> n \<and> n < 2 ^ Suc (ilog2 n)"
proof (induction n rule: ilog2.induct)
  case (1 n)
  show ?case
  proof (cases "n < 2")
    case True
    with "1.prems" show ?thesis by (simp add: ilog2.simps [of n])
  next
    case False
    then have "0 < n div 2" by simp
    with "1.IH" False have "2 ^ ilog2 (n div 2) \<le> n div 2" "n div 2 < 2 ^ Suc (ilog2 (n div 2))"
      by auto
    then have "2 * 2 ^ ilog2 (n div 2) \<le> n \<and> n < 2 * (2 * 2 ^ ilog2 (n div 2))" by auto
    with False show ?thesis by (simp add: ilog2.simps [of n])
  qed
qed

lemma ilog2_mono: "m \<le> n \<Longrightarrow> ilog2 m \<le> ilog2 n"
proof (cases "0 < m")
  case True
  assume "m \<le> n"
  with True ilog2_bounds [of m] ilog2_bounds [of n]
  have "(2::int) ^ ilog2 m < 2 ^ Suc (ilog2 n)" by linarith
  then show ?thesis by (simp del: power_Suc)
qed (simp add: ilog2.simps [of m])

text \<open>
  \<open>shift_of p z\<close> is the number of low bits that do not fit when the integer part of
  \<open>z\<close> is written with \<open>p\<close> significant bits; \<open>round_bits p z\<close> rounds \<open>z\<close> to a multiple of
  that power of two.
\<close>

definition shift_of :: "nat \<Rightarrow> rat \<Rightarrow> nat" where
  "shift_of p z = Suc (ilog2 (\<lfloor>\<bar>z\<bar>\<rfloor>)) - p"

definition round_bits :: "nat \<Rightarrow> rat \<Rightarrow> int" where
  "round_bits p z = rne (z / 2 ^ shift_of p z) * 2 ^ shift_of p z"

lemma shift_of_minus [simp]: "shift_of p (- z) = shift_of p z"
  by (simp add: shift_of_def)

lemma round_bits_minus [simp]: "round_bits p (- z) = - round_bits p z"
  by (simp add: round_bits_def minus_divide_left [symmetric])

lemma shift_of_mono: "\<bar>z\<bar> \<le> \<bar>w\<bar> \<Longrightarrow> shift_of p z \<le> shift_of p w"
  unfolding shift_of_def by (intro diff_le_mono Suc_le_mono [THEN iffD2] ilog2_mono floor_mono)

lemma round_bits_0 [simp]: "round_bits p 0 = 0"
  by (simp add: round_bits_def rne_def)

lemma abs_ge_pow_ilog2:
  fixes z :: rat
  assumes "1 \<le> \<bar>z\<bar>"
  shows "2 ^ ilog2 (\<lfloor>\<bar>z\<bar>\<rfloor>) \<le> \<bar>z\<bar>"
proof -
  let ?n = "\<lfloor>\<bar>z\<bar>\<rfloor>"
  from assms have "0 < ?n" by simp
  then have "(of_int (2 ^ ilog2 ?n) :: rat) \<le> of_int ?n"
    using ilog2_bounds [of ?n] by (simp only: of_int_le_iff)
  also have "\<dots> \<le> \<bar>z\<bar>" by simp
  finally show ?thesis by simp
qed

lemma abs_less_pow_ilog2: "\<bar>z :: rat\<bar> < 2 ^ Suc (ilog2 (\<lfloor>\<bar>z\<bar>\<rfloor>))"
proof (cases "\<lfloor>\<bar>z\<bar>\<rfloor> = 0")
  case True
  then have "\<bar>z\<bar> < 1" by (simp add: floor_eq_iff)
  with True show ?thesis by (simp add: ilog2.simps [of 0])
next
  case False
  let ?n = "\<lfloor>\<bar>z\<bar>\<rfloor>"
  have "\<bar>z\<bar> < of_int \<lfloor>\<bar>z\<bar>\<rfloor> + 1" by linarith
  also have "\<dots> = of_int (?n + 1)" by simp
  also have "\<dots> \<le> of_int (2 ^ Suc (ilog2 ?n))"
    using ilog2_bounds [of ?n] False by (simp only: of_int_le_iff) (simp add: less_le)
  finally show ?thesis by simp
qed

lemma round_bits_upper:
  assumes "0 < p"
  shows "z < 2 ^ Suc (ilog2 (\<lfloor>\<bar>z\<bar>\<rfloor>)) \<Longrightarrow> round_bits p z \<le> 2 ^ Suc (ilog2 (\<lfloor>\<bar>z\<bar>\<rfloor>))"
proof -
  let ?L = "Suc (ilog2 (\<lfloor>\<bar>z\<bar>\<rfloor>))" and ?k = "shift_of p z"
  assume z: "z < 2 ^ ?L"
  have k: "?k \<le> ?L" by (simp add: shift_of_def)
  then have pk: "(2::rat) ^ ?L = 2 ^ (?L - ?k) * 2 ^ ?k" "(2::int) ^ ?L = 2 ^ (?L - ?k) * 2 ^ ?k"
    by (simp_all flip: power_add)
  from z have "z / 2 ^ ?k \<le> of_int (2 ^ (?L - ?k))"
    unfolding pk by (simp add: pos_divide_le_eq)
  then have "rne (z / 2 ^ ?k) \<le> 2 ^ (?L - ?k)" by (rule rne_le_int)
  then show ?thesis unfolding round_bits_def pk by (simp add: mult_right_mono)
qed

lemma round_bits_lower:
  assumes "0 < p" "1 \<le> z"
  shows "2 ^ ilog2 (\<lfloor>\<bar>z\<bar>\<rfloor>) \<le> round_bits p z"
proof -
  let ?L = "ilog2 (\<lfloor>\<bar>z\<bar>\<rfloor>)" and ?k = "shift_of p z"
  have z: "2 ^ ?L \<le> z" using abs_ge_pow_ilog2 [of z] assms by simp
  have k: "?k \<le> ?L" using assms by (simp add: shift_of_def)
  then have pk: "(2::rat) ^ ?L = 2 ^ (?L - ?k) * 2 ^ ?k" "(2::int) ^ ?L = 2 ^ (?L - ?k) * 2 ^ ?k"
    by (simp_all flip: power_add)
  from z have "of_int (2 ^ (?L - ?k)) \<le> z / 2 ^ ?k"
    unfolding pk by (simp add: pos_le_divide_eq)
  then have "2 ^ (?L - ?k) \<le> rne (z / 2 ^ ?k)" by (rule rne_ge_int)
  then show ?thesis unfolding round_bits_def pk by (simp add: mult_right_mono)
qed

lemma round_bits_mono_nonneg:
  assumes p: "0 < p" and "0 \<le> z" "z \<le> w"
  shows "round_bits p z \<le> round_bits p w"
proof (cases "shift_of p z = shift_of p w")
  case True
  have "rne (z / 2 ^ shift_of p w) \<le> rne (w / 2 ^ shift_of p w)"
    using assms by (intro rne_mono divide_right_mono) auto
  with True show ?thesis by (simp add: round_bits_def mult_right_mono)
next
  case False
  let ?a = "ilog2 (\<lfloor>\<bar>z\<bar>\<rfloor>)" and ?b = "ilog2 (\<lfloor>\<bar>w\<bar>\<rfloor>)"
  from shift_of_mono [of z w p] assms False have "shift_of p z < shift_of p w" by simp
  then have lt: "Suc ?a \<le> ?b" unfolding shift_of_def by linarith
  have "1 \<le> w"
  proof (rule ccontr)
    assume "\<not> 1 \<le> w"
    with assms have "\<lfloor>\<bar>w\<bar>\<rfloor> = 0" by (simp add: floor_eq_iff)
    with lt show False by (simp add: ilog2.simps [of 0])
  qed
  have "round_bits p z \<le> 2 ^ Suc ?a"
    using abs_less_pow_ilog2 [of z] assms by (intro round_bits_upper) auto
  also have "\<dots> \<le> 2 ^ ?b" using lt by (intro power_increasing) auto
  also have "\<dots> \<le> round_bits p w" using p \<open>1 \<le> w\<close> by (rule round_bits_lower)
  finally show ?thesis .
qed

lemma round_bits_nonneg: "0 < p \<Longrightarrow> 0 \<le> z \<Longrightarrow> 0 \<le> round_bits p z"
  using round_bits_mono_nonneg [of p 0 z] by simp

lemma round_bits_mono:
  assumes p: "0 < p" and "z \<le> w"
  shows "round_bits p z \<le> round_bits p w"
proof -
  consider "0 \<le> z" | "z < 0" "0 \<le> w" | "w < 0" by linarith
  then show ?thesis
  proof cases
    case 1 with assms show ?thesis by (intro round_bits_mono_nonneg)
  next
    case 2
    with p round_bits_nonneg [of p "- z"] round_bits_nonneg [of p w] show ?thesis by simp
  next
    case 3
    with assms round_bits_mono_nonneg [of p "- w" "- z"] show ?thesis by simp
  qed
qed

text \<open>A number with at most \<open>p\<close> significant bits is a fixed point of the rounding.\<close>

lemma round_bits_exact:
  assumes p: "0 < p" and m: "\<bar>m\<bar> \<le> 2 ^ p"
  shows "round_bits p (of_int (m * 2 ^ e)) = m * 2 ^ e"
proof -
  let ?z = "of_int (m * 2 ^ e) :: rat"
  let ?L = "ilog2 (\<lfloor>\<bar>?z\<bar>\<rfloor>)" and ?k = "shift_of p ?z"
  have dvd: "2 ^ ?k dvd m * 2 ^ e"
  proof (cases "?k \<le> e \<or> m = 0")
    case True
    then show ?thesis by (auto intro: dvd_mult le_imp_power_dvd)
  next
    case False
    then have k: "e < ?k" and m0: "m \<noteq> 0" by auto
    then have kL: "?k + p = Suc ?L" by (simp add: shift_of_def)
    have n: "\<lfloor>\<bar>?z\<bar>\<rfloor> = \<bar>m\<bar> * 2 ^ e"
      by (simp add: abs_mult flip: of_int_abs of_int_mult of_int_power)
    have "0 < \<bar>m\<bar> * 2 ^ e" using m0 by simp
    then have lo: "2 ^ ?L \<le> \<bar>m\<bar> * 2 ^ e" using ilog2_bounds [of "\<bar>m\<bar> * 2 ^ e"] n by simp
    have hi: "\<bar>m\<bar> * 2 ^ e \<le> 2 ^ (p + e)"
      using m by (simp add: power_add mult_right_mono)
    from lo hi have "(2::int) ^ ?L \<le> 2 ^ (p + e)" by linarith
    then have "?L \<le> p + e" by simp
    with k kL have L: "?L = p + e" and k1: "?k = Suc e" by auto
    from lo hi L have eq: "\<bar>m\<bar> * 2 ^ e = 2 ^ (p + e)" by simp
    have "(2::int) ^ ?k dvd 2 ^ (p + e)" using k1 p by (intro le_imp_power_dvd) auto
    then have "2 ^ ?k dvd \<bar>m * 2 ^ e\<bar>" using eq by (simp add: abs_mult)
    then show ?thesis by (simp only: dvd_abs_iff)
  qed
  then obtain c where c: "m * 2 ^ e = c * 2 ^ ?k" by (auto elim: dvdE simp: mult.commute)
  define k where "k = ?k"
  from c have "?z = of_int c * 2 ^ k"
    unfolding k_def by (metis of_int_mult of_int_numeral of_int_power)
  then have "?z / 2 ^ k = of_int c" by simp
  then have "round_bits p ?z = c * 2 ^ k" by (simp only: round_bits_def k_def rne_of_int)
  with c show ?thesis by (simp only: k_def)
qed

lemma round_bits_error: "\<bar>of_int (round_bits p z) - z\<bar> \<le> 2 ^ shift_of p z / 2"
proof -
  let ?k = "shift_of p z" and ?r = "rne (z / 2 ^ shift_of p z)"
  have "\<bar>of_int ?r - z / 2 ^ ?k\<bar> \<le> 1 / 2" using rne_bounds [of "z / 2 ^ ?k"] by linarith
  then have "\<bar>of_int ?r - z / 2 ^ ?k\<bar> * 2 ^ ?k \<le> 1 / 2 * 2 ^ ?k" by (rule mult_right_mono) simp
  moreover have "\<bar>of_int ?r - z / 2 ^ ?k\<bar> * 2 ^ ?k = \<bar>(of_int ?r - z / 2 ^ ?k) * 2 ^ ?k\<bar>"
    by (simp only: abs_mult power_abs abs_numeral)
  moreover have "(of_int ?r - z / 2 ^ ?k) * 2 ^ ?k = of_int ?r * 2 ^ ?k - z"
    by (simp add: left_diff_distrib)
  ultimately show ?thesis by (simp add: round_bits_def)
qed

text \<open>
  Taking away and adding again: with a bound that is even in units of its last place, as every small integer is, the two roundings do not
  lead beyond the bound, whatever is taken away.
\<close>

lemma shift_above:
  fixes Z :: int
  assumes "0 < Z" "2 * 2 ^ K dvd Z" "K = shift_of p (of_int Z)" "0 < p"
  shows "shift_of p (of_int Z + 2 ^ K / 2) = K"
proof -
  let ?L = "ilog2 Z"
  have fl: "\<lfloor>\<bar>of_int Z :: rat\<bar>\<rfloor> = Z" using assms(1) by simp
  have KL: "K \<le> ?L" using assms(3,4) unfolding shift_of_def fl by simp
  have L: "2 ^ ?L \<le> Z" "Z < 2 ^ Suc ?L" using ilog2_bounds [OF assms(1)] by simp_all
  have "2 ^ Suc K dvd (2 :: int) ^ Suc ?L" using KL by (intro le_imp_power_dvd) simp
  then have "2 * 2 ^ K dvd 2 ^ Suc ?L - Z" using assms(2) by (intro dvd_diff) simp_all
  then have "2 * 2 ^ K \<le> 2 ^ Suc ?L - Z" using L(2) by (intro zdvd_imp_le) auto
  then have up: "Z + 2 ^ K < 2 ^ Suc ?L" using zero_less_power [of "2 :: int" K] by linarith
  define x :: rat where "x = of_int Z + 2 ^ K / 2"
  have x: "of_int Z \<le> x" "x \<le> of_int (Z + 2 ^ K)" unfolding x_def by simp_all
  then have fx: "Z \<le> \<lfloor>\<bar>x\<bar>\<rfloor>" "\<lfloor>\<bar>x\<bar>\<rfloor> \<le> Z + 2 ^ K" using assms(1) by linarith+
  have "ilog2 (\<lfloor>\<bar>x\<bar>\<rfloor>) = ?L"
  proof (rule antisym)
    show "?L \<le> ilog2 (\<lfloor>\<bar>x\<bar>\<rfloor>)" using fx(1) by (rule ilog2_mono)
    have "0 < \<lfloor>\<bar>x\<bar>\<rfloor>" using fx(1) assms(1) by linarith
    then have "2 ^ ilog2 (\<lfloor>\<bar>x\<bar>\<rfloor>) \<le> \<lfloor>\<bar>x\<bar>\<rfloor>" using ilog2_bounds by blast
    then have "(2 :: int) ^ ilog2 (\<lfloor>\<bar>x\<bar>\<rfloor>) < 2 ^ Suc ?L" using fx(2) up by linarith
    then show "ilog2 (\<lfloor>\<bar>x\<bar>\<rfloor>) \<le> ?L" by (simp del: power_Suc)
  qed
  then show ?thesis unfolding x_def [symmetric] using assms(3) unfolding shift_of_def fl by simp
qed

lemma round_bits_half_above:
  fixes Z :: int
  assumes "0 < Z" "2 * 2 ^ K dvd Z" "K = shift_of p (of_int Z)" "0 < p"
  shows "round_bits p (of_int Z + 2 ^ K / 2) = Z"
proof -
  obtain c where c: "Z = 2 * 2 ^ K * c" using assms(2) by (rule dvdE)
  have "(of_int Z + 2 ^ K / 2) / 2 ^ K = (of_int (2 * c) + 1 / 2 :: rat)" unfolding c by (simp add: add_divide_distrib)
  moreover have "\<lfloor>of_int (2 * c) + 1 / 2 :: rat\<rfloor> = 2 * c" by linarith
  then have "rne (of_int (2 * c) + 1 / 2) = 2 * c" by (simp add: rne_def)
  ultimately show ?thesis unfolding round_bits_def shift_above [OF assms] by (simp only:) (simp add: c)
qed

lemma round_bits_sub_add:
  fixes Z :: int
  assumes "0 < Z" "2 * 2 ^ shift_of p (of_int Z) dvd Z" "0 < p" "0 \<le> u" "u \<le> of_int Z"
  shows "round_bits p (of_int (round_bits p (of_int Z - u)) + u) \<le> Z"
proof -
  let ?k = "shift_of p (of_int Z - u)" and ?K = "shift_of p (of_int Z)"
  have "\<bar>of_int Z - u\<bar> \<le> \<bar>of_int Z\<bar>" using assms(4,5) by simp
  then have "?k \<le> ?K" by (rule shift_of_mono)
  then have k: "(2 :: rat) ^ ?k \<le> 2 ^ ?K" by (rule power_increasing) simp
  have "of_int (round_bits p (of_int Z - u)) + u \<le> of_int Z + 2 ^ ?K / 2"
    using abs_le_D1 [OF round_bits_error [of p "of_int Z - u"]] k by linarith
  from round_bits_mono [OF assms(3) this] show ?thesis unfolding round_bits_half_above [OF assms(1,2) refl assms(3)] .
qed

section \<open>The two formats\<close>

text \<open>
  \<open>round_fmt p m x\<close> rounds \<open>x\<close> to \<open>p\<close> significant bits, never finer than \<open>2\<^sup>-\<^sup>m\<close>, the smallest
  positive value of the format.  Single precision has \<open>p = 24\<close>, \<open>m = 149\<close>; double
  precision \<open>p = 53\<close>, \<open>m = 1074\<close>.
\<close>

definition round_fmt :: "nat \<Rightarrow> nat \<Rightarrow> rat \<Rightarrow> rat" where
  "round_fmt p m x = of_int (round_bits p (x * 2 ^ m)) / 2 ^ m"

definition fl32 :: "rat \<Rightarrow> rat" where
  "fl32 x = round_fmt 24 149 x"

definition fl64 :: "rat \<Rightarrow> rat" where
  "fl64 x = round_fmt 53 1074 x"

lemma round_fmt_mono: "0 < p \<Longrightarrow> x \<le> y \<Longrightarrow> round_fmt p m x \<le> round_fmt p m y"
  unfolding round_fmt_def by (intro divide_right_mono) (auto intro: round_bits_mono mult_right_mono)

lemma round_fmt_minus: "round_fmt p m (- x) = - round_fmt p m x"
  by (simp add: round_fmt_def)

lemma round_fmt_exact:
  assumes "0 < p" "\<bar>n\<bar> \<le> 2 ^ p" "d \<le> m"
  shows "round_fmt p m (of_int n / 2 ^ d) = of_int n / 2 ^ d"
proof -
  have pm: "(2::rat) ^ m = 2 ^ (m - d) * 2 ^ d" using assms(3) by (simp flip: power_add)
  then have z: "of_int n / 2 ^ d * 2 ^ m = (of_int (n * 2 ^ (m - d)) :: rat)" by simp
  then have "round_fmt p m (of_int n / 2 ^ d) = of_int (n * 2 ^ (m - d)) / 2 ^ m"
    unfolding round_fmt_def z using round_bits_exact [OF assms(1,2)] by simp
  also have "\<dots> = of_int n / 2 ^ d" by (simp add: pm)
  finally show ?thesis .
qed

lemma round_fmt_idem:
  assumes p: "0 < p"
  shows "round_fmt p m (round_fmt p m x) = round_fmt p m x"
proof -
  define z where "z = x * 2 ^ m"
  let ?L = "Suc (ilog2 (\<lfloor>\<bar>z\<bar>\<rfloor>))" and ?k = "shift_of p z" and ?c = "rne (z / 2 ^ shift_of p z)"
  have up: "round_bits p \<bar>z\<bar> \<le> 2 ^ ?L"
    using round_bits_upper [OF p, of "\<bar>z\<bar>"] abs_less_pow_ilog2 [of z] by simp
  have ab: "\<bar>?c\<bar> * 2 ^ ?k = round_bits p \<bar>z\<bar>"
    using round_bits_nonneg [OF p, of z] round_bits_nonneg [OF p, of "- z"]
    by (cases "0 \<le> z") (auto simp: round_bits_def abs_if zero_le_mult_iff mult_le_0_iff)
  have "\<bar>?c\<bar> \<le> 2 ^ p"
  proof (cases "?L \<le> p")
    case True
    then have "?k = 0" by (simp add: shift_of_def)
    with up ab have "\<bar>?c\<bar> \<le> 2 ^ ?L" by simp
    also have "\<dots> \<le> 2 ^ p" using True by (intro power_increasing) auto
    finally show ?thesis .
  next
    case False
    then have "?L = p + ?k" by (simp add: shift_of_def)
    with up ab have "\<bar>?c\<bar> * 2 ^ ?k \<le> 2 ^ p * 2 ^ ?k" by (simp only: power_add)
    then show ?thesis by simp
  qed
  then have "round_bits p (of_int (round_bits p z)) = round_bits p z"
    unfolding round_bits_def [of p z] by (rule round_bits_exact [OF p])
  then show ?thesis by (simp add: round_fmt_def z_def)
qed

section \<open>What a client of a rounding relies on\<close>

locale rounding =
  fixes rnd :: "rat \<Rightarrow> rat"
  assumes rnd_mono: "x \<le> y \<Longrightarrow> rnd x \<le> rnd y"
    and rnd_minus: "rnd (- x) = - rnd x"
    and rnd_idem: "rnd (rnd x) = rnd x"
    and rnd_small_int: "\<bar>n\<bar> \<le> 2 ^ 24 \<Longrightarrow> rnd (of_int n) = of_int n"
begin

lemma rnd_0 [simp]: "rnd 0 = 0"
  using rnd_small_int [of 0] by simp

lemma rnd_nonneg: "0 \<le> x \<Longrightarrow> 0 \<le> rnd x"
  using rnd_mono [of 0 x] by simp

lemma rnd_nonpos: "x \<le> 0 \<Longrightarrow> rnd x \<le> 0"
  using rnd_mono [of x 0] by simp

lemma rnd_upper: "x \<le> b \<Longrightarrow> rnd b = b \<Longrightarrow> rnd x \<le> b"
  using rnd_mono [of x b] by simp

lemma rnd_lower: "b \<le> x \<Longrightarrow> rnd b = b \<Longrightarrow> b \<le> rnd x"
  using rnd_mono [of b x] by simp

lemma rnd_abs: "\<bar>rnd x\<bar> = rnd \<bar>x\<bar>"
  using rnd_nonneg [of x] rnd_nonpos [of x] rnd_minus [of x] by (cases "0 \<le> x") auto

lemma rnd_abs_upper: "\<bar>x\<bar> \<le> b \<Longrightarrow> rnd b = b \<Longrightarrow> \<bar>rnd x\<bar> \<le> b"
  by (simp add: rnd_abs rnd_upper)

lemma rnd_numeral: "numeral n \<le> (2 ^ 24 :: int) \<Longrightarrow> rnd (numeral n) = numeral n"
  using rnd_small_int [of "numeral n"] by simp

lemma rnd_1: "rnd 1 = 1"
  using rnd_small_int [of 1] by simp

end

interpretation fl32: rounding fl32
  by unfold_locales
    (auto simp: fl32_def round_fmt_minus round_fmt_idem
       round_fmt_exact [where d = 0, simplified] intro: round_fmt_mono)

interpretation fl64: rounding fl64
proof unfold_locales
  fix n :: int
  assume "\<bar>n\<bar> \<le> 2 ^ 24"
  then have "\<bar>n\<bar> \<le> 2 ^ 53" by simp
  then show "fl64 (of_int n) = of_int n"
    using round_fmt_exact [of 53 n 0 1074] by (simp add: fl64_def)
qed (auto simp: fl64_def round_fmt_minus round_fmt_idem intro: round_fmt_mono)

section \<open>Evaluation\<close>

text \<open>
  Integers and short dyadic fractions are representable, and most of the values a run
  handles are such numbers: the code equations test for them before they round.
\<close>

lemma round_fmt_dyadic:
  assumes "0 < p" "quotient_of x = (a, b)" "\<bar>a\<bar> \<le> 2 ^ p" "b = 2 ^ ilog2 b" "ilog2 b \<le> m"
  shows "round_fmt p m x = x"
proof -
  have "x = of_int a / of_int b" using assms(2) by (rule quotient_of_div)
  then have "x = of_int a / 2 ^ ilog2 b" using assms(4) by (metis of_int_numeral of_int_power)
  then show ?thesis using round_fmt_exact [OF assms(1,3,5)] by simp
qed

lemma fl32_code [code]:
  "fl32 x = (case quotient_of x of (a, b) \<Rightarrow>
     if \<bar>a\<bar> \<le> 16777216 \<and> (b = 1 \<or> b = 2 ^ ilog2 b \<and> ilog2 b \<le> 149) then x else round_fmt 24 149 x)"
proof -
  obtain a b where q: "quotient_of x = (a, b)" by (cases "quotient_of x")
  have "b = 1 \<Longrightarrow> b = 2 ^ ilog2 b \<and> ilog2 b \<le> 149" by (simp add: ilog2.simps)
  then show ?thesis using round_fmt_dyadic [OF _ q, of 24 149] by (auto simp: q fl32_def)
qed

lemma fl64_code [code]:
  "fl64 x = (case quotient_of x of (a, b) \<Rightarrow>
     if \<bar>a\<bar> \<le> 9007199254740992 \<and> (b = 1 \<or> b = 2 ^ ilog2 b \<and> ilog2 b \<le> 1074) then x else round_fmt 53 1074 x)"
proof -
  obtain a b where q: "quotient_of x = (a, b)" by (cases "quotient_of x")
  have "b = 1 \<Longrightarrow> b = 2 ^ ilog2 b \<and> ilog2 b \<le> 1074" by (simp add: ilog2.simps)
  then show ?thesis using round_fmt_dyadic [OF _ q, of 53 1074] by (auto simp: q fl64_def)
qed

lemma fl32_of_int: "\<bar>n\<bar> \<le> 16777216 \<Longrightarrow> fl32 (of_int n) = of_int n"
  using fl32.rnd_small_int [of n] by simp

lemma fl32_numeral [simp]: "numeral n \<le> (16777216 :: int) \<Longrightarrow> fl32 (numeral n) = numeral n"
  using fl32_of_int [of "numeral n"] by simp

lemma fl32_neg_numeral [simp]: "numeral n \<le> (16777216 :: int) \<Longrightarrow> fl32 (- numeral n) = - numeral n"
  by (simp add: fl32.rnd_minus)

lemma fl32_0 [simp]: "fl32 0 = 0" by (rule fl32.rnd_0)

lemma fl32_1 [simp]: "fl32 1 = 1" by (rule fl32.rnd_1)

lemma fl32_idem [simp]: "fl32 (fl32 x) = fl32 x" by (rule fl32.rnd_idem)

lemma fl32_half [simp]: "numeral n \<le> (16777216 :: int) \<Longrightarrow> fl32 (numeral n / 2) = numeral n / 2"
  using round_fmt_exact [of 24 "numeral n" 1 149] by (simp add: fl32_def)

lemma fl64_of_int: "\<bar>n\<bar> \<le> 9007199254740992 \<Longrightarrow> fl64 (of_int n) = of_int n"
  using round_fmt_exact [of 53 n 0 1074] by (simp add: fl64_def)

section \<open>Square root\<close>

text \<open>
  The correctly rounded square root: an integer square root at a scale at which the
  bit below the last one kept is still exact, with half a unit added when the root is
  not exact, and one rounding of that value.
\<close>

fun isqrt :: "int \<Rightarrow> int" where
  "isqrt n = (if n \<le> 0 then 0
     else let r = 2 * isqrt (n div 4) in if (r + 1) * (r + 1) \<le> n then r + 1 else r)"

declare isqrt.simps [simp del]

lemma isqrt_bounds: "0 \<le> n \<Longrightarrow> 0 \<le> isqrt n \<and> isqrt n * isqrt n \<le> n \<and> n < (isqrt n + 1) * (isqrt n + 1)"
proof (induction n rule: isqrt.induct)
  case (1 n)
  show ?case
  proof (cases "n \<le> 0")
    case True
    with "1.prems" have "n = 0" by simp
    then show ?thesis by (simp add: isqrt.simps [of 0])
  next
    case False
    define r where "r = isqrt (n div 4)"
    from False "1.IH" have r: "0 \<le> r" "r * r \<le> n div 4" "n div 4 < (r + 1) * (r + 1)"
      by (auto simp: r_def)
    from r have "4 * (r * r) \<le> n" "n < 4 * ((r + 1) * (r + 1))" by auto
    with r(1) False show ?thesis
      by (auto simp: isqrt.simps [of n] Let_def r_def [symmetric] algebra_simps)
  qed
qed

lemma square_less_imp_less: "(a :: int) * a < b * b \<Longrightarrow> 0 \<le> b \<Longrightarrow> a < b"
  by (metis mult_mono not_le order_trans order_less_le_trans less_irrefl)

lemma isqrt_mono:
  assumes "0 \<le> m" "m \<le> n"
  shows "isqrt m \<le> isqrt n"
proof -
  have "isqrt m * isqrt m \<le> m" "n < (isqrt n + 1) * (isqrt n + 1)" "0 \<le> isqrt n"
    using isqrt_bounds [of m] isqrt_bounds [of n] assms by simp_all
  then have "isqrt m * isqrt m < (isqrt n + 1) * (isqrt n + 1)" "0 \<le> isqrt n + 1"
    using assms(2) by linarith+
  then have "isqrt m < isqrt n + 1" by (rule square_less_imp_less)
  then show ?thesis by simp
qed

lemma isqrt_square: "0 \<le> k \<Longrightarrow> isqrt (k * k) = k"
proof -
  assume k: "0 \<le> k"
  then have b: "0 \<le> isqrt (k * k)" "isqrt (k * k) * isqrt (k * k) \<le> k * k"
    "k * k < (isqrt (k * k) + 1) * (isqrt (k * k) + 1)"
    using isqrt_bounds [of "k * k"] by auto
  have "0 \<le> isqrt (k * k) + 1" using b(1) by simp
  with b(3) have "k < isqrt (k * k) + 1" by (rule square_less_imp_less)
  moreover have "k * k < (k + 1) * (k + 1)" using k by (simp add: algebra_simps)
  then have "isqrt (k * k) * isqrt (k * k) < (k + 1) * (k + 1)" using b(2) by linarith
  then have "isqrt (k * k) < k + 1" using k square_less_imp_less [of "isqrt (k * k)" "k + 1"] by simp
  ultimately show ?thesis by simp
qed

definition sqrt_scaled :: "rat \<Rightarrow> rat" where
  "sqrt_scaled z = (let t = isqrt \<lfloor>z\<rfloor> in if of_int (t * t) = z then of_int t else of_int t + 1/2)"

definition fsqrt32 :: "rat \<Rightarrow> rat" where
  "fsqrt32 x = fl32 (sqrt_scaled (x * 2 ^ 256) / 2 ^ 128)"

lemma sqrt_scaled_mono:
  assumes "0 \<le> z" "z \<le> w"
  shows "sqrt_scaled z \<le> sqrt_scaled w"
proof -
  define s where "s = isqrt \<lfloor>z\<rfloor>"
  define t where "t = isqrt \<lfloor>w\<rfloor>"
  have st: "s \<le> t" unfolding s_def t_def using assms by (intro isqrt_mono floor_mono) auto
  have "of_int (s * s) \<le> z"
    using isqrt_bounds [of "\<lfloor>z\<rfloor>"] assms by (simp add: s_def le_floor_iff [symmetric] del: of_int_mult)
  then have "s = t \<Longrightarrow> of_int (t * t) = w \<Longrightarrow> of_int (s * s) = z" using assms by simp
  with st show ?thesis
    by (cases "s = t") (auto simp: sqrt_scaled_def Let_def s_def [symmetric] t_def [symmetric])
qed

lemma fsqrt32_mono: "0 \<le> x \<Longrightarrow> x \<le> y \<Longrightarrow> fsqrt32 x \<le> fsqrt32 y"
  unfolding fsqrt32_def
  by (intro fl32.rnd_mono divide_right_mono sqrt_scaled_mono mult_right_mono) auto

lemma fsqrt32_square:
  assumes "0 \<le> n"
  shows "fsqrt32 (of_int (n * n)) = fl32 (of_int n)"
proof -
  let ?k = "n * 2 ^ 128"
  have z: "of_int (n * n) * 2 ^ 256 = (of_int (?k * ?k) :: rat)" by simp
  have "isqrt (?k * ?k) = ?k" using assms by (intro isqrt_square) simp
  then have "sqrt_scaled (of_int (?k * ?k)) = of_int ?k"
    unfolding sqrt_scaled_def Let_def floor_of_int by simp
  then have "sqrt_scaled (of_int (n * n) * 2 ^ 256) = of_int ?k" by (simp only: z)
  then show ?thesis by (simp add: fsqrt32_def)
qed

end
