(* ===== verification/Prelude.thy ===== *)
theory Prelude
  imports Machine_Float "HOL-Library.Multiset"
begin

text \<open>
  Shared vocabulary of the development: the collections of rewrite rules, the C++ number
  conversions, SFML's vectors and rectangles, the part of SFML the game calls, and
  generic list lemmas.
\<close>

named_theorems game_simps \<open>projections and update equations of the game operations\<close>
named_theorems stream_simps \<open>unfolding rules of the stream layer\<close>

section \<open>Numbers\<close>

text \<open>
  The \<^verbatim>\<open>float\<close> operators.  An \<^verbatim>\<open>int\<close> operand is converted to \<^verbatim>\<open>float\<close> first (\<open>i2f\<close>); a
  \<^verbatim>\<open>float\<close> stored into an \<^verbatim>\<open>int\<close> is truncated towards zero (\<open>f2i\<close>).
\<close>

abbreviation fadd :: "rat \<Rightarrow> rat \<Rightarrow> rat" where "fadd x y \<equiv> fl32 (x + y)"
abbreviation fsub :: "rat \<Rightarrow> rat \<Rightarrow> rat" where "fsub x y \<equiv> fl32 (x - y)"
abbreviation fmul :: "rat \<Rightarrow> rat \<Rightarrow> rat" where "fmul x y \<equiv> fl32 (x * y)"
abbreviation fdiv :: "rat \<Rightarrow> rat \<Rightarrow> rat" where "fdiv x y \<equiv> fl32 (x / y)"
abbreviation i2f :: "int \<Rightarrow> rat" where "i2f n \<equiv> fl32 (of_int n)"

definition f2i :: "rat \<Rightarrow> int" where
  "f2i x = (if 0 \<le> x then \<lfloor>x\<rfloor> else \<lceil>x\<rceil>)"

lemma f2i_of_int [simp]: "f2i (of_int n) = n"
  by (simp add: f2i_def)

lemma f2i_neg_numeral [simp]: "f2i (- numeral n) = - numeral n" "f2i (- 1) = - 1"
  using f2i_of_int [of "- numeral n"] f2i_of_int [of "- 1"] by simp_all

lemma f2i_numeral [simp]: "f2i (numeral n) = numeral n" "f2i 0 = 0" "f2i 1 = 1"
  using f2i_of_int [of "numeral n"] f2i_of_int [of 0] f2i_of_int [of 1] by simp_all

lemma f2i_abs_le: "\<bar>of_int (f2i x)\<bar> \<le> \<bar>x\<bar>"
proof (cases "0 \<le> x")
  case True
  then show ?thesis by (simp add: f2i_def)
next
  case False
  define c where "c = \<lceil>x\<rceil>"
  from False have "c \<le> 0" by (simp add: c_def ceiling_le_iff)
  moreover have "x \<le> of_int c" by (simp add: c_def)
  ultimately show ?thesis using False by (simp add: f2i_def c_def [symmetric])
qed

lemma f2i_mono: "x \<le> y \<Longrightarrow> f2i x \<le> f2i y"
proof -
  assume "x \<le> y"
  moreover have "x < 0 \<Longrightarrow> \<lceil>x\<rceil> \<le> 0" by (simp add: ceiling_le_iff)
  ultimately show ?thesis by (auto simp: f2i_def floor_mono ceiling_mono intro: order_trans [of _ 0])
qed

section \<open>Printing integers\<close>

fun nat_digits :: "nat \<Rightarrow> string" where
  "nat_digits n = (if n < 10 then [char_of (48 + n)] else nat_digits (n div 10) @ [char_of (48 + n mod 10)])"

declare nat_digits.simps [simp del]

definition to_string :: "int \<Rightarrow> string" where
  "to_string i = (if i < 0 then CHR ''-'' # nat_digits (nat (- i)) else nat_digits (nat i))"

section \<open>SFML\<close>

record 'a vector2 =
  vx :: 'a
  vy :: 'a

type_synonym vector2f = "rat vector2"
type_synonym vector2i = "int vector2"

abbreviation vec :: "'a \<Rightarrow> 'a \<Rightarrow> 'a vector2" where
  "vec x y \<equiv> \<lparr>vx = x, vy = y\<rparr>"

record float_rect =
  rleft :: rat
  rtop :: rat
  rwidth :: rat
  rheight :: rat

abbreviation rect :: "rat \<Rightarrow> rat \<Rightarrow> rat \<Rightarrow> rat \<Rightarrow> float_rect" where
  "rect l t w h \<equiv> \<lparr>rleft = l, rtop = t, rwidth = w, rheight = h\<rparr>"

text \<open>
  SFML is a library outside the repository.  A sprite or a circle is represented by its
  position; what the game asks of SFML is a parameter: where a drawable ends up after
  \<^verbatim>\<open>move\<close>, the global bounds of the ship, of a monster and of a bullet at a position, and
  whether two rectangles intersect.
\<close>

record sfml =
  sf_move :: "vector2f \<Rightarrow> vector2f \<Rightarrow> vector2f"
  sf_ship_bounds :: "vector2f \<Rightarrow> float_rect"
  sf_monster_bounds :: "vector2f \<Rightarrow> float_rect"
  sf_bullet_bounds :: "vector2f \<Rightarrow> float_rect"
  sf_intersects :: "float_rect \<Rightarrow> float_rect \<Rightarrow> bool"

text \<open>
  The documented behaviour the theorems rely on: \<^verbatim>\<open>move\<close> adds the offset to the position,
  and the bounds of an unrotated sprite with its origin at its top left corner start at
  its position and have a size that is not negative.
\<close>

definition sfml_move_ok :: "sfml \<Rightarrow> bool" where
  "sfml_move_ok S \<longleftrightarrow> (\<forall>p v. sf_move S p v = vec (fadd (vx p) (vx v)) (fadd (vy p) (vy v)))"

definition bounds_ok :: "(vector2f \<Rightarrow> float_rect) \<Rightarrow> bool" where
  "bounds_ok b \<longleftrightarrow> (\<forall>p. rleft (b p) = vx p \<and> rtop (b p) = vy p \<and> 0 \<le> rwidth (b p) \<and> 0 \<le> rheight (b p))"

lemma sfml_moveD: "sfml_move_ok S \<Longrightarrow> sf_move S p v = vec (fadd (vx p) (vx v)) (fadd (vy p) (vy v))"
  by (simp add: sfml_move_ok_def)

lemma bounds_okD:
  assumes "bounds_ok b"
  shows "rleft (b p) = vx p" "rtop (b p) = vy p" "0 \<le> rwidth (b p)" "0 \<le> rheight (b p)"
  using assms by (simp_all add: bounds_ok_def)

text \<open>
  A concrete instance for the examples: bounds of a fixed size at the position, and
  rectangles that intersect when they overlap on both axes.
\<close>

definition box_bounds :: "rat \<Rightarrow> rat \<Rightarrow> vector2f \<Rightarrow> float_rect" where
  "box_bounds w h p = rect (vx p) (vy p) w h"

definition box_intersects :: "float_rect \<Rightarrow> float_rect \<Rightarrow> bool" where
  "box_intersects a b \<longleftrightarrow>
     max (rleft a) (rleft b) < min (rleft a + rwidth a) (rleft b + rwidth b) \<and>
     max (rtop a) (rtop b) < min (rtop a + rheight a) (rtop b + rheight b)"

definition sfml_box :: "rat \<Rightarrow> rat \<Rightarrow> rat \<Rightarrow> sfml" where
  "sfml_box s m b = \<lparr>sf_move = (\<lambda>p v. vec (fadd (vx p) (vx v)) (fadd (vy p) (vy v))),
     sf_ship_bounds = box_bounds s s, sf_monster_bounds = box_bounds m m,
     sf_bullet_bounds = box_bounds b b, sf_intersects = box_intersects\<rparr>"

lemma sfml_box_move_ok [simp]: "sfml_move_ok (sfml_box s m b)"
  by (simp add: sfml_move_ok_def sfml_box_def)

lemma box_bounds_ok [simp]: "0 \<le> w \<Longrightarrow> 0 \<le> h \<Longrightarrow> bounds_ok (box_bounds w h)"
  by (simp add: bounds_ok_def box_bounds_def)

section \<open>What the program draws\<close>

datatype draw_cmd = DrawCircle vector2f | DrawMonster vector2f | DrawShip vector2f | DrawText string

section \<open>Lists\<close>

text \<open>\<open>update_first P f xs\<close> changes the first element that satisfies \<open>P\<close>, as a loop that returns after its first hit.\<close>

fun update_first :: "('a \<Rightarrow> bool) \<Rightarrow> ('a \<Rightarrow> 'a) \<Rightarrow> 'a list \<Rightarrow> 'a list option" where
  "update_first P f [] = None"
| "update_first P f (x # xs) =
     (if P x then Some (f x # xs) else map_option (Cons x) (update_first P f xs))"

lemma update_first_None: "update_first P f xs = None \<longleftrightarrow> (\<forall>x \<in> set xs. \<not> P x)"
  by (induction xs) auto

lemma update_first_Some:
  "update_first P f xs = Some ys \<Longrightarrow>
     \<exists>us x vs. xs = us @ x # vs \<and> ys = us @ f x # vs \<and> P x \<and> (\<forall>u \<in> set us. \<not> P u)"
proof (induction xs arbitrary: ys)
  case (Cons x xs)
  show ?case
  proof (cases "P x")
    case True
    with Cons.prems show ?thesis by (intro exI [of _ "[]"]) auto
  next
    case False
    with Cons.prems obtain zs where zs: "update_first P f xs = Some zs" and ys: "ys = x # zs" by auto
    from Cons.IH [OF zs] obtain us w vs
      where "xs = us @ w # vs" "zs = us @ f w # vs" "P w" "\<forall>u \<in> set us. \<not> P u" by auto
    with False ys show ?thesis by (intro exI [of _ "x # us"]) auto
  qed
qed simp

lemma update_first_length: "update_first P f xs = Some ys \<Longrightarrow> length ys = length xs"
  by (drule update_first_Some) auto

definition count_if :: "('a \<Rightarrow> bool) \<Rightarrow> 'a list \<Rightarrow> nat" where
  "count_if P xs = length (filter P xs)"

lemma count_if_simps [simp]:
  "count_if P [] = 0" "count_if P (x # xs) = (if P x then Suc (count_if P xs) else count_if P xs)"
  "count_if P (xs @ ys) = count_if P xs + count_if P ys"
  by (simp_all add: count_if_def)

lemma count_if_map: "(\<And>x. P (f x) = P x) \<Longrightarrow> count_if P (map f xs) = count_if P xs"
  by (induction xs) auto

lemma count_if_le: "count_if P xs \<le> length xs"
  by (simp add: count_if_def)

section \<open>Runs of a step function that may fail\<close>

text \<open>A run stops at the first error.\<close>

fun run_steps :: "('i \<Rightarrow> 's \<Rightarrow> 'e + 's) \<Rightarrow> 'i list \<Rightarrow> 's \<Rightarrow> 'e + 's" where
  "run_steps step [] s = Inr s"
| "run_steps step (i # is') s = (case step i s of Inl e \<Rightarrow> Inl e | Inr s' \<Rightarrow> run_steps step is' s')"

text \<open>
  The contract of a step function with an invariant: from a state with the invariant
  every input is processed without an error and leads to a state with the invariant.
\<close>

locale safe_steps =
  fixes step :: "'i \<Rightarrow> 's \<Rightarrow> 'e + 's"
    and inv :: "'s \<Rightarrow> bool"
    and ok :: "'i \<Rightarrow> bool"
  assumes step_ok: "inv s \<Longrightarrow> ok i \<Longrightarrow> \<exists>s'. step i s = Inr s' \<and> inv s'"
begin

lemma step_inv: "inv s \<Longrightarrow> ok i \<Longrightarrow> step i s = Inr s' \<Longrightarrow> inv s'"
  using step_ok by fastforce

lemma run_ok: "inv s \<Longrightarrow> list_all ok is' \<Longrightarrow> \<exists>s'. run_steps step is' s = Inr s' \<and> inv s'"
proof (induction is' arbitrary: s)
  case (Cons i is')
  from Cons.prems obtain t where "step i s = Inr t" "inv t" using step_ok [of s i] by auto
  with Cons show ?case by auto
qed simp

lemma run_inv: "inv s \<Longrightarrow> list_all ok is' \<Longrightarrow> run_steps step is' s = Inr s' \<Longrightarrow> inv s'"
  using run_ok by fastforce

end

end
