(* ===== verification/Entities.thy ===== *)
theory Entities
  imports Prelude
begin

text \<open>
  \<^verbatim>\<open>src/src/Entity\<close>: the life state shared by all entities, the bullet
  (\<^verbatim>\<open>Bullet.cpp\<close>) and the monster (\<^verbatim>\<open>Monster.cpp\<close>).
\<close>

section \<open>EntityState.h\<close>

datatype State = alive | destroyed

section \<open>Bullet\<close>

text \<open>The circle's radius, colour and outline never change; its position does.\<close>

record Bullet =
  circle :: vector2f
  speed :: int
  bstate :: State

definition Bullet_new :: "rat \<Rightarrow> rat \<Rightarrow> int \<Rightarrow> Bullet" where
  "Bullet_new x y sp = \<lparr>circle = vec (fsub x 5) y, speed = sp, bstate = alive\<rparr>"

definition Bullet_draw :: "Bullet \<Rightarrow> draw_cmd list" where
  "Bullet_draw b = (if bstate b = alive then [DrawCircle (circle b)] else [])"

definition updateBullet :: "Bullet \<Rightarrow> Bullet" where
  "updateBullet b = b\<lparr>circle := vec (vx (circle b)) (fsub (vy (circle b)) (i2f (speed b)))\<rparr>"

definition getBoundingBox :: "sfml \<Rightarrow> Bullet \<Rightarrow> float_rect" where
  "getBoundingBox S b = sf_bullet_bounds S (circle b)"

definition Bullet_hide :: "Bullet \<Rightarrow> Bullet" where
  "Bullet_hide b = b\<lparr>bstate := destroyed\<rparr>"

lemma updateBullet_simps [simp, game_simps]:
  "bstate (updateBullet b) = bstate b" "speed (updateBullet b) = speed b"
  "vx (circle (updateBullet b)) = vx (circle b)"
  by (simp_all add: updateBullet_def)

lemma Bullet_hide_simps [simp, game_simps]:
  "bstate (Bullet_hide b) = destroyed" "circle (Bullet_hide b) = circle b"
  "Bullet_draw (Bullet_hide b) = []"
  by (simp_all add: Bullet_hide_def Bullet_draw_def)

text \<open>A bullet fired upwards (positive speed) never moves down, one fired downwards never moves up.\<close>

lemma updateBullet_dir:
  assumes "fl32 (vy (circle b)) = vy (circle b)"
  shows "0 \<le> speed b \<Longrightarrow> vy (circle (updateBullet b)) \<le> vy (circle b)"
    and "speed b \<le> 0 \<Longrightarrow> vy (circle b) \<le> vy (circle (updateBullet b))"
proof -
  assume "0 \<le> speed b"
  then have "vy (circle b) - i2f (speed b) \<le> vy (circle b)" by (simp add: fl32.rnd_nonneg)
  then show "vy (circle (updateBullet b)) \<le> vy (circle b)"
    using assms by (simp add: updateBullet_def fl32.rnd_upper)
next
  assume "speed b \<le> 0"
  then have "vy (circle b) \<le> vy (circle b) - i2f (speed b)" by (simp add: fl32.rnd_nonpos)
  then show "vy (circle b) \<le> vy (circle (updateBullet b))"
    using assms by (simp add: updateBullet_def fl32.rnd_lower)
qed

section \<open>Monster\<close>

record Monster =
  msprite :: vector2f
  spriteSize :: vector2f
  mstate :: State

definition Monster_new :: "sfml \<Rightarrow> Monster" where
  "Monster_new S = (let b = sf_monster_bounds S (vec 0 0) in
     \<lparr>msprite = vec 0 0, spriteSize = vec (rwidth b) (rheight b), mstate = alive\<rparr>)"

definition Monster_copy :: "Monster \<Rightarrow> Monster" where
  "Monster_copy m = \<lparr>msprite = msprite m, spriteSize = spriteSize m, mstate = mstate m\<rparr>"

text \<open>
  \<^verbatim>\<open>operator=\<close> returns a copy of its argument and does not write to the object on its
  left: the pair is the object after the assignment and the value returned.
\<close>

definition Monster_assign :: "Monster \<Rightarrow> Monster \<Rightarrow> Monster \<times> Monster" where
  "Monster_assign this monster = (this, Monster_copy monster)"

definition Monster_move :: "sfml \<Rightarrow> vector2f \<Rightarrow> Monster \<Rightarrow> Monster" where
  "Monster_move S v m = m\<lparr>msprite := sf_move S (msprite m) v\<rparr>"

definition Monster_draw :: "Monster \<Rightarrow> draw_cmd list" where
  "Monster_draw m = (if mstate m = alive then [DrawMonster (msprite m)] else [])"

definition Monster_setPosition :: "rat \<Rightarrow> rat \<Rightarrow> Monster \<Rightarrow> Monster" where
  "Monster_setPosition x y m = m\<lparr>msprite := vec x y\<rparr>"

definition getHeight :: "Monster \<Rightarrow> rat" where
  "getHeight m = vy (spriteSize m)"

definition getWidth :: "Monster \<Rightarrow> rat" where
  "getWidth m = vx (spriteSize m)"

definition getMonsterBounds :: "sfml \<Rightarrow> Monster \<Rightarrow> float_rect" where
  "getMonsterBounds S m = sf_monster_bounds S (msprite m)"

definition Monster_kill :: "Monster \<Rightarrow> Monster" where
  "Monster_kill m = m\<lparr>mstate := destroyed\<rparr>"

lemma Monster_simps [simp, game_simps]:
  "mstate (Monster_move S v m) = mstate m" "spriteSize (Monster_move S v m) = spriteSize m"
  "msprite (Monster_move S v m) = sf_move S (msprite m) v"
  "mstate (Monster_setPosition x y m) = mstate m" "spriteSize (Monster_setPosition x y m) = spriteSize m"
  "msprite (Monster_setPosition x y m) = vec x y"
  "mstate (Monster_kill m) = destroyed" "spriteSize (Monster_kill m) = spriteSize m"
  "msprite (Monster_kill m) = msprite m" "mstate (Monster_new S) = alive"
  by (simp_all add: Monster_move_def Monster_setPosition_def Monster_kill_def Monster_new_def Let_def)

lemma Monster_copy_id [simp]: "Monster_copy m = m"
  by (simp add: Monster_copy_def)

end
