(* ===== verification/Monster_Cluster.thy ===== *)
theory Monster_Cluster
  imports Entities
begin

text \<open>
  \<^verbatim>\<open>src/src/Entity/MonsterCluster.h\<close> and \<^verbatim>\<open>.cpp\<close>: the grid of monsters, how it is laid out,
  how it marches across the window, and how it shoots.  Calls whose behaviour is
  undefined in C++ (\<^verbatim>\<open>back()\<close> of an empty vector, a remainder by zero, an index out of range)
  return an error value.
\<close>

section \<open>State\<close>

datatype Direction = left | right | down

datatype game_error = EmptyVector | DivisionByZero | IndexOutOfRange

record MonsterCluster =
  gap :: vector2f
  rows :: "Monster list list"
  position :: vector2f
  leftEdge :: rat
  rightEdge :: rat
  nextDir :: Direction
  destroyedCount :: int
  totalCount :: int
  cl_cooldown :: int
  cl_bulletVec :: "Bullet list"

definition MonsterCluster_new :: "sfml \<Rightarrow> MonsterCluster" where
  "MonsterCluster_new S = \<lparr>gap = vec (getWidth (Monster_new S)) (getHeight (Monster_new S)),
     rows = [], position = vec 0 0, leftEdge = 0, rightEdge = 0, nextDir = right,
     destroyedCount = 0, totalCount = 0, cl_cooldown = 0, cl_bulletVec = []\<rparr>"

section \<open>Layout\<close>

definition row_length :: "sfml \<Rightarrow> vector2f \<Rightarrow> int \<Rightarrow> rat" where
  "row_length S g n =
     fadd (fmul (i2f n) (getWidth (Monster_new S))) (fmul (vx g) (i2f (n - 1)))"

text \<open>The inner loop of \<^verbatim>\<open>setPosition\<close>: the horizontal coordinate is computed in \<^verbatim>\<open>double\<close> after \<^verbatim>\<open>2.\<close>.\<close>

definition monster_x :: "rat \<Rightarrow> vector2f \<Rightarrow> rat \<Rightarrow> nat \<Rightarrow> Monster \<Rightarrow> rat" where
  "monster_x xPos g rowLen i m =
     fl32 (fl64 (fadd xPos (fmul (fadd (getWidth m) (vx g)) (i2f (int i))) - fl64 (rowLen / 2)))"

definition monster_y :: "rat \<Rightarrow> vector2f \<Rightarrow> nat \<Rightarrow> Monster \<Rightarrow> rat" where
  "monster_y yPos g rowIndex m =
     fadd yPos (fmul (fadd (getHeight m) (vy g)) (i2f (int rowIndex)))"

fun place_row :: "rat \<Rightarrow> rat \<Rightarrow> vector2f \<Rightarrow> rat \<Rightarrow> nat \<Rightarrow> nat \<Rightarrow> Monster list \<Rightarrow> Monster list" where
  "place_row xPos yPos g rowLen rowIndex i [] = []"
| "place_row xPos yPos g rowLen rowIndex i (m # ms) =
     Monster_setPosition (monster_x xPos g rowLen i m) (monster_y yPos g rowIndex m) m
       # place_row xPos yPos g rowLen rowIndex (Suc i) ms"

fun place_rows ::
  "sfml \<Rightarrow> rat \<Rightarrow> rat \<Rightarrow> vector2f \<Rightarrow> nat \<Rightarrow> int \<Rightarrow> rat \<times> rat \<Rightarrow> Monster list list
    \<Rightarrow> (rat \<times> rat) \<times> Monster list list" where
  "place_rows S xPos yPos g rowIndex longest edges [] = (edges, [])"
| "place_rows S xPos yPos g rowIndex longest edges (row # rs) =
     (let n = int (length row);
          rowLen = row_length S g n;
          (longest', edges') =
            (if longest < n then (n, (fsub xPos (fdiv rowLen 2), fadd xPos (fdiv rowLen 2)))
             else (longest, edges));
          row' = place_row xPos yPos g rowLen rowIndex 0 row;
          (edges'', rs') = place_rows S xPos yPos g (Suc rowIndex) longest' edges' rs
      in (edges'', row' # rs'))"

definition Cluster_setPosition :: "sfml \<Rightarrow> rat \<Rightarrow> rat \<Rightarrow> MonsterCluster \<Rightarrow> MonsterCluster" where
  "Cluster_setPosition S xPos yPos c =
     (case place_rows S xPos yPos (gap c) 0 0 (leftEdge c, rightEdge c) (rows c) of
        ((l, r), rs) \<Rightarrow>
          c\<lparr>position := vec xPos yPos, leftEdge := l, rightEdge := r, rows := rs\<rparr>)"

definition addRow :: "sfml \<Rightarrow> int \<Rightarrow> MonsterCluster \<Rightarrow> MonsterCluster" where
  "addRow S numberOfMonsters c =
     Cluster_setPosition S (vx (position c)) (vy (position c))
       (c\<lparr>totalCount := totalCount c + int (nat numberOfMonsters),
          rows := rows c @ [replicate (nat numberOfMonsters) (Monster_new S)]\<rparr>)"

section \<open>Shooting\<close>

text \<open>
  The loop of \<^verbatim>\<open>shoot\<close> runs from the last row to the first; \<open>shoot_scan\<close> takes the rows in
  that order.  \<open>rnd\<close> is the value of \<^verbatim>\<open>rand()\<close>.
\<close>

definition monster_shot :: "sfml \<Rightarrow> Monster \<Rightarrow> Bullet" where
  "monster_shot S m =
     Bullet_new (fadd (vx (msprite m)) (fdiv (rwidth (getMonsterBounds S m)) 2)) (vy (msprite m)) (- 5)"

definition alive_at :: "nat \<Rightarrow> Monster list \<Rightarrow> bool" where
  "alive_at col row \<longleftrightarrow> col < length row \<and> mstate (row ! col) = alive"

fun shoot_scan :: "sfml \<Rightarrow> nat \<Rightarrow> Monster list list \<Rightarrow> Bullet option" where
  "shoot_scan S col [] = None"
| "shoot_scan S col (row # rs) =
     (if alive_at col row then Some (monster_shot S (row ! col)) else shoot_scan S col rs)"

definition shot_column :: "nat \<Rightarrow> MonsterCluster \<Rightarrow> nat" where
  "shot_column rnd c = rnd mod length (last (rows c))"

definition Cluster_shoot :: "sfml \<Rightarrow> nat \<Rightarrow> MonsterCluster \<Rightarrow> game_error + MonsterCluster" where
  "Cluster_shoot S rnd c =
     (if rows c = [] then Inl EmptyVector
      else if last (rows c) = [] then Inl DivisionByZero
      else case shoot_scan S (shot_column rnd c) (rev (rows c)) of
             None \<Rightarrow> Inr c
           | Some b \<Rightarrow> Inr (c\<lparr>cl_bulletVec := cl_bulletVec c @ [b]\<rparr>))"

definition Cluster_updateBullets :: "MonsterCluster \<Rightarrow> MonsterCluster" where
  "Cluster_updateBullets c = c\<lparr>cl_bulletVec := map updateBullet (cl_bulletVec c)\<rparr>"

section \<open>Marching\<close>

definition march_vector :: "Direction \<Rightarrow> rat \<Rightarrow> vector2f" where
  "march_vector d velocity =
     (case d of down \<Rightarrow> vec 0 (fmul velocity 4) | right \<Rightarrow> vec velocity 0 | left \<Rightarrow> vec (- velocity) 0)"

definition march_monsters :: "sfml \<Rightarrow> rat \<Rightarrow> MonsterCluster \<Rightarrow> MonsterCluster" where
  "march_monsters S velocity c =
     c\<lparr>rows := map (map (Monster_move S (march_vector (nextDir c) velocity))) (rows c)\<rparr>"

definition cluster_fire :: "sfml \<Rightarrow> nat \<Rightarrow> MonsterCluster \<Rightarrow> game_error + MonsterCluster" where
  "cluster_fire S rnd c =
     (if cl_cooldown c < 50 then Inr (c\<lparr>cl_cooldown := cl_cooldown c + 1\<rparr>)
      else if cl_cooldown c = 50 then
        (case Cluster_shoot S rnd c of Inl e \<Rightarrow> Inl e | Inr c' \<Rightarrow> Inr (c'\<lparr>cl_cooldown := 0\<rparr>))
      else Inr c)"

definition turn :: "rat \<Rightarrow> nat \<Rightarrow> MonsterCluster \<Rightarrow> MonsterCluster" where
  "turn velocity windowWidth c =
     (let W = i2f (int windowWidth) in
      case nextDir c of
        right \<Rightarrow>
          (let c' = c\<lparr>leftEdge := fadd (leftEdge c) velocity, rightEdge := fadd (rightEdge c) velocity\<rparr>
           in if W \<le> rightEdge c' then c'\<lparr>nextDir := down\<rparr> else c')
      | left \<Rightarrow>
          (let c' = c\<lparr>leftEdge := fsub (leftEdge c) velocity, rightEdge := fsub (rightEdge c) velocity\<rparr>
           in if leftEdge c' \<le> 0 then c'\<lparr>nextDir := down\<rparr> else c')
      | down \<Rightarrow>
          (if leftEdge c \<le> 0 then c\<lparr>nextDir := right\<rparr>
           else if W \<le> rightEdge c then c\<lparr>nextDir := left\<rparr>
           else c))"

definition Cluster_move :: "sfml \<Rightarrow> nat \<Rightarrow> rat \<Rightarrow> nat \<Rightarrow> MonsterCluster \<Rightarrow> game_error + MonsterCluster" where
  "Cluster_move S rnd velocity windowWidth c =
     (case cluster_fire S rnd (march_monsters S velocity c) of
        Inl e \<Rightarrow> Inl e
      | Inr c' \<Rightarrow> Inr (turn velocity windowWidth (Cluster_updateBullets c')))"

section \<open>Removing and drawing\<close>

text \<open>
  \<^verbatim>\<open>vector::erase\<close> assigns each element from its right neighbour and destroys the last one.
  For \<^verbatim>\<open>Monster\<close> the assignment is the class's own \<^verbatim>\<open>operator=\<close>.
\<close>

fun erase_shift :: "Monster list \<Rightarrow> Monster list" where
  "erase_shift (a # b # ms) = fst (Monster_assign a b) # erase_shift (b # ms)"
| "erase_shift _ = []"

definition erase_monster :: "nat \<Rightarrow> Monster list \<Rightarrow> Monster list" where
  "erase_monster i ms = take i ms @ erase_shift (drop i ms)"

definition removeMonster :: "int \<Rightarrow> int \<Rightarrow> MonsterCluster \<Rightarrow> game_error + MonsterCluster" where
  "removeMonster row col c =
     (if row < 0 \<or> int (length (rows c)) \<le> row then Inl IndexOutOfRange
      else let monstersRow = rows c ! nat row in
        if col < 0 \<or> int (length monstersRow) \<le> col then Inl IndexOutOfRange
        else if erase_monster (nat col) monstersRow = []
             then Inr (c\<lparr>rows := take (nat row) (rows c) @ drop (Suc (nat row)) (rows c)\<rparr>)
             else Inr c)"

definition Cluster_draw :: "MonsterCluster \<Rightarrow> draw_cmd list" where
  "Cluster_draw c = concat (map (\<lambda>row. concat (map Monster_draw row)) (rows c))"

definition Cluster_drawBullets :: "MonsterCluster \<Rightarrow> draw_cmd list" where
  "Cluster_drawBullets c = concat (map Bullet_draw (cl_bulletVec c))"

section \<open>Layout facts\<close>

lemma place_row_length [simp]: "length (place_row x y g l r i ms) = length ms"
  by (induction ms arbitrary: i) auto

lemma place_row_nth:
  "k < length ms \<Longrightarrow> place_row x y g l r i ms ! k =
     Monster_setPosition (monster_x x g l (i + k) (ms ! k)) (monster_y y g r (ms ! k)) (ms ! k)"
proof (induction ms arbitrary: i k)
  case (Cons m ms)
  then show ?case by (cases k) auto
qed simp

lemma place_row_states: "map mstate (place_row x y g l r i ms) = map mstate ms"
  by (induction ms arbitrary: i) auto

lemma place_row_sizes: "map spriteSize (place_row x y g l r i ms) = map spriteSize ms"
  by (induction ms arbitrary: i) auto

lemma place_rows_Cons:
  "snd (place_rows S x y g r lg ed (row # rs)) =
     place_row x y g (row_length S g (int (length row))) r 0 row
       # snd (place_rows S x y g (Suc r) (max lg (int (length row)))
           (if lg < int (length row)
            then (fsub x (fdiv (row_length S g (int (length row))) 2),
                  fadd x (fdiv (row_length S g (int (length row))) 2)) else ed) rs)"
  by (simp add: Let_def case_prod_beta max_def)

lemma place_rows_length [simp]: "length (snd (place_rows S x y g r lg ed rs)) = length rs"
proof (induction rs arbitrary: r lg ed)
  case (Cons row rs)
  then show ?case by (simp only: place_rows_Cons list.size)
qed simp

lemma place_rows_nth:
  "k < length rs \<Longrightarrow> snd (place_rows S x y g r lg ed rs) ! k =
     place_row x y g (row_length S g (int (length (rs ! k)))) (r + k) 0 (rs ! k)"
proof (induction rs arbitrary: r lg ed k)
  case (Cons row rs)
  then show ?case by (cases k) (simp_all only: place_rows_Cons nth_Cons_0 nth_Cons_Suc, simp_all)
qed simp

text \<open>The edges are those of the first row that is longer than all rows before it and not shorter than any after it.\<close>

lemma place_rows_edges:
  "fst (place_rows S x y g r lg ed rs) =
     (let n = foldl (\<lambda>a row. max a (int (length row))) lg rs in
      if n = lg then ed
      else (fsub x (fdiv (row_length S g n) 2), fadd x (fdiv (row_length S g n) 2)))"
proof (induction rs arbitrary: r lg ed)
  case (Cons row rs)
  have ge: "m \<le> foldl (\<lambda>a row. max a (int (length row))) m rs" for m
    by (induction rs arbitrary: m) (auto intro: order_trans [OF max.cobounded1])
  show ?case
    using Cons.IH ge [of "int (length row)"] ge [of lg]
    by (auto simp: Let_def max_def case_prod_beta)
qed simp

lemma monster_x_mono:
  assumes "getWidth m = getWidth m'" "0 \<le> getWidth m" "0 \<le> vx g" "i \<le> j"
  shows "monster_x x g l i m \<le> monster_x x g l j m'"
proof -
  have w: "0 \<le> fadd (getWidth m) (vx g)" using assms by (intro fl32.rnd_nonneg) simp
  then show ?thesis
    unfolding monster_x_def assms(1) [symmetric] using assms(4)
    by (intro fl32.rnd_mono fl64.rnd_mono diff_right_mono add_left_mono mult_left_mono) auto
qed

section \<open>Counting monsters\<close>

definition all_monsters :: "MonsterCluster \<Rightarrow> Monster list" where
  "all_monsters c = concat (rows c)"

definition destroyed_monsters :: "MonsterCluster \<Rightarrow> nat" where
  "destroyed_monsters c = count_if (\<lambda>m. mstate m = destroyed) (all_monsters c)"

text \<open>The invariant of the cluster: its counters count, and its cooldown stays in range.\<close>

definition cluster_inv :: "MonsterCluster \<Rightarrow> bool" where
  "cluster_inv c \<longleftrightarrow> totalCount c = int (length (all_monsters c)) \<and>
     destroyedCount c = int (destroyed_monsters c) \<and> 0 \<le> cl_cooldown c \<and> cl_cooldown c \<le> 50 \<and>
     (\<forall>b \<in> set (cl_bulletVec c). speed b = - 5)"

lemma destroyed_monsters_map:
  assumes "map (map mstate) (rows c') = map (map mstate) (rows c)"
  shows "destroyed_monsters c' = destroyed_monsters c"
    and "length (all_monsters c') = length (all_monsters c)"
proof -
  have eq: "map mstate (all_monsters c') = map mstate (all_monsters c)"
    using assms by (simp add: all_monsters_def map_concat)
  have "destroyed_monsters d = count_if (\<lambda>s. s = destroyed) (map mstate (all_monsters d))" for d
    by (simp add: destroyed_monsters_def count_if_def filter_map comp_def)
  with eq show "destroyed_monsters c' = destroyed_monsters c" by simp
  from eq show "length (all_monsters c') = length (all_monsters c)" by (metis length_map)
qed

lemma place_rows_states:
  "map (map mstate) (snd (place_rows S x y g r lg ed rs)) = map (map mstate) rs"
proof (induction rs arbitrary: r lg ed)
  case (Cons row rs)
  then show ?case by (simp only: place_rows_Cons list.map place_row_states)
qed simp

lemma Cluster_setPosition_frame [simp]:
  "totalCount (Cluster_setPosition S x y c) = totalCount c"
  "destroyedCount (Cluster_setPosition S x y c) = destroyedCount c"
  "cl_cooldown (Cluster_setPosition S x y c) = cl_cooldown c"
  "cl_bulletVec (Cluster_setPosition S x y c) = cl_bulletVec c"
  "nextDir (Cluster_setPosition S x y c) = nextDir c" "gap (Cluster_setPosition S x y c) = gap c"
  by (simp_all add: Cluster_setPosition_def split: prod.splits)

lemma Cluster_setPosition_rows:
  "rows (Cluster_setPosition S x y c) =
     snd (place_rows S x y (gap c) 0 0 (leftEdge c, rightEdge c) (rows c))"
  by (simp add: Cluster_setPosition_def split: prod.splits)

lemma Cluster_setPosition_states:
  "map (map mstate) (rows (Cluster_setPosition S x y c)) = map (map mstate) (rows c)"
  by (simp add: Cluster_setPosition_rows place_rows_states)

lemma cluster_inv_setPosition: "cluster_inv c \<Longrightarrow> cluster_inv (Cluster_setPosition S x y c)"
  by (simp add: cluster_inv_def destroyed_monsters_map [OF Cluster_setPosition_states])

lemma cluster_inv_new: "cluster_inv (MonsterCluster_new S)"
  by (simp add: cluster_inv_def MonsterCluster_new_def all_monsters_def destroyed_monsters_def)

lemma cluster_inv_addRow: "cluster_inv c \<Longrightarrow> cluster_inv (addRow S n c)"
  unfolding addRow_def
  by (rule cluster_inv_setPosition)
    (auto simp: cluster_inv_def all_monsters_def destroyed_monsters_def count_if_def)

lemma addRow_frame [simp]:
  "destroyedCount (addRow S n c) = destroyedCount c" "cl_bulletVec (addRow S n c) = cl_bulletVec c"
  "nextDir (addRow S n c) = nextDir c" "gap (addRow S n c) = gap c"
  by (simp_all add: addRow_def)

section \<open>One call of move\<close>

lemma march_monsters_frame [simp]:
  "totalCount (march_monsters S v c) = totalCount c"
  "destroyedCount (march_monsters S v c) = destroyedCount c"
  "cl_cooldown (march_monsters S v c) = cl_cooldown c"
  "cl_bulletVec (march_monsters S v c) = cl_bulletVec c" "nextDir (march_monsters S v c) = nextDir c"
  "leftEdge (march_monsters S v c) = leftEdge c" "rightEdge (march_monsters S v c) = rightEdge c"
  "gap (march_monsters S v c) = gap c"
  by (simp_all add: march_monsters_def)

lemma march_monsters_states: "map (map mstate) (rows (march_monsters S v c)) = map (map mstate) (rows c)"
  by (simp add: march_monsters_def comp_def)

lemma cluster_inv_march: "cluster_inv c \<Longrightarrow> cluster_inv (march_monsters S v c)"
  by (simp add: cluster_inv_def destroyed_monsters_map [OF march_monsters_states])

lemma turn_frame [simp]:
  "totalCount (turn v W c) = totalCount c" "destroyedCount (turn v W c) = destroyedCount c"
  "cl_cooldown (turn v W c) = cl_cooldown c" "cl_bulletVec (turn v W c) = cl_bulletVec c"
  "rows (turn v W c) = rows c" "gap (turn v W c) = gap c"
  by (simp_all add: turn_def Let_def split: Direction.splits)

lemma Cluster_updateBullets_frame [simp]:
  "totalCount (Cluster_updateBullets c) = totalCount c"
  "destroyedCount (Cluster_updateBullets c) = destroyedCount c"
  "cl_cooldown (Cluster_updateBullets c) = cl_cooldown c"
  "rows (Cluster_updateBullets c) = rows c" "gap (Cluster_updateBullets c) = gap c"
  "nextDir (Cluster_updateBullets c) = nextDir c"
  "leftEdge (Cluster_updateBullets c) = leftEdge c" "rightEdge (Cluster_updateBullets c) = rightEdge c"
  "cl_bulletVec (Cluster_updateBullets c) = map updateBullet (cl_bulletVec c)"
  by (simp_all add: Cluster_updateBullets_def)

lemma shoot_scan_speed: "shoot_scan S col rs = Some b \<Longrightarrow> speed b = - 5 \<and> bstate b = alive"
  by (induction rs) (auto simp: monster_shot_def Bullet_new_def split: if_splits)

lemma Cluster_shoot_frame:
  assumes "Cluster_shoot S r c = Inr c'"
  shows "\<exists>bs. c' = c\<lparr>cl_bulletVec := cl_bulletVec c @ bs\<rparr> \<and> length bs \<le> 1 \<and> (\<forall>b \<in> set bs. speed b = - 5)"
proof (cases "shoot_scan S (shot_column r c) (rev (rows c))")
  case None
  with assms show ?thesis
    by (intro exI [of _ "[]"]) (auto simp: Cluster_shoot_def split: if_splits)
next
  case (Some b)
  with assms shoot_scan_speed [OF Some] show ?thesis
    by (intro exI [of _ "[b]"]) (auto simp: Cluster_shoot_def split: if_splits)
qed

text \<open>The fire step only touches the cooldown and appends at most one bullet, when the cooldown is over.\<close>

lemma cluster_fire_frame:
  assumes "cluster_fire S r c = Inr c'"
  shows "\<exists>bs k. c' = c\<lparr>cl_cooldown := k, cl_bulletVec := cl_bulletVec c @ bs\<rparr> \<and> length bs \<le> 1 \<and>
           (\<forall>b \<in> set bs. speed b = - 5) \<and> (cl_cooldown c < 50 \<longrightarrow> bs = [] \<and> k = cl_cooldown c + 1) \<and>
           (cl_cooldown c = 50 \<longrightarrow> k = 0) \<and> (50 < cl_cooldown c \<longrightarrow> bs = [] \<and> k = cl_cooldown c)"
proof -
  consider "cl_cooldown c < 50" | "cl_cooldown c = 50" | "50 < cl_cooldown c" by linarith
  then show ?thesis
  proof cases
    case 2
    with assms obtain d where d: "Cluster_shoot S r c = Inr d" "c' = d\<lparr>cl_cooldown := 0\<rparr>"
      by (auto simp: cluster_fire_def split: sum.splits)
    from Cluster_shoot_frame [OF d(1)] obtain bs
      where "d = c\<lparr>cl_bulletVec := cl_bulletVec c @ bs\<rparr>" "length bs \<le> 1" "\<forall>b \<in> set bs. speed b = - 5"
      by auto
    with 2 d(2) show ?thesis by (intro exI [of _ bs] exI [of _ 0]) simp
  next
    case 1
    with assms show ?thesis
      by (intro exI [of _ "[]"] exI [of _ "cl_cooldown c + 1"]) (auto simp: cluster_fire_def)
  next
    case 3
    with assms show ?thesis
      by (intro exI [of _ "[]"] exI [of _ "cl_cooldown c"]) (auto simp: cluster_fire_def)
  qed
qed

lemma Cluster_moveE:
  assumes "Cluster_move S r v W c = Inr c'"
  obtains d where "cluster_fire S r (march_monsters S v c) = Inr d"
    and "c' = turn v W (Cluster_updateBullets d)"
  using assms by (auto simp: Cluster_move_def split: sum.splits)

text \<open>\<open>move\<close> cannot fail while the last row has a monster.\<close>

definition shootable :: "MonsterCluster \<Rightarrow> bool" where
  "shootable c \<longleftrightarrow> rows c \<noteq> [] \<and> last (rows c) \<noteq> []"

lemma Cluster_shoot_total: "shootable c \<Longrightarrow> \<exists>c'. Cluster_shoot S r c = Inr c'"
  by (auto simp: Cluster_shoot_def shootable_def split: option.splits)

lemma Cluster_move_total: "shootable c \<Longrightarrow> \<exists>c'. Cluster_move S r v W c = Inr c'"
proof -
  assume "shootable c"
  then have "shootable (march_monsters S v c)"
    by (simp add: shootable_def march_monsters_def last_map)
  then obtain d where "Cluster_shoot S r (march_monsters S v c) = Inr d"
    using Cluster_shoot_total by blast
  then show ?thesis by (auto simp: Cluster_move_def cluster_fire_def split: sum.splits)
qed

lemma Cluster_move_rows:
  "Cluster_move S r v W c = Inr c' \<Longrightarrow>
     rows c' = map (map (Monster_move S (march_vector (nextDir c) v))) (rows c)"
  by (elim Cluster_moveE, drule cluster_fire_frame) (auto simp: march_monsters_def)

lemma Cluster_move_shootable: "Cluster_move S r v W c = Inr c' \<Longrightarrow> shootable c \<Longrightarrow> shootable c'"
  by (auto simp: shootable_def Cluster_move_rows last_map)

lemma Cluster_move_states:
  "Cluster_move S r v W c = Inr c' \<Longrightarrow> map (map mstate) (rows c') = map (map mstate) (rows c)"
  by (simp add: Cluster_move_rows comp_def)

lemma Cluster_move_counts:
  "Cluster_move S r v W c = Inr c' \<Longrightarrow> totalCount c' = totalCount c \<and> destroyedCount c' = destroyedCount c"
  by (elim Cluster_moveE, drule cluster_fire_frame) auto

lemma cluster_inv_move:
  assumes "Cluster_move S r v W c = Inr c'" "cluster_inv c"
  shows "cluster_inv c'"
proof -
  from assms(1) obtain d where d: "cluster_fire S r (march_monsters S v c) = Inr d"
    and c': "c' = turn v W (Cluster_updateBullets d)" by (rule Cluster_moveE)
  have "0 \<le> cl_cooldown c'" "cl_cooldown c' \<le> 50" "\<forall>b \<in> set (cl_bulletVec c'). speed b = - 5"
    using cluster_fire_frame [OF d] assms(2) by (auto simp: c' cluster_inv_def)
  with assms(2) show ?thesis
    using Cluster_move_counts [OF assms(1)] destroyed_monsters_map [OF Cluster_move_states [OF assms(1)]]
    by (simp add: cluster_inv_def)
qed

section \<open>The marching state machine\<close>

text \<open>
  While the next direction is \<open>down\<close>, one edge of the cluster is outside the window: this
  is what makes the descent last a single call.
\<close>

definition dir_inv :: "nat \<Rightarrow> MonsterCluster \<Rightarrow> bool" where
  "dir_inv W c \<longleftrightarrow> (nextDir c = down \<longrightarrow> leftEdge c \<le> 0 \<or> i2f (int W) \<le> rightEdge c)"

lemma dir_inv_turn: "dir_inv W c \<Longrightarrow> dir_inv W (turn v W c)"
  by (auto simp: dir_inv_def turn_def Let_def split: Direction.splits if_splits)

lemma Cluster_move_dir:
  assumes "Cluster_move S r v W c = Inr c'"
  shows "nextDir c' = nextDir (turn v W c)" "leftEdge c' = leftEdge (turn v W c)"
    "rightEdge c' = rightEdge (turn v W c)"
proof -
  from assms obtain d where d: "cluster_fire S r (march_monsters S v c) = Inr d"
    and c': "c' = turn v W (Cluster_updateBullets d)" by (rule Cluster_moveE)
  have "nextDir d = nextDir c" "leftEdge d = leftEdge c" "rightEdge d = rightEdge c"
    using cluster_fire_frame [OF d] by auto
  then show "nextDir c' = nextDir (turn v W c)" "leftEdge c' = leftEdge (turn v W c)"
    "rightEdge c' = rightEdge (turn v W c)"
    by (auto simp: c' turn_def Let_def split: Direction.splits)
qed

lemma dir_inv_move: "Cluster_move S r v W c = Inr c' \<Longrightarrow> dir_inv W c \<Longrightarrow> dir_inv W c'"
  using dir_inv_turn [of W c v] by (simp add: dir_inv_def Cluster_move_dir)

lemma turn_from_down:
  "nextDir c = down \<Longrightarrow> dir_inv W c \<Longrightarrow>
     turn v W c = c\<lparr>nextDir := (if leftEdge c \<le> 0 then right else left)\<rparr>"
  by (auto simp: turn_def dir_inv_def Let_def)

lemma turn_from_side:
  "nextDir c = right \<Longrightarrow> nextDir (turn v W c) = (if i2f (int W) \<le> fadd (rightEdge c) v then down else right)"
  "nextDir c = left \<Longrightarrow> nextDir (turn v W c) = (if fsub (leftEdge c) v \<le> 0 then down else left)"
  by (simp_all add: turn_def Let_def)

section \<open>Shooting\<close>

lemma shoot_scan_None: "shoot_scan S col rs = None \<longleftrightarrow> (\<forall>row \<in> set rs. \<not> alive_at col row)"
  by (induction rs) auto

lemma shoot_scan_Some:
  "shoot_scan S col rs = Some b \<Longrightarrow>
     \<exists>us row vs. rs = us @ row # vs \<and> alive_at col row \<and> (\<forall>u \<in> set us. \<not> alive_at col u) \<and>
       b = monster_shot S (row ! col)"
proof (induction rs)
  case (Cons row rs)
  show ?case
  proof (cases "alive_at col row")
    case True
    with Cons.prems show ?thesis by (intro exI [of _ "[]"] exI [of _ row] exI [of _ rs]) auto
  next
    case False
    with Cons.prems have "shoot_scan S col rs = Some b" by auto
    from Cons.IH [OF this] obtain us row' vs
      where "rs = us @ row' # vs" "alive_at col row'" "\<forall>u \<in> set us. \<not> alive_at col u"
        "b = monster_shot S (row' ! col)" by blast
    with False show ?thesis by (intro exI [of _ "row # us"] exI [of _ row'] exI [of _ vs]) auto
  qed
qed simp

section \<open>Properties\<close>

text \<open>
  Marching. The descent lasts one call: when the next direction is \<open>down\<close> the cluster
  goes down once, keeps its edges, and turns to the right exactly when its left edge is at
  or beyond the window's border, else to the left; and the fact that makes this so is kept by
  every call.
\<close>

theorem march_descends_once:
  assumes "dir_inv W c" and "Cluster_move S r v W c = Inr c'"
  shows "dir_inv W c' \<and>
    (nextDir c = down \<longrightarrow> nextDir c' = (if leftEdge c \<le> 0 then right else left) \<and>
       leftEdge c' = leftEdge c \<and> rightEdge c' = rightEdge c) \<and>
    (nextDir c = right \<longrightarrow> nextDir c' = (if i2f (int W) \<le> rightEdge c' then down else right)) \<and>
    (nextDir c = left \<longrightarrow> nextDir c' = (if leftEdge c' \<le> 0 then down else left))"
proof -
  have "nextDir c = right \<Longrightarrow> rightEdge c' = fadd (rightEdge c) v"
    "nextDir c = left \<Longrightarrow> leftEdge c' = fsub (leftEdge c) v"
    by (simp_all add: Cluster_move_dir [OF assms(2)] turn_def Let_def)
  then show ?thesis
    using dir_inv_move [OF assms(2,1)] assms(1)
    by (simp add: Cluster_move_dir [OF assms(2)] turn_from_down turn_from_side)
qed

theorem march_descends_once_witness:
  "\<exists>c'. Cluster_move (sfml_box 10 8 10) 0 2 800 ((MonsterCluster_new (sfml_box 10 8 10))\<lparr>nextDir := down\<rparr>) = Inr c' \<and>
     nextDir c' = right"
proof -
  let ?c = "(MonsterCluster_new (sfml_box 10 8 10))\<lparr>nextDir := down\<rparr>"
  obtain c' where c': "Cluster_move (sfml_box 10 8 10) 0 2 800 ?c = Inr c'"
    by (simp add: Cluster_move_def cluster_fire_def MonsterCluster_new_def)
  have "dir_inv 800 ?c" by (simp add: dir_inv_def MonsterCluster_new_def)
  from march_descends_once [OF this c'] c' show ?thesis by (simp add: MonsterCluster_new_def)
qed

text \<open>
  Rigid motion. One call of \<open>move\<close> moves every monster of the grid by the same vector,
  changes no monster's state or size and neither counter, and it succeeds whenever the last
  row has a monster, which it then still has.
\<close>

theorem march_rigid:
  assumes "shootable c" and "sfml_move_ok S"
  shows "\<exists>c'. Cluster_move S r v W c = Inr c' \<and> shootable c' \<and>
    map (map msprite) (rows c') =
      map (map (\<lambda>m. vec (fadd (vx (msprite m)) (vx (march_vector (nextDir c) v)))
                       (fadd (vy (msprite m)) (vy (march_vector (nextDir c) v))))) (rows c) \<and>
    map (map mstate) (rows c') = map (map mstate) (rows c) \<and>
    totalCount c' = totalCount c \<and> destroyedCount c' = destroyedCount c"
proof -
  from Cluster_move_total [OF assms(1)] obtain c' where c': "Cluster_move S r v W c = Inr c'" by blast
  then show ?thesis
    using Cluster_move_shootable [OF c' assms(1)] Cluster_move_states [OF c'] Cluster_move_counts [OF c']
    by (intro exI [of _ c']) (simp add: Cluster_move_rows [OF c'] sfml_moveD [OF assms(2)] comp_def)
qed

theorem march_rigid_witness:
  "let S = sfml_box 10 8 10; c = (MonsterCluster_new S)\<lparr>rows := [[Monster_new S]]\<rparr>
   in \<exists>c'. Cluster_move S 7 2 800 c = Inr c' \<and> map (map msprite) (rows c') = [[vec 2 0]]"
  using march_rigid [of "(MonsterCluster_new (sfml_box 10 8 10))\<lparr>rows := [[Monster_new (sfml_box 10 8 10)]]\<rparr>"
      "sfml_box 10 8 10" 7 2 800]
  by (auto simp: shootable_def MonsterCluster_new_def march_vector_def Monster_new_def Let_def)

text \<open>
  Who shoots. With a monster in the last row \<open>shoot\<close> returns; the column is drawn among the
  columns of the last row, the bullet comes from the lowest monster of that column that is
  alive, and without one nothing changes.
\<close>

theorem shoot_lowest_alive:
  assumes "shootable c"
  shows "((\<forall>row \<in> set (rows c). \<not> alive_at (shot_column r c) row) \<and> Cluster_shoot S r c = Inr c) \<or>
    (\<exists>us row vs. rows c = us @ row # vs \<and> alive_at (shot_column r c) row \<and> (\<forall>u \<in> set vs. \<not> alive_at (shot_column r c) u) \<and>
       Cluster_shoot S r c = Inr (c\<lparr>cl_bulletVec := cl_bulletVec c @ [monster_shot S (row ! (shot_column r c))]\<rparr>))"
proof (cases "shoot_scan S (shot_column r c) (rev (rows c))")
  case None
  with assms(1) have "Cluster_shoot S r c = Inr c"
    by (simp add: Cluster_shoot_def shootable_def)
  with None show ?thesis by (simp add: shoot_scan_None)
next
  case (Some b)
  from shoot_scan_Some [OF Some] obtain us row vs
    where rs: "rev (rows c) = us @ row # vs" and h: "alive_at (shot_column r c) row" "\<forall>u \<in> set us. \<not> alive_at (shot_column r c) u"
      and b: "b = monster_shot S (row ! (shot_column r c))" by blast
  from rs have split: "rows c = rev vs @ row # rev us"
    by (metis append_Cons append_Nil append_assoc rev.simps(2) rev_append rev_rev_ident)
  from Some assms(1) b have
    "Cluster_shoot S r c = Inr (c\<lparr>cl_bulletVec := cl_bulletVec c @ [monster_shot S (row ! (shot_column r c))]\<rparr>)"
    by (simp add: Cluster_shoot_def shootable_def)
  with split h show ?thesis
    by (intro disjI2 exI [of _ "rev vs"] exI [of _ row] exI [of _ "rev us"]) simp
qed

theorem shoot_lowest_alive_witness:
  "let S = sfml_box 10 8 10; m = Monster_new S; c = (MonsterCluster_new S)\<lparr>rows := [[m], [Monster_kill m]]\<rparr>
   in Cluster_shoot S 3 c = Inr (c\<lparr>cl_bulletVec := [monster_shot S m]\<rparr>)"
proof -
  let ?S = "sfml_box 10 8 10"
  let ?c = "(MonsterCluster_new ?S)\<lparr>rows := [[Monster_new ?S], [Monster_kill (Monster_new ?S)]]\<rparr>"
  have col: "shot_column 3 ?c = 0" by (simp add: shot_column_def)
  have "shootable ?c" by (simp add: shootable_def)
  from shoot_lowest_alive [OF this, of 3 ?S] show ?thesis
    unfolding col by (auto simp: Let_def alive_at_def MonsterCluster_new_def append_eq_Cons_conv Cons_eq_append_conv)
qed

end
