(* ===== verification/Player.thy ===== *)
theory Player
  imports Entities
begin

text \<open>
  \<^verbatim>\<open>src/src/Entity/Player.h\<close> and \<^verbatim>\<open>.cpp\<close>: the ship.  The mouse and keyboard queries of one frame
  are the record \<open>controls\<close>; the window the ship is bound to enters as its size.  The
  field \<^verbatim>\<open>playerNum\<close> is never written or read and is left out; \<^verbatim>\<open>state\<close> is not set by the
  constructor, so its first value is a parameter.
\<close>

section \<open>State\<close>

record Player =
  pl_score :: int
  isFiring :: bool
  pl_cooldown :: int
  velocity :: vector2f
  maxVelocity :: rat
  minVelocity :: rat
  acceleration :: rat
  slow :: rat
  lives :: int
  pstate :: State
  offset :: vector2i
  destination :: vector2i
  spawnPosition :: vector2f
  shipSprite :: vector2f
  pl_bulletVec :: "Bullet list"

record controls =
  mouse :: "vector2i option" \<comment> \<open>the pointer's position while the left button is pressed\<close>
  keyW :: bool
  keyS :: bool
  keyA :: bool
  keyD :: bool
  keySpace :: bool

definition initPhysics :: "Player \<Rightarrow> Player" where
  "initPhysics p = p\<lparr>maxVelocity := 10, minVelocity := 1, acceleration := 3, slow := fl32 (95 / 100)\<rparr>"

definition Player_new :: "sfml \<Rightarrow> vector2i \<Rightarrow> State \<Rightarrow> Player" where
  "Player_new S winPos st0 =
     initPhysics
       \<lparr>pl_score = 0, isFiring = False, pl_cooldown = 0, velocity = vec 0 0,
        maxVelocity = 0, minVelocity = 0, acceleration = 0, slow = 0, lives = 3, pstate = st0,
        offset = vec (f2i (fadd (i2f (vx winPos)) (fdiv (rwidth (sf_ship_bounds S (vec 0 0))) 2)))
                     (f2i (fadd (i2f (vy winPos + 40)) (fdiv (rheight (sf_ship_bounds S (vec 0 0))) 2))),
        destination = vec (- 1) (- 1), spawnPosition = vec 0 0, shipSprite = vec 0 0,
        pl_bulletVec = []\<rparr>"

section \<open>Operations\<close>

definition Player_setPosition :: "rat \<Rightarrow> rat \<Rightarrow> Player \<Rightarrow> Player" where
  "Player_setPosition x y p = p\<lparr>spawnPosition := vec x y, shipSprite := vec x y\<rparr>"

definition Player_shoot :: "sfml \<Rightarrow> Player \<Rightarrow> Player" where
  "Player_shoot S p =
     (if isFiring p then p
      else p\<lparr>isFiring := True,
             pl_bulletVec := pl_bulletVec p @
               [Bullet_new (fadd (vx (shipSprite p)) (fdiv (rwidth (sf_ship_bounds S (shipSprite p))) 2))
                  (vy (shipSprite p)) 5]\<rparr>)"

definition clamp_velocity :: "rat \<Rightarrow> rat \<Rightarrow> rat" where
  "clamp_velocity maxV v = (if maxV < \<bar>v\<bar> then (if v < 0 then fmul maxV (- 1) else maxV) else v)"

definition Player_move_dir :: "rat \<Rightarrow> rat \<Rightarrow> Player \<Rightarrow> Player" where
  "Player_move_dir dirX dirY p =
     p\<lparr>velocity :=
         vec (clamp_velocity (maxVelocity p) (fadd (vx (velocity p)) (fmul dirX (acceleration p))))
             (clamp_velocity (maxVelocity p) (fadd (vy (velocity p)) (fmul dirY (acceleration p))))\<rparr>"

text \<open>\<^verbatim>\<open>move()\<close> towards the destination: one axis. The margin is \<^verbatim>\<open>MOVEMENT_MARGIN = 10\<close>.\<close>

definition steer :: "Player \<Rightarrow> int \<Rightarrow> rat \<Rightarrow> rat \<Rightarrow> rat" where
  "steer p dest pos v =
     (let dir = f2i (fsub (i2f dest) pos);
          v' = fadd v (fmul (i2f dir) (acceleration p))
      in if dir < 10 \<and> - 10 < dir then 0 else clamp_velocity (maxVelocity p) v')"

definition Player_move :: "Player \<Rightarrow> Player" where
  "Player_move p =
     p\<lparr>velocity := vec (steer p (vx (destination p)) (vx (shipSprite p)) (vx (velocity p)))
                       (steer p (vy (destination p)) (vy (shipSprite p)) (vy (velocity p)))\<rparr>"

definition key_move :: "bool \<Rightarrow> rat \<Rightarrow> rat \<Rightarrow> Player \<Rightarrow> Player" where
  "key_move pressed dirX dirY p =
     (if pressed
      then Player_move_dir dirX dirY (p\<lparr>destination := vec (- 1) (vy (destination p))\<rparr>)
      else p)"

definition updateMovement :: "sfml \<Rightarrow> controls \<Rightarrow> Player \<Rightarrow> Player" where
  "updateMovement S inp p =
     (let p0 = (case mouse inp of
                  Some m \<Rightarrow> p\<lparr>destination := vec (vx m - vx (offset p)) (vy m - vy (offset p))\<rparr>
                | None \<Rightarrow> p);
          p1 = key_move (keyW inp) 0 (- fl32 (4 / 10)) p0;
          p2 = key_move (keyS inp) 0 (fl32 (4 / 10)) p1;
          p3 = key_move (keyA inp) (- 1) 0 p2;
          p4 = key_move (keyD inp) 1 0 p3;
          p5 = (if vx (destination p4) \<noteq> - 1 then Player_move p4 else p4)
      in if keySpace inp then Player_shoot S p5 else p5)"

definition damp :: "Player \<Rightarrow> rat \<Rightarrow> rat" where
  "damp p v = (let v' = fmul v (slow p) in if \<bar>v'\<bar> < minVelocity p then 0 else v')"

definition updatePhysics :: "sfml \<Rightarrow> Player \<Rightarrow> Player" where
  "updatePhysics S p =
     (let v = vec (damp p (vx (velocity p))) (damp p (vy (velocity p)))
      in p\<lparr>velocity := v, shipSprite := sf_move S (shipSprite p) v\<rparr>)"

definition Player_updateBullets :: "Player \<Rightarrow> Player" where
  "Player_updateBullets p = p\<lparr>pl_bulletVec := map updateBullet (pl_bulletVec p)\<rparr>"

text \<open>The four border tests of \<^verbatim>\<open>update\<close>, in the order of the code: left, up, bottom, right.\<close>

definition border_left :: "Player \<Rightarrow> Player" where
  "border_left p =
     (if vx (shipSprite p) < 0
      then Player_setPosition 0 (vy (shipSprite p)) (p\<lparr>velocity := vec 0 (vy (velocity p))\<rparr>) else p)"

definition border_up :: "Player \<Rightarrow> Player" where
  "border_up p =
     (if vy (shipSprite p) < 0
      then Player_setPosition (vx (shipSprite p)) 0 (p\<lparr>velocity := vec (vx (velocity p)) 0\<rparr>) else p)"

definition border_bottom :: "sfml \<Rightarrow> nat \<Rightarrow> Player \<Rightarrow> Player" where
  "border_bottom S H p =
     (let b = sf_ship_bounds S (shipSprite p) in
      if i2f (int H) < fadd (rtop b) (rheight b)
      then Player_setPosition (rleft b) (fsub (i2f (int H)) (rheight b))
             (p\<lparr>velocity := vec (vx (velocity p)) 0\<rparr>) else p)"

definition border_right :: "sfml \<Rightarrow> nat \<Rightarrow> Player \<Rightarrow> Player" where
  "border_right S W p =
     (let b = sf_ship_bounds S (shipSprite p) in
      if i2f (int W) < fadd (rleft b) (rwidth b)
      then Player_setPosition (fsub (i2f (int W)) (rwidth b)) (rtop b)
             (p\<lparr>velocity := vec 0 (vy (velocity p))\<rparr>) else p)"

definition fire_cooldown :: "Player \<Rightarrow> Player" where
  "fire_cooldown p =
     (if pl_cooldown p < 10 \<and> isFiring p then p\<lparr>pl_cooldown := pl_cooldown p + 1\<rparr>
      else if pl_cooldown p = 10 then p\<lparr>isFiring := False, pl_cooldown := 0\<rparr>
      else p)"

definition Player_update :: "sfml \<Rightarrow> nat \<Rightarrow> nat \<Rightarrow> controls \<Rightarrow> Player \<Rightarrow> Player" where
  "Player_update S W H inp p =
     Player_updateBullets (fire_cooldown
       (border_right S W (border_bottom S H (border_up (border_left
         (updatePhysics S (updateMovement S inp p)))))))"

definition Player_draw :: "Player \<Rightarrow> draw_cmd list" where
  "Player_draw p = [DrawShip (shipSprite p)]"

definition Player_drawBullets :: "Player \<Rightarrow> draw_cmd list" where
  "Player_drawBullets p = concat (map Bullet_draw (pl_bulletVec p))"

definition getPlayerBounds :: "sfml \<Rightarrow> Player \<Rightarrow> float_rect" where
  "getPlayerBounds S p = sf_ship_bounds S (shipSprite p)"

definition setDestination :: "vector2f \<Rightarrow> Player \<Rightarrow> Player" where
  "setDestination d p = p\<lparr>destination := vec (f2i (vx d)) (f2i (vy d))\<rparr>"

definition Player_die :: "Player \<Rightarrow> Player" where
  "Player_die p =
     (if 0 < lives p
      then (Player_setPosition (vx (spawnPosition p)) (vy (spawnPosition p)) p)
             \<lparr>lives := lives p - 1, pstate := destroyed\<rparr>
      else p)"

definition Player_setState :: "State \<Rightarrow> Player \<Rightarrow> Player" where
  "Player_setState st p = p\<lparr>pstate := st\<rparr>"

section \<open>What each step of an update changes\<close>

lemmas border_defs = border_left_def border_up_def border_bottom_def border_right_def
  Player_setPosition_def Let_def

lemma Player_shoot_frame [simp]:
  "velocity (Player_shoot S p) = velocity p" "lives (Player_shoot S p) = lives p"
  "pstate (Player_shoot S p) = pstate p" "shipSprite (Player_shoot S p) = shipSprite p"
  "pl_cooldown (Player_shoot S p) = pl_cooldown p" "maxVelocity (Player_shoot S p) = maxVelocity p"
  "minVelocity (Player_shoot S p) = minVelocity p" "acceleration (Player_shoot S p) = acceleration p"
  "slow (Player_shoot S p) = slow p" "spawnPosition (Player_shoot S p) = spawnPosition p"
  "isFiring (Player_shoot S p)"
  by (simp_all add: Player_shoot_def)

lemma key_move_frame [simp]:
  "lives (key_move k x y p) = lives p" "pstate (key_move k x y p) = pstate p"
  "shipSprite (key_move k x y p) = shipSprite p" "pl_cooldown (key_move k x y p) = pl_cooldown p"
  "maxVelocity (key_move k x y p) = maxVelocity p" "minVelocity (key_move k x y p) = minVelocity p"
  "acceleration (key_move k x y p) = acceleration p" "slow (key_move k x y p) = slow p"
  "spawnPosition (key_move k x y p) = spawnPosition p" "isFiring (key_move k x y p) = isFiring p"
  "pl_bulletVec (key_move k x y p) = pl_bulletVec p"
  by (simp_all add: key_move_def Player_move_dir_def)

lemma Player_move_frame [simp]:
  "lives (Player_move p) = lives p" "pstate (Player_move p) = pstate p"
  "shipSprite (Player_move p) = shipSprite p" "pl_cooldown (Player_move p) = pl_cooldown p"
  "maxVelocity (Player_move p) = maxVelocity p" "minVelocity (Player_move p) = minVelocity p"
  "acceleration (Player_move p) = acceleration p" "slow (Player_move p) = slow p"
  "spawnPosition (Player_move p) = spawnPosition p" "isFiring (Player_move p) = isFiring p"
  "pl_bulletVec (Player_move p) = pl_bulletVec p"
  by (simp_all add: Player_move_def)

lemma updateMovement_frame [simp]:
  "lives (updateMovement S inp p) = lives p" "pstate (updateMovement S inp p) = pstate p"
  "shipSprite (updateMovement S inp p) = shipSprite p"
  "pl_cooldown (updateMovement S inp p) = pl_cooldown p"
  "maxVelocity (updateMovement S inp p) = maxVelocity p"
  "minVelocity (updateMovement S inp p) = minVelocity p"
  "acceleration (updateMovement S inp p) = acceleration p" "slow (updateMovement S inp p) = slow p"
  "spawnPosition (updateMovement S inp p) = spawnPosition p"
  by (simp_all add: updateMovement_def Let_def split: option.splits)

lemma updateMovement_bullets:
  "pl_bulletVec (updateMovement S inp p) =
     (if keySpace inp \<and> \<not> isFiring p
      then pl_bulletVec p @ [Bullet_new (fadd (vx (shipSprite p)) (fdiv (rwidth (sf_ship_bounds S (shipSprite p))) 2))
             (vy (shipSprite p)) 5]
      else pl_bulletVec p)"
  "isFiring (updateMovement S inp p) = (isFiring p \<or> keySpace inp)"
  by (simp_all add: updateMovement_def Player_shoot_def Let_def split: option.splits)

lemma updatePhysics_frame [simp]:
  "lives (updatePhysics S p) = lives p" "pstate (updatePhysics S p) = pstate p"
  "pl_cooldown (updatePhysics S p) = pl_cooldown p" "isFiring (updatePhysics S p) = isFiring p"
  "maxVelocity (updatePhysics S p) = maxVelocity p" "minVelocity (updatePhysics S p) = minVelocity p"
  "acceleration (updatePhysics S p) = acceleration p" "slow (updatePhysics S p) = slow p"
  "pl_bulletVec (updatePhysics S p) = pl_bulletVec p" "spawnPosition (updatePhysics S p) = spawnPosition p"
  by (simp_all add: updatePhysics_def Let_def)

definition borders :: "sfml \<Rightarrow> nat \<Rightarrow> nat \<Rightarrow> Player \<Rightarrow> Player" where
  "borders S W H p = border_right S W (border_bottom S H (border_up (border_left p)))"

lemma borders_frame [simp]:
  "lives (borders S W H p) = lives p" "pstate (borders S W H p) = pstate p"
  "pl_cooldown (borders S W H p) = pl_cooldown p" "isFiring (borders S W H p) = isFiring p"
  "maxVelocity (borders S W H p) = maxVelocity p" "minVelocity (borders S W H p) = minVelocity p"
  "acceleration (borders S W H p) = acceleration p" "slow (borders S W H p) = slow p"
  "pl_bulletVec (borders S W H p) = pl_bulletVec p"
  by (simp_all add: borders_def border_defs)

lemma fire_cooldown_frame [simp]:
  "lives (fire_cooldown p) = lives p" "pstate (fire_cooldown p) = pstate p"
  "velocity (fire_cooldown p) = velocity p" "shipSprite (fire_cooldown p) = shipSprite p"
  "maxVelocity (fire_cooldown p) = maxVelocity p" "minVelocity (fire_cooldown p) = minVelocity p"
  "acceleration (fire_cooldown p) = acceleration p" "slow (fire_cooldown p) = slow p"
  "pl_bulletVec (fire_cooldown p) = pl_bulletVec p" "spawnPosition (fire_cooldown p) = spawnPosition p"
  by (simp_all add: fire_cooldown_def)

lemma Player_updateBullets_frame [simp]:
  "lives (Player_updateBullets p) = lives p" "pstate (Player_updateBullets p) = pstate p"
  "velocity (Player_updateBullets p) = velocity p" "shipSprite (Player_updateBullets p) = shipSprite p"
  "maxVelocity (Player_updateBullets p) = maxVelocity p"
  "minVelocity (Player_updateBullets p) = minVelocity p"
  "acceleration (Player_updateBullets p) = acceleration p" "slow (Player_updateBullets p) = slow p"
  "pl_bulletVec (Player_updateBullets p) = map updateBullet (pl_bulletVec p)"
  "pl_cooldown (Player_updateBullets p) = pl_cooldown p" "isFiring (Player_updateBullets p) = isFiring p"
  "spawnPosition (Player_updateBullets p) = spawnPosition p"
  by (simp_all add: Player_updateBullets_def)

lemma Player_update_eq:
  "Player_update S W H inp p =
     Player_updateBullets (fire_cooldown (borders S W H (updatePhysics S (updateMovement S inp p))))"
  by (simp add: Player_update_def borders_def)

section \<open>Velocities are bounded\<close>

definition velocity_bounded :: "Player \<Rightarrow> bool" where
  "velocity_bounded p \<longleftrightarrow> \<bar>vx (velocity p)\<bar> \<le> 10 \<and> \<bar>vy (velocity p)\<bar> \<le> 10"

lemma clamp_velocity_bound: "\<bar>clamp_velocity 10 v\<bar> \<le> 10"
  by (simp add: clamp_velocity_def)

lemma steer_bound: "maxVelocity p = 10 \<Longrightarrow> \<bar>steer p d x v\<bar> \<le> 10"
  by (simp add: steer_def Let_def clamp_velocity_bound)

lemma slow_le_1: "0 \<le> fl32 (95 / 100)" "fl32 (95 / 100) \<le> 1"
  by (auto intro: fl32.rnd_nonneg fl32.rnd_upper)

lemma damp_bound:
  assumes "\<bar>v\<bar> \<le> 10" "slow p = fl32 (95 / 100)"
  shows "\<bar>damp p v\<bar> \<le> 10"
proof -
  have "\<bar>v * fl32 (95 / 100)\<bar> \<le> 10 * 1"
    unfolding abs_mult using assms(1) slow_le_1 by (intro mult_mono) auto
  then have "\<bar>fmul v (slow p)\<bar> \<le> 10" using assms(2) by (simp add: fl32.rnd_abs_upper)
  then show ?thesis by (simp add: damp_def Let_def)
qed

lemma key_move_velocity: "maxVelocity p = 10 \<Longrightarrow> velocity_bounded p \<Longrightarrow> velocity_bounded (key_move k x y p)"
  by (simp add: velocity_bounded_def key_move_def Player_move_dir_def clamp_velocity_bound)

lemma updateMovement_velocity:
  "maxVelocity p = 10 \<Longrightarrow> velocity_bounded p \<Longrightarrow> velocity_bounded (updateMovement S inp p)"
proof -
  assume m: "maxVelocity p = 10" and v: "velocity_bounded p"
  have sh: "velocity_bounded (Player_shoot S q) = velocity_bounded q" for q
    by (simp add: velocity_bounded_def)
  have mv: "maxVelocity q = 10 \<Longrightarrow> velocity_bounded (Player_move q)" for q
    by (simp add: velocity_bounded_def Player_move_def steer_bound)
  have ds: "velocity_bounded (q\<lparr>destination := d\<rparr>) = velocity_bounded q" for q d
    by (simp add: velocity_bounded_def)
  show ?thesis
    using m v by (simp add: updateMovement_def Let_def sh mv ds key_move_velocity split: option.splits)
qed

lemma updatePhysics_velocity:
  "slow p = fl32 (95 / 100) \<Longrightarrow> velocity_bounded p \<Longrightarrow> velocity_bounded (updatePhysics S p)"
  by (simp add: velocity_bounded_def updatePhysics_def Let_def damp_bound)

lemma borders_velocity: "velocity_bounded p \<Longrightarrow> velocity_bounded (borders S W H p)"
  by (simp add: velocity_bounded_def borders_def border_defs)

section \<open>The invariant of the ship\<close>

definition player_inv :: "Player \<Rightarrow> bool" where
  "player_inv p \<longleftrightarrow> maxVelocity p = 10 \<and> minVelocity p = 1 \<and> acceleration p = 3 \<and> slow p = fl32 (95 / 100) \<and>
     velocity_bounded p \<and> 0 \<le> lives p \<and> lives p \<le> 3 \<and>
     0 \<le> pl_cooldown p \<and> pl_cooldown p \<le> 10 \<and> (0 < pl_cooldown p \<longrightarrow> isFiring p) \<and>
     (\<forall>b \<in> set (pl_bulletVec p). speed b = 5)"

lemma player_inv_new: "player_inv (Player_new S w st0)"
  by (simp add: player_inv_def Player_new_def initPhysics_def velocity_bounded_def)

lemma player_inv_setPosition: "player_inv p \<Longrightarrow> player_inv (Player_setPosition x y p)"
  by (simp add: player_inv_def velocity_bounded_def Player_setPosition_def)

lemma player_inv_setDestination: "player_inv p \<Longrightarrow> player_inv (setDestination d p)"
  by (simp add: player_inv_def velocity_bounded_def setDestination_def)

lemma player_inv_shoot: "player_inv p \<Longrightarrow> player_inv (Player_shoot S p)"
  by (auto simp: player_inv_def velocity_bounded_def Player_shoot_def Bullet_new_def)

lemma player_inv_die: "player_inv p \<Longrightarrow> player_inv (Player_die p)"
  by (auto simp: player_inv_def velocity_bounded_def Player_die_def Player_setPosition_def)

lemma player_inv_setState: "player_inv p \<Longrightarrow> player_inv (Player_setState st p)"
  by (simp add: player_inv_def velocity_bounded_def Player_setState_def)

lemma player_inv_update:
  assumes "player_inv p"
  shows "player_inv (Player_update S W H inp p)"
proof -
  let ?q = "borders S W H (updatePhysics S (updateMovement S inp p))"
  have v: "velocity_bounded ?q"
    using assms by (intro borders_velocity updatePhysics_velocity updateMovement_velocity)
      (auto simp: player_inv_def)
  have "\<forall>b \<in> set (pl_bulletVec ?q). speed b = 5"
    using assms by (auto simp: player_inv_def updateMovement_bullets Bullet_new_def)
  with v assms show ?thesis
    unfolding Player_update_eq
    by (auto simp: player_inv_def fire_cooldown_def velocity_bounded_def updateMovement_bullets)
qed

section \<open>The ship and the borders of the window\<close>

lemma fl32_sub_add:
  assumes "B < 2 ^ 23" "0 \<le> w" "w \<le> of_nat B"
  shows "fadd (fsub (of_nat B) w) w \<le> of_nat B"
proof (cases "B = 0")
  case True
  then show ?thesis using assms by simp
next
  case False
  define Z where "Z = int B * 2 ^ 149"
  have Z: "0 < Z" "of_nat B * 2 ^ 149 = (of_int Z :: rat)" using False by (simp_all add: Z_def)
  have "Z < 2 ^ 23 * 2 ^ 149" unfolding Z_def using assms(1) by simp
  then have "(2 :: int) ^ ilog2 Z < 2 ^ 172" using ilog2_bounds [OF Z(1)] by simp
  then have "ilog2 Z < 172" by (rule power_less_imp_less_exp [rotated]) simp
  then have sh: "shift_of 24 (of_int Z) \<le> 148" using Z(1) by (simp add: shift_of_def)
  have "2 ^ Suc (shift_of 24 (of_int Z)) dvd (2 :: int) ^ 149" using sh by (intro le_imp_power_dvd) simp
  then have dv: "2 * 2 ^ shift_of 24 (of_int Z) dvd Z" unfolding Z_def by (simp add: dvd_mult)
  have u: "0 \<le> w * 2 ^ 149" "w * 2 ^ 149 \<le> of_int Z" using assms(2,3) by (simp_all add: Z(2) [symmetric] mult_right_mono)
  have "round_bits 24 (of_int (round_bits 24 (of_int Z - w * 2 ^ 149)) + w * 2 ^ 149) \<le> Z"
    by (rule round_bits_sub_add [OF Z(1) dv _ u]) simp
  moreover have "(of_nat B - w) * 2 ^ 149 = of_int Z - w * 2 ^ 149" by (simp only: left_diff_distrib Z(2))
  moreover have "(of_int (round_bits 24 (of_int Z - w * 2 ^ 149)) / 2 ^ 149 + w) * 2 ^ 149 = of_int (round_bits 24 (of_int Z - w * 2 ^ 149)) + w * 2 ^ 149"
    by (simp add: distrib_right)
  ultimately have "fl32 (fl32 (of_nat B - w) + w) \<le> of_int Z / 2 ^ 149"
    unfolding fl32_def round_fmt_def by (simp add: divide_right_mono)
  also have "\<dots> = of_nat B" by (simp add: Z_def)
  finally show ?thesis .
qed


lemma border_axis:
  assumes "0 \<le> x" "fl32 x = x" "0 \<le> w" "w \<le> i2f (int B)" "B < 2 ^ 23"
  defines "y \<equiv> (if i2f (int B) < fadd x w then fsub (i2f (int B)) w else x)"
  shows "0 \<le> y" "fadd y w \<le> i2f (int B)"
proof -
  have B: "i2f (int B) = of_nat B" using fl32.rnd_small_int [of "int B"] assms(5) by simp
  have "0 \<le> fsub (of_nat B) w" using assms(4) B by (intro fl32.rnd_nonneg) simp
  then show "0 \<le> y" "fadd y w \<le> i2f (int B)"
    unfolding y_def B using assms(1) fl32_sub_add [OF assms(5,3)] assms(4) B by (auto split: if_splits)
qed

lemma updatePhysics_repr:
  assumes "sfml_move_ok S"
  shows "fl32 (vx (shipSprite (updatePhysics S p))) = vx (shipSprite (updatePhysics S p))"
    "fl32 (vy (shipSprite (updatePhysics S p))) = vy (shipSprite (updatePhysics S p))"
  by (simp_all add: updatePhysics_def Let_def sfml_moveD [OF assms])

lemma borders_inside:
  assumes "bounds_ok (sf_ship_bounds S)"
    and "fl32 (vx (shipSprite p)) = vx (shipSprite p)" "fl32 (vy (shipSprite p)) = vy (shipSprite p)"
    and "\<forall>q. rwidth (sf_ship_bounds S q) = w \<and> rheight (sf_ship_bounds S q) = h"
    and "w \<le> i2f (int W)" "h \<le> i2f (int H)" "W < 2 ^ 23" "H < 2 ^ 23"
  defines "q \<equiv> shipSprite (borders S W H p)"
  shows "0 \<le> vx q" "fadd (vx q) w \<le> i2f (int W)" "0 \<le> vy q" "fadd (vy q) h \<le> i2f (int H)"
proof -
  note b = bounds_okD [OF assms(1)]
  have nonneg: "0 \<le> w" "0 \<le> h" using b(3,4) assms(4) by metis+
  let ?q = "border_up (border_left p)" and ?r = "border_bottom S H (border_up (border_left p))"
  have q: "0 \<le> vx (shipSprite ?q)" "fl32 (vx (shipSprite ?q)) = vx (shipSprite ?q)"
    "0 \<le> vy (shipSprite ?q)" "fl32 (vy (shipSprite ?q)) = vy (shipSprite ?q)"
    using assms(2,3) by (auto simp: border_defs)
  have rx: "vx (shipSprite ?r) = vx (shipSprite ?q)" by (simp add: border_bottom_def border_defs b)
  have ry: "vy (shipSprite ?r) = (if i2f (int H) < fadd (vy (shipSprite ?q)) h then fsub (i2f (int H)) h else vy (shipSprite ?q))"
    unfolding border_bottom_def [of S H ?q] by (simp add: Player_setPosition_def Let_def b assms(4))
  have sx: "vx (shipSprite (border_right S W ?r)) =
      (if i2f (int W) < fadd (vx (shipSprite ?r)) w then fsub (i2f (int W)) w else vx (shipSprite ?r))"
    and sy: "vy (shipSprite (border_right S W ?r)) = vy (shipSprite ?r)"
    unfolding border_right_def [of S W ?r] by (simp_all add: Player_setPosition_def Let_def b assms(4))
  show "0 \<le> vx q" "fadd (vx q) w \<le> i2f (int W)"
    unfolding q_def borders_def sx rx by (rule border_axis [OF q(1,2) nonneg(1) assms(5,7)])+
  show "0 \<le> vy q" "fadd (vy q) h \<le> i2f (int H)"
    unfolding q_def borders_def sy ry by (rule border_axis [OF q(3,4) nonneg(2) assms(6,8)])+
qed

section \<open>Properties\<close>



text \<open>
  The invariant of the ship. The constructor establishes it and every operation keeps
  it: the physical constants, both velocity components within the maximum, the lives
  between 0 and 3, the firing cooldown between 0 and 10 and only running after a shot, and
  every bullet of the ship flying upwards.
\<close>

theorem player_invariant:
  "player_inv (Player_new S w st0) \<and>
   (player_inv p \<longrightarrow> player_inv (Player_setPosition x y p) \<and> player_inv (Player_shoot S p) \<and>
      player_inv (setDestination d p) \<and> player_inv (Player_update S W H inp p) \<and>
      player_inv (Player_die p) \<and> player_inv (Player_setState st p))"
  by (simp add: player_inv_new player_inv_setPosition player_inv_shoot player_inv_setDestination
      player_inv_update player_inv_die player_inv_setState)

theorem player_invariant_witness:
  "player_inv (Player_die (Player_new (sfml_box 10 8 10) (vec 0 0) alive))"
  using player_invariant [of "sfml_box 10 8 10" "vec 0 0" alive
      "Player_new (sfml_box 10 8 10) (vec 0 0) alive"] by simp

definition updates :: "sfml \<Rightarrow> nat \<Rightarrow> nat \<Rightarrow> controls list \<Rightarrow> Player \<Rightarrow> Player" where
  "updates S W H inps p = foldl (\<lambda>q inp. Player_update S W H inp q) p inps"

lemma Player_update_firing:
  assumes "isFiring p"
  shows "length (pl_bulletVec (Player_update S W H inp p)) = length (pl_bulletVec p)"
    "pl_cooldown p < 10 \<Longrightarrow> isFiring (Player_update S W H inp p) \<and>
       pl_cooldown (Player_update S W H inp p) = pl_cooldown p + 1"
    "pl_cooldown p = 10 \<Longrightarrow> \<not> isFiring (Player_update S W H inp p) \<and>
       pl_cooldown (Player_update S W H inp p) = 0"
  using assms by (simp_all add: Player_update_eq updateMovement_bullets fire_cooldown_def)

text \<open>
  Rate of fire. Once a shot is fired with the cooldown at \<open>k\<close>, no sequence of at most
  \<open>10 - k\<close> updates fires another one, whatever the controls; the update after those clears
  the firing flag.
\<close>

theorem rate_of_fire:
  assumes "isFiring p" and "0 \<le> pl_cooldown p" and "int (length inps) + pl_cooldown p \<le> 10"
  shows "length (pl_bulletVec (updates S W H inps p)) = length (pl_bulletVec p) \<and>
    isFiring (updates S W H inps p) \<and>
    pl_cooldown (updates S W H inps p) = pl_cooldown p + int (length inps) \<and>
    (int (length inps) + pl_cooldown p = 10 \<longrightarrow> \<not> isFiring (updates S W H (inps @ [inp]) p))"
  using assms
proof (induction inps arbitrary: p)
  case Nil
  then show ?case by (simp add: updates_def Player_update_firing)
next
  case (Cons i js)
  let ?q = "Player_update S W H i p"
  from Cons.prems have q: "isFiring ?q" "pl_cooldown ?q = pl_cooldown p + 1"
    "length (pl_bulletVec ?q) = length (pl_bulletVec p)" using Player_update_firing [of p] by auto
  have "0 \<le> pl_cooldown ?q" "int (length js) + pl_cooldown ?q \<le> 10" using Cons.prems q(2) by auto
  from Cons.IH [OF q(1) this] q show ?case by (simp add: updates_def algebra_simps)
qed

theorem rate_of_fire_witness:
  "let inp = \<lparr>mouse = None, keyW = False, keyS = False, keyA = False, keyD = False, keySpace = True\<rparr>;
       p = Player_shoot (sfml_box 10 8 10) (Player_new (sfml_box 10 8 10) (vec 0 0) alive)
   in length (pl_bulletVec (updates (sfml_box 10 8 10) 800 600 (replicate 10 inp) p)) = 1 \<and>
      \<not> isFiring (updates (sfml_box 10 8 10) 800 600 (replicate 10 inp @ [inp]) p)"
  using rate_of_fire [of "Player_shoot (sfml_box 10 8 10) (Player_new (sfml_box 10 8 10) (vec 0 0) alive)"
      "replicate 10 \<lparr>mouse = None, keyW = False, keyS = False, keyA = False, keyD = False, keySpace = True\<rparr>"]
  by (simp add: Let_def Player_shoot_def Player_new_def initPhysics_def)

lemma borders_spawn:
  "shipSprite (borders S W H p) = shipSprite p \<or> spawnPosition (borders S W H p) = shipSprite (borders S W H p)"
  by (simp add: borders_def border_defs)

text \<open>
  The spawn point follows the walls. When a border test of \<open>update\<close> pushes the ship back, it
  moves the spawn position too (it goes through \<open>setPosition\<close>): a ship that dies after that
  reappears exactly where it is, at the wall, not where the game placed it first.
\<close>

theorem wall_moves_spawn:
  assumes "shipSprite (Player_update S W H inp p) \<noteq> shipSprite (updatePhysics S (updateMovement S inp p))"
    and "0 < lives p"
  shows "shipSprite (Player_die (Player_update S W H inp p)) = shipSprite (Player_update S W H inp p) \<and>
    lives (Player_die (Player_update S W H inp p)) = lives p - 1"
  using assms borders_spawn [of S W H "updatePhysics S (updateMovement S inp p)"]
  by (simp add: Player_update_eq Player_die_def Player_setPosition_def)

theorem wall_moves_spawn_witness:
  "let S = sfml_box 10 8 10;
       inp = \<lparr>mouse = None, keyW = False, keyS = False, keyA = False, keyD = False, keySpace = False\<rparr>;
       p = Player_update S 800 600 inp ((Player_setPosition 400 300 (Player_new S (vec 0 0) alive))
             \<lparr>shipSprite := vec (- 5) 300\<rparr>)
   in shipSprite (Player_die p) = vec 0 300"
proof -
  let ?inp = "\<lparr>mouse = None, keyW = False, keyS = False, keyA = False, keyD = False, keySpace = False\<rparr>"
  let ?p = "(Player_setPosition 400 300 (Player_new (sfml_box 10 8 10) (vec 0 0) alive)) \<lparr>shipSprite := vec (- 5) 300\<rparr>"
  have a: "shipSprite (updatePhysics (sfml_box 10 8 10) (updateMovement (sfml_box 10 8 10) ?inp ?p)) = vec (- 5) 300"
    and b: "shipSprite (Player_update (sfml_box 10 8 10) 800 600 ?inp ?p) = vec 0 300"
    by (simp_all add: Player_update_eq updatePhysics_def updateMovement_def key_move_def damp_def
        borders_def border_defs sfml_box_def box_bounds_def Player_new_def initPhysics_def)
  show ?thesis
    using wall_moves_spawn [of "sfml_box 10 8 10" 800 600 ?inp ?p] a b
    by (simp add: Player_new_def initPhysics_def Player_setPosition_def)
qed

end
