(* ===== verification/Score.thy ===== *)
theory Score
  imports Player Decimal
begin

text \<open>
  \<^verbatim>\<open>src/src/GameProcessing/Score.h\<close> and \<^verbatim>\<open>.cpp\<close>: the counters of the game, the text drawn
  on the window, and the file of the ten best scores.  The standard library's integer
  output (\<^verbatim>\<open>to_string\<close>, \<^verbatim>\<open>operator<<\<close>) and input (\<^verbatim>\<open>operator>>\<close>) are modelled on strings; a file is
  its contents.
\<close>

section \<open>Printing and reading integers\<close>

definition is_space :: "char \<Rightarrow> bool" where
  "is_space c \<longleftrightarrow> (of_char c :: nat) = 32 \<or> 9 \<le> (of_char c :: nat) \<and> (of_char c :: nat) \<le> 13"

text \<open>
  \<^verbatim>\<open>in >> n\<close>: skip white space, take an optional sign and the longest run of digits; fail
  without a digit or outside the range of \<^verbatim>\<open>int\<close>.
\<close>

definition read_sign :: "string \<Rightarrow> bool \<times> string" where
  "read_sign s = (case s of [] \<Rightarrow> (False, [])
     | c # cs \<Rightarrow> if c = CHR ''-'' then (True, cs) else if c = CHR ''+'' then (False, cs) else (False, s))"

definition read_int :: "string \<Rightarrow> (int \<times> string) option" where
  "read_int s =
     (let (neg, s2) = read_sign (dropWhile is_space s);
          ds = takeWhile is_digit s2;
          v = (if neg then - int (digits_value ds) else int (digits_value ds))
      in if ds = [] \<or> v < - (2 ^ 31) \<or> 2 ^ 31 \<le> v then None else Some (v, dropWhile is_digit s2))"

lemma length_dropWhile_digits: "takeWhile P s \<noteq> [] \<Longrightarrow> length (dropWhile P s) < length s"
  by (cases s) (auto simp: le_imp_less_Suc length_dropWhile_le split: if_splits)

lemma read_sign_length: "length (snd (read_sign s)) \<le> length s"
  by (cases s) (simp_all add: read_sign_def)

lemma read_int_shorter: "read_int s = Some (v, rest) \<Longrightarrow> length rest < length s"
proof -
  assume r: "read_int s = Some (v, rest)"
  define s2 where "s2 = snd (read_sign (dropWhile is_space s))"
  have s2: "rest = dropWhile is_digit s2" "takeWhile is_digit s2 \<noteq> []"
    using r unfolding read_int_def s2_def Let_def case_prod_beta by (simp_all only: split: if_splits) auto
  have "length rest < length s2" using length_dropWhile_digits [OF s2(2)] s2(1) by simp
  also have "\<dots> \<le> length s"
    unfolding s2_def using read_sign_length length_dropWhile_le [of is_space s] order_trans by blast
  finally show ?thesis .
qed

text \<open>The loop \<^verbatim>\<open>while (inFile >> score) sortedScores.push_back(score)\<close>.\<close>

function read_ints :: "string \<Rightarrow> int list" where
  "read_ints s = (case read_int s of None \<Rightarrow> [] | Some (v, rest) \<Rightarrow> v # read_ints rest)"
  by pat_completeness auto
termination by (relation "measure length") (auto dest: read_int_shorter)

declare read_ints.simps [simp del]

section \<open>Score\<close>

record Score =
  playerID :: int
  sc_score :: int
  enemiesKilled :: int

definition Score_new :: "int \<Rightarrow> Score" where
  "Score_new pid = \<lparr>playerID = pid, sc_score = 0, enemiesKilled = 0\<rparr>"

definition addScore :: "int \<Rightarrow> Score \<Rightarrow> Score" where
  "addScore points s = s\<lparr>sc_score := sc_score s + points\<rparr>"

definition addEnemyKilled :: "Score \<Rightarrow> Score" where
  "addEnemyKilled s = s\<lparr>enemiesKilled := enemiesKilled s + 1\<rparr>"

definition Score_reset :: "Score \<Rightarrow> Score" where
  "Score_reset s = s\<lparr>sc_score := 0, enemiesKilled := 0\<rparr>"

definition newline :: string where
  "newline = [char_of (10 :: nat)]"

definition Score_draw :: "Score \<Rightarrow> Player \<Rightarrow> draw_cmd list" where
  "Score_draw s p =
     [DrawText (''Score: '' @ to_string (sc_score s) @ newline @ ''Killed: '' @ to_string (enemiesKilled s)
        @ newline @ ''Lives:'' @ to_string (lives p))]"

text \<open>The scores written to the file: sorted in descending order, the first ten, one per line.\<close>

definition top10 :: "int list \<Rightarrow> int list" where
  "top10 xs = take (min 10 (length xs)) (rev (sort xs))"

definition print_lines :: "int list \<Rightarrow> string" where
  "print_lines xs = concat (map (\<lambda>x. to_string x @ newline) xs)"

text \<open>
  A file is \<open>Some\<close> of its contents or missing.  Opening an output stream on it
  creates it or empties it; \<open>canWrite\<close> and \<open>canRead\<close> say whether the two streams open.
\<close>

type_synonym file_contents = "string option"

definition open_out :: "file_contents \<Rightarrow> file_contents" where
  "open_out f = Some []"

definition saveTop10 :: "bool \<Rightarrow> bool \<Rightarrow> Score \<Rightarrow> file_contents \<Rightarrow> file_contents \<times> string" where
  "saveTop10 canWrite canRead s f =
     (if \<not> canWrite then (f, ''Unable to open file for writing.'' @ newline)
      else let f1 = open_out f;
               old = (case f1 of Some txt \<Rightarrow> if canRead then read_ints txt else [] | None \<Rightarrow> []);
               sortedScores = old @ [sc_score s]
           in (Some (print_lines (top10 sortedScores)), []))"

fun ranking :: "nat \<Rightarrow> int list \<Rightarrow> string" where
  "ranking i [] = []"
| "ranking i (x # xs) = to_string (int (i + 1)) @ ''. '' @ to_string x @ newline @ ranking (Suc i) xs"

definition loadTop10 :: "bool \<Rightarrow> file_contents \<Rightarrow> string \<times> string" where
  "loadTop10 canRead f =
     (case f of
        Some txt \<Rightarrow> if canRead then (''Top 10 Scores:'' @ newline @ ranking 0 (top10 (read_ints txt)), [])
                    else ([], ''Unable to open file for reading.'' @ newline)
      | None \<Rightarrow> ([], ''Unable to open file for reading.'' @ newline))"

section \<open>Reading back what was printed\<close>

lemma take_drop_digits:
  assumes "\<forall>c \<in> set ds. P c" "r = [] \<or> \<not> P (hd r)"
  shows "takeWhile P (ds @ r) = ds" "dropWhile P (ds @ r) = r"
  using assms by (induction ds) (cases r; auto)+

lemma digit_not_sign: "is_digit c \<Longrightarrow> c \<noteq> CHR ''-'' \<and> c \<noteq> CHR ''+'' \<and> \<not> is_space c"
  by (auto simp: is_digit_def is_space_def)

lemma read_int_to_string:
  assumes "- (2 ^ 31) \<le> x" "x < 2 ^ 31" "r = [] \<or> \<not> is_digit (hd r)"
  shows "read_int (to_string x @ r) = Some (x, r)"
proof (cases "x < 0")
  case True
  have "\<not> is_space (CHR ''-'')" by (simp add: is_space_def)
  with True assms show ?thesis
    by (simp add: read_int_def read_sign_def to_string_def Let_def take_drop_digits [OF nat_digits_digits])
next
  case False
  obtain c cs where c: "nat_digits (nat x) = c # cs" by (cases "nat_digits (nat x)") auto
  have "is_digit c" using nat_digits_digits [of "nat x"] by (simp add: c)
  from digit_not_sign [OF this] have "dropWhile is_space (nat_digits (nat x) @ r) = nat_digits (nat x) @ r"
    and "read_sign (nat_digits (nat x) @ r) = (False, nat_digits (nat x) @ r)"
    by (simp_all add: c read_sign_def)
  with False assms show ?thesis
    by (simp add: read_int_def to_string_def Let_def take_drop_digits [OF nat_digits_digits])
qed

lemma read_int_newline: "read_int (newline @ s) = read_int s"
  by (simp add: read_int_def newline_def is_space_def)

lemma newline_not_digit: "\<not> is_digit (hd (newline @ s))"
  by (simp add: newline_def is_digit_def)

lemma read_ints_newline: "read_ints (newline @ s) = read_ints s"
  by (simp add: read_ints.simps [of "newline @ s"] read_ints.simps [of s] read_int_newline)

lemma read_ints_print_lines_append:
  assumes "\<forall>x \<in> set xs. - (2 ^ 31) \<le> x \<and> x < 2 ^ 31"
  shows "read_ints (print_lines xs @ s) = xs @ read_ints s"
  using assms
proof (induction xs)
  case (Cons x xs)
  have "read_int (to_string x @ newline @ print_lines xs @ s) = Some (x, newline @ print_lines xs @ s)"
    using Cons.prems newline_not_digit by (intro read_int_to_string) auto
  then show ?case
    using Cons by (simp add: print_lines_def read_ints.simps [of "to_string x @ _"] read_ints_newline)
qed (simp add: print_lines_def)

lemma read_ints_Nil [simp]: "read_ints [] = []"
  by (simp add: read_ints.simps read_int_def read_sign_def)

section \<open>Properties\<close>

text \<open>
  C6: the score file reads back. The lines \<^verbatim>\<open>saveTop10\<close> writes for any list of \<^verbatim>\<open>int\<close> values are read
  back by the loop of \<^verbatim>\<open>loadTop10\<close> as exactly that list, in that order.
\<close>

theorem score_file_roundtrip:
  assumes "\<forall>x \<in> set xs. - (2 ^ 31) \<le> x \<and> x < 2 ^ 31"
  shows "read_ints (print_lines xs) = xs"
  using read_ints_print_lines_append [OF assms, of "[]"] by simp

theorem score_file_roundtrip_witness: "read_ints (print_lines [4500, - 7, 0]) = [4500, - 7, 0]"
  by (rule score_file_roundtrip) simp

text \<open>
  C7: the ten best. What is written and ranked is in descending order, has at most ten
  entries, and together with the scores left out is a rearrangement of all scores, none
  left out being better than one kept.
\<close>

theorem top10_correct:
  "sorted_wrt (\<ge>) (top10 xs) \<and> length (top10 xs) = min 10 (length xs) \<and>
   (\<exists>out. mset (top10 xs @ out) = mset xs \<and> (\<forall>a \<in> set (top10 xs). \<forall>b \<in> set out. b \<le> a))"
proof -
  define out where "out = drop (min 10 (length xs)) (rev (sort xs))"
  have eq: "top10 xs @ out = rev (sort xs)" by (simp add: top10_def out_def)
  have "sorted_wrt (\<ge>) (top10 xs @ out)" unfolding eq by (simp add: sorted_wrt_rev)
  moreover have "mset (top10 xs @ out) = mset xs" unfolding eq by simp
  moreover have "length (top10 xs) = min 10 (length xs)" by (simp add: top10_def)
  ultimately show ?thesis unfolding sorted_wrt_append by blast
qed

theorem top10_correct_witness: "length (top10 [300, 1200, 0]) = 3 \<and> sorted_wrt (\<ge>) (top10 [300, 1200, 0])"
  using top10_correct [of "[300, 1200, 0]"] by simp

text \<open>
  Saving forgets. Because the output stream is opened, and the file emptied, before the
  old scores are read, a successful \<^verbatim>\<open>saveTop10\<close> leaves a file with the current score alone,
  whatever the file held.
\<close>

theorem saveTop10_forgets:
  "saveTop10 True canRead s f = (Some (to_string (sc_score s) @ newline), [])"
  by (cases canRead) (simp_all add: saveTop10_def open_out_def top10_def print_lines_def)

end
