(* ===== verification/Collisions.thy ===== *)
theory Collisions
  imports Monster_Cluster Score
begin

text \<open>
  \<^verbatim>\<open>src/src/GameProcessing/Collisions.h\<close> and \<^verbatim>\<open>.cpp\<close>.  The class holds pointers to the ship,
  the cluster and the score; the record \<open>game\<close> holds the three objects they point to
  together with the class's own counter.
\<close>

section \<open>State\<close>

record game =
  player :: Player
  cluster :: MonsterCluster
  score :: Score
  deathCooldown :: int

definition Collisions_new :: "Player \<Rightarrow> MonsterCluster \<Rightarrow> Score \<Rightarrow> game" where
  "Collisions_new p c s = \<lparr>player = p, cluster = c, score = s, deathCooldown = 0\<rparr>"

section \<open>checkCollisions\<close>

definition bullet_hits :: "sfml \<Rightarrow> Bullet \<Rightarrow> Monster \<Rightarrow> bool" where
  "bullet_hits S b m \<longleftrightarrow> mstate m = alive \<and> sf_intersects S (getBoundingBox S b) (getMonsterBounds S m)"

text \<open>The two inner loops: the first monster hit, row by row, is killed.\<close>

fun hit_rows :: "sfml \<Rightarrow> Bullet \<Rightarrow> Monster list list \<Rightarrow> Monster list list option" where
  "hit_rows S b [] = None"
| "hit_rows S b (row # rs) =
     (case update_first (bullet_hits S b) Monster_kill row of
        Some row' \<Rightarrow> Some (row' # rs)
      | None \<Rightarrow> map_option (Cons row) (hit_rows S b rs))"

text \<open>The outer loop over the ship's bullets; it returns at the first hit.\<close>

fun player_hits :: "sfml \<Rightarrow> Monster list list \<Rightarrow> Bullet list \<Rightarrow> (Bullet list \<times> Monster list list) option" where
  "player_hits S rs [] = None"
| "player_hits S rs (b # bs) =
     (if bstate b \<noteq> alive then map_option (\<lambda>(bs', rs'). (b # bs', rs')) (player_hits S rs bs)
      else case hit_rows S b rs of
             Some rs' \<Rightarrow> Some (Bullet_hide b # bs, rs')
           | None \<Rightarrow> map_option (\<lambda>(bs', rs'). (b # bs', rs')) (player_hits S rs bs))"

definition enemy_hits :: "sfml \<Rightarrow> Player \<Rightarrow> Bullet \<Rightarrow> bool" where
  "enemy_hits S p b \<longleftrightarrow> sf_intersects S (getBoundingBox S b) (getPlayerBounds S p)"

definition score_kill :: "game \<Rightarrow> Bullet list \<Rightarrow> Monster list list \<Rightarrow> game" where
  "score_kill g bs rs =
     g\<lparr>player := (player g)\<lparr>pl_bulletVec := bs\<rparr>,
       cluster := (cluster g)\<lparr>rows := rs, destroyedCount := destroyedCount (cluster g) + 1\<rparr>,
       score := addScore 100 (addEnemyKilled (score g))\<rparr>"

definition player_phase :: "sfml \<Rightarrow> game \<Rightarrow> game" where
  "player_phase S g =
     (if pstate (player g) = alive \<and> deathCooldown g = 0 then
        (case update_first (enemy_hits S (player g)) Bullet_hide (cl_bulletVec (cluster g)) of
           Some bs \<Rightarrow> g\<lparr>player := Player_die (player g), cluster := (cluster g)\<lparr>cl_bulletVec := bs\<rparr>,
                         deathCooldown := deathCooldown g + 1\<rparr>
         | None \<Rightarrow> g)
      else if deathCooldown g < 50 then g\<lparr>deathCooldown := deathCooldown g + 1\<rparr>
      else g\<lparr>deathCooldown := 0, player := Player_setState alive (player g)\<rparr>)"

definition checkCollisions :: "sfml \<Rightarrow> game \<Rightarrow> game" where
  "checkCollisions S g =
     (case player_hits S (rows (cluster g)) (pl_bulletVec (player g)) of
        Some (bs, rs) \<Rightarrow> score_kill g bs rs
      | None \<Rightarrow> player_phase S g)"

section \<open>Lemmas\<close>

lemma hit_rows_None: "hit_rows S b rs = None \<longleftrightarrow> (\<forall>m \<in> set (concat rs). \<not> bullet_hits S b m)"
proof (induction rs)
  case (Cons row rs)
  then show ?case
    using update_first_None [of "bullet_hits S b" Monster_kill row]
    by (cases "update_first (bullet_hits S b) Monster_kill row") auto
qed simp

lemma hit_rows_Some:
  "hit_rows S b rs = Some rs' \<Longrightarrow>
     \<exists>us m vs. concat rs = us @ m # vs \<and> concat rs' = us @ Monster_kill m # vs \<and> bullet_hits S b m \<and>
       map length rs' = map length rs"
proof (induction rs arbitrary: rs')
  case (Cons row rs)
  show ?case
  proof (cases "update_first (bullet_hits S b) Monster_kill row")
    case None
    with Cons.prems obtain rs'' where r: "hit_rows S b rs = Some rs''" and rs': "rs' = row # rs''" by auto
    from Cons.IH [OF r] obtain us m vs where "concat rs = us @ m # vs"
      "concat rs'' = us @ Monster_kill m # vs" "bullet_hits S b m" "map length rs'' = map length rs" by auto
    then show ?thesis by (intro exI [of _ "row @ us"] exI [of _ m] exI [of _ vs]) (simp add: rs')
  next
    case (Some row')
    from update_first_Some [OF Some] obtain us m vs
      where "row = us @ m # vs" "row' = us @ Monster_kill m # vs" "bullet_hits S b m" by auto
    moreover have "rs' = row' # rs" using Cons.prems Some by simp
    ultimately show ?thesis
      by (intro exI [of _ us] exI [of _ m] exI [of _ "vs @ concat rs"]) simp
  qed
qed simp

lemma player_hits_None:
  "player_hits S rs bs = None \<longleftrightarrow>
     (\<forall>b \<in> set bs. bstate b = alive \<longrightarrow> (\<forall>m \<in> set (concat rs). \<not> bullet_hits S b m))"
proof (induction bs)
  case (Cons b bs)
  then show ?case using hit_rows_None [of S b rs] by (cases "hit_rows S b rs") auto
qed simp

text \<open>A hit hides one live bullet and kills one live monster that it overlaps, and changes nothing else.\<close>

lemma player_hits_Some:
  "player_hits S rs bs = Some (bs', rs') \<Longrightarrow>
     \<exists>bus b bvs us m vs. bs = bus @ b # bvs \<and> bs' = bus @ Bullet_hide b # bvs \<and> bstate b = alive \<and>
       concat rs = us @ m # vs \<and> concat rs' = us @ Monster_kill m # vs \<and> bullet_hits S b m \<and>
       map length rs' = map length rs"
proof (induction bs arbitrary: bs')
  case (Cons b bs)
  show ?case
  proof (cases "bstate b = alive \<and> hit_rows S b rs \<noteq> None")
    case True
    then obtain rs'' where "hit_rows S b rs = Some rs''" by auto
    moreover from this Cons.prems True have "bs' = Bullet_hide b # bs" "rs' = rs''" by auto
    ultimately show ?thesis using hit_rows_Some [of S b rs rs''] True by (metis append_Nil)
  next
    case False
    with Cons.prems obtain bs'' where r: "player_hits S rs bs = Some (bs'', rs')" and b': "bs' = b # bs''"
      by (auto split: if_splits)
    from Cons.IH [OF r] obtain bus b0 bvs us m vs where "bs = bus @ b0 # bvs"
      "bs'' = bus @ Bullet_hide b0 # bvs" "bstate b0 = alive" "concat rs = us @ m # vs"
      "concat rs' = us @ Monster_kill m # vs" "bullet_hits S b0 m" "map length rs' = map length rs" by blast
    then show ?thesis
      by (intro exI [of _ "b # bus"] exI [of _ b0] exI [of _ bvs] exI [of _ us] exI [of _ m] exI [of _ vs])
        (simp add: b')
  qed
qed simp

lemma count_destroyed_kill:
  assumes "concat rs = us @ m # vs" "concat rs' = us @ Monster_kill m # vs" "mstate m = alive"
  shows "count_if (\<lambda>m. mstate m = destroyed) (concat rs') = Suc (count_if (\<lambda>m. mstate m = destroyed) (concat rs))"
    and "length (concat rs') = length (concat rs)"
  unfolding assms(1,2) using assms(3) by simp_all

section \<open>The invariant of the game state\<close>

definition game_inv :: "game \<Rightarrow> bool" where
  "game_inv g \<longleftrightarrow> player_inv (player g) \<and> cluster_inv (cluster g) \<and>
     sc_score (score g) = 100 * enemiesKilled (score g) \<and>
     enemiesKilled (score g) = destroyedCount (cluster g) \<and>
     0 \<le> deathCooldown g \<and> deathCooldown g \<le> 50"

lemma game_inv_score_kill:
  assumes "game_inv g" "player_hits S (rows (cluster g)) (pl_bulletVec (player g)) = Some (bs, rs)"
  shows "game_inv (score_kill g bs rs)"
proof -
  from player_hits_Some [OF assms(2)] obtain bus b bvs us m vs
    where b: "pl_bulletVec (player g) = bus @ b # bvs" "bs = bus @ Bullet_hide b # bvs"
      and m: "concat (rows (cluster g)) = us @ m # vs" "concat rs = us @ Monster_kill m # vs" "bullet_hits S b m"
    by blast
  have "mstate m = alive" using m(3) by (simp add: bullet_hits_def)
  note k = count_destroyed_kill [OF m(1,2) this]
  have "player_inv ((player g)\<lparr>pl_bulletVec := bs\<rparr>)"
    using assms(1) b by (auto simp: game_inv_def player_inv_def velocity_bounded_def Bullet_hide_def)
  moreover have "cluster_inv ((cluster g)\<lparr>rows := rs, destroyedCount := destroyedCount (cluster g) + 1\<rparr>)"
    using assms(1) k by (simp add: game_inv_def cluster_inv_def all_monsters_def destroyed_monsters_def)
  ultimately show ?thesis
    using assms(1) by (simp add: game_inv_def score_kill_def addScore_def addEnemyKilled_def)
qed

lemma game_inv_player_phase:
  assumes "game_inv g"
  shows "game_inv (player_phase S g)"
proof -
  have "update_first P Bullet_hide bs = Some bs' \<Longrightarrow> \<forall>b \<in> set bs. speed b = - 5 \<Longrightarrow> \<forall>b \<in> set bs'. speed b = - 5"
    for P bs bs' by (drule update_first_Some) (auto simp: Bullet_hide_def)
  then show ?thesis
    using assms
    by (auto simp: game_inv_def player_phase_def player_inv_die player_inv_setState cluster_inv_def
        all_monsters_def destroyed_monsters_def split: option.splits)
qed

lemma game_inv_checkCollisions: "game_inv g \<Longrightarrow> game_inv (checkCollisions S g)"
  by (auto simp: checkCollisions_def game_inv_score_kill game_inv_player_phase split: option.splits)

section \<open>Lives and invulnerability\<close>

lemma checkCollisions_cases:
  obtains (kill) bs rs where "player_hits S (rows (cluster g)) (pl_bulletVec (player g)) = Some (bs, rs)"
      "checkCollisions S g = score_kill g bs rs"
  | (phase) "player_hits S (rows (cluster g)) (pl_bulletVec (player g)) = None"
      "checkCollisions S g = player_phase S g"
  by (cases "player_hits S (rows (cluster g)) (pl_bulletVec (player g))")
    (auto simp: checkCollisions_def)

lemma score_kill_frame [simp]:
  "deathCooldown (score_kill g bs rs) = deathCooldown g"
  "lives (player (score_kill g bs rs)) = lives (player g)"
  "pstate (player (score_kill g bs rs)) = pstate (player g)"
  by (simp_all add: score_kill_def)

lemma Player_die_lives: "lives (Player_die p) = (if 0 < lives p then lives p - 1 else lives p)"
  by (simp add: Player_die_def)

lemma checkCollisions_immune:
  assumes "deathCooldown g \<noteq> 0 \<or> pstate (player g) = destroyed"
  shows "lives (player (checkCollisions S g)) = lives (player g)"
    and "deathCooldown (checkCollisions S g) \<in>
      {deathCooldown g, if deathCooldown g < 50 then deathCooldown g + 1 else 0}"
  using assms
  by (cases rule: checkCollisions_cases [of S g]; auto simp: player_phase_def Player_setState_def)+

lemma losing_a_life_step:
  "let g' = checkCollisions S g in
   (lives (player g') = lives (player g) \<or>
     (lives (player g') = lives (player g) - 1 \<and> 0 < lives (player g) \<and> pstate (player g) = alive \<and>
      deathCooldown g = 0 \<and> deathCooldown g' = 1 \<and> pstate (player g') = destroyed \<and>
      (\<exists>b \<in> set (cl_bulletVec (cluster g)). enemy_hits S (player g) b))) \<and>
   (deathCooldown g \<noteq> 0 \<longrightarrow> lives (player g') = lives (player g) \<and>
      deathCooldown g' \<in> {deathCooldown g, if deathCooldown g < 50 then deathCooldown g + 1 else 0})"
proof -
  have "lives (player (player_phase S g)) = lives (player g) \<or>
     (lives (player (player_phase S g)) = lives (player g) - 1 \<and> 0 < lives (player g) \<and>
      pstate (player g) = alive \<and> deathCooldown g = 0 \<and> deathCooldown (player_phase S g) = 1 \<and>
      pstate (player (player_phase S g)) = destroyed \<and>
      (\<exists>b \<in> set (cl_bulletVec (cluster g)). enemy_hits S (player g) b))"
    using update_first_Some [of "enemy_hits S (player g)" Bullet_hide "cl_bulletVec (cluster g)"]
    by (auto simp: player_phase_def Player_die_lives Player_setState_def Player_die_def split: option.splits)
  moreover have "deathCooldown g \<noteq> 0 \<Longrightarrow> ?thesis"
    unfolding Let_def using checkCollisions_immune [of g S] by blast
  ultimately show ?thesis
    unfolding Let_def by (cases rule: checkCollisions_cases [of S g]) auto
qed

section \<open>Properties\<close>

text \<open>
  C2: the books balance. In every state the invariant holds in, and so after any number of
  collision passes, the score is a hundred times the kills, the kills are the monsters destroyed, the
  destroyed ones are counted right, and the score cannot exceed a hundred times the
  monsters created; the ship's and the cluster's own invariants are kept.
\<close>

theorem collisions_keep_books:
  assumes "game_inv g"
  shows "game_inv (checkCollisions S g) \<and>
    sc_score (score (checkCollisions S g)) = 100 * int (destroyed_monsters (cluster (checkCollisions S g))) \<and>
    sc_score (score (checkCollisions S g)) \<le> 100 * totalCount (cluster (checkCollisions S g))"
proof -
  have "game_inv (checkCollisions S g)" using assms by (rule game_inv_checkCollisions)
  moreover have "game_inv h \<Longrightarrow> sc_score (score h) = 100 * int (destroyed_monsters (cluster h)) \<and>
      sc_score (score h) \<le> 100 * totalCount (cluster h)" for h
    using count_if_le [of "\<lambda>m. mstate m = destroyed" "all_monsters (cluster h)"]
    by (auto simp: game_inv_def cluster_inv_def destroyed_monsters_def)
  ultimately show ?thesis by blast
qed

definition demo_sfml :: sfml where
  "demo_sfml = sfml_box 10 8 10"

definition demo_game :: game where
  "demo_game = Collisions_new (Player_new demo_sfml (vec 0 0) alive)
     (addRow demo_sfml 2 (MonsterCluster_new demo_sfml)) (Score_new 1)"

lemma demo_game_inv: "game_inv demo_game"
  by (simp add: demo_game_def Collisions_new_def game_inv_def player_inv_new cluster_inv_addRow
      cluster_inv_new Score_new_def) (simp add: MonsterCluster_new_def)

theorem collisions_keep_books_witness:
  "sc_score (score (checkCollisions demo_sfml demo_game)) \<le> 100 * totalCount (cluster (checkCollisions demo_sfml demo_game))"
  using collisions_keep_books [OF demo_game_inv] by blast

text \<open>
  C3: one pass, one hit. A collision pass either finds that no live bullet of the ship overlaps a live
  monster and leaves all monsters and the score alone, or kills exactly one monster that is
  overlapped by the bullet it hides, adds exactly 100 points, and leaves every other bullet
  and monster as it was.
\<close>

theorem one_kill_per_pass:
  "((\<forall>b \<in> set (pl_bulletVec (player g)). \<forall>m \<in> set (all_monsters (cluster g)).
       \<not> (bstate b = alive \<and> bullet_hits S b m)) \<and>
    rows (cluster (checkCollisions S g)) = rows (cluster g) \<and>
    score (checkCollisions S g) = score g) \<or>
   (\<exists>bus b bvs us m vs.
      pl_bulletVec (player g) = bus @ b # bvs \<and> bstate b = alive \<and> bullet_hits S b m \<and>
      pl_bulletVec (player (checkCollisions S g)) = bus @ Bullet_hide b # bvs \<and>
      all_monsters (cluster g) = us @ m # vs \<and>
      all_monsters (cluster (checkCollisions S g)) = us @ Monster_kill m # vs \<and>
      sc_score (score (checkCollisions S g)) = sc_score (score g) + 100)"
proof (cases rule: checkCollisions_cases [of S g])
  case (kill bs rs)
  from player_hits_Some [OF kill(1)] obtain bus b bvs us m vs
    where "pl_bulletVec (player g) = bus @ b # bvs" "bs = bus @ Bullet_hide b # bvs" "bstate b = alive"
      "concat (rows (cluster g)) = us @ m # vs" "concat rs = us @ Monster_kill m # vs" "bullet_hits S b m" by blast
  then show ?thesis
    unfolding kill(2)
    by (intro disjI2 exI [of _ bus] exI [of _ b] exI [of _ bvs] exI [of _ us] exI [of _ m] exI [of _ vs])
      (simp add: score_kill_def all_monsters_def addScore_def addEnemyKilled_def)
next
  case phase
  have "rows (cluster (player_phase S g)) = rows (cluster g)" "score (player_phase S g) = score g"
    by (simp_all add: player_phase_def split: option.splits)
  with phase show ?thesis by (auto simp: player_hits_None all_monsters_def)
qed

theorem one_kill_per_pass_witness:
  "rows (cluster (checkCollisions demo_sfml demo_game)) = rows (cluster demo_game)"
  using one_kill_per_pass [of demo_game demo_sfml]
  by (simp add: demo_game_def Collisions_new_def Player_new_def initPhysics_def)

text \<open>
  C4: losing a life. A pass takes at most one life, takes one only when an enemy bullet overlaps the ship,
  the ship is alive and the death cooldown is over, and then starts the cooldown;
  while the cooldown runs no life is lost and it advances by at most one per pass.
\<close>

theorem losing_a_life:
  "let g' = checkCollisions S g in
   (lives (player g') = lives (player g) \<or>
     (lives (player g') = lives (player g) - 1 \<and> 0 < lives (player g) \<and> pstate (player g) = alive \<and>
      deathCooldown g = 0 \<and> deathCooldown g' = 1 \<and> pstate (player g') = destroyed \<and>
      (\<exists>b \<in> set (cl_bulletVec (cluster g)). enemy_hits S (player g) b))) \<and>
   (deathCooldown g \<noteq> 0 \<longrightarrow> lives (player g') = lives (player g) \<and>
      deathCooldown g' \<in> {deathCooldown g, if deathCooldown g < 50 then deathCooldown g + 1 else 0})"
  by (rule losing_a_life_step)

theorem losing_a_life_witness:
  "lives (player (checkCollisions demo_sfml (demo_game\<lparr>deathCooldown := 3\<rparr>))) = lives (player demo_game)"
  using losing_a_life [of demo_sfml "demo_game\<lparr>deathCooldown := 3\<rparr>"] by (simp add: Let_def)

definition ghost_game :: game where
  "ghost_game = demo_game\<lparr>cluster := (cluster demo_game)\<lparr>cl_bulletVec := [Bullet_hide (Bullet_new 5 0 (- 5))]\<rparr>\<rparr>"

text \<open>
  A spent bullet still hurts. The loop over the enemy bullets does not look at a bullet's state, so a
  bullet that was hidden when it hit the ship takes another life when the ship is in its
  way again after the cooldown: here every enemy bullet is hidden, and a life is lost.
\<close>

theorem hidden_bullet_kills:
  "map bstate (cl_bulletVec (cluster ghost_game)) = [destroyed] \<and>
   lives (player (checkCollisions demo_sfml ghost_game)) = lives (player ghost_game) - 1"
  by (simp add: ghost_game_def demo_game_def Collisions_new_def checkCollisions_def player_phase_def
      Player_new_def initPhysics_def Player_die_def Player_setPosition_def enemy_hits_def getBoundingBox_def
      getPlayerBounds_def demo_sfml_def sfml_box_def box_bounds_def box_intersects_def Bullet_hide_def Bullet_new_def)

end
