(* ===== verification/Hand_Tracker.thy ===== *)
theory Hand_Tracker
  imports Prelude
begin

text \<open>
  \<^verbatim>\<open>src/src/HandTracking/HandTracker.h\<close> and \<^verbatim>\<open>.cpp\<close>.  The tracking thread publishes the
  landmarks of a frame under the mutex; the game thread reads them through getters that
  take the mutex one call at a time.  Each locked section is one atomic operation here, and a
  function that takes the mutex several times receives the published list it finds
  at each of its reads.  The camera, OpenCV and LibMP are outside: what they return is a
  parameter.
\<close>

section \<open>State\<close>

record HandTracker =
  frameHandLandmarks :: "vector2f list"
  isTracking :: bool
  windowSize :: vector2f
  cameraSize :: vector2f
  hscale :: vector2f

datatype hand_error =
    NullPointer \<comment> \<open>a call through a null pointer\<close>
  | FloatDivByZero \<comment> \<open>a division whose result is not finite\<close>
  | EmptyMessageVector \<comment> \<open>element 0 of an empty vector\<close>

datatype exit_code = EXIT_SUCCESS | EXIT_FAILURE

section \<open>Initialisation\<close>

text \<open>\<open>camW\<close> and \<open>camH\<close> are the \<^verbatim>\<open>double\<close> values of the two camera properties.\<close>

definition conversionInit :: "rat \<Rightarrow> rat \<Rightarrow> HandTracker \<Rightarrow> hand_error + HandTracker" where
  "conversionInit camW camH t =
     (let cs = vec (fl32 camW) (fl32 camH) in
      if vx cs = 0 \<or> vy cs = 0 then Inl FloatDivByZero
      else Inr (t\<lparr>cameraSize := cs,
                  hscale := vec (fdiv (vx (windowSize t)) (vx cs)) (fdiv (vy (windowSize t)) (vy cs))\<rparr>))"

text \<open>
  \<open>created\<close>: \<^verbatim>\<open>LibMP::Create\<close> returned an object; \<open>opened\<close>: the camera opened.  The results of
  \<^verbatim>\<open>AddOutputStream\<close> and \<^verbatim>\<open>Start\<close> are not looked at.
\<close>

definition HandTracker_init ::
  "bool \<Rightarrow> bool \<Rightarrow> rat \<Rightarrow> rat \<Rightarrow> HandTracker \<Rightarrow> hand_error + (exit_code \<times> HandTracker)" where
  "HandTracker_init created opened camW camH t =
     (if \<not> created then Inl NullPointer
      else if \<not> opened then Inr (EXIT_FAILURE, t)
      else case conversionInit camW camH t of
             Inl e \<Rightarrow> Inl e
           | Inr t' \<Rightarrow> Inr (EXIT_SUCCESS, t'\<lparr>isTracking := True\<rparr>))"

text \<open>The constructor ends the process when \<^verbatim>\<open>init\<close> fails: \<open>None\<close>.\<close>

definition HandTracker_new ::
  "bool \<Rightarrow> bool \<Rightarrow> rat \<Rightarrow> rat \<Rightarrow> vector2f \<Rightarrow> hand_error + HandTracker option" where
  "HandTracker_new created opened camW camH win =
     (case HandTracker_init created opened camW camH
        \<lparr>frameHandLandmarks = [], isTracking = False, windowSize = win, cameraSize = vec 0 0, hscale = vec 0 0\<rparr> of
        Inl e \<Rightarrow> Inl e
      | Inr (EXIT_FAILURE, t) \<Rightarrow> Inr None
      | Inr (EXIT_SUCCESS, t) \<Rightarrow> Inr (Some t))"

section \<open>The tracking thread\<close>

text \<open>
  A packet from LibMP: empty, or with messages (the landmark lists of the hands), or of
  a type without messages, for which \<^verbatim>\<open>GetPacketProtoMsgAt\<close> returns a null pointer.
\<close>

type_synonym landmark = "rat \<times> rat \<times> rat"

datatype mp_packet = EmptyPacket | Messages "landmark list list" | NoMessages

text \<open>
  \<open>queue\<close> is LibMP's output queue; an entry \<open>None\<close> stands for a null pointer returned by
  \<^verbatim>\<open>GetOutputPacket\<close>.  The result is the landmarks and the queue that is left.
\<close>

definition parseLandmarksFromPacket ::
  "mp_packet option list \<Rightarrow> hand_error + (landmark list \<times> mp_packet option list)" where
  "parseLandmarksFromPacket queue =
     (let (pkt, rest) = (case queue of [] \<Rightarrow> (None, []) | p # ps \<Rightarrow> (p, ps)) in
      case pkt of
        None \<Rightarrow> Inr ([], rest)
      | Some EmptyPacket \<Rightarrow> Inr ([], rest)
      | Some NoMessages \<Rightarrow> Inl NullPointer
      | Some (Messages []) \<Rightarrow> Inl EmptyMessageVector
      | Some (Messages (hand # _)) \<Rightarrow> Inr (hand, rest))"

text \<open>\<open>processed\<close> is the result of \<^verbatim>\<open>LibMP::Process\<close> on the frame; the thread's loop ignores the code returned.\<close>

definition HandTracker_process :: "bool \<Rightarrow> exit_code" where
  "HandTracker_process processed = (if \<not> processed then EXIT_FAILURE else EXIT_SUCCESS)"

definition frame_landmark :: "int \<Rightarrow> int \<Rightarrow> landmark \<Rightarrow> vector2f" where
  "frame_landmark cols rows lm =
     (case lm of (x, y, z) \<Rightarrow>
        vec (i2f (f2i (fmul x (i2f cols)))) (i2f (f2i (fmul y (i2f rows)))))"

text \<open>One round of the thread's loop, after which the new list is published.\<close>

definition tracking_round ::
  "int \<Rightarrow> int \<Rightarrow> mp_packet option list \<Rightarrow> HandTracker \<Rightarrow> hand_error + (HandTracker \<times> mp_packet option list)" where
  "tracking_round cols rows queue t =
     (case parseLandmarksFromPacket queue of
        Inl e \<Rightarrow> Inl e
      | Inr (lms, rest) \<Rightarrow> Inr (t\<lparr>frameHandLandmarks := map (frame_landmark cols rows) lms\<rparr>, rest))"

definition HandTracker_close :: "HandTracker \<Rightarrow> HandTracker" where
  "HandTracker_close t = t\<lparr>isTracking := False\<rparr>"

section \<open>Reading\<close>

text \<open>The body of \<^verbatim>\<open>getHandLandmark\<close> on the list it finds under the lock. The comparison is unsigned.\<close>

definition getHandLandmark :: "int \<Rightarrow> vector2f list \<Rightarrow> vector2f" where
  "getHandLandmark point lms =
     (if point < 0 \<or> int (length lms) \<le> point then vec (- 1) (- 1) else lms ! nat point)"

definition getWrist :: "vector2f list \<Rightarrow> vector2f" where "getWrist = getHandLandmark 0"
definition getThumbTip :: "vector2f list \<Rightarrow> vector2f" where "getThumbTip = getHandLandmark 4"
definition getFingerTip :: "vector2f list \<Rightarrow> vector2f" where "getFingerTip = getHandLandmark 8"
definition getMiddleFingerTip :: "vector2f list \<Rightarrow> vector2f" where "getMiddleFingerTip = getHandLandmark 12"
definition getRingFingerTip :: "vector2f list \<Rightarrow> vector2f" where "getRingFingerTip = getHandLandmark 16"
definition getPinkyTip :: "vector2f list \<Rightarrow> vector2f" where "getPinkyTip = getHandLandmark 20"

definition convert :: "HandTracker \<Rightarrow> vector2f \<Rightarrow> vector2f" where
  "convert t w =
     (if vx w = - 1 \<and> vy w = - 1 then w
      else vec (fmul (fsub (vx (cameraSize t)) (vx w)) (vx (hscale t))) (fmul (vy w) (vy (hscale t))))"

definition euclideanDistance :: "vector2f \<Rightarrow> vector2f \<Rightarrow> rat" where
  "euclideanDistance p q =
     (let dX = fsub (vx q) (vx p); dY = fsub (vy q) (vy p)
      in fsqrt32 (fadd (fmul dX dX) (fmul dY dY)))"

text \<open>\<^verbatim>\<open>std::max_element\<close>: the index of the first largest element.\<close>

fun max_element_from :: "nat \<Rightarrow> nat \<Rightarrow> rat \<Rightarrow> rat list \<Rightarrow> nat" where
  "max_element_from i best v [] = best"
| "max_element_from i best v (x # xs) =
     (if v < x then max_element_from (Suc i) i x xs else max_element_from (Suc i) best v xs)"

definition max_element :: "rat list \<Rightarrow> nat" where
  "max_element xs = (case xs of [] \<Rightarrow> 0 | x # xs' \<Rightarrow> max_element_from 1 0 x xs')"

text \<open>
  \<^verbatim>\<open>isFistClosed\<close> takes the mutex seven times: for the size, the wrist and the five tips;
  \<open>snap k\<close> is the list published at the \<open>k\<close>th of these reads.
\<close>

definition isFistClosed_reads :: "(nat \<Rightarrow> vector2f list) \<Rightarrow> bool" where
  "isFistClosed_reads snap =
     (if length (snap 0) = 0 then False
      else let wrist = getWrist (snap 1);
               fingers = [getThumbTip (snap 2), getFingerTip (snap 3), getMiddleFingerTip (snap 4),
                          getRingFingerTip (snap 5), getPinkyTip (snap 6)];
               distances = map (euclideanDistance wrist) fingers
           in max_element distances = 0)"

text \<open>Without a publication in between, all reads see the same list.\<close>

definition isFistClosed :: "HandTracker \<Rightarrow> bool" where
  "isFistClosed t = isFistClosed_reads (\<lambda>_. frameHandLandmarks t)"

section \<open>Lemmas\<close>

lemma max_element_from_best:
  "best < i \<Longrightarrow> max_element_from i best v xs = best \<longleftrightarrow> (\<forall>x \<in> set xs. x \<le> v)"
proof (induction xs arbitrary: i best v)
  case (Cons x xs)
  have "max_element_from j b w ys \<ge> b" if "b < j" for j b w ys
    using that by (induction ys arbitrary: j b w) (auto intro: less_imp_le order_trans)
  from this [of i "Suc i" x xs] Cons show ?case by auto
qed simp

lemma max_element_0: "max_element (x # xs) = 0 \<longleftrightarrow> (\<forall>y \<in> set xs. y \<le> x)"
  by (simp add: max_element_def max_element_from_best)

lemma getHandLandmark_whole:
  "getHandLandmark i lms \<in> insert (vec (- 1) (- 1)) (set lms)"
  by (auto simp: getHandLandmark_def)

lemma distance_axis:
  assumes "\<bar>n\<bar> \<le> 4096"
  shows "euclideanDistance (vec 0 0) (vec (of_int n) 0) = of_int \<bar>n\<bar>"
proof -
  have sq: "\<bar>n * n\<bar> \<le> 16777216"
    using mult_mono [OF assms assms] by (simp add: abs_mult)
  have "fl32 (of_int n) = of_int n" using assms by (intro fl32_of_int) simp
  moreover have "fl32 (of_int n * of_int n) = of_int (\<bar>n\<bar> * \<bar>n\<bar>)"
    using fl32_of_int [OF sq] by (simp add: abs_mult [symmetric] flip: of_int_mult)
  moreover have "fl32 (of_int (\<bar>n\<bar> * \<bar>n\<bar>)) = of_int (\<bar>n\<bar> * \<bar>n\<bar>)"
    using sq by (intro fl32_of_int) (simp add: abs_mult)
  moreover have "fl32 (of_int \<bar>n\<bar>) = of_int \<bar>n\<bar>" using assms by (intro fl32_of_int) simp
  ultimately show ?thesis
    using fsqrt32_square [of "\<bar>n\<bar>"] by (simp add: euclideanDistance_def Let_def)
qed

text \<open>A hand with the thumb's tip and the other finger tips at the given distances from the wrist.\<close>

definition open_hand :: "int \<Rightarrow> int \<Rightarrow> vector2f list" where
  "open_hand thumb others =
     map (\<lambda>i. if i = 0 then vec 0 0 else if i = 4 then vec (of_int thumb) 0 else vec (of_int others) 0) [0 ..< 21]"

lemma open_hand_tips:
  "getWrist (open_hand a b) = vec 0 0" "getThumbTip (open_hand a b) = vec (of_int a) 0"
  "getFingerTip (open_hand a b) = vec (of_int b) 0" "getMiddleFingerTip (open_hand a b) = vec (of_int b) 0"
  "getRingFingerTip (open_hand a b) = vec (of_int b) 0" "getPinkyTip (open_hand a b) = vec (of_int b) 0"
  "length (open_hand a b) = 21"
  by (simp_all add: open_hand_def getWrist_def getThumbTip_def getFingerTip_def getMiddleFingerTip_def
      getRingFingerTip_def getPinkyTip_def getHandLandmark_def)

lemma distance_numeral:
  "numeral n \<le> (4096 :: int) \<Longrightarrow> euclideanDistance (vec 0 0) (vec (numeral n) 0) = numeral n"
  using distance_axis [of "numeral n"] by simp

section \<open>Properties\<close>

text \<open>
  What a closed fist is. On one published frame \<open>isFistClosed\<close> is true exactly when there is a
  hand and no other finger tip is farther from the wrist than the tip of the thumb
  (a tie counts as closed).
\<close>

theorem fist_closed_iff:
  "isFistClosed t \<longleftrightarrow> frameHandLandmarks t \<noteq> [] \<and>
     (\<forall>tip \<in> {getFingerTip, getMiddleFingerTip, getRingFingerTip, getPinkyTip}.
        euclideanDistance (getWrist (frameHandLandmarks t)) (tip (frameHandLandmarks t))
        \<le> euclideanDistance (getWrist (frameHandLandmarks t)) (getThumbTip (frameHandLandmarks t)))"
  by (simp add: isFistClosed_def isFistClosed_reads_def Let_def max_element_0)

theorem fist_closed_iff_witness:
  "isFistClosed \<lparr>frameHandLandmarks = open_hand 30 20, isTracking = True, windowSize = vec 800 600,
     cameraSize = vec 640 480, hscale = vec 1 1\<rparr>"
proof -
  have "open_hand 30 20 \<noteq> []" using open_hand_tips(7) [of 30 20] by auto
  then show ?thesis
    unfolding fist_closed_iff by (simp add: open_hand_tips distance_numeral)
qed

text \<open>
  Reads of two frames can be mixed. The mutex makes each read whole, not the seven of them: with the
  next frame published after the thumb was read, \<open>isFistClosed\<close> reports a closed fist
  although the hand is open in both frames.
\<close>

theorem fist_reads_race:
  "\<not> isFistClosed_reads (\<lambda>_. open_hand 20 30) \<and> \<not> isFistClosed_reads (\<lambda>_. open_hand 5 10) \<and>
   isFistClosed_reads (\<lambda>k. if k \<le> 2 then open_hand 20 30 else open_hand 5 10)"
  by (simp add: isFistClosed_reads_def open_hand_tips Let_def max_element_0 distance_numeral)

text \<open>
  The picture is mirrored. \<open>convert\<close> maps a point of the camera picture to the window so that it keeps
  its vertical order and reverses the horizontal one, never leaving the window on the left or
  at the top; and it passes the sentinel for a missing hand through.
\<close>

theorem convert_mirrors:
  assumes "0 \<le> vx (hscale t)" "0 \<le> vy (hscale t)"
    and "vx p \<le> vx q" "vy p \<le> vy q" "0 \<le> vx p" "0 \<le> vy p" "vx q \<le> vx (cameraSize t)"
  shows "vx (convert t q) \<le> vx (convert t p) \<and> vy (convert t p) \<le> vy (convert t q) \<and>
    0 \<le> vx (convert t q) \<and> 0 \<le> vy (convert t p) \<and>
    convert t (vec (- 1) (- 1)) = vec (- 1) (- 1)"
proof -
  have "fsub (vx (cameraSize t)) (vx q) \<le> fsub (vx (cameraSize t)) (vx p)"
    using assms by (intro fl32.rnd_mono) simp
  then have "fmul (fsub (vx (cameraSize t)) (vx q)) (vx (hscale t))
      \<le> fmul (fsub (vx (cameraSize t)) (vx p)) (vx (hscale t))"
    using assms by (intro fl32.rnd_mono mult_right_mono) auto
  moreover have "fmul (vy p) (vy (hscale t)) \<le> fmul (vy q) (vy (hscale t))"
    using assms by (intro fl32.rnd_mono mult_right_mono) auto
  moreover have "0 \<le> fmul (fsub (vx (cameraSize t)) (vx q)) (vx (hscale t))"
    using assms by (intro fl32.rnd_nonneg mult_nonneg_nonneg) auto
  moreover have "0 \<le> fmul (vy p) (vy (hscale t))"
    using assms by (intro fl32.rnd_nonneg mult_nonneg_nonneg) auto
  ultimately show ?thesis using assms by (auto simp: convert_def)
qed

theorem convert_mirrors_witness:
  "let t = \<lparr>frameHandLandmarks = [], isTracking = True, windowSize = vec 1280 960,
            cameraSize = vec 640 480, hscale = vec 2 2\<rparr>
   in vx (convert t (vec 600 10)) \<le> vx (convert t (vec 100 5))"
  using convert_mirrors [of "\<lparr>frameHandLandmarks = [], isTracking = True, windowSize = vec 1280 960,
            cameraSize = vec 640 480, hscale = vec 2 2\<rparr>" "vec 100 5" "vec 600 10"] by simp

end
