(* ===== verification/Game_Loop.thy ===== *)
theory Game_Loop
  imports Collisions Hand_Tracker
begin

text \<open>
  \<^verbatim>\<open>src/src/main.cpp\<close>: the start state, one round of the main loop, and what holds in every
  state the loop reaches.  The window's size is fixed during a run; what a frame reads from
  outside (keyboard and mouse, the hand landmarks found at each locked read, the time since
  the last frame, the value of \<^verbatim>\<open>rand()\<close>) is the record \<open>frame_input\<close>.
\<close>

section \<open>The program\<close>

record frame_input =
  controls_of :: controls
  snapshots :: "nat \<Rightarrow> vector2f list"
  seconds :: rat
  random :: nat

text \<open>\<^verbatim>\<open>SPRITE_SPEED / 3\<close> is an integer division: 400 / 3 = 133.\<close>

definition sprite_speed :: int where
  "sprite_speed = 400"

definition main_init :: "sfml \<Rightarrow> nat \<Rightarrow> nat \<Rightarrow> vector2i \<Rightarrow> State \<Rightarrow> game" where
  "main_init S W H winPos st0 =
     (let p = Player_setPosition (fl32 (fl64 (of_nat W / 2))) (fl32 (fl64 (of_nat H / 2)))
                (Player_new S winPos st0);
          c = Cluster_setPosition S (fl32 (fl64 (of_nat W / 2))) (fl32 (fl64 (of_nat H / 10)))
                (addRow S 15 (addRow S 15 (addRow S 15 (MonsterCluster_new S))))
      in Collisions_new p c (Score_new 1))"

definition detectHandMovement :: "sfml \<Rightarrow> HandTracker \<Rightarrow> (nat \<Rightarrow> vector2f list) \<Rightarrow> Player \<Rightarrow> Player" where
  "detectHandMovement S t snap p =
     (let p' = setDestination (convert t (getWrist (snap 0))) p
      in if isFistClosed_reads (\<lambda>k. snap (Suc k)) then Player_shoot S p' else p')"

definition drawScene :: "game \<Rightarrow> draw_cmd list" where
  "drawScene g = Player_draw (player g) @ Player_drawBullets (player g) @ Cluster_draw (cluster g) @
     Cluster_drawBullets (cluster g) @ Score_draw (score g) (player g)"

definition frame :: "sfml \<Rightarrow> HandTracker \<Rightarrow> nat \<Rightarrow> nat \<Rightarrow> frame_input \<Rightarrow> game \<Rightarrow> game_error + game" where
  "frame S t W H inp g =
     (let p = Player_update S W H (controls_of inp) (detectHandMovement S t (snapshots inp) (player g)) in
      case Cluster_move S (random inp) (fmul (i2f (sprite_speed div 3)) (seconds inp)) W (cluster g) of
        Inl e \<Rightarrow> Inl e
      | Inr c \<Rightarrow> Inr (checkCollisions S (g\<lparr>player := p, cluster := c\<rparr>)))"

section \<open>The invariant of the main loop\<close>

definition loop_inv :: "nat \<Rightarrow> game \<Rightarrow> bool" where
  "loop_inv W g \<longleftrightarrow> game_inv g \<and> dir_inv W (cluster g) \<and> shootable (cluster g) \<and>
     totalCount (cluster g) = 45"

lemma addRow_rows: "map length (rows (addRow S n c)) = map length (rows c) @ [nat n]"
proof -
  have "map length (rows (Cluster_setPosition S x y d)) = map length (rows d)" for x y d
    using arg_cong [OF Cluster_setPosition_states [of S x y d], of "map length"] by (simp add: comp_def)
  then show ?thesis by (simp add: addRow_def)
qed

lemma addRow_total: "totalCount (addRow S n c) = totalCount c + int (nat n)"
  by (simp add: addRow_def)

lemma shootable_lengths: "shootable c \<longleftrightarrow> map length (rows c) \<noteq> [] \<and> last (map length (rows c)) \<noteq> 0"
  by (auto simp: shootable_def last_map)

lemma main_init_inv: "loop_inv W (main_init S W H winPos st0)"
proof -
  let ?c3 = "addRow S 15 (addRow S 15 (addRow S 15 (MonsterCluster_new S)))"
  let ?c = "Cluster_setPosition S (fl32 (fl64 (of_nat W / 2))) (fl32 (fl64 (of_nat H / 10))) ?c3"
  have lens: "map length (rows ?c) = map length (rows ?c3)"
    using arg_cong [OF Cluster_setPosition_states [of S _ _ ?c3], of "map length"] by (simp add: comp_def)
  have "shootable ?c" unfolding shootable_lengths lens by (simp add: addRow_rows MonsterCluster_new_def)
  moreover have "cluster_inv ?c"
    by (intro cluster_inv_setPosition cluster_inv_addRow cluster_inv_new)
  moreover have "totalCount ?c = 45" "destroyedCount ?c = 0" "nextDir ?c = right"
    by (simp_all add: addRow_total MonsterCluster_new_def)
  ultimately show ?thesis
    by (simp add: main_init_def Let_def Collisions_new_def loop_inv_def game_inv_def dir_inv_def
        player_inv_setPosition player_inv_new Score_new_def)
qed

lemma detectHandMovement_inv: "player_inv p \<Longrightarrow> player_inv (detectHandMovement S t snap p)"
  by (simp add: detectHandMovement_def Let_def player_inv_shoot player_inv_setDestination)

lemma checkCollisions_cluster:
  assumes "g' = checkCollisions S g"
  shows "dir_inv W (cluster g') = dir_inv W (cluster g)" "totalCount (cluster g') = totalCount (cluster g)"
    "map length (rows (cluster g')) = map length (rows (cluster g))"
proof (atomize (full), cases rule: checkCollisions_cases [of S g])
  case (kill bs rs)
  have "map length rs = map length (rows (cluster g))" using player_hits_Some [OF kill(1)] by blast
  with kill show "(dir_inv W (cluster g') = dir_inv W (cluster g)) \<and>
      totalCount (cluster g') = totalCount (cluster g) \<and>
      map length (rows (cluster g')) = map length (rows (cluster g))"
    by (simp add: assms score_kill_def dir_inv_def)
next
  case phase
  then show "(dir_inv W (cluster g') = dir_inv W (cluster g)) \<and>
      totalCount (cluster g') = totalCount (cluster g) \<and>
      map length (rows (cluster g')) = map length (rows (cluster g))"
    by (simp add: assms player_phase_def dir_inv_def split: option.splits)
qed

lemma frameE:
  assumes "frame S t W H inp g = Inr g'"
  obtains p c where "Cluster_move S (random inp) (fmul (i2f (sprite_speed div 3)) (seconds inp)) W (cluster g) = Inr c"
    and "p = Player_update S W H (controls_of inp) (detectHandMovement S t (snapshots inp) (player g))"
    and "g' = checkCollisions S (g\<lparr>player := p, cluster := c\<rparr>)"
  using assms by (auto simp: frame_def Let_def split: sum.splits)

lemma frame_inv:
  assumes "frame S t W H inp g = Inr g'" "loop_inv W g"
  shows "loop_inv W g'"
proof -
  from assms(1) obtain p c
    where c: "Cluster_move S (random inp) (fmul (i2f (sprite_speed div 3)) (seconds inp)) W (cluster g) = Inr c"
      and p: "p = Player_update S W H (controls_of inp) (detectHandMovement S t (snapshots inp) (player g))"
      and g': "g' = checkCollisions S (g\<lparr>player := p, cluster := c\<rparr>)" by (rule frameE)
  let ?h = "g\<lparr>player := p, cluster := c\<rparr>"
  have "player_inv p" using assms(2) unfolding p loop_inv_def game_inv_def
    by (intro player_inv_update detectHandMovement_inv) simp
  moreover have "cluster_inv c" using assms(2) c by (auto simp: loop_inv_def game_inv_def intro: cluster_inv_move)
  ultimately have "game_inv ?h"
    using assms(2) Cluster_move_counts [OF c] by (simp add: loop_inv_def game_inv_def)
  then have "game_inv g'" unfolding g' by (rule game_inv_checkCollisions)
  moreover have "dir_inv W c" using assms(2) c dir_inv_move by (auto simp: loop_inv_def)
  moreover have "shootable c" using assms(2) c Cluster_move_shootable by (auto simp: loop_inv_def)
  ultimately show ?thesis
    using checkCollisions_cluster [OF g'] Cluster_move_counts [OF c] assms(2)
    by (simp add: loop_inv_def shootable_lengths)
qed

lemma frame_total: "loop_inv W g \<Longrightarrow> \<exists>g'. frame S t W H inp g = Inr g'"
proof -
  assume "loop_inv W g"
  then have "shootable (cluster g)" by (simp add: loop_inv_def)
  from Cluster_move_total [OF this] obtain c
    where "Cluster_move S (random inp) (fmul (i2f (sprite_speed div 3)) (seconds inp)) W (cluster g) = Inr c"
    by blast
  then show ?thesis by (simp add: frame_def Let_def)
qed

interpretation game_loop: safe_steps "frame S t W H" "loop_inv W" "\<lambda>_. True" for S t W H
  by unfold_locales (metis frame_total frame_inv)

text \<open>All rounds of the main loop, one input per frame.\<close>

definition play :: "sfml \<Rightarrow> HandTracker \<Rightarrow> nat \<Rightarrow> nat \<Rightarrow> frame_input list \<Rightarrow> game \<Rightarrow> game_error + game" where
  "play S t W H inps g = run_steps (frame S t W H) inps g"

section \<open>Lives across frames\<close>

lemma frame_lives:
  assumes "frame S t W H inp g = Inr g'"
  shows "lives (player g') \<le> lives (player g)" "lives (player g) - 1 \<le> lives (player g')"
    and "deathCooldown g \<noteq> 0 \<Longrightarrow> lives (player g') = lives (player g)"
    and "deathCooldown g \<noteq> 0 \<Longrightarrow>
      deathCooldown g' \<in> {deathCooldown g, if deathCooldown g < 50 then deathCooldown g + 1 else 0}"
    and "lives (player g') < lives (player g) \<Longrightarrow> deathCooldown g' = 1"
proof -
  from assms obtain p c
    where p: "p = Player_update S W H (controls_of inp) (detectHandMovement S t (snapshots inp) (player g))"
      and g': "g' = checkCollisions S (g\<lparr>player := p, cluster := c\<rparr>)" by (rule frameE)
  let ?h = "g\<lparr>player := p, cluster := c\<rparr>"
  have l: "lives (player ?h) = lives (player g)"
    by (simp add: p Player_update_eq detectHandMovement_def setDestination_def Let_def)
  have h: "lives (player g') = lives (player ?h) \<or> lives (player g') = lives (player ?h) - 1 \<and> deathCooldown g' = 1"
    "deathCooldown ?h \<noteq> 0 \<Longrightarrow> lives (player g') = lives (player ?h) \<and>
       deathCooldown g' \<in> {deathCooldown ?h, if deathCooldown ?h < 50 then deathCooldown ?h + 1 else 0}"
    using losing_a_life_step [of S ?h] unfolding g' Let_def by blast+
  from h(1) l show "lives (player g') \<le> lives (player g)" "lives (player g) - 1 \<le> lives (player g')"
    "lives (player g') < lives (player g) \<Longrightarrow> deathCooldown g' = 1" by auto
  assume d: "deathCooldown g \<noteq> 0"
  then show "lives (player g') = lives (player g)" using h(2) l by simp
  from d show "deathCooldown g' \<in> {deathCooldown g, if deathCooldown g < 50 then deathCooldown g + 1 else 0}"
    using h(2) by (auto split: if_splits)
qed

lemma immune_run:
  assumes "run_steps (frame S t W H) inps g = Inr g'" "1 \<le> deathCooldown g"
    "deathCooldown g + int (length inps) \<le> 51"
  shows "lives (player g') = lives (player g)"
  using assms
proof (induction inps arbitrary: g)
  case (Cons inp inps)
  from Cons.prems(1) obtain h where h: "frame S t W H inp g = Inr h" "run_steps (frame S t W H) inps h = Inr g'"
    by (auto split: sum.splits)
  from Cons.prems have d: "deathCooldown g \<noteq> 0" by simp
  note l = frame_lives [OF h(1)]
  show ?case
  proof (cases "inps = []")
    case True
    with h(2) l(3) [OF d] show ?thesis by simp
  next
    case False
    with Cons.prems have "deathCooldown g < 50" by (cases inps) auto
    with l(4) [OF d] Cons.prems have "1 \<le> deathCooldown h" "deathCooldown h + int (length inps) \<le> 51" by auto
    from Cons.IH [OF h(2) this] l(3) [OF d] show ?thesis by simp
  qed
qed simp

section \<open>Properties\<close>

text \<open>
  C1: the game keeps its books. From the start state, for any window and any sequence of frames, every round of the main loop is carried out: the
  random shot of the cluster never takes the back of an empty vector, a remainder by zero or a monster that is not there.  The loop invariant
  holds throughout, the score stays between 0 and 4500 and the lives between 0 and 3.  Those three are the failures a frame of the model has.
  The ship's \<^verbatim>\<open>state\<close>, which the first frame reads before anything is stored in it, is any value \<open>st0\<close> here; reading it, a conversion of a
  \<^verbatim>\<open>float\<close> beyond the range of \<^verbatim>\<open>int\<close> and an overflow of an \<^verbatim>\<open>int\<close> are undefined in C++ and not outcomes of the model.
\<close>

theorem game_runs:
  "\<exists>g. play S t W H inps (main_init S W H winPos st0) = Inr g \<and> loop_inv W g \<and>
     0 \<le> sc_score (score g) \<and> sc_score (score g) \<le> 4500 \<and>
     0 \<le> lives (player g) \<and> lives (player g) \<le> 3"
proof -
  have "list_all (\<lambda>_. True) inps" by (simp add: list_all_def)
  from game_loop.run_ok [OF main_init_inv this]
  obtain g where g: "play S t W H inps (main_init S W H winPos st0) = Inr g" "loop_inv W g"
    unfolding play_def by blast
  have "destroyed_monsters (cluster g) \<le> length (all_monsters (cluster g))"
    unfolding destroyed_monsters_def by (rule count_if_le)
  with g(2) have "0 \<le> sc_score (score g)" "sc_score (score g) \<le> 4500" "0 \<le> lives (player g)" "lives (player g) \<le> 3"
    by (auto simp: loop_inv_def game_inv_def cluster_inv_def player_inv_def)
  with g show ?thesis by blast
qed

text \<open>
  A respite after each death. When a frame costs a life, the fifty frames after it cost none.
\<close>

theorem respite_after_death:
  assumes "frame S t W H inp g = Inr h" and "lives (player h) < lives (player g)"
    and "play S t W H inps h = Inr g'" and "length inps \<le> 50"
  shows "lives (player g') = lives (player h)"
proof -
  have "deathCooldown h = 1" using frame_lives(5) [OF assms(1,2)] .
  then show ?thesis using immune_run [OF assms(3) [unfolded play_def]] assms(4) by simp
qed

definition still_input :: frame_input where
  "still_input = \<lparr>controls_of = \<lparr>mouse = None, keyW = False, keyS = False, keyA = False, keyD = False,
     keySpace = False\<rparr>, snapshots = (\<lambda>_. []), seconds = 0, random = 0\<rparr>"

definition still_tracker :: HandTracker where
  "still_tracker = \<lparr>frameHandLandmarks = [], isTracking = True, windowSize = vec 800 600,
     cameraSize = vec 640 480, hscale = vec 1 1\<rparr>"

definition hit_game :: game where
  "hit_game = (let g = main_init demo_sfml 800 600 (vec 0 0) alive in
     g\<lparr>cluster := (cluster g)\<lparr>cl_bulletVec := [Bullet_new 405 295 (- 5)]\<rparr>\<rparr>)"

lemma hit_game_inv: "loop_inv 800 hit_game"
  using main_init_inv [of 800 demo_sfml 600 "vec 0 0" alive]
  by (simp add: hit_game_def Let_def loop_inv_def game_inv_def cluster_inv_def dir_inv_def shootable_def
      all_monsters_def destroyed_monsters_def Bullet_new_def)

lemma main_init_player:
  "player (main_init S W H winPos st0) = Player_setPosition (fl32 (fl64 (of_nat W / 2)))
     (fl32 (fl64 (of_nat H / 2))) (Player_new S winPos st0)"
  "deathCooldown (main_init S W H winPos st0) = 0"
  by (simp_all add: main_init_def Let_def Collisions_new_def)

lemma hit_game_ship:
  "Player_update demo_sfml 800 600 (controls_of still_input)
     (detectHandMovement demo_sfml still_tracker (snapshots still_input) (player hit_game)) =
   (player hit_game)\<lparr>destination := vec (- 1) (- 1)\<rparr>"
  "shipSprite (player hit_game) = vec 400 300" "pstate (player hit_game) = alive" "lives (player hit_game) = 3"
  "pl_bulletVec (player hit_game) = []" "deathCooldown hit_game = 0"
proof -
  have h: "fl64 400 = 400" "fl64 300 = 300" using fl64_of_int [of 400] fl64_of_int [of 300] by simp_all
  note ds = hit_game_def Let_def main_init_player Player_setPosition_def Player_new_def initPhysics_def h
  show "shipSprite (player hit_game) = vec 400 300" "pstate (player hit_game) = alive"
    "lives (player hit_game) = 3" "pl_bulletVec (player hit_game) = []" "deathCooldown hit_game = 0"
    by (simp_all add: ds)
  show "Player_update demo_sfml 800 600 (controls_of still_input)
     (detectHandMovement demo_sfml still_tracker (snapshots still_input) (player hit_game)) =
   (player hit_game)\<lparr>destination := vec (- 1) (- 1)\<rparr>"
    by (simp add: ds Player_update_def still_input_def detectHandMovement_def setDestination_def convert_def
        getWrist_def getHandLandmark_def isFistClosed_reads_def updateMovement_def key_move_def
        updatePhysics_def damp_def demo_sfml_def sfml_box_def border_defs box_bounds_def fire_cooldown_def
        Player_updateBullets_def)
qed

theorem respite_after_death_witness:
  "\<exists>h g'. frame demo_sfml still_tracker 800 600 still_input hit_game = Inr h \<and> lives (player h) = 2 \<and>
     play demo_sfml still_tracker 800 600 (replicate 50 still_input) h = Inr g' \<and> lives (player g') = 2"
proof -
  obtain h where h: "frame demo_sfml still_tracker 800 600 still_input hit_game = Inr h"
    using frame_total [OF hit_game_inv] by blast
  have i: "loop_inv 800 h" using h hit_game_inv by (rule frame_inv)
  have "list_all (\<lambda>_. True) (replicate 50 still_input)" by (simp add: list_all_iff)
  from game_loop.run_ok [OF i this]
  obtain g' where g': "play demo_sfml still_tracker 800 600 (replicate 50 still_input) h = Inr g'"
    unfolding play_def by blast
  from h obtain c where c: "Cluster_move demo_sfml 0 0 800 (cluster hit_game) = Inr c"
    and hc: "h = checkCollisions demo_sfml (hit_game\<lparr>player := (player hit_game)\<lparr>destination := vec (- 1) (- 1)\<rparr>, cluster := c\<rparr>)"
    by (rule frameE) (simp add: hit_game_ship(1), simp add: still_input_def)
  have "cl_bulletVec c = [updateBullet (Bullet_new 405 295 (- 5))]"
    using c unfolding Cluster_move_def
    by (auto simp: cluster_fire_def hit_game_def Let_def main_init_def Collisions_new_def MonsterCluster_new_def
        addRow_def split: sum.splits if_splits)
  then have l: "lives (player h) = 2"
    unfolding hc checkCollisions_def player_phase_def
    by (simp add: hit_game_ship enemy_hits_def getBoundingBox_def getPlayerBounds_def updateBullet_def Bullet_new_def
        demo_sfml_def sfml_box_def box_bounds_def box_intersects_def Player_die_lives)
  with respite_after_death [OF h _ g'] h g' show ?thesis by (auto simp: hit_game_ship)
qed

text \<open>
  Only what is alive is drawn. The scene has one sprite per live monster and one circle per live
  bullet, and nothing for a destroyed one.
\<close>

theorem scene_shows_the_living:
  "{p. DrawMonster p \<in> set (drawScene g)} =
     {msprite m |m. m \<in> set (all_monsters (cluster g)) \<and> mstate m = alive} \<and>
   {p. DrawCircle p \<in> set (drawScene g)} =
     {circle b |b. b \<in> set (pl_bulletVec (player g)) \<union> set (cl_bulletVec (cluster g)) \<and> bstate b = alive}"
  by (auto simp: drawScene_def Player_draw_def Player_drawBullets_def Cluster_draw_def Cluster_drawBullets_def
      Score_draw_def Bullet_draw_def Monster_draw_def all_monsters_def split: if_splits)

end
