(* ===== verification/Timestamp.thy ===== *)
theory Timestamp
  imports Prelude
begin

text \<open>
  \<^verbatim>\<open>mediapipe/framework/timestamp.h\<close> and \<^verbatim>\<open>timestamp.cc\<close>: the 64-bit timestamps of MediaPipe's
  streams, with their special values at both ends of the range.  A timestamp holds its
  integer value; a failed \<^verbatim>\<open>CHECK\<close> (and an overflow of the safe integer type, which is
  fatal too) is an error value.
\<close>

section \<open>Values\<close>

datatype Timestamp = Ts (ts_value: int)

datatype ts_error = CheckFailed | IntOverflow

instantiation Timestamp :: linorder
begin

definition less_eq_Timestamp :: "Timestamp \<Rightarrow> Timestamp \<Rightarrow> bool" where
  "less_eq_Timestamp a b \<longleftrightarrow> ts_value a \<le> ts_value b"

definition less_Timestamp :: "Timestamp \<Rightarrow> Timestamp \<Rightarrow> bool" where
  "less_Timestamp a b \<longleftrightarrow> ts_value a < ts_value b"

instance
  by standard (auto simp: less_eq_Timestamp_def less_Timestamp_def Timestamp.expand)

end

lemma ts_order [simp]: "Ts a \<le> Ts b \<longleftrightarrow> a \<le> b" "Ts a < Ts b \<longleftrightarrow> a < b"
  by (simp_all add: less_eq_Timestamp_def less_Timestamp_def)

lemma ts_eq_iff: "t = u \<longleftrightarrow> ts_value t = ts_value u"
  by (cases t; cases u) simp

lemmas ts_defs = less_eq_Timestamp_def less_Timestamp_def ts_eq_iff

definition kint64min :: int where "kint64min = - (2 ^ 63)"
definition kint64max :: int where "kint64max = 2 ^ 63 - 1"

definition CreateNoErrorChecking :: "int \<Rightarrow> Timestamp" where
  "CreateNoErrorChecking v = Ts v"

definition Unset :: Timestamp where "Unset = Ts kint64min"
definition Unstarted :: Timestamp where "Unstarted = CreateNoErrorChecking (kint64min + 1)"
definition PreStream :: Timestamp where "PreStream = CreateNoErrorChecking (kint64min + 2)"
definition Min :: Timestamp where "Min = CreateNoErrorChecking (kint64min + 3)"
definition Max :: Timestamp where "Max = CreateNoErrorChecking (kint64max - 3)"
definition PostStream :: Timestamp where "PostStream = CreateNoErrorChecking (kint64max - 2)"
definition OneOverPostStream :: Timestamp where "OneOverPostStream = CreateNoErrorChecking (kint64max - 1)"
definition Done :: Timestamp where "Done = CreateNoErrorChecking kint64max"

definition IsSpecialValue :: "Timestamp \<Rightarrow> bool" where
  "IsSpecialValue t \<longleftrightarrow> t \<le> Timestamp.Min \<or> Timestamp.Max \<le> t"

definition IsRangeValue :: "Timestamp \<Rightarrow> bool" where
  "IsRangeValue t \<longleftrightarrow> Timestamp.Min \<le> t \<and> t \<le> Timestamp.Max"

definition IsAllowedInStream :: "Timestamp \<Rightarrow> bool" where
  "IsAllowedInStream t \<longleftrightarrow> PreStream \<le> t \<and> t \<le> PostStream"

text \<open>The explicit constructor refuses the special values.\<close>

definition Timestamp_new :: "int \<Rightarrow> ts_error + Timestamp" where
  "Timestamp_new v = (if IsSpecialValue (Ts v) then Inl CheckFailed else Inr (Ts v))"

section \<open>Arithmetic\<close>

text \<open>A difference is an integer of the safe type: a result outside 64 bits is fatal.\<close>

definition safe_int :: "int \<Rightarrow> ts_error + int" where
  "safe_int v = (if kint64min \<le> v \<and> v \<le> kint64max then Inr v else Inl IntOverflow)"

definition ts_diff :: "Timestamp \<Rightarrow> Timestamp \<Rightarrow> ts_error + int" where
  "ts_diff t u =
     (if IsRangeValue t \<and> IsRangeValue u then safe_int (ts_value t - ts_value u) else Inl CheckFailed)"

definition diff_add :: "int \<Rightarrow> int \<Rightarrow> ts_error + int" where
  "diff_add a b = safe_int (a + b)"

definition diff_sub :: "int \<Rightarrow> int \<Rightarrow> ts_error + int" where
  "diff_sub a b = safe_int (a - b)"

definition diff_neg :: "int \<Rightarrow> ts_error + int" where
  "diff_neg a = safe_int (- a)"

definition ts_add :: "Timestamp \<Rightarrow> int \<Rightarrow> ts_error + Timestamp" where
  "ts_add t off =
     (if \<not> IsRangeValue t then Inl CheckFailed
      else if 0 \<le> off \<and> ts_value Timestamp.Max - off \<le> ts_value t then Inr Timestamp.Max
      else if off \<le> 0 \<and> ts_value t \<le> ts_value Timestamp.Min - off then Inr Timestamp.Min
      else case safe_int (ts_value t + off) of Inl e \<Rightarrow> Inl e | Inr v \<Rightarrow> Timestamp_new v)"

definition ts_sub :: "Timestamp \<Rightarrow> int \<Rightarrow> ts_error + Timestamp" where
  "ts_sub t off = (case diff_neg off of Inl e \<Rightarrow> Inl e | Inr o' \<Rightarrow> ts_add t o')"

definition NextAllowedInStream :: "Timestamp \<Rightarrow> ts_error + Timestamp" where
  "NextAllowedInStream t =
     (if Timestamp.Max \<le> t \<or> t = PreStream then Inr OneOverPostStream
      else if t < Timestamp.Min then Inr Timestamp.Min
      else ts_add t 1)"

definition PreviousAllowedInStream :: "Timestamp \<Rightarrow> ts_error + Timestamp" where
  "PreviousAllowedInStream t =
     (if t \<le> Timestamp.Min \<or> t = PostStream then Inr Unstarted
      else if Timestamp.Max < t then Inr Timestamp.Max
      else ts_sub t 1)"

definition Timestamp_DebugString :: "Timestamp \<Rightarrow> ts_error + string" where
  "Timestamp_DebugString t =
     (if IsSpecialValue t then
        (if t = Unset then Inr ''Timestamp::Unset()''
         else if t = Unstarted then Inr ''Timestamp::Unstarted()''
         else if t = PreStream then Inr ''Timestamp::PreStream()''
         else if t = Timestamp.Min then Inr ''Timestamp::Min()''
         else if t = Timestamp.Max then Inr ''Timestamp::Max()''
         else if t = PostStream then Inr ''Timestamp::PostStream()''
         else if t = OneOverPostStream then Inr ''Timestamp::OneOverPostStream()''
         else if t = Done then Inr ''Timestamp::Done()''
         else Inl CheckFailed)
      else Inr (to_string (ts_value t)))"

lemmas special_defs = Unset_def Unstarted_def PreStream_def Min_def Max_def PostStream_def
  OneOverPostStream_def Done_def CreateNoErrorChecking_def kint64min_def kint64max_def

section \<open>Facts\<close>

lemma special_order [simp]:
  "Unset < Unstarted" "Unstarted < PreStream" "PreStream < Timestamp.Min" "Timestamp.Min < Timestamp.Max"
  "Timestamp.Max < PostStream" "PostStream < OneOverPostStream" "OneOverPostStream < Done"
  by (simp_all add: special_defs)

text \<open>
  What the two neighbour functions compute, without the error type: neither of them can
  fail, so the stream layer uses these values.
\<close>

definition next_ts :: "Timestamp \<Rightarrow> Timestamp" where
  "next_ts t = (case NextAllowedInStream t of Inl _ \<Rightarrow> t | Inr u \<Rightarrow> u)"

definition prev_ts :: "Timestamp \<Rightarrow> Timestamp" where
  "prev_ts t = (case PreviousAllowedInStream t of Inl _ \<Rightarrow> t | Inr u \<Rightarrow> u)"

lemma NextAllowedInStream_eq:
  "NextAllowedInStream t = Inr (if Timestamp.Max \<le> t \<or> t = PreStream then OneOverPostStream
     else if t < Timestamp.Min then Timestamp.Min else Ts (ts_value t + 1))"
  by (cases t) (auto simp: NextAllowedInStream_def ts_add_def IsRangeValue_def safe_int_def Timestamp_new_def
      IsSpecialValue_def special_defs)

lemma PreviousAllowedInStream_eq:
  "PreviousAllowedInStream t = Inr (if t \<le> Timestamp.Min \<or> t = PostStream then Unstarted
     else if Timestamp.Max < t then Timestamp.Max else Ts (ts_value t - 1))"
  by (cases t) (auto simp: PreviousAllowedInStream_def ts_sub_def diff_neg_def ts_add_def IsRangeValue_def
      safe_int_def Timestamp_new_def IsSpecialValue_def special_defs)

lemma next_ts_eq:
  "next_ts t = (if Timestamp.Max \<le> t \<or> t = PreStream then OneOverPostStream
     else if t < Timestamp.Min then Timestamp.Min else Ts (ts_value t + 1))"
  by (simp add: next_ts_def NextAllowedInStream_eq)

lemma prev_ts_eq:
  "prev_ts t = (if t \<le> Timestamp.Min \<or> t = PostStream then Unstarted
     else if Timestamp.Max < t then Timestamp.Max else Ts (ts_value t - 1))"
  by (simp add: prev_ts_def PreviousAllowedInStream_eq)

lemma next_ts_greater: "t \<le> PostStream \<Longrightarrow> t < next_ts t"
  by (cases t) (auto simp: next_ts_eq special_defs)

lemma next_ts_le_Done: "next_ts t \<le> OneOverPostStream"
  by (cases t) (auto simp: next_ts_eq special_defs)

lemma next_ts_mono:
  "t \<le> u \<Longrightarrow> t \<noteq> PreStream \<Longrightarrow> next_ts t \<le> next_ts u"
  by (cases t; cases u) (auto simp: next_ts_eq special_defs)

section \<open>Properties\<close>

text \<open>
  Addition saturates. Adding any difference to a range value never fails and gives the sum clamped
  to the range from \<open>Min\<close> to \<open>Max\<close>; on any other timestamp it is refused.
\<close>

theorem ts_add_saturates:
  "ts_add t off =
     (if IsRangeValue t
      then Inr (Ts (max (ts_value Timestamp.Min) (min (ts_value Timestamp.Max) (ts_value t + off))))
      else Inl CheckFailed)"
  by (cases t) (auto simp: ts_add_def IsRangeValue_def safe_int_def Timestamp_new_def IsSpecialValue_def
      special_defs max_def min_def)

text \<open>
  Neighbours in a stream. \<open>NextAllowedInStream\<close> and \<open>PreviousAllowedInStream\<close> never fail; the next
  allowed timestamp is after the given one with no allowed timestamp in between, except that a
  packet at \<open>PreStream\<close> or at \<open>Max\<close> admits no other; and inside the range the two are inverse to each other.
\<close>

theorem neighbours_in_stream:
  "(\<exists>u. NextAllowedInStream t = Inr u \<and>
      (IsAllowedInStream t \<longrightarrow> t < u \<and> u \<le> OneOverPostStream \<and>
         (t \<noteq> PreStream \<and> t \<noteq> Timestamp.Max \<longrightarrow> (\<forall>w. t < w \<and> IsAllowedInStream w \<longrightarrow> u \<le> w)))) \<and>
   (\<exists>u. PreviousAllowedInStream t = Inr u) \<and>
   (Timestamp.Min < t \<and> t \<le> Timestamp.Max \<longrightarrow>
      (\<exists>u. PreviousAllowedInStream t = Inr u \<and> NextAllowedInStream u = Inr t))"
proof -
  have n: "IsAllowedInStream t \<Longrightarrow> t < next_ts t \<and> next_ts t \<le> OneOverPostStream"
    by (simp add: IsAllowedInStream_def next_ts_greater next_ts_le_Done)
  have g: "t \<noteq> PreStream \<Longrightarrow> t \<noteq> Timestamp.Max \<Longrightarrow> IsAllowedInStream t \<Longrightarrow> t < w \<Longrightarrow> IsAllowedInStream w \<Longrightarrow> next_ts t \<le> w" for w
    by (cases t; cases w) (auto simp: next_ts_eq IsAllowedInStream_def special_defs)
  have p: "Timestamp.Min < t \<Longrightarrow> t \<le> Timestamp.Max \<Longrightarrow> next_ts (prev_ts t) = t"
    by (cases t) (auto simp: next_ts_eq prev_ts_eq special_defs)
  have N: "NextAllowedInStream u = Inr (next_ts u)" "PreviousAllowedInStream u = Inr (prev_ts u)" for u
    by (simp_all add: NextAllowedInStream_eq PreviousAllowedInStream_eq next_ts_eq prev_ts_eq)
  show ?thesis unfolding N using n g p by auto
qed

theorem neighbours_in_stream_witness:
  "\<exists>u. NextAllowedInStream (Ts 5) = Inr u \<and> Ts 5 < u \<and> u \<le> Ts 6"
  using neighbours_in_stream [of "Ts 5"] by (auto simp: IsAllowedInStream_def special_defs)

end
