(* ===== verification/Input_Stream.thy ===== *)
theory Input_Stream
  imports Timestamp
begin

text \<open>
  \<^verbatim>\<open>mediapipe/framework/input_stream_manager.h\<close> and \<^verbatim>\<open>.cc\<close>: the packet queue of one input
  stream of a node.  Each operation runs under the stream's mutex and is one function here.
  The packet type's \<^verbatim>\<open>Validate\<close> is a parameter; a call of a queue size callback is reported
  as an event.
\<close>

section \<open>Packets and state\<close>

text \<open>A packet is a timestamp and a payload; a packet without a payload is empty (\<^verbatim>\<open>packet.h\<close>).\<close>

record 'a packet =
  pkt_ts :: Timestamp
  pkt_data :: "'a option"

definition empty_packet :: "'a packet" where
  "empty_packet = \<lparr>pkt_ts = Unset, pkt_data = None\<rparr>"

definition packet_At :: "Timestamp \<Rightarrow> 'a packet \<Rightarrow> 'a packet" where
  "packet_At t p = p\<lparr>pkt_ts := t\<rparr>"

definition packet_IsEmpty :: "'a packet \<Rightarrow> bool" where
  "packet_IsEmpty p \<longleftrightarrow> pkt_data p = None"

record 'a InputStreamManager =
  ism_name :: string
  ism_back_edge :: bool
  ism_queue :: "'a packet list"
  num_packets_added :: int
  next_timestamp_bound :: Timestamp
  last_select_timestamp :: Timestamp
  ism_closed :: bool
  ism_header :: "'a packet"
  enable_timestamps :: bool
  max_queue_size :: int

datatype stream_status =
    StatusOk
  | TypeMismatch
  | IllegalTimestamp Timestamp
  | PostStreamNotAlone
  | TimestampMismatch Timestamp Timestamp
  | BoundDecreased Timestamp Timestamp
  | HeaderWithTimestamp

datatype queue_event = BecameFull | BecameNotFull

section \<open>Operations\<close>

definition ism_PrepareForRun :: "'a InputStreamManager \<Rightarrow> 'a InputStreamManager" where
  "ism_PrepareForRun s = s\<lparr>ism_queue := [], num_packets_added := 0, next_timestamp_bound := PreStream,
     last_select_timestamp := Unstarted, ism_closed := False, ism_header := empty_packet\<rparr>"

text \<open>Before \<^verbatim>\<open>Initialize\<close> the members have their default values.\<close>

definition ism_Initialize :: "string \<Rightarrow> bool \<Rightarrow> 'a InputStreamManager" where
  "ism_Initialize name back_edge = ism_PrepareForRun
     \<lparr>ism_name = name, ism_back_edge = back_edge, ism_queue = [], num_packets_added = 0,
      next_timestamp_bound = Unset, last_select_timestamp = Unset, ism_closed = False,
      ism_header = empty_packet, enable_timestamps = True, max_queue_size = - 1\<rparr>"

definition ism_QueueHead :: "'a InputStreamManager \<Rightarrow> 'a packet" where
  "ism_QueueHead s = (case ism_queue s of [] \<Rightarrow> empty_packet | p # _ \<Rightarrow> p)"

definition ism_SetHeader :: "'a packet \<Rightarrow> 'a InputStreamManager \<Rightarrow> stream_status \<times> 'a InputStreamManager" where
  "ism_SetHeader header s =
     (if pkt_ts header \<noteq> Unset then (HeaderWithTimestamp, s) else (StatusOk, s\<lparr>ism_header := header\<rparr>))"

text \<open>The comparison with \<^verbatim>\<open>queue_.size()\<close> is unsigned: a negative limit is never reached.\<close>

definition ism_IsFull :: "'a InputStreamManager \<Rightarrow> bool" where
  "ism_IsFull s \<longleftrightarrow> max_queue_size s \<noteq> - 1 \<and> 0 \<le> max_queue_size s \<and> max_queue_size s \<le> int (length (ism_queue s))"

definition admit :: "('a packet \<Rightarrow> bool) \<Rightarrow> 'a packet \<Rightarrow> 'a InputStreamManager \<Rightarrow> stream_status" where
  "admit validate p s =
     (if \<not> validate p then TypeMismatch
      else if \<not> IsAllowedInStream (pkt_ts p) then IllegalTimestamp (pkt_ts p)
      else if enable_timestamps s \<and> pkt_ts p = PostStream \<and> 0 < num_packets_added s then PostStreamNotAlone
      else if enable_timestamps s \<and> pkt_ts p < next_timestamp_bound s
           then TimestampMismatch (next_timestamp_bound s) (pkt_ts p)
      else StatusOk)"

definition enqueue :: "'a packet \<Rightarrow> 'a InputStreamManager \<Rightarrow> 'a InputStreamManager" where
  "enqueue p s = s\<lparr>next_timestamp_bound := next_ts (pkt_ts p), num_packets_added := num_packets_added s + 1,
     ism_queue := ism_queue s @ [p]\<rparr>"

text \<open>The loop over the container: it stops at the first packet refused, keeping those before it.\<close>

fun add_loop :: "('a packet \<Rightarrow> bool) \<Rightarrow> 'a packet list \<Rightarrow> 'a InputStreamManager \<Rightarrow> stream_status \<times> 'a InputStreamManager" where
  "add_loop validate [] s = (StatusOk, s)"
| "add_loop validate (p # ps) s =
     (if admit validate p s = StatusOk then add_loop validate ps (enqueue p s)
      else (admit validate p s, s))"

text \<open>The result: the status, whether to notify the node, the event reported, the new state.\<close>

definition AddOrMovePacketsInternal ::
  "('a packet \<Rightarrow> bool) \<Rightarrow> 'a packet list \<Rightarrow> 'a InputStreamManager
    \<Rightarrow> stream_status \<times> bool \<times> queue_event list \<times> 'a InputStreamManager" where
  "AddOrMovePacketsInternal validate container s =
     (if ism_closed s then (StatusOk, False, [], s)
      else case add_loop validate container s of
             (StatusOk, s') \<Rightarrow>
               (StatusOk, ism_queue s = [] \<and> container \<noteq> [],
                (if \<not> ism_IsFull s \<and> ism_IsFull s' then [BecameFull] else []), s')
           | (err, s') \<Rightarrow> (err, False, [], s'))"

definition SetNextTimestampBound ::
  "Timestamp \<Rightarrow> 'a InputStreamManager \<Rightarrow> stream_status \<times> bool \<times> 'a InputStreamManager" where
  "SetNextTimestampBound bound s =
     (if ism_closed s then (StatusOk, False, s)
      else if enable_timestamps s \<and> bound < next_timestamp_bound s
           then (BoundDecreased (next_timestamp_bound s) bound, False, s)
      else if next_timestamp_bound s < bound
           then (StatusOk, ism_queue s = [], s\<lparr>next_timestamp_bound := bound\<rparr>)
      else (StatusOk, False, s))"

definition DisableTimestamps :: "'a InputStreamManager \<Rightarrow> 'a InputStreamManager" where
  "DisableTimestamps s = s\<lparr>enable_timestamps := False\<rparr>"

definition ism_Close :: "'a InputStreamManager \<Rightarrow> 'a InputStreamManager" where
  "ism_Close s = (if ism_closed s then s
     else s\<lparr>next_timestamp_bound := Done, last_select_timestamp := Done, ism_closed := True\<rparr>)"

definition MinTimestampOrBound :: "'a InputStreamManager \<Rightarrow> Timestamp \<times> bool" where
  "MinTimestampOrBound s =
     (case ism_queue s of [] \<Rightarrow> (next_timestamp_bound s, True) | p # _ \<Rightarrow> (pkt_ts p, False))"

definition ism_IsDone :: "'a InputStreamManager \<Rightarrow> bool" where
  "ism_IsDone s \<longleftrightarrow> ism_queue s = [] \<and> next_timestamp_bound s = Done"

text \<open>The loop of \<^verbatim>\<open>PopPacketAtTimestamp\<close>: the last packet popped, the count, the queue left.\<close>

fun pop_loop :: "Timestamp \<Rightarrow> 'a packet \<Rightarrow> int \<Rightarrow> 'a packet list \<Rightarrow> 'a packet \<times> int \<times> 'a packet list" where
  "pop_loop t cur n [] = (cur, n, [])"
| "pop_loop t cur n (p # ps) = (if pkt_ts p \<le> t then pop_loop t p (n + 1) ps else (cur, n, p # ps))"

record 'a pop_result =
  popped :: "'a packet"
  num_packets_dropped :: int
  stream_is_done :: bool
  pop_events :: "queue_event list"

definition PopPacketAtTimestamp ::
  "Timestamp \<Rightarrow> 'a InputStreamManager \<Rightarrow> ts_error + ('a pop_result \<times> 'a InputStreamManager)" where
  "PopPacketAtTimestamp t s =
     (if \<not> enable_timestamps s then Inl CheckFailed
      else if t < last_select_timestamp s then Inl CheckFailed
      else
        let s1 = s\<lparr>last_select_timestamp := t,
                   next_timestamp_bound :=
                     (if next_timestamp_bound s \<le> t then next_ts t else next_timestamp_bound s)\<rparr>;
            (cur, n, q) = pop_loop t empty_packet (- 1) (ism_queue s1);
            s2 = s1\<lparr>ism_queue := q\<rparr>;
            (pkt, dropped) =
              (if pkt_ts cur \<noteq> t
               then (packet_At (prev_ts (fst (MinTimestampOrBound s2))) empty_packet, n + 1)
               else (cur, n))
        in Inr (\<lparr>popped = pkt, num_packets_dropped = dropped, stream_is_done = ism_IsDone s2,
                 pop_events = (if ism_IsFull s1 \<and> \<not> ism_IsFull s2 then [BecameNotFull] else [])\<rparr>, s2))"

definition PopQueueHead ::
  "'a InputStreamManager \<Rightarrow> ts_error + ('a packet \<times> bool \<times> queue_event list \<times> 'a InputStreamManager)" where
  "PopQueueHead s =
     (if enable_timestamps s then Inl CheckFailed
      else let s' = s\<lparr>ism_queue := tl (ism_queue s)\<rparr>
           in Inr (ism_QueueHead s, ism_IsDone s',
                   (if ism_IsFull s \<and> \<not> ism_IsFull s' then [BecameNotFull] else []), s'))"

definition ism_SetMaxQueueSize :: "int \<Rightarrow> 'a InputStreamManager \<Rightarrow> queue_event list \<times> 'a InputStreamManager" where
  "ism_SetMaxQueueSize n s =
     (let s' = s\<lparr>max_queue_size := n\<rparr>
      in ((if \<not> ism_IsFull s \<and> ism_IsFull s' then [BecameFull]
           else if ism_IsFull s \<and> \<not> ism_IsFull s' then [BecameNotFull] else []), s'))"

text \<open>
  \<^verbatim>\<open>(size_t)n\<close>: a negative \<open>n\<close> becomes larger than any queue; \<open>n = 0\<close> reads past the end of the
  queue.
\<close>

definition GetMinTimestampAmongNLatest :: "int \<Rightarrow> 'a InputStreamManager \<Rightarrow> ts_error + Timestamp" where
  "GetMinTimestampAmongNLatest n s =
     (if ism_queue s = [] then Inr Unset
      else let m = (if n < 0 then length (ism_queue s) else min (nat n) (length (ism_queue s)))
           in if m = 0 then Inl CheckFailed else Inr (pkt_ts (ism_queue s ! (length (ism_queue s) - m))))"

definition ErasePacketsEarlierThan :: "Timestamp \<Rightarrow> 'a InputStreamManager \<Rightarrow> queue_event list \<times> 'a InputStreamManager" where
  "ErasePacketsEarlierThan t s =
     (let s' = s\<lparr>ism_queue := dropWhile (\<lambda>p. pkt_ts p < t) (ism_queue s)\<rparr>
      in ((if ism_IsFull s \<and> \<not> ism_IsFull s' then [BecameNotFull] else []), s'))"

section \<open>The invariant of a stream\<close>

text \<open>
  With timestamps enabled and the stream open: the queue is strictly ordered, holds only timestamps that
  are allowed in a stream, lies above the last timestamp selected and below the bound for
  the next packet, and the bound is above the last timestamp selected.
\<close>

definition queue_sorted :: "'a packet list \<Rightarrow> bool" where
  "queue_sorted q \<longleftrightarrow> sorted_wrt (<) (map pkt_ts q)"

definition stream_inv :: "'a InputStreamManager \<Rightarrow> bool" where
  "stream_inv s \<longleftrightarrow> enable_timestamps s \<and> \<not> ism_closed s \<and> queue_sorted (ism_queue s) \<and>
     (\<forall>p \<in> set (ism_queue s). IsAllowedInStream (pkt_ts p) \<and> pkt_ts p < next_timestamp_bound s \<and>
        last_select_timestamp s < pkt_ts p) \<and>
     last_select_timestamp s < next_timestamp_bound s \<and> PreStream \<le> next_timestamp_bound s"

lemma stream_inv_prepare: "enable_timestamps s \<Longrightarrow> stream_inv (ism_PrepareForRun s)"
  by (simp add: stream_inv_def ism_PrepareForRun_def queue_sorted_def)

lemma stream_inv_init: "stream_inv (ism_Initialize name be)"
  by (simp add: ism_Initialize_def stream_inv_prepare)

lemma admit_ok:
  assumes "admit validate p s = StatusOk" "stream_inv s"
  shows "IsAllowedInStream (pkt_ts p)" "next_timestamp_bound s \<le> pkt_ts p" "validate p"
  using assms by (auto simp: admit_def stream_inv_def split: if_splits)

lemma stream_inv_enqueue:
  assumes "admit validate p s = StatusOk" "stream_inv s"
  shows "stream_inv (enqueue p s)"
proof -
  note a = admit_ok [OF assms]
  have "pkt_ts p < next_ts (pkt_ts p)" using a(1) by (simp add: IsAllowedInStream_def next_ts_greater)
  with a assms(2) show ?thesis
    by (fastforce simp: stream_inv_def enqueue_def queue_sorted_def sorted_wrt_append)
qed

lemma add_loop_inv: "stream_inv s \<Longrightarrow> stream_inv (snd (add_loop validate ps s))"
  by (induction ps arbitrary: s) (auto simp: stream_inv_enqueue)

text \<open>A prefix of the container is appended; it is all of it exactly when the status is ok.\<close>

lemma add_loop_queue:
  "\<exists>k \<le> length ps. ism_queue (snd (add_loop validate ps s)) = ism_queue s @ take k ps \<and>
     (fst (add_loop validate ps s) = StatusOk \<longleftrightarrow> k = length ps) \<and>
     num_packets_added (snd (add_loop validate ps s)) = num_packets_added s + int k \<and>
     list_all validate (take k ps)"
proof (induction ps arbitrary: s)
  case (Cons p ps)
  show ?case
  proof (cases "admit validate p s = StatusOk")
    case True
    from Cons.IH [of "enqueue p s"] obtain k where "k \<le> length ps"
      "ism_queue (snd (add_loop validate ps (enqueue p s))) = ism_queue (enqueue p s) @ take k ps"
      "fst (add_loop validate ps (enqueue p s)) = StatusOk \<longleftrightarrow> k = length ps"
      "num_packets_added (snd (add_loop validate ps (enqueue p s))) = num_packets_added (enqueue p s) + int k"
      "list_all validate (take k ps)" by blast
    moreover have "validate p" using True by (auto simp: admit_def split: if_splits)
    ultimately show ?thesis using True by (intro exI [of _ "Suc k"]) (auto simp: enqueue_def)
  next
    case False
    then show ?thesis by (intro exI [of _ 0]) auto
  qed
qed simp

lemma add_loop_frame:
  "last_select_timestamp (snd (add_loop validate ps s)) = last_select_timestamp s"
  "enable_timestamps (snd (add_loop validate ps s)) = enable_timestamps s"
  "ism_closed (snd (add_loop validate ps s)) = ism_closed s"
  by (induction ps arbitrary: s) (auto simp: enqueue_def)

lemma AddOrMove_state:
  "snd (snd (snd (AddOrMovePacketsInternal validate ps s))) =
     (if ism_closed s then s else snd (add_loop validate ps s))"
  by (auto simp: AddOrMovePacketsInternal_def split: prod.splits stream_status.splits)

lemma AddOrMove_status:
  "fst (AddOrMovePacketsInternal validate ps s) =
     (if ism_closed s then StatusOk else fst (add_loop validate ps s))"
  by (auto simp: AddOrMovePacketsInternal_def split: prod.splits stream_status.splits)

lemma stream_inv_add: "stream_inv s \<Longrightarrow> stream_inv (snd (snd (snd (AddOrMovePacketsInternal validate ps s))))"
  by (simp add: AddOrMove_state add_loop_inv)

lemma stream_inv_bound: "stream_inv s \<Longrightarrow> stream_inv (snd (snd (SetNextTimestampBound bound s)))"
  by (fastforce simp: stream_inv_def SetNextTimestampBound_def)

lemma stream_inv_erase: "stream_inv s \<Longrightarrow> stream_inv (snd (ErasePacketsEarlierThan t s))"
proof -
  assume s: "stream_inv s"
  let ?d = "dropWhile (\<lambda>p. pkt_ts p < t) (ism_queue s)"
  have "\<exists>us. ism_queue s = us @ ?d" by (metis takeWhile_dropWhile_id)
  with s have "queue_sorted ?d" by (auto simp: stream_inv_def queue_sorted_def sorted_wrt_append dest!: arg_cong [of _ _ "map pkt_ts"])
  with s show ?thesis
    by (auto simp: stream_inv_def ErasePacketsEarlierThan_def Let_def dest!: set_dropWhileD)
qed

section \<open>Popping\<close>

lemma pop_loop_eq:
  "pop_loop t cur n q =
     (last (cur # takeWhile (\<lambda>p. pkt_ts p \<le> t) q), n + int (length (takeWhile (\<lambda>p. pkt_ts p \<le> t) q)),
      dropWhile (\<lambda>p. pkt_ts p \<le> t) q)"
  by (induction q arbitrary: cur n) auto

text \<open>The packets popped at or before \<open>t\<close>, split into those dropped and the one delivered.\<close>

definition earlier :: "Timestamp \<Rightarrow> 'a InputStreamManager \<Rightarrow> 'a packet list" where
  "earlier t s = filter (\<lambda>p. pkt_ts p < t) (ism_queue s)"

lemma takeWhile_filter_sorted:
  "queue_sorted q \<Longrightarrow> takeWhile (\<lambda>p. pkt_ts p \<le> t) q = filter (\<lambda>p. pkt_ts p \<le> t) q"
  "queue_sorted q \<Longrightarrow> dropWhile (\<lambda>p. pkt_ts p \<le> t) q = filter (\<lambda>p. t < pkt_ts p) q"
proof (induction q)
  case (Cons p q)
  { case 1
    then have "queue_sorted q" "\<forall>x \<in> set q. pkt_ts p < pkt_ts x" by (auto simp: queue_sorted_def)
    moreover from this have "\<not> pkt_ts p \<le> t \<Longrightarrow> filter (\<lambda>p. pkt_ts p \<le> t) q = []"
      by (auto simp: filter_empty_conv not_le dest: order.strict_trans)
    ultimately show ?case using Cons by simp }
  { case 2
    then have "queue_sorted q" "\<forall>x \<in> set q. pkt_ts p < pkt_ts x" by (auto simp: queue_sorted_def)
    moreover from this have "\<not> pkt_ts p \<le> t \<Longrightarrow> filter (\<lambda>p. t < pkt_ts p) q = q"
      by (auto simp: filter_id_conv not_le dest: order.strict_trans)
    ultimately show ?case using Cons by (auto simp: not_le not_less) }
qed simp_all

lemma dropWhile_less_sorted:
  "queue_sorted q \<Longrightarrow> dropWhile (\<lambda>p. pkt_ts p < t) q = filter (\<lambda>p. t \<le> pkt_ts p) q"
proof (induction q)
  case (Cons p q)
  then have "queue_sorted q" "\<forall>x \<in> set q. pkt_ts p < pkt_ts x" by (auto simp: queue_sorted_def)
  moreover from this have "\<not> pkt_ts p < t \<Longrightarrow> filter (\<lambda>p. t \<le> pkt_ts p) q = q"
    by (auto simp: filter_id_conv not_less intro: order_trans less_imp_le)
  ultimately show ?case using Cons by (auto simp: not_less not_le)
qed simp

lemma erase_queue: "stream_inv s \<Longrightarrow> ism_queue (snd (ErasePacketsEarlierThan t s)) = filter (\<lambda>p. t \<le> pkt_ts p) (ism_queue s)"
  by (simp add: ErasePacketsEarlierThan_def Let_def stream_inv_def dropWhile_less_sorted)

lemma erase_frame:
  "last_select_timestamp (snd (ErasePacketsEarlierThan t s)) = last_select_timestamp s"
  "next_timestamp_bound (snd (ErasePacketsEarlierThan t s)) = next_timestamp_bound s"
  by (simp_all add: ErasePacketsEarlierThan_def Let_def)

lemma filter_le_split:
  assumes "queue_sorted q" "p \<in> set q" "pkt_ts p = t"
  shows "filter (\<lambda>x. pkt_ts x \<le> t) q = filter (\<lambda>x. pkt_ts x < t) q @ [p]"
  using assms
proof (induction q)
  case (Cons x q)
  have lt: "\<forall>y \<in> set q. pkt_ts x < pkt_ts y" using Cons.prems(1) by (simp add: queue_sorted_def)
  show ?case
  proof (cases "x = p")
    case True
    with lt Cons.prems have "filter (\<lambda>y. pkt_ts y \<le> t) q = []" "filter (\<lambda>y. pkt_ts y < t) q = []"
      by (auto simp: filter_empty_conv not_le dest: order.strict_trans)
    with True Cons.prems(3) show ?thesis by simp
  next
    case False
    with Cons.prems lt have "pkt_ts x < t" "p \<in> set q" "queue_sorted q" by (auto simp: queue_sorted_def)
    with Cons.IH Cons.prems(3) show ?thesis by simp
  qed
qed simp

lemma filter_le_none:
  "\<forall>p \<in> set q. pkt_ts p \<noteq> t \<Longrightarrow> filter (\<lambda>x. pkt_ts x \<le> t) q = filter (\<lambda>x. pkt_ts x < t) q"
  by (rule filter_cong) (auto simp: order.order_iff_strict)

lemma pop_spec:
  assumes inv: "stream_inv s" and t: "IsAllowedInStream t" "last_select_timestamp s \<le> t"
  shows "\<exists>r s'. PopPacketAtTimestamp t s = Inr (r, s') \<and> stream_inv s' \<and> last_select_timestamp s' = t \<and>
      t < next_timestamp_bound s' \<and> next_timestamp_bound s \<le> next_timestamp_bound s' \<and>
      ism_queue s' = filter (\<lambda>p. t < pkt_ts p) (ism_queue s) \<and>
      num_packets_dropped r = int (length (filter (\<lambda>p. pkt_ts p < t) (ism_queue s))) \<and>
      (\<forall>p \<in> set (ism_queue s). pkt_ts p = t \<longrightarrow> popped r = p) \<and>
      ((\<forall>p \<in> set (ism_queue s). pkt_ts p \<noteq> t) \<longrightarrow> packet_IsEmpty (popped r))"
proof -
  let ?q = "ism_queue s" and ?le = "filter (\<lambda>p. pkt_ts p \<le> t) (ism_queue s)"
  let ?b = "if next_timestamp_bound s \<le> t then next_ts t else next_timestamp_bound s"
  let ?s2 = "s\<lparr>last_select_timestamp := t, next_timestamp_bound := ?b, ism_queue := filter (\<lambda>p. t < pkt_ts p) ?q\<rparr>"
  let ?cur = "last (empty_packet # ?le)"
  have srt: "queue_sorted ?q" and en: "enable_timestamps s" using inv by (auto simp: stream_inv_def)
  define pk where "pk = (if pkt_ts ?cur \<noteq> t then packet_At (prev_ts (fst (MinTimestampOrBound ?s2))) empty_packet else ?cur)"
  define r where "r = \<lparr>popped = pk,
      num_packets_dropped = (if pkt_ts ?cur \<noteq> t then int (length ?le) else int (length ?le) - 1),
      stream_is_done = ism_IsDone ?s2,
      pop_events = (if ism_IsFull (s\<lparr>last_select_timestamp := t, next_timestamp_bound := ?b\<rparr>) \<and> \<not> ism_IsFull ?s2
        then [BecameNotFull] else [])\<rparr>"
  have pop: "PopPacketAtTimestamp t s = Inr (r, ?s2)"
    using en t(2) by (auto simp: PopPacketAtTimestamp_def Let_def pop_loop_eq takeWhile_filter_sorted [OF srt] r_def pk_def)
  have tU: "Unset \<noteq> t" using t(1) by (auto simp: IsAllowedInStream_def special_defs)
  have hit: "pkt_ts ?cur = t \<and> popped r = p \<and> num_packets_dropped r = int (length (earlier t s))"
    if "p \<in> set ?q" "pkt_ts p = t" for p
    using filter_le_split [OF srt that] that by (simp add: r_def pk_def earlier_def)
  have miss: "num_packets_dropped r = int (length (earlier t s)) \<and> packet_IsEmpty (popped r)"
    if "\<forall>p \<in> set ?q. pkt_ts p \<noteq> t"
  proof -
    have "?cur = empty_packet \<or> ?cur \<in> set ?le" using last_in_set [of "empty_packet # ?le"] by auto
    then have "pkt_ts ?cur \<noteq> t" using that tU by (auto simp: empty_packet_def)
    then show ?thesis
      using filter_le_none [OF that] by (simp add: r_def pk_def earlier_def packet_IsEmpty_def packet_At_def empty_packet_def)
  qed
  have n: "t < next_ts t" using t(1) by (simp add: IsAllowedInStream_def next_ts_greater)
  have b: "t < ?b" "next_timestamp_bound s \<le> ?b" using n by (auto simp: not_le)
  have srt2: "queue_sorted (filter (\<lambda>p. t < pkt_ts p) ?q)"
    using srt by (simp add: queue_sorted_def sorted_wrt_map sorted_wrt_filter)
  have inv2: "stream_inv ?s2"
    using inv b srt2 unfolding stream_inv_def by (auto intro: order.strict_trans2)
  have "num_packets_dropped r = int (length (earlier t s))" using hit miss by blast
  moreover have "\<forall>p \<in> set ?q. pkt_ts p = t \<longrightarrow> popped r = p" using hit by blast
  moreover have "(\<forall>p \<in> set ?q. pkt_ts p \<noteq> t) \<longrightarrow> packet_IsEmpty (popped r)" using miss by blast
  ultimately show ?thesis
    using pop inv2 b by (intro exI [of _ r] exI [of _ ?s2]) (simp add: earlier_def)
qed

section \<open>What a handler relies on\<close>

text \<open>
  The interface between a stream and the handlers that read it: the head of the stream
  (its first packet, or the bound when it is empty) and the selection of a timestamp.
\<close>

locale selectable_stream =
  fixes head :: "'s \<Rightarrow> Timestamp \<times> bool"
    and select :: "Timestamp \<Rightarrow> 's \<Rightarrow> ts_error + ('a pop_result \<times> 's)"
    and content :: "'s \<Rightarrow> 'a packet list"
    and selected :: "'s \<Rightarrow> Timestamp"
    and bound :: "'s \<Rightarrow> Timestamp"
    and inv :: "'s \<Rightarrow> bool"
  assumes head_eq: "inv s \<Longrightarrow> head s = (if content s = [] then (bound s, True) else (pkt_ts (hd (content s)), False))"
    and head_above: "inv s \<Longrightarrow> selected s < fst (head s)"
    and head_least: "inv s \<Longrightarrow> p \<in> set (tl (content s)) \<Longrightarrow> pkt_ts (hd (content s)) < pkt_ts p"
    and select_ok: "inv s \<Longrightarrow> IsAllowedInStream t \<Longrightarrow> selected s \<le> t \<Longrightarrow>
      \<exists>r s'. select t s = Inr (r, s') \<and> inv s' \<and> selected s' = t \<and> t < bound s' \<and> bound s \<le> bound s' \<and>
        content s' = filter (\<lambda>p. t < pkt_ts p) (content s) \<and>
        num_packets_dropped r = int (length (filter (\<lambda>p. pkt_ts p < t) (content s))) \<and>
        (\<forall>p \<in> set (content s). pkt_ts p = t \<longrightarrow> popped r = p) \<and>
        ((\<forall>p \<in> set (content s). pkt_ts p \<noteq> t) \<longrightarrow> packet_IsEmpty (popped r))"
begin

text \<open>Selecting no later than the head drops nothing: the head is delivered if it is at that time, and stays otherwise.\<close>

lemma select_head:
  assumes "inv s" "IsAllowedInStream t" "selected s \<le> t" "t \<le> fst (head s)"
  shows "\<exists>r s'. select t s = Inr (r, s') \<and> inv s' \<and> selected s' = t \<and> t < bound s' \<and> num_packets_dropped r = 0 \<and>
    (if content s \<noteq> [] \<and> fst (head s) = t then popped r = hd (content s) \<and> content s' = tl (content s)
     else packet_IsEmpty (popped r) \<and> content s' = content s)"
proof -
  from select_ok [OF assms(1-3)] obtain r s' where r: "select t s = Inr (r, s')" "inv s'" "selected s' = t" "t < bound s'"
    and c: "content s' = filter (\<lambda>p. t < pkt_ts p) (content s)"
    and d: "num_packets_dropped r = int (length (filter (\<lambda>p. pkt_ts p < t) (content s)))"
    and hit: "\<forall>p \<in> set (content s). pkt_ts p = t \<longrightarrow> popped r = p"
    and miss: "(\<forall>p \<in> set (content s). pkt_ts p \<noteq> t) \<longrightarrow> packet_IsEmpty (popped r)" by blast
  have ge: "t \<le> pkt_ts p" if "p \<in> set (content s)" for p
    using that head_least [OF assms(1), of p] assms(4) head_eq [OF assms(1)]
    by (cases "content s") (auto intro: order_trans less_imp_le)
  have d0: "num_packets_dropped r = 0" using d ge by (auto simp: filter_empty_conv not_less)
  show ?thesis
  proof (cases "content s \<noteq> [] \<and> fst (head s) = t")
    case True
    then obtain p q where pq: "content s = p # q" "pkt_ts p = t"
      using head_eq [OF assms(1)] by (cases "content s") auto
    then have "\<forall>x \<in> set q. t < pkt_ts x" using head_least [OF assms(1)] by auto
    then have "filter (\<lambda>p. t < pkt_ts p) q = q" by (simp add: filter_id_conv)
    with pq r c d0 hit True show ?thesis by (intro exI [of _ r] exI [of _ s']) auto
  next
    case False
    have "t < pkt_ts p" if "p \<in> set (content s)" for p
      using that False ge [OF that] head_least [OF assms(1), of p] assms(4) head_eq [OF assms(1)]
      by (cases "content s") (auto simp: order.order_iff_strict dest: order.strict_trans)
    then have "content s' = content s" "\<forall>p \<in> set (content s). pkt_ts p \<noteq> t" using c by (auto simp: filter_id_conv)
    with False r d0 miss show ?thesis by (intro exI [of _ r] exI [of _ s']) auto
  qed
qed

end

interpretation ism: selectable_stream MinTimestampOrBound PopPacketAtTimestamp ism_queue
  last_select_timestamp next_timestamp_bound stream_inv
proof unfold_locales
  fix s :: "'a InputStreamManager"
  assume s: "stream_inv s"
  then show "MinTimestampOrBound s =
      (if ism_queue s = [] then (next_timestamp_bound s, True) else (pkt_ts (hd (ism_queue s)), False))"
    by (simp add: MinTimestampOrBound_def split: list.splits)
  from s show "last_select_timestamp s < fst (MinTimestampOrBound s)"
    by (cases "ism_queue s") (auto simp: MinTimestampOrBound_def stream_inv_def)
  fix p assume "p \<in> set (tl (ism_queue s))"
  with s show "pkt_ts (hd (ism_queue s)) < pkt_ts p"
    by (cases "ism_queue s") (auto simp: stream_inv_def queue_sorted_def)
next
  fix s :: "'a InputStreamManager" and t
  assume "stream_inv s" "IsAllowedInStream t" "last_select_timestamp s \<le> t"
  then show "\<exists>r s'. PopPacketAtTimestamp t s = Inr (r, s') \<and> stream_inv s' \<and> last_select_timestamp s' = t \<and>
      t < next_timestamp_bound s' \<and> next_timestamp_bound s \<le> next_timestamp_bound s' \<and>
      ism_queue s' = filter (\<lambda>p. t < pkt_ts p) (ism_queue s) \<and>
      num_packets_dropped r = int (length (filter (\<lambda>p. pkt_ts p < t) (ism_queue s))) \<and>
      (\<forall>p \<in> set (ism_queue s). pkt_ts p = t \<longrightarrow> popped r = p) \<and>
      ((\<forall>p \<in> set (ism_queue s). pkt_ts p \<noteq> t) \<longrightarrow> packet_IsEmpty (popped r))"
    by (rule pop_spec)
qed

section \<open>All operations of a stream\<close>

text \<open>The calls that change a stream, one at a time under its mutex. The call that turns timestamps off is \<open>CallDisable\<close>.\<close>

datatype 'a stream_call =
    CallRestart
  | CallHeader "'a packet"
  | CallAdd "'a packet list"
  | CallBound Timestamp
  | CallSelect Timestamp
  | CallHead
  | CallErase Timestamp
  | CallResize int
  | CallClose
  | CallDisable

fun stream_step :: "('a packet \<Rightarrow> bool) \<Rightarrow> 'a stream_call \<Rightarrow> 'a InputStreamManager \<Rightarrow> ts_error + 'a InputStreamManager" where
  "stream_step validate CallRestart s = Inr (ism_PrepareForRun s)"
| "stream_step validate (CallHeader h) s = Inr (snd (ism_SetHeader h s))"
| "stream_step validate (CallAdd ps) s = Inr (snd (snd (snd (AddOrMovePacketsInternal validate ps s))))"
| "stream_step validate (CallBound b) s = Inr (snd (snd (SetNextTimestampBound b s)))"
| "stream_step validate (CallSelect t) s = map_sum (\<lambda>e. e) snd (PopPacketAtTimestamp t s)"
| "stream_step validate CallHead s = map_sum (\<lambda>e. e) (snd \<circ> snd \<circ> snd) (PopQueueHead s)"
| "stream_step validate (CallErase t) s = Inr (snd (ErasePacketsEarlierThan t s))"
| "stream_step validate (CallResize n) s = Inr (snd (ism_SetMaxQueueSize n s))"
| "stream_step validate CallClose s = Inr (ism_Close s)"
| "stream_step validate CallDisable s = Inr (DisableTimestamps s)"

text \<open>A closed stream keeps its queue; its bound and the timestamp selected are \<open>Done\<close>.\<close>

definition stream_ordered :: "'a InputStreamManager \<Rightarrow> bool" where
  "stream_ordered s \<longleftrightarrow> enable_timestamps s \<and> queue_sorted (ism_queue s) \<and>
     (\<forall>p \<in> set (ism_queue s). IsAllowedInStream (pkt_ts p) \<and> pkt_ts p < next_timestamp_bound s) \<and>
     (if ism_closed s then next_timestamp_bound s = Done \<and> last_select_timestamp s = Done
      else (\<forall>p \<in> set (ism_queue s). last_select_timestamp s < pkt_ts p) \<and> last_select_timestamp s < next_timestamp_bound s \<and>
        PreStream \<le> next_timestamp_bound s)"

lemma stream_ordered_open: "\<not> ism_closed s \<Longrightarrow> stream_ordered s \<longleftrightarrow> stream_inv s"
  by (auto simp: stream_ordered_def stream_inv_def)

lemma stream_inv_ordered: "stream_inv s \<Longrightarrow> stream_ordered s"
  using stream_ordered_open by (auto simp: stream_inv_def)

lemma allowed_before_done: "IsAllowedInStream t \<Longrightarrow> t < Done"
  by (cases t) (auto simp: IsAllowedInStream_def special_defs)

lemma stream_ordered_close: "stream_ordered s \<Longrightarrow> stream_ordered (ism_Close s)"
  by (auto simp: stream_ordered_def ism_Close_def allowed_before_done)

lemma dropped_ordered:
  assumes "stream_ordered s"
  shows "stream_ordered (snd (ErasePacketsEarlierThan t s))"
proof (cases "ism_closed s")
  case True
  have "\<exists>us. ism_queue s = us @ dropWhile (\<lambda>p. pkt_ts p < t) (ism_queue s)" by (metis takeWhile_dropWhile_id)
  with assms have "queue_sorted (dropWhile (\<lambda>p. pkt_ts p < t) (ism_queue s))"
    by (auto simp: stream_ordered_def queue_sorted_def sorted_wrt_append dest!: arg_cong [of _ _ "map pkt_ts"])
  with True assms show ?thesis by (auto simp: stream_ordered_def ErasePacketsEarlierThan_def Let_def dest!: set_dropWhileD)
next
  case False
  then show ?thesis using assms stream_inv_erase stream_inv_ordered stream_ordered_open by blast
qed

text \<open>Which calls are refused, and what the others leave.\<close>

lemma stream_step_ordered:
  assumes "stream_ordered s" "c \<noteq> CallDisable" "\<forall>t. c = CallSelect t \<longrightarrow> IsAllowedInStream t"
  shows "if c = CallHead \<or> (\<exists>t < last_select_timestamp s. c = CallSelect t) then stream_step validate c s = Inl CheckFailed
    else \<exists>s'. stream_step validate c s = Inr s' \<and> stream_ordered s'"
proof (cases "ism_closed s")
  case False
  then have inv: "stream_inv s" using assms(1) stream_ordered_open by blast
  then have en: "enable_timestamps s" by (simp add: stream_inv_def)
  note keep = stream_inv_ordered [OF stream_inv_prepare [OF en]] stream_inv_ordered [OF stream_inv_add [OF inv]]
    stream_inv_ordered [OF stream_inv_bound [OF inv]] dropped_ordered [OF assms(1)] stream_ordered_close [OF assms(1)]
  show ?thesis
  proof (cases c)
    case (CallHeader h)
    have "stream_ordered (snd (ism_SetHeader h s))" using assms(1) by (auto simp: stream_ordered_def ism_SetHeader_def)
    then show ?thesis using CallHeader by simp
  next
    case (CallResize n)
    have "stream_ordered (snd (ism_SetMaxQueueSize n s))" using assms(1) by (auto simp: stream_ordered_def ism_SetMaxQueueSize_def Let_def)
    then show ?thesis using CallResize by simp
  next
    case (CallSelect t)
    then have t: "IsAllowedInStream t" using assms(3) by blast
    show ?thesis
    proof (cases "last_select_timestamp s \<le> t")
      case True
      from ism.select_ok [OF inv t True] obtain r s' where "PopPacketAtTimestamp t s = Inr (r, s')" "stream_inv s'" by blast
      then show ?thesis using CallSelect True stream_inv_ordered by auto
    next
      case False
      then have less: "t < last_select_timestamp s" by simp
      then have "PopPacketAtTimestamp t s = Inl CheckFailed" using en by (simp add: PopPacketAtTimestamp_def)
      then show ?thesis using CallSelect less by simp
    qed
  qed (use keep assms(2) en in \<open>simp_all add: PopQueueHead_def\<close>)
next
  case True
  then have en: "enable_timestamps s" and d: "last_select_timestamp s = Done" using assms(1) by (simp_all add: stream_ordered_def)
  show ?thesis
  proof (cases c)
    case (CallSelect t)
    then have t: "t < last_select_timestamp s" using assms(3) d allowed_before_done by simp
    then have "PopPacketAtTimestamp t s = Inl CheckFailed" using en by (simp add: PopPacketAtTimestamp_def)
    then show ?thesis using CallSelect t by simp
  next
    case (CallHeader h)
    have "stream_ordered (snd (ism_SetHeader h s))" using assms(1) by (auto simp: stream_ordered_def ism_SetHeader_def)
    then show ?thesis using CallHeader by simp
  next
    case (CallResize n)
    have "stream_ordered (snd (ism_SetMaxQueueSize n s))" using assms(1) by (auto simp: stream_ordered_def ism_SetMaxQueueSize_def Let_def)
    then show ?thesis using CallResize by simp
  qed (use assms True en dropped_ordered [OF assms(1)] stream_ordered_close [OF assms(1)] stream_inv_ordered [OF stream_inv_prepare [OF en]]
      in \<open>simp_all add: PopQueueHead_def AddOrMovePacketsInternal_def SetNextTimestampBound_def\<close>)
qed

lemma stream_run_ordered:
  assumes "stream_ordered s" "\<forall>c \<in> set cs. c \<noteq> CallDisable \<and> (\<forall>t. c = CallSelect t \<longrightarrow> IsAllowedInStream t)"
    and "run_steps (stream_step validate) cs s = Inr s'"
  shows "stream_ordered s'"
  using assms
proof (induction cs arbitrary: s)
  case (Cons c cs)
  obtain s1 where s1: "stream_step validate c s = Inr s1" "run_steps (stream_step validate) cs s1 = Inr s'"
    using Cons.prems(3) by (auto split: sum.splits)
  have "stream_ordered s1"
    using stream_step_ordered [of s c validate] Cons.prems(1,2) s1(1) by (auto split: if_splits)
  from Cons.IH [OF this _ s1(2)] Cons.prems(2) show ?case by simp
qed simp

section \<open>Properties\<close>

text \<open>
  C8: a stream stays in order. From its initialisation on and through any sequence of its operations (starting a run again, setting the header, adding
  a batch, also one refused half-way, raising the bound, selecting a timestamp, erasing, resizing the queue and closing it), as long as timestamps are
  not turned off, the queue is strictly ordered by timestamps that are allowed in a stream, below the bound for the next packet; while the stream
  is open it lies above the timestamp last selected, and a closed stream has \<open>Done\<close> for both.  The calls that fail a check are exactly
  the pop that is for streams without timestamps and the selection of a timestamp below the last one, which in a closed stream is every one.
\<close>

theorem stream_stays_ordered:
  assumes "\<forall>c \<in> set cs. c \<noteq> CallDisable \<and> (\<forall>t. c = CallSelect t \<longrightarrow> IsAllowedInStream t)"
    and "run_steps (stream_step validate) cs (ism_Initialize name back_edge) = Inr s"
  shows "queue_sorted (ism_queue s) \<and>
    (\<forall>p \<in> set (ism_queue s). IsAllowedInStream (pkt_ts p) \<and> pkt_ts p < next_timestamp_bound s \<and>
       (\<not> ism_closed s \<longrightarrow> last_select_timestamp s < pkt_ts p)) \<and>
    (if ism_closed s then next_timestamp_bound s = Done \<and> last_select_timestamp s = Done else last_select_timestamp s < next_timestamp_bound s) \<and>
    (\<forall>c. c \<noteq> CallDisable \<longrightarrow> (\<forall>t. c = CallSelect t \<longrightarrow> IsAllowedInStream t) \<longrightarrow>
       (stream_step validate c s = Inl CheckFailed \<longleftrightarrow> c = CallHead \<or> (\<exists>t < last_select_timestamp s. c = CallSelect t)))"
proof -
  have o: "stream_ordered s" using stream_run_ordered [OF stream_inv_ordered [OF stream_inv_init] assms] .
  have "stream_step validate c s = Inl CheckFailed \<longleftrightarrow> c = CallHead \<or> (\<exists>t < last_select_timestamp s. c = CallSelect t)"
    if "c \<noteq> CallDisable" "\<forall>t. c = CallSelect t \<longrightarrow> IsAllowedInStream t" for c
    using stream_step_ordered [OF o that, of validate] by (auto split: if_splits)
  with o show ?thesis by (auto simp: stream_ordered_def split: if_splits)
qed

theorem stream_stays_ordered_witness:
  "\<exists>s. run_steps (stream_step (\<lambda>_. True)) [CallAdd [\<lparr>pkt_ts = Ts 5, pkt_data = Some (1 :: int)\<rparr>, \<lparr>pkt_ts = Ts 9, pkt_data = Some 2\<rparr>], CallSelect (Ts 5), CallClose]
     (ism_Initialize ''landmarks'' False) = Inr s \<and> queue_sorted (ism_queue s)"
proof -
  let ?cs = "[CallAdd [\<lparr>pkt_ts = Ts 5, pkt_data = Some (1 :: int)\<rparr>, \<lparr>pkt_ts = Ts 9, pkt_data = Some 2\<rparr>], CallSelect (Ts 5), CallClose]"
  have "IsAllowedInStream (Ts 5)" by (simp add: IsAllowedInStream_def special_defs)
  then have ok: "\<forall>c \<in> set ?cs. c \<noteq> CallDisable \<and> (\<forall>t. c = CallSelect t \<longrightarrow> IsAllowedInStream t)" by simp
  obtain s where "run_steps (stream_step (\<lambda>_. True)) ?cs (ism_Initialize ''landmarks'' False) = Inr s"
    by (simp add: ism_Initialize_def ism_PrepareForRun_def PopPacketAtTimestamp_def AddOrMovePacketsInternal_def admit_def enqueue_def
        special_defs IsAllowedInStream_def next_ts_eq Let_def)
  with stream_stays_ordered [OF ok this] show ?thesis by blast
qed

text \<open>
  Adding packets. The packets of a batch are appended up to the first one refused, in their order and nothing
  else; the batch is accepted exactly when all of it was appended; a closed stream ignores
  it; and the node is notified exactly when an accepted batch makes an empty queue non-empty.
\<close>

theorem add_packets_appends:
  "let (st, notify, ev, s') = AddOrMovePacketsInternal validate ps s in
   \<exists>k \<le> length ps. ism_queue s' = ism_queue s @ take k ps \<and> list_all validate (take k ps) \<and>
     (ism_closed s \<longrightarrow> k = 0 \<and> s' = s \<and> st = StatusOk) \<and>
     (\<not> ism_closed s \<longrightarrow> (st = StatusOk \<longleftrightarrow> k = length ps)) \<and>
     (notify \<longleftrightarrow> \<not> ism_closed s \<and> st = StatusOk \<and> ism_queue s = [] \<and> ism_queue s' \<noteq> [])"
proof -
  obtain st s' where al: "add_loop validate ps s = (st, s')" by (cases "add_loop validate ps s")
  from add_loop_queue [where validate = validate and ps = ps and s = s] obtain k where k: "k \<le> length ps"
    "ism_queue s' = ism_queue s @ take k ps" "st = StatusOk \<longleftrightarrow> k = length ps" "list_all validate (take k ps)"
    by (auto simp: al)
  show ?thesis
  proof (cases "ism_closed s")
    case True
    then show ?thesis by (auto simp: AddOrMovePacketsInternal_def)
  next
    case False
    have "AddOrMovePacketsInternal validate ps s =
        (if st = StatusOk then (StatusOk, ism_queue s = [] \<and> ps \<noteq> [],
           (if \<not> ism_IsFull s \<and> ism_IsFull s' then [BecameFull] else []), s') else (st, False, [], s'))"
      using False by (auto simp: AddOrMovePacketsInternal_def al split: stream_status.splits)
    with k False show ?thesis by (auto simp: Let_def intro!: exI [of _ k])
  qed
qed

theorem add_packets_appends_witness:
  "\<exists>k \<le> 1. ism_queue (snd (snd (snd (AddOrMovePacketsInternal (\<lambda>_. True) [\<lparr>pkt_ts = Ts 5, pkt_data = Some (1 :: int)\<rparr>]
     (ism_Initialize ''landmarks'' False))))) = take k [\<lparr>pkt_ts = Ts 5, pkt_data = Some 1\<rparr>]"
  using add_packets_appends [of "\<lambda>_. True" "[\<lparr>pkt_ts = Ts 5, pkt_data = Some (1 :: int)\<rparr>]" "ism_Initialize ''landmarks'' False"]
  by (auto simp: case_prod_beta ism_Initialize_def ism_PrepareForRun_def)

text \<open>
  C9: selecting a timestamp. On a stream with the invariant, selecting \<open>t\<close> delivers the queue's packet at \<open>t\<close>, or an
  empty packet if there is none, removes exactly the packets up to \<open>t\<close>, counts as dropped exactly the earlier
  ones, and raises the bound above \<open>t\<close>, so that no packet at or before \<open>t\<close> can be added afterwards.
\<close>

theorem pop_delivers:
  assumes "stream_inv s" and "IsAllowedInStream t" and "last_select_timestamp s \<le> t"
  shows "\<exists>r s'. PopPacketAtTimestamp t s = Inr (r, s') \<and>
    ism_queue s' = filter (\<lambda>p. t < pkt_ts p) (ism_queue s) \<and>
    num_packets_dropped r = int (length (filter (\<lambda>p. pkt_ts p < t) (ism_queue s))) \<and>
    (\<forall>p \<in> set (ism_queue s). pkt_ts p = t \<longrightarrow> popped r = p) \<and>
    ((\<forall>p \<in> set (ism_queue s). pkt_ts p \<noteq> t) \<longrightarrow> packet_IsEmpty (popped r)) \<and>
    (\<forall>p validate. pkt_ts p \<le> t \<longrightarrow> admit validate p s' \<noteq> StatusOk)"
proof -
  from ism.select_ok [OF assms] obtain r s' where r: "PopPacketAtTimestamp t s = Inr (r, s')" "stream_inv s'"
    "t < next_timestamp_bound s'" and rest: "ism_queue s' = filter (\<lambda>p. t < pkt_ts p) (ism_queue s)"
    "num_packets_dropped r = int (length (filter (\<lambda>p. pkt_ts p < t) (ism_queue s)))"
    "\<forall>p \<in> set (ism_queue s). pkt_ts p = t \<longrightarrow> popped r = p"
    "(\<forall>p \<in> set (ism_queue s). pkt_ts p \<noteq> t) \<longrightarrow> packet_IsEmpty (popped r)" by blast
  have "admit validate p s' \<noteq> StatusOk" if "pkt_ts p \<le> t" for p and validate
    using that r(3) admit_ok(2) [of validate p s'] r(2) by auto
  with r(1) rest show ?thesis by blast
qed

theorem pop_delivers_witness:
  "\<exists>r s'. PopPacketAtTimestamp (Ts 5) (enqueue \<lparr>pkt_ts = Ts 5, pkt_data = Some (1 :: int)\<rparr> (ism_Initialize ''landmarks'' False)) = Inr (r, s') \<and>
     pkt_data (popped r) = Some 1 \<and> num_packets_dropped r = 0"
proof -
  let ?s = "enqueue \<lparr>pkt_ts = Ts 5, pkt_data = Some (1 :: int)\<rparr> (ism_Initialize ''landmarks'' False)"
  have a: "IsAllowedInStream (Ts 5)" by (simp add: IsAllowedInStream_def special_defs)
  have "stream_inv ?s"
    by (rule stream_inv_enqueue [where validate = "\<lambda>_. True"])
      (simp_all add: stream_inv_init admit_def a, simp add: ism_Initialize_def ism_PrepareForRun_def special_defs)
  moreover have "last_select_timestamp ?s \<le> Ts 5"
    by (simp add: enqueue_def ism_Initialize_def ism_PrepareForRun_def special_defs)
  ultimately show ?thesis
    using pop_delivers [of ?s "Ts 5"] a by (auto simp: enqueue_def ism_Initialize_def ism_PrepareForRun_def)
qed

end
