(* ===== verification/Output_Shard.thy ===== *)
theory Output_Shard
  imports Input_Stream
begin

text \<open>
  \<^verbatim>\<open>output_stream_shard.h\<close> and \<^verbatim>\<open>.cc\<close>: the packets and the bound that one call of a calculator leaves on one output
  stream, and the specification all shards of the stream share with its manager.  An error handed to
  the error callback is an element of the list of errors an operation returns; the callback itself and
  the packet type's \<^verbatim>\<open>Validate\<close> are parameters.
\<close>

record 'a OutputStreamSpec =
  spec_name :: string
  locked_intro_data :: bool
  offset_enabled :: bool
  spec_offset :: int
  spec_header :: "'a packet"

record 'a OutputStreamShard =
  output_queue :: "'a packet list"
  oss_closed :: bool
  oss_next_timestamp_bound :: Timestamp
  updated_next_timestamp_bound :: Timestamp

datatype output_error =
    SentToClosed
  | NotAllowedInStream Timestamp
  | OutputTypeMismatch
  | IllegalBound Timestamp
  | OffsetTooLate
  | HeaderAfterClose
  | HeaderTooLate
  | PropagateHeaderTooLate
  | InvalidInputTimestamp Timestamp

definition OutputStreamShard_new :: "'a OutputStreamShard" where
  "OutputStreamShard_new = \<lparr>output_queue = [], oss_closed = False, oss_next_timestamp_bound = Unset,
     updated_next_timestamp_bound = Unset\<rparr>"

definition oss_SetNextTimestampBound :: "Timestamp \<Rightarrow> 'a OutputStreamShard \<Rightarrow> output_error list \<times> 'a OutputStreamShard" where
  "oss_SetNextTimestampBound b o' =
     (if \<not> IsAllowedInStream b \<and> b \<noteq> OneOverPostStream then ([IllegalBound b], o')
      else ([], o'\<lparr>oss_next_timestamp_bound := b, updated_next_timestamp_bound := b\<rparr>))"

definition oss_Close :: "'a OutputStreamShard \<Rightarrow> 'a OutputStreamShard" where
  "oss_Close o' = o'\<lparr>oss_closed := True, oss_next_timestamp_bound := Done, updated_next_timestamp_bound := Done\<rparr>"

definition oss_SetOffset :: "int \<Rightarrow> 'a OutputStreamSpec \<Rightarrow> output_error list \<times> 'a OutputStreamSpec" where
  "oss_SetOffset offset spec =
     (if locked_intro_data spec then ([OffsetTooLate], spec)
      else ([], spec\<lparr>offset_enabled := True, spec_offset := offset\<rparr>))"

definition oss_SetHeader ::
  "'a packet \<Rightarrow> 'a OutputStreamShard \<Rightarrow> 'a OutputStreamSpec \<Rightarrow> output_error list \<times> 'a OutputStreamSpec" where
  "oss_SetHeader header o' spec =
     (if oss_closed o' then ([HeaderAfterClose], spec)
      else if locked_intro_data spec then ([HeaderTooLate], spec)
      else ([], spec\<lparr>spec_header := header\<rparr>))"

text \<open>An empty packet sets the bound after its timestamp; its own errors go to the callback, and the status is ok.\<close>

definition oss_AddPacketInternal ::
  "('a packet \<Rightarrow> bool) \<Rightarrow> 'a packet \<Rightarrow> 'a OutputStreamShard \<Rightarrow> output_error option \<times> output_error list \<times> 'a OutputStreamShard" where
  "oss_AddPacketInternal validate p o' =
     (if oss_closed o' then (Some SentToClosed, [], o')
      else if packet_IsEmpty p then (None, oss_SetNextTimestampBound (next_ts (pkt_ts p)) o')
      else if \<not> IsAllowedInStream (pkt_ts p) then (Some (NotAllowedInStream (pkt_ts p)), [], o')
      else if \<not> validate p then (Some OutputTypeMismatch, [], o')
      else (None, [], o'\<lparr>output_queue := output_queue o' @ [p], oss_next_timestamp_bound := next_ts (pkt_ts p),
              updated_next_timestamp_bound := next_ts (pkt_ts p)\<rparr>))"

definition oss_AddPacket ::
  "('a packet \<Rightarrow> bool) \<Rightarrow> 'a packet \<Rightarrow> 'a OutputStreamShard \<Rightarrow> output_error list \<times> 'a OutputStreamShard" where
  "oss_AddPacket validate p o' =
     (case oss_AddPacketInternal validate p o' of
        (None, errs, o'') \<Rightarrow> (errs, o'')
      | (Some e, errs, o'') \<Rightarrow> (errs @ [e], o''))"

definition LastAddedPacketTimestamp :: "'a OutputStreamShard \<Rightarrow> Timestamp" where
  "LastAddedPacketTimestamp o' = (if output_queue o' = [] then Unset else pkt_ts (last (output_queue o')))"

definition oss_Reset :: "Timestamp \<Rightarrow> bool \<Rightarrow> 'a OutputStreamShard \<Rightarrow> 'a OutputStreamShard" where
  "oss_Reset b c o' = o'\<lparr>output_queue := [], oss_next_timestamp_bound := b, updated_next_timestamp_bound := Unset,
     oss_closed := c\<rparr>"

end
