(* ===== verification/Calculator_Context.thy ===== *)
theory Calculator_Context
  imports Output_Shard
begin

text \<open>
  What one call of a calculator sees: the input shards (\<^verbatim>\<open>input_stream_shard.h\<close>, \<^verbatim>\<open>.cc\<close>), the context with its
  queue of input timestamps (\<^verbatim>\<open>calculator_context.h\<close>) and the manager of the contexts of a node
  (\<^verbatim>\<open>calculator_context_manager.h\<close>, \<^verbatim>\<open>.cc\<close>).  A pointer to a context is a reference: the default
  context, or the active one of an input timestamp.
\<close>

section \<open>Input shards\<close>

record 'a InputStreamShard =
  shard_name :: string
  shard_header :: "'a packet"
  packet_queue :: "'a packet list"
  is_done :: bool

definition InputStreamShard_new :: "'a InputStreamShard" where
  "InputStreamShard_new = \<lparr>shard_name = [], shard_header = empty_packet, packet_queue = [], is_done = False\<rparr>"

definition shard_Value :: "'a InputStreamShard \<Rightarrow> 'a packet" where
  "shard_Value sh = (case packet_queue sh of [] \<Rightarrow> empty_packet | p # _ \<Rightarrow> p)"

definition shard_AddPacket :: "'a packet \<Rightarrow> bool \<Rightarrow> 'a InputStreamShard \<Rightarrow> ts_error + 'a InputStreamShard" where
  "shard_AddPacket p d sh =
     (if is_done sh \<and> \<not> packet_IsEmpty p then Inl CheckFailed
      else Inr (sh\<lparr>packet_queue := packet_queue sh @ [p], is_done := d\<rparr>))"

definition ClearCurrentPacket :: "'a InputStreamShard \<Rightarrow> 'a InputStreamShard" where
  "ClearCurrentPacket sh = sh\<lparr>packet_queue := tl (packet_queue sh)\<rparr>"

section \<open>Calculator contexts\<close>

record 'a CalculatorContext =
  input_timestamps :: "Timestamp list"
  inputs :: "'a InputStreamShard list"
  outputs :: "'a OutputStreamShard list"

definition InputTimestamp :: "'a CalculatorContext \<Rightarrow> Timestamp" where
  "InputTimestamp c = (case input_timestamps c of [] \<Rightarrow> Unset | t # _ \<Rightarrow> t)"

definition PushInputTimestamp :: "Timestamp \<Rightarrow> 'a CalculatorContext \<Rightarrow> 'a CalculatorContext" where
  "PushInputTimestamp t c = c\<lparr>input_timestamps := input_timestamps c @ [t]\<rparr>"

definition PopInputTimestamp :: "'a CalculatorContext \<Rightarrow> ts_error + 'a CalculatorContext" where
  "PopInputTimestamp c =
     (case input_timestamps c of [] \<Rightarrow> Inl CheckFailed | _ # ts \<Rightarrow> Inr (c\<lparr>input_timestamps := ts\<rparr>))"

section \<open>The contexts of a node\<close>

text \<open>
  \<open>active_contexts\<close> is the \<^verbatim>\<open>std::map\<close>, in the order of its keys. The callback that sets up the shards of a
  new context is the node's.
\<close>

record 'a CalculatorContextManager =
  calculator_run_in_parallel :: bool
  num_inputs :: nat
  num_outputs :: nat
  setup_shards_callback :: "'a CalculatorContext \<Rightarrow> ts_error + 'a CalculatorContext"
  default_context :: "'a CalculatorContext option"
  active_contexts :: "(Timestamp \<times> 'a CalculatorContext) list"
  idle_contexts :: "'a CalculatorContext list"

datatype context_ref = DefaultContext | ActiveContext Timestamp

definition CalculatorContext_new :: "nat \<Rightarrow> nat \<Rightarrow> 'a CalculatorContext" where
  "CalculatorContext_new n k = \<lparr>input_timestamps = [], inputs = replicate n InputStreamShard_new,
     outputs = replicate k OutputStreamShard_new\<rparr>"

definition ccm_PrepareForRun ::
  "('a CalculatorContext \<Rightarrow> ts_error + 'a CalculatorContext) \<Rightarrow> 'a CalculatorContextManager
    \<Rightarrow> ts_error + 'a CalculatorContextManager" where
  "ccm_PrepareForRun callback m =
     (case callback (CalculatorContext_new (num_inputs m) (num_outputs m)) of
        Inl e \<Rightarrow> Inl e
      | Inr c \<Rightarrow> Inr (m\<lparr>setup_shards_callback := callback, default_context := Some c\<rparr>))"

definition ccm_CleanupAfterRun :: "'a CalculatorContextManager \<Rightarrow> 'a CalculatorContextManager" where
  "ccm_CleanupAfterRun m = m\<lparr>default_context := None, active_contexts := [], idle_contexts := []\<rparr>"

definition GetDefaultCalculatorContext :: "'a CalculatorContextManager \<Rightarrow> ts_error + context_ref" where
  "GetDefaultCalculatorContext m = (if default_context m = None then Inl CheckFailed else Inr DefaultContext)"

definition GetFrontCalculatorContext :: "'a CalculatorContextManager \<Rightarrow> ts_error + (Timestamp \<times> context_ref)" where
  "GetFrontCalculatorContext m =
     (if \<not> calculator_run_in_parallel m then Inl CheckFailed
      else case active_contexts m of
             [] \<Rightarrow> Inl CheckFailed
           | (t, _) # _ \<Rightarrow> Inr (t, ActiveContext t))"

text \<open>Insertion into the \<^verbatim>\<open>std::map\<close>, at the place of the key; the key is new.\<close>

fun emplace :: "Timestamp \<Rightarrow> 'b \<Rightarrow> (Timestamp \<times> 'b) list \<Rightarrow> (Timestamp \<times> 'b) list" where
  "emplace t c [] = [(t, c)]"
| "emplace t c ((u, d) # m) = (if t < u then (t, c) # (u, d) # m else (u, d) # emplace t c m)"

definition PrepareCalculatorContext ::
  "Timestamp \<Rightarrow> 'a CalculatorContextManager \<Rightarrow> ts_error + (context_ref \<times> 'a CalculatorContextManager)" where
  "PrepareCalculatorContext t m =
     (if \<not> calculator_run_in_parallel m then
        (case GetDefaultCalculatorContext m of Inl e \<Rightarrow> Inl e | Inr r \<Rightarrow> Inr (r, m))
      else if t \<in> fst ` set (active_contexts m) then Inl CheckFailed
      else case idle_contexts m of
             [] \<Rightarrow> (case setup_shards_callback m (CalculatorContext_new (num_inputs m) (num_outputs m)) of
                     Inl e \<Rightarrow> Inl e
                   | Inr c \<Rightarrow> Inr (ActiveContext t, m\<lparr>active_contexts := emplace t c (active_contexts m)\<rparr>))
           | c # cs \<Rightarrow> Inr (ActiveContext t, m\<lparr>active_contexts := emplace t c (active_contexts m), idle_contexts := cs\<rparr>))"

text \<open>Recycling dereferences \<^verbatim>\<open>active_contexts_.begin()\<close>, which is undefined on an empty map.\<close>

definition RecycleCalculatorContext :: "'a CalculatorContextManager \<Rightarrow> ts_error + 'a CalculatorContextManager" where
  "RecycleCalculatorContext m =
     (case active_contexts m of
        [] \<Rightarrow> Inl CheckFailed
      | (_, c) # cs \<Rightarrow> Inr (m\<lparr>idle_contexts := idle_contexts m @ [c], active_contexts := cs\<rparr>))"

definition HasActiveContexts :: "'a CalculatorContextManager \<Rightarrow> bool" where
  "HasActiveContexts m \<longleftrightarrow> calculator_run_in_parallel m \<and> active_contexts m \<noteq> []"

text \<open>Reading and writing the context behind a reference.\<close>

definition ctx_get :: "context_ref \<Rightarrow> 'a CalculatorContextManager \<Rightarrow> 'a CalculatorContext option" where
  "ctx_get r m = (case r of DefaultContext \<Rightarrow> default_context m | ActiveContext t \<Rightarrow> map_of (active_contexts m) t)"

definition ctx_put :: "context_ref \<Rightarrow> 'a CalculatorContext \<Rightarrow> 'a CalculatorContextManager \<Rightarrow> 'a CalculatorContextManager" where
  "ctx_put r c m =
     (case r of DefaultContext \<Rightarrow> m\<lparr>default_context := Some c\<rparr>
      | ActiveContext t \<Rightarrow> m\<lparr>active_contexts := map (\<lambda>(u, d). (u, if u = t then c else d)) (active_contexts m)\<rparr>)"

section \<open>Laws of references\<close>

lemma map_of_emplace: "t \<notin> fst ` set m \<Longrightarrow> map_of (emplace t c m) u = (if u = t then Some c else map_of m u)"
  by (induction m) (auto simp: image_iff)

lemma set_emplace: "set (emplace t c m) = insert (t, c) (set m)"
  by (induction m) (auto split: if_splits)

lemma emplace_sorted: "sorted_wrt (<) (map fst m) \<Longrightarrow> t \<notin> fst ` set m \<Longrightarrow> sorted_wrt (<) (map fst (emplace t c m))"
proof (induction m)
  case (Cons x m)
  obtain u d where x: "x = (u, d)" by force
  show ?case
  proof (cases "t < u")
    case True
    with Cons.prems show ?thesis by (auto simp: x intro: order.strict_trans)
  next
    case False
    with Cons.prems have "u < t" by (auto simp: x)
    with Cons x False show ?thesis by (auto simp: set_emplace)
  qed
qed simp

lemma ctx_get_put: "ctx_get r m \<noteq> None \<Longrightarrow> ctx_get r (ctx_put r c m) = Some c"
proof (cases r)
  case (ActiveContext t)
  moreover have "map_of cs t \<noteq> None \<Longrightarrow> map_of (map (\<lambda>(u, d). (u, if u = t then c else d)) cs) t = Some c" for cs
    by (induction cs) auto
  moreover assume "ctx_get r m \<noteq> None"
  ultimately show ?thesis by (simp add: ctx_get_def ctx_put_def)
qed (simp add: ctx_get_def ctx_put_def)

lemma Prepare_get:
  assumes "PrepareCalculatorContext t m = Inr (r, m')"
  shows "ctx_get r m' \<noteq> None"
  using assms
  by (auto simp: PrepareCalculatorContext_def GetDefaultCalculatorContext_def ctx_get_def map_of_emplace
      split: if_splits sum.splits list.splits)

lemma ctx_put_default [simp]:
  "calculator_run_in_parallel (ctx_put r c m) = calculator_run_in_parallel m"
  "default_context (ctx_put DefaultContext c m) = Some c"
  by (simp_all add: ctx_put_def split: context_ref.splits)

end
