(* ===== verification/Input_Handler.thy ===== *)
theory Input_Handler
  imports Calculator_Context
begin

text \<open>
  \<^verbatim>\<open>input_stream_handler.h\<close>, \<^verbatim>\<open>.cc\<close> and \<^verbatim>\<open>stream_handler/default_input_stream_handler.cc\<close>: the handler decides when a
  node may run and hands it one set of input packets per timestamp.  A handler class derived
  from the base is an extension of the record; its virtual functions are parameters of the
  base's operations.  The callbacks that are invoked are recorded in their order;
  profiling events are not modelled.
\<close>

section \<open>State\<close>

datatype NodeReadiness = kNotReady | kReadyForProcess | kReadyForClose

datatype callback =
    HeadersReady
  | Notification
  | ScheduleCallback context_ref
  | ErrorCallback stream_status
  | QueueSizeCallback nat queue_event

record 'a InputStreamHandler =
  input_stream_managers :: "'a InputStreamManager list"
  calculator_context_manager :: "'a CalculatorContextManager"
  prepared_context_for_close :: bool
  late_preparation :: bool
  batch_size :: int
  process_timestamps :: bool
  unset_header_count :: int
  callbacks :: "callback list"

definition InputStreamHandler_new ::
  "'a InputStreamManager list \<Rightarrow> 'a CalculatorContextManager \<Rightarrow> 'a InputStreamHandler" where
  "InputStreamHandler_new ms cm =
     \<lparr>input_stream_managers = ms, calculator_context_manager = cm, prepared_context_for_close = False,
      late_preparation = False, batch_size = 1, process_timestamps = False, unset_header_count = 0, callbacks = []\<rparr>"

definition call :: "callback list \<Rightarrow> ('a, 'b) InputStreamHandler_scheme \<Rightarrow> ('a, 'b) InputStreamHandler_scheme" where
  "call cs h = h\<lparr>callbacks := callbacks h @ cs\<rparr>"

definition put_stream ::
  "nat \<Rightarrow> 'a InputStreamManager \<Rightarrow> ('a, 'b) InputStreamHandler_scheme \<Rightarrow> ('a, 'b) InputStreamHandler_scheme" where
  "put_stream sid s h = h\<lparr>input_stream_managers := (input_stream_managers h)[sid := s]\<rparr>"

text \<open>\<^verbatim>\<open>Collection::Get\<close> checks the id.\<close>

definition has_id :: "nat \<Rightarrow> ('a, 'b) InputStreamHandler_scheme \<Rightarrow> bool" where
  "has_id sid h \<longleftrightarrow> sid < length (input_stream_managers h)"

section \<open>Operations on the streams\<close>

definition SetupInputShards ::
  "('a, 'b) InputStreamHandler_scheme \<Rightarrow> 'a InputStreamShard list \<Rightarrow> ts_error + 'a InputStreamShard list" where
  "SetupInputShards h shards =
     (if length shards < length (input_stream_managers h) then Inl CheckFailed
      else Inr (map (\<lambda>(s, sh). sh\<lparr>shard_name := ism_name s, shard_header := ism_header s\<rparr>)
                  (zip (input_stream_managers h) shards) @ drop (length (input_stream_managers h)) shards))"

definition UpdateInputShardHeaders ::
  "('a, 'b) InputStreamHandler_scheme \<Rightarrow> 'a InputStreamShard list \<Rightarrow> ts_error + 'a InputStreamShard list" where
  "UpdateInputShardHeaders h shards =
     (if length shards < length (input_stream_managers h) then Inl CheckFailed
      else Inr (map (\<lambda>(s, sh). sh\<lparr>shard_header := ism_header s\<rparr>)
                  (zip (input_stream_managers h) shards) @ drop (length (input_stream_managers h)) shards))"

definition GetMonitoringInfo :: "('a, 'b) InputStreamHandler_scheme \<Rightarrow> (string \<times> nat \<times> int \<times> Timestamp) list" where
  "GetMonitoringInfo h =
     map (\<lambda>s. (ism_name s, length (ism_queue s), num_packets_added s, fst (MinTimestampOrBound s))) (input_stream_managers h)"

definition ish_PrepareForRun :: "('a, 'b) InputStreamHandler_scheme \<Rightarrow> ('a, 'b) InputStreamHandler_scheme" where
  "ish_PrepareForRun h =
     h\<lparr>input_stream_managers := map ism_PrepareForRun (input_stream_managers h),
       unset_header_count := int (length (filter (\<lambda>s. \<not> ism_back_edge s) (input_stream_managers h))),
       prepared_context_for_close := False\<rparr>"

definition ish_SetHeader ::
  "nat \<Rightarrow> 'a packet \<Rightarrow> ('a, 'b) InputStreamHandler_scheme \<Rightarrow> ts_error + ('a, 'b) InputStreamHandler_scheme" where
  "ish_SetHeader sid header h =
     (if \<not> has_id sid h then Inl CheckFailed
      else case ism_SetHeader header (input_stream_managers h ! sid) of
             (StatusOk, s) \<Rightarrow>
               (let h1 = put_stream sid s h
                in if ism_back_edge s then Inr h1
                   else if unset_header_count h1 \<le> 0 then Inl CheckFailed
                   else Inr (call (if unset_header_count h1 = 1 then [HeadersReady] else [])
                               (h1\<lparr>unset_header_count := unset_header_count h1 - 1\<rparr>)))
           | (err, _) \<Rightarrow> Inr (call [ErrorCallback err] h))"

definition ish_SetMaxQueueSize ::
  "nat \<Rightarrow> int \<Rightarrow> ('a, 'b) InputStreamHandler_scheme \<Rightarrow> ts_error + ('a, 'b) InputStreamHandler_scheme" where
  "ish_SetMaxQueueSize sid n h =
     (if \<not> has_id sid h then Inl CheckFailed
      else case ism_SetMaxQueueSize n (input_stream_managers h ! sid) of
             (ev, s) \<Rightarrow> Inr (call (map (QueueSizeCallback sid) ev) (put_stream sid s h)))"

definition ish_SetMaxQueueSizes ::
  "int \<Rightarrow> ('a, 'b) InputStreamHandler_scheme \<Rightarrow> ts_error + ('a, 'b) InputStreamHandler_scheme" where
  "ish_SetMaxQueueSizes n h = run_steps (\<lambda>sid. ish_SetMaxQueueSize sid n) [0 ..< length (input_stream_managers h)] h"

definition DebugStreamNames :: "('a, 'b) InputStreamHandler_scheme \<Rightarrow> string" where
  "DebugStreamNames h =
     (case map ism_name (input_stream_managers h) of
        [] \<Rightarrow> ''no input streams''
      | [n] \<Rightarrow> ''input stream: <'' @ n @ ''>''
      | n # ns \<Rightarrow> ''input streams: <'' @ n @ concat (map (\<lambda>x. '','' @ x) ns) @ ''>'')"

text \<open>\<^verbatim>\<open>packets.back()\<close> of an empty list is undefined; it only feeds the profiler.\<close>

definition ish_AddPackets ::
  "('a packet \<Rightarrow> bool) \<Rightarrow> nat \<Rightarrow> 'a packet list \<Rightarrow> ('a, 'b) InputStreamHandler_scheme
    \<Rightarrow> ts_error + ('a, 'b) InputStreamHandler_scheme" where
  "ish_AddPackets validate sid ps h =
     (if \<not> has_id sid h then Inl CheckFailed
      else case AddOrMovePacketsInternal validate ps (input_stream_managers h ! sid) of
             (st, notify, ev, s) \<Rightarrow>
               Inr (call (map (QueueSizeCallback sid) ev @ (if st \<noteq> StatusOk then [ErrorCallback st] else []) @
                          (if notify then [Notification] else [])) (put_stream sid s h)))"

definition ish_SetNextTimestampBound ::
  "nat \<Rightarrow> Timestamp \<Rightarrow> ('a, 'b) InputStreamHandler_scheme \<Rightarrow> ts_error + ('a, 'b) InputStreamHandler_scheme" where
  "ish_SetNextTimestampBound sid bound h =
     (if \<not> has_id sid h then Inl CheckFailed
      else case SetNextTimestampBound bound (input_stream_managers h ! sid) of
             (st, notify, s) \<Rightarrow>
               Inr (call ((if st \<noteq> StatusOk then [ErrorCallback st] else []) @ (if notify then [Notification] else []))
                      (put_stream sid s h)))"

definition ish_Close :: "('a, 'b) InputStreamHandler_scheme \<Rightarrow> ('a, 'b) InputStreamHandler_scheme" where
  "ish_Close h = h\<lparr>input_stream_managers := map ism_Close (input_stream_managers h)\<rparr>"

definition ClearCurrentInputs ::
  "context_ref \<Rightarrow> ('a, 'b) InputStreamHandler_scheme \<Rightarrow> ts_error + ('a, 'b) InputStreamHandler_scheme" where
  "ClearCurrentInputs r h =
     (case ctx_get r (calculator_context_manager h) of
        None \<Rightarrow> Inl CheckFailed
      | Some c \<Rightarrow>
          (case PopInputTimestamp c of
             Inl e \<Rightarrow> Inl e
           | Inr c' \<Rightarrow> Inr (h\<lparr>calculator_context_manager :=
               ctx_put r (c'\<lparr>inputs := map ClearCurrentPacket (inputs c')\<rparr>) (calculator_context_manager h)\<rparr>)))"

text \<open>\<^verbatim>\<open>NumInputStreams() >= 0\<close> always holds; \<^verbatim>\<open>SetLatePreparation\<close> tests the old value of the flag.\<close>

definition SetBatchSize :: "int \<Rightarrow> ('a, 'b) InputStreamHandler_scheme \<Rightarrow> ts_error + ('a, 'b) InputStreamHandler_scheme" where
  "SetBatchSize n h =
     (if (calculator_run_in_parallel (calculator_context_manager h) \<and> n \<noteq> 1) \<or> (late_preparation h \<and> n \<noteq> 1) \<or> n < 1
      then Inl CheckFailed else Inr (h\<lparr>batch_size := n\<rparr>))"

definition SetLatePreparation :: "bool \<Rightarrow> ('a, 'b) InputStreamHandler_scheme \<Rightarrow> ts_error + ('a, 'b) InputStreamHandler_scheme" where
  "SetLatePreparation late h =
     (if batch_size h \<noteq> 1 \<and> late_preparation h then Inl CheckFailed else Inr (h\<lparr>late_preparation := late\<rparr>))"

section \<open>Scheduling\<close>

text \<open>The virtual functions of a handler class.\<close>

type_synonym ('a, 'b) readiness_fun =
  "('a, 'b) InputStreamHandler_scheme \<Rightarrow> ts_error + (NodeReadiness \<times> Timestamp \<times> ('a, 'b) InputStreamHandler_scheme)"

type_synonym ('a, 'b) fill_fun =
  "Timestamp \<Rightarrow> ('a, 'b) InputStreamHandler_scheme \<times> 'a InputStreamShard list
    \<Rightarrow> ts_error + (('a, 'b) InputStreamHandler_scheme \<times> 'a InputStreamShard list)"

definition fill_context ::
  "('a, 'b) fill_fun \<Rightarrow> Timestamp \<Rightarrow> context_ref \<Rightarrow> ('a, 'b) InputStreamHandler_scheme
    \<Rightarrow> ts_error + ('a, 'b) InputStreamHandler_scheme" where
  "fill_context fill t r h =
     (case ctx_get r (calculator_context_manager h) of
        None \<Rightarrow> Inl CheckFailed
      | Some c \<Rightarrow>
          (case fill t (h, inputs c) of
             Inl e \<Rightarrow> Inl e
           | Inr (h', shards) \<Rightarrow>
               Inr (h'\<lparr>calculator_context_manager := ctx_put r (c\<lparr>inputs := shards\<rparr>) (calculator_context_manager h')\<rparr>)))"

definition push_context ::
  "Timestamp \<Rightarrow> context_ref \<Rightarrow> ('a, 'b) InputStreamHandler_scheme \<Rightarrow> ts_error + ('a, 'b) InputStreamHandler_scheme" where
  "push_context t r h =
     (case ctx_get r (calculator_context_manager h) of
        None \<Rightarrow> Inl CheckFailed
      | Some c \<Rightarrow> Inr (h\<lparr>calculator_context_manager := ctx_put r (PushInputTimestamp t c) (calculator_context_manager h)\<rparr>))"

definition NumberOfContextTimestamps :: "context_ref \<Rightarrow> ('a, 'b) InputStreamHandler_scheme \<Rightarrow> int" where
  "NumberOfContextTimestamps r h =
     (case ctx_get r (calculator_context_manager h) of None \<Rightarrow> 0 | Some c \<Rightarrow> int (length (input_timestamps c)))"

text \<open>One round for a node that is ready: the number of invocations it schedules and the new state.\<close>

definition schedule_process ::
  "('a, 'b) fill_fun \<Rightarrow> Timestamp \<Rightarrow> ('a, 'b) InputStreamHandler_scheme
    \<Rightarrow> ts_error + (int \<times> ('a, 'b) InputStreamHandler_scheme)" where
  "schedule_process fill t h =
     (case PrepareCalculatorContext t (calculator_context_manager h) of
        Inl e \<Rightarrow> Inl e
      | Inr (r, cm) \<Rightarrow>
          (case push_context t r (h\<lparr>calculator_context_manager := cm\<rparr>) of
             Inl e \<Rightarrow> Inl e
           | Inr h1 \<Rightarrow>
               (case (if late_preparation h1 then Inr h1 else fill_context fill t r h1) of
                  Inl e \<Rightarrow> Inl e
                | Inr h2 \<Rightarrow>
                    if NumberOfContextTimestamps r h2 = batch_size h2 then Inr (1, call [ScheduleCallback r] h2)
                    else Inr (0, h2))))"

definition schedule_close ::
  "('a, 'b) InputStreamHandler_scheme \<Rightarrow> ts_error + (int \<times> ('a, 'b) InputStreamHandler_scheme)" where
  "schedule_close h =
     (if HasActiveContexts (calculator_context_manager h) \<or> prepared_context_for_close h then Inr (0, h)
      else case GetDefaultCalculatorContext (calculator_context_manager h) of
             Inl e \<Rightarrow> Inl e
           | Inr r \<Rightarrow>
               (case push_context Done r h of
                  Inl e \<Rightarrow> Inl e
                | Inr h1 \<Rightarrow> Inr (1, call [ScheduleCallback r] (h1\<lparr>prepared_context_for_close := True\<rparr>))))"

definition not_ready_bound :: "Timestamp \<Rightarrow> ('a, 'b) InputStreamHandler_scheme \<Rightarrow> ts_error + Timestamp" where
  "not_ready_bound min_stream_timestamp h =
     (case default_context (calculator_context_manager h) of
        None \<Rightarrow> Inl CheckFailed
      | Some c \<Rightarrow> Inr (if 1 < batch_size h \<and> input_timestamps c \<noteq> [] then InputTimestamp c else min_stream_timestamp))"

text \<open>
  The loop; \<open>None\<close> when it does not end. The result: the invocations scheduled, the input bound, the
  state.
\<close>

partial_function (option) schedule_loop ::
  "('a, 'b) readiness_fun \<Rightarrow> ('a, 'b) fill_fun \<Rightarrow> int \<Rightarrow> int \<Rightarrow> ('a, 'b) InputStreamHandler_scheme
    \<Rightarrow> (ts_error + (int \<times> Timestamp \<times> ('a, 'b) InputStreamHandler_scheme)) option" where
  "schedule_loop readiness fill max_allowance n h =
     (if max_allowance \<le> n then Some (Inr (n, Unset, h))
      else case readiness h of
             Inl e \<Rightarrow> Some (Inl e)
           | Inr (rd, t, h1) \<Rightarrow>
               (case rd of
                  kNotReady \<Rightarrow>
                    Some (case not_ready_bound t h1 of Inl e \<Rightarrow> Inl e | Inr b \<Rightarrow> Inr (n, b, h1))
                | kReadyForProcess \<Rightarrow>
                    (case schedule_process fill t h1 of
                       Inl e \<Rightarrow> Some (Inl e)
                     | Inr (k, h2) \<Rightarrow> schedule_loop readiness fill max_allowance (n + k) h2)
                | kReadyForClose \<Rightarrow>
                    Some (case schedule_close h1 of Inl e \<Rightarrow> Inl e | Inr (k, h2) \<Rightarrow> Inr (n + k, Unset, h2))))"

definition ScheduleInvocations ::
  "('a, 'b) readiness_fun \<Rightarrow> ('a, 'b) fill_fun \<Rightarrow> int \<Rightarrow> ('a, 'b) InputStreamHandler_scheme
    \<Rightarrow> (ts_error + (bool \<times> Timestamp \<times> ('a, 'b) InputStreamHandler_scheme)) option" where
  "ScheduleInvocations readiness fill max_allowance h =
     (if input_stream_managers h = [] then
        Some (case GetDefaultCalculatorContext (calculator_context_manager h) of
                Inl e \<Rightarrow> Inl e
              | Inr r \<Rightarrow> Inr (True, Unset, call [ScheduleCallback r] h))
      else case schedule_loop readiness fill max_allowance 0 h of
             None \<Rightarrow> None
           | Some (Inl e) \<Rightarrow> Some (Inl e)
           | Some (Inr (n, b, h')) \<Rightarrow> Some (Inr (0 < n, b, h')))"

definition FinalizeInputSet :: "('a, 'b) fill_fun \<Rightarrow> ('a, 'b) fill_fun" where
  "FinalizeInputSet fill t hs = (if late_preparation (fst hs) then fill t hs else Inr hs)"

section \<open>Synchronised sets of streams\<close>

record SyncSet =
  stream_ids :: "nat list"
  last_processed_ts :: Timestamp

definition SyncSet_new :: "nat list \<Rightarrow> SyncSet" where
  "SyncSet_new ids = \<lparr>stream_ids = ids, last_processed_ts = Unset\<rparr>"

definition SyncSet_PrepareForRun :: "SyncSet \<Rightarrow> SyncSet" where
  "SyncSet_PrepareForRun ss = ss\<lparr>last_processed_ts := Unset\<rparr>"

definition ids_ok :: "SyncSet \<Rightarrow> ('a, 'b) InputStreamHandler_scheme \<Rightarrow> bool" where
  "ids_ok ss h \<longleftrightarrow> list_all (\<lambda>sid. has_id sid h) (stream_ids ss)"

text \<open>The loop over the streams: the least bound of an empty stream, the least first packet.\<close>

fun min_scan :: "'a InputStreamManager list \<Rightarrow> nat list \<Rightarrow> Timestamp \<times> Timestamp \<Rightarrow> Timestamp \<times> Timestamp" where
  "min_scan ms [] acc = acc"
| "min_scan ms (sid # ids) (min_bound, min_packet) =
     (case MinTimestampOrBound (ms ! sid) of
        (t, e) \<Rightarrow> min_scan ms ids (if e then (min min_bound t, min_packet) else (min_bound, min min_packet t)))"

definition GetReadiness ::
  "('a, 'b) InputStreamHandler_scheme \<Rightarrow> SyncSet \<Rightarrow> ts_error + (NodeReadiness \<times> Timestamp \<times> SyncSet)" where
  "GetReadiness h ss =
     (if \<not> ids_ok ss h then Inl CheckFailed
      else
        let (min_bound, min_packet) = min_scan (input_stream_managers h) (stream_ids ss) (Done, Done);
            min_stream_timestamp = min min_packet min_bound
        in if OneOverPostStream \<le> min_stream_timestamp
           then Inr (kReadyForClose, Done, ss\<lparr>last_processed_ts := prev_ts Done\<rparr>)
           else if \<not> process_timestamps h then
             (if min_packet < min_bound
              then Inr (kReadyForProcess, min_stream_timestamp, ss\<lparr>last_processed_ts := min_stream_timestamp\<rparr>)
              else Inr (kNotReady, min_stream_timestamp, ss))
           else
             let settled = (if min_packet = PostStream \<and> min_packet < min_bound then min_packet else prev_ts min_bound);
                 input_timestamp = min min_packet settled
             in if max (last_processed_ts ss) Unstarted < input_timestamp
                then Inr (kReadyForProcess, input_timestamp, ss\<lparr>last_processed_ts := input_timestamp\<rparr>)
                else Inr (kNotReady, min_stream_timestamp, ss))"

definition MinPacketTimestamp :: "('a, 'b) InputStreamHandler_scheme \<Rightarrow> SyncSet \<Rightarrow> ts_error + Timestamp" where
  "MinPacketTimestamp h ss =
     (if \<not> ids_ok ss h then Inl CheckFailed
      else Inr (snd (min_scan (input_stream_managers h) (stream_ids ss) (Done, Done))))"

text \<open>The state of filling: the handler and the shards of one context.\<close>

definition fill_stream :: "Timestamp \<Rightarrow> nat \<Rightarrow>
    ('a, 'b) InputStreamHandler_scheme \<times> 'a InputStreamShard list
    \<Rightarrow> ts_error + (('a, 'b) InputStreamHandler_scheme \<times> 'a InputStreamShard list)" where
  "fill_stream t sid hs =
     (case hs of (h, shards) \<Rightarrow>
        if \<not> has_id sid h \<or> length shards \<le> sid then Inl CheckFailed
        else case PopPacketAtTimestamp t (input_stream_managers h ! sid) of
               Inl e \<Rightarrow> Inl e
             | Inr (r, s) \<Rightarrow>
                 if num_packets_dropped r \<noteq> 0 then Inl CheckFailed
                 else case shard_AddPacket (popped r) (stream_is_done r) (shards ! sid) of
                        Inl e \<Rightarrow> Inl e
                      | Inr sh \<Rightarrow>
                          Inr (call (map (QueueSizeCallback sid) (pop_events r)) (put_stream sid s h), shards[sid := sh]))"

definition SyncSet_FillInputSet :: "SyncSet \<Rightarrow> ('a, 'b) fill_fun" where
  "SyncSet_FillInputSet ss t hs =
     (if \<not> IsAllowedInStream t then Inl CheckFailed else run_steps (fill_stream t) (stream_ids ss) hs)"

definition fill_bound :: "nat \<Rightarrow>
    ('a, 'b) InputStreamHandler_scheme \<times> 'a InputStreamShard list
    \<Rightarrow> ts_error + (('a, 'b) InputStreamHandler_scheme \<times> 'a InputStreamShard list)" where
  "fill_bound sid hs =
     (case hs of (h, shards) \<Rightarrow>
        if \<not> has_id sid h \<or> length shards \<le> sid then Inl CheckFailed
        else let bound = fst (MinTimestampOrBound (input_stream_managers h ! sid))
             in case shard_AddPacket (packet_At (prev_ts bound) empty_packet) (bound = Done) (shards ! sid) of
                  Inl e \<Rightarrow> Inl e
                | Inr sh \<Rightarrow> Inr (h, shards[sid := sh]))"

definition FillInputBounds ::
  "SyncSet \<Rightarrow> ('a, 'b) InputStreamHandler_scheme \<times> 'a InputStreamShard list
    \<Rightarrow> ts_error + (('a, 'b) InputStreamHandler_scheme \<times> 'a InputStreamShard list)" where
  "FillInputBounds ss hs = run_steps fill_bound (stream_ids ss) hs"

text \<open>Erasing the old packets of one stream, as several handlers do.\<close>

definition erase_stream :: "Timestamp \<Rightarrow> nat \<Rightarrow> ('a, 'b) InputStreamHandler_scheme \<Rightarrow> ('a, 'b) InputStreamHandler_scheme" where
  "erase_stream t sid h =
     (case ErasePacketsEarlierThan t (input_stream_managers h ! sid) of
        (ev, s) \<Rightarrow> call (map (QueueSizeCallback sid) ev) (put_stream sid s h))"

section \<open>The default handler\<close>

record 'a DefaultInputStreamHandler = "'a InputStreamHandler" +
  sync_set :: SyncSet

definition DefaultInputStreamHandler_new ::
  "'a InputStreamManager list \<Rightarrow> 'a CalculatorContextManager \<Rightarrow> int option \<Rightarrow> ts_error + 'a DefaultInputStreamHandler" where
  "DefaultInputStreamHandler_new ms cm batch =
     (let h = InputStreamHandler.extend (InputStreamHandler_new ms cm)
                (DefaultInputStreamHandler.fields (SyncSet_new [0 ..< length ms]))
      in case batch of None \<Rightarrow> Inr h | Some n \<Rightarrow> SetBatchSize n h)"

definition Default_PrepareForRun :: "('a, 'b) DefaultInputStreamHandler_scheme \<Rightarrow> ('a, 'b) DefaultInputStreamHandler_scheme" where
  "Default_PrepareForRun h = ish_PrepareForRun (h\<lparr>sync_set := SyncSet_PrepareForRun (sync_set h)\<rparr>)"

definition Default_GetNodeReadiness ::
  "('a, 'b) DefaultInputStreamHandler_scheme
    \<Rightarrow> ts_error + (NodeReadiness \<times> Timestamp \<times> ('a, 'b) DefaultInputStreamHandler_scheme)" where
  "Default_GetNodeReadiness h =
     (case GetReadiness h (sync_set h) of
        Inl e \<Rightarrow> Inl e
      | Inr (rd, t, ss) \<Rightarrow> Inr (rd, t, h\<lparr>sync_set := ss\<rparr>))"

definition Default_FillInputSet ::
  "Timestamp \<Rightarrow> ('a, 'b) DefaultInputStreamHandler_scheme \<times> 'a InputStreamShard list
    \<Rightarrow> ts_error + (('a, 'b) DefaultInputStreamHandler_scheme \<times> 'a InputStreamShard list)" where
  "Default_FillInputSet t hs = SyncSet_FillInputSet (sync_set (fst hs)) t hs"

section \<open>Readiness and filling\<close>

lemma min_scan_spec:
  "min_scan ms ids (b0, p0) = (mb, mp) \<Longrightarrow>
   mb \<le> b0 \<and> mp \<le> p0 \<and>
   (\<forall>i \<in> set ids. (if snd (MinTimestampOrBound (ms ! i)) then mb else mp) \<le> fst (MinTimestampOrBound (ms ! i))) \<and>
   (mb = b0 \<or> (\<exists>i \<in> set ids. MinTimestampOrBound (ms ! i) = (mb, True))) \<and>
   (mp = p0 \<or> (\<exists>i \<in> set ids. MinTimestampOrBound (ms ! i) = (mp, False)))"
proof (induction ids arbitrary: b0 p0)
  case (Cons i ids)
  obtain t e where m: "MinTimestampOrBound (ms ! i) = (t, e)" by force
  let ?b = "if e then min b0 t else b0" and ?p = "if e then p0 else min p0 t"
  have "min_scan ms ids (?b, ?p) = (mb, mp)" using Cons.prems m by (auto split: if_splits)
  from Cons.IH [OF this] m show ?case by (cases e) (auto simp: min_def split: if_splits)
qed auto

lemma MinTimestampOrBound_packet:
  "MinTimestampOrBound s = (t, False) \<longleftrightarrow> ism_queue s \<noteq> [] \<and> pkt_ts (hd (ism_queue s)) = t"
  by (cases "ism_queue s") (auto simp: MinTimestampOrBound_def)

text \<open>
  The invariant of a synchronised set: its streams are in order and were selected up to the same timestamp, no
  later than the last one processed; or nothing can arrive on any of them any more.
\<close>

definition sync_inv :: "SyncSet \<Rightarrow> ('a, 'b) InputStreamHandler_scheme \<Rightarrow> bool" where
  "sync_inv ss h \<longleftrightarrow> ids_ok ss h \<and> distinct (stream_ids ss) \<and>
     (\<forall>i \<in> set (stream_ids ss). stream_inv (input_stream_managers h ! i)) \<and>
     ((\<exists>L \<le> max (last_processed_ts ss) Unstarted.
        \<forall>i \<in> set (stream_ids ss). last_select_timestamp (input_stream_managers h ! i) = L) \<or>
      (prev_ts Done \<le> last_processed_ts ss \<and>
       (\<forall>i \<in> set (stream_ids ss). OneOverPostStream \<le> fst (MinTimestampOrBound (input_stream_managers h ! i)))))"

lemma prev_ts_less: "Unstarted < b \<Longrightarrow> prev_ts b < b"
  by (cases b) (auto simp: prev_ts_eq special_defs)

lemma prev_ts_Unstarted: "b \<le> Unstarted \<Longrightarrow> prev_ts b = Unstarted"
  by (cases b) (auto simp: prev_ts_eq special_defs)

lemma prev_ts_le_PostStream: "prev_ts b \<le> PostStream"
  by (cases b) (auto simp: prev_ts_eq special_defs)

lemma readiness_process:
  assumes inv: "sync_inv ss h" and rd: "GetReadiness h ss = Inr (kReadyForProcess, t, ss')"
  shows "IsAllowedInStream t" "ss' = ss\<lparr>last_processed_ts := t\<rparr>"
    and "\<forall>i \<in> set (stream_ids ss). let s = input_stream_managers h ! i in
      last_select_timestamp s < t \<and> t \<le> fst (MinTimestampOrBound s) \<and> (ism_queue s = [] \<longrightarrow> t < next_timestamp_bound s)"
    and "(\<exists>i \<in> set (stream_ids ss). ism_queue (input_stream_managers h ! i) \<noteq> [] \<and> t = pkt_ts (hd (ism_queue (input_stream_managers h ! i)))) \<or>
      (last_processed_ts ss < t \<and> t = prev_ts (fst (min_scan (input_stream_managers h) (stream_ids ss) (Done, Done))))"
proof -
  let ?ms = "input_stream_managers h" and ?ids = "stream_ids ss"
  obtain mb mp where sc: "min_scan ?ms ?ids (Done, Done) = (mb, mp)" by force
  note spec = min_scan_spec [OF sc]
  have le: "OneOverPostStream \<le> Done" by (simp add: special_defs)
  have live: "\<not> (\<forall>i \<in> set ?ids. OneOverPostStream \<le> fst (MinTimestampOrBound (?ms ! i)))"
  proof
    assume "\<forall>i \<in> set ?ids. OneOverPostStream \<le> fst (MinTimestampOrBound (?ms ! i))"
    then have "OneOverPostStream \<le> min mp mb" using spec le by fastforce
    with rd show False by (auto simp: GetReadiness_def sc Let_def split: if_splits)
  qed
  obtain L where L: "L \<le> max (last_processed_ts ss) Unstarted" "\<forall>i \<in> set ?ids. last_select_timestamp (?ms ! i) = L"
    using inv live by (auto simp: sync_inv_def)
  have si: "\<forall>i \<in> set ?ids. stream_inv (?ms ! i)" using inv by (auto simp: sync_inv_def)
  have ss': "ss' = ss\<lparr>last_processed_ts := t\<rparr>"
    using rd by (auto simp: GetReadiness_def sc Let_def split: if_splits)
  have ms: "mp \<noteq> Done \<Longrightarrow> \<exists>i \<in> set ?ids. MinTimestampOrBound (?ms ! i) = (mp, False)" using spec by blast
  have tmp: "t \<le> mp \<and> t < mb \<and> t < OneOverPostStream \<and> ((mp = t \<and> mp \<noteq> Done) \<or> max (last_processed_ts ss) Unstarted < t \<and> t = prev_ts mb)"
  proof (cases "process_timestamps h")
    case False
    then have "mp < mb" "t = mp" "\<not> OneOverPostStream \<le> mp"
      using rd by (auto simp: GetReadiness_def sc Let_def split: if_splits)
    moreover have "OneOverPostStream \<le> Done" by (simp add: special_defs)
    ultimately show ?thesis by auto
  next
    case True
    define st where "st = (if mp = PostStream \<and> mp < mb then mp else prev_ts mb)"
    have t: "t = min mp st" "max (last_processed_ts ss) Unstarted < t"
      using rd True by (auto simp: GetReadiness_def sc Let_def st_def split: if_splits)
    have "st < mb" if "Unstarted < st"
      using that prev_ts_less [of mb] prev_ts_Unstarted [of mb] unfolding st_def
      by (cases "Unstarted < mb") (auto simp: not_less split: if_splits)
    moreover have "st < OneOverPostStream"
      using prev_ts_le_PostStream [of mb] by (auto simp: st_def special_defs less_Timestamp_def less_eq_Timestamp_def)
    moreover have "t \<le> mp" "t \<le> st" "Unstarted < st" using t by auto
    moreover have "t = mp \<or> t = prev_ts mb" using t(1) by (auto simp: st_def min_def split: if_splits)
    moreover have "t \<noteq> Done" using \<open>t \<le> st\<close> \<open>st < OneOverPostStream\<close> by (cases st) (auto simp: special_defs)
    ultimately show ?thesis using t(2) by auto
  qed
  have head: "\<exists>i \<in> set ?ids. ism_queue (?ms ! i) \<noteq> [] \<and> t = pkt_ts (hd (ism_queue (?ms ! i)))" if "mp = t" "mp \<noteq> Done"
    using ms [OF that(2)] that(1) by (auto simp: MinTimestampOrBound_packet)
  have Lt: "L < t" and Ut: "Unstarted < t"
  proof -
    have "L < t \<and> Unstarted < t" if mt: "mp = t" "mp \<noteq> Done"
    proof -
      from head [OF mt] obtain i where i: "i \<in> set ?ids" "ism_queue (?ms ! i) \<noteq> []" "t = pkt_ts (hd (ism_queue (?ms ! i)))" by blast
      then have "IsAllowedInStream t \<and> last_select_timestamp (?ms ! i) < t" using si by (auto simp: stream_inv_def)
      with L(2) i(1) show ?thesis by (auto simp: IsAllowedInStream_def special_defs less_Timestamp_def less_eq_Timestamp_def)
    qed
    moreover have "L < t" "Unstarted < t" if "max (last_processed_ts ss) Unstarted < t"
      using that L(1) by (auto dest: order.strict_trans1)
    ultimately show "L < t" "Unstarted < t" using tmp by blast+
  qed
  show "IsAllowedInStream t"
    using Ut tmp by (cases t) (auto simp: IsAllowedInStream_def special_defs)
  show "ss' = ss\<lparr>last_processed_ts := t\<rparr>" by fact
  show "(\<exists>i \<in> set ?ids. ism_queue (?ms ! i) \<noteq> [] \<and> t = pkt_ts (hd (ism_queue (?ms ! i)))) \<or>
      (last_processed_ts ss < t \<and> t = prev_ts (fst (min_scan ?ms ?ids (Done, Done))))"
    using tmp head sc by auto
  show "\<forall>i \<in> set (stream_ids ss). let s = input_stream_managers h ! i in
      last_select_timestamp s < t \<and> t \<le> fst (MinTimestampOrBound s) \<and> (ism_queue s = [] \<longrightarrow> t < next_timestamp_bound s)"
  proof
    fix i assume i: "i \<in> set ?ids"
    with spec have le: "(if snd (MinTimestampOrBound (?ms ! i)) then mb else mp) \<le> fst (MinTimestampOrBound (?ms ! i))" by blast
    show "let s = ?ms ! i in last_select_timestamp s < t \<and> t \<le> fst (MinTimestampOrBound s) \<and> (ism_queue s = [] \<longrightarrow> t < next_timestamp_bound s)"
      using le tmp Lt L(2) i by (auto simp: MinTimestampOrBound_def Let_def split: list.splits)
  qed
qed

lemma pop_is_done:
  "PopPacketAtTimestamp t s = Inr (r, s') \<Longrightarrow> stream_is_done r = ism_IsDone s' \<and>
     (t < next_timestamp_bound s \<longrightarrow> next_timestamp_bound s' = next_timestamp_bound s)"
  by (auto simp: PopPacketAtTimestamp_def Let_def split: if_splits prod.splits)

text \<open>
  What filling an input set for \<open>t\<close> does to one stream and its shard: the stream's packet at \<open>t\<close>, or an empty packet if it has
  none, is put into the shard; the stream loses that packet and no other, and accepts nothing
  at or before \<open>t\<close> any more.
\<close>

definition synced :: "Timestamp \<Rightarrow> 'a InputStreamManager \<Rightarrow> 'a InputStreamShard \<Rightarrow> 'a InputStreamManager \<Rightarrow> 'a InputStreamShard \<Rightarrow> bool" where
  "synced t s sh s' sh' \<longleftrightarrow>
     stream_inv s' \<and> last_select_timestamp s' = t \<and> t < next_timestamp_bound s' \<and>
     (t < next_timestamp_bound s \<longrightarrow> next_timestamp_bound s' = next_timestamp_bound s) \<and>
     packet_queue sh' \<noteq> [] \<and> butlast (packet_queue sh') = packet_queue sh \<and> is_done sh' = ism_IsDone s' \<and>
     (if ism_queue s \<noteq> [] \<and> pkt_ts (hd (ism_queue s)) = t
      then last (packet_queue sh') = hd (ism_queue s) \<and> ism_queue s' = tl (ism_queue s)
      else packet_IsEmpty (last (packet_queue sh')) \<and> ism_queue s' = ism_queue s)"

definition shard_ok :: "'a InputStreamManager \<Rightarrow> 'a InputStreamShard \<Rightarrow> bool" where
  "shard_ok s sh \<longleftrightarrow> (is_done sh \<longrightarrow> ism_IsDone s)"

lemma fill_stream_synced:
  assumes "has_id i h" "i < length shards" "shard_ok (input_stream_managers h ! i) (shards ! i)"
    and "stream_inv (input_stream_managers h ! i)" "IsAllowedInStream t"
    and "last_select_timestamp (input_stream_managers h ! i) \<le> t" "t \<le> fst (MinTimestampOrBound (input_stream_managers h ! i))"
  shows "\<exists>s' sh' cs. fill_stream t i (h, shards) = Inr (call cs (put_stream i s' h), shards[i := sh']) \<and>
    synced t (input_stream_managers h ! i) (shards ! i) s' sh'"
proof -
  let ?s = "input_stream_managers h ! i"
  from ism.select_head [OF assms(4-7)] obtain r s' where r: "PopPacketAtTimestamp t ?s = Inr (r, s')" "stream_inv s'"
      "last_select_timestamp s' = t" "t < next_timestamp_bound s'" "num_packets_dropped r = 0"
    and c: "if ism_queue ?s \<noteq> [] \<and> fst (MinTimestampOrBound ?s) = t then popped r = hd (ism_queue ?s) \<and> ism_queue s' = tl (ism_queue ?s)
      else packet_IsEmpty (popped r) \<and> ism_queue s' = ism_queue ?s" by blast
  have hd: "ism_queue ?s \<noteq> [] \<Longrightarrow> fst (MinTimestampOrBound ?s) = pkt_ts (hd (ism_queue ?s))"
    using ism.head_eq [OF assms(4)] by simp
  have "is_done (shards ! i) \<Longrightarrow> packet_IsEmpty (popped r)"
    using assms(3) c by (auto simp: shard_ok_def ism_IsDone_def)
  then have a: "shard_AddPacket (popped r) (stream_is_done r) (shards ! i) =
      Inr ((shards ! i)\<lparr>packet_queue := packet_queue (shards ! i) @ [popped r], is_done := ism_IsDone s'\<rparr>)"
    using pop_is_done [OF r(1)] by (auto simp: shard_AddPacket_def)
  show ?thesis
    using assms(1,2) r c hd a pop_is_done [OF r(1)]
    by (intro exI [of _ s'] exI [of _ "(shards ! i)\<lparr>packet_queue := packet_queue (shards ! i) @ [popped r], is_done := ism_IsDone s'\<rparr>"]
        exI [of _ "map (QueueSizeCallback i) (pop_events r)"]) (auto simp: fill_stream_def synced_def split: if_splits)
qed

lemma call_simps [simp]:
  "input_stream_managers (call cs h) = input_stream_managers h" "has_id i (call cs h) = has_id i h"
  "input_stream_managers (put_stream i s h) = (input_stream_managers h)[i := s]" "has_id j (put_stream i s h) = has_id j h"
  by (simp_all add: call_def put_stream_def has_id_def)

text \<open>
  A handler fills the shards stream by stream. The contract of such a step: under a condition on the stream and its shard it succeeds,
  changes that stream and that shard as stated, invokes callbacks, and changes nothing else.
\<close>

locale per_stream =
  fixes step :: "nat \<Rightarrow> ('a, 'b) InputStreamHandler_scheme \<times> 'a InputStreamShard list
      \<Rightarrow> ts_error + (('a, 'b) InputStreamHandler_scheme \<times> 'a InputStreamShard list)"
    and pre :: "nat \<Rightarrow> 'a InputStreamManager \<Rightarrow> 'a InputStreamShard \<Rightarrow> bool"
    and post :: "nat \<Rightarrow> 'a InputStreamManager \<Rightarrow> 'a InputStreamShard \<Rightarrow> 'a InputStreamManager \<Rightarrow> 'a InputStreamShard \<Rightarrow> bool"
  assumes step_ok: "has_id i h \<Longrightarrow> i < length sh \<Longrightarrow> pre i (input_stream_managers h ! i) (sh ! i) \<Longrightarrow>
      \<exists>s' sh' cs. step i (h, sh) = Inr (call cs (put_stream i s' h), sh[i := sh']) \<and>
        post i (input_stream_managers h ! i) (sh ! i) s' sh'"
begin

lemma fill_all:
  assumes "distinct ids" "length sh = length (input_stream_managers h)"
    and "\<forall>i \<in> set ids. has_id i h \<and> pre i (input_stream_managers h ! i) (sh ! i)"
  shows "\<exists>ms' cs sh'. run_steps step ids (h, sh) =
      Inr (h\<lparr>input_stream_managers := ms', callbacks := callbacks h @ cs\<rparr>, sh') \<and>
    length ms' = length (input_stream_managers h) \<and> length sh' = length sh \<and>
    (\<forall>i. i \<notin> set ids \<longrightarrow> ms' ! i = input_stream_managers h ! i \<and> sh' ! i = sh ! i) \<and>
    (\<forall>i \<in> set ids. post i (input_stream_managers h ! i) (sh ! i) (ms' ! i) (sh' ! i))"
  using assms
proof (induction ids arbitrary: h sh)
  case Nil
  then show ?case by (intro exI [of _ "input_stream_managers h"] exI [of _ "[]"] exI [of _ sh]) simp
next
  case (Cons i ids)
  let ?ms = "input_stream_managers h"
  from Cons.prems have i: "has_id i h" "i < length sh" "pre i (?ms ! i) (sh ! i)" by (auto simp: has_id_def)
  from step_ok [OF i] obtain s' x cs where
    f: "step i (h, sh) = Inr (call cs (put_stream i s' h), sh[i := x])" "post i (?ms ! i) (sh ! i) s' x" by blast
  let ?h = "call cs (put_stream i s' h)"
  have ne: "\<forall>j \<in> set ids. j \<noteq> i" using Cons.prems(1) by auto
  then have "\<forall>j \<in> set ids. has_id j ?h \<and> pre j (input_stream_managers ?h ! j) (sh[i := x] ! j)"
    using Cons.prems(3) by auto
  with Cons.prems Cons.IH [of "sh[i := x]" ?h] obtain ms' cs' sh' where
    r: "run_steps step ids (?h, sh[i := x]) =
      Inr (?h\<lparr>input_stream_managers := ms', callbacks := callbacks ?h @ cs'\<rparr>, sh')"
    "length ms' = length ?ms" "length sh' = length sh"
    "\<forall>j. j \<notin> set ids \<longrightarrow> ms' ! j = ?ms[i := s'] ! j \<and> sh' ! j = sh[i := x] ! j"
    "\<forall>j \<in> set ids. post j (?ms[i := s'] ! j) (sh[i := x] ! j) (ms' ! j) (sh' ! j)"
    by auto
  have "\<forall>j \<in> set ids. post j (?ms ! j) (sh ! j) (ms' ! j) (sh' ! j)"
  proof
    fix j assume j: "j \<in> set ids"
    then have "i \<noteq> j" using ne by auto
    with r(5) j show "post j (?ms ! j) (sh ! j) (ms' ! j) (sh' ! j)" by fastforce
  qed
  moreover have "?h\<lparr>input_stream_managers := ms', callbacks := callbacks ?h @ cs'\<rparr> =
      h\<lparr>input_stream_managers := ms', callbacks := callbacks h @ cs @ cs'\<rparr>" by (simp add: call_def put_stream_def)
  moreover have "i \<notin> set ids" "i < length ?ms" using Cons.prems(1) i(1) by (auto simp: has_id_def)
  ultimately show ?case
    using f r i(2) by (intro exI [of _ ms'] exI [of _ "cs @ cs'"] exI [of _ sh']) (auto simp: nth_list_update)
qed

text \<open>The loop over all streams of the node.\<close>

lemma fill_node:
  assumes "length sh = length (input_stream_managers h)"
    and "\<forall>i < length sh. pre i (input_stream_managers h ! i) (sh ! i)"
  shows "\<exists>ms' cs sh'. run_steps step [0 ..< length (input_stream_managers h)] (h, sh) =
      Inr (h\<lparr>input_stream_managers := ms', callbacks := callbacks h @ cs\<rparr>, sh') \<and>
    length ms' = length (input_stream_managers h) \<and> length sh' = length sh \<and>
    (\<forall>i < length sh. post i (input_stream_managers h ! i) (sh ! i) (ms' ! i) (sh' ! i))"
proof -
  have "\<forall>i \<in> set [0 ..< length (input_stream_managers h)]. has_id i h \<and> pre i (input_stream_managers h ! i) (sh ! i)"
    using assms by (auto simp: has_id_def)
  from fill_all [OF distinct_upt assms(1) this] obtain ms' cs sh' where
    r: "run_steps step [0 ..< length (input_stream_managers h)] (h, sh) =
      Inr (h\<lparr>input_stream_managers := ms', callbacks := callbacks h @ cs\<rparr>, sh')"
    "length ms' = length (input_stream_managers h)" "length sh' = length sh"
    "\<forall>i \<in> set [0 ..< length (input_stream_managers h)]. post i (input_stream_managers h ! i) (sh ! i) (ms' ! i) (sh' ! i)"
    by blast
  from r(4) assms(1) have "\<forall>i < length sh. post i (input_stream_managers h ! i) (sh ! i) (ms' ! i) (sh' ! i)" by simp
  with r(1-3) show ?thesis by blast
qed

end

definition selectable_at :: "Timestamp \<Rightarrow> 'a InputStreamManager \<Rightarrow> 'a InputStreamShard \<Rightarrow> bool" where
  "selectable_at t s sh \<longleftrightarrow> IsAllowedInStream t \<and> shard_ok s sh \<and> stream_inv s \<and>
     last_select_timestamp s \<le> t \<and> t \<le> fst (MinTimestampOrBound s)"

interpretation fill_at: per_stream "fill_stream t" "\<lambda>i. selectable_at t" "\<lambda>i. synced t" for t
  by unfold_locales (rule fill_stream_synced; simp add: selectable_at_def)

lemma erase_stream_simps:
  "input_stream_managers (erase_stream t i h) = (input_stream_managers h)[i := snd (ErasePacketsEarlierThan t (input_stream_managers h ! i))]"
  by (simp add: erase_stream_def split: prod.splits)

lemma fold_erase:
  "distinct ids \<Longrightarrow> \<forall>i \<in> set ids. i < length (input_stream_managers h) \<Longrightarrow>
   length (input_stream_managers (fold (erase_stream t) ids h)) = length (input_stream_managers h) \<and>
   (\<forall>j < length (input_stream_managers h). input_stream_managers (fold (erase_stream t) ids h) ! j =
      (if j \<in> set ids then snd (ErasePacketsEarlierThan t (input_stream_managers h ! j)) else input_stream_managers h ! j))"
proof (induction ids arbitrary: h)
  case (Cons i ids)
  let ?h = "erase_stream t i h"
  have l: "length (input_stream_managers ?h) = length (input_stream_managers h)" by (simp add: erase_stream_simps)
  have IH: "length (input_stream_managers (fold (erase_stream t) ids ?h)) = length (input_stream_managers h) \<and>
   (\<forall>j < length (input_stream_managers h). input_stream_managers (fold (erase_stream t) ids ?h) ! j =
      (if j \<in> set ids then snd (ErasePacketsEarlierThan t (input_stream_managers ?h ! j)) else input_stream_managers ?h ! j))"
    using Cons.IH [of ?h] Cons.prems l by simp
  have "input_stream_managers ?h ! j = (if j = i then snd (ErasePacketsEarlierThan t (input_stream_managers h ! j)) else input_stream_managers h ! j)" for j
    using Cons.prems(2) by (simp add: erase_stream_simps)
  with IH Cons.prems(1) show ?case by auto
qed simp

section \<open>What the scheduling loop relies on\<close>

text \<open>
  The contract between a handler class and the scheduling loop: readiness can be asked in every state with the
  invariant; after an answer to process \<open>t\<close>, an input set for \<open>t\<close> can be filled, which brings the invariant back and uses
  something up; the contexts and the callbacks are the loop's business alone.
\<close>

locale handler_policy =
  fixes readiness :: "('a, 'b) readiness_fun"
    and fill :: "('a, 'b) fill_fun"
    and inv :: "('a, 'b) InputStreamHandler_scheme \<Rightarrow> bool"
    and fit :: "('a, 'b) InputStreamHandler_scheme \<Rightarrow> 'a InputStreamShard list \<Rightarrow> bool"
    and work :: "('a, 'b) InputStreamHandler_scheme \<Rightarrow> nat"
  assumes ready_ok: "inv h \<Longrightarrow> \<exists>rd t h'. readiness h = Inr (rd, t, h') \<and> late_preparation h' = late_preparation h \<and>
        calculator_context_manager h' = calculator_context_manager h \<and> (\<forall>sh. fit h sh \<longrightarrow> fit h' sh) \<and>
        (rd \<noteq> kReadyForProcess \<longrightarrow> inv h')"
    and fill_ok: "inv h \<Longrightarrow> readiness h = Inr (kReadyForProcess, t, h') \<Longrightarrow> fit h' sh \<Longrightarrow>
        \<exists>h2 sh2. fill t (h'\<lparr>calculator_context_manager := cm\<rparr>, sh) = Inr (h2, sh2) \<and> inv h2 \<and> fit h2 sh2 \<and> work h2 < work h \<and>
          late_preparation h2 = late_preparation h' \<and> calculator_context_manager h2 = cm"
    and inv_loop: "inv (h\<lparr>calculator_context_manager := cm\<rparr>) = inv h" "inv (h\<lparr>callbacks := cs\<rparr>) = inv h"
        "inv (h\<lparr>prepared_context_for_close := p\<rparr>) = inv h"
    and fit_loop: "fit (h\<lparr>calculator_context_manager := cm\<rparr>) = fit h" "fit (h\<lparr>callbacks := cs\<rparr>) = fit h"
        "fit (h\<lparr>prepared_context_for_close := p\<rparr>) = fit h"
    and work_loop: "work (h\<lparr>calculator_context_manager := cm\<rparr>) = work h" "work (h\<lparr>callbacks := cs\<rparr>) = work h"
begin

text \<open>The node runs one invocation at a time, inputs are filled when an invocation is scheduled, the default context exists.\<close>

definition sched_inv :: "('a, 'b) InputStreamHandler_scheme \<Rightarrow> bool" where
  "sched_inv h \<longleftrightarrow> inv h \<and> \<not> late_preparation h \<and> \<not> calculator_run_in_parallel (calculator_context_manager h) \<and>
     (\<exists>c. default_context (calculator_context_manager h) = Some c \<and> fit h (inputs c))"

lemma schedule_process_ok:
  assumes "sched_inv h" "readiness h = Inr (kReadyForProcess, t, h1)"
  shows "\<exists>k h2. schedule_process fill t h1 = Inr (k, h2) \<and> k \<in> {0, 1} \<and> sched_inv h2 \<and> work h2 < work h"
proof -
  let ?cm = "calculator_context_manager h"
  from assms(1) obtain c where h: "inv h" "\<not> late_preparation h" "\<not> calculator_run_in_parallel ?cm"
    "default_context ?cm = Some c" "fit h (inputs c)" by (auto simp: sched_inv_def)
  from ready_ok [OF h(1)] assms(2) have h1: "late_preparation h1 = late_preparation h"
    "calculator_context_manager h1 = ?cm" "fit h1 (inputs c)" using h(5) by auto
  let ?c1 = "PushInputTimestamp t c" and ?cm1 = "ctx_put DefaultContext (PushInputTimestamp t c) ?cm"
  have prep: "PrepareCalculatorContext t ?cm = Inr (DefaultContext, ?cm)"
    using h by (simp add: PrepareCalculatorContext_def GetDefaultCalculatorContext_def)
  have push: "push_context t DefaultContext (h1\<lparr>calculator_context_manager := ?cm\<rparr>) = Inr (h1\<lparr>calculator_context_manager := ?cm1\<rparr>)"
    using h by (simp add: push_context_def ctx_get_def)
  from fill_ok [OF h(1) assms(2) h1(3), of ?cm1] obtain h2 sh2 where
    f: "fill t (h1\<lparr>calculator_context_manager := ?cm1\<rparr>, inputs c) = Inr (h2, sh2)" "inv h2" "fit h2 sh2" "work h2 < work h"
      "late_preparation h2 = late_preparation h1" "calculator_context_manager h2 = ?cm1" by blast
  let ?h3 = "h2\<lparr>calculator_context_manager := ctx_put DefaultContext (?c1\<lparr>inputs := sh2\<rparr>) ?cm1\<rparr>"
  have fc: "fill_context fill t DefaultContext (h1\<lparr>calculator_context_manager := ?cm1\<rparr>) = Inr ?h3"
    using f by (simp add: fill_context_def ctx_get_def PushInputTimestamp_def)
  have "sched_inv ?h3" using f h h1 by (simp add: sched_inv_def inv_loop fit_loop)
  moreover have "sched_inv (call cs ?h3)" for cs
    using \<open>sched_inv ?h3\<close> by (simp add: sched_inv_def call_def inv_loop fit_loop)
  moreover have "work ?h3 < work h" "work (call cs ?h3) < work h" for cs using f by (simp_all add: call_def work_loop)
  ultimately show ?thesis
    using prep push fc h h1 by (auto simp: schedule_process_def)
qed

lemma schedule_close_ok:
  assumes "sched_inv h"
  shows "\<exists>k h2. schedule_close h = Inr (k, h2) \<and> k \<in> {0, 1} \<and> sched_inv h2"
proof -
  let ?cm = "calculator_context_manager h"
  from assms obtain c where h: "inv h" "\<not> late_preparation h" "\<not> calculator_run_in_parallel ?cm"
    "default_context ?cm = Some c" "fit h (inputs c)" by (auto simp: sched_inv_def)
  let ?h1 = "h\<lparr>calculator_context_manager := ctx_put DefaultContext (PushInputTimestamp Done c) ?cm\<rparr>"
  have "sched_inv (call cs (?h1\<lparr>prepared_context_for_close := True\<rparr>))" for cs
    using h by (simp add: sched_inv_def call_def inv_loop fit_loop PushInputTimestamp_def)
  then show ?thesis
    using h assms by (simp add: schedule_close_def HasActiveContexts_def GetDefaultCalculatorContext_def push_context_def ctx_get_def)
qed

lemma schedule_loop_returns:
  "sched_inv h \<Longrightarrow> \<exists>m b h'. schedule_loop readiness fill max_allowance n h = Some (Inr (m, b, h')) \<and> sched_inv h' \<and>
     n \<le> m \<and> m \<le> max n max_allowance"
proof (induction "work h" arbitrary: n h rule: less_induct)
  case less
  show ?case
  proof (cases "max_allowance \<le> n")
    case True
    then show ?thesis using less.prems by (simp add: schedule_loop.simps)
  next
    case False
    have i: "inv h" using less.prems by (simp add: sched_inv_def)
    from ready_ok [OF i] obtain rd t h1 where r: "readiness h = Inr (rd, t, h1)" "late_preparation h1 = late_preparation h"
      "calculator_context_manager h1 = calculator_context_manager h" "\<forall>sh. fit h sh \<longrightarrow> fit h1 sh"
      "rd \<noteq> kReadyForProcess \<longrightarrow> inv h1" by blast
    have s1: "rd \<noteq> kReadyForProcess \<Longrightarrow> sched_inv h1" using r less.prems by (auto simp: sched_inv_def)
    show ?thesis
    proof (cases rd)
      case kNotReady
      moreover obtain b where "not_ready_bound t h1 = Inr b" using s1 kNotReady
        by (auto simp: not_ready_bound_def sched_inv_def)
      ultimately show ?thesis using False r(1) s1 by (simp add: schedule_loop.simps)
    next
      case kReadyForProcess
      from schedule_process_ok [OF less.prems r(1) [unfolded kReadyForProcess]] obtain k h2 where
        p: "schedule_process fill t h1 = Inr (k, h2)" "k \<in> {0, 1}" "sched_inv h2" "work h2 < work h" by blast
      from less.hyps [OF p(4,3), of "n + k"] obtain m b h' where
        "schedule_loop readiness fill max_allowance (n + k) h2 = Some (Inr (m, b, h'))" "sched_inv h'"
        "n + k \<le> m" "m \<le> max (n + k) max_allowance" by blast
      with False r(1) p(1,2) kReadyForProcess show ?thesis
        by (subst schedule_loop.simps) auto
    next
      case kReadyForClose
      from schedule_close_ok [OF s1] kReadyForClose obtain k h2 where
        "schedule_close h1 = Inr (k, h2)" "k \<in> {0, 1}" "sched_inv h2" by blast
      with False r(1) kReadyForClose show ?thesis by (subst schedule_loop.simps) auto
    qed
  qed
qed

end


section \<open>The default handler meets the contract\<close>

definition default_inv :: "('a, 'b) DefaultInputStreamHandler_scheme \<Rightarrow> bool" where
  "default_inv h \<longleftrightarrow> sync_inv (sync_set h) h"

definition shards_fit :: "('a, 'b) InputStreamHandler_scheme \<Rightarrow> 'a InputStreamShard list \<Rightarrow> bool" where
  "shards_fit h sh \<longleftrightarrow> length sh = length (input_stream_managers h) \<and>
     (\<forall>i < length sh. shard_ok (input_stream_managers h ! i) (sh ! i))"

definition sync_work :: "('a, 'b) DefaultInputStreamHandler_scheme \<Rightarrow> nat" where
  "sync_work h =
     2 * sum_list (map (\<lambda>i. length (ism_queue (input_stream_managers h ! i))) (stream_ids (sync_set h))) +
     (if last_processed_ts (sync_set h) < prev_ts (fst (min_scan (input_stream_managers h) (stream_ids (sync_set h)) (Done, Done)))
      then 1 else 0)"

lemma min_scan_cong:
  "(\<And>i. i \<in> set ids \<Longrightarrow> MinTimestampOrBound (ms ! i) = MinTimestampOrBound (ms' ! i)) \<Longrightarrow>
   min_scan ms ids acc = min_scan ms' ids acc"
proof (induction ids arbitrary: acc)
  case (Cons i ids)
  then show ?case by (cases acc) (auto split: prod.splits)
qed simp


lemma sum_list_less:
  fixes f g :: "'c \<Rightarrow> nat"
  assumes "\<forall>i \<in> set xs. f i \<le> g i" "\<exists>i \<in> set xs. f i < g i"
  shows "sum_list (map f xs) < sum_list (map g xs)"
  using assms
proof (induction xs)
  case (Cons x xs)
  show ?case
  proof (cases "f x < g x")
    case True
    moreover have "sum_list (map f xs) \<le> sum_list (map g xs)" using Cons.prems(1) by (intro sum_list_mono) auto
    ultimately show ?thesis by simp
  next
    case False
    with Cons show ?thesis by (auto simp: add_le_less_mono)
  qed
qed simp

lemma default_fill:
  assumes inv: "default_inv h" and rd: "Default_GetNodeReadiness h = Inr (kReadyForProcess, t, h1)" and fit: "shards_fit h1 sh"
  shows "\<exists>ms' cs sh'. Default_FillInputSet t (h1\<lparr>calculator_context_manager := cm\<rparr>, sh) =
      Inr (h1\<lparr>calculator_context_manager := cm, input_stream_managers := ms', callbacks := callbacks h @ cs\<rparr>, sh') \<and>
    length ms' = length (input_stream_managers h) \<and> length sh' = length sh \<and>
    (\<forall>i. i \<notin> set (stream_ids (sync_set h)) \<longrightarrow> ms' ! i = input_stream_managers h ! i \<and> sh' ! i = sh ! i) \<and>
    (\<forall>i \<in> set (stream_ids (sync_set h)). synced t (input_stream_managers h ! i) (sh ! i) (ms' ! i) (sh' ! i))"
proof -
  let ?ms = "input_stream_managers h" and ?ids = "stream_ids (sync_set h)"
  from rd obtain ss' where g: "GetReadiness h (sync_set h) = Inr (kReadyForProcess, t, ss')" "h1 = h\<lparr>sync_set := ss'\<rparr>"
    by (auto simp: Default_GetNodeReadiness_def split: sum.splits)
  from inv have si: "sync_inv (sync_set h) h" by (simp add: default_inv_def)
  note r = readiness_process [OF si g(1)]
  let ?h = "h1\<lparr>calculator_context_manager := cm\<rparr>"
  have "\<forall>i \<in> set ?ids. has_id i ?h \<and> selectable_at t (input_stream_managers ?h ! i) (sh ! i)"
    using si r(1,3) fit g(2)
    by (auto simp: sync_inv_def ids_ok_def list_all_iff has_id_def shards_fit_def selectable_at_def Let_def intro: less_imp_le)
  moreover have "distinct ?ids" "length sh = length (input_stream_managers ?h)"
    using si fit g(2) by (auto simp: sync_inv_def shards_fit_def)
  ultimately show ?thesis
    using fill_at.fill_all [of ?ids sh ?h t] r(1,2) g(2)
    by (simp add: Default_FillInputSet_def SyncSet_FillInputSet_def)
qed


text \<open>A round takes a packet off a queue, or reaches the settled timestamp.\<close>

lemma synced_work:
  assumes sy: "\<forall>i \<in> set ids. synced t (ms ! i) (sh ! i) (ms' ! i) (sh' ! i)"
    and r: "(\<exists>i \<in> set ids. ism_queue (ms ! i) \<noteq> [] \<and> t = pkt_ts (hd (ism_queue (ms ! i)))) \<or>
      (u < t \<and> t = prev_ts (fst (min_scan ms ids (Done, Done))))"
    and b: "\<forall>i \<in> set ids. ism_queue (ms ! i) = [] \<longrightarrow> t < next_timestamp_bound (ms ! i)"
  shows "2 * sum_list (map (\<lambda>i. length (ism_queue (ms' ! i))) ids) +
      (if t < prev_ts (fst (min_scan ms' ids (Done, Done))) then 1 else 0)
    < 2 * sum_list (map (\<lambda>i. length (ism_queue (ms ! i))) ids) +
      (if u < prev_ts (fst (min_scan ms ids (Done, Done))) then 1 else 0)"
proof (cases "\<exists>i \<in> set ids. ism_queue (ms ! i) \<noteq> [] \<and> t = pkt_ts (hd (ism_queue (ms ! i)))")
  case True
  have "length (ism_queue (ms' ! i)) \<le> length (ism_queue (ms ! i))" if "i \<in> set ids" for i
    using sy that by (auto simp: synced_def split: if_splits)
  moreover have "\<exists>i \<in> set ids. length (ism_queue (ms' ! i)) < length (ism_queue (ms ! i))"
  proof -
    from True obtain i where i: "i \<in> set ids" "ism_queue (ms ! i) \<noteq> []" "t = pkt_ts (hd (ism_queue (ms ! i)))" by blast
    with sy have "ism_queue (ms' ! i) = tl (ism_queue (ms ! i))" by (auto simp: synced_def)
    with i show ?thesis by (intro bexI [of _ i]) auto
  qed
  ultimately have "sum_list (map (\<lambda>i. length (ism_queue (ms' ! i))) ids) < sum_list (map (\<lambda>i. length (ism_queue (ms ! i))) ids)"
    by (intro sum_list_less) auto
  then show ?thesis by simp
next
  case False
  then have q: "ism_queue (ms' ! i) = ism_queue (ms ! i)" if "i \<in> set ids" for i
    using sy that by (auto simp: synced_def)
  have "MinTimestampOrBound (ms ! i) = MinTimestampOrBound (ms' ! i)" if "i \<in> set ids" for i
    using q [OF that] sy that b by (auto simp: MinTimestampOrBound_def synced_def split: list.splits)
  then have m: "min_scan ms' ids (Done, Done) = min_scan ms ids (Done, Done)" by (intro min_scan_cong) auto
  have e: "map (\<lambda>i. length (ism_queue (ms' ! i))) ids = map (\<lambda>i. length (ism_queue (ms ! i))) ids" using q by auto
  have "u < t" "prev_ts (fst (min_scan ms ids (Done, Done))) = t" using False r by auto
  then show ?thesis unfolding e m by simp
qed

lemma default_fill_inv:
  assumes inv: "default_inv h" and rd: "Default_GetNodeReadiness h = Inr (kReadyForProcess, t, h1)" and fit: "shards_fit h1 sh"
  shows "\<exists>h2 sh2. Default_FillInputSet t (h1\<lparr>calculator_context_manager := cm\<rparr>, sh) = Inr (h2, sh2) \<and>
    default_inv h2 \<and> shards_fit h2 sh2 \<and> sync_work h2 < sync_work h \<and>
    late_preparation h2 = late_preparation h1 \<and> calculator_context_manager h2 = cm"
proof -
  let ?ms = "input_stream_managers h" and ?ids = "stream_ids (sync_set h)"
  from rd obtain ss' where g: "GetReadiness h (sync_set h) = Inr (kReadyForProcess, t, ss')" "h1 = h\<lparr>sync_set := ss'\<rparr>"
    by (auto simp: Default_GetNodeReadiness_def split: sum.splits)
  from inv have si: "sync_inv (sync_set h) h" by (simp add: default_inv_def)
  note r = readiness_process [OF si g(1)]
  from default_fill [OF assms, of cm] obtain ms' cs sh' where
    f: "Default_FillInputSet t (h1\<lparr>calculator_context_manager := cm\<rparr>, sh) =
      Inr (h1\<lparr>calculator_context_manager := cm, input_stream_managers := ms', callbacks := callbacks h @ cs\<rparr>, sh')"
    "length ms' = length ?ms" "length sh' = length sh"
    "\<forall>i. i \<notin> set ?ids \<longrightarrow> ms' ! i = ?ms ! i \<and> sh' ! i = sh ! i"
    "\<forall>i \<in> set ?ids. synced t (?ms ! i) (sh ! i) (ms' ! i) (sh' ! i)" by blast
  let ?h2 = "h1\<lparr>calculator_context_manager := cm, input_stream_managers := ms', callbacks := callbacks h @ cs\<rparr>"
  have ss: "sync_set ?h2 = (sync_set h)\<lparr>last_processed_ts := t\<rparr>" using g(2) r(2) by simp
  have "\<exists>L \<le> max t Unstarted. \<forall>i \<in> set ?ids. last_select_timestamp (ms' ! i) = L"
    using f(5) by (intro exI [of _ t]) (auto simp: synced_def)
  then have "default_inv ?h2"
    using si f(2,5) unfolding default_inv_def ss
    by (simp add: sync_inv_def ids_ok_def has_id_def list_all_iff synced_def)
  moreover have "shard_ok (ms' ! i) (sh' ! i)" if "i < length sh'" for i
    using that fit f(2-5) g(2) by (cases "i \<in> set ?ids") (auto simp: shards_fit_def shard_ok_def synced_def)
  then have "shards_fit ?h2 sh'" using fit f(2,3) g(2) by (simp add: shards_fit_def)
  moreover have "sync_work ?h2 < sync_work h"
    using synced_work [OF f(5) r(4)] r(3) unfolding sync_work_def ss by (simp add: Let_def)
  ultimately show ?thesis using f(1) by auto
qed


lemma readiness_other:
  assumes si: "sync_inv ss h"
  shows "\<exists>rd t ss'. GetReadiness h ss = Inr (rd, t, ss') \<and> stream_ids ss' = stream_ids ss \<and>
    (rd \<noteq> kReadyForProcess \<longrightarrow> sync_inv ss' h) \<and> (rd = kNotReady \<longrightarrow> ss' = ss) \<and>
    (rd = kReadyForClose \<longrightarrow> t = Done \<and> last_processed_ts ss' = prev_ts Done \<and>
      (\<forall>i \<in> set (stream_ids ss). OneOverPostStream \<le> fst (MinTimestampOrBound (input_stream_managers h ! i))))"
proof -
  let ?ms = "input_stream_managers h"
  have ids: "ids_ok ss h" using si by (auto simp: sync_inv_def)
  obtain mb mp where sc: "min_scan ?ms (stream_ids ss) (Done, Done) = (mb, mp)" by force
  obtain rd t ss' where g: "GetReadiness h ss = Inr (rd, t, ss')"
    using ids by (cases "GetReadiness h ss") (auto simp: GetReadiness_def sc Let_def split: if_splits)
  have ids': "stream_ids ss' = stream_ids ss" and nr: "rd = kNotReady \<longrightarrow> ss' = ss"
    using g ids by (auto simp: GetReadiness_def sc Let_def split: if_splits)
  have cl: "t = Done \<and> last_processed_ts ss' = prev_ts Done \<and>
      (\<forall>i \<in> set (stream_ids ss). OneOverPostStream \<le> fst (MinTimestampOrBound (?ms ! i)))" if "rd = kReadyForClose"
  proof -
    have c: "OneOverPostStream \<le> min mp mb" "t = Done" "last_processed_ts ss' = prev_ts Done"
      using that g ids by (auto simp: GetReadiness_def sc Let_def split: if_splits)
    have "OneOverPostStream \<le> fst (MinTimestampOrBound (?ms ! i))" if "i \<in> set (stream_ids ss)" for i
      using min_scan_spec [OF sc] c(1) that by (fastforce split: if_splits intro: order_trans)
    with c(2,3) show ?thesis by blast
  qed
  have "sync_inv ss' h" if "rd = kReadyForClose" using cl [OF that] si ids' by (simp add: sync_inv_def ids_ok_def)
  with g ids' nr cl si show ?thesis by (cases rd) auto
qed

lemma sync_inv_frame: "input_stream_managers h' = input_stream_managers h \<Longrightarrow> sync_inv ss h' = sync_inv ss h"
  by (simp add: sync_inv_def ids_ok_def has_id_def)

lemma default_readiness:
  assumes "default_inv h"
  shows "\<exists>rd t ss'. Default_GetNodeReadiness h = Inr (rd, t, h\<lparr>sync_set := ss'\<rparr>) \<and>
    (rd \<noteq> kReadyForProcess \<longrightarrow> default_inv (h\<lparr>sync_set := ss'\<rparr>))"
proof -
  from readiness_other [of "sync_set h" h] assms obtain rd t ss' where
    g: "GetReadiness h (sync_set h) = Inr (rd, t, ss')" "rd \<noteq> kReadyForProcess \<longrightarrow> sync_inv ss' h"
    by (auto simp: default_inv_def)
  then have "rd \<noteq> kReadyForProcess \<longrightarrow> default_inv (h\<lparr>sync_set := ss'\<rparr>)"
    using sync_inv_frame [of "h\<lparr>sync_set := ss'\<rparr>" h] by (simp add: default_inv_def)
  with g show ?thesis by (auto simp: Default_GetNodeReadiness_def)
qed

interpretation dfl: handler_policy Default_GetNodeReadiness Default_FillInputSet default_inv shards_fit sync_work
proof (unfold_locales, goal_cases)
  case (1 h)
  from default_readiness [OF this] obtain rd t ss' where
    "Default_GetNodeReadiness h = Inr (rd, t, h\<lparr>sync_set := ss'\<rparr>)" "rd \<noteq> kReadyForProcess \<longrightarrow> default_inv (h\<lparr>sync_set := ss'\<rparr>)" by blast
  then show ?case
    by (intro exI [of _ rd] exI [of _ t] exI [of _ "h\<lparr>sync_set := ss'\<rparr>"]) (simp add: shards_fit_def)
next
  case (2 h t h' sh cm)
  then show ?case by (rule default_fill_inv)
qed (simp_all add: default_inv_def sync_inv_def ids_ok_def has_id_def shards_fit_def sync_work_def fun_eq_iff)


section \<open>Events from upstream keep the invariant\<close>

lemma stream_inv_no_more:
  assumes "stream_inv s" "OneOverPostStream \<le> fst (MinTimestampOrBound s)"
  shows "ism_queue s = [] \<and> OneOverPostStream \<le> next_timestamp_bound s"
proof (cases "ism_queue s")
  case (Cons p q)
  with assms have "IsAllowedInStream (pkt_ts p)" "OneOverPostStream \<le> pkt_ts p"
    by (auto simp: stream_inv_def MinTimestampOrBound_def)
  then show ?thesis by (cases "pkt_ts p") (simp add: IsAllowedInStream_def special_defs)
qed (use assms in \<open>simp add: MinTimestampOrBound_def\<close>)

lemma add_closed:
  assumes "stream_inv s" "OneOverPostStream \<le> fst (MinTimestampOrBound s)"
  shows "OneOverPostStream \<le> fst (MinTimestampOrBound (snd (snd (snd (AddOrMovePacketsInternal validate ps s)))))"
proof -
  note c = stream_inv_no_more [OF assms]
  have "admit validate p s \<noteq> StatusOk" for p
    using admit_ok [of validate p s] assms(1) c
    by (cases "pkt_ts p"; cases "next_timestamp_bound s") (auto simp: IsAllowedInStream_def special_defs)
  then have "snd (add_loop validate ps s) = s" by (cases ps) auto
  then show ?thesis using assms(2) by (simp add: AddOrMove_state)
qed

lemma bound_closed:
  assumes "stream_inv s" "OneOverPostStream \<le> fst (MinTimestampOrBound s)"
  shows "OneOverPostStream \<le> fst (MinTimestampOrBound (snd (snd (SetNextTimestampBound b s))))"
  using stream_inv_no_more [OF assms] assms(2)
  by (auto simp: SetNextTimestampBound_def MinTimestampOrBound_def)

lemma sync_inv_event:
  assumes "sync_inv ss h" "stream_inv (input_stream_managers h ! i) \<Longrightarrow> stream_inv s'"
    and "last_select_timestamp s' = last_select_timestamp (input_stream_managers h ! i)"
    and "stream_inv (input_stream_managers h ! i) \<Longrightarrow> OneOverPostStream \<le> fst (MinTimestampOrBound (input_stream_managers h ! i)) \<Longrightarrow>
      OneOverPostStream \<le> fst (MinTimestampOrBound s')"
  shows "sync_inv ss (call cs (put_stream i s' h))"
proof (cases "i < length (input_stream_managers h)")
  case True
  then have "input_stream_managers (put_stream i s' h) ! j = (if j = i then s' else input_stream_managers h ! j)" for j
    by simp
  with assms show ?thesis unfolding sync_inv_def ids_ok_def call_simps list_all_iff by metis
next
  case False
  with assms(1) show ?thesis by (simp add: sync_inv_def ids_ok_def list_update_beyond)
qed

lemma add_last_select:
  "last_select_timestamp (snd (snd (snd (AddOrMovePacketsInternal validate ps s)))) = last_select_timestamp s"
  by (simp add: AddOrMove_state add_loop_frame)

lemma bound_last_select: "last_select_timestamp (snd (snd (SetNextTimestampBound b s))) = last_select_timestamp s"
  by (simp add: SetNextTimestampBound_def)

lemma event_form:
  "ish_AddPackets validate i ps h = Inr h' \<Longrightarrow>
     \<exists>cs. h' = call cs (put_stream i (snd (snd (snd (AddOrMovePacketsInternal validate ps (input_stream_managers h ! i))))) h)"
  "ish_SetNextTimestampBound i b h = Inr h' \<Longrightarrow>
     \<exists>cs. h' = call cs (put_stream i (snd (snd (SetNextTimestampBound b (input_stream_managers h ! i)))) h)"
  by (auto simp: ish_AddPackets_def ish_SetNextTimestampBound_def split: if_splits prod.splits)

lemma sync_inv_AddPackets:
  assumes "sync_inv ss h" "ish_AddPackets validate i ps h = Inr h'"
  shows "sync_inv ss h'"
proof -
  from event_form(1) [OF assms(2)] obtain cs where
    "h' = call cs (put_stream i (snd (snd (snd (AddOrMovePacketsInternal validate ps (input_stream_managers h ! i))))) h)" ..
  with sync_inv_event [OF assms(1) stream_inv_add add_last_select add_closed] show ?thesis by simp
qed

lemma sync_inv_SetNextTimestampBound:
  assumes "sync_inv ss h" "ish_SetNextTimestampBound i b h = Inr h'"
  shows "sync_inv ss h'"
proof -
  from event_form(2) [OF assms(2)] obtain cs where
    "h' = call cs (put_stream i (snd (snd (SetNextTimestampBound b (input_stream_managers h ! i)))) h)" ..
  with sync_inv_event [OF assms(1) stream_inv_bound bound_last_select bound_closed] show ?thesis by simp
qed

lemma event_frame:
  "ish_AddPackets validate i ps h = Inr h' \<Longrightarrow> InputStreamHandler.more h' = InputStreamHandler.more h"
  "ish_SetNextTimestampBound i b h = Inr h' \<Longrightarrow> InputStreamHandler.more h' = InputStreamHandler.more h"
  by (auto simp: ish_AddPackets_def ish_SetNextTimestampBound_def call_def put_stream_def split: if_splits prod.splits)

lemma sync_set_more: "InputStreamHandler.more h' = InputStreamHandler.more h \<Longrightarrow> sync_set h' = sync_set h"
  by (cases h; cases h') simp

lemma default_inv_prepare:
  assumes "list_all enable_timestamps (input_stream_managers h)" "stream_ids (sync_set h) = [0 ..< length (input_stream_managers h)]"
  shows "default_inv (Default_PrepareForRun h)"
proof -
  let ?h = "Default_PrepareForRun h"
  have m: "input_stream_managers ?h = map ism_PrepareForRun (input_stream_managers h)"
    "stream_ids (sync_set ?h) = [0 ..< length (input_stream_managers h)]"
    using assms(2) by (simp_all add: Default_PrepareForRun_def ish_PrepareForRun_def SyncSet_PrepareForRun_def)
  have "\<forall>i < length (input_stream_managers h). stream_inv (ism_PrepareForRun (input_stream_managers h ! i))"
    using assms(1) by (simp add: list_all_length stream_inv_prepare)
  then show ?thesis
    by (auto simp: default_inv_def sync_inv_def m ids_ok_def has_id_def list_all_iff ism_PrepareForRun_def intro!: exI [of _ Unstarted])
qed


section \<open>Properties\<close>

text \<open>
  The default handler's invariant. Preparing for a run establishes it for a handler over all streams of its node, and packets
  and timestamp bounds that arrive on any stream keep it, refused ones included.
\<close>

theorem default_handler_invariant:
  "(list_all enable_timestamps (input_stream_managers h) \<and> stream_ids (sync_set h) = [0 ..< length (input_stream_managers h)]
     \<longrightarrow> default_inv (Default_PrepareForRun h)) \<and>
   (default_inv h \<and> ish_AddPackets validate i ps h = Inr h' \<longrightarrow> default_inv h') \<and>
   (default_inv h \<and> ish_SetNextTimestampBound i b h = Inr h' \<longrightarrow> default_inv h')"
  using default_inv_prepare [of h] sync_inv_AddPackets [of "sync_set h" h validate i ps h'] event_frame [THEN sync_set_more]
    sync_inv_SetNextTimestampBound [of "sync_set h" h i b h']
  unfolding default_inv_def by metis

definition demo_contexts :: "nat \<Rightarrow> 'a CalculatorContextManager" where
  "demo_contexts n = \<lparr>calculator_run_in_parallel = False, num_inputs = n, num_outputs = 0, setup_shards_callback = Inr,
     default_context = Some (CalculatorContext_new n 0), active_contexts = [], idle_contexts = []\<rparr>"

text \<open>A node with two input streams, prepared for a run.\<close>

definition demo_handler :: "int DefaultInputStreamHandler" where
  "demo_handler =
     \<lparr>input_stream_managers = [ism_Initialize ''image'' False, ism_Initialize ''landmarks'' False],
      calculator_context_manager = demo_contexts 2, prepared_context_for_close = False, late_preparation = False,
      batch_size = 1, process_timestamps = False, unset_header_count = 2, callbacks = [],
      sync_set = SyncSet_new [0, 1]\<rparr>"

text \<open>The first stream has a packet at 5, the second is settled up to 8.\<close>

definition demo_ready :: "int DefaultInputStreamHandler" where
  "demo_ready = demo_handler\<lparr>input_stream_managers :=
     [enqueue \<lparr>pkt_ts = Ts 5, pkt_data = Some 1\<rparr> (ism_Initialize ''image'' False),
      (ism_Initialize ''landmarks'' False)\<lparr>next_timestamp_bound := Ts 9\<rparr>]\<rparr>"

lemmas demo_defs = demo_ready_def demo_handler_def demo_contexts_def SyncSet_new_def enqueue_def ism_Initialize_def
  ism_PrepareForRun_def

theorem default_handler_invariant_witness: "default_inv (Default_PrepareForRun demo_handler)"
  using default_handler_invariant [of demo_handler]
  by (simp add: demo_handler_def SyncSet_new_def ism_Initialize_def ism_PrepareForRun_def upt_rec)

text \<open>
  C10: input sets are complete and in order. When the default handler reports a node ready to process \<open>t\<close>, then \<open>t\<close> is after everything
  selected before, filling an input set for \<open>t\<close> succeeds without dropping a packet, every stream of the
  node contributes exactly its packet at \<open>t\<close> or an empty one, no stream can deliver a packet at or before
  \<open>t\<close> afterwards, and the invariant holds again.
\<close>

theorem default_handler_synchronises:
  assumes "default_inv h" and "Default_GetNodeReadiness h = Inr (kReadyForProcess, t, h1)" and "shards_fit h1 sh"
  shows "\<exists>h2 sh2. Default_FillInputSet t (h1, sh) = Inr (h2, sh2) \<and> default_inv h2 \<and> shards_fit h2 sh2 \<and>
    (\<forall>i \<in> set (stream_ids (sync_set h)). last_select_timestamp (input_stream_managers h ! i) < t \<and>
       synced t (input_stream_managers h ! i) (sh ! i) (input_stream_managers h2 ! i) (sh2 ! i))"
proof -
  let ?cm = "calculator_context_manager h1"
  have e: "h1\<lparr>calculator_context_manager := ?cm\<rparr> = h1" by simp
  from assms(2) obtain ss' where g: "GetReadiness h (sync_set h) = Inr (kReadyForProcess, t, ss')"
    by (auto simp: Default_GetNodeReadiness_def split: sum.splits)
  from assms(1) have "sync_inv (sync_set h) h" by (simp add: default_inv_def)
  from readiness_process(3) [OF this g] have
    "\<forall>i \<in> set (stream_ids (sync_set h)). last_select_timestamp (input_stream_managers h ! i) < t" by (auto simp: Let_def)
  with default_fill [OF assms, of ?cm] dfl.fill_ok [OF assms, of ?cm] show ?thesis unfolding e by auto
qed

lemma demo_ready_inv: "default_inv demo_ready"
proof -
  have "stream_inv (input_stream_managers demo_ready ! 0)" "stream_inv (input_stream_managers demo_ready ! 1)"
    by (simp_all add: demo_defs stream_inv_def queue_sorted_def IsAllowedInStream_def special_defs next_ts_eq)
  moreover have "\<forall>i \<in> {0, 1 :: nat}. last_select_timestamp (input_stream_managers demo_ready ! i) = Unstarted"
    by (simp add: demo_defs)
  ultimately show ?thesis
    by (auto simp: default_inv_def sync_inv_def demo_ready_def demo_handler_def SyncSet_new_def ids_ok_def has_id_def intro!: exI [of _ Unstarted])
qed

theorem default_handler_synchronises_witness:
  "\<exists>h2 sh2. Default_FillInputSet (Ts 5) (demo_ready\<lparr>sync_set := SyncSet_new [0, 1]\<lparr>last_processed_ts := Ts 5\<rparr>\<rparr>,
      [InputStreamShard_new, InputStreamShard_new]) = Inr (h2, sh2) \<and>
    last (packet_queue (sh2 ! 0)) = \<lparr>pkt_ts = Ts 5, pkt_data = Some 1\<rparr> \<and> packet_IsEmpty (last (packet_queue (sh2 ! 1)))"
proof -
  let ?h1 = "demo_ready\<lparr>sync_set := SyncSet_new [0, 1]\<lparr>last_processed_ts := Ts 5\<rparr>\<rparr>"
  have r: "Default_GetNodeReadiness demo_ready = Inr (kReadyForProcess, Ts 5, ?h1)"
    by (simp add: Default_GetNodeReadiness_def GetReadiness_def demo_defs ids_ok_def has_id_def MinTimestampOrBound_def
        special_defs min_def Let_def)
  have f: "shards_fit ?h1 [InputStreamShard_new, InputStreamShard_new]"
    by (simp add: shards_fit_def shard_ok_def demo_ready_def InputStreamShard_new_def less_Suc_eq)
  have "stream_ids (sync_set demo_ready) = [0, 1]" "ism_queue (input_stream_managers demo_ready ! 0) = [\<lparr>pkt_ts = Ts 5, pkt_data = Some 1\<rparr>]"
    "ism_queue (input_stream_managers demo_ready ! 1) = []" by (simp_all add: demo_defs)
  with default_handler_synchronises [OF demo_ready_inv r f] show ?thesis by (auto simp: synced_def)
qed

text \<open>
  C11: scheduling ends. For a node with the default handler that runs one invocation at a time, the scheduling loop returns, whatever is
  queued and however many invocations are allowed: it never fails a check, leaves the invariant in place,
  and reports progress only for a positive allowance.
\<close>

theorem schedule_invocations_returns:
  assumes "default_inv h" and "\<not> late_preparation h" and "\<not> calculator_run_in_parallel (calculator_context_manager h)"
    and "default_context (calculator_context_manager h) = Some c" and "shards_fit h (inputs c)" and "input_stream_managers h \<noteq> []"
  shows "\<exists>r b h' c'. ScheduleInvocations Default_GetNodeReadiness Default_FillInputSet max_allowance h = Some (Inr (r, b, h')) \<and>
    (r \<longrightarrow> 0 < max_allowance) \<and> default_inv h' \<and>
    default_context (calculator_context_manager h') = Some c' \<and> shards_fit h' (inputs c')"
proof -
  have "dfl.sched_inv h" using assms by (simp add: dfl.sched_inv_def)
  from dfl.schedule_loop_returns [OF this, of max_allowance 0] obtain m b h' where
    "schedule_loop Default_GetNodeReadiness Default_FillInputSet max_allowance 0 h = Some (Inr (m, b, h'))"
    "dfl.sched_inv h'" "0 \<le> m" "m \<le> max 0 max_allowance" by blast
  with assms(6) show ?thesis by (auto simp: ScheduleInvocations_def dfl.sched_inv_def)
qed

theorem schedule_invocations_returns_witness:
  "\<exists>r b h'. ScheduleInvocations Default_GetNodeReadiness Default_FillInputSet 3 demo_ready = Some (Inr (r, b, h'))"
proof -
  have "shards_fit demo_ready (inputs (CalculatorContext_new 2 0))"
    by (auto simp: shards_fit_def shard_ok_def demo_ready_def CalculatorContext_new_def InputStreamShard_new_def nth_Cons split: nat.splits)
  with schedule_invocations_returns [OF demo_ready_inv, of "CalculatorContext_new 2 0" 3] show ?thesis
    by (auto simp: demo_ready_def demo_handler_def demo_contexts_def)
qed

end
