(* ===== verification/Barrier_Handlers.thy ===== *)
theory Barrier_Handlers
  imports Input_Handler
begin

text \<open>
  \<^verbatim>\<open>stream_handler/early_close_input_stream_handler.cc\<close> and \<^verbatim>\<open>stream_handler/barrier_input_stream_handler.cc\<close>: two handlers without state of
  their own that close the node as soon as one input stream is done. The first synchronises the streams by timestamp,
  the second pairs up their first packets whatever their timestamps.
\<close>

section \<open>Early close\<close>

text \<open>The loop over the streams: \<open>None\<close> when a stream is done, else the least bound of an empty stream and the least timestamp.\<close>

fun early_scan :: "'a InputStreamManager list \<Rightarrow> Timestamp \<times> Timestamp \<Rightarrow> (Timestamp \<times> Timestamp) option" where
  "early_scan [] acc = Some acc"
| "early_scan (s # ms) (min_bound, min_stream_timestamp) =
     (case MinTimestampOrBound s of (t, e) \<Rightarrow>
        if e \<and> t = Done then None
        else early_scan ms (if e then min min_bound t else min_bound, min min_stream_timestamp t))"

definition EarlyClose_GetNodeReadiness :: "('a, 'b) readiness_fun" where
  "EarlyClose_GetNodeReadiness h =
     (case early_scan (input_stream_managers h) (Done, Done) of
        None \<Rightarrow> Inr (kReadyForClose, Done, h)
      | Some (min_bound, min_stream_timestamp) \<Rightarrow>
          if min_stream_timestamp = Done then Inl CheckFailed
          else if min_stream_timestamp < min_bound then Inr (kReadyForProcess, min_stream_timestamp, h)
          else if min_bound \<noteq> min_stream_timestamp then Inl CheckFailed
          else Inr (kNotReady, min_stream_timestamp, h))"

definition EarlyClose_FillInputSet :: "('a, 'b) fill_fun" where
  "EarlyClose_FillInputSet t hs =
     (if \<not> IsAllowedInStream t then Inl CheckFailed
      else run_steps (fill_stream t) [0 ..< length (input_stream_managers (fst hs))] hs)"

section \<open>Barrier\<close>

definition Barrier_PrepareForRun :: "('a, 'b) InputStreamHandler_scheme \<Rightarrow> ('a, 'b) InputStreamHandler_scheme" where
  "Barrier_PrepareForRun h =
     (let h1 = ish_PrepareForRun h
      in h1\<lparr>input_stream_managers := map DisableTimestamps (input_stream_managers h1)\<rparr>)"

fun barrier_scan :: "'a InputStreamManager list \<Rightarrow> bool \<times> Timestamp \<Rightarrow> (bool \<times> Timestamp) option" where
  "barrier_scan [] acc = Some acc"
| "barrier_scan (s # ms) (all_available, min_stream_timestamp) =
     (case MinTimestampOrBound s of (t, e) \<Rightarrow>
        if e \<and> t = Done then None
        else barrier_scan ms (all_available \<and> \<not> e, min min_stream_timestamp t))"

definition Barrier_GetNodeReadiness :: "('a, 'b) readiness_fun" where
  "Barrier_GetNodeReadiness h =
     (case barrier_scan (input_stream_managers h) (True, Done) of
        None \<Rightarrow> Inr (kReadyForClose, Done, h)
      | Some (all_available, min_stream_timestamp) \<Rightarrow>
          if min_stream_timestamp = Done then Inl CheckFailed
          else if all_available then Inr (kReadyForProcess, min_stream_timestamp, h)
          else Inr (kNotReady, min_stream_timestamp, h))"

definition fill_head :: "nat \<Rightarrow>
    ('a, 'b) InputStreamHandler_scheme \<times> 'a InputStreamShard list
    \<Rightarrow> ts_error + (('a, 'b) InputStreamHandler_scheme \<times> 'a InputStreamShard list)" where
  "fill_head sid hs =
     (case hs of (h, shards) \<Rightarrow>
        if \<not> has_id sid h \<or> length shards \<le> sid then Inl CheckFailed
        else case PopQueueHead (input_stream_managers h ! sid) of
               Inl e \<Rightarrow> Inl e
             | Inr (p, d, ev, s) \<Rightarrow>
                 (case shard_AddPacket p d (shards ! sid) of
                    Inl e \<Rightarrow> Inl e
                  | Inr sh \<Rightarrow> Inr (call (map (QueueSizeCallback sid) ev) (put_stream sid s h), shards[sid := sh])))"

definition Barrier_FillInputSet :: "('a, 'b) fill_fun" where
  "Barrier_FillInputSet t hs =
     (if \<not> IsAllowedInStream t then Inl CheckFailed
      else run_steps fill_head [0 ..< length (input_stream_managers (fst hs))] hs)"

section \<open>What the loops compute\<close>

lemma early_scan_None:
  "early_scan ms acc = None \<longleftrightarrow> (\<exists>s \<in> set ms. ism_IsDone s)"
proof (induction ms arbitrary: acc)
  case (Cons s ms)
  then show ?case
    by (cases acc; cases "ism_queue s") (auto simp: MinTimestampOrBound_def ism_IsDone_def)
qed simp

lemma early_scan_Some:
  "early_scan ms (b0, t0) = Some (mb, mt) \<Longrightarrow>
   mb \<le> b0 \<and> mt \<le> t0 \<and> (t0 \<le> b0 \<longrightarrow> mt \<le> mb) \<and>
   (\<forall>s \<in> set ms. mt \<le> fst (MinTimestampOrBound s) \<and> (ism_queue s = [] \<longrightarrow> mb \<le> next_timestamp_bound s)) \<and>
   (mt = t0 \<or> (\<exists>s \<in> set ms. fst (MinTimestampOrBound s) = mt \<and> \<not> ism_IsDone s))"
proof (induction ms arbitrary: b0 t0)
  case (Cons s ms)
  obtain t e where m: "MinTimestampOrBound s = (t, e)" by force
  have nd: "\<not> (e \<and> t = Done)" and sc: "early_scan ms (if e then min b0 t else b0, min t0 t) = Some (mb, mt)"
    using Cons.prems m by (auto split: if_splits)
  have e: "e \<longleftrightarrow> ism_queue s = []" "ism_queue s = [] \<Longrightarrow> t = next_timestamp_bound s" "\<not> ism_IsDone s"
    using m nd by (auto simp: MinTimestampOrBound_def ism_IsDone_def split: list.splits)
  from Cons.IH [OF sc] m e show ?case by (auto simp: min_def split: if_splits)
qed auto

lemma barrier_scan_None:
  "barrier_scan ms acc = None \<longleftrightarrow> (\<exists>s \<in> set ms. ism_IsDone s)"
proof (induction ms arbitrary: acc)
  case (Cons s ms)
  then show ?case
    by (cases acc; cases "ism_queue s") (auto simp: MinTimestampOrBound_def ism_IsDone_def)
qed simp

lemma barrier_scan_Some:
  "barrier_scan ms (a0, t0) = Some (a, mt) \<Longrightarrow>
   (a \<longleftrightarrow> a0 \<and> (\<forall>s \<in> set ms. ism_queue s \<noteq> [])) \<and> mt \<le> t0 \<and> (\<forall>s \<in> set ms. mt \<le> fst (MinTimestampOrBound s)) \<and>
   (mt = t0 \<or> (\<exists>s \<in> set ms. fst (MinTimestampOrBound s) = mt \<and> \<not> ism_IsDone s))"
proof (induction ms arbitrary: a0 t0)
  case (Cons s ms)
  obtain t e where m: "MinTimestampOrBound s = (t, e)" by force
  have nd: "\<not> (e \<and> t = Done)" and sc: "barrier_scan ms (a0 \<and> \<not> e, min t0 t) = Some (a, mt)"
    using Cons.prems m by (auto split: if_splits)
  have e: "e \<longleftrightarrow> ism_queue s = []" "\<not> ism_IsDone s"
    using m nd by (auto simp: MinTimestampOrBound_def ism_IsDone_def split: list.splits)
  from Cons.IH [OF sc] m e show ?case by (auto simp: min_def split: if_splits)
qed auto

section \<open>Early close meets the handler contract\<close>

definition early_inv :: "('a, 'b) InputStreamHandler_scheme \<Rightarrow> bool" where
  "early_inv h \<longleftrightarrow> input_stream_managers h \<noteq> [] \<and>
     (\<forall>s \<in> set (input_stream_managers h). stream_inv s \<and> next_timestamp_bound s \<le> Done) \<and>
     (\<exists>L. \<forall>s \<in> set (input_stream_managers h). last_select_timestamp s = L)"

definition queued :: "('a, 'b) InputStreamHandler_scheme \<Rightarrow> nat" where
  "queued h = sum_list (map (\<lambda>s. length (ism_queue s)) (input_stream_managers h))"

lemma head_not_Done:
  assumes "stream_inv s" "\<not> ism_IsDone s"
  shows "fst (MinTimestampOrBound s) \<noteq> Done"
proof (cases "ism_queue s")
  case (Cons p q)
  with assms(1) have "IsAllowedInStream (pkt_ts p)" by (simp add: stream_inv_def)
  with Cons show ?thesis by (auto simp: MinTimestampOrBound_def IsAllowedInStream_def special_defs)
qed (use assms(2) in \<open>simp add: MinTimestampOrBound_def ism_IsDone_def\<close>)

lemma head_le_Done: "stream_inv s \<Longrightarrow> next_timestamp_bound s \<le> Done \<Longrightarrow> fst (MinTimestampOrBound s) \<le> Done"
  by (cases "ism_queue s") (auto simp: MinTimestampOrBound_def stream_inv_def)

text \<open>The least head of a list of streams that are not done is not \<open>Done\<close>.\<close>

lemma least_head_not_Done:
  assumes "ms \<noteq> []" "\<forall>s \<in> set ms. stream_inv s \<and> next_timestamp_bound s \<le> Done \<and> \<not> ism_IsDone s \<and> mt \<le> fst (MinTimestampOrBound s)"
  shows "mt \<noteq> Done"
proof
  assume "mt = Done"
  moreover have "hd ms \<in> set ms" using assms(1) by simp
  ultimately show False using assms(2) head_not_Done [of "hd ms"] head_le_Done [of "hd ms"] by auto
qed

lemma early_readiness:
  assumes "early_inv h"
  shows "\<exists>rd t. EarlyClose_GetNodeReadiness h = Inr (rd, t, h) \<and>
    (rd = kReadyForClose \<longleftrightarrow> (\<exists>s \<in> set (input_stream_managers h). ism_IsDone s)) \<and>
    (rd = kReadyForProcess \<longrightarrow> IsAllowedInStream t \<and>
      (\<exists>s \<in> set (input_stream_managers h). ism_queue s \<noteq> [] \<and> t = pkt_ts (hd (ism_queue s))) \<and>
      (\<forall>s \<in> set (input_stream_managers h). last_select_timestamp s < t \<and> t \<le> fst (MinTimestampOrBound s) \<and>
         t < next_timestamp_bound s))"
proof (cases "early_scan (input_stream_managers h) (Done, Done)")
  case None
  then have "\<exists>s \<in> set (input_stream_managers h). ism_IsDone s" using early_scan_None by blast
  with None show ?thesis by (simp add: EarlyClose_GetNodeReadiness_def)
next
  case (Some p)
  let ?ms = "input_stream_managers h"
  obtain mb mt where p: "p = (mb, mt)" by force
  note sp = early_scan_Some [OF Some [unfolded p]]
  have nd: "\<not> (\<exists>s \<in> set ?ms. ism_IsDone s)" using Some early_scan_None by (metis option.distinct(1))
  have si: "\<forall>s \<in> set ?ms. stream_inv s \<and> next_timestamp_bound s \<le> Done" and ne: "?ms \<noteq> []"
    using assms by (auto simp: early_inv_def)
  obtain L where L: "\<forall>s \<in> set ?ms. last_select_timestamp s = L" using assms by (auto simp: early_inv_def)
  have mtd: "mt \<noteq> Done" using least_head_not_Done [OF ne, of mt] si nd sp by blast
  have proc: "IsAllowedInStream mt \<and> (\<exists>s \<in> set ?ms. ism_queue s \<noteq> [] \<and> mt = pkt_ts (hd (ism_queue s))) \<and>
      (\<forall>s \<in> set ?ms. last_select_timestamp s < mt \<and> mt \<le> fst (MinTimestampOrBound s) \<and> mt < next_timestamp_bound s)"
    if lt: "mt < mb"
  proof -
    from sp mtd obtain s where s: "s \<in> set ?ms" "fst (MinTimestampOrBound s) = mt" by blast
    have "ism_queue s \<noteq> []" using s sp lt by (auto simp: MinTimestampOrBound_def)
    then have q: "ism_queue s \<noteq> []" "mt = pkt_ts (hd (ism_queue s))"
      using s by (auto simp: MinTimestampOrBound_def split: list.splits)
    then have a: "IsAllowedInStream mt" "L < mt" using si s(1) L by (auto simp: stream_inv_def)
    have "mt < next_timestamp_bound u" if u: "u \<in> set ?ms" for u
    proof (cases "ism_queue u")
      case Nil
      then show ?thesis using sp u lt by auto
    next
      case (Cons x xs)
      then have "mt \<le> pkt_ts x" "pkt_ts x < next_timestamp_bound u"
        using sp si u by (auto simp: MinTimestampOrBound_def stream_inv_def)
      then show ?thesis by simp
    qed
    with a q s(1) L sp show ?thesis by auto
  qed
  show ?thesis
    using Some p mtd sp nd proc
    by (cases "mt < mb") (auto simp: EarlyClose_GetNodeReadiness_def)
qed

lemma queued_less:
  fixes ms ms' :: "'a InputStreamManager list"
  assumes "length ms' = length ms" "\<forall>i < length ms. length (ism_queue (ms' ! i)) \<le> length (ism_queue (ms ! i))"
    and "\<exists>i < length ms. length (ism_queue (ms' ! i)) < length (ism_queue (ms ! i))"
  shows "sum_list (map (\<lambda>s. length (ism_queue s)) ms') < sum_list (map (\<lambda>s. length (ism_queue s)) ms)"
proof -
  have e: "map (\<lambda>s. length (ism_queue s)) xs = map (\<lambda>i. length (ism_queue (xs ! i))) [0 ..< length xs]" for xs :: "'a InputStreamManager list"
    by (rule nth_equalityI) auto
  show ?thesis using assms unfolding e [of ms] e [of ms'] assms(1) by (intro sum_list_less) auto
qed

lemma early_fill:
  assumes inv: "early_inv h" and rd: "EarlyClose_GetNodeReadiness h = Inr (kReadyForProcess, t, h1)" and fit: "shards_fit h1 sh"
  shows "\<exists>ms' cs sh'. EarlyClose_FillInputSet t (h1\<lparr>calculator_context_manager := cm\<rparr>, sh) =
      Inr (h\<lparr>calculator_context_manager := cm, input_stream_managers := ms', callbacks := callbacks h @ cs\<rparr>, sh') \<and>
    length ms' = length (input_stream_managers h) \<and> length sh' = length sh \<and>
    (\<forall>i < length sh. synced t (input_stream_managers h ! i) (sh ! i) (ms' ! i) (sh' ! i))"
proof -
  from early_readiness [OF inv] rd have h1: "h1 = h" and a: "IsAllowedInStream t"
    and s: "\<forall>s \<in> set (input_stream_managers h). last_select_timestamp s < t \<and> t \<le> fst (MinTimestampOrBound s)" by auto
  have "\<forall>s \<in> set (input_stream_managers h). stream_inv s" using inv by (auto simp: early_inv_def)
  with s fit a h1 have "\<forall>i < length sh. selectable_at t (input_stream_managers h ! i) (sh ! i)"
    by (auto simp: selectable_at_def shards_fit_def intro: less_imp_le)
  with fill_at.fill_node [of sh "h\<lparr>calculator_context_manager := cm\<rparr>" t] fit a h1 show ?thesis
    by (simp add: EarlyClose_FillInputSet_def shards_fit_def)
qed

lemma synced_fits: "synced t s sh s' sh' \<Longrightarrow> shard_ok s' sh'"
  by (simp add: synced_def shard_ok_def)

lemma early_fill_inv:
  assumes inv: "early_inv h" and rd: "EarlyClose_GetNodeReadiness h = Inr (kReadyForProcess, t, h1)" and fit: "shards_fit h1 sh"
  shows "\<exists>h2 sh2. EarlyClose_FillInputSet t (h1\<lparr>calculator_context_manager := cm\<rparr>, sh) = Inr (h2, sh2) \<and>
    early_inv h2 \<and> shards_fit h2 sh2 \<and> queued h2 < queued h \<and>
    late_preparation h2 = late_preparation h1 \<and> calculator_context_manager h2 = cm"
proof -
  let ?ms = "input_stream_managers h"
  from early_readiness [OF inv] rd have h1: "h1 = h"
    and one: "\<exists>s \<in> set ?ms. ism_queue s \<noteq> [] \<and> t = pkt_ts (hd (ism_queue s))"
    and b: "\<forall>s \<in> set ?ms. t < next_timestamp_bound s" by auto
  from early_fill [OF assms, of cm] obtain ms' cs sh' where
    f: "EarlyClose_FillInputSet t (h1\<lparr>calculator_context_manager := cm\<rparr>, sh) =
      Inr (h\<lparr>calculator_context_manager := cm, input_stream_managers := ms', callbacks := callbacks h @ cs\<rparr>, sh')"
    "length ms' = length ?ms" "length sh' = length sh"
    "\<forall>i < length sh. synced t (?ms ! i) (sh ! i) (ms' ! i) (sh' ! i)" by blast
  have n: "length sh = length ?ms" using fit h1 by (simp add: shards_fit_def)
  let ?h2 = "h\<lparr>calculator_context_manager := cm, input_stream_managers := ms', callbacks := callbacks h @ cs\<rparr>"
  have st: "stream_inv s \<and> next_timestamp_bound s \<le> Done \<and> last_select_timestamp s = t" if "s \<in> set ms'" for s
  proof -
    from that obtain i where i: "i < length ms'" "s = ms' ! i" by (auto simp: in_set_conv_nth)
    with f(2,4) n have "synced t (?ms ! i) (sh ! i) s (sh' ! i)" by simp
    moreover have "t < next_timestamp_bound (?ms ! i)" "next_timestamp_bound (?ms ! i) \<le> Done"
      using b inv i(1) f(2) by (auto simp: early_inv_def)
    ultimately show ?thesis by (simp add: synced_def)
  qed
  then have "early_inv ?h2" using inv f(2) by (auto simp: early_inv_def)
  moreover have "shards_fit ?h2 sh'" using f(2-4) n synced_fits by (simp add: shards_fit_def) blast
  moreover have "queued ?h2 < queued h"
  proof -
    from one obtain k where k: "k < length ?ms" "ism_queue (?ms ! k) \<noteq> []" "t = pkt_ts (hd (ism_queue (?ms ! k)))"
      by (auto simp: in_set_conv_nth)
    have le: "length (ism_queue (ms' ! i)) \<le> length (ism_queue (?ms ! i))" if "i < length ?ms" for i
      using f(4) n that by (auto simp: synced_def split: if_splits)
    have "ism_queue (ms' ! k) = tl (ism_queue (?ms ! k))" using f(4) n k by (auto simp: synced_def)
    then have "length (ism_queue (ms' ! k)) < length (ism_queue (?ms ! k))" using k(2) by simp
    then show ?thesis using queued_less [OF f(2)] le k(1) by (auto simp: queued_def)
  qed
  ultimately show ?thesis using f(1) h1 by auto
qed

interpretation early: handler_policy EarlyClose_GetNodeReadiness EarlyClose_FillInputSet early_inv shards_fit queued
proof (unfold_locales, goal_cases)
  case (1 h)
  from early_readiness [OF this] show ?case using 1 by auto
next
  case (2 h t h' sh cm)
  then show ?case by (rule early_fill_inv)
qed (simp_all add: early_inv_def shards_fit_def queued_def fun_eq_iff)

section \<open>The barrier meets the handler contract\<close>

text \<open>Timestamps are not compared between packets; only each packet's own must be allowed in a stream.\<close>

definition barrier_inv :: "('a, 'b) InputStreamHandler_scheme \<Rightarrow> bool" where
  "barrier_inv h \<longleftrightarrow> input_stream_managers h \<noteq> [] \<and>
     (\<forall>s \<in> set (input_stream_managers h). \<not> enable_timestamps s \<and> next_timestamp_bound s \<le> Done \<and>
        (\<forall>p \<in> set (ism_queue s). IsAllowedInStream (pkt_ts p)))"

definition head_taken :: "'a InputStreamManager \<Rightarrow> 'a InputStreamShard \<Rightarrow> 'a InputStreamManager \<Rightarrow> 'a InputStreamShard \<Rightarrow> bool" where
  "head_taken s sh s' sh' \<longleftrightarrow> packet_queue sh' = packet_queue sh @ [hd (ism_queue s)] \<and> ism_queue s' = tl (ism_queue s) \<and>
     is_done sh' = ism_IsDone s' \<and> enable_timestamps s' = enable_timestamps s \<and> next_timestamp_bound s' = next_timestamp_bound s"

interpretation fill_hd: per_stream fill_head "\<lambda>i s sh. \<not> enable_timestamps s \<and> ism_queue s \<noteq> [] \<and> shard_ok s sh" "\<lambda>i. head_taken"
proof unfold_locales
  fix i and h :: "('a, 'b) InputStreamHandler_scheme" and sh
  let ?s = "input_stream_managers h ! i"
  assume a: "has_id i h" "i < length sh" "\<not> enable_timestamps ?s \<and> ism_queue ?s \<noteq> [] \<and> shard_ok ?s (sh ! i)"
  let ?s' = "?s\<lparr>ism_queue := tl (ism_queue ?s)\<rparr>"
  let ?sh' = "(sh ! i)\<lparr>packet_queue := packet_queue (sh ! i) @ [hd (ism_queue ?s)], is_done := ism_IsDone ?s'\<rparr>"
  have "ism_QueueHead ?s = hd (ism_queue ?s)" using a(3) by (cases "ism_queue ?s") (auto simp: ism_QueueHead_def)
  moreover have "\<not> is_done (sh ! i)" using a(3) by (auto simp: shard_ok_def ism_IsDone_def)
  ultimately show "\<exists>s' sh' cs. fill_head i (h, sh) = Inr (call cs (put_stream i s' h), sh[i := sh']) \<and> head_taken ?s (sh ! i) s' sh'"
    using a by (intro exI [of _ ?s'] exI [of _ ?sh'] exI [of _ "map (QueueSizeCallback i) (if ism_IsFull ?s \<and> \<not> ism_IsFull ?s' then [BecameNotFull] else [])"])
      (auto simp: fill_head_def PopQueueHead_def shard_AddPacket_def head_taken_def Let_def)
qed

lemma barrier_readiness:
  assumes "barrier_inv h"
  shows "\<exists>rd t. Barrier_GetNodeReadiness h = Inr (rd, t, h) \<and>
    (rd = kReadyForClose \<longleftrightarrow> (\<exists>s \<in> set (input_stream_managers h). ism_IsDone s)) \<and>
    (rd = kReadyForProcess \<longleftrightarrow> (\<forall>s \<in> set (input_stream_managers h). ism_queue s \<noteq> [])) \<and>
    (rd = kReadyForProcess \<longrightarrow> IsAllowedInStream t \<and> (\<forall>s \<in> set (input_stream_managers h). t \<le> pkt_ts (hd (ism_queue s))))"
proof (cases "barrier_scan (input_stream_managers h) (True, Done)")
  case None
  then have "\<exists>s \<in> set (input_stream_managers h). ism_IsDone s" using barrier_scan_None by blast
  with None show ?thesis by (auto simp: Barrier_GetNodeReadiness_def ism_IsDone_def)
next
  case (Some p)
  let ?ms = "input_stream_managers h"
  obtain a mt where p: "p = (a, mt)" by force
  note sp = barrier_scan_Some [OF Some [unfolded p]]
  have nd: "\<not> (\<exists>s \<in> set ?ms. ism_IsDone s)" using Some barrier_scan_None by (metis option.distinct(1))
  have bi: "?ms \<noteq> []" "\<forall>s \<in> set ?ms. next_timestamp_bound s \<le> Done \<and> (\<forall>p \<in> set (ism_queue s). IsAllowedInStream (pkt_ts p))"
    using assms by (auto simp: barrier_inv_def)
  have hd_lt: "fst (MinTimestampOrBound s) < Done" if "s \<in> set ?ms" for s
  proof (cases "ism_queue s")
    case Nil
    with nd bi that show ?thesis by (auto simp: MinTimestampOrBound_def ism_IsDone_def order.order_iff_strict)
  next
    case (Cons x xs)
    with bi that have "IsAllowedInStream (pkt_ts x)" by auto
    with Cons show ?thesis by (cases "pkt_ts x") (simp add: MinTimestampOrBound_def IsAllowedInStream_def special_defs)
  qed
  have "mt \<le> fst (MinTimestampOrBound (hd ?ms))" "fst (MinTimestampOrBound (hd ?ms)) < Done"
    using sp hd_lt [of "hd ?ms"] bi(1) by simp_all
  then have mtd: "mt \<noteq> Done" by auto
  have heads: "fst (MinTimestampOrBound s) = pkt_ts (hd (ism_queue s))" if "ism_queue s \<noteq> []" for s :: "'a InputStreamManager"
    using that by (cases "ism_queue s") (simp_all add: MinTimestampOrBound_def)
  have "IsAllowedInStream mt \<and> (\<forall>s \<in> set ?ms. mt \<le> pkt_ts (hd (ism_queue s)))" if a
  proof -
    have q: "\<forall>s \<in> set ?ms. ism_queue s \<noteq> []" using that sp by auto
    from sp mtd obtain s where s: "s \<in> set ?ms" "fst (MinTimestampOrBound s) = mt" by blast
    with q bi heads have "IsAllowedInStream mt" by (metis list.set_sel(1))
    with sp q heads show ?thesis by metis
  qed
  then show ?thesis using Some p mtd sp nd by (auto simp: Barrier_GetNodeReadiness_def)
qed

lemma barrier_fill:
  assumes inv: "barrier_inv h" and rd: "Barrier_GetNodeReadiness h = Inr (kReadyForProcess, t, h1)" and fit: "shards_fit h1 sh"
  shows "\<exists>ms' cs sh'. Barrier_FillInputSet t (h1\<lparr>calculator_context_manager := cm\<rparr>, sh) =
      Inr (h\<lparr>calculator_context_manager := cm, input_stream_managers := ms', callbacks := callbacks h @ cs\<rparr>, sh') \<and>
    length ms' = length (input_stream_managers h) \<and> length sh' = length sh \<and>
    (\<forall>i < length sh. head_taken (input_stream_managers h ! i) (sh ! i) (ms' ! i) (sh' ! i))"
proof -
  from barrier_readiness [OF inv] rd have h1: "h1 = h" and a: "IsAllowedInStream t"
    and s: "\<forall>s \<in> set (input_stream_managers h). ism_queue s \<noteq> []" by auto
  have "\<forall>s \<in> set (input_stream_managers h). \<not> enable_timestamps s" using inv by (auto simp: barrier_inv_def)
  with s fit h1 have "\<forall>i < length sh. \<not> enable_timestamps (input_stream_managers h ! i) \<and> ism_queue (input_stream_managers h ! i) \<noteq> [] \<and>
      shard_ok (input_stream_managers h ! i) (sh ! i)" by (auto simp: shards_fit_def)
  with fill_hd.fill_node [of sh "h\<lparr>calculator_context_manager := cm\<rparr>"] fit a h1 show ?thesis
    by (simp add: Barrier_FillInputSet_def shards_fit_def)
qed

lemma barrier_fill_inv:
  assumes inv: "barrier_inv h" and rd: "Barrier_GetNodeReadiness h = Inr (kReadyForProcess, t, h1)" and fit: "shards_fit h1 sh"
  shows "\<exists>h2 sh2. Barrier_FillInputSet t (h1\<lparr>calculator_context_manager := cm\<rparr>, sh) = Inr (h2, sh2) \<and>
    barrier_inv h2 \<and> shards_fit h2 sh2 \<and> queued h2 < queued h \<and>
    late_preparation h2 = late_preparation h1 \<and> calculator_context_manager h2 = cm"
proof -
  let ?ms = "input_stream_managers h"
  from barrier_readiness [OF inv] rd have h1: "h1 = h" and q: "\<forall>s \<in> set ?ms. ism_queue s \<noteq> []" by auto
  from barrier_fill [OF assms, of cm] obtain ms' cs sh' where
    f: "Barrier_FillInputSet t (h1\<lparr>calculator_context_manager := cm\<rparr>, sh) =
      Inr (h\<lparr>calculator_context_manager := cm, input_stream_managers := ms', callbacks := callbacks h @ cs\<rparr>, sh')"
    "length ms' = length ?ms" "length sh' = length sh" "\<forall>i < length sh. head_taken (?ms ! i) (sh ! i) (ms' ! i) (sh' ! i)" by blast
  have n: "length sh = length ?ms" using fit h1 by (simp add: shards_fit_def)
  let ?h2 = "h\<lparr>calculator_context_manager := cm, input_stream_managers := ms', callbacks := callbacks h @ cs\<rparr>"
  have tk: "head_taken (?ms ! i) (sh ! i) (ms' ! i) (sh' ! i)" if "i < length ?ms" for i using f(4) n that by simp
  have "\<not> enable_timestamps s \<and> next_timestamp_bound s \<le> Done \<and> (\<forall>p \<in> set (ism_queue s). IsAllowedInStream (pkt_ts p))"
    if "s \<in> set ms'" for s
  proof -
    from that obtain i where i: "i < length ?ms" "s = ms' ! i" using f(2) by (auto simp: in_set_conv_nth)
    have "?ms ! i \<in> set ?ms" using i(1) by simp
    moreover have "set (tl (ism_queue (?ms ! i))) \<subseteq> set (ism_queue (?ms ! i))" by (cases "ism_queue (?ms ! i)") auto
    ultimately show ?thesis using inv tk [OF i(1)] i(2) by (auto simp: barrier_inv_def head_taken_def)
  qed
  then have "barrier_inv ?h2" using inv f(2) by (auto simp: barrier_inv_def)
  moreover have "shards_fit ?h2 sh'" using f(2,3) n tk by (simp add: shards_fit_def shard_ok_def head_taken_def)
  moreover have "queued ?h2 < queued h"
  proof -
    have lt: "length (ism_queue (ms' ! i)) < length (ism_queue (?ms ! i))" if "i < length ?ms" for i
      using tk [OF that] q that by (auto simp: head_taken_def)
    moreover have "0 < length ?ms" using inv by (simp add: barrier_inv_def)
    ultimately have "\<exists>i < length ?ms. length (ism_queue (ms' ! i)) < length (ism_queue (?ms ! i))" by blast
    with queued_less [OF f(2)] lt show ?thesis by (auto simp: queued_def intro: less_imp_le)
  qed
  ultimately show ?thesis using f(1) h1 by auto
qed

interpretation barrier: handler_policy Barrier_GetNodeReadiness Barrier_FillInputSet barrier_inv shards_fit queued
proof (unfold_locales, goal_cases)
  case (1 h)
  from barrier_readiness [OF this] show ?case using 1 by auto
next
  case (2 h t h' sh cm)
  then show ?case by (rule barrier_fill_inv)
qed (simp_all add: barrier_inv_def shards_fit_def queued_def fun_eq_iff)

section \<open>Properties\<close>

text \<open>
  Early close. A node with this handler is closed as soon as some input stream is done and not before; none of the handler's checks can
  fail; when it reports a timestamp ready, every stream then contributes exactly its packet at that timestamp or an
  empty one; and the scheduling loop returns.
\<close>

theorem early_close_correct:
  assumes "early_inv h"
  shows "\<exists>rd t. EarlyClose_GetNodeReadiness h = Inr (rd, t, h) \<and>
    (rd = kReadyForClose \<longleftrightarrow> (\<exists>s \<in> set (input_stream_managers h). ism_IsDone s)) \<and>
    (rd = kReadyForProcess \<and> shards_fit h sh \<longrightarrow>
      (\<exists>h2 sh2. EarlyClose_FillInputSet t (h, sh) = Inr (h2, sh2) \<and> early_inv h2 \<and>
        (\<forall>i < length sh. synced t (input_stream_managers h ! i) (sh ! i) (input_stream_managers h2 ! i) (sh2 ! i)))) \<and>
    (early.sched_inv h \<longrightarrow> (\<exists>r. schedule_loop EarlyClose_GetNodeReadiness EarlyClose_FillInputSet n 0 h = Some (Inr r)))"
proof -
  from early_readiness [OF assms] obtain rd t where r: "EarlyClose_GetNodeReadiness h = Inr (rd, t, h)"
    "rd = kReadyForClose \<longleftrightarrow> (\<exists>s \<in> set (input_stream_managers h). ism_IsDone s)" by blast
  have e: "h\<lparr>calculator_context_manager := calculator_context_manager h\<rparr> = h" by simp
  have "rd = kReadyForProcess \<and> shards_fit h sh \<longrightarrow>
      (\<exists>h2 sh2. EarlyClose_FillInputSet t (h, sh) = Inr (h2, sh2) \<and> early_inv h2 \<and>
        (\<forall>i < length sh. synced t (input_stream_managers h ! i) (sh ! i) (input_stream_managers h2 ! i) (sh2 ! i)))"
    using early_fill [OF assms, of t h sh "calculator_context_manager h"] r(1)
      early_fill_inv [OF assms, of t h sh "calculator_context_manager h"] unfolding e by fastforce
  with r early.schedule_loop_returns [of h n 0] show ?thesis by blast
qed

lemma early_demo: "early_inv demo_ready"
proof -
  have "stream_inv (input_stream_managers demo_ready ! 0)" "stream_inv (input_stream_managers demo_ready ! 1)"
    by (simp_all add: demo_defs stream_inv_def queue_sorted_def IsAllowedInStream_def special_defs next_ts_eq)
  then show ?thesis by (auto simp: early_inv_def demo_defs special_defs next_ts_eq)
qed

theorem early_close_correct_witness: "\<exists>rd t. EarlyClose_GetNodeReadiness demo_ready = Inr (rd, t, demo_ready) \<and> rd \<noteq> kReadyForClose"
proof -
  have "\<not> (\<exists>s \<in> set (input_stream_managers demo_ready). ism_IsDone s)" by (simp add: demo_defs ism_IsDone_def special_defs)
  then show ?thesis using early_close_correct [OF early_demo] by metis
qed

text \<open>
  The barrier. A node with this handler is closed as soon as some stream is done, runs exactly when every stream has a packet, and then
  takes the first packet of every stream, in the order they arrived and whatever their timestamps; none of
  the handler's checks can fail.
\<close>

theorem barrier_pairs_heads:
  assumes "barrier_inv h"
  shows "\<exists>rd t. Barrier_GetNodeReadiness h = Inr (rd, t, h) \<and>
    (rd = kReadyForClose \<longleftrightarrow> (\<exists>s \<in> set (input_stream_managers h). ism_IsDone s)) \<and>
    (rd = kReadyForProcess \<longleftrightarrow> (\<forall>s \<in> set (input_stream_managers h). ism_queue s \<noteq> [])) \<and>
    (rd = kReadyForProcess \<and> shards_fit h sh \<longrightarrow>
      (\<exists>h2 sh2. Barrier_FillInputSet t (h, sh) = Inr (h2, sh2) \<and> barrier_inv h2 \<and>
        (\<forall>i < length sh. packet_queue (sh2 ! i) = packet_queue (sh ! i) @ [hd (ism_queue (input_stream_managers h ! i))] \<and>
           ism_queue (input_stream_managers h2 ! i) = tl (ism_queue (input_stream_managers h ! i))))) \<and>
    (barrier.sched_inv h \<longrightarrow> (\<exists>r. schedule_loop Barrier_GetNodeReadiness Barrier_FillInputSet n 0 h = Some (Inr r)))"
proof -
  from barrier_readiness [OF assms] obtain rd t where r: "Barrier_GetNodeReadiness h = Inr (rd, t, h)"
    "rd = kReadyForClose \<longleftrightarrow> (\<exists>s \<in> set (input_stream_managers h). ism_IsDone s)"
    "rd = kReadyForProcess \<longleftrightarrow> (\<forall>s \<in> set (input_stream_managers h). ism_queue s \<noteq> [])" by blast
  have e: "h\<lparr>calculator_context_manager := calculator_context_manager h\<rparr> = h" by simp
  have "rd = kReadyForProcess \<and> shards_fit h sh \<longrightarrow>
      (\<exists>h2 sh2. Barrier_FillInputSet t (h, sh) = Inr (h2, sh2) \<and> barrier_inv h2 \<and>
        (\<forall>i < length sh. packet_queue (sh2 ! i) = packet_queue (sh ! i) @ [hd (ism_queue (input_stream_managers h ! i))] \<and>
           ism_queue (input_stream_managers h2 ! i) = tl (ism_queue (input_stream_managers h ! i))))"
    using barrier_fill [OF assms, of t h sh "calculator_context_manager h"] r(1)
      barrier_fill_inv [OF assms, of t h sh "calculator_context_manager h"] unfolding e head_taken_def by fastforce
  with r barrier.schedule_loop_returns [of h n 0] show ?thesis by blast
qed

theorem barrier_pairs_heads_witness:
  "\<exists>rd t. Barrier_GetNodeReadiness (Barrier_PrepareForRun demo_handler) = Inr (rd, t, Barrier_PrepareForRun demo_handler) \<and>
     rd \<noteq> kReadyForProcess"
proof -
  have "barrier_inv (Barrier_PrepareForRun demo_handler)"
    by (simp add: barrier_inv_def Barrier_PrepareForRun_def ish_PrepareForRun_def DisableTimestamps_def demo_defs special_defs)
  moreover have "\<not> (\<forall>s \<in> set (input_stream_managers (Barrier_PrepareForRun demo_handler)). ism_queue s \<noteq> [])"
    by (simp add: Barrier_PrepareForRun_def ish_PrepareForRun_def DisableTimestamps_def demo_defs)
  ultimately show ?thesis using barrier_pairs_heads by metis
qed

end
