(* ===== verification/Sync_Handlers.thy ===== *)
theory Sync_Handlers
  imports Input_Handler
begin

text \<open>
  Handlers with more than one synchronised set: \<^verbatim>\<open>stream_handler/immediate_input_stream_handler.cc\<close>, with a set per stream, so that a node runs whenever any
  stream has a packet (the loop-back and flow limiter calculators use it), and
  \<^verbatim>\<open>stream_handler/sync_set_input_stream_handler.cc\<close>, with sets given by the node's options.
\<close>

section \<open>The immediate handler\<close>

record 'a ImmediateInputStreamHandler = "'a InputStreamHandler" +
  imm_sync_sets :: "SyncSet list"
  ready_timestamps :: "Timestamp list"

definition ImmediateInputStreamHandler_new ::
  "'a InputStreamManager list \<Rightarrow> 'a CalculatorContextManager \<Rightarrow> 'a ImmediateInputStreamHandler" where
  "ImmediateInputStreamHandler_new ms cm =
     InputStreamHandler.extend (InputStreamHandler_new ms cm)
       (ImmediateInputStreamHandler.fields (map (\<lambda>i. SyncSet_new [i]) [0 ..< length ms]) (replicate (length ms) Unset))"

definition Immediate_PrepareForRun ::
  "('a, 'b) ImmediateInputStreamHandler_scheme \<Rightarrow> ('a, 'b) ImmediateInputStreamHandler_scheme" where
  "Immediate_PrepareForRun h =
     ish_PrepareForRun (h\<lparr>imm_sync_sets := map SyncSet_PrepareForRun (imm_sync_sets h),
       ready_timestamps := map (\<lambda>_. Unset) (imm_sync_sets h)\<rparr>)"

text \<open>
  One round of the loop: the stream's set and ready timestamp, and the locals \<^verbatim>\<open>input_timestamp\<close>, \<^verbatim>\<open>min_bound\<close>,
  \<^verbatim>\<open>stream_became_done\<close>.
\<close>

type_synonym imm_locals = "Timestamp \<times> Timestamp \<times> bool"

definition imm_stream ::
  "('a, 'b) InputStreamHandler_scheme \<Rightarrow> SyncSet \<Rightarrow> Timestamp \<Rightarrow> imm_locals \<Rightarrow> ts_error + (SyncSet \<times> Timestamp \<times> imm_locals)" where
  "imm_stream h ss ready acc =
     (case acc of (input_timestamp, min_bound, became_done) \<Rightarrow>
      if Unset < ready then Inr (ss, ready, min input_timestamp ready, min min_bound ready, became_done)
      else case GetReadiness h ss of
             Inl e \<Rightarrow> Inl e
           | Inr (rd, stream_ts, ss') \<Rightarrow>
               let min_bound1 = min min_bound stream_ts
               in case rd of
                    kReadyForProcess \<Rightarrow> Inr (ss', stream_ts, min input_timestamp stream_ts, min_bound1, became_done)
                  | kReadyForClose \<Rightarrow>
                      if stream_ts \<noteq> Done then Inl CheckFailed
                      else if process_timestamps h then
                        (if last_processed_ts ss < prev_ts Done
                         then Inr (ss', prev_ts Done, min input_timestamp (prev_ts Done), min min_bound1 (prev_ts Done), became_done)
                         else Inr (ss', Done, input_timestamp, min_bound1, became_done))
                      else if last_processed_ts ss < Done then Inr (ss', Done, input_timestamp, min_bound1, True)
                      else Inr (ss', ready, input_timestamp, min_bound1, became_done)
                  | kNotReady \<Rightarrow> Inr (ss', ready, input_timestamp, min_bound1, became_done))"

fun imm_scan ::
  "('a, 'b) InputStreamHandler_scheme \<Rightarrow> (SyncSet \<times> Timestamp) list \<Rightarrow> imm_locals
    \<Rightarrow> ts_error + ((SyncSet \<times> Timestamp) list \<times> imm_locals)" where
  "imm_scan h [] acc = Inr ([], acc)"
| "imm_scan h ((ss, ready) # xs) acc =
     (case imm_stream h ss ready acc of
        Inl e \<Rightarrow> Inl e
      | Inr (ss', ready', acc') \<Rightarrow>
          (case imm_scan h xs acc' of Inl e \<Rightarrow> Inl e | Inr (ys, acc'') \<Rightarrow> Inr ((ss', ready') # ys, acc'')))"

definition Immediate_GetNodeReadiness ::
  "('a, 'b) ImmediateInputStreamHandler_scheme
    \<Rightarrow> ts_error + (NodeReadiness \<times> Timestamp \<times> ('a, 'b) ImmediateInputStreamHandler_scheme)" where
  "Immediate_GetNodeReadiness h =
     (case imm_scan h (zip (imm_sync_sets h) (ready_timestamps h)) (Done, Done, False) of
        Inl e \<Rightarrow> Inl e
      | Inr (ys, input_timestamp, min_bound, became_done) \<Rightarrow>
          let h1 = h\<lparr>imm_sync_sets := map fst ys, ready_timestamps := map snd ys\<rparr>
          in if min_bound = Done then Inr (kReadyForClose, min_bound, h1)
             else if input_timestamp < Done then Inr (kReadyForProcess, input_timestamp, h1)
             else if became_done then Inr (kReadyForProcess, min_bound, h1)
             else Inr (kNotReady, min_bound, h1))"

definition imm_fill ::
  "Timestamp \<Rightarrow> nat \<Rightarrow> ('a, 'b) ImmediateInputStreamHandler_scheme \<times> 'a InputStreamShard list
    \<Rightarrow> ts_error + (('a, 'b) ImmediateInputStreamHandler_scheme \<times> 'a InputStreamShard list)" where
  "imm_fill t i hs =
     (if ready_timestamps (fst hs) ! i = t then
        (case SyncSet_FillInputSet (imm_sync_sets (fst hs) ! i) t hs of
           Inl e \<Rightarrow> Inl e
         | Inr (h, sh) \<Rightarrow> Inr (h\<lparr>ready_timestamps := (ready_timestamps h)[i := Unset]\<rparr>, sh))
      else FillInputBounds (imm_sync_sets (fst hs) ! i) hs)"

definition Immediate_FillInputSet ::
  "Timestamp \<Rightarrow> ('a, 'b) ImmediateInputStreamHandler_scheme \<times> 'a InputStreamShard list
    \<Rightarrow> ts_error + (('a, 'b) ImmediateInputStreamHandler_scheme \<times> 'a InputStreamShard list)" where
  "Immediate_FillInputSet t hs = run_steps (imm_fill t) [0 ..< length (imm_sync_sets (fst hs))] hs"

definition Immediate_SyncSetCount :: "('a, 'b) ImmediateInputStreamHandler_scheme \<Rightarrow> nat" where
  "Immediate_SyncSetCount h = length (imm_sync_sets h)"

section \<open>The handler with configured sets\<close>

record 'a SyncSetInputStreamHandler = "'a InputStreamHandler" +
  sync_sets :: "SyncSet list"
  ready_sync_set_index :: int
  ready_timestamp :: Timestamp

text \<open>
  The options name the streams of each set; looking a name up in the node's tag map is a
  parameter. The used ids are collected over all sets.
\<close>

fun take_ids :: "('n \<Rightarrow> nat option) \<Rightarrow> 'n list \<Rightarrow> nat list \<Rightarrow> ts_error + (nat list \<times> nat list)" where
  "take_ids lookup [] used = Inr ([], used)"
| "take_ids lookup (n # ns) used =
     (case lookup n of
        None \<Rightarrow> Inl CheckFailed
      | Some i \<Rightarrow>
          if i \<in> set used then Inl CheckFailed
          else case take_ids lookup ns (used @ [i]) of
                 Inl e \<Rightarrow> Inl e
               | Inr (ids, used') \<Rightarrow> Inr (i # ids, used'))"

fun take_sets :: "('n \<Rightarrow> nat option) \<Rightarrow> 'n list list \<Rightarrow> nat list \<Rightarrow> ts_error + (SyncSet list \<times> nat list)" where
  "take_sets lookup [] used = Inr ([], used)"
| "take_sets lookup (ns # nss) used =
     (if ns = [] then Inl CheckFailed
      else case take_ids lookup ns used of
             Inl e \<Rightarrow> Inl e
           | Inr (ids, used1) \<Rightarrow>
               (case take_sets lookup nss used1 of
                  Inl e \<Rightarrow> Inl e
                | Inr (sets, used2) \<Rightarrow> Inr (SyncSet_new ids # sets, used2)))"

definition SyncSets_PrepareForRun ::
  "('n \<Rightarrow> nat option) \<Rightarrow> 'n list list \<Rightarrow> ('a, 'b) SyncSetInputStreamHandler_scheme
    \<Rightarrow> ts_error + ('a, 'b) SyncSetInputStreamHandler_scheme" where
  "SyncSets_PrepareForRun lookup options h =
     (case take_sets lookup options [] of
        Inl e \<Rightarrow> Inl e
      | Inr (sets, used) \<Rightarrow>
          let remaining = filter (\<lambda>i. i \<notin> set used) [0 ..< length (input_stream_managers h)]
          in Inr (ish_PrepareForRun (h\<lparr>sync_sets := sets @ (if remaining = [] then [] else [SyncSet_new remaining]),
               ready_sync_set_index := - 1, ready_timestamp := Done\<rparr>)))"

text \<open>
  The loop over the sets: a set that is done is dropped, and the indices of the sets after it move down. The locals are the
  ready index, its timestamp, and the timestamp reported last.
\<close>

fun sets_scan ::
  "('a, 'b) InputStreamHandler_scheme \<Rightarrow> int \<Rightarrow> SyncSet list \<Rightarrow> int \<times> Timestamp \<times> Timestamp
    \<Rightarrow> ts_error + (SyncSet list \<times> int \<times> Timestamp \<times> Timestamp)" where
  "sets_scan h i [] acc = Inr ([], acc)"
| "sets_scan h i (ss # sets) (ready_index, ready_ts, min_ts) =
     (case GetReadiness h ss of
        Inl e \<Rightarrow> Inl e
      | Inr (rd, t, ss') \<Rightarrow>
          (if rd = kReadyForClose then sets_scan h i sets (ready_index, ready_ts, t)
           else
             let acc' = (if rd = kReadyForProcess \<and> t < ready_ts then (i, t, t) else (ready_index, ready_ts, t))
             in case sets_scan h (i + 1) sets acc' of
                  Inl e \<Rightarrow> Inl e
                | Inr (sets', acc'') \<Rightarrow> Inr (ss' # sets', acc'')))"

definition SyncSets_GetNodeReadiness ::
  "('a, 'b) SyncSetInputStreamHandler_scheme
    \<Rightarrow> ts_error + (NodeReadiness \<times> Timestamp \<times> ('a, 'b) SyncSetInputStreamHandler_scheme)" where
  "SyncSets_GetNodeReadiness h =
     (if 0 \<le> ready_sync_set_index h then Inr (kReadyForProcess, ready_timestamp h, h)
      else case sets_scan h 0 (sync_sets h) (ready_sync_set_index h, ready_timestamp h, Done) of
             Inl e \<Rightarrow> Inl e
           | Inr (sets, ready_index, ready_ts, min_ts) \<Rightarrow>
               let h1 = h\<lparr>sync_sets := sets, ready_sync_set_index := ready_index, ready_timestamp := ready_ts\<rparr>
               in if 0 \<le> ready_index then Inr (kReadyForProcess, ready_ts, h1)
                  else if sets = [] then Inr (kReadyForClose, Done, h1)
                  else Inr (kNotReady, min_ts, h1))"

definition SyncSets_FillInputSet ::
  "Timestamp \<Rightarrow> ('a, 'b) SyncSetInputStreamHandler_scheme \<times> 'a InputStreamShard list
    \<Rightarrow> ts_error + (('a, 'b) SyncSetInputStreamHandler_scheme \<times> 'a InputStreamShard list)" where
  "SyncSets_FillInputSet t hs =
     (let k = ready_sync_set_index (fst hs); sets = sync_sets (fst hs)
      in if k < 0 \<or> int (length sets) \<le> k then Inl CheckFailed
         else case SyncSet_FillInputSet (sets ! nat k) t hs of
                Inl e \<Rightarrow> Inl e
              | Inr hs1 \<Rightarrow>
                  (case run_steps (\<lambda>i. FillInputBounds (sets ! i)) (filter (\<lambda>i. int i \<noteq> k) [0 ..< length sets]) hs1 of
                     Inl e \<Rightarrow> Inl e
                   | Inr (h2, sh) \<Rightarrow> Inr (h2\<lparr>ready_sync_set_index := - 1, ready_timestamp := Done\<rparr>, sh)))"

definition SyncSets_SyncSetCount :: "('a, 'b) SyncSetInputStreamHandler_scheme \<Rightarrow> nat" where
  "SyncSets_SyncSetCount h = length (sync_sets h)"

section \<open>The invariant of the immediate handler\<close>

text \<open>
  A set of the immediate handler is over one stream. With no ready timestamp the set is in order; with one, that timestamp can be
  selected in the stream; with \<open>Done\<close> nothing can arrive any more.
\<close>

definition imm_ok :: "('a, 'b) InputStreamHandler_scheme \<Rightarrow> nat \<Rightarrow> SyncSet \<Rightarrow> Timestamp \<Rightarrow> bool" where
  "imm_ok h i ss ready \<longleftrightarrow> stream_ids ss = [i] \<and> has_id i h \<and> stream_inv (input_stream_managers h ! i) \<and>
     (if ready = Unset then
        last_select_timestamp (input_stream_managers h ! i) \<le> max (last_processed_ts ss) Unstarted \<or>
        (prev_ts Done \<le> last_processed_ts ss \<and> OneOverPostStream \<le> fst (MinTimestampOrBound (input_stream_managers h ! i)))
      else if ready = Done then OneOverPostStream \<le> fst (MinTimestampOrBound (input_stream_managers h ! i))
      else IsAllowedInStream ready \<and> ready \<le> last_processed_ts ss \<and>
        last_select_timestamp (input_stream_managers h ! i) < ready \<and> ready \<le> fst (MinTimestampOrBound (input_stream_managers h ! i)))"

definition imm_inv :: "('a, 'b) ImmediateInputStreamHandler_scheme \<Rightarrow> bool" where
  "imm_inv h \<longleftrightarrow> length (imm_sync_sets h) = length (input_stream_managers h) \<and>
     length (ready_timestamps h) = length (input_stream_managers h) \<and>
     (\<forall>i < length (input_stream_managers h). imm_ok h i (imm_sync_sets h ! i) (ready_timestamps h ! i))"

lemma sync_inv_single:
  "stream_ids ss = [i] \<Longrightarrow> sync_inv ss h \<longleftrightarrow> has_id i h \<and> stream_inv (input_stream_managers h ! i) \<and>
     (last_select_timestamp (input_stream_managers h ! i) \<le> max (last_processed_ts ss) Unstarted \<or>
      (prev_ts Done \<le> last_processed_ts ss \<and> OneOverPostStream \<le> fst (MinTimestampOrBound (input_stream_managers h ! i))))"
  by (auto simp: sync_inv_def ids_ok_def)

lemma head_PreStream: "stream_inv s \<Longrightarrow> PreStream \<le> fst (MinTimestampOrBound s)"
  by (cases "ism_queue s") (auto simp: MinTimestampOrBound_def stream_inv_def IsAllowedInStream_def)

lemma allowed_order: "IsAllowedInStream t \<Longrightarrow> Unset < t \<and> t < Done \<and> t \<noteq> Unset \<and> t \<noteq> Done"
  by (cases t) (auto simp: IsAllowedInStream_def special_defs)

lemma PreStream_order: "PreStream \<le> t \<Longrightarrow> Unset < t"
  by (cases t) (auto simp: special_defs)

lemma Max_allowed: "IsAllowedInStream (prev_ts Done)" "prev_ts Done < OneOverPostStream"
  by (simp_all add: prev_ts_eq IsAllowedInStream_def special_defs)

text \<open>Asking a set over one stream.\<close>

lemma single_readiness:
  assumes "stream_ids ss = [i]" "sync_inv ss h"
  shows "\<exists>rd t ss'. GetReadiness h ss = Inr (rd, t, ss') \<and> stream_ids ss' = [i] \<and> Unset < t \<and>
    (rd = kNotReady \<longrightarrow> ss' = ss \<and> (process_timestamps h \<or> ism_queue (input_stream_managers h ! i) = [])) \<and>
    (rd = kReadyForClose \<longrightarrow> t = Done \<and> last_processed_ts ss' = prev_ts Done \<and>
       OneOverPostStream \<le> fst (MinTimestampOrBound (input_stream_managers h ! i))) \<and>
    (rd = kReadyForProcess \<longrightarrow> IsAllowedInStream t \<and> last_processed_ts ss' = t \<and>
       last_select_timestamp (input_stream_managers h ! i) < t \<and> t \<le> fst (MinTimestampOrBound (input_stream_managers h ! i)))"
proof -
  let ?s = "input_stream_managers h ! i"
  from readiness_other [OF assms(2)] obtain rd t ss' where g: "GetReadiness h ss = Inr (rd, t, ss')"
    "stream_ids ss' = stream_ids ss" "rd = kNotReady \<longrightarrow> ss' = ss"
    "rd = kReadyForClose \<longrightarrow> t = Done \<and> last_processed_ts ss' = prev_ts Done \<and>
      (\<forall>i \<in> set (stream_ids ss). OneOverPostStream \<le> fst (MinTimestampOrBound (input_stream_managers h ! i)))" by blast
  have si: "stream_inv ?s" using assms sync_inv_single by blast
  have p: "IsAllowedInStream t \<and> last_processed_ts ss' = t \<and> last_select_timestamp ?s < t \<and> t \<le> fst (MinTimestampOrBound ?s)"
    if "rd = kReadyForProcess"
    using readiness_process [OF assms(2) g(1) [unfolded that]] assms(1) by (auto simp: Let_def)
  have n: "t = min Done (fst (MinTimestampOrBound ?s)) \<and> (process_timestamps h \<or> ism_queue ?s = [])" if "rd = kNotReady"
  proof (cases "ism_queue ?s")
    case Nil
    then show ?thesis using g(1) that assms(1)
      by (auto simp: GetReadiness_def MinTimestampOrBound_def Let_def min_def split: if_splits)
  next
    case (Cons x xs)
    have "pkt_ts x < Done" using si Cons allowed_order by (auto simp: stream_inv_def)
    with Cons show ?thesis using g(1) that assms(1)
      by (auto simp: GetReadiness_def MinTimestampOrBound_def Let_def min_def split: if_splits)
  qed
  have "Unset < t"
    using p n g(4) allowed_order [of t] head_PreStream [OF si] PreStream_order [of "fst (MinTimestampOrBound ?s)"]
    by (cases rd) (auto simp: min_def special_defs split: if_splits)
  with g assms(1) p n show ?thesis by auto
qed

text \<open>One round of the readiness loop keeps the invariant of its stream; a stream with a packet makes the node ready.\<close>

lemma imm_stream_ok:
  assumes ok: "imm_ok h i ss ready" and acc: "Unset < inp" "Unset < mb" "mb \<le> inp"
  shows "\<exists>ss' ready' inp' mb' d'. imm_stream h ss ready (inp, mb, d) = Inr (ss', ready', inp', mb', d') \<and> imm_ok h i ss' ready' \<and>
    Unset < inp' \<and> Unset < mb' \<and> mb' \<le> inp' \<and> inp' \<le> inp \<and> mb' \<le> mb \<and>
    (\<not> process_timestamps h \<and> ism_queue (input_stream_managers h ! i) \<noteq> [] \<longrightarrow> inp' < Done)"
proof (cases "ready = Unset")
  case False
  let ?s = "input_stream_managers h ! i"
  have r: "Unset < ready" using ok False allowed_order [of ready] by (auto simp: imm_ok_def special_defs split: if_splits)
  have "ready < Done" if "ism_queue ?s \<noteq> []"
  proof -
    have "\<not> OneOverPostStream \<le> fst (MinTimestampOrBound ?s)"
      using stream_inv_no_more [of ?s] that ok by (auto simp: imm_ok_def)
    with ok False show ?thesis using allowed_order [of ready] by (auto simp: imm_ok_def split: if_splits)
  qed
  with r ok acc show ?thesis by (auto simp: imm_stream_def min.coboundedI1 min_less_iff_disj)
next
  case True
  let ?s = "input_stream_managers h ! i"
  have ids: "stream_ids ss = [i]" and si: "sync_inv ss h" and sv: "stream_inv ?s" "has_id i h"
    using ok True sync_inv_single by (auto simp: imm_ok_def)
  from single_readiness [OF ids si] obtain rd t ss' where g: "GetReadiness h ss = Inr (rd, t, ss')" "stream_ids ss' = [i]" "Unset < t"
    "rd = kNotReady \<longrightarrow> ss' = ss \<and> (process_timestamps h \<or> ism_queue ?s = [])"
    "rd = kReadyForClose \<longrightarrow> t = Done \<and> last_processed_ts ss' = prev_ts Done \<and> OneOverPostStream \<le> fst (MinTimestampOrBound ?s)"
    "rd = kReadyForProcess \<longrightarrow> IsAllowedInStream t \<and> last_processed_ts ss' = t \<and> last_select_timestamp ?s < t \<and> t \<le> fst (MinTimestampOrBound ?s)"
    by blast
  have nu: "\<not> Unset < ready" using True by simp
  show ?thesis
  proof (cases rd)
    case kNotReady
    with g nu ok acc show ?thesis by (auto simp: imm_stream_def min.coboundedI1)
  next
    case kReadyForProcess
    then have t: "IsAllowedInStream t" "imm_ok h i ss' t" using g sv allowed_order [of t] by (auto simp: imm_ok_def)
    with g nu acc kReadyForProcess allowed_order [of t] show ?thesis
      by (auto simp: imm_stream_def Let_def min.coboundedI1 min.coboundedI2 min_less_iff_disj)
  next
    case kReadyForClose
    then have c: "t = Done" "last_processed_ts ss' = prev_ts Done" "OneOverPostStream \<le> fst (MinTimestampOrBound ?s)" using g by auto
    have q: "ism_queue ?s = []" using stream_inv_no_more [OF sv(1) c(3)] by simp
    have ls: "last_select_timestamp ?s < prev_ts Done" if "last_processed_ts ss < prev_ts Done"
    proof -
      have "max (last_processed_ts ss) Unstarted < prev_ts Done" using that by (simp add: prev_ts_eq special_defs)
      moreover have "last_select_timestamp ?s \<le> max (last_processed_ts ss) Unstarted"
        using si that sync_inv_single [OF ids, of h] by auto
      ultimately show ?thesis by (rule order.strict_trans1 [rotated])
    qed
    have okD: "imm_ok h i ss' Done" "last_processed_ts ss < prev_ts Done \<Longrightarrow> imm_ok h i ss' (prev_ts Done)" "imm_ok h i ss' Unset"
      using c g(2) sv ls Max_allowed allowed_order [OF Max_allowed(1)] by (auto simp: imm_ok_def special_defs intro: less_imp_le order.strict_trans2)
    have "Unset < prev_ts Done" "Unset < Done" using allowed_order [OF Max_allowed(1)] by (simp_all add: special_defs)
    with okD c q g(1) nu acc kReadyForClose True show ?thesis
      by (auto simp: imm_stream_def Let_def min.coboundedI1 min.coboundedI2)
  qed
qed

lemma imm_scan_ok:
  assumes "\<forall>k < length xs. imm_ok h (j + k) (fst (xs ! k)) (snd (xs ! k))" "Unset < inp" "Unset < mb" "mb \<le> inp"
  shows "\<exists>ys inp' mb' d'. imm_scan h xs (inp, mb, d) = Inr (ys, inp', mb', d') \<and> length ys = length xs \<and>
    (\<forall>k < length xs. imm_ok h (j + k) (fst (ys ! k)) (snd (ys ! k))) \<and>
    Unset < inp' \<and> Unset < mb' \<and> mb' \<le> inp' \<and> inp' \<le> inp \<and> mb' \<le> mb \<and>
    (\<not> process_timestamps h \<and> (\<exists>k < length xs. ism_queue (input_stream_managers h ! (j + k)) \<noteq> []) \<longrightarrow> inp' < Done)"
  using assms
proof (induction xs arbitrary: j inp mb d)
  case (Cons x xs)
  obtain ss rt where x: "x = (ss, rt)" by force
  from Cons.prems(1) have "imm_ok h j ss rt" by (auto simp: x dest: spec [of _ 0])
  from imm_stream_ok [OF this Cons.prems(2-4), of d] obtain ss' rt' i1 m1 d1 where
    a: "imm_stream h ss rt (inp, mb, d) = Inr (ss', rt', i1, m1, d1)" "imm_ok h j ss' rt'" "Unset < i1" "Unset < m1" "m1 \<le> i1"
      "i1 \<le> inp" "m1 \<le> mb" "\<not> process_timestamps h \<and> ism_queue (input_stream_managers h ! j) \<noteq> [] \<longrightarrow> i1 < Done" by blast
  have "\<forall>k < length xs. imm_ok h (Suc j + k) (fst (xs ! k)) (snd (xs ! k))"
  proof (intro allI impI)
    fix k assume "k < length xs"
    with Cons.prems(1) have "imm_ok h (j + Suc k) (fst ((x # xs) ! Suc k)) (snd ((x # xs) ! Suc k))" by (metis Suc_mono length_Cons)
    then show "imm_ok h (Suc j + k) (fst (xs ! k)) (snd (xs ! k))" by simp
  qed
  from Cons.IH [OF this a(3-5), of d1] obtain ys i2 m2 d2 where
    b: "imm_scan h xs (i1, m1, d1) = Inr (ys, i2, m2, d2)" "length ys = length xs"
      "\<forall>k < length xs. imm_ok h (Suc j + k) (fst (ys ! k)) (snd (ys ! k))" "Unset < i2" "Unset < m2" "m2 \<le> i2" "i2 \<le> i1" "m2 \<le> m1"
      "\<not> process_timestamps h \<and> (\<exists>k < length xs. ism_queue (input_stream_managers h ! (Suc j + k)) \<noteq> []) \<longrightarrow> i2 < Done" by blast
  have ok: "\<forall>k < Suc (length xs). imm_ok h (j + k) (fst (((ss', rt') # ys) ! k)) (snd (((ss', rt') # ys) ! k))"
    using a(2) b(3) by (simp add: nth_Cons split: nat.splits)
  have rdy: "i2 < Done" if "\<not> process_timestamps h" "k < Suc (length xs)" "ism_queue (input_stream_managers h ! (j + k)) \<noteq> []" for k
    using that a(8) b(7,9) by (cases k) (auto intro: order.strict_trans1)
  show ?case
    using a b(1,2,4-8) ok rdy by (intro exI [of _ "(ss', rt') # ys"] exI [of _ i2] exI [of _ m2] exI [of _ d2]) (auto simp: x)
qed auto

lemma imm_readiness:
  assumes inv: "imm_inv h"
  shows "\<exists>rd t h1. Immediate_GetNodeReadiness h = Inr (rd, t, h1) \<and> imm_inv h1 \<and> t \<noteq> Unset \<and> (rd = kReadyForProcess \<longrightarrow> t < Done) \<and>
    input_stream_managers h1 = input_stream_managers h \<and>
    (\<not> process_timestamps h \<and> (\<exists>s \<in> set (input_stream_managers h). ism_queue s \<noteq> []) \<longrightarrow> rd = kReadyForProcess)"
proof -
  let ?n = "length (input_stream_managers h)" and ?xs = "zip (imm_sync_sets h) (ready_timestamps h)"
  have len: "length ?xs = ?n" using inv by (simp add: imm_inv_def)
  have "\<forall>k < ?n. imm_ok h k (fst (?xs ! k)) (snd (?xs ! k))" using inv by (simp add: imm_inv_def)
  moreover have "Unset < Done" by (simp add: special_defs)
  ultimately obtain ys inp mb d where sc: "imm_scan h ?xs (Done, Done, False) = Inr (ys, inp, mb, d)" "length ys = ?n"
    "\<forall>k < ?n. imm_ok h k (fst (ys ! k)) (snd (ys ! k))" "Unset < inp" "Unset < mb" "mb \<le> inp" "inp \<le> Done" "mb \<le> Done"
    "\<not> process_timestamps h \<and> (\<exists>k < ?n. ism_queue (input_stream_managers h ! k) \<noteq> []) \<longrightarrow> inp < Done"
    using imm_scan_ok [of ?xs h 0 Done Done False, unfolded len add_0] by blast
  let ?h1 = "h\<lparr>imm_sync_sets := map fst ys, ready_timestamps := map snd ys\<rparr>"
  have "imm_inv ?h1" using sc(2,3) by (simp add: imm_inv_def imm_ok_def has_id_def)
  moreover have "inp < Done" if "\<not> process_timestamps h" "\<exists>s \<in> set (input_stream_managers h). ism_queue s \<noteq> []"
    using sc(9) that by (auto simp: in_set_conv_nth)
  ultimately show ?thesis
    using sc(1,4-8) by (auto simp: Immediate_GetNodeReadiness_def Let_def order.order_iff_strict)
qed

section \<open>Filling by the immediate handler\<close>

text \<open>What a stream outside the selected timestamp contributes: an empty packet that carries its bound.\<close>

definition bound_only :: "'a InputStreamManager \<Rightarrow> 'a InputStreamShard \<Rightarrow> 'a InputStreamManager \<Rightarrow> 'a InputStreamShard \<Rightarrow> bool" where
  "bound_only s sh s' sh' \<longleftrightarrow> s' = s \<and> packet_queue sh' \<noteq> [] \<and> butlast (packet_queue sh') = packet_queue sh \<and>
     packet_IsEmpty (last (packet_queue sh')) \<and> (is_done sh' \<longleftrightarrow> ism_IsDone s)"

lemma Done_is_done: "stream_inv s \<Longrightarrow> fst (MinTimestampOrBound s) = Done \<longleftrightarrow> ism_IsDone s"
proof (cases "ism_queue s")
  case (Cons p q)
  moreover assume "stream_inv s"
  ultimately show ?thesis using allowed_order [of "pkt_ts p"] by (auto simp: stream_inv_def MinTimestampOrBound_def ism_IsDone_def)
qed (simp add: MinTimestampOrBound_def ism_IsDone_def)

interpretation fill_bnd: per_stream fill_bound "\<lambda>i s sh. stream_inv s" "\<lambda>i. bound_only"
proof unfold_locales
  fix i and h :: "('a, 'b) InputStreamHandler_scheme" and sh :: "'a InputStreamShard list"
  let ?s = "input_stream_managers h ! i"
  assume a: "has_id i h" "i < length sh" "stream_inv ?s"
  let ?b = "fst (MinTimestampOrBound ?s)"
  let ?sh' = "(sh ! i)\<lparr>packet_queue := packet_queue (sh ! i) @ [packet_At (prev_ts ?b) empty_packet], is_done := (?b = Done)\<rparr>"
  have "packet_IsEmpty (packet_At (prev_ts ?b) (empty_packet :: 'a packet))" by (simp add: packet_IsEmpty_def packet_At_def empty_packet_def)
  moreover have "call [] (put_stream i ?s h) = h" by (simp add: call_def put_stream_def)
  ultimately show "\<exists>s' sh' cs. fill_bound i (h, sh) = Inr (call cs (put_stream i s' h), sh[i := sh']) \<and> bound_only ?s (sh ! i) s' sh'"
    using a Done_is_done [OF a(3)]
    by (intro exI [of _ ?s] exI [of _ ?sh'] exI [of _ "[]"]) (auto simp: fill_bound_def Let_def shard_AddPacket_def bound_only_def)
qed

definition imm_post :: "Timestamp \<Rightarrow> Timestamp \<Rightarrow> 'a InputStreamManager \<Rightarrow> 'a InputStreamShard \<Rightarrow> 'a InputStreamManager \<Rightarrow> 'a InputStreamShard \<Rightarrow> bool" where
  "imm_post t ready s sh s' sh' \<longleftrightarrow> (if ready = t then synced t s sh s' sh' else bound_only s sh s' sh')"

lemma imm_fill_step:
  assumes ok: "imm_ok h i (imm_sync_sets h ! i) (ready_timestamps h ! i)" and t: "t \<noteq> Unset" "t < Done"
    and sh: "i < length sh" "shard_ok (input_stream_managers h ! i) (sh ! i)" "i < length (ready_timestamps h)"
  shows "\<exists>s' sh' cs rs. imm_fill t i (h, sh) = Inr ((call cs (put_stream i s' h))\<lparr>ready_timestamps := rs\<rparr>, sh[i := sh']) \<and>
    imm_post t (ready_timestamps h ! i) (input_stream_managers h ! i) (sh ! i) s' sh' \<and>
    rs = (ready_timestamps h)[i := rs ! i] \<and>
    imm_ok ((call cs (put_stream i s' h))\<lparr>ready_timestamps := rs\<rparr>) i (imm_sync_sets h ! i) (rs ! i)"
proof (cases "ready_timestamps h ! i = t")
  case False
  let ?s = "input_stream_managers h ! i"
  have ids: "stream_ids (imm_sync_sets h ! i) = [i]" "has_id i h" "stream_inv ?s" using ok by (auto simp: imm_ok_def)
  from fill_bnd.step_ok [OF ids(2) sh(1) ids(3)] obtain s' sh' cs where
    f: "fill_bound i (h, sh) = Inr (call cs (put_stream i s' h), sh[i := sh'])" "bound_only ?s (sh ! i) s' sh'" by blast
  have "s' = ?s" using f(2) by (simp add: bound_only_def)
  then have "imm_ok ((call cs (put_stream i s' h))\<lparr>ready_timestamps := ready_timestamps h\<rparr>) i (imm_sync_sets h ! i) (ready_timestamps h ! i)"
    using ok by (simp add: imm_ok_def has_id_def)
  moreover have "(call cs (put_stream i s' h))\<lparr>ready_timestamps := ready_timestamps h\<rparr> = call cs (put_stream i s' h)"
    by (simp add: call_def put_stream_def)
  ultimately show ?thesis
    using f False ids(1) by (intro exI [of _ s'] exI [of _ sh'] exI [of _ cs] exI [of _ "ready_timestamps h"])
      (auto simp: imm_fill_def FillInputBounds_def imm_post_def)
next
  case True
  let ?s = "input_stream_managers h ! i" and ?rs = "(ready_timestamps h)[i := Unset]"
  have ids: "stream_ids (imm_sync_sets h ! i) = [i]" "has_id i h" "stream_inv ?s" using ok by (auto simp: imm_ok_def)
  have p: "IsAllowedInStream t" "t \<le> last_processed_ts (imm_sync_sets h ! i)" "last_select_timestamp ?s < t" "t \<le> fst (MinTimestampOrBound ?s)"
    using ok True t by (auto simp: imm_ok_def)
  then have sel: "selectable_at t ?s (sh ! i)" using ids sh(2) by (simp add: selectable_at_def)
  from fill_at.step_ok [OF ids(2) sh(1) sel] obtain s' sh' cs where
    f: "fill_stream t i (h, sh) = Inr (call cs (put_stream i s' h), sh[i := sh'])" "synced t ?s (sh ! i) s' sh'" by blast
  have "imm_ok ((call cs (put_stream i s' h))\<lparr>ready_timestamps := ?rs\<rparr>) i (imm_sync_sets h ! i) Unset"
    using f(2) ids p(2) by (simp add: imm_ok_def has_id_def synced_def le_max_iff_disj)
  moreover have "ready_timestamps (call cs (put_stream i s' h)) = ready_timestamps h" by (simp add: call_def put_stream_def)
  ultimately show ?thesis
    using f True ids(1) p(1) sh(3)
    by (intro exI [of _ s'] exI [of _ sh'] exI [of _ cs] exI [of _ ?rs]) (auto simp: imm_fill_def SyncSet_FillInputSet_def imm_post_def)
qed

lemma imm_ok_cong:
  "input_stream_managers h' ! i = input_stream_managers h ! i \<Longrightarrow> has_id i h' = has_id i h \<Longrightarrow> imm_ok h' i ss rt = imm_ok h i ss rt"
  by (simp add: imm_ok_def)

lemma post_fits: "imm_post t r s sh s' sh' \<Longrightarrow> shard_ok s' sh'"
  by (auto simp: imm_post_def synced_def bound_only_def shard_ok_def split: if_splits)

lemma imm_run:
  assumes "distinct ids" "t \<noteq> Unset" "t < Done" "shards_fit h sh" "length (ready_timestamps h) = length (input_stream_managers h)"
    and "\<forall>i \<in> set ids. imm_ok h i (imm_sync_sets h ! i) (ready_timestamps h ! i)"
  shows "\<exists>h2 sh2. run_steps (imm_fill t) ids (h, sh) = Inr (h2, sh2) \<and> imm_sync_sets h2 = imm_sync_sets h \<and> shards_fit h2 sh2 \<and>
    length (input_stream_managers h2) = length (input_stream_managers h) \<and>
    length (ready_timestamps h2) = length (input_stream_managers h) \<and>
    (\<forall>i. i \<notin> set ids \<longrightarrow> input_stream_managers h2 ! i = input_stream_managers h ! i \<and> sh2 ! i = sh ! i \<and>
       ready_timestamps h2 ! i = ready_timestamps h ! i) \<and>
    (\<forall>i \<in> set ids. imm_ok h2 i (imm_sync_sets h ! i) (ready_timestamps h2 ! i) \<and>
       imm_post t (ready_timestamps h ! i) (input_stream_managers h ! i) (sh ! i) (input_stream_managers h2 ! i) (sh2 ! i))"
  using assms
proof (induction ids arbitrary: h sh)
  case (Cons i ids)
  let ?ms = "input_stream_managers h"
  have ok: "imm_ok h i (imm_sync_sets h ! i) (ready_timestamps h ! i)" using Cons.prems(6) by simp
  then have i: "i < length ?ms" by (simp add: imm_ok_def has_id_def)
  have sh: "i < length sh" "shard_ok (?ms ! i) (sh ! i)" "i < length (ready_timestamps h)"
    using Cons.prems(4,5) i by (auto simp: shards_fit_def)
  from imm_fill_step [OF ok Cons.prems(2,3) sh] obtain s' x cs rs where
    f: "imm_fill t i (h, sh) = Inr ((call cs (put_stream i s' h))\<lparr>ready_timestamps := rs\<rparr>, sh[i := x])"
      "imm_post t (ready_timestamps h ! i) (?ms ! i) (sh ! i) s' x" "rs = (ready_timestamps h)[i := rs ! i]"
      "imm_ok ((call cs (put_stream i s' h))\<lparr>ready_timestamps := rs\<rparr>) i (imm_sync_sets h ! i) (rs ! i)" by blast
  define h1 where "h1 = (call cs (put_stream i s' h))\<lparr>ready_timestamps := rs\<rparr>"
  have h1: "input_stream_managers h1 = ?ms[i := s']" "imm_sync_sets h1 = imm_sync_sets h" "ready_timestamps h1 = rs"
    by (simp_all add: h1_def call_def put_stream_def)
  have rs: "length rs = length ?ms" "\<And>j. j \<noteq> i \<Longrightarrow> rs ! j = ready_timestamps h ! j"
    using f(3) Cons.prems(5) by (metis length_list_update) (metis f(3) nth_list_update_neq)
  have ne: "\<forall>j \<in> set ids. j \<noteq> i" using Cons.prems(1) by auto
  have "shards_fit h1 (sh[i := x])"
    using Cons.prems(4) post_fits [OF f(2)] i sh(1) by (auto simp: shards_fit_def h1 nth_list_update)
  moreover have "\<forall>j \<in> set ids. imm_ok h1 j (imm_sync_sets h1 ! j) (ready_timestamps h1 ! j)"
  proof
    fix j assume j: "j \<in> set ids"
    then have ij: "i \<noteq> j" using ne by auto
    have "imm_ok h1 j ss rt = imm_ok h j ss rt" for ss rt
      by (rule imm_ok_cong) (use ij in \<open>simp_all add: h1 has_id_def\<close>)
    with Cons.prems(6) j ij rs(2) [of j] show "imm_ok h1 j (imm_sync_sets h1 ! j) (ready_timestamps h1 ! j)" by (simp add: h1)
  qed
  moreover have "length (ready_timestamps h1) = length (input_stream_managers h1)" by (simp add: h1 rs)
  moreover have "distinct ids" using Cons.prems(1) by simp
  ultimately obtain h2 sh2 where g: "run_steps (imm_fill t) ids (h1, sh[i := x]) = Inr (h2, sh2)" "imm_sync_sets h2 = imm_sync_sets h"
      "shards_fit h2 sh2" "length (input_stream_managers h2) = length ?ms" "length (ready_timestamps h2) = length ?ms"
      "\<forall>j. j \<notin> set ids \<longrightarrow> input_stream_managers h2 ! j = ?ms[i := s'] ! j \<and> sh2 ! j = sh[i := x] ! j \<and> ready_timestamps h2 ! j = rs ! j"
      "\<forall>j \<in> set ids. imm_ok h2 j (imm_sync_sets h ! j) (ready_timestamps h2 ! j) \<and>
         imm_post t (rs ! j) (?ms[i := s'] ! j) (sh[i := x] ! j) (input_stream_managers h2 ! j) (sh2 ! j)"
    using Cons.IH [of h1 "sh[i := x]"] Cons.prems(2,3) by (auto simp: h1)
  have ni: "i \<notin> set ids" using Cons.prems(1) by simp
  have "imm_ok h2 i (imm_sync_sets h ! i) (ready_timestamps h2 ! i)"
  proof -
    have "imm_ok h1 i (imm_sync_sets h ! i) (rs ! i)" using f(4) by (simp add: h1_def)
    moreover have "input_stream_managers h2 ! i = input_stream_managers h1 ! i" "has_id i h2 = has_id i h1"
      using g(4,6) ni by (simp_all add: h1 has_id_def)
    ultimately show ?thesis using imm_ok_cong [of h2 i h1] g(6) ni by simp
  qed
  moreover have "imm_post t (ready_timestamps h ! i) (?ms ! i) (sh ! i) (input_stream_managers h2 ! i) (sh2 ! i)"
    using f(2) g(6) ni i sh(1) by simp
  moreover have "\<forall>j \<in> set ids. imm_ok h2 j (imm_sync_sets h ! j) (ready_timestamps h2 ! j) \<and>
      imm_post t (ready_timestamps h ! j) (?ms ! j) (sh ! j) (input_stream_managers h2 ! j) (sh2 ! j)"
  proof
    fix j assume j: "j \<in> set ids"
    then have "i \<noteq> j" using ne by auto
    with g(7) j rs(2) [of j] show "imm_ok h2 j (imm_sync_sets h ! j) (ready_timestamps h2 ! j) \<and>
      imm_post t (ready_timestamps h ! j) (?ms ! j) (sh ! j) (input_stream_managers h2 ! j) (sh2 ! j)" by fastforce
  qed
  moreover have "\<forall>j. j \<notin> set (i # ids) \<longrightarrow> input_stream_managers h2 ! j = ?ms ! j \<and> sh2 ! j = sh ! j \<and>
      ready_timestamps h2 ! j = ready_timestamps h ! j" using g(6) rs(2) by auto
  ultimately show ?case using f(1) g(1-5) by (intro exI [of _ h2] exI [of _ sh2]) (simp add: h1_def)
qed (auto intro!: exI)

section \<open>Properties\<close>

lemma imm_inv_prepare:
  assumes "list_all enable_timestamps (input_stream_managers h)"
    and "map stream_ids (imm_sync_sets h) = map (\<lambda>i. [i]) [0 ..< length (input_stream_managers h)]"
  shows "imm_inv (Immediate_PrepareForRun h)"
proof -
  let ?n = "length (input_stream_managers h)"
  have n: "length (imm_sync_sets h) = ?n" using arg_cong [OF assms(2), of length] by simp
  have ids: "stream_ids (imm_sync_sets h ! i) = [i]" if "i < ?n" for i
    using that n arg_cong [OF assms(2), of "\<lambda>xs. xs ! i"] by simp
  have "stream_inv (ism_PrepareForRun (input_stream_managers h ! i))" if "i < ?n" for i
    using assms(1) that by (simp add: list_all_length stream_inv_prepare)
  moreover have "last_select_timestamp (ism_PrepareForRun s) = Unstarted" for s :: "'a InputStreamManager"
    by (simp add: ism_PrepareForRun_def)
  ultimately show ?thesis
    using n ids by (simp add: imm_inv_def imm_ok_def Immediate_PrepareForRun_def ish_PrepareForRun_def SyncSet_PrepareForRun_def has_id_def)
qed

text \<open>
  The immediate handler waits for nobody. In every state with its invariant the handler can be asked; without bounds processing it
  reports the node ready as soon as any stream has a packet; filling the reported timestamp succeeds,
  delivers the packets of the streams that are ready at it, gives every other stream an empty packet without touching
  it, and keeps the invariant.
\<close>

theorem immediate_handler_delivers:
  assumes "imm_inv h"
  shows "\<exists>rd t h1. Immediate_GetNodeReadiness h = Inr (rd, t, h1) \<and> imm_inv h1 \<and>
    (\<not> process_timestamps h \<and> (\<exists>s \<in> set (input_stream_managers h). ism_queue s \<noteq> []) \<longrightarrow> rd = kReadyForProcess) \<and>
    (rd = kReadyForProcess \<and> shards_fit h1 sh \<longrightarrow>
      (\<exists>h2 sh2. Immediate_FillInputSet t (h1, sh) = Inr (h2, sh2) \<and> imm_inv h2 \<and> shards_fit h2 sh2 \<and>
        (\<forall>i < length (input_stream_managers h).
           if ready_timestamps h1 ! i = t
           then synced t (input_stream_managers h ! i) (sh ! i) (input_stream_managers h2 ! i) (sh2 ! i)
           else input_stream_managers h2 ! i = input_stream_managers h ! i \<and> packet_IsEmpty (last (packet_queue (sh2 ! i))))))"
proof -
  from imm_readiness [OF assms] obtain rd t h1 where r: "Immediate_GetNodeReadiness h = Inr (rd, t, h1)" "imm_inv h1" "t \<noteq> Unset"
    "rd = kReadyForProcess \<longrightarrow> t < Done" "input_stream_managers h1 = input_stream_managers h"
    "\<not> process_timestamps h \<and> (\<exists>s \<in> set (input_stream_managers h). ism_queue s \<noteq> []) \<longrightarrow> rd = kReadyForProcess" by blast
  let ?n = "length (input_stream_managers h)"
  have fill: "\<exists>h2 sh2. Immediate_FillInputSet t (h1, sh) = Inr (h2, sh2) \<and> imm_inv h2 \<and> shards_fit h2 sh2 \<and>
      (\<forall>i < ?n. imm_post t (ready_timestamps h1 ! i) (input_stream_managers h ! i) (sh ! i) (input_stream_managers h2 ! i) (sh2 ! i))"
    if p: "rd = kReadyForProcess" "shards_fit h1 sh"
  proof -
    have i: "length (imm_sync_sets h1) = ?n" "length (ready_timestamps h1) = length (input_stream_managers h1)"
      "\<forall>i \<in> set [0 ..< ?n]. imm_ok h1 i (imm_sync_sets h1 ! i) (ready_timestamps h1 ! i)"
      using r(2,5) by (auto simp: imm_inv_def)
    from imm_run [OF distinct_upt r(3) _ p(2) i(2,3)] r(4,5) p(1) i(1) show ?thesis
      by (auto simp: Immediate_FillInputSet_def imm_inv_def)
  qed
  have "rd = kReadyForProcess \<and> shards_fit h1 sh \<longrightarrow>
      (\<exists>h2 sh2. Immediate_FillInputSet t (h1, sh) = Inr (h2, sh2) \<and> imm_inv h2 \<and> shards_fit h2 sh2 \<and>
        (\<forall>i < ?n. if ready_timestamps h1 ! i = t
           then synced t (input_stream_managers h ! i) (sh ! i) (input_stream_managers h2 ! i) (sh2 ! i)
           else input_stream_managers h2 ! i = input_stream_managers h ! i \<and> packet_IsEmpty (last (packet_queue (sh2 ! i)))))"
  proof
    assume "rd = kReadyForProcess \<and> shards_fit h1 sh"
    with fill obtain h2 sh2 where "Immediate_FillInputSet t (h1, sh) = Inr (h2, sh2)" "imm_inv h2" "shards_fit h2 sh2"
      "\<forall>i < ?n. imm_post t (ready_timestamps h1 ! i) (input_stream_managers h ! i) (sh ! i) (input_stream_managers h2 ! i) (sh2 ! i)" by blast
    then show "\<exists>h2 sh2. Immediate_FillInputSet t (h1, sh) = Inr (h2, sh2) \<and> imm_inv h2 \<and> shards_fit h2 sh2 \<and>
        (\<forall>i < ?n. if ready_timestamps h1 ! i = t
           then synced t (input_stream_managers h ! i) (sh ! i) (input_stream_managers h2 ! i) (sh2 ! i)
           else input_stream_managers h2 ! i = input_stream_managers h ! i \<and> packet_IsEmpty (last (packet_queue (sh2 ! i))))"
      by (auto simp: imm_post_def bound_only_def)
  qed
  with r show ?thesis by blast
qed

definition demo_immediate :: "int ImmediateInputStreamHandler" where
  "demo_immediate = Immediate_PrepareForRun (ImmediateInputStreamHandler_new
     [ism_Initialize ''image'' False, ism_Initialize ''landmarks'' True] (demo_contexts 2))"

theorem immediate_handler_delivers_witness:
  "\<exists>rd t h1. Immediate_GetNodeReadiness demo_immediate = Inr (rd, t, h1) \<and> imm_inv h1"
proof -
  have "imm_inv demo_immediate"
    unfolding demo_immediate_def
    by (rule imm_inv_prepare) (simp_all add: ImmediateInputStreamHandler_new_def InputStreamHandler_new_def InputStreamHandler.extend_def
        ImmediateInputStreamHandler.fields_def ism_Initialize_def ism_PrepareForRun_def SyncSet_new_def upt_rec)
  from immediate_handler_delivers [OF this] show ?thesis by blast
qed

lemma take_ids_ok:
  "take_ids lookup ns used = Inr (ids, used') \<Longrightarrow> distinct used \<Longrightarrow>
   used' = used @ ids \<and> distinct used' \<and> ids = map (the \<circ> lookup) ns \<and> None \<notin> lookup ` set ns"
proof (induction ns arbitrary: used ids)
  case (Cons n ns)
  then obtain i rest where i: "lookup n = Some i" "i \<notin> set used" "take_ids lookup ns (used @ [i]) = Inr (rest, used')" "ids = i # rest"
    by (auto split: option.splits if_splits sum.splits)
  have "distinct (used @ [i])" using Cons.prems(2) i(2) by simp
  from Cons.IH [OF i(3) this] have
    "used' = (used @ [i]) @ rest" "distinct used'" "rest = map (the \<circ> lookup) ns" "None \<notin> lookup ` set ns" by blast+
  with i(1,4) show ?case by auto
qed simp

lemma take_sets_ok:
  "take_sets lookup nss used = Inr (sets, used') \<Longrightarrow> distinct used \<Longrightarrow>
   used' = used @ concat (map stream_ids sets) \<and> distinct used' \<and> map stream_ids sets = map (map (the \<circ> lookup)) nss \<and>
   (\<forall>ns \<in> set nss. None \<notin> lookup ` set ns)"
proof (induction nss arbitrary: used sets)
  case (Cons ns nss)
  then obtain ids used1 rest where i: "take_ids lookup ns used = Inr (ids, used1)" "take_sets lookup nss used1 = Inr (rest, used')"
    "sets = SyncSet_new ids # rest" by (auto split: if_splits sum.splits)
  from take_ids_ok [OF i(1) Cons.prems(2)] have
    a: "used1 = used @ ids" "distinct used1" "ids = map (the \<circ> lookup) ns" "None \<notin> lookup ` set ns" by blast+
  from Cons.IH [OF i(2) a(2)] have
    "used' = used1 @ concat (map stream_ids rest)" "distinct used'" "map stream_ids rest = map (map (the \<circ> lookup)) nss"
    "\<forall>ns \<in> set nss. None \<notin> lookup ` set ns" by blast+
  with a i(3) show ?case by (simp add: SyncSet_new_def)
qed simp

text \<open>
  Every stream is in one set. When the options name only streams of the node, preparing for a run gives sets that are disjoint and
  together hold each stream of the node exactly once: the configured ones in their order, then one with the rest.
\<close>

theorem sync_sets_partition:
  assumes "SyncSets_PrepareForRun lookup options h = Inr h'"
    and "\<forall>ns \<in> set options. \<forall>n \<in> set ns. \<forall>i. lookup n = Some i \<longrightarrow> i < length (input_stream_managers h)"
  shows "mset (concat (map stream_ids (sync_sets h'))) = mset [0 ..< length (input_stream_managers h)] \<and>
    take (length options) (map stream_ids (sync_sets h')) = map (map (the \<circ> lookup)) options"
proof -
  let ?n = "length (input_stream_managers h)"
  from assms(1) obtain sets used where t: "take_sets lookup options [] = Inr (sets, used)"
    and h': "sync_sets h' = sets @ (let r = filter (\<lambda>i. i \<notin> set used) [0 ..< ?n] in if r = [] then [] else [SyncSet_new r])"
    by (auto simp: SyncSets_PrepareForRun_def ish_PrepareForRun_def Let_def split: sum.splits)
  from take_sets_ok [OF t] have u: "used = concat (map stream_ids sets)" "distinct used"
    "map stream_ids sets = map (map (the \<circ> lookup)) options" "\<forall>ns \<in> set options. None \<notin> lookup ` set ns" by auto
  have "set used \<subseteq> {0 ..< ?n}"
  proof
    fix i assume "i \<in> set used"
    then obtain ns n where n: "ns \<in> set options" "n \<in> set ns" "i = the (lookup n)" using u(1,3) by auto
    with u(4) have "lookup n = Some i" by (metis image_eqI option.exhaust_sel)
    with assms(2) n show "i \<in> {0 ..< ?n}" by auto
  qed
  moreover have "concat (map stream_ids (sync_sets h')) = used @ filter (\<lambda>i. i \<notin> set used) [0 ..< ?n]"
    by (simp add: h' u(1) SyncSet_new_def Let_def)
  ultimately have "distinct (concat (map stream_ids (sync_sets h')))" "set (concat (map stream_ids (sync_sets h'))) = set [0 ..< ?n]"
    using u(2) by auto
  moreover have "length sets = length options" using arg_cong [OF u(3), of length] by simp
  moreover have "mset (concat (map stream_ids (sync_sets h'))) = mset [0 ..< ?n]"
    using calculation(1,2) set_eq_iff_mset_eq_distinct [OF calculation(1) distinct_upt] by blast
  ultimately show ?thesis using u(3) by (simp add: h')
qed

definition demo_sets :: "int SyncSetInputStreamHandler" where
  "demo_sets = InputStreamHandler.extend (InputStreamHandler_new
       [ism_Initialize ''left'' False, ism_Initialize ''right'' False] (demo_contexts 2))
     (SyncSetInputStreamHandler.fields [] (- 1) Done)"

theorem sync_sets_partition_witness:
  "\<exists>h'. SyncSets_PrepareForRun (\<lambda>n. if n = ''LEFT'' then Some 0 else None) [[''LEFT'']] demo_sets = Inr h' \<and>
     mset (concat (map stream_ids (sync_sets h'))) = {#0, 1#}"
proof -
  let ?l = "\<lambda>n. if n = ''LEFT'' then Some 0 else None"
  have n: "length (input_stream_managers demo_sets) = 2"
    by (simp add: demo_sets_def InputStreamHandler.extend_def InputStreamHandler_new_def)
  obtain h' where h': "SyncSets_PrepareForRun ?l [[''LEFT'']] demo_sets = Inr h'" by (simp add: SyncSets_PrepareForRun_def Let_def)
  have "mset (concat (map stream_ids (sync_sets h'))) = mset [0 ..< 2]"
    using sync_sets_partition [OF h'] unfolding n by auto
  also have "mset [0 ..< 2] = {#0, 1 :: nat#}" by (simp add: upt_rec)
  finally show ?thesis using h' by blast
qed

text \<open>Two sets over one stream each, both with a packet; timestamp bounds are processed.\<close>

definition stranded_sets :: "int SyncSetInputStreamHandler" where
  "stranded_sets = InputStreamHandler.extend ((InputStreamHandler_new
       [enqueue \<lparr>pkt_ts = Ts 3, pkt_data = Some 1\<rparr> (ism_Initialize ''left'' False),
        enqueue \<lparr>pkt_ts = Ts 5, pkt_data = Some 2\<rparr> (ism_Initialize ''right'' False)] (demo_contexts 2))\<lparr>process_timestamps := True\<rparr>)
     (SyncSetInputStreamHandler.fields [SyncSet_new [0], SyncSet_new [1]] (- 1) Done)"

definition after_round :: "int SyncSetInputStreamHandler" where
  "after_round = stranded_sets\<lparr>input_stream_managers :=
       [(input_stream_managers stranded_sets ! 0)\<lparr>ism_queue := [], last_select_timestamp := Ts 3\<rparr>, input_stream_managers stranded_sets ! 1],
     sync_sets := [SyncSet_new [0]\<lparr>last_processed_ts := Ts 3\<rparr>, SyncSet_new [1]\<lparr>last_processed_ts := Ts 5\<rparr>]\<rparr>"

lemmas stranded_defs = stranded_sets_def after_round_def InputStreamHandler.extend_def SyncSetInputStreamHandler.fields_def
  InputStreamHandler_new_def enqueue_def ism_Initialize_def ism_PrepareForRun_def SyncSet_new_def

text \<open>
  A packet is stranded. Asking a set for readiness marks its timestamp as processed even when another set is served first. When bounds
  are processed, the set that had to wait is then never ready again for that timestamp: here the second stream's
  packet at 5 is settled and stays in its queue, yet after the first stream's packet at 3 was delivered the node is
  reported not ready.
\<close>

theorem sync_sets_strand_packet:
  "\<exists>h1 sh2. SyncSets_GetNodeReadiness stranded_sets = Inr (kReadyForProcess, Ts 3, h1) \<and>
     SyncSets_FillInputSet (Ts 3) (h1, [InputStreamShard_new, InputStreamShard_new]) = Inr (after_round, sh2) \<and>
     map pkt_ts (ism_queue (input_stream_managers after_round ! 1)) = [Ts 5] \<and>
     Ts 5 < next_timestamp_bound (input_stream_managers after_round ! 1) \<and>
     (\<exists>t. SyncSets_GetNodeReadiness after_round = Inr (kNotReady, t, after_round))"
proof -
  let ?h1 = "stranded_sets\<lparr>sync_sets := [SyncSet_new [0]\<lparr>last_processed_ts := Ts 3\<rparr>, SyncSet_new [1]\<lparr>last_processed_ts := Ts 5\<rparr>],
    ready_sync_set_index := 0, ready_timestamp := Ts 3\<rparr>"
  have r1: "SyncSets_GetNodeReadiness stranded_sets = Inr (kReadyForProcess, Ts 3, ?h1)"
    by (simp add: SyncSets_GetNodeReadiness_def GetReadiness_def ids_ok_def has_id_def stranded_defs MinTimestampOrBound_def Let_def
        special_defs prev_ts_eq min_def max_def)
  have r2: "\<exists>t. SyncSets_GetNodeReadiness after_round = Inr (kNotReady, t, after_round)"
    by (simp add: SyncSets_GetNodeReadiness_def GetReadiness_def ids_ok_def has_id_def stranded_defs MinTimestampOrBound_def Let_def
        special_defs prev_ts_eq next_ts_eq min_def max_def)
  have f: "\<exists>sh2. SyncSets_FillInputSet (Ts 3) (?h1, [InputStreamShard_new, InputStreamShard_new]) = Inr (after_round, sh2)"
    by (simp add: SyncSets_FillInputSet_def SyncSet_FillInputSet_def fill_stream_def FillInputBounds_def fill_bound_def has_id_def
        stranded_defs IsAllowedInStream_def PopPacketAtTimestamp_def MinTimestampOrBound_def shard_AddPacket_def InputStreamShard_new_def
        ism_IsDone_def ism_IsFull_def call_def put_stream_def packet_At_def empty_packet_def packet_IsEmpty_def Let_def
        special_defs prev_ts_eq next_ts_eq upt_rec)
  have q: "map pkt_ts (ism_queue (input_stream_managers after_round ! 1)) = [Ts 5]"
    "Ts 5 < next_timestamp_bound (input_stream_managers after_round ! 1)"
    by (simp_all add: stranded_defs next_ts_eq special_defs)
  from f obtain sh2 where f2: "SyncSets_FillInputSet (Ts 3) (?h1, [InputStreamShard_new, InputStreamShard_new]) = Inr (after_round, sh2)" ..
  show ?thesis by (rule exI, rule exI, intro conjI, rule r1, rule f2, rule q(1), rule q(2), rule r2)
qed

end
