(* ===== verification/Mux_Handler.thy ===== *)
theory Mux_Handler
  imports Input_Handler
begin

text \<open>
  \<^verbatim>\<open>stream_handler/mux_input_stream_handler.cc\<close>: the last input stream selects, by an integer in each of its packets, the data stream whose packet at the
  same timestamp is passed on; the other data streams are discarded up to that timestamp.  Reading the
  integer out of a payload is a parameter; it fails on another type.
\<close>

section \<open>Operations\<close>

text \<open>The control value of a packet, with the checks on it: the packet has a payload of type \<^verbatim>\<open>int\<close>, in the range of the data streams.\<close>

definition control_value :: "('a \<Rightarrow> int option) \<Rightarrow> nat \<Rightarrow> 'a packet \<Rightarrow> ts_error + nat" where
  "control_value get_int control p =
     (case pkt_data p of
        None \<Rightarrow> Inl CheckFailed
      | Some x \<Rightarrow>
          (case get_int x of
             None \<Rightarrow> Inl CheckFailed
           | Some v \<Rightarrow> if 0 \<le> v \<and> v < int control then Inr (nat v) else Inl CheckFailed))"

definition Mux_GetNodeReadiness :: "('a \<Rightarrow> int option) \<Rightarrow> ('a, 'b) readiness_fun" where
  "Mux_GetNodeReadiness get_int h =
     (if input_stream_managers h = [] then Inl CheckFailed
      else
        let control = length (input_stream_managers h) - 1;
            (min_stream_timestamp, e) = MinTimestampOrBound (input_stream_managers h ! control)
        in if e then Inr (if min_stream_timestamp = Done then kReadyForClose else kNotReady, min_stream_timestamp, h)
           else case control_value get_int control (ism_QueueHead (input_stream_managers h ! control)) of
                  Inl er \<Rightarrow> Inl er
                | Inr v \<Rightarrow>
                    (case ErasePacketsEarlierThan min_stream_timestamp (input_stream_managers h ! v) of
                       (ev, s) \<Rightarrow>
                         (let h1 = call (map (QueueSizeCallback v) ev) (put_stream v s h);
                              (stream_timestamp, de) = MinTimestampOrBound s
                          in if de then Inr (if stream_timestamp \<le> min_stream_timestamp then kNotReady else kReadyForProcess,
                                             min_stream_timestamp, h1)
                             else if min_stream_timestamp < stream_timestamp then Inr (kReadyForProcess, min_stream_timestamp, h1)
                             else if stream_timestamp \<noteq> min_stream_timestamp then Inl CheckFailed
                             else Inr (kReadyForProcess, min_stream_timestamp, h1))))"

text \<open>The packet popped from the control stream is the one put last into its shard.\<close>

definition Mux_FillInputSet :: "('a \<Rightarrow> int option) \<Rightarrow> ('a, 'b) fill_fun" where
  "Mux_FillInputSet get_int t hs =
     (if \<not> IsAllowedInStream t \<or> input_stream_managers (fst hs) = [] then Inl CheckFailed
      else
        let control = length (input_stream_managers (fst hs)) - 1
        in case fill_stream t control hs of
             Inl e \<Rightarrow> Inl e
           | Inr (h1, sh1) \<Rightarrow>
               (case control_value get_int control (last (packet_queue (sh1 ! control))) of
                  Inl e \<Rightarrow> Inl e
                | Inr v \<Rightarrow>
                    (case fill_stream t v (h1, sh1) of
                       Inl e \<Rightarrow> Inl e
                     | Inr (h2, sh2) \<Rightarrow>
                         Inr (fold (erase_stream (next_ts t)) (filter (\<lambda>i. i \<noteq> v) [0 ..< control]) h2, sh2))))"

section \<open>Invariant\<close>

text \<open>
  The streams are in order, every control packet selects a data stream, and no data stream was selected later than the control stream.
\<close>

definition mux_inv :: "('a \<Rightarrow> int option) \<Rightarrow> ('a, 'b) InputStreamHandler_scheme \<Rightarrow> bool" where
  "mux_inv get_int h \<longleftrightarrow> input_stream_managers h \<noteq> [] \<and>
     (let control = length (input_stream_managers h) - 1
      in (\<forall>i \<le> control. stream_inv (input_stream_managers h ! i) \<and>
            last_select_timestamp (input_stream_managers h ! i) \<le> last_select_timestamp (input_stream_managers h ! control)) \<and>
         (\<forall>p \<in> set (ism_queue (input_stream_managers h ! control)). \<exists>v. control_value get_int control p = Inr v))"

lemma control_value_range: "control_value get_int c p = Inr v \<Longrightarrow> v < c"
  by (auto simp: control_value_def split: option.splits if_splits)

lemma erase_head:
  assumes "stream_inv s" "t < next_timestamp_bound s \<or> ism_queue (snd (ErasePacketsEarlierThan t s)) \<noteq> []"
  shows "t \<le> fst (MinTimestampOrBound (snd (ErasePacketsEarlierThan t s)))"
proof (cases "ism_queue (snd (ErasePacketsEarlierThan t s))")
  case Nil
  then show ?thesis using assms(2) by (simp add: MinTimestampOrBound_def erase_frame)
next
  case (Cons p q)
  then have "p \<in> set (filter (\<lambda>p. t \<le> pkt_ts p) (ism_queue s))" using erase_queue [OF assms(1), of t] by (metis list.set_intros(1))
  then show ?thesis using Cons by (simp add: MinTimestampOrBound_def)
qed

text \<open>A node that is ready: the control value, the timestamp and the state after erasing.\<close>

lemma mux_ready:
  assumes inv: "mux_inv get_int h" and rd: "Mux_GetNodeReadiness get_int h = Inr (kReadyForProcess, t, h1)"
  defines "control \<equiv> length (input_stream_managers h) - 1"
  shows "\<exists>v s cs. ism_queue (input_stream_managers h ! control) \<noteq> [] \<and> t = pkt_ts (hd (ism_queue (input_stream_managers h ! control))) \<and>
    control_value get_int control (hd (ism_queue (input_stream_managers h ! control))) = Inr v \<and> v < control \<and>
    s = snd (ErasePacketsEarlierThan t (input_stream_managers h ! v)) \<and> h1 = call cs (put_stream v s h) \<and> t \<le> fst (MinTimestampOrBound s)"
proof -
  let ?ms = "input_stream_managers h"
  have ne: "?ms \<noteq> []" using inv by (simp add: mux_inv_def)
  have q: "ism_queue (?ms ! control) \<noteq> []"
    using rd ne by (auto simp: Mux_GetNodeReadiness_def control_def MinTimestampOrBound_def Let_def split: if_splits list.splits)
  then obtain p ps where pq: "ism_queue (?ms ! control) = p # ps" by (cases "ism_queue (?ms ! control)") auto
  obtain v where v: "control_value get_int control p = Inr v"
    using inv pq by (auto simp: mux_inv_def control_def Let_def)
  then have vc: "v < control" by (rule control_value_range)
  obtain ev s where es: "ErasePacketsEarlierThan (pkt_ts p) (?ms ! v) = (ev, s)" by force
  have si: "stream_inv (?ms ! v)" using inv vc by (simp add: mux_inv_def Let_def control_def)
  have r: "t = pkt_ts p" "h1 = call (map (QueueSizeCallback v) ev) (put_stream v s h)"
    and ok: "ism_queue s \<noteq> [] \<or> t < next_timestamp_bound s"
    using rd ne pq v es
    by (auto simp: Mux_GetNodeReadiness_def control_def [unfolded One_nat_def, symmetric] MinTimestampOrBound_def ism_QueueHead_def Let_def split: if_splits list.splits)
  have s: "s = snd (ErasePacketsEarlierThan t (?ms ! v))" using es r(1) by simp
  then have "t \<le> fst (MinTimestampOrBound s)" using erase_head [OF si, of t] ok erase_frame(2) [of t "?ms ! v"] by auto
  with pq v vc r s show ?thesis by auto
qed

text \<open>The two selections of a round, before the other streams are erased.\<close>

lemma mux_fill:
  assumes inv: "mux_inv get_int h" and rd: "Mux_GetNodeReadiness get_int h = Inr (kReadyForProcess, t, h1)" and fit: "shards_fit h1 sh"
  defines "control \<equiv> length (input_stream_managers h) - 1"
  shows "\<exists>v s s1 s2 x1 x2 h2. t = pkt_ts (hd (ism_queue (input_stream_managers h ! control))) \<and>
    control_value get_int control (hd (ism_queue (input_stream_managers h ! control))) = Inr v \<and> v < control \<and>
    input_stream_managers h1 = (input_stream_managers h)[v := s] \<and>
    Mux_FillInputSet get_int t (h1, sh) =
      Inr (fold (erase_stream (next_ts t)) (filter (\<lambda>i. i \<noteq> v) [0 ..< control]) h2, sh[control := x1, v := x2]) \<and>
    input_stream_managers h2 = (input_stream_managers h)[control := s1, v := s2] \<and> length sh = Suc control \<and>
    ism_queue (input_stream_managers h ! control) \<noteq> [] \<and>
    synced t (input_stream_managers h ! control) (sh ! control) s1 x1 \<and> synced t s (sh ! v) s2 x2"
proof -
  let ?ms = "input_stream_managers h"
  from mux_ready [OF inv rd] obtain v s cs where
    q: "ism_queue (?ms ! control) \<noteq> []" "t = pkt_ts (hd (ism_queue (?ms ! control)))"
      "control_value get_int control (hd (ism_queue (?ms ! control))) = Inr v" "v < control"
    and s: "s = snd (ErasePacketsEarlierThan t (?ms ! v))" "h1 = call cs (put_stream v s h)" "t \<le> fst (MinTimestampOrBound s)"
    unfolding control_def by blast
  have n: "length ?ms = Suc control" using inv by (auto simp: mux_inv_def control_def)
  have iv: "\<forall>i \<le> control. stream_inv (?ms ! i) \<and> last_select_timestamp (?ms ! i) \<le> last_select_timestamp (?ms ! control)"
    using inv by (auto simp: mux_inv_def control_def Let_def)
  have t: "IsAllowedInStream t" "last_select_timestamp (?ms ! control) < t" "t \<le> fst (MinTimestampOrBound (?ms ! control))"
    using iv q(1,2) by (auto simp: stream_inv_def MinTimestampOrBound_def split: list.splits)
  have ms1: "input_stream_managers h1 = ?ms[v := s]" by (simp add: s(2))
  have "stream_inv (?ms ! v)" "last_select_timestamp (?ms ! v) < t" using iv q(4) t(2) by (auto dest: spec [of _ v])
  then have sv: "stream_inv s" "last_select_timestamp s < t" by (simp_all add: s(1) stream_inv_erase erase_frame)
  have shl: "length sh = Suc control" "\<And>i. i < length sh \<Longrightarrow> shard_ok (input_stream_managers h1 ! i) (sh ! i)"
    using fit n by (auto simp: shards_fit_def ms1)
  have so: "shard_ok (?ms ! control) (sh ! control)" "shard_ok s (sh ! v)"
    using shl(2) [of control] shl(2) [of v] q(4) n shl(1) by (simp_all add: ms1)
  have c: "has_id control h1" "control < length sh" "selectable_at t (input_stream_managers h1 ! control) (sh ! control)"
    using n shl(1) so q(4) t iv by (auto simp: has_id_def ms1 selectable_at_def)
  from fill_at.step_ok [OF c] obtain s1 x1 c1 where f1: "fill_stream t control (h1, sh) = Inr (call c1 (put_stream control s1 h1), sh[control := x1])"
    "synced t (?ms ! control) (sh ! control) s1 x1" using q(4) by (auto simp: ms1)
  let ?h1 = "call c1 (put_stream control s1 h1)" and ?sh1 = "sh[control := x1]"
  have d: "has_id v ?h1" "v < length ?sh1" "selectable_at t (input_stream_managers ?h1 ! v) (?sh1 ! v)"
    using n shl(1) so q(4) t sv s(3) by (auto simp: has_id_def ms1 selectable_at_def)
  from fill_at.step_ok [OF d] obtain s2 x2 c2 where f2: "fill_stream t v (?h1, ?sh1) = Inr (call c2 (put_stream v s2 ?h1), ?sh1[v := x2])"
    "synced t s (sh ! v) s2 x2" using q(4) n by (auto simp: ms1)
  have "last (packet_queue (?sh1 ! control)) = hd (ism_queue (?ms ! control))" using f1(2) q(1,2) c(2) by (auto simp: synced_def)
  moreover have "length (input_stream_managers h1) - 1 = control" "input_stream_managers h1 \<noteq> []" using n by (auto simp: ms1)
  ultimately have "Mux_FillInputSet get_int t (h1, sh) =
      Inr (fold (erase_stream (next_ts t)) (filter (\<lambda>i. i \<noteq> v) [0 ..< control]) (call c2 (put_stream v s2 ?h1)), ?sh1[v := x2])"
    using t(1) f1(1) f2(1) q(3) by (simp add: Mux_FillInputSet_def Let_def)
  moreover have "input_stream_managers (call c2 (put_stream v s2 ?h1)) = ?ms[control := s1, v := s2]"
    using q(4) by (simp add: ms1 list_update_swap [of v control])
  ultimately show ?thesis using q f1(2) f2(2) ms1 shl(1) by blast
qed

section \<open>Properties\<close>

text \<open>
  The multiplexer selects. When a multiplexing node is ready at \<open>t\<close>, \<open>t\<close> is the timestamp of the first control packet; filling passes
  that control packet on, and from the data stream it names the packet at \<open>t\<close> or an empty one; every other data stream
  contributes nothing and loses exactly its packets before the next timestamp allowed after \<open>t\<close>; no check can fail and the invariant holds again.
\<close>

theorem mux_selects:
  assumes inv: "mux_inv get_int h" and rd: "Mux_GetNodeReadiness get_int h = Inr (kReadyForProcess, t, h1)" and fit: "shards_fit h1 sh"
  defines "control \<equiv> length (input_stream_managers h) - 1"
  shows "\<exists>v h2 sh2. t = pkt_ts (hd (ism_queue (input_stream_managers h ! control))) \<and>
    control_value get_int control (hd (ism_queue (input_stream_managers h ! control))) = Inr v \<and>
    Mux_FillInputSet get_int t (h1, sh) = Inr (h2, sh2) \<and> mux_inv get_int h2 \<and>
    last (packet_queue (sh2 ! control)) = hd (ism_queue (input_stream_managers h ! control)) \<and>
    synced t (input_stream_managers h1 ! v) (sh ! v) (input_stream_managers h2 ! v) (sh2 ! v) \<and>
    (\<forall>i < control. i \<noteq> v \<longrightarrow> sh2 ! i = sh ! i \<and>
       ism_queue (input_stream_managers h2 ! i) = filter (\<lambda>p. next_ts t \<le> pkt_ts p) (ism_queue (input_stream_managers h ! i)))"
proof -
  let ?ms = "input_stream_managers h"
  from mux_fill [OF inv rd fit] obtain v s s1 s2 x1 x2 h2 where
    f: "t = pkt_ts (hd (ism_queue (?ms ! control)))" "control_value get_int control (hd (ism_queue (?ms ! control))) = Inr v" "v < control"
      "input_stream_managers h1 = ?ms[v := s]"
      "Mux_FillInputSet get_int t (h1, sh) =
        Inr (fold (erase_stream (next_ts t)) (filter (\<lambda>i. i \<noteq> v) [0 ..< control]) h2, sh[control := x1, v := x2])"
      "input_stream_managers h2 = ?ms[control := s1, v := s2]" "length sh = Suc control" "ism_queue (?ms ! control) \<noteq> []"
      "synced t (?ms ! control) (sh ! control) s1 x1" "synced t s (sh ! v) s2 x2" unfolding control_def by blast
  have n: "length ?ms = Suc control" using inv by (auto simp: mux_inv_def control_def)
  have iv: "\<forall>i \<le> control. stream_inv (?ms ! i) \<and> last_select_timestamp (?ms ! i) \<le> last_select_timestamp (?ms ! control)"
    and cv: "\<forall>p \<in> set (ism_queue (?ms ! control)). \<exists>v. control_value get_int control p = Inr v"
    using inv by (auto simp: mux_inv_def control_def Let_def)
  define h3 where "h3 = fold (erase_stream (next_ts t)) (filter (\<lambda>i. i \<noteq> v) [0 ..< control]) h2"
  have m3: "length (input_stream_managers h3) = Suc control" "input_stream_managers h3 ! v = s2" "input_stream_managers h3 ! control = s1"
    "\<And>i. i < control \<Longrightarrow> i \<noteq> v \<Longrightarrow> input_stream_managers h3 ! i = snd (ErasePacketsEarlierThan (next_ts t) (?ms ! i))"
    using fold_erase [of "filter (\<lambda>i. i \<noteq> v) [0 ..< control]" h2 "next_ts t"] n f(3) by (auto simp: h3_def f(6))
  have a: "stream_inv s1" "last_select_timestamp s1 = t" "stream_inv s2" "last_select_timestamp s2 = t"
    "ism_queue s1 = tl (ism_queue (?ms ! control))" "last (packet_queue x1) = hd (ism_queue (?ms ! control))"
    using f(1,8-10) by (simp_all add: synced_def)
  have lt: "last_select_timestamp (?ms ! control) < t" using iv f(1,8) by (auto simp: stream_inv_def)
  have ok: "stream_inv (input_stream_managers h3 ! i) \<and> last_select_timestamp (input_stream_managers h3 ! i) \<le> t" if "i \<le> control" for i
  proof (cases "i = v \<or> i = control")
    case True
    then show ?thesis using a m3(2,3) by auto
  next
    case False
    then have i: "i < control" "i \<noteq> v" using that by auto
    have "stream_inv (?ms ! i)" "last_select_timestamp (?ms ! i) \<le> t" using iv that lt by (auto intro: less_imp_le order.strict_trans1)
    then show ?thesis using m3(4) [OF i] by (simp add: stream_inv_erase erase_frame)
  qed
  have "set (ism_queue s1) \<subseteq> set (ism_queue (?ms ! control))" unfolding a(5) using f(8) by (auto dest: list.set_sel(2))
  moreover have "length (input_stream_managers h3) - 1 = control" "input_stream_managers h3 \<noteq> []" using m3(1) by auto
  ultimately have "mux_inv get_int h3" using ok cv m3(3) a(2) by (auto simp: mux_inv_def Let_def)
  moreover have "\<forall>i < control. i \<noteq> v \<longrightarrow> sh[control := x1, v := x2] ! i = sh ! i \<and>
      ism_queue (input_stream_managers h3 ! i) = filter (\<lambda>p. next_ts t \<le> pkt_ts p) (ism_queue (?ms ! i))"
    using m3(4) iv by (simp add: erase_queue less_imp_le)
  ultimately show ?thesis
    using f(1-5,7,10) a(6) m3(2) n by (intro exI [of _ v] exI [of _ h3] exI [of _ "sh[control := x1, v := x2]"]) (simp add: h3_def)
qed

text \<open>Two data streams and a control packet that selects the second.\<close>

definition demo_mux :: "int InputStreamHandler" where
  "demo_mux = InputStreamHandler_new
     (map (\<lambda>(n, x). enqueue \<lparr>pkt_ts = Ts 5, pkt_data = Some x\<rparr> (ism_Initialize n False)) [(''a'', 10), (''b'', 20), (''select'', 1)])
     (demo_contexts 3)"

lemma demo_mux_inv: "mux_inv Some demo_mux"
proof -
  have "stream_inv (enqueue \<lparr>pkt_ts = Ts 5, pkt_data = Some x\<rparr> (ism_Initialize n False))" for x :: int and n
    by (simp add: enqueue_def ism_Initialize_def ism_PrepareForRun_def stream_inv_def queue_sorted_def IsAllowedInStream_def special_defs next_ts_eq)
  then have "stream_inv (input_stream_managers demo_mux ! 0)" "stream_inv (input_stream_managers demo_mux ! Suc 0)"
    "stream_inv (input_stream_managers demo_mux ! Suc (Suc 0))" by (simp_all add: demo_mux_def InputStreamHandler_new_def)
  moreover have "last_select_timestamp (input_stream_managers demo_mux ! i) = Unstarted" if "i \<in> {0, Suc 0, Suc (Suc 0)}" for i
    using that by (auto simp: demo_mux_def InputStreamHandler_new_def enqueue_def ism_Initialize_def ism_PrepareForRun_def)
  moreover have "(\<forall>i \<le> Suc (Suc 0). P i) \<longleftrightarrow> P 0 \<and> P (Suc 0) \<and> P (Suc (Suc 0))" for P by (auto simp: le_Suc_eq)
  moreover have "length (input_stream_managers demo_mux) - 1 = Suc (Suc 0)" "input_stream_managers demo_mux \<noteq> []"
    "ism_queue (input_stream_managers demo_mux ! Suc (Suc 0)) = [\<lparr>pkt_ts = Ts 5, pkt_data = Some 1\<rparr>]"
    by (simp_all add: demo_mux_def InputStreamHandler_new_def enqueue_def ism_Initialize_def ism_PrepareForRun_def)
  ultimately show ?thesis by (simp add: mux_inv_def Let_def control_value_def)
qed

theorem mux_selects_witness:
  "\<exists>t h1 v h2 sh2. Mux_GetNodeReadiness Some demo_mux = Inr (kReadyForProcess, t, h1) \<and>
     Mux_FillInputSet Some t (h1, replicate 3 InputStreamShard_new) = Inr (h2, sh2) \<and> v = (1 :: nat) \<and>
     pkt_data (last (packet_queue (sh2 ! v))) = Some 20"
proof -
  let ?ms = "input_stream_managers demo_mux"
  have q: "ism_queue (?ms ! 0) = [\<lparr>pkt_ts = Ts 5, pkt_data = Some 10\<rparr>]" "ism_queue (?ms ! 1) = [\<lparr>pkt_ts = Ts 5, pkt_data = Some 20\<rparr>]"
    "ism_queue (?ms ! 2) = [\<lparr>pkt_ts = Ts 5, pkt_data = Some 1\<rparr>]" "length ?ms = 3"
    by (simp_all add: demo_mux_def InputStreamHandler_new_def enqueue_def ism_Initialize_def ism_PrepareForRun_def)
  obtain h1 where r: "Mux_GetNodeReadiness Some demo_mux = Inr (kReadyForProcess, Ts 5, h1)"
    by (simp add: Mux_GetNodeReadiness_def demo_mux_def InputStreamHandler_new_def enqueue_def ism_Initialize_def ism_PrepareForRun_def
        MinTimestampOrBound_def ism_QueueHead_def control_value_def ErasePacketsEarlierThan_def Let_def)
  have v: "control_value Some 2 (hd (ism_queue (?ms ! 2))) = Inr 1" by (simp add: q control_value_def)
  from mux_ready [OF demo_mux_inv r] v q obtain s cs where h1: "h1 = call cs (put_stream 1 s demo_mux)"
    "s = snd (ErasePacketsEarlierThan (Ts 5) (?ms ! 1))" by (auto simp: numeral_2_eq_2)
  have m1: "input_stream_managers h1 = ?ms[1 := s]" "ism_queue s = [\<lparr>pkt_ts = Ts 5, pkt_data = Some 20\<rparr>]"
    using q(2) by (simp_all add: h1 ErasePacketsEarlierThan_def Let_def)
  have "shards_fit h1 (replicate 3 InputStreamShard_new)" by (simp add: shards_fit_def m1 q shard_ok_def InputStreamShard_new_def)
  from mux_selects [OF demo_mux_inv r this] v q obtain h2 sh2 where
    "Mux_FillInputSet Some (Ts 5) (h1, replicate 3 InputStreamShard_new) = Inr (h2, sh2)"
    "synced (Ts 5) (input_stream_managers h1 ! 1) (replicate 3 InputStreamShard_new ! 1) (input_stream_managers h2 ! 1) (sh2 ! 1)"
    by (auto simp: numeral_2_eq_2)
  with r m1 q show ?thesis by (auto simp: synced_def)
qed

end
