(* ===== verification/Fixed_Size_Handler.thy ===== *)
theory Fixed_Size_Handler
  imports Input_Handler
begin

text \<open>
  \<^verbatim>\<open>stream_handler/fixed_size_input_stream_handler.cc\<close>: the default handler with bounded queues. When a queue reaches the trigger size, the oldest packets
  are erased from all streams, up to one common timestamp.  \<^verbatim>\<open>int32\<close> sizes do not overflow here.
\<close>

section \<open>Operations\<close>

record 'a FixedSizeInputStreamHandler = "'a DefaultInputStreamHandler" +
  trigger_queue_size :: int
  target_queue_size :: int
  fixed_min_size :: bool
  pending :: bool
  kept_timestamp :: Timestamp

definition erase_all :: "Timestamp \<Rightarrow> ('a, 'b) InputStreamHandler_scheme \<Rightarrow> ('a, 'b) InputStreamHandler_scheme" where
  "erase_all t h = fold (erase_stream t) [0 ..< length (input_stream_managers h)] h"

text \<open>The loop of \<^verbatim>\<open>EraseAllSurplus\<close>: \<open>None\<close> when a queue is below the trigger size.\<close>

fun surplus_scan :: "int \<Rightarrow> int \<Rightarrow> 'a InputStreamManager list \<Rightarrow> Timestamp \<Rightarrow> ts_error + Timestamp option" where
  "surplus_scan trigger target [] t = Inr (Some t)"
| "surplus_scan trigger target (s # ms) t =
     (if int (length (ism_queue s)) < trigger then Inr None
      else case GetMinTimestampAmongNLatest target s of
             Inl e \<Rightarrow> Inl e
           | Inr m \<Rightarrow> surplus_scan trigger target ms (min t m))"

definition EraseAllSurplus ::
  "('a, 'b) FixedSizeInputStreamHandler_scheme \<Rightarrow> ts_error + ('a, 'b) FixedSizeInputStreamHandler_scheme" where
  "EraseAllSurplus h =
     (case surplus_scan (trigger_queue_size h) (target_queue_size h) (input_stream_managers h) Timestamp.Max of
        Inl e \<Rightarrow> Inl e
      | Inr None \<Rightarrow> Inr h
      | Inr (Some t) \<Rightarrow> Inr (erase_all t h))"

definition fixed_PreviousAllowedInStream :: "Timestamp \<Rightarrow> ts_error + Timestamp" where
  "fixed_PreviousAllowedInStream bound = (if IsRangeValue bound then ts_sub bound 1 else Inr bound)"

fun min_stream_bound :: "'a InputStreamManager list \<Rightarrow> Timestamp \<Rightarrow> ts_error + Timestamp" where
  "min_stream_bound [] b = Inr b"
| "min_stream_bound (s # ms) b =
     (case GetMinTimestampAmongNLatest 1 s of
        Inl e \<Rightarrow> Inl e
      | Inr m \<Rightarrow> min_stream_bound ms (min b (if Unset < m then next_ts m else fst (MinTimestampOrBound s))))"

definition MinStreamBound :: "('a, 'b) InputStreamHandler_scheme \<Rightarrow> ts_error + Timestamp" where
  "MinStreamBound h = min_stream_bound (input_stream_managers h) Done"

fun min_to_process :: "'a InputStreamManager list \<Rightarrow> Timestamp \<Rightarrow> ts_error + Timestamp" where
  "min_to_process [] b = Inr b"
| "min_to_process (s # ms) b =
     (case MinTimestampOrBound s of (t, e) \<Rightarrow>
        case (if e then fixed_PreviousAllowedInStream t else Inr t) of
          Inl er \<Rightarrow> Inl er
        | Inr u \<Rightarrow> min_to_process ms (min b u))"

definition MinTimestampToProcess :: "('a, 'b) InputStreamHandler_scheme \<Rightarrow> ts_error + Timestamp" where
  "MinTimestampToProcess h = min_to_process (input_stream_managers h) Done"

text \<open>The first loop of \<^verbatim>\<open>EraseAnySurplus\<close>, over the latest first kept timestamp.\<close>

definition kept_size :: "int \<Rightarrow> int \<Rightarrow> 'a InputStreamManager \<Rightarrow> int" where
  "kept_size trigger target s = (if trigger \<le> int (length (ism_queue s)) then target else trigger - 1)"

fun kept_scan :: "int \<Rightarrow> int \<Rightarrow> 'a InputStreamManager list \<Rightarrow> Timestamp \<Rightarrow> ts_error + Timestamp" where
  "kept_scan trigger target [] k = Inr k"
| "kept_scan trigger target (s # ms) k =
     (let queue_size = kept_size trigger target s
      in if queue_size < int (length (ism_queue s))
         then case GetMinTimestampAmongNLatest (queue_size + 1) s of
                Inl e \<Rightarrow> Inl e
              | Inr m \<Rightarrow> kept_scan trigger target ms (max k (next_ts m))
         else kept_scan trigger target ms k)"

definition EraseAnySurplus ::
  "bool \<Rightarrow> ('a, 'b) FixedSizeInputStreamHandler_scheme \<Rightarrow> ts_error + ('a, 'b) FixedSizeInputStreamHandler_scheme" where
  "EraseAnySurplus keep_one h =
     (case kept_scan (trigger_queue_size h) (target_queue_size h) (input_stream_managers h) (kept_timestamp h) of
        Inl e \<Rightarrow> Inl e
      | Inr k \<Rightarrow>
          (case (if keep_one then (case MinStreamBound h of Inl e \<Rightarrow> Inl e | Inr b \<Rightarrow> fixed_PreviousAllowedInStream b) else Inr k) of
             Inl e \<Rightarrow> Inl e
           | Inr p \<Rightarrow> Inr (erase_all (min k p) (h\<lparr>kept_timestamp := min k p\<rparr>))))"

definition EraseSurplusPackets ::
  "bool \<Rightarrow> ('a, 'b) FixedSizeInputStreamHandler_scheme \<Rightarrow> ts_error + ('a, 'b) FixedSizeInputStreamHandler_scheme" where
  "EraseSurplusPackets keep_one h = (if fixed_min_size h then EraseAllSurplus h else EraseAnySurplus keep_one h)"

text \<open>The loop of \<^verbatim>\<open>GetNodeReadiness\<close>; \<open>None\<close> when it does not end.\<close>

partial_function (option) fixed_ready_loop ::
  "NodeReadiness \<Rightarrow> Timestamp \<Rightarrow> ('a, 'b) FixedSizeInputStreamHandler_scheme
    \<Rightarrow> (ts_error + (NodeReadiness \<times> Timestamp \<times> ('a, 'b) FixedSizeInputStreamHandler_scheme)) option" where
  "fixed_ready_loop rd t h =
     (if t < kept_timestamp h \<and> rd = kReadyForProcess
      then case EraseSurplusPackets False h of
             Inl e \<Rightarrow> Some (Inl e)
           | Inr h1 \<Rightarrow>
               (case Default_GetNodeReadiness h1 of
                  Inl e \<Rightarrow> Some (Inl e)
                | Inr (rd', t', h2) \<Rightarrow> fixed_ready_loop rd' t' h2)
      else Some (Inr (rd, t, h)))"

text \<open>While an input set is pending the caller's timestamp is left as it was: it is an argument.\<close>

definition FixedSize_GetNodeReadiness ::
  "Timestamp \<Rightarrow> ('a, 'b) FixedSizeInputStreamHandler_scheme
    \<Rightarrow> (ts_error + (NodeReadiness \<times> Timestamp \<times> ('a, 'b) FixedSizeInputStreamHandler_scheme)) option" where
  "FixedSize_GetNodeReadiness t0 h =
     (if pending h then Some (Inr (kNotReady, t0, h))
      else case EraseSurplusPackets False h of
             Inl e \<Rightarrow> Some (Inl e)
           | Inr h1 \<Rightarrow>
               (case Default_GetNodeReadiness h1 of
                  Inl e \<Rightarrow> Some (Inl e)
                | Inr (rd, t, h2) \<Rightarrow>
                    (case fixed_ready_loop rd t h2 of
                       None \<Rightarrow> None
                     | Some (Inl e) \<Rightarrow> Some (Inl e)
                     | Some (Inr (rd', t', h3)) \<Rightarrow> Some (Inr (rd', t', h3\<lparr>pending := (rd' = kReadyForProcess)\<rparr>)))))"

definition FixedSize_AddPackets ::
  "('a packet \<Rightarrow> bool) \<Rightarrow> nat \<Rightarrow> 'a packet list \<Rightarrow> ('a, 'b) FixedSizeInputStreamHandler_scheme
    \<Rightarrow> ts_error + ('a, 'b) FixedSizeInputStreamHandler_scheme" where
  "FixedSize_AddPackets validate sid ps h =
     (case ish_AddPackets validate sid ps h of
        Inl e \<Rightarrow> Inl e
      | Inr h1 \<Rightarrow> if pending h1 then Inr h1 else EraseSurplusPackets False h1)"

definition FixedSize_FillInputSet ::
  "Timestamp \<Rightarrow> ('a, 'b) FixedSizeInputStreamHandler_scheme \<times> 'a InputStreamShard list
    \<Rightarrow> ts_error + (('a, 'b) FixedSizeInputStreamHandler_scheme \<times> 'a InputStreamShard list)" where
  "FixedSize_FillInputSet t hs =
     (case EraseSurplusPackets True (fst hs) of
        Inl e \<Rightarrow> Inl e
      | Inr h1 \<Rightarrow>
          (case MinTimestampToProcess h1 of
             Inl e \<Rightarrow> Inl e
           | Inr t' \<Rightarrow>
               (case Default_FillInputSet t' (h1, snd hs) of
                  Inl e \<Rightarrow> Inl e
                | Inr (h2, sh) \<Rightarrow> Inr (h2\<lparr>pending := False\<rparr>, sh))))"

section \<open>What erasing leaves\<close>

lemma erase_all_streams:
  "length (input_stream_managers (erase_all t h)) = length (input_stream_managers h)"
  "i < length (input_stream_managers h) \<Longrightarrow>
     input_stream_managers (erase_all t h) ! i = snd (ErasePacketsEarlierThan t (input_stream_managers h ! i))"
  using fold_erase [of "[0 ..< length (input_stream_managers h)]" h t] by (simp_all add: erase_all_def)

lemma fold_erase_more: "InputStreamHandler.more (fold (erase_stream t) ids h) = InputStreamHandler.more h \<and>
    process_timestamps (fold (erase_stream t) ids h) = process_timestamps h"
  by (induction ids arbitrary: h) (simp_all add: erase_stream_def call_def put_stream_def split: prod.splits)

lemma erase_all_frame:
  fixes h :: "('a, 'b) FixedSizeInputStreamHandler_scheme"
  shows "sync_set (erase_all t h) = sync_set h" "kept_timestamp (erase_all t h) = kept_timestamp h"
    "process_timestamps (erase_all t h) = process_timestamps h" "pending (erase_all t h) = pending h"
proof -
  let ?h = "erase_all t h"
  have m: "InputStreamHandler.more ?h = InputStreamHandler.more h" and p: "process_timestamps ?h = process_timestamps h"
    using fold_erase_more [of t "[0 ..< length (input_stream_managers h)]" h] by (auto simp: erase_all_def)
  show "process_timestamps ?h = process_timestamps h" by (rule p)
  from m show "sync_set ?h = sync_set h" "kept_timestamp ?h = kept_timestamp h" "pending ?h = pending h"
    by (cases ?h; cases h; simp)+
qed

text \<open>In a strictly ordered queue, at most the packets after index \<open>k\<close> are later than the packet at \<open>k\<close>.\<close>

lemma later_packets:
  assumes "queue_sorted q" "k < length q"
  shows "length (filter (\<lambda>p. pkt_ts (q ! k) < pkt_ts p) q) \<le> length q - Suc k"
proof -
  have "pkt_ts p \<le> pkt_ts (q ! k)" if p: "p \<in> set (take (Suc k) q)" for p
  proof -
    from p obtain j where j: "j \<le> k" "p = q ! j" using assms(2) by (auto simp: in_set_conv_nth less_Suc_eq_le)
    with assms show ?thesis by (cases "j = k") (auto simp: queue_sorted_def sorted_wrt_iff_nth_less order.order_iff_strict)
  qed
  then have "filter (\<lambda>p. pkt_ts (q ! k) < pkt_ts p) (take (Suc k) q) = []" by (auto simp: filter_empty_conv not_less)
  then have "filter (\<lambda>p. pkt_ts (q ! k) < pkt_ts p) q = filter (\<lambda>p. pkt_ts (q ! k) < pkt_ts p) (drop (Suc k) q)"
    by (metis append_Nil append_take_drop_id filter_append)
  then show ?thesis by (metis length_drop length_filter_le)
qed

lemma length_filter_mono: "\<forall>x \<in> set xs. P x \<longrightarrow> Q x \<Longrightarrow> length (filter P xs) \<le> length (filter Q xs)"
  by (induction xs) auto

lemma kept_scan_ok:
  assumes "\<forall>s \<in> set ms. stream_inv s" "0 \<le> target" "1 \<le> trigger"
  shows "\<exists>k'. kept_scan trigger target ms k = Inr k' \<and> k \<le> k' \<and>
    (\<forall>s \<in> set ms. int (length (filter (\<lambda>p. k' \<le> pkt_ts p) (ism_queue s))) \<le> kept_size trigger target s)"
  using assms(1)
proof (induction ms arbitrary: k)
  case (Cons s ms)
  let ?qs = "kept_size trigger target s" and ?q = "ism_queue s"
  have ge: "0 \<le> ?qs" using assms(2,3) by (simp add: kept_size_def)
  show ?case
  proof (cases "?qs < int (length ?q)")
    case False
    from Cons.IH [of k] Cons.prems obtain k' where k: "kept_scan trigger target ms k = Inr k'" "k \<le> k'"
      "\<forall>s \<in> set ms. int (length (filter (\<lambda>p. k' \<le> pkt_ts p) (ism_queue s))) \<le> kept_size trigger target s" unfolding set_simps ball_simps by blast
    have "int (length (filter (\<lambda>p. k' \<le> pkt_ts p) ?q)) \<le> ?qs"
      using False length_filter_le [of "\<lambda>p. k' \<le> pkt_ts p" ?q] by linarith
    with k False show ?thesis by (simp add: Let_def)
  next
    case True
    define j where "j = length ?q - nat (?qs + 1)"
    have j: "j < length ?q" "length ?q - Suc j = nat ?qs" using True ge by (auto simp: j_def nat_add_distrib)
    have g: "GetMinTimestampAmongNLatest (?qs + 1) s = Inr (pkt_ts (?q ! j))"
      using True ge by (auto simp: GetMinTimestampAmongNLatest_def j_def Let_def min_def)
    from Cons.IH [of "max k (next_ts (pkt_ts (?q ! j)))"] Cons.prems obtain k' where k: "kept_scan trigger target ms (max k (next_ts (pkt_ts (?q ! j)))) = Inr k'"
      "max k (next_ts (pkt_ts (?q ! j))) \<le> k'"
      "\<forall>s \<in> set ms. int (length (filter (\<lambda>p. k' \<le> pkt_ts p) (ism_queue s))) \<le> kept_size trigger target s" unfolding set_simps ball_simps by blast
    have si: "stream_inv s" using Cons.prems by simp
    then have "pkt_ts (?q ! j) < next_ts (pkt_ts (?q ! j))" using j(1) by (auto simp: stream_inv_def IsAllowedInStream_def next_ts_greater)
    with k(2) have "pkt_ts (?q ! j) < k'" by auto
    then have "length (filter (\<lambda>p. k' \<le> pkt_ts p) ?q) \<le> length (filter (\<lambda>p. pkt_ts (?q ! j) < pkt_ts p) ?q)"
      by (intro length_filter_mono) auto
    also have "\<dots> \<le> nat ?qs" using later_packets [of ?q j] si j by (simp add: stream_inv_def)
    finally have "int (length (filter (\<lambda>p. k' \<le> pkt_ts p) ?q)) \<le> ?qs" using ge by linarith
    with k g True show ?thesis by (simp add: Let_def)
  qed
qed simp

lemma erase_any:
  assumes "\<forall>s \<in> set (input_stream_managers h). stream_inv s" "0 \<le> target_queue_size h" "1 \<le> trigger_queue_size h"
  shows "\<exists>k. EraseAnySurplus False h = Inr (erase_all k (h\<lparr>kept_timestamp := k\<rparr>)) \<and> kept_timestamp h \<le> k \<and>
    (\<forall>s \<in> set (input_stream_managers h). int (length (filter (\<lambda>p. k \<le> pkt_ts p) (ism_queue s)))
       \<le> kept_size (trigger_queue_size h) (target_queue_size h) s)"
  using kept_scan_ok [OF assms, of "kept_timestamp h"] by (auto simp: EraseAnySurplus_def)

lemma sync_inv_erase_all:
  assumes "sync_inv ss h"
  shows "sync_inv ss (erase_all t h)"
proof -
  have i: "i < length (input_stream_managers h)" if "i \<in> set (stream_ids ss)" for i
    using assms that by (auto simp: sync_inv_def ids_ok_def list_all_iff has_id_def)
  have e: "input_stream_managers (erase_all t h) ! i = snd (ErasePacketsEarlierThan t (input_stream_managers h ! i))" if "i \<in> set (stream_ids ss)" for i
    using erase_all_streams(2) i that by blast
  have cl: "OneOverPostStream \<le> fst (MinTimestampOrBound (snd (ErasePacketsEarlierThan t s)))"
    if "stream_inv s" "OneOverPostStream \<le> fst (MinTimestampOrBound s)" for s :: "'a InputStreamManager"
  proof -
    from stream_inv_no_more [OF that] have "ism_queue s = []" "OneOverPostStream \<le> next_timestamp_bound s" by auto
    then show ?thesis by (simp add: ErasePacketsEarlierThan_def MinTimestampOrBound_def Let_def)
  qed
  show ?thesis
    using assms e cl erase_frame(1) stream_inv_erase
    unfolding sync_inv_def ids_ok_def has_id_def erase_all_streams(1) by metis
qed

text \<open>Without bounds processing, a timestamp that is ready is the one of a packet.\<close>

lemma ready_at_packet:
  assumes "\<not> process_timestamps h" "GetReadiness h ss = Inr (kReadyForProcess, t, ss')"
  shows "\<exists>i \<in> set (stream_ids ss). i < length (input_stream_managers h) \<and> ism_queue (input_stream_managers h ! i) \<noteq> [] \<and>
    t = pkt_ts (hd (ism_queue (input_stream_managers h ! i)))"
proof -
  obtain mb mp where sc: "min_scan (input_stream_managers h) (stream_ids ss) (Done, Done) = (mb, mp)" by force
  have ids: "ids_ok ss h" using assms(2) by (auto simp: GetReadiness_def split: if_splits)
  have "t = mp" "\<not> OneOverPostStream \<le> mp" using assms by (auto simp: GetReadiness_def sc Let_def split: if_splits)
  moreover have "OneOverPostStream \<le> Done" by (simp add: special_defs)
  ultimately obtain i where "i \<in> set (stream_ids ss)" "MinTimestampOrBound (input_stream_managers h ! i) = (t, False)"
    using min_scan_spec [OF sc] by blast
  with ids show ?thesis by (auto simp: MinTimestampOrBound_packet ids_ok_def list_all_iff has_id_def)
qed

section \<open>Properties\<close>

text \<open>
  Queues stay small. With a non-negative target size and a positive trigger size, erasing surplus packets succeeds; afterwards every queue that had
  reached the trigger size holds at most the target size and every other one less than the trigger size; and
  all streams lose exactly the packets before one common timestamp, which never decreases.
\<close>

theorem fixed_size_truncates:
  assumes "\<forall>s \<in> set (input_stream_managers h). stream_inv s" and "0 \<le> target_queue_size h" and "1 \<le> trigger_queue_size h"
    and "\<not> fixed_min_size h"
  shows "\<exists>h'. EraseSurplusPackets False h = Inr h' \<and> kept_timestamp h \<le> kept_timestamp h' \<and>
    length (input_stream_managers h') = length (input_stream_managers h) \<and>
    (\<forall>i < length (input_stream_managers h).
       let q = ism_queue (input_stream_managers h ! i); q' = ism_queue (input_stream_managers h' ! i)
       in q' = filter (\<lambda>p. kept_timestamp h' \<le> pkt_ts p) q \<and>
          int (length q') \<le> (if trigger_queue_size h \<le> int (length q) then target_queue_size h else trigger_queue_size h - 1))"
proof -
  from erase_any [OF assms(1-3)] obtain k where k: "EraseAnySurplus False h = Inr (erase_all k (h\<lparr>kept_timestamp := k\<rparr>))"
    "kept_timestamp h \<le> k" "\<forall>s \<in> set (input_stream_managers h). int (length (filter (\<lambda>p. k \<le> pkt_ts p) (ism_queue s)))
       \<le> kept_size (trigger_queue_size h) (target_queue_size h) s" by blast
  let ?h = "erase_all k (h\<lparr>kept_timestamp := k\<rparr>)"
  have "ism_queue (input_stream_managers ?h ! i) = filter (\<lambda>p. k \<le> pkt_ts p) (ism_queue (input_stream_managers h ! i))"
    if "i < length (input_stream_managers h)" for i
    using erase_all_streams(2) [of i "h\<lparr>kept_timestamp := k\<rparr>" k] assms(1) that by (simp add: erase_queue)
  with k assms(4) show ?thesis
    by (intro exI [of _ ?h]) (simp add: EraseSurplusPackets_def erase_all_streams(1) erase_all_frame kept_size_def Let_def)
qed

text \<open>A node with one input stream and three queued packets.\<close>

definition demo_fixed :: "int FixedSizeInputStreamHandler" where
  "demo_fixed =
     \<lparr>input_stream_managers = [(ism_Initialize ''image'' False)
          \<lparr>ism_queue := map (\<lambda>t. \<lparr>pkt_ts = Ts t, pkt_data = Some t\<rparr>) [1, 2, 3], next_timestamp_bound := Ts 4\<rparr>],
      calculator_context_manager = demo_contexts 1, prepared_context_for_close = False, late_preparation = False,
      batch_size = 1, process_timestamps = False, unset_header_count = 1, callbacks = [], sync_set = SyncSet_new [0],
      trigger_queue_size = 2, target_queue_size = 1, fixed_min_size = False, pending = False, kept_timestamp = Unset\<rparr>"

lemma demo_fixed_streams: "\<forall>s \<in> set (input_stream_managers demo_fixed). stream_inv s"
  by (simp add: demo_fixed_def ism_Initialize_def ism_PrepareForRun_def stream_inv_def queue_sorted_def IsAllowedInStream_def special_defs)

theorem fixed_size_truncates_witness:
  "\<exists>h'. EraseSurplusPackets False demo_fixed = Inr h' \<and> int (length (ism_queue (input_stream_managers h' ! 0))) \<le> 1"
proof -
  have "0 \<le> target_queue_size demo_fixed" "1 \<le> trigger_queue_size demo_fixed" "\<not> fixed_min_size demo_fixed"
    "length (input_stream_managers demo_fixed) = 1" "length (ism_queue (input_stream_managers demo_fixed ! 0)) = 3"
    "trigger_queue_size demo_fixed = 2" "target_queue_size demo_fixed = 1"
    by (simp_all add: demo_fixed_def)
  with fixed_size_truncates [OF demo_fixed_streams] show ?thesis by (auto simp: Let_def)
qed

text \<open>
  Readiness with bounded queues. Where only packets are processed, asking the node for readiness ends, with no check failed and the invariant of the
  synchronised set kept until an input set is pending; a timestamp it reports ready is never one that was
  already truncated.
\<close>

theorem fixed_size_readiness:
  assumes "default_inv h" and "\<forall>s \<in> set (input_stream_managers h). stream_inv s" and "0 \<le> target_queue_size h" and "1 \<le> trigger_queue_size h"
    and "\<not> fixed_min_size h" and "\<not> process_timestamps h" and "\<not> pending h"
  shows "\<exists>rd t h'. FixedSize_GetNodeReadiness t0 h = Some (Inr (rd, t, h')) \<and> (pending h' \<longleftrightarrow> rd = kReadyForProcess) \<and>
    (rd = kReadyForProcess \<longrightarrow> kept_timestamp h' \<le> t) \<and> (rd \<noteq> kReadyForProcess \<longrightarrow> default_inv h')"
proof -
  from erase_any [OF assms(2-4)] obtain k where k: "EraseAnySurplus False h = Inr (erase_all k (h\<lparr>kept_timestamp := k\<rparr>))" by blast
  define h1 where "h1 = erase_all k (h\<lparr>kept_timestamp := k\<rparr>)"
  have h1: "sync_set h1 = sync_set h" "kept_timestamp h1 = k" "\<not> process_timestamps h1"
    using assms(6) by (simp_all add: h1_def erase_all_frame)
  have "sync_inv (sync_set h) (h\<lparr>kept_timestamp := k\<rparr>)" using assms(1) by (simp add: default_inv_def sync_inv_def ids_ok_def has_id_def)
  then have di: "default_inv h1" using sync_inv_erase_all by (simp add: default_inv_def h1_def erase_all_frame)
  from default_readiness [OF di] obtain rd t ss' where r: "Default_GetNodeReadiness h1 = Inr (rd, t, h1\<lparr>sync_set := ss'\<rparr>)"
    "rd \<noteq> kReadyForProcess \<longrightarrow> default_inv (h1\<lparr>sync_set := ss'\<rparr>)" by blast
  have kt: "k \<le> t" if p: "rd = kReadyForProcess"
  proof -
    have "GetReadiness h1 (sync_set h1) = Inr (kReadyForProcess, t, ss')"
      using r(1) p by (auto simp: Default_GetNodeReadiness_def split: sum.splits dest: arg_cong [of _ _ sync_set])
    from ready_at_packet [OF h1(3) this] obtain i where
      i: "i < length (input_stream_managers h1)" "ism_queue (input_stream_managers h1 ! i) \<noteq> []"
      "t = pkt_ts (hd (ism_queue (input_stream_managers h1 ! i)))" by blast
    have il: "i < length (input_stream_managers (h\<lparr>kept_timestamp := k\<rparr>))" using i(1) by (simp add: h1_def erase_all_streams(1))
    then have "ism_queue (input_stream_managers h1 ! i) = filter (\<lambda>p. k \<le> pkt_ts p) (ism_queue (input_stream_managers h ! i))"
      using erase_all_streams(2) [OF il, of k] assms(2) by (simp add: h1_def erase_queue)
    with i(2,3) show ?thesis using hd_in_set [OF i(2)] by auto
  qed
  have "fixed_ready_loop rd t (h1\<lparr>sync_set := ss'\<rparr>) = Some (Inr (rd, t, h1\<lparr>sync_set := ss'\<rparr>))"
    using kt h1(2) by (subst fixed_ready_loop.simps) auto
  moreover have "default_inv (h1\<lparr>sync_set := ss', pending := p\<rparr>) = default_inv (h1\<lparr>sync_set := ss'\<rparr>)" for p
    by (simp add: default_inv_def sync_inv_def ids_ok_def has_id_def)
  ultimately show ?thesis
    using k r kt h1(2) assms(5,7) by (simp add: FixedSize_GetNodeReadiness_def EraseSurplusPackets_def h1_def)
qed

theorem fixed_size_readiness_witness:
  "\<exists>rd t h'. FixedSize_GetNodeReadiness Done demo_fixed = Some (Inr (rd, t, h')) \<and> (pending h' \<longleftrightarrow> rd = kReadyForProcess)"
proof -
  have "default_inv demo_fixed"
    using demo_fixed_streams
    by (auto simp: default_inv_def sync_inv_def ids_ok_def has_id_def demo_fixed_def SyncSet_new_def ism_Initialize_def ism_PrepareForRun_def)
  moreover have "0 \<le> target_queue_size demo_fixed" "1 \<le> trigger_queue_size demo_fixed" "\<not> fixed_min_size demo_fixed"
    "\<not> process_timestamps demo_fixed" "\<not> pending demo_fixed" by (simp_all add: demo_fixed_def)
  ultimately show ?thesis using fixed_size_readiness [OF _ demo_fixed_streams, of Done] by blast
qed

end
