(* ===== verification/Tag_Names.thy ===== *)
theory Tag_Names
  imports Decimal
begin

text \<open>
  \<^verbatim>\<open>framework/tool/validate_name.cc\<close>: the grammar of \<open>TAG:index:name\<close> in which a graph names its streams.  The character classes are those of the C
  locale, false beyond ASCII.  A status other than ok is an element of \<open>name_error\<close>, without its text.
\<close>

section \<open>Names, numbers and tags\<close>

datatype name_error = InvalidArgument | FailedPrecondition | NameRetCheck

definition is_lower :: "char \<Rightarrow> bool" where
  "is_lower c \<longleftrightarrow> 97 \<le> (of_char c :: nat) \<and> (of_char c :: nat) \<le> 122"

definition is_upper :: "char \<Rightarrow> bool" where
  "is_upper c \<longleftrightarrow> 65 \<le> (of_char c :: nat) \<and> (of_char c :: nat) \<le> 90"

fun ValidateName :: "string \<Rightarrow> bool" where
  "ValidateName [] = False"
| "ValidateName (c # cs) = ((c = CHR ''_'' \<or> is_lower c) \<and> list_all (\<lambda>c. c = CHR ''_'' \<or> is_digit c \<or> is_lower c) cs)"

fun ValidateNumber :: "string \<Rightarrow> bool" where
  "ValidateNumber [] = False"
| "ValidateNumber [c] = is_digit c"
| "ValidateNumber (c # d # cs) = (is_digit c \<and> c \<noteq> CHR ''0'' \<and> list_all is_digit (d # cs))"

fun ValidateTag :: "string \<Rightarrow> bool" where
  "ValidateTag [] = False"
| "ValidateTag (c # cs) = ((c = CHR ''_'' \<or> is_upper c) \<and> list_all (\<lambda>c. c = CHR ''_'' \<or> is_digit c \<or> is_upper c) cs)"

text \<open>\<^verbatim>\<open>absl::StrSplit\<close> at colons, and \<^verbatim>\<open>absl::SimpleAtoi\<close> on a number that was validated.\<close>

fun split_colon :: "string \<Rightarrow> string list" where
  "split_colon [] = [[]]"
| "split_colon (c # cs) =
     (if c = CHR '':'' then [] # split_colon cs
      else (case split_colon cs of [] \<Rightarrow> [[c]] | v # vs \<Rightarrow> (c # v) # vs))"

definition SimpleAtoi :: "string \<Rightarrow> int option" where
  "SimpleAtoi s = (if digits_value s < 2 ^ 63 then Some (int (digits_value s)) else None)"

definition kMaxCollectionItemId :: int where
  "kMaxCollectionItemId = 10000"

definition ParseTagAndName :: "string \<Rightarrow> name_error + string \<times> string" where
  "ParseTagAndName s =
     (case split_colon s of
        [n] \<Rightarrow> if ValidateName n then Inr ([], n) else Inl InvalidArgument
      | [t, n] \<Rightarrow> if ValidateTag t \<and> ValidateName n then Inr (t, n) else Inl InvalidArgument
      | _ \<Rightarrow> Inl InvalidArgument)"

text \<open>The index of a validated number.\<close>

definition parse_index :: "string \<Rightarrow> name_error + int" where
  "parse_index v =
     (case SimpleAtoi v of None \<Rightarrow> Inl NameRetCheck | Some i \<Rightarrow> if i \<le> kMaxCollectionItemId then Inr i else Inl NameRetCheck)"

definition ParseTagIndexName :: "string \<Rightarrow> name_error + string \<times> int \<times> string" where
  "ParseTagIndexName s =
     (case split_colon s of
        [n] \<Rightarrow> if ValidateName n then Inr ([], - 1, n) else Inl InvalidArgument
      | [t, n] \<Rightarrow> if ValidateTag t \<and> ValidateName n then Inr (t, 0, n) else Inl InvalidArgument
      | [t, v, n] \<Rightarrow>
          if ValidateNumber v then
            (case parse_index v of
               Inl e \<Rightarrow> Inl e
             | Inr i \<Rightarrow> if ValidateTag t \<and> ValidateName n then Inr (t, i, n) else Inl InvalidArgument)
          else Inl InvalidArgument
      | _ \<Rightarrow> Inl InvalidArgument)"

definition ParseTagIndex :: "string \<Rightarrow> name_error + string \<times> int" where
  "ParseTagIndex s =
     (case split_colon s of
        [t] \<Rightarrow> if t = [] \<or> ValidateTag t then Inr (t, 0) else Inl InvalidArgument
      | [t, v] \<Rightarrow>
          if ValidateNumber v then
            (case parse_index v of Inl e \<Rightarrow> Inl e | Inr i \<Rightarrow> if t = [] \<or> ValidateTag t then Inr (t, i) else Inl InvalidArgument)
          else Inl InvalidArgument
      | _ \<Rightarrow> Inl InvalidArgument)"

record TagAndNameInfo =
  info_tags :: "string list"
  info_names :: "string list"

fun parse_all :: "string list \<Rightarrow> name_error + (string \<times> string) list" where
  "parse_all [] = Inr []"
| "parse_all (s # ss) =
     (case ParseTagAndName s of
        Inl e \<Rightarrow> Inl e
      | Inr p \<Rightarrow> (case parse_all ss of Inl e \<Rightarrow> Inl e | Inr ps \<Rightarrow> Inr (p # ps)))"

definition GetTagAndNameInfo :: "string list \<Rightarrow> name_error + TagAndNameInfo" where
  "GetTagAndNameInfo ss =
     (case parse_all ss of
        Inl e \<Rightarrow> Inl e
      | Inr ps \<Rightarrow>
          let tags = filter (\<lambda>t. t \<noteq> []) (map fst ps); names = map snd ps
          in if tags \<noteq> [] \<and> length names \<noteq> length tags then Inl InvalidArgument else Inr \<lparr>info_tags = tags, info_names = names\<rparr>)"

definition SetFromTagAndNameInfo :: "TagAndNameInfo \<Rightarrow> name_error + string list" where
  "SetFromTagAndNameInfo info =
     (if info_tags info = [] then (if list_all ValidateName (info_names info) then Inr (info_names info) else Inl InvalidArgument)
      else if length (info_names info) \<noteq> length (info_tags info) then Inl InvalidArgument
      else if list_all ValidateTag (info_tags info) \<and> list_all ValidateName (info_names info)
      then Inr (map2 (\<lambda>t n. t @ '':'' @ n) (info_tags info) (info_names info)) else Inl InvalidArgument)"

section \<open>Splitting and joining\<close>

lemma split_none: "CHR '':'' \<notin> set s \<Longrightarrow> split_colon s = [s]"
  by (induction s) auto

lemma split_first: "CHR '':'' \<notin> set s \<Longrightarrow> split_colon (s @ CHR '':'' # r) = s # split_colon r"
  by (induction s) auto

lemma split_nonempty [simp]: "split_colon s \<noteq> []"
  by (induction s) (auto split: list.splits)

fun join_colon :: "string list \<Rightarrow> string" where
  "join_colon [] = []"
| "join_colon [v] = v"
| "join_colon (v # vs) = v @ CHR '':'' # join_colon vs"

lemma join_split: "join_colon (split_colon s) = s"
proof (induction s)
  case (Cons c s)
  obtain v vs where "split_colon s = v # vs" by (cases "split_colon s") auto
  with Cons show ?case by (cases vs) auto
qed simp

lemma colon_is: "\<not> is_lower (CHR '':'')" "\<not> is_upper (CHR '':'')" "\<not> is_digit (CHR '':'')"
  by (simp_all add: is_lower_def is_upper_def is_digit_def)

lemma name_chars: "ValidateName n \<Longrightarrow> CHR '':'' \<notin> set n \<and> n \<noteq> []"
  using colon_is by (cases n) (auto simp: list_all_iff)

lemma tag_chars: "ValidateTag t \<Longrightarrow> CHR '':'' \<notin> set t \<and> t \<noteq> []"
  using colon_is by (cases t) (auto simp: list_all_iff)

lemma number_chars: "ValidateNumber v \<Longrightarrow> list_all is_digit v \<and> v \<noteq> []"
  by (cases v rule: ValidateNumber.cases) auto

lemma digits_no_colon: "list_all is_digit v \<Longrightarrow> CHR '':'' \<notin> set v"
  using colon_is by (auto simp: list_all_iff)

text \<open>A number without a superfluous zero is the one that is printed for its value.\<close>

lemma nat_digits_number: "ValidateNumber (nat_digits n)"
proof (induction n rule: nat_digits.induct)
  case (1 n)
  show ?case
  proof (cases "n < 10")
    case True
    then show ?thesis by (simp add: nat_digits.simps [of n] is_digit_def)
  next
    case False
    obtain c cs where c: "nat_digits (n div 10) = c # cs" by (cases "nat_digits (n div 10)") auto
    have "c \<noteq> CHR ''0''"
    proof
      assume "c = CHR ''0''"
      with 1 False c have "cs = []" by (cases cs) auto
      with c \<open>c = CHR ''0''\<close> have "digits_value (nat_digits (n div 10)) = 0" by (simp add: digits_value_def)
      then show False using False by simp
    qed
    moreover have "list_all is_digit (nat_digits n)" using nat_digits_digits by (simp add: list_all_iff)
    ultimately show ?thesis using False c by (cases cs) (auto simp: nat_digits.simps [of n])
  qed
qed

lemma zero_char: "char_of (48::nat) = CHR ''0''"
proof -
  have "of_char (CHR ''0'') = (48::nat)" by simp
  then show ?thesis using char_of_char [of "CHR ''0''"] by metis
qed

lemma digit_char: "is_digit c \<Longrightarrow> c = char_of (48 + (of_char c - 48 :: nat))"
  by (simp add: is_digit_def)

lemma number_printed: "ValidateNumber v \<Longrightarrow> v = nat_digits (digits_value v)"
proof (induction v rule: rev_induct)
  case (snoc c v)
  have dig: "list_all is_digit (v @ [c])" using number_chars [OF snoc.prems] by blast
  then have c: "is_digit c" "of_char c - 48 < (10::nat)" by (auto simp: is_digit_def)
  show ?case
  proof (cases v)
    case Nil
    then show ?thesis using c digit_char [OF c(1)] by (simp add: digits_value_def nat_digits.simps [of "of_char c - 48"])
  next
    case (Cons d ds)
    have "ValidateNumber v" using snoc.prems dig by (cases ds) (auto simp: Cons list_all_iff)
    then have v: "v = nat_digits (digits_value v)" by (rule snoc.IH)
    have "0 < digits_value v"
    proof (rule ccontr)
      assume "\<not> 0 < digits_value v"
      with v have "v = nat_digits 0" by simp
      then have "d = CHR ''0''" "ds = []" by (simp_all add: Cons nat_digits.simps [of 0] zero_char)
      then show False using snoc.prems by (simp add: Cons)
    qed
    then have "\<not> digits_value (v @ [c]) < 10" by (simp add: digits_value_snoc)
    then have "nat_digits (digits_value (v @ [c])) = nat_digits (digits_value v) @ [char_of (48 + (of_char c - 48 :: nat))]"
      using c(2) by (subst nat_digits.simps) (simp add: digits_value_snoc)
    then show ?thesis using v digit_char [OF c(1)] by simp
  qed
qed simp

section \<open>What is parsed\<close>

lemma split_some:
  assumes "split_colon s = vs"
  shows "s = join_colon vs"
  using assms join_split by metis

lemma split_two: "CHR '':'' \<notin> set a \<Longrightarrow> CHR '':'' \<notin> set b \<Longrightarrow> split_colon (a @ CHR '':'' # b) = [a, b]"
  by (simp add: split_first split_none)

lemma split_three:
  "CHR '':'' \<notin> set a \<Longrightarrow> CHR '':'' \<notin> set b \<Longrightarrow> CHR '':'' \<notin> set c \<Longrightarrow> split_colon (a @ CHR '':'' # b @ CHR '':'' # c) = [a, b, c]"
  by (simp add: split_first split_none)

lemma parse_index_eq:
  assumes "ValidateNumber v"
  shows "parse_index v = Inr i \<longleftrightarrow> 0 \<le> i \<and> i \<le> kMaxCollectionItemId \<and> v = to_string i"
proof -
  have v: "v = nat_digits (digits_value v)" using number_printed [OF assms] .
  have "parse_index v = Inr i \<longleftrightarrow> digits_value v \<le> 10000 \<and> i = int (digits_value v)"
    by (auto simp: parse_index_def SimpleAtoi_def kMaxCollectionItemId_def)
  also have "\<dots> \<longleftrightarrow> 0 \<le> i \<and> i \<le> kMaxCollectionItemId \<and> v = to_string i"
  proof
    assume "digits_value v \<le> 10000 \<and> i = int (digits_value v)"
    then show "0 \<le> i \<and> i \<le> kMaxCollectionItemId \<and> v = to_string i" using v by (simp add: kMaxCollectionItemId_def to_string_def)
  next
    assume i: "0 \<le> i \<and> i \<le> kMaxCollectionItemId \<and> v = to_string i"
    then have "digits_value v = nat i" by (simp add: to_string_def)
    with i show "digits_value v \<le> 10000 \<and> i = int (digits_value v)" by (simp add: kMaxCollectionItemId_def nat_le_iff)
  qed
  finally show ?thesis .
qed

lemma to_string_number: "0 \<le> i \<Longrightarrow> ValidateNumber (to_string i)"
  by (simp add: to_string_def nat_digits_number)

lemma parse_name: "ValidateName n \<Longrightarrow> ParseTagIndexName n = Inr ([], - 1, n)"
  using name_chars by (simp add: ParseTagIndexName_def split_none)

lemma parse_tag_name: "ValidateTag t \<Longrightarrow> ValidateName n \<Longrightarrow> ParseTagIndexName (t @ CHR '':'' # n) = Inr (t, 0, n)"
  using name_chars tag_chars by (simp add: ParseTagIndexName_def split_two)

lemma parse_tag_index_name:
  assumes "ValidateTag t" "ValidateName n" "0 \<le> i" "i \<le> kMaxCollectionItemId"
  shows "ParseTagIndexName (t @ CHR '':'' # to_string i @ CHR '':'' # n) = Inr (t, i, n)"
proof -
  have v: "ValidateNumber (to_string i)" using assms(3) by (rule to_string_number)
  have "CHR '':'' \<notin> set (to_string i)" using number_chars [OF v] digits_no_colon by blast
  then have "split_colon (t @ CHR '':'' # to_string i @ CHR '':'' # n) = [t, to_string i, n]"
    using assms name_chars tag_chars by (simp add: split_three)
  moreover have "parse_index (to_string i) = Inr i" using parse_index_eq [OF v, of i] assms by simp
  ultimately show ?thesis using assms v by (simp add: ParseTagIndexName_def)
qed

lemma parse_forms:
  "ParseTagIndexName s = Inr (t, i, n) \<longleftrightarrow>
     ValidateName n \<and> (t = [] \<and> i = - 1 \<and> s = n \<or>
       ValidateTag t \<and> i = 0 \<and> s = t @ '':'' @ n \<or>
       ValidateTag t \<and> 0 \<le> i \<and> i \<le> kMaxCollectionItemId \<and> s = t @ '':'' @ to_string i @ '':'' @ n)"
    (is "?parsed \<longleftrightarrow> ?forms")
proof
  assume p: ?parsed
  consider a where "split_colon s = [a]" | a b where "split_colon s = [a, b]" | a b c where "split_colon s = [a, b, c]"
    using p by (auto simp: ParseTagIndexName_def split: list.splits)
  then show ?forms
  proof cases
    case 1
    then show ?thesis using p split_some [OF 1] by (simp add: ParseTagIndexName_def split: if_splits)
  next
    case 2
    then show ?thesis using p split_some [OF 2] by (simp add: ParseTagIndexName_def split: if_splits)
  next
    case 3
    then have "ValidateNumber b" "parse_index b = Inr i" "ValidateTag a" "ValidateName c" "t = a" "n = c"
      using p by (simp_all add: ParseTagIndexName_def split: if_splits sum.splits)
    then show ?thesis using split_some [OF 3] parse_index_eq [of b i] by simp
  qed
next
  assume ?forms
  then show ?parsed using parse_name parse_tag_name parse_tag_index_name by auto
qed

text \<open>
  The older form without an index: what was parsed is put together again.
\<close>

lemma ParseTagAndName_forms:
  assumes "ParseTagAndName s = Inr (t, n)"
  shows "ValidateName n \<and> (t = [] \<and> s = n \<or> t \<noteq> [] \<and> ValidateTag t \<and> s = t @ CHR '':'' # n)"
proof -
  consider a where "split_colon s = [a]" | a b where "split_colon s = [a, b]"
    using assms by (auto simp: ParseTagAndName_def split: list.splits)
  then show ?thesis
  proof cases
    case 1
    then show ?thesis using assms split_some [OF 1] by (simp add: ParseTagAndName_def split: if_splits)
  next
    case 2
    then show ?thesis using assms split_some [OF 2] tag_chars by (auto simp: ParseTagAndName_def split: if_splits)
  qed
qed

lemma parse_all_forms:
  assumes "parse_all ss = Inr ps"
  shows "list_all ValidateName (map snd ps) \<and> list_all ValidateTag (filter (\<lambda>t. t \<noteq> []) (map fst ps)) \<and>
    ss = map (\<lambda>(t, n). if t = [] then n else t @ '':'' @ n) ps"
  using assms
proof (induction ss arbitrary: ps)
  case (Cons s ss)
  then obtain t n qs where q: "ParseTagAndName s = Inr (t, n)" "parse_all ss = Inr qs" "ps = (t, n) # qs"
    by (auto split: sum.splits)
  have "list_all ValidateName (map snd qs)" "list_all ValidateTag (filter (\<lambda>t. t \<noteq> []) (map fst qs))"
    "map (\<lambda>(t, n). if t = [] then n else t @ '':'' @ n) qs = ss"
    using Cons.IH [OF q(2)] by simp_all
  moreover have "ValidateName n" "t \<noteq> [] \<longrightarrow> ValidateTag t" "s = (if t = [] then n else t @ '':'' @ n)"
    using ParseTagAndName_forms [OF q(1)] by auto
  ultimately show ?case unfolding q(3) by (simp del: if_split)
qed simp

lemma all_kept: "length (filter P xs) = length xs \<Longrightarrow> filter P xs = xs"
  by (metis filter_id_conv length_filter_less nat_neq_iff)

lemma untagged_printed: "\<forall>p \<in> set ps. fst p = [] \<Longrightarrow> map (\<lambda>(t, n). if t = [] then n else t @ '':'' @ n) ps = map snd ps"
  by (induction ps) auto

lemma tagged_printed: "\<forall>p \<in> set ps. fst p \<noteq> [] \<Longrightarrow>
  map (\<lambda>(t, n). if t = [] then n else t @ '':'' @ n) ps = map2 (\<lambda>t n. t @ '':'' @ n) (map fst ps) (map snd ps)"
  by (induction ps) auto

lemma info_roundtrip:
  assumes "GetTagAndNameInfo ss = Inr info"
  shows "SetFromTagAndNameInfo info = Inr ss"
proof -
  obtain ps where p: "parse_all ss = Inr ps" using assms by (auto simp: GetTagAndNameInfo_def split: sum.splits)
  define tags where "tags = filter (\<lambda>t. t \<noteq> []) (map fst ps)"
  have "GetTagAndNameInfo ss = (if tags \<noteq> [] \<and> length (map snd ps) \<noteq> length tags then Inl InvalidArgument
      else Inr \<lparr>info_tags = tags, info_names = map snd ps\<rparr>)"
    unfolding GetTagAndNameInfo_def p tags_def Let_def by simp
  then have i: "info = \<lparr>info_tags = tags, info_names = map snd ps\<rparr>" "tags = [] \<or> length ps = length tags"
    using assms by (auto split: if_splits)
  note f = parse_all_forms [OF p, folded tags_def]
  show ?thesis
  proof (cases "tags = []")
    case True
    then have "\<forall>p \<in> set ps. fst p = []" by (auto simp: tags_def filter_empty_conv)
    with f untagged_printed [OF this] True show ?thesis by (simp add: SetFromTagAndNameInfo_def i(1))
  next
    case False
    then have "tags = map fst ps" using i(2) all_kept [of "\<lambda>t. t \<noteq> []" "map fst ps"] by (simp add: tags_def)
    then have t: "\<forall>p \<in> set ps. fst p \<noteq> []" and tags: "tags = map fst ps" by (auto simp: tags_def filter_id_conv)
    have "ss = map2 (\<lambda>t n. t @ '':'' @ n) (map fst ps) (map snd ps)" using f tagged_printed [OF t] by simp
    then show ?thesis unfolding SetFromTagAndNameInfo_def i(1) using f False tags i(2) by simp
  qed
qed

text \<open>
  C36: the grammar. Exactly three forms of a string are accepted: a name, which has no tag and leaves the index open; a tag and a name, which has the index 0;
  and a tag, a number printed without superfluous zeros and at most 10000, and a name.  Tag, index and name are then the parts the string was put together from.
\<close>

theorem tag_index_name_grammar:
  "ParseTagIndexName s = Inr (t, i, n) \<longleftrightarrow>
     ValidateName n \<and> (t = [] \<and> i = - 1 \<and> s = n \<or>
       ValidateTag t \<and> i = 0 \<and> s = t @ '':'' @ n \<or>
       ValidateTag t \<and> 0 \<le> i \<and> i \<le> kMaxCollectionItemId \<and> s = t @ '':'' @ to_string i @ '':'' @ n)"
  by (rule parse_forms)

end
