(* ===== verification/Tag_Map.thy ===== *)
theory Tag_Map
  imports Tag_Names "HOL-Library.Char_ord" "HOL-Library.List_Lexorder"
begin

text \<open>
  \<^verbatim>\<open>framework/tool/tag_map.h\<close> and \<^verbatim>\<open>.cc\<close>: the streams of a node by tag and index.  Each entry \<open>TAG:index:name\<close> gets an id, a position in one flat array in the
  order of the tags; every collection of streams, side packets and contracts is reached through it.  The ordered maps of the source are lists
  in the order of their keys, strings being ordered by their bytes.
\<close>

section \<open>The map\<close>

record TagData =
  td_id :: int
  td_count :: int

definition TagData_new :: TagData where
  "TagData_new = \<lparr>td_id = - 1, td_count = 0\<rparr>"

record TagMap =
  tm_mapping :: "(string \<times> TagData) list"
  tm_names :: "string list"
  num_entries :: int

text \<open>\<open>m[k] = f(m[k])\<close> on an ordered map, whose missing entries are created as \<open>d\<close>, and reading.\<close>

fun at_key :: "'v \<Rightarrow> ('v \<Rightarrow> 'v) \<Rightarrow> string \<Rightarrow> (string \<times> 'v) list \<Rightarrow> (string \<times> 'v) list" where
  "at_key d f k [] = [(k, f d)]"
| "at_key d f k ((j, v) # m) =
     (if k = j then (j, f v) # m else if k < j then (k, f d) # (j, v) # m else (j, v) # at_key d f k m)"

definition read_key :: "'v \<Rightarrow> string \<Rightarrow> (string \<times> 'v) list \<Rightarrow> 'v" where
  "read_key d k m = (case map_of m k of None \<Rightarrow> d | Some v \<Rightarrow> v)"

text \<open>One round of the loop of \<^verbatim>\<open>Initialize\<close> that reads the entries, on \<^verbatim>\<open>mapping_\<close> and \<^verbatim>\<open>tag_to_names\<close>.\<close>

definition add_entry ::
  "string \<Rightarrow> (string \<times> TagData) list \<times> (string \<times> string list) list \<Rightarrow>
   name_error + (string \<times> TagData) list \<times> (string \<times> string list) list" where
  "add_entry s st =
     (case ParseTagIndexName s of
        Inl e \<Rightarrow> Inl e
      | Inr (tag, index, name) \<Rightarrow>
          let i = nat (if index = - 1 then td_count (read_key TagData_new tag (fst st)) else index);
              m = at_key TagData_new (\<lambda>d. d\<lparr>td_count := td_count d + 1\<rparr>) tag (fst st);
              names = read_key [] tag (snd st);
              names = (if length names \<le> i then names @ replicate (Suc i - length names) [] else names)
          in if names ! i \<noteq> [] then Inl FailedPrecondition
             else Inr (m, at_key [] (\<lambda>_. names[i := name]) tag (snd st)))"

fun add_entries ::
  "string list \<Rightarrow> (string \<times> TagData) list \<times> (string \<times> string list) list \<Rightarrow>
   name_error + (string \<times> TagData) list \<times> (string \<times> string list) list" where
  "add_entries [] st = Inr st"
| "add_entries (s # ss) st = (case add_entry s st of Inl e \<Rightarrow> Inl e | Inr st' \<Rightarrow> add_entries ss st')"

text \<open>The loop that gives the tags their first ids.\<close>

fun assign_ids :: "(string \<times> string list) list \<Rightarrow> int \<Rightarrow> (string \<times> TagData) list \<Rightarrow> name_error + (string \<times> TagData) list \<times> int" where
  "assign_ids tag_to_names current [] = Inr ([], current)"
| "assign_ids tag_to_names current ((tag, d) # m) =
     (if td_count d \<noteq> int (length (read_key [] tag tag_to_names)) then Inl FailedPrecondition
      else (case assign_ids tag_to_names (current + td_count d) m of
          Inl e \<Rightarrow> Inl e
        | Inr (m', k) \<Rightarrow> Inr ((tag, d\<lparr>td_id := current\<rparr>) # m', k)))"

definition InitializeNames :: "(string \<times> string list) list \<Rightarrow> string list" where
  "InitializeNames tag_to_names = concat (map snd tag_to_names)"

definition TagMap_Initialize :: "string list \<Rightarrow> name_error + TagMap" where
  "TagMap_Initialize ss =
     (case add_entries ss ([], []) of
        Inl e \<Rightarrow> Inl e
      | Inr (m, tag_to_names) \<Rightarrow>
          (case assign_ids tag_to_names 0 m of
             Inl e \<Rightarrow> Inl e
           | Inr (m', k) \<Rightarrow> Inr \<lparr>tm_mapping = m', tm_names = InitializeNames tag_to_names, num_entries = k\<rparr>))"

text \<open>The map of the older form, in which a tag has one name.\<close>

fun add_tags ::
  "(string \<times> string) list \<Rightarrow> (string \<times> TagData) list \<times> (string \<times> string list) list \<Rightarrow>
   name_error + (string \<times> TagData) list \<times> (string \<times> string list) list" where
  "add_tags [] st = Inr st"
| "add_tags ((tag, name) # ps) st =
     (if tag \<in> fst ` set (fst st) then Inl NameRetCheck
      else add_tags ps (at_key TagData_new (\<lambda>d. d) tag (fst st), at_key [] (\<lambda>ns. ns @ [name]) tag (snd st)))"

definition TagMap_Initialize_info :: "TagAndNameInfo \<Rightarrow> name_error + TagMap" where
  "TagMap_Initialize_info info =
     (if info_tags info = [] then
        Inr \<lparr>tm_mapping = (if info_names info = [] then [] else [([], \<lparr>td_id = 0, td_count = int (length (info_names info))\<rparr>)]),
          tm_names = info_names info, num_entries = int (length (info_names info))\<rparr>
      else if length (info_tags info) \<noteq> length (info_names info) then Inl FailedPrecondition
      else (case add_tags (zip (info_tags info) (info_names info)) ([], []) of
          Inl e \<Rightarrow> Inl e
        | Inr (m, tag_to_names) \<Rightarrow>
            Inr \<lparr>tm_mapping = map2 (\<lambda>k (tag, d). (tag, d\<lparr>td_id := int k, td_count := 1\<rparr>)) [0..<length m] m,
              tm_names = InitializeNames tag_to_names, num_entries = int (length m)\<rparr>))"

section \<open>Reading the map\<close>

definition HasTag :: "TagMap \<Rightarrow> string \<Rightarrow> bool" where
  "HasTag tm tag \<longleftrightarrow> tag \<in> fst ` set (tm_mapping tm)"

definition NumEntries :: "TagMap \<Rightarrow> string \<Rightarrow> int" where
  "NumEntries tm tag = (case map_of (tm_mapping tm) tag of None \<Rightarrow> 0 | Some d \<Rightarrow> td_count d)"

definition GetId :: "TagMap \<Rightarrow> string \<Rightarrow> int \<Rightarrow> int" where
  "GetId tm tag index =
     (case map_of (tm_mapping tm) tag of
        None \<Rightarrow> - 1
      | Some d \<Rightarrow> if index < 0 \<or> index \<ge> td_count d then - 1 else td_id d + index)"

definition TagAndIndexFromId :: "TagMap \<Rightarrow> int \<Rightarrow> string \<times> int" where
  "TagAndIndexFromId tm i =
     (case List.find (\<lambda>(tag, d). i \<ge> td_id d \<and> i < td_id d + td_count d) (tm_mapping tm) of
        None \<Rightarrow> ([], - 1)
      | Some (tag, d) \<Rightarrow> (tag, i - td_id d))"

definition tag_BeginId :: "TagMap \<Rightarrow> string \<Rightarrow> int" where
  "tag_BeginId tm tag = GetId tm tag 0"

definition tag_EndId :: "TagMap \<Rightarrow> string \<Rightarrow> int" where
  "tag_EndId tm tag = (case map_of (tm_mapping tm) tag of None \<Rightarrow> - 1 | Some d \<Rightarrow> td_id d + td_count d)"

definition GetTags :: "TagMap \<Rightarrow> string set" where
  "GetTags tm = fst ` set (tm_mapping tm)"

definition canonical_tag :: "string list \<Rightarrow> string \<Rightarrow> TagData \<Rightarrow> string list" where
  "canonical_tag names tag d =
     (if tag = [] then map (\<lambda>i. names ! nat (td_id d + i)) [0..td_count d - 1]
      else if td_count d \<le> 1 then [tag @ '':'' @ names ! nat (td_id d)]
      else map (\<lambda>i. tag @ '':'' @ to_string i @ '':'' @ names ! nat (td_id d + i)) [0..td_count d - 1])"

definition CanonicalEntries :: "TagMap \<Rightarrow> string list" where
  "CanonicalEntries tm = concat (map (\<lambda>(tag, d). canonical_tag (tm_names tm) tag d) (tm_mapping tm))"

fun describe_tags :: "(string \<times> TagData) list \<Rightarrow> string \<Rightarrow> string" where
  "describe_tags [] out = out"
| "describe_tags ((tag, d) # m) out =
     describe_tags m
       ((if out = [] then [] else out @ '', '') @
        (if td_count d = 0 then [CHR 0x22] @ tag @ [CHR 0x22] else ''{'' @ [CHR 0x22] @ tag @ [CHR 0x22] @ '', '' @ to_string (td_count d) @ ''}''))"

definition ShortDebugString :: "TagMap \<Rightarrow> string" where
  "ShortDebugString tm = (if num_entries tm = 0 then ''empty'' else describe_tags (tm_mapping tm) [])"

definition TagMap_SameAs :: "TagMap \<Rightarrow> TagMap \<Rightarrow> bool" where
  "TagMap_SameAs tm other \<longleftrightarrow> ShortDebugString tm = ShortDebugString other"

section \<open>Ordered maps\<close>

abbreviation keys_sorted :: "(string \<times> 'v) list \<Rightarrow> bool" where
  "keys_sorted m \<equiv> sorted_wrt (<) (map fst m)"

lemma at_key_keys: "fst ` set (at_key d f k m) = insert k (fst ` set m)"
proof (induction m)
  case (Cons p m)
  then show ?case by (cases p) (simp add: insert_commute)
qed simp

lemma at_key_sorted: "keys_sorted m \<Longrightarrow> keys_sorted (at_key d f k m)"
proof (induction m)
  case (Cons p m)
  obtain j v where p: "p = (j, v)" by (cases p)
  have j: "\<forall>x \<in> fst ` set m. j < x" "keys_sorted m" using Cons.prems p by auto
  show ?case
  proof (cases "k = j \<or> k < j")
    case True
    then show ?thesis using j p by (auto dest: less_trans)
  next
    case False
    then have "\<forall>x \<in> fst ` set (at_key d f k m). j < x" using j(1) unfolding at_key_keys by auto
    then show ?thesis using False Cons.IH [OF j(2)] p by simp
  qed
qed simp

lemma map_of_above: "\<forall>x \<in> fst ` set m. k < x \<Longrightarrow> map_of m (k :: string) = None"
  by (auto simp: map_of_eq_None_iff)

lemma read_at_key: "keys_sorted m \<Longrightarrow> read_key d j (at_key d f k m) = (if j = k then f (read_key d k m) else read_key d j m)"
proof (induction m)
  case (Cons p m)
  obtain i v where p: "p = (i, v)" by (cases p)
  have i: "\<forall>x \<in> fst ` set m. i < x" "keys_sorted m" using Cons.prems p by auto
  show ?case
  proof (cases "k = i \<or> k < i")
    case True
    then have "k < i \<Longrightarrow> map_of m k = None" using i(1) by (auto intro!: map_of_above dest: less_trans)
    with True show ?thesis using p by (auto simp: read_key_def)
  next
    case False
    then show ?thesis using Cons.IH [OF i(2)] p by (auto simp: read_key_def)
  qed
qed (simp add: read_key_def)

lemma keys_sorted_distinct: "keys_sorted m \<Longrightarrow> distinct (map fst m)"
  by (induction m) auto

lemma map_of_sorted: "keys_sorted m \<Longrightarrow> map_of m k = Some v \<longleftrightarrow> (k, v) \<in> set m"
  by (simp add: keys_sorted_distinct)

section \<open>The entries by tag and index\<close>

text \<open>The entries with their indices: one without an index gets the number of those before it with its tag.\<close>

type_synonym entry = "string \<times> nat \<times> string"

definition resolve_one :: "entry list \<Rightarrow> string \<times> int \<times> string \<Rightarrow> entry" where
  "resolve_one R = (\<lambda>(t, i, n). (t, (if i = - 1 then length (filter (\<lambda>e. fst e = t) R) else nat i), n))"

definition resolve :: "(string \<times> int \<times> string) list \<Rightarrow> entry list" where
  "resolve es = fold (\<lambda>e R. R @ [resolve_one R e]) es []"

abbreviation slot :: "entry \<Rightarrow> string \<times> nat" where
  "slot e \<equiv> (fst e, fst (snd e))"

abbreviation "tag_uses R t \<equiv> length (filter (\<lambda>e. fst e = t) R)"

lemma resolve_snoc: "resolve (es @ [e]) = resolve es @ [resolve_one (resolve es) e]"
  by (simp add: resolve_def)

definition entries_inv :: "entry list \<Rightarrow> (string \<times> TagData) list \<times> (string \<times> string list) list \<Rightarrow> bool" where
  "entries_inv R st \<longleftrightarrow>
     keys_sorted (fst st) \<and> map fst (fst st) = map fst (snd st) \<and> fst ` set (fst st) = fst ` set R \<and>
     (\<forall>t. td_count (read_key TagData_new t (fst st)) = int (tag_uses R t)) \<and>
     (\<forall>t i n. n \<noteq> [] \<longrightarrow> (i < length (read_key [] t (snd st)) \<and> read_key [] t (snd st) ! i = n \<longleftrightarrow> (t, i, n) \<in> set R)) \<and>
     (\<forall>e \<in> set R. snd (snd e) \<noteq> []) \<and> distinct (map slot R) \<and>
     (\<forall>t. read_key [] t (snd st) = [] \<or> last (read_key [] t (snd st)) \<noteq> [])"

lemma entries_inv_start: "entries_inv [] ([], [])"
  by (simp add: entries_inv_def read_key_def TagData_new_def)

lemma at_key_same: "map fst m = map fst m' \<Longrightarrow> map fst (at_key d f k m) = map fst (at_key d' f' k m')"
proof (induction m arbitrary: m')
  case (Cons p m)
  obtain q m'' where "m' = q # m''" using Cons.prems by (cases m') auto
  with Cons show ?case by (cases p; cases q) auto
qed simp

lemma grown_nth:
  assumes "n \<noteq> []"
  shows "i < length (if length ns \<le> k then ns @ replicate (Suc k - length ns) [] else ns) \<and>
      (if length ns \<le> k then ns @ replicate (Suc k - length ns) [] else ns) ! i = n \<longleftrightarrow> i < length ns \<and> ns ! i = n"
  using assms by (auto simp: nth_append)

lemma add_entry_step:
  assumes inv: "entries_inv R st" and p: "ParseTagIndexName s = Inr (t, i, n)"
  defines "k \<equiv> fst (snd (resolve_one R (t, i, n)))"
  shows "if (t, k) \<in> slot ` set R then add_entry s st = Inl FailedPrecondition
    else \<exists>st'. add_entry s st = Inr st' \<and> entries_inv (R @ [(t, k, n)]) st'"
proof -
  obtain m tn where st: "st = (m, tn)" by (cases st)
  define ns where "ns = read_key [] t tn"
  define gs where "gs = (if length ns \<le> k then ns @ replicate (Suc k - length ns) [] else ns)"
  have n: "n \<noteq> []" using p name_chars by (auto simp: parse_forms)
  have sorted: "keys_sorted m" "map fst m = map fst tn" using inv unfolding entries_inv_def st fst_conv snd_conv by blast+
  then have sorted_names: "keys_sorted tn" by metis
  have count: "td_count (read_key TagData_new u m) = int (tag_uses R u)" for u using inv by (simp add: entries_inv_def st)
  have held: "x \<noteq> [] \<Longrightarrow> j < length (read_key [] u tn) \<and> read_key [] u tn ! j = x \<longleftrightarrow> (u, j, x) \<in> set R" for u j x
    using inv by (simp add: entries_inv_def st)
  have k: "k = nat (if i = - 1 then td_count (read_key TagData_new t m) else i)" by (simp add: k_def resolve_one_def count)
  have add: "add_entry s st = (if gs ! k \<noteq> [] then Inl FailedPrecondition
      else Inr (at_key TagData_new (\<lambda>d. d\<lparr>td_count := td_count d + 1\<rparr>) t m, at_key [] (\<lambda>_. gs[k := n]) t tn))"
    unfolding add_entry_def p st Let_def gs_def ns_def k by simp
  have len: "k < length gs" by (simp add: gs_def)
  have grown: "x \<noteq> [] \<Longrightarrow> j < length gs \<and> gs ! j = x \<longleftrightarrow> (t, j, x) \<in> set R" for j x
    using grown_nth [of x j ns k] held [of x j t] unfolding gs_def ns_def by blast
  have taken: "gs ! k \<noteq> [] \<longleftrightarrow> (t, k) \<in> slot ` set R"
  proof
    assume "gs ! k \<noteq> []"
    then have "(t, k, gs ! k) \<in> set R" using grown [of "gs ! k" k] len by simp
    then show "(t, k) \<in> slot ` set R" by force
  next
    assume "(t, k) \<in> slot ` set R"
    then obtain x where x: "(t, k, x) \<in> set R" by auto
    then have "x \<noteq> []" using inv unfolding entries_inv_def by auto
    with grown [of x k] x show "gs ! k \<noteq> []" by simp
  qed
  show ?thesis
  proof (cases "(t, k) \<in> slot ` set R")
    case True
    then show ?thesis using add taken by simp
  next
    case False
    then have free: "gs ! k = []" using taken by blast
    define m' where "m' = at_key TagData_new (\<lambda>d. d\<lparr>td_count := td_count d + 1\<rparr>) t m"
    define tn' where "tn' = at_key [] (\<lambda>_. gs[k := n]) t tn"
    have "fst ` set m = fst ` set R" using inv unfolding entries_inv_def st fst_conv snd_conv by blast
    then have set': "fst ` set m' = fst ` set (R @ [(t, k, n)])" unfolding m'_def at_key_keys by simp
    have keys: "keys_sorted m'" "map fst m' = map fst tn'"
      unfolding m'_def tn'_def by (rule at_key_sorted [OF sorted(1)], rule at_key_same [OF sorted(2)])
    have "td_count (read_key TagData_new u m') = int (tag_uses (R @ [(t, k, n)]) u)" for u
      using count by (simp add: m'_def read_at_key [OF sorted(1)])
    moreover have "x \<noteq> [] \<Longrightarrow> j < length (read_key [] u tn') \<and> read_key [] u tn' ! j = x \<longleftrightarrow> (u, j, x) \<in> set (R @ [(t, k, n)])" for u j x
    proof (cases "u = t")
      case True
      assume x: "x \<noteq> []"
      show ?thesis
      proof (cases "j = k")
        case True
        have "(t, k, x) \<notin> set R" using False by force
        then show ?thesis using len n \<open>u = t\<close> True by (auto simp: tn'_def read_at_key [OF sorted_names])
      next
        case False
        then show ?thesis using grown [OF x] \<open>u = t\<close> by (simp add: tn'_def read_at_key [OF sorted_names])
      qed
    next
      case False
      assume "x \<noteq> []"
      with False held show ?thesis by (simp add: tn'_def read_at_key [OF sorted_names])
    qed
    moreover have "(\<forall>e \<in> set (R @ [(t, k, n)]). snd (snd e) \<noteq> []) \<and> distinct (map slot (R @ [(t, k, n)]))"
      using inv n False by (auto simp: entries_inv_def)
    moreover have "read_key [] u tn' = [] \<or> last (read_key [] u tn') \<noteq> []" for u
    proof -
      have "ns = [] \<or> last ns \<noteq> []" using inv unfolding entries_inv_def st ns_def by auto
      moreover have "last (gs[k := n]) = (if Suc k = length gs then n else last ns)"
      proof -
        have "gs \<noteq> []" using len by auto
        then have "last (gs[k := n]) = (if k = length gs - 1 then n else last gs)" by (rule last_list_update)
        moreover have "Suc k \<noteq> length gs \<Longrightarrow> gs = ns" by (auto simp: gs_def)
        ultimately show ?thesis using len by auto
      qed
      moreover have "Suc k \<noteq> length gs \<Longrightarrow> ns \<noteq> []" by (auto simp: gs_def split: if_splits)
      ultimately have "last (gs[k := n]) \<noteq> []" using n by auto
      moreover have "u \<noteq> t \<Longrightarrow> read_key [] u tn = [] \<or> last (read_key [] u tn) \<noteq> []" using inv unfolding entries_inv_def st by auto
      ultimately show ?thesis by (simp add: tn'_def read_at_key [OF sorted_names])
    qed
    ultimately have "entries_inv (R @ [(t, k, n)]) (m', tn')" unfolding entries_inv_def fst_conv snd_conv using keys set' by blast
    then show ?thesis using add free False by (simp add: m'_def tn'_def)
  qed
qed

definition parsed :: "string list \<Rightarrow> (string \<times> int \<times> string) list \<Rightarrow> bool" where
  "parsed ss es \<longleftrightarrow> list_all2 (\<lambda>s e. ParseTagIndexName s = Inr e) ss es"

abbreviation "resolve_from es R \<equiv> fold (\<lambda>e R. R @ [resolve_one R e]) es R"

lemma resolve_prefix: "\<exists>zs. resolve_from es R = R @ zs"
proof (induction es arbitrary: R)
  case (Cons e es)
  from Cons.IH [of "R @ [resolve_one R e]"] show ?case by auto
qed simp

lemma resolve_one_parts: "resolve_one R (t, i, n) = (t, fst (snd (resolve_one R (t, i, n))), n)"
  by (simp add: resolve_one_def)

lemma parsed_unique: "parsed ss es \<Longrightarrow> parsed ss es' \<Longrightarrow> es = es'"
  unfolding parsed_def by (auto simp: list_all2_conv_all_nth intro!: nth_equalityI)

lemma add_entries_result:
  assumes "entries_inv R st"
  shows "case add_entries ss st of
      Inr st' \<Rightarrow> \<exists>es. parsed ss es \<and> entries_inv (resolve_from es R) st'
    | Inl e \<Rightarrow> \<not> (\<exists>es. parsed ss es \<and> distinct (map slot (resolve_from es R)))"
  using assms
proof (induction ss arbitrary: R st)
  case Nil
  then show ?case by (simp add: parsed_def)
next
  case (Cons s ss)
  show ?case
  proof (cases "ParseTagIndexName s")
    case (Inl e)
    then show ?thesis by (auto simp: add_entry_def parsed_def list_all2_Cons1)
  next
    case (Inr p)
    obtain t i n where p: "p = (t, i, n)" by (cases p)
    define x where "x = resolve_one R (t, i, n)"
    have es: "parsed (s # ss) es \<longleftrightarrow> (\<exists>es'. es = (t, i, n) # es' \<and> parsed ss es')" for es
      using Inr p by (auto simp: parsed_def list_all2_Cons1)
    have x: "(t, fst (snd x), n) = x" using resolve_one_parts [of R t i n] by (simp add: x_def)
    note step = add_entry_step [OF Cons.prems Inr [unfolded p], folded x_def, unfolded x]
    have slot: "slot x = (t, fst (snd x))" using x by (metis fst_conv)
    show ?thesis
    proof (cases "slot x \<in> slot ` set R")
      case True
      then have "add_entry s st = Inl FailedPrecondition" using step unfolding slot by simp
      moreover have no: "\<not> distinct (map slot (resolve_from es (R @ [x])))" for es
      proof -
        obtain zs where z: "resolve_from es (R @ [x]) = (R @ [x]) @ zs" using resolve_prefix [of es "R @ [x]"] by blast
        show ?thesis unfolding z map_append distinct_append set_map list.map list.set using True by blast
      qed
      moreover have "\<not> (\<exists>es. parsed (s # ss) es \<and> distinct (map slot (resolve_from es R)))" 
        using es no [unfolded x_def] by auto
      ultimately show ?thesis by simp
    next
      case False
      then obtain st' where st': "add_entry s st = Inr st'" "entries_inv (R @ [x]) st'"
        using step unfolding slot by auto
      have more: "resolve_from ((t, i, n) # es') R = resolve_from es' (R @ [x])" for es' by (simp add: x_def)
      show ?thesis
      proof (cases "add_entries ss st'")
        case (Inl e)
        then have no: "\<not> (parsed ss es' \<and> distinct (map slot (resolve_from es' (R @ [x]))))" for es'
          using Cons.IH [OF st'(2)] by auto
        have "\<not> (parsed (s # ss) es' \<and> distinct (map slot (resolve_from es' R)))" for es'
        proof
          assume a: "parsed (s # ss) es' \<and> distinct (map slot (resolve_from es' R))"
          then obtain es'' where e: "es' = (t, i, n) # es''" "parsed ss es''" using es by blast
          from a have "distinct (map slot (resolve_from es'' (R @ [x])))" unfolding e(1) more by (rule conjunct2)
          with e(2) no show False by blast
        qed
        then show ?thesis using Inl st'(1) by simp
      next
        case (Inr st'')
        then obtain es' where "parsed ss es'" "entries_inv (resolve_from es' (R @ [x])) st''"
          using Cons.IH [OF st'(2)] by auto
        then have "parsed (s # ss) ((t, i, n) # es') \<and> entries_inv (resolve_from ((t, i, n) # es') R) st''" using more es by simp
        then have "\<exists>es. parsed (s # ss) es \<and> entries_inv (resolve_from es R) st''" by blast
        then show ?thesis using Inr st'(1) by simp
      qed
    qed
  qed
qed

section \<open>The map as groups of names\<close>

text \<open>What a tag map holds: the tags in order, each with its names.\<close>

type_synonym groups = "(string \<times> string list) list"

fun layout :: "int \<Rightarrow> groups \<Rightarrow> (string \<times> TagData) list" where
  "layout k [] = []"
| "layout k ((t, ns) # gs) = (t, \<lparr>td_id = k, td_count = int (length ns)\<rparr>) # layout (k + int (length ns)) gs"

definition build :: "groups \<Rightarrow> TagMap" where
  "build gs = \<lparr>tm_mapping = layout 0 gs, tm_names = concat (map snd gs), num_entries = int (length (concat (map snd gs)))\<rparr>"

lemma assign_ids_result:
  assumes "map fst m = map fst gs" and "\<forall>(t, ns) \<in> set gs. read_key [] t tn = ns"
  shows "assign_ids tn k m =
    (if list_all2 (\<lambda>p q. td_count (snd p) = int (length (snd q))) m gs
     then Inr (layout k gs, k + int (length (concat (map snd gs)))) else Inl FailedPrecondition)"
  using assms
proof (induction m arbitrary: gs k)
  case (Cons p m)
  obtain t d where p: "p = (t, d)" by (cases p)
  obtain ns gs' where gs: "gs = (t, ns) # gs'" "map fst m = map fst gs'" using Cons.prems(1) p by (cases gs) auto
  have ns: "read_key [] t tn = ns" "\<forall>(t, ns) \<in> set gs'. read_key [] t tn = ns" using Cons.prems(2) gs(1) by auto
  have "d\<lparr>td_id := k\<rparr> = \<lparr>td_id = k, td_count = td_count d\<rparr>" by (cases d) simp
  then show ?case using Cons.IH [OF gs(2) ns(2), of "k + int (length ns)"] by (simp add: p gs(1) ns(1))
qed simp

lemma slots_card:
  assumes "distinct (map slot R)"
  shows "card {i. \<exists>n. (t, i, n) \<in> set R} = tag_uses R t"
proof -
  let ?Rt = "filter (\<lambda>e. fst e = t) R"
  have "{i. \<exists>n. (t, i, n) \<in> set R} = set (map (\<lambda>e. fst (snd e)) ?Rt)" by force
  moreover have "inj_on (\<lambda>e. fst (snd e)) (set ?Rt)" "distinct ?Rt"
    using assms by (auto simp: distinct_map inj_on_def)
  then have "distinct (map (\<lambda>e. fst (snd e)) ?Rt)" by (simp add: distinct_map)
  ultimately show ?thesis using distinct_card by fastforce
qed

definition groups_of :: "entry list \<Rightarrow> groups \<Rightarrow> bool" where
  "groups_of R gs \<longleftrightarrow> keys_sorted gs \<and> (\<forall>g \<in> set gs. snd g \<noteq> [] \<and> [] \<notin> set (snd g)) \<and> distinct (map slot R) \<and>
     (\<forall>t i n. (t, i, n) \<in> set R \<longleftrightarrow> (\<exists>ns. (t, ns) \<in> set gs \<and> i < length ns \<and> ns ! i = n)) \<and>
     (\<forall>(t, ns) \<in> set gs. length ns = tag_uses R t)"

text \<open>Counts equal to the lengths of the names: exactly when each index below the number of entries is used.\<close>

lemma counts_full:
  assumes inv: "entries_inv R (m, tn)"
  shows "length (read_key [] t tn) = tag_uses R t \<longleftrightarrow> (\<forall>i n. (t, i, n) \<in> set R \<longrightarrow> i < tag_uses R t)"
    and "length (read_key [] t tn) = tag_uses R t \<Longrightarrow> [] \<notin> set (read_key [] t tn)"
proof -
  define ns where "ns = read_key [] t tn"
  define I where "I = {i. \<exists>n. (t, i, n) \<in> set R}"
  have held: "x \<noteq> [] \<Longrightarrow> j < length ns \<and> ns ! j = x \<longleftrightarrow> (t, j, x) \<in> set R" for j x
    using inv unfolding entries_inv_def ns_def by simp
  have named: "(t, j, x) \<in> set R \<Longrightarrow> x \<noteq> []" for j x using inv unfolding entries_inv_def by auto
  have I: "I = {i. i < length ns \<and> ns ! i \<noteq> []}"
  proof (rule set_eqI)
    fix i
    show "i \<in> I \<longleftrightarrow> i \<in> {i. i < length ns \<and> ns ! i \<noteq> []}"
    proof
      assume "i \<in> I"
      then obtain n where n: "(t, i, n) \<in> set R" by (auto simp: I_def)
      show "i \<in> {i. i < length ns \<and> ns ! i \<noteq> []}" using held [OF named [OF n], of i] n named [OF n] by simp
    next
      assume "i \<in> {i. i < length ns \<and> ns ! i \<noteq> []}"
      then have "(t, i, ns ! i) \<in> set R" using held [of "ns ! i" i] by simp
      then show "i \<in> I" by (auto simp: I_def)
    qed
  qed
  have "card I = tag_uses R t" using slots_card inv unfolding I_def entries_inv_def by blast
  then have card: "tag_uses R t = card I" ..
  have "I \<subseteq> {..<length ns}" using I by auto
  then have le: "card I \<le> length ns" using card_mono [of "{..<length ns}" I] by simp
  have full: "I = {..<length ns}" if "length ns = card I"
    using card_subset_eq [OF finite_lessThan \<open>I \<subseteq> {..<length ns}\<close>] that by (metis card_lessThan)
  have "ns = [] \<or> last ns \<noteq> []" using inv unfolding entries_inv_def ns_def by auto
  then have top: "ns \<noteq> [] \<Longrightarrow> length ns - 1 \<in> I" using I by (auto simp: last_conv_nth)
  show "length (read_key [] t tn) = tag_uses R t \<longleftrightarrow> (\<forall>i n. (t, i, n) \<in> set R \<longrightarrow> i < tag_uses R t)"
    unfolding ns_def [symmetric] card
  proof
    assume c: "length ns = card I"
    have "\<forall>i \<in> I. i < length ns" using full [OF c] by blast
    then show "\<forall>i n. (t, i, n) \<in> set R \<longrightarrow> i < card I" unfolding c by (auto simp: I_def)
  next
    assume "\<forall>i n. (t, i, n) \<in> set R \<longrightarrow> i < card I"
    then have "\<forall>i \<in> I. i < card I" unfolding I_def by blast
    then have "ns \<noteq> [] \<Longrightarrow> length ns - 1 < card I" using top by blast
    then show "length ns = card I" using le by (cases ns) auto
  qed
  show "length (read_key [] t tn) = tag_uses R t \<Longrightarrow> [] \<notin> set (read_key [] t tn)"
    unfolding ns_def [symmetric] card
  proof
    assume c: "length ns = card I" and "[] \<in> set ns"
    then obtain i where "i < length ns" "ns ! i = []" by (metis in_set_conv_nth)
    with full [OF c] I show False by blast
  qed
qed

lemma entries_keys:
  assumes "entries_inv R (m, tn)"
  shows "keys_sorted m" "map fst m = map fst tn" "keys_sorted tn" "fst ` set m = fst ` set R"
proof -
  show a: "keys_sorted m" and b: "map fst m = map fst tn" and "fst ` set m = fst ` set R"
    using assms unfolding entries_inv_def fst_conv snd_conv by blast+
  from a show "keys_sorted tn" unfolding b .
qed

lemma counts_agree:
  assumes inv: "entries_inv R (m, tn)"
  shows "list_all2 (\<lambda>p q. td_count (snd p) = int (length (snd q))) m tn \<longleftrightarrow> (\<forall>g \<in> set tn. length (snd g) = tag_uses R (fst g))"
proof -
  note keys = entries_keys [OF inv]
  have len: "length m = length tn" using keys(2) map_eq_imp_length_eq by blast
  have count: "td_count (snd (m ! j)) = int (tag_uses R (fst (tn ! j)))" if "j < length tn" for j
  proof -
    have key: "fst (m ! j) = fst (tn ! j)" using keys(2) that len by (metis nth_map)
    have "m ! j \<in> set m" using that len by simp
    then have "map_of m (fst (tn ! j)) = Some (snd (m ! j))" using map_of_sorted [OF keys(1)] key by (metis prod.collapse)
    then have "read_key TagData_new (fst (tn ! j)) m = snd (m ! j)" by (simp add: read_key_def)
    moreover have "td_count (read_key TagData_new u m) = int (tag_uses R u)" for u using inv unfolding entries_inv_def fst_conv snd_conv by blast
    ultimately show ?thesis by metis
  qed
  show ?thesis
  proof
    assume l: "list_all2 (\<lambda>p q. td_count (snd p) = int (length (snd q))) m tn"
    show "\<forall>g \<in> set tn. length (snd g) = tag_uses R (fst g)"
    proof
      fix g assume "g \<in> set tn"
      then obtain j where j: "j < length tn" "g = tn ! j" by (metis in_set_conv_nth)
      have "td_count (snd (m ! j)) = int (length (snd (tn ! j)))" using list_all2_nthD2 [OF l j(1)] .
      then show "length (snd g) = tag_uses R (fst g)" using count [OF j(1)] j(2) by simp
    qed
  next
    assume "\<forall>g \<in> set tn. length (snd g) = tag_uses R (fst g)"
    then show "list_all2 (\<lambda>p q. td_count (snd p) = int (length (snd q))) m tn"
      using count len by (simp add: list_all2_conv_all_nth)
  qed
qed

lemma read_sorted: "keys_sorted tn \<Longrightarrow> (t, ns) \<in> set tn \<Longrightarrow> read_key [] t tn = ns"
  using map_of_sorted [of tn t ns] by (simp add: read_key_def)

lemma groups_built:
  assumes inv: "entries_inv R (m, tn)" and "\<forall>g \<in> set tn. length (snd g) = tag_uses R (fst g)"
  shows "groups_of R tn"
proof -
  have sorted: "keys_sorted tn" "fst ` set tn = fst ` set R"
    using entries_keys [OF inv] by (blast, metis list.set_map)
  have held: "x \<noteq> [] \<Longrightarrow> j < length (read_key [] u tn) \<and> read_key [] u tn ! j = x \<longleftrightarrow> (u, j, x) \<in> set R" for u j x
    using inv unfolding entries_inv_def fst_conv snd_conv by blast
  have named: "(t, j, x) \<in> set R \<Longrightarrow> x \<noteq> []" for t j x using inv unfolding entries_inv_def by auto
  have names: "ns \<noteq> [] \<and> [] \<notin> set ns" if g: "(t, ns) \<in> set tn" for t ns
  proof
    have ns: "read_key [] t tn = ns" using read_sorted [OF sorted(1) g] .
    have "t \<in> fst ` set R" using g sorted(2) by (metis fst_conv image_eqI)
    then obtain j x where "(t, j, x) \<in> set R" by auto
    with held [of x j t] named [of t j x] ns show "ns \<noteq> []" by auto
    have "length (read_key [] t tn) = tag_uses R t" using assms(2) g ns by auto
    from counts_full(2) [OF inv this] ns show "[] \<notin> set ns" by simp
  qed
  have "(t, i, n) \<in> set R \<longleftrightarrow> (\<exists>ns. (t, ns) \<in> set tn \<and> i < length ns \<and> ns ! i = n)" for t i n
  proof
    assume r: "(t, i, n) \<in> set R"
    then have "t \<in> fst ` set tn" using sorted(2) by (metis fst_conv image_eqI)
    then obtain ns where ns: "(t, ns) \<in> set tn" by auto
    from held [OF named [OF r], of i t] r read_sorted [OF sorted(1) ns] ns
    show "\<exists>ns. (t, ns) \<in> set tn \<and> i < length ns \<and> ns ! i = n" by auto
  next
    assume "\<exists>ns. (t, ns) \<in> set tn \<and> i < length ns \<and> ns ! i = n"
    then obtain ns where ns: "(t, ns) \<in> set tn" "i < length ns" "ns ! i = n" by blast
    have "n \<noteq> []" using names [OF ns(1)] ns(2,3) nth_mem by metis
    from held [OF this, of i t] ns read_sorted [OF sorted(1) ns(1)] show "(t, i, n) \<in> set R" by simp
  qed
  moreover have "distinct (map slot R)" using inv unfolding entries_inv_def by blast
  ultimately show ?thesis unfolding groups_of_def using sorted(1) names assms(2) by (auto simp: case_prod_beta)
qed

lemma groups_length: "groups_of R gs \<Longrightarrow> (t, ns) \<in> set gs \<Longrightarrow> length ns = tag_uses R t"
  unfolding groups_of_def by blast

lemma groups_entry: "groups_of R gs \<Longrightarrow> (t, i, n) \<in> set R \<longleftrightarrow> (\<exists>ns. (t, ns) \<in> set gs \<and> i < length ns \<and> ns ! i = n)"
  unfolding groups_of_def by blast

lemma groups_below: "groups_of R gs \<Longrightarrow> (t, i, n) \<in> set R \<Longrightarrow> i < tag_uses R t"
  using groups_entry groups_length by metis

lemma groups_unique:
  assumes "groups_of R gs" "groups_of R gs'"
  shows "gs = gs'"
proof -
  have sub: "(t, ns) \<in> set b" if g: "groups_of R a" "groups_of R b" "(t, ns) \<in> set a" for a b t ns
  proof -
    note both = groups_entry [OF g(1), of t] groups_entry [OF g(2), of t]
    have "ns \<noteq> []" using g(1,3) unfolding groups_of_def by auto
    then have "(t, 0, ns ! 0) \<in> set R" using both(1) g(3) by blast
    then obtain ns' where ns': "(t, ns') \<in> set b" using both(2) by blast
    have len: "length ns = tag_uses R t" "length ns' = tag_uses R t" using groups_length g ns' by blast+
    have key: "(t, x) \<in> set b \<Longrightarrow> x = ns'" for x
      using g(2) ns' keys_sorted_distinct [of b] unfolding groups_of_def by (metis eq_key_imp_eq_value)
    have "ns ! i = ns' ! i" if "i < length ns" for i
    proof -
      have "(t, i, ns ! i) \<in> set R" using both(1) [of i "ns ! i"] g(3) that by blast
      then obtain x where "(t, x) \<in> set b" "x ! i = ns ! i" using both(2) [of i "ns ! i"] by blast
      with key show ?thesis by metis
    qed
    then have "ns = ns'" using len by (simp add: nth_equalityI)
    with ns' show ?thesis by simp
  qed
  have set: "set gs = set gs'" using sub [OF assms] sub [OF assms(2,1)] by auto
  have s: "keys_sorted gs" "keys_sorted gs'" using assms unfolding groups_of_def by blast+
  then have "sorted (map fst gs)" "sorted (map fst gs')" "distinct (map fst gs)" "distinct (map fst gs')"
    by (auto simp: strict_sorted_iff)
  moreover from this have "inj_on fst (set gs \<union> set gs')" using set by (simp add: distinct_map)
  ultimately show ?thesis using map_sorted_distinct_set_unique [of fst gs gs'] set by blast
qed

text \<open>Initialisation builds the groups of the entries, and succeeds when there are such groups.\<close>

lemma TagMap_Initialize_result:
  "TagMap_Initialize ss = Inr tm \<longleftrightarrow> (\<exists>es gs. parsed ss es \<and> groups_of (resolve es) gs \<and> tm = build gs)"
proof -
  have finish: "TagMap_Initialize ss = (if \<forall>g \<in> set tn. length (snd g) = tag_uses R (fst g) then Inr (build tn) else Inl FailedPrecondition)"
    if st: "add_entries ss ([], []) = Inr (m, tn)" "entries_inv R (m, tn)" for m tn R
  proof -
    have "\<forall>(t, ns) \<in> set tn. read_key [] t tn = ns" using read_sorted [OF entries_keys(3) [OF st(2)]] by blast
    from assign_ids_result [OF entries_keys(2) [OF st(2)] this, of 0] counts_agree [OF st(2)] show ?thesis
      by (simp add: TagMap_Initialize_def st(1) build_def InitializeNames_def)
  qed
  note result = add_entries_result [OF entries_inv_start, of ss, folded resolve_def]
  show ?thesis
  proof
    assume i: "TagMap_Initialize ss = Inr tm"
    then obtain st where st: "add_entries ss ([], []) = Inr st" by (auto simp: TagMap_Initialize_def split: sum.splits)
    obtain m tn where mtn: "st = (m, tn)" by (cases st)
    obtain es where es: "parsed ss es" "entries_inv (resolve es) (m, tn)" using result by (auto simp: st mtn)
    from finish [OF st [unfolded mtn] es(2)] i
    have "\<forall>g \<in> set tn. length (snd g) = tag_uses (resolve es) (fst g)" "tm = build tn" by (simp_all split: if_splits)
    then show "\<exists>es gs. parsed ss es \<and> groups_of (resolve es) gs \<and> tm = build gs" using es groups_built by blast
  next
    assume "\<exists>es gs. parsed ss es \<and> groups_of (resolve es) gs \<and> tm = build gs"
    then obtain es gs where es: "parsed ss es" "groups_of (resolve es) gs" "tm = build gs" by blast
    have "distinct (map slot (resolve es))" using es(2) unfolding groups_of_def by blast
    then have ok: "\<exists>es. parsed ss es \<and> distinct (map slot (resolve es))" using es(1) by blast
    have "\<exists>st. add_entries ss ([], []) = Inr st"
    proof (cases "add_entries ss ([], [])")
      case (Inl e)
      with result have "\<not> (\<exists>es. parsed ss es \<and> distinct (map slot (resolve es)))" by simp
      with ok show ?thesis by blast
    qed blast
    then obtain st where st1: "add_entries ss ([], []) = Inr st" by blast
    then obtain es' where st: "add_entries ss ([], []) = Inr st" "parsed ss es'" "entries_inv (resolve es') st"
      using result by auto
    obtain m tn where mtn: "st = (m, tn)" by (cases st)
    have inv: "entries_inv (resolve es) (m, tn)" using st(2,3) parsed_unique [OF es(1)] mtn by metis
    have keys: "keys_sorted tn" using entries_keys(3) [OF inv] .
    note below = groups_below [OF es(2)]
    have full: "\<forall>g \<in> set tn. length (snd g) = tag_uses (resolve es) (fst g)"
    proof
      fix g assume g: "g \<in> set tn"
      then have "read_key [] (fst g) tn = snd g" using read_sorted [OF keys, of "fst g" "snd g"] by simp
      moreover have "length (read_key [] (fst g) tn) = tag_uses (resolve es) (fst g)" using counts_full(1) [OF inv] below by blast
      ultimately show "length (snd g) = tag_uses (resolve es) (fst g)" by simp
    qed
    have "TagMap_Initialize ss = Inr (build tn)" using finish [OF st(1) [unfolded mtn] inv] full by simp
    moreover have "tn = gs" using groups_unique [OF groups_built [OF inv full] es(2)] .
    ultimately show "TagMap_Initialize ss = Inr tm" using es(3) by simp
  qed
qed

section \<open>Reading what was built\<close>

abbreviation "names_len gs \<equiv> length (concat (map snd gs))"

lemma layout_append: "layout k (xs @ ys) = layout k xs @ layout (k + int (names_len xs)) ys"
  by (induction xs arbitrary: k) (auto simp: add.assoc)

lemma layout_keys [simp]: "map fst (layout k gs) = map fst gs"
  by (induction k gs rule: layout.induct) auto

lemma layout_fst [simp]: "fst ` set (layout k gs) = fst ` set gs"
  by (metis layout_keys list.set_map)

lemma layout_range: "(t, d) \<in> set (layout k gs) \<Longrightarrow> k \<le> td_id d \<and> td_id d + td_count d \<le> k + int (names_len gs)"
proof (induction k gs rule: layout.induct)
  case (2 k t' ns gs)
  then show ?case by (cases "(t, d) \<in> set (layout (k + int (length ns)) gs)") auto
qed simp

lemma layout_at:
  assumes "keys_sorted (xs @ (t, ns) # ys)"
  shows "map_of (layout k (xs @ (t, ns) # ys)) t = Some \<lparr>td_id = k + int (names_len xs), td_count = int (length ns)\<rparr>"
proof -
  have "t \<notin> fst ` set xs" using keys_sorted_distinct [OF assms] by auto
  then have "map_of (layout k xs) t = None" by (simp add: map_of_eq_None_iff)
  then show ?thesis by (simp add: layout_append map_add_def)
qed

lemma group_split: "(t, ns) \<in> set gs \<Longrightarrow> \<exists>xs ys. gs = xs @ (t, ns) # ys"
  by (rule split_list)

lemma GetId_build:
  assumes "keys_sorted (xs @ (t, ns) # ys)" and "i < length ns"
  shows "GetId (build (xs @ (t, ns) # ys)) t (int i) = int (names_len xs + i)"
  using layout_at [OF assms(1), of 0] assms(2) by (simp add: GetId_def build_def)

lemma NumEntries_build:
  assumes "keys_sorted gs"
  shows "NumEntries (build gs) t = int (length (read_key [] t gs))"
proof (cases "t \<in> fst ` set gs")
  case True
  then obtain ns where ns: "(t, ns) \<in> set gs" by auto
  then obtain xs ys where gs: "gs = xs @ (t, ns) # ys" using group_split by metis
  have "read_key [] t gs = ns" using read_sorted [OF assms ns] .
  then show ?thesis using layout_at [of xs t ns ys 0] assms by (simp add: NumEntries_def build_def gs)
next
  case False
  then have "map_of (layout 0 gs) t = None" "map_of gs t = None" by (simp_all add: map_of_eq_None_iff)
  then show ?thesis by (simp add: NumEntries_def build_def read_key_def)
qed

lemma name_build: "i < length ns \<Longrightarrow> tm_names (build (xs @ (t, ns) # ys)) ! (names_len xs + i) = ns ! i"
  by (simp add: build_def nth_append)

lemma find_append_none: "\<forall>x \<in> set xs. \<not> P x \<Longrightarrow> List.find P (xs @ ys) = List.find P ys"
  by (induction xs) auto

lemma TagAndIndexFromId_build:
  assumes "i < length ns"
  shows "TagAndIndexFromId (build (xs @ (t, ns) # ys)) (int (names_len xs + i)) = (t, int i)"
proof -
  let ?P = "\<lambda>(tag, d). int (names_len xs + i) \<ge> td_id d \<and> int (names_len xs + i) < td_id d + td_count d"
  have "\<not> ?P p" if "p \<in> set (layout 0 xs)" for p
    using layout_range [of "fst p" "snd p" 0 xs] that by (auto simp: case_prod_beta)
  then have "List.find ?P (layout 0 (xs @ (t, ns) # ys)) = List.find ?P (layout (int (names_len xs)) ((t, ns) # ys))"
    by (simp add: layout_append find_append_none)
  also have "\<dots> = Some (t, \<lparr>td_id = int (names_len xs), td_count = int (length ns)\<rparr>)" using assms by simp
  finally show ?thesis by (simp add: TagAndIndexFromId_def build_def)
qed

lemma id_split: "k < names_len gs \<Longrightarrow> \<exists>xs t ns ys i. gs = xs @ (t, ns) # ys \<and> i < length ns \<and> k = names_len xs + i"
proof (induction gs arbitrary: k)
  case (Cons g gs)
  obtain t ns where g: "g = (t, ns)" by (cases g)
  show ?case
  proof (cases "k < length ns")
    case True
    then have "g # gs = [] @ (t, ns) # gs \<and> k < length ns \<and> k = names_len [] + k" using g by simp
    then show ?thesis by blast
  next
    case False
    then have "k - length ns < names_len gs" using Cons.prems g by simp
    then obtain xs t' ns' ys i where "gs = xs @ (t', ns') # ys" "i < length ns'" "k - length ns = names_len xs + i"
      using Cons.IH by blast
    then have "g # gs = ((t, ns) # xs) @ (t', ns') # ys \<and> i < length ns' \<and> k = names_len ((t, ns) # xs) + i" using g False by simp
    then show ?thesis by blast
  qed
qed simp

lemma entry_place:
  assumes "groups_of R gs" and "(t, i, n) \<in> set R"
  obtains xs ns ys where "gs = xs @ (t, ns) # ys" "i < length ns" "ns ! i = n"
  using assms groups_entry group_split by metis

lemma build_entry:
  assumes "groups_of R gs" and "(t, i, n) \<in> set R"
  shows "0 \<le> GetId (build gs) t (int i)" "GetId (build gs) t (int i) < num_entries (build gs)"
    "tm_names (build gs) ! nat (GetId (build gs) t (int i)) = n" "TagAndIndexFromId (build gs) (GetId (build gs) t (int i)) = (t, int i)"
proof -
  obtain xs ns ys where gs: "gs = xs @ (t, ns) # ys" "i < length ns" "ns ! i = n" using entry_place [OF assms] .
  have "keys_sorted gs" using assms(1) unfolding groups_of_def by blast
  then have g: "GetId (build gs) t (int i) = int (names_len xs + i)" unfolding gs(1) by (rule GetId_build [OF _ gs(2)])
  show "0 \<le> GetId (build gs) t (int i)" "GetId (build gs) t (int i) < num_entries (build gs)"
    "tm_names (build gs) ! nat (GetId (build gs) t (int i)) = n" "TagAndIndexFromId (build gs) (GetId (build gs) t (int i)) = (t, int i)"
    unfolding g using gs name_build [OF gs(2)] TagAndIndexFromId_build [OF gs(2)] by (simp, simp add: build_def, simp_all del: of_nat_add)
qed

lemma build_ids:
  assumes "groups_of R gs" and "0 \<le> k" and "k < num_entries (build gs)"
  obtains t i n where "(t, i, n) \<in> set R" "GetId (build gs) t (int i) = k"
proof -
  have "nat k < names_len gs" using assms(2,3) by (simp add: build_def)
  then obtain xs t ns ys i where gs: "gs = xs @ (t, ns) # ys" "i < length ns" "nat k = names_len xs + i" using id_split by metis
  have "keys_sorted gs" using assms(1) unfolding groups_of_def by blast
  then have "GetId (build gs) t (int i) = int (names_len xs + i)" unfolding gs(1) by (rule GetId_build [OF _ gs(2)])
  moreover have "(t, i, ns ! i) \<in> set R" using groups_entry [OF assms(1)] gs by auto
  ultimately show ?thesis using that gs(3) assms(2) by (metis int_nat_eq)
qed

lemma build_tag_order:
  assumes "groups_of R gs" and "(t, i, n) \<in> set R" and "(t', i', n') \<in> set R" and "t < t' \<or> t = t' \<and> i < i'"
  shows "GetId (build gs) t (int i) < GetId (build gs) t' (int i')"
proof -
  have sorted: "keys_sorted gs" using assms(1) unfolding groups_of_def by blast
  obtain xs ns ys where gs: "gs = xs @ (t, ns) # ys" "i < length ns" using entry_place [OF assms(1,2)] by metis
  obtain xs' ns' ys' where gs': "gs = xs' @ (t', ns') # ys'" "i' < length ns'" using entry_place [OF assms(1,3)] by metis
  have id: "GetId (build gs) t (int i) = int (names_len xs + i)" using GetId_build [OF sorted [unfolded gs(1)] gs(2)] gs(1) by metis
  have id': "GetId (build gs) t' (int i') = int (names_len xs' + i')" using GetId_build [OF sorted [unfolded gs'(1)] gs'(2)] gs'(1) by metis
  show ?thesis
  proof (cases "t = t'")
    case True
    have "distinct (map fst gs)" using keys_sorted_distinct [OF sorted] .
    then have "xs = xs'" using gs(1) gs'(1) True by (auto simp: append_eq_append_conv2 append_eq_Cons_conv Cons_eq_append_conv)
    then show ?thesis using assms(4) True id id' by simp
  next
    case False
    then have lt: "t < t'" using assms(4) by blast
    have "(t', ns') \<in> set ys"
    proof -
      have "\<forall>x \<in> fst ` set xs. x < t" using sorted gs(1) by (auto simp: sorted_wrt_append)
      moreover have "(t', ns') \<in> set gs" using gs'(1) by simp
      ultimately show ?thesis using lt False gs(1) by (auto dest: less_trans)
    qed
    then obtain us vs where ys: "ys = us @ (t', ns') # vs" using group_split by metis
    have "GetId (build gs) t' (int i') = int (names_len (xs @ (t, ns) # us) + i')"
      using GetId_build [of "xs @ (t, ns) # us" t' ns' vs i'] sorted gs'(2) by (simp add: gs(1) ys)
    then show ?thesis using id gs(2) by simp
  qed
qed

lemma resolve_from_length: "length (resolve_from es R) = length es + length R"
  by (induction es arbitrary: R) auto

lemma build_size:
  assumes "groups_of R gs"
  shows "num_entries (build gs) = int (length R)"
proof -
  define ids where "ids = (\<lambda>e :: entry. GetId (build gs) (fst e) (int (fst (snd e))))"
  have "ids ` set R = {0..<num_entries (build gs)}"
  proof
    show "ids ` set R \<subseteq> {0..<num_entries (build gs)}" using build_entry(1,2) [OF assms] by (auto simp: ids_def)
    show "{0..<num_entries (build gs)} \<subseteq> ids ` set R"
    proof
      fix k assume "k \<in> {0..<num_entries (build gs)}"
      then obtain t i n where "(t, i, n) \<in> set R" "GetId (build gs) t (int i) = k" using build_ids [OF assms, of k] by auto
      then show "k \<in> ids ` set R" by (force simp: ids_def)
    qed
  qed
  moreover have slots: "distinct (map slot R)" using assms unfolding groups_of_def by blast
  have "inj_on ids (set R)"
  proof (rule inj_onI)
    fix e f assume ef: "e \<in> set R" "f \<in> set R" "ids e = ids f"
    have found: "TagAndIndexFromId (build gs) (ids x) = (fst x, int (fst (snd x)))" if "x \<in> set R" for x
      using build_entry(4) [OF assms, of "fst x" "fst (snd x)" "snd (snd x)"] that by (simp add: ids_def)
    have "(fst e, int (fst (snd e))) = (fst f, int (fst (snd f)))" using found [OF ef(1)] found [OF ef(2)] unfolding ef(3) by (rule trans [OF sym])
    then have "slot e = slot f" by simp
    with slots ef(1,2) show "e = f" by (auto simp: distinct_map inj_on_def)
  qed
  then have "card (ids ` set R) = length R" using slots by (simp add: card_image distinct_card distinct_map)
  ultimately have "length R = nat (num_entries (build gs))" by simp
  moreover have "0 \<le> num_entries (build gs)" by (simp add: build_def)
  ultimately show ?thesis by simp
qed

section \<open>The canonical entries\<close>

text \<open>What is parsed from the canonical form of a group, and the slots it fills.\<close>

definition canonical_parsed :: "string \<times> string list \<Rightarrow> (string \<times> int \<times> string) list" where
  "canonical_parsed = (\<lambda>(t, ns). if t = [] then map (\<lambda>n. ([], - 1, n)) ns
     else if length ns \<le> 1 then [(t, 0, ns ! 0)] else map (\<lambda>i. (t, int i, ns ! i)) [0..<length ns])"

definition group_slots :: "string \<times> string list \<Rightarrow> entry list" where
  "group_slots = (\<lambda>(t, ns). map (\<lambda>i. (t, i, ns ! i)) [0..<length ns])"

definition canonical_group :: "string \<times> string list \<Rightarrow> string list" where
  "canonical_group = (\<lambda>(t, ns). if t = [] then ns else if length ns \<le> 1 then [t @ '':'' @ ns ! 0]
     else map (\<lambda>i. t @ '':'' @ to_string (int i) @ '':'' @ ns ! i) [0..<length ns])"

definition valid_group :: "string \<times> string list \<Rightarrow> bool" where
  "valid_group = (\<lambda>(t, ns). ns \<noteq> [] \<and> (t \<noteq> [] \<longrightarrow> ValidateTag t \<and> int (length ns) \<le> kMaxCollectionItemId + 1) \<and> (\<forall>n \<in> set ns. ValidateName n))"

lemma upto_map: "[0..int n - 1] = map int [0..<n]"
  by (rule nth_equalityI) simp_all

lemma canonical_tag_build:
  assumes "ns \<noteq> []"
  shows "canonical_tag (pre @ ns @ post) t \<lparr>td_id = int (length pre), td_count = int (length ns)\<rparr> = canonical_group (t, ns)"
proof -
  have nth: "(ns @ post) ! i = ns ! i" if "i < length ns" for i
    using that by (simp add: nth_append)
  have "map (\<lambda>i. (pre @ ns @ post) ! nat (int (length pre) + i)) [0..int (length ns) - 1] = map (\<lambda>i. ns ! i) [0..<length ns]"
    unfolding upto_map map_map by (rule map_cong) (simp_all add: nth nat_add_distrib)
  moreover have "map (\<lambda>i. t @ '':'' @ to_string i @ '':'' @ (pre @ ns @ post) ! nat (int (length pre) + i)) [0..int (length ns) - 1] =
      map (\<lambda>i. t @ '':'' @ to_string (int i) @ '':'' @ ns ! i) [0..<length ns]"
    unfolding upto_map map_map by (rule map_cong) (simp_all add: nth nat_add_distrib)
  moreover have "(pre @ ns @ post) ! length pre = ns ! 0" using assms by (cases ns) simp_all
  ultimately show ?thesis unfolding canonical_tag_def canonical_group_def by (simp add: map_nth)
qed

lemma CanonicalEntries_build:
  assumes "\<forall>g \<in> set gs. snd g \<noteq> []"
  shows "CanonicalEntries (build gs) = concat (map canonical_group gs)"
proof -
  have "concat (map (\<lambda>(t, d). canonical_tag (concat (map snd (xs @ gs))) t d) (layout (int (names_len xs)) gs)) = concat (map canonical_group gs)"
    if "\<forall>g \<in> set gs. snd g \<noteq> []" for xs gs
    using that
  proof (induction gs arbitrary: xs)
    case (Cons g gs)
    obtain t ns where g: "g = (t, ns)" by (cases g)
    have "canonical_tag (concat (map snd xs) @ ns @ concat (map snd gs)) t \<lparr>td_id = int (names_len xs), td_count = int (length ns)\<rparr> = canonical_group g"
      unfolding g using Cons.prems g by (intro canonical_tag_build) simp
    moreover have "concat (map (\<lambda>(t, d). canonical_tag (concat (map snd ((xs @ [g]) @ gs))) t d) (layout (int (names_len (xs @ [g]))) gs)) =
        concat (map canonical_group gs)"
      by (rule Cons.IH) (use Cons.prems in simp)
    ultimately show ?case by (simp add: g)
  qed simp
  from this [OF assms, of "[]"] show ?thesis by (simp add: CanonicalEntries_def build_def)
qed

lemma parsed_append: "parsed ss es \<Longrightarrow> parsed ss' es' \<Longrightarrow> parsed (ss @ ss') (es @ es')"
  unfolding parsed_def by (rule list_all2_appendI)

lemma parsed_group:
  assumes "valid_group g"
  shows "parsed (canonical_group g) (canonical_parsed g)"
proof -
  obtain t ns where g: "g = (t, ns)" by (cases g)
  have names: "\<forall>n \<in> set ns. ValidateName n" "ns \<noteq> []" using assms by (auto simp: valid_group_def g)
  show ?thesis
  proof (cases "t = []")
    case True
    then show ?thesis using names
      by (simp add: g parsed_def canonical_group_def canonical_parsed_def list_all2_map2 list_all2_same parse_name)
  next
    case False
    then have t: "ValidateTag t" "int (length ns) \<le> kMaxCollectionItemId + 1" using assms by (simp_all add: valid_group_def g)
    show ?thesis
    proof (cases "length ns \<le> 1")
      case True
      then show ?thesis using False names t by (simp add: g parsed_def canonical_group_def canonical_parsed_def parse_tag_name)
    next
      case many: False
      have "ParseTagIndexName (t @ '':'' @ to_string (int i) @ '':'' @ ns ! i) = Inr (t, int i, ns ! i)" if "i < length ns" for i
        using parse_tag_index_name [OF t(1), of "ns ! i" "int i"] names that t(2) by simp
      then show ?thesis using False many
        by (simp add: g parsed_def canonical_group_def canonical_parsed_def list_all2_map1 list_all2_map2 list_all2_same)
    qed
  qed
qed

lemma parsed_groups: "\<forall>g \<in> set gs. valid_group g \<Longrightarrow> parsed (concat (map canonical_group gs)) (concat (map canonical_parsed gs))"
proof (induction gs)
  case Nil
  then show ?case by (simp add: parsed_def)
next
  case (Cons g gs)
  then show ?case using parsed_append [OF parsed_group] by simp
qed

lemma resolve_group:
  assumes "valid_group g" and "fst g \<notin> fst ` set R"
  shows "resolve_from (canonical_parsed g) R = R @ group_slots g"
proof -
  obtain t ns where g: "g = (t, ns)" by (cases g)
  have none: "filter (\<lambda>e. fst e = t) R = []" using assms(2) by (auto simp: g filter_empty_conv)
  have numbered: "resolve_from (map (\<lambda>i. (t, int i, ns ! i)) is) R' = R' @ map (\<lambda>i. (t, i, ns ! i)) is" for "is" R'
    by (induction "is" arbitrary: R') (auto simp: resolve_one_def)
  have unnumbered: "resolve_from (map (\<lambda>n. ([], - 1, n)) ms) (R @ map (\<lambda>i. ([], i, ns ! i)) [0..<j]) = R @ map (\<lambda>i. ([], i, ns ! i)) [0..<length ns]"
    if "t = []" "ns = take j ns @ ms" "j \<le> length ns" for ms j
    using that(2,3)
  proof (induction ms arbitrary: j)
    case Nil
    then have "length ns = length (take j ns)" by simp
    then have "j = length ns" using Nil(2) by simp
    then show ?case by simp
  next
    case (Cons m ms)
    then have len: "length ns = j + Suc (length ms)" by (metis length_append length_take min.absorb2 list.size(4) add.right_neutral add_Suc_right)
    have "ns ! j = (take j ns @ m # ms) ! j" using Cons.prems(1) by metis
    also have "\<dots> = m" using Cons.prems(2) by (simp add: nth_append)
    finally have m: "ns ! j = m" .
    have "resolve_one (R @ map (\<lambda>i. ([], i, ns ! i)) [0..<j]) ([], - 1, m) = ([], j, ns ! j)"
      using none that(1) by (simp add: resolve_one_def m filter_map comp_def)
    moreover have "ns = take (Suc j) ns @ ms"
      using Cons.prems(1) len m by (simp add: take_Suc_conv_app_nth)
    ultimately show ?case using Cons.IH [of "Suc j"] len by simp
  qed
  show ?thesis
  proof (cases "t = []")
    case True
    then show ?thesis using unnumbered [of 0 ns] by (simp add: g canonical_parsed_def group_slots_def)
  next
    case False
    have "ns \<noteq> []" using assms(1) by (simp add: g valid_group_def)
    then have "length ns \<le> 1 \<Longrightarrow> length ns = 1" by (cases ns) auto
    then show ?thesis using False numbered [of "[0]"] numbered by (auto simp: g canonical_parsed_def group_slots_def)
  qed
qed

lemma group_slots_keys: "ns \<noteq> [] \<Longrightarrow> fst ` set (group_slots (t, ns)) = {t}"
  by (simp add: group_slots_def image_image image_constant_conv)

lemma resolve_groups:
  assumes "\<forall>g \<in> set gs. valid_group g" and "distinct (map fst gs)" and "fst ` set gs \<inter> fst ` set R = {}"
  shows "resolve_from (concat (map canonical_parsed gs)) R = R @ concat (map group_slots gs)"
  using assms
proof (induction gs arbitrary: R)
  case (Cons g gs)
  obtain t ns where g: "g = (t, ns)" by (cases g)
  have "ns \<noteq> []" using Cons.prems(1) by (simp add: g valid_group_def)
  then have "fst ` set (R @ group_slots g) = insert t (fst ` set R)" using group_slots_keys [of ns t] by (simp add: g image_Un)
  then have "fst ` set gs \<inter> fst ` set (R @ group_slots g) = {}" using Cons.prems by (auto simp: g)
  then have "resolve_from (concat (map canonical_parsed gs)) (R @ group_slots g) = (R @ group_slots g) @ concat (map group_slots gs)"
    using Cons.IH [of "R @ group_slots g"] Cons.prems by simp
  moreover have "resolve_from (canonical_parsed g) R = R @ group_slots g"
    using Cons.prems by (intro resolve_group) (auto simp: g)
  ultimately show ?case by simp
qed simp

lemma groups_of_slots:
  assumes "\<forall>g \<in> set gs. valid_group g" and "keys_sorted gs"
  shows "groups_of (concat (map group_slots gs)) gs"
proof -
  define R where "R = concat (map group_slots gs)"
  have entry: "(t, i, n) \<in> set R \<longleftrightarrow> (\<exists>ns. (t, ns) \<in> set gs \<and> i < length ns \<and> ns ! i = n)" for t i n
  proof -
    have "(t, i, n) \<in> set (group_slots g) \<longleftrightarrow> fst g = t \<and> i < length (snd g) \<and> snd g ! i = n" for g
      by (cases g) (auto simp: group_slots_def)
    then have "(t, i, n) \<in> set R \<longleftrightarrow> (\<exists>g \<in> set gs. fst g = t \<and> i < length (snd g) \<and> snd g ! i = n)" by (simp add: R_def)
    then show ?thesis by (metis fst_conv snd_conv prod.collapse)
  qed
  have "length ns = tag_uses R t" if "(t, ns) \<in> set gs" for t ns
  proof -
    obtain xs ys where gs: "gs = xs @ (t, ns) # ys" using group_split [OF \<open>(t, ns) \<in> set gs\<close>] by blast
    have "t \<notin> fst ` set xs" "t \<notin> fst ` set ys" using keys_sorted_distinct [OF assms(2)] gs by auto
    then have none: "filter (\<lambda>e. fst e = t) (concat (map group_slots xs)) = []" "filter (\<lambda>e. fst e = t) (concat (map group_slots ys)) = []"
      by (force simp: filter_empty_conv group_slots_def)+
    have "filter (\<lambda>e. fst e = t) (group_slots (t, ns)) = group_slots (t, ns)" by (auto simp: group_slots_def filter_id_conv)
    then show ?thesis using none by (simp add: R_def gs group_slots_def)
  qed
  moreover have "distinct (map slot R)" unfolding R_def using keys_sorted_distinct [OF assms(2)]
  proof (induction gs)
    case (Cons g gs)
    obtain t ns where g: "g = (t, ns)" by (cases g)
    have "map slot (group_slots g) = map (\<lambda>i. (t, i)) [0..<length ns]" by (simp add: g group_slots_def)
    then have "distinct (map slot (group_slots g))" by (simp add: distinct_map inj_on_def)
    moreover have "t \<notin> fst ` set gs" using Cons.prems by (simp add: g)
    then have "slot ` set (group_slots g) \<inter> slot ` set (concat (map group_slots gs)) = {}"
      by (force simp: g group_slots_def)
    ultimately show ?case using Cons by simp
  qed simp
  moreover have "snd g \<noteq> [] \<and> [] \<notin> set (snd g)" if "g \<in> set gs" for g
    using assms(1) that ValidateName.simps(1) by (fastforce simp: valid_group_def case_prod_beta)
  ultimately show ?thesis unfolding groups_of_def R_def [symmetric] using assms(2) entry by blast
qed

lemma canonical_result:
  assumes "\<forall>g \<in> set gs. valid_group g" and "keys_sorted gs"
  shows "TagMap_Initialize (CanonicalEntries (build gs)) = Inr (build gs)"
proof -
  have "\<forall>g \<in> set gs. snd g \<noteq> []" using assms(1) by (auto simp: valid_group_def case_prod_beta)
  then have "CanonicalEntries (build gs) = concat (map canonical_group gs)" by (rule CanonicalEntries_build)
  moreover have "resolve (concat (map canonical_parsed gs)) = concat (map group_slots gs)"
    using resolve_groups [OF assms(1), of "[]"] keys_sorted_distinct [OF assms(2)] by (simp add: resolve_def)
  ultimately show ?thesis
    using TagMap_Initialize_result parsed_groups [OF assms(1)] groups_of_slots [OF assms] by metis
qed

section \<open>What a tag map holds\<close>

lemma resolve_valid:
  assumes "parsed ss es" and "(t, i, n) \<in> set (resolve_from es R)"
  shows "(t, i, n) \<in> set R \<or> ValidateName n \<and> (t \<noteq> [] \<longrightarrow> ValidateTag t \<and> int i \<le> kMaxCollectionItemId)"
  using assms
proof (induction es arbitrary: ss R)
  case (Cons e es)
  obtain t' i' n' where e: "e = (t', i', n')" by (cases e)
  obtain s ss' where ss: "ParseTagIndexName s = Inr (t', i', n')" "parsed ss' es"
    using Cons.prems(1) by (auto simp: parsed_def list_all2_Cons2 e)
  have "(t, i, n) \<in> set (R @ [resolve_one R e]) \<or> ValidateName n \<and> (t \<noteq> [] \<longrightarrow> ValidateTag t \<and> int i \<le> kMaxCollectionItemId)"
    using Cons.IH [OF ss(2), of "R @ [resolve_one R e]"] Cons.prems(2) by simp
  moreover have "ValidateName n \<and> (t \<noteq> [] \<longrightarrow> ValidateTag t \<and> int i \<le> kMaxCollectionItemId)" if "(t, i, n) = resolve_one R e"
    using that ss(1) unfolding parse_forms e
    by (auto simp: resolve_one_def kMaxCollectionItemId_def split: if_splits)
  ultimately show ?case by auto
qed simp

lemma initialized_groups:
  assumes "TagMap_Initialize ss = Inr tm"
  obtains es gs where "parsed ss es" "groups_of (resolve es) gs" "tm = build gs" "keys_sorted gs" "\<forall>g \<in> set gs. valid_group g"
proof -
  obtain es gs where es: "parsed ss es" "groups_of (resolve es) gs" "tm = build gs"
    using assms TagMap_Initialize_result by blast
  have sorted: "keys_sorted gs" using es(2) unfolding groups_of_def by blast
  have "valid_group g" if g: "g \<in> set gs" for g
  proof -
    obtain t ns where tn: "g = (t, ns)" by (cases g)
    have valid: "ValidateName (ns ! i) \<and> (t \<noteq> [] \<longrightarrow> ValidateTag t \<and> int i \<le> kMaxCollectionItemId)" if "i < length ns" for i
    proof -
      have "(t, i, ns ! i) \<in> set (resolve es)" using groups_entry [OF es(2)] g tn that by blast
      then show ?thesis using resolve_valid [OF es(1), of t i "ns ! i" "[]"] unfolding resolve_def by simp
    qed
    have ne: "ns \<noteq> []" using es(2) g unfolding groups_of_def tn by auto
    moreover have "t \<noteq> [] \<Longrightarrow> ValidateTag t \<and> int (length ns) \<le> kMaxCollectionItemId + 1"
      using valid [of "length ns - 1"] ne by (cases ns) auto
    moreover have "\<forall>n \<in> set ns. ValidateName n" using valid by (metis in_set_conv_nth)
    ultimately show ?thesis by (simp add: valid_group_def tn)
  qed
  with es sorted that show ?thesis by blast
qed

text \<open>When the entries are accepted: they all parse, no slot is used twice and the indices of a tag have no gap.\<close>

lemma tag_map_accepts:
  "(\<exists>tm. TagMap_Initialize ss = Inr tm) \<longleftrightarrow>
   (\<exists>es. parsed ss es \<and> distinct (map slot (resolve es)) \<and> (\<forall>(t, i, n) \<in> set (resolve es). i < tag_uses (resolve es) t))"
proof
  assume "\<exists>tm. TagMap_Initialize ss = Inr tm"
  then obtain es gs where "parsed ss es" "groups_of (resolve es) gs" using TagMap_Initialize_result by blast
  moreover from this have "distinct (map slot (resolve es))" unfolding groups_of_def by blast
  ultimately show "\<exists>es. parsed ss es \<and> distinct (map slot (resolve es)) \<and> (\<forall>(t, i, n) \<in> set (resolve es). i < tag_uses (resolve es) t)"
    using groups_below by blast
next
  assume "\<exists>es. parsed ss es \<and> distinct (map slot (resolve es)) \<and> (\<forall>(t, i, n) \<in> set (resolve es). i < tag_uses (resolve es) t)"
  then obtain es where es: "parsed ss es" "distinct (map slot (resolve es))" "\<forall>(t, i, n) \<in> set (resolve es). i < tag_uses (resolve es) t" by blast
  note result = add_entries_result [OF entries_inv_start, of ss, folded resolve_def]
  have "\<exists>st. add_entries ss ([], []) = Inr st"
  proof (cases "add_entries ss ([], [])")
    case (Inl e)
    with result have "\<not> (\<exists>es. parsed ss es \<and> distinct (map slot (resolve es)))" by simp
    with es show ?thesis by blast
  qed blast
  then obtain m tn where st: "add_entries ss ([], []) = Inr (m, tn)" by auto
  then obtain es' where "parsed ss es'" "entries_inv (resolve es') (m, tn)" using result by auto
  then have inv: "entries_inv (resolve es) (m, tn)" using parsed_unique [OF es(1)] by blast
  have "\<forall>g \<in> set tn. length (snd g) = tag_uses (resolve es) (fst g)"
  proof
    fix g assume "g \<in> set tn"
    then have "read_key [] (fst g) tn = snd g" using read_sorted [OF entries_keys(3) [OF inv], of "fst g" "snd g"] by simp
    moreover have "length (read_key [] (fst g) tn) = tag_uses (resolve es) (fst g)" using counts_full(1) [OF inv] es(3) by blast
    ultimately show "length (snd g) = tag_uses (resolve es) (fst g)" by simp
  qed
  then show "\<exists>tm. TagMap_Initialize ss = Inr tm" using TagMap_Initialize_result es(1) groups_built [OF inv] by blast
qed

text \<open>
  C33: the tag map. What a node's entries are turned into: each entry keeps its name under its tag and index, and has an id of its own from
  which tag and index are found again; the ids are the numbers below the number of entries, in the order of tags and then of indices; and a tag
  has as many entries as were given.  An entry without an index is numbered by those before it.
\<close>

theorem tag_map_correct:
  assumes "TagMap_Initialize ss = Inr tm"
  shows "\<exists>es. parsed ss es \<and> distinct (map slot (resolve es)) \<and> num_entries tm = int (length ss) \<and>
    (\<forall>t. NumEntries tm t = int (tag_uses (resolve es) t)) \<and>
    (\<forall>(t, i, n) \<in> set (resolve es). 0 \<le> GetId tm t (int i) \<and> GetId tm t (int i) < num_entries tm \<and>
       tm_names tm ! nat (GetId tm t (int i)) = n \<and> TagAndIndexFromId tm (GetId tm t (int i)) = (t, int i)) \<and>
    (\<forall>k. 0 \<le> k \<and> k < num_entries tm \<longrightarrow> (\<exists>(t, i, n) \<in> set (resolve es). GetId tm t (int i) = k)) \<and>
    (\<forall>(t, i, n) \<in> set (resolve es). \<forall>(t', i', n') \<in> set (resolve es).
       t < t' \<or> t = t' \<and> i < i' \<longrightarrow> GetId tm t (int i) < GetId tm t' (int i'))"
proof -
  obtain es gs where es: "parsed ss es" "groups_of (resolve es) gs" "tm = build gs" "keys_sorted gs"
    using initialized_groups [OF assms] .
  note entry = build_entry [OF es(2), folded es(3)]
  have "length ss = length es" using es(1) unfolding parsed_def by (rule list_all2_lengthD)
  then have "num_entries tm = int (length ss)"
    using build_size [OF es(2)] resolve_from_length [of es "[]"] by (simp add: es(3) resolve_def)
  moreover have "NumEntries tm t = int (tag_uses (resolve es) t)" for t
  proof (cases "t \<in> fst ` set gs")
    case True
    then obtain ns where ns: "(t, ns) \<in> set gs" by auto
    then show ?thesis using NumEntries_build [OF es(4), of t] read_sorted [OF es(4) ns] groups_length [OF es(2) ns] by (simp add: es(3))
  next
    case False
    then have "map_of gs t = None" by (simp add: map_of_eq_None_iff)
    then have "read_key [] t gs = []" by (simp add: read_key_def)
    moreover have "fst e \<noteq> t" if "e \<in> set (resolve es)" for e
      using groups_entry [OF es(2), of "fst e" "fst (snd e)" "snd (snd e)"] that False by force
    then have "tag_uses (resolve es) t = 0" by (simp add: filter_empty_conv)
    ultimately show ?thesis using NumEntries_build [OF es(4), of t] by (simp add: es(3))
  qed
  moreover have "\<exists>(t, i, n) \<in> set (resolve es). GetId tm t (int i) = k" if k: "0 \<le> k \<and> k < num_entries tm" for k
  proof -
    obtain t i n where "(t, i, n) \<in> set (resolve es)" "GetId tm t (int i) = k"
      using build_ids [OF es(2), folded es(3), of k] k by blast
    then show ?thesis by blast
  qed
  moreover have "distinct (map slot (resolve es))" using es(2) unfolding groups_of_def by blast
  moreover have "\<forall>(t, i, n) \<in> set (resolve es). 0 \<le> GetId tm t (int i) \<and> GetId tm t (int i) < num_entries tm \<and>
       tm_names tm ! nat (GetId tm t (int i)) = n \<and> TagAndIndexFromId tm (GetId tm t (int i)) = (t, int i)"
    using entry by blast
  moreover have "\<forall>(t, i, n) \<in> set (resolve es). \<forall>(t', i', n') \<in> set (resolve es).
       t < t' \<or> t = t' \<and> i < i' \<longrightarrow> GetId tm t (int i) < GetId tm t' (int i')"
    using build_tag_order [OF es(2), folded es(3)] by blast
  ultimately show ?thesis using es(1) by blast
qed

definition example_groups :: groups where
  "example_groups = [([], [''in'']), (''A'', [''x'', ''y'']), (''B'', [''b''])]"

lemma example_tag_map:
  "TagMap_Initialize [''in'', ''A:0:x'', ''A:1:y'', ''B:b''] =
   Inr \<lparr>tm_mapping = [([], \<lparr>td_id = 0, td_count = 1\<rparr>), (''A'', \<lparr>td_id = 1, td_count = 2\<rparr>), (''B'', \<lparr>td_id = 3, td_count = 1\<rparr>)],
     tm_names = [''in'', ''x'', ''y'', ''b''], num_entries = 4\<rparr>"
proof -
  have sorted: "keys_sorted example_groups" by (simp add: example_groups_def less_char_def)
  have valid: "\<forall>g \<in> set example_groups. valid_group g"
    by (simp add: example_groups_def valid_group_def is_lower_def is_upper_def kMaxCollectionItemId_def)
  have "nat_digits 0 = ''0''" "nat_digits 1 = ''1''" using zero_char number_printed [of "''1''"] 
    by (simp_all add: nat_digits.simps [of 0] is_digit_def digits_value_def)
  then have "CanonicalEntries (build example_groups) = [''in'', ''A:0:x'', ''A:1:y'', ''B:b'']"
    by (simp add: CanonicalEntries_def canonical_tag_def build_def example_groups_def to_string_def upto.simps)
  with canonical_result [OF valid sorted] show ?thesis by (simp add: build_def example_groups_def)
qed

theorem tag_map_correct_witness:
  "\<exists>es. parsed [''in'', ''A:0:x'', ''A:1:y'', ''B:b''] es \<and> distinct (map slot (resolve es))"
  using tag_map_correct [OF example_tag_map] by blast

text \<open>
  C34: the canonical form. The entries a tag map prints, with an index only where a tag has several, give the same tag map when they are read again.
\<close>

theorem tag_map_roundtrip:
  assumes "TagMap_Initialize ss = Inr tm"
  shows "TagMap_Initialize (CanonicalEntries tm) = Inr tm"
proof -
  obtain gs where "tm = build gs" "keys_sorted gs" "\<forall>g \<in> set gs. valid_group g" using initialized_groups [OF assms] by metis
  then show ?thesis using canonical_result by blast
qed

theorem tag_map_roundtrip_witness:
  "TagMap_Initialize (CanonicalEntries
     \<lparr>tm_mapping = [([], \<lparr>td_id = 0, td_count = 1\<rparr>), (''A'', \<lparr>td_id = 1, td_count = 2\<rparr>), (''B'', \<lparr>td_id = 3, td_count = 1\<rparr>)],
       tm_names = [''in'', ''x'', ''y'', ''b''], num_entries = 4\<rparr>) =
   Inr \<lparr>tm_mapping = [([], \<lparr>td_id = 0, td_count = 1\<rparr>), (''A'', \<lparr>td_id = 1, td_count = 2\<rparr>), (''B'', \<lparr>td_id = 3, td_count = 1\<rparr>)],
     tm_names = [''in'', ''x'', ''y'', ''b''], num_entries = 4\<rparr>"
  by (rule tag_map_roundtrip [OF example_tag_map])

section \<open>Comparing tag maps\<close>

text \<open>\<^verbatim>\<open>SameAs\<close> compares printed tags and counts; nothing is lost in print.\<close>

definition described :: "string \<times> TagData \<Rightarrow> string" where
  "described = (\<lambda>(tag, d). '', {'' @ [CHR 0x22] @ tag @ [CHR 0x22] @ '', '' @ to_string (td_count d) @ ''}'')"

definition printable :: "(string \<times> TagData) list \<Rightarrow> bool" where
  "printable m \<longleftrightarrow> (\<forall>(tag, d) \<in> set m. CHR 0x22 \<notin> set tag \<and> 0 < td_count d)"

lemma describe_tags_eq:
  "printable m \<Longrightarrow> describe_tags m out = (if out = [] then drop 2 (concat (map described m)) else out @ concat (map described m))"
proof (induction m out rule: describe_tags.induct)
  case (2 tag d m out)
  then have "td_count d \<noteq> 0" "printable m" by (auto simp: printable_def)
  with 2 show ?case by (simp add: described_def)
qed simp

lemma append_Cons_cancel: "x \<notin> set a \<Longrightarrow> x \<notin> set b \<Longrightarrow> a @ x # u = b @ x # v \<longleftrightarrow> a = b \<and> u = v"
proof (induction a arbitrary: b)
  case Nil
  then show ?case by (cases b) auto
next
  case (Cons c a)
  then show ?case by (cases b) auto
qed

lemma count_digits: "0 \<le> c \<Longrightarrow> CHR ''}'' \<notin> set (to_string c)"
  using nat_digits_digits [of "nat c"] by (auto simp: to_string_def is_digit_def)

lemma to_string_inject: "0 \<le> c \<Longrightarrow> 0 \<le> d \<Longrightarrow> to_string c = to_string d \<longleftrightarrow> c = d"
  unfolding to_string_def using digits_value_nat_digits [of "nat c"] digits_value_nat_digits [of "nat d"] by (metis eq_nat_nat_iff not_less)

lemma described_inject:
  assumes "printable [p]" "printable [q]"
  shows "described p @ u = described q @ v \<longleftrightarrow> fst p = fst q \<and> td_count (snd p) = td_count (snd q) \<and> u = v"
proof -
  obtain t d t' d' where p: "p = (t, d)" "q = (t', d')" by (cases p, cases q)
  have q: "CHR 0x22 \<notin> set t" "CHR 0x22 \<notin> set t'" "0 \<le> td_count d" "0 \<le> td_count d'" using assms p by (auto simp: printable_def)
  show ?thesis unfolding p described_def
    using append_Cons_cancel [OF q(1,2)] append_Cons_cancel [OF count_digits [OF q(3)] count_digits [OF q(4)]] to_string_inject [OF q(3,4)] by simp
qed

lemma printable_Cons: "printable (p # m) \<longleftrightarrow> printable [p] \<and> printable m"
  by (simp add: printable_def)

lemma described_nonempty: "described p \<noteq> []"
  by (simp add: described_def case_prod_beta)

lemma descriptions_inject:
  "printable m \<Longrightarrow> printable m' \<Longrightarrow>
   concat (map described m) = concat (map described m') \<longleftrightarrow> map (\<lambda>p. (fst p, td_count (snd p))) m = map (\<lambda>p. (fst p, td_count (snd p))) m'"
proof (induction m arbitrary: m')
  case Nil
  then show ?case by (cases m') (simp_all add: described_nonempty)
next
  case (Cons p m)
  show ?case
  proof (cases m')
    case Nil
    then show ?thesis by (simp add: described_nonempty)
  next
    case (Cons q m'')
    with \<open>printable m'\<close> \<open>printable (p # m)\<close> have "printable [p]" "printable m" "printable [q]" "printable m''"
      using printable_Cons by blast+
    then show ?thesis using described_inject [of p q] Cons.IH [of m''] by (simp add: local.Cons)
  qed
qed

lemma layout_counts:
  "map (\<lambda>p. (fst p, td_count (snd p))) (layout k gs) = map (\<lambda>p. (fst p, td_count (snd p))) (layout k gs') \<Longrightarrow> layout k gs = layout k gs'"
proof (induction k gs arbitrary: gs' rule: layout.induct)
  case (1 k)
  then show ?case by (cases gs') auto
next
  case (2 k t ns gs)
  then show ?case by (cases gs') auto
qed

lemma layout_printable: "\<forall>g \<in> set gs. valid_group g \<Longrightarrow> printable (layout k gs)"
proof (induction k gs rule: layout.induct)
  case (2 k t ns gs)
  have "CHR 0x22 \<notin> set t"
  proof (cases t)
    case (Cons c cs)
    then have "ValidateTag t" using 2(2) by (simp add: valid_group_def)
    moreover have "\<not> is_upper (CHR 0x22)" "\<not> is_digit (CHR 0x22)" by (simp_all add: is_upper_def is_digit_def)
    ultimately show ?thesis using Cons by (auto simp: list_all_iff)
  qed simp
  then show ?case using 2 by (simp add: printable_def valid_group_def)
qed (simp add: printable_def)

text \<open>
  C35: comparing tag maps. Two tag maps that were built from entries print the same short description, which is how they are compared, exactly when they have the same
  tags with the same ids and counts: names do not matter and different maps are not confused.
\<close>

theorem tag_map_same:
  assumes "TagMap_Initialize ss = Inr a" and "TagMap_Initialize ss' = Inr b"
  shows "TagMap_SameAs a b \<longleftrightarrow> tm_mapping a = tm_mapping b"
proof -
  obtain gs where gs: "a = build gs" "\<forall>g \<in> set gs. valid_group g" using initialized_groups [OF assms(1)] by metis
  obtain gs' where gs': "b = build gs'" "\<forall>g \<in> set gs'. valid_group g" using initialized_groups [OF assms(2)] by metis
  define D where "D gs = concat (map described (layout 0 gs))" for gs
  have short: "ShortDebugString (build gs) = (if gs = [] then ''empty'' else drop 2 (D gs)) \<and> (gs \<noteq> [] \<longrightarrow> (\<exists>r. D gs = '', {'' @ r))"
    if "\<forall>g \<in> set gs. valid_group g" for gs
  proof (cases gs)
    case (Cons g gs')
    obtain t ns where g: "g = (t, ns)" by (cases g)
    have "ns \<noteq> []" using that Cons g by (simp add: valid_group_def)
    then have entries: "num_entries (build gs) \<noteq> 0" using Cons g by (cases ns) (simp_all add: build_def)
    have "ShortDebugString (build gs) = describe_tags (layout 0 gs) []"
      unfolding ShortDebugString_def if_not_P [OF entries] by (simp add: build_def)
    then have "ShortDebugString (build gs) = drop 2 (D gs)" using describe_tags_eq [OF layout_printable [OF that], of 0 "[]"]
      by (simp add: D_def)
    moreover obtain r where "D gs = '', {'' @ r" by (simp add: D_def Cons g described_def)
    ultimately show ?thesis using Cons by (metis list.distinct(1))
  qed (simp add: ShortDebugString_def build_def)
  have same: "D gs = D gs' \<longleftrightarrow> layout 0 gs = layout 0 gs'"
  proof
    assume "D gs = D gs'"
    then show "layout 0 gs = layout 0 gs'"
      unfolding D_def descriptions_inject [OF layout_printable [OF gs(2)] layout_printable [OF gs'(2)]] by (rule layout_counts)
  qed (simp add: D_def)
  have nil: "layout 0 gs = [] \<longleftrightarrow> gs = []" for gs by (cases gs) auto
  have "ShortDebugString (build gs) = ShortDebugString (build gs') \<longleftrightarrow> layout 0 gs = layout 0 gs'"
  proof (cases "gs = [] \<or> gs' = []")
    case True
    have "''empty'' \<noteq> drop 2 (D gs)" if "gs \<noteq> []" "\<forall>g \<in> set gs. valid_group g" for gs
      using short [OF that(2)] that(1) by auto
    then show ?thesis using True short [OF gs(2)] short [OF gs'(2)] nil gs(2) gs'(2) by metis
  next
    case False
    then obtain r r' where "D gs = '', {'' @ r" "D gs' = '', {'' @ r'" using short [OF gs(2)] short [OF gs'(2)] by blast
    then have "drop 2 (D gs) = drop 2 (D gs') \<longleftrightarrow> D gs = D gs'" by simp
    then show ?thesis using False short [OF gs(2)] short [OF gs'(2)] same by simp
  qed
  then show ?thesis by (simp add: TagMap_SameAs_def gs(1) gs'(1)) (simp add: build_def)
qed

theorem tag_map_same_witness: "TagMap_SameAs (build example_groups) (build example_groups)"
  using tag_map_same [OF example_tag_map example_tag_map] by (simp add: build_def example_groups_def)

end
