(* ===== verification/Timestamp_Align_Handler.thy ===== *)
theory Timestamp_Align_Handler
  imports Barrier_Handlers Tag_Map
begin

text \<open>
  \<^verbatim>\<open>stream_handler/timestamp_align_input_stream_handler.cc\<close>: input streams whose timestamps have different origins.  Until every stream has a packet only the
  packets of one stream, the base, are passed on; then the offset of each stream to the base is fixed, and from there on the streams are synchronised
  with their offsets added.
\<close>

section \<open>Operations\<close>

record 'a TimestampAlignInputStreamHandler = "'a InputStreamHandler" +
  timestamp_base_stream_id :: nat
  offsets_initialized :: bool
  timestamp_offsets :: "int list"

definition TimestampAlignInputStreamHandler_new ::
  "TagMap \<Rightarrow> string \<Rightarrow> 'a InputStreamManager list \<Rightarrow> 'a CalculatorContextManager \<Rightarrow> ts_error + 'a TimestampAlignInputStreamHandler" where
  "TimestampAlignInputStreamHandler_new tm timestamp_base_tag_index ms cm =
     (case ParseTagIndex timestamp_base_tag_index of
        Inl _ \<Rightarrow> Inl CheckFailed
      | Inr (tag, index) \<Rightarrow>
          (let i = GetId tm tag index
           in if i < 0 then Inl CheckFailed
              else Inr (InputStreamHandler.extend (InputStreamHandler_new ms cm)
                     (TimestampAlignInputStreamHandler.fields (nat i) False ((replicate (length ms) 0)[nat i := 0])))))"

definition Align_PrepareForRun :: "('a, 'b) TimestampAlignInputStreamHandler_scheme \<Rightarrow> ('a, 'b) TimestampAlignInputStreamHandler_scheme" where
  "Align_PrepareForRun h = ish_PrepareForRun (h\<lparr>offsets_initialized := (length (input_stream_managers h) = 1)\<rparr>)"

text \<open>Before the offsets are known: the streams other than the base, how many of them are empty, and the offsets of the others.\<close>

fun base_scan :: "nat \<Rightarrow> Timestamp \<Rightarrow> 'a InputStreamManager list \<Rightarrow> nat list \<Rightarrow> int \<times> int list \<Rightarrow> ts_error + (int \<times> int list)" where
  "base_scan base t ms [] acc = Inr acc"
| "base_scan base t ms (i # ids) (unknown, offs) =
     (if i = base then base_scan base t ms ids (unknown, offs)
      else (case MinTimestampOrBound (ms ! i) of (stream_timestamp, e) \<Rightarrow>
        if e then base_scan base t ms ids (unknown + 1, offs)
        else (case ts_diff t stream_timestamp of Inl er \<Rightarrow> Inl er | Inr d \<Rightarrow> base_scan base t ms ids (unknown, offs[i := d]))))"

text \<open>Afterwards: the least bound of an empty stream and the least timestamp, both with the offsets.\<close>

fun align_scan :: "int list \<Rightarrow> 'a InputStreamManager list \<Rightarrow> nat list \<Rightarrow> Timestamp \<times> Timestamp \<Rightarrow> ts_error + (Timestamp \<times> Timestamp)" where
  "align_scan offs ms [] acc = Inr acc"
| "align_scan offs ms (i # ids) (min_bound, min_stream_timestamp) =
     (case MinTimestampOrBound (ms ! i) of (stream_timestamp, e) \<Rightarrow>
        (case (if IsRangeValue stream_timestamp then ts_add stream_timestamp (offs ! i) else Inr stream_timestamp) of
           Inl er \<Rightarrow> Inl er
         | Inr u \<Rightarrow> align_scan offs ms ids (if e then min min_bound u else min_bound, min min_stream_timestamp u)))"

definition Align_GetNodeReadiness ::
  "('a, 'b) TimestampAlignInputStreamHandler_scheme
    \<Rightarrow> ts_error + (NodeReadiness \<times> Timestamp \<times> ('a, 'b) TimestampAlignInputStreamHandler_scheme)" where
  "Align_GetNodeReadiness h =
     (let ms = input_stream_managers h; ids = [0 ..< length ms]
      in if \<not> offsets_initialized h then
           (case MinTimestampOrBound (ms ! timestamp_base_stream_id h) of (t, timestamp_base_empty) \<Rightarrow>
              if timestamp_base_empty then Inr (kNotReady, t, h)
              else (case base_scan (timestamp_base_stream_id h) t ms ids (0, timestamp_offsets h) of
                  Inl e \<Rightarrow> Inl e
                | Inr (unknown, offs) \<Rightarrow>
                    Inr (kReadyForProcess, t, h\<lparr>timestamp_offsets := offs, offsets_initialized := (unknown = 0)\<rparr>)))
         else
           (case align_scan (timestamp_offsets h) ms ids (Done, Done) of
              Inl e \<Rightarrow> Inl e
            | Inr (min_bound, min_stream_timestamp) \<Rightarrow>
                if min_stream_timestamp = Done then Inr (kReadyForClose, min_stream_timestamp, h)
                else if min_stream_timestamp < min_bound then Inr (kReadyForProcess, min_stream_timestamp, h)
                else if min_bound \<noteq> min_stream_timestamp then Inl CheckFailed
                else Inr (kNotReady, min_stream_timestamp, h)))"

definition fill_base :: "nat \<Rightarrow> Timestamp \<Rightarrow> nat \<Rightarrow>
    ('a, 'b) InputStreamHandler_scheme \<times> 'a InputStreamShard list
    \<Rightarrow> ts_error + (('a, 'b) InputStreamHandler_scheme \<times> 'a InputStreamShard list)" where
  "fill_base base t i hs =
     (if i = base then fill_stream t i hs
      else (case hs of (h, shards) \<Rightarrow>
        if \<not> has_id i h \<or> length shards \<le> i then Inl CheckFailed
        else (case shard_AddPacket empty_packet False (shards ! i) of Inl e \<Rightarrow> Inl e | Inr sh \<Rightarrow> Inr (h, shards[i := sh]))))"

definition fill_aligned :: "int list \<Rightarrow> Timestamp \<Rightarrow> nat \<Rightarrow>
    ('a, 'b) InputStreamHandler_scheme \<times> 'a InputStreamShard list
    \<Rightarrow> ts_error + (('a, 'b) InputStreamHandler_scheme \<times> 'a InputStreamShard list)" where
  "fill_aligned offs t i hs =
     (case hs of (h, shards) \<Rightarrow>
        if \<not> has_id i h \<or> length shards \<le> i then Inl CheckFailed
        else (case ts_sub t (offs ! i) of
          Inl e \<Rightarrow> Inl e
        | Inr stream_timestamp \<Rightarrow>
            (case PopPacketAtTimestamp stream_timestamp (input_stream_managers h ! i) of
               Inl e \<Rightarrow> Inl e
             | Inr (r, s) \<Rightarrow>
                 if \<not> packet_IsEmpty (popped r) \<and> pkt_ts (popped r) \<noteq> stream_timestamp then Inl CheckFailed
                 else if num_packets_dropped r \<noteq> 0 then Inl CheckFailed
                 else (case shard_AddPacket (if packet_IsEmpty (popped r) then popped r else packet_At t (popped r)) (stream_is_done r) (shards ! i) of
                     Inl e \<Rightarrow> Inl e
                   | Inr sh \<Rightarrow>
                       Inr (call (map (QueueSizeCallback i) (pop_events r)) (put_stream i s h), shards[i := sh])))))"

definition Align_FillInputSet ::
  "Timestamp \<Rightarrow> ('a, 'b) TimestampAlignInputStreamHandler_scheme \<times> 'a InputStreamShard list
    \<Rightarrow> ts_error + (('a, 'b) TimestampAlignInputStreamHandler_scheme \<times> 'a InputStreamShard list)" where
  "Align_FillInputSet t hs =
     (if \<not> IsAllowedInStream t then Inl CheckFailed
      else run_steps (if offsets_initialized (fst hs) then fill_aligned (timestamp_offsets (fst hs)) t
                      else fill_base (timestamp_base_stream_id (fst hs)) t)
             [0 ..< length (input_stream_managers (fst hs))] hs)"

section \<open>Timestamps with offsets\<close>

text \<open>
  Packets have a payload and a timestamp far from the ends of the range, so that no offset saturates.
\<close>

definition calm :: "'a InputStreamManager \<Rightarrow> bool" where
  "calm s \<longleftrightarrow> (\<forall>p \<in> set (ism_queue s). \<not> packet_IsEmpty p \<and> \<bar>ts_value (pkt_ts p)\<bar> \<le> 2 ^ 60)"

definition clamp :: "int \<Rightarrow> Timestamp" where
  "clamp v = Ts (max (ts_value Timestamp.Min) (min (ts_value Timestamp.Max) v))"

definition aligned :: "int \<Rightarrow> 'a InputStreamManager \<Rightarrow> Timestamp" where
  "aligned off s = (let t = fst (MinTimestampOrBound s) in if IsRangeValue t then clamp (ts_value t + off) else t)"

lemma range_near: "\<bar>v\<bar> \<le> 5 * 2 ^ 60 \<Longrightarrow> IsRangeValue (Ts v) \<and> IsAllowedInStream (Ts v) \<and> clamp v = Ts v \<and> Unstarted < Ts v"
  by (auto simp: IsRangeValue_def IsAllowedInStream_def clamp_def special_defs)

lemma ts_sub_near: "\<bar>v\<bar> \<le> 3 * 2 ^ 60 \<Longrightarrow> \<bar>d\<bar> \<le> 2 ^ 61 \<Longrightarrow> ts_sub (Ts v) d = Inr (Ts (v - d))"
  using range_near [of v] by (auto simp: ts_sub_def diff_neg_def safe_int_def ts_add_saturates special_defs)

lemma ts_diff_near: "\<bar>v\<bar> \<le> 2 ^ 60 \<Longrightarrow> \<bar>w\<bar> \<le> 2 ^ 60 \<Longrightarrow> ts_diff (Ts v) (Ts w) = Inr (v - w)"
  using range_near [of v] range_near [of w] by (auto simp: ts_diff_def safe_int_def special_defs abs_le_iff)

lemma align_scan_spec:
  assumes "align_scan offs ms ids (mb, mt) = Inr (mb', mt')"
  shows "mt' \<le> mt \<and> mb' \<le> mb \<and> (\<forall>i \<in> set ids. mt' \<le> aligned (offs ! i) (ms ! i) \<and> (ism_queue (ms ! i) = [] \<longrightarrow> mb' \<le> aligned (offs ! i) (ms ! i))) \<and>
    (mt' = mt \<or> (\<exists>i \<in> set ids. mt' = aligned (offs ! i) (ms ! i))) \<and>
    (mb' = mb \<or> (\<exists>i \<in> set ids. ism_queue (ms ! i) = [] \<and> mb' = aligned (offs ! i) (ms ! i)))"
  using assms
proof (induction ids arbitrary: mb mt)
  case (Cons i ids)
  let ?u = "aligned (offs ! i) (ms ! i)"
  obtain t e where m: "MinTimestampOrBound (ms ! i) = (t, e)" by force
  have e: "e \<longleftrightarrow> ism_queue (ms ! i) = []" using m by (auto simp: MinTimestampOrBound_def split: list.splits)
  have "(if IsRangeValue t then ts_add t (offs ! i) else Inr t) = Inr ?u"
    by (simp add: ts_add_saturates aligned_def m clamp_def Let_def)
  then have "align_scan offs ms ids (if e then min mb ?u else mb, min mt ?u) = Inr (mb', mt')" using Cons.prems by (simp add: m split: if_splits)
  note IH = Cons.IH [OF this]
  show ?case using IH e by (auto simp: min_def split: if_splits)
qed simp

lemma align_scan_total: "\<exists>mb' mt'. align_scan offs ms ids (mb, mt) = Inr (mb', mt')"
proof (induction ids arbitrary: mb mt)
  case (Cons i ids)
  then show ?case by (auto simp: ts_add_saturates split: prod.splits)
qed simp


lemma base_scan_spec:
  assumes "distinct ids" "\<forall>i \<in> set ids. i < length offs \<and> calm (ms ! i)" "\<bar>v\<bar> \<le> 2 ^ 60"
  shows "\<exists>unknown' offs'. base_scan base (Ts v) ms ids (unknown, offs) = Inr (unknown', offs') \<and> length offs' = length offs \<and>
    (\<forall>i. i \<notin> set ids \<or> i = base \<longrightarrow> offs' ! i = offs ! i) \<and> unknown \<le> unknown' \<and>
    (unknown' = unknown \<longleftrightarrow> (\<forall>i \<in> set ids. i \<noteq> base \<longrightarrow> ism_queue (ms ! i) \<noteq> [])) \<and>
    (\<forall>i \<in> set ids. i \<noteq> base \<and> ism_queue (ms ! i) \<noteq> [] \<longrightarrow> offs' ! i = v - ts_value (pkt_ts (hd (ism_queue (ms ! i)))))"
  using assms
proof (induction ids arbitrary: unknown offs)
  case (Cons i ids)
  have ids: "distinct ids" "i \<notin> set ids" "\<And>o'. length o' = length offs \<Longrightarrow> \<forall>i \<in> set ids. i < length o' \<and> calm (ms ! i)" "i < length offs"
    using Cons.prems(1,2) by auto
  show ?case
  proof (cases "i = base")
    case True
    obtain u' o' where "base_scan base (Ts v) ms ids (unknown, offs) = Inr (u', o')" "length o' = length offs"
        "\<forall>j. j \<notin> set ids \<or> j = base \<longrightarrow> o' ! j = offs ! j" "unknown \<le> u'"
        "u' = unknown \<longleftrightarrow> (\<forall>j \<in> set ids. j \<noteq> base \<longrightarrow> ism_queue (ms ! j) \<noteq> [])"
        "\<forall>j \<in> set ids. j \<noteq> base \<and> ism_queue (ms ! j) \<noteq> [] \<longrightarrow> o' ! j = v - ts_value (pkt_ts (hd (ism_queue (ms ! j))))"
      using Cons.IH [OF ids(1) ids(3) [OF refl] Cons.prems(3), of unknown] by blast
    then show ?thesis using True by auto
  next
    case other: False
    show ?thesis
    proof (cases "ism_queue (ms ! i)")
      case Nil
      obtain u' o' where "base_scan base (Ts v) ms ids (unknown + 1, offs) = Inr (u', o')" "length o' = length offs"
          "\<forall>j. j \<notin> set ids \<or> j = base \<longrightarrow> o' ! j = offs ! j" "unknown + 1 \<le> u'"
          "\<forall>j \<in> set ids. j \<noteq> base \<and> ism_queue (ms ! j) \<noteq> [] \<longrightarrow> o' ! j = v - ts_value (pkt_ts (hd (ism_queue (ms ! j))))"
        using Cons.IH [OF ids(1) ids(3) [OF refl] Cons.prems(3), of "unknown + 1"] by blast
      then show ?thesis using other Nil by (auto simp: MinTimestampOrBound_def)
    next
      case (Cons p ps)
      have "\<bar>ts_value (pkt_ts p)\<bar> \<le> 2 ^ 60" using Cons.prems(2) Cons by (simp add: calm_def)
      then have d: "ts_diff (Ts v) (pkt_ts p) = Inr (v - ts_value (pkt_ts p))" using ts_diff_near [OF Cons.prems(3)] by (cases "pkt_ts p") simp
      let ?o = "offs[i := v - ts_value (pkt_ts p)]"
      obtain u' o' where r: "base_scan base (Ts v) ms ids (unknown, ?o) = Inr (u', o')" "length o' = length ?o"
          "\<forall>j. j \<notin> set ids \<or> j = base \<longrightarrow> o' ! j = ?o ! j" "unknown \<le> u'"
          "u' = unknown \<longleftrightarrow> (\<forall>j \<in> set ids. j \<noteq> base \<longrightarrow> ism_queue (ms ! j) \<noteq> [])"
          "\<forall>j \<in> set ids. j \<noteq> base \<and> ism_queue (ms ! j) \<noteq> [] \<longrightarrow> o' ! j = v - ts_value (pkt_ts (hd (ism_queue (ms ! j))))"
        using Cons.IH [OF ids(1) ids(3) [OF length_list_update] Cons.prems(3), of unknown] by blast
      have "o' ! i = v - ts_value (pkt_ts p)" using r(3) ids(2,4) by simp
      moreover have "\<forall>j. j \<notin> set (i # ids) \<or> j = base \<longrightarrow> o' ! j = offs ! j" using r(3) other by auto
      ultimately show ?thesis using other Cons d r by (auto simp: MinTimestampOrBound_def)
    qed
  qed
qed simp

section \<open>Invariant\<close>

text \<open>
  With the offsets fixed, all streams were last selected at one aligned timestamp.  Before, nothing was taken from the streams other than the base.
\<close>

definition align_inv :: "('a, 'b) TimestampAlignInputStreamHandler_scheme \<Rightarrow> bool" where
  "align_inv h \<longleftrightarrow>
     (let ms = input_stream_managers h; base = timestamp_base_stream_id h; offs = timestamp_offsets h
      in base < length ms \<and> length offs = length ms \<and> offs ! base = 0 \<and> (\<forall>i < length ms. stream_inv (ms ! i) \<and> calm (ms ! i)) \<and>
         (if offsets_initialized h then (\<forall>i < length ms. \<bar>offs ! i\<bar> \<le> 2 ^ 61) \<and>
              ((\<forall>i < length ms. last_select_timestamp (ms ! i) = Unstarted) \<or>
               (\<exists>l. \<forall>i < length ms. last_select_timestamp (ms ! i) = Ts (l - offs ! i)))
          else (\<forall>i < length ms. i \<noteq> base \<longrightarrow> last_select_timestamp (ms ! i) = Unstarted)))"

text \<open>An input set can be filled for \<open>t\<close> with these offsets, and some stream has a packet for it.\<close>

definition fillable :: "int list \<Rightarrow> Timestamp \<Rightarrow> 'a InputStreamManager list \<Rightarrow> bool" where
  "fillable offs t ms \<longleftrightarrow> \<bar>ts_value t\<bar> \<le> 3 * 2 ^ 60 \<and>
     (\<forall>i < length ms. \<bar>offs ! i\<bar> \<le> 2 ^ 61 \<and> last_select_timestamp (ms ! i) < Ts (ts_value t - offs ! i) \<and>
        Ts (ts_value t - offs ! i) \<le> fst (MinTimestampOrBound (ms ! i))) \<and>
     (\<exists>i < length ms. ism_queue (ms ! i) \<noteq> [] \<and> ts_value t = ts_value (pkt_ts (hd (ism_queue (ms ! i)))) + offs ! i)"

lemma aligned_head:
  assumes "calm s" "ism_queue s \<noteq> []" "\<bar>off\<bar> \<le> 2 ^ 61"
  shows "aligned off s = Ts (ts_value (pkt_ts (hd (ism_queue s))) + off)" "\<bar>ts_value (pkt_ts (hd (ism_queue s)))\<bar> \<le> 2 ^ 60"
proof -
  obtain p ps where q: "ism_queue s = p # ps" using assms(2) by (cases "ism_queue s") auto
  show v: "\<bar>ts_value (pkt_ts (hd (ism_queue s)))\<bar> \<le> 2 ^ 60" using assms(1) q by (simp add: calm_def)
  then have "\<bar>ts_value (pkt_ts p)\<bar> \<le> 5 * 2 ^ 60" "\<bar>ts_value (pkt_ts p) + off\<bar> \<le> 5 * 2 ^ 60" using assms(3) q by auto
  from range_near [OF this(1)] range_near [OF this(2)] show "aligned off s = Ts (ts_value (pkt_ts (hd (ism_queue s))) + off)"
    by (simp add: aligned_def MinTimestampOrBound_def q)
qed

lemma aligned_bound:
  assumes "Ts v < aligned off s" "\<bar>v\<bar> \<le> 3 * 2 ^ 60" "\<bar>off\<bar> \<le> 2 ^ 61"
  shows "Ts (v - off) < fst (MinTimestampOrBound s)"
proof (cases "fst (MinTimestampOrBound s)")
  case (Ts b)
  show ?thesis
  proof (cases "IsRangeValue (Ts b)")
    case True
    then show ?thesis using assms by (auto simp: aligned_def Ts clamp_def special_defs less_max_iff_disj)
  next
    case False
    then have "v < b" "\<not> IsRangeValue (Ts b)" using assms(1) by (simp_all add: aligned_def Ts)
    then show ?thesis using assms(2,3) by (auto simp: Ts IsRangeValue_def special_defs)
  qed
qed

lemma align_ready:
  assumes inv: "align_inv h" and ini: "offsets_initialized h" and rd: "Align_GetNodeReadiness h = Inr (kReadyForProcess, t, h1)"
  shows "h1 = h \<and> fillable (timestamp_offsets h) t (input_stream_managers h)"
proof -
  let ?ms = "input_stream_managers h" and ?offs = "timestamp_offsets h"
  obtain mb mt where sc: "align_scan ?offs ?ms [0..<length ?ms] (Done, Done) = Inr (mb, mt)" using align_scan_total by blast
  have t: "mt = t" "h1 = h" "t \<noteq> Done" "t < mb" using rd ini sc by (auto simp: Align_GetNodeReadiness_def Let_def split: if_splits)
  have st: "stream_inv (?ms ! i) \<and> calm (?ms ! i) \<and> \<bar>?offs ! i\<bar> \<le> 2 ^ 61" if "i < length ?ms" for i
    using inv ini that by (simp add: align_inv_def Let_def)
  note spec = align_scan_spec [OF sc, unfolded t(1)]
  obtain k where k: "k < length ?ms" "t = aligned (?offs ! k) (?ms ! k)" using spec t(3) by auto
  have kq: "ism_queue (?ms ! k) \<noteq> []"
  proof
    assume "ism_queue (?ms ! k) = []"
    then have "mb \<le> t" using spec k by auto
    then show False using t(4) by simp
  qed
  note kh = aligned_head [OF _ kq, of "?offs ! k"]
  have tv: "ts_value t = ts_value (pkt_ts (hd (ism_queue (?ms ! k)))) + ?offs ! k" "\<bar>ts_value t\<bar> \<le> 3 * 2 ^ 60"
    using kh st [OF k(1)] k(2) by auto
  have near: "\<bar>ts_value t - ?offs ! i\<bar> \<le> 5 * 2 ^ 60" if "i < length ?ms" for i using st [OF that] tv(2) by auto
  have sel: "last_select_timestamp (?ms ! i) < Ts (ts_value t - ?offs ! i)" if i: "i < length ?ms" for i
  proof -
    consider "\<forall>i < length ?ms. last_select_timestamp (?ms ! i) = Unstarted" | l where "\<forall>i < length ?ms. last_select_timestamp (?ms ! i) = Ts (l - ?offs ! i)"
      using inv ini unfolding align_inv_def Let_def by auto
    then show ?thesis
    proof cases
      case 1
      then show ?thesis using range_near [OF near [OF i]] i by simp
    next
      case (2 l)
      have "last_select_timestamp (?ms ! k) < pkt_ts (hd (ism_queue (?ms ! k)))" using st [OF k(1)] kq by (simp add: stream_inv_def)
      then have "l < ts_value t" using 2 k(1) tv(1) by (simp add: less_Timestamp_def)
      then show ?thesis using 2 i by simp
    qed
  qed
  have "Ts (ts_value t - ?offs ! i) \<le> fst (MinTimestampOrBound (?ms ! i))" if i: "i < length ?ms" for i
  proof (cases "ism_queue (?ms ! i) = []")
    case True
    then have "mb \<le> aligned (?offs ! i) (?ms ! i)" using spec i by auto
    then have "Ts (ts_value t) < aligned (?offs ! i) (?ms ! i)" using t(4) by simp
    from aligned_bound [OF this tv(2)] show ?thesis using st [OF i] by simp
  next
    case False
    have a: "calm (?ms ! i)" "\<bar>?offs ! i\<bar> \<le> 2 ^ 61" using st [OF i] by simp_all
    have "t \<le> aligned (?offs ! i) (?ms ! i)" using spec i by simp
    then have "t \<le> Ts (ts_value (pkt_ts (hd (ism_queue (?ms ! i)))) + ?offs ! i)" unfolding aligned_head(1) [OF a(1) False a(2)] .
    then show ?thesis using False by (cases "ism_queue (?ms ! i)") (auto simp: MinTimestampOrBound_def less_eq_Timestamp_def)
  qed
  with st sel tv k kq t(2) show ?thesis unfolding fillable_def by blast
qed

lemma base_ready:
  assumes inv: "align_inv h" and ini: "\<not> offsets_initialized h" and rd: "Align_GetNodeReadiness h = Inr (kReadyForProcess, t, h1)"
  defines "ms \<equiv> input_stream_managers h" and "base \<equiv> timestamp_base_stream_id h"
  shows "\<exists>offs. h1 = h\<lparr>timestamp_offsets := offs, offsets_initialized := (\<forall>i < length ms. ism_queue (ms ! i) \<noteq> [])\<rparr> \<and> length offs = length ms \<and>
    offs ! base = 0 \<and> ism_queue (ms ! base) \<noteq> [] \<and> t = pkt_ts (hd (ism_queue (ms ! base))) \<and> \<bar>ts_value t\<bar> \<le> 2 ^ 60 \<and>
    (\<forall>i < length ms. ism_queue (ms ! i) \<noteq> [] \<longrightarrow> ts_value t = ts_value (pkt_ts (hd (ism_queue (ms ! i)))) + offs ! i \<and> \<bar>offs ! i\<bar> \<le> 2 ^ 61)"
proof -
  have st: "base < length ms" "length (timestamp_offsets h) = length ms" "timestamp_offsets h ! base = 0"
    "\<forall>i < length ms. stream_inv (ms ! i) \<and> calm (ms ! i)" using inv by (simp_all add: align_inv_def Let_def ms_def base_def)
  have q: "ism_queue (ms ! base) \<noteq> []" using rd ini
    by (auto simp: Align_GetNodeReadiness_def Let_def MinTimestampOrBound_def ms_def base_def split: list.splits)
  then obtain p ps where pq: "ism_queue (ms ! base) = p # ps" by (cases "ism_queue (ms ! base)") auto
  have v: "\<bar>ts_value (pkt_ts p)\<bar> \<le> 2 ^ 60" using st(1,4) pq by (simp add: calm_def)
  have "\<forall>i \<in> set [0..<length ms]. i < length (timestamp_offsets h) \<and> calm (ms ! i)" using st by simp
  from base_scan_spec [OF distinct_upt this v, of base 0] obtain u offs where
    sc: "base_scan base (Ts (ts_value (pkt_ts p))) ms [0..<length ms] (0, timestamp_offsets h) = Inr (u, offs)" and l: "length offs = length (timestamp_offsets h)"
    and b: "\<forall>i. i \<notin> set [0..<length ms] \<or> i = base \<longrightarrow> offs ! i = timestamp_offsets h ! i"
    and u: "u = 0 \<longleftrightarrow> (\<forall>i \<in> set [0..<length ms]. i \<noteq> base \<longrightarrow> ism_queue (ms ! i) \<noteq> [])"
    and d: "\<forall>i \<in> set [0..<length ms]. i \<noteq> base \<and> ism_queue (ms ! i) \<noteq> [] \<longrightarrow> offs ! i = ts_value (pkt_ts p) - ts_value (pkt_ts (hd (ism_queue (ms ! i))))"
    by blast
  have h1: "h1 = h\<lparr>timestamp_offsets := offs, offsets_initialized := (u = 0)\<rparr>" "t = pkt_ts p"
    using rd ini sc pq by (auto simp: Align_GetNodeReadiness_def Let_def MinTimestampOrBound_def simp flip: ms_def base_def)
  have u': "u = 0 \<longleftrightarrow> (\<forall>i < length ms. ism_queue (ms ! i) \<noteq> [])" using u q by (metis atLeastLessThan_iff set_upt zero_le)
  have "ts_value t = ts_value (pkt_ts (hd (ism_queue (ms ! i)))) + offs ! i \<and> \<bar>offs ! i\<bar> \<le> 2 ^ 61" if i: "i < length ms" "ism_queue (ms ! i) \<noteq> []" for i
  proof (cases "i = base")
    case True
    then show ?thesis using b st(3) pq h1(2) by simp
  next
    case False
    then have "offs ! i = ts_value t - ts_value (pkt_ts (hd (ism_queue (ms ! i))))" using d i h1(2) by simp
    moreover have "\<bar>ts_value (pkt_ts (hd (ism_queue (ms ! i))))\<bar> \<le> 2 ^ 60" using st(4) i by (simp add: calm_def)
    ultimately show ?thesis using v h1(2) by simp
  qed
  moreover have "offs ! base = 0" using b st(3) by simp
  moreover have "h1 = h\<lparr>timestamp_offsets := offs, offsets_initialized := (\<forall>i < length ms. ism_queue (ms ! i) \<noteq> [])\<rparr>" using h1(1) u' by simp
  moreover have "t = pkt_ts (hd (ism_queue (ms ! base)))" "\<bar>ts_value t\<bar> \<le> 2 ^ 60" using h1(2) pq v by simp_all
  ultimately show ?thesis using l st(2) q by (intro exI [of _ offs]) simp
qed


section \<open>Filling\<close>

text \<open>What filling with an offset does to one stream and its shard.\<close>

definition aligned_fill :: "Timestamp \<Rightarrow> int \<Rightarrow> 'a InputStreamManager \<Rightarrow> 'a InputStreamShard \<Rightarrow> 'a InputStreamManager \<Rightarrow> 'a InputStreamShard \<Rightarrow> bool" where
  "aligned_fill t off s sh s' sh' \<longleftrightarrow>
     stream_inv s' \<and> last_select_timestamp s' = Ts (ts_value t - off) \<and> Ts (ts_value t - off) < next_timestamp_bound s' \<and>
     packet_queue sh' \<noteq> [] \<and> butlast (packet_queue sh') = packet_queue sh \<and> is_done sh' = ism_IsDone s' \<and>
     (if ism_queue s \<noteq> [] \<and> ts_value (pkt_ts (hd (ism_queue s))) + off = ts_value t
      then last (packet_queue sh') = packet_At t (hd (ism_queue s)) \<and> ism_queue s' = tl (ism_queue s)
      else packet_IsEmpty (last (packet_queue sh')) \<and> ism_queue s' = ism_queue s)"

definition alignable :: "Timestamp \<Rightarrow> int \<Rightarrow> 'a InputStreamManager \<Rightarrow> 'a InputStreamShard \<Rightarrow> bool" where
  "alignable t off s sh \<longleftrightarrow> selectable_at (Ts (ts_value t - off)) s sh \<and> calm s \<and> \<bar>off\<bar> \<le> 2 ^ 61 \<and> \<bar>ts_value t\<bar> \<le> 3 * 2 ^ 60"

lemma fill_aligned_ok:
  assumes "has_id i h" "i < length sh" "alignable t (offs ! i) (input_stream_managers h ! i) (sh ! i)"
  shows "\<exists>s' sh' cs. fill_aligned offs t i (h, sh) = Inr (call cs (put_stream i s' h), sh[i := sh']) \<and>
    aligned_fill t (offs ! i) (input_stream_managers h ! i) (sh ! i) s' sh'"
proof -
  let ?s = "input_stream_managers h ! i" and ?u = "Ts (ts_value t - offs ! i)"
  have a: "IsAllowedInStream ?u" "shard_ok ?s (sh ! i)" "stream_inv ?s" "last_select_timestamp ?s \<le> ?u" "?u \<le> fst (MinTimestampOrBound ?s)"
    "calm ?s" "\<bar>offs ! i\<bar> \<le> 2 ^ 61" "\<bar>ts_value t\<bar> \<le> 3 * 2 ^ 60" using assms(3) by (simp_all add: alignable_def selectable_at_def)
  from ism.select_head [OF a(3,1,4,5)] obtain r s' where r: "PopPacketAtTimestamp ?u ?s = Inr (r, s')" "stream_inv s'"
      "last_select_timestamp s' = ?u" "?u < next_timestamp_bound s'" "num_packets_dropped r = 0"
    and c: "if ism_queue ?s \<noteq> [] \<and> fst (MinTimestampOrBound ?s) = ?u then popped r = hd (ism_queue ?s) \<and> ism_queue s' = tl (ism_queue ?s)
      else packet_IsEmpty (popped r) \<and> ism_queue s' = ism_queue ?s" by blast
  have hd: "fst (MinTimestampOrBound ?s) = ?u \<longleftrightarrow> ts_value (pkt_ts (hd (ism_queue ?s))) + offs ! i = ts_value t" if "ism_queue ?s \<noteq> []"
    using ism.head_eq [OF a(3)] that by (auto simp: ts_eq_iff)
  have full: "\<not> packet_IsEmpty (hd (ism_queue ?s))" "pkt_ts (hd (ism_queue ?s)) = fst (MinTimestampOrBound ?s)" if "ism_queue ?s \<noteq> []"
    using a(6) that ism.head_eq [OF a(3)] by (simp_all add: calm_def)
  define p where "p = (if packet_IsEmpty (popped r) then popped r else packet_At t (popped r))"
  have p: "packet_IsEmpty p = packet_IsEmpty (popped r)" by (simp add: p_def packet_IsEmpty_def packet_At_def)
  have fin: "stream_is_done r = ism_IsDone s'" using pop_is_done [OF r(1)] by simp
  have "is_done (sh ! i) \<Longrightarrow> packet_IsEmpty p" using a(2) c p by (auto simp: shard_ok_def ism_IsDone_def)
  then have add: "shard_AddPacket p (stream_is_done r) (sh ! i) = Inr ((sh ! i)\<lparr>packet_queue := packet_queue (sh ! i) @ [p], is_done := ism_IsDone s'\<rparr>)"
    using fin by (auto simp: shard_AddPacket_def)
  have ok: "\<not> (\<not> packet_IsEmpty (popped r) \<and> pkt_ts (popped r) \<noteq> ?u)" using c full by (auto split: if_splits)
  have sub: "ts_sub t (offs ! i) = Inr ?u" using ts_sub_near [OF a(8,7)] by simp
  have run: "fill_aligned offs t i (h, sh) = Inr (call (map (QueueSizeCallback i) (pop_events r)) (put_stream i s' h),
      sh[i := (sh ! i)\<lparr>packet_queue := packet_queue (sh ! i) @ [p], is_done := ism_IsDone s'\<rparr>])"
    unfolding fill_aligned_def using assms(1,2) sub r(1,5) ok add [unfolded p_def] by (simp add: p_def)
  have "aligned_fill t (offs ! i) ?s (sh ! i) s' ((sh ! i)\<lparr>packet_queue := packet_queue (sh ! i) @ [p], is_done := ism_IsDone s'\<rparr>)"
    using r(2-4) c hd full p by (auto simp: aligned_fill_def p_def packet_IsEmpty_def split: if_splits)
  with run show ?thesis by blast
qed

interpretation fill_offs: per_stream "fill_aligned offs t" "\<lambda>i. alignable t (offs ! i)" "\<lambda>i. aligned_fill t (offs ! i)" for offs t
  by unfold_locales (rule fill_aligned_ok)

text \<open>Before the offsets are fixed the streams other than the base give an empty packet and keep theirs.\<close>

definition base_fill :: "nat \<Rightarrow> Timestamp \<Rightarrow> nat \<Rightarrow> 'a InputStreamManager \<Rightarrow> 'a InputStreamShard \<Rightarrow> 'a InputStreamManager \<Rightarrow> 'a InputStreamShard \<Rightarrow> bool" where
  "base_fill base t i s sh s' sh' \<longleftrightarrow>
     (if i = base then synced t s sh s' sh' else s' = s \<and> sh' = sh\<lparr>packet_queue := packet_queue sh @ [empty_packet], is_done := False\<rparr>)"

interpretation fill_first: per_stream "fill_base base t" "\<lambda>i s sh. i = base \<longrightarrow> selectable_at t s sh" "base_fill base t" for base t
proof unfold_locales
  fix i and h :: "('a, 'b) InputStreamHandler_scheme" and sh
  assume i: "has_id i h" "i < length sh" "i = base \<longrightarrow> selectable_at t (input_stream_managers h ! i) (sh ! i)"
  show "\<exists>s' sh' cs. fill_base base t i (h, sh) = Inr (call cs (put_stream i s' h), sh[i := sh']) \<and>
      base_fill base t i (input_stream_managers h ! i) (sh ! i) s' sh'"
  proof (cases "i = base")
    case True
    then show ?thesis using fill_at.step_ok [OF i(1,2)] i(3) by (simp add: fill_base_def base_fill_def)
  next
    case False
    have "h = call [] (put_stream i (input_stream_managers h ! i) h)" by (simp add: call_def put_stream_def)
    with False i(1,2) show ?thesis
      by (intro exI [of _ "input_stream_managers h ! i"] exI [of _ "(sh ! i)\<lparr>packet_queue := packet_queue (sh ! i) @ [empty_packet], is_done := False\<rparr>"]
          exI [of _ "[]"]) (simp add: fill_base_def base_fill_def shard_AddPacket_def packet_IsEmpty_def empty_packet_def)
  qed
qed


section \<open>The handler meets the contract\<close>

lemma head_of: "ism_queue s \<noteq> [] \<Longrightarrow> fst (MinTimestampOrBound s) = pkt_ts (hd (ism_queue s))"
  by (cases "ism_queue s") (simp_all add: MinTimestampOrBound_def)

definition ready_with :: "int list \<Rightarrow> bool \<Rightarrow> Timestamp \<Rightarrow> ('a, 'b) TimestampAlignInputStreamHandler_scheme \<Rightarrow> bool" where
  "ready_with offs ini t h \<longleftrightarrow>
     (let ms = input_stream_managers h; base = timestamp_base_stream_id h
      in length offs = length ms \<and> offs ! base = 0 \<and> \<bar>ts_value t\<bar> \<le> 3 * 2 ^ 60 \<and>
         (if ini then fillable offs t ms \<and> (offsets_initialized h \<longrightarrow> offs = timestamp_offsets h) \<and>
            (\<not> offsets_initialized h \<longrightarrow> (\<forall>i < length ms. ism_queue (ms ! i) \<noteq> [] \<and> ts_value t = ts_value (pkt_ts (hd (ism_queue (ms ! i)))) + offs ! i))
          else \<not> offsets_initialized h \<and> ism_queue (ms ! base) \<noteq> [] \<and> t = pkt_ts (hd (ism_queue (ms ! base)))))"

lemma align_ready_cases:
  assumes inv: "align_inv h" and rd: "Align_GetNodeReadiness h = Inr (kReadyForProcess, t, h1)"
  shows "\<exists>offs ini. h1 = h\<lparr>timestamp_offsets := offs, offsets_initialized := ini\<rparr> \<and> ready_with offs ini t h"
proof (cases "offsets_initialized h")
  case True
  let ?ms = "input_stream_managers h" and ?base = "timestamp_base_stream_id h"
  from align_ready [OF inv True rd] have r: "h1 = h" "fillable (timestamp_offsets h) t ?ms" by auto
  have "length (timestamp_offsets h) = length ?ms" "timestamp_offsets h ! ?base = 0" using inv by (simp_all add: align_inv_def Let_def )
  moreover have "\<bar>ts_value t\<bar> \<le> 3 * 2 ^ 60" using r(2) by (simp add: fillable_def)
  ultimately show ?thesis unfolding ready_with_def Let_def using r True by (intro exI [of _ "timestamp_offsets h"] exI [of _ True]) simp
next
  case False
  let ?ms = "input_stream_managers h" and ?base = "timestamp_base_stream_id h"
  from base_ready [OF inv False rd] obtain offs where r:
    "h1 = h\<lparr>timestamp_offsets := offs, offsets_initialized := (\<forall>i < length ?ms. ism_queue (?ms ! i) \<noteq> [])\<rparr>" "length offs = length ?ms" "offs ! ?base = 0"
    "ism_queue (?ms ! ?base) \<noteq> []" "t = pkt_ts (hd (ism_queue (?ms ! ?base)))" "\<bar>ts_value t\<bar> \<le> 2 ^ 60"
    "\<forall>i < length ?ms. ism_queue (?ms ! i) \<noteq> [] \<longrightarrow> ts_value t = ts_value (pkt_ts (hd (ism_queue (?ms ! i)))) + offs ! i \<and> \<bar>offs ! i\<bar> \<le> 2 ^ 61"
    by blast
  have st: "?base < length ?ms" "\<forall>i < length ?ms. stream_inv (?ms ! i)" using inv by (simp_all add: align_inv_def Let_def )
  have "fillable offs t ?ms" if q: "\<forall>i < length ?ms. ism_queue (?ms ! i) \<noteq> []"
  proof -
    have "\<bar>offs ! i\<bar> \<le> 2 ^ 61 \<and> last_select_timestamp (?ms ! i) < Ts (ts_value t - offs ! i) \<and> Ts (ts_value t - offs ! i) \<le> fst (MinTimestampOrBound (?ms ! i))"
      if i: "i < length ?ms" for i
    proof -
      have h: "ts_value t = ts_value (pkt_ts (hd (ism_queue (?ms ! i)))) + offs ! i" "\<bar>offs ! i\<bar> \<le> 2 ^ 61" using r(7) q i by blast+
      then have e: "Ts (ts_value t - offs ! i) = pkt_ts (hd (ism_queue (?ms ! i)))" by simp
      show ?thesis unfolding e using h(2) st(2) q i head_of [of "?ms ! i"] by (simp add: stream_inv_def)
    qed
    then show ?thesis unfolding fillable_def using r(6) r(7) q st(1) by fastforce
  qed
  with r False show ?thesis unfolding ready_with_def Let_def by (intro exI [of _ offs] exI [of _ "\<forall>i < length ?ms. ism_queue (?ms ! i) \<noteq> []"]) simp
qed

lemma align_fill:
  assumes inv: "align_inv h" and rd: "Align_GetNodeReadiness h = Inr (kReadyForProcess, t, h1)" and fit: "shards_fit h1 sh"
  defines "ms \<equiv> input_stream_managers h" and "base \<equiv> timestamp_base_stream_id h"
  shows "\<exists>ms' cs sh'. Align_FillInputSet t (h1\<lparr>calculator_context_manager := cm\<rparr>, sh) =
      Inr (h1\<lparr>calculator_context_manager := cm, input_stream_managers := ms', callbacks := callbacks h @ cs\<rparr>, sh') \<and>
    length ms' = length ms \<and> length sh' = length sh \<and>
    (\<forall>i < length ms. if offsets_initialized h1 then aligned_fill t (timestamp_offsets h1 ! i) (ms ! i) (sh ! i) (ms' ! i) (sh' ! i)
       else base_fill base t i (ms ! i) (sh ! i) (ms' ! i) (sh' ! i))"
proof -
  from align_ready_cases [OF inv rd] obtain offs ini where h1: "h1 = h\<lparr>timestamp_offsets := offs, offsets_initialized := ini\<rparr>"
    and r: "ready_with offs ini t h" by blast
  have t: "\<bar>ts_value t\<bar> \<le> 3 * 2 ^ 60" using r unfolding ready_with_def Let_def by blast
  let ?h = "h1\<lparr>calculator_context_manager := cm\<rparr>"
  have m: "input_stream_managers ?h = ms" "callbacks ?h = callbacks h" "timestamp_base_stream_id ?h = base" by (simp_all add: h1 ms_def base_def)
  have n: "length sh = length ms" "\<forall>i < length ms. shard_ok (ms ! i) (sh ! i)" using fit by (simp_all add: shards_fit_def h1 ms_def)
  have st: "base < length ms" "\<forall>i < length ms. stream_inv (ms ! i) \<and> calm (ms ! i)" using inv by (simp_all add: align_inv_def Let_def ms_def base_def)
  have "\<bar>ts_value t\<bar> \<le> 5 * 2 ^ 60" using t by simp
  from range_near [OF this] have a: "IsAllowedInStream t" by simp
  show ?thesis
  proof (cases ini)
    case True
    then have f: "fillable offs t ms" using r by (simp add: ready_with_def Let_def ms_def)
    have "alignable t (offs ! i) (ms ! i) (sh ! i)" if i: "i < length ms" for i
    proof -
      have o: "\<bar>offs ! i\<bar> \<le> 2 ^ 61" "last_select_timestamp (ms ! i) < Ts (ts_value t - offs ! i)" "Ts (ts_value t - offs ! i) \<le> fst (MinTimestampOrBound (ms ! i))"
        using f i by (simp_all add: fillable_def)
      have "\<bar>ts_value t - offs ! i\<bar> \<le> 5 * 2 ^ 60" using o(1) t by auto
      from range_near [OF this] show ?thesis using o st(2) n(2) i t by (simp add: alignable_def selectable_at_def)
    qed
    then show ?thesis using fill_offs.fill_node [of sh ?h t offs] m n a True by (simp add: Align_FillInputSet_def h1)
  next
    case False
    have s: "stream_inv (ms ! base)" "ism_queue (ms ! base) \<noteq> []" "t = pkt_ts (hd (ism_queue (ms ! base)))"
      using r False st by (simp_all add: ready_with_def Let_def ms_def base_def)
    then have "last_select_timestamp (ms ! base) < t" by (simp add: stream_inv_def)
    then have "selectable_at t (ms ! base) (sh ! base)" using s a st(1) n(2) head_of [OF s(2)] by (simp add: selectable_at_def)
    then show ?thesis using fill_first.fill_node [of sh ?h base t] m n a False by (simp add: Align_FillInputSet_def h1 base_def)
  qed
qed

lemma align_fill_inv:
  assumes inv: "align_inv h" and rd: "Align_GetNodeReadiness h = Inr (kReadyForProcess, t, h1)" and fit: "shards_fit h1 sh"
  shows "\<exists>h2 sh2. Align_FillInputSet t (h1\<lparr>calculator_context_manager := cm\<rparr>, sh) = Inr (h2, sh2) \<and>
    align_inv h2 \<and> shards_fit h2 sh2 \<and> queued h2 < queued h \<and> late_preparation h2 = late_preparation h1 \<and> calculator_context_manager h2 = cm"
proof -
  let ?ms = "input_stream_managers h" and ?base = "timestamp_base_stream_id h"
  from align_ready_cases [OF inv rd] obtain offs ini where h1: "h1 = h\<lparr>timestamp_offsets := offs, offsets_initialized := ini\<rparr>"
    and r: "ready_with offs ini t h" by blast
  have o: "length offs = length ?ms" "offs ! ?base = 0" using r by (simp_all add: ready_with_def Let_def)
  have c: "ini \<Longrightarrow> fillable offs t ?ms"
    "\<not> ini \<Longrightarrow> \<not> offsets_initialized h \<and> ism_queue (?ms ! ?base) \<noteq> [] \<and> t = pkt_ts (hd (ism_queue (?ms ! ?base)))"
    using r by (simp_all add: ready_with_def Let_def)
  from align_fill [OF assms, of cm] obtain ms' cs sh' where
    f: "Align_FillInputSet t (h1\<lparr>calculator_context_manager := cm\<rparr>, sh) =
      Inr (h1\<lparr>calculator_context_manager := cm, input_stream_managers := ms', callbacks := callbacks h @ cs\<rparr>, sh')"
    "length ms' = length ?ms" "length sh' = length sh"
    and g0: "\<forall>i < length ?ms. if offsets_initialized h1 then aligned_fill t (timestamp_offsets h1 ! i) (?ms ! i) (sh ! i) (ms' ! i) (sh' ! i)
       else base_fill ?base t i (?ms ! i) (sh ! i) (ms' ! i) (sh' ! i)" by blast
  have g: "if ini then aligned_fill t (offs ! i) (?ms ! i) (sh ! i) (ms' ! i) (sh' ! i)
       else base_fill ?base t i (?ms ! i) (sh ! i) (ms' ! i) (sh' ! i)" if "i < length ?ms" for i
  proof -
    have e: "offsets_initialized h1 = ini" "timestamp_offsets h1 = offs" by (simp_all add: h1)
    show ?thesis using g0 that unfolding e by blast
  qed
  let ?h2 = "h1\<lparr>calculator_context_manager := cm, input_stream_managers := ms', callbacks := callbacks h @ cs\<rparr>"
  have st: "?base < length ?ms" "\<And>i. i < length ?ms \<Longrightarrow> stream_inv (?ms ! i) \<and> calm (?ms ! i)" using inv by (simp_all add: align_inv_def Let_def)
  have n: "length sh = length ?ms" "\<And>i. i < length ?ms \<Longrightarrow> shard_ok (?ms ! i) (sh ! i)" using fit by (simp_all add: shards_fit_def h1)
  have q: "ism_queue (ms' ! i) \<in> {ism_queue (?ms ! i), tl (ism_queue (?ms ! i))}" if "i < length ?ms" for i
    using g [OF that] by (auto simp: aligned_fill_def base_fill_def synced_def split: if_splits)
  have calm: "calm (ms' ! i)" if "i < length ?ms" for i
    using q [OF that] st(2) [OF that] by (cases "ism_queue (?ms ! i)") (auto simp: calm_def)
  have si: "stream_inv (ms' ! i)" if "i < length ?ms" for i
    using g [OF that] st(2) [OF that] by (auto simp: aligned_fill_def base_fill_def synced_def split: if_splits)
  have "align_inv ?h2"
  proof (cases ini)
    case True
    then have "\<forall>i < length ms'. \<bar>offs ! i\<bar> \<le> 2 ^ 61 \<and> last_select_timestamp (ms' ! i) = Ts (ts_value t - offs ! i)"
      using c g f(2) by (simp add: fillable_def aligned_fill_def)
    then show ?thesis using True st(1) o calm si f(2) unfolding align_inv_def h1 by (simp add: Let_def)
  next
    case False
    then have "\<forall>i < length ?ms. i \<noteq> ?base \<longrightarrow> last_select_timestamp (ms' ! i) = Unstarted"
      using c g inv by (simp add: base_fill_def align_inv_def Let_def)
    then show ?thesis using False st(1) o calm si f(2) unfolding align_inv_def h1 by (simp add: Let_def)
  qed
  moreover have "shard_ok (ms' ! i) (sh' ! i)" if "i < length ?ms" for i
    using g [OF that] n(2) [OF that] by (auto simp: aligned_fill_def base_fill_def synced_def shard_ok_def split: if_splits)
  then have "shards_fit ?h2 sh'" using f(2,3) n(1) by (simp add: shards_fit_def)
  moreover have "queued ?h2 < queued h"
  proof -
    have le: "length (ism_queue (ms' ! i)) \<le> length (ism_queue (?ms ! i))" if "i < length ?ms" for i using q [OF that] by auto
    obtain k where k: "k < length ?ms" "ism_queue (?ms ! k) \<noteq> []" "ism_queue (ms' ! k) = tl (ism_queue (?ms ! k))"
    proof (cases ini)
      case True
      then obtain k where "k < length ?ms" "ism_queue (?ms ! k) \<noteq> []" "ts_value t = ts_value (pkt_ts (hd (ism_queue (?ms ! k)))) + offs ! k"
        using c by (auto simp: fillable_def)
      then show thesis using that g True by (simp add: aligned_fill_def)
    next
      case False
      then show thesis using that [OF st(1)] g [OF st(1)] c by (simp add: base_fill_def synced_def)
    qed
    then have "length (ism_queue (ms' ! k)) < length (ism_queue (?ms ! k))" by simp
    then show ?thesis using queued_less [OF f(2)] le k(1) by (auto simp: queued_def)
  qed
  ultimately show ?thesis using f(1) by (auto simp: h1)
qed


lemma align_readiness:
  assumes "align_inv h"
  shows "\<exists>rd t h1. Align_GetNodeReadiness h = Inr (rd, t, h1) \<and> input_stream_managers h1 = input_stream_managers h \<and>
    late_preparation h1 = late_preparation h \<and> calculator_context_manager h1 = calculator_context_manager h \<and> (rd \<noteq> kReadyForProcess \<longrightarrow> h1 = h)"
proof (cases "offsets_initialized h")
  case True
  obtain mb mt where sc: "align_scan (timestamp_offsets h) (input_stream_managers h) [0..<length (input_stream_managers h)] (Done, Done) = Inr (mb, mt)"
    using align_scan_total by blast
  have "mt \<le> mb" using align_scan_spec [OF sc] by auto
  then show ?thesis using True sc by (auto simp: Align_GetNodeReadiness_def Let_def)
next
  case False
  let ?ms = "input_stream_managers h" and ?base = "timestamp_base_stream_id h"
  have st: "?base < length ?ms" "length (timestamp_offsets h) = length ?ms" "\<forall>i < length ?ms. calm (?ms ! i)"
    using assms by (simp_all add: align_inv_def Let_def)
  show ?thesis
  proof (cases "ism_queue (?ms ! ?base)")
    case Nil
    then show ?thesis using False by (simp add: Align_GetNodeReadiness_def Let_def MinTimestampOrBound_def)
  next
    case (Cons p ps)
    then have v: "\<bar>ts_value (pkt_ts p)\<bar> \<le> 2 ^ 60" using st(1,3) by (simp add: calm_def)
    have "\<forall>i \<in> set [0..<length ?ms]. i < length (timestamp_offsets h) \<and> calm (?ms ! i)" using st by simp
    from base_scan_spec [OF distinct_upt this v, of ?base 0] show ?thesis using False Cons
      by (auto simp: Align_GetNodeReadiness_def Let_def MinTimestampOrBound_def)
  qed
qed

interpretation align: handler_policy Align_GetNodeReadiness Align_FillInputSet align_inv shards_fit queued
proof (unfold_locales, goal_cases)
  case (1 h)
  from align_readiness [OF this] obtain rd t h1 where "Align_GetNodeReadiness h = Inr (rd, t, h1)" "input_stream_managers h1 = input_stream_managers h"
    "late_preparation h1 = late_preparation h" "calculator_context_manager h1 = calculator_context_manager h" "rd \<noteq> kReadyForProcess \<longrightarrow> h1 = h" by blast
  with 1 show ?case by (intro exI [of _ rd] exI [of _ t] exI [of _ h1]) (auto simp: shards_fit_def)
next
  case (2 h t h' sh cm)
  then show ?case by (rule align_fill_inv)
qed (simp_all add: align_inv_def shards_fit_def queued_def fun_eq_iff)

section \<open>Events from upstream\<close>

lemma calm_add:
  assumes "calm s" "\<forall>p \<in> set ps. \<not> packet_IsEmpty p \<and> \<bar>ts_value (pkt_ts p)\<bar> \<le> 2 ^ 60"
  shows "calm (snd (snd (snd (AddOrMovePacketsInternal validate ps s))))"
proof -
  obtain k where "ism_queue (snd (add_loop validate ps s)) = ism_queue s @ take k ps" using add_loop_queue [of ps validate s] by blast
  then show ?thesis using assms by (auto simp: AddOrMove_state calm_def dest: in_set_takeD)
qed

lemma calm_bound: "calm s \<Longrightarrow> calm (snd (snd (SetNextTimestampBound b s)))"
  by (simp add: calm_def SetNextTimestampBound_def)

lemma align_inv_event:
  assumes inv: "align_inv h" and s: "stream_inv (input_stream_managers h ! i) \<Longrightarrow> stream_inv s'" "calm (input_stream_managers h ! i) \<Longrightarrow> calm s'"
    "last_select_timestamp s' = last_select_timestamp (input_stream_managers h ! i)"
  shows "align_inv (call cs (put_stream i s' h))"
proof (cases "i < length (input_stream_managers h)")
  case True
  have "last_select_timestamp ((input_stream_managers h)[i := s'] ! j) = last_select_timestamp (input_stream_managers h ! j)" for j
    using s(3) True by (cases "j = i") simp_all
  moreover have "stream_inv ((input_stream_managers h)[i := s'] ! j) \<and> calm ((input_stream_managers h)[i := s'] ! j)" if "j < length (input_stream_managers h)" for j
    using inv s(1,2) that by (cases "j = i") (simp_all add: align_inv_def Let_def)
  ultimately show ?thesis using inv
    by (cases "offsets_initialized h") (simp_all add: align_inv_def Let_def call_def put_stream_def)
next
  case False
  then show ?thesis using inv
    by (cases "offsets_initialized h") (simp_all add: align_inv_def Let_def call_def put_stream_def list_update_beyond)
qed

lemma align_inv_AddPackets:
  assumes "align_inv h" "ish_AddPackets validate i ps h = Inr h'" "\<forall>p \<in> set ps. \<not> packet_IsEmpty p \<and> \<bar>ts_value (pkt_ts p)\<bar> \<le> 2 ^ 60"
  shows "align_inv h'"
proof -
  from event_form(1) [OF assms(2)] obtain cs where
    h: "h' = call cs (put_stream i (snd (snd (snd (AddOrMovePacketsInternal validate ps (input_stream_managers h ! i))))) h)" by blast
  show ?thesis unfolding h by (rule align_inv_event [OF assms(1) stream_inv_add calm_add [OF _ assms(3)] add_last_select])
qed

lemma align_inv_SetNextTimestampBound:
  assumes "align_inv h" "ish_SetNextTimestampBound i b h = Inr h'"
  shows "align_inv h'"
proof -
  from event_form(2) [OF assms(2)] obtain cs where
    h: "h' = call cs (put_stream i (snd (snd (SetNextTimestampBound b (input_stream_managers h ! i)))) h)" by blast
  show ?thesis unfolding h by (rule align_inv_event [OF assms(1) stream_inv_bound calm_bound bound_last_select])
qed

lemma prepared: "enable_timestamps s \<Longrightarrow> stream_inv (ism_PrepareForRun s)" "calm (ism_PrepareForRun s)"
    "last_select_timestamp (ism_PrepareForRun s) = Unstarted"
  by (simp_all add: stream_inv_prepare) (simp_all add: calm_def ism_PrepareForRun_def)

lemma align_inv_prepare:
  assumes "timestamp_base_stream_id h < length (input_stream_managers h)" "length (timestamp_offsets h) = length (input_stream_managers h)"
    and "timestamp_offsets h ! timestamp_base_stream_id h = 0" "list_all enable_timestamps (input_stream_managers h)"
  shows "align_inv (Align_PrepareForRun h)"
proof -
  have "timestamp_offsets h ! 0 = 0" if "length (input_stream_managers h) = 1" using assms(1,3) that by simp
  then show ?thesis using assms
    by (auto simp: align_inv_def Let_def Align_PrepareForRun_def ish_PrepareForRun_def list_all_length prepared)
qed

text \<open>The base may end before the other streams have begun.  The node is then not closed, though no stream has anything left to give.\<close>

lemma base_ended_not_closed:
  assumes "\<not> offsets_initialized h" "timestamp_base_stream_id h < length (input_stream_managers h)"
    and "\<forall>s \<in> set (input_stream_managers h). ism_queue s = [] \<and> next_timestamp_bound s = Done"
  shows "Align_GetNodeReadiness h = Inr (kNotReady, Done, h)"
  using assms by (simp add: Align_GetNodeReadiness_def Let_def MinTimestampOrBound_def)

text \<open>A packet at \<open>PostStream\<close>, which every stream accepts, fails a check when it is filled.\<close>

lemma post_stream_refused:
  assumes "offsets_initialized h" "input_stream_managers h \<noteq> []"
  shows "\<exists>e. Align_FillInputSet PostStream (h, sh) = Inl e"
proof -
  have "[0..<length (input_stream_managers h)] = 0 # [1..<length (input_stream_managers h)]" using assms(2) by (simp add: upt_rec)
  moreover have "\<exists>e. ts_sub PostStream d = Inl e" for d
    by (simp add: ts_sub_def ts_add_def IsRangeValue_def special_defs split: sum.splits)
  then obtain e where "ts_sub PostStream (timestamp_offsets h ! 0) = Inl e" by blast
  then have "\<exists>e. fill_aligned (timestamp_offsets h) PostStream 0 (h, sh) = Inl e" by (simp add: fill_aligned_def)
  ultimately show ?thesis using assms(1) by (auto simp: Align_FillInputSet_def)
qed


section \<open>Properties\<close>

text \<open>
  Alignment. When the handler reports a node ready to process \<open>t\<close>, filling an input set for \<open>t\<close> succeeds and the invariant holds again.  While the offsets are not known
  only the base contributes, with its first packet, and nothing is taken from the other streams.  They become known when every stream has a packet, such that all these
  first packets are at \<open>t\<close>, and stay as they are; from then on every stream contributes the packet whose timestamp and offset add up to \<open>t\<close>, put at \<open>t\<close>, or an empty
  one, some stream does have a packet, and none can deliver a packet for \<open>t\<close> or earlier afterwards.
\<close>

theorem align_handler_aligns:
  assumes inv: "align_inv h" and rd: "Align_GetNodeReadiness h = Inr (kReadyForProcess, t, h1)" and fit: "shards_fit h1 sh"
  defines "ms \<equiv> input_stream_managers h" and "base \<equiv> timestamp_base_stream_id h" and "offs \<equiv> timestamp_offsets h1"
  shows "\<exists>h2 sh2. Align_FillInputSet t (h1, sh) = Inr (h2, sh2) \<and> align_inv h2 \<and>
    (if offsets_initialized h1 then
       (\<exists>i < length ms. ism_queue (ms ! i) \<noteq> [] \<and> ts_value t = ts_value (pkt_ts (hd (ism_queue (ms ! i)))) + offs ! i) \<and>
       (\<forall>i < length ms. aligned_fill t (offs ! i) (ms ! i) (sh ! i) (input_stream_managers h2 ! i) (sh2 ! i)) \<and>
       (if offsets_initialized h then offs = timestamp_offsets h
        else \<forall>i < length ms. ism_queue (ms ! i) \<noteq> [] \<and> ts_value t = ts_value (pkt_ts (hd (ism_queue (ms ! i)))) + offs ! i)
     else t = pkt_ts (hd (ism_queue (ms ! base))) \<and> (\<forall>i < length ms. base_fill base t i (ms ! i) (sh ! i) (input_stream_managers h2 ! i) (sh2 ! i)))"
proof -
  from align_ready_cases [OF inv rd] obtain offs' ini where h1: "h1 = h\<lparr>timestamp_offsets := offs', offsets_initialized := ini\<rparr>"
    and r: "ready_with offs' ini t h" by blast
  have e: "offs' = offs" "ini = offsets_initialized h1" by (simp_all add: h1 offs_def)
  let ?cm = "calculator_context_manager h1"
  have same: "h1\<lparr>calculator_context_manager := ?cm\<rparr> = h1" by simp
  from align_fill [OF inv rd fit, of ?cm, unfolded same, folded ms_def base_def offs_def] obtain ms' cs sh' where
    f: "Align_FillInputSet t (h1, sh) = Inr (h1\<lparr>input_stream_managers := ms', callbacks := callbacks h @ cs\<rparr>, sh')"
    and g: "\<forall>i < length ms. if offsets_initialized h1 then aligned_fill t (offs ! i) (ms ! i) (sh ! i) (ms' ! i) (sh' ! i)
       else base_fill base t i (ms ! i) (sh ! i) (ms' ! i) (sh' ! i)" by blast
  from align.fill_ok [OF inv rd fit, of ?cm, unfolded same] f have "align_inv (h1\<lparr>input_stream_managers := ms', callbacks := callbacks h @ cs\<rparr>)"
    by auto
  moreover have "fillable offs t ms \<and> (if offsets_initialized h then offs = timestamp_offsets h
      else \<forall>i < length ms. ism_queue (ms ! i) \<noteq> [] \<and> ts_value t = ts_value (pkt_ts (hd (ism_queue (ms ! i)))) + offs ! i)" if "offsets_initialized h1"
    using r that by (simp add: ready_with_def Let_def ms_def e)
  moreover have "t = pkt_ts (hd (ism_queue (ms ! base)))" if "\<not> offsets_initialized h1"
    using r that by (simp add: ready_with_def Let_def ms_def base_def e)
  ultimately show ?thesis using f g
    by (intro exI [of _ "h1\<lparr>input_stream_managers := ms', callbacks := callbacks h @ cs\<rparr>"] exI [of _ sh'])
      (cases "offsets_initialized h1"; simp add: fillable_def)
qed

text \<open>A node with two streams, the second of which is 95 behind; both have their first packet.\<close>

definition late_handler :: "int TimestampAlignInputStreamHandler" where
  "late_handler = InputStreamHandler.extend (InputStreamHandler_new
       [enqueue \<lparr>pkt_ts = Ts 100, pkt_data = Some 1\<rparr> (ism_Initialize ''image'' False),
        enqueue \<lparr>pkt_ts = Ts 5, pkt_data = Some 2\<rparr> (ism_Initialize ''landmarks'' False)] (demo_contexts 2))
     (TimestampAlignInputStreamHandler.fields 0 False [0, 0])"

lemma late_handler_inv: "align_inv late_handler"
  by (auto simp: align_inv_def late_handler_def TimestampAlignInputStreamHandler.defs InputStreamHandler.defs InputStreamHandler_new_def less_Suc_eq
      stream_inv_def calm_def queue_sorted_def packet_IsEmpty_def enqueue_def ism_Initialize_def ism_PrepareForRun_def IsAllowedInStream_def special_defs next_ts_eq)

theorem align_handler_aligns_witness:
  "\<exists>h2 sh2. Align_FillInputSet (Ts 100) (late_handler\<lparr>timestamp_offsets := [0, 95], offsets_initialized := True\<rparr>,
      [InputStreamShard_new, InputStreamShard_new]) = Inr (h2, sh2) \<and>
    last (packet_queue (sh2 ! 0)) = \<lparr>pkt_ts = Ts 100, pkt_data = Some 1\<rparr> \<and> last (packet_queue (sh2 ! 1)) = \<lparr>pkt_ts = Ts 100, pkt_data = Some 2\<rparr>"
proof -
  let ?h1 = "late_handler\<lparr>timestamp_offsets := [0, 95], offsets_initialized := True\<rparr>"
  have q: "length (input_stream_managers late_handler) = 2" "ism_queue (input_stream_managers late_handler ! 0) = [\<lparr>pkt_ts = Ts 100, pkt_data = Some 1\<rparr>]"
    "ism_queue (input_stream_managers late_handler ! 1) = [\<lparr>pkt_ts = Ts 5, pkt_data = Some 2\<rparr>]"
    by (simp_all add: late_handler_def InputStreamHandler.defs InputStreamHandler_new_def enqueue_def ism_Initialize_def ism_PrepareForRun_def)
  have u: "[0..<2] = [0, 1 :: nat]" by (simp add: upt_rec)
  have r: "Align_GetNodeReadiness late_handler = Inr (kReadyForProcess, Ts 100, ?h1)"
    by (simp add: Align_GetNodeReadiness_def Let_def q u MinTimestampOrBound_def)
       (simp add: late_handler_def TimestampAlignInputStreamHandler.defs InputStreamHandler.defs InputStreamHandler_new_def
         MinTimestampOrBound_def ts_diff_def IsRangeValue_def safe_int_def special_defs enqueue_def ism_Initialize_def ism_PrepareForRun_def)
  have f: "shards_fit ?h1 [InputStreamShard_new, InputStreamShard_new]"
    using q(1) by (auto simp: shards_fit_def shard_ok_def InputStreamShard_new_def nth_Cons split: nat.splits)
  from align_handler_aligns [OF late_handler_inv r f] q obtain h2 sh2 where
    "Align_FillInputSet (Ts 100) (?h1, [InputStreamShard_new, InputStreamShard_new]) = Inr (h2, sh2)"
    "\<forall>i < 2. aligned_fill (Ts 100) ([0, 95] ! i) (input_stream_managers late_handler ! i) ([InputStreamShard_new, InputStreamShard_new] ! i) (input_stream_managers h2 ! i) (sh2 ! i)"
    by auto
  then show ?thesis using q by (auto simp: aligned_fill_def packet_At_def less_2_cases_iff)
qed

end
