(* ===== verification/Graph_Output.thy ===== *)
theory Graph_Output
  imports Input_Handler
begin

text \<open>
  \<^verbatim>\<open>graph_output_stream.h\<close> and \<^verbatim>\<open>.cc\<close>: how packets leave a graph, through an observer that calls back or a
  poller that is asked.  Each holds a handler with a single input stream.  \<^verbatim>\<open>OutputStreamObserver::Notify\<close> is cut
  at the points where other threads can change the stream, so that its interleavings with
  arriving packets are the runs of a step relation; \<open>Notify\<close> is its run without interference.
  Waiting on the condition variable of a poller is the result \<open>None\<close>.
\<close>

section \<open>State\<close>

text \<open>The handler has no context manager (\<^verbatim>\<open>nullptr\<close>): here one without contexts.\<close>

definition null_manager :: "'a CalculatorContextManager" where
  "null_manager = \<lparr>calculator_run_in_parallel = False, num_inputs = 0, num_outputs = 0, setup_shards_callback = Inr,
     default_context = None, active_contexts = [], idle_contexts = []\<rparr>"

record 'a GraphOutputStream =
  gos_handler :: "'a InputStreamHandler"
  observe_timestamp_bounds :: bool
  notifying :: bool
  gos_last_processed_ts :: Timestamp

definition gos_Initialize :: "string \<Rightarrow> bool \<Rightarrow> 'a GraphOutputStream" where
  "gos_Initialize stream_name observe =
     \<lparr>gos_handler = (InputStreamHandler_new [ism_Initialize stream_name False] null_manager)\<lparr>process_timestamps := observe\<rparr>,
      observe_timestamp_bounds = observe, notifying = False, gos_last_processed_ts = Unstarted\<rparr>"

definition gos_PrepareForRun :: "('a, 'b) GraphOutputStream_scheme \<Rightarrow> ('a, 'b) GraphOutputStream_scheme" where
  "gos_PrepareForRun g = g\<lparr>gos_handler := ish_PrepareForRun (gos_handler g)\<rparr>"

definition gos_stream :: "('a, 'b) GraphOutputStream_scheme \<Rightarrow> 'a InputStreamManager" where
  "gos_stream g = input_stream_managers (gos_handler g) ! 0"

definition gos_put :: "'a InputStreamManager \<Rightarrow> ('a, 'b) GraphOutputStream_scheme \<Rightarrow> ('a, 'b) GraphOutputStream_scheme" where
  "gos_put s g = g\<lparr>gos_handler := put_stream 0 s (gos_handler g)\<rparr>"

definition gos_call :: "queue_event list \<Rightarrow> ('a, 'b) GraphOutputStream_scheme \<Rightarrow> ('a, 'b) GraphOutputStream_scheme" where
  "gos_call ev g = g\<lparr>gos_handler := call (map (QueueSizeCallback 0) ev) (gos_handler g)\<rparr>"

section \<open>The observer\<close>

text \<open>
  Where a call of \<^verbatim>\<open>Notify\<close> stands: about to read the head of the stream, about to check it a last time, about
  to pop a packet, returned, or returned with an error.
\<close>

datatype notify_pc = ReadMin | LastCheck Timestamp | PopAt Timestamp | Returned | Failed

definition notify_enter :: "('a, 'b) GraphOutputStream_scheme \<Rightarrow> notify_pc \<times> ('a, 'b) GraphOutputStream_scheme" where
  "notify_enter g = (if notifying g then (Returned, g) else (ReadMin, g\<lparr>notifying := True\<rparr>))"

definition settled_ts :: "Timestamp \<Rightarrow> Timestamp" where
  "settled_ts m = (if m = PostStream then PostStream else prev_ts m)"

definition notify_read ::
  "('a packet \<Rightarrow> bool) \<Rightarrow> ('a, 'b) GraphOutputStream_scheme \<Rightarrow> 'a packet list \<times> notify_pc \<times> ('a, 'b) GraphOutputStream_scheme" where
  "notify_read packet_callback g =
     (case MinTimestampOrBound (gos_stream g) of
        (m, True) \<Rightarrow>
          if observe_timestamp_bounds g \<and> m < Done \<and> gos_last_processed_ts g < settled_ts m then
            let p = packet_At (settled_ts m) empty_packet
            in if packet_callback p then ([p], LastCheck m, g\<lparr>gos_last_processed_ts := settled_ts m\<rparr>)
               else ([p], Failed, g)
          else ([], LastCheck m, g)
      | (m, False) \<Rightarrow> ([], PopAt m, g))"

definition notify_check :: "Timestamp \<Rightarrow> ('a, 'b) GraphOutputStream_scheme \<Rightarrow> notify_pc \<times> ('a, 'b) GraphOutputStream_scheme" where
  "notify_check m g =
     (if fst (MinTimestampOrBound (gos_stream g)) = m then (Returned, g\<lparr>notifying := False\<rparr>) else (ReadMin, g))"

definition notify_pop ::
  "('a packet \<Rightarrow> bool) \<Rightarrow> Timestamp \<Rightarrow> ('a, 'b) GraphOutputStream_scheme
    \<Rightarrow> ts_error + ('a packet list \<times> notify_pc \<times> ('a, 'b) GraphOutputStream_scheme)" where
  "notify_pop packet_callback m g =
     (case PopPacketAtTimestamp m (gos_stream g) of
        Inl e \<Rightarrow> Inl e
      | Inr (r, s) \<Rightarrow>
          Inr (if num_packets_dropped r \<noteq> 0 then ([], Failed, gos_put s g)
               else if packet_callback (popped r) then ([popped r], ReadMin, (gos_put s g)\<lparr>gos_last_processed_ts := m\<rparr>)
               else ([popped r], Failed, gos_put s g)))"

text \<open>One step of the thread that notifies: the packets handed to the callback, where it stands, the state.\<close>

definition notify_step ::
  "('a packet \<Rightarrow> bool) \<Rightarrow> notify_pc \<Rightarrow> ('a, 'b) GraphOutputStream_scheme
    \<Rightarrow> ts_error + ('a packet list \<times> notify_pc \<times> ('a, 'b) GraphOutputStream_scheme)" where
  "notify_step packet_callback pc g =
     (case pc of
        ReadMin \<Rightarrow> Inr (notify_read packet_callback g)
      | LastCheck m \<Rightarrow> Inr ([], notify_check m g)
      | PopAt m \<Rightarrow> notify_pop packet_callback m g
      | Returned \<Rightarrow> Inr ([], pc, g)
      | Failed \<Rightarrow> Inr ([], pc, g))"

text \<open>The whole call when no other thread touches the stream; the flag tells whether the status is ok.\<close>

partial_function (option) notify_run ::
  "('a packet \<Rightarrow> bool) \<Rightarrow> notify_pc \<Rightarrow> 'a packet list \<Rightarrow> 'a GraphOutputStream
    \<Rightarrow> (ts_error + ('a packet list \<times> bool \<times> 'a GraphOutputStream)) option" where
  "notify_run packet_callback pc out g =
     (if pc = Returned then Some (Inr (out, True, g))
      else if pc = Failed then Some (Inr (out, False, g))
      else case notify_step packet_callback pc g of
             Inl e \<Rightarrow> Some (Inl e)
           | Inr (ps, pc', g') \<Rightarrow> notify_run packet_callback pc' (out @ ps) g')"

definition Notify ::
  "('a packet \<Rightarrow> bool) \<Rightarrow> 'a GraphOutputStream \<Rightarrow> (ts_error + ('a packet list \<times> bool \<times> 'a GraphOutputStream)) option" where
  "Notify packet_callback g = (case notify_enter g of (pc, g') \<Rightarrow> notify_run packet_callback pc [] g')"

section \<open>The observer among other threads\<close>

text \<open>
  A configuration: the threads that have called \<^verbatim>\<open>Notify\<close>, each where its call stands, the state, the notifications that
  are due but have not entered it, and as history the packets the stream accepted, those taken from it, and all calls of the callback.
\<close>

record 'a observer =
  obs_threads :: "notify_pc list"
  obs_gos :: "'a GraphOutputStream"
  obs_pending :: nat
  obs_accepted :: "'a packet list"
  obs_delivered :: "'a packet list"
  obs_calls :: "'a packet list"

definition observer_init :: "string \<Rightarrow> bool \<Rightarrow> 'a observer" where
  "observer_init stream_name observe =
     \<lparr>obs_threads = [], obs_gos = gos_PrepareForRun (gos_Initialize stream_name observe), obs_pending = 0,
      obs_accepted = [], obs_delivered = [], obs_calls = []\<rparr>"

text \<open>Packets and bounds arrive on the stream; the notification they ask for comes later.\<close>

definition observer_add :: "('a packet \<Rightarrow> bool) \<Rightarrow> 'a packet list \<Rightarrow> 'a observer \<Rightarrow> 'a observer" where
  "observer_add validate ps c =
     (case AddOrMovePacketsInternal validate ps (gos_stream (obs_gos c)) of
        (st, notify, ev, s) \<Rightarrow>
          c\<lparr>obs_gos := gos_put s (obs_gos c), obs_pending := obs_pending c + of_bool notify,
            obs_accepted := obs_accepted c @ drop (length (ism_queue (gos_stream (obs_gos c)))) (ism_queue s)\<rparr>)"

definition observer_bound :: "Timestamp \<Rightarrow> 'a observer \<Rightarrow> 'a observer" where
  "observer_bound b c =
     (case SetNextTimestampBound b (gos_stream (obs_gos c)) of
        (st, notify, s) \<Rightarrow> c\<lparr>obs_gos := gos_put s (obs_gos c), obs_pending := obs_pending c + of_bool notify\<rparr>)"

definition observer_enter :: "'a observer \<Rightarrow> 'a observer" where
  "observer_enter c =
     (let (pc, g) = notify_enter (obs_gos c)
      in c\<lparr>obs_pending := obs_pending c - 1, obs_gos := g, obs_threads := obs_threads c @ [pc]\<rparr>)"

text \<open>What a thread changes by a step from \<open>pc\<close>, apart from where it stands.\<close>

definition observer_ran :: "notify_pc \<Rightarrow> 'a packet list \<Rightarrow> 'a GraphOutputStream \<Rightarrow> 'a observer \<Rightarrow> 'a observer" where
  "observer_ran pc ps g c = c\<lparr>obs_gos := g, obs_calls := obs_calls c @ ps,
     obs_delivered := obs_delivered c @ (case pc of PopAt _ \<Rightarrow> ps | _ \<Rightarrow> [])\<rparr>"

inductive observer_step :: "('a packet \<Rightarrow> bool) \<Rightarrow> ('a packet \<Rightarrow> bool) \<Rightarrow> 'a observer \<Rightarrow> 'a observer \<Rightarrow> bool"
  for validate packet_callback where
  arrive: "observer_step validate packet_callback c (observer_add validate ps c)"
| bound: "observer_step validate packet_callback c (observer_bound b c)"
| enter: "0 < obs_pending c \<Longrightarrow> observer_step validate packet_callback c (observer_enter c)"
| run: "i < length (obs_threads c) \<Longrightarrow> notify_step packet_callback (obs_threads c ! i) (obs_gos c) = Inr (ps, pc, g) \<Longrightarrow>
    observer_step validate packet_callback c
      ((observer_ran (obs_threads c ! i) ps g c)\<lparr>obs_threads := (obs_threads c)[i := pc]\<rparr>)"

inductive observer_reaches :: "('a packet \<Rightarrow> bool) \<Rightarrow> ('a packet \<Rightarrow> bool) \<Rightarrow> 'a observer \<Rightarrow> 'a observer \<Rightarrow> bool"
  for validate packet_callback where
  refl: "observer_reaches validate packet_callback c c"
| step: "observer_reaches validate packet_callback c d \<Longrightarrow> observer_step validate packet_callback d e \<Longrightarrow>
    observer_reaches validate packet_callback c e"

section \<open>The poller\<close>

record 'a OutputStreamPollerImpl = "'a GraphOutputStream" +
  graph_has_error :: bool
  output_timestamp :: Timestamp

definition Poller_Initialize :: "string \<Rightarrow> bool \<Rightarrow> bool \<Rightarrow> 'a OutputStreamPollerImpl" where
  "Poller_Initialize stream_name observe err =
     GraphOutputStream.extend (gos_Initialize stream_name observe) (OutputStreamPollerImpl.fields err Timestamp.Min)"

definition Poller_PrepareForRun :: "'a OutputStreamPollerImpl \<Rightarrow> 'a OutputStreamPollerImpl" where
  "Poller_PrepareForRun g = (gos_PrepareForRun g)\<lparr>graph_has_error := False\<rparr>"

definition Poller_Reset :: "'a OutputStreamPollerImpl \<Rightarrow> 'a OutputStreamPollerImpl" where
  "Poller_Reset g = gos_put (ism_PrepareForRun (gos_stream g)) (g\<lparr>graph_has_error := False\<rparr>)"

definition Poller_SetMaxQueueSize :: "int \<Rightarrow> 'a OutputStreamPollerImpl \<Rightarrow> ts_error + 'a OutputStreamPollerImpl" where
  "Poller_SetMaxQueueSize n g =
     (if n < - 1 then Inl CheckFailed
      else case ish_SetMaxQueueSizes n (gos_handler g) of Inl e \<Rightarrow> Inl e | Inr h \<Rightarrow> Inr (g\<lparr>gos_handler := h\<rparr>))"

definition Poller_QueueSize :: "'a OutputStreamPollerImpl \<Rightarrow> nat" where
  "Poller_QueueSize g = length (ism_queue (gos_stream g))"

definition Poller_NotifyError :: "'a OutputStreamPollerImpl \<Rightarrow> 'a OutputStreamPollerImpl" where
  "Poller_NotifyError g = g\<lparr>graph_has_error := True\<rparr>"

text \<open>
  The condition of the wait loop, with the head it read; \<open>None\<close> while the call waits. The second
  part: the call returns whether there is a packet, the packet if one was written, and the new state.
\<close>

definition next_wait :: "'a OutputStreamPollerImpl \<Rightarrow> (Timestamp \<times> bool \<times> bool) option" where
  "next_wait g =
     (let (min_timestamp, empty_queue) = MinTimestampOrBound (gos_stream g);
          timestamp_bound_changed = empty_queue \<and> process_timestamps (gos_handler g) \<and>
            output_timestamp g < prev_ts min_timestamp
      in if graph_has_error g \<or> \<not> empty_queue \<or> timestamp_bound_changed \<or> min_timestamp = Done
         then Some (min_timestamp, empty_queue, timestamp_bound_changed) else None)"

definition Next :: "'a OutputStreamPollerImpl \<Rightarrow> (ts_error + (bool \<times> 'a packet option \<times> 'a OutputStreamPollerImpl)) option" where
  "Next g =
     (case next_wait g of
        None \<Rightarrow> None
      | Some (min_timestamp, empty_queue, timestamp_bound_changed) \<Rightarrow>
          if graph_has_error g \<and> empty_queue then Some (Inr (False, None, g))
          else
            let g1 = g\<lparr>output_timestamp := (if empty_queue then prev_ts min_timestamp else min_timestamp)\<rparr>
            in if min_timestamp = Done then Some (Inr (False, None, g1))
               else if \<not> empty_queue then
                 Some (case PopPacketAtTimestamp min_timestamp (gos_stream g1) of
                         Inl e \<Rightarrow> Inl e
                       | Inr (r, s) \<Rightarrow>
                           if num_packets_dropped r \<noteq> 0 then Inl CheckFailed
                           else Inr (True, Some (popped r), gos_call (pop_events r) (gos_put s g1)))
               else if timestamp_bound_changed then
                 Some (Inr (True, Some (packet_At (prev_ts min_timestamp) empty_packet), g1))
               else Some (Inr (True, None, g1)))"

section \<open>Facts about one stream\<close>

definition gos_ok :: "('a, 'b) GraphOutputStream_scheme \<Rightarrow> bool" where
  "gos_ok g \<longleftrightarrow> length (input_stream_managers (gos_handler g)) = 1 \<and> stream_inv (gos_stream g)"

lemma gos_put_stream: "length (input_stream_managers (gos_handler g)) = 1 \<Longrightarrow> gos_stream (gos_put s g) = s"
  by (simp add: gos_stream_def gos_put_def put_stream_def)

lemma gos_put_frame [simp]:
  "length (input_stream_managers (gos_handler (gos_put s g))) = length (input_stream_managers (gos_handler g))"
  "notifying (gos_put s g) = notifying g" "gos_last_processed_ts (gos_put s g) = gos_last_processed_ts g"
  "observe_timestamp_bounds (gos_put s g) = observe_timestamp_bounds g"
  "process_timestamps (gos_handler (gos_put s g)) = process_timestamps (gos_handler g)"
  by (simp_all add: gos_put_def put_stream_def)

lemma gos_stream_update [simp]:
  "gos_stream (g\<lparr>notifying := b\<rparr>) = gos_stream g" "gos_stream (g\<lparr>gos_last_processed_ts := t\<rparr>) = gos_stream g"
  by (simp_all add: gos_stream_def)

lemma gos_ok_put: "gos_ok g \<Longrightarrow> stream_inv s \<Longrightarrow> gos_ok (gos_put s g)"
  by (simp add: gos_ok_def gos_put_stream)

lemma gos_ok_update [simp]: "gos_ok (g\<lparr>notifying := b\<rparr>) = gos_ok g" "gos_ok (g\<lparr>gos_last_processed_ts := t\<rparr>) = gos_ok g"
  by (simp_all add: gos_ok_def)

lemma gos_init_ok:
  "gos_ok (gos_PrepareForRun (gos_Initialize n b))" "ism_queue (gos_stream (gos_PrepareForRun (gos_Initialize n b))) = []"
  "next_timestamp_bound (gos_stream (gos_PrepareForRun (gos_Initialize n b))) = PreStream"
  "gos_last_processed_ts (gos_PrepareForRun (gos_Initialize n b)) = Unstarted"
  "notifying (gos_PrepareForRun (gos_Initialize n b)) = False"
  by (simp_all add: gos_ok_def gos_stream_def gos_PrepareForRun_def gos_Initialize_def InputStreamHandler_new_def ish_PrepareForRun_def
      stream_inv_prepare ism_Initialize_def ism_PrepareForRun_def stream_inv_def queue_sorted_def)

lemma MinTimestampOrBound_cases:
  obtains (empty_stream) "ism_queue s = []" "MinTimestampOrBound s = (next_timestamp_bound s, True)"
  | (packet) p q where "ism_queue s = p # q" "MinTimestampOrBound s = (pkt_ts p, False)"
  by (cases "ism_queue s") (auto simp: MinTimestampOrBound_def)

text \<open>Popping the head of an ordered stream takes exactly it.\<close>

lemma pop_head:
  assumes "stream_inv s" and "ism_queue s = p # q"
  shows "\<exists>r s'. PopPacketAtTimestamp (pkt_ts p) s = Inr (r, s') \<and> stream_inv s' \<and> num_packets_dropped r = 0 \<and>
    popped r = p \<and> ism_queue s' = q \<and> next_timestamp_bound s \<le> next_timestamp_bound s'"
proof -
  have "IsAllowedInStream (pkt_ts p)" "last_select_timestamp s \<le> pkt_ts p" "\<forall>x \<in> set q. pkt_ts p < pkt_ts x"
    using assms by (auto simp: stream_inv_def queue_sorted_def)
  moreover from this(3) have "filter (\<lambda>x. pkt_ts p < pkt_ts x) q = q" "filter (\<lambda>x. pkt_ts x < pkt_ts p) q = []"
    by (auto simp: filter_id_conv filter_empty_conv not_less less_imp_le)
  ultimately show ?thesis using pop_spec [OF assms(1), of "pkt_ts p"] assms(2) by auto
qed

lemma settled_le: "PreStream \<le> m \<Longrightarrow> settled_ts m \<le> m"
  by (cases m) (auto simp: settled_ts_def prev_ts_eq special_defs)

section \<open>Interleavings\<close>

text \<open>The invariant around a thread that stands at \<open>pc\<close>; then with the other threads, which have returned.\<close>

definition observer_core :: "('a packet \<Rightarrow> bool) \<Rightarrow> notify_pc \<Rightarrow> 'a observer \<Rightarrow> bool" where
  "observer_core packet_callback pc c \<longleftrightarrow>
     (let g = obs_gos c; s = gos_stream g
      in gos_ok g \<and> (notifying g \<longleftrightarrow> pc \<noteq> Returned) \<and>
         obs_accepted c = obs_delivered c @ ism_queue s \<and> queue_sorted (obs_accepted c) \<and>
         (\<forall>p \<in> set (obs_accepted c). pkt_ts p < next_timestamp_bound s) \<and>
         (\<forall>m. pc = PopAt m \<longrightarrow> ism_queue s \<noteq> [] \<and> pkt_ts (hd (ism_queue s)) = m) \<and>
         (pc = Failed \<longrightarrow> (\<exists>p \<in> set (obs_calls c). \<not> packet_callback p)) \<and>
         sorted (map pkt_ts (obs_calls c)) \<and>
         (pc \<noteq> Failed \<longrightarrow> (\<forall>p \<in> set (obs_calls c). pkt_ts p \<le> gos_last_processed_ts g)) \<and>
         gos_last_processed_ts g \<le> next_timestamp_bound s \<and> (\<forall>p \<in> set (ism_queue s). gos_last_processed_ts g \<le> pkt_ts p))"

definition inside :: "'a observer \<Rightarrow> notify_pc list" where
  "inside c = filter (\<lambda>pc. pc \<noteq> Returned) (obs_threads c)"

definition observer_inv :: "('a packet \<Rightarrow> bool) \<Rightarrow> 'a observer \<Rightarrow> bool" where
  "observer_inv packet_callback c \<longleftrightarrow> length (inside c) \<le> 1 \<and>
     observer_core packet_callback (case inside c of [] \<Rightarrow> Returned | pc # _ \<Rightarrow> pc) c"

lemma observer_core_threads [simp]: "observer_core cb pc (c\<lparr>obs_threads := ths\<rparr>) = observer_core cb pc c"
  by (simp add: observer_core_def)

lemma filter_update_one:
  assumes "length (filter P xs) \<le> 1" "i < length xs" "P (xs ! i)"
  shows "filter P xs = [xs ! i] \<and> filter P (xs[i := y]) = (if P y then [y] else [])"
proof -
  have xs: "xs = take i xs @ xs ! i # drop (Suc i) xs" using assms(2) by (rule id_take_nth_drop)
  have f: "filter P xs = filter P (take i xs) @ xs ! i # filter P (drop (Suc i) xs)"
    using assms(3) by (subst xs) simp
  with assms(1) have "filter P (take i xs) = []" "filter P (drop (Suc i) xs) = []" by simp_all
  with f assms(2) show ?thesis by (simp add: upd_conv_take_nth_drop)
qed

lemma observer_inv_init: "observer_inv packet_callback (observer_init n b)"
  by (simp add: observer_inv_def observer_core_def inside_def observer_init_def gos_init_ok queue_sorted_def Let_def less_imp_le)

lemma queue_sorted_append:
  assumes "queue_sorted xs" "queue_sorted ys" "\<forall>x \<in> set xs. pkt_ts x < k" "\<forall>y \<in> set ys. k \<le> pkt_ts y"
  shows "queue_sorted (xs @ ys)"
  using assms unfolding queue_sorted_def by (fastforce simp: sorted_wrt_append)

lemma observer_inv_below:
  assumes "observer_core packet_callback pc c"
  shows "\<forall>p \<in> set (obs_accepted c). pkt_ts p < next_timestamp_bound (gos_stream (obs_gos c))"
    "gos_last_processed_ts (obs_gos c) \<le> next_timestamp_bound (gos_stream (obs_gos c))"
  using assms by (auto simp: observer_core_def Let_def)

text \<open>Arriving packets are appended behind the bound.\<close>

lemma add_loop_behind:
  "stream_inv s \<Longrightarrow> \<exists>ps'. ism_queue (snd (add_loop v ps s)) = ism_queue s @ ps' \<and> queue_sorted ps' \<and>
     next_timestamp_bound s \<le> next_timestamp_bound (snd (add_loop v ps s)) \<and>
     (\<forall>p \<in> set ps'. next_timestamp_bound s \<le> pkt_ts p \<and> pkt_ts p < next_timestamp_bound (snd (add_loop v ps s)))"
proof (induction ps arbitrary: s)
  case (Cons p ps)
  show ?case
  proof (cases "admit v p s = StatusOk")
    case True
    note a = admit_ok [OF True Cons.prems]
    have lt: "pkt_ts p < next_timestamp_bound (enqueue p s)"
      using a(1) by (simp add: enqueue_def IsAllowedInStream_def next_ts_greater)
    from Cons.IH [OF stream_inv_enqueue [OF True Cons.prems]] obtain ps' where ps':
      "ism_queue (snd (add_loop v ps (enqueue p s))) = ism_queue (enqueue p s) @ ps'" "queue_sorted ps'"
      "next_timestamp_bound (enqueue p s) \<le> next_timestamp_bound (snd (add_loop v ps (enqueue p s)))"
      "\<forall>x \<in> set ps'. next_timestamp_bound (enqueue p s) \<le> pkt_ts x \<and> pkt_ts x < next_timestamp_bound (snd (add_loop v ps (enqueue p s)))"
      by blast
    have "queue_sorted (p # ps')" using ps' lt by (fastforce simp: queue_sorted_def)
    with True ps' lt a(2) show ?thesis
      by (intro exI [of _ "p # ps'"]) (auto simp: enqueue_def)
  qed (simp add: queue_sorted_def)
qed (simp add: queue_sorted_def)

lemma observer_core_add:
  assumes "observer_core packet_callback pc c"
  shows "observer_core packet_callback pc (observer_add v ps c)"
proof -
  define g where "g = obs_gos c"
  define s where "s = gos_stream g"
  define s' where "s' = snd (snd (snd (AddOrMovePacketsInternal v ps s)))"
  have inv: "stream_inv s" "gos_ok g" using assms by (simp_all add: observer_core_def Let_def g_def s_def gos_ok_def)
  then have s': "s' = snd (add_loop v ps s)" "stream_inv s'"
    using add_loop_inv [OF inv(1), of v ps] by (simp_all add: s'_def AddOrMove_state stream_inv_def [of s])
  from add_loop_behind [OF inv(1), of v ps] obtain ps' where ps': "ism_queue s' = ism_queue s @ ps'" "queue_sorted ps'"
    "next_timestamp_bound s \<le> next_timestamp_bound s'"
    "\<forall>p \<in> set ps'. next_timestamp_bound s \<le> pkt_ts p \<and> pkt_ts p < next_timestamp_bound s'" unfolding s' by blast
  have eq: "observer_add v ps c = c\<lparr>obs_gos := gos_put s' g,
      obs_pending := obs_pending c + of_bool (fst (snd (AddOrMovePacketsInternal v ps s))), obs_accepted := obs_accepted c @ ps'\<rparr>"
    using ps'(1) by (auto simp: observer_add_def g_def s_def s'_def split: prod.split)
  have st: "gos_stream (gos_put s' g) = s'" using inv(2) by (simp add: gos_ok_def gos_put_stream)
  have srt: "queue_sorted (obs_accepted c @ ps')"
    using assms ps'(2,4) observer_inv_below(1) [OF assms, folded g_def, folded s_def]
    by (intro queue_sorted_append [of _ _ "next_timestamp_bound s"]) (auto simp: observer_core_def Let_def)
  have old: "\<forall>p \<in> set (obs_accepted c). pkt_ts p < next_timestamp_bound s'" "gos_last_processed_ts g \<le> next_timestamp_bound s'"
    "\<forall>p \<in> set ps'. gos_last_processed_ts g \<le> pkt_ts p"
    using observer_inv_below [OF assms, folded g_def, folded s_def] ps'(3,4) by (meson order_trans order.strict_trans2)+
  show ?thesis
    using assms ps'(1,4) srt st old gos_ok_put [OF inv(2) s'(2)] unfolding eq
    by (auto simp: observer_core_def Let_def g_def s_def)
qed

lemma observer_core_bound:
  assumes "observer_core packet_callback pc c"
  shows "observer_core packet_callback pc (observer_bound b c)"
proof -
  define g where "g = obs_gos c"
  define s where "s = gos_stream g"
  define s' where "s' = snd (snd (SetNextTimestampBound b s))"
  have inv: "stream_inv s" "gos_ok g" using assms by (simp_all add: observer_core_def Let_def g_def s_def gos_ok_def)
  have s': "stream_inv s'" "ism_queue s' = ism_queue s" "next_timestamp_bound s \<le> next_timestamp_bound s'"
    using stream_inv_bound [OF inv(1), of b] by (auto simp: s'_def SetNextTimestampBound_def)
  have eq: "observer_bound b c = c\<lparr>obs_gos := gos_put s' g,
      obs_pending := obs_pending c + of_bool (fst (snd (SetNextTimestampBound b s)))\<rparr>"
    by (simp add: observer_bound_def g_def s_def s'_def split: prod.split)
  have st: "gos_stream (gos_put s' g) = s'" using inv(2) by (simp add: gos_ok_def gos_put_stream)
  have old: "\<forall>p \<in> set (obs_accepted c). pkt_ts p < next_timestamp_bound s'" "gos_last_processed_ts g \<le> next_timestamp_bound s'"
    using observer_inv_below [OF assms, folded g_def, folded s_def] s'(3) by (meson order_trans order.strict_trans2)+
  show ?thesis
    using assms s'(2) st old gos_ok_put [OF inv(2) s'(1)] unfolding eq
    by (auto simp: observer_core_def Let_def g_def s_def)
qed

lemma inside_frame: "inside (observer_add v ps c) = inside c" "inside (observer_bound b c) = inside c"
  by (auto simp: inside_def observer_add_def observer_bound_def split: prod.split)

lemma observer_inv_enter:
  assumes "observer_inv packet_callback c"
  shows "observer_inv packet_callback (observer_enter c)"
proof (cases "notifying (obs_gos c)")
  case True
  then have "inside (observer_enter c) = inside c" "observer_enter c = c\<lparr>obs_pending := obs_pending c - 1, obs_threads := obs_threads c @ [Returned]\<rparr>"
    by (simp_all add: observer_enter_def notify_enter_def inside_def)
  with assms show ?thesis by (simp add: observer_inv_def observer_core_def)
next
  case False
  with assms have "inside c = []" by (auto simp: observer_inv_def observer_core_def Let_def inside_def filter_eq_Cons_iff split: list.splits)
  then have "inside (observer_enter c) = [ReadMin]" using False by (simp add: observer_enter_def notify_enter_def inside_def)
  with assms \<open>inside c = []\<close> False show ?thesis by (auto simp: observer_inv_def observer_core_def Let_def observer_enter_def notify_enter_def)
qed

text \<open>A step of the thread inside cannot fail a check, and keeps the invariant.\<close>

lemma observer_core_run:
  assumes inv: "observer_core packet_callback pc c"
  shows "\<exists>ps pc' g. notify_step packet_callback pc (obs_gos c) = Inr (ps, pc', g) \<and>
    observer_core packet_callback pc' (observer_ran pc ps g c)"
proof (cases pc)
  case ReadMin
  have "PreStream \<le> next_timestamp_bound (gos_stream (obs_gos c))"
    using inv by (simp add: observer_core_def Let_def gos_ok_def stream_inv_def)
  note le = settled_le [OF this]
  from inv ReadMin show ?thesis
    by (cases "gos_stream (obs_gos c)" rule: MinTimestampOrBound_cases)
      (auto simp: notify_step_def notify_read_def observer_ran_def observer_core_def Let_def packet_At_def empty_packet_def sorted_append
        intro: le order_trans less_imp_le)
next
  case (LastCheck m)
  with inv show ?thesis by (auto simp: notify_step_def notify_check_def observer_ran_def observer_core_def Let_def)
next
  case (PopAt m)
  define s where "s = gos_stream (obs_gos c)"
  from inv PopAt obtain p q where q: "ism_queue s = p # q" "pkt_ts p = m" and ok: "gos_ok (obs_gos c)"
    by (auto simp: observer_core_def Let_def s_def neq_Nil_conv)
  then have "stream_inv s" by (simp add: gos_ok_def s_def)
  from pop_head [OF this q(1)] q(2) obtain r s' where r: "PopPacketAtTimestamp m s = Inr (r, s')" "stream_inv s'"
    "num_packets_dropped r = 0" "popped r = p" "ism_queue s' = q" "next_timestamp_bound s \<le> next_timestamp_bound s'" by auto
  have st: "gos_stream (gos_put s' (obs_gos c)) = s'" using ok by (simp add: gos_ok_def gos_put_stream)
  have "queue_sorted (obs_delivered c @ p # q)" "\<forall>x \<in> set (obs_accepted c). pkt_ts x < next_timestamp_bound s"
    "gos_last_processed_ts (obs_gos c) \<le> m" "sorted (map pkt_ts (obs_calls c))"
    "\<forall>x \<in> set (obs_calls c). pkt_ts x \<le> gos_last_processed_ts (obs_gos c)" "obs_accepted c = obs_delivered c @ p # q"
    using inv PopAt q by (auto simp: observer_core_def Let_def s_def [symmetric])
  moreover from this(2) have "\<forall>x \<in> set (obs_accepted c). pkt_ts x < next_timestamp_bound s'"
    using r(6) by (meson order.strict_trans2)
  moreover from this calculation(1) have "\<forall>x \<in> set q. m < pkt_ts x" using q(2) by (simp add: queue_sorted_def sorted_wrt_append)
  ultimately show ?thesis
    using inv PopAt r st q gos_ok_put [OF ok r(2)]
    by (auto simp: notify_step_def notify_pop_def observer_ran_def observer_core_def Let_def s_def [symmetric] sorted_append
        intro: order_trans less_imp_le)
qed (use inv in \<open>auto simp: notify_step_def observer_ran_def observer_core_def Let_def\<close>)

lemma observer_ran_same: "notify_step packet_callback Returned g = Inr ([], Returned, g)" "observer_ran Returned [] (obs_gos c) c = c"
  by (simp_all add: notify_step_def observer_ran_def)

lemma observer_inv_run:
  assumes inv: "observer_inv packet_callback c" and i: "i < length (obs_threads c)"
  shows "\<exists>ps pc g. notify_step packet_callback (obs_threads c ! i) (obs_gos c) = Inr (ps, pc, g) \<and>
    observer_inv packet_callback ((observer_ran (obs_threads c ! i) ps g c)\<lparr>obs_threads := (obs_threads c)[i := pc]\<rparr>)"
proof (cases "obs_threads c ! i = Returned")
  case True
  then have "(observer_ran (obs_threads c ! i) [] (obs_gos c) c)\<lparr>obs_threads := (obs_threads c)[i := Returned]\<rparr> = c"
    using list_update_id [of "obs_threads c" i] by (simp add: observer_ran_same)
  with inv True show ?thesis by (simp add: observer_ran_same)
next
  case False
  have one: "filter (\<lambda>pc. pc \<noteq> Returned) (obs_threads c) = [obs_threads c ! i]"
    "filter (\<lambda>pc. pc \<noteq> Returned) ((obs_threads c)[i := pc]) = (if pc \<noteq> Returned then [pc] else [])" for pc
    using filter_update_one [OF _ i, of "\<lambda>pc. pc \<noteq> Returned"] inv False by (auto simp: observer_inv_def inside_def)
  then have "observer_core packet_callback (obs_threads c ! i) c" using inv by (simp add: observer_inv_def inside_def)
  from observer_core_run [OF this] obtain ps pc g where
    st: "notify_step packet_callback (obs_threads c ! i) (obs_gos c) = Inr (ps, pc, g)"
    "observer_core packet_callback pc (observer_ran (obs_threads c ! i) ps g c)" by blast
  then have "observer_inv packet_callback ((observer_ran (obs_threads c ! i) ps g c)\<lparr>obs_threads := (obs_threads c)[i := pc]\<rparr>)"
    using one(2) [of pc] by (cases "pc = Returned") (auto simp: observer_inv_def inside_def)
  with st(1) show ?thesis by blast
qed

lemma observer_step_inv:
  "observer_step validate packet_callback c d \<Longrightarrow> observer_inv packet_callback c \<Longrightarrow> observer_inv packet_callback d"
proof (induction rule: observer_step.induct)
  case (run i c ps pc g)
  with observer_inv_run [OF run(3,1)] show ?case by auto
next
  case (arrive c ps)
  then show ?case using observer_core_add by (auto simp: observer_inv_def inside_frame)
next
  case (bound c b)
  then show ?case using observer_core_bound by (auto simp: observer_inv_def inside_frame)
qed (auto intro: observer_inv_enter)

lemma observer_reaches_inv:
  "observer_reaches validate packet_callback c d \<Longrightarrow> observer_inv packet_callback c \<Longrightarrow> observer_inv packet_callback d"
  by (induction rule: observer_reaches.induct) (auto intro: observer_step_inv)

text \<open>Without interference the call ends: it hands over the whole queue, then perhaps the settled bound.\<close>

definition bound_notice :: "'a GraphOutputStream \<Rightarrow> Timestamp \<Rightarrow> Timestamp \<Rightarrow> 'a packet list" where
  "bound_notice g last_ts m =
     (if observe_timestamp_bounds g \<and> m < Done \<and> last_ts < settled_ts m then [packet_At (settled_ts m) empty_packet] else [])"

lemma notify_run_all:
  assumes "gos_ok g" and "\<forall>p. packet_callback p"
  shows "\<exists>g'. notify_run packet_callback ReadMin out g = Some (Inr (out @ ism_queue (gos_stream g) @
      bound_notice g (last (gos_last_processed_ts g # map pkt_ts (ism_queue (gos_stream g)))) (next_timestamp_bound (gos_stream g')), True, g')) \<and>
    gos_ok g' \<and> ism_queue (gos_stream g') = [] \<and> \<not> notifying g'"
  using assms(1)
proof (induction "ism_queue (gos_stream g)" arbitrary: g out)
  case Nil
  then have q: "ism_queue (gos_stream g) = []" by simp
  then show ?case
    using Nil.prems assms(2)
    by (auto simp: notify_run.simps [of _ ReadMin] notify_run.simps [of _ "LastCheck _"] notify_run.simps [of _ Returned]
        notify_step_def notify_read_def notify_check_def MinTimestampOrBound_def bound_notice_def Let_def)
next
  case (Cons p q)
  then have q: "ism_queue (gos_stream g) = p # q" and inv: "stream_inv (gos_stream g)" by (simp_all add: gos_ok_def)
  from pop_head [OF inv q] obtain r s where r: "PopPacketAtTimestamp (pkt_ts p) (gos_stream g) = Inr (r, s)" "stream_inv s"
    "num_packets_dropped r = 0" "popped r = p" "ism_queue s = q" by blast
  define g1 where "g1 = (gos_put s g)\<lparr>gos_last_processed_ts := pkt_ts p\<rparr>"
  have g1: "gos_stream g1 = s" "gos_ok g1" "gos_last_processed_ts g1 = pkt_ts p" "observe_timestamp_bounds g1 = observe_timestamp_bounds g"
    using Cons.prems gos_ok_put [OF Cons.prems r(2)] by (simp_all add: g1_def gos_ok_def gos_put_stream)
  have run: "notify_run packet_callback ReadMin out g = notify_run packet_callback ReadMin (out @ [p]) g1"
    using q r assms(2)
    by (simp add: notify_run.simps [of _ ReadMin out] notify_run.simps [of _ "PopAt _"] notify_step_def notify_read_def notify_pop_def
        MinTimestampOrBound_def g1_def)
  show ?case
    using Cons.hyps(1) [of g1 "out @ [p]"] g1 r(5) unfolding run by (simp add: q bound_notice_def)
qed

section \<open>Polling\<close>

text \<open>
  What a client of a poller relies on: a call with a packet queued returns the oldest one, a call on an
  ended source returns false, any other call waits.  A call can also answer true without a packet or false with one, or fail
  a check; those outcomes are kept apart.
\<close>

datatype 'a poll = Got "'a packet" | Ended | Waits | Mismatch bool "'a packet option" | Fails ts_error

fun channel_next :: "'a packet list \<times> bool \<Rightarrow> 'a poll \<times> ('a packet list \<times> bool)" where
  "channel_next (p # q, e) = (Got p, (q, e))"
| "channel_next ([], True) = (Ended, ([], True))"
| "channel_next ([], False) = (Waits, ([], False))"

definition poll_of ::
  "('s \<Rightarrow> (ts_error + (bool \<times> 'a packet option \<times> 's)) option) \<Rightarrow> ('s \<Rightarrow> 'a packet list) \<Rightarrow> ('s \<Rightarrow> bool) \<Rightarrow> 's
    \<Rightarrow> 'a poll \<times> ('a packet list \<times> bool)" where
  "poll_of nxt content ended s =
     (case nxt s of
        None \<Rightarrow> (Waits, (content s, ended s))
      | Some (Inl e) \<Rightarrow> (Fails e, (content s, ended s))
      | Some (Inr (True, Some p, s')) \<Rightarrow> (Got p, (content s', ended s'))
      | Some (Inr (False, None, s')) \<Rightarrow> (Ended, (content s', ended s'))
      | Some (Inr (b, x, s')) \<Rightarrow> (Mismatch b x, (content s', ended s')))"

text \<open>At most \<open>n\<close> calls of a source, stopping when one waits or reports the end.\<close>

fun poll_n :: "('s \<Rightarrow> (ts_error + (bool \<times> 'a packet option \<times> 's)) option) \<Rightarrow> nat \<Rightarrow> 's \<Rightarrow> 'a packet list" where
  "poll_n nxt 0 s = []"
| "poll_n nxt (Suc n) s =
     (case nxt s of Some (Inr (True, Some p, s')) \<Rightarrow> p # poll_n nxt n s' | _ \<Rightarrow> [])"

locale packet_source =
  fixes nxt :: "'s \<Rightarrow> (ts_error + (bool \<times> 'a packet option \<times> 's)) option"
    and content :: "'s \<Rightarrow> 'a packet list"
    and ended :: "'s \<Rightarrow> bool"
    and inv :: "'s \<Rightarrow> bool"
  assumes next_packet: "inv s \<Longrightarrow> content s = p # q \<Longrightarrow>
      \<exists>s'. nxt s = Some (Inr (True, Some p, s')) \<and> inv s' \<and> content s' = q \<and> ended s' = ended s"
    and next_end: "inv s \<Longrightarrow> content s = [] \<Longrightarrow> ended s \<Longrightarrow>
      \<exists>s'. nxt s = Some (Inr (False, None, s')) \<and> inv s' \<and> content s' = [] \<and> ended s'"
    and next_waits: "inv s \<Longrightarrow> content s = [] \<Longrightarrow> \<not> ended s \<Longrightarrow> nxt s = None"
begin

lemma refines_channel: "inv s \<Longrightarrow> poll_of nxt content ended s = channel_next (content s, ended s)"
  using next_packet [of s] next_end [of s] next_waits [of s]
  by (cases "content s"; cases "ended s") (fastforce simp: poll_of_def)+

lemma poll_n_take: "inv s \<Longrightarrow> poll_n nxt n s = take n (content s)"
proof (induction n arbitrary: s)
  case (Suc n)
  show ?case
  proof (cases "content s")
    case Nil
    with Suc.prems show ?thesis using next_end [of s] next_waits [of s] by (cases "ended s") auto
  next
    case (Cons p q)
    with next_packet [OF Suc.prems Cons] Suc.IH show ?thesis by auto
  qed
qed simp

end

definition poller_ended :: "'a OutputStreamPollerImpl \<Rightarrow> bool" where
  "poller_ended g \<longleftrightarrow> graph_has_error g \<or> next_timestamp_bound (gos_stream g) = Done"

definition poller_content :: "'a OutputStreamPollerImpl \<Rightarrow> 'a packet list" where
  "poller_content g = ism_queue (gos_stream g)"

definition poller_inv :: "'a OutputStreamPollerImpl \<Rightarrow> bool" where
  "poller_inv g \<longleftrightarrow> gos_ok g \<and> \<not> process_timestamps (gos_handler g)"

lemma pop_bound:
  "PopPacketAtTimestamp t s = Inr (r, s') \<Longrightarrow> t < next_timestamp_bound s \<Longrightarrow> next_timestamp_bound s' = next_timestamp_bound s"
  by (auto simp: PopPacketAtTimestamp_def Let_def split: if_splits prod.splits)

lemma poller_frame [simp]:
  "gos_stream (g\<lparr>output_timestamp := t\<rparr>) = gos_stream g" "gos_stream (gos_call ev g) = gos_stream g"
  "gos_ok (g\<lparr>output_timestamp := t\<rparr>) = gos_ok g" "gos_ok (gos_call ev g) = gos_ok g"
  "graph_has_error (gos_put s g) = graph_has_error g" "graph_has_error (gos_call ev g) = graph_has_error g"
  "output_timestamp (gos_put s g) = output_timestamp g" "output_timestamp (gos_call ev g) = output_timestamp g"
  "process_timestamps (gos_handler (gos_call ev g)) = process_timestamps (gos_handler g)"
  by (simp_all add: gos_stream_def gos_call_def call_def gos_ok_def gos_put_def)

lemma Next_packet:
  assumes ok: "gos_ok g" and q: "ism_queue (gos_stream g) = p # q"
  shows "\<exists>g'. Next g = Some (Inr (True, Some p, g')) \<and> gos_ok g' \<and> ism_queue (gos_stream g') = q \<and>
    next_timestamp_bound (gos_stream g') = next_timestamp_bound (gos_stream g) \<and> graph_has_error g' = graph_has_error g \<and>
    process_timestamps (gos_handler g') = process_timestamps (gos_handler g) \<and> output_timestamp g' = pkt_ts p"
proof -
  have inv: "stream_inv (gos_stream g)" using ok by (simp add: gos_ok_def)
  from pop_head [OF inv q] obtain r s where r: "PopPacketAtTimestamp (pkt_ts p) (gos_stream g) = Inr (r, s)" "stream_inv s"
    "num_packets_dropped r = 0" "popped r = p" "ism_queue s = q" by blast
  have lt: "pkt_ts p < next_timestamp_bound (gos_stream g)" and "IsAllowedInStream (pkt_ts p)"
    using inv q by (auto simp: stream_inv_def)
  then have "pkt_ts p \<noteq> Done" by (auto simp: IsAllowedInStream_def special_defs)
  moreover have "gos_stream (gos_put s (g\<lparr>output_timestamp := t\<rparr>)) = s" for t
    using ok by (simp add: gos_ok_def gos_put_stream)
  moreover have "gos_ok (gos_put s (g\<lparr>output_timestamp := t\<rparr>))" for t using ok r(2) by (simp add: gos_ok_put)
  ultimately show ?thesis
    using q r pop_bound [OF r(1) lt] by (auto simp: Next_def next_wait_def MinTimestampOrBound_def Let_def)
qed

lemma Next_empty:
  assumes "ism_queue (gos_stream g) = []" and "\<not> process_timestamps (gos_handler g)"
  shows "Next g = (if poller_ended g
      then Some (Inr (False, None, if graph_has_error g then g else g\<lparr>output_timestamp := prev_ts Done\<rparr>)) else None)"
  using assms by (auto simp: Next_def next_wait_def MinTimestampOrBound_def poller_ended_def Let_def)

interpretation poller: packet_source Next poller_content poller_ended poller_inv
proof unfold_locales
  fix g :: "'a OutputStreamPollerImpl" and p q
  assume "poller_inv g" "poller_content g = p # q"
  with Next_packet [of g p q] show "\<exists>g'. Next g = Some (Inr (True, Some p, g')) \<and> poller_inv g' \<and> poller_content g' = q \<and> poller_ended g' = poller_ended g"
    by (fastforce simp: poller_inv_def poller_content_def poller_ended_def)
next
  fix g :: "'a OutputStreamPollerImpl"
  assume "poller_inv g" "poller_content g = []" "poller_ended g"
  with Next_empty [of g] show "\<exists>g'. Next g = Some (Inr (False, None, g')) \<and> poller_inv g' \<and> poller_content g' = [] \<and> poller_ended g'"
    by (auto simp: poller_inv_def poller_content_def poller_ended_def)
next
  fix g :: "'a OutputStreamPollerImpl"
  assume "poller_inv g" "poller_content g = []" "\<not> poller_ended g"
  with Next_empty [of g] show "Next g = None" by (auto simp: poller_inv_def poller_content_def)
qed

section \<open>Properties\<close>

text \<open>
  C22: no interleaving loses or reorders a packet. However packets, bounds, notifications and the steps of any number of notifying threads interleave: at most one
  of them is inside, all others have returned; the packets
  the stream accepted are those handed to the callback followed by those still queued, in strictly
  increasing order; the calls of the callback never go back in time; no check of a thread can fail, and only
  the callback itself can make a notification fail.
\<close>

theorem observer_interleavings:
  assumes "observer_reaches validate packet_callback (observer_init stream_name observe) c"
  shows "length (filter (\<lambda>pc. pc \<noteq> Returned) (obs_threads c)) \<le> 1 \<and>
    obs_accepted c = obs_delivered c @ ism_queue (gos_stream (obs_gos c)) \<and>
    sorted_wrt (<) (map pkt_ts (obs_accepted c)) \<and> sorted (map pkt_ts (obs_calls c)) \<and>
    (\<forall>i < length (obs_threads c). \<exists>r. notify_step packet_callback (obs_threads c ! i) (obs_gos c) = Inr r) \<and>
    (Failed \<in> set (obs_threads c) \<longrightarrow> (\<exists>p \<in> set (obs_calls c). \<not> packet_callback p))"
proof -
  have inv: "observer_inv packet_callback c" by (rule observer_reaches_inv [OF assms observer_inv_init])
  have "\<exists>r. notify_step packet_callback (obs_threads c ! i) (obs_gos c) = Inr r" if "i < length (obs_threads c)" for i
    using observer_inv_run [OF inv that] by blast
  moreover have "\<exists>p \<in> set (obs_calls c). \<not> packet_callback p" if "Failed \<in> set (obs_threads c)"
  proof -
    have "Failed \<in> set (inside c)" using that by (simp add: inside_def)
    with inv have "inside c = [Failed]" by (cases "inside c") (auto simp: observer_inv_def)
    with inv show ?thesis by (simp add: observer_inv_def observer_core_def Let_def)
  qed
  ultimately show ?thesis using inv by (auto simp: observer_inv_def observer_core_def inside_def Let_def queue_sorted_def)
qed

definition observer_tick :: "('a packet \<Rightarrow> bool) \<Rightarrow> nat \<Rightarrow> 'a observer \<Rightarrow> 'a observer" where
  "observer_tick packet_callback i c =
     (if i < length (obs_threads c) then
        (case notify_step packet_callback (obs_threads c ! i) (obs_gos c) of
           Inl e \<Rightarrow> c
         | Inr (ps, pc, g) \<Rightarrow> (observer_ran (obs_threads c ! i) ps g c)\<lparr>obs_threads := (obs_threads c)[i := pc]\<rparr>)
      else c)"

lemma reaches_tick:
  assumes "observer_reaches v cb c d" shows "observer_reaches v cb c (observer_tick cb i d)"
proof (cases "i < length (obs_threads d) \<and> (\<exists>r. notify_step cb (obs_threads d ! i) (obs_gos d) = Inr r)")
  case True
  then obtain ps pc g where "notify_step cb (obs_threads d ! i) (obs_gos d) = Inr (ps, pc, g)" by (metis surj_pair)
  with True observer_reaches.step [OF assms observer_step.run [OF _ this]] show ?thesis by (simp add: observer_tick_def)
next
  case False
  then have "observer_tick cb i d = d"
    by (cases "notify_step cb (obs_threads d ! i) (obs_gos d)") (auto simp: observer_tick_def)
  with assms show ?thesis by simp
qed

lemmas reaches_add = observer_reaches.step [OF _ observer_step.arrive]
lemmas reaches_enter = observer_reaches.step [OF _ observer_step.enter]

definition before_race :: "int observer" where
  "before_race = observer_add (\<lambda>_. True) [\<lparr>pkt_ts = Ts 2, pkt_data = Some 20\<rparr>]
     (observer_tick (\<lambda>_. True) 0 (observer_tick (\<lambda>_. True) 0 (observer_tick (\<lambda>_. True) 0
       (observer_enter (observer_add (\<lambda>_. True) [\<lparr>pkt_ts = Ts 1, pkt_data = Some 10\<rparr>] (observer_init ''out'' False))))))"

definition stalled :: "int observer" where
  "stalled = observer_tick (\<lambda>_. True) 0 (observer_enter before_race)"

lemmas observer_eval = before_race_def observer_add_def observer_tick_def observer_ran_def observer_enter_def observer_init_def notify_enter_def
  notify_step_def notify_read_def notify_check_def notify_pop_def gos_Initialize_def gos_PrepareForRun_def gos_stream_def gos_put_def
  put_stream_def InputStreamHandler_new_def ish_PrepareForRun_def ism_Initialize_def ism_PrepareForRun_def AddOrMovePacketsInternal_def
  admit_def enqueue_def MinTimestampOrBound_def PopPacketAtTimestamp_def ism_IsFull_def ism_IsDone_def IsAllowedInStream_def next_ts_eq
  packet_At_def empty_packet_def special_defs

lemma before_race_facts:
  "obs_pending before_race = 1" "notifying (obs_gos before_race)" "obs_threads before_race = [LastCheck (Ts 2)]"
  "ism_queue (gos_stream (obs_gos before_race)) = [\<lparr>pkt_ts = Ts 2, pkt_data = Some 20\<rparr>]"
  "obs_calls before_race = [\<lparr>pkt_ts = Ts 1, pkt_data = Some 10\<rparr>]"
  by (simp_all add: observer_eval)

lemma before_race_reached: "observer_reaches (\<lambda>_. True) (\<lambda>_. True) (observer_init ''out'' False) before_race"
  unfolding before_race_def
  by (intro reaches_add reaches_tick reaches_enter observer_reaches.refl) (simp add: observer_eval)

theorem observer_interleavings_witness:
  "obs_accepted before_race = [\<lparr>pkt_ts = Ts 1, pkt_data = Some 10\<rparr>, \<lparr>pkt_ts = Ts 2, pkt_data = Some 20\<rparr>] \<and>
   sorted_wrt (<) (map pkt_ts (obs_accepted before_race))"
proof -
  have "obs_delivered before_race = [\<lparr>pkt_ts = Ts 1, pkt_data = Some 10\<rparr>]" by (simp add: observer_eval)
  with observer_interleavings [OF before_race_reached] before_race_facts(4) show ?thesis by simp
qed

text \<open>A stalled observer: no thread notifies, none is about to, and a packet is queued.\<close>

lemma stall_forever:
  assumes "observer_reaches v cb c d" "set (obs_threads c) \<subseteq> {Returned}" "obs_pending c = 0" "ism_queue (gos_stream (obs_gos c)) \<noteq> []" "gos_ok (obs_gos c)"
  shows "set (obs_threads d) \<subseteq> {Returned} \<and> obs_pending d = 0 \<and> ism_queue (gos_stream (obs_gos d)) \<noteq> [] \<and> gos_ok (obs_gos d) \<and> obs_calls d = obs_calls c"
  using assms
proof (induction rule: observer_reaches.induct)
  case (step c d e)
  then have d: "set (obs_threads d) \<subseteq> {Returned}" "obs_pending d = 0" "ism_queue (gos_stream (obs_gos d)) \<noteq> []" "gos_ok (obs_gos d)"
    "obs_calls d = obs_calls c" by blast+
  define s where "s = gos_stream (obs_gos d)"
  have s: "stream_inv s" "ism_queue s \<noteq> []" "\<not> ism_closed s" using d by (simp_all add: gos_ok_def s_def stream_inv_def)
  from step.hyps(2) show ?case
  proof cases
    case (arrive ps)
    define s' where "s' = snd (snd (snd (AddOrMovePacketsInternal v ps s)))"
    have "\<not> fst (snd (AddOrMovePacketsInternal v ps s))"
      using s by (auto simp: AddOrMovePacketsInternal_def split: prod.splits stream_status.splits)
    moreover have "stream_inv s'" using s by (simp add: s'_def stream_inv_add)
    moreover from add_loop_queue [of ps v s] s have "ism_queue s' \<noteq> []" by (auto simp: s'_def AddOrMove_state)
    ultimately show ?thesis
      using d gos_put_stream [of "obs_gos d" s'] gos_ok_put [OF d(4), of s'] unfolding arrive
      by (auto simp: observer_add_def s_def [symmetric] s'_def gos_ok_def split: prod.splits)
  next
    case (bound b)
    define s' where "s' = snd (snd (SetNextTimestampBound b s))"
    have "\<not> fst (snd (SetNextTimestampBound b s))" "ism_queue s' \<noteq> []" using s by (auto simp: SetNextTimestampBound_def s'_def)
    moreover have "stream_inv s'" using s by (simp add: s'_def stream_inv_bound)
    ultimately show ?thesis
      using d gos_put_stream [of "obs_gos d" s'] gos_ok_put [OF d(4), of s'] unfolding bound
      by (auto simp: observer_bound_def s_def [symmetric] s'_def gos_ok_def split: prod.splits)
  next
    case enter
    with d show ?thesis by simp
  next
    case (run i ps pc g)
    then have "obs_threads d ! i = Returned" using d(1) nth_mem by blast
    with run d show ?thesis by (auto simp: observer_ran_same dest: set_update_subset_insert [THEN subsetD])
  qed
qed auto

lemma stalled_facts:
  "observer_reaches (\<lambda>_. True) (\<lambda>_. True) (observer_init ''out'' False) stalled" "gos_ok (obs_gos stalled)"
  "set (obs_threads stalled) \<subseteq> {Returned}" "obs_pending stalled = 0" "\<not> notifying (obs_gos stalled)"
  "ism_queue (gos_stream (obs_gos stalled)) = [\<lparr>pkt_ts = Ts 2, pkt_data = Some 20\<rparr>]"
proof -
  show reached: "observer_reaches (\<lambda>_. True) (\<lambda>_. True) (observer_init ''out'' False) stalled"
    unfolding stalled_def by (intro reaches_tick reaches_enter before_race_reached) (simp add: before_race_facts)
  show "gos_ok (obs_gos stalled)"
    using observer_reaches_inv [OF reached observer_inv_init] by (simp add: observer_inv_def observer_core_def Let_def)
qed (simp_all add: stalled_def observer_tick_def observer_ran_def observer_enter_def notify_enter_def notify_step_def notify_check_def
      MinTimestampOrBound_def before_race_facts)

text \<open>
  C23: a lost wakeup. A notifying thread that finds the stream empty at bound 2 leaves when the head of the stream is still 2 at
  its last check, also when that is now a packet at 2 whose notification was turned away in between. The
  observer is then stuck for good: a packet is queued, no thread notifies, and whatever arrives later, no
  notification is raised and the callback is never called again.
\<close>

theorem observer_loses_wakeup:
  "observer_reaches (\<lambda>_. True) (\<lambda>_. True) (observer_init ''out'' False) stalled \<and>
   map pkt_ts (ism_queue (gos_stream (obs_gos stalled))) = [Ts 2] \<and> \<not> notifying (obs_gos stalled) \<and>
   (\<forall>d. observer_reaches (\<lambda>_. True) (\<lambda>_. True) stalled d \<longrightarrow>
      obs_pending d = 0 \<and> obs_calls d = obs_calls stalled \<and> ism_queue (gos_stream (obs_gos d)) \<noteq> [])"
  using stalled_facts stall_forever [OF _ stalled_facts(3,4) _ stalled_facts(2), of "\<lambda>_. True" "\<lambda>_. True"] by auto

theorem observer_loses_wakeup_witness:
  "obs_calls (observer_add (\<lambda>_. True) [\<lparr>pkt_ts = Ts 9, pkt_data = Some 90\<rparr>] stalled) = obs_calls stalled"
  using observer_loses_wakeup observer_reaches.step [OF observer_reaches.refl observer_step.arrive] by blast

text \<open>
  A notification hands over everything. When no other thread touches the stream, a notification returns, calls back with every queued packet in order,
  and then, if bounds are observed, once with an empty packet at the timestamp the bound has settled, if that
  is news; it leaves the stream empty and the flag cleared.
\<close>

theorem notify_delivers:
  assumes "gos_ok g" and "\<not> notifying g" and "\<forall>p. packet_callback p"
  shows "\<exists>g'. Notify packet_callback g = Some (Inr (ism_queue (gos_stream g) @
      bound_notice g (last (gos_last_processed_ts g # map pkt_ts (ism_queue (gos_stream g)))) (next_timestamp_bound (gos_stream g')), True, g')) \<and>
    ism_queue (gos_stream g') = [] \<and> \<not> notifying g'"
  using notify_run_all [of "g\<lparr>notifying := True\<rparr>" packet_callback "[]"] assms
  by (auto simp: Notify_def notify_enter_def bound_notice_def)

theorem notify_delivers_witness:
  "\<exists>g'. Notify (\<lambda>_. True) (obs_gos stalled) = Some (Inr ([\<lparr>pkt_ts = Ts 2, pkt_data = Some 20\<rparr>], True, g')) \<and>
     ism_queue (gos_stream g') = []"
proof -
  have "\<not> observe_timestamp_bounds (obs_gos stalled)" by (simp add: stalled_def observer_eval)
  with notify_delivers [of "obs_gos stalled" "\<lambda>_. True"] stalled_facts show ?thesis by (auto simp: bound_notice_def)
qed

text \<open>
  C21: a poller is a channel. For a poller that does not observe bounds, a call of \<^verbatim>\<open>Next\<close> on a well-formed state refines the abstract channel: it returns the
  oldest queued packet, also after an error of the graph; on an empty queue it returns false once the graph has failed or the stream
  is done, and waits otherwise; it never fails a check, nor returns true without a packet or false with one. So \<open>n\<close> calls deliver the first \<open>n\<close> packets in order.
\<close>

theorem poller_refines_channel:
  assumes "poller_inv g"
  shows "poll_of Next poller_content poller_ended g = channel_next (poller_content g, poller_ended g) \<and>
    poll_n Next n g = take n (poller_content g)"
  using poller.refines_channel [OF assms] poller.poll_n_take [OF assms] by blast

theorem poller_refines_channel_witness:
  "poll_of Next poller_content poller_ended (Poller_PrepareForRun (Poller_Initialize ''out'' False True) :: int OutputStreamPollerImpl)
     = (Waits, ([], False))"
proof -
  let ?g = "Poller_PrepareForRun (Poller_Initialize ''out'' False True) :: int OutputStreamPollerImpl"
  have e: "poller_inv ?g" "poller_content ?g = []" "\<not> poller_ended ?g"
    by (simp_all add: poller_inv_def poller_content_def poller_ended_def gos_ok_def Poller_PrepareForRun_def Poller_Initialize_def
        gos_Initialize_def gos_PrepareForRun_def InputStreamHandler_new_def ish_PrepareForRun_def gos_stream_def
        stream_inv_prepare ism_Initialize_def ism_PrepareForRun_def GraphOutputStream.defs OutputStreamPollerImpl.defs stream_inv_def
        queue_sorted_def special_defs)
  show ?thesis using poller_refines_channel [OF e(1)] e(2,3) by simp
qed

end
