(* ===== verification/Output_Stream.thy ===== *)
theory Output_Stream
  imports Input_Handler
begin

text \<open>
  \<^verbatim>\<open>output_stream_manager.h\<close>, \<^verbatim>\<open>.cc\<close>, \<^verbatim>\<open>output_stream_handler.h\<close>, \<^verbatim>\<open>.cc\<close> and
  \<^verbatim>\<open>stream_handler/in_order_output_stream_handler.cc\<close>: how what a calculator leaves in its output shards reaches the input
  streams of the nodes downstream.  A mirror points at a stream of a handler; here the handlers
  are a store and a mirror is a position in it with the id of the stream.  The handlers in the store
  have the base class's \<^verbatim>\<open>AddPackets\<close>.  The mutexes are released around propagation, where
  the functions below are cut.
\<close>

section \<open>Output stream managers\<close>

record 'a OutputStreamManager =
  output_stream_spec :: "'a OutputStreamSpec"
  mirrors :: "(nat \<times> nat) list"
  osm_next_timestamp_bound :: Timestamp
  osm_closed :: bool

definition osm_PrepareForRun :: "'a OutputStreamManager \<Rightarrow> 'a OutputStreamManager" where
  "osm_PrepareForRun m = m\<lparr>output_stream_spec := (output_stream_spec m)\<lparr>locked_intro_data := False, spec_header := empty_packet\<rparr>,
     osm_next_timestamp_bound := PreStream, osm_closed := False\<rparr>"

definition osm_Initialize :: "string \<Rightarrow> 'a OutputStreamManager" where
  "osm_Initialize name = osm_PrepareForRun
     \<lparr>output_stream_spec = \<lparr>spec_name = name, locked_intro_data = False, offset_enabled = False, spec_offset = 0, spec_header = empty_packet\<rparr>,
      mirrors = [], osm_next_timestamp_bound = Unset, osm_closed = False\<rparr>"

text \<open>An operation of the handler behind a mirror.\<close>

definition at_mirror ::
  "(nat \<Rightarrow> 'h \<Rightarrow> ts_error + 'h) \<Rightarrow> nat \<times> nat \<Rightarrow> 'h list \<Rightarrow> ts_error + 'h list" where
  "at_mirror f m hs =
     (if fst m < length hs
      then case f (snd m) (hs ! fst m) of Inl e \<Rightarrow> Inl e | Inr h \<Rightarrow> Inr (hs[fst m := h])
      else Inl CheckFailed)"

text \<open>
  An output stream tells its mirrors one after the other.  \<open>visit\<close> performs an operation of the handler behind a mirror in a surrounding state: here the
  state is the store of handlers, in which the callbacks a handler makes stay recorded; a graph also carries them out.
\<close>

type_synonym ('a, 'b, 's) visit =
  "(nat \<Rightarrow> ('a, 'b) InputStreamHandler_scheme \<Rightarrow> ts_error + ('a, 'b) InputStreamHandler_scheme) \<Rightarrow> nat \<times> nat \<Rightarrow> 's \<Rightarrow> ts_error + 's"

definition close_mirrors :: "('a, 'b, 's) visit \<Rightarrow> 'a OutputStreamManager \<Rightarrow> 's \<Rightarrow> ts_error + ('a OutputStreamManager \<times> 's)" where
  "close_mirrors visit m s =
     (if osm_closed m then Inr (m, s)
      else case run_steps (visit (\<lambda>i. ish_SetNextTimestampBound i Done)) (mirrors m) s of
             Inl e \<Rightarrow> Inl e
           | Inr s' \<Rightarrow> Inr (m\<lparr>osm_closed := True, osm_next_timestamp_bound := Done\<rparr>, s'))"

definition osm_Close ::
  "'a OutputStreamManager \<Rightarrow> ('a, 'b) InputStreamHandler_scheme list
    \<Rightarrow> ts_error + ('a OutputStreamManager \<times> ('a, 'b) InputStreamHandler_scheme list)" where
  "osm_Close m hs = close_mirrors at_mirror m hs"

definition header_mirrors :: "('a, 'b, 's) visit \<Rightarrow> 'a OutputStreamManager \<Rightarrow> 's \<Rightarrow> ts_error + (output_error list \<times> 's)" where
  "header_mirrors visit m s =
     (if locked_intro_data (output_stream_spec m) then Inr ([PropagateHeaderTooLate], s)
      else case run_steps (visit (\<lambda>i. ish_SetHeader i (spec_header (output_stream_spec m)))) (mirrors m) s of
             Inl e \<Rightarrow> Inl e
           | Inr s' \<Rightarrow> Inr ([], s'))"

definition PropagateHeader ::
  "'a OutputStreamManager \<Rightarrow> ('a, 'b) InputStreamHandler_scheme list
    \<Rightarrow> ts_error + (output_error list \<times> ('a, 'b) InputStreamHandler_scheme list)" where
  "PropagateHeader m hs = header_mirrors at_mirror m hs"

definition LockIntroData :: "'a OutputStreamManager \<Rightarrow> 'a OutputStreamManager" where
  "LockIntroData m = m\<lparr>output_stream_spec := (output_stream_spec m)\<lparr>locked_intro_data := True\<rparr>\<rparr>"

definition AddMirror :: "nat \<Rightarrow> nat \<Rightarrow> 'a OutputStreamManager \<Rightarrow> 'a OutputStreamManager" where
  "AddMirror handler sid m = m\<lparr>mirrors := mirrors m @ [(handler, sid)]\<rparr>"

definition osm_SetMaxQueueSize ::
  "int \<Rightarrow> 'a OutputStreamManager \<Rightarrow> ('a, 'b) InputStreamHandler_scheme list
    \<Rightarrow> ts_error + ('a, 'b) InputStreamHandler_scheme list" where
  "osm_SetMaxQueueSize n m hs = run_steps (at_mirror (\<lambda>i. ish_SetMaxQueueSize i n)) (mirrors m) hs"

text \<open>The part of the bound that comes from the input timestamp and the offset.\<close>

definition offset_bound :: "'a OutputStreamSpec \<Rightarrow> Timestamp \<Rightarrow> ts_error + Timestamp" where
  "offset_bound spec input_timestamp =
     (if offset_enabled spec \<and> input_timestamp \<noteq> Unstarted then
        (if input_timestamp = PreStream then Inr Timestamp.Min
         else if input_timestamp = Timestamp.Max then
           (if 0 \<le> spec_offset spec then Inr PostStream
            else case ts_add input_timestamp (spec_offset spec) of Inl e \<Rightarrow> Inl e | Inr t \<Rightarrow> Inr (next_ts t))
         else if input_timestamp = PostStream then Inr OneOverPostStream
         else ts_add (next_ts input_timestamp) (spec_offset spec))
      else Inr Unset)"

definition ComputeOutputTimestampBound ::
  "'a OutputStreamShard \<Rightarrow> Timestamp \<Rightarrow> 'a OutputStreamManager \<Rightarrow> ts_error + (output_error list \<times> Timestamp)" where
  "ComputeOutputTimestampBound o' input_timestamp m =
     (if input_timestamp \<noteq> Unstarted \<and> \<not> IsAllowedInStream input_timestamp
      then Inr ([InvalidInputTimestamp input_timestamp], Unset)
      else case offset_bound (output_stream_spec m) input_timestamp of
             Inl e \<Rightarrow> Inl e
           | Inr input_bound \<Rightarrow>
               (let b1 = (if oss_next_timestamp_bound o' < input_bound then max Unset input_bound else Unset);
                    b2 = max b1 (updated_next_timestamp_bound o');
                    b3 = (if output_queue o' \<noteq> [] then max b2 (next_ts (LastAddedPacketTimestamp o')) else b2)
                in Inr ([], b3)))"

text \<open>What one mirror is told.\<close>

definition tell_mirror ::
  "('a packet \<Rightarrow> bool) \<Rightarrow> 'a packet list \<Rightarrow> Timestamp option \<Rightarrow> nat \<Rightarrow> ('a, 'b) InputStreamHandler_scheme
    \<Rightarrow> ts_error + ('a, 'b) InputStreamHandler_scheme" where
  "tell_mirror validate ps bound i h =
     (case (if ps \<noteq> [] then ish_AddPackets validate i ps h else Inr h) of
        Inl e \<Rightarrow> Inl e
      | Inr h1 \<Rightarrow> (case bound of None \<Rightarrow> Inr h1 | Some b \<Rightarrow> ish_SetNextTimestampBound i b h1))"

definition update_mirrors ::
  "('a, 'b, 's) visit \<Rightarrow> ('a packet \<Rightarrow> bool) \<Rightarrow> Timestamp \<Rightarrow> 'a OutputStreamShard \<Rightarrow> 'a OutputStreamManager \<Rightarrow> 's
    \<Rightarrow> ts_error + ('a OutputStreamShard \<times> 'a OutputStreamManager \<times> 's)" where
  "update_mirrors visit validate b o' m s =
     (let m' = (if b \<noteq> Unset then m\<lparr>osm_next_timestamp_bound := b\<rparr> else m);
          ps = output_queue o';
          set_bound = (b \<noteq> Unset \<and> (ps = [] \<or> next_ts (pkt_ts (last ps)) \<noteq> b))
      in case run_steps (visit (tell_mirror validate ps (if set_bound then Some b else None))) (mirrors m) s of
           Inl e \<Rightarrow> Inl e
         | Inr s' \<Rightarrow> Inr (o'\<lparr>output_queue := []\<rparr>, m', s'))"

definition PropagateUpdatesToMirrors ::
  "('a packet \<Rightarrow> bool) \<Rightarrow> Timestamp \<Rightarrow> 'a OutputStreamShard \<Rightarrow> 'a OutputStreamManager \<Rightarrow> ('a, 'b) InputStreamHandler_scheme list
    \<Rightarrow> ts_error + ('a OutputStreamShard \<times> 'a OutputStreamManager \<times> ('a, 'b) InputStreamHandler_scheme list)" where
  "PropagateUpdatesToMirrors validate b o' m hs = update_mirrors at_mirror validate b o' m hs"

definition ResetShard :: "'a OutputStreamManager \<Rightarrow> 'a OutputStreamShard \<Rightarrow> 'a OutputStreamShard" where
  "ResetShard m o' = oss_Reset (osm_next_timestamp_bound m) (osm_closed m) o'"

section \<open>Output stream handlers\<close>

datatype PropagationState = kIdle | kPropagatingPackets | kPropagatingBound | kPropagationPending

text \<open>
  The handler with the contexts of its node, the handlers downstream, and the errors that were
  reported; \<open>completed_input_timestamps\<close> is the \<^verbatim>\<open>std::set\<close>, in ascending order.
\<close>

record 'a OutputStreamHandler =
  output_stream_managers :: "'a OutputStreamManager list"
  osh_contexts :: "'a CalculatorContextManager"
  completed_input_timestamps :: "Timestamp list"
  task_timestamp_bound :: Timestamp
  propagation_state :: PropagationState
  downstream :: "'a InputStreamHandler list"
  output_errors :: "output_error list"

definition osh_PrepareForRun :: "'a OutputStreamHandler \<Rightarrow> 'a OutputStreamHandler" where
  "osh_PrepareForRun h = h\<lparr>output_stream_managers := map osm_PrepareForRun (output_stream_managers h),
     completed_input_timestamps := [], task_timestamp_bound := Unset, propagation_state := kIdle\<rparr>"

definition PrepareOutputs :: "'a OutputStreamHandler \<Rightarrow> 'a OutputStreamShard list \<Rightarrow> ts_error + 'a OutputStreamShard list" where
  "PrepareOutputs h shards =
     (if length shards < length (output_stream_managers h) then Inl CheckFailed
      else Inr (map (\<lambda>(m, o'). ResetShard m o') (zip (output_stream_managers h) shards) @ drop (length (output_stream_managers h)) shards))"

text \<open>One output stream of \<^verbatim>\<open>PropagateOutputPackets\<close>.\<close>

definition propagate_output ::
  "('a packet \<Rightarrow> bool) \<Rightarrow> Timestamp \<Rightarrow> nat \<Rightarrow> 'a OutputStreamShard list \<times> 'a OutputStreamHandler
    \<Rightarrow> ts_error + ('a OutputStreamShard list \<times> 'a OutputStreamHandler)" where
  "propagate_output validate t i sh =
     (case sh of (shards, h) \<Rightarrow>
        if osm_closed (output_stream_managers h ! i) then Inr (shards, h)
        else if length shards \<le> i then Inl CheckFailed
        else case ComputeOutputTimestampBound (shards ! i) t (output_stream_managers h ! i) of
               Inl e \<Rightarrow> Inl e
             | Inr (errs, b) \<Rightarrow>
                 (case PropagateUpdatesToMirrors validate b (shards ! i) (output_stream_managers h ! i) (downstream h) of
                    Inl e \<Rightarrow> Inl e
                  | Inr (o', m, hs) \<Rightarrow>
                      (case (if oss_closed o' then osm_Close m hs else Inr (m, hs)) of
                         Inl e \<Rightarrow> Inl e
                       | Inr (m', hs') \<Rightarrow>
                           Inr (shards[i := o'], h\<lparr>output_stream_managers := (output_stream_managers h)[i := m'],
                             downstream := hs', output_errors := output_errors h @ errs\<rparr>))))"

definition PropagateOutputPackets ::
  "('a packet \<Rightarrow> bool) \<Rightarrow> Timestamp \<Rightarrow> 'a OutputStreamShard list \<Rightarrow> 'a OutputStreamHandler
    \<Rightarrow> ts_error + ('a OutputStreamShard list \<times> 'a OutputStreamHandler)" where
  "PropagateOutputPackets validate t shards h =
     run_steps (propagate_output validate t) [0 ..< length (output_stream_managers h)] (shards, h)"

definition open_manager :: "nat \<Rightarrow> 'a OutputStreamHandler \<Rightarrow> ts_error + 'a OutputStreamHandler" where
  "open_manager i h =
     (case PropagateHeader (output_stream_managers h ! i) (downstream h) of
        Inl e \<Rightarrow> Inl e
      | Inr (errs, hs) \<Rightarrow> Inr (h\<lparr>downstream := hs, output_errors := output_errors h @ errs,
          output_stream_managers := (output_stream_managers h)[i := LockIntroData (output_stream_managers h ! i)]\<rparr>))"

definition osh_Open ::
  "('a packet \<Rightarrow> bool) \<Rightarrow> 'a OutputStreamShard list \<Rightarrow> 'a OutputStreamHandler
    \<Rightarrow> ts_error + ('a OutputStreamShard list \<times> 'a OutputStreamHandler)" where
  "osh_Open validate shards h =
     (case PropagateOutputPackets validate Unstarted shards h of
        Inl e \<Rightarrow> Inl e
      | Inr (shards', h1) \<Rightarrow>
          (case run_steps open_manager [0 ..< length (output_stream_managers h1)] h1 of
             Inl e \<Rightarrow> Inl e
           | Inr h2 \<Rightarrow> Inr (shards', h2)))"

definition try_bound :: "('a packet \<Rightarrow> bool) \<Rightarrow> Timestamp \<Rightarrow> nat \<Rightarrow> 'a OutputStreamHandler \<Rightarrow> ts_error + 'a OutputStreamHandler" where
  "try_bound validate input_bound i h =
     (let m = output_stream_managers h ! i
      in if offset_enabled (output_stream_spec m) \<and> \<not> osm_closed m then
           (case ts_add input_bound (spec_offset (output_stream_spec m)) of
              Inl e \<Rightarrow> Inl e
            | Inr b \<Rightarrow>
                if osm_next_timestamp_bound m < b then
                  (case PropagateUpdatesToMirrors validate b OutputStreamShard_new m (downstream h) of
                     Inl e \<Rightarrow> Inl e
                   | Inr (_, m', hs) \<Rightarrow> Inr (h\<lparr>output_stream_managers := (output_stream_managers h)[i := m'], downstream := hs\<rparr>))
                else Inr h)
         else Inr h)"

definition TryPropagateTimestampBound ::
  "('a packet \<Rightarrow> bool) \<Rightarrow> Timestamp \<Rightarrow> 'a OutputStreamHandler \<Rightarrow> ts_error + 'a OutputStreamHandler" where
  "TryPropagateTimestampBound validate input_bound h =
     (if IsRangeValue input_bound then run_steps (try_bound validate input_bound) [0 ..< length (output_stream_managers h)] h
      else Inr h)"

definition close_output ::
  "('a packet \<Rightarrow> bool) \<Rightarrow> bool \<Rightarrow> nat \<Rightarrow> 'a OutputStreamShard list \<times> 'a OutputStreamHandler
    \<Rightarrow> ts_error + ('a OutputStreamShard list \<times> 'a OutputStreamHandler)" where
  "close_output validate has_shards i sh =
     (case sh of (shards, h) \<Rightarrow>
        if has_shards \<and> length shards \<le> i then Inl CheckFailed
        else case (if has_shards
                   then (case PropagateUpdatesToMirrors validate Done (shards ! i) (output_stream_managers h ! i) (downstream h) of
                           Inl e \<Rightarrow> Inl e
                         | Inr (o', m, hs) \<Rightarrow> Inr (shards[i := o'], m, hs))
                   else Inr (shards, output_stream_managers h ! i, downstream h)) of
               Inl e \<Rightarrow> Inl e
             | Inr (shards', m, hs) \<Rightarrow>
                 (case osm_Close m hs of
                    Inl e \<Rightarrow> Inl e
                  | Inr (m', hs') \<Rightarrow>
                      Inr (shards', h\<lparr>output_stream_managers := (output_stream_managers h)[i := m'], downstream := hs'\<rparr>)))"

definition osh_Close ::
  "('a packet \<Rightarrow> bool) \<Rightarrow> 'a OutputStreamShard list option \<Rightarrow> 'a OutputStreamHandler
    \<Rightarrow> ts_error + ('a OutputStreamShard list \<times> 'a OutputStreamHandler)" where
  "osh_Close validate shards h =
     run_steps (close_output validate (shards \<noteq> None)) [0 ..< length (output_stream_managers h)]
       (case shards of None \<Rightarrow> [] | Some sh \<Rightarrow> sh, h)"

definition FirstStreamName :: "'a OutputStreamHandler \<Rightarrow> string" where
  "FirstStreamName h = (case output_stream_managers h of [] \<Rightarrow> [] | m # _ \<Rightarrow> spec_name (output_stream_spec m))"

section \<open>Operations on the mirrors\<close>

definition mirror_ok :: "('a, 'b) InputStreamHandler_scheme list \<Rightarrow> nat \<times> nat \<Rightarrow> bool" where
  "mirror_ok hs m \<longleftrightarrow> fst m < length hs \<and> snd m < length (input_stream_managers (hs ! fst m))"

definition stream_at :: "('a, 'b) InputStreamHandler_scheme list \<Rightarrow> nat \<times> nat \<Rightarrow> 'a InputStreamManager" where
  "stream_at hs m = input_stream_managers (hs ! fst m) ! snd m"

text \<open>
  An operation of a handler that never fails on an id of the handler and changes the streams only by applying a
  function to the stream of that id.
\<close>

locale stream_operation =
  fixes f :: "nat \<Rightarrow> ('a, 'b) InputStreamHandler_scheme \<Rightarrow> ts_error + ('a, 'b) InputStreamHandler_scheme"
    and g :: "'a InputStreamManager \<Rightarrow> 'a InputStreamManager"
  assumes op_at: "i < length (input_stream_managers h) \<Longrightarrow>
    \<exists>h'. f i h = Inr h' \<and> input_stream_managers h' = (input_stream_managers h)[i := g (input_stream_managers h ! i)]"
begin

lemma at_mirror_step:
  assumes "mirror_ok hs m"
  shows "\<exists>hs'. at_mirror f m hs = Inr hs' \<and> (\<forall>k. mirror_ok hs' k = mirror_ok hs k) \<and>
    (\<forall>k. mirror_ok hs k \<longrightarrow> stream_at hs' k = (if k = m then g (stream_at hs m) else stream_at hs k))"
proof -
  from assms op_at [of "snd m" "hs ! fst m"] obtain h' where h': "f (snd m) (hs ! fst m) = Inr h'"
    "input_stream_managers h' = (input_stream_managers (hs ! fst m))[snd m := g (input_stream_managers (hs ! fst m) ! snd m)]"
    by (auto simp: mirror_ok_def)
  with assms show ?thesis
    by (intro exI [of _ "hs[fst m := h']"]) (auto simp: at_mirror_def mirror_ok_def stream_at_def nth_list_update prod_eq_iff)
qed

lemma run_mirrors:
  "distinct ms \<Longrightarrow> \<forall>m \<in> set ms. mirror_ok hs m \<Longrightarrow>
    \<exists>hs'. run_steps (at_mirror f) ms hs = Inr hs' \<and> (\<forall>k. mirror_ok hs' k = mirror_ok hs k) \<and>
      (\<forall>k. mirror_ok hs k \<longrightarrow> stream_at hs' k = (if k \<in> set ms then g (stream_at hs k) else stream_at hs k))"
proof (induction ms arbitrary: hs)
  case (Cons m ms)
  from at_mirror_step [of hs m] Cons.prems obtain hs1 where hs1: "at_mirror f m hs = Inr hs1" "\<forall>k. mirror_ok hs1 k = mirror_ok hs k"
    "\<forall>k. mirror_ok hs k \<longrightarrow> stream_at hs1 k = (if k = m then g (stream_at hs m) else stream_at hs k)" by auto
  from Cons.IH [of hs1] Cons.prems hs1(2) obtain hs2 where "run_steps (at_mirror f) ms hs1 = Inr hs2" "\<forall>k. mirror_ok hs2 k = mirror_ok hs1 k"
    "\<forall>k. mirror_ok hs1 k \<longrightarrow> stream_at hs2 k = (if k \<in> set ms then g (stream_at hs1 k) else stream_at hs1 k)" by auto
  with hs1 Cons.prems show ?case by auto
qed simp

end

definition tell_stream :: "('a packet \<Rightarrow> bool) \<Rightarrow> 'a packet list \<Rightarrow> Timestamp option \<Rightarrow> 'a InputStreamManager \<Rightarrow> 'a InputStreamManager" where
  "tell_stream validate ps bound s =
     (let s1 = (if ps \<noteq> [] then snd (snd (snd (AddOrMovePacketsInternal validate ps s))) else s)
      in case bound of None \<Rightarrow> s1 | Some b \<Rightarrow> snd (snd (SetNextTimestampBound b s1)))"

interpretation tell: stream_operation "tell_mirror v ps b" "tell_stream v ps b" for v ps b
  by unfold_locales
    (auto simp: tell_mirror_def tell_stream_def ish_AddPackets_def ish_SetNextTimestampBound_def has_id_def call_def put_stream_def Let_def
      split: prod.splits option.splits)

interpretation told: stream_operation "\<lambda>i. ish_SetNextTimestampBound i b" "\<lambda>s. snd (snd (SetNextTimestampBound b s))" for b
  by unfold_locales (auto simp: ish_SetNextTimestampBound_def has_id_def call_def put_stream_def split: prod.splits)

interpretation sized: stream_operation "\<lambda>i. ish_SetMaxQueueSize i n" "\<lambda>s. snd (ism_SetMaxQueueSize n s)" for n
  by unfold_locales (auto simp: ish_SetMaxQueueSize_def has_id_def call_def put_stream_def split: prod.splits)

section \<open>What reaches the mirrors\<close>

definition mirrored :: "'a OutputStreamManager \<Rightarrow> ('a, 'b) InputStreamHandler_scheme list \<Rightarrow> bool" where
  "mirrored m hs \<longleftrightarrow> distinct (mirrors m) \<and> \<not> osm_closed m \<and> PreStream \<le> osm_next_timestamp_bound m \<and>
     (\<forall>k \<in> set (mirrors m). mirror_ok hs k \<and> stream_inv (stream_at hs k) \<and>
        next_timestamp_bound (stream_at hs k) = osm_next_timestamp_bound m)"

text \<open>The packets a calculator may write: of the stream's type, in the range of timestamps, increasing, at or after the bound.\<close>

definition writable :: "('a packet \<Rightarrow> bool) \<Rightarrow> Timestamp \<Rightarrow> 'a packet list \<Rightarrow> bool" where
  "writable validate b ps \<longleftrightarrow> queue_sorted ps \<and>
     (\<forall>p \<in> set ps. validate p \<and> \<not> packet_IsEmpty p \<and> IsRangeValue (pkt_ts p) \<and> b \<le> pkt_ts p)"

definition write_all :: "('a packet \<Rightarrow> bool) \<Rightarrow> 'a packet list \<Rightarrow> 'a OutputStreamShard \<Rightarrow> 'a OutputStreamShard" where
  "write_all validate ps o' = fold (\<lambda>p o'. snd (oss_AddPacket validate p o')) ps o'"

lemma range_allowed: "IsRangeValue t \<Longrightarrow> IsAllowedInStream t \<and> t \<noteq> PostStream \<and> t \<noteq> PreStream"
  by (cases t) (auto simp: IsRangeValue_def IsAllowedInStream_def special_defs)

lemma next_le_range: "IsRangeValue t \<Longrightarrow> IsRangeValue u \<Longrightarrow> t < u \<Longrightarrow> next_ts t \<le> u"
  by (cases t; cases u) (auto simp: IsRangeValue_def next_ts_eq special_defs)

lemma writable_Cons: "writable v b (p # ps) \<Longrightarrow> writable v (next_ts (pkt_ts p)) ps"
  by (auto simp: writable_def queue_sorted_def intro: next_le_range)

lemma write_all_eq:
  "writable v b ps \<Longrightarrow> \<not> oss_closed o' \<Longrightarrow>
    write_all v ps o' = (if ps = [] then o' else o'\<lparr>output_queue := output_queue o' @ ps,
      oss_next_timestamp_bound := next_ts (pkt_ts (last ps)), updated_next_timestamp_bound := next_ts (pkt_ts (last ps))\<rparr>)"
proof (induction ps arbitrary: b o')
  case (Cons p ps)
  have "snd (oss_AddPacket v p o') = o'\<lparr>output_queue := output_queue o' @ [p], oss_next_timestamp_bound := next_ts (pkt_ts p),
      updated_next_timestamp_bound := next_ts (pkt_ts p)\<rparr>"
    using Cons.prems range_allowed [of "pkt_ts p"] by (simp add: oss_AddPacket_def oss_AddPacketInternal_def writable_def)
  with Cons.IH [OF writable_Cons [OF Cons.prems(1)]] Cons.prems(2) show ?case by (simp add: write_all_def)
qed (simp add: write_all_def)

lemma add_writable:
  "stream_inv s \<Longrightarrow> writable v (next_timestamp_bound s) ps \<Longrightarrow>
    fst (add_loop v ps s) = StatusOk \<and> ism_queue (snd (add_loop v ps s)) = ism_queue s @ ps \<and>
    next_timestamp_bound (snd (add_loop v ps s)) = (if ps = [] then next_timestamp_bound s else next_ts (pkt_ts (last ps)))"
proof (induction ps arbitrary: s)
  case (Cons p ps)
  have "admit v p s = StatusOk" using Cons.prems range_allowed [of "pkt_ts p"] by (auto simp: admit_def writable_def)
  moreover from Cons.prems have "writable v (next_timestamp_bound (enqueue p s)) ps" using writable_Cons by (auto simp: enqueue_def)
  ultimately show ?case
    using Cons.IH [OF stream_inv_enqueue [of v p s]] Cons.prems(1) by (auto simp: enqueue_def)
qed simp

lemma tell_stream_writable:
  assumes "stream_inv s" "writable v (next_timestamp_bound s) ps"
    and "next_timestamp_bound s \<le> b" "ps \<noteq> [] \<longrightarrow> next_ts (pkt_ts (last ps)) \<le> b"
  shows "let s' = tell_stream v ps (if ps = [] \<or> next_ts (pkt_ts (last ps)) \<noteq> b then Some b else None) s
    in stream_inv s' \<and> ism_queue s' = ism_queue s @ ps \<and> next_timestamp_bound s' = b"
proof -
  define s1 where "s1 = snd (add_loop v ps s)"
  have op: "\<not> ism_closed s" using assms(1) by (simp add: stream_inv_def)
  have s1: "stream_inv s1" "ism_queue s1 = ism_queue s @ ps"
    "next_timestamp_bound s1 = (if ps = [] then next_timestamp_bound s else next_ts (pkt_ts (last ps)))" "\<not> ism_closed s1"
    using add_writable [OF assms(1,2)] add_loop_inv [OF assms(1), of v ps] by (auto simp: s1_def stream_inv_def)
  have t: "tell_stream v ps c s = (case c of None \<Rightarrow> s1 | Some b \<Rightarrow> snd (snd (SetNextTimestampBound b s1)))" for c
    using op AddOrMove_state [of v ps s] by (cases ps) (auto simp: tell_stream_def s1_def Let_def split: option.splits)
  have "next_timestamp_bound (snd (snd (SetNextTimestampBound b s1))) = b" "ism_queue (snd (snd (SetNextTimestampBound b s1))) = ism_queue s1"
    using s1(3,4) assms(3,4) by (auto simp: SetNextTimestampBound_def)
  with s1 stream_inv_bound [OF s1(1), of b] show ?thesis unfolding t by (auto simp: Let_def)
qed

lemma ts_add_range: "IsRangeValue u \<Longrightarrow> \<exists>b. ts_add u k = Inr b"
  by (cases u) (auto simp: ts_add_def IsRangeValue_def safe_int_def Timestamp_new_def IsSpecialValue_def special_defs)

lemma offset_bound_total:
  assumes "t = Unstarted \<or> IsAllowedInStream t"
  shows "\<exists>b. offset_bound spec t = Inr b"
proof -
  have "IsRangeValue (next_ts t)" if "t \<noteq> Unstarted" "t \<noteq> PreStream" "t \<noteq> Timestamp.Max" "t \<noteq> PostStream"
    using that assms by (cases t) (auto simp: IsRangeValue_def IsAllowedInStream_def next_ts_eq special_defs)
  moreover have "IsRangeValue Timestamp.Max" by (simp add: IsRangeValue_def less_imp_le)
  ultimately show ?thesis
    using ts_add_range [of "next_ts t" "spec_offset spec"] ts_add_range [of Timestamp.Max "spec_offset spec"]
    unfolding offset_bound_def by (auto split: sum.splits)
qed

text \<open>After a reset and well-behaved writes, the computed bound is at or after everything written.\<close>

lemma compute_bound:
  fixes m :: "'a OutputStreamManager"
  assumes "writable v (osm_next_timestamp_bound m) ps" "\<not> osm_closed m" "t = Unstarted \<or> IsAllowedInStream t"
    and "PreStream \<le> osm_next_timestamp_bound m"
  shows "\<exists>b. ComputeOutputTimestampBound (write_all v ps (ResetShard m o')) t m = Inr ([], b) \<and>
    (b = Unset \<and> ps = [] \<or> osm_next_timestamp_bound m \<le> b \<and> b \<noteq> Unset \<and> (ps \<noteq> [] \<longrightarrow> next_ts (pkt_ts (last ps)) \<le> b))"
proof -
  define o1 where "o1 = write_all v ps (ResetShard m o')"
  have "\<not> oss_closed (ResetShard m o')" using assms(2) by (simp add: ResetShard_def oss_Reset_def)
  note o1 = write_all_eq [OF assms(1) this, folded o1_def]
  from offset_bound_total [OF assms(3)] obtain ib where ib: "offset_bound (output_stream_spec m) t = Inr ib" by blast
  have U: "Unset < osm_next_timestamp_bound m" using assms(4) by (cases "osm_next_timestamp_bound m") (auto simp: special_defs)
  show ?thesis
  proof (cases "ps = []")
    case True
    then show ?thesis
      using ib assms(3) U unfolding o1_def [symmetric]
      by (auto simp: o1 ComputeOutputTimestampBound_def ResetShard_def oss_Reset_def max_def)
  next
    case False
    then have last: "last ps \<in> set ps" by simp
    with assms(1) have le: "osm_next_timestamp_bound m \<le> pkt_ts (last ps)" "IsRangeValue (pkt_ts (last ps))" by (auto simp: writable_def)
    then have lt: "pkt_ts (last ps) < next_ts (pkt_ts (last ps))"
      using range_allowed by (auto simp: IsAllowedInStream_def intro!: next_ts_greater)
    define nb where "nb = next_ts (pkt_ts (last ps))"
    have nb: "osm_next_timestamp_bound m \<le> nb" "Unset < nb" using le lt U by (auto simp: nb_def)
    have "ComputeOutputTimestampBound o1 t m = Inr ([], max (max (if nb < ib then max Unset ib else Unset) nb) nb)"
      using False ib assms(3) by (auto simp: o1 ComputeOutputTimestampBound_def LastAddedPacketTimestamp_def ResetShard_def oss_Reset_def nb_def)
    with nb False show ?thesis unfolding o1_def [symmetric] nb_def [symmetric] by (auto simp: max_def)
  qed
qed

lemma propagate_mirrored:
  assumes "mirrored m hs" "writable v (osm_next_timestamp_bound m) (output_queue o')"
    and b: "b = Unset \<and> output_queue o' = [] \<or> osm_next_timestamp_bound m \<le> b \<and> b \<noteq> Unset \<and>
      (output_queue o' \<noteq> [] \<longrightarrow> next_ts (pkt_ts (last (output_queue o'))) \<le> b)"
  shows "\<exists>m' hs'. PropagateUpdatesToMirrors v b o' m hs = Inr (o'\<lparr>output_queue := []\<rparr>, m', hs') \<and> mirrored m' hs' \<and>
    mirrors m' = mirrors m \<and> osm_next_timestamp_bound m' = (if b = Unset then osm_next_timestamp_bound m else b) \<and>
    (\<forall>k \<in> set (mirrors m). ism_queue (stream_at hs' k) = ism_queue (stream_at hs k) @ output_queue o') \<and>
    (\<forall>k. mirror_ok hs k \<and> k \<notin> set (mirrors m) \<longrightarrow> stream_at hs' k = stream_at hs k)"
proof -
  define ps where "ps = output_queue o'"
  define c where "c = (if b \<noteq> Unset \<and> (ps = [] \<or> next_ts (pkt_ts (last ps)) \<noteq> b) then Some b else None)"
  have ok: "distinct (mirrors m)" "\<forall>k \<in> set (mirrors m). mirror_ok hs k" using assms(1) by (auto simp: mirrored_def)
  from tell.run_mirrors [OF ok, of v ps c] obtain hs' where hs': "run_steps (at_mirror (tell_mirror v ps c)) (mirrors m) hs = Inr hs'"
    "\<forall>k. mirror_ok hs' k = mirror_ok hs k"
    "\<forall>k. mirror_ok hs k \<longrightarrow> stream_at hs' k = (if k \<in> set (mirrors m) then tell_stream v ps c (stream_at hs k) else stream_at hs k)" by blast
  have st: "stream_inv (tell_stream v ps c (stream_at hs k)) \<and> ism_queue (tell_stream v ps c (stream_at hs k)) = ism_queue (stream_at hs k) @ ps \<and>
      next_timestamp_bound (tell_stream v ps c (stream_at hs k)) = (if b = Unset then osm_next_timestamp_bound m else b)"
    if "k \<in> set (mirrors m)" for k
  proof (cases "b = Unset")
    case True
    with b that assms(1) show ?thesis by (auto simp: c_def ps_def tell_stream_def mirrored_def)
  next
    case False
    with tell_stream_writable [of "stream_at hs k" v ps b] b that assms(1,2) show ?thesis
      by (auto simp: c_def ps_def [symmetric] mirrored_def Let_def)
  qed
  have "PreStream \<le> (if b = Unset then osm_next_timestamp_bound m else b)"
    using b assms(1) by (auto simp: mirrored_def)
  then show ?thesis
    using hs' st ok assms(1)
    by (auto simp: PropagateUpdatesToMirrors_def update_mirrors_def Let_def ps_def [symmetric] c_def [symmetric] mirrored_def)
qed

section \<open>Properties\<close>

text \<open>
  C19: what a calculator writes arrives. A calculator that writes increasing packets of the stream's type at or after its bound, with any offset: the output bound is computed without an
  error, every mirror of the stream then holds exactly the old packets followed by the new ones, no other stream is
  touched, the bound of every mirror is the bound of the output stream, which never decreases and is after
  every packet written.
\<close>

theorem outputs_reach_mirrors:
  fixes m :: "'a OutputStreamManager" and hs :: "('a, 'b) InputStreamHandler_scheme list"
  assumes "mirrored m hs" and "writable v (osm_next_timestamp_bound m) ps" and "t = Unstarted \<or> IsAllowedInStream t"
  shows "\<exists>b o2 m' hs'. ComputeOutputTimestampBound (write_all v ps (ResetShard m o')) t m = Inr ([], b) \<and>
    PropagateUpdatesToMirrors v b (write_all v ps (ResetShard m o')) m hs = Inr (o2, m', hs') \<and> mirrored m' hs' \<and> output_queue o2 = [] \<and>
    osm_next_timestamp_bound m \<le> osm_next_timestamp_bound m' \<and> (\<forall>p \<in> set ps. pkt_ts p < osm_next_timestamp_bound m') \<and>
    (\<forall>k \<in> set (mirrors m). ism_queue (stream_at hs' k) = ism_queue (stream_at hs k) @ ps) \<and>
    (\<forall>k. mirror_ok hs k \<and> k \<notin> set (mirrors m) \<longrightarrow> stream_at hs' k = stream_at hs k)"
proof -
  define o1 where "o1 = write_all v ps (ResetShard m o')"
  have open_m: "\<not> osm_closed m" "PreStream \<le> osm_next_timestamp_bound m" using assms(1) by (auto simp: mirrored_def)
  have q: "output_queue o1 = ps"
    using write_all_eq [OF assms(2), of "ResetShard m o'"] open_m by (auto simp: o1_def ResetShard_def oss_Reset_def)
  from compute_bound [OF assms(2) open_m(1) assms(3) open_m(2), of o'] obtain b where
    b: "ComputeOutputTimestampBound o1 t m = Inr ([], b)"
    "b = Unset \<and> ps = [] \<or> osm_next_timestamp_bound m \<le> b \<and> b \<noteq> Unset \<and> (ps \<noteq> [] \<longrightarrow> next_ts (pkt_ts (last ps)) \<le> b)"
    unfolding o1_def by blast
  from propagate_mirrored [OF assms(1), of v o1 b] assms(2) b(2) obtain m' hs' where
    r: "PropagateUpdatesToMirrors v b o1 m hs = Inr (o1\<lparr>output_queue := []\<rparr>, m', hs')" "mirrored m' hs'"
    "osm_next_timestamp_bound m' = (if b = Unset then osm_next_timestamp_bound m else b)"
    "\<forall>k \<in> set (mirrors m). ism_queue (stream_at hs' k) = ism_queue (stream_at hs k) @ ps"
    "\<forall>k. mirror_ok hs k \<and> k \<notin> set (mirrors m) \<longrightarrow> stream_at hs' k = stream_at hs k" unfolding q by blast
  have "pkt_ts p < osm_next_timestamp_bound m'" if "p \<in> set ps" for p
  proof -
    have "pkt_ts p \<le> pkt_ts (last ps)"
      using assms(2) that by (cases ps rule: rev_cases) (auto simp: writable_def queue_sorted_def sorted_wrt_append less_imp_le)
    also have "\<dots> < next_ts (pkt_ts (last ps))"
      using assms(2) that range_allowed [of "pkt_ts (last ps)"] last_in_set [of ps]
      by (intro next_ts_greater) (fastforce simp: writable_def IsAllowedInStream_def)
    also have "\<dots> \<le> osm_next_timestamp_bound m'" using b(2) r(3) that by auto
    finally show ?thesis .
  qed
  moreover have "osm_next_timestamp_bound m \<le> osm_next_timestamp_bound m'" using b(2) r(3) by auto
  ultimately show ?thesis using b(1) r unfolding o1_def [symmetric] by (intro exI [of _ b] exI [of _ "o1\<lparr>output_queue := []\<rparr>"] exI [of _ m'] exI [of _ hs']) simp
qed

definition demo_out :: "int OutputStreamManager" where
  "demo_out = AddMirror 0 0 (osm_Initialize ''x'')"

definition demo_down :: "int InputStreamHandler list" where
  "demo_down = [InputStreamHandler_new [ism_Initialize ''x'' False] (demo_contexts 1)]"

lemma demo_mirrored: "mirrored demo_out demo_down" "osm_next_timestamp_bound demo_out = PreStream" "mirrors demo_out = [(0, 0)]"
  "ism_queue (stream_at demo_down (0, 0)) = []"
  by (simp_all add: mirrored_def demo_out_def demo_down_def AddMirror_def osm_Initialize_def osm_PrepareForRun_def mirror_ok_def
      stream_at_def InputStreamHandler_new_def stream_inv_init) (simp_all add: ism_Initialize_def ism_PrepareForRun_def)

theorem outputs_reach_mirrors_witness:
  "\<exists>b o2 m' hs'. ComputeOutputTimestampBound (write_all (\<lambda>_. True) [\<lparr>pkt_ts = Ts 5, pkt_data = Some 1\<rparr>] (ResetShard demo_out OutputStreamShard_new)) (Ts 5) demo_out = Inr ([], b) \<and>
     PropagateUpdatesToMirrors (\<lambda>_. True) b (write_all (\<lambda>_. True) [\<lparr>pkt_ts = Ts 5, pkt_data = Some 1\<rparr>] (ResetShard demo_out OutputStreamShard_new)) demo_out demo_down
       = Inr (o2, m', hs') \<and> Ts 5 < osm_next_timestamp_bound m' \<and>
     map pkt_ts (ism_queue (stream_at hs' (0, 0))) = [Ts 5]"
proof -
  have w: "writable (\<lambda>_. True) (osm_next_timestamp_bound demo_out) [\<lparr>pkt_ts = Ts 5, pkt_data = Some (1::int)\<rparr>]"
    by (simp add: writable_def demo_mirrored queue_sorted_def packet_IsEmpty_def IsRangeValue_def special_defs)
  have t: "Ts 5 = Unstarted \<or> IsAllowedInStream (Ts 5)" by (simp add: IsAllowedInStream_def special_defs)
  from outputs_reach_mirrors [OF demo_mirrored(1) w t, of OutputStreamShard_new] show ?thesis
    by (auto simp: demo_mirrored)
qed

end
