(* ===== verification/In_Order_Output.thy ===== *)
theory In_Order_Output
  imports Output_Stream
begin

text \<open>
  \<^verbatim>\<open>PostProcess\<close> and \<^verbatim>\<open>UpdateTaskTimestampBound\<close> of \<^verbatim>\<open>output_stream_handler.cc\<close> and the propagation loop of
  \<^verbatim>\<open>stream_handler/in_order_output_stream_handler.cc\<close>: calls of a calculator that run in parallel may complete in any order; their
  outputs leave in the order of the input timestamps.  The parts of the loop that run without the mutex are functions of
  their own; the loop here is the run of one thread.  A context is \<open>None\<close> where the code's variable is not yet set.
\<close>

section \<open>The propagation loop\<close>

definition loop_start ::
  "'a OutputStreamHandler \<Rightarrow> ts_error + ((Timestamp \<times> context_ref) option \<times> 'a OutputStreamHandler)" where
  "loop_start h =
     (if propagation_state h \<noteq> kIdle then Inl CheckFailed
      else if \<not> HasActiveContexts (osh_contexts h) then Inr (None, h\<lparr>propagation_state := kPropagatingBound\<rparr>)
      else case GetFrontCalculatorContext (osh_contexts h) of
             Inl e \<Rightarrow> Inl e
           | Inr (t, r) \<Rightarrow>
               (case completed_input_timestamps h of
                  [] \<Rightarrow> Inr (Some (t, r), h)
                | c # _ \<Rightarrow>
                    if t \<noteq> c then (if t < c then Inr (Some (t, r), h) else Inl CheckFailed)
                    else Inr (Some (t, r), h\<lparr>propagation_state := kPropagatingPackets\<rparr>)))"

definition packets_unlocked ::
  "('a packet \<Rightarrow> bool) \<Rightarrow> Timestamp \<Rightarrow> context_ref \<Rightarrow> 'a OutputStreamHandler \<Rightarrow> ts_error + 'a OutputStreamHandler" where
  "packets_unlocked validate t r h =
     (case ctx_get r (osh_contexts h) of
        None \<Rightarrow> Inl CheckFailed
      | Some c \<Rightarrow>
          (case PropagateOutputPackets validate t (outputs c) h of
             Inl e \<Rightarrow> Inl e
           | Inr (shards, h1) \<Rightarrow>
               (case RecycleCalculatorContext (ctx_put r (c\<lparr>outputs := shards\<rparr>) (osh_contexts h1)) of
                  Inl e \<Rightarrow> Inl e
                | Inr cm \<Rightarrow> Inr (h1\<lparr>osh_contexts := cm\<rparr>))))"

definition packets_locked ::
  "Timestamp \<Rightarrow> context_ref \<Rightarrow> 'a OutputStreamHandler \<Rightarrow> ts_error + ((Timestamp \<times> context_ref) option \<times> 'a OutputStreamHandler)" where
  "packets_locked t r h =
     (case completed_input_timestamps h of
        [] \<Rightarrow> Inl CheckFailed
      | _ # cs \<Rightarrow>
          (let h1 = h\<lparr>completed_input_timestamps := cs\<rparr>
           in if cs = [] \<and> \<not> HasActiveContexts (osh_contexts h1) then
                Inr (Some (t, r), h1\<lparr>propagation_state :=
                  (if task_timestamp_bound h1 \<le> next_ts t then kIdle else kPropagatingBound)\<rparr>)
              else case GetFrontCalculatorContext (osh_contexts h1) of
                     Inl e \<Rightarrow> Inl e
                   | Inr (t', r') \<Rightarrow>
                       Inr (Some (t', r'), if cs \<noteq> [] \<and> t' = hd cs then h1 else h1\<lparr>propagation_state := kIdle\<rparr>)))"

definition PropagatePackets ::
  "('a packet \<Rightarrow> bool) \<Rightarrow> Timestamp \<Rightarrow> context_ref \<Rightarrow> 'a OutputStreamHandler
    \<Rightarrow> ts_error + ((Timestamp \<times> context_ref) option \<times> 'a OutputStreamHandler)" where
  "PropagatePackets validate t r h =
     (case packets_unlocked validate t r h of Inl e \<Rightarrow> Inl e | Inr h1 \<Rightarrow> packets_locked t r h1)"

definition bound_locked ::
  "Timestamp \<Rightarrow> (Timestamp \<times> context_ref) option \<Rightarrow> 'a OutputStreamHandler
    \<Rightarrow> ts_error + ((Timestamp \<times> context_ref) option \<times> 'a OutputStreamHandler)" where
  "bound_locked bound_to_propagate ctx h =
     (if propagation_state h = kPropagatingBound then Inr (ctx, h\<lparr>propagation_state := kIdle\<rparr>)
      else if propagation_state h \<noteq> kPropagationPending then Inl CheckFailed
      else if \<not> HasActiveContexts (osh_contexts h) then
        (if bound_to_propagate < task_timestamp_bound h then Inr (ctx, h\<lparr>propagation_state := kPropagatingBound\<rparr>)
         else Inl CheckFailed)
      else case GetFrontCalculatorContext (osh_contexts h) of
             Inl e \<Rightarrow> Inl e
           | Inr (t, r) \<Rightarrow>
               Inr (Some (t, r), h\<lparr>propagation_state :=
                 (if completed_input_timestamps h = [] \<or> t \<noteq> hd (completed_input_timestamps h) then kIdle else kPropagatingPackets)\<rparr>))"

definition PropagationBound ::
  "('a packet \<Rightarrow> bool) \<Rightarrow> (Timestamp \<times> context_ref) option \<Rightarrow> 'a OutputStreamHandler
    \<Rightarrow> ts_error + ((Timestamp \<times> context_ref) option \<times> 'a OutputStreamHandler)" where
  "PropagationBound validate ctx h =
     (case TryPropagateTimestampBound validate (task_timestamp_bound h) h of
        Inl e \<Rightarrow> Inl e
      | Inr h1 \<Rightarrow> bound_locked (task_timestamp_bound h) ctx h1)"

text \<open>One round of the \<^verbatim>\<open>while\<close> loop, and the loop.\<close>

definition propagation_round ::
  "('a packet \<Rightarrow> bool) \<Rightarrow> (Timestamp \<times> context_ref) option \<Rightarrow> 'a OutputStreamHandler
    \<Rightarrow> ts_error + ((Timestamp \<times> context_ref) option \<times> 'a OutputStreamHandler)" where
  "propagation_round validate ctx h =
     (if propagation_state h = kPropagatingPackets then
        (case ctx of None \<Rightarrow> Inl CheckFailed | Some (t, r) \<Rightarrow> PropagatePackets validate t r h)
      else if propagation_state h = kPropagatingBound then PropagationBound validate ctx h
      else Inl CheckFailed)"

partial_function (option) propagation_while ::
  "('a packet \<Rightarrow> bool) \<Rightarrow> (Timestamp \<times> context_ref) option \<Rightarrow> 'a OutputStreamHandler
    \<Rightarrow> (ts_error + 'a OutputStreamHandler) option" where
  "propagation_while validate ctx h =
     (if propagation_state h = kIdle then Some (Inr h)
      else case propagation_round validate ctx h of
             Inl e \<Rightarrow> Some (Inl e)
           | Inr (ctx', h') \<Rightarrow> propagation_while validate ctx' h')"

definition PropagationLoop ::
  "('a packet \<Rightarrow> bool) \<Rightarrow> 'a OutputStreamHandler \<Rightarrow> (ts_error + 'a OutputStreamHandler) option" where
  "PropagationLoop validate h =
     (case loop_start h of Inl e \<Rightarrow> Some (Inl e) | Inr (ctx, h1) \<Rightarrow> propagation_while validate ctx h1)"

section \<open>Completed calls and bounds\<close>

text \<open>A thread that finds another one propagating leaves a note for it, or nothing.\<close>

definition start_propagation ::
  "('a OutputStreamHandler \<Rightarrow> (ts_error + 'a OutputStreamHandler) option) \<Rightarrow> 'a OutputStreamHandler
    \<Rightarrow> (ts_error + 'a OutputStreamHandler) option" where
  "start_propagation loop h =
     (if propagation_state h = kPropagatingBound then Some (Inr (h\<lparr>propagation_state := kPropagationPending\<rparr>))
      else if propagation_state h \<noteq> kIdle then Some (Inr h)
      else loop h)"

definition PostProcess ::
  "('a packet \<Rightarrow> bool) \<Rightarrow> ('a OutputStreamHandler \<Rightarrow> (ts_error + 'a OutputStreamHandler) option) \<Rightarrow> Timestamp
    \<Rightarrow> 'a OutputStreamHandler \<Rightarrow> (ts_error + 'a OutputStreamHandler) option" where
  "PostProcess validate loop t h =
     (if \<not> calculator_run_in_parallel (osh_contexts h) then
        Some (case default_context (osh_contexts h) of
                None \<Rightarrow> Inl CheckFailed
              | Some c \<Rightarrow>
                  (case PropagateOutputPackets validate t (outputs c) h of
                     Inl e \<Rightarrow> Inl e
                   | Inr (shards, h1) \<Rightarrow>
                       Inr (h1\<lparr>osh_contexts := ctx_put DefaultContext (c\<lparr>outputs := shards\<rparr>) (osh_contexts h1)\<rparr>)))
      else start_propagation loop
        (h\<lparr>completed_input_timestamps :=
           (if t \<in> set (completed_input_timestamps h) then completed_input_timestamps h
            else insort t (completed_input_timestamps h))\<rparr>))"

definition UpdateTaskTimestampBound ::
  "('a packet \<Rightarrow> bool) \<Rightarrow> ('a OutputStreamHandler \<Rightarrow> (ts_error + 'a OutputStreamHandler) option) \<Rightarrow> Timestamp
    \<Rightarrow> 'a OutputStreamHandler \<Rightarrow> (ts_error + 'a OutputStreamHandler) option" where
  "UpdateTaskTimestampBound validate loop t h =
     (if \<not> calculator_run_in_parallel (osh_contexts h) then Some (TryPropagateTimestampBound validate t h)
      else if task_timestamp_bound h = t then Some (Inr h)
      else if t \<le> task_timestamp_bound h then Some (Inl CheckFailed)
      else start_propagation loop (h\<lparr>task_timestamp_bound := t\<rparr>))"

section \<open>Propagation never fails\<close>

text \<open>What propagation leaves alone.\<close>

definition osh_frame :: "'a OutputStreamHandler \<Rightarrow> 'a OutputStreamHandler \<Rightarrow> bool" where
  "osh_frame h h' \<longleftrightarrow> osh_contexts h' = osh_contexts h \<and> completed_input_timestamps h' = completed_input_timestamps h \<and>
     task_timestamp_bound h' = task_timestamp_bound h \<and> propagation_state h' = propagation_state h \<and>
     map mirrors (output_stream_managers h') = map mirrors (output_stream_managers h) \<and>
     (\<forall>k. mirror_ok (downstream h') k = mirror_ok (downstream h) k)"

definition mirrors_ok :: "'a OutputStreamHandler \<Rightarrow> bool" where
  "mirrors_ok h \<longleftrightarrow> (\<forall>ms \<in> set (map mirrors (output_stream_managers h)). distinct ms \<and> (\<forall>k \<in> set ms. mirror_ok (downstream h) k))"

lemma osh_frame_refl [simp]: "osh_frame h h" by (simp add: osh_frame_def)

lemma osh_frame_trans: "osh_frame h h1 \<Longrightarrow> osh_frame h1 h2 \<Longrightarrow> osh_frame h h2" by (simp add: osh_frame_def)

lemma osh_frame_ok: "osh_frame h h' \<Longrightarrow> mirrors_ok h \<Longrightarrow> mirrors_ok h'" unfolding osh_frame_def mirrors_ok_def by auto

lemma osh_frame_length: "osh_frame h h' \<Longrightarrow> length (output_stream_managers h') = length (output_stream_managers h)"
  unfolding osh_frame_def by (metis length_map)

lemma propagate_total:
  assumes "distinct (mirrors m)" "\<forall>k \<in> set (mirrors m). mirror_ok hs k"
  shows "\<exists>m' hs'. PropagateUpdatesToMirrors v b o' m hs = Inr (o'\<lparr>output_queue := []\<rparr>, m', hs') \<and> mirrors m' = mirrors m \<and>
    (\<forall>k. mirror_ok hs' k = mirror_ok hs k)"
  using tell.run_mirrors [OF assms, of v "output_queue o'"
      "if b \<noteq> Unset \<and> (output_queue o' = [] \<or> next_ts (pkt_ts (last (output_queue o'))) \<noteq> b) then Some b else None"]
  by (auto simp: PropagateUpdatesToMirrors_def update_mirrors_def Let_def)

lemma close_total:
  assumes "distinct (mirrors m)" "\<forall>k \<in> set (mirrors m). mirror_ok hs k"
  shows "\<exists>m' hs'. osm_Close m hs = Inr (m', hs') \<and> mirrors m' = mirrors m \<and> (\<forall>k. mirror_ok hs' k = mirror_ok hs k)"
  using told.run_mirrors [OF assms, of Done] by (auto simp: osm_Close_def close_mirrors_def)

lemma compute_total: "\<exists>errs b. ComputeOutputTimestampBound o' t m = Inr (errs, b)"
  using offset_bound_total [of t "output_stream_spec m"] by (auto simp: ComputeOutputTimestampBound_def Let_def)

lemma mirrors_ok_at:
  "mirrors_ok h \<Longrightarrow> i < length (output_stream_managers h) \<Longrightarrow>
    distinct (mirrors (output_stream_managers h ! i)) \<and> (\<forall>k \<in> set (mirrors (output_stream_managers h ! i)). mirror_ok (downstream h) k)"
  by (auto simp: mirrors_ok_def)

lemma osh_frame_put:
  assumes "i < length (output_stream_managers h)" "mirrors m' = mirrors (output_stream_managers h ! i)" "\<forall>k. mirror_ok hs' k = mirror_ok (downstream h) k"
  shows "osh_frame h (h\<lparr>output_stream_managers := (output_stream_managers h)[i := m'], downstream := hs', output_errors := e\<rparr>)"
    "osh_frame h (h\<lparr>output_stream_managers := (output_stream_managers h)[i := m'], downstream := hs'\<rparr>)"
  using assms by (simp_all add: osh_frame_def map_update list_update_same_conv)

lemma propagate_output_total:
  assumes "mirrors_ok h" "i < length (output_stream_managers h)" "i < length shards"
  shows "\<exists>shards' h'. propagate_output v t i (shards, h) = Inr (shards', h') \<and> osh_frame h h' \<and> length shards' = length shards"
proof (cases "osm_closed (output_stream_managers h ! i)")
  case False
  define m where "m = output_stream_managers h ! i"
  note mo = mirrors_ok_at [OF assms(1,2), folded m_def]
  from compute_total [of "shards ! i" t m] obtain errs b where c: "ComputeOutputTimestampBound (shards ! i) t m = Inr (errs, b)" by blast
  from propagate_total [of m "downstream h" v b "shards ! i"] mo obtain m1 hs1 where
    p: "PropagateUpdatesToMirrors v b (shards ! i) m (downstream h) = Inr ((shards ! i)\<lparr>output_queue := []\<rparr>, m1, hs1)"
    "mirrors m1 = mirrors m" "\<forall>k. mirror_ok hs1 k = mirror_ok (downstream h) k" by blast
  from close_total [of m1 hs1] p mo obtain m2 hs2 where
    cl: "(if oss_closed (shards ! i) then osm_Close m1 hs1 else Inr (m1, hs1)) = Inr (m2, hs2)"
    "mirrors m2 = mirrors m" "\<forall>k. mirror_ok hs2 k = mirror_ok (downstream h) k" by (cases "oss_closed (shards ! i)") auto
  with False c p(1) assms(3) osh_frame_put(1) [OF assms(2), of m2 hs2 "output_errors h @ errs"] show ?thesis
    by (auto simp: propagate_output_def m_def [symmetric])
qed (simp add: propagate_output_def)

lemma PropagateOutputPackets_total:
  assumes "mirrors_ok h" "length (output_stream_managers h) \<le> length shards"
  shows "\<exists>shards' h'. PropagateOutputPackets v t shards h = Inr (shards', h') \<and> osh_frame h h' \<and> length shards' = length shards"
proof -
  have "\<forall>i \<in> set is'. i < length (output_stream_managers h1) \<Longrightarrow> mirrors_ok h1 \<Longrightarrow> length (output_stream_managers h1) \<le> length sh1 \<Longrightarrow>
    \<exists>shards' h'. run_steps (propagate_output v t) is' (sh1, h1) = Inr (shards', h') \<and> osh_frame h1 h' \<and> length shards' = length sh1" for is' sh1 h1
  proof (induction is' arbitrary: sh1 h1)
    case (Cons i is')
    from propagate_output_total [of h1 i sh1 v t] Cons.prems obtain sh2 h2 where
      s: "propagate_output v t i (sh1, h1) = Inr (sh2, h2)" "osh_frame h1 h2" "length sh2 = length sh1" by auto
    from Cons.IH [of h2 sh2] Cons.prems osh_frame_ok [OF s(2)] osh_frame_length [OF s(2)] s(3) obtain sh3 h3 where
      "run_steps (propagate_output v t) is' (sh2, h2) = Inr (sh3, h3)" "osh_frame h2 h3" "length sh3 = length sh2" by auto
    with s show ?case by (auto intro: osh_frame_trans)
  qed simp
  from this [of "[0 ..< length (output_stream_managers h)]" h shards] assms show ?thesis by (simp add: PropagateOutputPackets_def)
qed

lemma try_bound_total:
  assumes "mirrors_ok h" "i < length (output_stream_managers h)" "IsRangeValue b"
  shows "\<exists>h'. try_bound v b i h = Inr h' \<and> osh_frame h h'"
proof -
  define m where "m = output_stream_managers h ! i"
  note mo = mirrors_ok_at [OF assms(1,2), folded m_def]
  from ts_add_range [OF assms(3), of "spec_offset (output_stream_spec m)"] obtain nb where nb: "ts_add b (spec_offset (output_stream_spec m)) = Inr nb" by blast
  from propagate_total [of m "downstream h" v nb OutputStreamShard_new] mo obtain m1 hs1 where
    p: "PropagateUpdatesToMirrors v nb OutputStreamShard_new m (downstream h) = Inr (OutputStreamShard_new\<lparr>output_queue := []\<rparr>, m1, hs1)"
    "mirrors m1 = mirrors m" "\<forall>k. mirror_ok hs1 k = mirror_ok (downstream h) k" by blast
  with nb osh_frame_put(2) [OF assms(2), of m1 hs1] show ?thesis by (auto simp: try_bound_def m_def [symmetric] Let_def)
qed

lemma TryPropagate_total:
  assumes "mirrors_ok h"
  shows "\<exists>h'. TryPropagateTimestampBound v b h = Inr h' \<and> osh_frame h h'"
proof (cases "IsRangeValue b")
  case True
  have "\<forall>i \<in> set is'. i < length (output_stream_managers h1) \<Longrightarrow> mirrors_ok h1 \<Longrightarrow>
    \<exists>h'. run_steps (try_bound v b) is' h1 = Inr h' \<and> osh_frame h1 h'" for is' h1
  proof (induction is' arbitrary: h1)
    case (Cons i is')
    from try_bound_total [of h1 i b v] Cons.prems True obtain h2 where s: "try_bound v b i h1 = Inr h2" "osh_frame h1 h2" by auto
    from Cons.IH [of h2] Cons.prems osh_frame_ok [OF s(2)] osh_frame_length [OF s(2)] obtain h3 where
      "run_steps (try_bound v b) is' h2 = Inr h3" "osh_frame h2 h3" by auto
    with s show ?case by (auto intro: osh_frame_trans)
  qed simp
  from this [of "[0 ..< length (output_stream_managers h)]" h] assms True show ?thesis by (simp add: TryPropagateTimestampBound_def)
qed (simp add: TryPropagateTimestampBound_def)

section \<open>What the outputs send\<close>

text \<open>
  The usual output of a call with timestamp \<open>t\<close>: at most one packet, at \<open>t\<close> and of the stream's type, and no bound before \<open>t\<close> or
  after its successor.  The streams are open, agree with their mirrors, have no mirror in common and no offset but zero.
\<close>

definition prompt_shard :: "('a packet \<Rightarrow> bool) \<Rightarrow> Timestamp \<Rightarrow> 'a OutputStreamShard \<Rightarrow> bool" where
  "prompt_shard v t o' \<longleftrightarrow> \<not> oss_closed o' \<and> length (output_queue o') \<le> 1 \<and>
     (\<forall>p \<in> set (output_queue o'). v p \<and> \<not> packet_IsEmpty p \<and> pkt_ts p = t) \<and>
     (updated_next_timestamp_bound o' = Unset \<or> t \<le> updated_next_timestamp_bound o' \<and> updated_next_timestamp_bound o' \<le> next_ts t)"

definition outputs_mirrored :: "'a OutputStreamHandler \<Rightarrow> bool" where
  "outputs_mirrored h \<longleftrightarrow> (\<forall>i < length (output_stream_managers h).
     mirrored (output_stream_managers h ! i) (downstream h) \<and>
     (offset_enabled (output_stream_spec (output_stream_managers h ! i)) \<longrightarrow> spec_offset (output_stream_spec (output_stream_managers h ! i)) = 0) \<and>
     (\<forall>j < length (output_stream_managers h). i \<noteq> j \<longrightarrow>
        set (mirrors (output_stream_managers h ! i)) \<inter> set (mirrors (output_stream_managers h ! j)) = {}))"

definition prompt_outputs :: "('a packet \<Rightarrow> bool) \<Rightarrow> 'a OutputStreamHandler \<Rightarrow> bool" where
  "prompt_outputs v h \<longleftrightarrow> outputs_mirrored h \<and>
     (\<forall>x \<in> set (active_contexts (osh_contexts h)). IsRangeValue (fst x) \<and>
        (\<forall>i < length (output_stream_managers h). osm_next_timestamp_bound (output_stream_managers h ! i) \<le> fst x \<and>
           prompt_shard v (fst x) (outputs (snd x) ! i)))"

text \<open>Every mirror of the stream \<open>i\<close> has received what \<open>ps i\<close> lists.\<close>

definition received :: "(nat \<Rightarrow> 'a packet list) \<Rightarrow> 'a OutputStreamHandler \<Rightarrow> 'a OutputStreamHandler \<Rightarrow> bool" where
  "received ps h h' \<longleftrightarrow> (\<forall>i < length (output_stream_managers h). \<forall>k \<in> set (mirrors (output_stream_managers h ! i)).
     ism_queue (stream_at (downstream h') k) = ism_queue (stream_at (downstream h) k) @ ps i)"

lemma received_trans:
  assumes "received ps h h1" "received qs h1 h2" "map mirrors (output_stream_managers h1) = map mirrors (output_stream_managers h)"
  shows "received (\<lambda>i. ps i @ qs i) h h2"
proof -
  have n: "length (output_stream_managers h1) = length (output_stream_managers h)" using assms(3) by (metis length_map)
  moreover have "mirrors (output_stream_managers h1 ! i) = mirrors (output_stream_managers h ! i)" if "i < length (output_stream_managers h)" for i
    using assms(3) that n by (metis nth_map)
  ultimately show ?thesis using assms(1,2) by (simp add: received_def)
qed

lemma range_next:
  assumes "IsRangeValue t"
  shows "t < next_ts t" "Unset < t" "t \<noteq> Unstarted" "IsAllowedInStream t"
  using assms by (cases t; simp add: IsRangeValue_def IsAllowedInStream_def next_ts_eq special_defs; simp add: next_ts_eq special_defs)+

lemma offset_zero:
  assumes "IsRangeValue t" "offset_enabled spec \<longrightarrow> spec_offset spec = 0"
  shows "\<exists>b. offset_bound spec t = Inr b \<and> (b = Unset \<or> t < b \<and> b \<le> next_ts t)"
proof (cases "offset_enabled spec \<and> t = Timestamp.Max")
  case True
  then have "t < PostStream" "PostStream \<le> next_ts t" by (simp_all add: next_ts_eq special_defs)
  with True assms show ?thesis by (auto simp: offset_bound_def special_defs)
next
  case False
  have "t \<noteq> PreStream" "t \<noteq> PostStream" using assms(1) by (auto simp: IsRangeValue_def special_defs)
  moreover have "ts_add (next_ts t) 0 = Inr (next_ts t)" if "t \<noteq> Timestamp.Max"
    using assms(1) that by (cases t) (auto simp: ts_add_def IsRangeValue_def safe_int_def Timestamp_new_def IsSpecialValue_def next_ts_eq special_defs)
  ultimately show ?thesis using assms False range_next [OF assms(1)] by (auto simp: offset_bound_def)
qed

text \<open>The bound computed for such an output.\<close>

lemma prompt_bound:
  assumes "prompt_shard v t o'" "IsRangeValue t" "osm_next_timestamp_bound m \<le> t" "PreStream \<le> osm_next_timestamp_bound m"
    and "offset_enabled (output_stream_spec m) \<longrightarrow> spec_offset (output_stream_spec m) = 0"
  shows "\<exists>b. ComputeOutputTimestampBound o' t m = Inr ([], b) \<and> (b = Unset \<or> b \<le> next_ts t) \<and>
    (b = Unset \<and> output_queue o' = [] \<or> osm_next_timestamp_bound m \<le> b \<and> b \<noteq> Unset \<and>
       (output_queue o' \<noteq> [] \<longrightarrow> next_ts (pkt_ts (last (output_queue o'))) \<le> b)) \<and>
    writable v (osm_next_timestamp_bound m) (output_queue o')"
proof -
  have t: "t < next_ts t" "Unset < t" "t \<noteq> Unstarted" "IsAllowedInStream t" using range_next [OF assms(2)] .
  obtain ib where ib: "offset_bound (output_stream_spec m) t = Inr ib" "ib = Unset \<or> t < ib \<and> ib \<le> next_ts t"
    using offset_zero [OF assms(2,5)] by blast
  have q: "output_queue o' = [] \<or> (\<exists>p. output_queue o' = [p] \<and> v p \<and> \<not> packet_IsEmpty p \<and> pkt_ts p = t)"
    using assms(1) by (cases "output_queue o'") (auto simp: prompt_shard_def)
  then have "writable v (osm_next_timestamp_bound m) (output_queue o')" using assms(2,3) by (auto simp: writable_def queue_sorted_def)
  moreover define near where "near x \<longleftrightarrow> x = Unset \<or> t \<le> x \<and> x \<le> next_ts t" for x
  have near_max: "near x \<Longrightarrow> near y \<Longrightarrow> near (max x y)" for x y using t(2) by (auto simp: near_def max_def)
  define b2 where "b2 = max (if oss_next_timestamp_bound o' < ib then max Unset ib else Unset) (updated_next_timestamp_bound o')"
  have "near ib" "near Unset" "near (updated_next_timestamp_bound o')" using ib(2) assms(1) by (auto simp: near_def prompt_shard_def)
  then have n2: "near b2" unfolding b2_def by (simp add: near_max)
  define b where "b = (if output_queue o' \<noteq> [] then max b2 (next_ts t) else b2)"
  have "ComputeOutputTimestampBound o' t m = Inr ([], b)"
    using q t ib(1) by (auto simp: ComputeOutputTimestampBound_def LastAddedPacketTimestamp_def b_def b2_def Let_def)
  moreover have "near (next_ts t)" using t(1) by (simp add: near_def less_imp_le)
  then have "near b" using n2 by (simp add: b_def near_max)
  moreover have "output_queue o' \<noteq> [] \<Longrightarrow> b = next_ts t" using n2 t by (auto simp: b_def near_def max_def)
  ultimately show ?thesis using q t assms(3) by (intro exI [of _ b]) (auto simp: near_def)
qed

text \<open>One stream, all the streams of a call, and the bound.\<close>

definition stays_open :: "('a packet \<Rightarrow> bool) \<Rightarrow> nat \<Rightarrow> 'a packet list \<Rightarrow> Timestamp \<Rightarrow> 'a OutputStreamHandler \<Rightarrow> 'a OutputStreamHandler \<Rightarrow> bool" where
  "stays_open v i ps bound h h' \<longleftrightarrow> osh_frame h h' \<and> outputs_mirrored h' \<and>
     osm_next_timestamp_bound (output_stream_managers h' ! i) \<le> bound \<and>
     received (\<lambda>j. if j = i then ps else []) h h' \<and>
     (\<forall>j < length (output_stream_managers h). j \<noteq> i \<longrightarrow> output_stream_managers h' ! j = output_stream_managers h ! j)"

definition osm_frame_open :: "nat list \<Rightarrow> Timestamp \<Rightarrow> 'a OutputStreamHandler \<Rightarrow> 'a OutputStreamHandler \<Rightarrow> bool" where
  "osm_frame_open is' bound h h' \<longleftrightarrow> osh_frame h h' \<and> outputs_mirrored h' \<and>
     (\<forall>i < length (output_stream_managers h).
        if i \<in> set is' then osm_next_timestamp_bound (output_stream_managers h' ! i) \<le> bound
        else output_stream_managers h' ! i = output_stream_managers h ! i)"

lemma PropagateUpdates_manager:
  "PropagateUpdatesToMirrors v b o' m hs = Inr (o1, m', hs') \<Longrightarrow> m' = (if b \<noteq> Unset then m\<lparr>osm_next_timestamp_bound := b\<rparr> else m)"
  by (auto simp: PropagateUpdatesToMirrors_def update_mirrors_def Let_def split: sum.splits)

text \<open>A propagation of the stream \<open>i\<close> with a bound that its mirrors accept.\<close>

lemma propagate_stays_open:
  fixes h :: "'a OutputStreamHandler"
  assumes "outputs_mirrored h" "i < length (output_stream_managers h)"
    and m: "m = output_stream_managers h ! i"
    and "writable v (osm_next_timestamp_bound m) (output_queue o')"
    and b: "b = Unset \<and> output_queue o' = [] \<or> osm_next_timestamp_bound m \<le> b \<and> b \<noteq> Unset \<and>
      (output_queue o' \<noteq> [] \<longrightarrow> next_ts (pkt_ts (last (output_queue o'))) \<le> b)"
    and bound: "osm_next_timestamp_bound m \<le> bound" "b = Unset \<or> b \<le> bound"
  shows "\<exists>m' hs'. PropagateUpdatesToMirrors v b o' m (downstream h) = Inr (o'\<lparr>output_queue := []\<rparr>, m', hs') \<and>
    stays_open v i (output_queue o') bound h (h\<lparr>output_stream_managers := (output_stream_managers h)[i := m'], downstream := hs'\<rparr>)"
proof -
  have mir: "mirrored m (downstream h)" using assms(1,2) by (simp add: m outputs_mirrored_def)
  from propagate_mirrored [OF mir assms(4) b] obtain m' hs' where
    r: "PropagateUpdatesToMirrors v b o' m (downstream h) = Inr (o'\<lparr>output_queue := []\<rparr>, m', hs')" "mirrored m' hs'" "mirrors m' = mirrors m"
    "osm_next_timestamp_bound m' = (if b = Unset then osm_next_timestamp_bound m else b)"
    "\<forall>k \<in> set (mirrors m). ism_queue (stream_at hs' k) = ism_queue (stream_at (downstream h) k) @ output_queue o'"
    "\<forall>k. mirror_ok (downstream h) k \<and> k \<notin> set (mirrors m) \<longrightarrow> stream_at hs' k = stream_at (downstream h) k" by blast
  have ok: "\<forall>k. mirror_ok hs' k = mirror_ok (downstream h) k"
    using propagate_total [of m "downstream h" v b o'] mir r(1) by (auto simp: mirrored_def)
  have spec: "output_stream_spec m' = output_stream_spec m" using PropagateUpdates_manager [OF r(1)] by simp
  have other: "stream_at hs' k = stream_at (downstream h) k"
    if "j < length (output_stream_managers h)" "j \<noteq> i" "k \<in> set (mirrors (output_stream_managers h ! j))" for j k
  proof -
    have "k \<notin> set (mirrors m)" "mirror_ok (downstream h) k" using assms(1,2) that by (auto simp: m outputs_mirrored_def mirrored_def)
    with r(6) show ?thesis by blast
  qed
  have "mirrored (output_stream_managers h ! j) hs'" if "j < length (output_stream_managers h)" "j \<noteq> i" for j
  proof -
    have "mirrored (output_stream_managers h ! j) (downstream h)" using assms(1) that(1) by (simp add: outputs_mirrored_def)
    then show ?thesis using other [OF that] ok [rule_format] unfolding mirrored_def by metis
  qed
  then have "outputs_mirrored (h\<lparr>output_stream_managers := (output_stream_managers h)[i := m'], downstream := hs'\<rparr>)"
    using assms(1,2) r(2,3) spec by (simp add: outputs_mirrored_def nth_list_update m)
  moreover have "received (\<lambda>j. if j = i then output_queue o' else []) h
      (h\<lparr>output_stream_managers := (output_stream_managers h)[i := m'], downstream := hs'\<rparr>)"
    using r(5) other by (auto simp: received_def m)
  ultimately have "stays_open v i (output_queue o') bound h
      (h\<lparr>output_stream_managers := (output_stream_managers h)[i := m'], downstream := hs'\<rparr>)"
    using osh_frame_put(2) [OF assms(2), of m' hs'] r(3,4) ok bound assms(2) by (auto simp: stays_open_def m)
  with r(1) show ?thesis by blast
qed

lemma propagate_output_sends:
  assumes "outputs_mirrored h" "i < length (output_stream_managers h)" "i < length shards" "IsRangeValue t"
    and "prompt_shard v t (shards ! i)" "osm_next_timestamp_bound (output_stream_managers h ! i) \<le> t"
  shows "\<exists>shards' h'. propagate_output v t i (shards, h) = Inr (shards', h') \<and> length shards' = length shards \<and>
    (\<forall>j. j \<noteq> i \<longrightarrow> shards' ! j = shards ! j) \<and> stays_open v i (output_queue (shards ! i)) (next_ts t) h h'"
proof -
  define m where "m = output_stream_managers h ! i"
  have m: "\<not> osm_closed m" "PreStream \<le> osm_next_timestamp_bound m"
    "offset_enabled (output_stream_spec m) \<longrightarrow> spec_offset (output_stream_spec m) = 0"
    using assms(1,2) by (auto simp: m_def outputs_mirrored_def mirrored_def)
  from prompt_bound [OF assms(5,4) assms(6) [folded m_def] m(2,3)] obtain b where
    c: "ComputeOutputTimestampBound (shards ! i) t m = Inr ([], b)" "b = Unset \<or> b \<le> next_ts t"
    "b = Unset \<and> output_queue (shards ! i) = [] \<or> osm_next_timestamp_bound m \<le> b \<and> b \<noteq> Unset \<and>
       (output_queue (shards ! i) \<noteq> [] \<longrightarrow> next_ts (pkt_ts (last (output_queue (shards ! i)))) \<le> b)"
    "writable v (osm_next_timestamp_bound m) (output_queue (shards ! i))" by blast
  have "osm_next_timestamp_bound m \<le> next_ts t" using assms(6) range_next(1) [OF assms(4)] by (simp add: m_def)
  from propagate_stays_open [OF assms(1,2) m_def c(4,3) this c(2)] obtain m' hs' where
    p: "PropagateUpdatesToMirrors v b (shards ! i) m (downstream h) = Inr ((shards ! i)\<lparr>output_queue := []\<rparr>, m', hs')"
    "stays_open v i (output_queue (shards ! i)) (next_ts t) h
       (h\<lparr>output_stream_managers := (output_stream_managers h)[i := m'], downstream := hs'\<rparr>)" by blast
  have "\<not> oss_closed (shards ! i)" using assms(5) by (simp add: prompt_shard_def)
  moreover have "h\<lparr>output_stream_managers := ms, downstream := hs, output_errors := output_errors h @ []\<rparr> =
      h\<lparr>output_stream_managers := ms, downstream := hs\<rparr>" for ms hs by (cases h) simp
  ultimately show ?thesis using m(1) c(1) p assms(3) by (simp add: propagate_output_def m_def [symmetric])
qed

lemma run_sends:
  assumes "distinct is'" "set is' \<subseteq> {..< length (output_stream_managers h)}" "outputs_mirrored h" "IsRangeValue t"
    and "length (output_stream_managers h) \<le> length shards"
    and "\<forall>i \<in> set is'. prompt_shard v t (shards ! i) \<and> osm_next_timestamp_bound (output_stream_managers h ! i) \<le> t"
  shows "\<exists>shards' h'. run_steps (propagate_output v t) is' (shards, h) = Inr (shards', h') \<and> osm_frame_open is' (next_ts t) h h' \<and>
    received (\<lambda>i. if i \<in> set is' then output_queue (shards ! i) else []) h h'"
  using assms
proof (induction is' arbitrary: shards h)
  case Nil
  then show ?case by (simp add: osm_frame_open_def received_def)
next
  case (Cons i is')
  from propagate_output_sends [of h i shards t v] Cons.prems obtain sh1 h1 where
    s1: "propagate_output v t i (shards, h) = Inr (sh1, h1)" "length sh1 = length shards" "\<forall>j. j \<noteq> i \<longrightarrow> sh1 ! j = shards ! j"
    "stays_open v i (output_queue (shards ! i)) (next_ts t) h h1" by auto
  then have f: "osh_frame h h1" "outputs_mirrored h1" "length (output_stream_managers h1) = length (output_stream_managers h)"
    by (auto simp: stays_open_def osh_frame_length)
  have keep: "sh1 ! j = shards ! j \<and> output_stream_managers h1 ! j = output_stream_managers h ! j" if "j \<in> set is'" for j
    using that s1(3,4) Cons.prems(1,2) by (auto simp: stays_open_def)
  from Cons.IH [of h1 sh1] Cons.prems keep f s1(2) obtain sh2 h2 where
    s2: "run_steps (propagate_output v t) is' (sh1, h1) = Inr (sh2, h2)" "osm_frame_open is' (next_ts t) h1 h2"
    "received (\<lambda>i. if i \<in> set is' then output_queue (sh1 ! i) else []) h1 h2" by auto
  have "received (\<lambda>j. (if j = i then output_queue (shards ! i) else []) @ (if j \<in> set is' then output_queue (sh1 ! j) else [])) h h2"
    using received_trans [OF _ s2(3)] s1(4) by (simp add: stays_open_def osh_frame_def)
  moreover have "(\<lambda>j. (if j = i then output_queue (shards ! i) else []) @ (if j \<in> set is' then output_queue (sh1 ! j) else [])) =
      (\<lambda>j. if j \<in> set (i # is') then output_queue (shards ! j) else [])"
    using Cons.prems(1) keep by (auto simp: fun_eq_iff)
  moreover have "osm_frame_open (i # is') (next_ts t) h h2"
    using s1(4) s2(2) f Cons.prems(1,2) by (auto simp: osm_frame_open_def stays_open_def intro: osh_frame_trans)
  ultimately show ?case using s1(1) s2(1) by simp
qed

lemma PropagateOutputPackets_sends:
  assumes "prompt_outputs v h" "active_contexts (osh_contexts h) = (t, c) # rest" "length (output_stream_managers h) \<le> length (outputs c)"
  shows "\<exists>shards h'. PropagateOutputPackets v t (outputs c) h = Inr (shards, h') \<and> osh_frame h h' \<and> outputs_mirrored h' \<and>
    (\<forall>i < length (output_stream_managers h). osm_next_timestamp_bound (output_stream_managers h' ! i) \<le> next_ts t) \<and>
    received (\<lambda>i. output_queue (outputs c ! i)) h h'"
proof -
  have "\<exists>shards h'. PropagateOutputPackets v t (outputs c) h = Inr (shards, h') \<and>
      osm_frame_open [0 ..< length (output_stream_managers h)] (next_ts t) h h' \<and>
      received (\<lambda>i. if i \<in> set [0 ..< length (output_stream_managers h)] then output_queue (outputs c ! i) else []) h h'"
    unfolding PropagateOutputPackets_def using assms by (intro run_sends) (auto simp: prompt_outputs_def)
  then show ?thesis by (auto simp: osm_frame_open_def received_def)
qed

text \<open>Propagating a bound sends no packet.\<close>

lemma try_bound_quiet:
  assumes "outputs_mirrored h" "i < length (output_stream_managers h)" "IsRangeValue b"
  shows "\<exists>h'. try_bound v b i h = Inr h' \<and> osh_frame h h' \<and> outputs_mirrored h' \<and> received (\<lambda>_. []) h h'"
proof -
  define m where "m = output_stream_managers h ! i"
  from ts_add_range [OF assms(3), of "spec_offset (output_stream_spec m)"] obtain nb where nb: "ts_add b (spec_offset (output_stream_spec m)) = Inr nb" by blast
  show ?thesis
  proof (cases "offset_enabled (output_stream_spec m) \<and> osm_next_timestamp_bound m < nb")
    case True
    have "PreStream \<le> osm_next_timestamp_bound m" using assms(1,2) by (auto simp: m_def outputs_mirrored_def mirrored_def)
    with True have "PreStream < nb" by auto
    then have "nb \<noteq> Unset" by (auto simp: special_defs)
    with True propagate_stays_open [OF assms(1,2) m_def, of v OutputStreamShard_new nb nb] obtain m' hs' where
      p: "PropagateUpdatesToMirrors v nb OutputStreamShard_new m (downstream h) = Inr (OutputStreamShard_new\<lparr>output_queue := []\<rparr>, m', hs')"
      "stays_open v i [] nb h (h\<lparr>output_stream_managers := (output_stream_managers h)[i := m'], downstream := hs'\<rparr>)"
      by (auto simp: OutputStreamShard_new_def writable_def queue_sorted_def less_imp_le)
    have "\<not> osm_closed m" using assms(1,2) by (auto simp: m_def outputs_mirrored_def mirrored_def)
    with True nb p show ?thesis by (auto simp: try_bound_def m_def [symmetric] Let_def stays_open_def)
  next
    case False
    then have "try_bound v b i h = Inr h" using nb by (auto simp: try_bound_def m_def [symmetric] Let_def)
    with assms(1) show ?thesis by (simp add: received_def)
  qed
qed

lemma TryPropagate_quiet:
  assumes "outputs_mirrored h" "TryPropagateTimestampBound v b h = Inr h'"
  shows "outputs_mirrored h' \<and> received (\<lambda>_. []) h h'"
proof -
  have "\<forall>i \<in> set is'. i < length (output_stream_managers h1) \<Longrightarrow> outputs_mirrored h1 \<Longrightarrow> IsRangeValue b \<Longrightarrow>
    run_steps (try_bound v b) is' h1 = Inr h' \<Longrightarrow> outputs_mirrored h' \<and> received (\<lambda>_. []) h1 h'" for is' h1
  proof (induction is' arbitrary: h1)
    case (Cons i is')
    from try_bound_quiet [of h1 i b v] Cons.prems obtain h2 where
      s: "try_bound v b i h1 = Inr h2" "osh_frame h1 h2" "outputs_mirrored h2" "received (\<lambda>_. []) h1 h2" by auto
    with Cons.IH [of h2] Cons.prems osh_frame_length [OF s(2)] have "outputs_mirrored h' \<and> received (\<lambda>_. []) h2 h'" by simp
    with received_trans [OF s(4)] s(2) show ?case by (force simp: osh_frame_def)
  qed (simp add: received_def)
  from this [of "[0 ..< length (output_stream_managers h)]" h] assms show ?thesis
    by (cases "IsRangeValue b") (auto simp: TryPropagateTimestampBound_def received_def)
qed

section \<open>The order of the outputs\<close>

definition front_keys :: "'a OutputStreamHandler \<Rightarrow> Timestamp list" where
  "front_keys h = map fst (active_contexts (osh_contexts h))"

text \<open>
  Calls are in parallel, each with its context; the completed ones are among them; every context has a shard per output
  stream.
\<close>

definition in_order_inv :: "'a OutputStreamHandler \<Rightarrow> bool" where
  "in_order_inv h \<longleftrightarrow> calculator_run_in_parallel (osh_contexts h) \<and> mirrors_ok h \<and> sorted_wrt (<) (front_keys h) \<and>
     sorted_wrt (<) (completed_input_timestamps h) \<and> set (completed_input_timestamps h) \<subseteq> set (front_keys h) \<and>
     (\<forall>c \<in> set (active_contexts (osh_contexts h)). length (output_stream_managers h) \<le> length (outputs (snd c)))"

lemma in_order_frame:
  "osh_frame h h' \<Longrightarrow> in_order_inv h \<Longrightarrow> in_order_inv h'"
  using osh_frame_ok [of h h'] osh_frame_length [of h h'] by (simp add: in_order_inv_def osh_frame_def front_keys_def)

lemma in_order_state [simp]: "in_order_inv (h\<lparr>propagation_state := s\<rparr>) = in_order_inv h"
  by (simp add: in_order_inv_def mirrors_ok_def front_keys_def)

text \<open>Propagating the bound ends the loop when nobody interferes.\<close>

lemma bound_round:
  assumes "in_order_inv h" "propagation_state h = kPropagatingBound"
  shows "\<exists>h'. propagation_while v ctx h = Some (Inr (h'\<lparr>propagation_state := kIdle\<rparr>)) \<and> osh_frame h h' \<and>
    (outputs_mirrored h \<longrightarrow> outputs_mirrored h' \<and> received (\<lambda>_. []) h h')"
proof -
  from assms(1) have "mirrors_ok h" by (simp add: in_order_inv_def)
  from TryPropagate_total [OF this, of v "task_timestamp_bound h"] obtain h1 where
    h1: "TryPropagateTimestampBound v (task_timestamp_bound h) h = Inr h1" "osh_frame h h1" by blast
  moreover from h1(2) assms(2) have "propagation_state h1 = kPropagatingBound" by (simp add: osh_frame_def)
  moreover have "outputs_mirrored h \<longrightarrow> outputs_mirrored h1 \<and> received (\<lambda>_. []) h h1" using TryPropagate_quiet [OF _ h1(1)] by blast
  ultimately show ?thesis using assms(2)
    by (auto simp: propagation_while.simps [of v ctx h] propagation_while.simps [of v ctx "h1\<lparr>propagation_state := kIdle\<rparr>"] propagation_round_def
        PropagationBound_def bound_locked_def)
qed

text \<open>One round for the front context: it is recycled, last among the idle ones.\<close>

lemma packets_round:
  assumes inv: "in_order_inv h" and act: "active_contexts (osh_contexts h) = (k, c) # rest" and cmp: "completed_input_timestamps h = k # cs"
  shows "\<exists>h1 shards. packets_unlocked v k (ActiveContext k) h = Inr h1 \<and> completed_input_timestamps h1 = k # cs \<and>
    propagation_state h1 = propagation_state h \<and> active_contexts (osh_contexts h1) = rest \<and>
    idle_contexts (osh_contexts h1) = idle_contexts (osh_contexts h) @ [c\<lparr>outputs := shards\<rparr>] \<and>
    task_timestamp_bound h1 = task_timestamp_bound h \<and> in_order_inv (h1\<lparr>completed_input_timestamps := cs\<rparr>) \<and>
    map mirrors (output_stream_managers h1) = map mirrors (output_stream_managers h) \<and>
    (prompt_outputs v h \<longrightarrow> prompt_outputs v h1 \<and> received (\<lambda>i. output_queue (outputs c ! i)) h h1)"
proof -
  have "mirrors_ok h" "length (output_stream_managers h) \<le> length (outputs c)" using inv act by (auto simp: in_order_inv_def)
  from PropagateOutputPackets_total [OF this, of v k] obtain shards h1 where
    h1: "PropagateOutputPackets v k (outputs c) h = Inr (shards, h1)" "osh_frame h h1" by blast
  have keys: "sorted_wrt (<) (k # map fst rest)" "sorted_wrt (<) (k # cs)" "set (k # cs) \<subseteq> set (k # map fst rest)"
    using inv act cmp by (simp_all add: in_order_inv_def front_keys_def)
  have ctx: "osh_contexts h1 = osh_contexts h" "completed_input_timestamps h1 = k # cs" using h1(2) cmp by (simp_all add: osh_frame_def)
  have notin: "map (\<lambda>(u, d). (u, if u = k then x else d)) rest = rest" for x :: "'a CalculatorContext"
    using keys(1) by (auto intro!: map_idI)
  define h2 where "h2 = h1\<lparr>osh_contexts := (osh_contexts h)\<lparr>idle_contexts := idle_contexts (osh_contexts h) @ [c\<lparr>outputs := shards\<rparr>], active_contexts := rest\<rparr>\<rparr>"
  have "packets_unlocked v k (ActiveContext k) h = Inr h2"
    using act h1(1) ctx notin by (simp add: packets_unlocked_def ctx_get_def ctx_put_def RecycleCalculatorContext_def h2_def)
  moreover have "in_order_inv (h2\<lparr>completed_input_timestamps := cs\<rparr>)"
  proof -
    have "set cs \<subseteq> set (map fst rest)" using keys(2,3) by auto
    with keys inv act osh_frame_ok [OF h1(2)] osh_frame_length [OF h1(2)] show ?thesis
      by (auto simp: in_order_inv_def h2_def front_keys_def mirrors_ok_def)
  qed
  moreover have "prompt_outputs v h \<longrightarrow> prompt_outputs v h2 \<and> received (\<lambda>i. output_queue (outputs c ! i)) h h2"
  proof
    assume p: "prompt_outputs v h"
    from PropagateOutputPackets_sends [OF p act] inv act h1(1) have
      s: "outputs_mirrored h1" "received (\<lambda>i. output_queue (outputs c ! i)) h h1"
      "\<forall>i < length (output_stream_managers h). osm_next_timestamp_bound (output_stream_managers h1 ! i) \<le> next_ts k"
      by (auto simp: in_order_inv_def)
    have "next_ts k \<le> fst x" if "x \<in> set rest" for x
      using that p act keys(1) by (intro next_le_range) (auto simp: prompt_outputs_def)
    then show "prompt_outputs v h2 \<and> received (\<lambda>i. output_queue (outputs c ! i)) h h2"
      using p act s osh_frame_length [OF h1(2)]
      by (fastforce simp: prompt_outputs_def outputs_mirrored_def received_def h2_def intro: order_trans)
  qed
  ultimately show ?thesis using ctx h1(2) by (intro exI [of _ h2] exI [of _ shards]) (simp add: h2_def osh_frame_def)
qed

text \<open>What the loop releases: the longest prefix of the active contexts that are completed, in order; and what that sends.\<close>

definition released :: "'a OutputStreamHandler \<Rightarrow> (Timestamp \<times> 'a CalculatorContext) list" where
  "released h = takeWhile (\<lambda>x. fst x \<in> set (completed_input_timestamps h)) (active_contexts (osh_contexts h))"

definition releases :: "'a OutputStreamHandler \<Rightarrow> 'a OutputStreamHandler \<Rightarrow> bool" where
  "releases h h' \<longleftrightarrow>
     active_contexts (osh_contexts h) = released h @ active_contexts (osh_contexts h') \<and>
     completed_input_timestamps h = map fst (released h) @ completed_input_timestamps h' \<and>
     map input_timestamps (idle_contexts (osh_contexts h')) =
       map input_timestamps (idle_contexts (osh_contexts h)) @ map (input_timestamps \<circ> snd) (released h)"

definition sends :: "('a packet \<Rightarrow> bool) \<Rightarrow> 'a OutputStreamHandler \<Rightarrow> 'a OutputStreamHandler \<Rightarrow> bool" where
  "sends v h h' \<longleftrightarrow> (prompt_outputs v h \<longrightarrow> prompt_outputs v h' \<and>
     received (\<lambda>i. concat (map (\<lambda>x. output_queue (outputs (snd x) ! i)) (released h))) h h')"

lemma sends_states [simp]:
  "outputs_mirrored (h\<lparr>propagation_state := s\<rparr>) = outputs_mirrored h" "outputs_mirrored (h\<lparr>completed_input_timestamps := ts\<rparr>) = outputs_mirrored h"
  "prompt_outputs v (h\<lparr>propagation_state := s\<rparr>) = prompt_outputs v h" "prompt_outputs v (h\<lparr>completed_input_timestamps := ts\<rparr>) = prompt_outputs v h"
  "received ps h (h'\<lparr>propagation_state := s\<rparr>) = received ps h h'" "received ps h (h'\<lparr>completed_input_timestamps := ts\<rparr>) = received ps h h'"
  "received ps (h\<lparr>propagation_state := s\<rparr>) h' = received ps h h'" "received ps (h\<lparr>completed_input_timestamps := ts\<rparr>) h' = received ps h h'"
  "released (h\<lparr>propagation_state := s\<rparr>) = released h"
  by (simp_all add: outputs_mirrored_def prompt_outputs_def received_def released_def)

lemma hd_of_sorted_subset:
  fixes k :: Timestamp
  assumes "sorted_wrt (<) (k # ks)" "sorted_wrt (<) cs" "set cs \<subseteq> insert k (set ks)"
  shows "k \<in> set cs \<longleftrightarrow> cs \<noteq> [] \<and> k = hd cs"
proof (cases cs)
  case (Cons a as')
  with assms have "a = k \<or> k < a" "\<forall>x \<in> set as'. a < x" by auto
  then have "k \<notin> set as'" by (auto dest: bspec order.asym)
  with Cons show ?thesis by auto
qed simp

lemma front_completed:
  assumes "in_order_inv h" "active_contexts (osh_contexts h) = (k, c) # rest"
  shows "k \<in> set (completed_input_timestamps h) \<longleftrightarrow> completed_input_timestamps h \<noteq> [] \<and> k = hd (completed_input_timestamps h)"
  using assms hd_of_sorted_subset [of k "map fst rest" "completed_input_timestamps h"] by (simp add: in_order_inv_def front_keys_def)

lemma has_active: "in_order_inv h \<Longrightarrow> HasActiveContexts (osh_contexts h) \<longleftrightarrow> active_contexts (osh_contexts h) \<noteq> []"
  by (simp add: in_order_inv_def HasActiveContexts_def)

lemma get_front:
  "in_order_inv h \<Longrightarrow> active_contexts (osh_contexts h) = (k, c) # rest \<Longrightarrow>
    GetFrontCalculatorContext (osh_contexts h) = Inr (k, ActiveContext k)"
  by (simp add: in_order_inv_def GetFrontCalculatorContext_def)

lemma released_nothing:
  assumes "in_order_inv h" and "completed_input_timestamps h = [] \<or> active_contexts (osh_contexts h) = [] \<or>
    fst (hd (active_contexts (osh_contexts h))) \<noteq> hd (completed_input_timestamps h)"
  shows "released h = []"
proof (cases "active_contexts (osh_contexts h)")
  case (Cons x rest)
  then show ?thesis using assms front_completed [of h "fst x" "snd x" rest] by (auto simp: released_def)
qed (simp add: released_def)

lemma releases_nothing: "released h = [] \<Longrightarrow> releases h h \<and> sends v h h"
  by (simp add: releases_def sends_def received_def)

text \<open>The release of the front context, then what the loop releases after it.\<close>

lemma releases_Cons:
  assumes inv: "in_order_inv h" and act: "active_contexts (osh_contexts h) = (k, c) # rest" and cmp: "completed_input_timestamps h = k # cs"
    and h1: "active_contexts (osh_contexts h1) = rest" "completed_input_timestamps h1 = cs"
      "idle_contexts (osh_contexts h1) = idle_contexts (osh_contexts h) @ [c\<lparr>outputs := shards\<rparr>]"
      "map mirrors (output_stream_managers h1) = map mirrors (output_stream_managers h)"
      "prompt_outputs v h \<longrightarrow> prompt_outputs v h1 \<and> received (\<lambda>i. output_queue (outputs c ! i)) h h1"
    and h': "releases h1 h'" "sends v h1 h'"
  shows "releases h h' \<and> sends v h h'"
proof -
  have "k \<notin> fst ` set rest" using inv act by (auto simp: in_order_inv_def front_keys_def)
  then have "takeWhile (\<lambda>x. fst x \<in> set (k # cs)) rest = takeWhile (\<lambda>x. fst x \<in> set cs) rest"
    by (intro takeWhile_cong) (auto simp: image_iff)
  then have rel: "released h = (k, c) # released h1" using act cmp h1 by (simp add: released_def)
  have "releases h h'" using h'(1) act cmp h1 rel by (simp add: releases_def)
  moreover have "sends v h h'"
    unfolding sends_def
  proof
    assume p: "prompt_outputs v h"
    with h1(5) have p1: "prompt_outputs v h1" "received (\<lambda>i. output_queue (outputs c ! i)) h h1" by blast+
    with h'(2) have p2: "prompt_outputs v h'"
      "received (\<lambda>i. concat (map (\<lambda>x. output_queue (outputs (snd x) ! i)) (released h1))) h1 h'" by (simp_all add: sends_def)
    from received_trans [OF p1(2) p2(2) h1(4)] p2(1) rel
    show "prompt_outputs v h' \<and> received (\<lambda>i. concat (map (\<lambda>x. output_queue (outputs (snd x) ! i)) (released h))) h h'" by simp
  qed
  ultimately show ?thesis by blast
qed

text \<open>Propagating the bound after it, when no call is active, changes none of this.\<close>

lemma releases_bound:
  assumes "releases h h1" "sends v h h1" "active_contexts (osh_contexts h1) = []"
    and "osh_frame h1 h'" "outputs_mirrored h1 \<longrightarrow> outputs_mirrored h' \<and> received (\<lambda>_. []) h1 h'"
    and "map mirrors (output_stream_managers h1) = map mirrors (output_stream_managers h)"
  shows "releases h h' \<and> sends v h h'"
proof -
  have "releases h h'" using assms(1,4) by (simp add: releases_def osh_frame_def)
  moreover have "sends v h h'"
    unfolding sends_def
  proof
    assume "prompt_outputs v h"
    with assms(2) have p: "prompt_outputs v h1"
      "received (\<lambda>i. concat (map (\<lambda>x. output_queue (outputs (snd x) ! i)) (released h))) h h1" by (simp_all add: sends_def)
    then have m: "outputs_mirrored h'" "received (\<lambda>_. []) h1 h'" using assms(5) by (auto simp: prompt_outputs_def)
    have "prompt_outputs v h'" using m(1) assms(3,4) by (simp add: prompt_outputs_def osh_frame_def)
    with received_trans [OF p(2) m(2) assms(6)]
    show "prompt_outputs v h' \<and> received (\<lambda>i. concat (map (\<lambda>x. output_queue (outputs (snd x) ! i)) (released h))) h h'" by simp
  qed
  ultimately show ?thesis by blast
qed

lemma idle_while: "propagation_state h = kIdle \<Longrightarrow> propagation_while v ctx h = Some (Inr h)"
  by (simp add: propagation_while.simps)

lemma packets_while:
  "in_order_inv h \<Longrightarrow> propagation_state h = kPropagatingPackets \<Longrightarrow> active_contexts (osh_contexts h) = (k, c) # rest \<Longrightarrow>
   completed_input_timestamps h = k # cs \<Longrightarrow>
   \<exists>h'. propagation_while v (Some (k, ActiveContext k)) h = Some (Inr h') \<and> propagation_state h' = kIdle \<and> in_order_inv h' \<and>
     releases h h' \<and> sends v h h'"
proof (induction rest arbitrary: k c cs h)
  case (Nil k c cs h)
  from packets_round [OF Nil.prems(1,3,4), of v] obtain h1 shards where
    h1: "packets_unlocked v k (ActiveContext k) h = Inr h1" "completed_input_timestamps h1 = k # cs" "active_contexts (osh_contexts h1) = []"
    "idle_contexts (osh_contexts h1) = idle_contexts (osh_contexts h) @ [c\<lparr>outputs := shards\<rparr>]"
    "in_order_inv (h1\<lparr>completed_input_timestamps := cs\<rparr>)" "map mirrors (output_stream_managers h1) = map mirrors (output_stream_managers h)"
    "prompt_outputs v h \<longrightarrow> prompt_outputs v h1 \<and> received (\<lambda>i. output_queue (outputs c ! i)) h h1" by blast
  have cs: "cs = []" using h1(3,5) by (simp add: in_order_inv_def front_keys_def)
  define h2 where "h2 = h1\<lparr>completed_input_timestamps := [],
    propagation_state := (if task_timestamp_bound h1 \<le> next_ts k then kIdle else kPropagatingBound)\<rparr>"
  have "propagation_while v (Some (k, ActiveContext k)) h = propagation_while v (Some (k, ActiveContext k)) h2"
    using Nil.prems(2) h1 cs has_active [OF h1(5)]
    by (simp add: propagation_while.simps [of v _ h] propagation_round_def PropagatePackets_def packets_locked_def Let_def h2_def)
  moreover have inv2: "in_order_inv h2" using h1(5) cs by (simp add: h2_def)
  moreover have rel: "releases h h2 \<and> sends v h h2"
    using h1 cs inv2 by (intro releases_Cons [OF Nil.prems(1,3,4), of h2 shards]) (simp_all add: h2_def releases_nothing released_nothing)
  ultimately show ?case
  proof (cases "propagation_state h2 = kIdle")
    case False
    then have "propagation_state h2 = kPropagatingBound" by (simp add: h2_def split: if_splits)
    from bound_round [OF inv2 this, of v "Some (k, ActiveContext k)"] obtain h3 where
      h3: "propagation_while v (Some (k, ActiveContext k)) h2 = Some (Inr (h3\<lparr>propagation_state := kIdle\<rparr>))" "osh_frame h2 h3"
      "outputs_mirrored h2 \<longrightarrow> outputs_mirrored h3 \<and> received (\<lambda>_. []) h2 h3" by blast
    have "releases h h3 \<and> sends v h h3"
      using rel h1(3,6) h3(2,3) by (intro releases_bound [of h h2]) (simp_all add: h2_def)
    then have "releases h (h3\<lparr>propagation_state := kIdle\<rparr>) \<and> sends v h (h3\<lparr>propagation_state := kIdle\<rparr>)"
      by (simp add: releases_def sends_def)
    with h3 in_order_frame [OF h3(2) inv2] \<open>propagation_while v _ h = _\<close> show ?thesis by simp
  qed (use inv2 rel in \<open>auto simp: idle_while\<close>)
next
  case (Cons x rest k c cs h)
  obtain k' c' where x: "x = (k', c')" by (cases x)
  from packets_round [OF Cons.prems(1,3,4), of v] obtain h1 shards where
    h1: "packets_unlocked v k (ActiveContext k) h = Inr h1" "completed_input_timestamps h1 = k # cs" "propagation_state h1 = propagation_state h"
    "active_contexts (osh_contexts h1) = (k', c') # rest"
    "idle_contexts (osh_contexts h1) = idle_contexts (osh_contexts h) @ [c\<lparr>outputs := shards\<rparr>]"
    "in_order_inv (h1\<lparr>completed_input_timestamps := cs\<rparr>)" "map mirrors (output_stream_managers h1) = map mirrors (output_stream_managers h)"
    "prompt_outputs v h \<longrightarrow> prompt_outputs v h1 \<and> received (\<lambda>i. output_queue (outputs c ! i)) h h1" unfolding x by blast
  define go where "go \<longleftrightarrow> cs \<noteq> [] \<and> k' = hd cs"
  define h2 where "h2 = (if go then h1\<lparr>completed_input_timestamps := cs\<rparr> else h1\<lparr>completed_input_timestamps := cs, propagation_state := kIdle\<rparr>)"
  have inv2: "in_order_inv h2" using h1(6) by (simp add: h2_def)
  have a2: "active_contexts (osh_contexts h2) = (k', c') # rest" "completed_input_timestamps h2 = cs"
    "idle_contexts (osh_contexts h2) = idle_contexts (osh_contexts h) @ [c\<lparr>outputs := shards\<rparr>]"
    "map mirrors (output_stream_managers h2) = map mirrors (output_stream_managers h)"
    "prompt_outputs v h \<longrightarrow> prompt_outputs v h2 \<and> received (\<lambda>i. output_queue (outputs c ! i)) h h2"
    using h1 by (simp_all add: h2_def)
  have run: "propagation_while v (Some (k, ActiveContext k)) h = propagation_while v (Some (k', ActiveContext k')) h2"
    using Cons.prems(2) h1 has_active [OF h1(6)] get_front [OF h1(6), of k' c' rest]
    by (simp add: propagation_while.simps [of v _ h] propagation_round_def PropagatePackets_def packets_locked_def Let_def h2_def go_def)
  note rel = releases_Cons [OF Cons.prems(1,3,4), of h2 shards]
  show ?case
  proof (cases go)
    case True
    then obtain cs' where "completed_input_timestamps h2 = k' # cs'" using a2(2) by (cases cs) (auto simp: go_def)
    from Cons.IH [OF inv2 _ a2(1) this] True Cons.prems(2) h1(3) obtain h' where
      "propagation_while v (Some (k', ActiveContext k')) h2 = Some (Inr h')" "propagation_state h' = kIdle" "in_order_inv h'" "releases h2 h'" "sends v h2 h'"
      by (auto simp: h2_def)
    with rel [of v h'] a2 x run show ?thesis by auto
  next
    case False
    then have "releases h2 h2 \<and> sends v h2 h2" using releases_nothing [OF released_nothing [OF inv2]] a2 by (auto simp: go_def)
    with rel [of v h2] a2 x run inv2 False show ?thesis by (auto simp: idle_while h2_def)
  qed
qed

lemma PropagationLoop_spec:
  assumes "in_order_inv h" "propagation_state h = kIdle"
  shows "\<exists>h'. PropagationLoop v h = Some (Inr h') \<and> propagation_state h' = kIdle \<and> in_order_inv h' \<and>
    releases h h' \<and> sends v h h'"
proof (cases "active_contexts (osh_contexts h)")
  case Nil
  define h1 where "h1 = h\<lparr>propagation_state := kPropagatingBound\<rparr>"
  from bound_round [of h1 v None] assms obtain h2 where
    h2: "propagation_while v None h1 = Some (Inr (h2\<lparr>propagation_state := kIdle\<rparr>))" "osh_frame h1 h2"
    "outputs_mirrored h1 \<longrightarrow> outputs_mirrored h2 \<and> received (\<lambda>_. []) h1 h2" by (auto simp: h1_def)
  have "released h = []" using Nil by (simp add: released_def)
  then have "releases h h1 \<and> sends v h h1" by (simp add: h1_def releases_def sends_def received_def)
  with h2 Nil have "releases h h2 \<and> sends v h h2" by (intro releases_bound [of h h1]) (simp_all add: h1_def)
  then have "releases h (h2\<lparr>propagation_state := kIdle\<rparr>) \<and> sends v h (h2\<lparr>propagation_state := kIdle\<rparr>)" by (simp add: releases_def sends_def)
  moreover have "in_order_inv h2" using in_order_frame [OF h2(2)] assms(1) by (simp add: h1_def)
  ultimately show ?thesis
    using assms Nil has_active [OF assms(1)] h2(1) by (simp add: PropagationLoop_def loop_start_def h1_def)
next
  case (Cons x rest)
  obtain k c where x: "x = (k, c)" by (cases x)
  note act = Cons [unfolded x]
  note front = front_completed [OF assms(1) act] get_front [OF assms(1) act] has_active [OF assms(1)]
  show ?thesis
  proof (cases "completed_input_timestamps h \<noteq> [] \<and> k = hd (completed_input_timestamps h)")
    case True
    then obtain cs where cs: "completed_input_timestamps h = k # cs" by (cases "completed_input_timestamps h") auto
    from packets_while [of "h\<lparr>propagation_state := kPropagatingPackets\<rparr>" k c rest cs v] assms act cs obtain h' where
      "propagation_while v (Some (k, ActiveContext k)) (h\<lparr>propagation_state := kPropagatingPackets\<rparr>) = Some (Inr h')" "propagation_state h' = kIdle"
      "in_order_inv h'" "releases (h\<lparr>propagation_state := kPropagatingPackets\<rparr>) h'" "sends v (h\<lparr>propagation_state := kPropagatingPackets\<rparr>) h'" by auto
    moreover from this have "releases h h' \<and> sends v h h'" by (simp add: releases_def sends_def)
    ultimately show ?thesis using assms act cs front by (auto simp: PropagationLoop_def loop_start_def)
  next
    case False
    have lt: "k < t" if "completed_input_timestamps h = t # cs" for t cs
      using that assms(1) act False by (auto simp: in_order_inv_def front_keys_def)
    have "releases h h \<and> sends v h h" using releases_nothing [OF released_nothing [OF assms(1)]] False act by auto
    with assms act False front lt show ?thesis
      by (cases "completed_input_timestamps h") (auto simp: PropagationLoop_def loop_start_def idle_while)
  qed
qed

lemma complete_inv:
  assumes "in_order_inv h" "t \<in> set (front_keys h)" "t \<notin> set (completed_input_timestamps h)"
  shows "in_order_inv (h\<lparr>completed_input_timestamps := insort t (completed_input_timestamps h)\<rparr>)"
proof -
  have "sorted_wrt (<) (insort t (completed_input_timestamps h))"
    using assms by (simp add: in_order_inv_def strict_sorted_iff sorted_insort distinct_insort)
  with assms show ?thesis by (auto simp: in_order_inv_def set_insort_key front_keys_def mirrors_ok_def)
qed

section \<open>Properties\<close>

text \<open>
  C20: outputs leave in order. In a node whose calls run in parallel, a call that completes while no thread propagates releases the longest run of
  completed calls at the front, in the order of their input timestamps, and no others; its propagation, by one thread, ends without a
  failed check; the contexts of those calls become idle in that order, and the calls that wait for an
  earlier one stay active and recorded as completed.  If every active call has written at most one packet to each stream, at its
  own timestamp, then every mirror of every stream has received exactly the packets of the released calls, one call after another in that order.
\<close>

theorem in_order_release:
  assumes "in_order_inv h" and "propagation_state h = kIdle" and "t \<in> set (front_keys h)" and "t \<notin> set (completed_input_timestamps h)"
  shows "\<exists>h'. PostProcess v (PropagationLoop v) t h = Some (Inr h') \<and> propagation_state h' = kIdle \<and> in_order_inv h' \<and>
    releases (h\<lparr>completed_input_timestamps := insort t (completed_input_timestamps h)\<rparr>) h' \<and>
    sends v (h\<lparr>completed_input_timestamps := insort t (completed_input_timestamps h)\<rparr>) h'"
proof -
  have "PostProcess v (PropagationLoop v) t h = PropagationLoop v (h\<lparr>completed_input_timestamps := insort t (completed_input_timestamps h)\<rparr>)"
    using assms by (simp add: PostProcess_def start_propagation_def in_order_inv_def)
  with PropagationLoop_spec [OF complete_inv [OF assms(1,3,4)], of v] assms(2) show ?thesis by simp
qed

text \<open>Three parallel calls, each with one packet; the second has completed.\<close>

definition demo_call :: "int \<Rightarrow> Timestamp \<times> int CalculatorContext" where
  "demo_call k = (Ts k, \<lparr>input_timestamps = [Ts k], inputs = [],
     outputs = [OutputStreamShard_new\<lparr>output_queue := [\<lparr>pkt_ts = Ts k, pkt_data = Some k\<rparr>], updated_next_timestamp_bound := Ts (k + 1)\<rparr>]\<rparr>)"

definition demo_parallel :: "int OutputStreamHandler" where
  "demo_parallel = \<lparr>output_stream_managers = [demo_out],
     osh_contexts = (demo_contexts 1)\<lparr>calculator_run_in_parallel := True, active_contexts := map demo_call [1, 2, 3]\<rparr>,
     completed_input_timestamps = [Ts 2], task_timestamp_bound = Unset, propagation_state = kIdle, downstream = demo_down,
     output_errors = []\<rparr>"

theorem in_order_release_witness:
  "\<exists>h'. PostProcess (\<lambda>_. True) (PropagationLoop (\<lambda>_. True)) (Ts 1) demo_parallel = Some (Inr h') \<and>
     front_keys h' = [Ts 3] \<and> completed_input_timestamps h' = [] \<and> map input_timestamps (idle_contexts (osh_contexts h')) = [[Ts 1], [Ts 2]] \<and>
     map pkt_data (ism_queue (stream_at (downstream h') (0, 0))) = [Some 1, Some 2]"
proof -
  have mir: "mirrors demo_out = [(0, 0)]" "osm_next_timestamp_bound demo_out = PreStream" "mirrored demo_out demo_down" using demo_mirrored by blast+
  have inv: "in_order_inv demo_parallel" "propagation_state demo_parallel = kIdle" "Ts 1 \<in> set (front_keys demo_parallel)" "Ts 1 \<notin> set (completed_input_timestamps demo_parallel)"
    using mir by (auto simp: in_order_inv_def demo_parallel_def front_keys_def mirrors_ok_def mirrored_def demo_contexts_def demo_call_def)
  let ?h = "demo_parallel\<lparr>completed_input_timestamps := insort (Ts 1) (completed_input_timestamps demo_parallel)\<rparr>"
  from in_order_release [OF inv, of "\<lambda>_. True"] obtain h' where
    h': "PostProcess (\<lambda>_. True) (PropagationLoop (\<lambda>_. True)) (Ts 1) demo_parallel = Some (Inr h')" "releases ?h h'" "sends (\<lambda>_. True) ?h h'" by blast
  have "prompt_outputs (\<lambda>_. True) demo_parallel"
    using mir by (simp add: prompt_outputs_def outputs_mirrored_def demo_parallel_def demo_contexts_def demo_call_def prompt_shard_def
        OutputStreamShard_new_def packet_IsEmpty_def IsRangeValue_def next_ts_eq demo_out_def AddMirror_def osm_Initialize_def osm_PrepareForRun_def special_defs)
  then have "prompt_outputs (\<lambda>_. True) ?h" by simp
  with h'(3) have "received (\<lambda>i. concat (map (\<lambda>x. output_queue (outputs (snd x) ! i)) (released ?h))) ?h h'"
    unfolding sends_def by blast
  moreover have rel: "released ?h = [demo_call 1, demo_call 2]"
    by (simp add: released_def demo_parallel_def demo_call_def)
  ultimately have "ism_queue (stream_at (downstream h') (0, 0)) =
      ism_queue (stream_at demo_down (0, 0)) @ concat (map (\<lambda>x. output_queue (outputs (snd x) ! 0)) [demo_call 1, demo_call 2])"
    using mir(1) by (simp add: received_def demo_parallel_def)
  then have "map pkt_data (ism_queue (stream_at (downstream h') (0, 0))) = [Some 1, Some 2]"
    by (simp add: demo_call_def demo_down_def InputStreamHandler_new_def stream_at_def ism_Initialize_def ism_PrepareForRun_def)
  moreover have "active_contexts (osh_contexts h') = [demo_call 3]" "completed_input_timestamps h' = []"
    "map input_timestamps (idle_contexts (osh_contexts h')) = [[Ts 1], [Ts 2]]"
    using h'(2) rel by (simp_all add: releases_def demo_parallel_def demo_contexts_def demo_call_def)
  ultimately show ?thesis using h'(1) by (simp add: front_keys_def demo_call_def)
qed

end
