(* ===== verification/Node_Scheduling.thy ===== *)
theory Node_Scheduling
  imports Timestamp
begin

text \<open>
  The life cycle of a node and the protocol by which it is scheduled (\<^verbatim>\<open>calculator_node.h\<close>, \<^verbatim>\<open>.cc\<close>): each part of an operation
  that runs under \<^verbatim>\<open>status_mutex_\<close> is one function, and the threads that call them, the scheduling thread, those that
  deliver packets and those that run the calculator, interleave in a step relation.  The calculator itself and
  \<^verbatim>\<open>ScheduleInvocations\<close> between two such parts are steps of their own.
\<close>

section \<open>The node\<close>

datatype NodeStatus = kStateUninitialized | kStatePrepared | kStateOpened | kStateActive | kStateClosed

datatype SchedulingState = kSchedulingIdle | kScheduling | kSchedulingPending

record CalculatorNode =
  status :: NodeStatus
  scheduling_state :: SchedulingState
  current_in_flight :: int
  max_in_flight :: int
  input_stream_headers_ready :: bool
  input_side_packets_ready :: bool
  input_stream_headers_ready_called :: bool
  input_side_packets_ready_called :: bool

definition node_Prepared :: "CalculatorNode \<Rightarrow> bool" where
  "node_Prepared n \<longleftrightarrow> status n \<in> {kStatePrepared, kStateOpened, kStateActive, kStateClosed}"

definition node_Opened :: "CalculatorNode \<Rightarrow> bool" where
  "node_Opened n \<longleftrightarrow> status n \<in> {kStateOpened, kStateActive, kStateClosed}"

definition node_Active :: "CalculatorNode \<Rightarrow> bool" where
  "node_Active n \<longleftrightarrow> status n \<in> {kStateActive, kStateClosed}"

definition node_Closed :: "CalculatorNode \<Rightarrow> bool" where
  "node_Closed n \<longleftrightarrow> status n = kStateClosed"

text \<open>The end of \<^verbatim>\<open>PrepareForRun\<close>, given the headers and side packets that are still missing.\<close>

definition node_PrepareForRun :: "nat \<Rightarrow> nat \<Rightarrow> CalculatorNode \<Rightarrow> CalculatorNode" where
  "node_PrepareForRun unset_headers missing_side_packets n =
     n\<lparr>status := kStatePrepared, scheduling_state := kSchedulingIdle, current_in_flight := 0,
       input_stream_headers_ready_called := False, input_side_packets_ready_called := False,
       input_stream_headers_ready := (unset_headers = 0), input_side_packets_ready := (missing_side_packets = 0)\<rparr>"

definition ReadyForOpen :: "CalculatorNode \<Rightarrow> bool" where
  "ReadyForOpen n \<longleftrightarrow> input_stream_headers_ready n \<and> input_side_packets_ready n"

text \<open>Whether the node asks to be opened, and the node.\<close>

definition InputStreamHeadersReady :: "CalculatorNode \<Rightarrow> ts_error + (bool \<times> CalculatorNode)" where
  "InputStreamHeadersReady n =
     (if status n \<noteq> kStatePrepared \<or> input_stream_headers_ready_called n then Inl CheckFailed
      else Inr (input_side_packets_ready n, n\<lparr>input_stream_headers_ready_called := True, input_stream_headers_ready := True\<rparr>))"

definition InputSidePacketsReady :: "CalculatorNode \<Rightarrow> ts_error + (bool \<times> CalculatorNode)" where
  "InputSidePacketsReady n =
     (if status n \<noteq> kStatePrepared \<or> input_side_packets_ready_called n then Inl CheckFailed
      else Inr (input_stream_headers_ready n, n\<lparr>input_side_packets_ready_called := True, input_side_packets_ready := True\<rparr>))"

definition node_Opening :: "CalculatorNode \<Rightarrow> CalculatorNode" where
  "node_Opening n = n\<lparr>status := kStateOpened\<rparr>"

definition ActivateNode :: "CalculatorNode \<Rightarrow> ts_error + CalculatorNode" where
  "ActivateNode n = (if status n \<noteq> kStateOpened then Inl CheckFailed else Inr (n\<lparr>status := kStateActive\<rparr>))"

definition node_Closing :: "CalculatorNode \<Rightarrow> CalculatorNode" where
  "node_Closing n = n\<lparr>status := kStateClosed\<rparr>"

definition node_CleanupAfterRun :: "CalculatorNode \<Rightarrow> CalculatorNode" where
  "node_CleanupAfterRun n = n\<lparr>status := kStateUninitialized, scheduling_state := kSchedulingIdle, current_in_flight := 0\<rparr>"

section \<open>Scheduling\<close>

definition TryToBeginScheduling :: "CalculatorNode \<Rightarrow> bool \<times> CalculatorNode" where
  "TryToBeginScheduling n =
     (if current_in_flight n < max_in_flight n then (True, n\<lparr>current_in_flight := current_in_flight n + 1\<rparr>) else (False, n))"

text \<open>Whether the calling thread goes on to \<^verbatim>\<open>SchedulingLoop\<close>, and the node.\<close>

definition CheckIfBecameReady :: "CalculatorNode \<Rightarrow> bool \<times> CalculatorNode" where
  "CheckIfBecameReady n =
     (if status n \<noteq> kStateOpened then (False, n)
      else if scheduling_state n = kSchedulingIdle \<and> current_in_flight n < max_in_flight n
           then (True, n\<lparr>scheduling_state := kScheduling\<rparr>)
      else if scheduling_state n = kScheduling then (False, n\<lparr>scheduling_state := kSchedulingPending\<rparr>)
      else (False, n))"

definition EndScheduling :: "CalculatorNode \<Rightarrow> ts_error + (bool \<times> CalculatorNode)" where
  "EndScheduling n =
     (if status n \<noteq> kStateOpened \<and> status n \<noteq> kStateActive then Inr (False, n)
      else if current_in_flight n - 1 < 0 then Inl CheckFailed
      else let n1 = n\<lparr>current_in_flight := current_in_flight n - 1\<rparr>
           in Inr (case scheduling_state n of
                     kScheduling \<Rightarrow> (False, n1\<lparr>scheduling_state := kSchedulingPending\<rparr>)
                   | kSchedulingPending \<Rightarrow> (False, n1)
                   | kSchedulingIdle \<Rightarrow> (True, n1\<lparr>scheduling_state := kScheduling\<rparr>)))"

text \<open>
  The two critical sections of \<^verbatim>\<open>SchedulingLoop\<close>: the allowance for the next call of \<^verbatim>\<open>ScheduleInvocations\<close>, or \<open>None\<close> when the
  thread leaves.
\<close>

definition loop_enter :: "CalculatorNode \<Rightarrow> int option \<times> CalculatorNode" where
  "loop_enter n =
     (if status n = kStateClosed then (None, n\<lparr>scheduling_state := kSchedulingIdle\<rparr>)
      else (Some (max_in_flight n - current_in_flight n), n))"

definition loop_recheck :: "CalculatorNode \<Rightarrow> int option \<times> CalculatorNode" where
  "loop_recheck n =
     (if scheduling_state n = kSchedulingPending \<and> current_in_flight n < max_in_flight n
      then (Some (max_in_flight n - current_in_flight n), n\<lparr>scheduling_state := kScheduling\<rparr>)
      else (None, n\<lparr>scheduling_state := kSchedulingIdle\<rparr>))"

section \<open>Threads\<close>

text \<open>
  Where the scheduling thread stands: outside the loop, before its first critical section, inside
  \<^verbatim>\<open>ScheduleInvocations\<close> with invocations left, before the second critical section.
\<close>

datatype loop_pc = NoLoop | LoopEnter | Invoking int | Recheck

text \<open>
  \<open>notices\<close> counts the packets and bounds whose call of \<^verbatim>\<open>CheckIfBecameReady\<close> is under way, \<open>running\<close> the invocations that have
  begun and not ended. \<open>unseen\<close> is history: something may be ready that no call of \<^verbatim>\<open>ScheduleInvocations\<close>
  has looked at, because it arrived after the last one began, or because that one used up its allowance.
\<close>

record node_config =
  the_node :: CalculatorNode
  loop_at :: loop_pc
  notices :: nat
  running :: nat
  unseen :: bool

definition go_loop :: "loop_pc \<Rightarrow> bool \<times> CalculatorNode \<Rightarrow> node_config \<Rightarrow> node_config" where
  "go_loop pc r c = c\<lparr>the_node := snd r, loop_at := (if fst r then pc else loop_at c)\<rparr>"

definition go_invoke :: "int option \<times> CalculatorNode \<Rightarrow> node_config \<Rightarrow> node_config" where
  "go_invoke r c =
     (case r of
        (None, n) \<Rightarrow> c\<lparr>the_node := n, loop_at := NoLoop\<rparr>
      | (Some a, n) \<Rightarrow> c\<lparr>the_node := n, loop_at := Invoking a, unseen := (unseen c \<and> a \<le> 0)\<rparr>)"

text \<open>The steps of a node with input streams.\<close>

inductive node_step :: "node_config \<Rightarrow> node_config \<Rightarrow> bool" where
  opened: "status (the_node c) = kStatePrepared \<Longrightarrow>
    node_step c (c\<lparr>the_node := node_Opening (the_node c), notices := notices c + 1\<rparr>)"
| event: "node_step c (c\<lparr>unseen := True, notices := notices c + 1\<rparr>)"
| notified: "0 < notices c \<Longrightarrow>
    node_step c ((go_loop LoopEnter (CheckIfBecameReady (the_node c)) c)\<lparr>notices := notices c - 1\<rparr>)"
| entered: "loop_at c = LoopEnter \<Longrightarrow> node_step c (go_invoke (loop_enter (the_node c)) c)"
| invoke: "loop_at c = Invoking r \<Longrightarrow> 0 < r \<Longrightarrow> TryToBeginScheduling (the_node c) = (True, n) \<Longrightarrow>
    node_step c (c\<lparr>the_node := n, loop_at := Invoking (r - 1), running := running c + 1\<rparr>)"
| not_ready: "loop_at c = Invoking r \<Longrightarrow> 0 < r \<Longrightarrow> node_step c (c\<lparr>loop_at := Recheck\<rparr>)"
| exhausted: "loop_at c = Invoking r \<Longrightarrow> r \<le> 0 \<Longrightarrow> node_step c (c\<lparr>loop_at := Recheck, unseen := True\<rparr>)"
| rechecked: "loop_at c = Recheck \<Longrightarrow> node_step c (go_invoke (loop_recheck (the_node c)) c)"
| ended: "0 < running c \<Longrightarrow> EndScheduling (the_node c) = Inr r \<Longrightarrow>
    node_step c ((go_loop LoopEnter r c)\<lparr>running := running c - 1\<rparr>)"
| closed: "status (the_node c) = kStateOpened \<Longrightarrow> node_step c (c\<lparr>the_node := node_Closing (the_node c)\<rparr>)"

definition node_start :: "CalculatorNode \<Rightarrow> nat \<Rightarrow> nat \<Rightarrow> node_config" where
  "node_start n h p = \<lparr>the_node = node_PrepareForRun h p n, loop_at = NoLoop, notices = 0, running = 0, unseen = False\<rparr>"

inductive node_reaches :: "node_config \<Rightarrow> node_config \<Rightarrow> bool" where
  refl: "node_reaches c c"
| step: "node_reaches c d \<Longrightarrow> node_step d e \<Longrightarrow> node_reaches c e"

section \<open>The invariant of the protocol\<close>

definition node_inv :: "node_config \<Rightarrow> bool" where
  "node_inv c \<longleftrightarrow>
     (let n = the_node c
      in 1 \<le> max_in_flight n \<and> 0 \<le> current_in_flight n \<and> current_in_flight n \<le> max_in_flight n \<and>
         status n \<in> {kStatePrepared, kStateOpened, kStateClosed} \<and>
         (scheduling_state n = kSchedulingIdle \<longleftrightarrow> loop_at c = NoLoop) \<and>
         int (running c) \<le> current_in_flight n \<and> (status n \<noteq> kStateClosed \<longrightarrow> int (running c) = current_in_flight n) \<and>
         (loop_at c = LoopEnter \<longrightarrow> current_in_flight n < max_in_flight n) \<and>
         (\<forall>r. loop_at c = Invoking r \<longrightarrow> 0 \<le> r \<and> current_in_flight n + r \<le> max_in_flight n \<and>
            (scheduling_state n = kScheduling \<longrightarrow> current_in_flight n + r = max_in_flight n)) \<and>
         (status n = kStatePrepared \<longrightarrow> loop_at c = NoLoop \<and> running c = 0) \<and>
         (unseen c \<longrightarrow> 0 < notices c \<or> loop_at c = LoopEnter \<or> scheduling_state n = kSchedulingPending \<or>
            max_in_flight n \<le> current_in_flight n \<or> status n \<noteq> kStateOpened))"

lemma node_inv_start: "1 \<le> max_in_flight n \<Longrightarrow> node_inv (node_start n h p)"
  by (simp add: node_inv_def node_start_def node_PrepareForRun_def)

lemmas node_inv_simps = node_inv_def Let_def node_Opening_def node_Closing_def go_loop_def go_invoke_def

lemma node_step_inv: "node_step c d \<Longrightarrow> node_inv c \<Longrightarrow> node_inv d"
proof (induction rule: node_step.induct)
  case (opened c)
  then show ?case by (auto simp: node_inv_simps)
next
  case (event c)
  then show ?case by (simp add: node_inv_simps)
next
  case (notified c)
  then show ?case
    by (cases "scheduling_state (the_node c)") (auto simp: node_inv_simps CheckIfBecameReady_def)
next
  case (entered c)
  then show ?case by (auto simp: node_inv_simps loop_enter_def)
next
  case (invoke c r n)
  then show ?case by (auto simp: node_inv_simps TryToBeginScheduling_def split: if_splits)
next
  case (not_ready c r)
  then show ?case by (auto simp: node_inv_simps)
next
  case (exhausted c r)
  then show ?case by (cases "scheduling_state (the_node c)") (auto simp: node_inv_simps)
next
  case (rechecked c)
  then show ?case by (auto simp: node_inv_simps loop_recheck_def)
next
  case (ended c r)
  show ?case
  proof (cases "status (the_node c) = kStateOpened")
    case True
    then have "1 \<le> current_in_flight (the_node c)" using ended by (auto simp: node_inv_def Let_def)
    with ended(2) True have r: "r = (scheduling_state (the_node c) = kSchedulingIdle,
        (the_node c)\<lparr>current_in_flight := current_in_flight (the_node c) - 1,
          scheduling_state := (if scheduling_state (the_node c) = kSchedulingIdle then kScheduling else kSchedulingPending)\<rparr>)"
      by (cases "the_node c"; cases "scheduling_state (the_node c)") (auto simp: EndScheduling_def Let_def)
    show ?thesis
      using ended(1,3) True unfolding r
      by (cases "scheduling_state (the_node c)"; cases "loop_at c") (simp_all add: node_inv_simps)
  next
    case False
    then have "r = (False, the_node c)" "status (the_node c) = kStateClosed"
      using ended by (auto simp: node_inv_def Let_def EndScheduling_def)
    with ended(1,3) show ?thesis by (auto simp: node_inv_simps)
  qed
next
  case (closed c)
  then show ?case by (auto simp: node_inv_simps)
qed

lemma node_reaches_inv: "node_reaches c d \<Longrightarrow> node_inv c \<Longrightarrow> node_inv d"
  by (induction rule: node_reaches.induct) (auto intro: node_step_inv)

section \<open>Properties\<close>

text \<open>
  At most the allowed invocations. In every interleaving of arriving packets, the scheduling thread and the threads that run the
  calculator, the invocations in flight stay between none and the maximum; an invocation the scheduling thread has
  prepared can always begin, and the check at the end of an invocation never fails.
\<close>

theorem node_in_flight_bounded:
  assumes "1 \<le> max_in_flight n" and "node_reaches (node_start n h p) c"
  shows "0 \<le> current_in_flight (the_node c) \<and> current_in_flight (the_node c) \<le> max_in_flight (the_node c) \<and>
    (\<forall>r. loop_at c = Invoking r \<and> 0 < r \<longrightarrow> fst (TryToBeginScheduling (the_node c))) \<and>
    (0 < running c \<longrightarrow> (\<exists>r. EndScheduling (the_node c) = Inr r))"
proof -
  have inv: "node_inv c" by (rule node_reaches_inv [OF assms(2) node_inv_start [OF assms(1)]])
  have "0 < running c \<Longrightarrow> \<exists>r. EndScheduling (the_node c) = Inr r"
    using inv by (auto simp: node_inv_def Let_def EndScheduling_def)
  with inv show ?thesis by (auto simp: node_inv_def Let_def TryToBeginScheduling_def)
qed

text \<open>
  C24: no wakeup is lost. In every interleaving, an open node to which something may be ready that the scheduling has not looked at is
  never left alone: a notification is under way, a thread is in the scheduling loop, or an invocation is in flight,
  whose end enters the loop again; and when no thread schedules, no notification is under way
  and there is room for an invocation, everything has been looked at.
\<close>

theorem node_no_lost_wakeup:
  assumes "1 \<le> max_in_flight n" and "node_reaches (node_start n h p) c" and "status (the_node c) = kStateOpened"
  shows "(unseen c \<longrightarrow> 0 < notices c \<or> loop_at c \<noteq> NoLoop \<or>
      0 < running c \<and> (\<exists>n'. EndScheduling (the_node c) = Inr (True, n'))) \<and>
    (loop_at c = NoLoop \<and> notices c = 0 \<and> current_in_flight (the_node c) < max_in_flight (the_node c) \<longrightarrow> \<not> unseen c)"
proof -
  have inv: "node_inv c" by (rule node_reaches_inv [OF assms(2) node_inv_start [OF assms(1)]])
  show ?thesis
  proof (cases "loop_at c = NoLoop")
    case True
    with inv have idle: "scheduling_state (the_node c) = kSchedulingIdle" "loop_at c = NoLoop" by (auto simp: node_inv_def Let_def)
    with inv assms(3) have u: "unseen c \<Longrightarrow> 0 < notices c \<or> max_in_flight (the_node c) \<le> current_in_flight (the_node c)"
      and m: "1 \<le> max_in_flight (the_node c)" "int (running c) = current_in_flight (the_node c)" by (auto simp: node_inv_def Let_def)
    have "max_in_flight (the_node c) \<le> current_in_flight (the_node c) \<Longrightarrow> 0 < running c \<and> (\<exists>n'. EndScheduling (the_node c) = Inr (True, n'))"
      using m idle(1) assms(3) by (auto simp: EndScheduling_def Let_def)
    with u show ?thesis by auto
  qed simp
qed

definition demo_node :: CalculatorNode where
  "demo_node = \<lparr>status = kStateUninitialized, scheduling_state = kSchedulingIdle, current_in_flight = 0, max_in_flight = 1,
     input_stream_headers_ready = False, input_side_packets_ready = False, input_stream_headers_ready_called = False,
     input_side_packets_ready_called = False\<rparr>"

text \<open>A run: the node opens, a packet arrives, and is scheduled.\<close>

definition demo_run :: node_config where
  "demo_run = \<lparr>the_node = demo_node\<lparr>status := kStateOpened, scheduling_state := kSchedulingPending, current_in_flight := 1,
       input_stream_headers_ready := True, input_side_packets_ready := True\<rparr>,
     loop_at = Invoking 0, notices = 0, running = 1, unseen = True\<rparr>"

lemma demo_run_reached: "node_reaches (node_start demo_node 0 0) demo_run"
proof -
  let ?s = "node_start demo_node 0 0"
  let ?c1 = "?s\<lparr>the_node := node_Opening (the_node ?s), notices := notices ?s + 1\<rparr>"
  let ?c2 = "(go_loop LoopEnter (CheckIfBecameReady (the_node ?c1)) ?c1)\<lparr>notices := notices ?c1 - 1\<rparr>"
  let ?c3 = "go_invoke (loop_enter (the_node ?c2)) ?c2"
  let ?c4 = "?c3\<lparr>unseen := True, notices := notices ?c3 + 1\<rparr>"
  let ?n = "snd (TryToBeginScheduling (the_node ?c4))"
  let ?c5 = "?c4\<lparr>the_node := ?n, loop_at := Invoking (1 - 1), running := running ?c4 + 1\<rparr>"
  let ?c6 = "(go_loop LoopEnter (CheckIfBecameReady (the_node ?c5)) ?c5)\<lparr>notices := notices ?c5 - 1\<rparr>"
  note defs = node_start_def node_PrepareForRun_def demo_node_def node_Opening_def go_loop_def CheckIfBecameReady_def go_invoke_def
    loop_enter_def TryToBeginScheduling_def
  have s1: "node_step ?s ?c1" by (rule node_step.opened) (simp add: defs)
  have s2: "node_step ?c1 ?c2" by (rule node_step.notified) (simp add: defs)
  have s3: "node_step ?c2 ?c3" by (rule node_step.entered) (simp add: defs)
  have s4: "node_step ?c3 ?c4" by (rule node_step.event)
  have s5: "node_step ?c4 ?c5" by (rule node_step.invoke) (simp_all add: defs)
  have s6: "node_step ?c5 ?c6" by (rule node_step.notified) (simp add: defs)
  have "node_reaches ?s ?c6"
    by (intro node_reaches.step [OF _ s6] node_reaches.step [OF _ s5] node_reaches.step [OF _ s4] node_reaches.step [OF _ s3]
        node_reaches.step [OF _ s2] node_reaches.step [OF _ s1] node_reaches.refl)
  moreover have "?c6 = demo_run" by (simp add: defs demo_run_def)
  ultimately show ?thesis by simp
qed

theorem node_in_flight_bounded_witness:
  "current_in_flight (the_node demo_run) \<le> max_in_flight (the_node demo_run) \<and> (\<exists>r. EndScheduling (the_node demo_run) = Inr r)"
proof -
  have "1 \<le> max_in_flight demo_node" "0 < running demo_run" by (simp_all add: demo_node_def demo_run_def)
  with node_in_flight_bounded [OF _ demo_run_reached] show ?thesis by blast
qed

theorem node_no_lost_wakeup_witness:
  "unseen demo_run \<and> (0 < notices demo_run \<or> loop_at demo_run \<noteq> NoLoop \<or> 0 < running demo_run)"
proof -
  have "1 \<le> max_in_flight demo_node" "status (the_node demo_run) = kStateOpened" "unseen demo_run"
    by (simp_all add: demo_node_def demo_run_def)
  with node_no_lost_wakeup [OF _ demo_run_reached] show ?thesis by auto
qed

end
