(* ===== verification/Scheduler_Queue.thy ===== *)
theory Scheduler_Queue
  imports Node_Scheduling Calculator_Context "HOL-Library.Multiset" "HOL-Library.Product_Lexorder"
begin

text \<open>
  \<^verbatim>\<open>scheduler_queue.h\<close> and \<^verbatim>\<open>.cc\<close>: the priority queue of nodes to run, and its bookkeeping with the executor and the idle
  callback.  Each part that runs under the queue's mutex is one function; the threads that add nodes, submit tasks and run
  them interleave in a step relation.  A \<^verbatim>\<open>std::priority_queue\<close> is a list; among items of equal priority the first
  is taken.  Nodes enter through what the queue reads of them.
\<close>

section \<open>Items\<close>

record node_view =
  view_id :: int
  view_is_source :: bool
  view_source_layer :: int
  view_process_order :: Timestamp

record Item =
  item_node :: nat
  item_context :: "context_ref option"
  item_id :: int
  item_layer :: int
  source_process_order :: int
  is_source :: bool
  is_open_node :: bool

definition Item_new :: "nat \<Rightarrow> node_view \<Rightarrow> context_ref \<Rightarrow> Item" where
  "Item_new node v cc =
     \<lparr>item_node = node, item_context = Some cc, item_id = view_id v,
      item_layer = (if view_is_source v then view_source_layer v else 0),
      source_process_order = (if view_is_source v then ts_value (view_process_order v) else 0),
      is_source = view_is_source v, is_open_node = False\<rparr>"

definition Item_open :: "nat \<Rightarrow> node_view \<Rightarrow> Item" where
  "Item_open node v =
     \<lparr>item_node = node, item_context = None, item_id = view_id v,
      item_layer = (if view_is_source v then view_source_layer v else 0),
      source_process_order = (if view_is_source v then ts_value Unstarted else 0),
      is_source = view_is_source v, is_open_node = True\<rparr>"

text \<open>\<^verbatim>\<open>operator<\<close>: this runs after that.\<close>

definition item_less :: "Item \<Rightarrow> Item \<Rightarrow> bool" where
  "item_less this that \<longleftrightarrow>
     (if is_open_node this \<or> is_open_node that then
        (if \<not> is_open_node that then False
         else if \<not> is_open_node this then True
         else item_id this > item_id that)
      else if is_source this then
        (if \<not> is_source that then True
         else if item_layer this \<noteq> item_layer that then item_layer this > item_layer that
         else if source_process_order this \<noteq> source_process_order that
              then source_process_order this > source_process_order that
         else item_id this > item_id that)
      else
        (if is_source that then False else item_id this < item_id that))"

section \<open>The queue\<close>

record SchedulerQueue =
  sq_queue :: "Item list"
  num_pending_tasks :: int
  num_tasks_to_add :: int
  running_count :: int

record SchedulerShared =
  stopping :: bool
  has_error :: bool

definition sq_Reset :: "SchedulerQueue \<Rightarrow> SchedulerQueue" where
  "sq_Reset q = q\<lparr>num_pending_tasks := 0, num_tasks_to_add := 0, running_count := 0\<rparr>"

definition sq_IsIdle :: "SchedulerQueue \<Rightarrow> bool" where
  "sq_IsIdle q \<longleftrightarrow> sq_queue q = [] \<and> num_pending_tasks q = 0"

definition SetRunning :: "bool \<Rightarrow> SchedulerQueue \<Rightarrow> SchedulerQueue" where
  "SetRunning b q = q\<lparr>running_count := running_count q + (if b then 1 else - 1)\<rparr>"

definition GetTasksToSubmitToExecutor :: "SchedulerQueue \<Rightarrow> int \<times> SchedulerQueue" where
  "GetTasksToSubmitToExecutor q =
     (num_tasks_to_add q, q\<lparr>num_tasks_to_add := 0, num_pending_tasks := num_pending_tasks q + num_tasks_to_add q\<rparr>)"

text \<open>The critical section of \<^verbatim>\<open>AddItemToQueue\<close>: whether the queue was idle, the tasks to submit, the queue.\<close>

definition add_item :: "Item \<Rightarrow> SchedulerQueue \<Rightarrow> bool \<times> int \<times> SchedulerQueue" where
  "add_item it q =
     (let q1 = q\<lparr>sq_queue := sq_queue q @ [it], num_tasks_to_add := num_tasks_to_add q + 1\<rparr>
      in (sq_IsIdle q, if 0 < running_count q1 then GetTasksToSubmitToExecutor q1 else (0, q1)))"

definition SubmitWaitingTasksToExecutor :: "SchedulerQueue \<Rightarrow> int \<times> SchedulerQueue" where
  "SubmitWaitingTasksToExecutor q = (if 0 < running_count q then GetTasksToSubmitToExecutor q else (0, q))"

text \<open>Adding a node: nothing after an error or when the node cannot begin, which only a source may do.\<close>

definition AddNode ::
  "SchedulerShared \<Rightarrow> Item \<Rightarrow> CalculatorNode \<Rightarrow> SchedulerQueue
    \<Rightarrow> ts_error + ((bool \<times> int) option \<times> CalculatorNode \<times> SchedulerQueue)" where
  "AddNode sh it n q =
     (if has_error sh then Inr (None, n, q)
      else case TryToBeginScheduling n of
             (False, n1) \<Rightarrow> if is_source it then Inr (None, n1, q) else Inl CheckFailed
           | (True, n1) \<Rightarrow> (case add_item it q of (w, k, q1) \<Rightarrow> Inr (Some (w, k), n1, q1)))"

definition AddNodeForOpen :: "SchedulerShared \<Rightarrow> Item \<Rightarrow> SchedulerQueue \<Rightarrow> (bool \<times> int) option \<times> SchedulerQueue" where
  "AddNodeForOpen sh it q =
     (if has_error sh then (None, q) else (case add_item it q of (w, k, q1) \<Rightarrow> (Some (w, k), q1)))"

fun pq_top :: "Item list \<Rightarrow> Item \<Rightarrow> Item" where
  "pq_top [] best = best"
| "pq_top (x # xs) best = pq_top xs (if item_less best x then x else best)"

text \<open>The first critical section of \<^verbatim>\<open>RunNextTask\<close>.\<close>

definition next_item :: "(nat \<Rightarrow> bool) \<Rightarrow> SchedulerQueue \<Rightarrow> ts_error + (Item \<times> SchedulerQueue)" where
  "next_item is_closed q =
     (case sq_queue q of
        [] \<Rightarrow> Inl CheckFailed
      | x # xs \<Rightarrow>
          (let it = pq_top xs x
           in if is_closed (item_node it) then Inl CheckFailed
              else Inr (it, q\<lparr>sq_queue := remove1 it (sq_queue q)\<rparr>)))"

text \<open>The second one: whether the queue became idle.\<close>

definition finish_task :: "SchedulerQueue \<Rightarrow> bool \<times> SchedulerQueue" where
  "finish_task q =
     (let q1 = q\<lparr>num_pending_tasks := num_pending_tasks q - 1\<rparr> in (sq_IsIdle q1, q1))"

text \<open>What running a node does to the shared flags, by what its \<^verbatim>\<open>CloseNode\<close> or \<^verbatim>\<open>ProcessNode\<close> returns; the errors reported.\<close>

datatype node_result = ResultOk | ResultStop | ResultError

definition RunCalculatorNode ::
  "bool \<Rightarrow> node_result \<Rightarrow> node_result \<Rightarrow> SchedulerShared \<Rightarrow> ts_error + (nat \<times> SchedulerShared)" where
  "RunCalculatorNode source close_result process_result sh =
     (if stopping sh \<and> source then Inr (if close_result = ResultOk then 0 else 1, sh)
      else case process_result of
             ResultOk \<Rightarrow> Inr (0, sh)
           | ResultStop \<Rightarrow> if source then Inl CheckFailed else Inr (0, sh\<lparr>stopping := True\<rparr>)
           | ResultError \<Rightarrow> Inr (1, sh))"

definition OpenCalculatorNode :: "node_result \<Rightarrow> nat \<times> bool" where
  "OpenCalculatorNode open_result = (if open_result = ResultOk then (0, True) else (1, False))"

definition sq_CleanupAfterRun :: "SchedulerQueue \<Rightarrow> ts_error + (bool \<times> SchedulerQueue)" where
  "sq_CleanupAfterRun q =
     (if num_pending_tasks q \<noteq> 0 \<or> num_tasks_to_add q \<noteq> int (length (sq_queue q)) then Inl CheckFailed
      else Inr (\<not> sq_IsIdle q, q\<lparr>num_tasks_to_add := 0, sq_queue := []\<rparr>))"

section \<open>Threads\<close>

text \<open>
  \<open>to_activate\<close>: threads that found the queue idle and have yet to call the idle callback with false, with the tasks
  they will submit then; \<open>in_hand\<close>: tasks about to be submitted; \<open>at_executor\<close>: tasks submitted;
  \<open>at_work\<close>: tasks that took their item; \<open>to_idle\<close>: threads about to call the callback with true;
  \<open>idle_calls\<close>: the calls of the callback so far.
\<close>

record queue_config =
  the_queue :: SchedulerQueue
  to_activate :: "int list"
  in_hand :: int
  at_executor :: int
  at_work :: int
  to_idle :: int
  idle_calls :: "bool list"

text \<open>Steps of the threads; \<open>pausing\<close> tells whether the queue may be paused and resumed.\<close>

inductive queue_step :: "bool \<Rightarrow> queue_config \<Rightarrow> queue_config \<Rightarrow> bool" for pausing where
  add_idle: "add_item it (the_queue c) = (True, k, q) \<Longrightarrow>
    queue_step pausing c (c\<lparr>the_queue := q, to_activate := k # to_activate c\<rparr>)"
| add_busy: "add_item it (the_queue c) = (False, k, q) \<Longrightarrow>
    queue_step pausing c (c\<lparr>the_queue := q, in_hand := in_hand c + k\<rparr>)"
| activate: "to_activate c = xs @ k # ys \<Longrightarrow>
    queue_step pausing c (c\<lparr>to_activate := xs @ ys, in_hand := in_hand c + k, idle_calls := idle_calls c @ [False]\<rparr>)"
| add_task: "0 < in_hand c \<Longrightarrow>
    queue_step pausing c (c\<lparr>in_hand := in_hand c - 1, at_executor := at_executor c + 1\<rparr>)"
| submit: "SubmitWaitingTasksToExecutor (the_queue c) = (k, q) \<Longrightarrow>
    queue_step pausing c (c\<lparr>the_queue := q, in_hand := in_hand c + k\<rparr>)"
| set_running: "pausing \<Longrightarrow> queue_step pausing c (c\<lparr>the_queue := SetRunning b (the_queue c)\<rparr>)"
| take_item: "0 < at_executor c \<Longrightarrow> next_item (\<lambda>_. False) (the_queue c) = Inr (it, q) \<Longrightarrow>
    queue_step pausing c (c\<lparr>the_queue := q, at_executor := at_executor c - 1, at_work := at_work c + 1\<rparr>)"
| finish: "0 < at_work c \<Longrightarrow> finish_task (the_queue c) = (i, q) \<Longrightarrow>
    queue_step pausing c (c\<lparr>the_queue := q, at_work := at_work c - 1, to_idle := to_idle c + of_bool i\<rparr>)"
| became_idle: "0 < to_idle c \<Longrightarrow>
    queue_step pausing c (c\<lparr>to_idle := to_idle c - 1, idle_calls := idle_calls c @ [True]\<rparr>)"

inductive queue_reaches :: "bool \<Rightarrow> queue_config \<Rightarrow> queue_config \<Rightarrow> bool" for pausing where
  refl: "queue_reaches pausing c c"
| step: "queue_reaches pausing c d \<Longrightarrow> queue_step pausing d e \<Longrightarrow> queue_reaches pausing c e"

definition queue_start :: queue_config where
  "queue_start = \<lparr>the_queue = SetRunning True \<lparr>sq_queue = [], num_pending_tasks = 0, num_tasks_to_add = 0, running_count = 0\<rparr>,
     to_activate = [], in_hand = 0, at_executor = 0, at_work = 0, to_idle = 0, idle_calls = []\<rparr>"

text \<open>The difference the scheduler keeps of the two kinds of calls.\<close>

definition non_idle_count :: "bool list \<Rightarrow> int" where
  "non_idle_count bs = (\<Sum>b\<leftarrow>bs. if b then - 1 else 1)"

section \<open>The order of the items\<close>

text \<open>A reference for the priorities: larger keys run first.\<close>

definition item_key :: "Item \<Rightarrow> int \<times> int \<times> int \<times> int" where
  "item_key it =
     (if is_open_node it then (2, - item_id it, 0, 0)
      else if \<not> is_source it then (1, item_id it, 0, 0)
      else (0, - item_layer it, - source_process_order it, - item_id it))"

lemma item_less_key: "item_less a b \<longleftrightarrow> item_key a < item_key b"
  by (auto simp: item_less_def item_key_def)

lemma pq_top_in: "pq_top xs b \<in> insert b (set xs)"
  by (induction xs arbitrary: b) auto

lemma pq_top_max: "x \<in> insert b (set xs) \<Longrightarrow> item_key x \<le> item_key (pq_top xs b)"
proof (induction xs arbitrary: b x)
  case (Cons y ys)
  define b' where "b' = (if item_less b y then y else b)"
  have "item_key b \<le> item_key b'" "item_key y \<le> item_key b'" by (auto simp: b'_def item_less_key not_less)
  moreover have "item_key b' \<le> item_key (pq_top ys b')" "x \<in> set ys \<Longrightarrow> item_key x \<le> item_key (pq_top ys b')"
    using Cons.IH by blast+
  ultimately show ?case using Cons.prems by (auto simp: b'_def [symmetric])
qed simp

lemma next_item_spec:
  assumes "next_item is_closed q = Inr (it, q')"
  shows "it \<in> set (sq_queue q) \<and> (\<forall>x \<in> set (sq_queue q). item_key x \<le> item_key it) \<and>
    mset (sq_queue q') = mset (sq_queue q) - {#it#} \<and> num_pending_tasks q' = num_pending_tasks q \<and>
    num_tasks_to_add q' = num_tasks_to_add q \<and> running_count q' = running_count q"
proof -
  from assms obtain x xs where "sq_queue q = x # xs" "it = pq_top xs x" "q' = q\<lparr>sq_queue := remove1 it (sq_queue q)\<rparr>"
    by (auto simp: next_item_def Let_def split: list.splits if_splits)
  with pq_top_in [of xs x] pq_top_max [of _ x xs] show ?thesis by (simp add: mset_remove1 del: remove1.simps)
qed

lemma next_item_total: "sq_queue q \<noteq> [] \<Longrightarrow> \<exists>it q'. next_item (\<lambda>_. False) q = Inr (it, q')"
  by (auto simp: next_item_def Let_def neq_Nil_conv)

section \<open>The bookkeeping\<close>

definition queue_inv :: "queue_config \<Rightarrow> bool" where
  "queue_inv c \<longleftrightarrow>
     (let q = the_queue c; w = sum_list (to_activate c)
      in 0 \<le> in_hand c \<and> 0 \<le> at_executor c \<and> 0 \<le> at_work c \<and> 0 \<le> to_idle c \<and> 0 \<le> num_tasks_to_add q \<and>
         (\<forall>k \<in> set (to_activate c). 0 \<le> k) \<and>
         int (length (sq_queue q)) = num_tasks_to_add q + in_hand c + w + at_executor c \<and>
         num_pending_tasks q = in_hand c + w + at_executor c + at_work c \<and>
         non_idle_count (idle_calls c) = of_bool (\<not> sq_IsIdle q) + to_idle c - int (length (to_activate c)))"

lemma queue_inv_start: "queue_inv queue_start"
  by (simp add: queue_inv_def queue_start_def SetRunning_def sq_IsIdle_def non_idle_count_def)

lemma waiting_nonneg: "\<forall>k \<in> set ks. 0 \<le> k \<Longrightarrow> 0 \<le> sum_list (ks :: int list)"
  by (rule sum_list_nonneg) auto

lemma take_item_length:
  assumes "next_item is_closed q = Inr (it, q')"
  shows "int (length (sq_queue q')) = int (length (sq_queue q)) - 1"
proof -
  from next_item_spec [OF assms] have "size (mset (sq_queue q')) = size (mset (sq_queue q)) - 1" "sq_queue q \<noteq> []"
    by (auto simp: size_Diff_singleton)
  then show ?thesis by (cases "sq_queue q") (auto simp del: size_mset simp: size_mset [symmetric])
qed

lemma queue_step_inv: "queue_step pausing c d \<Longrightarrow> queue_inv c \<Longrightarrow> queue_inv d"
proof (induction rule: queue_step.induct)
  case (add_idle it c k q)
  then show ?case
    by (auto simp: queue_inv_def Let_def add_item_def GetTasksToSubmitToExecutor_def sq_IsIdle_def split: if_splits)
next
  case (add_busy it c k q)
  then show ?case
    using waiting_nonneg [of "to_activate c"]
    by (auto simp: queue_inv_def Let_def add_item_def GetTasksToSubmitToExecutor_def sq_IsIdle_def split: if_splits)
next
  case (activate c xs k ys)
  then show ?case by (simp add: queue_inv_def Let_def non_idle_count_def)
next
  case (add_task c)
  then show ?case by (simp add: queue_inv_def Let_def)
next
  case (submit c k q)
  then show ?case
    using waiting_nonneg [of "to_activate c"]
    by (auto simp: queue_inv_def Let_def SubmitWaitingTasksToExecutor_def GetTasksToSubmitToExecutor_def sq_IsIdle_def split: if_splits)
next
  case (set_running c b)
  then show ?case by (simp add: queue_inv_def Let_def SetRunning_def sq_IsIdle_def)
next
  case (take_item c it q)
  then show ?case
    using waiting_nonneg [of "to_activate c"] take_item_length [OF take_item(2)] next_item_spec [OF take_item(2)]
    by (auto simp: queue_inv_def Let_def sq_IsIdle_def)
next
  case (finish c i q)
  then show ?case
    using waiting_nonneg [of "to_activate c"]
    by (auto simp: queue_inv_def Let_def finish_task_def sq_IsIdle_def)
next
  case (became_idle c)
  then show ?case by (simp add: queue_inv_def Let_def non_idle_count_def)
qed

lemma queue_reaches_inv: "queue_reaches pausing c d \<Longrightarrow> queue_inv c \<Longrightarrow> queue_inv d"
  by (induction rule: queue_reaches.induct) (auto intro: queue_step_inv)

text \<open>While the queue runs, a thread that found it idle carries at least its own task.\<close>

definition run_inv :: "queue_config \<Rightarrow> bool" where
  "run_inv c \<longleftrightarrow> 0 < running_count (the_queue c) \<and> num_tasks_to_add (the_queue c) = 0 \<and>
     length (to_activate c) \<le> 1 \<and> (\<forall>k \<in> set (to_activate c). 1 \<le> k)"

lemma run_inv_start: "run_inv queue_start"
  by (simp add: run_inv_def queue_start_def SetRunning_def)

lemma run_step_inv: "queue_step False c d \<Longrightarrow> queue_inv c \<Longrightarrow> run_inv c \<Longrightarrow> run_inv d"
proof (induction rule: queue_step.induct)
  case (add_idle it c k q)
  have "to_activate c = []"
  proof (rule ccontr)
    assume "to_activate c \<noteq> []"
    with add_idle.prems(2) obtain j where "to_activate c = [j]" "1 \<le> j" by (cases "to_activate c") (auto simp: run_inv_def)
    with add_idle show False by (auto simp: queue_inv_def Let_def add_item_def sq_IsIdle_def)
  qed
  with add_idle show ?case by (auto simp: run_inv_def add_item_def GetTasksToSubmitToExecutor_def Let_def)
next
  case (add_busy it c k q)
  then show ?case by (auto simp: run_inv_def add_item_def GetTasksToSubmitToExecutor_def Let_def)
next
  case (submit c k q)
  then show ?case by (auto simp: run_inv_def SubmitWaitingTasksToExecutor_def GetTasksToSubmitToExecutor_def)
next
  case (take_item c it q)
  then show ?case using next_item_spec [OF take_item(2)] by (simp add: run_inv_def)
next
  case (finish c i q)
  then show ?case by (auto simp: run_inv_def finish_task_def Let_def)
qed (auto simp: run_inv_def)

lemma run_reaches_inv: "queue_reaches False c d \<Longrightarrow> queue_inv c \<Longrightarrow> run_inv c \<Longrightarrow> run_inv d"
  by (induction rule: queue_reaches.induct) (auto intro: run_step_inv queue_reaches_inv)

section \<open>Properties\<close>

text \<open>
  C25: priorities. The comparison of items is the lexicographic order of one key, hence a strict weak order as the priority queue requires: open calls
  first, by increasing node id; then nodes that are not sources, by decreasing id; then sources by
  layer, process order and id. The next item is one of the queue with the largest key, and exactly it leaves the queue.
\<close>

theorem scheduler_priorities:
  "(item_less a b \<longleftrightarrow> item_key a < item_key b) \<and>
   (next_item is_closed q = Inr (it, q') \<longrightarrow>
      it \<in> set (sq_queue q) \<and> (\<forall>x \<in> set (sq_queue q). \<not> item_less it x) \<and> mset (sq_queue q') = mset (sq_queue q) - {#it#})"
  using next_item_spec [of is_closed q it q'] by (auto simp: item_less_key not_less)

definition demo_view :: "int \<Rightarrow> bool \<Rightarrow> node_view" where
  "demo_view i s = \<lparr>view_id = i, view_is_source = s, view_source_layer = 0, view_process_order = Ts i\<rparr>"

definition demo_queue :: SchedulerQueue where
  "demo_queue = \<lparr>sq_queue = [Item_new 1 (demo_view 1 True) DefaultContext, Item_new 2 (demo_view 2 False) DefaultContext,
     Item_open 3 (demo_view 3 False)], num_pending_tasks = 3, num_tasks_to_add = 0, running_count = 1\<rparr>"

theorem scheduler_priorities_witness:
  "\<exists>q'. next_item (\<lambda>_. False) demo_queue = Inr (Item_open 3 (demo_view 3 False), q') \<and>
     mset (sq_queue q') = mset (sq_queue demo_queue) - {#Item_open 3 (demo_view 3 False)#}"
proof -
  define q' where "q' = demo_queue\<lparr>sq_queue := remove1 (Item_open 3 (demo_view 3 False)) (sq_queue demo_queue)\<rparr>"
  have "next_item (\<lambda>_. False) demo_queue = Inr (Item_open 3 (demo_view 3 False), q')"
    by (simp add: next_item_def demo_queue_def Item_new_def Item_open_def demo_view_def item_less_def q'_def)
  with scheduler_priorities [of _ _ "\<lambda>_. False" demo_queue "Item_open 3 (demo_view 3 False)" q'] show ?thesis by blast
qed

text \<open>
  C26: tasks and items agree. In every interleaving, pauses included, a task that runs finds an item in the queue; the count of pending tasks is the number of
  tasks on their way to the executor, at it, or at work; the scheduler's difference of the idle callbacks is one or zero for a busy or idle queue,
  up to the calls that are under way, so that without such calls it is zero exactly when the queue is idle; and while the queue is not paused,
  the difference is never negative.
\<close>

theorem queue_tasks_have_items:
  assumes "queue_reaches pausing queue_start c"
  shows "(0 < at_executor c \<longrightarrow> (\<exists>it q. next_item (\<lambda>_. False) (the_queue c) = Inr (it, q))) \<and>
    num_pending_tasks (the_queue c) = sum_list (to_activate c) + in_hand c + at_executor c + at_work c \<and>
    (to_activate c = [] \<and> to_idle c = 0 \<longrightarrow> (non_idle_count (idle_calls c) = 0 \<longleftrightarrow> sq_IsIdle (the_queue c))) \<and>
    (\<not> pausing \<longrightarrow> 0 \<le> non_idle_count (idle_calls c))"
proof -
  have inv: "queue_inv c" by (rule queue_reaches_inv [OF assms queue_inv_start])
  have w: "0 \<le> sum_list (to_activate c)" using inv by (intro waiting_nonneg) (simp add: queue_inv_def Let_def)
  have item: "0 < at_executor c \<Longrightarrow> sq_queue (the_queue c) \<noteq> []" using inv w by (auto simp: queue_inv_def Let_def)
  have nonneg: "0 \<le> non_idle_count (idle_calls c)" if "\<not> pausing"
  proof (cases "to_activate c")
    case Nil
    then show ?thesis using inv by (simp add: queue_inv_def Let_def)
  next
    case (Cons k ks)
    have "run_inv c" using run_reaches_inv [OF _ queue_inv_start run_inv_start, of c] assms that by simp
    with Cons have "ks = []" "1 \<le> k" by (auto simp: run_inv_def)
    with inv Cons show ?thesis by (auto simp: queue_inv_def Let_def sq_IsIdle_def)
  qed
  show ?thesis using inv item next_item_total nonneg by (auto simp: queue_inv_def Let_def)
qed

text \<open>Runs by their steps.\<close>

definition do_add :: "Item \<Rightarrow> queue_config \<Rightarrow> queue_config" where
  "do_add it c = (case add_item it (the_queue c) of
     (True, k, q) \<Rightarrow> c\<lparr>the_queue := q, to_activate := k # to_activate c\<rparr>
   | (False, k, q) \<Rightarrow> c\<lparr>the_queue := q, in_hand := in_hand c + k\<rparr>)"

definition do_work :: "queue_config \<Rightarrow> queue_config" where
  "do_work c = (case next_item (\<lambda>_. False) (the_queue c) of
     Inl _ \<Rightarrow> c | Inr (it, q) \<Rightarrow> c\<lparr>the_queue := q, at_executor := at_executor c - 1, at_work := at_work c + 1\<rparr>)"

lemma reaches_add: "queue_reaches p c d \<Longrightarrow> queue_reaches p c (do_add it d)"
  by (auto simp: do_add_def split: prod.splits bool.splits intro: queue_reaches.step queue_step.intros)

lemma reaches_work: "queue_reaches p c d \<Longrightarrow> 0 < at_executor d \<Longrightarrow> queue_reaches p c (do_work d)"
  by (auto simp: do_work_def split: sum.splits intro: queue_reaches.step queue_step.intros)

definition do_activate :: "queue_config \<Rightarrow> queue_config" where
  "do_activate c = (case to_activate c of
     [] \<Rightarrow> c | k # ks \<Rightarrow> c\<lparr>to_activate := ks, in_hand := in_hand c + k, idle_calls := idle_calls c @ [False]\<rparr>)"

definition do_task :: "queue_config \<Rightarrow> queue_config" where
  "do_task c = c\<lparr>in_hand := in_hand c - 1, at_executor := at_executor c + 1\<rparr>"

definition do_submit :: "queue_config \<Rightarrow> queue_config" where
  "do_submit c = (case SubmitWaitingTasksToExecutor (the_queue c) of (k, q) \<Rightarrow> c\<lparr>the_queue := q, in_hand := in_hand c + k\<rparr>)"

definition do_running :: "bool \<Rightarrow> queue_config \<Rightarrow> queue_config" where
  "do_running b c = c\<lparr>the_queue := SetRunning b (the_queue c)\<rparr>"

definition do_finish :: "queue_config \<Rightarrow> queue_config" where
  "do_finish c = (case finish_task (the_queue c) of
     (i, q) \<Rightarrow> c\<lparr>the_queue := q, at_work := at_work c - 1, to_idle := to_idle c + of_bool i\<rparr>)"

definition do_idle :: "queue_config \<Rightarrow> queue_config" where
  "do_idle c = c\<lparr>to_idle := to_idle c - 1, idle_calls := idle_calls c @ [True]\<rparr>"

lemma reaches_activate: "queue_reaches p c d \<Longrightarrow> queue_reaches p c (do_activate d)"
  using queue_reaches.step [OF _ queue_step.activate [of d "[]"]] by (auto simp: do_activate_def split: list.splits)

lemma reaches_task: "queue_reaches p c d \<Longrightarrow> 0 < in_hand d \<Longrightarrow> queue_reaches p c (do_task d)"
  by (auto simp: do_task_def intro: queue_reaches.step queue_step.intros)

lemma reaches_submit: "queue_reaches p c d \<Longrightarrow> queue_reaches p c (do_submit d)"
  by (auto simp: do_submit_def split: prod.splits intro: queue_reaches.step queue_step.intros)

lemma reaches_running: "queue_reaches True c d \<Longrightarrow> queue_reaches True c (do_running b d)"
  by (auto simp: do_running_def intro: queue_reaches.step queue_step.intros)

lemma reaches_finish:
  assumes "queue_reaches p c d" "0 < at_work d"
  shows "queue_reaches p c (do_finish d)"
proof (cases "finish_task (the_queue d)")
  case (Pair i q)
  from queue_reaches.step [OF assms(1) queue_step.finish [OF assms(2) Pair]] show ?thesis
    by (simp add: do_finish_def Pair)
qed

lemma reaches_idle: "queue_reaches p c d \<Longrightarrow> 0 < to_idle d \<Longrightarrow> queue_reaches p c (do_idle d)"
  by (auto simp: do_idle_def intro: queue_reaches.step queue_step.intros)

lemmas do_defs = do_add_def do_work_def do_activate_def do_task_def do_submit_def do_running_def do_finish_def do_idle_def
  queue_start_def add_item_def GetTasksToSubmitToExecutor_def SubmitWaitingTasksToExecutor_def finish_task_def next_item_def
  SetRunning_def sq_IsIdle_def non_idle_count_def

text \<open>One task runs to its end; before its thread reports the queue idle, another item arrives.\<close>

definition busy_again :: queue_config where
  "busy_again = do_add (Item_new 2 (demo_view 2 False) DefaultContext) (do_finish (do_work (do_task (do_activate
     (do_add (Item_new 1 (demo_view 1 False) DefaultContext) queue_start)))))"

text \<open>An item is added while the queue is paused; the queue resumes and runs it before the adding thread reports it active.\<close>

definition idle_before_active :: queue_config where
  "idle_before_active = do_idle (do_finish (do_work (do_task (do_submit (do_running True
     (do_add (Item_new 1 (demo_view 1 False) DefaultContext) (do_running False queue_start)))))))"

lemma busy_again_reached: "queue_reaches False queue_start busy_again"
  unfolding busy_again_def
  by (intro reaches_add reaches_finish reaches_work reaches_task reaches_activate queue_reaches.refl) (simp_all add: do_defs)

theorem queue_tasks_have_items_witness:
  "num_pending_tasks (the_queue busy_again) = sum_list (to_activate busy_again) + in_hand busy_again + at_executor busy_again + at_work busy_again \<and>
   0 \<le> non_idle_count (idle_calls busy_again)"
  using queue_tasks_have_items [OF busy_again_reached] by blast

text \<open>
  The idle callbacks mislead. Two things the documentation of the idle callback excludes can happen. The difference of the calls reaches zero at a report of idleness while
  the queue holds an item, when the item arrived between the last task's end and its report; and in a queue that is
  paused and resumed, idleness is reported before activity, so that the difference is negative.
\<close>

theorem idle_callbacks_mislead:
  "(queue_reaches False queue_start (do_idle busy_again) \<and> idle_calls (do_idle busy_again) = [False, True] \<and>
      non_idle_count (idle_calls (do_idle busy_again)) = 0 \<and> \<not> sq_IsIdle (the_queue (do_idle busy_again))) \<and>
   (queue_reaches True queue_start idle_before_active \<and> idle_calls idle_before_active = [True] \<and>
      non_idle_count (idle_calls idle_before_active) = - 1)"
proof (intro conjI)
  show "queue_reaches False queue_start (do_idle busy_again)"
    by (rule reaches_idle [OF busy_again_reached]) (simp add: busy_again_def do_defs)
  show "queue_reaches True queue_start idle_before_active"
    unfolding idle_before_active_def
    by (intro reaches_idle reaches_add reaches_finish reaches_work reaches_task reaches_submit reaches_running queue_reaches.refl)
      (simp_all add: do_defs)
qed (simp_all add: busy_again_def idle_before_active_def do_defs)

end
