(* ===== verification/Graph_Scheduler.thy ===== *)
theory Graph_Scheduler
  imports Scheduler_Queue
begin

text \<open>
  \<^verbatim>\<open>scheduler.h\<close> and \<^verbatim>\<open>.cc\<close>: the state machine of a graph's run.  Everything that runs under \<^verbatim>\<open>state_mutex_\<close> is a
  function on the scheduler's record.  \<^verbatim>\<open>HandleIdle\<close> releases the mutex in two places, to activate a layer of sources and to
  unthrottle, and may be called again meanwhile; it is cut there.  Its loop can run for ever
  without releasing the mutex, which is the value \<open>None\<close>.  Nodes are numbers; what the scheduler reads of them
  is given by \<open>V\<close>, and \<open>is_closed\<close> holds of those whose status is closed.  Recording an error raises the flag that the queues share;
  timers are not modelled.
\<close>

section \<open>The scheduler\<close>

datatype SchedulerState = STATE_NOT_STARTED | STATE_RUNNING | STATE_PAUSED | STATE_CANCELLING | STATE_TERMINATED

record Scheduler =
  sched_state :: SchedulerState
  shared :: SchedulerShared
  scheduler_queues :: "SchedulerQueue list"
  sources_queue :: "Item list"
  unopened_sources :: "nat list"
  active_sources :: "nat list"
  non_idle_queue_count :: int
  app_thread_tasks :: "nat list"
  handling_idle :: int
  graph_input_streams_closed :: bool
  throttled_graph_input_stream_count :: int
  unthrottle_seq_num :: int
  observed_output_signal :: bool
  waiting_for_observed_output :: bool

definition Scheduler_new :: "SchedulerQueue list \<Rightarrow> Scheduler" where
  "Scheduler_new qs =
     \<lparr>sched_state = STATE_NOT_STARTED, shared = \<lparr>stopping = False, has_error = False\<rparr>, scheduler_queues = qs, sources_queue = [],
      unopened_sources = [], active_sources = [], non_idle_queue_count = 0, app_thread_tasks = [], handling_idle = 0,
      graph_input_streams_closed = False, throttled_graph_input_stream_count = 0, unthrottle_seq_num = 0,
      observed_output_signal = False, waiting_for_observed_output = False\<rparr>"

definition sch_Reset :: "bool \<Rightarrow> Scheduler \<Rightarrow> Scheduler" where
  "sch_Reset inputs_closed s =
     s\<lparr>sched_state := STATE_NOT_STARTED, graph_input_streams_closed := inputs_closed, throttled_graph_input_stream_count := 0,
       unthrottle_seq_num := 0, observed_output_signal := False, scheduler_queues := map sq_Reset (scheduler_queues s),
       shared := \<lparr>stopping = False, has_error = False\<rparr>\<rparr>"

definition CloseAllSourceNodes :: "Scheduler \<Rightarrow> Scheduler" where
  "CloseAllSourceNodes s = s\<lparr>shared := (shared s)\<lparr>stopping := True\<rparr>\<rparr>"

definition SetHasError :: "bool \<Rightarrow> Scheduler \<Rightarrow> Scheduler" where
  "SetHasError b s = s\<lparr>shared := (shared s)\<lparr>has_error := b\<rparr>\<rparr>"

definition SetQueuesRunning :: "bool \<Rightarrow> Scheduler \<Rightarrow> Scheduler" where
  "SetQueuesRunning b s = s\<lparr>scheduler_queues := map (SetRunning b) (scheduler_queues s)\<rparr>"

text \<open>The tasks handed to each executor, and the scheduler.\<close>

definition SubmitWaitingTasksOnQueues :: "Scheduler \<Rightarrow> int list \<times> Scheduler" where
  "SubmitWaitingTasksOnQueues s =
     (map (fst \<circ> SubmitWaitingTasksToExecutor) (scheduler_queues s),
      s\<lparr>scheduler_queues := map (snd \<circ> SubmitWaitingTasksToExecutor) (scheduler_queues s)\<rparr>)"

definition sch_IsIdle :: "Scheduler \<Rightarrow> bool" where
  "sch_IsIdle s \<longleftrightarrow> non_idle_queue_count s = 0"

definition Quit :: "Scheduler \<Rightarrow> ts_error + Scheduler" where
  "Quit s =
     (if sched_state s \<noteq> STATE_RUNNING \<and> sched_state s \<noteq> STATE_CANCELLING then Inl CheckFailed
      else Inr ((SetQueuesRunning False s)\<lparr>sched_state := STATE_TERMINATED\<rparr>))"

definition CleanupActiveSources :: "(nat \<Rightarrow> bool) \<Rightarrow> Scheduler \<Rightarrow> Scheduler" where
  "CleanupActiveSources is_closed s = s\<lparr>active_sources := rev (dropWhile is_closed (rev (active_sources s)))\<rparr>"

section \<open>Layers of sources\<close>

text \<open>The sources taken from the queue: from the top, while the layer stays the same.\<close>

function take_layer :: "(nat \<Rightarrow> node_view) \<Rightarrow> Item list \<Rightarrow> Item list \<Rightarrow> Item list \<times> Item list" where
  "take_layer V acts [] = (acts, [])"
| "take_layer V acts (x # xs) =
     (let top = pq_top xs x
      in if acts \<noteq> [] \<and> view_source_layer (V (item_node top)) \<noteq> view_source_layer (V (item_node (last acts)))
         then (acts, x # xs)
         else take_layer V (acts @ [top]) (remove1 top (x # xs)))"
  by pat_completeness auto

lemma pq_top_mem: "pq_top xs x \<in> set (x # xs)"
  using pq_top_in [of xs x] by simp

lemma pop_top_mset: "mset (x # xs) = add_mset (pq_top xs x) (mset (remove1 (pq_top xs x) (x # xs)))"
  using pq_top_mem [of xs x] by (simp only: mset_remove1 set_mset_mset [symmetric] insert_DiffM)

lemma pop_top_shorter: "length (remove1 (pq_top xs x) (x # xs)) < Suc (length xs)"
  using pq_top_mem [of xs x] by (simp add: length_remove1 del: remove1.simps)

termination take_layer
  by (relation "measure (\<lambda>(V, acts, q). length q)") (simp_all add: pop_top_shorter del: remove1.simps)

declare take_layer.simps(2) [simp del]

text \<open>The part of \<^verbatim>\<open>TryToScheduleNextSourceLayer\<close> under the mutex: the items to activate, if any.\<close>

definition begin_layer :: "(nat \<Rightarrow> node_view) \<Rightarrow> Scheduler \<Rightarrow> ts_error + (Item list \<times> Scheduler)" where
  "begin_layer V s =
     (if active_sources s \<noteq> [] then Inl CheckFailed
      else case sources_queue s of
             [] \<Rightarrow> Inl CheckFailed
           | x # xs \<Rightarrow>
               if unopened_sources s \<noteq> [] \<and>
                  view_source_layer (V (hd (unopened_sources s))) < view_source_layer (V (item_node (pq_top xs x)))
               then Inr ([], if graph_input_streams_closed s then SetHasError True s else s)
               else (case take_layer V [] (sources_queue s) of
                       (acts, q) \<Rightarrow> Inr (acts, s\<lparr>active_sources := map item_node acts, sources_queue := q\<rparr>)))"

text \<open>The part without it: one source is activated and, unless throttled, added to its queue, the \<open>k\<close>-th.\<close>

definition ScheduleNodeIfNotThrottled ::
  "bool \<Rightarrow> nat \<Rightarrow> Item \<Rightarrow> CalculatorNode \<Rightarrow> Scheduler \<Rightarrow> ts_error + ((bool \<times> int) option \<times> CalculatorNode \<times> Scheduler)" where
  "ScheduleNodeIfNotThrottled throttled k it n s =
     (if throttled then Inr (None, n, s)
      else if \<not> k < length (scheduler_queues s) then Inl CheckFailed
      else case AddNode (shared s) it n (scheduler_queues s ! k) of
             Inl e \<Rightarrow> Inl e
           | Inr (r, n', q) \<Rightarrow> Inr (r, n', s\<lparr>scheduler_queues := (scheduler_queues s)[k := q]\<rparr>))"

definition start_source ::
  "bool \<Rightarrow> nat \<Rightarrow> Item \<Rightarrow> CalculatorNode \<Rightarrow> Scheduler \<Rightarrow> ts_error + ((bool \<times> int) option \<times> CalculatorNode \<times> Scheduler)" where
  "start_source throttled k it n s =
     (case ActivateNode n of Inl e \<Rightarrow> Inl e | Inr n' \<Rightarrow> ScheduleNodeIfNotThrottled throttled k it n' s)"

definition ScheduleNodeForOpen :: "nat \<Rightarrow> Item \<Rightarrow> Scheduler \<Rightarrow> ts_error + ((bool \<times> int) option \<times> Scheduler)" where
  "ScheduleNodeForOpen k it s =
     (if \<not> k < length (scheduler_queues s) then Inl CheckFailed
      else case AddNodeForOpen (shared s) it (scheduler_queues s ! k) of
             (r, q) \<Rightarrow> Inr (r, s\<lparr>scheduler_queues := (scheduler_queues s)[k := q]\<rparr>))"

definition AddUnopenedSourceNode :: "(nat \<Rightarrow> node_view) \<Rightarrow> nat \<Rightarrow> Scheduler \<Rightarrow> ts_error + Scheduler" where
  "AddUnopenedSourceNode V n s =
     (if sched_state s \<noteq> STATE_NOT_STARTED then Inl CheckFailed
      else Inr (s\<lparr>unopened_sources := insort_insert_key (\<lambda>m. (view_source_layer (V m), view_id (V m))) n (unopened_sources s)\<rparr>))"

definition AddNodeToSourcesQueue :: "(nat \<Rightarrow> node_view) \<Rightarrow> nat \<Rightarrow> Scheduler \<Rightarrow> Scheduler" where
  "AddNodeToSourcesQueue V n s =
     s\<lparr>sources_queue := sources_queue s @ [Item_new n (V n) DefaultContext], unopened_sources := removeAll n (unopened_sources s)\<rparr>"

section \<open>Idleness\<close>

text \<open>What the thread in \<^verbatim>\<open>HandleIdle\<close> does next: leave, go round again, or release the mutex for one of the two purposes.\<close>

datatype idle_next = Leave | Again | Activate "Item list" | Unthrottle

definition idle_again :: "Scheduler \<Rightarrow> idle_next \<times> Scheduler" where
  "idle_again s = (if 1 < handling_idle s then (Again, s\<lparr>handling_idle := 1\<rparr>) else (Leave, s\<lparr>handling_idle := 0\<rparr>))"

definition idle_round :: "(nat \<Rightarrow> node_view) \<Rightarrow> (nat \<Rightarrow> bool) \<Rightarrow> Scheduler \<Rightarrow> ts_error + (idle_next \<times> Scheduler)" where
  "idle_round V is_closed s0 =
     (if \<not> (sch_IsIdle s0 \<and> (sched_state s0 = STATE_RUNNING \<or> sched_state s0 = STATE_CANCELLING))
      then Inr (Leave, s0\<lparr>handling_idle := 0\<rparr>)
      else
        let s = CleanupActiveSources is_closed s0
        in if has_error (shared s) \<or> active_sources s = [] \<and> sources_queue s = [] \<and> graph_input_streams_closed s
           then (case Quit s of Inl e \<Rightarrow> Inl e | Inr s1 \<Rightarrow> Inr (Leave, s1\<lparr>handling_idle := 0\<rparr>))
           else if active_sources s = [] \<and> sources_queue s \<noteq> [] then
             (case begin_layer V s of
                Inl e \<Rightarrow> Inl e
              | Inr (acts, s1) \<Rightarrow>
                  if acts \<noteq> [] then Inr (Activate acts, s1)
                  else if active_sources s1 = [] then Inr (Again, s1) else Inl CheckFailed)
           else if active_sources s \<noteq> [] \<or> 0 < throttled_graph_input_stream_count s then Inr (Unthrottle, s)
           else Inr (idle_again s))"

partial_function (option) idle_loop ::
  "(nat \<Rightarrow> node_view) \<Rightarrow> (nat \<Rightarrow> bool) \<Rightarrow> Scheduler \<Rightarrow> (ts_error + (idle_next \<times> Scheduler)) option" where
  "idle_loop V is_closed s =
     (case idle_round V is_closed s of
        Inl e \<Rightarrow> Some (Inl e)
      | Inr (Again, s') \<Rightarrow> idle_loop V is_closed s'
      | Inr (x, s') \<Rightarrow> Some (Inr (x, s')))"

text \<open>The entrance: whether the calling thread goes into the loop.\<close>

definition idle_enter :: "Scheduler \<Rightarrow> bool \<times> Scheduler" where
  "idle_enter s = (let s1 = s\<lparr>handling_idle := handling_idle s + 1\<rparr> in (\<not> 1 < handling_idle s1, s1))"

definition HandleIdle ::
  "(nat \<Rightarrow> node_view) \<Rightarrow> (nat \<Rightarrow> bool) \<Rightarrow> Scheduler \<Rightarrow> (ts_error + (idle_next \<times> Scheduler)) option" where
  "HandleIdle V is_closed s =
     (case idle_enter s of (True, s1) \<Rightarrow> idle_loop V is_closed s1 | (False, s1) \<Rightarrow> Some (Inr (Leave, s1)))"

text \<open>After the sources have been unthrottled and the mutex is taken again.\<close>

definition after_unthrottle :: "bool \<Rightarrow> Scheduler \<Rightarrow> idle_next \<times> Scheduler" where
  "after_unthrottle did_unthrottle s = (if did_unthrottle then (Again, s) else idle_again s)"

section \<open>Operations\<close>

text \<open>The operations that may end in \<^verbatim>\<open>HandleIdle\<close>: whether they do, and the scheduler then.\<close>

definition Start :: "Scheduler \<Rightarrow> ts_error + (bool \<times> Scheduler)" where
  "Start s =
     (if sched_state s \<noteq> STATE_NOT_STARTED then Inl CheckFailed
      else Inr (True, SetQueuesRunning True (s\<lparr>sched_state := STATE_RUNNING\<rparr>)))"

definition QueueIdleStateChanged :: "bool \<Rightarrow> Scheduler \<Rightarrow> bool \<times> Scheduler" where
  "QueueIdleStateChanged idle s =
     (let s1 = s\<lparr>non_idle_queue_count := non_idle_queue_count s + (if idle then - 1 else 1)\<rparr> in (non_idle_queue_count s1 = 0, s1))"

definition AddedPacketToGraphInputStream :: "Scheduler \<Rightarrow> bool \<times> Scheduler" where
  "AddedPacketToGraphInputStream s = (sched_state s \<noteq> STATE_TERMINATED, s)"

definition ClosedAllGraphInputStreams :: "Scheduler \<Rightarrow> bool \<times> Scheduler" where
  "ClosedAllGraphInputStreams s = (True, s\<lparr>graph_input_streams_closed := True\<rparr>)"

definition Pause :: "Scheduler \<Rightarrow> bool \<times> Scheduler" where
  "Pause s = (False, if sched_state s \<noteq> STATE_RUNNING then s else SetQueuesRunning False (s\<lparr>sched_state := STATE_PAUSED\<rparr>))"

definition Resume :: "Scheduler \<Rightarrow> bool \<times> Scheduler" where
  "Resume s =
     (if sched_state s \<noteq> STATE_PAUSED then (False, s)
      else (True, SetQueuesRunning True (s\<lparr>sched_state := STATE_RUNNING\<rparr>)))"

definition Cancel :: "Scheduler \<Rightarrow> bool \<times> Scheduler" where
  "Cancel s =
     (if sched_state s \<noteq> STATE_RUNNING \<and> sched_state s \<noteq> STATE_PAUSED then (False, s)
      else
        let s1 = SetHasError True s;
            s2 = (if sched_state s1 = STATE_PAUSED then SetQueuesRunning True s1 else s1)
        in (True, s2\<lparr>sched_state := STATE_CANCELLING\<rparr>))"

definition ThrottledGraphInputStream :: "Scheduler \<Rightarrow> Scheduler" where
  "ThrottledGraphInputStream s = s\<lparr>throttled_graph_input_stream_count := throttled_graph_input_stream_count s + 1\<rparr>"

definition UnthrottledGraphInputStream :: "Scheduler \<Rightarrow> Scheduler" where
  "UnthrottledGraphInputStream s =
     s\<lparr>throttled_graph_input_stream_count := throttled_graph_input_stream_count s - 1, unthrottle_seq_num := unthrottle_seq_num s + 1\<rparr>"

definition AddApplicationThreadTask :: "nat \<Rightarrow> Scheduler \<Rightarrow> bool \<times> Scheduler" where
  "AddApplicationThreadTask t s =
     (let s1 = s\<lparr>app_thread_tasks := app_thread_tasks s @ [t]\<rparr> in (length (app_thread_tasks s1) = 1, s1))"

definition EmittedObservedOutput :: "Scheduler \<Rightarrow> bool \<times> Scheduler" where
  "EmittedObservedOutput s = (waiting_for_observed_output s, s\<lparr>observed_output_signal := True\<rparr>)"

text \<open>The conditions the application thread waits for, and one turn of its waiting.\<close>

definition unthrottled_since :: "int \<Rightarrow> Scheduler \<Rightarrow> bool \<times> Scheduler" where
  "unthrottled_since seq_num s = (unthrottle_seq_num s \<noteq> seq_num \<or> sched_state s = STATE_TERMINATED, s)"

definition observed_stop :: "Scheduler \<Rightarrow> bool \<times> Scheduler" where
  "observed_stop s =
     (let w = (\<not> observed_output_signal s \<and> sched_state s \<noteq> STATE_TERMINATED)
      in (\<not> w, s\<lparr>observed_output_signal := False, waiting_for_observed_output := w\<rparr>))"

datatype await_next = Returns | Waits | Runs nat

definition await_turn :: "(Scheduler \<Rightarrow> bool \<times> Scheduler) \<Rightarrow> Scheduler \<Rightarrow> await_next \<times> Scheduler" where
  "await_turn stop_condition s =
     (case stop_condition s of
        (True, s1) \<Rightarrow> (Returns, s1)
      | (False, s1) \<Rightarrow> (case app_thread_tasks s1 of [] \<Rightarrow> (Waits, s1) | t # ts \<Rightarrow> (Runs t, s1\<lparr>app_thread_tasks := ts\<rparr>)))"

text \<open>Cleaning up after a run; a queue that was not idle reports that it is.\<close>

fun cleanup_queues :: "(nat \<Rightarrow> node_view) \<Rightarrow> (nat \<Rightarrow> bool) \<Rightarrow> nat list \<Rightarrow> Scheduler \<Rightarrow> (ts_error + Scheduler) option" where
  "cleanup_queues V is_closed [] s = Some (Inr s)"
| "cleanup_queues V is_closed (k # ks) s =
     (case sq_CleanupAfterRun (scheduler_queues s ! k) of
        Inl e \<Rightarrow> Some (Inl e)
      | Inr (busy, q) \<Rightarrow>
          (let s1 = s\<lparr>scheduler_queues := (scheduler_queues s)[k := q]\<rparr>
           in if \<not> busy then cleanup_queues V is_closed ks s1
              else case QueueIdleStateChanged True s1 of
                     (False, s2) \<Rightarrow> cleanup_queues V is_closed ks s2
                   | (True, s2) \<Rightarrow>
                       (case HandleIdle V is_closed s2 of
                          None \<Rightarrow> None
                        | Some (Inl e) \<Rightarrow> Some (Inl e)
                        | Some (Inr (_, s3)) \<Rightarrow> cleanup_queues V is_closed ks s3)))"

definition sch_CleanupAfterRun :: "(nat \<Rightarrow> node_view) \<Rightarrow> (nat \<Rightarrow> bool) \<Rightarrow> Scheduler \<Rightarrow> (ts_error + Scheduler) option" where
  "sch_CleanupAfterRun V is_closed s =
     (if app_thread_tasks s \<noteq> [] then Some (Inl CheckFailed)
      else case cleanup_queues V is_closed [0..<length (scheduler_queues s)] (s\<lparr>sources_queue := []\<rparr>) of
             None \<Rightarrow> None
           | Some (Inl e) \<Rightarrow> Some (Inl e)
           | Some (Inr s1) \<Rightarrow> Some (Inr (SetHasError False (s1\<lparr>unopened_sources := [], active_sources := []\<rparr>))))"

section \<open>Threads\<close>

text \<open>
  Where the thread inside \<^verbatim>\<open>HandleIdle\<close> is: nowhere, at the head of the loop with the mutex, about to pause the queues, adding the
  sources of a layer, or unthrottling.  \<open>closed_nodes\<close>: the nodes that are closed.  Two fields record what has happened and are
  read by no operation: \<open>unasked\<close>, that the sources or the error flag changed or a graph input was throttled after
  \<^verbatim>\<open>HandleIdle\<close> was last called; and \<open>tried\<close>, whether an attempt to unthrottle begun after that call is under way or has found nothing.
\<close>

datatype attempt = Untried | Trying | Fruitless

datatype idle_pc = Outside | Rounding | Activating "Item list" | Filling "Item list" | Unthrottling

record sched_config =
  sched :: Scheduler
  idle_at :: idle_pc
  closed_nodes :: "nat set"
  unasked :: bool
  tried :: attempt

fun idle_goes :: "idle_next \<Rightarrow> idle_pc" where
  "idle_goes Leave = Outside"
| "idle_goes Again = Rounding"
| "idle_goes (Activate acts) = Activating acts"
| "idle_goes Unthrottle = Unthrottling"

datatype sched_call = CallStart | CallIdle bool | CallAdded | CallClosedAll | CallPause | CallResume | CallCancel

fun run_call :: "sched_call \<Rightarrow> Scheduler \<Rightarrow> ts_error + (bool \<times> Scheduler)" where
  "run_call CallStart s = Start s"
| "run_call (CallIdle b) s = Inr (QueueIdleStateChanged b s)"
| "run_call CallAdded s = Inr (AddedPacketToGraphInputStream s)"
| "run_call CallClosedAll s = Inr (ClosedAllGraphInputStreams s)"
| "run_call CallPause s = Inr (Pause s)"
| "run_call CallResume s = Inr (Resume s)"
| "run_call CallCancel s = Inr (Cancel s)"

definition after_call :: "bool \<times> Scheduler \<Rightarrow> sched_config \<Rightarrow> sched_config" where
  "after_call r c =
     (case r of
        (False, s) \<Rightarrow> c\<lparr>sched := s\<rparr>
      | (True, s) \<Rightarrow>
          (case idle_enter s of
             (inside, s1) \<Rightarrow> c\<lparr>sched := s1, idle_at := (if inside then Rounding else idle_at c), unasked := False, tried := Untried\<rparr>))"

inductive sched_step :: "(nat \<Rightarrow> node_view) \<Rightarrow> sched_config \<Rightarrow> sched_config \<Rightarrow> bool" for V where
  calls: "idle_at c \<noteq> Rounding \<Longrightarrow> run_call k (sched c) = Inr r \<Longrightarrow> sched_step V c (after_call r c)"
| round: "idle_at c = Rounding \<Longrightarrow> idle_round V (\<lambda>n. n \<in> closed_nodes c) (sched c) = Inr (x, s) \<Longrightarrow>
    sched_step V c (c\<lparr>sched := s, idle_at := idle_goes x, tried := (if x = Unthrottle then Trying else tried c)\<rparr>)"
| pause_queues: "idle_at c = Activating acts \<Longrightarrow>
    sched_step V c (c\<lparr>sched := SetQueuesRunning False (sched c), idle_at := Filling acts\<rparr>)"
| fill: "idle_at c = Filling (a # acts) \<Longrightarrow> start_source throttled k a n (sched c) = Inr (r, n', s) \<Longrightarrow>
    sched_step V c (c\<lparr>sched := s, idle_at := Filling acts\<rparr>)"
| filled: "idle_at c = Filling [] \<Longrightarrow>
    sched_step V c (c\<lparr>sched := snd (SubmitWaitingTasksOnQueues (SetQueuesRunning True (sched c))), idle_at := Rounding\<rparr>)"
| unthrottled: "idle_at c = Unthrottling \<Longrightarrow> after_unthrottle did_unthrottle (sched c) = (x, s) \<Longrightarrow>
    sched_step V c (c\<lparr>sched := s, idle_at := idle_goes x, tried := (if \<not> did_unthrottle \<and> tried c = Trying then Fruitless else Untried)\<rparr>)"
| throttle: "idle_at c \<noteq> Rounding \<Longrightarrow> sched_step V c (c\<lparr>sched := ThrottledGraphInputStream (sched c), unasked := True\<rparr>)"
| unthrottle: "idle_at c \<noteq> Rounding \<Longrightarrow> sched_step V c (c\<lparr>sched := UnthrottledGraphInputStream (sched c)\<rparr>)"
| source_opened: "idle_at c \<noteq> Rounding \<Longrightarrow> n \<in> set (unopened_sources (sched c)) \<Longrightarrow>
    sched_step V c (c\<lparr>sched := AddNodeToSourcesQueue V n (sched c), unasked := True\<rparr>)"
| node_closes: "sched_step V c (c\<lparr>closed_nodes := insert n (closed_nodes c), unasked := True\<rparr>)"
| error: "sched_step V c (c\<lparr>sched := SetHasError True (sched c), unasked := True\<rparr>)"
| stop_sources: "sched_step V c (c\<lparr>sched := CloseAllSourceNodes (sched c)\<rparr>)"
| queue_work: "map running_count qs = map running_count (scheduler_queues (sched c)) \<Longrightarrow>
    sched_step V c (c\<lparr>sched := (sched c)\<lparr>scheduler_queues := qs\<rparr>\<rparr>)"

inductive sched_reaches :: "(nat \<Rightarrow> node_view) \<Rightarrow> sched_config \<Rightarrow> sched_config \<Rightarrow> bool" for V where
  refl: "sched_reaches V c c"
| step: "sched_reaches V c d \<Longrightarrow> sched_step V d e \<Longrightarrow> sched_reaches V c e"

definition sched_start :: "SchedulerQueue list \<Rightarrow> bool \<Rightarrow> nat list \<Rightarrow> sched_config" where
  "sched_start qs inputs_closed sources =
     \<lparr>sched = (sch_Reset inputs_closed (Scheduler_new qs))\<lparr>unopened_sources := sources\<rparr>, idle_at = Outside, closed_nodes = {}, unasked = False, tried = Untried\<rparr>"

section \<open>Layers\<close>

lemma take_layer_nonempty: "q \<noteq> [] \<or> acts \<noteq> [] \<Longrightarrow> fst (take_layer V acts q) \<noteq> []"
  by (induction V acts q rule: take_layer.induct) (simp_all add: take_layer.simps(2) Let_def)

definition source_item :: "(nat \<Rightarrow> node_view) \<Rightarrow> Item \<Rightarrow> bool" where
  "source_item V x \<longleftrightarrow> is_source x \<and> \<not> is_open_node x \<and> item_layer x = view_source_layer (V (item_node x))"

lemma pq_top_least_layer:
  assumes "\<forall>y \<in> set (x # xs). source_item V y" "y \<in> set (x # xs)"
  shows "item_layer (pq_top xs x) \<le> item_layer y"
proof -
  have "source_item V (pq_top xs x)" "source_item V y" using assms pq_top_mem by blast+
  moreover have "item_key y \<le> item_key (pq_top xs x)" using pq_top_max [of y x xs] assms(2) by simp
  ultimately show ?thesis by (auto simp: item_key_def source_item_def)
qed

lemma take_layer_spec:
  assumes "take_layer V acts q = (acts', q')" and "\<forall>y \<in> set (acts @ q). source_item V y"
    and "\<forall>y \<in> set acts. item_layer y = l" and "\<forall>y \<in> set q. l \<le> item_layer y" and "acts \<noteq> []"
  shows "mset acts' + mset q' = mset acts + mset q \<and> (\<forall>y \<in> set acts'. item_layer y = l) \<and> (\<forall>y \<in> set q'. l < item_layer y)"
  using assms
proof (induction V acts q arbitrary: acts' q' rule: take_layer.induct)
  case (2 V acts x xs)
  define top where "top = pq_top xs x"
  have top: "top \<in> set (x # xs)" by (simp only: top_def pq_top_mem)
  then have src: "source_item V top" "source_item V (last acts)" "item_layer (last acts) = l" using 2(3,4,6) by auto
  show ?case
  proof (cases "item_layer top = l")
    case False
    with 2(2,6) src have "acts' = acts" "q' = x # xs" by (auto simp: take_layer.simps(2) Let_def source_item_def top_def [symmetric])
    moreover have "l < item_layer y" if "y \<in> set (x # xs)" for y
    proof -
      have "\<forall>z \<in> set (x # xs). source_item V z" using 2(3) by simp
      from pq_top_least_layer [OF this that] have "item_layer top \<le> item_layer y" by (simp only: top_def)
      moreover have "l \<le> item_layer top" using 2(5) top by blast
      ultimately show ?thesis using False by simp
    qed
    ultimately show ?thesis using 2(4) by simp
  next
    case True
    have sub: "set (remove1 top (x # xs)) \<subseteq> set (x # xs)" by (rule set_remove1_subset)
    have "take_layer V (acts @ [top]) (remove1 top (x # xs)) = (acts', q')"
      using 2(2) True src by (simp add: take_layer.simps(2) Let_def source_item_def top_def [symmetric] del: remove1.simps)
    moreover have "mset (acts @ [top]) + mset (remove1 top (x # xs)) = mset acts + mset (x # xs)"
      by (simp only: pop_top_mset top_def) (simp del: remove1.simps)
    moreover have "\<forall>y \<in> set ((acts @ [top]) @ remove1 top (x # xs)). source_item V y" using 2(3) sub top by auto
    moreover have "\<forall>y \<in> set (acts @ [top]). item_layer y = l" using 2(4) True by simp
    moreover have "\<forall>y \<in> set (remove1 top (x # xs)). l \<le> item_layer y" using 2(5) sub by blast
    ultimately show ?thesis using 2(1) [OF top_def] True src by (simp add: source_item_def del: remove1.simps)
  qed
qed simp

section \<open>The loop\<close>

definition is_running :: "Scheduler \<Rightarrow> bool" where
  "is_running s \<longleftrightarrow> sched_state s = STATE_RUNNING \<or> sched_state s = STATE_CANCELLING"

text \<open>Nothing to quit for and no layer to activate.\<close>

definition no_quit_no_layer :: "(nat \<Rightarrow> bool) \<Rightarrow> Scheduler \<Rightarrow> bool" where
  "no_quit_no_layer is_closed s \<longleftrightarrow> \<not> has_error (shared s) \<and>
     (active_sources (CleanupActiveSources is_closed s) \<noteq> [] \<or> sources_queue s = [] \<and> \<not> graph_input_streams_closed s)"

text \<open>The next layer waits for a source of a lower layer that is not open, while graph input streams are open.\<close>

definition waits_below :: "(nat \<Rightarrow> node_view) \<Rightarrow> (nat \<Rightarrow> bool) \<Rightarrow> Scheduler \<Rightarrow> bool" where
  "waits_below V is_closed s \<longleftrightarrow> sch_IsIdle s \<and> is_running s \<and> \<not> has_error (shared s) \<and> \<not> graph_input_streams_closed s \<and>
     active_sources (CleanupActiveSources is_closed s) = [] \<and> unopened_sources s \<noteq> [] \<and>
     (case sources_queue s of
        [] \<Rightarrow> False
      | x # xs \<Rightarrow> view_source_layer (V (hd (unopened_sources s))) < view_source_layer (V (item_node (pq_top xs x))))"

text \<open>What unthrottling is for: an active source, or a throttled graph input.\<close>

definition may_throttle :: "(nat \<Rightarrow> bool) \<Rightarrow> Scheduler \<Rightarrow> bool" where
  "may_throttle is_closed s \<longleftrightarrow> active_sources (CleanupActiveSources is_closed s) \<noteq> [] \<or> 0 < throttled_graph_input_stream_count s"

lemma Cleanup_simps [simp]:
  "sched_state (CleanupActiveSources is_closed s) = sched_state s" "shared (CleanupActiveSources is_closed s) = shared s"
  "scheduler_queues (CleanupActiveSources is_closed s) = scheduler_queues s"
  "sources_queue (CleanupActiveSources is_closed s) = sources_queue s"
  "unopened_sources (CleanupActiveSources is_closed s) = unopened_sources s"
  "non_idle_queue_count (CleanupActiveSources is_closed s) = non_idle_queue_count s"
  "handling_idle (CleanupActiveSources is_closed s) = handling_idle s"
  "graph_input_streams_closed (CleanupActiveSources is_closed s) = graph_input_streams_closed s"
  "throttled_graph_input_stream_count (CleanupActiveSources is_closed s) = throttled_graph_input_stream_count s"
  by (simp_all add: CleanupActiveSources_def)

lemma dropWhile_idem: "dropWhile P (dropWhile P xs) = dropWhile P xs"
  by (induction xs) auto

lemma Cleanup_idem [simp]: "CleanupActiveSources is_closed (CleanupActiveSources is_closed s) = CleanupActiveSources is_closed s"
  by (simp add: CleanupActiveSources_def dropWhile_idem)

lemma Cleanup_sets [simp]:
  "active_sources (CleanupActiveSources is_closed (s\<lparr>handling_idle := i\<rparr>)) = active_sources (CleanupActiveSources is_closed s)"
  "active_sources (CleanupActiveSources is_closed (SetHasError b s)) = active_sources (CleanupActiveSources is_closed s)"
  by (simp_all add: CleanupActiveSources_def SetHasError_def)

lemma Quit_running: "is_running s \<Longrightarrow> Quit s = Inr ((SetQueuesRunning False s)\<lparr>sched_state := STATE_TERMINATED\<rparr>)"
  by (auto simp: Quit_def is_running_def)

lemma idle_round_done: "\<not> (sch_IsIdle s \<and> is_running s) \<Longrightarrow> idle_round V is_closed s = Inr (Leave, s\<lparr>handling_idle := 0\<rparr>)"
  by (auto simp: idle_round_def is_running_def)

lemma idle_round_quit:
  assumes "sch_IsIdle s" "is_running s"
    and "has_error (shared s) \<or> active_sources (CleanupActiveSources is_closed s) = [] \<and> sources_queue s = [] \<and> graph_input_streams_closed s"
  shows "idle_round V is_closed s =
    Inr (Leave, (SetQueuesRunning False (CleanupActiveSources is_closed s))\<lparr>sched_state := STATE_TERMINATED, handling_idle := 0\<rparr>)"
  using assms by (auto simp: idle_round_def is_running_def Quit_def Let_def)

lemma idle_round_layer:
  assumes "sch_IsIdle s" "is_running s" "\<not> has_error (shared s)" "active_sources (CleanupActiveSources is_closed s) = []" "sources_queue s \<noteq> []"
  shows "if waits_below V is_closed s then idle_round V is_closed s = Inr (Again, CleanupActiveSources is_closed s)
    else (\<exists>acts q. acts \<noteq> [] \<and> idle_round V is_closed s =
        Inr (Activate acts, (CleanupActiveSources is_closed s)\<lparr>active_sources := map item_node acts, sources_queue := q\<rparr>)) \<or>
      idle_round V is_closed s = Inr (Again, SetHasError True (CleanupActiveSources is_closed s))"
proof -
  define s1 where "s1 = CleanupActiveSources is_closed s"
  obtain x xs where q: "sources_queue s = x # xs" using assms(5) by (cases "sources_queue s") auto
  obtain acts q' where t: "take_layer V [] (sources_queue s) = (acts, q')" by (cases "take_layer V [] (sources_queue s)")
  then have "acts \<noteq> []" using take_layer_nonempty [of "sources_queue s" "[]" V] assms(5) by simp
  moreover have "begin_layer V s1 =
      (if unopened_sources s \<noteq> [] \<and> view_source_layer (V (hd (unopened_sources s))) < view_source_layer (V (item_node (pq_top xs x)))
       then Inr ([], if graph_input_streams_closed s then SetHasError True s1 else s1)
       else Inr (acts, s1\<lparr>active_sources := map item_node acts, sources_queue := q'\<rparr>))"
    using assms(4) t q by (simp add: begin_layer_def s1_def)
  ultimately show ?thesis using assms q
    by (auto simp: idle_round_def is_running_def waits_below_def Let_def s1_def SetHasError_def)
qed

lemma idle_round_rest:
  assumes "sch_IsIdle s" "is_running s" "no_quit_no_layer is_closed s"
  shows "idle_round V is_closed s =
    Inr (if active_sources (CleanupActiveSources is_closed s) \<noteq> [] \<or> 0 < throttled_graph_input_stream_count s
         then (Unthrottle, CleanupActiveSources is_closed s) else idle_again (CleanupActiveSources is_closed s))"
  using assms by (auto simp: idle_round_def is_running_def no_quit_no_layer_def Let_def)

text \<open>The four ways a round can go.\<close>

lemma idle_round_cases [case_names over quit layer rest]:
  obtains "\<not> (sch_IsIdle s \<and> is_running s)"
  | "sch_IsIdle s" "is_running s"
    "has_error (shared s) \<or> active_sources (CleanupActiveSources is_closed s) = [] \<and> sources_queue s = [] \<and> graph_input_streams_closed s"
  | "sch_IsIdle s" "is_running s" "\<not> has_error (shared s)" "active_sources (CleanupActiveSources is_closed s) = []" "sources_queue s \<noteq> []"
  | "sch_IsIdle s" "is_running s" "no_quit_no_layer is_closed s"
  unfolding no_quit_no_layer_def by blast

lemma idle_loop_step:
  "idle_round V is_closed s = Inr (x, s') \<Longrightarrow> idle_loop V is_closed s = (if x = Again then idle_loop V is_closed s' else Some (Inr (x, s')))"
  by (subst idle_loop.simps) (cases x; simp)

lemma waits_below_cleanup: "waits_below V is_closed (CleanupActiveSources is_closed s) \<longleftrightarrow> waits_below V is_closed s"
  by (simp add: waits_below_def is_running_def sch_IsIdle_def split: list.splits)

lemma waits_below_round: "waits_below V is_closed s \<Longrightarrow> idle_round V is_closed s = Inr (Again, CleanupActiveSources is_closed s)"
  using idle_round_layer [of s is_closed V] by (auto simp: waits_below_def split: list.splits)

lemma idle_loop_spins:
  assumes "idle_loop V is_closed s = Some y"
  shows "\<not> waits_below V is_closed s"
proof (rule idle_loop.raw_induct [OF _ assms])
  fix f V is_closed s and y
  assume ih: "\<And>V is_closed s y. f V is_closed s = Some y \<Longrightarrow> \<not> waits_below V is_closed s"
    and y: "(case idle_round V is_closed s of Inl e \<Rightarrow> Some (Inl e) | Inr (Again, s') \<Rightarrow> f V is_closed s'
      | Inr (x, s') \<Rightarrow> Some (Inr (x, s'))) = Some y"
  show "\<not> waits_below V is_closed s"
  proof
    assume w: "waits_below V is_closed s"
    with y have "f V is_closed (CleanupActiveSources is_closed s) = Some y" by (simp add: waits_below_round)
    from ih [OF this] w show False by (simp add: waits_below_cleanup)
  qed
qed

lemma idle_loop_returns:
  assumes "\<not> waits_below V is_closed s"
  shows "\<exists>x s'. idle_loop V is_closed s = Some (Inr (x, s')) \<and> x \<noteq> Again"
proof (cases rule: idle_round_cases [where s = s and is_closed = is_closed])
  case over
  then show ?thesis using idle_loop_step [OF idle_round_done] by simp
next
  case quit
  then show ?thesis using idle_loop_step [OF idle_round_quit [of s is_closed V]] by simp
next
  case layer
  let ?e = "SetHasError True (CleanupActiveSources is_closed s)"
  have "sch_IsIdle ?e" "is_running ?e" "has_error (shared ?e)"
    using layer by (simp_all add: sch_IsIdle_def is_running_def SetHasError_def)
  then have "\<exists>s'. idle_loop V is_closed ?e = Some (Inr (Leave, s'))" using idle_loop_step [OF idle_round_quit [of ?e is_closed V]] by simp
  then show ?thesis using idle_round_layer [OF layer, of V] assms by (auto simp: idle_loop_step)
next
  case rest
  let ?t = "(CleanupActiveSources is_closed s)\<lparr>handling_idle := 1\<rparr>"
  have t: "sch_IsIdle ?t" "is_running ?t" "no_quit_no_layer is_closed ?t" using rest by (simp_all add: sch_IsIdle_def is_running_def no_quit_no_layer_def)
  have "\<exists>x s'. idle_loop V is_closed ?t = Some (Inr (x, s')) \<and> x \<noteq> Again"
    using idle_loop_step [of V is_closed ?t] idle_round_rest [OF t, of V] by (auto simp: idle_again_def split: if_splits)
  then show ?thesis
    using idle_loop_step [of V is_closed s] idle_round_rest [OF rest, of V] by (auto simp: idle_again_def split: if_splits)
qed

section \<open>The invariant\<close>

definition queues_run :: "int \<Rightarrow> Scheduler \<Rightarrow> bool" where
  "queues_run k s \<longleftrightarrow> (\<forall>q \<in> set (scheduler_queues s). running_count q = k)"

lemma queues_run_simps [simp]:
  "queues_run k (SetQueuesRunning b s) \<longleftrightarrow> queues_run (k - (if b then 1 else - 1)) s"
  "queues_run k (CleanupActiveSources is_closed s) \<longleftrightarrow> queues_run k s"
  "queues_run k (SetHasError e s) \<longleftrightarrow> queues_run k s" "queues_run k (CloseAllSourceNodes s) \<longleftrightarrow> queues_run k s"
  "queues_run k (s\<lparr>sched_state := st\<rparr>) \<longleftrightarrow> queues_run k s" "queues_run k (s\<lparr>handling_idle := i\<rparr>) \<longleftrightarrow> queues_run k s"
  "queues_run k (s\<lparr>active_sources := as\<rparr>) \<longleftrightarrow> queues_run k s" "queues_run k (s\<lparr>sources_queue := sq\<rparr>) \<longleftrightarrow> queues_run k s"
  "queues_run k (s\<lparr>unopened_sources := us\<rparr>) \<longleftrightarrow> queues_run k s" "queues_run k (s\<lparr>shared := sh\<rparr>) \<longleftrightarrow> queues_run k s"
  "queues_run k (s\<lparr>non_idle_queue_count := n\<rparr>) \<longleftrightarrow> queues_run k s" "queues_run k (s\<lparr>graph_input_streams_closed := b'\<rparr>) \<longleftrightarrow> queues_run k s"
  "queues_run k (ThrottledGraphInputStream s) \<longleftrightarrow> queues_run k s" "queues_run k (UnthrottledGraphInputStream s) \<longleftrightarrow> queues_run k s"
  by (auto simp: queues_run_def SetQueuesRunning_def SetRunning_def SetHasError_def CloseAllSourceNodes_def
      ThrottledGraphInputStream_def UnthrottledGraphInputStream_def)

lemma SetQueuesRunning_simps [simp]:
  "sched_state (SetQueuesRunning b s) = sched_state s" "handling_idle (SetQueuesRunning b s) = handling_idle s"
  "shared (SetQueuesRunning b s) = shared s" "active_sources (SetQueuesRunning b s) = active_sources s"
  "sources_queue (SetQueuesRunning b s) = sources_queue s" "non_idle_queue_count (SetQueuesRunning b s) = non_idle_queue_count s"
  "graph_input_streams_closed (SetQueuesRunning b s) = graph_input_streams_closed s"
  by (simp_all add: SetQueuesRunning_def)

lemma map_update_same: "f y = f (xs ! k) \<Longrightarrow> map f (xs[k := y]) = map f xs"
  by (cases "k < length xs") (simp_all only: map_update nth_map [symmetric] list_update_id list_update_beyond not_less)

lemma queues_run_map: "queues_run k s \<longleftrightarrow> (\<forall>n \<in> set (map running_count (scheduler_queues s)). n = k)"
  by (simp add: queues_run_def)

lemma queues_run_alike:
  "map running_count (scheduler_queues s) = map running_count (scheduler_queues s') \<Longrightarrow> queues_run k s \<longleftrightarrow> queues_run k s'"
  by (simp only: queues_run_map)

lemma idle_round_post:
  assumes "idle_round V is_closed s = Inr (x, s')" and "1 \<le> handling_idle s"
  shows "(if x = Leave then handling_idle s' = 0 \<and> (sch_IsIdle s' \<and> is_running s' \<longrightarrow> no_quit_no_layer is_closed s' \<and> \<not> may_throttle is_closed s') else 1 \<le> handling_idle s') \<and>
    (x = Unthrottle \<longrightarrow> no_quit_no_layer is_closed s') \<and> (queues_run (of_bool (is_running s)) s \<longrightarrow> queues_run (of_bool (is_running s')) s')"
proof (cases rule: idle_round_cases [where s = s and is_closed = is_closed])
  case over
  with assms show ?thesis by (auto simp: idle_round_done sch_IsIdle_def is_running_def)
next
  case quit
  from assms(1) [unfolded idle_round_quit [OF quit]] have "x = Leave"
    "s' = (SetQueuesRunning False (CleanupActiveSources is_closed s))\<lparr>sched_state := STATE_TERMINATED, handling_idle := 0\<rparr>" by auto
  with quit(2) show ?thesis by (simp add: is_running_def)
next
  case layer
  show ?thesis using idle_round_layer [OF layer, of V] assms layer(2)
    by (auto simp: is_running_def SetHasError_def split: if_splits)
next
  case rest
  have "no_quit_no_layer is_closed (CleanupActiveSources is_closed s)" "no_quit_no_layer is_closed ((CleanupActiveSources is_closed s)\<lparr>handling_idle := i\<rparr>)" for i
    using rest(3) by (simp_all add: no_quit_no_layer_def)
  then show ?thesis using idle_round_rest [OF rest, of V] assms by (auto simp: idle_again_def is_running_def may_throttle_def split: if_splits)
qed

fun is_filling :: "idle_pc \<Rightarrow> bool" where
  "is_filling (Filling _) = True"
| "is_filling _ = False"

definition queues_balanced :: "sched_config \<Rightarrow> bool" where
  "queues_balanced c \<longleftrightarrow> queues_run (of_bool (is_running (sched c)) - of_bool (is_filling (idle_at c))) (sched c)"

definition sched_inv :: "sched_config \<Rightarrow> bool" where
  "sched_inv c \<longleftrightarrow>
     (if idle_at c = Outside then handling_idle (sched c) = 0 else 1 \<le> handling_idle (sched c)) \<and> queues_balanced c \<and>
     (\<not> unasked c \<longrightarrow> (idle_at c = Outside \<and> sch_IsIdle (sched c) \<and> is_running (sched c) \<or> idle_at c = Unthrottling \<and> handling_idle (sched c) = 1)
        \<longrightarrow> no_quit_no_layer (\<lambda>n. n \<in> closed_nodes c) (sched c)) \<and>
     (idle_at c = Unthrottling \<and> handling_idle (sched c) = 1 \<longrightarrow> tried c = Trying) \<and>
     (idle_at c = Outside \<and> sch_IsIdle (sched c) \<and> is_running (sched c) \<and> \<not> unasked c \<and> may_throttle (\<lambda>n. n \<in> closed_nodes c) (sched c)
        \<longrightarrow> tried c = Fruitless)"

lemma no_quit_no_layer_frame:
  assumes "has_error (shared s') = has_error (shared s)" "active_sources s' = active_sources s" "sources_queue s' = sources_queue s"
    "graph_input_streams_closed s' = graph_input_streams_closed s"
  shows "no_quit_no_layer is_closed s' \<longleftrightarrow> no_quit_no_layer is_closed s"
  using assms by (simp add: no_quit_no_layer_def CleanupActiveSources_def)

lemma may_throttle_less:
  assumes "active_sources s' = active_sources s" "throttled_graph_input_stream_count s' \<le> throttled_graph_input_stream_count s"
  shows "may_throttle is_closed s' \<Longrightarrow> may_throttle is_closed s"
  using assms by (auto simp: may_throttle_def CleanupActiveSources_def)

lemma may_throttle_frame:
  assumes "active_sources s' = active_sources s" "throttled_graph_input_stream_count s' = throttled_graph_input_stream_count s"
  shows "may_throttle is_closed s' \<longleftrightarrow> may_throttle is_closed s"
  using assms by (simp add: may_throttle_def CleanupActiveSources_def)

lemmas call_defs = Start_def QueueIdleStateChanged_def AddedPacketToGraphInputStream_def ClosedAllGraphInputStreams_def Pause_def
  Resume_def Cancel_def

text \<open>What a call keeps: the mark of the loop; the balance; and, unless it asks, what is no_quit_no_layer.\<close>

lemma run_call_frame:
  assumes "run_call k s = Inr (asks, s')" and "queues_run (of_bool (is_running s) - f) s"
  shows "handling_idle s' = handling_idle s" "queues_run (of_bool (is_running s') - f) s'"
    "may_throttle is_closed s' \<longleftrightarrow> may_throttle is_closed s"
    "\<not> asks \<Longrightarrow> no_quit_no_layer is_closed s' \<longleftrightarrow> no_quit_no_layer is_closed s" "\<not> asks \<Longrightarrow> sch_IsIdle s' \<and> is_running s' \<Longrightarrow> sch_IsIdle s \<and> is_running s"
proof -
  show "handling_idle s' = handling_idle s"
    using assms(1) by (cases k) (auto simp: call_defs SetQueuesRunning_def SetHasError_def Let_def split: if_splits)
  show "queues_run (of_bool (is_running s') - f) s'"
    using assms by (cases k) (auto simp: call_defs is_running_def Let_def SetHasError_def split: if_splits)
  show "may_throttle is_closed s' \<longleftrightarrow> may_throttle is_closed s"
    using assms(1) by (intro may_throttle_frame; cases k) (auto simp: call_defs Let_def SetQueuesRunning_def SetHasError_def split: if_splits)
  show "\<not> asks \<Longrightarrow> no_quit_no_layer is_closed s' \<longleftrightarrow> no_quit_no_layer is_closed s"
    using assms(1) by (intro no_quit_no_layer_frame; cases k) (auto simp: call_defs Let_def split: if_splits)
  show "\<not> asks \<Longrightarrow> sch_IsIdle s' \<and> is_running s' \<Longrightarrow> sch_IsIdle s \<and> is_running s"
    using assms(1) by (cases k) (auto simp: call_defs Let_def is_running_def sch_IsIdle_def SetQueuesRunning_def split: if_splits)
qed

lemma sched_inv_call:
  assumes "sched_inv c" "run_call k (sched c) = Inr r" "idle_at c \<noteq> Rounding"
  shows "sched_inv (after_call r c)"
proof -
  obtain asks s' where r: "r = (asks, s')" by fastforce
  have q: "queues_run (of_bool (is_running (sched c)) - of_bool (is_filling (idle_at c))) (sched c)"
    using assms(1) by (simp add: sched_inv_def queues_balanced_def)
  note f = run_call_frame [OF assms(2) [unfolded r] q]
  show ?thesis
  proof (cases asks)
    case True
    then show ?thesis using assms(1,3) f(1,2)
      by (cases "idle_at c") (auto simp: after_call_def r idle_enter_def sched_inv_def queues_balanced_def is_running_def)
  next
    case False
    then show ?thesis using assms(1) f by (auto simp: after_call_def r sched_inv_def queues_balanced_def)
  qed
qed

lemma start_source_frame:
  assumes "start_source throttled k a n s = Inr (r, n', s')"
  shows "map running_count (scheduler_queues s') = map running_count (scheduler_queues s)" "handling_idle s' = handling_idle s"
    "sched_state s' = sched_state s"
proof -
  have "running_count q' = running_count q" if "AddNode sh a m q = Inr (r, n', q')" for sh m q q'
    using that by (auto simp: AddNode_def add_item_def GetTasksToSubmitToExecutor_def Let_def split: if_splits prod.splits bool.splits)
  then show "map running_count (scheduler_queues s') = map running_count (scheduler_queues s)" "handling_idle s' = handling_idle s"
    "sched_state s' = sched_state s"
    using assms by (auto simp: start_source_def ScheduleNodeIfNotThrottled_def map_update_same split: sum.splits if_splits prod.splits)
qed

lemma Submit_frame:
  "map running_count (scheduler_queues (snd (SubmitWaitingTasksOnQueues s))) = map running_count (scheduler_queues s)"
  "handling_idle (snd (SubmitWaitingTasksOnQueues s)) = handling_idle s" "sched_state (snd (SubmitWaitingTasksOnQueues s)) = sched_state s"
  by (simp_all add: SubmitWaitingTasksOnQueues_def SubmitWaitingTasksToExecutor_def GetTasksToSubmitToExecutor_def)

text \<open>A step of the thread inside that keeps the state and changes no queue's running count, or gives it back.\<close>

lemma sched_inv_goes:
  assumes "sched_inv c" "idle_at c \<noteq> Outside" "idle_at c' \<noteq> Outside" "idle_at c' \<noteq> Unthrottling"
    and "handling_idle (sched c') = handling_idle (sched c)" "queues_balanced c'"
  shows "sched_inv c'"
  using assms by (simp add: sched_inv_def)

text \<open>A step that touches neither the loop nor what it looks at.\<close>

lemma sched_inv_frame:
  assumes "sched_inv c" "idle_at c' = idle_at c" "unasked c' = unasked c" "closed_nodes c' = closed_nodes c"
    and "map running_count (scheduler_queues (sched c')) = map running_count (scheduler_queues (sched c))"
    and "handling_idle (sched c') = handling_idle (sched c)" "sched_state (sched c') = sched_state (sched c)"
    and "non_idle_queue_count (sched c') = non_idle_queue_count (sched c)"
    and "has_error (shared (sched c')) = has_error (shared (sched c))" "active_sources (sched c') = active_sources (sched c)"
    and "sources_queue (sched c') = sources_queue (sched c)" "graph_input_streams_closed (sched c') = graph_input_streams_closed (sched c)"
    and "throttled_graph_input_stream_count (sched c') \<le> throttled_graph_input_stream_count (sched c)" "tried c' = tried c"
  shows "sched_inv c'"
  using assms(1) queues_run_alike [OF assms(5)] no_quit_no_layer_frame [OF assms(9-12)] may_throttle_less [OF assms(10,13)]
  by (auto simp add: assms(2-8,14) sched_inv_def queues_balanced_def is_running_def sch_IsIdle_def)

lemma sched_inv_step: "sched_step V c c' \<Longrightarrow> sched_inv c \<Longrightarrow> sched_inv c'"
proof (induction rule: sched_step.induct)
  case (calls c k r)
  then show ?case by (auto intro: sched_inv_call)
next
  case (round c x s)
  have q: "queues_run (of_bool (is_running (sched c))) (sched c)" "1 \<le> handling_idle (sched c)"
    using round by (auto simp: sched_inv_def queues_balanced_def)
  note post = idle_round_post [OF round(2) q(2)]
  show ?case using post q(1) by (cases x) (auto simp: sched_inv_def queues_balanced_def)
next
  case (pause_queues c acts)
  then show ?case by - (rule sched_inv_goes [of c], auto simp: sched_inv_def queues_balanced_def is_running_def)
next
  case (fill c a acts throttled k n r n' s)
  note f = start_source_frame [OF fill(2)]
  show ?case using fill f(2,3) queues_run_alike [OF f(1)]
    by - (rule sched_inv_goes [of c], auto simp: sched_inv_def queues_balanced_def is_running_def)
next
  case (filled c)
  then show ?case using queues_run_alike [OF Submit_frame(1)]
    by - (rule sched_inv_goes [of c], auto simp: sched_inv_def queues_balanced_def is_running_def Submit_frame)
next
  case (unthrottled c did x s)
  then show ?case
    by (cases x) (auto simp: after_unthrottle_def idle_again_def sched_inv_def queues_balanced_def is_running_def no_quit_no_layer_def may_throttle_def split: if_splits)
next
  case (throttle c)
  then show ?case
    by (auto simp: sched_inv_def queues_balanced_def is_running_def ThrottledGraphInputStream_def queues_run_def)
next
  case (unthrottle c)
  then show ?case by - (rule sched_inv_frame [of c], simp_all add: UnthrottledGraphInputStream_def)
next
  case (source_opened c n)
  then show ?case by (auto simp: sched_inv_def queues_balanced_def AddNodeToSourcesQueue_def is_running_def)
next
  case (node_closes c n)
  then show ?case by (auto simp: sched_inv_def queues_balanced_def)
next
  case (error c)
  then show ?case by (auto simp: sched_inv_def queues_balanced_def is_running_def SetHasError_def)
next
  case (stop_sources c)
  then show ?case by - (rule sched_inv_frame [of c], simp_all add: CloseAllSourceNodes_def)
next
  case (queue_work qs c)
  then show ?case by - (rule sched_inv_frame [of c], simp_all)
qed

lemma sched_reaches_inv: "sched_reaches V c d \<Longrightarrow> sched_inv c \<Longrightarrow> sched_inv d"
  by (induction rule: sched_reaches.induct) (auto intro: sched_inv_step)

lemma sched_inv_start: "sched_inv (sched_start qs inputs_closed sources)"
  by (simp add: sched_start_def sched_inv_def queues_balanced_def queues_run_def sch_Reset_def Scheduler_new_def sq_Reset_def is_running_def)

lemma idle_round_total: "\<exists>r. idle_round V is_closed s = Inr r"
proof (cases rule: idle_round_cases [where s = s and is_closed = is_closed])
  case layer
  then show ?thesis using idle_round_layer [of s is_closed V] by (auto split: if_splits)
qed (auto simp: idle_round_done idle_round_quit idle_round_rest)

section \<open>States\<close>

text \<open>
  The moves of the code.  The figure in the header file has instead a state TERMINATING between these and TERMINATED, which the
  enumeration lacks.
\<close>

fun state_arrow :: "SchedulerState \<Rightarrow> SchedulerState \<Rightarrow> bool" where
  "state_arrow STATE_NOT_STARTED t \<longleftrightarrow> t = STATE_RUNNING"
| "state_arrow STATE_RUNNING t \<longleftrightarrow> t \<in> {STATE_PAUSED, STATE_CANCELLING, STATE_TERMINATED}"
| "state_arrow STATE_PAUSED t \<longleftrightarrow> t \<in> {STATE_RUNNING, STATE_CANCELLING}"
| "state_arrow STATE_CANCELLING t \<longleftrightarrow> t = STATE_TERMINATED"
| "state_arrow STATE_TERMINATED t \<longleftrightarrow> False"

lemma run_call_arrow: "run_call k s = Inr (a, s') \<Longrightarrow> sched_state s' = sched_state s \<or> state_arrow (sched_state s) (sched_state s')"
  by (cases k; cases "sched_state s") (auto simp: call_defs Let_def SetHasError_def split: if_splits)

lemma idle_round_arrow: "idle_round V is_closed s = Inr (x, s') \<Longrightarrow> sched_state s' = sched_state s \<or> state_arrow (sched_state s) (sched_state s')"
proof (cases rule: idle_round_cases [where s = s and is_closed = is_closed])
  case layer
  then show "idle_round V is_closed s = Inr (x, s') \<Longrightarrow> ?thesis"
    using idle_round_layer [of s is_closed V] by (auto simp: SetHasError_def split: if_splits)
next
  case quit
  then show "idle_round V is_closed s = Inr (x, s') \<Longrightarrow> ?thesis" by (auto simp: idle_round_quit is_running_def)
qed (auto simp: idle_round_done idle_round_rest idle_again_def split: if_splits)

lemma step_arrow:
  assumes "sched_step V c d"
  shows "sched_state (sched d) = sched_state (sched c) \<or> state_arrow (sched_state (sched c)) (sched_state (sched d))"
  using assms
proof cases
  case (calls k r)
  then show ?thesis using run_call_arrow [of k "sched c" "fst r" "snd r"]
    by (cases r; cases "fst r") (auto simp: after_call_def idle_enter_def)
next
  case (round x s)
  then show ?thesis using idle_round_arrow by auto
qed (auto simp: start_source_frame Submit_frame after_unthrottle_def idle_again_def ThrottledGraphInputStream_def UnthrottledGraphInputStream_def
    AddNodeToSourcesQueue_def SetHasError_def CloseAllSourceNodes_def split: if_splits)

section \<open>Spinning\<close>

lemma error_stays_round: "idle_round V is_closed s = Inr (x, s') \<Longrightarrow> has_error (shared s) \<Longrightarrow> has_error (shared s')"
  by (cases "sch_IsIdle s \<and> is_running s") (auto simp: idle_round_done idle_round_quit)

lemma error_stays: "sched_step V c d \<Longrightarrow> has_error (shared (sched c)) \<Longrightarrow> has_error (shared (sched d))"
proof (induction rule: sched_step.induct)
  case (calls c k r)
  then show ?case by (cases k; cases r)
      (auto simp: call_defs after_call_def idle_enter_def Let_def SetHasError_def split: if_splits bool.splits)
next
  case (round c x s)
  then show ?case using error_stays_round by auto
next
  case (fill c a acts throttled k n r n' s)
  then show ?case by (auto simp: start_source_def ScheduleNodeIfNotThrottled_def split: sum.splits if_splits prod.splits)
qed (auto simp: SubmitWaitingTasksOnQueues_def after_unthrottle_def idle_again_def ThrottledGraphInputStream_def UnthrottledGraphInputStream_def
    AddNodeToSourcesQueue_def SetHasError_def CloseAllSourceNodes_def split: if_splits)

definition spins :: "(nat \<Rightarrow> node_view) \<Rightarrow> sched_config \<Rightarrow> bool" where
  "spins V c \<longleftrightarrow> idle_at c = Rounding \<and> waits_below V (\<lambda>n. n \<in> closed_nodes c) (sched c)"

lemma cleanup_empty: "active_sources (CleanupActiveSources is_closed s) = [] \<longleftrightarrow> (\<forall>n \<in> set (active_sources s). is_closed n)"
  by (simp add: CleanupActiveSources_def dropWhile_eq_Nil_conv)

lemma spins_step: "sched_step V c d \<Longrightarrow> spins V c \<Longrightarrow> has_error (shared (sched d)) \<or> spins V d"
proof (induction rule: sched_step.induct)
  case (round c x s)
  then have w: "waits_below V (\<lambda>n. n \<in> closed_nodes c) (sched c)" by (simp add: spins_def)
  with round show ?case by (auto simp: spins_def waits_below_round waits_below_cleanup)
qed (auto simp: spins_def waits_below_def cleanup_empty CloseAllSourceNodes_def SetHasError_def sch_IsIdle_def is_running_def split: list.splits)

lemma spins_on: "sched_reaches V c d \<Longrightarrow> spins V c \<Longrightarrow> has_error (shared (sched d)) \<or> spins V d"
  by (induction rule: sched_reaches.induct) (auto dest: spins_step error_stays)

section \<open>Properties\<close>

text \<open>
  C14: idleness is handled. In every interleaving of reports of the queues, arriving and closing inputs, pauses, cancellation, throttling, opening and closing nodes and
  errors with the threads that call \<^verbatim>\<open>HandleIdle\<close>: a call goes into its loop exactly if no thread is in it; and whenever the graph is running and
  idle, no thread is in it, and \<^verbatim>\<open>HandleIdle\<close> was called after the last change of the sources, the errors or
  the throttled inputs, then there was indeed nothing left to do: no
  error; either an active source, or no waiting source and an open graph input; and, if a source is active or a graph input
  throttled, an attempt to unthrottle that began after the last call has found nothing.  So no call that was turned
  away by the thread inside is lost.
\<close>

theorem scheduler_idle_handled:
  assumes "sched_reaches V (sched_start qs inputs_closed sources) c"
  shows "(fst (idle_enter (sched c)) \<longleftrightarrow> idle_at c = Outside) \<and>
    (idle_at c = Outside \<and> sch_IsIdle (sched c) \<and> is_running (sched c) \<and> \<not> unasked c \<longrightarrow>
       \<not> has_error (shared (sched c)) \<and>
       (active_sources (CleanupActiveSources (\<lambda>n. n \<in> closed_nodes c) (sched c)) \<noteq> [] \<or>
        sources_queue (sched c) = [] \<and> \<not> graph_input_streams_closed (sched c)) \<and>
       (active_sources (CleanupActiveSources (\<lambda>n. n \<in> closed_nodes c) (sched c)) \<noteq> [] \<or>
        0 < throttled_graph_input_stream_count (sched c) \<longrightarrow> tried c = Fruitless))"
  using sched_reaches_inv [OF assms sched_inv_start]
  by (auto simp: sched_inv_def no_quit_no_layer_def may_throttle_def idle_enter_def Let_def split: if_splits)

text \<open>Runs by their steps.\<close>

definition do_call :: "sched_call \<Rightarrow> sched_config \<Rightarrow> sched_config" where
  "do_call k c = (case run_call k (sched c) of Inl _ \<Rightarrow> c | Inr r \<Rightarrow> after_call r c)"

definition do_round :: "(nat \<Rightarrow> node_view) \<Rightarrow> sched_config \<Rightarrow> sched_config" where
  "do_round V c = (case idle_round V (\<lambda>n. n \<in> closed_nodes c) (sched c) of Inl _ \<Rightarrow> c | Inr (x, s) \<Rightarrow>
       c\<lparr>sched := s, idle_at := idle_goes x, tried := (if x = Unthrottle then Trying else tried c)\<rparr>)"

definition do_open :: "(nat \<Rightarrow> node_view) \<Rightarrow> nat \<Rightarrow> sched_config \<Rightarrow> sched_config" where
  "do_open V n c = c\<lparr>sched := AddNodeToSourcesQueue V n (sched c), unasked := True\<rparr>"

lemma reaches_call: "sched_reaches V c d \<Longrightarrow> idle_at d \<noteq> Rounding \<Longrightarrow> sched_reaches V c (do_call k d)"
  by (auto simp: do_call_def split: sum.splits intro: sched_reaches.step sched_step.calls)

lemma reaches_round:
  assumes "sched_reaches V c d" "idle_at d = Rounding"
  shows "sched_reaches V c (do_round V d)"
proof (cases "idle_round V (\<lambda>n. n \<in> closed_nodes d) (sched d)")
  case (Inr r)
  then have "idle_round V (\<lambda>n. n \<in> closed_nodes d) (sched d) = Inr (fst r, snd r)" by simp
  from sched_step.round [OF assms(2) this] assms(1) show ?thesis
    by (auto simp: do_round_def Inr split: prod.splits intro: sched_reaches.step)
qed (use assms(1) in \<open>simp add: do_round_def\<close>)

definition do_throttle :: "sched_config \<Rightarrow> sched_config" where
  "do_throttle c = c\<lparr>sched := ThrottledGraphInputStream (sched c), unasked := True\<rparr>"

definition do_unthrottled :: "sched_config \<Rightarrow> sched_config" where
  "do_unthrottled c = (case after_unthrottle False (sched c) of (x, s) \<Rightarrow>
     c\<lparr>sched := s, idle_at := idle_goes x, tried := (if tried c = Trying then Fruitless else Untried)\<rparr>)"

lemma reaches_throttle: "sched_reaches V c d \<Longrightarrow> idle_at d \<noteq> Rounding \<Longrightarrow> sched_reaches V c (do_throttle d)"
  by (auto simp: do_throttle_def intro: sched_reaches.step sched_step.throttle)

lemma reaches_unthrottled:
  assumes "sched_reaches V c d" "idle_at d = Unthrottling"
  shows "sched_reaches V c (do_unthrottled d)"
proof -
  obtain x s where u: "after_unthrottle False (sched d) = (x, s)" by (cases "after_unthrottle False (sched d)")
  from sched_step.unthrottled [OF assms(2) u, of V] assms(1) show ?thesis
    by (auto simp: do_unthrottled_def u intro: sched_reaches.step)
qed

lemma reaches_open:
  "sched_reaches V c d \<Longrightarrow> idle_at d \<noteq> Rounding \<Longrightarrow> n \<in> set (unopened_sources (sched d)) \<Longrightarrow> sched_reaches V c (do_open V n d)"
  by (auto simp: do_open_def intro: sched_reaches.step sched_step.source_opened)

text \<open>Two sources, of the layers 0 and 1; the graph starts, its nodes open, but of the sources only the second does.\<close>

definition two_layers :: "nat \<Rightarrow> node_view" where
  "two_layers n = \<lparr>view_id = int n, view_is_source = True, view_source_layer = int n, view_process_order = Unstarted\<rparr>"

definition started :: sched_config where
  "started = do_round two_layers (do_call CallStart (sched_start [\<lparr>sq_queue = [], num_pending_tasks = 0, num_tasks_to_add = 0, running_count = 0\<rparr>] False [0, 1]))"

definition spinning :: sched_config where
  "spinning = do_call (CallIdle True) (do_open two_layers 1 (do_call (CallIdle False) started))"

lemmas run_defs = started_def spinning_def do_call_def do_round_def do_open_def sched_start_def sch_Reset_def Scheduler_new_def call_defs
  after_call_def idle_enter_def SetQueuesRunning_def SetRunning_def sq_Reset_def idle_round_def sch_IsIdle_def CleanupActiveSources_def
  idle_again_def Let_def AddNodeToSourcesQueue_def

lemma started_reached: "sched_reaches two_layers (sched_start [\<lparr>sq_queue = [], num_pending_tasks = 0, num_tasks_to_add = 0, running_count = 0\<rparr>] False [0, 1]) started"
  unfolding started_def by (intro reaches_round reaches_call sched_reaches.refl) (simp_all add: run_defs)

lemma spinning_reached: "sched_reaches two_layers (sched_start [\<lparr>sq_queue = [], num_pending_tasks = 0, num_tasks_to_add = 0, running_count = 0\<rparr>] False [0, 1]) spinning"
  unfolding spinning_def by (intro reaches_open reaches_call started_reached) (simp_all add: run_defs)

text \<open>A graph input is throttled, a packet is added to it, and there is nothing to unthrottle.\<close>

definition throttled :: sched_config where
  "throttled = do_unthrottled (do_round two_layers (do_call CallAdded (do_throttle started)))"

lemma throttled_reached: "sched_reaches two_layers (sched_start [\<lparr>sq_queue = [], num_pending_tasks = 0, num_tasks_to_add = 0, running_count = 0\<rparr>] False [0, 1]) throttled"
  unfolding throttled_def
  by (intro reaches_unthrottled reaches_round reaches_call reaches_throttle started_reached)
    (simp_all add: run_defs do_throttle_def ThrottledGraphInputStream_def)

theorem scheduler_idle_handled_witness:
  "idle_at throttled = Outside \<and> 0 < throttled_graph_input_stream_count (sched throttled) \<and>
   sources_queue (sched throttled) = [] \<and> \<not> graph_input_streams_closed (sched throttled) \<and> tried throttled = Fruitless"
proof -
  have "idle_at throttled = Outside" "sch_IsIdle (sched throttled)" "is_running (sched throttled)" "\<not> unasked throttled"
    "0 < throttled_graph_input_stream_count (sched throttled)"
    "active_sources (CleanupActiveSources (\<lambda>n. n \<in> closed_nodes throttled) (sched throttled)) = []"
    by (simp_all add: throttled_def run_defs is_running_def do_throttle_def ThrottledGraphInputStream_def do_unthrottled_def after_unthrottle_def)
  with scheduler_idle_handled [OF throttled_reached] show ?thesis by simp
qed

text \<open>
  C17: the states of a run and its queues. In every interleaving the state moves only from not started to running, between running and paused,
  from either to cancelling, and from running or cancelling to terminated, so that a
  terminated run stays so; and the pauses of each queue balance: its running count is one while the state is running or cancelling and none otherwise, less one exactly while
  a layer of sources is added.  So tasks reach the executors only while the run is on and no layer is half
  added.
\<close>

theorem scheduler_queues_follow_state:
  assumes "sched_reaches V (sched_start qs inputs_closed sources) c"
  shows "(\<forall>q \<in> set (scheduler_queues (sched c)).
      running_count q = (if sched_state (sched c) \<in> {STATE_RUNNING, STATE_CANCELLING} then 1 else 0) - (if is_filling (idle_at c) then 1 else 0)) \<and>
    (\<forall>d. sched_step V c d \<longrightarrow>
      sched_state (sched d) = sched_state (sched c) \<or> state_arrow (sched_state (sched c)) (sched_state (sched d)))"
  using sched_reaches_inv [OF assms sched_inv_start] step_arrow
  by (auto simp: sched_inv_def queues_balanced_def queues_run_def is_running_def)

theorem scheduler_queues_follow_state_witness: "map running_count (scheduler_queues (sched started)) = [1]"
  using scheduler_queues_follow_state [OF started_reached] by (simp add: run_defs)

text \<open>
  C15: when handling idleness returns. The loop of \<^verbatim>\<open>HandleIdle\<close>, until it leaves or releases the mutex, never fails a check and returns, except in exactly one situation, in
  which it runs for ever with the mutex held: the graph is running and idle with a graph input open, no source is active, and
  the next source in the queue has a higher layer than one that is not open yet.
\<close>

theorem handle_idle_returns:
  "(idle_loop V is_closed s = None \<longleftrightarrow> waits_below V is_closed s) \<and>
   (\<not> waits_below V is_closed s \<longrightarrow> (\<exists>x s'. idle_loop V is_closed s = Some (Inr (x, s')) \<and> x \<noteq> Again))"
  using idle_loop_returns [of V is_closed s] idle_loop_spins [of V is_closed s] by (metis option.distinct(1) option.exhaust)

theorem handle_idle_returns_witness: "\<exists>x s'. idle_loop two_layers (\<lambda>_. False) (sched started) = Some (Inr (x, s')) \<and> x \<noteq> Again"
proof -
  have "\<not> waits_below two_layers (\<lambda>_. False) (sched started)" by (simp add: waits_below_def run_defs)
  with handle_idle_returns show ?thesis by blast
qed

text \<open>
  C16: a graph that hangs. That situation arises: with an open graph input, two sources of layers 0 and 1, of which only the second is open when the nodes
  have been opened, the thread that reports the queue idle never leaves \<^verbatim>\<open>HandleIdle\<close> nor releases the mutex, which every
  further operation needs, also the one that would open the first source; only an error recorded by another thread ends it.
\<close>

theorem scheduler_spins:
  "sched_reaches two_layers (sched_start [\<lparr>sq_queue = [], num_pending_tasks = 0, num_tasks_to_add = 0, running_count = 0\<rparr>] False [0, 1]) spinning \<and>
   (\<forall>d. sched_reaches two_layers spinning d \<longrightarrow> has_error (shared (sched d)) \<or>
      idle_at d = Rounding \<and> (\<exists>s. idle_round two_layers (\<lambda>n. n \<in> closed_nodes d) (sched d) = Inr (Again, s)))"
proof -
  have "waits_below two_layers (\<lambda>n. n \<in> closed_nodes spinning) (sched spinning)"
    by (simp add: waits_below_def run_defs is_running_def two_layers_def Item_new_def)
  moreover have "idle_at spinning = Rounding" by (simp add: run_defs)
  ultimately have "spins two_layers spinning" by (simp add: spins_def)
  then show ?thesis using spinning_reached spins_on waits_below_round by (fastforce simp: spins_def)
qed

theorem scheduler_spins_witness:
  "\<not> has_error (shared (sched spinning)) \<and> idle_at spinning = Rounding \<and>
   (\<exists>s. idle_round two_layers (\<lambda>n. n \<in> closed_nodes spinning) (sched spinning) = Inr (Again, s))"
proof -
  have "sched_reaches two_layers spinning spinning" "\<not> has_error (shared (sched spinning))"
    by (rule sched_reaches.intros, simp add: run_defs)
  with scheduler_spins show ?thesis by blast
qed

text \<open>
  Sources by layer. When no unopened source is in a lower layer than the next one, the next layer to be activated consists of exactly the
  sources of the lowest layer in the queue; the others stay there.
\<close>

theorem source_layer_activated:
  assumes "active_sources s = []" and "sources_queue s \<noteq> []" and "\<forall>x \<in> set (sources_queue s). source_item V x"
    and "\<forall>u \<in> set (unopened_sources s). \<forall>x \<in> set (sources_queue s). item_layer x \<le> view_source_layer (V u)"
  shows "\<exists>acts s' l. begin_layer V s = Inr (acts, s') \<and> acts \<noteq> [] \<and> active_sources s' = map item_node acts \<and>
    mset acts + mset (sources_queue s') = mset (sources_queue s) \<and>
    (\<forall>x \<in> set acts. item_layer x = l) \<and> (\<forall>x \<in> set (sources_queue s'). l < item_layer x)"
proof -
  obtain x xs where q: "sources_queue s = x # xs" using assms(2) by (cases "sources_queue s") auto
  define top where "top = pq_top xs x"
  have top: "top \<in> set (x # xs)" "source_item V top" using pq_top_mem [of xs x] assms(3) q by (auto simp: top_def)
  have "item_layer top \<le> view_source_layer (V (hd (unopened_sources s)))" if "unopened_sources s \<noteq> []"
    using assms(4) that top(1) q by (metis hd_in_set)
  then have low: "\<not> (unopened_sources s \<noteq> [] \<and> view_source_layer (V (hd (unopened_sources s))) < view_source_layer (V (item_node top)))"
    using top(2) by (auto simp: source_item_def)
  obtain acts q' where t: "take_layer V [] (x # xs) = (acts, q')" by (cases "take_layer V [] (x # xs)")
  have t1: "take_layer V [top] (remove1 top (x # xs)) = (acts, q')"
    using t by (simp add: take_layer.simps(2) Let_def top_def del: remove1.simps)
  have sub: "set (remove1 top (x # xs)) \<subseteq> set (x # xs)" by (rule set_remove1_subset)
  have least: "item_layer top \<le> item_layer y" if "y \<in> set (x # xs)" for y
    using pq_top_least_layer [OF _ that, of V] assms(3) q by (simp add: top_def)
  have "mset acts + mset q' = mset [top] + mset (remove1 top (x # xs)) \<and> (\<forall>y \<in> set acts. item_layer y = item_layer top) \<and> (\<forall>y \<in> set q'. item_layer top < item_layer y)"
    by (rule take_layer_spec [OF t1]) (use assms(3) q sub top(2) least in auto)
  moreover have "mset [top] + mset (remove1 top (x # xs)) = mset (x # xs)"
    by (simp only: pop_top_mset top_def) (simp del: remove1.simps)
  moreover have "begin_layer V s = Inr (acts, s\<lparr>active_sources := map item_node acts, sources_queue := q'\<rparr>)"
    using assms(1) q low t by (auto simp: begin_layer_def top_def)
  moreover have "acts \<noteq> []" using take_layer_nonempty [of "x # xs" "[]" V] t by simp
  ultimately show ?thesis using q by auto
qed

theorem source_layer_activated_witness:
  "\<exists>acts s'. begin_layer two_layers (AddNodeToSourcesQueue two_layers 0 (AddNodeToSourcesQueue two_layers 1 (Scheduler_new []))) = Inr (acts, s') \<and>
     acts \<noteq> [] \<and> mset acts + mset (sources_queue s') = {#Item_new 0 (two_layers 0) DefaultContext, Item_new 1 (two_layers 1) DefaultContext#}"
proof -
  let ?s = "AddNodeToSourcesQueue two_layers 0 (AddNodeToSourcesQueue two_layers 1 (Scheduler_new []))"
  have "active_sources ?s = []" "sources_queue ?s \<noteq> []" "\<forall>x \<in> set (sources_queue ?s). source_item two_layers x"
    "\<forall>u \<in> set (unopened_sources ?s). \<forall>x \<in> set (sources_queue ?s). item_layer x \<le> view_source_layer (two_layers u)"
    by (simp_all add: run_defs source_item_def two_layers_def Item_new_def)
  from source_layer_activated [OF this] show ?thesis by (auto simp: run_defs add_mset_commute)
qed

end
