(* ===== verification/Throttling.thy ===== *)
theory Throttling
  imports Graph_Scheduler Input_Stream
begin

text \<open>
  Flow control (\<^verbatim>\<open>calculator_graph.cc\<close>): a full input stream throttles the sources and graph inputs upstream of it, and a graph
  that is idle because of this grows the streams.  Streams and nodes are numbers; the nodes after those of the
  configuration stand for the graph input streams.  \<open>anc i\<close> are the nodes that stream \<open>i\<close> throttles.  A \<^verbatim>\<open>flat_hash_set\<close> is
  traversed in an order that is not specified; here it is that of the numbers.  Each part under
  \<^verbatim>\<open>full_input_streams_mutex_\<close> is one function.
\<close>

section \<open>State and operations\<close>

record 'a throttle_graph =
  input_streams :: "'a InputStreamManager list"
  stream_was_full :: "bool list"
  full_input_streams :: "nat set list"
  graph_nodes :: "CalculatorNode list"
  graph_scheduler :: Scheduler

text \<open>One node upstream of a stream that became full or is no longer: the sources to schedule, and the graph.\<close>

definition throttle_node :: "bool \<Rightarrow> nat \<Rightarrow> nat \<Rightarrow> nat list \<times> 'a throttle_graph \<Rightarrow> nat list \<times> 'a throttle_graph" where
  "throttle_node stream_is_full i n r =
     (case r of (nodes_to_schedule, g) \<Rightarrow>
        let was_throttled = (full_input_streams g ! n \<noteq> {});
            streams = (if stream_is_full then insert i (full_input_streams g ! n) else full_input_streams g ! n - {i});
            g1 = g\<lparr>full_input_streams := (full_input_streams g)[n := streams]\<rparr>;
            is_throttled = (streams \<noteq> {})
        in if length (graph_nodes g) \<le> n
           then (nodes_to_schedule,
                 if \<not> is_throttled then g1\<lparr>graph_scheduler := UnthrottledGraphInputStream (graph_scheduler g)\<rparr>
                 else if \<not> was_throttled then g1\<lparr>graph_scheduler := ThrottledGraphInputStream (graph_scheduler g)\<rparr>
                 else g1)
           else (if \<not> is_throttled \<and> node_Active (graph_nodes g ! n) \<and> \<not> node_Closed (graph_nodes g ! n)
                 then nodes_to_schedule @ [n] else nodes_to_schedule, g1))"

definition UpdateThrottledNodes :: "(nat \<Rightarrow> nat list) \<Rightarrow> nat \<Rightarrow> 'a throttle_graph \<Rightarrow> nat list \<times> 'a throttle_graph" where
  "UpdateThrottledNodes anc i g =
     (let stream_is_full = ism_IsFull (input_streams g ! i);
          (ns, g1) = (if stream_was_full g ! i \<noteq> stream_is_full then fold (throttle_node stream_is_full i) (anc i) ([], g) else ([], g))
      in (ns, g1\<lparr>stream_was_full := (stream_was_full g1)[i := stream_is_full]\<rparr>))"

definition IsNodeThrottled :: "int \<Rightarrow> nat \<Rightarrow> 'a throttle_graph \<Rightarrow> bool" where
  "IsNodeThrottled max_size n g \<longleftrightarrow> max_size \<noteq> - 1 \<and> full_input_streams g ! n \<noteq> {}"

text \<open>The sources that are no longer throttled are added to their queues, \<open>k n\<close> for node \<open>n\<close>.\<close>

fun ScheduleUnthrottledReadyNodes ::
  "(nat \<Rightarrow> node_view) \<Rightarrow> (nat \<Rightarrow> nat) \<Rightarrow> nat list \<Rightarrow> 'a throttle_graph \<Rightarrow> ts_error + ((bool \<times> int) option list \<times> 'a throttle_graph)" where
  "ScheduleUnthrottledReadyNodes V k [] g = Inr ([], g)"
| "ScheduleUnthrottledReadyNodes V k (n # ns) g =
     (if \<not> view_is_source (V n) then Inl CheckFailed
      else case AddNode (shared (graph_scheduler g)) (Item_new n (V n) DefaultContext) (graph_nodes g ! n) (scheduler_queues (graph_scheduler g) ! k n) of
             Inl e \<Rightarrow> Inl e
           | Inr (r, node, q) \<Rightarrow>
               (case ScheduleUnthrottledReadyNodes V k ns
                       (g\<lparr>graph_nodes := (graph_nodes g)[n := node],
                          graph_scheduler := (graph_scheduler g)\<lparr>scheduler_queues := (scheduler_queues (graph_scheduler g))[k n := q]\<rparr>\<rparr>) of
                  Inl e \<Rightarrow> Inl e
                | Inr (rs, g') \<Rightarrow> Inr (r # rs, g')))"

text \<open>\<^verbatim>\<open>UnthrottleSources\<close>: growing one stream, with the callback that this makes.\<close>

definition grow_stream :: "(nat \<Rightarrow> nat list) \<Rightarrow> nat \<Rightarrow> 'a throttle_graph \<Rightarrow> 'a throttle_graph" where
  "grow_stream anc i g =
     (let s = input_streams g ! i;
          (events, s') = ism_SetMaxQueueSize (int (length (ism_queue s)) + 1) s;
          g1 = g\<lparr>input_streams := (input_streams g)[i := s']\<rparr>
      in if events \<noteq> [] then snd (UpdateThrottledNodes anc i g1) else g1)"

definition full_streams :: "nat set \<Rightarrow> 'a throttle_graph \<Rightarrow> nat list" where
  "full_streams graph_outputs g = sorted_list_of_set (\<Union> (set (full_input_streams g)) - graph_outputs)"

definition UnthrottleSources ::
  "(nat \<Rightarrow> nat list) \<Rightarrow> nat set \<Rightarrow> bool \<Rightarrow> 'a throttle_graph \<Rightarrow> bool \<times> 'a throttle_graph" where
  "UnthrottleSources anc graph_outputs report_deadlock g =
     (full_streams graph_outputs g \<noteq> [],
      if report_deadlock
      then (if full_streams graph_outputs g \<noteq> [] then g\<lparr>graph_scheduler := SetHasError True (graph_scheduler g)\<rparr> else g)
      else fold (grow_stream anc) (full_streams graph_outputs g) g)"

section \<open>The invariant\<close>

definition throttled_inputs :: "'a throttle_graph \<Rightarrow> nat set" where
  "throttled_inputs g = {n. length (graph_nodes g) \<le> n \<and> n < length (full_input_streams g) \<and> full_input_streams g ! n \<noteq> {}}"

definition count_ok :: "'a throttle_graph \<Rightarrow> bool" where
  "count_ok g \<longleftrightarrow> throttled_graph_input_stream_count (graph_scheduler g) = int (card (throttled_inputs g))"

definition throttle_inv :: "(nat \<Rightarrow> nat list) \<Rightarrow> 'a throttle_graph \<Rightarrow> bool" where
  "throttle_inv anc g \<longleftrightarrow>
     length (stream_was_full g) = length (input_streams g) \<and>
     (\<forall>i. distinct (anc i) \<and> set (anc i) \<subseteq> {..<length (full_input_streams g)}) \<and>
     (\<forall>n < length (full_input_streams g).
        full_input_streams g ! n = {i. i < length (input_streams g) \<and> stream_was_full g ! i \<and> n \<in> set (anc i)}) \<and> count_ok g"

lemma finite_throttled: "finite (throttled_inputs g)"
  by (rule finite_subset [of _ "{..<length (full_input_streams g)}"]) (auto simp: throttled_inputs_def)

lemma throttled_inputs_set:
  assumes "n < length (full_input_streams g)" "full_input_streams g' = (full_input_streams g)[n := A]" "graph_nodes g' = graph_nodes g"
  shows "throttled_inputs g' = (if length (graph_nodes g) \<le> n \<and> A \<noteq> {} then insert n (throttled_inputs g) else throttled_inputs g - {n})"
  using assms by (auto simp: throttled_inputs_def nth_list_update)

lemma throttle_node_one:
  assumes "n < length (full_input_streams g)" "i \<in> full_input_streams g ! n \<longleftrightarrow> \<not> b" "count_ok g" "throttle_node b i n (ns, g) = (ns', g')"
  shows "full_input_streams g' = (full_input_streams g)[n := (if b then insert i (full_input_streams g ! n) else full_input_streams g ! n - {i})] \<and>
    input_streams g' = input_streams g \<and> stream_was_full g' = stream_was_full g \<and> graph_nodes g' = graph_nodes g \<and> count_ok g'"
proof -
  define A where "A = (if b then insert i (full_input_streams g ! n) else full_input_streams g ! n - {i})"
  have g': "full_input_streams g' = (full_input_streams g)[n := A]" "input_streams g' = input_streams g" "stream_was_full g' = stream_was_full g"
      "graph_nodes g' = graph_nodes g"
      "throttled_graph_input_stream_count (graph_scheduler g') = throttled_graph_input_stream_count (graph_scheduler g) +
        (if length (graph_nodes g) \<le> n then (if A = {} then - 1 else if full_input_streams g ! n = {} then 1 else 0) else 0)"
    using assms(4) unfolding throttle_node_def prod.case Let_def A_def [symmetric]
    by (auto simp: ThrottledGraphInputStream_def UnthrottledGraphInputStream_def split: if_splits)
  have mem: "n \<in> throttled_inputs g \<longleftrightarrow> length (graph_nodes g) \<le> n \<and> full_input_streams g ! n \<noteq> {}"
    using assms(1) by (simp add: throttled_inputs_def)
  have "A = {} \<Longrightarrow> full_input_streams g ! n \<noteq> {}" using assms(2) by (auto simp: A_def split: if_splits)
  then have "count_ok g'"
    using assms(3) mem finite_throttled [of g] card_gt_0_iff [of "throttled_inputs g"]
    by (auto simp: count_ok_def g'(5) throttled_inputs_set [OF assms(1) g'(1,4)] card_insert_if card_Diff_singleton of_nat_diff Suc_le_eq)
  with g' show ?thesis by (simp add: A_def)
qed

lemma throttle_nodes:
  assumes "distinct as" "set as \<subseteq> {..<length (full_input_streams g)}" "\<forall>n \<in> set as. i \<in> full_input_streams g ! n \<longleftrightarrow> \<not> b" "count_ok g"
    and "fold (throttle_node b i) as (ns, g) = (ns', g')"
  shows "(\<forall>n < length (full_input_streams g). full_input_streams g' ! n =
      (if n \<in> set as then (if b then insert i (full_input_streams g ! n) else full_input_streams g ! n - {i}) else full_input_streams g ! n)) \<and>
    length (full_input_streams g') = length (full_input_streams g) \<and>
    input_streams g' = input_streams g \<and> stream_was_full g' = stream_was_full g \<and> graph_nodes g' = graph_nodes g \<and> count_ok g'"
  using assms
proof (induction as arbitrary: ns g)
  case (Cons a as)
  obtain ns1 g1 where t: "throttle_node b i a (ns, g) = (ns1, g1)" by fastforce
  have a: "a < length (full_input_streams g)" "i \<in> full_input_streams g ! a \<longleftrightarrow> \<not> b" using Cons.prems by auto
  note one = throttle_node_one [OF a Cons.prems(4) t]
  have g1: "full_input_streams g1 ! n = (if n = a then (if b then insert i (full_input_streams g ! a) else full_input_streams g ! a - {i})
      else full_input_streams g ! n)" for n using one a(1) by auto
  have l: "length (full_input_streams g1) = length (full_input_streams g)" using one by simp
  have "\<forall>n \<in> set as. i \<in> full_input_streams g1 ! n \<longleftrightarrow> \<not> b" using Cons.prems(1,3) by (auto simp: g1)
  then have ih: "(\<forall>n < length (full_input_streams g1). full_input_streams g' ! n =
      (if n \<in> set as then (if b then insert i (full_input_streams g1 ! n) else full_input_streams g1 ! n - {i}) else full_input_streams g1 ! n)) \<and>
    length (full_input_streams g') = length (full_input_streams g1) \<and>
    input_streams g' = input_streams g1 \<and> stream_was_full g' = stream_was_full g1 \<and> graph_nodes g' = graph_nodes g1 \<and> count_ok g'"
    using Cons.prems(1,2,5) one l t by (intro Cons.IH) auto
  have "input_streams g1 = input_streams g" "stream_was_full g1 = stream_was_full g" "graph_nodes g1 = graph_nodes g" using one by simp_all
  with ih show ?case using l Cons.prems(1) by (auto simp: g1)
qed simp

lemma count_ok_was [simp]: "count_ok (g\<lparr>stream_was_full := w\<rparr>) \<longleftrightarrow> count_ok g" "count_ok (g\<lparr>input_streams := ss\<rparr>) \<longleftrightarrow> count_ok g"
  by (simp_all add: count_ok_def throttled_inputs_def)

lemma UpdateThrottledNodes_inv:
  assumes "throttle_inv anc g" "i < length (input_streams g)" "UpdateThrottledNodes anc i g = (ns, g')"
  shows "throttle_inv anc g' \<and> input_streams g' = input_streams g \<and> graph_nodes g' = graph_nodes g \<and>
    stream_was_full g' = (stream_was_full g)[i := ism_IsFull (input_streams g ! i)] \<and> length (full_input_streams g') = length (full_input_streams g)"
proof (cases "stream_was_full g ! i = ism_IsFull (input_streams g ! i)")
  case True
  then have same: "(stream_was_full g)[i := ism_IsFull (input_streams g ! i)] = stream_was_full g" using list_update_id [of "stream_was_full g" i] by simp
  with True have "g' = g" using assms(3) by (simp add: UpdateThrottledNodes_def)
  then show ?thesis using assms(1) same by simp
next
  case False
  define b where "b = ism_IsFull (input_streams g ! i)"
  obtain ns1 g1 where f: "fold (throttle_node b i) (anc i) ([], g) = (ns1, g1)" by fastforce
  have inv: "length (stream_was_full g) = length (input_streams g)" "distinct (anc i)" "set (anc i) \<subseteq> {..<length (full_input_streams g)}" "count_ok g"
    and full: "\<And>n. n < length (full_input_streams g) \<Longrightarrow>
        full_input_streams g ! n = {i. i < length (input_streams g) \<and> stream_was_full g ! i \<and> n \<in> set (anc i)}"
    and anc: "\<And>i. distinct (anc i) \<and> set (anc i) \<subseteq> {..<length (full_input_streams g)}"
    using assms(1) by (auto simp: throttle_inv_def)
  have "\<forall>n \<in> set (anc i). i \<in> full_input_streams g ! n \<longleftrightarrow> \<not> b" using inv(3) assms(2) False full by (auto simp: b_def)
  note loop = throttle_nodes [OF inv(2,3) this inv(4) f]
  have g': "g' = g1\<lparr>stream_was_full := (stream_was_full g1)[i := b]\<rparr>"
    using assms(3) False f by (auto simp: UpdateThrottledNodes_def b_def Let_def)
  have "full_input_streams g1 ! n = {j. j < length (input_streams g) \<and> (stream_was_full g)[i := b] ! j \<and> n \<in> set (anc j)}"
    if n: "n < length (full_input_streams g)" for n
  proof (cases "n \<in> set (anc i)")
    case True
    then show ?thesis using loop n full [OF n] inv(1) assms(2) False by (auto simp: nth_list_update b_def split: if_splits)
  next
    case False
    then show ?thesis using loop n full [OF n] inv(1) assms(2) by (auto simp: nth_list_update split: if_splits)
  qed
  then show ?thesis using loop inv(1) anc by (simp add: g' throttle_inv_def b_def)
qed

section \<open>Streams and their callbacks\<close>

text \<open>
  The operations of a stream during a run: whether it was carried out to its end, the events it reports, and the stream; \<open>None\<close> where a check fails.  A
  batch that is refused half-way leaves the packets before the refused one in the queue and reports no event.
\<close>

datatype 'a stream_op = OpAdd "'a packet list" | OpPop Timestamp | OpHead | OpErase Timestamp | OpMax int | OpBound Timestamp | OpClose

fun run_op :: "('a packet \<Rightarrow> bool) \<Rightarrow> 'a stream_op \<Rightarrow> 'a InputStreamManager \<Rightarrow> (bool \<times> queue_event list \<times> 'a InputStreamManager) option" where
  "run_op v (OpAdd ps) s = (case AddOrMovePacketsInternal v ps s of (st, _, ev, s') \<Rightarrow> Some (st = StatusOk, ev, s'))"
| "run_op v (OpPop t) s = (case PopPacketAtTimestamp t s of Inl _ \<Rightarrow> None | Inr (r, s') \<Rightarrow> Some (True, pop_events r, s'))"
| "run_op v OpHead s = (case PopQueueHead s of Inl _ \<Rightarrow> None | Inr (_, _, ev, s') \<Rightarrow> Some (True, ev, s'))"
| "run_op v (OpErase t) s = Some (True, ErasePacketsEarlierThan t s)"
| "run_op v (OpMax n) s = Some (True, ism_SetMaxQueueSize n s)"
| "run_op v (OpBound t) s = (case SetNextTimestampBound t s of (_, _, s') \<Rightarrow> Some (True, [], s'))"
| "run_op v OpClose s = Some (True, [], ism_Close s)"

lemma IsFull_mono:
  "max_queue_size s' = max_queue_size s \<Longrightarrow> length (ism_queue s') \<le> length (ism_queue s) \<Longrightarrow> ism_IsFull s' \<Longrightarrow> ism_IsFull s"
  by (simp add: ism_IsFull_def)

lemma pop_loop_shorter: "pop_loop t cur n ps = (c, k, q) \<Longrightarrow> length q \<le> length ps"
  by (induction ps arbitrary: cur n) (auto split: if_splits intro: le_SucI)

lemma add_loop_longer:
  "add_loop v ps s = (st, s') \<Longrightarrow> max_queue_size s' = max_queue_size s \<and> length (ism_queue s) \<le> length (ism_queue s')"
  by (induction ps arbitrary: s) (fastforce simp: enqueue_def split: if_splits)+

lemma run_op_events:
  assumes "run_op v f s = Some (True, ev, s')"
  shows "ev \<noteq> [] \<longleftrightarrow> ism_IsFull s' \<noteq> ism_IsFull s"
proof (cases f)
  case (OpAdd ps)
  then show ?thesis using assms add_loop_longer [of v ps s "fst (add_loop v ps s)" "snd (add_loop v ps s)"] IsFull_mono [of s "snd (add_loop v ps s)"]
    by (auto simp: AddOrMovePacketsInternal_def split: if_splits prod.splits stream_status.splits)
next
  case (OpPop t)
  show ?thesis
  proof -
    obtain cur n q where l: "pop_loop t empty_packet (- 1) (ism_queue s) = (cur, n, q)" by (cases "pop_loop t empty_packet (- 1) (ism_queue s)")
    have "length q \<le> length (ism_queue s)" by (rule pop_loop_shorter [OF l])
    with OpPop assms l show ?thesis
      by (auto simp: PopPacketAtTimestamp_def Let_def ism_IsFull_def split: if_splits)
  qed
next
  case OpHead
  then show ?thesis using assms by (auto simp: PopQueueHead_def Let_def ism_IsFull_def split: if_splits)
next
  case (OpErase t)
  then show ?thesis using assms length_dropWhile_le [of "\<lambda>p. pkt_ts p < t" "ism_queue s"]
    by (auto simp: ErasePacketsEarlierThan_def Let_def ism_IsFull_def split: if_splits)
next
  case (OpMax n)
  then show ?thesis using assms by (auto simp: ism_SetMaxQueueSize_def Let_def split: if_splits)
next
  case (OpBound t)
  then show ?thesis using assms by (auto simp: SetNextTimestampBound_def ism_IsFull_def split: if_splits)
next
  case OpClose
  have "ism_IsFull (ism_Close s) = ism_IsFull s" by (simp add: ism_Close_def ism_IsFull_def)
  then show ?thesis using OpClose assms by auto
qed

text \<open>A batch refused half-way fills the queue, and nobody is told.\<close>

lemma refused_batch_unnoticed:
  "\<exists>s'. run_op (\<lambda>_. True) (OpAdd [\<lparr>pkt_ts = Ts 1, pkt_data = Some (7 :: int)\<rparr>, \<lparr>pkt_ts = Ts 1, pkt_data = Some 8\<rparr>])
     ((ism_Initialize ''image'' False)\<lparr>max_queue_size := 1\<rparr>) = Some (False, [], s') \<and> ism_IsFull s'"
  by (simp add: AddOrMovePacketsInternal_def admit_def enqueue_def ism_IsFull_def ism_Initialize_def ism_PrepareForRun_def IsAllowedInStream_def
      special_defs next_ts_eq)

text \<open>
  \<open>due\<close>: callbacks that a stream has made and that have not reached the graph, in whatever order they will.  \<open>refused\<close>: the streams that refused a
  batch, which the graph records as an error, since their last callback.
\<close>

record 'a throttle_config =
  the_graph :: "'a throttle_graph"
  due :: "nat list"
  refused :: "nat set"

inductive throttle_step :: "(nat \<Rightarrow> nat list) \<Rightarrow> ('a packet \<Rightarrow> bool) \<Rightarrow> 'a throttle_config \<Rightarrow> 'a throttle_config \<Rightarrow> bool" for anc v where
  stream_op: "i < length (input_streams (the_graph c)) \<Longrightarrow> run_op v f (input_streams (the_graph c) ! i) = Some (ok, ev, s') \<Longrightarrow>
    throttle_step anc v c (c\<lparr>the_graph := (the_graph c)\<lparr>input_streams := (input_streams (the_graph c))[i := s']\<rparr>,
      due := (if ev \<noteq> [] then i # due c else due c), refused := (if ok then refused c else insert i (refused c))\<rparr>)"
| callback: "i \<in> set (due c) \<Longrightarrow> UpdateThrottledNodes anc i (the_graph c) = (ns, g) \<Longrightarrow>
    throttle_step anc v c (c\<lparr>the_graph := g, due := remove1 i (due c), refused := refused c - {i}\<rparr>)"
| node_changes: "length nodes = length (graph_nodes (the_graph c)) \<Longrightarrow>
    throttle_step anc v c (c\<lparr>the_graph := (the_graph c)\<lparr>graph_nodes := nodes\<rparr>\<rparr>)"

inductive throttle_reaches :: "(nat \<Rightarrow> nat list) \<Rightarrow> ('a packet \<Rightarrow> bool) \<Rightarrow> 'a throttle_config \<Rightarrow> 'a throttle_config \<Rightarrow> bool" for anc v where
  refl: "throttle_reaches anc v c c"
| step: "throttle_reaches anc v c d \<Longrightarrow> throttle_step anc v d e \<Longrightarrow> throttle_reaches anc v c e"

definition due_ok :: "'a throttle_config \<Rightarrow> bool" where
  "due_ok c \<longleftrightarrow> set (due c) \<subseteq> {..<length (input_streams (the_graph c))} \<and>
     (\<forall>i < length (input_streams (the_graph c)).
        stream_was_full (the_graph c) ! i \<noteq> ism_IsFull (input_streams (the_graph c) ! i) \<longrightarrow> i \<in> set (due c) \<or> i \<in> refused c)"

lemma throttle_inv_streams: "length ss = length (input_streams g) \<Longrightarrow> throttle_inv anc (g\<lparr>input_streams := ss\<rparr>) \<longleftrightarrow> throttle_inv anc g"
  by (simp add: throttle_inv_def)

lemma throttle_step_inv: "throttle_step anc v c d \<Longrightarrow> throttle_inv anc (the_graph c) \<and> due_ok c \<Longrightarrow> throttle_inv anc (the_graph d) \<and> due_ok d"
proof (induction rule: throttle_step.induct)
  case (stream_op i c f ok ev s')
  show ?case
  proof (cases ok)
    case True
    then have "ev \<noteq> [] \<longleftrightarrow> ism_IsFull s' \<noteq> ism_IsFull (input_streams (the_graph c) ! i)"
      by (intro run_op_events [of v f]) (use stream_op(2) in simp)
    then show ?thesis using stream_op True
      by (auto simp: throttle_inv_streams due_ok_def nth_list_update split: if_splits)
  next
    case False
    then show ?thesis using stream_op by (auto simp: throttle_inv_streams due_ok_def nth_list_update)
  qed
next
  case (callback i c ns g)
  then have i: "i < length (input_streams (the_graph c))" by (auto simp: due_ok_def)
  note u = UpdateThrottledNodes_inv [OF conjunct1 [OF callback(3)] i callback(2)]
  have l: "length (stream_was_full (the_graph c)) = length (input_streams (the_graph c))" using callback(3) by (simp add: throttle_inv_def)
  have "j \<in> set (remove1 i (due c)) \<or> j \<in> refused c - {i}"
    if j: "j < length (input_streams g)" "stream_was_full g ! j \<noteq> ism_IsFull (input_streams g ! j)" for j
  proof -
    have "j \<noteq> i" using j u l i by auto
    moreover from this have "stream_was_full (the_graph c) ! j \<noteq> ism_IsFull (input_streams (the_graph c) ! j)" using j u by simp
    ultimately show ?thesis using callback(3) j u by (auto simp: due_ok_def in_set_remove1)
  qed
  moreover have "set (remove1 i (due c)) \<subseteq> {..<length (input_streams g)}"
    using set_remove1_subset [of i "due c"] callback(3) u by (auto simp: due_ok_def)
  ultimately show ?case using u by (simp add: due_ok_def)
next
  case (node_changes nodes c)
  then show ?case by (auto simp: throttle_inv_def due_ok_def count_ok_def throttled_inputs_def)
qed

lemma throttle_reaches_inv:
  "throttle_reaches anc v c d \<Longrightarrow> throttle_inv anc (the_graph c) \<and> due_ok c \<Longrightarrow> throttle_inv anc (the_graph d) \<and> due_ok d"
  by (induction rule: throttle_reaches.induct) (auto dest: throttle_step_inv)

section \<open>Growing\<close>

definition in_sync :: "'a throttle_graph \<Rightarrow> bool" where
  "in_sync g \<longleftrightarrow> (\<forall>i < length (input_streams g). stream_was_full g ! i = ism_IsFull (input_streams g ! i))"

lemma grow_stream_one:
  assumes "throttle_inv anc g" "in_sync g" "i < length (input_streams g)"
  shows "throttle_inv anc (grow_stream anc i g) \<and> in_sync (grow_stream anc i g) \<and>
    length (input_streams (grow_stream anc i g)) = length (input_streams g) \<and>
    length (full_input_streams (grow_stream anc i g)) = length (full_input_streams g) \<and>
    (\<forall>j. ism_queue (input_streams (grow_stream anc i g) ! j) = ism_queue (input_streams g ! j)) \<and>
    (\<forall>j. ism_IsFull (input_streams (grow_stream anc i g) ! j) \<longleftrightarrow> j \<noteq> i \<and> ism_IsFull (input_streams g ! j))"
proof -
  let ?s = "input_streams g ! i"
  let ?t = "?s\<lparr>max_queue_size := int (length (ism_queue ?s)) + 1\<rparr>"
  let ?g = "g\<lparr>input_streams := (input_streams g)[i := ?t]\<rparr>"
  have t: "\<not> ism_IsFull ?t" "ism_queue ?t = ism_queue ?s" by (simp_all add: ism_IsFull_def)
  have inv: "throttle_inv anc ?g" using assms(1) by (simp add: throttle_inv_streams)
  have l: "length (stream_was_full g) = length (input_streams g)" using assms(1) by (simp add: throttle_inv_def)
  have eff: "(\<forall>j. ism_queue (input_streams ?g ! j) = ism_queue (input_streams g ! j)) \<and>
      (\<forall>j. ism_IsFull (input_streams ?g ! j) \<longleftrightarrow> j \<noteq> i \<and> ism_IsFull (input_streams g ! j))"
    using assms(3) t by (auto simp: nth_list_update)
  show ?thesis
  proof (cases "ism_IsFull ?s")
    case True
    obtain ns g' where u: "UpdateThrottledNodes anc i ?g = (ns, g')" by fastforce
    have "grow_stream anc i g = g'" using True t u by (simp add: grow_stream_def ism_SetMaxQueueSize_def Let_def)
    moreover note w = UpdateThrottledNodes_inv [OF inv _ u]
    have "in_sync g'" using w assms(2,3) l eff by (auto simp: in_sync_def nth_list_update)
    ultimately show ?thesis using w assms(3) eff by simp
  next
    case False
    then have "grow_stream anc i g = ?g" using t by (simp add: grow_stream_def ism_SetMaxQueueSize_def Let_def)
    moreover have "in_sync ?g" using assms(2,3) False t eff by (auto simp: in_sync_def nth_list_update)
    ultimately show ?thesis using inv eff by simp
  qed
qed

lemma grow_streams:
  assumes "throttle_inv anc g" "in_sync g" "set js \<subseteq> {..<length (input_streams g)}"
  shows "throttle_inv anc (fold (grow_stream anc) js g) \<and> in_sync (fold (grow_stream anc) js g) \<and>
    length (input_streams (fold (grow_stream anc) js g)) = length (input_streams g) \<and>
    length (full_input_streams (fold (grow_stream anc) js g)) = length (full_input_streams g) \<and>
    (\<forall>j. ism_queue (input_streams (fold (grow_stream anc) js g) ! j) = ism_queue (input_streams g ! j)) \<and>
    (\<forall>j. ism_IsFull (input_streams (fold (grow_stream anc) js g) ! j) \<longleftrightarrow> j \<notin> set js \<and> ism_IsFull (input_streams g ! j))"
  using assms
proof (induction js arbitrary: g)
  case (Cons i js)
  have "i < length (input_streams g)" using Cons.prems(3) by simp
  note one = grow_stream_one [OF Cons.prems(1,2) this]
  have "set js \<subseteq> {..<length (input_streams (grow_stream anc i g))}" using Cons.prems(3) one by simp
  with one Cons.IH [of "grow_stream anc i g"] show ?case by auto
qed simp

lemma full_streams_set:
  assumes "throttle_inv anc g"
  shows "set (full_streams outs g) = \<Union> (set (full_input_streams g)) - outs \<and> set (full_streams outs g) \<subseteq> {..<length (input_streams g)}"
proof -
  have sub: "\<Union> (set (full_input_streams g)) \<subseteq> {..<length (input_streams g)}" using assms by (auto simp: throttle_inv_def in_set_conv_nth)
  then have "finite (\<Union> (set (full_input_streams g)) - outs)" by (meson finite_Diff finite_lessThan finite_subset)
  with sub show ?thesis by (auto simp: full_streams_def)
qed

section \<open>Properties\<close>

definition throttle_start :: "'a InputStreamManager list \<Rightarrow> CalculatorNode list \<Rightarrow> nat \<Rightarrow> 'a throttle_config" where
  "throttle_start ss nodes k =
     \<lparr>the_graph = \<lparr>input_streams = ss, stream_was_full = replicate (length ss) False, full_input_streams = replicate k {},
        graph_nodes = nodes, graph_scheduler = Scheduler_new []\<rparr>, due = [], refused = {}\<rparr>"

definition anc_ok :: "(nat \<Rightarrow> nat list) \<Rightarrow> nat \<Rightarrow> bool" where
  "anc_ok anc k \<longleftrightarrow> (\<forall>i. distinct (anc i) \<and> set (anc i) \<subseteq> {..<k})"

lemma throttle_start_inv:
  assumes "\<forall>s \<in> set ss. \<not> ism_IsFull s" "anc_ok anc k"
  shows "throttle_inv anc (the_graph (throttle_start ss nodes k)) \<and> due_ok (throttle_start ss nodes k)"
  using assms by (auto simp: throttle_start_def throttle_inv_def due_ok_def anc_ok_def count_ok_def throttled_inputs_def Scheduler_new_def)

lemma throttle_reaches_lengths:
  assumes "throttle_reaches anc v c d" "throttle_inv anc (the_graph c) \<and> due_ok c"
  shows "length (input_streams (the_graph d)) = length (input_streams (the_graph c)) \<and>
    length (full_input_streams (the_graph d)) = length (full_input_streams (the_graph c)) \<and>
    length (graph_nodes (the_graph d)) = length (graph_nodes (the_graph c))"
  using assms
proof (induction rule: throttle_reaches.induct)
  case (step c d e)
  have d: "throttle_inv anc (the_graph d) \<and> due_ok d" by (rule throttle_reaches_inv [OF step(1,4)])
  show ?case using step(2)
  proof cases
    case (callback i ns g)
    then have "i < length (input_streams (the_graph d))" using d by (auto simp: due_ok_def)
    from UpdateThrottledNodes_inv [OF conjunct1 [OF d] this callback(3)] show ?thesis using callback(1) step by simp
  qed (use step in auto)
qed simp

text \<open>
  C18: who is throttled. However operations on the streams and the callbacks they make interleave, and in whatever order the callbacks arrive, the
  scheduler's count of throttled graph inputs is exact: it is the number of graph inputs with a stream that the graph takes to be full.  Once the callbacks under way have
  arrived, a node none of whose streams has refused a batch since is throttled exactly when some stream downstream of it is full.  (A batch refused half-way may fill a queue without a
  callback; the refusal is an error of the graph.)
\<close>

theorem throttling_exact:
  assumes "\<forall>s \<in> set ss. \<not> ism_IsFull s" and "anc_ok anc k" and "throttle_reaches anc v (throttle_start ss nodes k) c"
  shows "throttled_graph_input_stream_count (graph_scheduler (the_graph c)) =
      int (card {n. length nodes \<le> n \<and> n < k \<and> full_input_streams (the_graph c) ! n \<noteq> {}}) \<and>
    (due c = [] \<longrightarrow> (\<forall>n < k. (\<forall>i \<in> refused c. n \<notin> set (anc i)) \<longrightarrow>
       (full_input_streams (the_graph c) ! n \<noteq> {} \<longleftrightarrow> (\<exists>i < length ss. n \<in> set (anc i) \<and> ism_IsFull (input_streams (the_graph c) ! i)))))"
proof -
  have inv: "throttle_inv anc (the_graph c)" "due_ok c" using throttle_reaches_inv [OF assms(3) throttle_start_inv [OF assms(1,2)]] by simp_all
  have l: "length (input_streams (the_graph c)) = length ss" "length (full_input_streams (the_graph c)) = k" "length (graph_nodes (the_graph c)) = length nodes"
    using throttle_reaches_lengths [OF assms(3) throttle_start_inv [OF assms(1,2)]] by (simp_all add: throttle_start_def)
  have "throttled_graph_input_stream_count (graph_scheduler (the_graph c)) =
      int (card {n. length nodes \<le> n \<and> n < k \<and> full_input_streams (the_graph c) ! n \<noteq> {}})"
    using inv(1) by (auto simp: throttle_inv_def count_ok_def throttled_inputs_def l)
  moreover have "full_input_streams (the_graph c) ! n \<noteq> {} \<longleftrightarrow> (\<exists>i < length ss. n \<in> set (anc i) \<and> ism_IsFull (input_streams (the_graph c) ! i))"
    if n: "due c = []" "n < k" "\<forall>i \<in> refused c. n \<notin> set (anc i)" for n
  proof -
    have "full_input_streams (the_graph c) ! n = {i. i < length ss \<and> stream_was_full (the_graph c) ! i \<and> n \<in> set (anc i)}"
      using inv(1) n(2) by (simp add: throttle_inv_def l)
    moreover have "stream_was_full (the_graph c) ! i \<longleftrightarrow> ism_IsFull (input_streams (the_graph c) ! i)" if "i < length ss" "n \<in> set (anc i)" for i
      using inv(2) n(1,3) that by (auto simp: due_ok_def l)
    ultimately show ?thesis by auto
  qed
  ultimately show ?thesis by blast
qed

text \<open>
  Deadlocks are resolved. When the callbacks have arrived and a node is throttled by streams none of which is a graph output, then
  \<^verbatim>\<open>UnthrottleSources\<close> reports that it did something, no queue changes, and the node is no longer throttled.
\<close>

theorem unthrottle_releases:
  assumes "\<forall>s \<in> set ss. \<not> ism_IsFull s" and "anc_ok anc k" and "throttle_reaches anc v (throttle_start ss nodes k) c" and "due c = []" and "refused c = {}"
    and "n < k" and "full_input_streams (the_graph c) ! n \<noteq> {}" and "full_input_streams (the_graph c) ! n \<inter> outs = {}"
  shows "fst (UnthrottleSources anc outs False (the_graph c)) \<and> full_input_streams (snd (UnthrottleSources anc outs False (the_graph c))) ! n = {} \<and>
    (\<forall>i. ism_queue (input_streams (snd (UnthrottleSources anc outs False (the_graph c))) ! i) = ism_queue (input_streams (the_graph c) ! i))"
proof -
  let ?g = "the_graph c"
  have inv: "throttle_inv anc ?g" "due_ok c" using throttle_reaches_inv [OF assms(3) throttle_start_inv [OF assms(1,2)]] by simp_all
  have l: "length (full_input_streams ?g) = k" using throttle_reaches_lengths [OF assms(3) throttle_start_inv [OF assms(1,2)]] by (simp add: throttle_start_def)
  have sync: "in_sync ?g" using inv(2) assms(4,5) by (auto simp: in_sync_def due_ok_def)
  define js where "js = full_streams outs ?g"
  define g where "g = fold (grow_stream anc) js ?g"
  have set_js: "set js = \<Union> (set (full_input_streams ?g)) - outs" "set js \<subseteq> {..<length (input_streams ?g)}"
    using full_streams_set [OF inv(1), of outs] unfolding js_def by blast+
  have u: "UnthrottleSources anc outs False ?g = (js \<noteq> [], g)" by (simp add: UnthrottleSources_def js_def g_def)
  note grown = grow_streams [OF inv(1) sync set_js(2), folded g_def]
  have "full_input_streams ?g ! n \<in> set (full_input_streams ?g)" using assms(6) l by simp
  then have n: "full_input_streams ?g ! n \<subseteq> set js" using assms(8) unfolding set_js(1) by blast
  have "full_input_streams g ! n = {i. i < length (input_streams g) \<and> ism_IsFull (input_streams g ! i) \<and> n \<in> set (anc i)}"
    using grown assms(6) l by (auto simp: throttle_inv_def in_sync_def)
  also have "\<dots> = {}"
  proof -
    have "i \<in> set js" if "i < length (input_streams ?g)" "ism_IsFull (input_streams ?g ! i)" "n \<in> set (anc i)" for i
      using that n inv(1) sync assms(6) l by (auto simp: throttle_inv_def in_sync_def)
    then show ?thesis using grown by auto
  qed
  finally show ?thesis using u n assms(7) grown by auto
qed

text \<open>A graph input with one stream that holds one packet: the packet arrives, and then the callback.\<close>

definition demo_streams :: "int InputStreamManager list" where
  "demo_streams = [(ism_Initialize ''image'' False)\<lparr>max_queue_size := 1\<rparr>]"

definition demo_throttled :: "int throttle_config" where
  "demo_throttled =
     (let c = throttle_start demo_streams [] 1;
          g = (the_graph c)\<lparr>input_streams := [enqueue \<lparr>pkt_ts = Ts 1, pkt_data = Some 7\<rparr> (hd demo_streams)]\<rparr>
      in c\<lparr>the_graph := snd (UpdateThrottledNodes (\<lambda>_. [0]) 0 g), due := [], refused := {}\<rparr>)"

lemma demo_streams_open: "\<forall>s \<in> set demo_streams. \<not> ism_IsFull s"
  by (simp add: demo_streams_def ism_IsFull_def ism_Initialize_def ism_PrepareForRun_def)

lemma demo_throttled_reached: "throttle_reaches (\<lambda>_. [0]) (\<lambda>_. True) (throttle_start demo_streams [] 1) demo_throttled"
proof -
  let ?c = "throttle_start demo_streams [] 1" and ?s = "enqueue \<lparr>pkt_ts = Ts 1, pkt_data = Some 7\<rparr> (hd demo_streams)"
  have "run_op (\<lambda>_. True) (OpAdd [\<lparr>pkt_ts = Ts 1, pkt_data = Some 7\<rparr>]) (input_streams (the_graph ?c) ! 0) = Some (True, [BecameFull], ?s)"
    by (simp add: throttle_start_def demo_streams_def AddOrMovePacketsInternal_def admit_def enqueue_def ism_IsFull_def
        ism_Initialize_def ism_PrepareForRun_def IsAllowedInStream_def special_defs)
  from throttle_reaches.step [OF throttle_reaches.refl throttle_step.stream_op [OF _ this]]
  have "throttle_reaches (\<lambda>_. [0]) (\<lambda>_. True) ?c (?c\<lparr>the_graph := (the_graph ?c)\<lparr>input_streams := [?s]\<rparr>, due := [0]\<rparr>)"
    by (simp add: throttle_start_def demo_streams_def)
  from throttle_reaches.step [OF this throttle_step.callback [where i = 0, OF _ surjective_pairing]]
  show ?thesis by (simp add: demo_throttled_def Let_def throttle_start_def)
qed

lemmas demo_eval = demo_throttled_def Let_def throttle_start_def demo_streams_def UpdateThrottledNodes_def throttle_node_def enqueue_def ism_IsFull_def
  ism_Initialize_def ism_PrepareForRun_def ThrottledGraphInputStream_def Scheduler_new_def

theorem throttling_exact_witness:
  "throttled_graph_input_stream_count (graph_scheduler (the_graph demo_throttled)) = 1 \<and> ism_IsFull (input_streams (the_graph demo_throttled) ! 0)"
proof -
  have "full_input_streams (the_graph demo_throttled) ! 0 = {0}" "due demo_throttled = []" "refused demo_throttled = {}" by (simp_all add: demo_eval)
  moreover have "{n. n < 1 \<and> full_input_streams (the_graph demo_throttled) ! n \<noteq> {}} = {0}" using calculation by auto
  ultimately show ?thesis using throttling_exact [OF demo_streams_open _ demo_throttled_reached] by (simp add: anc_ok_def demo_streams_def)
qed

theorem unthrottle_releases_witness: "full_input_streams (snd (UnthrottleSources (\<lambda>_. [0]) {} False (the_graph demo_throttled))) ! 0 = {}"
proof -
  have "full_input_streams (the_graph demo_throttled) ! 0 = {0}" "due demo_throttled = []" "refused demo_throttled = {}" by (simp_all add: demo_eval)
  with unthrottle_releases [OF demo_streams_open _ demo_throttled_reached, of 0 "{}"] show ?thesis by (simp add: anc_ok_def)
qed

end
