(* ===== verification/Graph_Input.thy ===== *)
theory Graph_Input
  imports Throttling Output_Stream Graph_Output "HOL-Library.AList"
begin

text \<open>
  How packets enter a graph (\<^verbatim>\<open>calculator_graph.h\<close>, \<^verbatim>\<open>.cc\<close>) and the library the game calls for that
  (\<^verbatim>\<open>examples/desktop/libmp\<close>).  The streams downstream are the handlers \<open>cg_handlers\<close> that the mirrors of an output stream point into, those of the nodes and of the
  graph outputs; the callbacks of a handler that lead back into the graph, \<^verbatim>\<open>RecordError\<close> and \<^verbatim>\<open>UpdateThrottledNodes\<close>, are carried out
  where they are made, and those that make a node ready stay recorded in its handler.  What the application
  sees is a status, or \<open>None\<close> while the call waits for the graph.  Each operation also says whether it ends
  in the scheduler's \<^verbatim>\<open>HandleIdle\<close>.  The functions are the calls of one thread.  Parsing the configuration, building the graph, log messages and profiling are
  not modelled.
\<close>

section \<open>Graph input streams\<close>

record 'a GraphInputStream =
  gis_manager :: "'a OutputStreamManager"
  gis_shard :: "'a OutputStreamShard"

datatype GraphInputStreamAddMode = WAIT_TILL_NOT_FULL | ADD_IF_NOT_FULL

text \<open>
  The nodes of the graph are numbered, the graph inputs after them.  A stream has the number of its place among the streams of all handlers;
  \<open>upstream_nodes\<close> are the nodes it throttles, \<open>full_inputs\<close> the full streams of each node (\<^verbatim>\<open>full_input_streams_\<close>, sets of streams), and
  \<open>was_full\<close> the \<^verbatim>\<open>last_reported_stream_full_\<close> of each stream.  \<open>node_views\<close> and \<open>node_queues\<close> are what the scheduler asks of a node.  An error is
  one of an output shard or the status of an input stream.
\<close>

record 'a CalculatorGraph =
  graph_input_streams :: "(string \<times> 'a GraphInputStream) list"
  graph_input_stream_node_ids :: "string \<Rightarrow> nat"
  cg_nodes :: "CalculatorNode list"
  node_views :: "nat \<Rightarrow> node_view"
  node_queues :: "nat \<Rightarrow> nat"
  upstream_nodes :: "nat \<Rightarrow> nat list"
  full_inputs :: "nat set list"
  was_full :: "bool list"
  graph_input_stream_add_mode :: GraphInputStreamAddMode
  cg_has_error :: bool
  cg_errors :: "(output_error + stream_status) list"
  graph_output_streams :: "'a OutputStreamPollerImpl list"
  num_closed_graph_input_streams :: nat
  cg_handlers :: "'a InputStreamHandler list"
  cg_scheduler :: Scheduler

abbreviation num_calculators :: "'a CalculatorGraph \<Rightarrow> nat" where
  "num_calculators g \<equiv> length (cg_nodes g)"

definition put_input :: "string \<Rightarrow> 'a GraphInputStream \<Rightarrow> 'a CalculatorGraph \<Rightarrow> 'a CalculatorGraph" where
  "put_input name s g = g\<lparr>graph_input_streams := AList.update name s (graph_input_streams g)\<rparr>"

text \<open>\<^verbatim>\<open>RecordError\<close>: the scheduler and the pollers hear of it; too many errors abort.\<close>

definition kMaxNumAccumulatedErrors :: nat where
  "kMaxNumAccumulatedErrors = 1000"

definition RecordError :: "output_error + stream_status \<Rightarrow> 'a CalculatorGraph \<Rightarrow> ts_error + 'a CalculatorGraph" where
  "RecordError e g =
     (let g1 = g\<lparr>cg_errors := cg_errors g @ [e], cg_has_error := True, cg_scheduler := SetHasError True (cg_scheduler g),
                graph_output_streams := map Poller_NotifyError (graph_output_streams g)\<rparr>
      in if kMaxNumAccumulatedErrors < length (cg_errors g1) then Inl CheckFailed else Inr g1)"

text \<open>The errors that one call reports, by the callback, one after the other.\<close>

definition RecordErrors :: "output_error list \<Rightarrow> 'a CalculatorGraph \<Rightarrow> ts_error + 'a CalculatorGraph" where
  "RecordErrors es g = run_steps (\<lambda>e. RecordError (Inl e)) es g"

section \<open>Callbacks from the streams\<close>

text \<open>The graph as flow control sees it.\<close>

definition throttle_view :: "'a CalculatorGraph \<Rightarrow> 'a throttle_graph" where
  "throttle_view g =
     \<lparr>input_streams = concat (map input_stream_managers (cg_handlers g)), stream_was_full = was_full g, full_input_streams = full_inputs g,
      graph_nodes = cg_nodes g, graph_scheduler = cg_scheduler g\<rparr>"

definition stream_number :: "'a InputStreamHandler list \<Rightarrow> nat \<times> nat \<Rightarrow> nat" where
  "stream_number hs k = sum_list (map (length \<circ> input_stream_managers) (take (fst k) hs)) + snd k"

definition queue_size_callback :: "nat \<Rightarrow> 'a CalculatorGraph \<Rightarrow> ts_error + 'a CalculatorGraph" where
  "queue_size_callback i g =
     (case UpdateThrottledNodes (upstream_nodes g) i (throttle_view g) of
        (nodes_to_schedule, t) \<Rightarrow>
          (case ScheduleUnthrottledReadyNodes (node_views g) (node_queues g) nodes_to_schedule t of
             Inl e \<Rightarrow> Inl e
           | Inr (_, t') \<Rightarrow> Inr (g\<lparr>was_full := stream_was_full t', full_inputs := full_input_streams t', cg_nodes := graph_nodes t',
               cg_scheduler := graph_scheduler t'\<rparr>)))"

fun graph_callback :: "nat \<Rightarrow> callback \<Rightarrow> 'a CalculatorGraph \<Rightarrow> ts_error + 'a CalculatorGraph" where
  "graph_callback h (ErrorCallback st) g = RecordError (Inr st) g"
| "graph_callback h (QueueSizeCallback i ev) g = queue_size_callback (stream_number (cg_handlers g) (h, i)) g"
| "graph_callback h HeadersReady g = Inr g"
| "graph_callback h Notification g = Inr g"
| "graph_callback h (ScheduleCallback r) g = Inr g"

text \<open>An operation of the handler behind a mirror, with the callbacks it makes.\<close>

definition graph_mirror ::
  "(nat \<Rightarrow> 'a InputStreamHandler \<Rightarrow> ts_error + 'a InputStreamHandler) \<Rightarrow> nat \<times> nat \<Rightarrow> 'a CalculatorGraph \<Rightarrow> ts_error + 'a CalculatorGraph" where
  "graph_mirror f m g =
     (case at_mirror f m (cg_handlers g) of
        Inl e \<Rightarrow> Inl e
      | Inr hs \<Rightarrow>
          run_steps (graph_callback (fst m)) (drop (length (callbacks (cg_handlers g ! fst m))) (callbacks (hs ! fst m))) (g\<lparr>cg_handlers := hs\<rparr>))"

section \<open>Operations of a graph input stream\<close>

definition gis_SetHeader :: "'a packet \<Rightarrow> 'a GraphInputStream \<Rightarrow> 'a CalculatorGraph \<Rightarrow> ts_error + ('a GraphInputStream \<times> 'a CalculatorGraph)" where
  "gis_SetHeader header s g =
     (case oss_SetHeader header (gis_shard s) (output_stream_spec (gis_manager s)) of
        (es, spec) \<Rightarrow>
          let m = (gis_manager s)\<lparr>output_stream_spec := spec\<rparr>
          in case RecordErrors es g of
               Inl e \<Rightarrow> Inl e
             | Inr g1 \<Rightarrow>
                 (case header_mirrors graph_mirror m g1 of
                    Inl e \<Rightarrow> Inl e
                  | Inr (es', g2) \<Rightarrow>
                      (case RecordErrors es' g2 of Inl e \<Rightarrow> Inl e | Inr g3 \<Rightarrow> Inr (s\<lparr>gis_manager := LockIntroData m\<rparr>, g3))))"

definition gis_SetNextTimestampBound :: "Timestamp \<Rightarrow> 'a GraphInputStream \<Rightarrow> output_error list \<times> 'a GraphInputStream" where
  "gis_SetNextTimestampBound t s = (case oss_SetNextTimestampBound t (gis_shard s) of (es, o') \<Rightarrow> (es, s\<lparr>gis_shard := o'\<rparr>))"

definition gis_AddPacket :: "('a packet \<Rightarrow> bool) \<Rightarrow> 'a packet \<Rightarrow> 'a GraphInputStream \<Rightarrow> output_error list \<times> 'a GraphInputStream" where
  "gis_AddPacket v p s = (case oss_AddPacket v p (gis_shard s) of (es, o') \<Rightarrow> (es, s\<lparr>gis_shard := o'\<rparr>))"

definition gis_propagate ::
  "('a packet \<Rightarrow> bool) \<Rightarrow> Timestamp \<Rightarrow> 'a GraphInputStream \<Rightarrow> 'a CalculatorGraph \<Rightarrow> ts_error + ('a GraphInputStream \<times> 'a CalculatorGraph)" where
  "gis_propagate v b s g =
     (case update_mirrors graph_mirror v b (gis_shard s) (gis_manager s) g of
        Inl e \<Rightarrow> Inl e
      | Inr (o', m, g') \<Rightarrow> Inr (\<lparr>gis_manager = m, gis_shard = o'\<rparr>, g'))"

definition gis_PropagateUpdatesToMirrors ::
  "('a packet \<Rightarrow> bool) \<Rightarrow> 'a GraphInputStream \<Rightarrow> 'a CalculatorGraph \<Rightarrow> ts_error + ('a GraphInputStream \<times> 'a CalculatorGraph)" where
  "gis_PropagateUpdatesToMirrors v s g = gis_propagate v (oss_next_timestamp_bound (gis_shard s)) s g"

definition gis_Close ::
  "('a packet \<Rightarrow> bool) \<Rightarrow> 'a GraphInputStream \<Rightarrow> 'a CalculatorGraph \<Rightarrow> ts_error + ('a GraphInputStream \<times> 'a CalculatorGraph)" where
  "gis_Close v s g =
     (case (if output_queue (gis_shard s) \<noteq> [] then gis_propagate v Done s g else Inr (s, g)) of
        Inl e \<Rightarrow> Inl e
      | Inr (s1, g1) \<Rightarrow>
          (case close_mirrors graph_mirror (gis_manager s1) g1 of Inl e \<Rightarrow> Inl e | Inr (m, g2) \<Rightarrow> Inr (s1\<lparr>gis_manager := m\<rparr>, g2)))"

section \<open>Operations of the graph\<close>

datatype input_status = InputOk | NotAnInputStream | BeforeStartRun | GraphHasErrors | GraphIsThrottled

text \<open>The part under \<^verbatim>\<open>full_input_streams_mutex_\<close>: \<open>None\<close> while it waits.\<close>

definition input_admitted :: "nat \<Rightarrow> 'a CalculatorGraph \<Rightarrow> input_status option" where
  "input_admitted node_id g =
     (if full_inputs g = [] then Some BeforeStartRun
      else case graph_input_stream_add_mode g of
             ADD_IF_NOT_FULL \<Rightarrow>
               Some (if cg_has_error g then GraphHasErrors else if full_inputs g ! node_id \<noteq> {} then GraphIsThrottled else InputOk)
           | WAIT_TILL_NOT_FULL \<Rightarrow>
               (if cg_has_error g then Some GraphHasErrors else if full_inputs g ! node_id \<noteq> {} then None else Some InputOk))"

definition AddPacketToInputStream ::
  "('a packet \<Rightarrow> bool) \<Rightarrow> string \<Rightarrow> 'a packet \<Rightarrow> 'a CalculatorGraph \<Rightarrow> (ts_error + (input_status \<times> bool \<times> 'a CalculatorGraph)) option" where
  "AddPacketToInputStream v name p g =
     (case map_of (graph_input_streams g) name of
        None \<Rightarrow> Some (Inr (NotAnInputStream, False, g))
      | Some s \<Rightarrow>
          if graph_input_stream_node_ids g name < num_calculators g then Some (Inl CheckFailed)
          else case input_admitted (graph_input_stream_node_ids g name) g of
                 None \<Rightarrow> None
               | Some st \<Rightarrow>
                   if st \<noteq> InputOk then Some (Inr (st, False, g))
                   else
                     (case gis_AddPacket v p s of
                        (es, s1) \<Rightarrow>
                          (case RecordErrors es (put_input name s1 g) of
                             Inl e \<Rightarrow> Some (Inl e)
                           | Inr g1 \<Rightarrow>
                               if cg_has_error g1 then Some (Inr (GraphHasErrors, False, g1))
                               else case gis_PropagateUpdatesToMirrors v s1 g1 of
                                      Inl e \<Rightarrow> Some (Inl e)
                                    | Inr (s2, g2) \<Rightarrow>
                                        (case AddedPacketToGraphInputStream (cg_scheduler g2) of
                                           (asks, sch) \<Rightarrow> Some (Inr (InputOk, asks, (put_input name s2 g2)\<lparr>cg_scheduler := sch\<rparr>))))))"

definition SetInputStreamTimestampBound ::
  "('a packet \<Rightarrow> bool) \<Rightarrow> string \<Rightarrow> Timestamp \<Rightarrow> 'a CalculatorGraph \<Rightarrow> ts_error + (input_status \<times> 'a CalculatorGraph)" where
  "SetInputStreamTimestampBound v name t g =
     (case map_of (graph_input_streams g) name of
        None \<Rightarrow> Inr (NotAnInputStream, g)
      | Some s \<Rightarrow>
          (case gis_SetNextTimestampBound t s of
             (es, s1) \<Rightarrow>
               (case RecordErrors es (put_input name s1 g) of
                  Inl e \<Rightarrow> Inl e
                | Inr g1 \<Rightarrow>
                    (case gis_PropagateUpdatesToMirrors v s1 g1 of
                       Inl e \<Rightarrow> Inl e
                     | Inr (s2, g2) \<Rightarrow> Inr (InputOk, put_input name s2 g2)))))"

definition CloseInputStream ::
  "('a packet \<Rightarrow> bool) \<Rightarrow> string \<Rightarrow> 'a CalculatorGraph \<Rightarrow> ts_error + (input_status \<times> bool \<times> 'a CalculatorGraph)" where
  "CloseInputStream v name g =
     (case map_of (graph_input_streams g) name of
        None \<Rightarrow> Inr (NotAnInputStream, False, g)
      | Some s \<Rightarrow>
          if osm_closed (gis_manager s) then Inr (InputOk, False, g)
          else case gis_Close v s g of
                 Inl e \<Rightarrow> Inl e
               | Inr (s', g') \<Rightarrow>
                   let g1 = (put_input name s' g')\<lparr>num_closed_graph_input_streams := num_closed_graph_input_streams g' + 1\<rparr>
                   in if num_closed_graph_input_streams g1 = length (graph_input_streams g1)
                      then (case ClosedAllGraphInputStreams (cg_scheduler g1) of (asks, sch) \<Rightarrow> Inr (InputOk, asks, g1\<lparr>cg_scheduler := sch\<rparr>))
                      else Inr (InputOk, False, g1))"

fun close_inputs ::
  "('a packet \<Rightarrow> bool) \<Rightarrow> (string \<times> 'a GraphInputStream) list \<Rightarrow> 'a CalculatorGraph
    \<Rightarrow> ts_error + ((string \<times> 'a GraphInputStream) list \<times> 'a CalculatorGraph)" where
  "close_inputs v [] g = Inr ([], g)"
| "close_inputs v ((name, s) # ss) g =
     (case gis_Close v s g of
        Inl e \<Rightarrow> Inl e
      | Inr (s', g1) \<Rightarrow> (case close_inputs v ss g1 of Inl e \<Rightarrow> Inl e | Inr (ss', g2) \<Rightarrow> Inr ((name, s') # ss', g2)))"

definition CloseAllInputStreams ::
  "('a packet \<Rightarrow> bool) \<Rightarrow> 'a CalculatorGraph \<Rightarrow> ts_error + (bool \<times> 'a CalculatorGraph)" where
  "CloseAllInputStreams v g =
     (case close_inputs v (graph_input_streams g) g of
        Inl e \<Rightarrow> Inl e
      | Inr (ss, g') \<Rightarrow>
          (case ClosedAllGraphInputStreams (cg_scheduler g') of
             (asks, sch) \<Rightarrow> Inr (asks, g'\<lparr>graph_input_streams := ss, num_closed_graph_input_streams := length ss, cg_scheduler := sch\<rparr>)))"

definition CloseAllPacketSources ::
  "('a packet \<Rightarrow> bool) \<Rightarrow> 'a CalculatorGraph \<Rightarrow> ts_error + (bool \<times> 'a CalculatorGraph)" where
  "CloseAllPacketSources v g =
     (case CloseAllInputStreams v g of
        Inl e \<Rightarrow> Inl e
      | Inr (asks, g') \<Rightarrow> Inr (asks, g'\<lparr>cg_scheduler := CloseAllSourceNodes (cg_scheduler g')\<rparr>))"

section \<open>LibMP\<close>

text \<open>
  \<open>size_t\<close> has 64 bits; an image is whatever \<^verbatim>\<open>CopyPixelData\<close> makes of the data; a poller is a pointer
  into the graph's outputs, or \<open>None\<close> if it could not be made, and then using it aborts.
\<close>

record 'a LibMPImpl =
  m_graph :: "'a CalculatorGraph"
  m_input_stream :: string
  m_pollers :: "(string \<times> nat option) list"
  m_frame_timestamp :: int

text \<open>\<open>int64\<close> from \<open>size_t\<close>.\<close>

definition to_int64 :: "int \<Rightarrow> int" where
  "to_int64 n = (if n < 2 ^ 63 then n else n - 2 ^ 64)"

definition Process ::
  "('a packet \<Rightarrow> bool) \<Rightarrow> (int \<Rightarrow> bool) \<Rightarrow> 'a option \<Rightarrow> int \<Rightarrow> 'a LibMPImpl \<Rightarrow> (ts_error + (bool \<times> bool \<times> 'a LibMPImpl)) option" where
  "Process v Format_IsValid data image_format L =
     (case data of
        None \<Rightarrow> Some (Inr (False, False, L))
      | Some img \<Rightarrow>
          if \<not> Format_IsValid image_format then Some (Inr (False, False, L))
          else
            let L1 = L\<lparr>m_frame_timestamp := (m_frame_timestamp L + 1) mod 2 ^ 64\<rparr>
            in case Timestamp_new (to_int64 (m_frame_timestamp L1)) of
                 Inl e \<Rightarrow> Some (Inl e)
               | Inr t \<Rightarrow>
                   (case AddPacketToInputStream v (m_input_stream L1) \<lparr>pkt_ts = t, pkt_data = Some img\<rparr> (m_graph L1) of
                      None \<Rightarrow> None
                    | Some (Inl e) \<Rightarrow> Some (Inl e)
                    | Some (Inr (st, asks, g)) \<Rightarrow> Some (Inr (st = InputOk, asks, L1\<lparr>m_graph := g\<rparr>))))"

definition put_poller :: "nat \<Rightarrow> 'a OutputStreamPollerImpl \<Rightarrow> 'a LibMPImpl \<Rightarrow> 'a LibMPImpl" where
  "put_poller i p L = L\<lparr>m_graph := (m_graph L)\<lparr>graph_output_streams := (graph_output_streams (m_graph L))[i := p]\<rparr>\<rparr>"

text \<open>\<open>None\<close> inside: the null pointer.\<close>

definition GetOutputPacket ::
  "string \<Rightarrow> 'a LibMPImpl \<Rightarrow> (ts_error + ('a packet option \<times> 'a LibMPImpl)) option" where
  "GetOutputPacket name L =
     (case map_of (m_pollers L) name of
        None \<Rightarrow> Some (Inr (None, L))
      | Some None \<Rightarrow> Some (Inl CheckFailed)
      | Some (Some i) \<Rightarrow>
          (case Next (graph_output_streams (m_graph L) ! i) of
             None \<Rightarrow> None
           | Some (Inl e) \<Rightarrow> Some (Inl e)
           | Some (Inr (ok, p, g')) \<Rightarrow>
               Some (Inr (if ok then Some (case p of None \<Rightarrow> empty_packet | Some q \<Rightarrow> q) else None, put_poller i g' L))))"

text \<open>\<^verbatim>\<open>at\<close> throws for a name that is not there: no result.\<close>

definition GetOutputQueueSize :: "string \<Rightarrow> 'a LibMPImpl \<Rightarrow> (ts_error + nat) option" where
  "GetOutputQueueSize name L =
     (case map_of (m_pollers L) name of
        None \<Rightarrow> None
      | Some None \<Rightarrow> Some (Inl CheckFailed)
      | Some (Some i) \<Rightarrow> Some (Inr (Poller_QueueSize (graph_output_streams (m_graph L) ! i))))"

definition SetOutputStreamMaxQueueSize :: "string \<Rightarrow> int \<Rightarrow> 'a LibMPImpl \<Rightarrow> (ts_error + 'a LibMPImpl) option" where
  "SetOutputStreamMaxQueueSize name n L =
     (case map_of (m_pollers L) name of
        None \<Rightarrow> None
      | Some None \<Rightarrow> Some (Inl CheckFailed)
      | Some (Some i) \<Rightarrow>
          Some (case Poller_SetMaxQueueSize n (graph_output_streams (m_graph L) ! i) of Inl e \<Rightarrow> Inl e | Inr g' \<Rightarrow> Inr (put_poller i g' L)))"

text \<open>
  \<open>known\<close>: the output streams of an initialized graph; \<open>err\<close>: the flag of a new poller, which is not initialized.  An entry that is
  there is kept by \<^verbatim>\<open>emplace\<close>, though the graph has a new poller then too.
\<close>

definition AddOutputStreamPoller :: "(string \<Rightarrow> bool) \<Rightarrow> bool \<Rightarrow> string \<Rightarrow> 'a CalculatorGraph \<Rightarrow> nat option \<times> 'a CalculatorGraph" where
  "AddOutputStreamPoller known err name g =
     (if \<not> known name then (None, g)
      else (Some (length (graph_output_streams g)),
            g\<lparr>graph_output_streams := graph_output_streams g @ [Poller_Initialize name False err]\<rparr>))"

definition AddOutputStream :: "(string \<Rightarrow> bool) \<Rightarrow> bool \<Rightarrow> string \<Rightarrow> 'a LibMPImpl \<Rightarrow> bool \<times> 'a LibMPImpl" where
  "AddOutputStream known err name L =
     (case AddOutputStreamPoller known err name (m_graph L) of
        (poller, g) \<Rightarrow>
          let L1 = L\<lparr>m_graph := g\<rparr>
          in (case map_of (m_pollers L) name of
                None \<Rightarrow> (poller \<noteq> None, L1\<lparr>m_pollers := (name, poller) # m_pollers L\<rparr>)
              | Some old \<Rightarrow> (old \<noteq> None, L1)))"

section \<open>What the callbacks change\<close>

definition same_inputs :: "'a CalculatorGraph \<Rightarrow> 'a CalculatorGraph \<Rightarrow> bool" where
  "same_inputs g g' \<longleftrightarrow> graph_input_streams g' = graph_input_streams g \<and> graph_input_stream_node_ids g' = graph_input_stream_node_ids g \<and>
     num_closed_graph_input_streams g' = num_closed_graph_input_streams g \<and> sched_state (cg_scheduler g') = sched_state (cg_scheduler g) \<and>
     graph_input_streams_closed (cg_scheduler g') = graph_input_streams_closed (cg_scheduler g)"

lemma same_inputs_refl [simp]: "same_inputs g g"
  by (simp add: same_inputs_def)

lemma same_inputs_trans: "same_inputs g g1 \<Longrightarrow> same_inputs g1 g2 \<Longrightarrow> same_inputs g g2"
  by (simp add: same_inputs_def)

lemma same_inputs_handlers [simp]: "same_inputs g (g1\<lparr>cg_handlers := hs\<rparr>) = same_inputs g g1" "same_inputs (g\<lparr>cg_handlers := hs\<rparr>) g1 = same_inputs g g1"
  by (simp_all add: same_inputs_def)

lemma RecordError_frame:
  "RecordError e g = Inr g' \<Longrightarrow> same_inputs g g' \<and> cg_handlers g' = cg_handlers g \<and> cg_has_error g'"
  by (auto simp: RecordError_def same_inputs_def SetHasError_def Let_def split: if_splits)

lemma RecordErrors_frame:
  "RecordErrors es g = Inr g' \<Longrightarrow> same_inputs g g' \<and> cg_handlers g' = cg_handlers g \<and> (cg_has_error g' \<longleftrightarrow> es \<noteq> [] \<or> cg_has_error g)"
  unfolding RecordErrors_def
proof (induction es arbitrary: g)
  case (Cons e es)
  then obtain g1 where g1: "RecordError (Inl e) g = Inr g1" "run_steps (\<lambda>e. RecordError (Inl e)) es g1 = Inr g'" by (auto split: sum.splits)
  from RecordError_frame [OF g1(1)] Cons.IH [OF g1(2)] show ?case by (auto intro: same_inputs_trans)
qed simp

lemma throttle_node_sched:
  "sched_state (graph_scheduler (snd (throttle_node b i n r))) = sched_state (graph_scheduler (snd r)) \<and>
   graph_input_streams_closed (graph_scheduler (snd (throttle_node b i n r))) = graph_input_streams_closed (graph_scheduler (snd r))"
  by (auto simp: throttle_node_def Let_def ThrottledGraphInputStream_def UnthrottledGraphInputStream_def split: prod.splits)

lemma UpdateThrottledNodes_sched:
  "sched_state (graph_scheduler (snd (UpdateThrottledNodes anc i g))) = sched_state (graph_scheduler g) \<and>
   graph_input_streams_closed (graph_scheduler (snd (UpdateThrottledNodes anc i g))) = graph_input_streams_closed (graph_scheduler g)"
proof -
  have "sched_state (graph_scheduler (snd (fold (throttle_node b i) ns r))) = sched_state (graph_scheduler (snd r)) \<and>
    graph_input_streams_closed (graph_scheduler (snd (fold (throttle_node b i) ns r))) = graph_input_streams_closed (graph_scheduler (snd r))" for b ns r
    by (induction ns arbitrary: r) (auto simp: throttle_node_sched)
  from this [of _ "anc i" "([], g)"] show ?thesis by (simp add: UpdateThrottledNodes_def Let_def split: prod.splits) (metis snd_conv)
qed

lemma ScheduleUnthrottled_sched:
  "ScheduleUnthrottledReadyNodes V k ns g = Inr (rs, g') \<Longrightarrow> sched_state (graph_scheduler g') = sched_state (graph_scheduler g) \<and>
   graph_input_streams_closed (graph_scheduler g') = graph_input_streams_closed (graph_scheduler g)"
proof (induction ns arbitrary: g rs)
  case (Cons n ns)
  then show ?case by (fastforce split: if_splits sum.splits)
qed simp

lemma graph_callback_frame:
  assumes "graph_callback h c g = Inr g'"
  shows "same_inputs g g' \<and> cg_handlers g' = cg_handlers g \<and> (cg_has_error g' \<longleftrightarrow> cg_has_error g \<or> (\<exists>st. c = ErrorCallback st))"
proof (cases c)
  case (ErrorCallback st)
  with assms RecordError_frame show ?thesis by auto
next
  case (QueueSizeCallback i ev)
  let ?i = "stream_number (cg_handlers g) (h, i)"
  obtain ns t where u: "UpdateThrottledNodes (upstream_nodes g) ?i (throttle_view g) = (ns, t)" by fastforce
  obtain rs t' where v: "ScheduleUnthrottledReadyNodes (node_views g) (node_queues g) ns t = Inr (rs, t')"
    using assms QueueSizeCallback u by (auto simp: queue_size_callback_def split: sum.splits)
  have "g' = g\<lparr>was_full := stream_was_full t', full_inputs := full_input_streams t', cg_nodes := graph_nodes t', cg_scheduler := graph_scheduler t'\<rparr>"
    using assms QueueSizeCallback u v by (simp add: queue_size_callback_def)
  then show ?thesis
    using ScheduleUnthrottled_sched [OF v] UpdateThrottledNodes_sched [of "upstream_nodes g" ?i "throttle_view g", unfolded u snd_conv] QueueSizeCallback
    by (simp add: same_inputs_def) (simp add: throttle_view_def)
qed (use assms in auto)

lemma graph_callbacks_frame:
  "run_steps (graph_callback h) cs g = Inr g' \<Longrightarrow>
    same_inputs g g' \<and> cg_handlers g' = cg_handlers g \<and> (cg_has_error g' \<longleftrightarrow> cg_has_error g \<or> (\<exists>st. ErrorCallback st \<in> set cs))"
proof (induction cs arbitrary: g)
  case (Cons c cs)
  then obtain g1 where g1: "graph_callback h c g = Inr g1" "run_steps (graph_callback h) cs g1 = Inr g'" by (auto split: sum.splits)
  from graph_callback_frame [OF g1(1)] Cons.IH [OF g1(2)] show ?case by (auto intro: same_inputs_trans)
qed simp

text \<open>The handlers after the mirrors were visited are those without the graph around them.\<close>

lemma graph_mirror_frame: "graph_mirror f m g = Inr g' \<Longrightarrow> same_inputs g g' \<and> at_mirror f m (cg_handlers g) = Inr (cg_handlers g')"
  using graph_callbacks_frame by (fastforce simp: graph_mirror_def split: sum.splits)

lemma graph_mirrors_frame:
  "run_steps (graph_mirror f) ms g = Inr g' \<Longrightarrow> same_inputs g g' \<and> run_steps (at_mirror f) ms (cg_handlers g) = Inr (cg_handlers g')"
proof (induction ms arbitrary: g)
  case (Cons m ms)
  then obtain g1 where g1: "graph_mirror f m g = Inr g1" "run_steps (graph_mirror f) ms g1 = Inr g'" by (auto split: sum.splits)
  from graph_mirror_frame [OF g1(1)] Cons.IH [OF g1(2)] show ?case by (auto intro: same_inputs_trans)
qed simp

section \<open>One packet for the mirrors\<close>

definition refuses :: "('a packet \<Rightarrow> bool) \<Rightarrow> 'a packet \<Rightarrow> 'a InputStreamManager \<Rightarrow> bool" where
  "refuses v p s \<longleftrightarrow> \<not> ism_closed s \<and> admit v p s \<noteq> StatusOk"

definition taken :: "('a packet \<Rightarrow> bool) \<Rightarrow> 'a packet \<Rightarrow> 'a InputStreamManager \<Rightarrow> 'a InputStreamManager" where
  "taken v p s = (if ism_closed s \<or> refuses v p s then s else enqueue p s)"

lemma tell_taken: "tell_stream v [p] None s = taken v p s"
  by (simp add: tell_stream_def taken_def refuses_def AddOrMovePacketsInternal_def split: stream_status.splits)

lemma new_callbacks:
  assumes "mirror_ok hs k" "at_mirror (tell_mirror v [p] None) k hs = Inr hs'"
  shows "\<exists>cs. callbacks (hs' ! fst k) = callbacks (hs ! fst k) @ cs \<and>
    ((\<exists>st. ErrorCallback st \<in> set cs) \<longleftrightarrow> refuses v p (stream_at hs k)) \<and>
    (\<not> ism_IsFull (enqueue p (stream_at hs k)) \<and> \<not> refuses v p (stream_at hs k) \<longrightarrow> set cs \<subseteq> {Notification})"
proof -
  let ?s = "stream_at hs k"
  have k: "fst k < length hs" "has_id (snd k) (hs ! fst k)" "input_stream_managers (hs ! fst k) ! snd k = ?s"
    using assms(1) by (simp_all add: mirror_ok_def has_id_def stream_at_def)
  define r where "r = AddOrMovePacketsInternal v [p] ?s"
  obtain st no ev s' where r: "r = (st, no, ev, s')" by (cases r)
  define cs where "cs = map (QueueSizeCallback (snd k)) ev @ (if st \<noteq> StatusOk then [ErrorCallback st] else []) @ (if no then [Notification] else [])"
  have "callbacks (hs' ! fst k) = callbacks (hs ! fst k) @ cs"
    using assms(2) k r by (auto simp: at_mirror_def tell_mirror_def ish_AddPackets_def r_def cs_def call_def put_stream_def split: sum.splits)
  moreover have "st \<noteq> StatusOk \<longleftrightarrow> refuses v p ?s"
    using r unfolding r_def by (auto simp: AddOrMovePacketsInternal_def refuses_def split: stream_status.splits if_splits)
  moreover have "ev = []" if "\<not> ism_IsFull (enqueue p ?s)" "\<not> refuses v p ?s"
    using r that unfolding r_def by (auto simp: AddOrMovePacketsInternal_def refuses_def split: if_splits)
  ultimately show ?thesis by (intro exI [of _ cs]) (auto simp: cs_def)
qed

lemma graph_tell_one:
  assumes "mirror_ok (cg_handlers g) k" "graph_mirror (tell_mirror v [p] None) k g = Inr g'"
  shows "cg_has_error g' \<longleftrightarrow> cg_has_error g \<or> refuses v p (stream_at (cg_handlers g) k)"
proof -
  obtain hs where hs: "at_mirror (tell_mirror v [p] None) k (cg_handlers g) = Inr hs"
    "run_steps (graph_callback (fst k)) (drop (length (callbacks (cg_handlers g ! fst k))) (callbacks (hs ! fst k))) (g\<lparr>cg_handlers := hs\<rparr>) = Inr g'"
    using assms(2) by (auto simp: graph_mirror_def split: sum.splits)
  from new_callbacks [OF assms(1) hs(1)] graph_callbacks_frame [OF hs(2)] show ?thesis by auto
qed

lemma graph_tell:
  assumes "distinct ms" "\<forall>k \<in> set ms. mirror_ok (cg_handlers g) k" "run_steps (graph_mirror (tell_mirror v [p] None)) ms g = Inr g'"
  shows "(cg_has_error g' \<longleftrightarrow> cg_has_error g \<or> (\<exists>k \<in> set ms. refuses v p (stream_at (cg_handlers g) k))) \<and>
    (\<forall>k. mirror_ok (cg_handlers g) k \<longrightarrow>
       stream_at (cg_handlers g') k = (if k \<in> set ms then taken v p (stream_at (cg_handlers g) k) else stream_at (cg_handlers g) k))"
  using assms
proof (induction ms arbitrary: g)
  case (Cons m ms)
  then obtain g1 where g1: "graph_mirror (tell_mirror v [p] None) m g = Inr g1" "run_steps (graph_mirror (tell_mirror v [p] None)) ms g1 = Inr g'"
    by (auto split: sum.splits)
  have m: "mirror_ok (cg_handlers g) m" using Cons.prems(2) by simp
  note one = graph_tell_one [OF m g1(1)]
  from tell.at_mirror_step [OF m, of v "[p]" None] graph_mirror_frame [OF g1(1)]
  have st: "\<forall>k. mirror_ok (cg_handlers g1) k = mirror_ok (cg_handlers g) k"
    "\<forall>k. mirror_ok (cg_handlers g) k \<longrightarrow> stream_at (cg_handlers g1) k = (if k = m then taken v p (stream_at (cg_handlers g) m) else stream_at (cg_handlers g) k)"
    by (auto simp: tell_taken)
  have ms: "\<forall>k \<in> set ms. mirror_ok (cg_handlers g1) k" "distinct ms" using Cons.prems(1,2) st(1) by auto
  have same: "stream_at (cg_handlers g1) k = stream_at (cg_handlers g) k" if "k \<in> set ms" for k
    using that Cons.prems(1,2) st(2) by (auto simp del: split_paired_All)
  from Cons.IH [OF ms(2,1) g1(2)] one st same Cons.prems(1,2) show ?case by auto
qed simp

text \<open>Where every mirror takes the packet and none becomes full, no callback reaches the graph.\<close>

lemma graph_tell_quiet:
  assumes "distinct ms" "\<forall>k \<in> set ms. mirror_ok (cg_handlers g) k \<and> \<not> refuses v p (stream_at (cg_handlers g) k) \<and>
      \<not> ism_IsFull (enqueue p (stream_at (cg_handlers g) k))"
    and "run_steps (at_mirror (tell_mirror v [p] None)) ms (cg_handlers g) = Inr hs"
  shows "run_steps (graph_mirror (tell_mirror v [p] None)) ms g = Inr (g\<lparr>cg_handlers := hs\<rparr>)"
  using assms
proof (induction ms arbitrary: g)
  case (Cons m ms)
  then obtain hs1 where hs1: "at_mirror (tell_mirror v [p] None) m (cg_handlers g) = Inr hs1" "run_steps (at_mirror (tell_mirror v [p] None)) ms hs1 = Inr hs"
    by (auto split: sum.splits)
  have m: "mirror_ok (cg_handlers g) m" using Cons.prems(2) by simp
  from new_callbacks [OF m hs1(1)] Cons.prems(2) obtain cs where cs: "callbacks (hs1 ! fst m) = callbacks (cg_handlers g ! fst m) @ cs" "set cs \<subseteq> {Notification}"
    by auto
  have "run_steps (graph_callback (fst m)) cs (g\<lparr>cg_handlers := hs1\<rparr>) = Inr (g\<lparr>cg_handlers := hs1\<rparr>)" using cs(2) by (induction cs) auto
  then have one: "graph_mirror (tell_mirror v [p] None) m g = Inr (g\<lparr>cg_handlers := hs1\<rparr>)" using hs1(1) cs(1) by (simp add: graph_mirror_def)
  from tell.at_mirror_step [OF m, of v "[p]" None] hs1(1)
  have st: "\<forall>k. mirror_ok hs1 k = mirror_ok (cg_handlers g) k"
    "\<forall>k. mirror_ok (cg_handlers g) k \<and> k \<noteq> m \<longrightarrow> stream_at hs1 k = stream_at (cg_handlers g) k" by auto
  have "k \<noteq> m" if "k \<in> set ms" for k using that Cons.prems(1) by auto
  then have "\<forall>k \<in> set ms. mirror_ok hs1 k \<and> \<not> refuses v p (stream_at hs1 k) \<and> \<not> ism_IsFull (enqueue p (stream_at hs1 k))"
    using Cons.prems(2) st by (simp del: split_paired_All)
  with Cons.IH [of "g\<lparr>cg_handlers := hs1\<rparr>"] Cons.prems(1) hs1(2) one show ?case by simp
qed simp

section \<open>A packet enters\<close>

text \<open>
  The graph runs without an error, and the stream is open, not throttled, and in step with its mirrors.  \<open>room n\<close>: every mirror can take \<open>n\<close> packets more without
  becoming full.
\<close>

definition room :: "nat \<Rightarrow> 'a GraphInputStream \<Rightarrow> 'a CalculatorGraph \<Rightarrow> bool" where
  "room n s g \<longleftrightarrow> (\<forall>k \<in> set (mirrors (gis_manager s)). let t = stream_at (cg_handlers g) k
     in max_queue_size t < 0 \<or> int (length (ism_queue t) + n) < max_queue_size t)"

definition input_ready :: "string \<Rightarrow> 'a GraphInputStream \<Rightarrow> 'a CalculatorGraph \<Rightarrow> bool" where
  "input_ready name s g \<longleftrightarrow> map_of (graph_input_streams g) name = Some s \<and> num_calculators g \<le> graph_input_stream_node_ids g name \<and>
     full_inputs g \<noteq> [] \<and> full_inputs g ! graph_input_stream_node_ids g name = {} \<and> \<not> cg_has_error g \<and>
     \<not> oss_closed (gis_shard s) \<and> output_queue (gis_shard s) = [] \<and> mirrored (gis_manager s) (cg_handlers g)"

lemma taken_ready:
  assumes "stream_inv s" "v p" "IsRangeValue (pkt_ts p)" "next_timestamp_bound s \<le> pkt_ts p"
  shows "\<not> refuses v p s" "taken v p s = enqueue p s"
proof -
  have "admit v p s = StatusOk" using assms range_allowed [of "pkt_ts p"] by (auto simp: admit_def)
  then show "\<not> refuses v p s" "taken v p s = enqueue p s" using assms(1) by (simp_all add: refuses_def taken_def stream_inv_def)
qed

lemma add_packet_ready:
  assumes "input_ready name s g" and "room (Suc n) s g" and "v p" "\<not> packet_IsEmpty p" "IsRangeValue (pkt_ts p)"
    and "osm_next_timestamp_bound (gis_manager s) \<le> pkt_ts p"
  shows "\<exists>asks s' g'. AddPacketToInputStream v name p g = Some (Inr (InputOk, asks, g')) \<and> input_ready name s' g' \<and> room n s' g' \<and>
    mirrors (gis_manager s') = mirrors (gis_manager s) \<and> osm_next_timestamp_bound (gis_manager s') = next_ts (pkt_ts p) \<and>
    (\<forall>k \<in> set (mirrors (gis_manager s)). ism_queue (stream_at (cg_handlers g') k) = ism_queue (stream_at (cg_handlers g) k) @ [p]) \<and>
    (\<forall>k. mirror_ok (cg_handlers g) k \<and> k \<notin> set (mirrors (gis_manager s)) \<longrightarrow> stream_at (cg_handlers g') k = stream_at (cg_handlers g) k)"
proof -
  let ?o = "(gis_shard s)\<lparr>output_queue := [p], oss_next_timestamp_bound := next_ts (pkt_ts p), updated_next_timestamp_bound := next_ts (pkt_ts p)\<rparr>"
  let ?s = "s\<lparr>gis_shard := ?o\<rparr>"
  let ?ms = "mirrors (gis_manager s)"
  have r: "map_of (graph_input_streams g) name = Some s" "mirrored (gis_manager s) (cg_handlers g)" "\<not> oss_closed (gis_shard s)" "output_queue (gis_shard s) = []"
    using assms(1) by (auto simp: input_ready_def)
  have add: "gis_AddPacket v p s = ([], ?s)"
    using r assms(3-5) range_allowed [of "pkt_ts p"] by (simp add: gis_AddPacket_def oss_AddPacket_def oss_AddPacketInternal_def)
  have "writable v (osm_next_timestamp_bound (gis_manager s)) (output_queue ?o)" using assms(3-6) by (simp add: writable_def queue_sorted_def)
  moreover have later: "pkt_ts p < next_ts (pkt_ts p)"
    using assms(5) range_allowed [of "pkt_ts p"] by (intro next_ts_greater) (auto simp: IsAllowedInStream_def)
  have "Unset < PreStream" by (simp add: special_defs)
  then have "Unset < next_ts (pkt_ts p)" using later assms(6) r(2) unfolding mirrored_def by (meson less_le_trans less_trans)
  then have unset: "next_ts (pkt_ts p) \<noteq> Unset" by auto
  moreover have "osm_next_timestamp_bound (gis_manager s) \<le> next_ts (pkt_ts p)" using later assms(6) by simp
  ultimately obtain m' hs' where q: "PropagateUpdatesToMirrors v (next_ts (pkt_ts p)) ?o (gis_manager s) (cg_handlers g) = Inr (?o\<lparr>output_queue := []\<rparr>, m', hs')"
      "mirrored m' hs'" "mirrors m' = ?ms" "osm_next_timestamp_bound m' = next_ts (pkt_ts p)"
      "\<forall>k \<in> set ?ms. ism_queue (stream_at hs' k) = ism_queue (stream_at (cg_handlers g) k) @ [p]"
      "\<forall>k. mirror_ok (cg_handlers g) k \<and> k \<notin> set ?ms \<longrightarrow> stream_at hs' k = stream_at (cg_handlers g) k"
    using propagate_mirrored [OF r(2), of v ?o "next_ts (pkt_ts p)"] by auto
  define s' where "s' = \<lparr>gis_manager = m', gis_shard = ?o\<lparr>output_queue := []\<rparr>\<rparr>"
  define g1 where "g1 = put_input name ?s g"
  define g' where "g' = put_input name s' (g1\<lparr>cg_handlers := hs'\<rparr>)"
  have g1: "cg_handlers g1 = cg_handlers g" "cg_has_error g1 = cg_has_error g" "cg_scheduler g1 = cg_scheduler g" by (simp_all add: g1_def put_input_def)
  have run: "run_steps (at_mirror (tell_mirror v [p] None)) ?ms (cg_handlers g) = Inr hs'" and m': "m' = (gis_manager s)\<lparr>osm_next_timestamp_bound := next_ts (pkt_ts p)\<rparr>"
    using q(1) unset by (auto simp: PropagateUpdatesToMirrors_def update_mirrors_def Let_def split: sum.splits)
  have ms: "mirror_ok (cg_handlers g) k \<and> \<not> refuses v p (stream_at (cg_handlers g) k) \<and>
      taken v p (stream_at (cg_handlers g) k) = enqueue p (stream_at (cg_handlers g) k)" if "k \<in> set ?ms" for k
    using r(2) that taken_ready [of "stream_at (cg_handlers g) k" v p] assms(3,5,6) by (auto simp: mirrored_def)
  have dist: "distinct ?ms" using r(2) by (simp add: mirrored_def)
  have free: "\<not> ism_IsFull (enqueue p (stream_at (cg_handlers g) k))" if "k \<in> set ?ms" for k
    using assms(2) that by (auto simp: room_def Let_def ism_IsFull_def enqueue_def)
  have "run_steps (graph_mirror (tell_mirror v [p] None)) ?ms g1 = Inr (g1\<lparr>cg_handlers := hs'\<rparr>)"
    by (rule graph_tell_quiet [OF dist]) (use ms free run g1(1) in auto)
  then have told: "gis_PropagateUpdatesToMirrors v ?s g1 = Inr (s', g1\<lparr>cg_handlers := hs'\<rparr>)"
    using unset by (simp add: gis_PropagateUpdatesToMirrors_def gis_propagate_def update_mirrors_def s'_def m' Let_def)
  have "input_admitted (graph_input_stream_node_ids g name) g = Some InputOk"
    using assms(1) by (cases "graph_input_stream_add_mode g") (auto simp: input_admitted_def input_ready_def)
  then have "AddPacketToInputStream v name p g = Some (Inr (InputOk, sched_state (cg_scheduler g) \<noteq> STATE_TERMINATED, g'))"
    using assms(1) r add told g1(2,3)
    by (simp add: AddPacketToInputStream_def input_ready_def RecordErrors_def g1_def [symmetric] AddedPacketToGraphInputStream_def g'_def)
      (simp add: put_input_def)
  moreover have "input_ready name s' g'"
    using assms(1) q(2) by (simp add: input_ready_def g'_def s'_def g1_def put_input_def update_conv')
  moreover have "room n s' g'"
  proof -
    have "\<forall>m \<in> set ?ms. mirror_ok (cg_handlers g) m" using ms by blast
    from tell.run_mirrors [OF dist this, of v "[p]" None] run
    have "\<forall>k. mirror_ok (cg_handlers g) k \<longrightarrow> stream_at hs' k = (if k \<in> set ?ms then taken v p (stream_at (cg_handlers g) k) else stream_at (cg_handlers g) k)"
      by (auto simp: tell_taken simp del: split_paired_All)
    then have "stream_at hs' k = enqueue p (stream_at (cg_handlers g) k)" if "k \<in> set ?ms" for k
      using that ms [OF that] by (simp del: split_paired_All)
    then show ?thesis using assms(2) q(3) by (auto simp: room_def s'_def g'_def put_input_def enqueue_def Let_def)
  qed
  ultimately show ?thesis using q(3-6)
    by (intro exI [of _ "sched_state (cg_scheduler g) \<noteq> STATE_TERMINATED"] exI [of _ s'] exI [of _ g']) (simp add: s'_def g'_def put_input_def)
qed

section \<open>Frames\<close>

text \<open>A sequence of frames given to the library; what each call returned.\<close>

fun process_all ::
  "('a packet \<Rightarrow> bool) \<Rightarrow> (int \<Rightarrow> bool) \<Rightarrow> int \<Rightarrow> 'a list \<Rightarrow> 'a LibMPImpl \<Rightarrow> (ts_error + (bool list \<times> 'a LibMPImpl)) option" where
  "process_all v F fmt [] L = Some (Inr ([], L))"
| "process_all v F fmt (x # xs) L =
     (case Process v F (Some x) fmt L of
        Some (Inr (b, _, L1)) \<Rightarrow>
          (case process_all v F fmt xs L1 of Some (Inr (bs, L2)) \<Rightarrow> Some (Inr (b # bs, L2)) | r \<Rightarrow> r)
      | Some (Inl e) \<Rightarrow> Some (Inl e)
      | None \<Rightarrow> None)"

fun frames :: "int \<Rightarrow> 'a list \<Rightarrow> 'a packet list" where
  "frames n [] = []"
| "frames n (x # xs) = \<lparr>pkt_ts = Ts (n + 1), pkt_data = Some x\<rparr> # frames (n + 1) xs"

lemma Process_ready:
  assumes "input_ready (m_input_stream L) s (m_graph L)" "room (Suc r) s (m_graph L)" "\<forall>t. v \<lparr>pkt_ts = t, pkt_data = Some x\<rparr>" "F fmt"
    and "0 \<le> m_frame_timestamp L" "m_frame_timestamp L + 1 < ts_value Timestamp.Max"
    and "osm_next_timestamp_bound (gis_manager s) \<le> Ts (m_frame_timestamp L + 1)"
  shows "\<exists>asks s' L'. Process v F (Some x) fmt L = Some (Inr (True, asks, L')) \<and> input_ready (m_input_stream L') s' (m_graph L') \<and> room r s' (m_graph L') \<and>
    m_input_stream L' = m_input_stream L \<and> m_frame_timestamp L' = m_frame_timestamp L + 1 \<and> mirrors (gis_manager s') = mirrors (gis_manager s) \<and>
    osm_next_timestamp_bound (gis_manager s') = Ts (m_frame_timestamp L' + 1) \<and>
    (\<forall>k \<in> set (mirrors (gis_manager s)). ism_queue (stream_at (cg_handlers (m_graph L')) k) =
       ism_queue (stream_at (cg_handlers (m_graph L)) k) @ [\<lparr>pkt_ts = Ts (m_frame_timestamp L + 1), pkt_data = Some x\<rparr>])"
proof -
  define n where "n = m_frame_timestamp L + 1"
  let ?p = "\<lparr>pkt_ts = Ts n, pkt_data = Some x\<rparr>"
  have n: "1 \<le> n" "n < kint64max - 3" using assms(5,6) by (simp_all add: n_def special_defs)
  then have small: "n < 2 ^ 63" "n mod 2 ^ 64 = n" by (simp_all add: kint64max_def)
  have ts: "Timestamp_new (to_int64 n) = Inr (Ts n)" "IsRangeValue (Ts n)" "next_ts (Ts n) = Ts (n + 1)"
    using n small(1) by (auto simp: Timestamp_new_def IsSpecialValue_def IsRangeValue_def to_int64_def next_ts_eq special_defs kint64max_def kint64min_def)
  obtain asks s' g' where a: "AddPacketToInputStream v (m_input_stream L) ?p (m_graph L) = Some (Inr (InputOk, asks, g'))"
      "input_ready (m_input_stream L) s' g'" "room r s' g'" "mirrors (gis_manager s') = mirrors (gis_manager s)"
      "osm_next_timestamp_bound (gis_manager s') = Ts (n + 1)"
      "\<forall>k \<in> set (mirrors (gis_manager s)). ism_queue (stream_at (cg_handlers g') k) = ism_queue (stream_at (cg_handlers (m_graph L)) k) @ [?p]"
    using add_packet_ready [OF assms(1,2), of v ?p] assms(3,7) ts by (auto simp: packet_IsEmpty_def n_def)
  then have "Process v F (Some x) fmt L = Some (Inr (True, asks, L\<lparr>m_frame_timestamp := n, m_graph := g'\<rparr>))"
    using assms(4) ts(1) small(2) by (simp add: Process_def Let_def n_def)
  then show ?thesis using a by (intro exI [of _ asks] exI [of _ s'] exI [of _ "L\<lparr>m_frame_timestamp := n, m_graph := g'\<rparr>"]) (simp add: n_def)
qed


definition demo_libmp :: "int LibMPImpl" where
  "demo_libmp =
     \<lparr>m_graph = \<lparr>graph_input_streams = [(''image'', \<lparr>gis_manager = demo_out, gis_shard = OutputStreamShard_new\<rparr>)],
        graph_input_stream_node_ids = (\<lambda>_. 0), cg_nodes = [], node_views = (\<lambda>_. \<lparr>view_id = 0, view_is_source = False, view_source_layer = 0, view_process_order = Unstarted\<rparr>), node_queues = (\<lambda>_. 0), upstream_nodes = (\<lambda>_. [0]),
        full_inputs = [{}], was_full = [False], graph_input_stream_add_mode = WAIT_TILL_NOT_FULL,
        cg_has_error = False, cg_errors = [], graph_output_streams = [], num_closed_graph_input_streams = 0, cg_handlers = demo_down, cg_scheduler = Scheduler_new []\<rparr>,
      m_input_stream = ''image'', m_pollers = [], m_frame_timestamp = 0\<rparr>"


section \<open>Closing\<close>

definition input_closed :: "string \<times> 'a GraphInputStream \<Rightarrow> bool" where
  "input_closed e \<longleftrightarrow> osm_closed (gis_manager (snd e))"

definition close_ok :: "'a CalculatorGraph \<Rightarrow> bool" where
  "close_ok g \<longleftrightarrow> distinct (map fst (graph_input_streams g)) \<and>
     num_closed_graph_input_streams g = length (filter input_closed (graph_input_streams g)) \<and>
     (graph_input_streams_closed (cg_scheduler g) \<longleftrightarrow> (\<forall>e \<in> set (graph_input_streams g). input_closed e))"

lemma gis_Close_closed: "gis_Close v s g = Inr (s', g') \<Longrightarrow> osm_closed (gis_manager s') \<and> same_inputs g g'"
proof -
  assume c: "gis_Close v s g = Inr (s', g')"
  have up: "update_mirrors graph_mirror v b o' m g = Inr (o2, m2, g2) \<Longrightarrow> same_inputs g g2" for b o' m g o2 m2 g2
    using graph_mirrors_frame by (fastforce simp: update_mirrors_def Let_def split: sum.splits)
  have cl: "close_mirrors graph_mirror m g = Inr (m2, g2) \<Longrightarrow> osm_closed m2 \<and> same_inputs g g2" for m g m2 g2
    using graph_mirrors_frame by (fastforce simp: close_mirrors_def split: if_splits sum.splits)
  from c obtain s1 g1 m where "(if output_queue (gis_shard s) \<noteq> [] then gis_propagate v Done s g else Inr (s, g)) = Inr (s1, g1)"
    "close_mirrors graph_mirror (gis_manager s1) g1 = Inr (m, g')" "s' = s1\<lparr>gis_manager := m\<rparr>" by (auto simp: gis_Close_def split: sum.splits)
  moreover from this(1) have "same_inputs g g1" using up by (auto simp: gis_propagate_def split: if_splits sum.splits)
  ultimately show ?thesis using cl same_inputs_trans by fastforce
qed

lemma filter_update:
  assumes "map_of ss name = Some s" "distinct (map fst ss)" "\<not> P (name, s)" "P (name, s')"
  shows "length (filter P (AList.update name s' ss)) = length (filter P ss) + 1 \<and> length (AList.update name s' ss) = length ss \<and>
    map fst (AList.update name s' ss) = map fst ss"
  using assms
proof (induction ss)
  case (Cons e ss)
  then show ?case by (cases e) (auto split: if_splits)
qed simp

lemma all_iff_filter_length: "(\<forall>e \<in> set xs. P e) \<longleftrightarrow> length (filter P xs) = length xs"
  by (metis filter_True filter_id_conv length_filter_less linorder_neq_iff)

lemma close_inputs_closed:
  "close_inputs v ss hs = Inr (ss', hs') \<Longrightarrow> map fst ss' = map fst ss \<and> (\<forall>e \<in> set ss'. input_closed e) \<and> same_inputs hs hs'"
proof (induction ss arbitrary: hs ss')
  case (Cons e ss)
  obtain name s where e: "e = (name, s)" by (cases e)
  from Cons.prems obtain s' hs1 ss1 where r: "gis_Close v s hs = Inr (s', hs1)" "close_inputs v ss hs1 = Inr (ss1, hs')" "ss' = (name, s') # ss1"
    by (auto simp: e split: sum.splits)
  from Cons.IH [OF r(2)] gis_Close_closed [OF r(1)] show ?case by (auto simp: r(3) e input_closed_def intro: same_inputs_trans)
qed simp

lemma CloseInputStream_reports:
  assumes "close_ok g" "CloseInputStream v name g = Inr (st, asks, g')"
  shows "close_ok g' \<and> (asks \<longleftrightarrow> \<not> graph_input_streams_closed (cg_scheduler g) \<and> graph_input_streams_closed (cg_scheduler g'))"
proof (cases "map_of (graph_input_streams g) name")
  case None
  with assms show ?thesis by (auto simp: CloseInputStream_def)
next
  case (Some s)
  show ?thesis
  proof (cases "osm_closed (gis_manager s)")
    case True
    with assms Some show ?thesis by (auto simp: CloseInputStream_def)
  next
    case False
    then obtain s' g1 where cl: "gis_Close v s g = Inr (s', g1)" using assms(2) Some by (auto simp: CloseInputStream_def split: sum.splits)
    define ss where "ss = AList.update name s' (graph_input_streams g)"
    have ok: "distinct (map fst (graph_input_streams g))" "num_closed_graph_input_streams g = length (filter input_closed (graph_input_streams g))"
      using assms(1) by (simp_all add: close_ok_def)
    have up: "length (filter input_closed ss) = length (filter input_closed (graph_input_streams g)) + 1" "map fst ss = map fst (graph_input_streams g)"
      using filter_update [of _ name s input_closed s'] Some ok(1) False gis_Close_closed [OF cl] by (simp_all add: ss_def input_closed_def)
    have same: "graph_input_streams g1 = graph_input_streams g" "num_closed_graph_input_streams g1 = num_closed_graph_input_streams g"
      "graph_input_streams_closed (cg_scheduler g1) = graph_input_streams_closed (cg_scheduler g)" using gis_Close_closed [OF cl] by (simp_all add: same_inputs_def)
    have open_before: "\<not> graph_input_streams_closed (cg_scheduler g)"
      using assms(1) map_of_SomeD [OF Some] False by (auto simp: close_ok_def input_closed_def)
    have g': "graph_input_streams g' = ss" "num_closed_graph_input_streams g' = length (filter input_closed ss)"
        "asks \<longleftrightarrow> length (filter input_closed ss) = length ss" "graph_input_streams_closed (cg_scheduler g') \<longleftrightarrow> asks"
      using assms(2) Some False cl ok(2) up(1) open_before same
      by (auto simp: CloseInputStream_def put_input_def ss_def [symmetric] ClosedAllGraphInputStreams_def Let_def split: if_splits)
    have "(\<forall>e \<in> set ss. input_closed e) \<longleftrightarrow> asks" unfolding g'(3) by (rule all_iff_filter_length)
    with g' show ?thesis using up(2) ok(1) open_before unfolding close_ok_def by simp
  qed
qed

text \<open>
  The scheduler learns of the end of the inputs. The graph's count is the number of closed inputs, and the scheduler takes the inputs to be
  closed exactly when all of them are; closing one input, all of them or all sources keeps this, and the call that closes the last input
  is the one that asks the scheduler to look.
\<close>

theorem inputs_closed_reported:
  assumes "close_ok g"
  shows "(CloseInputStream v name g = Inr (st, asks, g') \<longrightarrow> close_ok g' \<and>
      (asks \<longleftrightarrow> \<not> graph_input_streams_closed (cg_scheduler g) \<and> graph_input_streams_closed (cg_scheduler g'))) \<and>
    (CloseAllInputStreams v g = Inr (asks, g') \<longrightarrow> asks \<and> close_ok g' \<and> graph_input_streams_closed (cg_scheduler g')) \<and>
    (CloseAllPacketSources v g = Inr (asks, g') \<longrightarrow> asks \<and> close_ok g' \<and> graph_input_streams_closed (cg_scheduler g') \<and>
       stopping (shared (cg_scheduler g')))"
proof (intro conjI impI)
  have all: "asks \<and> close_ok g'' \<and> graph_input_streams_closed (cg_scheduler g'')" if "CloseAllInputStreams v g = Inr (asks, g'')" for g''
    using that assms close_inputs_closed [of v "graph_input_streams g" g]
    by (fastforce simp: CloseAllInputStreams_def ClosedAllGraphInputStreams_def close_ok_def filter_id_conv split: sum.splits)
  show "CloseAllInputStreams v g = Inr (asks, g') \<Longrightarrow> asks" "CloseAllInputStreams v g = Inr (asks, g') \<Longrightarrow> close_ok g'"
    "CloseAllInputStreams v g = Inr (asks, g') \<Longrightarrow> graph_input_streams_closed (cg_scheduler g')" using all by blast+
  {
    assume "CloseAllPacketSources v g = Inr (asks, g')"
    then obtain g1 where "CloseAllInputStreams v g = Inr (asks, g1)" "g' = g1\<lparr>cg_scheduler := CloseAllSourceNodes (cg_scheduler g1)\<rparr>"
      by (auto simp: CloseAllPacketSources_def split: sum.splits)
    with all show "asks" "close_ok g'" "graph_input_streams_closed (cg_scheduler g')" "stopping (shared (cg_scheduler g'))"
      by (auto simp: close_ok_def CloseAllSourceNodes_def)
  }
  assume c: "CloseInputStream v name g = Inr (st, asks, g')"
  have "close_ok g' \<and> (asks \<longleftrightarrow> \<not> graph_input_streams_closed (cg_scheduler g) \<and> graph_input_streams_closed (cg_scheduler g'))"
    by (rule CloseInputStream_reports [OF assms c])
  then show "close_ok g'" "asks \<longleftrightarrow> \<not> graph_input_streams_closed (cg_scheduler g) \<and> graph_input_streams_closed (cg_scheduler g')" by simp_all
qed

theorem inputs_closed_reported_witness:
  "\<exists>st asks g'. CloseInputStream (\<lambda>_. True) ''depth'' (m_graph demo_libmp) = Inr (st, asks, g') \<and> close_ok g' \<and> \<not> asks"
proof -
  have ok: "close_ok (m_graph demo_libmp)"
    by (simp add: close_ok_def demo_libmp_def input_closed_def demo_out_def AddMirror_def osm_Initialize_def osm_PrepareForRun_def Scheduler_new_def)
  have "CloseInputStream (\<lambda>_. True) ''depth'' (m_graph demo_libmp) = Inr (NotAnInputStream, False, m_graph demo_libmp)"
    by (simp add: CloseInputStream_def demo_libmp_def)
  with inputs_closed_reported [OF ok] show ?thesis by blast
qed

section \<open>Refusals\<close>

lemma propagate_one:
  assumes "oss_next_timestamp_bound (gis_shard s) = next_ts (pkt_ts p)" "output_queue (gis_shard s) = [p]" "next_ts (pkt_ts p) \<noteq> Unset"
    and "gis_PropagateUpdatesToMirrors v s g = Inr (s', g')"
  shows "run_steps (graph_mirror (tell_mirror v [p] None)) (mirrors (gis_manager s)) g = Inr g'"
  using assms by (auto simp: gis_PropagateUpdatesToMirrors_def gis_propagate_def update_mirrors_def Let_def split: sum.splits)


text \<open>A packet below the bound of a stream downstream: success is returned, the stream does not change, and the graph has an error.\<close>

definition late_graph :: "int CalculatorGraph" where
  "late_graph = (m_graph demo_libmp)\<lparr>cg_handlers := [InputStreamHandler_new [(ism_Initialize ''x'' False)\<lparr>next_timestamp_bound := Ts 5\<rparr>] (demo_contexts 1)]\<rparr>"


end
