(* ===== verification/Topological_Sorter.thy ===== *)
theory Topological_Sorter
  imports Prelude "HOL-Library.Multiset"
begin

text \<open>
  \<^verbatim>\<open>framework/deps/topologicalsorter.h\<close> and \<^verbatim>\<open>.cc\<close>: the order in which a graph is built.  A failed \<^verbatim>\<open>CHECK\<close> is \<open>None\<close>; the vectors are
  lists, and the node indices are natural numbers once they passed the test of \<open>AddEdge\<close>.
\<close>

section \<open>The priority queue\<close>

text \<open>What the sorter relies on: the top of the queue is the least of its elements.\<close>

locale min_queue =
  fixes empty_q :: 'q and push_q :: "nat \<Rightarrow> 'q \<Rightarrow> 'q" and top_q :: "'q \<Rightarrow> nat" and pop_q :: "'q \<Rightarrow> 'q" and is_empty_q :: "'q \<Rightarrow> bool"
    and inv_q :: "'q \<Rightarrow> bool" and contents_q :: "'q \<Rightarrow> nat multiset"
  assumes empty_q: "inv_q empty_q" "contents_q empty_q = {#}"
    and push_q: "inv_q q \<Longrightarrow> inv_q (push_q x q) \<and> contents_q (push_q x q) = add_mset x (contents_q q)"
    and top_q: "inv_q q \<Longrightarrow> contents_q q \<noteq> {#} \<Longrightarrow> top_q q \<in># contents_q q \<and> (\<forall>x \<in># contents_q q. top_q q \<le> x)"
    and pop_q: "inv_q q \<Longrightarrow> contents_q q \<noteq> {#} \<Longrightarrow> inv_q (pop_q q) \<and> contents_q (pop_q q) = contents_q q - {#top_q q#}"
    and is_empty_q: "inv_q q \<Longrightarrow> is_empty_q q \<longleftrightarrow> contents_q q = {#}"
begin

lemma push_all: "inv_q q \<Longrightarrow> inv_q (fold push_q xs q) \<and> contents_q (fold push_q xs q) = contents_q q + mset xs"
  by (induction xs arbitrary: q) (auto simp: push_q)

lemma top_Min: "inv_q q \<Longrightarrow> contents_q q \<noteq> {#} \<Longrightarrow> top_q q = Min (set_mset (contents_q q))"
  using top_q by (intro Min_eqI [symmetric]) auto

end

text \<open>\<^verbatim>\<open>std::priority_queue\<close> with \<^verbatim>\<open>std::greater\<close>, as the ascending list of its elements.\<close>

interpretation pq: min_queue "[]" insort hd tl "\<lambda>q. q = []" sorted mset
proof unfold_locales
  fix q :: "nat list" assume q: "sorted q" "mset q \<noteq> {#}"
  then obtain x xs where "q = x # xs" by (cases q) auto
  with q show "hd q \<in># mset q \<and> (\<forall>x \<in># mset q. hd q \<le> x)" "sorted (tl q) \<and> mset (tl q) = mset q - {#hd q#}" by auto
qed (auto simp: sorted_insort)

section \<open>The sorter\<close>

record TopologicalSorter =
  num_nodes :: nat
  adjacency_lists :: "nat list list"
  traversal_started :: bool
  num_nodes_left :: nat
  nodes_with_zero_indegree :: "nat list"
  indegree :: "int list"

definition TopologicalSorter_new :: "int \<Rightarrow> TopologicalSorter option" where
  "TopologicalSorter_new n =
     (if n < 0 then None
      else Some \<lparr>num_nodes = nat n, adjacency_lists = replicate (nat n) [], traversal_started = False, num_nodes_left = 0,
        nodes_with_zero_indegree = [], indegree = []\<rparr>)"

definition AddEdge :: "int \<Rightarrow> int \<Rightarrow> TopologicalSorter \<Rightarrow> TopologicalSorter option" where
  "AddEdge from to s =
     (if \<not> traversal_started s \<and> from < int (num_nodes s) \<and> to < int (num_nodes s) \<and> 0 \<le> from \<and> 0 \<le> to
      then Some (s\<lparr>adjacency_lists := (adjacency_lists s)[nat from := adjacency_lists s ! nat from @ [nat to]]\<rparr>)
      else None)"

text \<open>\<open>FindCycle\<close>: the stack with its top first, each node with the index of the first child not looked at.\<close>

fun unwind :: "nat \<Rightarrow> (nat \<times> nat) list \<Rightarrow> nat list option" where
  "unwind child [] = None"
| "unwind child ((node, i) # rest) = (if node = child then Some [node] else map_option (\<lambda>c. node # c) (unwind child rest))"

partial_function (option) dfs_while ::
  "nat list list \<Rightarrow> (nat \<times> nat) list \<Rightarrow> bool list \<Rightarrow> bool list \<Rightarrow> (nat list + (bool list \<times> bool list)) option" where
  "dfs_while adj dfs_stack no_cycle in_cur_stack =
     (case dfs_stack of
        [] \<Rightarrow> Some (Inr (no_cycle, in_cur_stack))
      | (node, i) # rest \<Rightarrow>
          if length (adj ! node) \<le> i then dfs_while adj rest (no_cycle[node := True]) (in_cur_stack[node := False])
          else let child = adj ! node ! i in
            if no_cycle ! child then dfs_while adj ((node, Suc i) # rest) no_cycle in_cur_stack
            else if in_cur_stack ! child then map_option (\<lambda>c. Inl (rev c)) (unwind child ((node, Suc i) # rest))
            else dfs_while adj ((child, 0) # (node, Suc i) # rest) no_cycle (in_cur_stack[child := True]))"

fun find_from :: "nat list list \<Rightarrow> nat list \<Rightarrow> bool list \<Rightarrow> bool list \<Rightarrow> nat list option" where
  "find_from adj [] no_cycle in_cur_stack = Some []"
| "find_from adj (start # starts) no_cycle in_cur_stack =
     (if no_cycle ! start then find_from adj starts no_cycle in_cur_stack
      else (case dfs_while adj [(start, 0)] no_cycle (in_cur_stack[start := True]) of
              None \<Rightarrow> None
            | Some (Inl c) \<Rightarrow> Some c
            | Some (Inr (no_cycle', in_cur_stack')) \<Rightarrow> find_from adj starts no_cycle' in_cur_stack'))"

definition FindCycle :: "TopologicalSorter \<Rightarrow> nat list option" where
  "FindCycle s = find_from (adjacency_lists s) [0..<num_nodes s] (replicate (num_nodes s) False) (replicate (num_nodes s) False)"

text \<open>\<open>GetNext\<close>: the preparation of the first call, and a call.\<close>

definition count_edges :: "nat list \<Rightarrow> int list \<Rightarrow> int list" where
  "count_edges tos d = fold (\<lambda>to d. d[to := d ! to + 1]) tos d"

definition start_traversal :: "TopologicalSorter \<Rightarrow> TopologicalSorter" where
  "start_traversal s =
     (let adj = map (\<lambda>l. remdups_adj (sort l)) (adjacency_lists s);
          d = fold count_edges adj (replicate (num_nodes s) 0)
      in s\<lparr>adjacency_lists := adj, indegree := d,
           nodes_with_zero_indegree := fold insort (filter (\<lambda>i. d ! i = 0) [0..<num_nodes s]) (nodes_with_zero_indegree s),
           num_nodes_left := num_nodes s, traversal_started := True\<rparr>)"

definition release_edge :: "nat \<Rightarrow> int list \<times> nat list \<Rightarrow> int list \<times> nat list" where
  "release_edge to dq =
     (case dq of (d, q) \<Rightarrow> let d1 = d[to := d ! to - 1] in (d1, if d1 ! to = 0 then insort to q else q))"

datatype next_node = NextNode nat | AllVisited | CyclicGraph "nat list"

definition GetNext :: "TopologicalSorter \<Rightarrow> (next_node \<times> TopologicalSorter) option" where
  "GetNext s0 =
     (let s = (if traversal_started s0 then s0 else start_traversal s0)
      in if num_nodes_left s = 0 then Some (AllVisited, s)
         else if nodes_with_zero_indegree s = [] then map_option (\<lambda>c. (CyclicGraph c, s)) (FindCycle s)
         else let node = hd (nodes_with_zero_indegree s);
                  dq = fold release_edge (adjacency_lists s ! node) (indegree s, tl (nodes_with_zero_indegree s))
              in Some (NextNode node, s\<lparr>num_nodes_left := num_nodes_left s - 1, adjacency_lists := (adjacency_lists s)[node := []],
                   indegree := fst dq, nodes_with_zero_indegree := snd dq\<rparr>))"

text \<open>How the sorter is used: edges are added, then nodes are taken as long as there are any.\<close>

fun add_edges :: "(int \<times> int) list \<Rightarrow> TopologicalSorter \<Rightarrow> TopologicalSorter option" where
  "add_edges [] s = Some s"
| "add_edges ((a, b) # es) s = (case AddEdge a b s of None \<Rightarrow> None | Some s' \<Rightarrow> add_edges es s')"

partial_function (option) take_nodes :: "TopologicalSorter \<Rightarrow> (nat list \<times> nat list option) option" where
  "take_nodes s =
     (case GetNext s of
        None \<Rightarrow> None
      | Some (NextNode v, s') \<Rightarrow> Option.bind (take_nodes s') (\<lambda>(vs, c). Some (v # vs, c))
      | Some (AllVisited, s') \<Rightarrow> Some ([], None)
      | Some (CyclicGraph c, s') \<Rightarrow> Some ([], Some c))"

section \<open>The search for a cycle\<close>

definition edges :: "nat list list \<Rightarrow> (nat \<times> nat) set" where
  "edges adj = {(a, b). a < length adj \<and> b \<in> set (adj ! a)}"

definition is_cycle :: "(nat \<times> nat) set \<Rightarrow> nat list \<Rightarrow> bool" where
  "is_cycle E c \<longleftrightarrow> c \<noteq> [] \<and> successively (\<lambda>a b. (a, b) \<in> E) c \<and> (last c, hd c) \<in> E"

lemma cycle_not_acyclic: "is_cycle E c \<Longrightarrow> \<not> acyclic E"
proof -
  have path: "(hd c, last c) \<in> E\<^sup>*" if "c \<noteq> []" "successively (\<lambda>a b. (a, b) \<in> E) c" for c
    using that by (induction c rule: induct_list012) (auto intro: converse_rtrancl_into_rtrancl)
  assume "is_cycle E c"
  then have "(last c, last c) \<in> E\<^sup>+" using path [of c] by (auto simp: is_cycle_def)
  then show ?thesis by (auto simp: acyclic_def)
qed

definition graph_ok :: "nat list list \<Rightarrow> bool" where
  "graph_ok adj \<longleftrightarrow> (\<forall>l \<in> set adj. \<forall>b \<in> set l. b < length adj)"

text \<open>Each node on the stack is the child of the one below it that was looked at last, and the children looked at before are dismissed.\<close>

fun linked :: "nat list list \<Rightarrow> (nat \<times> nat) list \<Rightarrow> bool" where
  "linked adj ((w, j) # (v, i) # rest) = (0 < i \<and> adj ! v ! (i - 1) = w \<and> linked adj ((v, i) # rest))"
| "linked adj stack = True"

fun looked_at :: "nat list list \<Rightarrow> bool list \<Rightarrow> nat \<Rightarrow> (nat \<times> nat) list \<Rightarrow> bool" where
  "looked_at adj no_cycle k [] = True"
| "looked_at adj no_cycle k ((v, i) # rest) = ((\<forall>j < i - k. no_cycle ! (adj ! v ! j)) \<and> looked_at adj no_cycle 1 rest)"

definition dismissed_ok :: "nat list list \<Rightarrow> bool list \<Rightarrow> bool" where
  "dismissed_ok adj no_cycle \<longleftrightarrow>
     (\<forall>v < length adj. no_cycle ! v \<longrightarrow> (\<forall>w \<in> set (adj ! v). no_cycle ! w) \<and> (v, v) \<notin> (edges adj)\<^sup>+)"

definition dfs_inv :: "nat list list \<Rightarrow> (nat \<times> nat) list \<Rightarrow> bool list \<Rightarrow> bool list \<Rightarrow> bool" where
  "dfs_inv adj stack no_cycle in_stack \<longleftrightarrow>
     length no_cycle = length adj \<and> length in_stack = length adj \<and> distinct (map fst stack) \<and>
     (\<forall>x \<in> set stack. fst x < length adj \<and> snd x \<le> length (adj ! fst x)) \<and>
     (\<forall>v < length adj. in_stack ! v \<longleftrightarrow> v \<in> fst ` set stack) \<and> (\<forall>v < length adj. no_cycle ! v \<longrightarrow> \<not> in_stack ! v) \<and>
     linked adj stack \<and> looked_at adj no_cycle 0 stack \<and> dismissed_ok adj no_cycle"

lemma unwind_chain:
  assumes "linked adj stack" "child \<in> fst ` set stack" "\<forall>x \<in> set stack. fst x < length adj \<and> snd x \<le> length (adj ! fst x)"
  shows "\<exists>c. unwind child stack = Some c \<and> c \<noteq> [] \<and> hd c = fst (hd stack) \<and> last c = child \<and> successively (\<lambda>a b. (b, a) \<in> edges adj) c"
  using assms
proof (induction child stack rule: unwind.induct)
  case (2 child node i rest)
  show ?case
  proof (cases "node = child")
    case False
    then obtain v j rest' where r: "rest = (v, j) # rest'" using 2(3) by (cases rest) auto
    from 2(1) [OF False] 2(2-4) False obtain c where c: "unwind child rest = Some c" "c \<noteq> []" "hd c = v" "last c = child"
      "successively (\<lambda>a b. (b, a) \<in> edges adj) c" by (auto simp: r)
    have "0 < j" "adj ! v ! (j - 1) = node" "v < length adj" "j \<le> length (adj ! v)" using 2(2,4) by (auto simp: r)
    then have "(v, node) \<in> edges adj" by (auto simp: edges_def in_set_conv_nth intro!: exI [of _ "j - 1"])
    then have "successively (\<lambda>a b. (b, a) \<in> edges adj) (node # c)" using c(2,3,5) by (cases c) auto
    then show ?thesis using False c by simp
  qed simp
qed simp

lemma graph_child: "graph_ok adj \<Longrightarrow> v < length adj \<Longrightarrow> i < length (adj ! v) \<Longrightarrow> adj ! v ! i < length adj"
  by (meson graph_ok_def nth_mem)

lemma graph_child': "\<forall>l \<in> set adj. \<forall>b \<in> set l. b < length adj \<Longrightarrow> v < length adj \<Longrightarrow> b \<in> set (adj ! v) \<Longrightarrow> b < length adj"
  using nth_mem by blast

lemma edges_range: "graph_ok adj \<Longrightarrow> edges adj \<subseteq> {..<length adj} \<times> {..<length adj}"
  unfolding edges_def graph_ok_def using nth_mem by blast

lemma unwind_cycle:
  assumes "dfs_inv adj ((node, i) # rest) no_cycle in_stack" "i < length (adj ! node)" "in_stack ! (adj ! node ! i)" "graph_ok adj"
  shows "\<exists>c. unwind (adj ! node ! i) ((node, Suc i) # rest) = Some c \<and> is_cycle (edges adj) (rev c)"
proof -
  have n: "node < length adj" using assms(1) by (simp add: dfs_inv_def)
  then have e: "(node, adj ! node ! i) \<in> edges adj" "adj ! node ! i < length adj"
    using assms(2) n graph_child [OF assms(4)] by (auto simp: edges_def)
  have l: "linked adj ((node, Suc i) # rest)" using assms(1) by (cases rest) (auto simp: dfs_inv_def)
  have m: "adj ! node ! i \<in> fst ` set ((node, Suc i) # rest)" using assms(1,3) e(2) by (auto simp: dfs_inv_def)
  have b: "\<forall>x \<in> set ((node, Suc i) # rest). fst x < length adj \<and> snd x \<le> length (adj ! fst x)" using assms(1,2) by (auto simp: dfs_inv_def)
  from unwind_chain [OF l m b] obtain c where "unwind (adj ! node ! i) ((node, Suc i) # rest) = Some c" "c \<noteq> []" "hd c = node" "last c = adj ! node ! i"
    "successively (\<lambda>a b. (b, a) \<in> edges adj) c" by auto
  then show ?thesis using e(1) by (auto simp: is_cycle_def successively_rev hd_rev last_rev)
qed

text \<open>A node whose children are all dismissed can be dismissed.\<close>

lemma dismiss:
  assumes "dismissed_ok adj no_cycle" "v < length adj" "\<not> no_cycle ! v" "\<forall>w \<in> set (adj ! v). no_cycle ! w" "graph_ok adj" "length no_cycle = length adj"
  shows "dismissed_ok adj (no_cycle[v := True])"
proof -
  have closed: "no_cycle ! b" if "(a, b) \<in> (edges adj)\<^sup>+" "no_cycle ! a" for a b
    using that by (induction rule: trancl_induct) (use assms(1) in \<open>auto simp: dismissed_ok_def edges_def\<close>)
  have "(v, v) \<notin> (edges adj)\<^sup>+"
  proof
    assume "(v, v) \<in> (edges adj)\<^sup>+"
    then obtain w where "(v, w) \<in> edges adj" "w = v \<or> (w, v) \<in> (edges adj)\<^sup>+" by (meson tranclD rtranclD)
    then show False using assms(3,4) closed by (auto simp: edges_def)
  qed
  then show ?thesis using assms by (auto simp: dismissed_ok_def nth_list_update)
qed

lemma looked_at_mono: "looked_at adj nc k st \<Longrightarrow> (\<And>v. nc ! v \<Longrightarrow> nc' ! v) \<Longrightarrow> looked_at adj nc' k st"
  by (induction adj nc k st rule: looked_at.induct) auto

lemma inv_pop:
  assumes inv: "dfs_inv adj ((v, i) # rest) nc ins" and "length (adj ! v) \<le> i" and g: "graph_ok adj"
  shows "dfs_inv adj rest (nc[v := True]) (ins[v := False])"
proof -
  have v: "v < length adj" "length nc = length adj" "length ins = length adj" "i = length (adj ! v)" "ins ! v" "\<not> nc ! v" "v \<notin> fst ` set rest"
    using assms(1,2) by (auto simp: dfs_inv_def)
  have "\<forall>w \<in> set (adj ! v). nc ! w" using inv v(4) by (auto simp: dfs_inv_def in_set_conv_nth)
  then have d: "dismissed_ok adj (nc[v := True])" using inv dismiss [OF _ v(1,6) _ g v(2)] by (simp add: dfs_inv_def)
  have mono: "nc ! w \<Longrightarrow> nc[v := True] ! w" for w by (cases "w = v") (use v in auto)
  have la: "looked_at adj nc 1 rest" "linked adj ((v, i) # rest)" using inv by (auto simp: dfs_inv_def)
  have "looked_at adj (nc[v := True]) 0 rest"
  proof (cases rest)
    case (Cons u rest')
    obtain w j where u: "u = (w, j)" by fastforce
    have "0 < j" "adj ! w ! (j - 1) = v" "looked_at adj nc 1 rest'" "\<forall>k < j - 1. nc ! (adj ! w ! k)" using la by (auto simp: Cons u)
    then have "nc[v := True] ! (adj ! w ! k)" if "k < j" for k
      using that v(1,2) mono by (cases "k = j - 1") auto
    then show ?thesis using looked_at_mono [OF \<open>looked_at adj nc 1 rest'\<close> mono] by (auto simp: Cons u)
  qed simp
  moreover have "linked adj rest" using la(2) by (cases rest) auto
  ultimately show ?thesis using inv d v by (auto simp: dfs_inv_def nth_list_update)
qed

lemma inv_skip:
  "dfs_inv adj ((v, i) # rest) nc ins \<Longrightarrow> i < length (adj ! v) \<Longrightarrow> nc ! (adj ! v ! i) \<Longrightarrow> dfs_inv adj ((v, Suc i) # rest) nc ins"
  by (cases rest) (auto simp: dfs_inv_def less_Suc_eq)

lemma inv_push:
  assumes "dfs_inv adj ((v, i) # rest) nc ins" "i < length (adj ! v)" "\<not> nc ! (adj ! v ! i)" "\<not> ins ! (adj ! v ! i)" "graph_ok adj"
  shows "dfs_inv adj ((adj ! v ! i, 0) # (v, Suc i) # rest) nc (ins[adj ! v ! i := True])"
proof -
  have "v < length adj" using assms(1) by (simp add: dfs_inv_def)
  then have c: "adj ! v ! i < length adj" using assms(2) graph_child [OF assms(5)] by blast
  have "linked adj ((v, Suc i) # rest)" using assms(1) by (cases rest) (auto simp: dfs_inv_def)
  then show ?thesis using assms(1-4) c by (auto simp: dfs_inv_def nth_list_update)
qed

definition dfs_measure :: "nat list list \<Rightarrow> (nat \<times> nat) list \<Rightarrow> bool list \<Rightarrow> bool list \<Rightarrow> nat \<times> nat" where
  "dfs_measure adj stack nc ins = (card {v. v < length adj \<and> \<not> nc ! v \<and> \<not> ins ! v}, (\<Sum>x\<leftarrow>stack. Suc (length (adj ! fst x) - snd x)))"

text \<open>The search returns: a cycle, or with everything dismissed that was on the stack.\<close>

definition dfs_post :: "nat list list \<Rightarrow> bool list \<Rightarrow> nat set \<Rightarrow> nat list + (bool list \<times> bool list) \<Rightarrow> bool" where
  "dfs_post adj nc S r \<longleftrightarrow>
     (case r of Inl c \<Rightarrow> is_cycle (edges adj) c
      | Inr (nc', ins') \<Rightarrow> dfs_inv adj [] nc' ins' \<and> (\<forall>v < length adj. nc ! v \<or> v \<in> S \<longrightarrow> nc' ! v))"

lemma dfs_post_mono:
  "dfs_post adj nc' S' r \<Longrightarrow> (\<And>v. v < length adj \<Longrightarrow> nc ! v \<or> v \<in> S \<Longrightarrow> nc' ! v \<or> v \<in> S') \<Longrightarrow> dfs_post adj nc S r"
  by (auto simp: dfs_post_def split: sum.splits)

lemma dfs_returns:
  assumes "dfs_inv adj stack nc ins" "graph_ok adj"
  shows "\<exists>r. dfs_while adj stack nc ins = Some r \<and> dfs_post adj nc (fst ` set stack) r"
  using assms
proof (induction "dfs_measure adj stack nc ins" arbitrary: stack nc ins rule: wf_induct_rule [OF wf_lex_prod [OF wf_less_than wf_less_than]])
  case (1 stack nc ins)
  show ?case
  proof (cases stack)
    case Nil
    then show ?thesis using 1(2) by (simp add: dfs_while.simps dfs_post_def)
  next
    case (Cons x rest)
    obtain v i where x: "x = (v, i)" by fastforce
    note inv = 1(2) [unfolded Cons x] and g = 1(3) and IH = 1(1)
    have v: "v < length adj" "length nc = length adj" "length ins = length adj" "ins ! v" "\<not> nc ! v" using inv by (auto simp: dfs_inv_def)
    show ?thesis
    proof (cases "length (adj ! v) \<le> i")
      case True
      have "{w. w < length adj \<and> \<not> nc[v := True] ! w \<and> \<not> ins[v := False] ! w} = {w. w < length adj \<and> \<not> nc ! w \<and> \<not> ins ! w}"
        using v by (auto simp: nth_list_update)
      then have "(dfs_measure adj rest (nc[v := True]) (ins[v := False]), dfs_measure adj stack nc ins) \<in> less_than <*lex*> less_than"
        by (simp add: dfs_measure_def Cons x)
      from IH [OF this inv_pop [OF inv True g] g] obtain r where
        r: "dfs_while adj rest (nc[v := True]) (ins[v := False]) = Some r" "dfs_post adj (nc[v := True]) (fst ` set rest) r" by blast
      have "dfs_while adj stack nc ins = Some r" using True r(1) unfolding Cons x by (subst dfs_while.simps) simp
      moreover have "dfs_post adj nc (fst ` set stack) r"
        by (rule dfs_post_mono [OF r(2)]) (use v in \<open>auto simp: Cons x nth_list_update\<close>)
      ultimately show ?thesis by blast
    next
      case i: False
      show ?thesis
      proof (cases "nc ! (adj ! v ! i)")
        case True
        have "(dfs_measure adj ((v, Suc i) # rest) nc ins, dfs_measure adj stack nc ins) \<in> less_than <*lex*> less_than"
          using i by (simp add: dfs_measure_def Cons x)
        from IH [OF this inv_skip [OF inv _ True] g] i obtain r where
          r: "dfs_while adj ((v, Suc i) # rest) nc ins = Some r" "dfs_post adj nc (fst ` set ((v, Suc i) # rest)) r" by auto
        have "dfs_while adj stack nc ins = Some r" using i True r(1) unfolding Cons x by (subst dfs_while.simps) (simp add: Let_def)
        then show ?thesis using r(2) by (simp add: Cons x)
      next
        case not_done: False
        show ?thesis
        proof (cases "ins ! (adj ! v ! i)")
          case True
          from unwind_cycle [OF inv _ True g] i obtain c where "unwind (adj ! v ! i) ((v, Suc i) # rest) = Some c" "is_cycle (edges adj) (rev c)" by auto
          then show ?thesis using i not_done True unfolding Cons x by (subst dfs_while.simps) (simp add: Let_def dfs_post_def)
        next
          case not_in: False
          have inv': "dfs_inv adj ((adj ! v ! i, 0) # (v, Suc i) # rest) nc (ins[adj ! v ! i := True])"
            by (rule inv_push [OF inv _ not_done not_in g]) (use i in simp)
          then have c: "adj ! v ! i < length adj" by (simp add: dfs_inv_def)
          have "{w. w < length adj \<and> \<not> nc ! w \<and> \<not> ins[adj ! v ! i := True] ! w} \<subset> {w. w < length adj \<and> \<not> nc ! w \<and> \<not> ins ! w}"
            using c not_done not_in v by (auto simp: nth_list_update psubset_eq)
          then have "(dfs_measure adj ((adj ! v ! i, 0) # (v, Suc i) # rest) nc (ins[adj ! v ! i := True]), dfs_measure adj stack nc ins) \<in> less_than <*lex*> less_than"
            by (simp add: dfs_measure_def psubset_card_mono)
          from IH [OF this inv' g] obtain r where
            r: "dfs_while adj ((adj ! v ! i, 0) # (v, Suc i) # rest) nc (ins[adj ! v ! i := True]) = Some r"
              "dfs_post adj nc (fst ` set ((adj ! v ! i, 0) # (v, Suc i) # rest)) r" by blast
          have "dfs_while adj stack nc ins = Some r" using i not_done not_in r(1) unfolding Cons x by (subst dfs_while.simps) (simp add: Let_def)
          moreover have "dfs_post adj nc (fst ` set stack) r" by (rule dfs_post_mono [OF r(2)]) (auto simp: Cons x)
          ultimately show ?thesis by blast
        qed
      qed
    qed
  qed
qed

lemma find_from_correct:
  assumes "dfs_inv adj [] nc ins" "graph_ok adj" "\<forall>s \<in> set starts. s < length adj" "\<forall>v < length adj. nc ! v \<or> v \<in> set starts"
  shows "\<exists>c. find_from adj starts nc ins = Some c \<and> (if acyclic (edges adj) then c = [] else is_cycle (edges adj) c)"
  using assms
proof (induction adj starts nc ins rule: find_from.induct)
  case (1 adj nc ins)
  then have d: "dismissed_ok adj nc" "\<forall>v < length adj. nc ! v" by (simp_all add: dfs_inv_def)
  have "(v, v) \<notin> (edges adj)\<^sup>+" for v
  proof
    assume c: "(v, v) \<in> (edges adj)\<^sup>+"
    then obtain w where "(v, w) \<in> edges adj" by (meson tranclD)
    with d c show False by (auto simp: dismissed_ok_def edges_def)
  qed
  then show ?case by (simp add: acyclic_def)
next
  case (2 adj start starts nc ins)
  show ?case
  proof (cases "nc ! start")
    case True
    have "\<forall>v < length adj. nc ! v \<or> v \<in> set starts" "\<forall>s \<in> set starts. s < length adj" using 2(5,6) True by auto
    from 2(1) [OF True 2(3,4) this(2,1)] True show ?thesis by simp
  next
    case False
    have inv: "dfs_inv adj [(start, 0)] nc (ins[start := True])" using 2(3,5) False by (auto simp: dfs_inv_def nth_list_update)
    from dfs_returns [OF inv 2(4)] obtain r where r: "dfs_while adj [(start, 0)] nc (ins[start := True]) = Some r" "dfs_post adj nc {start} r" by auto
    show ?thesis
    proof (cases r)
      case (Inl c)
      then have c: "is_cycle (edges adj) c" using r(2) by (simp add: dfs_post_def)
      then have "\<not> acyclic (edges adj)" by (rule cycle_not_acyclic)
      then show ?thesis using False r(1) Inl c by simp
    next
      case (Inr p)
      obtain nc' ins' where p: "p = (nc', ins')" by fastforce
      from r(2) have "dfs_inv adj [] nc' ins'" "\<forall>v < length adj. nc' ! v \<or> v \<in> set starts"
        using 2(6) by (auto simp: dfs_post_def Inr p)
      then show ?thesis using 2(2) [OF False r(1) [unfolded Inr p] refl] 2(4,5) False r(1) by (auto simp: Inr p)
    qed
  qed
qed

section \<open>The traversal\<close>

text \<open>The nodes that can be visited next, given those visited.\<close>

definition available :: "nat \<Rightarrow> (nat \<times> nat) set \<Rightarrow> nat set \<Rightarrow> nat set" where
  "available n E V = {u. u < n \<and> u \<notin> V \<and> (\<forall>w. (w, u) \<in> E \<longrightarrow> w \<in> V)}"

definition predecessors :: "nat list list \<Rightarrow> nat set \<Rightarrow> nat \<Rightarrow> nat set" where
  "predecessors A V u = {w. w < length A \<and> w \<notin> V \<and> u \<in> set (A ! w)}"

definition traversal :: "nat list list \<Rightarrow> nat list \<Rightarrow> TopologicalSorter \<Rightarrow> bool" where
  "traversal A V s \<longleftrightarrow> traversal_started s \<and> num_nodes s = length A \<and> distinct V \<and> set V \<subseteq> {..<length A} \<and>
     num_nodes_left s = length A - length V \<and> adjacency_lists s = map (\<lambda>i. if i \<in> set V then [] else A ! i) [0..<length A] \<and>
     length (indegree s) = length A \<and> (\<forall>u < length A. u \<notin> set V \<longrightarrow> indegree s ! u = int (card (predecessors A (set V) u))) \<and>
     sorted (nodes_with_zero_indegree s) \<and> mset (nodes_with_zero_indegree s) = mset_set (available (length A) (edges A) (set V)) \<and>
     (\<forall>u \<in> set V. predecessors A (set V) u = {})"

lemma available_finite [simp]: "finite (available n E V)"
  by (rule finite_subset [of _ "{..<n}"]) (auto simp: available_def)

lemma predecessors_finite [simp]: "finite (predecessors A V u)"
  by (simp add: predecessors_def)

lemma available_predecessors: "u \<in> available (length A) (edges A) V \<longleftrightarrow> u < length A \<and> u \<notin> V \<and> predecessors A V u = {}"
  by (auto simp: available_def predecessors_def edges_def)

lemma distinct_remdups_sorted: "sorted xs \<Longrightarrow> distinct (remdups_adj xs)"
  by (induction xs rule: remdups_adj.induct) (auto simp: order.antisym)

lemma count_edges_nth:
  "length (count_edges tos d) = length d \<and> (distinct tos \<longrightarrow> u < length d \<longrightarrow> count_edges tos d ! u = d ! u + (if u \<in> set tos then 1 else 0))"
  by (induction tos arbitrary: d) (auto simp: count_edges_def intro: nth_list_update_neq)

lemma count_all:
  "\<forall>l \<in> set ls. distinct l \<Longrightarrow> length (fold count_edges ls d) = length d \<and>
    (u < length d \<longrightarrow> fold count_edges ls d ! u = d ! u + int (length (filter (\<lambda>l. u \<in> set l) ls)))"
  by (induction ls arbitrary: d) (auto simp: count_edges_nth)

lemma release_edges:
  assumes "distinct tos" "sorted q"
  shows "length (fst (fold release_edge tos (d, q))) = length d \<and>
    (\<forall>u < length d. fst (fold release_edge tos (d, q)) ! u = d ! u - (if u \<in> set tos then 1 else 0)) \<and>
    sorted (snd (fold release_edge tos (d, q))) \<and>
    ((\<forall>u \<in> set tos. u < length d) \<longrightarrow> mset (snd (fold release_edge tos (d, q))) = mset q + mset (filter (\<lambda>u. d ! u = 1) tos))"
  using assms
proof (induction tos arbitrary: d q)
  case (Cons to tos)
  let ?d = "d[to := d ! to - 1]" and ?q = "if d[to := d ! to - 1] ! to = 0 then insort to q else q"
  have "sorted ?q" using Cons.prems by (simp add: sorted_insort)
  moreover have "filter (\<lambda>u. ?d ! u = 1) tos = filter (\<lambda>u. d ! u = 1) tos" using Cons.prems
    by (intro filter_cong refl arg_cong [of _ _ "\<lambda>x. x = 1"] nth_list_update_neq) auto
  moreover have "?d ! u = d ! u" if "u \<in> set tos" for u using that Cons.prems by (intro nth_list_update_neq) auto
  ultimately show ?case using Cons.IH [of ?q ?d] Cons.prems by (auto simp: release_edge_def Let_def nth_list_update)
qed simp

lemma traversal_start:
  assumes "\<not> traversal_started s" "num_nodes s = length (adjacency_lists s)" "nodes_with_zero_indegree s = []"
  defines "A \<equiv> map (\<lambda>l. remdups_adj (sort l)) (adjacency_lists s)"
  shows "traversal A [] (start_traversal s)" "edges A = edges (adjacency_lists s)" "\<forall>l \<in> set A. distinct l"
proof -
  show dist: "\<forall>l \<in> set A. distinct l" by (auto simp: A_def distinct_remdups_sorted)
  have n: "length A = num_nodes s" using assms(2) by (simp add: A_def)
  show "edges A = edges (adjacency_lists s)" by (auto simp: edges_def A_def)
  define d where "d = fold count_edges A (replicate (num_nodes s) 0)"
  have d: "length d = length A" "\<forall>u < length A. d ! u = int (card (predecessors A {} u))"
    using count_all [OF dist, of "replicate (num_nodes s) 0"] n by (auto simp: d_def predecessors_def length_filter_conv_card)
  have "sorted (fold insort (filter (\<lambda>i. d ! i = 0) [0..<num_nodes s]) [])"
    "mset (fold insort (filter (\<lambda>i. d ! i = 0) [0..<num_nodes s]) []) = mset (filter (\<lambda>i. d ! i = 0) [0..<num_nodes s])"
    using pq.push_all [of "[]"] by auto
  moreover have "mset (filter (\<lambda>i. d ! i = 0) [0..<num_nodes s]) = mset_set (available (length A) (edges A) {})"
    unfolding n [symmetric] by (subst mset_set_set [symmetric]) (use d(2) in \<open>auto simp: available_predecessors intro!: arg_cong [of _ _ mset_set]\<close>)
  moreover have "start_traversal s = s\<lparr>adjacency_lists := A, indegree := d,
      nodes_with_zero_indegree := fold insort (filter (\<lambda>i. d ! i = 0) [0..<num_nodes s]) [], num_nodes_left := num_nodes s, traversal_started := True\<rparr>"
    using assms(3) by (simp add: start_traversal_def A_def d_def Let_def)
  ultimately show "traversal A [] (start_traversal s)" using d n map_nth [of A] by (simp add: traversal_def)
qed

lemma traversal_adjacency:
  "traversal A V s \<Longrightarrow> graph_ok A \<Longrightarrow> graph_ok (adjacency_lists s) \<and> edges (adjacency_lists s) = {(a, b) \<in> edges A. a \<notin> set V} \<and>
    length (adjacency_lists s) = length A"
  by (auto simp: traversal_def graph_ok_def edges_def split: if_splits)

text \<open>A step visits the least available node.\<close>

lemma traversal_next:
  assumes t: "traversal A V s" and q: "nodes_with_zero_indegree s \<noteq> []" and A: "graph_ok A" "\<forall>l \<in> set A. distinct l" and left: "num_nodes_left s \<noteq> 0"
  shows "\<exists>s'. GetNext s = Some (NextNode (Min (available (length A) (edges A) (set V))), s') \<and>
    Min (available (length A) (edges A) (set V)) \<in> available (length A) (edges A) (set V) \<and>
    traversal A (V @ [Min (available (length A) (edges A) (set V))]) s'"
proof -
  let ?av = "\<lambda>V. available (length A) (edges A) V"
  obtain v q' where vq: "nodes_with_zero_indegree s = v # q'" using q by (cases "nodes_with_zero_indegree s") auto
  from t have T: "num_nodes s = length A" "distinct V" "set V \<subseteq> {..<length A}" "num_nodes_left s = length A - length V"
    "length (indegree s) = length A" "\<forall>u < length A. u \<notin> set V \<longrightarrow> indegree s ! u = int (card (predecessors A (set V) u))"
    "sorted (v # q')" "mset (v # q') = mset_set (?av (set V))" "\<forall>u \<in> set V. predecessors A (set V) u = {}" "traversal_started s"
    "adjacency_lists s = map (\<lambda>i. if i \<in> set V then [] else A ! i) [0..<length A]"
    by (simp_all add: traversal_def vq)
  have sets: "set (v # q') = ?av (set V)" using T(8) by (metis available_finite finite_set_mset_mset_set set_mset_mset)
  have min: "v = Min (?av (set V))" unfolding sets [symmetric] using T(7) by (intro Min_eqI [symmetric]) auto
  have v: "v \<in> ?av (set V)" "v < length A" "v \<notin> set V" "predecessors A (set V) v = {}" using sets available_predecessors [of v A "set V"] by auto
  have adj: "adjacency_lists s ! v = A ! v" "distinct (A ! v)" "\<forall>u \<in> set (A ! v). u < length A"
    using v(2,3) A by (auto simp: T(11) graph_ok_def)
  have vV: "\<forall>u \<in> set (A ! v). u \<notin> set V" using T(9) v(2,3) by (auto simp: predecessors_def)
  have vv: "v \<notin> set (A ! v)" using v by (auto simp: predecessors_def)
  define dq where "dq = fold release_edge (A ! v) (indegree s, q')"
  have "sorted q'" using T(7) by simp
  note rel = release_edges [OF adj(2) this, of "indegree s", folded dq_def]
  define s' where "s' = s\<lparr>num_nodes_left := num_nodes_left s - 1, adjacency_lists := (adjacency_lists s)[v := []], indegree := fst dq, nodes_with_zero_indegree := snd dq\<rparr>"
  have run: "GetNext s = Some (NextNode v, s')" using left by (simp add: GetNext_def T(10) vq adj(1) dq_def s'_def Let_def)
  have pred: "predecessors A (insert v (set V)) u = predecessors A (set V) u - {v}" for u by (auto simp: predecessors_def)
  have in_pred: "v \<in> predecessors A (set V) u \<longleftrightarrow> u \<in> set (A ! v)" for u using v(2,3) by (auto simp: predecessors_def)
  have card: "int (card (predecessors A (set (V @ [v])) u)) = int (card (predecessors A (set V) u)) - (if u \<in> set (A ! v) then 1 else 0)" for u
  proof (cases "u \<in> set (A ! v)")
    case True
    then have "v \<in> predecessors A (set V) u" by (simp add: in_pred)
    then have "card (predecessors A (set V) u) = Suc (card (predecessors A (set V) u - {v}))" by (intro card.remove) simp_all
    then show ?thesis using True by (simp add: pred)
  qed (simp add: pred in_pred)
  have "mset (snd dq) = mset q' + mset (filter (\<lambda>u. indegree s ! u = 1) (A ! v))" using rel adj(3) T(5) by simp
  also have "mset q' = mset_set (?av (set V) - {v})"
  proof -
    have "add_mset v (mset q') = add_mset v (mset_set (?av (set V) - {v}))" using T(8) mset_set.remove [OF available_finite v(1)] by simp
    then show ?thesis by simp
  qed
  also have "filter (\<lambda>u. indegree s ! u = 1) (A ! v) = filter (\<lambda>u. predecessors A (set V) u = {v}) (A ! v)"
  proof (rule filter_cong [OF refl])
    fix u assume u: "u \<in> set (A ! v)"
    then have "indegree s ! u = int (card (predecessors A (set V) u))" using T(6) adj(3) vV by blast
    then show "(indegree s ! u = 1) = (predecessors A (set V) u = {v})" using u in_pred [of u] by (auto simp: card_1_singleton_iff)
  qed
  also have "mset (filter (\<lambda>u. predecessors A (set V) u = {v}) (A ! v)) = mset_set {u \<in> set (A ! v). predecessors A (set V) u = {v}}"
    using adj(2) by (subst mset_set_set [symmetric]) auto
  also have "mset_set (?av (set V) - {v}) + mset_set {u \<in> set (A ! v). predecessors A (set V) u = {v}} =
      mset_set ((?av (set V) - {v}) \<union> {u \<in> set (A ! v). predecessors A (set V) u = {v}})"
    by (rule mset_set_Union [symmetric]) (simp_all add: disjoint_iff available_predecessors)
  also have "(?av (set V) - {v}) \<union> {u \<in> set (A ! v). predecessors A (set V) u = {v}} = ?av (set (V @ [v]))"
  proof (rule set_eqI)
    fix u
    have "predecessors A (set V) u - {v} = {} \<longleftrightarrow> predecessors A (set V) u = {} \<or> predecessors A (set V) u = {v}" by (simp add: subset_singleton_iff)
    moreover have "predecessors A (set V) u = {v} \<Longrightarrow> u \<in> set (A ! v)" using in_pred [of u] by simp
    ultimately show "u \<in> (?av (set V) - {v}) \<union> {u \<in> set (A ! v). predecessors A (set V) u = {v}} \<longleftrightarrow> u \<in> ?av (set (V @ [v]))"
      using adj(3) vV vv by (auto simp: available_predecessors pred)
  qed
  finally have queue: "mset (snd dq) = mset_set (?av (set (V @ [v])))" .
  have lists: "(adjacency_lists s)[v := []] = map (\<lambda>i. if i \<in> set (V @ [v]) then [] else A ! i) [0..<length A]"
    using v(2) by (intro nth_equalityI) (auto simp: T(11) nth_list_update)
  have "traversal A (V @ [v]) s'"
    unfolding traversal_def s'_def using T(1-5,9,10) v rel queue lists card T(6) pred by (auto simp: T(5))
  with run v(1) min show ?thesis by auto
qed

text \<open>When nothing is available a cycle is left, and it is found.\<close>

lemma traversal_cyclic:
  assumes t: "traversal A V s" and q: "nodes_with_zero_indegree s = []" and A: "graph_ok A" and left: "num_nodes_left s \<noteq> 0"
  shows "\<exists>c. GetNext s = Some (CyclicGraph c, s) \<and> is_cycle (edges A) c"
proof -
  let ?adj = "adjacency_lists s" and ?R = "{..<length A} - set V"
  from traversal_adjacency [OF t A] have adj: "graph_ok ?adj" "edges ?adj = {(a, b) \<in> edges A. a \<notin> set V}" "length ?adj = length A" by auto
  have n: "num_nodes s = length ?adj" "traversal_started s" using t adj(3) by (simp_all add: traversal_def)
  have "mset_set (available (length A) (edges A) (set V)) = {#}" using t q by (simp add: traversal_def)
  then have none: "available (length A) (edges A) (set V) = {}" by (simp add: mset_set_empty_iff)
  have "card (set V) < card {..<length A}" using t left by (simp add: traversal_def distinct_card)
  then obtain r where r: "r \<in> ?R" by (metis Diff_eq_empty_iff card_mono equals0I finite_set leD)
  have pred: "\<exists>w \<in> ?R. (w, u) \<in> edges ?adj" if "u \<in> ?R" for u
  proof -
    from that have "u < length A" "u \<notin> set V" by auto
    moreover have "u \<notin> available (length A) (edges A) (set V)" using none by simp
    ultimately obtain w where "(w, u) \<in> edges A" "w \<notin> set V" by (auto simp: available_def)
    then have "w \<in> ?R" "(w, u) \<in> edges ?adj" unfolding adj(2) by (auto simp: edges_def)
    then show ?thesis by blast
  qed
  have "\<not> acyclic (edges ?adj)"
  proof
    assume "acyclic (edges ?adj)"
    moreover have "finite (edges ?adj)" by (rule finite_subset [OF edges_range [OF adj(1)]]) simp
    ultimately have "wf (edges ?adj)" by (intro finite_acyclic_wf)
    from wfE_min [OF this r] obtain z where "z \<in> ?R" "\<And>y. (y, z) \<in> edges ?adj \<Longrightarrow> y \<notin> ?R" by metis
    with pred show False by blast
  qed
  moreover have "dfs_inv ?adj [] (replicate (num_nodes s) False) (replicate (num_nodes s) False)"
    by (auto simp: dfs_inv_def dismissed_ok_def n(1))
  from find_from_correct [OF this adj(1), of "[0..<num_nodes s]"] obtain c where
    "FindCycle s = Some c" "if acyclic (edges ?adj) then c = [] else is_cycle (edges ?adj) c" by (auto simp: FindCycle_def n(1))
  ultimately have c: "FindCycle s = Some c" "is_cycle (edges ?adj) c" by auto
  have "is_cycle (edges A) c" using c(2) unfolding is_cycle_def adj(2) by (auto elim: successively_mono)
  then show ?thesis using c(1) left q n(2) by (auto simp: GetNext_def Let_def)
qed

definition greedy :: "nat \<Rightarrow> (nat \<times> nat) set \<Rightarrow> nat set \<Rightarrow> nat list \<Rightarrow> bool" where
  "greedy n E V vs \<longleftrightarrow> (\<forall>i < length vs. vs ! i \<in> available n E (V \<union> set (take i vs)) \<and> vs ! i = Min (available n E (V \<union> set (take i vs))))"

lemma greedy_Cons: "greedy n E V (v # vs) \<longleftrightarrow> v \<in> available n E V \<and> v = Min (available n E V) \<and> greedy n E (insert v V) vs"
  by (auto simp: greedy_def less_Suc_eq_0_disj nth_Cons' all_conj_distrib split: if_splits)

lemma take_nodes_correct:
  assumes "traversal A V s" "graph_ok A" "\<forall>l \<in> set A. distinct l"
  shows "\<exists>vs c. take_nodes s = Some (vs, c) \<and> greedy (length A) (edges A) (set V) vs \<and>
    (case c of None \<Rightarrow> set V \<union> set vs = {..<length A} | Some cyc \<Rightarrow> is_cycle (edges A) cyc)"
  using assms(1)
proof (induction "num_nodes_left s" arbitrary: V s)
  case 0
  then have "GetNext s = Some (AllVisited, s)" by (simp add: GetNext_def traversal_def Let_def)
  moreover have "set V = {..<length A}"
  proof (rule card_subset_eq)
    show V: "set V \<subseteq> {..<length A}" using 0 by (simp add: traversal_def)
    have "card (set V) \<le> length A" using card_mono [OF _ V] by simp
    then show "card (set V) = card {..<length A}" using 0 by (simp add: traversal_def distinct_card)
  qed simp
  ultimately show ?case by (subst take_nodes.simps) (simp add: greedy_def)
next
  case (Suc k)
  show ?case
  proof (cases "nodes_with_zero_indegree s = []")
    case True
    from traversal_cyclic [OF Suc(3) True assms(2)] Suc(2) obtain c where "GetNext s = Some (CyclicGraph c, s)" "is_cycle (edges A) c" by auto
    then show ?thesis by (subst take_nodes.simps) (simp add: greedy_def)
  next
    case False
    define v where "v = Min (available (length A) (edges A) (set V))"
    from traversal_next [OF Suc(3) False assms(2,3), folded v_def] Suc(2) obtain s' where
      s': "GetNext s = Some (NextNode v, s')" "v \<in> available (length A) (edges A) (set V)" "traversal A (V @ [v]) s'" by auto
    have "k = num_nodes_left s'" using Suc(2,3) s'(3) by (simp add: traversal_def)
    from Suc(1) [OF this s'(3)] obtain vs c where r: "take_nodes s' = Some (vs, c)" "greedy (length A) (edges A) (set (V @ [v])) vs"
      "case c of None \<Rightarrow> set (V @ [v]) \<union> set vs = {..<length A} | Some cyc \<Rightarrow> is_cycle (edges A) cyc" by blast
    have "take_nodes s = Some (v # vs, c)" using s'(1) r(1) by (subst take_nodes.simps) simp
    moreover have "greedy (length A) (edges A) (set V) (v # vs)" using s'(2) r(2) v_def by (simp add: greedy_Cons)
    moreover have "case c of None \<Rightarrow> set V \<union> set (v # vs) = {..<length A} | Some cyc \<Rightarrow> is_cycle (edges A) cyc" using r(3) by (cases c) auto
    ultimately show ?thesis by blast
  qed
qed

section \<open>Properties\<close>

lemma greedy_position:
  assumes "greedy n E {} vs" "(a, b) \<in> E" "i < length vs" "vs ! i = b"
  shows "\<exists>j < i. vs ! j = a"
proof -
  have "b \<in> available n E (set (take i vs))" using assms(1,3,4) by (auto simp: greedy_def)
  then have "a \<in> set (take i vs)" using assms(2) by (auto simp: available_def)
  then show ?thesis by (auto simp: in_set_conv_nth)
qed

lemma greedy_distinct: "greedy n E {} vs \<Longrightarrow> distinct vs"
proof -
  assume g: "greedy n E {} vs"
  have "vs ! i \<noteq> vs ! j" if "i < j" "j < length vs" for i j
  proof
    assume e: "vs ! i = vs ! j"
    have "vs ! j \<in> available n E (set (take j vs))" using g that(2) unfolding greedy_def Un_empty_left by blast
    moreover have "vs ! i \<in> set (take j vs)" using that by (auto simp: in_set_conv_nth)
    ultimately show False using e by (simp add: available_def)
  qed
  then show ?thesis unfolding distinct_conv_nth by (metis linorder_neqE_nat)
qed

lemma greedy_acyclic:
  assumes "greedy n E {} vs" "set vs = {..<n}" "E \<subseteq> {..<n} \<times> {..<n}"
  shows "acyclic E"
proof -
  have path: "\<exists>i j. i < j \<and> j < length vs \<and> vs ! i = a \<and> vs ! j = b" if "(a, b) \<in> E\<^sup>+" for a b
    using that
  proof (induction rule: trancl_induct)
    case (base b)
    then obtain i where "i < length vs" "vs ! i = b" using assms(2,3) by (metis SigmaD2 in_set_conv_nth subsetD)
    then show ?case using greedy_position [OF assms(1) base] by blast
  next
    case (step b c)
    then obtain i j k where "i < j" "j < length vs" "vs ! i = a" "vs ! j = b" "k < length vs" "vs ! k = c"
      using assms(2,3) by (metis SigmaD2 in_set_conv_nth subsetD)
    moreover then obtain j' where "j' < k" "vs ! j' = b" using greedy_position [OF assms(1) step(2)] by blast
    ultimately show ?case using greedy_distinct [OF assms(1)] by (metis less_trans nth_eq_iff_index_eq)
  qed
  show ?thesis unfolding acyclic_def using path greedy_distinct [OF assms(1)] by (metis less_irrefl less_trans nth_eq_iff_index_eq)
qed

lemma add_edges_result:
  assumes "\<not> traversal_started s" "num_nodes s = length (adjacency_lists s)" "\<forall>(a, b) \<in> set es. 0 \<le> a \<and> a < int (num_nodes s) \<and> 0 \<le> b \<and> b < int (num_nodes s)"
    "graph_ok (adjacency_lists s)"
  shows "\<exists>adj. add_edges es s = Some (s\<lparr>adjacency_lists := adj\<rparr>) \<and> length adj = length (adjacency_lists s) \<and> graph_ok adj \<and>
    edges adj = edges (adjacency_lists s) \<union> (\<lambda>(a, b). (nat a, nat b)) ` set es"
  using assms
proof (induction es arbitrary: s)
  case (Cons e es)
  obtain a b where e: "e = (a, b)" by fastforce
  define s1 where "s1 = s\<lparr>adjacency_lists := (adjacency_lists s)[nat a := adjacency_lists s ! nat a @ [nat b]]\<rparr>"
  have ab: "0 \<le> a" "a < int (num_nodes s)" "0 \<le> b" "b < int (num_nodes s)" using Cons(4) by (auto simp: e)
  then have add: "AddEdge a b s = Some s1" using Cons(2) by (simp add: AddEdge_def s1_def)
  have na: "nat a < length (adjacency_lists s)" "nat b < length (adjacency_lists s)" using ab Cons(3) by auto
  have "graph_ok (adjacency_lists s1)"
    using Cons(5) na by (auto simp: s1_def graph_ok_def dest!: set_update_subset_insert [THEN subsetD] intro: graph_child')
  moreover have e1: "edges (adjacency_lists s1) = insert (nat a, nat b) (edges (adjacency_lists s))"
    using na by (auto simp: s1_def edges_def nth_list_update split: if_splits)
  moreover have "\<forall>(a, b) \<in> set es. 0 \<le> a \<and> a < int (num_nodes s1) \<and> 0 \<le> b \<and> b < int (num_nodes s1)" using Cons(4) by (simp add: s1_def)
  ultimately obtain adj where "add_edges es s1 = Some (s1\<lparr>adjacency_lists := adj\<rparr>)" "length adj = length (adjacency_lists s1)" "graph_ok adj"
    "edges adj = edges (adjacency_lists s1) \<union> (\<lambda>(a, b). (nat a, nat b)) ` set es"
    using Cons(1) [of s1] Cons(2,3) by (auto simp: s1_def)
  moreover have "s1\<lparr>adjacency_lists := adj\<rparr> = s\<lparr>adjacency_lists := adj\<rparr>" "length (adjacency_lists s1) = length (adjacency_lists s)" by (simp_all add: s1_def)
  ultimately show ?case by (intro exI [of _ adj]) (auto simp: e add e1)
next
  case Nil
  then show ?case by (cases s) (auto intro!: exI [of _ "adjacency_lists s"])
qed

lemma sorter_result:
  assumes "0 \<le> n" "\<forall>(a, b) \<in> set es. 0 \<le> a \<and> a < n \<and> 0 \<le> b \<and> b < n"
  defines "E \<equiv> (\<lambda>(a, b). (nat a, nat b)) ` set es"
  shows "\<exists>s0 s vs c. TopologicalSorter_new n = Some s0 \<and> add_edges es s0 = Some s \<and> take_nodes s = Some (vs, c) \<and>
    distinct vs \<and> (\<forall>i < length vs. vs ! i \<in> available (nat n) E (set (take i vs)) \<and> (\<forall>u \<in> available (nat n) E (set (take i vs)). vs ! i \<le> u)) \<and>
    (\<forall>i < length vs. \<forall>a. (a, vs ! i) \<in> E \<longrightarrow> (\<exists>j < i. vs ! j = a)) \<and>
    (acyclic E \<longrightarrow> c = None \<and> set vs = {..<nat n}) \<and> (\<not> acyclic E \<longrightarrow> (\<exists>cyc. c = Some cyc \<and> is_cycle E cyc))"
proof -
  define s0 where "s0 = \<lparr>num_nodes = nat n, adjacency_lists = replicate (nat n) [], traversal_started = False, num_nodes_left = 0,
        nodes_with_zero_indegree = [], indegree = []\<rparr>"
  have new: "TopologicalSorter_new n = Some s0" using assms(1) by (simp add: TopologicalSorter_new_def s0_def)
  have "\<not> traversal_started s0" "num_nodes s0 = length (adjacency_lists s0)" "graph_ok (adjacency_lists s0)"
    "\<forall>(a, b) \<in> set es. 0 \<le> a \<and> a < int (num_nodes s0) \<and> 0 \<le> b \<and> b < int (num_nodes s0)" "edges (adjacency_lists s0) = {}"
    using assms(1,2) by (auto simp: s0_def graph_ok_def edges_def)
  from add_edges_result [OF this(1,2,4,3)] this(5) obtain adj where adj: "add_edges es s0 = Some (s0\<lparr>adjacency_lists := adj\<rparr>)"
    "length adj = nat n" "graph_ok adj" "edges adj = E" by (auto simp: s0_def E_def)
  define s where "s = s0\<lparr>adjacency_lists := adj\<rparr>"
  define A where "A = map (\<lambda>l. remdups_adj (sort l)) adj"
  from traversal_start [of s] adj(2) have t: "traversal A [] (start_traversal s)" "edges A = E" "\<forall>l \<in> set A. distinct l"
    by (simp_all add: s_def s0_def A_def adj(4))
  have A: "graph_ok A" "length A = nat n" using adj(2,3) by (auto simp: A_def graph_ok_def)
  have "traversal_started (start_traversal s)" using t(1) by (simp add: traversal_def)
  then have "GetNext s = GetNext (start_traversal s)" by (simp add: GetNext_def s_def s0_def)
  then have same: "take_nodes s = take_nodes (start_traversal s)" by (simp add: take_nodes.simps)
  from take_nodes_correct [OF t(1) A(1) t(3)] obtain vs c where r: "take_nodes s = Some (vs, c)" "greedy (nat n) E {} vs"
    "case c of None \<Rightarrow> set vs = {..<nat n} | Some cyc \<Rightarrow> is_cycle E cyc" unfolding same t(2) A(2) by (auto simp only: list.set(1) Un_empty_left)
  have E: "E \<subseteq> {..<nat n} \<times> {..<nat n}" using edges_range [OF A(1)] t(2) A(2) by simp
  have "acyclic E \<longrightarrow> c = None \<and> set vs = {..<nat n}" using r(3) cycle_not_acyclic by (cases c) auto
  moreover have "\<not> acyclic E \<longrightarrow> (\<exists>cyc. c = Some cyc \<and> is_cycle E cyc)" using r(3) greedy_acyclic [OF r(2) _ E] by (cases c) auto
  moreover have "\<forall>i < length vs. vs ! i \<in> available (nat n) E (set (take i vs)) \<and> (\<forall>u \<in> available (nat n) E (set (take i vs)). vs ! i \<le> u)"
    using r(2) unfolding greedy_def Un_empty_left by (metis Min_le available_finite)
  moreover have "\<forall>i < length vs. \<forall>a. (a, vs ! i) \<in> E \<longrightarrow> (\<exists>j < i. vs ! j = a)" using greedy_position [OF r(2)] by blast
  ultimately show ?thesis using new adj(1) r(1) greedy_distinct [OF r(2)] unfolding s_def by blast
qed

text \<open>
  C27: Topological order. For any nodes and edges between them the sorter takes edges without a failed check and the traversal returns: node by
  node it gives the least node whose predecessors all came before, so that every edge goes forward; if the graph has no cycle, all nodes come,
  each once, and otherwise the traversal ends with a cycle of the graph, and the nodes that come are the ones before it.
\<close>

theorem sorter_correct:
  assumes "0 \<le> n" "\<forall>(a, b) \<in> set es. 0 \<le> a \<and> a < n \<and> 0 \<le> b \<and> b < n"
  defines "E \<equiv> (\<lambda>(a, b). (nat a, nat b)) ` set es"
  shows "\<exists>s0 s vs c. TopologicalSorter_new n = Some s0 \<and> add_edges es s0 = Some s \<and> take_nodes s = Some (vs, c) \<and>
    distinct vs \<and> (\<forall>i < length vs. vs ! i \<in> available (nat n) E (set (take i vs)) \<and> (\<forall>u \<in> available (nat n) E (set (take i vs)). vs ! i \<le> u)) \<and>
    (\<forall>i < length vs. \<forall>a. (a, vs ! i) \<in> E \<longrightarrow> (\<exists>j < i. vs ! j = a)) \<and>
    (acyclic E \<longrightarrow> c = None \<and> set vs = {..<nat n}) \<and> (\<not> acyclic E \<longrightarrow> (\<exists>cyc. c = Some cyc \<and> is_cycle E cyc))"
  unfolding E_def using assms(1,2) by (rule sorter_result)

theorem sorter_correct_witness:
  "\<exists>s0 s vs c. TopologicalSorter_new 3 = Some s0 \<and> add_edges [(0, 1), (1, 2), (2, 1)] s0 = Some s \<and> take_nodes s = Some (vs, c) \<and>
    (\<exists>cyc. c = Some cyc \<and> is_cycle {(0, 1), (1, 2), (2, 1)} cyc)"
proof -
  have "(1, 1) \<in> {(0, 1), (1, 2), (2, 1 :: nat)}\<^sup>+" by (meson insertI1 insertI2 r_into_trancl trancl_into_trancl)
  then have "\<not> acyclic {(0, 1), (1, 2), (2, 1 :: nat)}" by (auto simp: acyclic_def)
  moreover have "(\<lambda>(a, b). (nat a, nat b)) ` set [(0, 1), (1, 2), (2, 1)] = {(0, 1), (1, 2), (2, 1)}" by simp
  ultimately show ?thesis using sorter_correct [of 3 "[(0, 1), (1, 2), (2, 1)]"] by fastforce
qed

end
