(* ===== verification/Packet_Types.thy ===== *)
theory Packet_Types
  imports Tag_Map Input_Stream
begin

text \<open>
  \<^verbatim>\<open>framework/packet_type.h\<close> and \<^verbatim>\<open>.cc\<close>: what a port of a calculator accepts.  A type may be declared the same as another one; these links form trees that grow while
  a graph is validated.  The objects are a list and a pointer to one is its position; a type id is a number, and \<open>tid\<close> gives the one of a packet's contents.
  A function that follows links is \<open>None\<close> where it would not return.
\<close>

section \<open>Packet types\<close>

datatype AcceptsTypeFn = AcceptAny | AcceptNone

datatype TypeSpec =
    Monostate
  | TypeId nat
  | MultiType "nat list" string
  | SameAs nat
  | SpecialType AcceptsTypeFn

record PacketType =
  type_spec :: TypeSpec
  is_optional :: bool

definition PacketType_new :: PacketType where
  "PacketType_new = \<lparr>type_spec = Monostate, is_optional = False\<rparr>"

type_synonym types = "PacketType list"

definition set_spec :: "TypeSpec \<Rightarrow> nat \<Rightarrow> types \<Rightarrow> types" where
  "set_spec t this h = h[this := (h ! this)\<lparr>type_spec := t\<rparr>]"

fun accept_fn :: "AcceptsTypeFn \<Rightarrow> TypeSpec \<Rightarrow> bool" where
  "accept_fn AcceptAny t = True"
| "accept_fn AcceptNone t = (case t of SpecialType f \<Rightarrow> True | _ \<Rightarrow> False)"

definition SetAny :: "nat \<Rightarrow> types \<Rightarrow> types" where
  "SetAny = set_spec (SpecialType AcceptAny)"

definition SetNone :: "nat \<Rightarrow> types \<Rightarrow> types" where
  "SetNone = set_spec (SpecialType AcceptNone)"

definition SetType :: "nat \<Rightarrow> nat \<Rightarrow> types \<Rightarrow> types" where
  "SetType t = set_spec (TypeId t)"

text \<open>The name of a choice of types; \<open>names\<close> are the names of the types.\<close>

fun join_names :: "string list \<Rightarrow> string" where
  "join_names [] = []"
| "join_names [n] = n"
| "join_names (n # ns) = n @ '', '' @ join_names ns"

definition TypeNameForOneOf :: "(nat \<Rightarrow> string) \<Rightarrow> nat list \<Rightarrow> string" where
  "TypeNameForOneOf names ts = ''OneOf<'' @ join_names (map names ts) @ ''>''"

definition SetOneOf :: "(nat \<Rightarrow> string) \<Rightarrow> nat list \<Rightarrow> nat \<Rightarrow> types \<Rightarrow> types" where
  "SetOneOf names ts = set_spec (MultiType ts (TypeNameForOneOf names ts))"

definition Optional :: "nat \<Rightarrow> types \<Rightarrow> types" where
  "Optional this h = h[this := (h ! this)\<lparr>is_optional := True\<rparr>]"

definition SameAsPtr :: "types \<Rightarrow> nat \<Rightarrow> nat option" where
  "SameAsPtr h a = (case type_spec (h ! a) of SameAs b \<Rightarrow> Some b | _ \<Rightarrow> None)"

partial_function (option) GetSameAs :: "types \<Rightarrow> nat \<Rightarrow> nat option" where
  "GetSameAs h a = (case SameAsPtr h a of None \<Rightarrow> Some a | Some b \<Rightarrow> GetSameAs h b)"

definition SetSameAs :: "nat \<Rightarrow> nat \<Rightarrow> types \<Rightarrow> types option" where
  "SetSameAs this type h =
     (case GetSameAs h type of
        None \<Rightarrow> None
      | Some same_as \<Rightarrow> if same_as = this then Some (SetAny this h) else Some (set_spec (SameAs same_as) this h))"

definition IsInitialized :: "PacketType \<Rightarrow> bool" where
  "IsInitialized p \<longleftrightarrow> type_spec p \<noteq> Monostate"

definition IsAny :: "PacketType \<Rightarrow> bool" where
  "IsAny p \<longleftrightarrow> type_spec p = SpecialType AcceptAny"

definition IsNone :: "PacketType \<Rightarrow> bool" where
  "IsNone p \<longleftrightarrow> \<not> IsInitialized p \<or> type_spec p = SpecialType AcceptNone"

definition IsOneOf :: "PacketType \<Rightarrow> bool" where
  "IsOneOf p \<longleftrightarrow> (case type_spec p of MultiType ts n \<Rightarrow> True | _ \<Rightarrow> False)"

definition IsExactType :: "PacketType \<Rightarrow> bool" where
  "IsExactType p \<longleftrightarrow> (case type_spec p of TypeId t \<Rightarrow> True | _ \<Rightarrow> False)"

text \<open>The name a type is registered under: \<open>registered\<close> is the registry of types.\<close>

partial_function (option) RegisteredTypeName :: "(nat \<Rightarrow> string option) \<Rightarrow> types \<Rightarrow> nat \<Rightarrow> string option option" where
  "RegisteredTypeName registered h a =
     (case SameAsPtr h a of
        Some b \<Rightarrow> RegisteredTypeName registered h b
      | None \<Rightarrow> Some (case type_spec (h ! a) of TypeId t \<Rightarrow> registered t | MultiType ts name \<Rightarrow> Some name | _ \<Rightarrow> None))"

definition HaveCommonType :: "nat list \<Rightarrow> nat list \<Rightarrow> bool" where
  "HaveCommonType types1 types2 \<longleftrightarrow> list_ex (\<lambda>first. list_ex (\<lambda>second. first = second) types2) types1"

definition GetTypeSpan :: "TypeSpec \<Rightarrow> nat list" where
  "GetTypeSpan t = (case t of TypeId i \<Rightarrow> [i] | MultiType ts n \<Rightarrow> ts | _ \<Rightarrow> [])"

definition ValidateAsType :: "('a \<Rightarrow> nat) \<Rightarrow> nat \<Rightarrow> 'a packet \<Rightarrow> bool" where
  "ValidateAsType tid t p \<longleftrightarrow> (case pkt_data p of None \<Rightarrow> False | Some x \<Rightarrow> tid x = t)"

text \<open>\<open>Validate\<close>: whether the status is ok, for a type without a link and for any type.\<close>

definition validate_spec :: "('a \<Rightarrow> nat) \<Rightarrow> TypeSpec \<Rightarrow> 'a packet \<Rightarrow> bool" where
  "validate_spec tid t p =
     (case t of
        Monostate \<Rightarrow> False
      | TypeId i \<Rightarrow> ValidateAsType tid i p
      | _ \<Rightarrow>
          (case pkt_data p of
             None \<Rightarrow> False
           | Some x \<Rightarrow>
               (case t of
                  MultiType ts n \<Rightarrow> HaveCommonType ts [tid x]
                | SpecialType f \<Rightarrow> accept_fn f (TypeId (tid x))
                | _ \<Rightarrow> True)))"

definition Validate :: "('a \<Rightarrow> nat) \<Rightarrow> types \<Rightarrow> nat \<Rightarrow> 'a packet \<Rightarrow> bool option" where
  "Validate tid h a p =
     (if \<not> IsInitialized (h ! a) then Some False
      else if SameAsPtr h a \<noteq> None then map_option (\<lambda>r. validate_spec tid (type_spec (h ! r)) p) (GetSameAs h a)
      else Some (validate_spec tid (type_spec (h ! a)) p))"

text \<open>\<open>IsConsistentWith\<close> on the roots of two types, and on the types.\<close>

definition consistent_specs :: "TypeSpec \<Rightarrow> TypeSpec \<Rightarrow> bool" where
  "consistent_specs t1 t2 =
     (if GetTypeSpan t1 \<noteq> [] \<and> GetTypeSpan t2 \<noteq> [] then HaveCommonType (GetTypeSpan t1) (GetTypeSpan t2)
      else (case t1 of
          SpecialType f \<Rightarrow> accept_fn f t2
        | _ \<Rightarrow> (case t2 of SpecialType f \<Rightarrow> accept_fn f t1 | _ \<Rightarrow> False)))"

definition IsConsistentWith :: "types \<Rightarrow> nat \<Rightarrow> nat \<Rightarrow> bool option" where
  "IsConsistentWith h a b =
     (case (GetSameAs h a, GetSameAs h b) of
        (Some r, Some q) \<Rightarrow> Some (consistent_specs (type_spec (h ! r)) (type_spec (h ! q)))
      | _ \<Rightarrow> None)"

section \<open>Sets of packet types\<close>

text \<open>
  \<^verbatim>\<open>PacketTypeSet\<close>: the types of the ports of a node by id.  An access to a port that does not exist gives a type of its own, which is remembered under \<open>TAG:index\<close>; it is an
  error of the set unless it was marked optional.
\<close>

record PacketTypeSet =
  pts_tag_map :: TagMap
  pts_types :: "nat list"
  pts_missing :: "(string \<times> nat) list option"

definition GetFallback :: "string \<Rightarrow> int \<Rightarrow> PacketTypeSet \<Rightarrow> types \<Rightarrow> nat \<times> PacketTypeSet \<times> types" where
  "GetFallback tag index s h =
     (let entries = (case pts_missing s of None \<Rightarrow> [] | Some m \<Rightarrow> m); key = tag @ '':'' @ to_string index
      in case map_of entries key of
           Some a \<Rightarrow> (a, s\<lparr>pts_missing := Some entries\<rparr>, h)
         | None \<Rightarrow> (length h, s\<lparr>pts_missing := Some ((key, length h) # entries)\<rparr>, h @ [PacketType_new]))"

definition pts_Get :: "string \<Rightarrow> int \<Rightarrow> PacketTypeSet \<Rightarrow> types \<Rightarrow> nat \<times> PacketTypeSet \<times> types" where
  "pts_Get tag index s h =
     (let i = GetId (pts_tag_map s) tag index
      in if i < 0 then GetFallback tag index s h else (pts_types s ! nat i, s, h))"

definition ValidatePacketTypeSet :: "PacketTypeSet \<Rightarrow> types \<Rightarrow> bool" where
  "ValidatePacketTypeSet s h \<longleftrightarrow>
     (case pts_missing s of None \<Rightarrow> True | Some m \<Rightarrow> list_all (\<lambda>(key, a). is_optional (h ! a)) m) \<and>
     list_all (\<lambda>a. IsInitialized (h ! a)) (pts_types s)"

definition ValidatePacketSet :: "('a \<Rightarrow> nat) \<Rightarrow> PacketTypeSet \<Rightarrow> types \<Rightarrow> TagMap \<Rightarrow> 'a packet list \<Rightarrow> bool option" where
  "ValidatePacketSet tid s h tm ps =
     (if \<not> TagMap_SameAs (pts_tag_map s) tm then Some False
      else map_option (list_all (\<lambda>ok. ok)) (those (map2 (Validate tid h) (pts_types s) ps)))"

section \<open>The trees of types\<close>

text \<open>Every link chain ends: what \<open>SetSameAs\<close> preserves, and what \<open>GetSameAs\<close> needs.\<close>

definition types_ok :: "types \<Rightarrow> bool" where
  "types_ok h \<longleftrightarrow> (\<forall>a < length h. (\<exists>r < length h. GetSameAs h a = Some r) \<and> (\<forall>b. SameAsPtr h a = Some b \<longrightarrow> b < length h))"

definition type_root :: "types \<Rightarrow> nat \<Rightarrow> nat" where
  "type_root h a = the (GetSameAs h a)"

lemma GetSameAs_None [simp]: "SameAsPtr h a = None \<Longrightarrow> GetSameAs h a = Some a"
  by (subst GetSameAs.simps) simp

lemma GetSameAs_Some: "SameAsPtr h a = Some b \<Longrightarrow> GetSameAs h a = GetSameAs h b"
  by (subst GetSameAs.simps) simp

lemma GetSameAs_induct [consumes 1, case_names here link]:
  assumes "GetSameAs h a = Some r"
    and "\<And>a. SameAsPtr h a = None \<Longrightarrow> P a a"
    and "\<And>a b r. SameAsPtr h a = Some b \<Longrightarrow> P b r \<Longrightarrow> P a r"
  shows "P a r"
proof -
  have "h' = h \<longrightarrow> P a r" if "GetSameAs h' a = Some r" for h'
  proof (rule GetSameAs.raw_induct [where P = "\<lambda>h' a r. h' = h \<longrightarrow> P a r", OF _ that], rule impI)
    fix f h' a r
    assume IH: "\<And>h' a r. f h' a = Some r \<Longrightarrow> h' = h \<longrightarrow> P a r"
      and "(case SameAsPtr h' a of None \<Rightarrow> Some a | Some b \<Rightarrow> f h' b) = Some r" and h: "h' = h"
    then show "P a r" using assms(2) assms(3) IH [of h] by (cases "SameAsPtr h a") auto
  qed
  with assms(1) show ?thesis by blast
qed

lemma GetSameAs_root: "GetSameAs h a = Some r \<Longrightarrow> SameAsPtr h r = None"
  by (induction rule: GetSameAs_induct) simp_all

lemma SameAsPtr_set: "this < length h \<Longrightarrow>
  SameAsPtr (set_spec t this h) a = (if a = this then (case t of SameAs b \<Rightarrow> Some b | _ \<Rightarrow> None) else SameAsPtr h a)"
  by (simp add: SameAsPtr_def set_spec_def)

lemma set_spec_length [simp]: "length (set_spec t this h) = length h"
  by (simp add: set_spec_def)

lemma set_spec_roots:
  assumes "this < length h" and "GetSameAs h a = Some r"
    and "case t of SameAs q \<Rightarrow> q \<noteq> this \<and> SameAsPtr h q = None | _ \<Rightarrow> True"
  shows "\<exists>r'. GetSameAs (set_spec t this h) a = Some r' \<and> (r' = r \<or> r' = (case t of SameAs q \<Rightarrow> q | _ \<Rightarrow> this))"
proof -
  have at: "GetSameAs (set_spec t this h) this = Some (case t of SameAs q \<Rightarrow> q | _ \<Rightarrow> this)"
    using assms(1,3) by (cases t) (simp_all add: SameAsPtr_set GetSameAs_Some)
  from assms(2) show ?thesis
  proof (induction rule: GetSameAs_induct)
    case (here a)
    then show ?case using at assms(1) by (cases "a = this") (simp_all add: SameAsPtr_set)
  next
    case (link a b r)
    show ?case
    proof (cases "a = this")
      case False
      then have "SameAsPtr (set_spec t this h) a = Some b" using link(1) assms(1) by (simp add: SameAsPtr_set)
      then show ?thesis using link(2) by (simp add: GetSameAs_Some)
    qed (simp add: at)
  qed
qed

text \<open>Linking a root to another one: the tree below it moves, everything else stays.\<close>

lemma link_root:
  assumes "this < length h" "SameAsPtr h this = None" "SameAsPtr h q = None" "q \<noteq> this" "GetSameAs h a = Some r"
  shows "GetSameAs (set_spec (SameAs q) this h) a = Some (if r = this then q else r)"
  using assms(5)
proof (induction rule: GetSameAs_induct)
  case (here a)
  have "GetSameAs (set_spec (SameAs q) this h) this = Some q"
    using assms(1,3,4) by (simp add: SameAsPtr_set GetSameAs_Some [where b = q])
  with here show ?case using assms(1) by (cases "a = this") (simp_all add: SameAsPtr_set)
next
  case (link a b r)
  then have "a \<noteq> this" using assms(2) by auto
  then have "SameAsPtr (set_spec (SameAs q) this h) a = Some b" using link(1) assms(1) by (simp add: SameAsPtr_set)
  then show ?case using link(2) by (simp add: GetSameAs_Some)
qed

lemma reset_root:
  assumes "this < length h" "SameAsPtr h this = None" "\<forall>q. t \<noteq> SameAs q" "GetSameAs h a = Some r"
  shows "GetSameAs (set_spec t this h) a = Some r"
  using assms(4)
proof (induction rule: GetSameAs_induct)
  case (here a)
  then show ?case using assms(1,3) by (cases t) (simp_all add: SameAsPtr_set)
next
  case (link a b r)
  then have "a \<noteq> this" using assms(2) by auto
  then have "SameAsPtr (set_spec t this h) a = Some b" using link(1) assms(1) by (simp add: SameAsPtr_set)
  then show ?case using link(2) by (simp add: GetSameAs_Some)
qed

lemma types_okD: "types_ok h \<Longrightarrow> a < length h \<Longrightarrow> GetSameAs h a = Some (type_root h a) \<and> type_root h a < length h \<and> SameAsPtr h (type_root h a) = None"
  unfolding types_ok_def type_root_def using GetSameAs_root by fastforce

lemma types_ok_set:
  assumes "types_ok h" "this < length h" "case t of SameAs q \<Rightarrow> q < length h \<and> q \<noteq> this \<and> SameAsPtr h q = None | _ \<Rightarrow> True"
  shows "types_ok (set_spec t this h)"
  unfolding types_ok_def
proof (intro allI impI conjI)
  fix a assume "a < length (set_spec t this h)"
  then obtain r where r: "r < length h" "GetSameAs h a = Some r" using assms(1) unfolding types_ok_def by auto
  have "case t of SameAs q \<Rightarrow> q \<noteq> this \<and> SameAsPtr h q = None | _ \<Rightarrow> True" using assms(3) by (cases t) auto
  from set_spec_roots [OF assms(2) r(2) this] obtain r' where r': "GetSameAs (set_spec t this h) a = Some r'"
    "r' = r \<or> r' = (case t of SameAs q \<Rightarrow> q | _ \<Rightarrow> this)" by blast
  then have "r' < length h" using r(1) assms(2,3) by (cases t) auto
  with r' show "\<exists>r < length (set_spec t this h). GetSameAs (set_spec t this h) a = Some r" by auto
next
  fix a b assume a: "a < length (set_spec t this h)" "SameAsPtr (set_spec t this h) a = Some b"
  show "b < length (set_spec t this h)"
  proof (cases "a = this")
    case True
    then show ?thesis using a(2) assms(2,3) by (cases t) (simp_all add: SameAsPtr_set)
  next
    case False
    then show ?thesis using a assms(1,2) unfolding types_ok_def by (simp add: SameAsPtr_set)
  qed
qed

lemma SetSameAs_ok:
  assumes "types_ok h" "this < length h" "type < length h"
  shows "\<exists>h'. SetSameAs this type h = Some h' \<and> types_ok h' \<and> length h' = length h"
proof -
  have r: "GetSameAs h type = Some (type_root h type)" "type_root h type < length h" "SameAsPtr h (type_root h type) = None"
    using types_okD [OF assms(1,3)] by auto
  show ?thesis
  proof (cases "type_root h type = this")
    case True
    then show ?thesis using r types_ok_set [OF assms(1,2)] by (simp add: SetSameAs_def SetAny_def)
  next
    case False
    then show ?thesis using r types_ok_set [OF assms(1,2), of "SameAs (type_root h type)"] by (simp add: SetSameAs_def)
  qed
qed

lemma types_ok_new:
  assumes ok: "types_ok h"
  shows "types_ok (h @ [PacketType_new])"
proof -
  have ptr: "SameAsPtr (h @ [PacketType_new]) a = SameAsPtr h a" if "a < length h" for a
    using that by (simp add: SameAsPtr_def nth_append)
  have new: "SameAsPtr (h @ [PacketType_new]) (length h) = None" by (simp add: SameAsPtr_def PacketType_new_def)
  have grown: "a < length h \<longrightarrow> GetSameAs (h @ [PacketType_new]) a = Some r" if "GetSameAs h a = Some r" for a r
    using that
  proof (induction rule: GetSameAs_induct)
    case (here a)
    then show ?case using ptr by simp
  next
    case (link a b r)
    then have "a < length h \<Longrightarrow> b < length h" using ok unfolding types_ok_def by blast
    then show ?case using link ptr by (auto simp: GetSameAs_Some)
  qed
  show ?thesis unfolding types_ok_def
  proof (intro allI impI conjI)
    fix a assume a: "a < length (h @ [PacketType_new])"
    show "\<exists>r < length (h @ [PacketType_new]). GetSameAs (h @ [PacketType_new]) a = Some r"
    proof (cases "a = length h")
      case True
      then show ?thesis using new by simp
    next
      case False
      then have "a < length h" using a by simp
      then show ?thesis using grown [of a "type_root h a"] types_okD [OF ok, of a] by auto
    qed
    fix b assume "SameAsPtr (h @ [PacketType_new]) a = Some b"
    then show "b < length (h @ [PacketType_new])"
      using a new ptr ok unfolding types_ok_def by (cases "a = length h") (auto simp: less_Suc_eq)
  qed
qed

end
