(* ===== verification/Stream_Types.thy ===== *)
theory Stream_Types
  imports Packet_Types
begin

text \<open>
  The types of streams in \<^verbatim>\<open>framework/validated_graph_config.h\<close> and \<^verbatim>\<open>.cc\<close>: an edge joins an input of a node to the output that feeds it; types that accept
  anything take the type at the other end, a choice of types is narrowed to the exact type at the other end, and then both ends must agree.
\<close>

section \<open>Edges\<close>

datatype NodeType = UNKNOWN | CALCULATOR | PACKET_GENERATOR | GRAPH_INPUT_STREAM | STATUS_HANDLER

record NodeRef =
  ref_type :: NodeType
  ref_index :: int

definition NodeRef_new :: NodeRef where
  "NodeRef_new = \<lparr>ref_type = UNKNOWN, ref_index = - 1\<rparr>"

text \<open>The pointer to the packet type is a position in the list of types.\<close>

record EdgeInfo =
  upstream :: int
  parent_node :: NodeRef
  edge_name :: string
  edge_type :: nat
  back_edge :: bool

section \<open>Resolving types\<close>

definition resolve_any_edge :: "EdgeInfo \<Rightarrow> EdgeInfo \<Rightarrow> types \<Rightarrow> types option" where
  "resolve_any_edge e out h =
     (case (GetSameAs h (edge_type e), GetSameAs h (edge_type out)) of
        (Some input_root, Some output_root) \<Rightarrow>
          if IsAny (h ! input_root) then SetSameAs input_root (edge_type out) h
          else if IsAny (h ! output_root) then SetSameAs output_root (edge_type e) h
          else Some h
      | _ \<Rightarrow> None)"

definition resolve_one_of_edge :: "EdgeInfo \<Rightarrow> EdgeInfo \<Rightarrow> types \<Rightarrow> types option" where
  "resolve_one_of_edge e out h =
     (case (GetSameAs h (edge_type e), GetSameAs h (edge_type out)) of
        (Some input_root, Some output_root) \<Rightarrow>
          (case IsConsistentWith h input_root output_root of
             None \<Rightarrow> None
           | Some consistent \<Rightarrow>
               if \<not> consistent then Some h
               else if IsOneOf (h ! input_root) \<and> IsExactType (h ! output_root) then SetSameAs input_root (edge_type out) h
               else if IsOneOf (h ! output_root) \<and> IsExactType (h ! input_root) then SetSameAs output_root (edge_type e) h
               else Some h)
      | _ \<Rightarrow> None)"

text \<open>The loop over the input edges, which skips those without an output.\<close>

fun for_edges :: "(EdgeInfo \<Rightarrow> EdgeInfo \<Rightarrow> types \<Rightarrow> types option) \<Rightarrow> EdgeInfo list \<Rightarrow> EdgeInfo list \<Rightarrow> types \<Rightarrow> types option" where
  "for_edges f [] outs h = Some h"
| "for_edges f (e # es) outs h =
     (if upstream e = - 1 then for_edges f es outs h
      else (case f e (outs ! nat (upstream e)) h of None \<Rightarrow> None | Some h' \<Rightarrow> for_edges f es outs h'))"

definition ResolveAnyTypes :: "EdgeInfo list \<Rightarrow> EdgeInfo list \<Rightarrow> types \<Rightarrow> types option" where
  "ResolveAnyTypes = for_edges resolve_any_edge"

definition ResolveOneOfTypes :: "EdgeInfo list \<Rightarrow> EdgeInfo list \<Rightarrow> types \<Rightarrow> types option" where
  "ResolveOneOfTypes = for_edges resolve_one_of_edge"

text \<open>Whether the types at both ends of every edge agree.  An input stream must have an output, a side packet need not.\<close>

fun ValidateStreamTypes :: "EdgeInfo list \<Rightarrow> EdgeInfo list \<Rightarrow> types \<Rightarrow> bool option" where
  "ValidateStreamTypes [] outs h = Some True"
| "ValidateStreamTypes (e # es) outs h =
     (if upstream e = - 1 then Some False
      else (case IsConsistentWith h (edge_type e) (edge_type (outs ! nat (upstream e))) of
          None \<Rightarrow> None
        | Some ok \<Rightarrow> if ok then ValidateStreamTypes es outs h else Some False))"

fun ValidateSidePacketTypes :: "EdgeInfo list \<Rightarrow> EdgeInfo list \<Rightarrow> types \<Rightarrow> bool option" where
  "ValidateSidePacketTypes [] outs h = Some True"
| "ValidateSidePacketTypes (e # es) outs h =
     (if upstream e = - 1 then ValidateSidePacketTypes es outs h
      else (case IsConsistentWith h (edge_type e) (edge_type (outs ! nat (upstream e))) of
          None \<Rightarrow> None
        | Some ok \<Rightarrow> if ok then ValidateSidePacketTypes es outs h else Some False))"

section \<open>Types only become more definite\<close>

text \<open>From \<open>h\<close> to \<open>h'\<close> trees are joined, and no tree with a type of its own loses it to one that accepts anything.\<close>

definition joined :: "types \<Rightarrow> types \<Rightarrow> bool" where
  "joined h h' \<longleftrightarrow> types_ok h' \<and> length h' = length h \<and>
     (\<forall>a < length h. \<forall>b < length h. type_root h a = type_root h b \<longrightarrow> type_root h' a = type_root h' b) \<and>
     (\<forall>a < length h. \<not> IsAny (h ! type_root h a) \<longrightarrow> \<not> IsAny (h' ! type_root h' a))"

lemma joined_refl: "types_ok h \<Longrightarrow> joined h h"
  by (simp add: joined_def)

lemma joinedD:
  assumes "joined h h'"
  shows "types_ok h'" "length h' = length h"
    "a < length h \<Longrightarrow> b < length h \<Longrightarrow> type_root h a = type_root h b \<Longrightarrow> type_root h' a = type_root h' b"
    "a < length h \<Longrightarrow> \<not> IsAny (h ! type_root h a) \<Longrightarrow> \<not> IsAny (h' ! type_root h' a)"
  using assms unfolding joined_def by blast+

lemma joined_trans:
  assumes "joined h h'" "joined h' h''"
  shows "joined h h''"
  unfolding joined_def
proof (intro conjI allI impI)
  show "types_ok h''" "length h'' = length h" using joinedD(1,2) [OF assms(2)] joinedD(2) [OF assms(1)] by simp_all
  fix a assume a: "a < length h"
  then have a': "a < length h'" using joinedD(2) [OF assms(1)] by simp
  show "\<not> IsAny (h'' ! type_root h'' a)" if "\<not> IsAny (h ! type_root h a)"
    using joinedD(4) [OF assms(2) a' joinedD(4) [OF assms(1) a that]] .
  fix b assume b: "b < length h" "type_root h a = type_root h b"
  then have "b < length h'" using joinedD(2) [OF assms(1)] by simp
  then show "type_root h'' a = type_root h'' b" using joinedD(3) [OF assms(2) a' _ joinedD(3) [OF assms(1) a b]] by blast
qed

definition edge_ok :: "types \<Rightarrow> EdgeInfo list \<Rightarrow> EdgeInfo \<Rightarrow> bool" where
  "edge_ok h outs e \<longleftrightarrow> edge_type e < length h \<and> (upstream e = - 1 \<or> 0 \<le> upstream e \<and> nat (upstream e) < length outs \<and> edge_type (outs ! nat (upstream e)) < length h)"

definition settled_edge :: "types \<Rightarrow> EdgeInfo \<Rightarrow> EdgeInfo \<Rightarrow> bool" where
  "settled_edge h e out \<longleftrightarrow> type_root h (edge_type e) = type_root h (edge_type out) \<or>
     \<not> IsAny (h ! type_root h (edge_type e)) \<and> \<not> IsAny (h ! type_root h (edge_type out))"

lemma settled_joined:
  "joined h h' \<Longrightarrow> edge_type e < length h \<Longrightarrow> edge_type out < length h \<Longrightarrow> settled_edge h e out \<Longrightarrow> settled_edge h' e out"
  unfolding joined_def settled_edge_def by blast

lemma spec_set: "this < length h \<Longrightarrow> x \<noteq> this \<Longrightarrow> set_spec t this h ! x = h ! x"
  by (simp add: set_spec_def)

text \<open>The root of a tree is made the same as another type.\<close>

lemma link_joined:
  assumes ok: "types_ok h" and r: "r < length h" "SameAsPtr h r = None" and b: "b < length h"
    and any: "IsAny (h ! r) \<or> type_root h b \<noteq> r \<and> \<not> IsAny (h ! type_root h b)"
  shows "\<exists>h'. SetSameAs r b h = Some h' \<and> joined h h' \<and> (\<forall>a < length h. type_root h a = r \<longrightarrow> type_root h' a = type_root h' b)"
proof -
  define q where "q = type_root h b"
  have q: "GetSameAs h b = Some q" "q < length h" "SameAsPtr h q = None" using types_okD [OF ok b] by (auto simp: q_def)
  have root: "GetSameAs h a = Some (type_root h a)" "type_root h a < length h" if "a < length h" for a using types_okD [OF ok that] by auto
  show ?thesis
  proof (cases "q = r")
    case True
    define h' where "h' = SetAny r h"
    have roots: "type_root h' a = type_root h a" if "a < length h" for a
    proof -
      have "GetSameAs h' a = Some (type_root h a)" unfolding h'_def SetAny_def by (rule reset_root [OF r _ root(1) [OF that]]) simp
      then show ?thesis by (simp add: type_root_def)
    qed
    have "types_ok h'" "length h' = length h" using types_ok_set [OF ok r(1)] by (simp_all add: h'_def SetAny_def)
    moreover have "\<not> IsAny (h' ! type_root h' a)" if "a < length h" "\<not> IsAny (h ! type_root h a)" for a
    proof -
      have "type_root h a \<noteq> r" using that(2) any True by (auto simp: q_def)
      then show ?thesis using that(2) spec_set [OF r(1)] by (simp add: roots [OF that(1)]) (simp add: h'_def SetAny_def)
    qed
    ultimately have "joined h h'" using roots by (simp add: joined_def)
    moreover have "SetSameAs r b h = Some h'" using True q by (simp add: SetSameAs_def h'_def)
    moreover have "type_root h' b = r" using roots [OF b] True by (simp add: q_def)
    ultimately show ?thesis using roots by auto
  next
    case False
    define h' where "h' = set_spec (SameAs q) r h"
    have roots: "type_root h' a = (if type_root h a = r then q else type_root h a)" if "a < length h" for a
    proof -
      have "GetSameAs h' a = Some (if type_root h a = r then q else type_root h a)"
        unfolding h'_def by (rule link_root [OF r q(3) False root(1) [OF that]])
      then have "the (GetSameAs h' a) = (if type_root h a = r then q else type_root h a)" by simp
      then show ?thesis unfolding type_root_def [of h' a] .
    qed
    have same: "h' ! x = h ! x" if "x \<noteq> r" for x using spec_set [OF r(1) that] by (simp add: h'_def)
    have "types_ok h'" using types_ok_set [OF ok r(1), of "SameAs q"] q False by (simp add: h'_def)
    moreover have "\<not> IsAny (h' ! type_root h' a)" if "a < length h" "\<not> IsAny (h ! type_root h a)" for a
      using roots [OF that(1)] same that(2) any False by (auto simp: q_def split: if_splits)
    ultimately have "joined h h'" using roots by (simp add: joined_def h'_def)
    moreover have "SetSameAs r b h = Some h'" using q False by (simp add: SetSameAs_def h'_def)
    moreover have "type_root h' b = q" using roots [OF b] by (simp add: q_def)
    ultimately show ?thesis using roots by auto
  qed
qed

lemma resolve_any_edge_ok:
  assumes "types_ok h" "edge_type e < length h" "edge_type out < length h"
  shows "\<exists>h'. resolve_any_edge e out h = Some h' \<and> joined h h' \<and> settled_edge h' e out"
proof -
  have e: "GetSameAs h (edge_type e) = Some (type_root h (edge_type e))" "type_root h (edge_type e) < length h"
    "SameAsPtr h (type_root h (edge_type e)) = None" using types_okD [OF assms(1,2)] by auto
  have o': "GetSameAs h (edge_type out) = Some (type_root h (edge_type out))" "type_root h (edge_type out) < length h"
    "SameAsPtr h (type_root h (edge_type out)) = None" using types_okD [OF assms(1,3)] by auto
  consider "IsAny (h ! type_root h (edge_type e))" | "\<not> IsAny (h ! type_root h (edge_type e))" "IsAny (h ! type_root h (edge_type out))"
    | "\<not> IsAny (h ! type_root h (edge_type e))" "\<not> IsAny (h ! type_root h (edge_type out))" by blast
  then show ?thesis
  proof cases
    case 1
    then show ?thesis using link_joined [OF assms(1) e(2,3) assms(3)] e(1) o'(1) assms(2)
      by (auto simp: resolve_any_edge_def settled_edge_def)
  next
    case 2
    then show ?thesis using link_joined [OF assms(1) o'(2,3) assms(2)] e(1) o'(1) assms(3)
      by (fastforce simp: resolve_any_edge_def settled_edge_def)
  next
    case 3
    then show ?thesis using joined_refl [OF assms(1)] e(1) o'(1) by (simp add: resolve_any_edge_def settled_edge_def)
  qed
qed

lemma resolve_one_of_edge_ok:
  assumes "types_ok h" "edge_type e < length h" "edge_type out < length h"
  shows "\<exists>h'. resolve_one_of_edge e out h = Some h' \<and> joined h h'"
proof -
  define r where "r = type_root h (edge_type e)"
  define q where "q = type_root h (edge_type out)"
  have e: "GetSameAs h (edge_type e) = Some r" "r < length h" "SameAsPtr h r = None" using types_okD [OF assms(1,2)] by (auto simp: r_def)
  have o': "GetSameAs h (edge_type out) = Some q" "q < length h" "SameAsPtr h q = None" using types_okD [OF assms(1,3)] by (auto simp: q_def)
  define ok where "ok = consistent_specs (type_spec (h ! r)) (type_spec (h ! q))"
  have cons: "IsConsistentWith h r q = Some ok" using e(3) o'(3) by (simp add: IsConsistentWith_def ok_def)
  have diff: "IsOneOf x \<Longrightarrow> \<not> IsExactType x" "IsExactType x \<Longrightarrow> \<not> IsAny x" for x
    by (auto simp: IsOneOf_def IsExactType_def IsAny_def split: TypeSpec.splits)
  consider "ok" "IsOneOf (h ! r)" "IsExactType (h ! q)" | "ok" "\<not> (IsOneOf (h ! r) \<and> IsExactType (h ! q))" "IsOneOf (h ! q)" "IsExactType (h ! r)"
    | "\<not> ok \<or> \<not> (IsOneOf (h ! r) \<and> IsExactType (h ! q)) \<and> \<not> (IsOneOf (h ! q) \<and> IsExactType (h ! r))" by blast
  then show ?thesis
  proof cases
    case 1
    then have "q \<noteq> r" "\<not> IsAny (h ! q)" using diff by auto
    then show ?thesis using link_joined [OF assms(1) e(2,3) assms(3), folded q_def] 1
      by (auto simp: resolve_one_of_edge_def e(1) o'(1) cons)
  next
    case 2
    then have "r \<noteq> q" "\<not> IsAny (h ! r)" using diff by auto
    then show ?thesis using link_joined [OF assms(1) o'(2,3) assms(2), folded r_def] 2
      by (auto simp: resolve_one_of_edge_def e(1) o'(1) cons)
  next
    case 3
    then show ?thesis using joined_refl [OF assms(1)] by (auto simp: resolve_one_of_edge_def e(1) o'(1) cons)
  qed
qed

text \<open>The loop returns, joins trees, and keeps what each round establishes for its edge.\<close>

lemma for_edges_ok:
  assumes "types_ok h" and "\<forall>e \<in> set es. edge_ok h outs e"
    and step: "\<And>h e out. types_ok h \<Longrightarrow> edge_type e < length h \<Longrightarrow> edge_type out < length h \<Longrightarrow>
      \<exists>h'. f e out h = Some h' \<and> joined h h' \<and> (any \<longrightarrow> settled_edge h' e out)"
  shows "\<exists>h'. for_edges f es outs h = Some h' \<and> joined h h' \<and>
    (any \<longrightarrow> (\<forall>e \<in> set es. upstream e \<noteq> - 1 \<longrightarrow> settled_edge h' e (outs ! nat (upstream e))))"
  using assms(1,2)
proof (induction es arbitrary: h)
  case Nil
  then show ?case using joined_refl by simp
next
  case (Cons e es)
  show ?case
  proof (cases "upstream e = - 1")
    case True
    then show ?thesis using Cons by simp
  next
    case False
    define out where "out = outs ! nat (upstream e)"
    have e: "edge_type e < length h" "edge_type out < length h" using Cons.prems(2) False by (auto simp: edge_ok_def out_def)
    obtain h1 where h1: "f e out h = Some h1" "joined h h1" "any \<longrightarrow> settled_edge h1 e out"
      using step [OF Cons.prems(1) e] by blast
    then have "types_ok h1" "length h1 = length h" by (auto simp: joined_def)
    moreover from this have "\<forall>e \<in> set es. edge_ok h1 outs e" using Cons.prems(2) by (simp add: edge_ok_def)
    ultimately obtain h2 where h2: "for_edges f es outs h1 = Some h2" "joined h1 h2"
      "any \<longrightarrow> (\<forall>e \<in> set es. upstream e \<noteq> - 1 \<longrightarrow> settled_edge h2 e (outs ! nat (upstream e)))"
      using Cons.IH by blast
    have "any \<longrightarrow> settled_edge h2 e out" using settled_joined [OF h2(2)] h1(3) e \<open>length h1 = length h\<close> by simp
    then show ?thesis using h1(1) h2 joined_trans [OF h1(2) h2(2)] False by (simp add: out_def)
  qed
qed

lemma validated_edge: "ValidateStreamTypes es outs h = Some True \<Longrightarrow> e \<in> set es \<Longrightarrow>
  upstream e \<noteq> - 1 \<and> IsConsistentWith h (edge_type e) (edge_type (outs ! nat (upstream e))) = Some True"
  by (induction es outs h rule: ValidateStreamTypes.induct) (auto split: if_splits option.splits)

lemma Validate_root:
  assumes "types_ok h" "a < length h"
  shows "Validate tid h a p = Some (validate_spec tid (type_spec (h ! type_root h a)) p)"
proof (cases "SameAsPtr h a")
  case None
  then have "type_root h a = a" by (simp add: type_root_def)
  then show ?thesis using None by (auto simp: Validate_def IsInitialized_def validate_spec_def)
next
  case (Some b)
  then have "IsInitialized (h ! a)" by (auto simp: SameAsPtr_def IsInitialized_def split: TypeSpec.splits)
  then show ?thesis using Some types_okD [OF assms] by (simp add: Validate_def)
qed

text \<open>An exact type agrees only with types that accept it.\<close>

lemma accepted_both:
  assumes "consistent_specs t u" and "validate_spec tid u p" and "u \<noteq> SpecialType AcceptAny" and "t \<noteq> SpecialType AcceptAny"
    and "\<forall>ts n. u \<noteq> MultiType ts n" and "\<forall>q. t \<noteq> SameAs q" and "\<forall>q. u \<noteq> SameAs q"
  shows "validate_spec tid t p"
proof (cases u)
  case (TypeId i)
  then obtain x where x: "pkt_data p = Some x" "tid x = i" using assms(2) by (auto simp: validate_spec_def ValidateAsType_def split: option.splits)
  show ?thesis
  proof (cases t)
    case (SpecialType f)
    then have "f = AcceptNone" using assms(4) by (cases f) auto
    then show ?thesis using assms(1) by (simp add: SpecialType TypeId consistent_specs_def GetTypeSpan_def)
  next
    case (MultiType ts n)
    then show ?thesis using assms(1) x TypeId
      by (auto simp: consistent_specs_def GetTypeSpan_def HaveCommonType_def validate_spec_def list_ex_iff split: if_splits)
  qed (use assms(1,6) x TypeId in \<open>auto simp: consistent_specs_def GetTypeSpan_def HaveCommonType_def validate_spec_def ValidateAsType_def\<close>)
next
  case (SpecialType f)
  then have "f = AcceptNone" using assms(3) by (cases f) auto
  then show ?thesis using assms(2) SpecialType by (auto simp: validate_spec_def split: option.splits)
qed (use assms in \<open>auto simp: validate_spec_def\<close>)

text \<open>Both passes return, and what the first settles stays so.\<close>

lemma resolve_types_ok:
  assumes "types_ok h" and "\<forall>e \<in> set ins. edge_ok h outs e"
  shows "\<exists>h1 h2. ResolveAnyTypes ins outs h = Some h1 \<and> ResolveOneOfTypes ins outs h1 = Some h2 \<and> joined h h2 \<and>
    (\<forall>e \<in> set ins. upstream e \<noteq> - 1 \<longrightarrow> settled_edge h2 e (outs ! nat (upstream e)))"
proof -
  have any: "\<exists>h'. resolve_any_edge e out h = Some h' \<and> joined h h' \<and> (True \<longrightarrow> settled_edge h' e out)"
    if "types_ok h" "edge_type e < length h" "edge_type out < length h" for h e out using resolve_any_edge_ok [OF that] by blast
  obtain h1 where h1: "ResolveAnyTypes ins outs h = Some h1" "joined h h1"
    "\<forall>e \<in> set ins. upstream e \<noteq> - 1 \<longrightarrow> settled_edge h1 e (outs ! nat (upstream e))"
    using for_edges_ok [of h ins outs resolve_any_edge True, OF assms any] unfolding ResolveAnyTypes_def by blast
  have len1: "types_ok h1" "length h1 = length h" using joinedD(1,2) [OF h1(2)] by auto
  then have edges1: "\<forall>e \<in> set ins. edge_ok h1 outs e" using assms(2) by (simp add: edge_ok_def)
  have one: "\<exists>h'. resolve_one_of_edge e out h = Some h' \<and> joined h h' \<and> (False \<longrightarrow> settled_edge h' e out)"
    if "types_ok h" "edge_type e < length h" "edge_type out < length h" for h e out using resolve_one_of_edge_ok [OF that] by blast
  obtain h2 where h2: "ResolveOneOfTypes ins outs h1 = Some h2" "joined h1 h2"
    using for_edges_ok [of h1 ins outs resolve_one_of_edge False, OF len1(1) edges1 one] unfolding ResolveOneOfTypes_def by blast
  have "settled_edge h2 e (outs ! nat (upstream e))" if "e \<in> set ins" "upstream e \<noteq> - 1" for e
  proof -
    have "edge_type e < length h1" "edge_type (outs ! nat (upstream e)) < length h1" using edges1 that by (auto simp: edge_ok_def)
    then show ?thesis using settled_joined [OF h2(2)] h1(3) that by blast
  qed
  then show ?thesis using h1(1) h2(1) joined_trans [OF h1(2) h2(2)] by blast
qed

text \<open>Where the types at the ends of an edge are settled and agree, what the output accepts the input accepts, but for an output with a choice of types.\<close>

definition edge_accepts :: "('a \<Rightarrow> nat) \<Rightarrow> types \<Rightarrow> EdgeInfo \<Rightarrow> EdgeInfo \<Rightarrow> bool" where
  "edge_accepts tid h out e \<longleftrightarrow> (\<forall>p. Validate tid h (edge_type out) p = Some True \<longrightarrow>
     IsOneOf (h ! type_root h (edge_type out)) \<and> type_root h (edge_type e) \<noteq> type_root h (edge_type out) \<or> Validate tid h (edge_type e) p = Some True)"

lemma settled_accepts:
  assumes h: "types_ok h" and len: "edge_type e < length h" "edge_type out < length h" and settled: "settled_edge h e out"
    and cons: "IsConsistentWith h (edge_type e) (edge_type out) = Some True"
  shows "edge_accepts tid h out e"
  unfolding edge_accepts_def
proof (intro allI impI)
  obtain r q where rq: "type_root h (edge_type e) = r" "type_root h (edge_type out) = q" by blast
  have roots: "r = q \<or> \<not> IsAny (h ! r) \<and> \<not> IsAny (h ! q)" using settled rq by (simp add: settled_edge_def)
  have same: "SameAsPtr h r = None" "SameAsPtr h q = None" "GetSameAs h (edge_type e) = Some r" "GetSameAs h (edge_type out) = Some q"
    using types_okD [OF h len(1)] types_okD [OF h len(2)] rq by auto
  then have cons': "consistent_specs (type_spec (h ! r)) (type_spec (h ! q))" using cons by (simp add: IsConsistentWith_def)
  fix p assume "Validate tid h (edge_type out) p = Some True"
  then have v: "validate_spec tid (type_spec (h ! q)) p" using Validate_root [OF h len(2), of tid p] rq(2) by simp
  have "IsOneOf (h ! q) \<and> r \<noteq> q \<or> validate_spec tid (type_spec (h ! r)) p"
  proof (cases "r = q \<or> IsOneOf (h ! q)")
    case True
    then show ?thesis using v by auto
  next
    case False
    have "validate_spec tid (type_spec (h ! r)) p"
      by (rule accepted_both [OF cons' v])
        (use False roots same(1,2) in \<open>auto simp: IsAny_def IsOneOf_def SameAsPtr_def split: TypeSpec.splits\<close>)
    then show ?thesis ..
  qed
  then show "IsOneOf (h ! type_root h (edge_type out)) \<and> type_root h (edge_type e) \<noteq> type_root h (edge_type out) \<or> Validate tid h (edge_type e) p = Some True"
    using Validate_root [OF h len(1), of tid p] rq by simp
qed

text \<open>
  C37: type soundness of a validated graph. Resolving the types always ends; and when the types of the resolved streams are found consistent, every packet that the type of an
  output accepts is accepted by each input the output feeds, unless the output is left with a choice of several types.
\<close>

theorem stream_types_sound:
  assumes "types_ok h" and "\<forall>e \<in> set ins. edge_ok h outs e"
  shows "\<exists>h1 h2. ResolveAnyTypes ins outs h = Some h1 \<and> ResolveOneOfTypes ins outs h1 = Some h2 \<and> types_ok h2 \<and> length h2 = length h \<and>
    (ValidateStreamTypes ins outs h2 = Some True \<longrightarrow>
      (\<forall>e \<in> set ins. upstream e \<noteq> - 1 \<and>
        (\<forall>p. Validate tid h2 (edge_type (outs ! nat (upstream e))) p = Some True \<longrightarrow>
           IsOneOf (h2 ! type_root h2 (edge_type (outs ! nat (upstream e)))) \<and> type_root h2 (edge_type e) \<noteq> type_root h2 (edge_type (outs ! nat (upstream e))) \<or>
           Validate tid h2 (edge_type e) p = Some True)))"
proof -
  obtain h1 h2 where h: "ResolveAnyTypes ins outs h = Some h1" "ResolveOneOfTypes ins outs h1 = Some h2" "joined h h2"
    "\<forall>e \<in> set ins. upstream e \<noteq> - 1 \<longrightarrow> settled_edge h2 e (outs ! nat (upstream e))" using resolve_types_ok [OF assms] by blast
  note len = joinedD(1,2) [OF h(3)]
  have "upstream e \<noteq> - 1 \<and> edge_accepts tid h2 (outs ! nat (upstream e)) e" if ok: "ValidateStreamTypes ins outs h2 = Some True" and e: "e \<in> set ins" for e
  proof -
    note v = validated_edge [OF ok e]
    then have "edge_type e < length h2" "edge_type (outs ! nat (upstream e)) < length h2" using assms(2) e len(2) by (auto simp: edge_ok_def)
    from settled_accepts [OF len(1) this] show ?thesis using h(4) e v by blast
  qed
  then show ?thesis using h(1,2) len unfolding edge_accepts_def by blast
qed

definition example_edge :: "int \<Rightarrow> nat \<Rightarrow> EdgeInfo" where
  "example_edge up a = \<lparr>upstream = up, parent_node = NodeRef_new, edge_name = [], edge_type = a, back_edge = False\<rparr>"

lemma example_types_ok: "types_ok [\<lparr>type_spec = TypeId 5, is_optional = False\<rparr>, \<lparr>type_spec = SpecialType AcceptAny, is_optional = False\<rparr>]"
  unfolding types_ok_def
proof (intro allI impI)
  let ?h = "[\<lparr>type_spec = TypeId 5, is_optional = False\<rparr>, \<lparr>type_spec = SpecialType AcceptAny, is_optional = False\<rparr>]"
  fix a assume a: "a < length ?h"
  then have "a = 0 \<or> a = 1" by auto
  then have "SameAsPtr ?h a = None" by (auto simp: SameAsPtr_def)
  with a show "(\<exists>r < length ?h. GetSameAs ?h a = Some r) \<and> (\<forall>b. SameAsPtr ?h a = Some b \<longrightarrow> b < length ?h)" by auto
qed

theorem stream_types_sound_witness:
  "\<exists>h1 h2. ResolveAnyTypes [example_edge 0 1] [example_edge (- 1) 0]
      [\<lparr>type_spec = TypeId 5, is_optional = False\<rparr>, \<lparr>type_spec = SpecialType AcceptAny, is_optional = False\<rparr>] = Some h1 \<and>
    ResolveOneOfTypes [example_edge 0 1] [example_edge (- 1) 0] h1 = Some h2 \<and> types_ok h2"
proof -
  have "\<forall>e \<in> set [example_edge 0 1]. edge_ok [\<lparr>type_spec = TypeId 5, is_optional = False\<rparr>,
      \<lparr>type_spec = SpecialType AcceptAny, is_optional = False\<rparr>] [example_edge (- 1) 0] e"
    by (simp add: edge_ok_def example_edge_def)
  from stream_types_sound [OF example_types_ok this] show ?thesis by blast
qed

text \<open>
  The output that is left with a choice is a gap: with the first edge resolved before the second, the output keeps the types 1 and 2 although what it feeds has been narrowed
  to 1; in the other order the output is narrowed too.  Both are found consistent.
\<close>

definition choice_types :: types where
  "choice_types = [\<lparr>type_spec = MultiType [1, 2] [], is_optional = False\<rparr>, \<lparr>type_spec = TypeId 1, is_optional = False\<rparr>,
     \<lparr>type_spec = MultiType [1, 3] [], is_optional = False\<rparr>, \<lparr>type_spec = SameAs 2, is_optional = False\<rparr>]"

lemma one_of_order:
  fixes p :: "nat packet"
  defines "outs \<equiv> [example_edge (- 1) 0, example_edge (- 1) 1]"
  assumes "pkt_data p = Some 2"
  shows "\<exists>h. ResolveOneOfTypes [example_edge 0 2, example_edge 1 3] outs choice_types = Some h \<and>
      ValidateStreamTypes [example_edge 0 2, example_edge 1 3] outs h = Some True \<and>
      Validate id h 0 p = Some True \<and> Validate id h 2 p = Some False"
    and "\<exists>h. ResolveOneOfTypes [example_edge 1 3, example_edge 0 2] outs choice_types = Some h \<and>
      ValidateStreamTypes [example_edge 1 3, example_edge 0 2] outs h = Some True \<and> Validate id h 0 p = Some False"
  using assms(2)
  by (simp_all add: outs_def choice_types_def example_edge_def ResolveOneOfTypes_def resolve_one_of_edge_def GetSameAs.simps SameAsPtr_def
      IsConsistentWith_def consistent_specs_def GetTypeSpan_def HaveCommonType_def IsOneOf_def IsExactType_def SetSameAs_def set_spec_def
      Validate_def IsInitialized_def validate_spec_def ValidateAsType_def)

end
