(* ===== verification/Validated_Graph.thy ===== *)
theory Validated_Graph
  imports Stream_Types Topological_Sorter
begin

text \<open>
  \<^verbatim>\<open>framework/validated_graph_config.h\<close> and \<^verbatim>\<open>.cc\<close>: how the nodes of a graph are wired.  Every output stream and side packet is entered under its name, every input looks up
  its name; where a name is not known yet the nodes are sorted and everything is entered again.  The subgraphs have been expanded and each node has told the types
  of its ports (\<open>NodeTypeInfo\<close>); a pointer to a node is its \<open>NodeRef\<close>.
\<close>

section \<open>The graph\<close>

datatype graph_error = UnknownError | GraphRetCheck | GraphInvalidArgument | GraphName name_error | CheckFailed

record NodeTypeInfo =
  info_node :: NodeRef
  InputSidePacketTypes :: PacketTypeSet
  OutputSidePacketTypes :: PacketTypeSet
  InputStreamTypes :: PacketTypeSet
  OutputStreamTypes :: PacketTypeSet
  input_side_packet_base_index :: int
  output_side_packet_base_index :: int
  input_stream_base_index :: int
  output_stream_base_index :: int
  ancestor_sources :: "int set"

text \<open>Of the configuration: for each calculator the marked input streams and the executor, and for the graph its streams and executors.\<close>

record NodeConfig =
  input_stream_info :: "(string \<times> bool) list"
  node_executor :: string

record GraphConfig =
  config_nodes :: "NodeConfig list"
  config_input_stream :: "string list"
  config_output_stream :: "string list"
  config_executors :: "string list"

record ValidatedGraphConfig =
  config :: GraphConfig
  calculators :: "NodeTypeInfo list"
  generators :: "NodeTypeInfo list"
  status_handlers :: "NodeTypeInfo list"
  sorted_nodes :: "NodeRef list"
  stream_to_producer :: "string \<Rightarrow> int option"
  output_streams_to_consumer_nodes :: "int \<Rightarrow> int list option"
  side_packet_to_producer :: "string \<Rightarrow> int option"
  required_side_packets :: "(string \<times> nat list) list"
  input_streams :: "EdgeInfo list"
  output_streams :: "EdgeInfo list"
  input_side_packets :: "EdgeInfo list"
  output_side_packets :: "EdgeInfo list"
  packet_types :: types

type_synonym graph = ValidatedGraphConfig

text \<open>The ports of a set: the names in its tag map with the types, by id.\<close>

definition ports :: "PacketTypeSet \<Rightarrow> (string \<times> nat) list" where
  "ports s = zip (tm_names (pts_tag_map s)) (pts_types s)"

definition info_at :: "graph \<Rightarrow> NodeRef \<Rightarrow> NodeTypeInfo" where
  "info_at g n =
     (case ref_type n of
        PACKET_GENERATOR \<Rightarrow> generators g ! nat (ref_index n)
      | STATUS_HANDLER \<Rightarrow> status_handlers g ! nat (ref_index n)
      | _ \<Rightarrow> calculators g ! nat (ref_index n))"

definition put_info :: "NodeRef \<Rightarrow> (NodeTypeInfo \<Rightarrow> NodeTypeInfo) \<Rightarrow> graph \<Rightarrow> graph" where
  "put_info n f g =
     (case ref_type n of
        PACKET_GENERATOR \<Rightarrow> g\<lparr>generators := (generators g)[nat (ref_index n) := f (info_at g n)]\<rparr>
      | STATUS_HANDLER \<Rightarrow> g\<lparr>status_handlers := (status_handlers g)[nat (ref_index n) := f (info_at g n)]\<rparr>
      | _ \<Rightarrow> g\<lparr>calculators := (calculators g)[nat (ref_index n) := f (info_at g n)]\<rparr>)"

section \<open>Side packets\<close>

definition add_input_side_packet :: "NodeRef \<Rightarrow> string \<times> nat \<Rightarrow> graph \<Rightarrow> graph" where
  "add_input_side_packet n = (\<lambda>(name, a) g.
     let up = (case side_packet_to_producer g name of Some i \<Rightarrow> i | None \<Rightarrow> - 1);
         required = (case side_packet_to_producer g name of
             Some i \<Rightarrow> required_side_packets g
           | None \<Rightarrow> at_key [] (\<lambda>l. l @ [length (input_side_packets g)]) name (required_side_packets g))
     in g\<lparr>input_side_packets := input_side_packets g @
            [\<lparr>upstream = up, parent_node = n, edge_name = name, edge_type = a, back_edge = False\<rparr>],
          required_side_packets := required\<rparr>)"

definition AddInputSidePacketsForNode :: "NodeRef \<Rightarrow> graph \<Rightarrow> graph" where
  "AddInputSidePacketsForNode n g =
     fold (add_input_side_packet n) (ports (InputSidePacketTypes (info_at g n)))
       (put_info n (\<lambda>i. i\<lparr>input_side_packet_base_index := int (length (input_side_packets g))\<rparr>) g)"

text \<open>\<open>need_sorting\<close> is \<open>None\<close> in the second pass, where the pointer to it is null.\<close>

definition add_output_side_packet :: "NodeRef \<Rightarrow> string \<times> nat \<Rightarrow> bool option \<times> graph \<Rightarrow> graph_error + bool option \<times> graph" where
  "add_output_side_packet n = (\<lambda>(name, a) (need_sorting, g).
     if side_packet_to_producer g name \<noteq> None then Inl UnknownError
     else let g' = g\<lparr>output_side_packets := output_side_packets g @
                [\<lparr>upstream = - 1, parent_node = n, edge_name = name, edge_type = a, back_edge = False\<rparr>],
              side_packet_to_producer := (side_packet_to_producer g)(name \<mapsto> int (length (output_side_packets g)))\<rparr>
       in if name \<in> fst ` set (required_side_packets g) then
            (case need_sorting of Some b \<Rightarrow> Inr (Some True, g') | None \<Rightarrow> Inl UnknownError)
          else Inr (need_sorting, g'))"

definition AddOutputSidePacketsForNode :: "NodeRef \<Rightarrow> bool option \<times> graph \<Rightarrow> graph_error + bool option \<times> graph" where
  "AddOutputSidePacketsForNode n = (\<lambda>(need_sorting, g).
     run_steps (add_output_side_packet n) (ports (OutputSidePacketTypes (info_at g n)))
       (need_sorting, put_info n (\<lambda>i. i\<lparr>output_side_packet_base_index := int (length (output_side_packets g))\<rparr>) g))"

definition add_status_handler :: "nat \<Rightarrow> graph \<Rightarrow> graph_error + graph" where
  "add_status_handler i g =
     (let n = info_node (status_handlers g ! i)
      in if ref_type n \<noteq> STATUS_HANDLER \<or> ref_index n \<noteq> int i then Inl GraphRetCheck else Inr (AddInputSidePacketsForNode n g))"

definition InitializeSidePacketInfo :: "bool option \<times> graph \<Rightarrow> graph_error + bool option \<times> graph" where
  "InitializeSidePacketInfo = (\<lambda>(need_sorting, g).
     case run_steps (\<lambda>n (need, g). AddOutputSidePacketsForNode n (need, AddInputSidePacketsForNode n g)) (sorted_nodes g) (need_sorting, g) of
       Inl e \<Rightarrow> Inl e
     | Inr (need, g') \<Rightarrow>
         if need = Some True then Inr (need, g')
         else (case run_steps add_status_handler [0..<length (status_handlers g')] g' of
             Inl e \<Rightarrow> Inl e
           | Inr g'' \<Rightarrow> Inr (need, g'')))"

section \<open>Streams\<close>

definition graph_AddOutputStream :: "NodeRef \<Rightarrow> string \<times> nat \<Rightarrow> graph \<Rightarrow> graph_error + graph" where
  "graph_AddOutputStream n = (\<lambda>(name, a) g.
     if stream_to_producer g name \<noteq> None then Inl UnknownError
     else Inr (g\<lparr>output_streams := output_streams g @
              [\<lparr>upstream = - 1, parent_node = n, edge_name = name, edge_type = a, back_edge = False\<rparr>],
            stream_to_producer := (stream_to_producer g)(name \<mapsto> int (length (output_streams g)))\<rparr>))"

definition AddOutputStreamsForNode :: "NodeRef \<Rightarrow> graph \<Rightarrow> graph_error + graph" where
  "AddOutputStreamsForNode n g =
     run_steps (graph_AddOutputStream n) (ports (OutputStreamTypes (info_at g n)))
       (put_info n (\<lambda>i. i\<lparr>output_stream_base_index := int (length (output_streams g))\<rparr>) g)"

text \<open>The inputs that are marked as back edges, by id; the list is empty where nothing is said of any input.\<close>

definition mark_back_edge :: "TagMap \<Rightarrow> string \<times> bool \<Rightarrow> bool list \<Rightarrow> graph_error + bool list" where
  "mark_back_edge tm = (\<lambda>(tag_index, back) marks.
     if \<not> back then Inr marks
     else (case ParseTagIndex tag_index of
         Inl e \<Rightarrow> Inl (GraphName e)
       | Inr (tag, index) \<Rightarrow> let i = GetId tm tag index in if i < 0 then Inl GraphRetCheck else Inr (marks[nat i := True])))"

definition is_back_edge :: "TagMap \<Rightarrow> (string \<times> bool) list \<Rightarrow> graph_error + bool list" where
  "is_back_edge tm infos = (if infos = [] then Inr [] else run_steps (mark_back_edge tm) infos (replicate (nat (num_entries tm)) False))"

definition add_input_stream :: "NodeRef \<Rightarrow> string \<times> nat \<times> bool \<Rightarrow> bool option \<times> graph \<Rightarrow> graph_error + bool option \<times> graph" where
  "add_input_stream n = (\<lambda>(name, a, back) (need_sorting, g).
     case (case stream_to_producer g name of
         Some p \<Rightarrow> Inr (if back then - 1 else p, need_sorting)
       | None \<Rightarrow> if back then Inr (- 1, need_sorting)
                 else (case need_sorting of Some b \<Rightarrow> Inr (- 1, Some True) | None \<Rightarrow> Inl UnknownError)) of
       Inl e \<Rightarrow> Inl e
     | Inr (up, need) \<Rightarrow>
         let consumers = (if up > - 1 \<and> ref_type (parent_node (output_streams g ! nat up)) = CALCULATOR
           then (output_streams_to_consumer_nodes g)(up \<mapsto> (case output_streams_to_consumer_nodes g up of None \<Rightarrow> [] | Some l \<Rightarrow> l) @ [ref_index n])
           else output_streams_to_consumer_nodes g)
         in Inr (need, g\<lparr>output_streams_to_consumer_nodes := consumers,
              input_streams := input_streams g @ [\<lparr>upstream = up, parent_node = n, edge_name = name, edge_type = a, back_edge = back\<rparr>]\<rparr>))"

definition marked_ports :: "PacketTypeSet \<Rightarrow> bool list \<Rightarrow> (string \<times> nat \<times> bool) list" where
  "marked_ports s marks = map2 (\<lambda>(name, a) i. (name, a, marks \<noteq> [] \<and> marks ! i)) (ports s) [0..<length (ports s)]"

definition AddInputStreamsForNode :: "NodeRef \<Rightarrow> bool option \<times> graph \<Rightarrow> graph_error + bool option \<times> graph" where
  "AddInputStreamsForNode n = (\<lambda>(need_sorting, g).
     let g' = put_info n (\<lambda>i. i\<lparr>input_stream_base_index := int (length (input_streams g))\<rparr>) g;
         s = InputStreamTypes (info_at g n)
     in case is_back_edge (pts_tag_map s) (input_stream_info (config_nodes (config g) ! nat (ref_index n))) of
          Inl e \<Rightarrow> Inl e
        | Inr marks \<Rightarrow> run_steps (add_input_stream n) (marked_ports s marks) (need_sorting, g'))"

definition add_graph_input :: "nat \<times> string \<Rightarrow> graph \<Rightarrow> graph_error + graph" where
  "add_graph_input = (\<lambda>(index, name) g.
     graph_AddOutputStream \<lparr>ref_type = GRAPH_INPUT_STREAM, ref_index = int (index + length (config_nodes (config g)))\<rparr> (name, length (packet_types g))
       (g\<lparr>packet_types := packet_types g @ [\<lparr>type_spec = SpecialType AcceptAny, is_optional = False\<rparr>]\<rparr>))"

definition add_calculator :: "nat \<Rightarrow> bool option \<times> graph \<Rightarrow> graph_error + bool option \<times> graph" where
  "add_calculator i = (\<lambda>(need_sorting, g).
     let n = info_node (calculators g ! i)
     in if ref_type n \<noteq> CALCULATOR then Inl GraphRetCheck
        else (case AddInputStreamsForNode n (need_sorting, g) of
            Inl e \<Rightarrow> Inl e
          | Inr (need, g1) \<Rightarrow> (case AddOutputStreamsForNode n g1 of Inl e \<Rightarrow> Inl e | Inr g2 \<Rightarrow> Inr (need, g2))))"

definition InitializeStreamInfo :: "bool option \<times> graph \<Rightarrow> graph_error + bool option \<times> graph" where
  "InitializeStreamInfo = (\<lambda>(need_sorting, g).
     case TagMap_Initialize (config_input_stream (config g)) of
       Inl e \<Rightarrow> Inl (GraphName e)
     | Inr tm \<Rightarrow>
         (case run_steps add_graph_input (zip [0..<length (tm_names tm)] (tm_names tm)) g of
            Inl e \<Rightarrow> Inl e
          | Inr g1 \<Rightarrow>
              (case run_steps add_calculator [0..<length (calculators g1)] (need_sorting, g1) of
                 Inl e \<Rightarrow> Inl e
               | Inr r \<Rightarrow> (case TagMap_Initialize (config_output_stream (config g)) of Inl e \<Rightarrow> Inl (GraphName e) | Inr tm' \<Rightarrow> Inr r))))"

section \<open>Sorting\<close>

definition SorterIndexForNode :: "graph \<Rightarrow> NodeRef \<Rightarrow> int option" where
  "SorterIndexForNode g n =
     (case ref_type n of
        PACKET_GENERATOR \<Rightarrow> Some (ref_index n)
      | CALCULATOR \<Rightarrow> Some (int (length (generators g)) + ref_index n)
      | _ \<Rightarrow> None)"

definition stream_edge :: "graph \<Rightarrow> EdgeInfo \<Rightarrow> (int option \<times> int option) list" where
  "stream_edge g e =
     (case stream_to_producer g (edge_name e) of
        None \<Rightarrow> []
      | Some up \<Rightarrow>
          if ref_type (parent_node (output_streams g ! nat up)) \<noteq> GRAPH_INPUT_STREAM \<and> \<not> back_edge e
          then [(SorterIndexForNode g (parent_node (output_streams g ! nat up)), SorterIndexForNode g (parent_node e))] else [])"

definition side_packet_edge :: "graph \<Rightarrow> EdgeInfo \<Rightarrow> (int option \<times> int option) list" where
  "side_packet_edge g e =
     (if ref_type (parent_node e) \<noteq> PACKET_GENERATOR \<and> ref_type (parent_node e) \<noteq> CALCULATOR then []
      else (case side_packet_to_producer g (edge_name e) of
          None \<Rightarrow> []
        | Some up \<Rightarrow> [(SorterIndexForNode g (parent_node (output_side_packets g ! nat up)), SorterIndexForNode g (parent_node e))]))"

definition sorter_edges :: "graph \<Rightarrow> (int \<times> int) list option" where
  "sorter_edges g =
     those (map (\<lambda>(a, b). case (a, b) of (Some i, Some j) \<Rightarrow> Some (i, j) | _ \<Rightarrow> None)
       (concat (map (stream_edge g) (input_streams g)) @ concat (map (side_packet_edge g) (input_side_packets g))))"

text \<open>The nodes are moved to their places in the order of the sorter, generators and calculators each among themselves.\<close>

definition take_infos :: "NodeTypeInfo list \<Rightarrow> nat list \<Rightarrow> NodeTypeInfo list" where
  "take_infos infos order = map2 (\<lambda>k i. (infos ! i)\<lparr>info_node := (info_node (infos ! i))\<lparr>ref_index := int k\<rparr>\<rparr>) [0..<length order] order"

fun sorted_refs :: "nat \<Rightarrow> nat \<Rightarrow> nat \<Rightarrow> nat list \<Rightarrow> NodeRef list" where
  "sorted_refs ng k c [] = []"
| "sorted_refs ng k c (v # vs) =
     (if v < ng then \<lparr>ref_type = PACKET_GENERATOR, ref_index = int k\<rparr> # sorted_refs ng (Suc k) c vs
      else \<lparr>ref_type = CALCULATOR, ref_index = int c\<rparr> # sorted_refs ng k (Suc c) vs)"

definition move_nodes :: "nat list \<Rightarrow> graph \<Rightarrow> graph" where
  "move_nodes vs g =
     (let ng = length (generators g); gs = filter (\<lambda>v. v < ng) vs; cs = map (\<lambda>v. v - ng) (filter (\<lambda>v. \<not> v < ng) vs)
      in g\<lparr>generators := take_infos (generators g) gs, calculators := take_infos (calculators g) cs,
           config := (config g)\<lparr>config_nodes := map (\<lambda>i. config_nodes (config g) ! i) cs\<rparr>,
           sorted_nodes := sorted_refs ng 0 0 vs\<rparr>)"

definition TopologicalSortNodes :: "graph \<Rightarrow> graph_error + graph" where
  "TopologicalSortNodes g =
     (case (TopologicalSorter_new (int (length (generators g) + length (calculators g))), sorter_edges g) of
        (Some s, Some es) \<Rightarrow>
          (case add_edges es s of
             None \<Rightarrow> Inl CheckFailed
           | Some s' \<Rightarrow>
               (case take_nodes s' of
                  None \<Rightarrow> Inl CheckFailed
                | Some (vs, Some cycle_indexes) \<Rightarrow> Inl UnknownError
                | Some (vs, None) \<Rightarrow> Inr (move_nodes vs g)))
      | _ \<Rightarrow> Inl CheckFailed)"

section \<open>Wiring\<close>

definition clear_edges :: "graph \<Rightarrow> graph" where
  "clear_edges g = g\<lparr>side_packet_to_producer := Map.empty, required_side_packets := [], input_side_packets := [], output_side_packets := [],
     stream_to_producer := Map.empty, output_streams_to_consumer_nodes := Map.empty, input_streams := [], output_streams := []\<rparr>"

definition fill_upstream :: "(string \<Rightarrow> int option) \<Rightarrow> EdgeInfo \<Rightarrow> graph_error + EdgeInfo" where
  "fill_upstream producer e =
     (if \<not> back_edge e then Inr e
      else if upstream e \<noteq> - 1 then Inl GraphRetCheck
      else (case producer (edge_name e) of None \<Rightarrow> Inl GraphRetCheck | Some p \<Rightarrow> Inr (e\<lparr>upstream := p\<rparr>)))"

fun fill_all :: "(string \<Rightarrow> int option) \<Rightarrow> EdgeInfo list \<Rightarrow> graph_error + EdgeInfo list" where
  "fill_all producer [] = Inr []"
| "fill_all producer (e # es) =
     (case fill_upstream producer e of Inl x \<Rightarrow> Inl x | Inr e' \<Rightarrow> (case fill_all producer es of Inl x \<Rightarrow> Inl x | Inr es' \<Rightarrow> Inr (e' # es')))"

definition FillUpstreamFieldForBackEdges :: "graph \<Rightarrow> graph_error + graph" where
  "FillUpstreamFieldForBackEdges g =
     (case fill_all (stream_to_producer g) (input_streams g) of Inl e \<Rightarrow> Inl e | Inr es \<Rightarrow> Inr (g\<lparr>input_streams := es\<rparr>))"

definition initial_order :: "graph \<Rightarrow> graph_error + graph" where
  "initial_order g =
     (if list_all2 (\<lambda>i k. info_node i = \<lparr>ref_type = PACKET_GENERATOR, ref_index = int k\<rparr>) (generators g) [0..<length (generators g)] \<and>
         list_all2 (\<lambda>i k. info_node i = \<lparr>ref_type = CALCULATOR, ref_index = int k\<rparr>) (calculators g) [0..<length (calculators g)]
      then Inr (g\<lparr>sorted_nodes := map info_node (generators g) @ map info_node (calculators g)\<rparr>) else Inl GraphRetCheck)"

text \<open>The part of \<open>Initialize\<close> that wires the nodes.\<close>

definition wire :: "graph \<Rightarrow> graph_error + graph" where
  "wire g =
     (case initial_order g of
        Inl e \<Rightarrow> Inl e
      | Inr g0 \<Rightarrow>
     (case InitializeSidePacketInfo (Some False, g0) of
        Inl e \<Rightarrow> Inl e
      | Inr (need1, g1) \<Rightarrow>
     (case InitializeStreamInfo (need1, g1) of
        Inl e \<Rightarrow> Inl e
      | Inr (need2, g2) \<Rightarrow>
          if need2 \<noteq> Some True then FillUpstreamFieldForBackEdges g2
          else
     (case TopologicalSortNodes g2 of
        Inl e \<Rightarrow> Inl e
      | Inr g3 \<Rightarrow>
     (case InitializeSidePacketInfo (None, clear_edges g3) of
        Inl e \<Rightarrow> Inl e
      | Inr (need4, g4) \<Rightarrow>
     (case InitializeStreamInfo (None, g4) of
        Inl e \<Rightarrow> Inl e
      | Inr (need5, g5) \<Rightarrow> FillUpstreamFieldForBackEdges g5))))))"

end
