(* ===== verification/Stream_Wiring.thy ===== *)
theory Stream_Wiring
  imports Validated_Graph
begin

text \<open>
  What one pass over the streams does: \<open>InitializeStreamInfo_result\<close> gives the edges that \<open>InitializeStreamInfo\<close> enters, when it fails, and when it asks for
  the nodes to be sorted.
\<close>

section \<open>One pass over the streams\<close>

definition name_map :: "string list \<Rightarrow> string \<Rightarrow> int option" where
  "name_map ns = map_of (zip ns (map int [0..<length ns]))"

lemma name_map_snoc: "n \<notin> set ns \<Longrightarrow> name_map (ns @ [n]) = (name_map ns)(n \<mapsto> int (length ns))"
proof -
  assume "n \<notin> set ns"
  define z where "z = zip ns (map int [0..<length ns])"
  have "map_of z n = None" using \<open>n \<notin> set ns\<close> by (simp add: z_def map_of_zip_is_None)
  moreover have "name_map ns = map_of z" "name_map (ns @ [n]) = map_of (z @ [(n, int (length ns))])" by (simp_all add: name_map_def z_def)
  ultimately show ?thesis by (intro ext) (auto simp: map_add_def split: option.splits)
qed

lemma name_map_None: "name_map ns n = None \<longleftrightarrow> n \<notin> set ns"
  by (simp add: name_map_def map_of_zip_is_None)

lemma name_map_Some: "distinct ns \<Longrightarrow> name_map ns n = Some p \<longleftrightarrow> 0 \<le> p \<and> nat p < length ns \<and> ns ! nat p = n"
proof -
  assume "distinct ns"
  then have "distinct (map fst (zip ns (map int [0..<length ns])))" by simp
  then have "name_map ns n = Some p \<longleftrightarrow> (n, p) \<in> set (zip ns (map int [0..<length ns]))" unfolding name_map_def by (rule map_of_eq_Some_iff)
  also have "\<dots> \<longleftrightarrow> 0 \<le> p \<and> nat p < length ns \<and> ns ! nat p = n" by (auto simp: in_set_zip)
  finally show ?thesis .
qed

abbreviation stream_names :: "graph \<Rightarrow> string list" where
  "stream_names g \<equiv> map edge_name (output_streams g)"

definition names_entered :: "graph \<Rightarrow> bool" where
  "names_entered g \<longleftrightarrow> stream_to_producer g = name_map (stream_names g) \<and> distinct (stream_names g)"

definition output_edge :: "NodeRef \<Rightarrow> string \<times> nat \<Rightarrow> EdgeInfo" where
  "output_edge n = (\<lambda>(name, a). \<lparr>upstream = - 1, parent_node = n, edge_name = name, edge_type = a, back_edge = False\<rparr>)"

text \<open>An input edge of a node, where the names \<open>ns\<close> have been entered.\<close>

definition input_edge :: "NodeRef \<Rightarrow> string list \<Rightarrow> string \<times> nat \<times> bool \<Rightarrow> EdgeInfo" where
  "input_edge n ns = (\<lambda>(name, a, back). \<lparr>upstream = (if back then - 1 else case name_map ns name of None \<Rightarrow> - 1 | Some p \<Rightarrow> p),
     parent_node = n, edge_name = name, edge_type = a, back_edge = back\<rparr>)"

definition found :: "string list \<Rightarrow> string \<times> nat \<times> bool \<Rightarrow> bool" where
  "found ns = (\<lambda>(name, a, back). back \<or> name \<in> set ns)"

definition with_outputs :: "EdgeInfo list \<Rightarrow> graph \<Rightarrow> graph" where
  "with_outputs es g = g\<lparr>output_streams := es, stream_to_producer := name_map (map edge_name es)\<rparr>"

lemma output_edge_name [simp]: "edge_name (output_edge n p) = fst p"
  by (cases p) (simp add: output_edge_def)

lemma names_entered_with: "distinct (map edge_name es) \<Longrightarrow> names_entered (with_outputs es g)"
  by (simp add: names_entered_def with_outputs_def)

lemma graph_AddOutputStream_result:
  assumes "names_entered g"
  shows "graph_AddOutputStream n p g =
    (if fst p \<in> set (stream_names g) then Inl UnknownError else Inr (with_outputs (output_streams g @ [output_edge n p]) g))"
proof -
  have m: "stream_to_producer g = name_map (stream_names g)" using assms by (simp add: names_entered_def)
  show ?thesis
  proof (cases "fst p \<in> set (stream_names g)")
    case True
    then have "name_map (stream_names g) (fst p) \<noteq> None" by (unfold name_map_None, blast)
    with True show ?thesis by (cases p) (simp add: graph_AddOutputStream_def m)
  next
    case False
    then have "name_map (stream_names g) (fst p) = None" by (unfold name_map_None, blast)
    with False show ?thesis by (cases p) (simp add: graph_AddOutputStream_def m with_outputs_def output_edge_def name_map_snoc)
  qed
qed

lemma AddOutputStreams_result:
  assumes "names_entered g"
  shows "run_steps (graph_AddOutputStream n) ps g =
    (if distinct (stream_names g @ map fst ps) then Inr (with_outputs (output_streams g @ map (output_edge n) ps) g) else Inl UnknownError)"
  using assms
proof (induction ps arbitrary: g)
  case Nil
  then have "with_outputs (output_streams g) g = g" by (cases g) (simp add: with_outputs_def names_entered_def)
  with Nil show ?case by (simp add: names_entered_def)
next
  case (Cons p ps)
  show ?case
  proof (cases "fst p \<in> set (stream_names g)")
    case True
    then show ?thesis using Cons.prems by (simp add: graph_AddOutputStream_result)
  next
    case False
    define g' where "g' = with_outputs (output_streams g @ [output_edge n p]) g"
    have g': "names_entered g'" "stream_names g' = stream_names g @ [fst p]" "output_streams g' = output_streams g @ [output_edge n p]"
      using Cons.prems False by (auto simp: g'_def names_entered_def with_outputs_def)
    have "with_outputs es g' = with_outputs es g" for es by (simp add: g'_def with_outputs_def)
    then show ?thesis using Cons.IH [OF g'(1)] False Cons.prems
      by (simp add: graph_AddOutputStream_result g'(2,3) flip: g'_def)
  qed
qed

definition set_inputs :: "EdgeInfo list \<Rightarrow> (int \<Rightarrow> int list option) \<Rightarrow> graph \<Rightarrow> graph" where
  "set_inputs es c g = g\<lparr>output_streams_to_consumer_nodes := c, input_streams := es\<rparr>"

lemma AddInputStream_result:
  assumes "names_entered g"
  shows "if need \<noteq> None \<or> found (stream_names g) p
    then \<exists>c. add_input_stream n p (need, g) = Inr (if found (stream_names g) p then need else Some True,
      set_inputs (input_streams g @ [input_edge n (stream_names g) p]) c g)
    else add_input_stream n p (need, g) = Inl UnknownError"
proof -
  obtain name a b where p: "p = (name, a, b)" by (cases p)
  have m: "stream_to_producer g = name_map (stream_names g)" using assms by (simp add: names_entered_def)
  define edge where "edge up = \<lparr>upstream = up, parent_node = n, edge_name = name, edge_type = a, back_edge = b\<rparr>" for up
  obtain c where step: "add_input_stream n p (need, g) =
      (case (case name_map (stream_names g) name of
          Some q \<Rightarrow> Inr (if b then - 1 else q, need)
        | None \<Rightarrow> if b then Inr (- 1, need) else (case need of Some x \<Rightarrow> Inr (- 1, Some True) | None \<Rightarrow> Inl UnknownError)) of
        Inl e \<Rightarrow> Inl e
      | Inr (up, nd) \<Rightarrow> Inr (nd, set_inputs (input_streams g @ [edge up]) (c up) g))"
  proof
    show "add_input_stream n p (need, g) =
      (case (case name_map (stream_names g) name of
          Some q \<Rightarrow> Inr (if b then - 1 else q, need)
        | None \<Rightarrow> if b then Inr (- 1, need) else (case need of Some x \<Rightarrow> Inr (- 1, Some True) | None \<Rightarrow> Inl UnknownError)) of
        Inl e \<Rightarrow> Inl e
      | Inr (up, nd) \<Rightarrow> Inr (nd, set_inputs (input_streams g @ [edge up])
           ((\<lambda>up. if up > - 1 \<and> ref_type (parent_node (output_streams g ! nat up)) = CALCULATOR
             then (output_streams_to_consumer_nodes g)(up \<mapsto> (case output_streams_to_consumer_nodes g up of None \<Rightarrow> [] | Some l \<Rightarrow> l) @ [ref_index n])
             else output_streams_to_consumer_nodes g) up) g))"
      unfolding p add_input_stream_def m edge_def set_inputs_def Let_def by (simp only: case_prod_conv m)
  qed
  show ?thesis
  proof (cases "name_map (stream_names g) name")
    case None
    then have "name \<notin> set (stream_names g)" by (unfold name_map_None, blast)
    then show ?thesis unfolding step using None by (cases b; cases need) (auto simp: p found_def input_edge_def edge_def)
  next
    case (Some q)
    then have "name \<in> set (stream_names g)" using name_map_None [of "stream_names g" name] by auto
    then show ?thesis unfolding step using Some by (cases b) (auto simp: p found_def input_edge_def edge_def)
  qed
qed

text \<open>A node that takes a stream through a back edge is never entered as its consumer.\<close>

lemma back_edge_no_consumer:
  "add_input_stream n (name, a, True) (need, g) = Inr (need', g') \<Longrightarrow> output_streams_to_consumer_nodes g' = output_streams_to_consumer_nodes g"
  by (auto simp: add_input_stream_def Let_def split: option.splits)

lemma AddInputStreams_result:
  assumes "names_entered g"
  shows "if need \<noteq> None \<or> list_all (found (stream_names g)) ps
    then \<exists>c. run_steps (add_input_stream n) ps (need, g) = Inr (if list_all (found (stream_names g)) ps then need else Some True,
      set_inputs (input_streams g @ map (input_edge n (stream_names g)) ps) c g)
    else run_steps (add_input_stream n) ps (need, g) = Inl UnknownError"
  using assms
proof (induction ps arbitrary: g need)
  case Nil
  have "set_inputs (input_streams g) (output_streams_to_consumer_nodes g) g = g" by (cases g) (simp add: set_inputs_def)
  then have "\<exists>c. g = set_inputs (input_streams g) c g" by metis
  then show ?case by simp
next
  case (Cons p ps)
  note first = AddInputStream_result [OF Cons.prems, of need p n]
  show ?case
  proof (cases "need \<noteq> None \<or> found (stream_names g) p")
    case False
    then show ?thesis using first by simp
  next
    case True
    then obtain c where c: "add_input_stream n p (need, g) = Inr (if found (stream_names g) p then need else Some True,
        set_inputs (input_streams g @ [input_edge n (stream_names g) p]) c g)" using first by auto
    define g' where "g' = set_inputs (input_streams g @ [input_edge n (stream_names g) p]) c g"
    have g': "names_entered g'" "output_streams g' = output_streams g" "input_streams g' = input_streams g @ [input_edge n (stream_names g) p]"
      using Cons.prems by (auto simp: g'_def names_entered_def set_inputs_def)
    have "set_inputs es d g' = set_inputs es d g" for es d by (simp add: g'_def set_inputs_def)
    note rest = Cons.IH [OF g'(1), of "if found (stream_names g) p then need else Some True", unfolded g'(2,3) this]
    show ?thesis using True c [folded g'_def] rest by (cases need; cases "found (stream_names g) p") auto
  qed
qed

text \<open>What entering a node does not change: a node without its base indices, and the rest of the graph.\<close>

definition bare :: "NodeTypeInfo \<Rightarrow> NodeTypeInfo" where
  "bare i = i\<lparr>input_side_packet_base_index := 0, output_side_packet_base_index := 0, input_stream_base_index := 0,
     output_stream_base_index := 0\<rparr>"

lemma bare_simps [simp]:
  "info_node (bare i) = info_node i" "InputSidePacketTypes (bare i) = InputSidePacketTypes i" "OutputSidePacketTypes (bare i) = OutputSidePacketTypes i"
  "InputStreamTypes (bare i) = InputStreamTypes i" "OutputStreamTypes (bare i) = OutputStreamTypes i"
  "bare (i\<lparr>input_side_packet_base_index := b\<rparr>) = bare i" "bare (i\<lparr>output_side_packet_base_index := b\<rparr>) = bare i"
  "bare (i\<lparr>input_stream_base_index := b\<rparr>) = bare i" "bare (i\<lparr>output_stream_base_index := b\<rparr>) = bare i"
  by (simp_all add: bare_def)

definition stream_rest :: "graph \<Rightarrow> graph" where
  "stream_rest g = g\<lparr>calculators := [], stream_to_producer := Map.empty, output_streams_to_consumer_nodes := Map.empty,
     input_streams := [], output_streams := [], packet_types := []\<rparr>"

definition streams_from :: "graph \<Rightarrow> graph \<Rightarrow> bool" where
  "streams_from g g' \<longleftrightarrow> map bare (calculators g') = map bare (calculators g) \<and> stream_rest g' = stream_rest g"

lemma streams_from_refl [simp]: "streams_from g g"
  by (simp add: streams_from_def)

lemma streams_from_trans: "streams_from g g' \<Longrightarrow> streams_from g' g'' \<Longrightarrow> streams_from g g''"
  by (simp add: streams_from_def)

lemma stream_rest_fields:
  assumes "stream_rest g' = stream_rest g"
  shows "config g' = config g" "generators g' = generators g" "status_handlers g' = status_handlers g" "sorted_nodes g' = sorted_nodes g"
    "side_packet_to_producer g' = side_packet_to_producer g" "required_side_packets g' = required_side_packets g"
    "input_side_packets g' = input_side_packets g" "output_side_packets g' = output_side_packets g"
  using assms unfolding stream_rest_def by (cases g; cases g'; simp)+

lemma bare_at: "map bare xs = map bare ys \<Longrightarrow> k < length ys \<Longrightarrow> bare (xs ! k) = bare (ys ! k)"
  by (metis map_eq_imp_length_eq nth_map)

definition calc_ref :: "nat \<Rightarrow> NodeRef" where
  "calc_ref k = \<lparr>ref_type = CALCULATOR, ref_index = int k\<rparr>"

lemma calc_ref_simps [simp]: "ref_type (calc_ref k) = CALCULATOR" "ref_index (calc_ref k) = int k" "calc_ref j = calc_ref k \<longleftrightarrow> j = k"
  by (simp_all add: calc_ref_def)

text \<open>The inputs of a calculator with their marks, and its outputs.\<close>

definition node_ports :: "graph \<Rightarrow> nat \<Rightarrow> graph_error + (string \<times> nat \<times> bool) list \<times> (string \<times> nat) list" where
  "node_ports g k =
     (case is_back_edge (pts_tag_map (InputStreamTypes (calculators g ! k))) (input_stream_info (config_nodes (config g) ! k)) of
        Inl e \<Rightarrow> Inl e
      | Inr marks \<Rightarrow> Inr (marked_ports (InputStreamTypes (calculators g ! k)) marks, ports (OutputStreamTypes (calculators g ! k))))"

lemma streams_from_node:
  assumes "streams_from g g'" "k < length (calculators g)"
  shows "node_ports g' k = node_ports g k" "info_node (calculators g' ! k) = info_node (calculators g ! k)"
proof -
  have b: "bare (calculators g' ! k) = bare (calculators g ! k)" using assms bare_at unfolding streams_from_def by blast
  have c: "config g' = config g" using assms(1) stream_rest_fields unfolding streams_from_def by blast
  show "info_node (calculators g' ! k) = info_node (calculators g ! k)" using arg_cong [OF b, of info_node] by simp
  show "node_ports g' k = node_ports g k"
    using arg_cong [OF b, of InputStreamTypes] arg_cong [OF b, of OutputStreamTypes] by (simp add: node_ports_def c split: sum.splits)
qed

lemma streams_from_length: "streams_from g g' \<Longrightarrow> length (calculators g') = length (calculators g)"
  unfolding streams_from_def by (metis length_map)

lemma put_info_calculator:
  "put_info (calc_ref k) f g = g\<lparr>calculators := (calculators g)[k := f (calculators g ! k)]\<rparr>"
  by (simp add: put_info_def calc_ref_def info_at_def)

lemma info_at_calculator [simp]: "info_at g (calc_ref k) = calculators g ! k"
  by (simp add: info_at_def calc_ref_def)

lemma put_info_from:
  assumes "\<And>i. bare (f i) = bare i"
  shows "streams_from g (put_info (calc_ref k) f g)"
proof -
  have "map bare ((calculators g)[k := f (calculators g ! k)]) = map bare (calculators g)"
    by (simp add: map_update assms) (metis list_update_id map_update)
  then show ?thesis by (simp add: streams_from_def stream_rest_def put_info_calculator)
qed

lemma with_outputs_from [simp]: "streams_from g (with_outputs es g)" "streams_from g (set_inputs es c g)"
  by (simp_all add: streams_from_def stream_rest_def with_outputs_def set_inputs_def)

text \<open>Where the inputs of each calculator begin.\<close>

abbreviation bases :: "graph \<Rightarrow> int list" where
  "bases g \<equiv> map input_stream_base_index (calculators g)"

fun bases_from :: "int list \<Rightarrow> nat \<Rightarrow> nat \<Rightarrow> ((string \<times> nat \<times> bool) list \<times> (string \<times> nat) list) list \<Rightarrow> int list" where
  "bases_from bs k n [] = bs"
| "bases_from bs k n (p # P) = bases_from (bs[k := int n]) (Suc k) (n + length (fst p)) P"

lemma bases_from_nth:
  "k + length P \<le> length bs \<Longrightarrow> (\<forall>i < k. bases_from bs k n P ! i = bs ! i) \<and>
     (\<forall>j < length P. bases_from bs k n P ! (k + j) = int (n + sum_list (map (\<lambda>p. length (fst p)) (take j P))))"
proof (induction bs k n P rule: bases_from.induct)
  case (2 bs k n p P)
  have IH: "(\<forall>i < Suc k. bases_from (bs[k := int n]) (Suc k) (n + length (fst p)) P ! i = bs[k := int n] ! i) \<and>
     (\<forall>j < length P. bases_from (bs[k := int n]) (Suc k) (n + length (fst p)) P ! (Suc k + j) =
        int (n + length (fst p) + sum_list (map (\<lambda>p. length (fst p)) (take j P))))"
    using 2 by simp
  have "bases_from bs k n (p # P) ! (k + j) = int (n + sum_list (map (\<lambda>p. length (fst p)) (take j (p # P))))" if "j < length (p # P)" for j
    using IH that "2.prems" by (cases j) (simp_all add: add.assoc)
  moreover have "bases_from bs k n (p # P) ! i = bs ! i" if "i < k" for i using IH that by simp
  ultimately show ?case by blast
qed simp

lemma add_calculator_result:
  assumes entered: "names_entered g" and k: "k < length (calculators g)" "info_node (calculators g ! k) = calc_ref k"
    and ports: "node_ports g k = Inr (ps, qs)"
  shows "if distinct (stream_names g @ map fst qs) \<and> (need \<noteq> None \<or> list_all (found (stream_names g)) ps)
    then \<exists>g'. add_calculator k (need, g) = Inr (if list_all (found (stream_names g)) ps then need else Some True, g') \<and>
      names_entered g' \<and> output_streams g' = output_streams g @ map (output_edge (calc_ref k)) qs \<and>
      input_streams g' = input_streams g @ map (input_edge (calc_ref k) (stream_names g)) ps \<and> packet_types g' = packet_types g \<and> streams_from g g' \<and>
      bases g' = (bases g)[k := int (length (input_streams g))]
    else \<exists>e. add_calculator k (need, g) = Inl e"
proof -
  obtain marks where marks: "is_back_edge (pts_tag_map (InputStreamTypes (calculators g ! k))) (input_stream_info (config_nodes (config g) ! k)) = Inr marks"
    and ps: "ps = marked_ports (InputStreamTypes (calculators g ! k)) marks" and qs: "qs = ports (OutputStreamTypes (calculators g ! k))"
    using ports by (auto simp: node_ports_def split: sum.splits)
  define f where "f = (\<lambda>i :: NodeTypeInfo. i\<lparr>input_stream_base_index := int (length (input_streams g))\<rparr>)"
  define g1 where "g1 = put_info (calc_ref k) f g"
  have g1: "names_entered g1" "output_streams g1 = output_streams g" "input_streams g1 = input_streams g" "packet_types g1 = packet_types g"
    using entered by (simp_all add: g1_def put_info_calculator names_entered_def)
  have bases1: "bases g1 = (bases g)[k := int (length (input_streams g))]" by (simp add: g1_def put_info_calculator f_def map_update)
  have from1: "streams_from g g1" unfolding g1_def by (rule put_info_from) (simp add: f_def)
  have inputs: "AddInputStreamsForNode (calc_ref k) (need, g) = run_steps (add_input_stream (calc_ref k)) ps (need, g1)"
    using marks by (simp add: AddInputStreamsForNode_def ps g1_def f_def)
  note first = AddInputStreams_result [OF g1(1), of need ps "calc_ref k", folded inputs, unfolded g1(2,3)]
  have step: "add_calculator k (need, g) = (case AddInputStreamsForNode (calc_ref k) (need, g) of
      Inl e \<Rightarrow> Inl e
    | Inr (nd, h) \<Rightarrow> (case AddOutputStreamsForNode (calc_ref k) h of Inl e \<Rightarrow> Inl e | Inr h' \<Rightarrow> Inr (nd, h')))"
    unfolding add_calculator_def Let_def case_prod_conv k(2) by simp
  show ?thesis
  proof (cases "need \<noteq> None \<or> list_all (found (stream_names g)) ps")
    case False
    then show ?thesis unfolding step using first by simp
  next
    case True
    then obtain c where c: "AddInputStreamsForNode (calc_ref k) (need, g) =
        Inr (if list_all (found (stream_names g)) ps then need else Some True,
          set_inputs (input_streams g @ map (input_edge (calc_ref k) (stream_names g)) ps) c g1)" using first by auto
    define g2 where "g2 = set_inputs (input_streams g @ map (input_edge (calc_ref k) (stream_names g)) ps) c g1"
    have g2: "names_entered g2" "output_streams g2 = output_streams g" "packet_types g2 = packet_types g"
      "input_streams g2 = input_streams g @ map (input_edge (calc_ref k) (stream_names g)) ps"
      using g1 by (simp_all add: g2_def set_inputs_def names_entered_def)
    have bases2: "bases g2 = bases g1" by (simp add: g2_def set_inputs_def)
    have from2: "streams_from g g2" unfolding g2_def using from1 with_outputs_from(2) streams_from_trans by blast
    define f' where "f' = (\<lambda>i :: NodeTypeInfo. i\<lparr>output_stream_base_index := int (length (output_streams g2))\<rparr>)"
    define g3 where "g3 = put_info (calc_ref k) f' g2"
    have g3: "names_entered g3" "output_streams g3 = output_streams g" "packet_types g3 = packet_types g"
      "input_streams g3 = input_streams g @ map (input_edge (calc_ref k) (stream_names g)) ps"
      using g2 by (simp_all add: g3_def put_info_calculator names_entered_def)
    have "bases g3 = (bases g2)[k := bases g2 ! k]" using k(1) streams_from_length [OF from2] by (simp add: g3_def put_info_calculator f'_def map_update)
    then have bases3: "bases g3 = bases g2" by simp
    have "streams_from g2 g3" unfolding g3_def by (rule put_info_from) (simp add: f'_def)
    then have from3: "streams_from g g3" using from2 streams_from_trans by blast
    have "OutputStreamTypes (calculators g2 ! k) = OutputStreamTypes (calculators g ! k)"
      using bare_at [of "calculators g2" "calculators g" k] from2 k(1) unfolding streams_from_def by (metis bare_simps(5))
    then have outputs: "AddOutputStreamsForNode (calc_ref k) g2 = run_steps (graph_AddOutputStream (calc_ref k)) qs g3"
      by (simp add: AddOutputStreamsForNode_def qs g3_def f'_def)
    note second = AddOutputStreams_result [OF g3(1), of "calc_ref k" qs, folded outputs, unfolded g3(2)]
    show ?thesis
    proof (cases "distinct (stream_names g @ map fst qs)")
      case False
      then have out: "AddOutputStreamsForNode (calc_ref k) g2 = Inl UnknownError" using second by (simp only: if_False)
      from False have "\<not> (distinct (stream_names g @ map fst qs) \<and> (need \<noteq> None \<or> list_all (found (stream_names g)) ps))" by blast
      then show ?thesis unfolding if_not_P [OF \<open>\<not> (distinct _ \<and> _)\<close>] step c g2_def [symmetric] by (simp add: out)
    next
      case distinct: True
      define g4 where "g4 = with_outputs (output_streams g @ map (output_edge (calc_ref k)) qs) g3"
      have "distinct (map edge_name (output_streams g @ map (output_edge (calc_ref k)) qs))" using distinct by (simp add: comp_def)
      then have "names_entered g4" unfolding g4_def by (rule names_entered_with)
      moreover have "streams_from g g4" unfolding g4_def using from3 with_outputs_from(1) streams_from_trans by blast
      moreover have "output_streams g4 = output_streams g @ map (output_edge (calc_ref k)) qs" "input_streams g4 = input_streams g3"
        "packet_types g4 = packet_types g3" by (simp_all add: g4_def with_outputs_def)
      moreover have "bases g4 = bases g3" by (simp add: g4_def with_outputs_def)
      moreover have "add_calculator k (need, g) = Inr (if list_all (found (stream_names g)) ps then need else Some True, g4)"
      proof -
        have "AddOutputStreamsForNode (calc_ref k) g2 = Inr g4" using second unfolding if_P [OF distinct] g4_def .
        then show ?thesis unfolding step c g2_def [symmetric] by simp
      qed
      ultimately show ?thesis unfolding if_P [OF conjI [OF distinct True]] using g3(3,4) bases1 bases2 bases3 by (intro exI [of _ g4]) simp
    qed
  qed
qed

type_synonym stream_ports = "(string \<times> nat \<times> bool) list \<times> (string \<times> nat) list"

fun all_found :: "string list \<Rightarrow> stream_ports list \<Rightarrow> bool" where
  "all_found ns [] = True"
| "all_found ns ((ps, qs) # P) = (list_all (found ns) ps \<and> all_found (ns @ map fst qs) P)"

fun input_edges :: "string list \<Rightarrow> nat \<Rightarrow> stream_ports list \<Rightarrow> EdgeInfo list" where
  "input_edges ns k [] = []"
| "input_edges ns k ((ps, qs) # P) = map (input_edge (calc_ref k) ns) ps @ input_edges (ns @ map fst qs) (Suc k) P"

fun output_edges :: "nat \<Rightarrow> stream_ports list \<Rightarrow> EdgeInfo list" where
  "output_edges k [] = []"
| "output_edges k ((ps, qs) # P) = map (output_edge (calc_ref k)) qs @ output_edges (Suc k) P"

abbreviation output_names :: "stream_ports list \<Rightarrow> string list" where
  "output_names P \<equiv> concat (map (\<lambda>(ps, qs). map fst qs) P)"

lemma output_edges_names [simp]: "map edge_name (output_edges k P) = output_names P"
  by (induction k P rule: output_edges.induct) (auto simp: comp_def)

lemmas add_calculator_ok = add_calculator_result [unfolded if_bool_eq_conj, THEN conjunct1, THEN mp]
lemmas add_calculator_fails = add_calculator_result [unfolded if_bool_eq_conj, THEN conjunct2, THEN mp]

definition nodes_are :: "graph \<Rightarrow> nat \<Rightarrow> stream_ports list \<Rightarrow> bool" where
  "nodes_are g k P \<longleftrightarrow> k + length P \<le> length (calculators g) \<and>
     (\<forall>j < length P. info_node (calculators g ! (k + j)) = calc_ref (k + j) \<and> node_ports g (k + j) = Inr (P ! j))"

lemma nodes_are_Cons:
  "nodes_are g k (p # P) \<longleftrightarrow> k < length (calculators g) \<and> info_node (calculators g ! k) = calc_ref k \<and> node_ports g k = Inr p \<and> nodes_are g (Suc k) P"
  by (auto simp: nodes_are_def less_Suc_eq_0_disj nth_Cons split: nat.splits)

lemma nodes_are_from: "streams_from g g' \<Longrightarrow> nodes_are g k P \<Longrightarrow> nodes_are g' k P"
  using streams_from_node streams_from_length by (auto simp: nodes_are_def)

lemma upt_Suc_Cons: "[k..<k + length (p # P)] = k # [Suc k..<Suc k + length P]"
  by (simp add: upt_rec)

text \<open>Entering the calculators succeeds if the names are new and, in the second pass, every input finds its name.\<close>

lemma add_calculators_ok:
  assumes "names_entered g" and "nodes_are g k P" and "distinct (stream_names g @ output_names P)"
    and "need \<noteq> None \<or> all_found (stream_names g) P"
  shows "\<exists>g'. run_steps add_calculator [k..<k + length P] (need, g) = Inr (if all_found (stream_names g) P then need else Some True, g') \<and>
    names_entered g' \<and> output_streams g' = output_streams g @ output_edges k P \<and>
    input_streams g' = input_streams g @ input_edges (stream_names g) k P \<and> packet_types g' = packet_types g \<and> streams_from g g' \<and>
    bases g' = bases_from (bases g) k (length (input_streams g)) P"
  using assms
proof (induction P arbitrary: g k need)
  case (Cons p P)
  obtain ps qs where p: "p = (ps, qs)" by (cases p)
  have node: "k < length (calculators g)" "info_node (calculators g ! k) = calc_ref k" "node_ports g k = Inr (ps, qs)"
    using Cons.prems(2) by (simp_all add: nodes_are_Cons p)
  have "distinct (stream_names g @ map fst qs) \<and> (need \<noteq> None \<or> list_all (found (stream_names g)) ps)"
    using Cons.prems(3,4) by (auto simp: p)
  from add_calculator_ok [OF Cons.prems(1) node this] obtain g1 where g1:
    "add_calculator k (need, g) = Inr (if list_all (found (stream_names g)) ps then need else Some True, g1)" "names_entered g1"
    "output_streams g1 = output_streams g @ map (output_edge (calc_ref k)) qs"
    "input_streams g1 = input_streams g @ map (input_edge (calc_ref k) (stream_names g)) ps" "packet_types g1 = packet_types g" "streams_from g g1"
    "bases g1 = (bases g)[k := int (length (input_streams g))]"
    by blast
  define need' where "need' = (if list_all (found (stream_names g)) ps then need else Some True)"
  have names: "stream_names g1 = stream_names g @ map fst qs" by (simp add: g1(3))
  have "nodes_are g1 (Suc k) P" using nodes_are_from [OF g1(6)] Cons.prems(2) by (simp add: nodes_are_Cons)
  moreover have "distinct (stream_names g1 @ output_names P)" using Cons.prems(3) by (simp add: names p)
  moreover have "need' \<noteq> None \<or> all_found (stream_names g1) P" using Cons.prems(4) unfolding names by (auto simp: p need'_def)
  ultimately obtain g2 where g2: "run_steps add_calculator [Suc k..<Suc k + length P] (need', g1) = Inr (if all_found (stream_names g1) P then need' else Some True, g2)"
    "names_entered g2" "output_streams g2 = output_streams g1 @ output_edges (Suc k) P"
    "input_streams g2 = input_streams g1 @ input_edges (stream_names g1) (Suc k) P" "packet_types g2 = packet_types g1" "streams_from g1 g2"
    "bases g2 = bases_from (bases g1) (Suc k) (length (input_streams g1)) P"
    using Cons.IH [OF g1(2)] by blast
  have "bases g2 = bases_from (bases g) k (length (input_streams g)) (p # P)" unfolding g2(7) g1(7) by (simp add: g1(4) p)
  moreover have "run_steps add_calculator [k..<k + length (p # P)] (need, g) = Inr (if all_found (stream_names g1) P then need' else Some True, g2)"
    unfolding upt_Suc_Cons using g1(1) g2(1) by (simp add: need'_def)
  moreover have "(if all_found (stream_names g1) P then need' else Some True) = (if all_found (stream_names g) (p # P) then need else Some True)"
    unfolding names by (simp add: p need'_def)
  moreover have "input_streams g2 = input_streams g @ input_edges (stream_names g) k (p # P)" unfolding g2(4) g1(4) names by (simp add: p)
  moreover have "output_streams g2 = output_streams g @ output_edges k (p # P)" by (simp add: g2(3) g1(3) p)
  ultimately show ?case using g1(5) g2(2,5) streams_from_trans [OF g1(6) g2(6)] by simp
qed simp

lemma add_calculators_fail:
  assumes "names_entered g" and "nodes_are g k P"
    and "\<not> (distinct (stream_names g @ output_names P) \<and> (need \<noteq> None \<or> all_found (stream_names g) P))"
  shows "\<exists>e. run_steps add_calculator [k..<k + length P] (need, g) = Inl e"
  using assms
proof (induction P arbitrary: g k need)
  case Nil
  then show ?case by (simp add: names_entered_def)
next
  case (Cons p P)
  obtain ps qs where p: "p = (ps, qs)" by (cases p)
  have node: "k < length (calculators g)" "info_node (calculators g ! k) = calc_ref k" "node_ports g k = Inr (ps, qs)"
    using Cons.prems(2) by (simp_all add: nodes_are_Cons p)
  show ?case
  proof (cases "distinct (stream_names g @ map fst qs) \<and> (need \<noteq> None \<or> list_all (found (stream_names g)) ps)")
    case False
    from add_calculator_fails [OF Cons.prems(1) node False] show ?thesis unfolding upt_Suc_Cons by auto
  next
    case True
    from add_calculator_ok [OF Cons.prems(1) node this] obtain g1 where g1:
      "add_calculator k (need, g) = Inr (if list_all (found (stream_names g)) ps then need else Some True, g1)" "names_entered g1"
      "output_streams g1 = output_streams g @ map (output_edge (calc_ref k)) qs" "streams_from g g1"
      by blast
    define need' where "need' = (if list_all (found (stream_names g)) ps then need else Some True)"
    have names: "stream_names g1 = stream_names g @ map fst qs" by (simp add: g1(3))
    have "nodes_are g1 (Suc k) P" using nodes_are_from [OF g1(4)] Cons.prems(2) by (simp add: nodes_are_Cons)
    moreover have "\<not> (distinct (stream_names g1 @ output_names P) \<and> (need' \<noteq> None \<or> all_found (stream_names g1) P))"
    proof
      assume a: "distinct (stream_names g1 @ output_names P) \<and> (need' \<noteq> None \<or> all_found (stream_names g1) P)"
      then have "distinct (stream_names g @ output_names (p # P))" by (simp add: names p)
      moreover have "need \<noteq> None \<or> all_found (stream_names g) (p # P)" using a True unfolding names by (auto simp: p need'_def split: if_splits)
      ultimately show False using Cons.prems(3) by blast
    qed
    ultimately obtain e where "run_steps add_calculator [Suc k..<Suc k + length P] (need', g1) = Inl e" using Cons.IH [OF g1(2)] by blast
    then show ?thesis unfolding upt_Suc_Cons using g1(1) by (simp add: need'_def)
  qed
qed

text \<open>The streams that enter the graph.\<close>

definition graph_input_ref :: "graph \<Rightarrow> nat \<Rightarrow> NodeRef" where
  "graph_input_ref g i = \<lparr>ref_type = GRAPH_INPUT_STREAM, ref_index = int (i + length (config_nodes (config g)))\<rparr>"

definition graph_inputs :: "graph \<Rightarrow> string list \<Rightarrow> EdgeInfo list" where
  "graph_inputs g ns = map2 (\<lambda>i n. output_edge (graph_input_ref g i) (n, length (packet_types g) + i)) [0..<length ns] ns"

lemma graph_inputs_names [simp]: "map edge_name (graph_inputs g ns) = ns"
  by (rule nth_equalityI) (simp_all add: graph_inputs_def)

lemma add_graph_inputs_result:
  assumes "names_entered g"
  shows "if distinct (stream_names g @ map snd ins)
    then \<exists>g'. run_steps add_graph_input ins g = Inr g' \<and> names_entered g' \<and> streams_from g g' \<and> input_streams g' = input_streams g \<and> calculators g' = calculators g \<and>
      output_streams g' = output_streams g @ map2 (\<lambda>k (i, n). output_edge (graph_input_ref g i) (n, length (packet_types g) + k)) [0..<length ins] ins \<and>
      packet_types g' = packet_types g @ replicate (length ins) \<lparr>type_spec = SpecialType AcceptAny, is_optional = False\<rparr>
    else \<exists>e. run_steps add_graph_input ins g = Inl e"
  using assms
proof (induction ins arbitrary: g)
  case Nil
  then show ?case by (simp add: names_entered_def)
next
  case (Cons x ins)
  obtain i n where x: "x = (i, n)" by (cases x)
  define any where "any = \<lparr>type_spec = SpecialType AcceptAny, is_optional = False\<rparr>"
  define h where "h = g\<lparr>packet_types := packet_types g @ [any]\<rparr>"
  have h: "names_entered h" "output_streams h = output_streams g" "input_streams h = input_streams g" "calculators h = calculators g" "streams_from g h"
    "packet_types h = packet_types g @ [any]"
    using Cons.prems by (auto simp: h_def names_entered_def streams_from_def stream_rest_def)
  have first: "add_graph_input x g = graph_AddOutputStream (graph_input_ref g i) (n, length (packet_types g)) h"
    by (simp add: add_graph_input_def x graph_input_ref_def h_def any_def)
  note first = first [unfolded graph_AddOutputStream_result [OF h(1)] h(2) fst_conv]
  show ?case
  proof (cases "n \<in> set (stream_names g)")
    case True
    then have dup: "\<not> distinct (stream_names g @ map snd (x # ins))" by (auto simp: x)
    have "\<exists>e. run_steps add_graph_input (x # ins) g = Inl e" using first True by simp
    then show ?thesis unfolding if_not_P [OF dup] .
  next
    case False
    define g1 where "g1 = with_outputs (output_streams g @ [output_edge (graph_input_ref g i) (n, length (packet_types g))]) h"
    have step: "add_graph_input x g = Inr g1" using first False by (simp add: g1_def)
    have g1: "output_streams g1 = output_streams g @ [output_edge (graph_input_ref g i) (n, length (packet_types g))]" "input_streams g1 = input_streams g"
      "calculators g1 = calculators g" "packet_types g1 = packet_types g @ [any]" "config g1 = config g"
      using h by (simp_all add: g1_def with_outputs_def h_def)
    have from1: "streams_from g g1" unfolding g1_def using h(5) with_outputs_from(1) streams_from_trans by blast
    have "distinct (stream_names g)" using Cons.prems by (simp add: names_entered_def)
    then have entered: "names_entered g1" unfolding g1_def using False by (intro names_entered_with) simp
    have refs: "graph_input_ref g1 = graph_input_ref g" by (rule ext) (simp add: graph_input_ref_def g1(5))
    have names: "stream_names g1 = stream_names g @ [n]" by (simp add: g1(1))
    have dist: "distinct (stream_names g @ map snd (x # ins)) \<longleftrightarrow> distinct (stream_names g1 @ map snd ins)"
      unfolding names by (auto simp: x)
    have count: "map2 (\<lambda>k (i, n). output_edge (graph_input_ref g i) (n, length (packet_types g) + k)) [0..<length (x # ins)] (x # ins) =
        output_edge (graph_input_ref g i) (n, length (packet_types g)) #
        map2 (\<lambda>k (i, n). output_edge (graph_input_ref g i) (n, Suc (length (packet_types g)) + k)) [0..<length ins] ins"
      by (rule nth_equalityI) (auto simp: x nth_Cons case_prod_beta simp del: upt_Suc split: nat.splits)
    show ?thesis
    proof (cases "distinct (stream_names g1 @ map snd ins)")
      case True
      then obtain g2 where "run_steps add_graph_input ins g1 = Inr g2" "names_entered g2" "streams_from g1 g2" "input_streams g2 = input_streams g1"
        "calculators g2 = calculators g1"
        "output_streams g2 = output_streams g1 @ map2 (\<lambda>k (i, n). output_edge (graph_input_ref g1 i) (n, length (packet_types g1) + k)) [0..<length ins] ins"
        "packet_types g2 = packet_types g1 @ replicate (length ins) any"
        using Cons.IH [OF entered] unfolding if_P [OF True] any_def by blast
      then show ?thesis unfolding if_P [OF dist [THEN iffD2, OF True]] count using step streams_from_trans [OF from1] g1 refs
        by (intro exI [of _ g2]) (simp add: any_def)
    next
      case False
      then obtain e where "run_steps add_graph_input ins g1 = Inl e" using Cons.IH [OF entered] unfolding if_not_P [OF False] by blast
      moreover have "\<not> distinct (stream_names g @ map snd (x # ins))" using dist False by blast
      ultimately show ?thesis unfolding if_not_P [OF \<open>\<not> distinct (stream_names g @ map snd (x # ins))\<close>] using step by simp
    qed
  qed
qed

lemmas add_graph_inputs_ok = add_graph_inputs_result [unfolded if_bool_eq_conj, THEN conjunct1, THEN mp]
lemmas add_graph_inputs_fail = add_graph_inputs_result [unfolded if_bool_eq_conj, THEN conjunct2, THEN mp]

definition no_streams :: "graph \<Rightarrow> bool" where
  "no_streams g \<longleftrightarrow> stream_to_producer g = Map.empty \<and> input_streams g = [] \<and> output_streams g = []"

definition streams_named :: "graph \<Rightarrow> string list \<Rightarrow> bool" where
  "streams_named g ns \<longleftrightarrow> (\<exists>tm tm'. TagMap_Initialize (config_input_stream (config g)) = Inr tm \<and> tm_names tm = ns \<and>
     TagMap_Initialize (config_output_stream (config g)) = Inr tm')"

definition all_nodes_are :: "graph \<Rightarrow> stream_ports list \<Rightarrow> bool" where
  "all_nodes_are g P \<longleftrightarrow> length P = length (calculators g) \<and> nodes_are g 0 P"

lemma no_streams_entered: "no_streams g \<Longrightarrow> names_entered g"
  by (simp add: no_streams_def names_entered_def name_map_def)

lemma InitializeStreamInfo_result:
  assumes "no_streams g" and "streams_named g ns" and P: "all_nodes_are g P"
  shows "distinct (ns @ output_names P) \<Longrightarrow> need \<noteq> None \<or> all_found ns P \<Longrightarrow>
      \<exists>g'. InitializeStreamInfo (need, g) = Inr (if all_found ns P then need else Some True, g') \<and> names_entered g' \<and>
        output_streams g' = graph_inputs g ns @ output_edges 0 P \<and> input_streams g' = input_edges ns 0 P \<and> streams_from g g' \<and>
        packet_types g' = packet_types g @ replicate (length ns) \<lparr>type_spec = SpecialType AcceptAny, is_optional = False\<rparr> \<and>
        bases g' = bases_from (bases g) 0 0 P"
    and "\<not> (distinct (ns @ output_names P) \<and> (need \<noteq> None \<or> all_found ns P)) \<Longrightarrow> \<exists>e. InitializeStreamInfo (need, g) = Inl e"
proof -
  obtain tm tm' where tm: "TagMap_Initialize (config_input_stream (config g)) = Inr tm" "tm_names tm = ns"
    "TagMap_Initialize (config_output_stream (config g)) = Inr tm'" using assms(2) by (auto simp: streams_named_def)
  define ins where "ins = zip [0..<length ns] ns"
  have ins: "map snd ins = ns" "length ins = length ns" "map fst ins = [0..<length ns]" by (simp_all add: ins_def)
  have entered: "names_entered g" using no_streams_entered [OF assms(1)] .
  have none: "output_streams g = []" "input_streams g = []" using assms(1) by (simp_all add: no_streams_def)
  have inputs: "map2 (\<lambda>k (i, n). output_edge (graph_input_ref g i) (n, length (packet_types g) + k)) [0..<length ins] ins = graph_inputs g ns"
    by (rule nth_equalityI) (simp_all add: graph_inputs_def ins_def)
  have step: "InitializeStreamInfo (need, g) =
      (case run_steps add_graph_input ins g of
         Inl e \<Rightarrow> Inl e
       | Inr g1 \<Rightarrow> (case run_steps add_calculator [0..<length (calculators g1)] (need, g1) of Inl e \<Rightarrow> Inl e | Inr r \<Rightarrow> Inr r))"
    unfolding InitializeStreamInfo_def case_prod_conv tm(1,3) sum.case tm(2) ins_def ..
  have later: "\<exists>g1. run_steps add_graph_input ins g = Inr g1 \<and> names_entered g1 \<and> streams_from g g1 \<and> input_streams g1 = [] \<and>
      output_streams g1 = graph_inputs g ns \<and> stream_names g1 = ns \<and> length (calculators g1) = 0 + length P \<and> nodes_are g1 0 P \<and>
      packet_types g1 = packet_types g @ replicate (length ns) \<lparr>type_spec = SpecialType AcceptAny, is_optional = False\<rparr> \<and> bases g1 = bases g"
    if "distinct ns"
  proof -
    have "distinct (stream_names g @ map snd ins)" using that by (simp add: none ins(1))
    from add_graph_inputs_ok [OF entered this] obtain g1 where g1: "run_steps add_graph_input ins g = Inr g1" "names_entered g1" "streams_from g g1"
      "input_streams g1 = input_streams g" "calculators g1 = calculators g" "output_streams g1 = output_streams g @ graph_inputs g ns"
      "packet_types g1 = packet_types g @ replicate (length ins) \<lparr>type_spec = SpecialType AcceptAny, is_optional = False\<rparr>"
      unfolding inputs by blast
    have "nodes_are g1 0 P" using P nodes_are_from [OF g1(3)] by (simp add: all_nodes_are_def)
    then show ?thesis using g1 none ins(2) P by (simp add: all_nodes_are_def)
  qed
  show "\<exists>g'. InitializeStreamInfo (need, g) = Inr (if all_found ns P then need else Some True, g') \<and> names_entered g' \<and>
        output_streams g' = graph_inputs g ns @ output_edges 0 P \<and> input_streams g' = input_edges ns 0 P \<and> streams_from g g' \<and>
        packet_types g' = packet_types g @ replicate (length ns) \<lparr>type_spec = SpecialType AcceptAny, is_optional = False\<rparr> \<and>
        bases g' = bases_from (bases g) 0 0 P"
    if c: "distinct (ns @ output_names P)" "need \<noteq> None \<or> all_found ns P"
  proof -
    obtain g1 where g1: "run_steps add_graph_input ins g = Inr g1" "names_entered g1" "streams_from g g1" "input_streams g1 = []"
      "output_streams g1 = graph_inputs g ns" "stream_names g1 = ns" "length (calculators g1) = 0 + length P" "nodes_are g1 0 P"
      "packet_types g1 = packet_types g @ replicate (length ns) \<lparr>type_spec = SpecialType AcceptAny, is_optional = False\<rparr>" "bases g1 = bases g"
      using later c(1) by auto
    from add_calculators_ok [OF g1(2,8), unfolded g1(6), OF c] obtain g2 where
      "run_steps add_calculator [0..<length (calculators g1)] (need, g1) = Inr (if all_found ns P then need else Some True, g2)"
      "names_entered g2" "output_streams g2 = output_streams g1 @ output_edges 0 P"
      "input_streams g2 = input_streams g1 @ input_edges ns 0 P" "packet_types g2 = packet_types g1" "streams_from g1 g2"
      "bases g2 = bases_from (bases g1) 0 (length (input_streams g1)) P"
      unfolding g1(7) by blast
    then show ?thesis unfolding step using g1 streams_from_trans [OF g1(3)] by simp
  qed
  show "\<exists>e. InitializeStreamInfo (need, g) = Inl e" if c: "\<not> (distinct (ns @ output_names P) \<and> (need \<noteq> None \<or> all_found ns P))"
  proof (cases "distinct ns")
    case False
    then have "\<not> distinct (stream_names g @ map snd ins)" by (simp add: none ins(1))
    from add_graph_inputs_fail [OF entered this] show ?thesis unfolding step by auto
  next
    case True
    then obtain g1 where g1: "run_steps add_graph_input ins g = Inr g1" "names_entered g1" "stream_names g1 = ns"
      "length (calculators g1) = 0 + length P" "nodes_are g1 0 P" using later by auto
    from add_calculators_fail [OF g1(2,5), unfolded g1(3), OF c] show ?thesis unfolding step g1(1) sum.case g1(4) by auto
  qed
qed

end
