(* ===== verification/Side_Packet_Wiring.thy ===== *)
theory Side_Packet_Wiring
  imports Stream_Wiring
begin

text \<open>
  What one pass over the side packets does: \<open>InitializeSidePacketInfo_result\<close> gives the edges that \<open>InitializeSidePacketInfo\<close> enters, when it fails, and when
  it asks for the nodes to be sorted.
\<close>

section \<open>One pass over the side packets\<close>

abbreviation side_names :: "graph \<Rightarrow> string list" where
  "side_names g \<equiv> map edge_name (output_side_packets g)"

definition side_entered :: "graph \<Rightarrow> bool" where
  "side_entered g \<longleftrightarrow> side_packet_to_producer g = name_map (side_names g) \<and> distinct (side_names g)"

definition side_input_edge :: "NodeRef \<Rightarrow> string list \<Rightarrow> string \<times> nat \<Rightarrow> EdgeInfo" where
  "side_input_edge n ns = (\<lambda>(name, a). \<lparr>upstream = (case name_map ns name of None \<Rightarrow> - 1 | Some p \<Rightarrow> p),
     parent_node = n, edge_name = name, edge_type = a, back_edge = False\<rparr>)"

text \<open>The side packets that must be given from outside: for each name the inputs that are not fed by a node.\<close>

definition required_ok :: "graph \<Rightarrow> bool" where
  "required_ok g \<longleftrightarrow> keys_sorted (required_side_packets g) \<and> (\<forall>(n, l) \<in> set (required_side_packets g). l \<noteq> []) \<and>
     (\<forall>n. read_key [] n (required_side_packets g) =
        filter (\<lambda>k. edge_name (input_side_packets g ! k) = n \<and> upstream (input_side_packets g ! k) = - 1) [0..<length (input_side_packets g)])"

definition required_names :: "graph \<Rightarrow> string set" where
  "required_names g = fst ` set (required_side_packets g)"

lemma at_key_values: "\<forall>(n, l) \<in> set m. l \<noteq> [] \<Longrightarrow> \<forall>(n, l) \<in> set (at_key [] (\<lambda>l. l @ [x]) k m). l \<noteq> []"
proof (induction m)
  case (Cons p m)
  then show ?case by (cases p) auto
qed simp

lemma add_input_side_packet_result:
  assumes "side_entered g" and "required_ok g"
  shows "\<exists>r. add_input_side_packet n p g = g\<lparr>input_side_packets := input_side_packets g @ [side_input_edge n (side_names g) p], required_side_packets := r\<rparr> \<and>
    required_ok (add_input_side_packet n p g) \<and>
    fst ` set r = required_names g \<union> (if fst p \<in> set (side_names g) then {} else {fst p})"
proof -
  obtain name a where p: "p = (name, a)" by (cases p)
  have m: "side_packet_to_producer g = name_map (side_names g)" using assms(1) by (simp add: side_entered_def)
  let ?es = "input_side_packets g @ [side_input_edge n (side_names g) p]"
  have before: "filter (\<lambda>k. edge_name (?es ! k) = x \<and> upstream (?es ! k) = - 1) [0..<length (input_side_packets g)] =
      filter (\<lambda>k. edge_name (input_side_packets g ! k) = x \<and> upstream (input_side_packets g ! k) = - 1) [0..<length (input_side_packets g)]" for x
    by (rule filter_cong) (simp_all add: nth_append)
  show ?thesis
  proof (cases "name_map (side_names g) name")
    case (Some q)
    then have "0 \<le> q" using assms(1) name_map_Some [of "side_names g" name q] by (simp add: side_entered_def)
    have "name \<in> set (side_names g)" using Some name_map_None [of "side_names g" name] by auto
    moreover have step: "add_input_side_packet n p g = g\<lparr>input_side_packets := ?es, required_side_packets := required_side_packets g\<rparr>"
      using Some by (simp add: add_input_side_packet_def p m side_input_edge_def)
    moreover have "required_ok (add_input_side_packet n p g)"
      using assms(2) before Some \<open>0 \<le> q\<close> unfolding step required_ok_def by (simp add: side_input_edge_def p)
    ultimately show ?thesis by (intro exI [of _ "required_side_packets g"]) (simp add: required_names_def p)
  next
    case None
    define r where "r = at_key [] (\<lambda>l. l @ [length (input_side_packets g)]) name (required_side_packets g)"
    have "name \<notin> set (side_names g)" using None unfolding name_map_None .
    moreover have step: "add_input_side_packet n p g = g\<lparr>input_side_packets := ?es, required_side_packets := r\<rparr>"
      using None by (simp add: add_input_side_packet_def p m side_input_edge_def r_def)
    moreover have "required_ok (add_input_side_packet n p g)"
    proof -
      have old: "keys_sorted (required_side_packets g)" "\<forall>(n, l) \<in> set (required_side_packets g). l \<noteq> []"
        using assms(2) unfolding required_ok_def by blast+
      have "read_key [] x r = filter (\<lambda>k. edge_name (?es ! k) = x \<and> upstream (?es ! k) = - 1) [0..<length ?es]" for x
        using assms(2) before None unfolding r_def read_at_key [OF old(1)] required_ok_def by (simp add: side_input_edge_def p)
      moreover have "keys_sorted r" unfolding r_def by (rule at_key_sorted [OF old(1)])
      moreover have "\<forall>(n, l) \<in> set r. l \<noteq> []" unfolding r_def by (rule at_key_values [OF old(2)])
      ultimately show ?thesis unfolding step required_ok_def by simp
    qed
    moreover have "fst ` set r = insert name (required_names g)" unfolding r_def at_key_keys required_names_def ..
    ultimately show ?thesis by (intro exI [of _ r]) (simp add: p)
  qed
qed

definition side_rest :: "graph \<Rightarrow> graph" where
  "side_rest g = g\<lparr>calculators := [], generators := [], status_handlers := [], side_packet_to_producer := Map.empty, required_side_packets := [],
     input_side_packets := [], output_side_packets := []\<rparr>"

definition side_from :: "graph \<Rightarrow> graph \<Rightarrow> bool" where
  "side_from g g' \<longleftrightarrow> map bare (calculators g') = map bare (calculators g) \<and> map bare (generators g') = map bare (generators g) \<and>
     map bare (status_handlers g') = map bare (status_handlers g) \<and> side_rest g' = side_rest g"

lemma side_from_refl [simp]: "side_from g g"
  by (simp add: side_from_def)

lemma side_from_trans: "side_from g g' \<Longrightarrow> side_from g' g'' \<Longrightarrow> side_from g g''"
  by (simp add: side_from_def)

definition ref_ok :: "graph \<Rightarrow> NodeRef \<Rightarrow> bool" where
  "ref_ok g n \<longleftrightarrow> 0 \<le> ref_index n \<and>
     (case ref_type n of
        PACKET_GENERATOR \<Rightarrow> nat (ref_index n) < length (generators g)
      | CALCULATOR \<Rightarrow> nat (ref_index n) < length (calculators g)
      | STATUS_HANDLER \<Rightarrow> nat (ref_index n) < length (status_handlers g)
      | _ \<Rightarrow> False)"

lemma side_from_length:
  "side_from g g' \<Longrightarrow> length (calculators g') = length (calculators g) \<and> length (generators g') = length (generators g) \<and>
     length (status_handlers g') = length (status_handlers g)"
  unfolding side_from_def by (metis length_map)

lemma side_from_ref: "side_from g g' \<Longrightarrow> ref_ok g' n \<longleftrightarrow> ref_ok g n"
proof -
  assume "side_from g g'"
  from side_from_length [OF this] show ?thesis unfolding ref_ok_def by (simp only:)
qed

lemma side_from_info:
  assumes "side_from g g'" "ref_ok g n"
  shows "bare (info_at g' n) = bare (info_at g n)"
proof -
  have maps: "map bare (calculators g') = map bare (calculators g)" "map bare (generators g') = map bare (generators g)"
    "map bare (status_handlers g') = map bare (status_handlers g)" using assms(1) unfolding side_from_def by blast+
  from assms(2) show ?thesis unfolding ref_ok_def info_at_def
    by (cases "ref_type n") (simp_all add: bare_at [OF maps(1)] bare_at [OF maps(2)] bare_at [OF maps(3)])
qed

lemma put_info_side:
  assumes "\<And>i. bare (f i) = bare i"
  shows "side_from g (put_info n f g)"
proof -
  have "map bare (xs[k := f (xs ! k)]) = map bare xs" for xs k
    by (simp add: map_update assms) (metis list_update_id map_update)
  then show ?thesis by (simp add: side_from_def side_rest_def put_info_def info_at_def split: NodeType.splits)
qed

lemma put_info_edges [simp]:
  "input_side_packets (put_info n f g) = input_side_packets g" "output_side_packets (put_info n f g) = output_side_packets g"
  "required_side_packets (put_info n f g) = required_side_packets g" "side_packet_to_producer (put_info n f g) = side_packet_to_producer g"
  by (simp_all add: put_info_def split: NodeType.splits)

definition side_state :: "graph \<Rightarrow> bool" where
  "side_state g \<longleftrightarrow> side_entered g \<and> required_ok g"

lemma side_state_put [simp]: "side_state (put_info n f g) \<longleftrightarrow> side_state g"
  by (simp add: side_state_def side_entered_def required_ok_def)

lemma add_inputs_fold:
  assumes "side_state g"
  shows "side_state (fold (add_input_side_packet n) ps g) \<and>
    input_side_packets (fold (add_input_side_packet n) ps g) = input_side_packets g @ map (side_input_edge n (side_names g)) ps \<and>
    output_side_packets (fold (add_input_side_packet n) ps g) = output_side_packets g \<and>
    required_names (fold (add_input_side_packet n) ps g) = required_names g \<union> (fst ` set ps - set (side_names g)) \<and>
    side_from g (fold (add_input_side_packet n) ps g)"
  using assms
proof (induction ps arbitrary: g)
  case (Cons p ps)
  obtain r where r: "add_input_side_packet n p g = g\<lparr>input_side_packets := input_side_packets g @ [side_input_edge n (side_names g) p], required_side_packets := r\<rparr>"
    "required_ok (add_input_side_packet n p g)" "fst ` set r = required_names g \<union> (if fst p \<in> set (side_names g) then {} else {fst p})"
    using add_input_side_packet_result Cons.prems unfolding side_state_def by blast
  define h where "h = add_input_side_packet n p g"
  have h: "side_state h" "input_side_packets h = input_side_packets g @ [side_input_edge n (side_names g) p]" "output_side_packets h = output_side_packets g"
    "required_names h = required_names g \<union> ({fst p} - set (side_names g))" "side_from g h"
    using r Cons.prems by (auto simp: h_def side_state_def side_entered_def required_names_def side_from_def side_rest_def split: if_splits)
  show ?case using Cons.IH [OF h(1)] h side_from_trans [OF h(5)] by (auto simp flip: h_def)
qed simp

lemma AddInputSidePackets_result:
  assumes "side_state g" and "ports (InputSidePacketTypes (info_at g n)) = ps"
  shows "\<exists>g'. AddInputSidePacketsForNode n g = g' \<and> side_state g' \<and> input_side_packets g' = input_side_packets g @ map (side_input_edge n (side_names g)) ps \<and>
    output_side_packets g' = output_side_packets g \<and> required_names g' = required_names g \<union> (fst ` set ps - set (side_names g)) \<and> side_from g g'"
proof -
  define h where "h = put_info n (\<lambda>i. i\<lparr>input_side_packet_base_index := int (length (input_side_packets g))\<rparr>) g"
  have h: "side_state h" "input_side_packets h = input_side_packets g" "output_side_packets h = output_side_packets g" "required_names h = required_names g"
    using assms(1) by (simp_all add: h_def required_names_def)
  have "side_from g h" unfolding h_def by (rule put_info_side) simp
  then show ?thesis using add_inputs_fold [OF h(1), of n ps] h side_from_trans
    by (auto simp: AddInputSidePacketsForNode_def assms(2) simp flip: h_def)
qed

definition with_side_outputs :: "EdgeInfo list \<Rightarrow> graph \<Rightarrow> graph" where
  "with_side_outputs es g = g\<lparr>output_side_packets := es, side_packet_to_producer := name_map (map edge_name es)\<rparr>"

lemma with_side_outputs_from [simp]: "side_from g (with_side_outputs es g)"
  by (simp add: side_from_def side_rest_def with_side_outputs_def)

lemma with_side_outputs_simps [simp]:
  "output_side_packets (with_side_outputs es g) = es" "input_side_packets (with_side_outputs es g) = input_side_packets g"
  "required_names (with_side_outputs es g) = required_names g"
  by (simp_all add: with_side_outputs_def required_names_def)

lemma with_side_outputs_state: "side_state g \<Longrightarrow> distinct (map edge_name es) \<Longrightarrow> side_state (with_side_outputs es g)"
  by (simp add: side_state_def side_entered_def required_ok_def with_side_outputs_def)

lemma add_output_side_packet_result:
  assumes "side_state g"
  shows "add_output_side_packet n p (need, g) =
    (if fst p \<in> set (side_names g) \<or> need = None \<and> fst p \<in> required_names g then Inl UnknownError
     else Inr (if fst p \<in> required_names g then Some True else need, with_side_outputs (output_side_packets g @ [output_edge n p]) g))"
proof -
  obtain name a where p: "p = (name, a)" by (cases p)
  have m: "side_packet_to_producer g = name_map (side_names g)" using assms by (simp add: side_state_def side_entered_def)
  show ?thesis
  proof (cases "name \<in> set (side_names g)")
    case True
    then have "name_map (side_names g) name \<noteq> None" by (unfold name_map_None, blast)
    with True show ?thesis by (simp add: p add_output_side_packet_def m)
  next
    case False
    then have "name_map (side_names g) name = None" by (unfold name_map_None, blast)
    with False show ?thesis
      by (cases need) (simp_all add: p add_output_side_packet_def m with_side_outputs_def output_edge_def name_map_snoc required_names_def Let_def)
  qed
qed

lemma AddOutputSide_each:
  assumes "side_state g"
  shows "(distinct (side_names g @ map fst qs) \<and> (need \<noteq> None \<or> fst ` set qs \<inter> required_names g = {}) \<longrightarrow>
      run_steps (add_output_side_packet n) qs (need, g) = Inr (if fst ` set qs \<inter> required_names g = {} then need else Some True,
        with_side_outputs (output_side_packets g @ map (output_edge n) qs) g)) \<and>
    (\<not> (distinct (side_names g @ map fst qs) \<and> (need \<noteq> None \<or> fst ` set qs \<inter> required_names g = {})) \<longrightarrow>
      (\<exists>e. run_steps (add_output_side_packet n) qs (need, g) = Inl e))"
  using assms
proof (induction qs arbitrary: g need)
  case Nil
  then have "with_side_outputs (output_side_packets g) g = g" by (cases g) (simp add: with_side_outputs_def side_state_def side_entered_def)
  with Nil show ?case by (simp add: side_state_def side_entered_def)
next
  case (Cons q qs)
  note first = add_output_side_packet_result [OF Cons.prems, of n q need]
  show ?case
  proof (cases "fst q \<in> set (side_names g) \<or> need = None \<and> fst q \<in> required_names g")
    case True
    then have "\<exists>e. run_steps (add_output_side_packet n) (q # qs) (need, g) = Inl e" using first by simp
    moreover have "\<not> (distinct (side_names g @ map fst (q # qs)) \<and> (need \<noteq> None \<or> fst ` set (q # qs) \<inter> required_names g = {}))"
      using True by auto
    ultimately show ?thesis by blast
  next
    case False
    define g1 where "g1 = with_side_outputs (output_side_packets g @ [output_edge n q]) g"
    define need1 where "need1 = (if fst q \<in> required_names g then Some True else need)"
    have step: "add_output_side_packet n q (need, g) = Inr (need1, g1)" using first False by (simp add: g1_def need1_def)
    have "distinct (side_names g)" using Cons.prems by (simp add: side_state_def side_entered_def)
    then have g1: "side_state g1" unfolding g1_def using False Cons.prems by (intro with_side_outputs_state) auto
    have g1': "output_side_packets g1 = output_side_packets g @ [output_edge n q]" "required_names g1 = required_names g"
      "with_side_outputs es g1 = with_side_outputs es g" for es by (simp_all add: g1_def) (simp add: with_side_outputs_def)
    have c: "distinct (side_names g1 @ map fst qs) \<and> (need1 \<noteq> None \<or> fst ` set qs \<inter> required_names g1 = {}) \<longleftrightarrow>
        distinct (side_names g @ map fst (q # qs)) \<and> (need \<noteq> None \<or> fst ` set (q # qs) \<inter> required_names g = {})"
      using False by (auto simp: g1' need1_def)
    have r: "(if fst ` set qs \<inter> required_names g1 = {} then need1 else Some True) = (if fst ` set (q # qs) \<inter> required_names g = {} then need else Some True)"
      by (auto simp: g1' need1_def)
    have o': "with_side_outputs (output_side_packets g1 @ map (output_edge n) qs) g1 = with_side_outputs (output_side_packets g @ map (output_edge n) (q # qs)) g"
      by (simp add: g1'(1,3))
    have e: "run_steps (add_output_side_packet n) (q # qs) (need, g) = run_steps (add_output_side_packet n) qs (need1, g1)" by (simp add: step)
    show ?thesis unfolding e using Cons.IH [OF g1, of need1] unfolding c r o' .
  qed
qed

lemma AddOutputSidePackets_result:
  assumes "side_state g" and "ports (OutputSidePacketTypes (info_at g n)) = qs"
  shows "distinct (side_names g @ map fst qs) \<Longrightarrow> need \<noteq> None \<or> fst ` set qs \<inter> required_names g = {} \<Longrightarrow>
      \<exists>g'. AddOutputSidePacketsForNode n (need, g) = Inr (if fst ` set qs \<inter> required_names g = {} then need else Some True, g') \<and> side_state g' \<and>
        input_side_packets g' = input_side_packets g \<and> output_side_packets g' = output_side_packets g @ map (output_edge n) qs \<and>
        required_names g' = required_names g \<and> side_from g g'"
    and "\<not> (distinct (side_names g @ map fst qs) \<and> (need \<noteq> None \<or> fst ` set qs \<inter> required_names g = {})) \<Longrightarrow>
      \<exists>e. AddOutputSidePacketsForNode n (need, g) = Inl e"
proof -
  define h where "h = put_info n (\<lambda>i. i\<lparr>output_side_packet_base_index := int (length (output_side_packets g))\<rparr>) g"
  have h: "side_state h" "input_side_packets h = input_side_packets g" "output_side_packets h = output_side_packets g" "required_names h = required_names g"
    using assms(1) by (simp_all add: h_def required_names_def)
  have from_h: "side_from g h" unfolding h_def by (rule put_info_side) simp
  have e: "AddOutputSidePacketsForNode n (need, g) = run_steps (add_output_side_packet n) qs (need, h)"
    by (simp add: AddOutputSidePacketsForNode_def assms(2) h_def)
  note r = AddOutputSide_each [OF h(1), of qs need n, unfolded h(3,4), folded e]
  show "\<exists>g'. AddOutputSidePacketsForNode n (need, g) = Inr (if fst ` set qs \<inter> required_names g = {} then need else Some True, g') \<and> side_state g' \<and>
        input_side_packets g' = input_side_packets g \<and> output_side_packets g' = output_side_packets g @ map (output_edge n) qs \<and>
        required_names g' = required_names g \<and> side_from g g'"
    if c: "distinct (side_names g @ map fst qs)" "need \<noteq> None \<or> fst ` set qs \<inter> required_names g = {}"
  proof -
    define g' where "g' = with_side_outputs (output_side_packets g @ map (output_edge n) qs) h"
    have "AddOutputSidePacketsForNode n (need, g) = Inr (if fst ` set qs \<inter> required_names g = {} then need else Some True, g')"
      using r c by (simp only: g'_def simp_thms)
    moreover have "side_state g'" unfolding g'_def using c(1) by (intro with_side_outputs_state [OF h(1)]) (simp add: comp_def)
    moreover have "side_from g g'" unfolding g'_def using from_h with_side_outputs_from side_from_trans by blast
    ultimately show ?thesis using h by (intro exI [of _ g']) (simp add: g'_def)
  qed
  show "\<exists>e. AddOutputSidePacketsForNode n (need, g) = Inl e"
    if "\<not> (distinct (side_names g @ map fst qs) \<and> (need \<noteq> None \<or> fst ` set qs \<inter> required_names g = {}))"
    using r that by blast
qed

type_synonym side_node = "NodeRef \<times> (string \<times> nat) list \<times> (string \<times> nat) list"

abbreviation unknown :: "string list \<Rightarrow> (string \<times> nat) list \<Rightarrow> string set" where
  "unknown ns ps \<equiv> fst ` set ps - set ns"

text \<open>No side packet is used before it is produced: \<open>U\<close> are the names that were not known when they were used.\<close>

fun side_ordered :: "string set \<Rightarrow> string list \<Rightarrow> side_node list \<Rightarrow> bool" where
  "side_ordered U ns [] = True"
| "side_ordered U ns ((n, ps, qs) # P) =
     (fst ` set qs \<inter> (U \<union> unknown ns ps) = {} \<and> side_ordered (U \<union> unknown ns ps) (ns @ map fst qs) P)"

fun side_inputs :: "string list \<Rightarrow> side_node list \<Rightarrow> EdgeInfo list" where
  "side_inputs ns [] = []"
| "side_inputs ns ((n, ps, qs) # P) = map (side_input_edge n ns) ps @ side_inputs (ns @ map fst qs) P"

fun side_outputs :: "side_node list \<Rightarrow> EdgeInfo list" where
  "side_outputs [] = []"
| "side_outputs ((n, ps, qs) # P) = map (output_edge n) qs @ side_outputs P"

abbreviation side_output_names :: "side_node list \<Rightarrow> string list" where
  "side_output_names P \<equiv> concat (map (\<lambda>(n, ps, qs). map fst qs) P)"

lemma side_outputs_names [simp]: "map edge_name (side_outputs P) = side_output_names P"
  by (induction P rule: side_outputs.induct) (auto simp: comp_def)

definition side_node_is :: "graph \<Rightarrow> side_node \<Rightarrow> bool" where
  "side_node_is g = (\<lambda>(n, ps, qs). ref_ok g n \<and> ports (InputSidePacketTypes (info_at g n)) = ps \<and> ports (OutputSidePacketTypes (info_at g n)) = qs)"

lemma side_node_from:
  assumes "side_from g g'" "side_node_is g x"
  shows "side_node_is g' x"
proof -
  obtain n ps qs where x: "x = (n, ps, qs)" by (cases x)
  then have n: "ref_ok g n" using assms(2) by (simp add: side_node_is_def)
  note b = side_from_info [OF assms(1) n]
  show ?thesis using assms(2) arg_cong [OF b, of InputSidePacketTypes] arg_cong [OF b, of OutputSidePacketTypes] side_from_ref [OF assms(1)]
    by (simp add: side_node_is_def x)
qed

definition enter_side :: "NodeRef \<Rightarrow> bool option \<times> graph \<Rightarrow> graph_error + bool option \<times> graph" where
  "enter_side n = (\<lambda>(need, g). AddOutputSidePacketsForNode n (need, AddInputSidePacketsForNode n g))"

lemma enter_side_result:
  assumes "side_state g" and "side_node_is g (n, ps, qs)"
  defines "U \<equiv> required_names g \<union> unknown (side_names g) ps"
  shows "distinct (side_names g @ map fst qs) \<Longrightarrow> need \<noteq> None \<or> fst ` set qs \<inter> U = {} \<Longrightarrow>
      \<exists>g'. enter_side n (need, g) = Inr (if fst ` set qs \<inter> U = {} then need else Some True, g') \<and> side_state g' \<and>
        input_side_packets g' = input_side_packets g @ map (side_input_edge n (side_names g)) ps \<and>
        output_side_packets g' = output_side_packets g @ map (output_edge n) qs \<and> required_names g' = U \<and> side_from g g'"
    and "\<not> (distinct (side_names g @ map fst qs) \<and> (need \<noteq> None \<or> fst ` set qs \<inter> U = {})) \<Longrightarrow> \<exists>e. enter_side n (need, g) = Inl e"
proof -
  have ports: "ports (InputSidePacketTypes (info_at g n)) = ps" using assms(2) by (simp add: side_node_is_def)
  obtain h where h: "AddInputSidePacketsForNode n g = h" "side_state h" "input_side_packets h = input_side_packets g @ map (side_input_edge n (side_names g)) ps"
    "output_side_packets h = output_side_packets g" "required_names h = U" "side_from g h"
    using AddInputSidePackets_result [OF assms(1) ports] unfolding U_def by blast
  have "side_node_is h (n, ps, qs)" using side_node_from [OF h(6) assms(2)] .
  then have ports': "ports (OutputSidePacketTypes (info_at h n)) = qs" by (simp add: side_node_is_def)
  have e: "enter_side n (need, g) = AddOutputSidePacketsForNode n (need, h)" by (simp add: enter_side_def h(1))
  note r = AddOutputSidePackets_result [OF h(2) ports', unfolded h(4,5)]
  show "\<exists>g'. enter_side n (need, g) = Inr (if fst ` set qs \<inter> U = {} then need else Some True, g') \<and> side_state g' \<and>
        input_side_packets g' = input_side_packets g @ map (side_input_edge n (side_names g)) ps \<and>
        output_side_packets g' = output_side_packets g @ map (output_edge n) qs \<and> required_names g' = U \<and> side_from g g'"
    if "distinct (side_names g @ map fst qs)" "need \<noteq> None \<or> fst ` set qs \<inter> U = {}"
    using r(1) [OF that] side_from_trans [OF h(6)] unfolding e h(3) by blast
  show "\<exists>e. enter_side n (need, g) = Inl e" if "\<not> (distinct (side_names g @ map fst qs) \<and> (need \<noteq> None \<or> fst ` set qs \<inter> U = {}))"
    using r(2) [OF that] unfolding e .
qed

lemma enter_sides_ok:
  assumes "side_state g" and "\<forall>x \<in> set P. side_node_is g x" and "distinct (side_names g @ side_output_names P)"
    and "need \<noteq> None \<or> side_ordered (required_names g) (side_names g) P"
  shows "\<exists>g'. run_steps enter_side (map fst P) (need, g) = Inr (if side_ordered (required_names g) (side_names g) P then need else Some True, g') \<and>
    side_state g' \<and> output_side_packets g' = output_side_packets g @ side_outputs P \<and>
    input_side_packets g' = input_side_packets g @ side_inputs (side_names g) P \<and> side_from g g'"
  using assms
proof (induction P arbitrary: g need)
  case (Cons x P)
  obtain n ps qs where x: "x = (n, ps, qs)" by (cases x)
  define U where "U = required_names g \<union> unknown (side_names g) ps"
  have node: "side_node_is g (n, ps, qs)" using Cons.prems(2) by (simp add: x)
  have "distinct (side_names g @ map fst qs)" "need \<noteq> None \<or> fst ` set qs \<inter> U = {}" using Cons.prems(3,4) by (auto simp: x U_def)
  from enter_side_result(1) [OF Cons.prems(1) node, folded U_def, OF this] obtain g1 where g1:
    "enter_side n (need, g) = Inr (if fst ` set qs \<inter> U = {} then need else Some True, g1)" "side_state g1"
    "input_side_packets g1 = input_side_packets g @ map (side_input_edge n (side_names g)) ps"
    "output_side_packets g1 = output_side_packets g @ map (output_edge n) qs" "required_names g1 = U" "side_from g g1"
    by blast
  define need' where "need' = (if fst ` set qs \<inter> U = {} then need else Some True)"
  have names: "side_names g1 = side_names g @ map fst qs" by (simp add: g1(4))
  have "\<forall>x \<in> set P. side_node_is g1 x" using side_node_from [OF g1(6)] Cons.prems(2) by simp
  moreover have "distinct (side_names g1 @ side_output_names P)" using Cons.prems(3) unfolding names by (simp add: x)
  moreover have "need' \<noteq> None \<or> side_ordered (required_names g1) (side_names g1) P"
    using Cons.prems(4) unfolding names g1(5) need'_def U_def by (auto simp: x)
  ultimately obtain g2 where g2:
    "run_steps enter_side (map fst P) (need', g1) = Inr (if side_ordered (required_names g1) (side_names g1) P then need' else Some True, g2)"
    "side_state g2" "output_side_packets g2 = output_side_packets g1 @ side_outputs P"
    "input_side_packets g2 = input_side_packets g1 @ side_inputs (side_names g1) P" "side_from g1 g2"
    using Cons.IH [OF g1(2)] by blast
  have "run_steps enter_side (map fst (x # P)) (need, g) = Inr (if side_ordered (required_names g1) (side_names g1) P then need' else Some True, g2)"
    using g1(1) g2(1) by (simp add: x need'_def)
  moreover have "(if side_ordered (required_names g1) (side_names g1) P then need' else Some True) =
      (if side_ordered (required_names g) (side_names g) (x # P) then need else Some True)"
    unfolding names g1(5) x side_ordered.simps U_def [symmetric] need'_def by simp
  moreover have "input_side_packets g2 = input_side_packets g @ side_inputs (side_names g) (x # P)" unfolding g2(4) g1(3) names by (simp add: x)
  moreover have "output_side_packets g2 = output_side_packets g @ side_outputs (x # P)" by (simp add: g2(3) g1(4) x)
  ultimately show ?case using g2(2) side_from_trans [OF g1(6) g2(5)] by simp
qed simp

lemma enter_sides_fail:
  assumes "side_state g" and "\<forall>x \<in> set P. side_node_is g x"
    and "\<not> (distinct (side_names g @ side_output_names P) \<and> (need \<noteq> None \<or> side_ordered (required_names g) (side_names g) P))"
  shows "\<exists>e. run_steps enter_side (map fst P) (need, g) = Inl e"
  using assms
proof (induction P arbitrary: g need)
  case Nil
  then show ?case by (simp add: side_state_def side_entered_def)
next
  case (Cons x P)
  obtain n ps qs where x: "x = (n, ps, qs)" by (cases x)
  define U where "U = required_names g \<union> unknown (side_names g) ps"
  have node: "side_node_is g (n, ps, qs)" using Cons.prems(2) by (simp add: x)
  note r = enter_side_result [OF Cons.prems(1) node, folded U_def, of need]
  show ?case
  proof (cases "distinct (side_names g @ map fst qs) \<and> (need \<noteq> None \<or> fst ` set qs \<inter> U = {})")
    case False
    from r(2) [OF this] show ?thesis by (auto simp: x)
  next
    case True
    then obtain g1 where g1: "enter_side n (need, g) = Inr (if fst ` set qs \<inter> U = {} then need else Some True, g1)" "side_state g1"
      "output_side_packets g1 = output_side_packets g @ map (output_edge n) qs" "required_names g1 = U" "side_from g g1"
      using r(1) by blast
    define need' where "need' = (if fst ` set qs \<inter> U = {} then need else Some True)"
    have names: "side_names g1 = side_names g @ map fst qs" by (simp add: g1(3))
    have "\<forall>x \<in> set P. side_node_is g1 x" using side_node_from [OF g1(5)] Cons.prems(2) by simp
    moreover have "\<not> (distinct (side_names g1 @ side_output_names P) \<and> (need' \<noteq> None \<or> side_ordered (required_names g1) (side_names g1) P))"
    proof
      assume a: "distinct (side_names g1 @ side_output_names P) \<and> (need' \<noteq> None \<or> side_ordered (required_names g1) (side_names g1) P)"
      then have "distinct (side_names g @ side_output_names (x # P))" unfolding names by (simp add: x)
      moreover have "need \<noteq> None \<or> side_ordered (required_names g) (side_names g) (x # P)"
        using a True unfolding names g1(4) x side_ordered.simps U_def [symmetric] need'_def by (auto split: if_splits)
      ultimately show False using Cons.prems(3) by blast
    qed
    ultimately obtain e where "run_steps enter_side (map fst P) (need', g1) = Inl e" using Cons.IH [OF g1(2)] by blast
    then show ?thesis using g1(1) by (simp add: x need'_def)
  qed
qed

text \<open>The status handlers, which only use side packets.\<close>

definition handler_ref :: "nat \<Rightarrow> NodeRef" where
  "handler_ref k = \<lparr>ref_type = STATUS_HANDLER, ref_index = int k\<rparr>"

definition handlers_ok :: "graph \<Rightarrow> bool" where
  "handlers_ok g \<longleftrightarrow> (\<forall>k < length (status_handlers g). info_node (status_handlers g ! k) = handler_ref k)"

definition handler_inputs :: "graph \<Rightarrow> string list \<Rightarrow> nat \<Rightarrow> EdgeInfo list" where
  "handler_inputs g ns k = map (side_input_edge (handler_ref k) ns) (ports (InputSidePacketTypes (status_handlers g ! k)))"

lemma side_from_handlers:
  assumes "side_from g h"
  shows "j < length (status_handlers g) \<Longrightarrow> InputSidePacketTypes (status_handlers h ! j) = InputSidePacketTypes (status_handlers g ! j)"
    and "length (status_handlers h) = length (status_handlers g)"
    and "handlers_ok g \<Longrightarrow> handlers_ok h"
proof -
  have same: "bare (status_handlers h ! j) = bare (status_handlers g ! j)" if "j < length (status_handlers g)" for j
    using assms that bare_at [of "status_handlers h" "status_handlers g" j] unfolding side_from_def by blast
  show len: "length (status_handlers h) = length (status_handlers g)" using side_from_length [OF assms] by blast
  show "InputSidePacketTypes (status_handlers h ! j) = InputSidePacketTypes (status_handlers g ! j)" if "j < length (status_handlers g)"
    using arg_cong [OF same [OF that], of InputSidePacketTypes] by simp
  show "handlers_ok h" if ok: "handlers_ok g"
    unfolding handlers_ok_def len
  proof (intro allI impI)
    fix k assume k: "k < length (status_handlers g)"
    from arg_cong [OF same [OF k], of info_node] ok k show "info_node (status_handlers h ! k) = handler_ref k" by (simp add: handlers_ok_def)
  qed
qed

lemma add_handlers_ok:
  assumes "side_state g" and "handlers_ok g" and "\<forall>k \<in> set ks. k < length (status_handlers g)"
  shows "\<exists>g'. run_steps add_status_handler ks g = Inr g' \<and> side_state g' \<and> output_side_packets g' = output_side_packets g \<and>
    input_side_packets g' = input_side_packets g @ concat (map (handler_inputs g (side_names g)) ks) \<and> side_from g g'"
  using assms
proof (induction ks arbitrary: g)
  case (Cons k ks)
  have k: "k < length (status_handlers g)" "info_node (status_handlers g ! k) = handler_ref k" using Cons.prems(2,3) by (auto simp: handlers_ok_def)
  have at: "info_at g (handler_ref k) = status_handlers g ! k" by (simp add: info_at_def handler_ref_def)
  obtain h where h: "AddInputSidePacketsForNode (handler_ref k) g = h" "side_state h"
    "input_side_packets h = input_side_packets g @ handler_inputs g (side_names g) k" "output_side_packets h = output_side_packets g" "side_from g h"
    using AddInputSidePackets_result [OF Cons.prems(1) arg_cong [OF arg_cong [OF at, of InputSidePacketTypes], of ports]] unfolding handler_inputs_def by blast
  have step: "add_status_handler k g = Inr h" unfolding add_status_handler_def k(2) Let_def h(1) by (simp add: handler_ref_def)
  note len = side_from_handlers(2) [OF h(5)]
  have "handlers_ok h" by (rule side_from_handlers(3) [OF h(5) Cons.prems(2)])
  moreover have "\<forall>k \<in> set ks. k < length (status_handlers h)" using Cons.prems(3) len by simp
  ultimately obtain g' where g': "run_steps add_status_handler ks h = Inr g'" "side_state g'" "output_side_packets g' = output_side_packets h"
    "input_side_packets g' = input_side_packets h @ concat (map (handler_inputs h (side_names h)) ks)" "side_from h g'"
    using Cons.IH [OF h(2)] by blast
  have "map (handler_inputs h (side_names h)) ks = map (handler_inputs g (side_names g)) ks"
  proof (rule map_cong)
    fix j assume "j \<in> set ks"
    then have "j < length (status_handlers g)" using Cons.prems(3) by simp
    from side_from_handlers(1) [OF h(5) this] show "handler_inputs h (side_names h) j = handler_inputs g (side_names g) j"
      by (simp add: handler_inputs_def h(4))
  qed simp
  then have "input_side_packets g' = input_side_packets g @ concat (map (handler_inputs g (side_names g)) (k # ks))"
    unfolding g'(4) h(3) by (simp only: list.map concat.simps append_assoc)
  then show ?case using g' h(4) side_from_trans [OF h(5) g'(5)] by (simp add: step)
qed simp

definition no_side_packets :: "graph \<Rightarrow> bool" where
  "no_side_packets g \<longleftrightarrow> side_packet_to_producer g = Map.empty \<and> required_side_packets g = [] \<and> input_side_packets g = [] \<and> output_side_packets g = []"

lemma no_side_state: "no_side_packets g \<Longrightarrow> side_state g \<and> required_names g = {}"
  by (simp add: no_side_packets_def side_state_def side_entered_def required_ok_def required_names_def name_map_def read_key_def)

lemma InitializeSidePacketInfo_result:
  assumes g: "no_side_packets g" "handlers_ok g" and P: "sorted_nodes g = map fst P" "\<forall>x \<in> set P. side_node_is g x"
  shows "distinct (side_output_names P) \<Longrightarrow> need \<noteq> None \<or> side_ordered {} [] P \<Longrightarrow>
      \<exists>g'. InitializeSidePacketInfo (need, g) = Inr (if side_ordered {} [] P then need else Some True, g') \<and> side_state g' \<and>
        output_side_packets g' = side_outputs P \<and> side_from g g' \<and>
        input_side_packets g' = side_inputs [] P @ (if need = Some True \<or> \<not> side_ordered {} [] P then []
          else concat (map (handler_inputs g (side_output_names P)) [0..<length (status_handlers g)]))"
    and "\<not> (distinct (side_output_names P) \<and> (need \<noteq> None \<or> side_ordered {} [] P)) \<Longrightarrow> \<exists>e. InitializeSidePacketInfo (need, g) = Inl e"
proof -
  have state: "side_state g" "required_names g = {}" using no_side_state [OF g(1)] by auto
  have none: "output_side_packets g = []" "input_side_packets g = []" using g(1) by (simp_all add: no_side_packets_def)
  have init: "InitializeSidePacketInfo (need, g) =
      (case run_steps enter_side (map fst P) (need, g) of
         Inl e \<Rightarrow> Inl e
       | Inr (need, g') \<Rightarrow>
           if need = Some True then Inr (need, g')
           else (case run_steps add_status_handler [0..<length (status_handlers g')] g' of Inl e \<Rightarrow> Inl e | Inr g'' \<Rightarrow> Inr (need, g'')))"
    by (simp add: InitializeSidePacketInfo_def P(1) enter_side_def [abs_def] case_prod_eta cong: sum.case_cong)
  show "\<exists>g'. InitializeSidePacketInfo (need, g) = Inr (if side_ordered {} [] P then need else Some True, g') \<and> side_state g' \<and>
        output_side_packets g' = side_outputs P \<and> side_from g g' \<and>
        input_side_packets g' = side_inputs [] P @ (if need = Some True \<or> \<not> side_ordered {} [] P then []
          else concat (map (handler_inputs g (side_output_names P)) [0..<length (status_handlers g)]))"
    if c: "distinct (side_output_names P)" "need \<noteq> None \<or> side_ordered {} [] P"
  proof -
    have "distinct (side_names g @ side_output_names P)" "need \<noteq> None \<or> side_ordered (required_names g) (side_names g) P"
      using c by (simp_all add: none state(2))
    from enter_sides_ok [OF state(1) P(2) this] obtain h where h:
      "run_steps enter_side (map fst P) (need, g) = Inr (if side_ordered {} [] P then need else Some True, h)"
      "side_state h" "output_side_packets h = side_outputs P" "input_side_packets h = side_inputs [] P" "side_from g h"
      by (auto simp: none state(2))
    show ?thesis
    proof (cases "need = Some True \<or> \<not> side_ordered {} [] P")
      case True
      then have "(if side_ordered {} [] P then need else Some True) = Some True" by auto
      then have "InitializeSidePacketInfo (need, g) = Inr (Some True, h)" unfolding init h(1) by simp
      moreover from True have "(if side_ordered {} [] P then need else Some True) = Some True" by auto
      ultimately show ?thesis using True h by (intro exI [of _ h]) simp
    next
      case False
      then have need: "(if side_ordered {} [] P then need else Some True) = need" "need \<noteq> Some True" by auto
      note len = side_from_handlers(2) [OF h(5)]
      have "handlers_ok h" by (rule side_from_handlers(3) [OF h(5) g(2)])
      from add_handlers_ok [OF h(2) this, of "[0..<length (status_handlers h)]"] obtain k where k:
        "run_steps add_status_handler [0..<length (status_handlers h)] h = Inr k" "side_state k" "output_side_packets k = output_side_packets h"
        "input_side_packets k = input_side_packets h @ concat (map (handler_inputs h (side_names h)) [0..<length (status_handlers h)])" "side_from h k"
        by auto
      have "map (handler_inputs h (side_names h)) [0..<length (status_handlers h)] = map (handler_inputs g (side_output_names P)) [0..<length (status_handlers g)]"
        unfolding len by (rule map_cong [OF refl]) (simp add: handler_inputs_def h(3) side_from_handlers(1) [OF h(5)])
      moreover have "InitializeSidePacketInfo (need, g) = Inr (need, k)" unfolding init h(1) need(1) using need(2) k(1) by simp
      ultimately show ?thesis using False k h side_from_trans [OF h(5) k(5)] need(1) by (intro exI [of _ k]) simp
    qed
  qed
  show "\<exists>e. InitializeSidePacketInfo (need, g) = Inl e" if c: "\<not> (distinct (side_output_names P) \<and> (need \<noteq> None \<or> side_ordered {} [] P))"
  proof -
    have "\<not> (distinct (side_names g @ side_output_names P) \<and> (need \<noteq> None \<or> side_ordered (required_names g) (side_names g) P))"
      using c by (simp add: none state(2))
    from enter_sides_fail [OF state(1) P(2) this] show ?thesis unfolding init by auto
  qed
qed

end
