(* ===== verification/Wiring_Order.thy ===== *)
theory Wiring_Order
  imports Side_Packet_Wiring "HOL-Library.Multiset"
begin

text \<open>
  When the passes over a graph need no sorting: the order of the nodes leads forward along the dependencies, that is from the producer of a stream or side packet to
  its consumers.  A list of node indices stands for the order; what a pass sees in that order is a rearrangement of what it sees in the order the nodes were given.
\<close>

section \<open>When a pass needs no sorting\<close>

abbreviation port_names :: "(string \<times> nat) list \<Rightarrow> string set" where
  "port_names ps \<equiv> fst ` set ps"

lemma UN_nth: "(\<Union>x \<in> set xs. f x) = (\<Union>i < length xs. f (xs ! i))"
  by (auto simp: set_conv_nth)

lemma side_ordered_iff:
  assumes "distinct (ns @ side_output_names P)"
  shows "side_ordered U ns P \<longleftrightarrow> U \<inter> set (side_output_names P) = {} \<and>
    (\<forall>i < length P. \<forall>j \<le> i. port_names (snd (snd (P ! i))) \<inter> port_names (fst (snd (P ! j))) = {})"
  using assms
proof (induction U ns P rule: side_ordered.induct)
  case (2 U ns n ps qs P)
  let ?V = "U \<union> unknown ns ps"
  have IH: "side_ordered ?V (ns @ map fst qs) P \<longleftrightarrow> ?V \<inter> set (side_output_names P) = {} \<and>
      (\<forall>i < length P. \<forall>j \<le> i. port_names (snd (snd (P ! i))) \<inter> port_names (fst (snd (P ! j))) = {})"
    using "2.IH" "2.prems" by simp
  have new: "port_names qs \<inter> set ns = {}" "set (side_output_names P) \<inter> set ns = {}"
    using "2.prems" unfolding list.map concat.simps case_prod_conv distinct_append set_append set_map by blast+
  have names: "set (side_output_names P) = (\<Union>i < length P. port_names (snd (snd (P ! i))))"
  proof -
    have "set (side_output_names P) = (\<Union>x \<in> set P. port_names (snd (snd x)))" by (simp add: split_beta)
    then show ?thesis by (simp only: UN_nth)
  qed
  have split: "(\<forall>i < Suc (length P). \<forall>j \<le> i. A i j) \<longleftrightarrow> A 0 0 \<and> (\<forall>i < length P. A (Suc i) 0) \<and> (\<forall>i < length P. \<forall>j \<le> i. A (Suc i) (Suc j))"
    for A :: "nat \<Rightarrow> nat \<Rightarrow> bool"
    unfolding less_Suc_eq_le [symmetric] All_less_Suc2 by auto
  have head: "port_names qs \<inter> ?V = {} \<longleftrightarrow> port_names qs \<inter> U = {} \<and> port_names qs \<inter> port_names ps = {}" using new(1) by blast
  have tail: "?V \<inter> set (side_output_names P) = {} \<longleftrightarrow> U \<inter> set (side_output_names P) = {} \<and> port_names ps \<inter> set (side_output_names P) = {}"
    using new(2) by blast
  have first: "port_names ps \<inter> set (side_output_names P) = {} \<longleftrightarrow> (\<forall>i < length P. port_names (snd (snd (P ! i))) \<inter> port_names ps = {})"
    unfolding names by blast
  have all: "set (side_output_names ((n, ps, qs) # P)) = port_names qs \<union> set (side_output_names P)" by simp
  have U: "U \<inter> (port_names qs \<union> set (side_output_names P)) = {} \<longleftrightarrow> port_names qs \<inter> U = {} \<and> U \<inter> set (side_output_names P) = {}" by blast
  show ?case unfolding side_ordered.simps IH head tail first all U list.size Nat.add_Suc_right add_0_right split nth_Cons_0 nth_Cons_Suc fst_conv snd_conv
    by (rule iffI; elim conjE; intro conjI; assumption)
qed simp

lemma all_found_iff:
  "all_found ns P \<longleftrightarrow> (\<forall>j < length P. \<forall>(n, a, b) \<in> set (fst (P ! j)). b \<or> n \<in> set ns \<or> (\<exists>i < j. n \<in> port_names (snd (P ! i))))"
proof (induction ns P rule: all_found.induct)
  case (2 ns ps qs P)
  have now: "list_all (found ns) ps \<longleftrightarrow> (\<forall>(n, a, b) \<in> set ps. b \<or> n \<in> set ns)" by (auto simp: list_all_iff found_def)
  show ?case unfolding all_found.simps "2.IH" now list.size Nat.add_Suc_right add_0_right All_less_Suc2 Ex_less_Suc2 by (auto simp: split_beta)
qed simp

section \<open>The edges of a pass\<close>

lemma UN_lessThan_Suc: "(\<Union>j < Suc m. A j) = A 0 \<union> (\<Union>j < m. A (Suc j))"
  by (simp add: lessThan_Suc_eq_insert_0 image_image)

lemma input_edges_set:
  "(\<lambda>e. (parent_node e, edge_name e, back_edge e)) ` set (input_edges ns k P) =
     (\<Union>j < length P. (\<lambda>(n, a, b). (calc_ref (k + j), n, b)) ` set (fst (P ! j)))"
proof (induction ns k P rule: input_edges.induct)
  case (2 ns k ps qs P)
  have "(\<lambda>e. (parent_node e, edge_name e, back_edge e)) ` input_edge (calc_ref k) ns ` set ps = (\<lambda>(n, a, b). (calc_ref k, n, b)) ` set ps"
    unfolding image_image by (rule image_cong) (auto simp: input_edge_def)
  then show ?case by (simp add: image_Un UN_lessThan_Suc "2.IH")
qed simp

lemma output_edges_set:
  "(\<lambda>e. (parent_node e, edge_name e)) ` set (output_edges k P) = (\<Union>j < length P. Pair (calc_ref (k + j)) ` port_names (snd (P ! j)))"
proof (induction k P rule: output_edges.induct)
  case (2 k ps qs P)
  have "(\<lambda>e. (parent_node e, edge_name e)) ` output_edge (calc_ref k) ` set qs = Pair (calc_ref k) ` port_names qs"
    unfolding image_image by (rule image_cong) (auto simp: output_edge_def)
  then show ?case by (simp add: image_Un UN_lessThan_Suc "2.IH")
qed simp

lemma side_inputs_set:
  "(\<lambda>e. (parent_node e, edge_name e)) ` set (side_inputs ns P) = (\<Union>x \<in> set P. Pair (fst x) ` port_names (fst (snd x)))"
proof (induction ns P rule: side_inputs.induct)
  case (2 ns m ps qs P)
  have "(\<lambda>e. (parent_node e, edge_name e)) ` side_input_edge m ns ` set ps = Pair m ` port_names ps"
    unfolding image_image by (rule image_cong) (auto simp: side_input_edge_def)
  then show ?case by (simp add: image_Un "2.IH")
qed simp

lemma side_outputs_set:
  "(\<lambda>e. (parent_node e, edge_name e)) ` set (side_outputs P) = (\<Union>x \<in> set P. Pair (fst x) ` port_names (snd (snd x)))"
proof (induction P rule: side_outputs.induct)
  case (2 m ps qs P)
  have "(\<lambda>e. (parent_node e, edge_name e)) ` output_edge m ` set qs = Pair m ` port_names qs"
    unfolding image_image by (rule image_cong) (auto simp: output_edge_def)
  then show ?case by (simp add: image_Un "2.IH")
qed simp

section \<open>The order of the nodes\<close>

text \<open>\<open>D\<close> leads forward in the list of nodes.\<close>

definition forward :: "nat list \<Rightarrow> (nat \<times> nat) set \<Rightarrow> bool" where
  "forward vs D \<longleftrightarrow> (\<forall>u \<in> set vs. (u, u) \<notin> D) \<and> sorted_wrt (\<lambda>u v. (v, u) \<notin> D) vs"

lemma sorted_wrt_conj: "sorted_wrt (\<lambda>x y. R x y \<and> S x y) xs \<longleftrightarrow> sorted_wrt R xs \<and> sorted_wrt S xs"
  by (induction xs) auto

lemma forward_Un: "forward vs (A \<union> B) \<longleftrightarrow> forward vs A \<and> forward vs B"
  by (auto simp: forward_def sorted_wrt_conj)

lemma sorted_wrt_only:
  assumes "\<And>u v. R u v \<or> p u \<and> p v"
  shows "sorted_wrt R (filter p xs) \<longleftrightarrow> sorted_wrt R xs"
proof (induction xs)
  case (Cons x xs)
  have "(\<forall>y \<in> set (filter p xs). R x y) \<longleftrightarrow> (\<forall>y \<in> set xs. R x y)" if "p x" using assms by auto
  moreover have "\<forall>y \<in> set xs. R x y" if "\<not> p x" using assms that by blast
  ultimately show ?case using Cons by auto
qed simp

lemma forward_only:
  assumes "\<And>u v. (u, v) \<in> D \<Longrightarrow> p u \<and> p v"
  shows "forward (filter p vs) D \<longleftrightarrow> forward vs D"
proof -
  have "sorted_wrt (\<lambda>u v. (v, u) \<notin> D) (filter p vs) \<longleftrightarrow> sorted_wrt (\<lambda>u v. (v, u) \<notin> D) vs"
    by (rule sorted_wrt_only) (use assms in blast)
  then show ?thesis using assms by (auto simp: forward_def)
qed

lemma forward_nth: "forward vs D \<longleftrightarrow> (\<forall>i < length vs. \<forall>j \<le> i. (vs ! i, vs ! j) \<notin> D)"
proof
  assume f: "forward vs D"
  show "\<forall>i < length vs. \<forall>j \<le> i. (vs ! i, vs ! j) \<notin> D"
  proof (intro allI impI)
    fix i j assume "i < length vs" "j \<le> i"
    then show "(vs ! i, vs ! j) \<notin> D" using f unfolding forward_def sorted_wrt_iff_nth_less by (cases "j = i") auto
  qed
next
  assume a: "\<forall>i < length vs. \<forall>j \<le> i. (vs ! i, vs ! j) \<notin> D"
  have "(u, u) \<notin> D" if "u \<in> set vs" for u using a that by (auto simp: in_set_conv_nth)
  moreover have "sorted_wrt (\<lambda>u v. (v, u) \<notin> D) vs" using a by (simp add: sorted_wrt_iff_nth_less)
  ultimately show "forward vs D" by (simp add: forward_def)
qed

lemma forward_acyclic:
  assumes "forward [0..<N] D" "D \<subseteq> {..<N} \<times> {..<N}"
  shows "acyclic D"
proof (rule acyclicI_order [of _ "\<lambda>a. - int a"])
  fix a b assume d: "(a, b) \<in> D"
  then have "a < N" "b < N" using assms(2) by auto
  have "\<not> b \<le> a"
  proof
    assume "b \<le> a"
    with assms(1) \<open>a < N\<close> have "([0..<N] ! a, [0..<N] ! b) \<notin> D" unfolding forward_nth by simp
    with d \<open>a < N\<close> \<open>b < N\<close> show False by simp
  qed
  then show "- int b < - int a" by simp
qed

text \<open>The names of different nodes differ.\<close>

lemma distinct_concat_nth:
  assumes "distinct (concat xs)" "i < length xs" "j < length xs" "x \<in> set (xs ! i)" "x \<in> set (xs ! j)"
  shows "i = j"
  using assms
proof (induction xs arbitrary: i j)
  case (Cons y ys)
  have sub: "set (ys ! k) \<subseteq> set (concat ys)" if "k < length ys" for k using nth_mem [OF that] by (simp add: UN_upper)
  show ?case
  proof (cases i)
    case 0
    show ?thesis
    proof (cases j)
      case (Suc j')
      then show ?thesis using 0 Cons.prems sub [of j'] by (auto simp del: set_concat)
    qed (simp add: 0)
  next
    case (Suc i')
    show ?thesis
    proof (cases j)
      case 0
      then show ?thesis using Suc Cons.prems sub [of i'] by (auto simp del: set_concat)
    next
      case j: (Suc j')
      have "i' = j'" by (rule Cons.IH) (use Suc j Cons.prems in auto)
      then show ?thesis by (simp add: Suc j)
    qed
  qed
qed simp

lemma output_names_nth:
  assumes "distinct (output_names P)" "i < length P" "j < length P" "n \<in> port_names (snd (P ! i))" "n \<in> port_names (snd (P ! j))"
  shows "i = j"
  using distinct_concat_nth [OF assms(1), of i j n] assms(2-) by (simp add: split_beta)

lemma output_names_set: "set (output_names P) = (\<Union>i < length P. port_names (snd (P ! i)))"
  unfolding UN_nth [symmetric, of "\<lambda>x. port_names (snd x)"] by (simp add: split_beta)

text \<open>That one input stream of the second node is not a back edge and comes from the first.\<close>

definition stream_feeds :: "stream_ports \<Rightarrow> stream_ports \<Rightarrow> bool" where
  "stream_feeds p q \<longleftrightarrow> (\<exists>(n, a, back) \<in> set (fst q). \<not> back \<and> n \<in> port_names (snd p))"

lemma stream_feedsE:
  assumes "stream_feeds p q"
  obtains n a where "(n, a, False) \<in> set (fst q)" "n \<in> port_names (snd p)"
proof -
  from assms obtain t where t: "t \<in> set (fst q)" "case t of (n, a, back) \<Rightarrow> \<not> back \<and> n \<in> port_names (snd p)" unfolding stream_feeds_def by (rule bexE)
  obtain n a b where e: "t = (n, a, b)" by (cases t)
  from t(2) have "\<not> b" "n \<in> port_names (snd p)" unfolding e by simp_all
  then show thesis using that [of n a] t(1) unfolding e by simp
qed

lemma stream_feedsI: "(n, a, False) \<in> set (fst q) \<Longrightarrow> n \<in> port_names (snd p) \<Longrightarrow> stream_feeds p q"
  unfolding stream_feeds_def by (rule bexI [of _ "(n, a, False)"]) simp_all

definition inputs_known :: "string list \<Rightarrow> stream_ports list \<Rightarrow> bool" where
  "inputs_known ns P \<longleftrightarrow> (\<forall>p \<in> set P. \<forall>(n, a, back) \<in> set (fst p). \<not> back \<longrightarrow> n \<in> set (ns @ output_names P))"

lemma all_found_order:
  assumes "distinct (ns @ output_names P)"
  shows "all_found ns P \<longleftrightarrow> inputs_known ns P \<and> (\<forall>i < length P. \<forall>j \<le> i. \<not> stream_feeds (P ! i) (P ! j))"
proof
  assume f: "all_found ns P"
  have "n \<in> set (ns @ output_names P)" if p: "p \<in> set P" "(n, a, b) \<in> set (fst p)" "\<not> b" for p n a b
  proof -
    obtain j where j: "j < length P" "p = P ! j" using p(1) unfolding in_set_conv_nth by blast
    with f p(2,3) have "n \<in> set ns \<or> (\<exists>i < j. n \<in> port_names (snd (P ! i)))" unfolding all_found_iff by fastforce
    then show ?thesis
    proof
      assume "\<exists>i < j. n \<in> port_names (snd (P ! i))"
      then obtain i where "i < length P" "n \<in> port_names (snd (P ! i))" using j(1) less_trans by blast
      then show ?thesis unfolding set_append output_names_set by blast
    qed simp
  qed
  moreover have "\<not> stream_feeds (P ! i) (P ! j)" if "i < length P" "j \<le> i" for i j
  proof
    assume "stream_feeds (P ! i) (P ! j)"
    then obtain n a where n: "(n, a, False) \<in> set (fst (P ! j))" "n \<in> port_names (snd (P ! i))" by (rule stream_feedsE)
    have "j < length P" using that by simp
    with f n(1) have "n \<in> set ns \<or> (\<exists>k < j. n \<in> port_names (snd (P ! k)))" unfolding all_found_iff by fastforce
    moreover have "n \<notin> set ns" using assms n(2) that(1) unfolding distinct_append output_names_set by blast
    ultimately obtain k where "k < j" "n \<in> port_names (snd (P ! k))" by blast
    moreover have "distinct (output_names P)" using assms unfolding distinct_append by blast
    ultimately show False using output_names_nth [of P k i n] n(2) that by simp
  qed
  ultimately show "inputs_known ns P \<and> (\<forall>i < length P. \<forall>j \<le> i. \<not> stream_feeds (P ! i) (P ! j))" unfolding inputs_known_def by blast
next
  assume a: "inputs_known ns P \<and> (\<forall>i < length P. \<forall>j \<le> i. \<not> stream_feeds (P ! i) (P ! j))"
  have "b \<or> n \<in> set ns \<or> (\<exists>i < j. n \<in> port_names (snd (P ! i)))" if j: "j < length P" "(n, t, b) \<in> set (fst (P ! j))" for j n t b
  proof (rule ccontr)
    assume c: "\<not> ?thesis"
    then have "n \<in> set (ns @ output_names P)" using a j unfolding inputs_known_def by fastforce
    then obtain i where i: "i < length P" "n \<in> port_names (snd (P ! i))" using c unfolding set_append output_names_set by blast
    then have "\<not> i < j" using c by blast
    then have "\<not> stream_feeds (P ! i) (P ! j)" using a i(1) by simp
    moreover have "(n, t, False) \<in> set (fst (P ! j))" using j(2) c by simp
    ultimately show False using stream_feedsI i(2) by blast
  qed
  then show "all_found ns P" unfolding all_found_iff by blast
qed

text \<open>What the nodes have, in the order of their indices in the sorter: the side packets of all, and the streams of the calculators, which come after the generators.\<close>

type_synonym side_ports = "(string \<times> nat) list \<times> (string \<times> nat) list"

definition side_feeds :: "side_ports \<Rightarrow> side_ports \<Rightarrow> bool" where
  "side_feeds p q \<longleftrightarrow> port_names (snd p) \<inter> port_names (fst q) \<noteq> {}"

definition dependencies :: "side_ports list \<Rightarrow> nat \<Rightarrow> stream_ports list \<Rightarrow> (nat \<times> nat) set" where
  "dependencies S ng P = {(u, v). u < length S \<and> v < length S \<and>
     (side_feeds (S ! u) (S ! v) \<or> ng \<le> u \<and> ng \<le> v \<and> stream_feeds (P ! (u - ng)) (P ! (v - ng)))}"

definition side_list :: "nat \<Rightarrow> side_ports list \<Rightarrow> nat list \<Rightarrow> side_node list" where
  "side_list ng S vs = zip (sorted_refs ng 0 0 vs) (map (nth S) vs)"

definition calc_order :: "nat \<Rightarrow> nat list \<Rightarrow> nat list" where
  "calc_order ng vs = map (\<lambda>v. v - ng) (filter (\<lambda>v. \<not> v < ng) vs)"

abbreviation side_port_names :: "side_ports list \<Rightarrow> string list" where
  "side_port_names S \<equiv> concat (map (\<lambda>(ps, qs). map fst qs) S)"

lemma length_sorted_refs [simp]: "length (sorted_refs ng k c vs) = length vs"
  by (induction ng k c vs rule: sorted_refs.induct) auto

lemma mset_concat_map: "mset xs = mset ys \<Longrightarrow> mset (concat (map f xs)) = mset (concat (map f ys))"
proof -
  have "mset (concat (map f zs)) = (\<Sum>x \<in># mset zs. mset (f x))" for zs by (induction zs) auto
  then show "mset xs = mset ys \<Longrightarrow> mset (concat (map f xs)) = mset (concat (map f ys))" by simp
qed

lemma reordered_mset:
  assumes "distinct vs" "set vs = {..<length xs}"
  shows "mset (map (nth xs) vs) = mset xs"
proof -
  have "mset vs = mset [0..<length xs]" using set_eq_iff_mset_eq_distinct [of vs "[0..<length xs]"] assms by (simp add: lessThan_atLeast0)
  then have "mset (map (nth xs) vs) = mset (map (nth xs) [0..<length xs])" by (simp only: mset_map)
  then show ?thesis by (simp only: map_nth)
qed

lemma calc_order_all:
  assumes "distinct vs" "set vs = {..<ng + nc}"
  shows "distinct (calc_order ng vs)" "set (calc_order ng vs) = {..<nc}"
proof -
  have "inj_on (\<lambda>v. v - ng) (set (filter (\<lambda>v. \<not> v < ng) vs))" by (rule inj_onI) (simp add: not_less, linarith)
  then show "distinct (calc_order ng vs)" unfolding calc_order_def using assms(1) by (simp add: distinct_map)
  show "set (calc_order ng vs) = {..<nc}"
  proof (intro equalityI subsetI)
    fix x assume "x \<in> {..<nc}"
    then have "x + ng \<in> set vs" using assms(2) by simp
    then show "x \<in> set (calc_order ng vs)" unfolding calc_order_def by (force simp: image_iff)
  qed (auto simp: calc_order_def assms(2))
qed

lemma side_list_names: "side_output_names (side_list ng S vs) = side_port_names (map (nth S) vs)"
proof -
  have "map (\<lambda>(n, ps, qs). map fst qs) (side_list ng S vs) = map (\<lambda>(ps, qs). map fst qs) (map snd (side_list ng S vs))" by (simp add: split_beta)
  also have "map snd (side_list ng S vs) = map (nth S) vs" by (simp add: side_list_def)
  finally show ?thesis by simp
qed

lemma reordered_distinct:
  assumes "distinct vs" "set vs = {..<length S}" "length S = ng + length P"
  shows "distinct (side_output_names (side_list ng S vs)) \<longleftrightarrow> distinct (side_port_names S)"
    and "distinct (ns @ output_names (map (nth P) (calc_order ng vs))) \<longleftrightarrow> distinct (ns @ output_names P)"
    and "set (output_names (map (nth P) (calc_order ng vs))) = set (output_names P)"
proof -
  have "mset (side_port_names (map (nth S) vs)) = mset (side_port_names S)" by (rule mset_concat_map [OF reordered_mset [OF assms(1,2)]])
  then show "distinct (side_output_names (side_list ng S vs)) \<longleftrightarrow> distinct (side_port_names S)"
    unfolding side_list_names by (rule mset_eq_imp_distinct_iff)
  have "distinct (calc_order ng vs)" "set (calc_order ng vs) = {..<length P}" using calc_order_all assms by auto
  from mset_concat_map [OF reordered_mset [OF this]]
  have m: "mset (output_names (map (nth P) (calc_order ng vs))) = mset (output_names P)" .
  then show "set (output_names (map (nth P) (calc_order ng vs))) = set (output_names P)" by (rule mset_eq_setD)
  from m have "mset (ns @ output_names (map (nth P) (calc_order ng vs))) = mset (ns @ output_names P)" unfolding mset_append by simp
  then show "distinct (ns @ output_names (map (nth P) (calc_order ng vs))) \<longleftrightarrow> distinct (ns @ output_names P)" by (rule mset_eq_imp_distinct_iff)
qed

lemma reordered_known:
  fixes S :: "side_ports list"
  assumes "distinct vs" "set vs = {..<length S}" "length S = ng + length P"
  shows "inputs_known ns (map (nth P) (calc_order ng vs)) \<longleftrightarrow> inputs_known ns P"
proof -
  have "distinct (calc_order ng vs)" "set (calc_order ng vs) = {..<length P}" using calc_order_all assms by auto
  from mset_eq_setD [OF reordered_mset [OF this]] have "set (map (nth P) (calc_order ng vs)) = set P" .
  then show ?thesis unfolding inputs_known_def set_append reordered_distinct(3) [OF assms] by (rule ball_cong) simp
qed

text \<open>A pass in the order \<open>vs\<close> needs no sorting if every stream is known and the order leads forward.\<close>

lemma pass_ordered:
  assumes vs: "distinct vs" "set vs = {..<length S}" "length S = ng + length P"
    and names: "distinct (side_port_names S)" "distinct (ns @ output_names P)"
  shows "side_ordered {} [] (side_list ng S vs) \<and> all_found ns (map (nth P) (calc_order ng vs)) \<longleftrightarrow>
    inputs_known ns P \<and> forward vs (dependencies S ng P)"
proof -
  define A where "A = {(u, v). u < length S \<and> v < length S \<and> side_feeds (S ! u) (S ! v)}"
  define B where "B = {(u, v). u < length S \<and> v < length S \<and> ng \<le> u \<and> ng \<le> v \<and> stream_feeds (P ! (u - ng)) (P ! (v - ng))}"
  have AB: "dependencies S ng P = A \<union> B" unfolding dependencies_def A_def B_def by blast
  have "distinct ([] @ side_output_names (side_list ng S vs))" using names(1) reordered_distinct(1) [OF vs] by simp
  from side_ordered_iff [OF this] have "side_ordered {} [] (side_list ng S vs) \<longleftrightarrow>
      (\<forall>i < length vs. \<forall>j \<le> i. \<not> side_feeds (S ! (vs ! i)) (S ! (vs ! j)))"
    by (simp add: side_list_def side_feeds_def)
  also have "\<dots> \<longleftrightarrow> forward vs A"
  proof -
    have "vs ! i < length S" if "i < length vs" for i using vs(2) nth_mem [OF that] by simp
    then show ?thesis unfolding forward_nth A_def by (auto intro: le_less_trans)
  qed
  finally have side: "side_ordered {} [] (side_list ng S vs) \<longleftrightarrow> forward vs A" .
  define cs where "cs = filter (\<lambda>v. \<not> v < ng) vs"
  have co: "calc_order ng vs = map (\<lambda>v. v - ng) cs" by (simp add: calc_order_def cs_def)
  have len: "length (calc_order ng vs) = length cs" by (simp add: co)
  have at: "map (nth P) (calc_order ng vs) ! i = P ! (cs ! i - ng)" if "i < length cs" for i using that by (simp add: co)
  have "all_found ns (map (nth P) (calc_order ng vs)) \<longleftrightarrow> inputs_known ns P \<and>
      (\<forall>i < length cs. \<forall>j \<le> i. \<not> stream_feeds (P ! (cs ! i - ng)) (P ! (cs ! j - ng)))"
  proof -
    have "stream_feeds (map (nth P) (calc_order ng vs) ! i) (map (nth P) (calc_order ng vs) ! j) \<longleftrightarrow> stream_feeds (P ! (cs ! i - ng)) (P ! (cs ! j - ng))"
      if "i < length cs" "j \<le> i" for i j using at [OF that(1)] at [OF le_less_trans [OF that(2,1)]] by (simp only:)
    then show ?thesis
      unfolding all_found_order [OF reordered_distinct(2) [OF vs, THEN iffD2, OF names(2)]] reordered_known [OF vs] length_map len by blast
  qed
  also have "\<dots> \<longleftrightarrow> inputs_known ns P \<and> forward cs B"
  proof -
    have "cs ! i < length S \<and> ng \<le> cs ! i" if "i < length cs" for i using vs(2) nth_mem [OF that] by (auto simp: cs_def)
    then show ?thesis unfolding forward_nth B_def by (auto intro: le_less_trans)
  qed
  also have "forward cs B \<longleftrightarrow> forward vs B" unfolding cs_def by (rule forward_only) (auto simp: B_def)
  finally show ?thesis unfolding side AB forward_Un by blast
qed

end
