(* ===== verification/Graph_Wiring.thy ===== *)
theory Graph_Wiring
  imports Wiring_Order
begin

text \<open>
  The wiring of a graph as a whole: a first pass in the order the nodes were given, if need be the topological sort and a second pass, and the back edges.
  \<open>wire_result\<close> says when it succeeds and what it gives.
\<close>

section \<open>One pass over the graph\<close>

definition same_nodes :: "graph \<Rightarrow> graph \<Rightarrow> bool" where
  "same_nodes g g' \<longleftrightarrow> map bare (calculators g') = map bare (calculators g) \<and> map bare (generators g') = map bare (generators g) \<and>
     map bare (status_handlers g') = map bare (status_handlers g) \<and> config g' = config g \<and> sorted_nodes g' = sorted_nodes g"

lemma same_nodes_trans: "same_nodes g g' \<Longrightarrow> same_nodes g' g'' \<Longrightarrow> same_nodes g g''"
  by (simp add: same_nodes_def)

lemma same_nodes_stream: "streams_from g g' \<Longrightarrow> same_nodes g g'"
  unfolding streams_from_def same_nodes_def using stream_rest_fields by (metis (no_types))

lemma side_rest_fields:
  assumes "side_rest g' = side_rest g"
  shows "config g' = config g" "sorted_nodes g' = sorted_nodes g" "packet_types g' = packet_types g" "stream_to_producer g' = stream_to_producer g"
    "input_streams g' = input_streams g" "output_streams g' = output_streams g"
  using assms unfolding side_rest_def by (cases g; cases g'; simp)+

lemma same_nodes_side: "side_from g g' \<Longrightarrow> same_nodes g g'"
  unfolding side_from_def same_nodes_def using side_rest_fields by blast

lemma same_nodes_length:
  "same_nodes g g' \<Longrightarrow> length (calculators g') = length (calculators g) \<and> length (generators g') = length (generators g) \<and>
     length (status_handlers g') = length (status_handlers g)"
  unfolding same_nodes_def by (metis length_map)

lemma same_nodes_ports:
  assumes "same_nodes g g'" "k < length (calculators g)"
  shows "node_ports g' k = node_ports g k" "info_node (calculators g' ! k) = info_node (calculators g ! k)"
proof -
  have b: "bare (calculators g' ! k) = bare (calculators g ! k)" using assms bare_at unfolding same_nodes_def by blast
  have c: "config g' = config g" using assms(1) unfolding same_nodes_def by blast
  show "info_node (calculators g' ! k) = info_node (calculators g ! k)" using arg_cong [OF b, of info_node] by simp
  show "node_ports g' k = node_ports g k"
    using arg_cong [OF b, of InputStreamTypes] arg_cong [OF b, of OutputStreamTypes] by (simp add: node_ports_def c split: sum.splits)
qed

lemma same_nodes_all: "same_nodes g g' \<Longrightarrow> all_nodes_are g P \<Longrightarrow> all_nodes_are g' P"
  using same_nodes_ports same_nodes_length by (simp add: all_nodes_are_def nodes_are_def)

text \<open>The graph \<open>h\<close> has its nodes in the order \<open>vs\<close>.\<close>

definition in_order :: "string list \<Rightarrow> side_ports list \<Rightarrow> stream_ports list \<Rightarrow> nat list \<Rightarrow> graph \<Rightarrow> bool" where
  "in_order ns S P vs h \<longleftrightarrow> sorted_nodes h = sorted_refs (length (generators h)) 0 0 vs \<and>
     (\<forall>x \<in> set (side_list (length (generators h)) S vs). side_node_is h x) \<and>
     all_nodes_are h (map (nth P) (calc_order (length (generators h)) vs)) \<and> handlers_ok h \<and> streams_named h ns \<and>
     no_streams h \<and> no_side_packets h"

abbreviation any_type :: PacketType where
  "any_type \<equiv> \<lparr>type_spec = SpecialType AcceptAny, is_optional = False\<rparr>"

definition entered :: "graph \<Rightarrow> string list \<Rightarrow> side_node list \<Rightarrow> stream_ports list \<Rightarrow> EdgeInfo list \<Rightarrow> graph \<Rightarrow> bool" where
  "entered h ns L Q H g \<longleftrightarrow> same_nodes h g \<and> names_entered g \<and> side_entered g \<and>
     output_streams g = graph_inputs h ns @ output_edges 0 Q \<and> input_streams g = input_edges ns 0 Q \<and>
     output_side_packets g = side_outputs L \<and> input_side_packets g = side_inputs [] L @ H \<and>
     (\<forall>k < length Q. bases g ! k = int (sum_list (map (\<lambda>p. length (fst p)) (take k Q)))) \<and>
     packet_types g = packet_types h @ replicate (length ns) any_type"

lemma pass_result:
  assumes h: "in_order ns S P vs h" and need: "need \<noteq> Some True"
  defines "L \<equiv> side_list (length (generators h)) S vs" and "Q \<equiv> map (nth P) (calc_order (length (generators h)) vs)"
  defines "ordered \<equiv> side_ordered {} [] L \<and> all_found ns Q"
  shows "distinct (side_output_names L) \<Longrightarrow> distinct (ns @ output_names Q) \<Longrightarrow> need \<noteq> None \<or> ordered \<Longrightarrow>
      \<exists>need1 g1 g2 H. InitializeSidePacketInfo (need, h) = Inr (need1, g1) \<and>
        InitializeStreamInfo (need1, g1) = Inr (if ordered then need else Some True, g2) \<and> entered h ns L Q H g2 \<and>
        H = (if side_ordered {} [] L then concat (map (handler_inputs h (side_output_names L)) [0..<length (status_handlers h)]) else [])"
    and "\<not> (distinct (side_output_names L) \<and> distinct (ns @ output_names Q) \<and> (need \<noteq> None \<or> ordered)) \<Longrightarrow>
      (\<exists>e. InitializeSidePacketInfo (need, h) = Inl e) \<or>
      (\<exists>need1 g1 e. InitializeSidePacketInfo (need, h) = Inr (need1, g1) \<and> InitializeStreamInfo (need1, g1) = Inl e)"
proof -
  have sorted: "sorted_nodes h = map fst L" and L: "\<forall>x \<in> set L. side_node_is h x" and Q: "all_nodes_are h Q" and hs: "handlers_ok h"
    and named: "streams_named h ns" and none: "no_streams h" "no_side_packets h"
    using h unfolding in_order_def L_def Q_def by (simp_all add: side_list_def)
  note side = InitializeSidePacketInfo_result [OF none(2) hs sorted L, of need]
  have later: "no_streams g1 \<and> streams_named g1 ns \<and> all_nodes_are g1 Q \<and> graph_inputs g1 ns = graph_inputs h ns \<and>
      packet_types g1 = packet_types h" if "side_from h g1" for g1
  proof -
    have r: "side_rest g1 = side_rest h" using that unfolding side_from_def by blast
    note f = side_rest_fields [OF r]
    show ?thesis using none(1) named same_nodes_all [OF same_nodes_side [OF that] Q]
      by (simp add: no_streams_def streams_named_def graph_inputs_def graph_input_ref_def [abs_def] f)
  qed
  show "\<exists>need1 g1 g2 H. InitializeSidePacketInfo (need, h) = Inr (need1, g1) \<and>
        InitializeStreamInfo (need1, g1) = Inr (if ordered then need else Some True, g2) \<and> entered h ns L Q H g2 \<and>
        H = (if side_ordered {} [] L then concat (map (handler_inputs h (side_output_names L)) [0..<length (status_handlers h)]) else [])"
    if d: "distinct (side_output_names L)" "distinct (ns @ output_names Q)" "need \<noteq> None \<or> ordered"
  proof -
    define H where "H = (if side_ordered {} [] L then concat (map (handler_inputs h (side_output_names L)) [0..<length (status_handlers h)]) else [])"
    define need1 where "need1 = (if side_ordered {} [] L then need else Some True)"
    have "need \<noteq> None \<or> side_ordered {} [] L" using d(3) unfolding ordered_def by blast
    from side(1) [OF d(1) this] obtain g1 where g1: "InitializeSidePacketInfo (need, h) = Inr (need1, g1)" "side_state g1"
      "output_side_packets g1 = side_outputs L" "side_from h g1" "input_side_packets g1 = side_inputs [] L @ H"
      using need by (auto simp: need1_def H_def)
    note g1' = later [OF g1(4)]
    have "need1 \<noteq> None \<or> all_found ns Q" using d(3) by (auto simp: need1_def ordered_def)
    from InitializeStreamInfo_result(1) [OF g1' [THEN conjunct1] g1' [THEN conjunct2, THEN conjunct1] g1' [THEN conjunct2, THEN conjunct2, THEN conjunct1] d(2) this]
    obtain g2 where g2: "InitializeStreamInfo (need1, g1) = Inr (if all_found ns Q then need1 else Some True, g2)" "names_entered g2"
      "output_streams g2 = graph_inputs g1 ns @ output_edges 0 Q" "input_streams g2 = input_edges ns 0 Q" "streams_from g1 g2"
      "bases g2 = bases_from (bases g1) 0 0 Q" "packet_types g2 = packet_types g1 @ replicate (length ns) any_type" by blast
    have "length Q = length (calculators g1)" using g1' unfolding all_nodes_are_def by blast
    then have starts: "\<forall>k < length Q. bases g2 ! k = int (sum_list (map (\<lambda>p. length (fst p)) (take k Q)))"
      using bases_from_nth [of 0 Q "bases g1" 0] unfolding g2(6) by simp
    have "(if all_found ns Q then need1 else Some True) = (if ordered then need else Some True)" by (simp add: need1_def ordered_def)
    moreover have "entered h ns L Q H g2"
    proof -
      have "stream_rest g2 = stream_rest g1" using g2(5) unfolding streams_from_def by blast
      note f = stream_rest_fields [OF this]
      have "side_entered g2" using g1(2) f unfolding side_state_def side_entered_def by simp
      moreover have "same_nodes h g2" using same_nodes_trans [OF same_nodes_side [OF g1(4)] same_nodes_stream [OF g2(5)]] .
      ultimately show ?thesis unfolding entered_def using g1(3,5) g2(2,3,4,7) g1' f starts by simp
    qed
    ultimately show ?thesis using g1(1) g2(1) H_def by auto
  qed
  show "(\<exists>e. InitializeSidePacketInfo (need, h) = Inl e) \<or>
      (\<exists>need1 g1 e. InitializeSidePacketInfo (need, h) = Inr (need1, g1) \<and> InitializeStreamInfo (need1, g1) = Inl e)"
    if c: "\<not> (distinct (side_output_names L) \<and> distinct (ns @ output_names Q) \<and> (need \<noteq> None \<or> ordered))"
  proof (cases "distinct (side_output_names L) \<and> (need \<noteq> None \<or> side_ordered {} [] L)")
    case False
    from side(2) [OF this] show ?thesis by blast
  next
    case True
    define need1 where "need1 = (if side_ordered {} [] L then need else Some True)"
    from side(1) True obtain g1 where g1: "InitializeSidePacketInfo (need, h) = Inr (need1, g1)" "side_from h g1"
      unfolding need1_def by blast
    note g1' = later [OF g1(2)]
    have "\<not> (distinct (ns @ output_names Q) \<and> (need1 \<noteq> None \<or> all_found ns Q))"
    proof
      assume a: "distinct (ns @ output_names Q) \<and> (need1 \<noteq> None \<or> all_found ns Q)"
      then have "need \<noteq> None \<or> ordered" using True by (auto simp: need1_def ordered_def)
      with a True c show False by blast
    qed
    from InitializeStreamInfo_result(2) [OF g1' [THEN conjunct1] g1' [THEN conjunct2, THEN conjunct1] g1' [THEN conjunct2, THEN conjunct2, THEN conjunct1] this]
    show ?thesis using g1(1) by blast
  qed
qed

section \<open>The nodes in the order they were given\<close>

definition gen_ref :: "nat \<Rightarrow> NodeRef" where
  "gen_ref k = \<lparr>ref_type = PACKET_GENERATOR, ref_index = int k\<rparr>"

lemma gen_ref_simps [simp]: "ref_type (gen_ref k) = PACKET_GENERATOR" "ref_index (gen_ref k) = int k"
  by (simp_all add: gen_ref_def)

lemma info_at_gen: "info_at g (gen_ref k) = generators g ! k"
  by (simp add: info_at_def)

definition node_ref :: "nat \<Rightarrow> nat \<Rightarrow> NodeRef" where
  "node_ref ng v = (if v < ng then gen_ref v else calc_ref (v - ng))"

definition side_ports_of :: "graph \<Rightarrow> side_ports list" where
  "side_ports_of g = map (\<lambda>i. (ports (InputSidePacketTypes i), ports (OutputSidePacketTypes i))) (generators g @ calculators g)"

text \<open>A graph before it is wired: \<open>ns\<close> are the names of its input streams, \<open>P\<close> the streams of its calculators.\<close>

definition graph_ready :: "graph \<Rightarrow> string list \<Rightarrow> stream_ports list \<Rightarrow> bool" where
  "graph_ready g ns P \<longleftrightarrow> (\<forall>k < length (generators g). info_node (generators g ! k) = gen_ref k) \<and> all_nodes_are g P \<and> handlers_ok g \<and>
     streams_named g ns \<and> no_streams g \<and> no_side_packets g \<and> length (config_nodes (config g)) = length (calculators g)"

lemma sorted_refs_gens: "\<forall>v \<in> set vs. v < ng \<Longrightarrow> sorted_refs ng k c (vs @ ws) = map gen_ref [k..<k + length vs] @ sorted_refs ng (k + length vs) c ws"
proof (induction vs arbitrary: k)
  case (Cons v vs)
  then show ?case by (simp add: gen_ref_def upt_conv_Cons del: upt_Suc)
qed simp

lemma sorted_refs_calcs: "\<forall>v \<in> set vs. \<not> v < ng \<Longrightarrow> sorted_refs ng k c vs = map calc_ref [c..<c + length vs]"
proof (induction vs arbitrary: c)
  case (Cons v vs)
  then show ?case by (simp add: calc_ref_def upt_conv_Cons del: upt_Suc)
qed simp

lemma upt_split: "[0..<ng + nc] = [0..<ng] @ [ng..<ng + nc]"
  by (rule upt_add_eq_append) simp

lemma sorted_refs_upt: "sorted_refs ng 0 0 [0..<ng + nc] = map (node_ref ng) [0..<ng + nc]"
proof -
  have "sorted_refs ng 0 0 [0..<ng + nc] = map gen_ref [0..<ng] @ map calc_ref [0..<nc]"
    unfolding upt_split by (simp add: sorted_refs_gens sorted_refs_calcs)
  also have "\<dots> = map (node_ref ng) [0..<ng + nc]" by (rule nth_equalityI) (auto simp: node_ref_def nth_append)
  finally show ?thesis .
qed

lemma calc_order_upt: "calc_order ng [0..<ng + nc] = [0..<nc]"
proof -
  have "filter (\<lambda>v. \<not> v < ng) [0..<ng + nc] = [ng..<ng + nc]" unfolding upt_split filter_append by (simp add: filter_empty_conv)
  then show ?thesis unfolding calc_order_def by (intro nth_equalityI) simp_all
qed

lemma side_list_upt: "length S = ng + nc \<Longrightarrow> side_list ng S [0..<length S] = map (\<lambda>v. (node_ref ng v, S ! v)) [0..<length S]"
  unfolding side_list_def by (intro nth_equalityI) (simp_all add: sorted_refs_upt)

lemma ready_length: "graph_ready g ns P \<Longrightarrow> length (side_ports_of g) = length (generators g) + length P"
  by (simp add: graph_ready_def all_nodes_are_def side_ports_of_def)

lemma ready_calcs:
  assumes "graph_ready g ns P" "k < length (calculators g)"
  shows "info_node (calculators g ! k) = calc_ref k" "node_ports g k = Inr (P ! k)"
proof -
  have "nodes_are g 0 P" "length P = length (calculators g)" using assms(1) unfolding graph_ready_def all_nodes_are_def by blast+
  with assms(2) show "info_node (calculators g ! k) = calc_ref k" "node_ports g k = Inr (P ! k)" unfolding nodes_are_def by simp_all
qed

text \<open>The nodes with their ports, at the index of the sorter.\<close>

lemma node_ref_is:
  assumes "v < length (generators g) + length (calculators g)"
  shows "side_node_is g (node_ref (length (generators g)) v, side_ports_of g ! v)"
  using assms by (auto simp: side_node_is_def node_ref_def side_ports_of_def nth_append ref_ok_def info_at_gen nat_less_iff)

lemma initial_order_result:
  assumes "graph_ready g ns P"
  shows "\<exists>r. initial_order g = Inr (g\<lparr>sorted_nodes := r\<rparr>) \<and> in_order ns (side_ports_of g) P [0..<length (side_ports_of g)] (g\<lparr>sorted_nodes := r\<rparr>)"
proof -
  define ng where "ng = length (generators g)"
  define nc where "nc = length (calculators g)"
  define g0 where "g0 = g\<lparr>sorted_nodes := map info_node (generators g) @ map info_node (calculators g)\<rparr>"
  have gens: "info_node (generators g ! k) = gen_ref k" if "k < ng" for k using assms that unfolding graph_ready_def ng_def by blast
  have calcs: "info_node (calculators g ! k) = calc_ref k" if "k < nc" for k using ready_calcs [OF assms] that unfolding nc_def by blast
  have P: "all_nodes_are g P" "length P = nc" using assms unfolding graph_ready_def all_nodes_are_def nc_def by auto
  have step: "initial_order g = Inr g0"
    unfolding initial_order_def g0_def using gens calcs by (simp add: list_all2_conv_all_nth gen_ref_def calc_ref_def ng_def nc_def)
  have S: "length (side_ports_of g) = ng + nc" by (simp add: side_ports_of_def ng_def nc_def)
  have refs: "map info_node (generators g) @ map info_node (calculators g) = map (node_ref ng) [0..<ng + nc]"
    by (rule nth_equalityI) (auto simp: ng_def [symmetric] nc_def [symmetric] nth_append node_ref_def gens calcs)
  have same: "info_at g0 n = info_at g n" "ref_ok g0 n = ref_ok g n" for n by (simp_all add: g0_def info_at_def ref_ok_def cong: NodeType.case_cong)
  have np: "node_ports g0 = node_ports g" "calculators g0 = calculators g"
    by (rule ext) (simp_all add: node_ports_def g0_def cong: sum.case_cong)
  have "side_node_is g0 x" if x: "x \<in> set (side_list ng (side_ports_of g) [0..<length (side_ports_of g)])" for x
  proof -
    obtain v where "v < ng + nc" "x = (node_ref ng v, side_ports_of g ! v)" using x unfolding S side_list_upt [OF S, unfolded S] by auto
    then show ?thesis using node_ref_is [of v g] unfolding side_node_is_def same ng_def nc_def by simp
  qed
  moreover have "all_nodes_are g0 (map (nth P) (calc_order ng [0..<length (side_ports_of g)]))"
    using P(1) unfolding S calc_order_upt P(2) [symmetric] map_nth by (simp add: all_nodes_are_def nodes_are_def np)
  moreover have "handlers_ok g0 \<and> streams_named g0 ns \<and> no_streams g0 \<and> no_side_packets g0"
    using assms by (simp add: graph_ready_def g0_def handlers_ok_def streams_named_def no_streams_def no_side_packets_def)
  moreover have "sorted_nodes g0 = sorted_refs ng 0 0 [0..<length (side_ports_of g)]" unfolding S sorted_refs_upt g0_def refs by simp
  moreover have "length (generators g0) = ng" by (simp add: g0_def ng_def)
  ultimately have "in_order ns (side_ports_of g) P [0..<length (side_ports_of g)] g0" unfolding in_order_def by simp
  then show ?thesis using step unfolding g0_def by blast
qed

section \<open>The edges that are sorted\<close>

lemma stream_edge_set:
  assumes "names_entered g"
  shows "set (stream_edge g e) = {(SorterIndexForNode g (parent_node x), SorterIndexForNode g (parent_node e)) | x.
    x \<in> set (output_streams g) \<and> edge_name x = edge_name e \<and> ref_type (parent_node x) \<noteq> GRAPH_INPUT_STREAM \<and> \<not> back_edge e}"
proof (cases "name_map (stream_names g) (edge_name e)")
  case None
  then have "edge_name e \<notin> edge_name ` set (output_streams g)" unfolding name_map_None by simp
  then have "\<And>x. x \<in> set (output_streams g) \<Longrightarrow> edge_name x \<noteq> edge_name e" by (metis imageI)
  then show ?thesis using None assms by (auto simp: stream_edge_def names_entered_def)
next
  case (Some p)
  have d: "distinct (stream_names g)" "stream_to_producer g = name_map (stream_names g)" using assms by (simp_all add: names_entered_def)
  from Some have p: "nat p < length (output_streams g)" "edge_name (output_streams g ! nat p) = edge_name e"
    unfolding name_map_Some [OF d(1)] by auto
  have "x = output_streams g ! nat p" if x: "x \<in> set (output_streams g)" "edge_name x = edge_name e" for x
    using d(1) x p nth_mem [OF p(1)] unfolding distinct_map inj_on_def by (metis (no_types))
  then show ?thesis using Some p nth_mem [OF p(1)] unfolding stream_edge_def d(2) by auto
qed

lemma side_edge_set:
  assumes "side_entered g"
  shows "set (side_packet_edge g e) = {(SorterIndexForNode g (parent_node x), SorterIndexForNode g (parent_node e)) | x.
    x \<in> set (output_side_packets g) \<and> edge_name x = edge_name e \<and> ref_type (parent_node e) \<in> {PACKET_GENERATOR, CALCULATOR}}"
proof (cases "name_map (side_names g) (edge_name e)")
  case None
  then have "edge_name e \<notin> edge_name ` set (output_side_packets g)" unfolding name_map_None by simp
  then have "\<And>x. x \<in> set (output_side_packets g) \<Longrightarrow> edge_name x \<noteq> edge_name e" by (metis imageI)
  then show ?thesis using None assms by (auto simp: side_packet_edge_def side_entered_def)
next
  case (Some p)
  have d: "distinct (side_names g)" "side_packet_to_producer g = name_map (side_names g)" using assms by (simp_all add: side_entered_def)
  from Some have p: "nat p < length (output_side_packets g)" "edge_name (output_side_packets g ! nat p) = edge_name e"
    unfolding name_map_Some [OF d(1)] by auto
  have "x = output_side_packets g ! nat p" if x: "x \<in> set (output_side_packets g)" "edge_name x = edge_name e" for x
    using d(1) x p nth_mem [OF p(1)] unfolding distinct_map inj_on_def by (metis (no_types))
  then show ?thesis using Some p nth_mem [OF p(1)] unfolding side_packet_edge_def d(2) by auto
qed

lemma those_map: "\<forall>x \<in> set xs. f x \<noteq> None \<Longrightarrow> those (map f xs) = Some (map (\<lambda>x. the (f x)) xs)"
  by (induction xs) auto

lemma SorterIndex_node [simp]:
  "SorterIndexForNode g (calc_ref k) = Some (int (length (generators g)) + int k)"
  "SorterIndexForNode g (node_ref (length (generators g)) v) = Some (int v)"
  by (simp_all add: SorterIndexForNode_def node_ref_def)

lemma node_ref_type [simp]: "ref_type (node_ref ng v) \<in> {PACKET_GENERATOR, CALCULATOR}"
  by (simp add: node_ref_def)

lemma image_mem: "x \<in> A \<Longrightarrow> f x = y \<Longrightarrow> y \<in> f ` A"
  by blast

lemma stream_edges_set:
  assumes g: "names_entered g" "output_streams g = graph_inputs h ns @ output_edges 0 P" "input_streams g = input_edges ns 0 P"
  shows "(\<Union>e \<in> set (input_streams g). set (stream_edge g e)) =
    {(Some (int (length (generators g) + i)), Some (int (length (generators g) + j))) | i j. i < length P \<and> j < length P \<and> stream_feeds (P ! i) (P ! j)}"
    (is "?A = ?B")
proof (intro equalityI subsetI)
  fix z assume "z \<in> ?A"
  then obtain e x where e: "e \<in> set (input_streams g)" "\<not> back_edge e" and x: "x \<in> set (output_streams g)" "edge_name x = edge_name e"
    "ref_type (parent_node x) \<noteq> GRAPH_INPUT_STREAM" and z: "z = (SorterIndexForNode g (parent_node x), SorterIndexForNode g (parent_node e))"
    unfolding stream_edge_set [OF g(1)] by blast
  have "(parent_node e, edge_name e, back_edge e) \<in> (\<Union>j < length P. (\<lambda>(n, a, b). (calc_ref (0 + j), n, b)) ` set (fst (P ! j)))"
    using e(1) unfolding g(3) input_edges_set [of ns 0 P, symmetric] by (rule imageI)
  then obtain j a where j: "j < length P" "parent_node e = calc_ref j" "(edge_name e, a, False) \<in> set (fst (P ! j))" using e(2) by auto
  have "x \<notin> set (graph_inputs h ns)" using x(3) by (auto simp: graph_inputs_def output_edge_def graph_input_ref_def)
  then have "x \<in> set (output_edges 0 P)" using x(1) unfolding g(2) by simp
  then have "(parent_node x, edge_name x) \<in> (\<Union>j < length P. Pair (calc_ref (0 + j)) ` port_names (snd (P ! j)))"
    unfolding output_edges_set [symmetric] by (rule imageI)
  then obtain i where i: "i < length P" "parent_node x = calc_ref i" "edge_name e \<in> port_names (snd (P ! i))" unfolding x(2) by force
  show "z \<in> ?B" using z i j stream_feedsI [OF j(3) i(3)] by force
next
  fix z assume "z \<in> ?B"
  then obtain i j where ij: "i < length P" "j < length P" "stream_feeds (P ! i) (P ! j)"
    and z: "z = (Some (int (length (generators g) + i)), Some (int (length (generators g) + j)))" by blast
  from stream_feedsE [OF ij(3)] obtain n a where n: "(n, a, False) \<in> set (fst (P ! j))" "n \<in> port_names (snd (P ! i))" .
  have "(calc_ref (0 + j), n, False) \<in> (\<lambda>e. (parent_node e, edge_name e, back_edge e)) ` set (input_edges ns 0 P)"
    unfolding input_edges_set using ij(2) n(1) by (intro UN_I [of j] image_mem [OF n(1)]) simp_all
  then obtain e where e: "e \<in> set (input_streams g)" "parent_node e = calc_ref j" "edge_name e = n" "\<not> back_edge e" unfolding g(3) by auto
  have "(calc_ref (0 + i), n) \<in> (\<lambda>e. (parent_node e, edge_name e)) ` set (output_edges 0 P)"
    unfolding output_edges_set using ij(1) n(2) by blast
  then obtain x where "x \<in> set (output_edges 0 P)" "parent_node x = calc_ref i" "edge_name x = n" by force
  then have x: "x \<in> set (output_streams g)" "parent_node x = calc_ref i" "edge_name x = n" unfolding g(2) by simp_all
  have "z \<in> set (stream_edge g e)" unfolding stream_edge_set [OF g(1)] using x e z by force
  then show "z \<in> ?A" using e(1) by blast
qed

lemma side_edges_set:
  assumes g: "side_entered g" "output_side_packets g = side_outputs L" "input_side_packets g = side_inputs [] L @ H"
    and H: "\<forall>e \<in> set H. ref_type (parent_node e) = STATUS_HANDLER"
    and L: "L = map (\<lambda>v. (node_ref (length (generators g)) v, S ! v)) [0..<length S]"
  shows "(\<Union>e \<in> set (input_side_packets g). set (side_packet_edge g e)) =
    {(Some (int u), Some (int v)) | u v. u < length S \<and> v < length S \<and> side_feeds (S ! u) (S ! v)}" (is "?A = ?B")
proof (intro equalityI subsetI)
  fix z assume "z \<in> ?A"
  then obtain e x where e: "e \<in> set (input_side_packets g)" "ref_type (parent_node e) \<in> {PACKET_GENERATOR, CALCULATOR}"
    and x: "x \<in> set (output_side_packets g)" "edge_name x = edge_name e"
    and z: "z = (SorterIndexForNode g (parent_node x), SorterIndexForNode g (parent_node e))"
    unfolding side_edge_set [OF g(1)] by blast
  have "e \<notin> set H" using H e(2) by auto
  then have "e \<in> set (side_inputs [] L)" using e(1) unfolding g(3) by simp
  then have "(parent_node e, edge_name e) \<in> (\<Union>x \<in> set L. Pair (fst x) ` port_names (fst (snd x)))" unfolding side_inputs_set [of "[]" L, symmetric] by (rule imageI)
  then have "(parent_node e, edge_name e) \<in> (\<Union>v < length S. Pair (node_ref (length (generators g)) v) ` port_names (fst (S ! v)))"
    unfolding L by (simp add: atLeast0LessThan)
  then obtain v where v: "v < length S" "parent_node e = node_ref (length (generators g)) v" "edge_name e \<in> port_names (fst (S ! v))" by force
  have "(parent_node x, edge_name x) \<in> (\<Union>x \<in> set L. Pair (fst x) ` port_names (snd (snd x)))"
    using x(1) unfolding g(2) side_outputs_set [symmetric] by (rule imageI)
  then have "(parent_node x, edge_name x) \<in> (\<Union>v < length S. Pair (node_ref (length (generators g)) v) ` port_names (snd (S ! v)))"
    unfolding L by (simp add: atLeast0LessThan)
  then obtain u where u: "u < length S" "parent_node x = node_ref (length (generators g)) u" "edge_name e \<in> port_names (snd (S ! u))"
    unfolding x(2) by force
  have "side_feeds (S ! u) (S ! v)" using u(3) v(3) unfolding side_feeds_def by blast
  then show "z \<in> ?B" using z u v by force
next
  fix z assume "z \<in> ?B"
  then obtain u v where uv: "u < length S" "v < length S" "side_feeds (S ! u) (S ! v)" and z: "z = (Some (int u), Some (int v))" by blast
  then obtain n where n: "n \<in> port_names (snd (S ! u))" "n \<in> port_names (fst (S ! v))" unfolding side_feeds_def by blast
  have mem: "(node_ref (length (generators g)) w, S ! w) \<in> set L" if "w < length S" for w using that by (simp add: L image_iff) auto
  have "(node_ref (length (generators g)) v, n) \<in> (\<lambda>e. (parent_node e, edge_name e)) ` set (side_inputs [] L)"
    unfolding side_inputs_set by (rule UN_I [OF mem [OF uv(2)]]) (simp add: n)
  then obtain e where "e \<in> set (side_inputs [] L)" "parent_node e = node_ref (length (generators g)) v" "edge_name e = n" by force
  then have e: "e \<in> set (input_side_packets g)" "parent_node e = node_ref (length (generators g)) v" "edge_name e = n" unfolding g(3) by simp_all
  have "(node_ref (length (generators g)) u, n) \<in> (\<lambda>e. (parent_node e, edge_name e)) ` set (side_outputs L)"
    unfolding side_outputs_set by (rule UN_I [OF mem [OF uv(1)]]) (simp add: n)
  then obtain x where x: "x \<in> set (output_side_packets g)" "parent_node x = node_ref (length (generators g)) u" "edge_name x = n" unfolding g(2) by force
  have "z \<in> set (side_packet_edge g e)" unfolding side_edge_set [OF g(1)] using x e z node_ref_type by force
  then show "z \<in> ?A" using e(1) by blast
qed

lemma sorter_edges_result:
  assumes g: "entered h ns (side_list ng S [0..<length S]) P H g"
    and H: "\<forall>e \<in> set H. ref_type (parent_node e) = STATUS_HANDLER"
    and ng: "ng = length (generators g)" and S: "length S = ng + length P"
  shows "\<exists>es. sorter_edges g = Some es \<and> set es = (\<lambda>(u, v). (int u, int v)) ` dependencies S ng P"
proof -
  define xs where "xs = concat (map (stream_edge g) (input_streams g)) @ concat (map (side_packet_edge g) (input_side_packets g))"
  have e: "names_entered g" "output_streams g = graph_inputs h ns @ output_edges 0 P" "input_streams g = input_edges ns 0 P" "side_entered g"
    "output_side_packets g = side_outputs (side_list ng S [0..<length S])" "input_side_packets g = side_inputs [] (side_list ng S [0..<length S]) @ H"
    using g unfolding entered_def by blast+
  have L: "side_list ng S [0..<length S] = map (\<lambda>v. (node_ref (length (generators g)) v, S ! v)) [0..<length S]"
    using side_list_upt [OF S] unfolding ng .
  have set_xs: "set xs = (\<lambda>(u, v). (Some (int u), Some (int v))) ` dependencies S ng P" (is "_ = ?D")
  proof -
    have "set xs = {(Some (int (ng + i)), Some (int (ng + j))) | i j. i < length P \<and> j < length P \<and> stream_feeds (P ! i) (P ! j)} \<union>
        {(Some (int u), Some (int v)) | u v. u < length S \<and> v < length S \<and> side_feeds (S ! u) (S ! v)}" (is "_ = ?A \<union> ?B")
      unfolding xs_def set_append set_concat set_map using stream_edges_set [OF e(1,2,3)] side_edges_set [OF e(4,5,6) H L] unfolding ng by simp
    also have "?A = (\<lambda>(u, v). (Some (int u), Some (int v))) ` {(u, v). u < length S \<and> v < length S \<and> ng \<le> u \<and> ng \<le> v \<and> stream_feeds (P ! (u - ng)) (P ! (v - ng))}"
      (is "_ = ?f ` ?C")
    proof (intro equalityI subsetI)
      fix z assume "z \<in> ?A"
      then obtain i j where "z = ?f (ng + i, ng + j)" "(ng + i, ng + j) \<in> ?C" using S by auto
      then show "z \<in> ?f ` ?C" by blast
    next
      fix z assume "z \<in> ?f ` ?C"
      then obtain u v where z: "z = ?f (u, v)" "(u, v) \<in> ?C" by blast
      then have "u - ng < length P" "v - ng < length P" "stream_feeds (P ! (u - ng)) (P ! (v - ng))" "u = ng + (u - ng)" "v = ng + (v - ng)" using S by auto
      with z(1) show "z \<in> ?A" by force
    qed
    also have "?B = ?f ` {(u, v). u < length S \<and> v < length S \<and> side_feeds (S ! u) (S ! v)}" by force
    also have "?f ` ?C \<union> \<dots> = ?D" unfolding image_Un [symmetric] dependencies_def by (rule arg_cong [of _ _ "(`) ?f"]) blast
    finally show ?thesis .
  qed
  define f where "f = (\<lambda>(a :: int option, b :: int option). case (a, b) of (Some i, Some j) \<Rightarrow> Some (i, j) | _ \<Rightarrow> None)"
  have "\<forall>x \<in> set xs. f x \<noteq> None" unfolding set_xs by (auto simp: f_def)
  from those_map [OF this] have "sorter_edges g = Some (map (\<lambda>x. the (f x)) xs)" unfolding sorter_edges_def xs_def f_def .
  moreover have "set (map (\<lambda>x. the (f x)) xs) = (\<lambda>(u, v). (int u, int v)) ` dependencies S ng P"
    unfolding set_map set_xs image_image by (rule image_cong) (auto simp: f_def)
  ultimately show ?thesis by blast
qed

section \<open>The nodes in the order of the sorter\<close>

lemma TopologicalSortNodes_result:
  assumes g: "entered h ns (side_list ng S [0..<length S]) P H g"
    and H: "\<forall>e \<in> set H. ref_type (parent_node e) = STATUS_HANDLER"
    and ng: "ng = length (generators g)" and S: "length S = ng + length P" and nc: "length (calculators g) = length P"
  shows "acyclic (dependencies S ng P) \<Longrightarrow> \<exists>vs. TopologicalSortNodes g = Inr (move_nodes vs g) \<and> distinct vs \<and> set vs = {..<length S} \<and>
      forward vs (dependencies S ng P)"
    and "\<not> acyclic (dependencies S ng P) \<Longrightarrow> TopologicalSortNodes g = Inl UnknownError"
proof -
  obtain es where es: "sorter_edges g = Some es" "set es = (\<lambda>(u, v). (int u, int v)) ` dependencies S ng P"
    using sorter_edges_result [OF g H ng S] by blast
  define n where "n = int (length (generators g) + length (calculators g))"
  have n: "nat n = length S" "0 \<le> n" by (simp_all add: n_def S nc ng)
  have range: "\<forall>(a, b) \<in> set es. 0 \<le> a \<and> a < n \<and> 0 \<le> b \<and> b < n"
    unfolding es(2) using n by (auto simp: dependencies_def)
  have E: "(\<lambda>(a, b). (nat a, nat b)) ` set es = dependencies S ng P" unfolding es(2) image_image by (simp add: split_beta)
  obtain s0 s vs c where r: "TopologicalSorter_new n = Some s0" "add_edges es s0 = Some s" "take_nodes s = Some (vs, c)" "distinct vs"
    and before: "\<forall>i < length vs. \<forall>a. (a, vs ! i) \<in> dependencies S ng P \<longrightarrow> (\<exists>j < i. vs ! j = a)"
    and result: "acyclic (dependencies S ng P) \<longrightarrow> c = None \<and> set vs = {..<length S}"
      "\<not> acyclic (dependencies S ng P) \<longrightarrow> (\<exists>cyc. c = Some cyc \<and> is_cycle (dependencies S ng P) cyc)"
    using sorter_result [OF n(2) range] unfolding E n(1) by blast
  have step: "TopologicalSortNodes g = (case c of None \<Rightarrow> Inr (move_nodes vs g) | Some cyc \<Rightarrow> Inl UnknownError)"
    using r(1,2,3) es(1) unfolding n_def by (simp add: TopologicalSortNodes_def split: option.splits)
  show "\<exists>vs. TopologicalSortNodes g = Inr (move_nodes vs g) \<and> distinct vs \<and> set vs = {..<length S} \<and> forward vs (dependencies S ng P)"
    if "acyclic (dependencies S ng P)"
  proof -
    have "(vs ! i, vs ! j) \<notin> dependencies S ng P" if ij: "i < length vs" "j \<le> i" for i j
    proof
      assume "(vs ! i, vs ! j) \<in> dependencies S ng P"
      then obtain k where "k < j" "vs ! k = vs ! i" using before ij le_less_trans by blast
      then show False using nth_eq_iff_index_eq [OF r(4), of k i] ij by simp
    qed
    then have "forward vs (dependencies S ng P)" unfolding forward_nth by blast
    then show ?thesis using step result(1) that r(4) by auto
  qed
  show "TopologicalSortNodes g = Inl UnknownError" if "\<not> acyclic (dependencies S ng P)" using step result(2) that by auto
qed

lemma take_infos_nth:
  "k < length order \<Longrightarrow> take_infos infos order ! k = (infos ! (order ! k))\<lparr>info_node := (info_node (infos ! (order ! k)))\<lparr>ref_index := int k\<rparr>\<rparr>"
  by (simp add: take_infos_def)

lemma length_take_infos [simp]: "length (take_infos infos order) = length order"
  by (simp add: take_infos_def)

lemma filter_at:
  "i < length xs \<Longrightarrow> p (xs ! i) \<Longrightarrow> length (filter p (take i xs)) < length (filter p xs) \<and> filter p xs ! length (filter p (take i xs)) = xs ! i"
proof (induction xs arbitrary: i)
  case (Cons x xs)
  then show ?case by (cases i) auto
qed simp

lemma sorted_refs_nth:
  "i < length vs \<Longrightarrow> sorted_refs ng k c vs ! i =
     (if vs ! i < ng then gen_ref (k + length (filter (\<lambda>v. v < ng) (take i vs))) else calc_ref (c + length (filter (\<lambda>v. \<not> v < ng) (take i vs))))"
proof (induction ng k c vs arbitrary: i rule: sorted_refs.induct)
  case (2 ng k c v vs)
  then show ?case by (cases i) (auto simp: gen_ref_def calc_ref_def)
qed simp

lemma moved_in_order:
  assumes gens: "\<forall>k < length (generators g). info_node (generators g ! k) = gen_ref k" and P: "all_nodes_are g P" and hs: "handlers_ok g"
    and ns: "streams_named g ns" and vs: "distinct vs" "set vs = {..<length (side_ports_of g)}"
  shows "in_order ns (side_ports_of g) P vs (clear_edges (move_nodes vs g))"
    and "length (generators (clear_edges (move_nodes vs g))) = length (generators g)"
proof -
  define h where "h = clear_edges (move_nodes vs g)"
  define ng where "ng = length (generators g)"
  define nc where "nc = length (calculators g)"
  define gs where "gs = filter (\<lambda>v. v < ng) vs"
  define cs where "cs = calc_order ng vs"
  have set_vs: "set vs = {..<ng + nc}" using vs(2) by (simp add: side_ports_of_def ng_def nc_def)
  have "set gs = {v \<in> {..<ng + nc}. v < ng}" unfolding gs_def set_filter set_vs ..
  also have "\<dots> = {..<ng}" by auto
  finally have gs: "set gs = {..<ng}" "distinct gs" unfolding gs_def using vs(1) by simp_all
  have cs: "set cs = {..<nc}" "distinct cs" using calc_order_all [OF vs(1) set_vs] by (simp_all add: cs_def)
  have len: "length gs = ng" "length cs = nc" using distinct_card [OF gs(2)] distinct_card [OF cs(2)] gs(1) cs(1) by simp_all
  have h: "generators h = take_infos (generators g) gs" "calculators h = take_infos (calculators g) cs" "status_handlers h = status_handlers g"
    "config_nodes (config h) = map (\<lambda>i. config_nodes (config g) ! i) cs" "sorted_nodes h = sorted_refs ng 0 0 vs"
    "config_input_stream (config h) = config_input_stream (config g)" "config_output_stream (config h) = config_output_stream (config g)"
    by (simp_all add: h_def clear_edges_def move_nodes_def Let_def gs_def cs_def calc_order_def ng_def)
  show "length (generators (clear_edges (move_nodes vs g))) = length (generators g)" unfolding h_def [symmetric] h(1) by (simp add: len ng_def)
  have P_nth: "info_node (calculators g ! j) = calc_ref j" "node_ports g j = Inr (P ! j)" if "j < nc" for j
  proof -
    have "nodes_are g 0 P" "length P = nc" using P unfolding all_nodes_are_def nc_def by blast+
    with that show "info_node (calculators g ! j) = calc_ref j" "node_ports g j = Inr (P ! j)" unfolding nodes_are_def by simp_all
  qed
  have calc: "info_node (calculators h ! k) = calc_ref k \<and> node_ports h k = Inr (P ! (cs ! k))" if "k < nc" for k
  proof -
    have "cs ! k < nc" using nth_mem [of k cs] that cs(1) len(2) by simp
    note at = P_nth [OF this]
    have k: "calculators h ! k = (calculators g ! (cs ! k))\<lparr>info_node := (info_node (calculators g ! (cs ! k)))\<lparr>ref_index := int k\<rparr>\<rparr>"
      "config_nodes (config h) ! k = config_nodes (config g) ! (cs ! k)" using that len(2) by (simp_all add: h(2,4) take_infos_nth)
    have "node_ports h k = node_ports g (cs ! k)" unfolding node_ports_def k by (simp cong: sum.case_cong)
    then show ?thesis unfolding k(1) using at by (simp add: calc_ref_def)
  qed
  have all: "all_nodes_are h (map (nth P) cs)"
    unfolding all_nodes_are_def nodes_are_def using calc len(2) by (simp add: h(2))
  have "side_node_is h x" if "x \<in> set (side_list ng (side_ports_of g) vs)" for x
  proof -
    from that obtain i where i: "i < length vs" "x = (sorted_refs ng 0 0 vs ! i, side_ports_of g ! (vs ! i))"
      unfolding side_list_def by (auto simp: in_set_zip)
    have vi: "vs ! i < ng + nc" using set_vs nth_mem [OF i(1)] by simp
    show ?thesis
    proof (cases "vs ! i < ng")
      case True
      define k where "k = length (filter (\<lambda>v. v < ng) (take i vs))"
      have k: "k < ng" "gs ! k = vs ! i" using filter_at [of i vs "\<lambda>v. v < ng", OF i(1) True] len(1) by (simp_all add: k_def gs_def)
      have "x = (gen_ref k, side_ports_of g ! (vs ! i))" using i True by (simp add: sorted_refs_nth k_def)
      then show ?thesis using k True len(1)
        by (simp add: side_node_is_def ref_ok_def info_at_gen h(1) take_infos_nth side_ports_of_def nth_append ng_def)
    next
      case False
      define k where "k = length (filter (\<lambda>v. \<not> v < ng) (take i vs))"
      have k: "k < nc" "cs ! k = vs ! i - ng" using filter_at [of i vs "\<lambda>v. \<not> v < ng", OF i(1) False] len(2)
        by (simp_all add: k_def cs_def calc_order_def)
      have "x = (calc_ref k, side_ports_of g ! (vs ! i))" using i False by (simp add: sorted_refs_nth k_def)
      then show ?thesis using k False vi len(2)
        by (simp add: side_node_is_def ref_ok_def h(2) take_infos_nth side_ports_of_def nth_append ng_def nc_def)
    qed
  qed
  moreover have "handlers_ok h" "streams_named h ns" using hs ns by (simp_all add: handlers_ok_def streams_named_def h)
  moreover have "no_streams h" "no_side_packets h" by (simp_all add: h_def clear_edges_def no_streams_def no_side_packets_def)
  moreover have "length (generators h) = ng" by (simp add: h(1) len)
  ultimately show "in_order ns (side_ports_of g) P vs (clear_edges (move_nodes vs g))"
    unfolding h_def [symmetric] in_order_def using all h(5) by (simp add: cs_def)
qed

section \<open>Back edges\<close>

definition filled :: "(string \<Rightarrow> int option) \<Rightarrow> EdgeInfo \<Rightarrow> EdgeInfo" where
  "filled producer e = (if back_edge e then e\<lparr>upstream := the (producer (edge_name e))\<rparr> else e)"

lemma fill_all_result:
  assumes "\<forall>e \<in> set es. back_edge e \<longrightarrow> upstream e = - 1"
  shows "\<forall>e \<in> set es. back_edge e \<longrightarrow> producer (edge_name e) \<noteq> None \<Longrightarrow> fill_all producer es = Inr (map (filled producer) es)"
    and "\<not> (\<forall>e \<in> set es. back_edge e \<longrightarrow> producer (edge_name e) \<noteq> None) \<Longrightarrow> \<exists>x. fill_all producer es = Inl x"
proof -
  show "fill_all producer es = Inr (map (filled producer) es)" if "\<forall>e \<in> set es. back_edge e \<longrightarrow> producer (edge_name e) \<noteq> None"
    using assms that by (induction es) (auto simp: fill_upstream_def filled_def)
  show "\<exists>x. fill_all producer es = Inl x" if "\<not> (\<forall>e \<in> set es. back_edge e \<longrightarrow> producer (edge_name e) \<noteq> None)"
    using assms that
  proof (induction es)
    case (Cons e es)
    show ?case
    proof (cases "back_edge e \<longrightarrow> producer (edge_name e) \<noteq> None")
      case True
      then obtain x where "fill_all producer es = Inl x" using Cons by auto
      then show ?thesis by (simp split: sum.splits)
    next
      case False
      then show ?thesis using Cons.prems(1) by (simp add: fill_upstream_def)
    qed
  qed simp
qed

definition names_known :: "string list \<Rightarrow> stream_ports list \<Rightarrow> bool" where
  "names_known ns P \<longleftrightarrow> (\<forall>p \<in> set P. \<forall>(n, a, back) \<in> set (fst p). n \<in> set (ns @ output_names P))"

definition backs_known :: "string list \<Rightarrow> stream_ports list \<Rightarrow> bool" where
  "backs_known ns P \<longleftrightarrow> (\<forall>p \<in> set P. \<forall>(n, a, back) \<in> set (fst p). back \<longrightarrow> n \<in> set (ns @ output_names P))"

lemma names_known_iff: "names_known ns P \<longleftrightarrow> inputs_known ns P \<and> backs_known ns P"
  unfolding names_known_def inputs_known_def backs_known_def by fast

lemma input_edges_back: "\<forall>e \<in> set (input_edges ns k P). back_edge e \<longrightarrow> upstream e = - 1"
  by (induction ns k P rule: input_edges.induct) (auto simp: input_edge_def split: if_splits)

lemma Fill_result:
  assumes "entered h ns L Q H g"
  shows "backs_known ns Q \<Longrightarrow> FillUpstreamFieldForBackEdges g = Inr (g\<lparr>input_streams := map (filled (stream_to_producer g)) (input_streams g)\<rparr>)"
    and "\<not> backs_known ns Q \<Longrightarrow> \<exists>e. FillUpstreamFieldForBackEdges g = Inl e"
proof -
  have e: "stream_to_producer g = name_map (stream_names g)" "stream_names g = ns @ output_names Q" "input_streams g = input_edges ns 0 Q"
    using assms unfolding entered_def names_entered_def by auto
  have known: "backs_known ns Q \<longleftrightarrow> (\<forall>e \<in> set (input_streams g). back_edge e \<longrightarrow> stream_to_producer g (edge_name e) \<noteq> None)"
  proof -
    have "(\<forall>e \<in> set (input_streams g). back_edge e \<longrightarrow> stream_to_producer g (edge_name e) \<noteq> None) \<longleftrightarrow>
        (\<forall>(m, n, back) \<in> (\<lambda>e. (parent_node e, edge_name e, back_edge e)) ` set (input_edges ns 0 Q). back \<longrightarrow> n \<in> set (ns @ output_names Q))"
      unfolding e(1) name_map_None e(2,3) by simp
    also have "\<dots> \<longleftrightarrow> (\<forall>j < length Q. \<forall>(n, a, back) \<in> set (fst (Q ! j)). back \<longrightarrow> n \<in> set (ns @ output_names Q))"
      unfolding input_edges_set by (simp add: split_beta lessThan_def)
    also have "\<dots> \<longleftrightarrow> backs_known ns Q" unfolding backs_known_def by (metis in_set_conv_nth)
    finally show ?thesis by blast
  qed
  have marks: "\<forall>e \<in> set (input_streams g). back_edge e \<longrightarrow> upstream e = - 1" unfolding e(3) by (rule input_edges_back)
  show "FillUpstreamFieldForBackEdges g = Inr (g\<lparr>input_streams := map (filled (stream_to_producer g)) (input_streams g)\<rparr>)" if "backs_known ns Q"
    unfolding FillUpstreamFieldForBackEdges_def using fill_all_result(1) [OF marks known [THEN iffD1, OF that]] by simp
  show "\<exists>e. FillUpstreamFieldForBackEdges g = Inl e" if unknown_back: "\<not> backs_known ns Q"
  proof -
    obtain x where "fill_all (stream_to_producer g) (input_streams g) = Inl x" using fill_all_result(2) [OF marks] unknown_back unfolding known by blast
    then show ?thesis by (simp add: FillUpstreamFieldForBackEdges_def)
  qed
qed

section \<open>Wiring\<close>

text \<open>A node without its place and its indices.\<close>

definition stripped :: "NodeTypeInfo \<Rightarrow> NodeTypeInfo" where
  "stripped i = (bare i)\<lparr>info_node := gen_ref 0\<rparr>"

definition nodes_kept :: "graph \<Rightarrow> graph \<Rightarrow> bool" where
  "nodes_kept g G \<longleftrightarrow> mset (map stripped (generators G)) = mset (map stripped (generators g)) \<and>
     mset (map stripped (calculators G)) = mset (map stripped (calculators g)) \<and> map bare (status_handlers G) = map bare (status_handlers g) \<and>
     mset (config_nodes (config G)) = mset (config_nodes (config g)) \<and> config_input_stream (config G) = config_input_stream (config g) \<and>
     config_output_stream (config G) = config_output_stream (config g) \<and> config_executors (config G) = config_executors (config g)"

lemma same_stripped: "map bare xs = map bare ys \<Longrightarrow> map stripped xs = map stripped ys"
proof -
  assume "map bare xs = map bare ys"
  then have "map (\<lambda>i. i\<lparr>info_node := gen_ref 0\<rparr>) (map bare xs) = map (\<lambda>i. i\<lparr>info_node := gen_ref 0\<rparr>) (map bare ys)" by simp
  then show ?thesis by (simp add: stripped_def [abs_def] comp_def)
qed

lemma same_nodes_kept: "same_nodes g G \<Longrightarrow> nodes_kept g G"
  unfolding same_nodes_def nodes_kept_def using same_stripped by metis

lemma nodes_kept_trans: "nodes_kept g g' \<Longrightarrow> nodes_kept g' g'' \<Longrightarrow> nodes_kept g g''"
  by (simp add: nodes_kept_def)

lemma take_infos_stripped:
  assumes "distinct order" "set order = {..<length infos}"
  shows "mset (map stripped (take_infos infos order)) = mset (map stripped infos)"
proof -
  have "map stripped (take_infos infos order) = map stripped (map (nth infos) order)"
    by (rule nth_equalityI) (simp_all add: take_infos_nth stripped_def bare_def)
  then show ?thesis using reordered_mset [OF assms] by (metis mset_map)
qed

lemma moved_kept:
  assumes "distinct vs" "set vs = {..<length (generators g) + length (calculators g)}" and nodes: "length (config_nodes (config g)) = length (calculators g)"
  shows "nodes_kept g (clear_edges (move_nodes vs g))"
proof -
  define gs where "gs = filter (\<lambda>v. v < length (generators g)) vs"
  have "set gs = {v \<in> {..<length (generators g) + length (calculators g)}. v < length (generators g)}" unfolding gs_def set_filter assms(2) ..
  also have "\<dots> = {..<length (generators g)}" by auto
  finally have gs: "set gs = {..<length (generators g)}" "distinct gs" unfolding gs_def using assms(1) by simp_all
  show ?thesis unfolding nodes_kept_def
    using take_infos_stripped [OF gs(2,1)] take_infos_stripped [OF calc_order_all [OF assms(1,2)]]
      reordered_mset [of "calc_order (length (generators g)) vs" "config_nodes (config g)"] calc_order_all [OF assms(1,2)] nodes
    by (simp add: clear_edges_def move_nodes_def Let_def gs_def calc_order_def)
qed

definition wirable :: "graph \<Rightarrow> string list \<Rightarrow> stream_ports list \<Rightarrow> bool" where
  "wirable g ns P \<longleftrightarrow> distinct (side_port_names (side_ports_of g)) \<and> distinct (ns @ output_names P) \<and> names_known ns P \<and>
     acyclic (dependencies (side_ports_of g) (length (generators g)) P)"

text \<open>What a wired graph is: all nodes in an order that leads forward, entered in that order, and the back edges filled.\<close>

definition wired_from :: "graph \<Rightarrow> string list \<Rightarrow> stream_ports list \<Rightarrow> graph \<Rightarrow> bool" where
  "wired_from g ns P G \<longleftrightarrow> (\<exists>vs h G'. distinct vs \<and> set vs = {..<length (side_ports_of g)} \<and>
     in_order ns (side_ports_of g) P vs h \<and> length (generators h) = length (generators g) \<and> nodes_kept g h \<and>
     (\<exists>m. packet_types h = packet_types g @ replicate m any_type) \<and>
     (let L = side_list (length (generators g)) (side_ports_of g) vs; Q = map (nth P) (calc_order (length (generators g)) vs)
      in entered h ns L Q (concat (map (handler_inputs h (side_output_names L)) [0..<length (status_handlers h)])) G' \<and>
         side_ordered {} [] L \<and> all_found ns Q \<and> G = G'\<lparr>input_streams := map (filled (stream_to_producer G')) (input_streams G')\<rparr>))"

lemma names_known_order:
  assumes "distinct vs" "set vs = {..<length S}" "length S = ng + length P"
  shows "backs_known ns (map (nth P) (calc_order ng vs)) \<longleftrightarrow> backs_known ns P"
proof -
  have "distinct (calc_order ng vs)" "set (calc_order ng vs) = {..<length P}" using calc_order_all assms by auto
  from mset_eq_setD [OF reordered_mset [OF this]] have "set (map (nth P) (calc_order ng vs)) = set P" .
  moreover have "set (output_names (map (nth P) (calc_order ng vs))) = set (output_names P)"
    using reordered_distinct(3) [of vs "replicate (length S) ([], [])"] assms by simp
  ultimately show ?thesis unfolding backs_known_def set_append by simp
qed

lemma handler_inputs_type: "e \<in> set (handler_inputs h ns k) \<Longrightarrow> ref_type (parent_node e) = STATUS_HANDLER"
  by (auto simp: handler_inputs_def side_input_edge_def handler_ref_def)

lemma same_nodes_rest:
  assumes "same_nodes g g'"
  shows "side_ports_of g' = side_ports_of g" "handlers_ok g \<Longrightarrow> handlers_ok g'" "streams_named g ns \<Longrightarrow> streams_named g' ns"
    "\<forall>k < length (generators g). info_node (generators g ! k) = gen_ref k \<Longrightarrow> \<forall>k < length (generators g'). info_node (generators g' ! k) = gen_ref k"
proof -
  have maps: "map bare (generators g' @ calculators g') = map bare (generators g @ calculators g)" "map bare (status_handlers g') = map bare (status_handlers g)"
    "map bare (generators g') = map bare (generators g)" "config g' = config g" using assms unfolding same_nodes_def by auto
  from arg_cong [OF maps(1), of "map (\<lambda>i. (ports (InputSidePacketTypes i), ports (OutputSidePacketTypes i)))"]
  show "side_ports_of g' = side_ports_of g" unfolding side_ports_of_def by (simp add: comp_def)
  note len = same_nodes_length [OF assms]
  show "handlers_ok g'" if ok: "handlers_ok g"
    unfolding handlers_ok_def
  proof (intro allI impI)
    fix k assume "k < length (status_handlers g')"
    then have k: "k < length (status_handlers g)" using len by simp
    from arg_cong [OF bare_at [OF maps(2) k], of info_node] ok k show "info_node (status_handlers g' ! k) = handler_ref k" by (simp add: handlers_ok_def)
  qed
  show "\<forall>k < length (generators g'). info_node (generators g' ! k) = gen_ref k" if ok: "\<forall>k < length (generators g). info_node (generators g ! k) = gen_ref k"
  proof (intro allI impI)
    fix k assume "k < length (generators g')"
    then have k: "k < length (generators g)" using len by simp
    from arg_cong [OF bare_at [OF maps(3) k], of info_node] ok k show "info_node (generators g' ! k) = gen_ref k" by simp
  qed
  show "streams_named g' ns" if "streams_named g ns" using that by (simp add: streams_named_def maps(4))
qed

text \<open>The nodes are sorted and entered again.\<close>

definition enter_sorted :: "graph \<Rightarrow> graph_error + graph" where
  "enter_sorted g2 =
     (case TopologicalSortNodes g2 of
        Inl e \<Rightarrow> Inl e
      | Inr g3 \<Rightarrow>
     (case InitializeSidePacketInfo (None, clear_edges g3) of
        Inl e \<Rightarrow> Inl e
      | Inr (need4, g4) \<Rightarrow>
     (case InitializeStreamInfo (None, g4) of Inl e \<Rightarrow> Inl e | Inr (need5, g5) \<Rightarrow> FillUpstreamFieldForBackEdges g5)))"

lemma second_pass_need:
  assumes "InitializeSidePacketInfo (None, h) = Inr (need, g1)"
    and "in_order ns S P vs h"
  shows "need = None"
proof -
  define L where "L = side_list (length (generators h)) S vs"
  have sorted: "sorted_nodes h = map fst L" and L: "\<forall>x \<in> set L. side_node_is h x" and hs: "handlers_ok h" and none: "no_side_packets h"
    using assms(2) unfolding in_order_def L_def by (simp_all add: side_list_def)
  note side = InitializeSidePacketInfo_result [OF none hs sorted L, of None]
  show ?thesis
  proof (cases "distinct (side_output_names L) \<and> side_ordered {} [] L")
    case True
    with side(1) obtain g' where "InitializeSidePacketInfo (None, h) = Inr (if side_ordered {} [] L then None else Some True, g')" by blast
    with True assms(1) show ?thesis by simp
  next
    case False
    with side(2) obtain e where "InitializeSidePacketInfo (None, h) = Inl e" by blast
    with assms(1) show ?thesis by simp
  qed
qed

lemma wired_fromI:
  assumes "distinct vs" "set vs = {..<length (side_ports_of g)}" "in_order ns (side_ports_of g) P vs h" "length (generators h) = length (generators g)" "nodes_kept g h"
    and "packet_types h = packet_types g @ replicate m any_type"
    and "entered h ns (side_list (length (generators g)) (side_ports_of g) vs) (map (nth P) (calc_order (length (generators g)) vs))
      (concat (map (handler_inputs h (side_output_names (side_list (length (generators g)) (side_ports_of g) vs))) [0..<length (status_handlers h)])) G'"
    and "side_ordered {} [] (side_list (length (generators g)) (side_ports_of g) vs)" "all_found ns (map (nth P) (calc_order (length (generators g)) vs))"
  shows "wired_from g ns P (G'\<lparr>input_streams := map (filled (stream_to_producer G')) (input_streams G')\<rparr>)"
  unfolding wired_from_def Let_def by (rule exI [of _ vs], rule exI [of _ h], rule exI [of _ G']) (use assms in blast)

lemma enter_sorted_result:
  assumes g2: "entered h ns (side_list ng S [0..<length S]) P H g2" and H: "\<forall>e \<in> set H. ref_type (parent_node e) = STATUS_HANDLER"
    and ng: "ng = length (generators g2)" and S: "S = side_ports_of g2" "length S = ng + length P"
    and nodes: "\<forall>k < ng. info_node (generators g2 ! k) = gen_ref k" "all_nodes_are g2 P" "handlers_ok g2" "streams_named g2 ns"
      "length (config_nodes (config g2)) = length (calculators g2)"
    and names: "distinct (side_port_names S)" "distinct (ns @ output_names P)"
  shows "names_known ns P \<and> acyclic (dependencies S ng P) \<Longrightarrow> \<exists>G. enter_sorted g2 = Inr G \<and> wired_from g2 ns P G"
    and "\<not> (names_known ns P \<and> acyclic (dependencies S ng P)) \<Longrightarrow> \<exists>e. enter_sorted g2 = Inl e"
proof -
  have nc: "length (calculators g2) = length P" using nodes(2) by (simp add: all_nodes_are_def)
  note sort = TopologicalSortNodes_result [OF g2 H ng S(2) nc]
  have sorted: "(names_known ns P \<longrightarrow> (\<exists>G. enter_sorted g2 = Inr G \<and> wired_from g2 ns P G)) \<and> (\<not> names_known ns P \<longrightarrow> (\<exists>e. enter_sorted g2 = Inl e))"
    if "acyclic (dependencies S ng P)"
  proof -
    from sort(1) [OF that] obtain vs where vs: "TopologicalSortNodes g2 = Inr (move_nodes vs g2)" "distinct vs" "set vs = {..<length S}"
      "forward vs (dependencies S ng P)" by blast
    define k where "k = clear_edges (move_nodes vs g2)"
    have k: "in_order ns S P vs k" "length (generators k) = ng"
      using moved_in_order [OF nodes(1) [unfolded ng] nodes(2,3,4) vs(2)] vs(3) unfolding k_def S(1) ng by blast+
    have kept: "nodes_kept g2 k" unfolding k_def using moved_kept [OF vs(2) _ nodes(5)] vs(3) S(2) nc ng by simp
    have types: "packet_types k = packet_types g2 @ replicate 0 any_type" by (simp add: k_def clear_edges_def move_nodes_def Let_def)
    define L where "L = side_list ng S vs"
    define Q where "Q = map (nth P) (calc_order ng vs)"
    have d: "distinct (side_output_names L)" "distinct (ns @ output_names Q)"
      using reordered_distinct(1,2) [OF vs(2,3) S(2)] names unfolding L_def Q_def by blast+
    have ordered: "side_ordered {} [] L \<and> all_found ns Q \<longleftrightarrow> inputs_known ns P"
      using pass_ordered [OF vs(2,3) S(2) names] vs(4) unfolding L_def Q_def by blast
    note pass = pass_result [OF k(1), of None, unfolded k(2), folded L_def Q_def]
    have run: "enter_sorted g2 = (case InitializeSidePacketInfo (None, k) of Inl e \<Rightarrow> Inl e
        | Inr (need4, g4) \<Rightarrow> (case InitializeStreamInfo (None, g4) of Inl e \<Rightarrow> Inl e | Inr (need5, g5) \<Rightarrow> FillUpstreamFieldForBackEdges g5))"
      by (simp add: enter_sorted_def vs(1) k_def)
    show ?thesis
    proof (cases "inputs_known ns P")
      case False
      then have "(\<exists>e. InitializeSidePacketInfo (None, k) = Inl e) \<or>
          (\<exists>need1 g1 e. InitializeSidePacketInfo (None, k) = Inr (need1, g1) \<and> InitializeStreamInfo (need1, g1) = Inl e)"
        using pass(2) ordered by blast
      then have "\<exists>e. enter_sorted g2 = Inl e" unfolding run using second_pass_need [OF _ k(1)] by fastforce
      with False show ?thesis unfolding names_known_iff by blast
    next
      case True
      then have o: "side_ordered {} [] L" "all_found ns Q" using ordered by blast+
      then obtain need1 g4 g5 where p: "InitializeSidePacketInfo (None, k) = Inr (need1, g4)" "InitializeStreamInfo (need1, g4) = Inr (None, g5)"
        "entered k ns L Q (concat (map (handler_inputs k (side_output_names L)) [0..<length (status_handlers k)])) g5"
        using pass(1) [OF _ d] by auto
      have run5: "enter_sorted g2 = FillUpstreamFieldForBackEdges g5" unfolding run using p(1,2) second_pass_need [OF p(1) k(1)] by simp
      have backs: "backs_known ns Q \<longleftrightarrow> backs_known ns P" unfolding Q_def by (rule names_known_order [OF vs(2,3) S(2)])
      have "wired_from g2 ns P (g5\<lparr>input_streams := map (filled (stream_to_producer g5)) (input_streams g5)\<rparr>)"
        by (rule wired_fromI [OF vs(2) _ _ _ kept types]) (use vs(3) k p(3) o in \<open>simp_all add: S(1) [symmetric] ng [symmetric] L_def Q_def\<close>)
      then show ?thesis using Fill_result [OF p(3)] True unfolding run5 backs names_known_iff by blast
    qed
  qed
  show "\<exists>G. enter_sorted g2 = Inr G \<and> wired_from g2 ns P G" if "names_known ns P \<and> acyclic (dependencies S ng P)" using sorted that by blast
  show "\<exists>e. enter_sorted g2 = Inl e" if "\<not> (names_known ns P \<and> acyclic (dependencies S ng P))"
  proof (cases "acyclic (dependencies S ng P)")
    case True
    then show ?thesis using sorted that by blast
  next
    case False
    then show ?thesis using sort(2) by (simp add: enter_sorted_def)
  qed
qed

lemma wired_from_same:
  assumes "wired_from g' ns P G" "side_ports_of g' = side_ports_of g" "length (generators g') = length (generators g)" "nodes_kept g g'"
    and types: "packet_types g' = packet_types g @ replicate m any_type"
  shows "wired_from g ns P G"
proof -
  have "packet_types h = packet_types g @ replicate (m + l) any_type" if "packet_types h = packet_types g' @ replicate l any_type" for h l
    using that by (simp add: types replicate_add)
  then have more: "\<exists>l. packet_types h = packet_types g @ replicate l any_type" if "\<exists>l. packet_types h = packet_types g' @ replicate l any_type" for h
    using that by blast
  from assms(1) obtain vs h G' where w: "distinct vs \<and> set vs = {..<length (side_ports_of g)} \<and>
     in_order ns (side_ports_of g) P vs h \<and> length (generators h) = length (generators g) \<and> nodes_kept g' h \<and>
     (\<exists>m. packet_types h = packet_types g' @ replicate m any_type) \<and>
     (let L = side_list (length (generators g)) (side_ports_of g) vs; Q = map (nth P) (calc_order (length (generators g)) vs)
      in entered h ns L Q (concat (map (handler_inputs h (side_output_names L)) [0..<length (status_handlers h)])) G' \<and>
         side_ordered {} [] L \<and> all_found ns Q \<and> G = G'\<lparr>input_streams := map (filled (stream_to_producer G')) (input_streams G')\<rparr>)"
    unfolding wired_from_def assms(2,3) by (elim exE)
  have kept: "nodes_kept g h" using w nodes_kept_trans [OF assms(4)] by blast
  have types': "\<exists>m. packet_types h = packet_types g @ replicate m any_type" by (rule more) (use w in blast)
  show ?thesis unfolding wired_from_def
    by (rule exI [of _ vs], rule exI [of _ h], rule exI [of _ G']) (insert w kept types', elim conjE, intro conjI; assumption)
qed

lemma wire_result:
  assumes ready: "graph_ready g ns P"
  shows "wirable g ns P \<Longrightarrow> \<exists>G. wire g = Inr G \<and> wired_from g ns P G"
    and "\<not> wirable g ns P \<Longrightarrow> \<exists>e. wire g = Inl e"
proof -
  define S where "S = side_ports_of g"
  define ng where "ng = length (generators g)"
  define D where "D = dependencies S ng P"
  define L where "L = side_list ng S [0..<length S]"
  have S: "length S = ng + length P" using ready_length [OF ready] by (simp add: S_def ng_def)
  have vs: "distinct [0..<length S]" "set [0..<length S] = {..<length S}" by (simp_all add: lessThan_atLeast0)
  obtain r where r: "initial_order g = Inr (g\<lparr>sorted_nodes := r\<rparr>)" "in_order ns S P [0..<length S] (g\<lparr>sorted_nodes := r\<rparr>)"
    using initial_order_result [OF ready] unfolding S_def by blast
  define g0 where "g0 = g\<lparr>sorted_nodes := r\<rparr>"
  have g0: "in_order ns S P [0..<length S] g0" "side_ports_of g0 = S" "length (generators g0) = ng" "nodes_kept g g0"
    using r(2) by (simp_all add: g0_def S_def ng_def side_ports_of_def nodes_kept_def)
  have Q: "map (nth P) (calc_order ng [0..<length S]) = P" unfolding S calc_order_upt by (rule map_nth)
  have g0_types: "packet_types g0 = packet_types g" and g0_nodes: "length (config_nodes (config g0)) = length (calculators g0)"
    using ready by (simp_all add: g0_def graph_ready_def)
  have wire: "wire g = (case InitializeSidePacketInfo (Some False, g0) of Inl e \<Rightarrow> Inl e
      | Inr (need1, g1) \<Rightarrow> (case InitializeStreamInfo (need1, g1) of Inl e \<Rightarrow> Inl e
          | Inr (need2, g2) \<Rightarrow> if need2 \<noteq> Some True then FillUpstreamFieldForBackEdges g2 else enter_sorted g2))"
    unfolding wire_def r(1) enter_sorted_def g0_def sum.case ..
  note pass = pass_result [OF g0(1), of "Some False", unfolded g0(3) Q, folded L_def]
  note distinct = reordered_distinct(1,2) [OF vs S, unfolded Q, folded L_def]
  have result: "(wirable g ns P \<longrightarrow> (\<exists>G. wire g = Inr G \<and> wired_from g ns P G)) \<and> (\<not> wirable g ns P \<longrightarrow> (\<exists>e. wire g = Inl e))"
  proof (cases "distinct (side_port_names S) \<and> distinct (ns @ output_names P)")
    case False
    then have "\<exists>e. wire g = Inl e" using pass(2) distinct unfolding wire by fastforce
    moreover have "\<not> wirable g ns P" using False unfolding wirable_def S_def by blast
    ultimately show ?thesis by blast
  next
    case True
    then have names: "distinct (side_port_names S)" "distinct (ns @ output_names P)" by blast+
    have wirable: "wirable g ns P \<longleftrightarrow> names_known ns P \<and> acyclic D" using names unfolding wirable_def S_def D_def ng_def by blast
    have ordered: "side_ordered {} [] L \<and> all_found ns P \<longleftrightarrow> inputs_known ns P \<and> forward [0..<length S] D"
      using pass_ordered [OF vs S names] unfolding Q L_def D_def .
    define H where "H = (if side_ordered {} [] L then concat (map (handler_inputs g0 (side_output_names L)) [0..<length (status_handlers g0)]) else [])"
    obtain need1 g1 g2 where p: "InitializeSidePacketInfo (Some False, g0) = Inr (need1, g1)"
      "InitializeStreamInfo (need1, g1) = Inr (if side_ordered {} [] L \<and> all_found ns P then Some False else Some True, g2)" "entered g0 ns L P H g2"
      using pass(1) names distinct(1) unfolding H_def by fastforce
    have same: "same_nodes g0 g2" using p(3) unfolding entered_def by blast
    show ?thesis
    proof (cases "side_ordered {} [] L \<and> all_found ns P")
      case True
      then have w: "wire g = FillUpstreamFieldForBackEdges g2" unfolding wire using p(1,2) by simp
      have "acyclic D" by (rule forward_acyclic [of "length S"]) (use True ordered in \<open>auto simp: D_def dependencies_def\<close>)
      then have "wirable g ns P \<longleftrightarrow> backs_known ns P" using True ordered unfolding wirable names_known_iff by blast
      moreover have "wired_from g ns P (g2\<lparr>input_streams := map (filled (stream_to_producer g2)) (input_streams g2)\<rparr>)"
        by (rule wired_fromI [OF vs(1) _ _ _ g0(4), of _ _ 0])
          (use vs(2) g0 p(3) True in \<open>simp_all add: g0_types S_def [symmetric] ng_def [symmetric] L_def [symmetric] Q H_def\<close>)
      ultimately show ?thesis using Fill_result [OF p(3)] unfolding w by blast
    next
      case False
      then have w: "wire g = enter_sorted g2" unfolding wire using p(1,2) by auto
      have H: "\<forall>e \<in> set H. ref_type (parent_node e) = STATUS_HANDLER" using handler_inputs_type by (auto simp: H_def split: if_splits)
      note rest = same_nodes_rest [OF same]
      have len2: "ng = length (generators g2)" using same_nodes_length [OF same] g0(3) by simp
      have S2: "S = side_ports_of g2" using rest(1) g0(2) by simp
      have ok0: "all_nodes_are g0 P" "handlers_ok g0" "streams_named g0 ns" using g0(1) unfolding in_order_def g0(3) Q by blast+
      have gens0: "\<forall>k < length (generators g0). info_node (generators g0 ! k) = gen_ref k" using ready unfolding graph_ready_def g0_def by simp
      note sort = enter_sorted_result [OF p(3) [unfolded L_def] H len2 S2 S rest(4) [OF gens0, folded len2] same_nodes_all [OF same ok0(1)]
          rest(2) [OF ok0(2)] rest(3) [OF ok0(3)] _ names, folded D_def]
      have kept: "nodes_kept g g2" using nodes_kept_trans [OF g0(4) same_nodes_kept [OF same]] .
      have moved: "wired_from g ns P G" if "wired_from g2 ns P G" for G
        by (rule wired_from_same [OF that _ _ kept, of "length ns"])
          (use p(3) in \<open>simp_all add: S2 [symmetric] S_def len2 [symmetric] ng_def entered_def g0_types\<close>)
      have "length (config_nodes (config g2)) = length (calculators g2)"
      proof -
        have "config g2 = config g0" using same unfolding same_nodes_def by blast
        then show ?thesis using same_nodes_length [OF same] g0_nodes by simp
      qed
      then show ?thesis using sort moved unfolding w wirable by blast
    qed
  qed
  show "\<exists>G. wire g = Inr G \<and> wired_from g ns P G" if "wirable g ns P" using result that by blast
  show "\<exists>e. wire g = Inl e" if "\<not> wirable g ns P" using result that by blast
qed

section \<open>What is wired\<close>

text \<open>The input \<open>e\<close> of a node is fed by the output of its name; where it is not a back edge this is an output of an earlier node or enters the graph.\<close>

definition stream_wired :: "graph \<Rightarrow> EdgeInfo \<Rightarrow> bool" where
  "stream_wired G e \<longleftrightarrow> 0 \<le> upstream e \<and> nat (upstream e) < length (output_streams G) \<and>
     (let x = output_streams G ! nat (upstream e)
      in edge_name x = edge_name e \<and>
         (back_edge e \<or> ref_type (parent_node x) = GRAPH_INPUT_STREAM \<or> ref_type (parent_node x) = CALCULATOR \<and> ref_index (parent_node x) < ref_index (parent_node e)))"

definition side_wired :: "graph \<Rightarrow> EdgeInfo \<Rightarrow> bool" where
  "side_wired G e \<longleftrightarrow>
     (if edge_name e \<in> set (side_names G)
      then 0 \<le> upstream e \<and> nat (upstream e) < length (output_side_packets G) \<and>
        (let x = output_side_packets G ! nat (upstream e)
         in edge_name x = edge_name e \<and> parent_node x \<in> set (takeWhile (\<lambda>n. n \<noteq> parent_node e) (sorted_nodes G)))
      else upstream e = - 1)"

text \<open>The inputs of a calculator begin at its base index.\<close>

definition inputs_of :: "graph \<Rightarrow> nat \<Rightarrow> EdgeInfo list" where
  "inputs_of G k = take (length (ports (InputStreamTypes (calculators G ! k)))) (drop (nat (input_stream_base_index (calculators G ! k))) (input_streams G))"

definition ports_wired :: "graph \<Rightarrow> nat \<Rightarrow> bool" where
  "ports_wired G k \<longleftrightarrow> info_node (calculators G ! k) = calc_ref k \<and> 0 \<le> input_stream_base_index (calculators G ! k) \<and>
     nat (input_stream_base_index (calculators G ! k)) + length (ports (InputStreamTypes (calculators G ! k))) \<le> length (input_streams G) \<and>
     inputs_of G k = filter (\<lambda>e. parent_node e = calc_ref k) (input_streams G) \<and>
     node_ports G k = Inr (map (\<lambda>e. (edge_name e, edge_type e, back_edge e)) (filter (\<lambda>e. parent_node e = calc_ref k) (input_streams G)),
       map (\<lambda>e. (edge_name e, edge_type e)) (filter (\<lambda>e. parent_node e = calc_ref k) (output_streams G)))"

text \<open>The outputs belong to the \<open>m\<close> streams that enter the graph, which are numbered after the calculators, and to calculators.\<close>

definition producer_ok :: "graph \<Rightarrow> nat \<Rightarrow> EdgeInfo \<Rightarrow> bool" where
  "producer_ok G m x \<longleftrightarrow>
     ref_type (parent_node x) = GRAPH_INPUT_STREAM \<and> int (length (config_nodes (config G))) \<le> ref_index (parent_node x) \<and>
       ref_index (parent_node x) < int (length (config_nodes (config G)) + m) \<or>
     (\<exists>k < length (calculators G). parent_node x = calc_ref k)"

lemma input_edges_split:
  "e \<in> set (input_edges ns k Q) \<Longrightarrow>
     \<exists>xs ps qs ys t. Q = xs @ (ps, qs) # ys \<and> t \<in> set ps \<and> e = input_edge (calc_ref (k + length xs)) (ns @ output_names xs) t"
proof (induction ns k Q rule: input_edges.induct)
  case (2 ns k ps qs P)
  show ?case
  proof (cases "e \<in> set (input_edges (ns @ map fst qs) (Suc k) P)")
    case True
    from "2.IH" [OF True] obtain xs ps' qs' ys t where "P = xs @ (ps', qs') # ys" "t \<in> set ps'"
      "e = input_edge (calc_ref (Suc k + length xs)) ((ns @ map fst qs) @ output_names xs) t" by blast
    then show ?thesis by (intro exI [of _ "(ps, qs) # xs"] exI [of _ ps'] exI [of _ qs'] exI [of _ ys] exI [of _ t]) simp
  next
    case False
    then obtain t where "t \<in> set ps" "e = input_edge (calc_ref k) ns t" using "2.prems" by auto
    then show ?thesis by (intro exI [of _ "[]"] exI [of _ ps] exI [of _ qs] exI [of _ P] exI [of _ t]) simp
  qed
qed simp

lemma side_inputs_split:
  "e \<in> set (side_inputs ns L) \<Longrightarrow>
     \<exists>xs n ps qs ys t. L = xs @ (n, ps, qs) # ys \<and> t \<in> set ps \<and> e = side_input_edge n (ns @ side_output_names xs) t"
proof (induction ns L rule: side_inputs.induct)
  case (2 ns n ps qs P)
  show ?case
  proof (cases "e \<in> set (side_inputs (ns @ map fst qs) P)")
    case True
    from "2.IH" [OF True] obtain xs m ps' qs' ys t where "P = xs @ (m, ps', qs') # ys" "t \<in> set ps'"
      "e = side_input_edge m ((ns @ map fst qs) @ side_output_names xs) t" by blast
    then show ?thesis by (intro exI [of _ "(n, ps, qs) # xs"] exI [of _ m] exI [of _ ps'] exI [of _ qs'] exI [of _ ys] exI [of _ t]) simp
  next
    case False
    then obtain t where "t \<in> set ps" "e = side_input_edge n ns t" using "2.prems" by auto
    then show ?thesis by (intro exI [of _ "[]"] exI [of _ n] exI [of _ ps] exI [of _ qs] exI [of _ P] exI [of _ t]) simp
  qed
qed simp

lemma output_edges_append: "output_edges k (xs @ ys) = output_edges k xs @ output_edges (k + length xs) ys"
  by (induction k xs rule: output_edges.induct) auto

lemma side_outputs_append: "side_outputs (xs @ ys) = side_outputs xs @ side_outputs ys"
  by (induction xs rule: side_outputs.induct) auto

lemma all_found_append: "all_found ns (xs @ ys) \<longleftrightarrow> all_found ns xs \<and> all_found (ns @ output_names xs) ys"
  by (induction ns xs rule: all_found.induct) auto

lemma side_ordered_late: "side_ordered U ns L \<Longrightarrow> distinct (ns @ side_output_names L) \<Longrightarrow> U \<inter> set (side_output_names L) = {}"
  using side_ordered_iff by blast

lemma side_ordered_unknown:
  "side_ordered U ns (xs @ (n, ps, qs) # ys) \<Longrightarrow> distinct (ns @ side_output_names (xs @ (n, ps, qs) # ys)) \<Longrightarrow> x \<in> port_names ps \<Longrightarrow>
     x \<notin> set (ns @ side_output_names xs) \<Longrightarrow> x \<notin> set (side_output_names ((n, ps, qs) # ys))"
proof (induction xs arbitrary: U ns)
  case Nil
  define V where "V = U \<union> unknown ns ps"
  have o: "port_names qs \<inter> V = {}" "side_ordered V (ns @ map fst qs) ys" using Nil.prems(1) by (simp_all add: V_def)
  have "distinct ((ns @ map fst qs) @ side_output_names ys)" using Nil.prems(2) by simp
  from side_ordered_late [OF o(2) this] have "V \<inter> set (side_output_names ys) = {}" .
  moreover have "x \<in> V" using Nil.prems(3,4) by (simp add: V_def)
  ultimately have "x \<notin> port_names qs" "x \<notin> set (side_output_names ys)" using o(1) by blast+
  then show ?case by simp
next
  case (Cons y xs)
  obtain m ps' qs' where y: "y = (m, ps', qs')" by (cases y)
  show ?case by (rule Cons.IH [of "U \<union> unknown ns ps'" "ns @ map fst qs'"]) (use Cons.prems in \<open>simp_all add: y\<close>)
qed

lemma sorted_refs_distinct:
  "distinct (sorted_refs ng k c vs) \<and> (\<forall>r \<in> set (sorted_refs ng k c vs). ref_type r = PACKET_GENERATOR \<and> int k \<le> ref_index r \<or> ref_type r = CALCULATOR \<and> int c \<le> ref_index r)"
  by (induction ng k c vs rule: sorted_refs.induct) force+

lemma input_edge_parent [simp]: "parent_node (input_edge n ms t) = n"
  by (simp add: input_edge_def split: prod.splits)

lemma input_edges_other: "m < l \<Longrightarrow> filter (\<lambda>e. parent_node e = calc_ref m) (input_edges ms l R) = []"
proof -
  assume "m < l"
  have "parent_node e \<noteq> calc_ref m" if "e \<in> set (input_edges ms l R)" for e
    using input_edges_split [OF that] \<open>m < l\<close> by auto
  then show ?thesis by (simp add: filter_empty_conv)
qed

lemma input_edges_of: "j < length Q \<Longrightarrow>
  map (\<lambda>e. (edge_name e, edge_type e, back_edge e)) (filter (\<lambda>e. parent_node e = calc_ref (k + j)) (input_edges ns k Q)) = fst (Q ! j) \<and>
  take (length (fst (Q ! j))) (drop (sum_list (map (\<lambda>p. length (fst p)) (take j Q))) (input_edges ns k Q)) =
    filter (\<lambda>e. parent_node e = calc_ref (k + j)) (input_edges ns k Q) \<and>
  sum_list (map (\<lambda>p. length (fst p)) (take j Q)) + length (fst (Q ! j)) \<le> length (input_edges ns k Q)"
proof (induction ns k Q arbitrary: j rule: input_edges.induct)
  case (2 ns k ps qs P)
  have own: "map (\<lambda>e. (edge_name e, edge_type e, back_edge e)) (map (input_edge (calc_ref k) ns) ps) = ps"
    by (rule nth_equalityI) (simp_all add: input_edge_def split: prod.splits)
  have all: "filter (\<lambda>e. parent_node e = calc_ref k) (map (input_edge (calc_ref k) ns) ps) = map (input_edge (calc_ref k) ns) ps"
    by (simp add: filter_id_conv)
  show ?case
  proof (cases j)
    case 0
    then show ?thesis using own by (simp only: input_edges.simps filter_append input_edges_other [OF lessI] all add_0_right append_Nil2 nth_Cons_0 fst_conv) simp
  next
    case (Suc i)
    have "filter (\<lambda>e. parent_node e = calc_ref (k + j)) (map (input_edge (calc_ref k) ns) ps) = []" by (simp add: filter_empty_conv Suc)
    then show ?thesis using "2.IH" [of i] "2.prems" Suc by simp
  qed
qed simp

lemma output_edges_of: "j < length Q \<Longrightarrow>
  map (\<lambda>e. (edge_name e, edge_type e)) (filter (\<lambda>e. parent_node e = calc_ref (k + j)) (output_edges k Q)) = snd (Q ! j)"
proof (induction k Q arbitrary: j rule: output_edges.induct)
  case (2 k ps qs P)
  have parent: "parent_node (output_edge n t) = n" for n t by (simp add: output_edge_def split: prod.splits)
  have other: "filter (\<lambda>e. parent_node e = calc_ref m) (output_edges l R) = []" if "m < l" for m l R
    using that by (induction l R rule: output_edges.induct) (auto simp: parent filter_empty_conv)
  have own: "map (\<lambda>e. (edge_name e, edge_type e)) (map (output_edge (calc_ref k)) qs) = qs"
    by (rule nth_equalityI) (simp_all add: output_edge_def split: prod.splits)
  show ?case
  proof (cases j)
    case 0
    then show ?thesis using own by (simp add: other parent filter_map comp_def)
  next
    case (Suc i)
    have "filter (\<lambda>e. parent_node e = calc_ref (k + j)) (map (output_edge (calc_ref k)) qs) = []" by (simp add: filter_empty_conv parent Suc)
    then show ?thesis using "2.IH" [of i] "2.prems" Suc by simp
  qed
qed simp

lemma streams_wired:
  assumes g: "entered h ns L Q H G'" and found: "all_found ns Q" and e: "e \<in> set (map (filled (stream_to_producer G')) (input_streams G'))"
    and backs: "backs_known ns Q"
  defines "G \<equiv> G'\<lparr>input_streams := map (filled (stream_to_producer G')) (input_streams G')\<rparr>"
  shows "stream_wired G e"
proof -
  have m: "stream_to_producer G' = name_map (stream_names G')" "distinct (stream_names G')" and out: "output_streams G' = graph_inputs h ns @ output_edges 0 Q"
    and inp: "input_streams G' = input_edges ns 0 Q" using g unfolding entered_def names_entered_def by blast+
  have names: "stream_names G' = ns @ output_names Q" by (simp add: out)
  have len: "length (graph_inputs h ns) = length ns" by (simp add: graph_inputs_def)
  have elen: "length (output_edges k ys) = length (output_names ys)" for k ys by (metis output_edges_names length_map)
  obtain d where d: "d \<in> set (input_edges ns 0 Q)" "e = filled (stream_to_producer G') d" using e inp by auto
  from input_edges_split [OF d(1)] obtain xs ps qs ys t where Q: "Q = xs @ (ps, qs) # ys" "t \<in> set ps"
    and d': "d = input_edge (calc_ref (length xs)) (ns @ output_names xs) t" by auto
  obtain n a b where t: "t = (n, a, b)" by (cases t)
  have outs: "output_streams G = graph_inputs h ns @ output_edges 0 xs @ output_edges (length xs) ((ps, qs) # ys)"
    unfolding G_def using out by (simp add: Q(1) output_edges_append del: output_edges.simps)
  have dist: "distinct (ns @ output_names xs)" 
  proof -
    have "ns @ output_names Q = (ns @ output_names xs) @ output_names ((ps, qs) # ys)" unfolding Q(1) by simp
    then show ?thesis using m(2) unfolding names by (simp only: distinct_append)
  qed
  show ?thesis
  proof (cases b)
    case True
    have "n \<in> set (stream_names G')" using backs Q(2) True unfolding names backs_known_def Q(1) t by auto
    then obtain p where p: "name_map (stream_names G') n = Some p" using name_map_None by (metis option.exhaust)
    then have "0 \<le> p" "nat p < length (output_streams G')" "edge_name (output_streams G' ! nat p) = n" unfolding name_map_Some [OF m(2)] by auto
    moreover have "e = d\<lparr>upstream := p\<rparr>" "edge_name d = n" "back_edge d" using d(2) p True by (simp_all add: filled_def d' t input_edge_def m(1))
    ultimately show ?thesis by (simp add: stream_wired_def G_def Let_def)
  next
    case False
    have "all_found (ns @ output_names xs) ((ps, qs) # ys)" using found unfolding Q(1) all_found_append by blast
    then have "found (ns @ output_names xs) (n, a, b)" using Q(2) unfolding t by (simp add: list_all_iff)
    then have "n \<in> set (ns @ output_names xs)" using False by (simp add: found_def)
    then obtain p where p: "name_map (ns @ output_names xs) n = Some p" using name_map_None by (metis option.exhaust)
    then have range: "0 \<le> p" "nat p < length (ns @ output_names xs)" "(ns @ output_names xs) ! nat p = n" unfolding name_map_Some [OF dist] by auto
    have ed: "e = d" "upstream d = p" "edge_name d = n" "parent_node d = calc_ref (length xs)" using d(2) p False by (simp_all add: filled_def d' t input_edge_def)
    define x where "x = output_streams G ! nat p"
    have x: "x = (graph_inputs h ns @ output_edges 0 xs) ! nat p" "x \<in> set (graph_inputs h ns @ output_edges 0 xs)"
    proof -
      have l: "length (graph_inputs h ns @ output_edges 0 xs) = length (ns @ output_names xs)" unfolding length_append len elen ..
      show first: "x = (graph_inputs h ns @ output_edges 0 xs) ! nat p" unfolding x_def outs append_assoc [symmetric] using range(2) l by (simp only: nth_append if_P)
      show "x \<in> set (graph_inputs h ns @ output_edges 0 xs)" unfolding first using range(2) l by (metis nth_mem)
    qed
    have "nat p < length (output_streams G)" using range(2) by (simp add: outs len elen del: length_concat)
    moreover have "edge_name x = n"
    proof -
      have "map edge_name (graph_inputs h ns @ output_edges 0 xs) = ns @ output_names xs" by simp
      then show ?thesis unfolding x(1) using range(2,3) by (metis length_map nth_map)
    qed
    moreover have "ref_type (parent_node x) = GRAPH_INPUT_STREAM \<or> ref_type (parent_node x) = CALCULATOR \<and> ref_index (parent_node x) < int (length xs)"
    proof (cases "x \<in> set (graph_inputs h ns)")
      case True
      then show ?thesis by (auto simp: graph_inputs_def output_edge_def graph_input_ref_def)
    next
      case False
      then have "x \<in> set (output_edges 0 xs)" using x(2) by simp
      then have "(parent_node x, edge_name x) \<in> (\<Union>j < length xs. Pair (calc_ref (0 + j)) ` port_names (snd (xs ! j)))"
        unfolding output_edges_set [symmetric] by (rule imageI)
      then show ?thesis by auto
    qed
    ultimately show ?thesis using range(1) unfolding stream_wired_def ed Let_def x_def [symmetric] by simp
  qed
qed

lemma side_packets_wired:
  assumes side: "side_entered G" "output_side_packets G = side_outputs L" "input_side_packets G = side_inputs [] L @ concat (map (handler_inputs h (side_output_names L)) ks)"
    and sorted: "sorted_nodes G = map fst L" "distinct (map fst L)" "\<forall>n \<in> set (map fst L). ref_type n \<noteq> STATUS_HANDLER"
    and ordered: "side_ordered {} [] L" and e: "e \<in> set (input_side_packets G)"
  shows "side_wired G e"
proof -
  have d: "distinct (side_output_names L)" using side(1,2) by (simp add: side_entered_def)
  have names: "side_names G = side_output_names L" by (simp add: side(2))
  have "\<exists>xs ys n t. L = xs @ ys \<and> e = side_input_edge n (side_output_names xs) t \<and> n \<notin> fst ` set xs \<and>
      takeWhile (\<lambda>m. m \<noteq> n) (map fst L) = map fst xs \<and> (fst t \<notin> set (side_output_names xs) \<longrightarrow> fst t \<notin> set (side_output_names L))"
  proof (cases "e \<in> set (side_inputs [] L)")
    case True
    from side_inputs_split [OF this] obtain xs n ps qs ys t where L: "L = xs @ (n, ps, qs) # ys" "t \<in> set ps" "e = side_input_edge n (side_output_names xs) t" by auto
    have "distinct ([] @ side_output_names (xs @ (n, ps, qs) # ys))" using d unfolding L(1) by simp
    from side_ordered_unknown [OF ordered [unfolded L(1)] this, of "fst t"] L(2)
    have late: "fst t \<notin> set (side_output_names xs) \<longrightarrow> fst t \<notin> set (side_output_names L)" unfolding L(1) by auto
    have n: "n \<notin> set (map fst xs)" using sorted(2) unfolding L(1) by auto
    then have "takeWhile (\<lambda>m. m \<noteq> n) (map fst L) = map fst xs" unfolding L(1) map_append by (subst takeWhile_append2) auto
    then show ?thesis using L late n by (intro exI [of _ xs] exI [of _ "(n, ps, qs) # ys"] exI [of _ n] exI [of _ t]) simp
  next
    case False
    then obtain k where "e \<in> set (handler_inputs h (side_output_names L) k)" using e unfolding side(3) by auto
    then obtain t where t: "e = side_input_edge (handler_ref k) (side_output_names L) t" by (auto simp: handler_inputs_def)
    have "ref_type (handler_ref k) = STATUS_HANDLER" by (simp add: handler_ref_def)
    then have "handler_ref k \<notin> set (map fst L)" using sorted(3) by metis
    moreover from this have "takeWhile (\<lambda>m. m \<noteq> handler_ref k) (map fst L) = map fst L" unfolding takeWhile_eq_all_conv by metis
    ultimately show ?thesis using t by (intro exI [of _ L] exI [of _ "[]"] exI [of _ "handler_ref k"] exI [of _ t]) simp
  qed
  then obtain xs ys n t where L: "L = xs @ ys" "e = side_input_edge n (side_output_names xs) t" "takeWhile (\<lambda>m. m \<noteq> n) (map fst L) = map fst xs"
    "fst t \<notin> set (side_output_names xs) \<longrightarrow> fst t \<notin> set (side_output_names L)" by blast
  have ed: "edge_name e = fst t" "parent_node e = n" "upstream e = (case name_map (side_output_names xs) (fst t) of None \<Rightarrow> - 1 | Some p \<Rightarrow> p)"
    by (cases t; simp add: L(2) side_input_edge_def)+
  show ?thesis
  proof (cases "name_map (side_output_names xs) (fst t)")
    case None
    then have "fst t \<notin> set (side_output_names L)" using L(4) unfolding name_map_None by blast
    then show ?thesis using None by (simp add: side_wired_def ed side(2))
  next
    case (Some p)
    have "distinct (side_output_names xs)" using d unfolding L(1) by simp
    with Some have range: "0 \<le> p" "nat p < length (side_output_names xs)" "side_output_names xs ! nat p = fst t" by (simp_all add: name_map_Some)
    have "length (side_outputs xs) = length (side_output_names xs)" by (metis side_outputs_names length_map)
    then have p: "nat p < length (side_outputs xs)" using range(2) by simp
    define x where "x = output_side_packets G ! nat p"
    have x: "x = side_outputs xs ! nat p" unfolding x_def side(2) L(1) side_outputs_append using p by (simp add: nth_append)
    then have mem: "x \<in> set (side_outputs xs)" using p by simp
    have "edge_name x = fst t" using range(2,3) p unfolding x by (metis nth_map side_outputs_names)
    moreover have "(parent_node x, edge_name x) \<in> (\<Union>y \<in> set xs. Pair (fst y) ` port_names (snd (snd y)))"
      unfolding side_outputs_set [symmetric] using mem by (rule imageI)
    then have "parent_node x \<in> set (takeWhile (\<lambda>m. m \<noteq> n) (sorted_nodes G))" unfolding sorted(1) L(3) by auto
    moreover have "nat p < length (output_side_packets G)" using p by (simp add: side(2) L(1) side_outputs_append)
    moreover have "fst t \<in> set (side_names G)" unfolding names L(1) using range(2,3) nth_mem [OF range(2)] by simp
    ultimately show ?thesis unfolding side_wired_def ed Some using range(1) by (simp add: x_def)
  qed
qed

lemma wired_result:
  assumes "wired_from g ns P G" and known: "names_known ns P" and len: "length (side_ports_of g) = length (generators g) + length P"
  shows "list_all (stream_wired G) (input_streams G)" and "list_all (side_wired G) (input_side_packets G)"
    and "list_all (ports_wired G) [0..<length (calculators G)]" and "nodes_kept g G"
    and "list_all (producer_ok G (length ns)) (output_streams G)" and "\<exists>m. packet_types G = packet_types g @ replicate m any_type"
proof -
  define S where "S = side_ports_of g"
  define ng where "ng = length (generators g)"
  from assms(1) obtain vs h G' where vs: "distinct vs" "set vs = {..<length S}" and h: "in_order ns S P vs h" "length (generators h) = ng" "nodes_kept g h"
    and rest: "let L = side_list ng S vs; Q = map (nth P) (calc_order ng vs)
      in entered h ns L Q (concat (map (handler_inputs h (side_output_names L)) [0..<length (status_handlers h)])) G' \<and>
         side_ordered {} [] L \<and> all_found ns Q \<and> G = G'\<lparr>input_streams := map (filled (stream_to_producer G')) (input_streams G')\<rparr>"
    and types: "\<exists>m. packet_types h = packet_types g @ replicate m any_type"
    unfolding wired_from_def S_def ng_def by blast
  define L where "L = side_list ng S vs"
  define Q where "Q = map (nth P) (calc_order ng vs)"
  define H where "H = concat (map (handler_inputs h (side_output_names L)) [0..<length (status_handlers h)])"
  have e: "entered h ns L Q H G'" and o: "side_ordered {} [] L" "all_found ns Q"
    and G: "G = G'\<lparr>input_streams := map (filled (stream_to_producer G')) (input_streams G')\<rparr>"
    using rest unfolding Let_def L_def Q_def H_def by blast+
  have "backs_known ns Q" using known names_known_order [OF vs len [folded S_def ng_def]] unfolding names_known_iff Q_def by blast
  note stream = streams_wired [OF e o(2) _ this, folded G]
  show "list_all (stream_wired G) (input_streams G)" using stream by (simp add: list_all_iff G)
  have same: "same_nodes h G'" and s: "side_entered G'" "output_side_packets G' = side_outputs L" "input_side_packets G' = side_inputs [] L @ H"
    using e unfolding entered_def by blast+
  have sorted: "sorted_nodes h = sorted_refs ng 0 0 vs" "sorted_nodes G' = sorted_nodes h" using h(1,2) same unfolding in_order_def same_nodes_def by simp_all
  then have fst_L: "sorted_nodes G' = map fst L" "map fst L = sorted_refs ng 0 0 vs" by (simp_all add: L_def side_list_def)
  have refs: "distinct (map fst L)" "\<forall>n \<in> set (map fst L). ref_type n \<noteq> STATUS_HANDLER" unfolding fst_L(2) using sorted_refs_distinct by fastforce+
  have "side_entered G" "output_side_packets G = side_outputs L" "input_side_packets G = side_inputs [] L @ H" "sorted_nodes G = map fst L"
    using s fst_L(1) by (simp_all add: G side_entered_def)
  from side_packets_wired [OF this(1,2) this(3) [unfolded H_def] this(4) refs o(1)]
  show "list_all (side_wired G) (input_side_packets G)" by (simp add: list_all_iff)
  have kept: "nodes_kept h G" using same_nodes_kept [OF same] by (simp add: G nodes_kept_def)
  show "nodes_kept g G" by (rule nodes_kept_trans [OF h(3) kept])
  have out: "output_streams G' = graph_inputs h ns @ output_edges 0 Q" and inp: "input_streams G' = input_edges ns 0 Q" using e unfolding entered_def by blast+
  show "\<exists>m. packet_types G = packet_types g @ replicate m any_type"
    using types e unfolding entered_def G by (auto simp: replicate_add [symmetric])
  have conf: "config G' = config h" "length (calculators G') = length (calculators h)" using same same_nodes_length [OF same] unfolding same_nodes_def by blast+
  have "producer_ok G (length ns) x" if "x \<in> set (output_streams G)" for x
  proof (cases "x \<in> set (graph_inputs h ns)")
    case True
    then show ?thesis by (auto simp: graph_inputs_def output_edge_def graph_input_ref_def producer_ok_def G conf set_zip)
  next
    case False
    then have "x \<in> set (output_edges 0 Q)" using that out by (simp add: G)
    then have "(parent_node x, edge_name x) \<in> (\<Union>j < length Q. Pair (calc_ref (0 + j)) ` port_names (snd (Q ! j)))"
      unfolding output_edges_set [symmetric] by (rule imageI)
    moreover have "length Q = length (calculators G)"
    proof -
      have "all_nodes_are h Q" using h(1) unfolding in_order_def h(2) Q_def by blast
      then have "length Q = length (calculators h)" unfolding all_nodes_are_def by blast
      then show ?thesis by (simp add: G conf(2))
    qed
    ultimately show ?thesis by (auto simp: producer_ok_def)
  qed
  then show "list_all (producer_ok G (length ns)) (output_streams G)" by (simp add: list_all_iff)
  have all: "all_nodes_are G' Q" using same_nodes_all [OF same] h(1) unfolding in_order_def h(2) Q_def by blast
  have "ports_wired G k" if k: "k < length (calculators G')" for k
  proof -
    have k': "k < length Q" "info_node (calculators G' ! k) = calc_ref k" "node_ports G' k = Inr (Q ! k)"
      using all k unfolding all_nodes_are_def nodes_are_def by simp_all
    have np: "node_ports G k = node_ports G' k" "calculators G = calculators G'" by (simp_all add: G node_ports_def cong: sum.case_cong)
    have fields: "parent_node (filled f x) = parent_node x" "edge_name (filled f x) = edge_name x" "edge_type (filled f x) = edge_type x" "back_edge (filled f x) = back_edge x"
      for f x by (simp_all add: filled_def)
    have "map (\<lambda>e. (edge_name e, edge_type e, back_edge e)) (filter (\<lambda>e. parent_node e = calc_ref k) (input_streams G)) = fst (Q ! k)"
      using input_edges_of [OF k'(1), of 0 ns] by (simp add: G inp filter_map comp_def fields)
    moreover have "0 \<le> input_stream_base_index (calculators G ! k) \<and>
        nat (input_stream_base_index (calculators G ! k)) + length (ports (InputStreamTypes (calculators G ! k))) \<le> length (input_streams G) \<and>
        inputs_of G k = filter (\<lambda>e. parent_node e = calc_ref k) (input_streams G)"
    proof -
      have "bases G' ! k = int (sum_list (map (\<lambda>p. length (fst p)) (take k Q)))" using e k'(1) unfolding entered_def by blast
      then have start: "input_stream_base_index (calculators G ! k) = int (sum_list (map (\<lambda>p. length (fst p)) (take k Q)))" using k by (simp add: np)
      have count: "length (ports (InputStreamTypes (calculators G ! k))) = length (fst (Q ! k))"
      proof -
        have "length (marked_ports t marks) = length (ports t)" for t marks by (simp add: marked_ports_def)
        then show ?thesis using k'(3) unfolding np by (cases "Q ! k") (auto simp: node_ports_def split: sum.splits)
      qed
      show ?thesis unfolding inputs_of_def start count using input_edges_of [OF k'(1), of 0 ns]
        by (simp add: G inp filter_map comp_def fields take_map drop_map)
    qed
    moreover have "filter (\<lambda>e. parent_node e = calc_ref k) (graph_inputs h ns) = []"
      by (auto simp: filter_empty_conv graph_inputs_def output_edge_def graph_input_ref_def calc_ref_def)
    then have "map (\<lambda>e. (edge_name e, edge_type e)) (filter (\<lambda>e. parent_node e = calc_ref k) (output_streams G)) = snd (Q ! k)"
      using output_edges_of [OF k'(1), of 0] by (simp add: G out)
    ultimately show ?thesis unfolding ports_wired_def np k'(2,3) by simp
  qed
  then show "list_all (ports_wired G) [0..<length (calculators G)]" by (simp add: list_all_iff G)
qed

lemma wire_wired:
  assumes "graph_ready g ns P" "wire g = Inr G"
  shows "wired_from g ns P G" "names_known ns P"
proof -
  have "wirable g ns P" using wire_result(2) [OF assms(1)] assms(2) by fastforce
  then show "wired_from g ns P G" "names_known ns P" using wire_result(1) [OF assms(1)] assms(2) by (auto simp: wirable_def)
qed

section \<open>An example\<close>

text \<open>Two calculators in the wrong order: the first takes what the second makes of a stream that enters the graph.\<close>

definition example_ports :: "string \<Rightarrow> PacketTypeSet" where
  "example_ports n = \<lparr>pts_tag_map = \<lparr>tm_mapping = [([], \<lparr>td_id = 0, td_count = 1\<rparr>)], tm_names = [n], num_entries = 1\<rparr>, pts_types = [0], pts_missing = None\<rparr>"

definition no_ports :: PacketTypeSet where
  "no_ports = \<lparr>pts_tag_map = \<lparr>tm_mapping = [], tm_names = [], num_entries = 0\<rparr>, pts_types = [], pts_missing = None\<rparr>"

definition example_node :: "nat \<Rightarrow> string \<Rightarrow> string \<Rightarrow> NodeTypeInfo" where
  "example_node k a b = \<lparr>info_node = calc_ref k, InputSidePacketTypes = no_ports, OutputSidePacketTypes = no_ports,
     InputStreamTypes = example_ports a, OutputStreamTypes = example_ports b, input_side_packet_base_index = 0, output_side_packet_base_index = 0,
     input_stream_base_index = 0, output_stream_base_index = 0, ancestor_sources = {}\<rparr>"

definition example_graph :: graph where
  "example_graph = \<lparr>config = \<lparr>config_nodes = replicate 2 \<lparr>input_stream_info = [], node_executor = []\<rparr>,
       config_input_stream = [''in'', ''A:0:x'', ''A:1:y'', ''B:b''], config_output_stream = [''in'', ''A:0:x'', ''A:1:y'', ''B:b''], config_executors = []\<rparr>,
     calculators = [example_node 0 ''m'' ''r'', example_node 1 ''in'' ''m''], generators = [], status_handlers = [], sorted_nodes = [],
     stream_to_producer = Map.empty, output_streams_to_consumer_nodes = Map.empty, side_packet_to_producer = Map.empty, required_side_packets = [],
     input_streams = [], output_streams = [], input_side_packets = [], output_side_packets = [], packet_types = []\<rparr>"

lemma example_graph_ready:
  "graph_ready example_graph [''in'', ''x'', ''y'', ''b''] [([(''m'', 0, False)], [(''r'', 0)]), ([(''in'', 0, False)], [(''m'', 0)])]"
proof -
  have "node_ports example_graph 0 = Inr ([(''m'', 0, False)], [(''r'', 0)])" "node_ports example_graph 1 = Inr ([(''in'', 0, False)], [(''m'', 0)])"
    by (simp_all add: node_ports_def example_graph_def example_node_def is_back_edge_def marked_ports_def ports_def example_ports_def)
  then have "all_nodes_are example_graph [([(''m'', 0, False)], [(''r'', 0)]), ([(''in'', 0, False)], [(''m'', 0)])]"
    by (simp add: all_nodes_are_def nodes_are_Cons) (simp add: nodes_are_def example_graph_def example_node_def)
  moreover have "streams_named example_graph [''in'', ''x'', ''y'', ''b'']"
    unfolding streams_named_def using example_tag_map by (simp add: example_graph_def)
  moreover have "length (config_nodes (config example_graph)) = length (calculators example_graph)" by (simp add: example_graph_def)
  moreover have "handlers_ok example_graph \<and> no_streams example_graph \<and> no_side_packets example_graph \<and> generators example_graph = []"
    by (simp add: example_graph_def handlers_ok_def no_streams_def no_side_packets_def)
  ultimately show ?thesis by (simp add: graph_ready_def)
qed

lemma example_dependencies:
  "dependencies (side_ports_of example_graph) 0 [([(''m'', 0, False)], [(''r'', 0)]), ([(''in'', 0, False)], [(''m'', 0)])] \<subseteq> {(1, 0)}"
proof (rule subrelI)
  fix u v
  assume d: "(u, v) \<in> dependencies (side_ports_of example_graph) 0 [([(''m'', 0, False)], [(''r'', 0)]), ([(''in'', 0, False)], [(''m'', 0)])]"
  have S: "side_ports_of example_graph = [([], []), ([], [])]"
    by (simp add: side_ports_of_def example_graph_def example_node_def no_ports_def ports_def)
  from d have "u < 2" "v < 2" by (simp_all add: dependencies_def S)
  then consider "u = 0" "v = 0" | "u = 0" "v = 1" | "u = 1" "v = 0" | "u = 1" "v = 1" by linarith
  then show "(u, v) \<in> {(1, 0)}" using d by cases (simp_all add: dependencies_def S side_feeds_def stream_feeds_def)
qed

lemma example_wirable: "wirable example_graph [''in'', ''x'', ''y'', ''b''] [([(''m'', 0, False)], [(''r'', 0)]), ([(''in'', 0, False)], [(''m'', 0)])]"
proof -
  have "generators example_graph = []" "side_ports_of example_graph = [([], []), ([], [])]"
    by (simp_all add: side_ports_of_def example_graph_def example_node_def no_ports_def ports_def)
  moreover have "acyclic (dependencies (side_ports_of example_graph) 0 [([(''m'', 0, False)], [(''r'', 0)]), ([(''in'', 0, False)], [(''m'', 0)])])"
    by (rule acyclic_subset [OF _ example_dependencies]) (simp add: acyclic_insert acyclic_def [of "{}"])
  ultimately show ?thesis by (simp add: wirable_def names_known_def)
qed

section \<open>Properties\<close>

text \<open>
  C38: A graph is wired exactly when no two outputs have one name, neither of the streams with the streams that enter the graph nor of the side packets, when every input
  stream has the name of an output or of a stream that enters the graph, and when the nodes do not feed each other in a cycle of streams, without the back edges, and
  side packets; in all other cases an error is returned.  In which order the nodes were given does not matter.
\<close>

theorem wiring_succeeds_iff:
  assumes "graph_ready g ns P"
  shows "(\<exists>G. wire g = Inr G) \<longleftrightarrow> distinct (side_port_names (side_ports_of g)) \<and> distinct (ns @ output_names P) \<and> names_known ns P \<and>
    acyclic (dependencies (side_ports_of g) (length (generators g)) P)"
  using wire_result [OF assms] unfolding wirable_def by fastforce

theorem wiring_succeeds_iff_witness: "\<exists>G. wire example_graph = Inr G"
  using wiring_succeeds_iff [OF example_graph_ready] example_wirable unfolding wirable_def by blast

text \<open>
  C39: The wired graph. Every input stream is fed by the output of its name, which belongs to a stream that enters the graph or to an earlier calculator unless the input
  is marked as a back edge; every input side packet is fed by the output of its name of an earlier node, or by none where no node makes a side packet of that name; the edges
  of a calculator are its ports in their order; and the nodes are those that were given, calculators numbered anew.
\<close>

theorem wiring_correct:
  assumes "graph_ready g ns P" "wire g = Inr G"
  shows "list_all (stream_wired G) (input_streams G) \<and> list_all (side_wired G) (input_side_packets G) \<and>
    list_all (ports_wired G) [0..<length (calculators G)] \<and> nodes_kept g G"
  using wired_result(1-4) [OF wire_wired [OF assms] ready_length [OF assms(1)]] by blast

theorem wiring_correct_witness:
  "\<exists>G. wire example_graph = Inr G \<and> list_all (stream_wired G) (input_streams G) \<and> nodes_kept example_graph G"
proof -
  obtain G where "wire example_graph = Inr G" using wire_result(1) [OF example_graph_ready example_wirable] by blast
  with wiring_correct [OF example_graph_ready this] show ?thesis by blast
qed

end
