(* ===== verification/Graph_Validation.thy ===== *)
theory Graph_Validation
  imports Graph_Wiring
begin

text \<open>
  The rest of \<^verbatim>\<open>framework/validated_graph_config.h\<close> and \<^verbatim>\<open>.cc\<close>: which sources affect a node along edges to later nodes, the executors, the side packets that must be given,
  and \<open>Initialize\<close> as a whole.
\<close>

section \<open>Looking up\<close>

definition OutputStreamIndex :: "string \<Rightarrow> graph \<Rightarrow> int" where
  "OutputStreamIndex name g = (case stream_to_producer g name of None \<Rightarrow> - 1 | Some i \<Rightarrow> i)"

definition OutputSidePacketIndex :: "string \<Rightarrow> graph \<Rightarrow> int" where
  "OutputSidePacketIndex name g = (case side_packet_to_producer g name of None \<Rightarrow> - 1 | Some i \<Rightarrow> i)"

definition OutputStreamToNode :: "string \<Rightarrow> graph \<Rightarrow> int" where
  "OutputStreamToNode name g = (case stream_to_producer g name of None \<Rightarrow> - 1 | Some i \<Rightarrow> ref_index (parent_node (output_streams g ! nat i)))"

definition OutputStreamToConsumers :: "int \<Rightarrow> graph \<Rightarrow> int list" where
  "OutputStreamToConsumers i g = (case output_streams_to_consumer_nodes g i of None \<Rightarrow> [] | Some l \<Rightarrow> l)"

definition IsExternalSidePacket :: "string \<Rightarrow> graph \<Rightarrow> bool" where
  "IsExternalSidePacket name g \<longleftrightarrow> name \<in> set (map fst (required_side_packets g))"

text \<open>The registered type of a side packet or stream: the first of the types at its output and its inputs that is registered.\<close>

fun first_registered :: "(nat \<Rightarrow> string option) \<Rightarrow> types \<Rightarrow> nat list \<Rightarrow> string option option" where
  "first_registered registered h [] = Some None"
| "first_registered registered h (a # as) =
     (case RegisteredTypeName registered h a of
        None \<Rightarrow> None
      | Some (Some n) \<Rightarrow> Some (Some n)
      | Some None \<Rightarrow> first_registered registered h as)"

definition RegisteredSidePacketTypeName :: "(nat \<Rightarrow> string option) \<Rightarrow> string \<Rightarrow> graph \<Rightarrow> (graph_error + string) option" where
  "RegisteredSidePacketTypeName registered name g =
     (let outs = (case side_packet_to_producer g name of None \<Rightarrow> [] | Some i \<Rightarrow> [edge_type (output_side_packets g ! nat i)]);
          ins = map edge_type (filter (\<lambda>e. edge_name e = name) (input_side_packets g))
      in map_option (\<lambda>r. case r of
             Some n \<Rightarrow> Inr n
           | None \<Rightarrow> if outs = [] \<and> ins = [] then Inl GraphInvalidArgument else Inl UnknownError)
           (first_registered registered (packet_types g) (outs @ ins)))"

definition RegisteredStreamTypeName :: "(nat \<Rightarrow> string option) \<Rightarrow> string \<Rightarrow> graph \<Rightarrow> (graph_error + string) option" where
  "RegisteredStreamTypeName registered name g =
     (case stream_to_producer g name of
        None \<Rightarrow> Some (Inl GraphInvalidArgument)
      | Some i \<Rightarrow> map_option (\<lambda>r. case r of Some n \<Rightarrow> Inr n | None \<Rightarrow> Inl UnknownError)
          (first_registered registered (packet_types g)
            (edge_type (output_streams g ! nat i) # map edge_type (filter (\<lambda>e. upstream e = i) (input_streams g)))))"

section \<open>Side packets that are given\<close>

definition CanAcceptSidePackets :: "string list \<Rightarrow> graph \<Rightarrow> graph_error + unit" where
  "CanAcceptSidePackets names g = (if list_ex (\<lambda>e. edge_name e \<in> set names) (output_side_packets g) then Inl UnknownError else Inr ())"

text \<open>Whether the side packets are as required; \<open>all_optional\<close> is the loop over the inputs of a side packet that was not given.\<close>

definition all_optional :: "graph \<Rightarrow> nat list \<Rightarrow> bool" where
  "all_optional g l = list_all (\<lambda>i. is_optional (packet_types g ! edge_type (input_side_packets g ! i))) l"

definition required_item :: "('a \<Rightarrow> nat) \<Rightarrow> (string \<Rightarrow> 'a packet option) \<Rightarrow> graph \<Rightarrow> string \<times> nat list \<Rightarrow> bool option" where
  "required_item tid given g = (\<lambda>(name, l).
     case given name of
       None \<Rightarrow> Some (all_optional g l)
     | Some p \<Rightarrow> map_option (list_all (\<lambda>ok. ok)) (those (map (\<lambda>i. Validate tid (packet_types g) (edge_type (input_side_packets g ! i)) p) l)))"

definition ValidateRequiredSidePackets :: "('a \<Rightarrow> nat) \<Rightarrow> (string \<Rightarrow> 'a packet option) \<Rightarrow> graph \<Rightarrow> bool option" where
  "ValidateRequiredSidePackets tid given g = map_option (list_all (\<lambda>ok. ok)) (those (map (required_item tid given g) (required_side_packets g)))"

text \<open>The types that are given are positions in the list of types.  A type that does not fit ends the loop at once.\<close>

fun consistent_inputs :: "graph \<Rightarrow> nat \<Rightarrow> nat list \<Rightarrow> bool option" where
  "consistent_inputs g b [] = Some True"
| "consistent_inputs g b (i # is) =
     (case IsConsistentWith (packet_types g) (edge_type (input_side_packets g ! i)) b of
        None \<Rightarrow> None
      | Some ok \<Rightarrow> if ok then consistent_inputs g b is else Some False)"

fun required_types :: "(string \<Rightarrow> nat option) \<Rightarrow> graph \<Rightarrow> (string \<times> nat list) list \<Rightarrow> bool \<Rightarrow> bool option" where
  "required_types given g [] no_statuses = Some no_statuses"
| "required_types given g ((name, l) # items) no_statuses =
     (case given name of
        None \<Rightarrow> required_types given g items (no_statuses \<and> all_optional g l)
      | Some b \<Rightarrow> (case consistent_inputs g b l of
            None \<Rightarrow> None
          | Some ok \<Rightarrow> if ok then required_types given g items no_statuses else Some False))"

definition ValidateRequiredSidePacketTypes :: "(string \<Rightarrow> nat option) \<Rightarrow> graph \<Rightarrow> bool option" where
  "ValidateRequiredSidePacketTypes given g = required_types given g (required_side_packets g) True"

section \<open>Executors\<close>

definition IsReservedExecutorName :: "string \<Rightarrow> bool" where
  "IsReservedExecutorName name \<longleftrightarrow> name = ''default'' \<or> name = ''gpu'' \<or> take 2 name = ''__''"

definition declare_executor :: "string \<Rightarrow> string list \<Rightarrow> graph_error + string list" where
  "declare_executor name declared_names =
     (if IsReservedExecutorName name then Inl GraphInvalidArgument
      else if name \<in> set declared_names then Inl GraphInvalidArgument
      else Inr (name # declared_names))"

definition check_executor :: "NodeConfig \<Rightarrow> string list \<Rightarrow> graph_error + string list" where
  "check_executor node declared_names =
     (if node_executor node = [] then Inr declared_names
      else if IsReservedExecutorName (node_executor node) then Inl GraphInvalidArgument
      else if node_executor node \<notin> set declared_names then Inl GraphInvalidArgument
      else Inr declared_names)"

definition ValidateExecutors :: "graph \<Rightarrow> graph_error + string list" where
  "ValidateExecutors g =
     (case run_steps declare_executor (config_executors (config g)) [] of
        Inl e \<Rightarrow> Inl e
      | Inr declared_names \<Rightarrow> run_steps check_executor (config_nodes (config g)) declared_names)"

section \<open>Sources\<close>

definition AddSources :: "nat \<Rightarrow> int set \<Rightarrow> graph \<Rightarrow> graph" where
  "AddSources k s g = g\<lparr>calculators := (calculators g)
     [k := (calculators g ! k)\<lparr>ancestor_sources := ancestor_sources (calculators g ! k) \<union> s\<rparr>]\<rparr>"

text \<open>One input stream of a calculator.\<close>

definition add_stream_sources :: "nat \<Rightarrow> int \<Rightarrow> graph \<Rightarrow> graph_error + graph" where
  "add_stream_sources k stream_index g =
     (if \<not> (0 \<le> stream_index \<and> stream_index < int (length (input_streams g))) then Inl GraphRetCheck
      else
     (let input_edge_info = input_streams g ! nat stream_index
      in if upstream input_edge_info < 0 then Inl GraphRetCheck
      else
     (let parent = parent_node (output_streams g ! nat (upstream input_edge_info))
      in if ref_index parent < 0 \<or> int (length (calculators g) + length (config_input_stream (config g))) < ref_index parent then Inl GraphRetCheck
         else if ref_type parent = GRAPH_INPUT_STREAM then Inr (AddSources k {ref_index parent} g)
         else Inr (AddSources k (ancestor_sources (calculators g ! nat (ref_index parent))) g))))"

definition add_node_sources :: "nat \<Rightarrow> graph \<Rightarrow> graph_error + graph" where
  "add_node_sources k g =
     (let info = calculators g ! k; n = num_entries (pts_tag_map (InputStreamTypes info))
      in if n = 0 then Inr (AddSources k {int k} g)
         else run_steps (add_stream_sources k) [input_stream_base_index info..input_stream_base_index info + n - 1] g)"

definition ComputeSourceDependence :: "graph \<Rightarrow> graph_error + graph" where
  "ComputeSourceDependence g = run_steps add_node_sources [0..<length (calculators g)] g"

section \<open>All of it\<close>

text \<open>\<open>Initialize\<close> from the point where the nodes are known; \<open>None\<close> is that it does not return.\<close>

definition Initialize :: "graph \<Rightarrow> (graph_error + graph) option" where
  "Initialize g =
     (case wire g of
        Inl e \<Rightarrow> Some (Inl e)
      | Inr g1 \<Rightarrow>
     (case Option.bind (ResolveAnyTypes (input_streams g1) (output_streams g1) (packet_types g1)) (\<lambda>h.
           Option.bind (ResolveOneOfTypes (input_streams g1) (output_streams g1) h) (\<lambda>h.
           Option.bind (ResolveAnyTypes (input_side_packets g1) (output_side_packets g1) h)
             (ResolveOneOfTypes (input_side_packets g1) (output_side_packets g1)))) of
        None \<Rightarrow> None
      | Some h \<Rightarrow>
     (case ValidateSidePacketTypes (input_side_packets g1) (output_side_packets g1) h of
        None \<Rightarrow> None
      | Some ok \<Rightarrow> if \<not> ok then Some (Inl UnknownError) else
     (case ValidateStreamTypes (input_streams g1) (output_streams g1) h of
        None \<Rightarrow> None
      | Some ok \<Rightarrow> if \<not> ok then Some (Inl UnknownError) else
     (case ComputeSourceDependence (g1\<lparr>packet_types := h\<rparr>) of
        Inl e \<Rightarrow> Some (Inl e)
      | Inr g2 \<Rightarrow>
     (case ValidateExecutors g2 of Inl e \<Rightarrow> Some (Inl e) | Inr _ \<Rightarrow> Some (Inr g2)))))))"

section \<open>Which sources affect a node\<close>

abbreviation feeder :: "graph \<Rightarrow> EdgeInfo \<Rightarrow> NodeRef" where
  "feeder G e \<equiv> parent_node (output_streams G ! nat (upstream e))"

text \<open>A source is a calculator without inputs, by its index, or a stream that enters the graph, by the index of its virtual node.  It affects what it feeds, also through
  other calculators, along the edges that lead to later calculators.\<close>

inductive affects :: "graph \<Rightarrow> int \<Rightarrow> nat \<Rightarrow> bool" for G where
  source: "k < length (calculators G) \<Longrightarrow> inputs_of G k = [] \<Longrightarrow> affects G (int k) k"
| graph_input: "k < length (calculators G) \<Longrightarrow> e \<in> set (inputs_of G k) \<Longrightarrow> ref_type (feeder G e) = GRAPH_INPUT_STREAM \<Longrightarrow> affects G (ref_index (feeder G e)) k"
| earlier: "k < length (calculators G) \<Longrightarrow> e \<in> set (inputs_of G k) \<Longrightarrow> feeder G e = calc_ref j \<Longrightarrow> j < k \<Longrightarrow> affects G s j \<Longrightarrow> affects G s k"

inductive_simps affects_iff: "affects G s k"

definition with_sources :: "(nat \<Rightarrow> int set) \<Rightarrow> graph \<Rightarrow> graph" where
  "with_sources A G = G\<lparr>calculators := map (\<lambda>k. (calculators G ! k)\<lparr>ancestor_sources := A k\<rparr>) [0..<length (calculators G)]\<rparr>"

lemma with_sources_simps [simp]:
  "length (calculators (with_sources A G)) = length (calculators G)" "input_streams (with_sources A G) = input_streams G"
  "output_streams (with_sources A G) = output_streams G" "config (with_sources A G) = config G"
  "k < length (calculators G) \<Longrightarrow> calculators (with_sources A G) ! k = (calculators G ! k)\<lparr>ancestor_sources := A k\<rparr>"
  by (simp_all add: with_sources_def)

lemma AddSources_with:
  "k < length (calculators G) \<Longrightarrow> AddSources k s (with_sources A G) = with_sources (A(k := A k \<union> s)) G"
proof -
  assume k: "k < length (calculators G)"
  have "(map (\<lambda>k. (calculators G ! k)\<lparr>ancestor_sources := A k\<rparr>) [0..<length (calculators G)])[k := (calculators G ! k)\<lparr>ancestor_sources := A k \<union> s\<rparr>] =
      map (\<lambda>j. (calculators G ! j)\<lparr>ancestor_sources := (A(k := A k \<union> s)) j\<rparr>) [0..<length (calculators G)]"
    by (rule nth_equalityI) (use k in \<open>auto simp: nth_list_update\<close>)
  with k show ?thesis by (simp add: AddSources_def with_sources_def)
qed

lemma with_no_sources: "\<forall>i \<in> set (calculators G). ancestor_sources i = {} \<Longrightarrow> with_sources (\<lambda>k. {}) G = G"
proof -
  assume a: "\<forall>i \<in> set (calculators G). ancestor_sources i = {}"
  have "map (\<lambda>k. (calculators G ! k)\<lparr>ancestor_sources := {}\<rparr>) [0..<length (calculators G)] = calculators G"
    by (rule nth_equalityI) (use a in \<open>auto simp: NodeTypeInfo.equality\<close>)
  then show ?thesis by (simp add: with_sources_def)
qed

lemma affects_same:
  assumes "length (calculators G') = length (calculators G)" "output_streams G' = output_streams G"
    and "\<And>k. k < length (calculators G) \<Longrightarrow> inputs_of G' k = inputs_of G k"
  shows "affects G s k \<Longrightarrow> affects G' s k"
proof (induction rule: affects.induct)
  case (source k)
  then show ?case using assms affects.source [of k G'] by simp
next
  case (graph_input k e)
  then show ?case using assms affects.graph_input [of k G' e] by simp
next
  case (earlier k e j s)
  then show ?case using assms affects.earlier [of k G' e j s] by simp
qed

lemma inputs_of_with:
  "k < length (calculators G) \<Longrightarrow> inputs_of (with_sources A G) k = inputs_of G k"
  by (simp add: inputs_of_def)

lemma affects_with: "affects (with_sources A G) = affects G"
  using affects_same [of "with_sources A G" G] affects_same [of G "with_sources A G"] inputs_of_with by (intro ext) auto

text \<open>A calculator without inputs that comes later never counts, whatever it feeds through a back edge.\<close>

lemma later_source_missed:
  "affects G s k \<Longrightarrow> (\<exists>e \<in> set (input_streams G). ref_type (feeder G e) = GRAPH_INPUT_STREAM \<and> s = ref_index (feeder G e)) \<or> s \<le> int k"
proof (induction rule: affects.induct)
  case (graph_input k e)
  then have "e \<in> set (input_streams G)" unfolding inputs_of_def by (meson in_set_dropD in_set_takeD)
  with graph_input show ?case by blast
qed auto

definition source_ready :: "graph \<Rightarrow> bool" where
  "source_ready G \<longleftrightarrow> list_all (stream_wired G) (input_streams G) \<and> list_all (ports_wired G) [0..<length (calculators G)] \<and>
     list_all (producer_ok G (length (config_input_stream (config G)))) (output_streams G) \<and>
     length (config_nodes (config G)) = length (calculators G) \<and>
     (\<forall>i \<in> set (calculators G). num_entries (pts_tag_map (InputStreamTypes i)) = int (length (ports (InputStreamTypes i))) \<and> ancestor_sources i = {})"

definition contributes :: "graph \<Rightarrow> (nat \<Rightarrow> int set) \<Rightarrow> EdgeInfo \<Rightarrow> int set" where
  "contributes G A e = (if ref_type (feeder G e) = GRAPH_INPUT_STREAM then {ref_index (feeder G e)} else A (nat (ref_index (feeder G e))))"

lemma add_stream_sources_result:
  assumes G: "source_ready G" and k: "k < length (calculators G)" and i: "i < length (input_streams G)"
  shows "add_stream_sources k (int i) (with_sources A G) = Inr (with_sources (A(k := A k \<union> contributes G A (input_streams G ! i))) G)"
proof -
  let ?e = "input_streams G ! i"
  have "stream_wired G ?e" using G i unfolding source_ready_def list_all_iff by simp
  then have up: "0 \<le> upstream ?e" "nat (upstream ?e) < length (output_streams G)" by (simp_all add: stream_wired_def)
  have "list_all (producer_ok G (length (config_input_stream (config G)))) (output_streams G)" and n: "length (config_nodes (config G)) = length (calculators G)"
    using G unfolding source_ready_def by blast+
  then have p: "producer_ok G (length (config_input_stream (config G))) (output_streams G ! nat (upstream ?e))" using up(2) by (simp add: list_all_length)
  show ?thesis
  proof (cases "ref_type (feeder G ?e) = GRAPH_INPUT_STREAM")
    case True
    with p n have "0 \<le> ref_index (feeder G ?e)" "ref_index (feeder G ?e) < int (length (calculators G) + length (config_input_stream (config G)))"
      by (auto simp: producer_ok_def)
    then show ?thesis using True up i k by (simp add: add_stream_sources_def Let_def contributes_def AddSources_with)
  next
    case False
    with p obtain j where "j < length (calculators G)" "feeder G ?e = calc_ref j" by (auto simp: producer_ok_def)
    then show ?thesis using False up i k by (simp add: add_stream_sources_def Let_def contributes_def AddSources_with)
  qed
qed

lemma add_streams_result:
  assumes G: "source_ready G" and k: "k < length (calculators G)"
  shows "\<forall>i \<in> set is. i < length (input_streams G) \<Longrightarrow> run_steps (add_stream_sources k) (map int is) (with_sources A G) =
    Inr (with_sources (A(k := A k \<union> (\<Union>i \<in> set is. contributes G (A(k := {})) (input_streams G ! i)))) G)"
proof (induction "is" arbitrary: A)
  case Nil
  then show ?case by (simp add: fun_upd_idem)
next
  case (Cons i "is")
  let ?e = "input_streams G ! i"
  define A' where "A' = A(k := A k \<union> contributes G A ?e)"
  have own: "A k \<union> contributes G A ?e = A k \<union> contributes G (A(k := {})) ?e" by (auto simp: contributes_def)
  have same: "A'(k := {}) = A(k := {})" by (simp add: A'_def)
  have step: "add_stream_sources k (int i) (with_sources A G) = Inr (with_sources A' G)"
    using add_stream_sources_result [OF G k] Cons.prems unfolding A'_def by simp
  have "\<forall>i \<in> set is. i < length (input_streams G)" using Cons.prems by simp
  note rest = Cons.IH [OF this, of A', unfolded same]
  have upd: "A'(k := A' k \<union> X) = A(k := A k \<union> (contributes G (A(k := {})) ?e \<union> X))" for X
    unfolding A'_def own by (simp add: Un_assoc)
  show ?case unfolding list.map run_steps.simps step sum.case rest upd by (simp only: list.set UN_insert)
qed

lemma inputs_of_range:
  assumes G: "source_ready G" and k: "k < length (calculators G)"
  defines "b \<equiv> nat (input_stream_base_index (calculators G ! k))" and "n \<equiv> length (ports (InputStreamTypes (calculators G ! k)))"
  shows "length (inputs_of G k) = n" "set (inputs_of G k) = (\<lambda>i. input_streams G ! i) ` {b..<b + n}" "b + n \<le> length (input_streams G)"
    "input_stream_base_index (calculators G ! k) = int b"
proof -
  have w: "ports_wired G k" using G k unfolding source_ready_def list_all_iff by simp
  show range: "b + n \<le> length (input_streams G)" and "input_stream_base_index (calculators G ! k) = int b"
    using w unfolding ports_wired_def b_def n_def by simp_all
  have inputs: "inputs_of G k = map (nth (input_streams G)) [b..<b + n]"
    unfolding inputs_of_def b_def [symmetric] n_def [symmetric] using range by (intro nth_equalityI) simp_all
  show "length (inputs_of G k) = n" "set (inputs_of G k) = (\<lambda>i. input_streams G ! i) ` {b..<b + n}" unfolding inputs by simp_all
qed

lemma add_node_sources_result:
  assumes G: "source_ready G" and k: "k < length (calculators G)"
  shows "add_node_sources k (with_sources A G) = Inr (with_sources (A(k := A k \<union>
    (if inputs_of G k = [] then {int k} else \<Union>e \<in> set (inputs_of G k). contributes G (A(k := {})) e))) G)"
proof -
  define b where "b = nat (input_stream_base_index (calculators G ! k))"
  define n where "n = length (ports (InputStreamTypes (calculators G ! k)))"
  note range = inputs_of_range [OF G k, folded b_def n_def]
  have "num_entries (pts_tag_map (InputStreamTypes (calculators G ! k))) = int n" using G k unfolding source_ready_def n_def by simp
  then have run: "add_node_sources k (with_sources A G) =
      (if n = 0 then Inr (AddSources k {int k} (with_sources A G)) else run_steps (add_stream_sources k) [int b..int b + int n - 1] (with_sources A G))"
    using k range(4) by (simp add: add_node_sources_def Let_def)
  show ?thesis
  proof (cases "n = 0")
    case True
    then have "inputs_of G k = []" using range(1) by simp
    then show ?thesis using True by (simp add: run AddSources_with [OF k])
  next
    case False
    have idx: "[int b..int b + int n - 1] = map int [b..<b + n]"
      by (rule nth_equalityI) (simp_all add: nth_upto)
    have ne: "inputs_of G k \<noteq> []" using range(1) False by auto
    have "\<forall>i \<in> set [b..<b + n]. i < length (input_streams G)" using range(3) by simp
    from add_streams_result [OF G k this, of A] show ?thesis
      unfolding run idx if_not_P [OF False] if_not_P [OF ne] range(2) by simp
  qed
qed

lemma affects_step:
  assumes G: "source_ready G" and k: "k < length (calculators G)"
  defines "A \<equiv> \<lambda>j. if j < k then {s. affects G s j} else {}"
  shows "{s. affects G s k} = (if inputs_of G k = [] then {int k} else \<Union>e \<in> set (inputs_of G k). contributes G A e)"
proof (cases "inputs_of G k = []")
  case True
  then show ?thesis using k by (auto simp: affects_iff [of G _ k])
next
  case False
  have feeder: "ref_type (feeder G e) = GRAPH_INPUT_STREAM \<or> (\<exists>j. feeder G e = calc_ref j)" if e: "e \<in> set (inputs_of G k)" for e
  proof -
    from e have "e \<in> set (input_streams G)" unfolding inputs_of_def by (meson in_set_dropD in_set_takeD)
    then obtain i where i: "i < length (input_streams G)" "e = input_streams G ! i" by (auto simp: in_set_conv_nth)
    have "stream_wired G e" using G i unfolding source_ready_def list_all_iff by simp
    then have "nat (upstream e) < length (output_streams G)" by (simp add: stream_wired_def)
    moreover have "list_all (producer_ok G (length (config_input_stream (config G)))) (output_streams G)" using G unfolding source_ready_def by blast
    ultimately have "producer_ok G (length (config_input_stream (config G))) (output_streams G ! nat (upstream e))" by (simp add: list_all_length)
    then show ?thesis by (auto simp: producer_ok_def)
  qed
  have "affects G s k \<longleftrightarrow> (\<exists>e \<in> set (inputs_of G k). s \<in> contributes G A e)" for s
  proof
    assume "affects G s k"
    then show "\<exists>e \<in> set (inputs_of G k). s \<in> contributes G A e"
    proof cases
      case (graph_input e)
      then have "s \<in> contributes G A e" by (simp add: contributes_def)
      then show ?thesis using graph_input by blast
    next
      case (earlier e j)
      then have "s \<in> contributes G A e" by (simp add: contributes_def A_def)
      then show ?thesis using earlier by blast
    qed (use False in simp)
  next
    assume "\<exists>e \<in> set (inputs_of G k). s \<in> contributes G A e"
    then obtain e where e: "e \<in> set (inputs_of G k)" "s \<in> contributes G A e" by blast
    show "affects G s k"
    proof (cases "ref_type (feeder G e) = GRAPH_INPUT_STREAM")
      case True
      then show ?thesis using e affects.graph_input [OF k e(1) True] by (simp add: contributes_def)
    next
      case False
      then obtain j where j: "feeder G e = calc_ref j" using feeder [OF e(1)] by blast
      with e(2) have "j < k" "affects G s j" by (simp_all add: contributes_def A_def split: if_splits)
      then show ?thesis using affects.earlier [OF k e(1) j] by blast
    qed
  qed
  then show ?thesis using False by auto
qed

lemma ComputeSourceDependence_result:
  assumes G: "source_ready G"
  shows "ComputeSourceDependence G = Inr (with_sources (\<lambda>k. {s. affects G s k}) G)"
proof -
  define A where "A m = (\<lambda>j. if j < m then {s. affects G s j} else {})" for m
  have "run_steps add_node_sources [m..<length (calculators G)] (with_sources (A m) G) = Inr (with_sources (A (length (calculators G))) G)"
    if "m \<le> length (calculators G)" for m
    using that
  proof (induction "length (calculators G) - m" arbitrary: m)
    case (Suc d)
    then have m: "m < length (calculators G)" by simp
    have own: "A m m = {}" "(A m)(m := {}) = A m" by (auto simp: A_def fun_eq_iff)
    have "(A m)(m := A m m \<union> (if inputs_of G m = [] then {int m} else \<Union>e \<in> set (inputs_of G m). contributes G ((A m)(m := {})) e)) = A (Suc m)"
      unfolding own affects_step [OF G m, folded A_def, symmetric] by (auto simp: A_def fun_eq_iff less_Suc_eq)
    then have "add_node_sources m (with_sources (A m) G) = Inr (with_sources (A (Suc m)) G)" using add_node_sources_result [OF G m, of "A m"] by simp
    then show ?case using Suc m by (simp add: upt_rec [of m])
  qed simp
  from this [of 0] have "run_steps add_node_sources [0..<length (calculators G)] G = Inr (with_sources (A (length (calculators G))) G)"
    using with_no_sources G unfolding source_ready_def by (simp add: A_def)
  moreover have "with_sources (A (length (calculators G))) G = with_sources (\<lambda>k. {s. affects G s k}) G"
    by (simp add: with_sources_def A_def)
  ultimately show ?thesis by (simp add: ComputeSourceDependence_def)
qed

lemma tag_map_names_length:
  assumes "TagMap_Initialize ss = Inr tm"
  shows "length (tm_names tm) = length ss"
proof -
  obtain es gs where es: "parsed ss es" "groups_of (resolve es) gs" "tm = build gs" using initialized_groups [OF assms] .
  have "length ss = length es" using es(1) unfolding parsed_def by (rule list_all2_lengthD)
  then have "num_entries tm = int (length ss)"
    using build_size [OF es(2)] resolve_from_length [of es "[]"] by (simp add: es(3) resolve_def)
  then show ?thesis by (simp add: es(3) build_def)
qed

definition node_counts :: "graph \<Rightarrow> bool" where
  "node_counts g \<longleftrightarrow> (\<forall>i \<in> set (calculators g). num_entries (pts_tag_map (InputStreamTypes i)) = int (length (ports (InputStreamTypes i))) \<and>
     ancestor_sources i = {})"

lemma kept_counts:
  assumes "nodes_kept g G" "node_counts g"
  shows "node_counts G"
  unfolding node_counts_def
proof
  fix i assume "i \<in> set (calculators G)"
  moreover have "stripped ` set (calculators G) = stripped ` set (calculators g)"
    using assms(1) unfolding nodes_kept_def by (metis list.set_map mset_eq_setD)
  ultimately obtain j where j: "j \<in> set (calculators g)" "stripped i = stripped j" by (metis imageE imageI)
  from arg_cong [OF j(2), of InputStreamTypes] arg_cong [OF j(2), of ancestor_sources]
  have "InputStreamTypes i = InputStreamTypes j" "ancestor_sources i = ancestor_sources j" by (simp_all add: stripped_def bare_def)
  with assms(2) j(1) show "num_entries (pts_tag_map (InputStreamTypes i)) = int (length (ports (InputStreamTypes i))) \<and> ancestor_sources i = {}"
    unfolding node_counts_def by simp
qed

lemma wired_source_ready:
  assumes g: "graph_ready g ns P" "node_counts g" and wire: "wire g = Inr G"
  shows "source_ready G"
proof -
  note w = wired_result [OF wire_wired [OF g(1) wire] ready_length [OF g(1)]]
  have named: "streams_named g ns" "length (config_nodes (config g)) = length (calculators g)" using g(1) unfolding graph_ready_def by blast+
  have conf: "config_input_stream (config G) = config_input_stream (config g)" "length (config_nodes (config G)) = length (config_nodes (config g))"
    "length (calculators G) = length (calculators g)"
    using w(4) unfolding nodes_kept_def by (metis length_map size_mset)+
  have "length ns = length (config_input_stream (config G))" using named(1) tag_map_names_length unfolding streams_named_def conf(1) by auto
  then show ?thesis using w(1,3,5) kept_counts [OF w(4) g(2)] conf named(2) unfolding source_ready_def node_counts_def by simp
qed

section \<open>The types of a wired graph\<close>

definition types_in_range :: "graph \<Rightarrow> stream_ports list \<Rightarrow> bool" where
  "types_in_range g P \<longleftrightarrow>
     (\<forall>p \<in> set P. (\<forall>(n, a, b) \<in> set (fst p). a < length (packet_types g)) \<and> (\<forall>(n, a) \<in> set (snd p). a < length (packet_types g))) \<and>
     (\<forall>p \<in> set (side_ports_of g). (\<forall>(n, a) \<in> set (fst p). a < length (packet_types g)) \<and> (\<forall>(n, a) \<in> set (snd p). a < length (packet_types g))) \<and>
     (\<forall>i \<in> set (status_handlers g). \<forall>(n, a) \<in> set (ports (InputSidePacketTypes i)). a < length (packet_types g))"

lemma input_edges_types: "\<forall>p \<in> set Q. \<forall>(n, a, b) \<in> set (fst p). a < T \<Longrightarrow> \<forall>e \<in> set (input_edges ns k Q). edge_type e < T"
proof (induction ns k Q rule: input_edges.induct)
  case (2 ns k ps qs P)
  then have "\<forall>e \<in> input_edge (calc_ref k) ns ` set ps. edge_type e < T" by (auto simp: input_edge_def)
  with 2 show ?case by auto
qed simp

lemma output_edges_types: "\<forall>p \<in> set Q. \<forall>(n, a) \<in> set (snd p). a < T \<Longrightarrow> \<forall>e \<in> set (output_edges k Q). edge_type e < T"
proof (induction k Q rule: output_edges.induct)
  case (2 k ps qs P)
  then have "\<forall>e \<in> output_edge (calc_ref k) ` set qs. edge_type e < T" by (auto simp: output_edge_def)
  with 2 show ?case by auto
qed simp

lemma side_input_types: "\<forall>(n, a) \<in> set ps. a < T \<Longrightarrow> \<forall>e \<in> side_input_edge m ns ` set ps. edge_type e < T"
  by (auto simp: side_input_edge_def)

lemma side_inputs_types: "\<forall>x \<in> set L. \<forall>(n, a) \<in> set (fst (snd x)). a < T \<Longrightarrow> \<forall>e \<in> set (side_inputs ns L). edge_type e < T"
proof (induction ns L rule: side_inputs.induct)
  case (2 ns n ps qs P)
  then show ?case using side_input_types [of ps T n ns] by auto
qed simp

lemma side_outputs_types: "\<forall>x \<in> set L. \<forall>(n, a) \<in> set (snd (snd x)). a < T \<Longrightarrow> \<forall>e \<in> set (side_outputs L). edge_type e < T"
proof (induction L rule: side_outputs.induct)
  case (2 n ps qs P)
  then have "\<forall>e \<in> output_edge n ` set qs. edge_type e < T" by (auto simp: output_edge_def)
  with 2 show ?case by auto
qed simp

definition edges_in_range :: "graph \<Rightarrow> bool" where
  "edges_in_range G \<longleftrightarrow> (\<forall>e \<in> set (input_streams G) \<union> set (output_streams G) \<union> set (input_side_packets G) \<union> set (output_side_packets G).
     edge_type e < length (packet_types G))"

lemma wired_types:
  assumes "wired_from g ns P G" and types: "types_in_range g P" and len: "length (side_ports_of g) = length (generators g) + length P"
  shows "edges_in_range G"
proof -
  define S where "S = side_ports_of g"
  define ng where "ng = length (generators g)"
  from assms(1) obtain vs h G' where vs: "distinct vs" "set vs = {..<length S}" and kept: "nodes_kept g h"
    and packet: "\<exists>m. packet_types h = packet_types g @ replicate m any_type"
    and rest: "let L = side_list ng S vs; Q = map (nth P) (calc_order ng vs)
      in entered h ns L Q (concat (map (handler_inputs h (side_output_names L)) [0..<length (status_handlers h)])) G' \<and>
         side_ordered {} [] L \<and> all_found ns Q \<and> G = G'\<lparr>input_streams := map (filled (stream_to_producer G')) (input_streams G')\<rparr>"
    unfolding wired_from_def S_def ng_def by blast
  define L where "L = side_list ng S vs"
  define Q where "Q = map (nth P) (calc_order ng vs)"
  define H where "H = concat (map (handler_inputs h (side_output_names L)) [0..<length (status_handlers h)])"
  have e: "entered h ns L Q H G'" and G: "G = G'\<lparr>input_streams := map (filled (stream_to_producer G')) (input_streams G')\<rparr>"
    using rest unfolding Let_def L_def Q_def H_def by blast+
  have parts: "output_streams G' = graph_inputs h ns @ output_edges 0 Q" "input_streams G' = input_edges ns 0 Q" "output_side_packets G' = side_outputs L"
    "input_side_packets G' = side_inputs [] L @ H" "packet_types G' = packet_types h @ replicate (length ns) any_type"
    using e unfolding entered_def by blast+
  define T where "T = length (packet_types g)"
  have T: "T \<le> length (packet_types h)" "length (packet_types G) = length (packet_types h) + length ns" using packet by (auto simp: T_def G parts(5))
  have "set Q = set P"
  proof -
    have "distinct (calc_order ng vs)" "set (calc_order ng vs) = {..<length P}" using calc_order_all vs len unfolding S_def ng_def by auto
    from mset_eq_setD [OF reordered_mset [OF this]] show ?thesis unfolding Q_def .
  qed
  moreover have "\<forall>p \<in> set P. (\<forall>(n, a, b) \<in> set (fst p). a < T) \<and> (\<forall>(n, a) \<in> set (snd p). a < T)"
    using types unfolding types_in_range_def T_def by (rule conjunct1)
  ultimately have Q: "\<forall>p \<in> set Q. \<forall>(n, a, b) \<in> set (fst p). a < T" "\<forall>p \<in> set Q. \<forall>(n, a) \<in> set (snd p). a < T" by simp_all
  have "snd x \<in> set S" if "x \<in> set L" for x
  proof -
    have "(fst x, snd x) \<in> set (zip (sorted_refs ng 0 0 vs) (map (nth S) vs))" using that by (simp add: L_def side_list_def)
    from set_zip_rightD [OF this] show ?thesis unfolding mset_eq_setD [OF reordered_mset [OF vs]] .
  qed
  moreover have "\<forall>p \<in> set S. (\<forall>(n, a) \<in> set (fst p). a < T) \<and> (\<forall>(n, a) \<in> set (snd p). a < T)"
    using types unfolding types_in_range_def T_def S_def by (rule conjunct2 [THEN conjunct1])
  ultimately have L: "\<forall>x \<in> set L. \<forall>(n, a) \<in> set (fst (snd x)). a < T" "\<forall>x \<in> set L. \<forall>(n, a) \<in> set (snd (snd x)). a < T" by fast+
  have H_types: "edge_type e < T" if eH: "e \<in> set H" for e
  proof -
    obtain k where k: "k < length (status_handlers h)" "e \<in> set (handler_inputs h (side_output_names L) k)" using eH unfolding H_def by auto
    have maps: "map bare (status_handlers h) = map bare (status_handlers g)" using kept unfolding nodes_kept_def by blast
    then have kg: "k < length (status_handlers g)" using k(1) by (metis length_map)
    from arg_cong [OF bare_at [OF maps kg], of InputSidePacketTypes]
    have "InputSidePacketTypes (status_handlers h ! k) = InputSidePacketTypes (status_handlers g ! k)" by simp
    moreover have "\<forall>(n, a) \<in> set (ports (InputSidePacketTypes (status_handlers g ! k))). a < T" 
      using types nth_mem [OF kg] unfolding types_in_range_def T_def by blast
    ultimately show ?thesis using k(2) side_input_types unfolding handler_inputs_def by fastforce
  qed
  have inputs: "edge_type e < length (packet_types G)" if "e \<in> set (graph_inputs h ns)" for e
    using that by (auto simp: graph_inputs_def output_edge_def set_zip T(2))
  have small: "a < length (packet_types G)" if "a < T" for a using that T by simp
  have same: "edge_type (filled f e) = edge_type e" for f e by (simp add: filled_def)
  have "\<forall>e \<in> set (input_streams G). edge_type e < length (packet_types G)"
    using input_edges_types [OF Q(1), of ns 0] small by (auto simp: G parts same)
  moreover have "\<forall>e \<in> set (output_streams G). edge_type e < length (packet_types G)"
    using output_edges_types [OF Q(2), of 0] inputs small by (auto simp: G parts)
  moreover have "\<forall>e \<in> set (input_side_packets G). edge_type e < length (packet_types G)"
    using side_inputs_types [OF L(1), of "[]"] H_types small by (auto simp: G parts)
  moreover have "\<forall>e \<in> set (output_side_packets G). edge_type e < length (packet_types G)"
    using side_outputs_types [OF L(2)] small by (auto simp: G parts)
  ultimately show ?thesis unfolding edges_in_range_def by blast
qed

lemma GetSameAs_append:
  assumes "GetSameAs h a = Some r" and range: "\<forall>a < length h. \<forall>b. SameAsPtr h a = Some b \<longrightarrow> b < length h"
  shows "a < length h \<Longrightarrow> GetSameAs (h @ k) a = Some r"
  using assms(1)
proof (induction rule: GetSameAs_induct)
  case (here a)
  then show ?case by (simp add: SameAsPtr_def nth_append)
next
  case (link a b r)
  then have "SameAsPtr (h @ k) a = Some b" by (simp add: SameAsPtr_def nth_append)
  moreover have "b < length h" using range link by blast
  ultimately show ?case using link.IH by (subst GetSameAs.simps) simp
qed

lemma types_ok_append:
  assumes "types_ok h"
  shows "types_ok (h @ replicate m any_type)"
  unfolding types_ok_def
proof (intro allI impI conjI)
  have range: "\<forall>a < length h. \<forall>b. SameAsPtr h a = Some b \<longrightarrow> b < length h" using assms unfolding types_ok_def by blast
  fix a assume a: "a < length (h @ replicate m any_type)"
  show "\<exists>r < length (h @ replicate m any_type). GetSameAs (h @ replicate m any_type) a = Some r"
  proof (cases "a < length h")
    case True
    then obtain r where "r < length h" "GetSameAs h a = Some r" using assms unfolding types_ok_def by blast
    then show ?thesis using GetSameAs_append [OF _ range True] by (intro exI [of _ r]) simp
  next
    case False
    then have "SameAsPtr (h @ replicate m any_type) a = None" using a by (simp add: SameAsPtr_def nth_append)
    then show ?thesis using a by (intro exI [of _ a]) simp
  qed
  fix b assume b: "SameAsPtr (h @ replicate m any_type) a = Some b"
  show "b < length (h @ replicate m any_type)"
  proof (cases "a < length h")
    case True
    then have "SameAsPtr h a = Some b" using b by (simp add: SameAsPtr_def nth_append)
    then show ?thesis using range True by fastforce
  next
    case False
    then show ?thesis using a b by (simp add: SameAsPtr_def nth_append)
  qed
qed

lemma consistent_returns: "types_ok h \<Longrightarrow> a < length h \<Longrightarrow> b < length h \<Longrightarrow> \<exists>ok. IsConsistentWith h a b = Some ok"
  using types_okD(1) [of h a] types_okD(1) [of h b] by (auto simp: IsConsistentWith_def)

lemma validations_return:
  assumes "types_ok h" "\<forall>e \<in> set es. edge_ok h outs e"
  shows "\<exists>ok. ValidateSidePacketTypes es outs h = Some ok" "\<exists>ok. ValidateStreamTypes es outs h = Some ok"
proof -
  have step: "\<exists>ok. IsConsistentWith h (edge_type e) (edge_type (outs ! nat (upstream e))) = Some ok" if "e \<in> set es" "upstream e \<noteq> - 1" for e
    using assms that by (intro consistent_returns) (auto simp: edge_ok_def)
  show "\<exists>ok. ValidateSidePacketTypes es outs h = Some ok"
    using step
  proof (induction es)
    case (Cons e es)
    show ?case
    proof (cases "upstream e = - 1")
      case False
      then obtain ok where "IsConsistentWith h (edge_type e) (edge_type (outs ! nat (upstream e))) = Some ok" using Cons.prems by auto
      then show ?thesis using Cons False by (cases ok) auto
    qed (use Cons in auto)
  qed auto
  show "\<exists>ok. ValidateStreamTypes es outs h = Some ok"
    using step
  proof (induction es)
    case (Cons e es)
    show ?case
    proof (cases "upstream e = - 1")
      case False
      then obtain ok where "IsConsistentWith h (edge_type e) (edge_type (outs ! nat (upstream e))) = Some ok" using Cons.prems by auto
      then show ?thesis using Cons False by (cases ok) auto
    qed auto
  qed auto
qed

lemma validated_side: "ValidateSidePacketTypes es outs h = Some True \<Longrightarrow> e \<in> set es \<Longrightarrow> upstream e \<noteq> - 1 \<Longrightarrow>
  IsConsistentWith h (edge_type e) (edge_type (outs ! nat (upstream e))) = Some True"
  by (induction es outs h rule: ValidateSidePacketTypes.induct) (auto split: if_splits option.splits)

section \<open>Executors\<close>

definition executors_valid :: "GraphConfig \<Rightarrow> bool" where
  "executors_valid c \<longleftrightarrow> distinct (config_executors c) \<and> list_all (\<lambda>n. \<not> IsReservedExecutorName n) (config_executors c) \<and>
     list_all (\<lambda>node. node_executor node = [] \<or> node_executor node \<in> set (config_executors c)) (config_nodes c)"

lemma declare_executors_result:
  "if distinct xs \<and> set xs \<inter> set ds = {} \<and> list_all (\<lambda>n. \<not> IsReservedExecutorName n) xs
   then run_steps declare_executor xs ds = Inr (rev xs @ ds) else \<exists>e. run_steps declare_executor xs ds = Inl e"
proof (induction xs arbitrary: ds)
  case (Cons x xs)
  show ?case
  proof (cases "IsReservedExecutorName x \<or> x \<in> set ds")
    case True
    then have "\<exists>e. declare_executor x ds = Inl e" by (auto simp: declare_executor_def)
    then show ?thesis using True by auto
  next
    case False
    then have "declare_executor x ds = Inr (x # ds)" by (simp add: declare_executor_def)
    then show ?thesis using Cons.IH [of "x # ds"] False by (auto split: if_splits)
  qed
qed simp

lemma check_executors_result:
  "if list_all (\<lambda>node. node_executor node = [] \<or> \<not> IsReservedExecutorName (node_executor node) \<and> node_executor node \<in> set ds) nodes
   then run_steps check_executor nodes ds = Inr ds else \<exists>e. run_steps check_executor nodes ds = Inl e"
proof (induction nodes)
  case (Cons x nodes)
  show ?case
  proof (cases "node_executor x = [] \<or> \<not> IsReservedExecutorName (node_executor x) \<and> node_executor x \<in> set ds")
    case True
    then have "check_executor x ds = Inr ds" by (auto simp: check_executor_def)
    then show ?thesis using True Cons by (auto split: if_splits)
  next
    case False
    then have "\<exists>e. check_executor x ds = Inl e" by (auto simp: check_executor_def)
    then show ?thesis using False by auto
  qed
qed simp

lemma ValidateExecutors_result:
  "(\<exists>ds. ValidateExecutors g = Inr ds) \<longleftrightarrow> executors_valid (config g)"
proof -
  let ?xs = "config_executors (config g)"
  note d = declare_executors_result [of ?xs "[]"]
  show ?thesis
  proof (cases "distinct ?xs \<and> list_all (\<lambda>n. \<not> IsReservedExecutorName n) ?xs")
    case False
    then obtain e where "run_steps declare_executor ?xs [] = Inl e" using d by (auto split: if_splits)
    then show ?thesis using False by (auto simp: ValidateExecutors_def executors_valid_def)
  next
    case True
    then have e: "run_steps declare_executor ?xs [] = Inr (rev ?xs)" using d by simp
    have "list_all (\<lambda>node. node_executor node = [] \<or> \<not> IsReservedExecutorName (node_executor node) \<and> node_executor node \<in> set (rev ?xs)) (config_nodes (config g)) \<longleftrightarrow>
        list_all (\<lambda>node. node_executor node = [] \<or> node_executor node \<in> set ?xs) (config_nodes (config g))"
      using True by (auto simp: list_all_iff)
    then show ?thesis using check_executors_result [of "rev ?xs" "config_nodes (config g)"] True
      by (auto simp: ValidateExecutors_def e executors_valid_def split: if_splits)
  qed
qed

section \<open>All of it\<close>

lemma stream_edge_ok: "stream_wired G e \<Longrightarrow> edges_in_range G \<Longrightarrow> e \<in> set (input_streams G) \<Longrightarrow> edge_ok (packet_types G) (output_streams G) e"
  by (simp add: stream_wired_def edge_ok_def edges_in_range_def)

lemma side_edge_ok: "side_wired G e \<Longrightarrow> edges_in_range G \<Longrightarrow> e \<in> set (input_side_packets G) \<Longrightarrow> edge_ok (packet_types G) (output_side_packets G) e"
  by (auto simp: side_wired_def edge_ok_def edges_in_range_def Let_def split: if_splits)

lemma edge_ok_length: "edge_ok h outs e \<Longrightarrow> length h' = length h \<Longrightarrow> edge_ok h' outs e"
  by (simp add: edge_ok_def)

lemma edge_checked:
  assumes "types_ok h" "edge_ok h outs e" "upstream e \<noteq> - 1" "settled_edge h e (outs ! nat (upstream e))"
    and "IsConsistentWith h (edge_type e) (edge_type (outs ! nat (upstream e))) = Some True"
  shows "edge_accepts tid h (outs ! nat (upstream e)) e"
  by (rule settled_accepts [OF assms(1) _ _ assms(4,5)]) (use assms(2,3) in \<open>simp_all add: edge_ok_def\<close>)

lemma same_wired:
  assumes "output_streams G' = output_streams G" "output_side_packets G' = output_side_packets G" "sorted_nodes G' = sorted_nodes G"
  shows "stream_wired G' = stream_wired G" "side_wired G' = side_wired G"
  using assms by (auto simp: stream_wired_def side_wired_def fun_eq_iff)

lemma source_ready_types: "source_ready G \<Longrightarrow> source_ready (G\<lparr>packet_types := h\<rparr>)"
proof -
  assume "source_ready G"
  moreover have "ports_wired (G\<lparr>packet_types := h\<rparr>) = ports_wired G"
    by (rule ext) (simp add: ports_wired_def inputs_of_def node_ports_def cong: sum.case_cong)
  moreover have "stream_wired (G\<lparr>packet_types := h\<rparr>) = stream_wired G" by (rule same_wired) simp_all
  moreover have "producer_ok (G\<lparr>packet_types := h\<rparr>) = producer_ok G" by (intro ext) (simp add: producer_ok_def)
  ultimately show ?thesis by (simp add: source_ready_def)
qed

lemma resolved_types:
  assumes types: "types_ok h" and ins: "\<forall>e \<in> set ins. edge_ok h outs e" and side: "\<forall>e \<in> set sins. edge_ok h souts e"
  shows "\<exists>h'. Option.bind (ResolveAnyTypes ins outs h) (\<lambda>h. Option.bind (ResolveOneOfTypes ins outs h) (\<lambda>h.
        Option.bind (ResolveAnyTypes sins souts h) (ResolveOneOfTypes sins souts))) = Some h' \<and> types_ok h' \<and> length h' = length h \<and>
    (\<forall>e \<in> set ins. upstream e \<noteq> - 1 \<longrightarrow> settled_edge h' e (outs ! nat (upstream e))) \<and>
    (\<forall>e \<in> set sins. upstream e \<noteq> - 1 \<longrightarrow> settled_edge h' e (souts ! nat (upstream e)))"
proof -
  obtain h1 h2 where h2: "ResolveAnyTypes ins outs h = Some h1" "ResolveOneOfTypes ins outs h1 = Some h2" "joined h h2"
    "\<forall>e \<in> set ins. upstream e \<noteq> - 1 \<longrightarrow> settled_edge h2 e (outs ! nat (upstream e))" using resolve_types_ok [OF types ins] by blast
  note j2 = joinedD(1,2) [OF h2(3)]
  have "\<forall>e \<in> set sins. edge_ok h2 souts e" using side edge_ok_length j2(2) by blast
  from resolve_types_ok [OF j2(1) this] obtain h3 h4 where h4: "ResolveAnyTypes sins souts h2 = Some h3" "ResolveOneOfTypes sins souts h3 = Some h4" "joined h2 h4"
    "\<forall>e \<in> set sins. upstream e \<noteq> - 1 \<longrightarrow> settled_edge h4 e (souts ! nat (upstream e))" by blast
  note j4 = joinedD(1,2) [OF h4(3)]
  have "settled_edge h4 e (outs ! nat (upstream e))" if e: "e \<in> set ins" "upstream e \<noteq> - 1" for e
  proof -
    have "edge_type e < length h2" "edge_type (outs ! nat (upstream e)) < length h2" using ins e j2(2) by (auto simp: edge_ok_def)
    then show ?thesis using settled_joined [OF h4(3)] h2(4) e by blast
  qed
  then show ?thesis using h2(1,2) h4(1,2,4) j2 j4 by simp
qed

section \<open>An example\<close>

text \<open>Two calculators in a row behind a stream that enters the graph.\<close>

definition ordered_graph :: graph where
  "ordered_graph = example_graph\<lparr>calculators := [example_node 0 ''in'' ''m'', example_node 1 ''m'' ''r''],
     packet_types := [\<lparr>type_spec = TypeId 5, is_optional = False\<rparr>]\<rparr>"

abbreviation ordered_ports :: "stream_ports list" where
  "ordered_ports \<equiv> [([(''in'', 0, False)], [(''m'', 0)]), ([(''m'', 0, False)], [(''r'', 0)])]"

lemma node_ports_example:
  "calculators g ! k = example_node j a b \<Longrightarrow> input_stream_info (config_nodes (config g) ! k) = [] \<Longrightarrow> node_ports g k = Inr ([(a, 0, False)], [(b, 0)])"
  by (simp add: node_ports_def example_node_def is_back_edge_def marked_ports_def ports_def example_ports_def)

lemma ordered_graph_ready: "graph_ready ordered_graph [''in'', ''x'', ''y'', ''b''] ordered_ports"
proof -
  have "node_ports ordered_graph 0 = Inr ([(''in'', 0, False)], [(''m'', 0)])" "node_ports ordered_graph 1 = Inr ([(''m'', 0, False)], [(''r'', 0)])"
    by (rule node_ports_example; simp add: ordered_graph_def example_graph_def)+
  then have "all_nodes_are ordered_graph ordered_ports"
    by (simp add: all_nodes_are_def nodes_are_Cons) (simp add: nodes_are_def ordered_graph_def example_graph_def example_node_def)
  moreover have "streams_named ordered_graph [''in'', ''x'', ''y'', ''b'']"
    unfolding streams_named_def using example_tag_map by (simp add: ordered_graph_def example_graph_def)
  ultimately show ?thesis
    by (simp add: graph_ready_def ordered_graph_def example_graph_def handlers_ok_def no_streams_def no_side_packets_def)
qed

lemma ordered_graph_typed: "node_counts ordered_graph" "types_ok (packet_types ordered_graph)" "types_in_range ordered_graph ordered_ports"
proof -
  show "node_counts ordered_graph" by (simp add: node_counts_def ordered_graph_def example_node_def example_ports_def ports_def)
  show "types_ok (packet_types ordered_graph)" by (simp add: types_ok_def ordered_graph_def SameAsPtr_def)
  show "types_in_range ordered_graph ordered_ports"
    by (simp add: types_in_range_def side_ports_of_def ordered_graph_def example_graph_def example_node_def no_ports_def ports_def)
qed

lemma ordered_graph_wired:
  "\<exists>G. wire ordered_graph = Inr G \<and> input_streams G = input_edges [''in'', ''x'', ''y'', ''b''] 0 ordered_ports \<and>
     output_streams G = graph_inputs ordered_graph [''in'', ''x'', ''y'', ''b''] @ output_edges 0 ordered_ports \<and>
     packet_types G = \<lparr>type_spec = TypeId 5, is_optional = False\<rparr> # [any_type, any_type, any_type, any_type] \<and> input_side_packets G = [] \<and> config G = config ordered_graph"
proof -
  obtain g0 where g0: "initial_order ordered_graph = Inr g0" "g0 = ordered_graph\<lparr>sorted_nodes := [calc_ref 0, calc_ref 1]\<rparr>"
    by (simp add: initial_order_def ordered_graph_def example_graph_def example_node_def calc_ref_def)
  obtain g1 where g1: "InitializeSidePacketInfo (Some False, g0) = Inr (Some False, g1)" "side_from g0 g1" "input_side_packets g1 = []"
    by (simp add: g0(2) InitializeSidePacketInfo_def AddOutputSidePacketsForNode_def AddInputSidePacketsForNode_def put_info_calculator
      ordered_graph_def example_graph_def example_node_def no_ports_def ports_def side_from_def side_rest_def)
  have same: "same_nodes g0 g1" by (rule same_nodes_side [OF g1(2)])
  have "side_rest g1 = side_rest g0" using g1(2) unfolding side_from_def by blast
  note f = side_rest_fields [OF this]
  have ready: "all_nodes_are ordered_graph ordered_ports" "streams_named ordered_graph [''in'', ''x'', ''y'', ''b'']" "no_streams ordered_graph"
    using ordered_graph_ready unfolding graph_ready_def by blast+
  have "same_nodes (ordered_graph\<lparr>sorted_nodes := sorted_nodes g0\<rparr>) g1" using same by (simp add: same_nodes_def g0(2))
  moreover have "all_nodes_are (ordered_graph\<lparr>sorted_nodes := sorted_nodes g0\<rparr>) ordered_ports"
    using ready(1) by (simp add: all_nodes_are_def nodes_are_def node_ports_def cong: sum.case_cong)
  ultimately have P: "all_nodes_are g1 ordered_ports" by (rule same_nodes_all)
  have n: "streams_named g1 [''in'', ''x'', ''y'', ''b'']" "no_streams g1" using ready(2,3) f by (simp_all add: streams_named_def no_streams_def g0(2))
  obtain G where G: "InitializeStreamInfo (Some False, g1) = Inr (Some False, G)" "names_entered G"
    "output_streams G = graph_inputs g1 [''in'', ''x'', ''y'', ''b''] @ output_edges 0 ordered_ports"
    "input_streams G = input_edges [''in'', ''x'', ''y'', ''b''] 0 ordered_ports" "streams_from g1 G" "packet_types G = packet_types g1 @ [any_type, any_type, any_type, any_type]"
    using InitializeStreamInfo_result(1) [OF n(2,1) P, of "Some False"] by (auto simp: found_def)
  have "stream_rest G = stream_rest g1" using G(5) unfolding streams_from_def by blast
  note fG = stream_rest_fields [OF this]
  have "FillUpstreamFieldForBackEdges G = Inr G"
    by (simp add: FillUpstreamFieldForBackEdges_def G(4) fill_upstream_def input_edge_def)
  then have "wire ordered_graph = Inr G" by (simp add: wire_def g0(1) g1(1) G(1))
  moreover have "graph_inputs g1 [''in'', ''x'', ''y'', ''b''] = graph_inputs ordered_graph [''in'', ''x'', ''y'', ''b'']"
    using f by (simp add: graph_inputs_def graph_input_ref_def [abs_def] g0(2))
  moreover have "packet_types g1 = [\<lparr>type_spec = TypeId 5, is_optional = False\<rparr>]" "config g1 = config ordered_graph"
    using f by (simp_all add: g0(2)) (simp add: ordered_graph_def)
  ultimately show ?thesis using G(3,4,6) fG g1(3) by (intro exI [of _ G]) simp
qed

lemma ordered_graph_initialized: "\<exists>G. Initialize ordered_graph = Some (Inr G)"
proof -
  obtain G where G: "wire ordered_graph = Inr G" "input_streams G = input_edges [''in'', ''x'', ''y'', ''b''] 0 ordered_ports"
     "output_streams G = graph_inputs ordered_graph [''in'', ''x'', ''y'', ''b''] @ output_edges 0 ordered_ports"
     "packet_types G = \<lparr>type_spec = TypeId 5, is_optional = False\<rparr> # [any_type, any_type, any_type, any_type]" "input_side_packets G = []" "config G = config ordered_graph"
    using ordered_graph_wired by blast
  define h where "h = [\<lparr>type_spec = TypeId 5, is_optional = False\<rparr>, \<lparr>type_spec = SameAs 0, is_optional = False\<rparr>, any_type, any_type, any_type]"
  have roots: "GetSameAs h 0 = Some 0" "GetSameAs h 1 = Some 0"
    by (simp add: SameAsPtr_def h_def) (subst GetSameAs.simps, simp add: SameAsPtr_def h_def)
  have free: "GetSameAs (\<lparr>type_spec = TypeId 5, is_optional = False\<rparr> # [any_type, any_type, any_type, any_type]) 0 = Some 0"
    "GetSameAs (\<lparr>type_spec = TypeId 5, is_optional = False\<rparr> # [any_type, any_type, any_type, any_type]) 1 = Some 1" by (simp_all add: SameAsPtr_def)
  define outs where "outs = output_streams G"
  obtain e0 e1 where e: "input_streams G = [e0, e1]" "upstream e0 = 0" "upstream e1 = 4" "edge_type e0 = 0" "edge_type e1 = 0"
    by (simp add: G(2) input_edge_def name_map_def)
  have o': "edge_type (outs ! 0) = 1" "edge_type (outs ! 4) = 0"
    by (simp_all add: outs_def G(3) graph_inputs_def output_edge_def ordered_graph_def upt_rec nth_append)
  have any: "ResolveAnyTypes (input_streams G) outs (packet_types G) = Some h"
  proof -
    have "resolve_any_edge e0 (outs ! 0) (packet_types G) = Some h"
      unfolding resolve_any_edge_def e o' G(4) free by (simp add: IsAny_def SetSameAs_def free set_spec_def h_def SameAsPtr_def)
    moreover have "resolve_any_edge e1 (outs ! 4) h = Some h"
      unfolding resolve_any_edge_def e o' roots by (simp add: IsAny_def h_def)
    ultimately show ?thesis by (simp add: ResolveAnyTypes_def e)
  qed
  have cons: "IsConsistentWith h 0 0 = Some True" "IsConsistentWith h 0 1 = Some True"
    unfolding IsConsistentWith_def roots by (simp_all add: h_def consistent_specs_def GetTypeSpan_def HaveCommonType_def)
  have one: "ResolveOneOfTypes (input_streams G) outs h = Some h"
  proof -
    have "resolve_one_of_edge e0 (outs ! 0) h = Some h" "resolve_one_of_edge e1 (outs ! 4) h = Some h"
      unfolding resolve_one_of_edge_def e o' roots by (simp_all add: cons) (simp_all add: IsOneOf_def h_def)
    then show ?thesis by (simp add: ResolveOneOfTypes_def e)
  qed
  have none: "ResolveAnyTypes [] os k = Some k" "ResolveOneOfTypes [] os k = Some k" for os k by (simp_all add: ResolveAnyTypes_def ResolveOneOfTypes_def)
  have valid: "ValidateStreamTypes (input_streams G) outs h = Some True" using cons by (simp add: e o')
  have "source_ready (G\<lparr>packet_types := h\<rparr>)"
    by (rule source_ready_types [OF wired_source_ready [OF ordered_graph_ready ordered_graph_typed(1) G(1)]])
  then obtain A where A: "ComputeSourceDependence (G\<lparr>packet_types := h\<rparr>) = Inr (with_sources A (G\<lparr>packet_types := h\<rparr>))"
    using ComputeSourceDependence_result by blast
  have "executors_valid (config (with_sources A (G\<lparr>packet_types := h\<rparr>)))"
    by (simp add: G(6) ordered_graph_def example_graph_def executors_valid_def list_all_iff)
  then obtain ds where "ValidateExecutors (with_sources A (G\<lparr>packet_types := h\<rparr>)) = Inr ds" using ValidateExecutors_result by blast
  then show ?thesis using any one valid A by (simp add: Initialize_def G(1,5) outs_def none)
qed

section \<open>Properties\<close>

text \<open>
  C40: Initialising a validated graph always returns.  When it succeeds, every input stream and side packet is wired as in the property of the wired graph; what the type of
  an output accepts is accepted by the inputs it feeds, unless the output is left with a choice of types; the ancestor sources of a calculator are exactly the sources and
  entering streams that affect it along edges to later calculators; and the executors are declared once, are not reserved, and include those the nodes ask for.
\<close>

theorem initialize_correct:
  assumes g: "graph_ready g ns P" "node_counts g" and types: "types_ok (packet_types g)" "types_in_range g P"
  shows "\<exists>r. Initialize g = Some r \<and> (\<forall>G. r = Inr G \<longrightarrow>
    list_all (stream_wired G) (input_streams G) \<and> list_all (side_wired G) (input_side_packets G) \<and>
    (\<forall>e \<in> set (input_streams G). edge_accepts tid (packet_types G) (output_streams G ! nat (upstream e)) e) \<and>
    (\<forall>e \<in> set (input_side_packets G). upstream e \<noteq> - 1 \<longrightarrow> edge_accepts tid (packet_types G) (output_side_packets G ! nat (upstream e)) e) \<and>
    (\<forall>k < length (calculators G). ancestor_sources (calculators G ! k) = {s. affects G s k}) \<and> executors_valid (config G))"
proof (cases "wire g")
  case (Inl e)
  then show ?thesis by (simp add: Initialize_def)
next
  case (Inr G)
  note wired = wired_result [OF wire_wired [OF g(1) Inr] ready_length [OF g(1)]]
  have range: "edges_in_range G" by (rule wired_types [OF wire_wired(1) [OF g(1) Inr] types(2) ready_length [OF g(1)]])
  have ok: "types_ok (packet_types G)" using wired(6) types_ok_append [OF types(1)] by auto
  have ins: "\<forall>e \<in> set (input_streams G). edge_ok (packet_types G) (output_streams G) e"
    using wired(1) stream_edge_ok range unfolding list_all_iff by blast
  have side: "\<forall>e \<in> set (input_side_packets G). edge_ok (packet_types G) (output_side_packets G) e"
    using wired(2) side_edge_ok range unfolding list_all_iff by blast
  from resolved_types [OF ok ins side] obtain h where h:
    "Option.bind (ResolveAnyTypes (input_streams G) (output_streams G) (packet_types G)) (\<lambda>h.
       Option.bind (ResolveOneOfTypes (input_streams G) (output_streams G) h) (\<lambda>h.
       Option.bind (ResolveAnyTypes (input_side_packets G) (output_side_packets G) h)
         (ResolveOneOfTypes (input_side_packets G) (output_side_packets G)))) = Some h" "types_ok h" "length h = length (packet_types G)"
    and settled: "\<forall>e \<in> set (input_streams G). upstream e \<noteq> - 1 \<longrightarrow> settled_edge h e (output_streams G ! nat (upstream e))"
      "\<forall>e \<in> set (input_side_packets G). upstream e \<noteq> - 1 \<longrightarrow> settled_edge h e (output_side_packets G ! nat (upstream e))" by blast
  have ins': "\<forall>e \<in> set (input_streams G). edge_ok h (output_streams G) e" and side': "\<forall>e \<in> set (input_side_packets G). edge_ok h (output_side_packets G) e"
    using ins side edge_ok_length h(3) by blast+
  obtain b1 b2 where b: "ValidateSidePacketTypes (input_side_packets G) (output_side_packets G) h = Some b1"
    "ValidateStreamTypes (input_streams G) (output_streams G) h = Some b2" using validations_return [OF h(2)] ins' side' by blast
  define G1 where "G1 = G\<lparr>packet_types := h\<rparr>"
  define G2 where "G2 = with_sources (\<lambda>k. {s. affects G1 s k}) G1"
  have "source_ready G1" unfolding G1_def by (rule source_ready_types [OF wired_source_ready [OF g Inr]])
  then have sources: "ComputeSourceDependence G1 = Inr G2" unfolding G2_def by (rule ComputeSourceDependence_result)
  have run: "Initialize g = Some (if \<not> b1 \<or> \<not> b2 then Inl UnknownError else (case ValidateExecutors G2 of Inl e \<Rightarrow> Inl e | Inr _ \<Rightarrow> Inr G2))"
    unfolding Initialize_def Inr sum.case h(1) option.case b using sources by (simp add: G1_def split: sum.splits)
  have fields: "input_streams G2 = input_streams G" "output_streams G2 = output_streams G" "input_side_packets G2 = input_side_packets G"
    "output_side_packets G2 = output_side_packets G" "sorted_nodes G2 = sorted_nodes G" "packet_types G2 = h"
    "length (calculators G2) = length (calculators G1)" by (simp_all add: G2_def G1_def with_sources_def)
  show ?thesis
  proof (cases "b1 \<and> b2 \<and> (\<exists>ds. ValidateExecutors G2 = Inr ds)")
    case False
    then have "\<exists>e. Initialize g = Some (Inl e)" unfolding run by (cases "ValidateExecutors G2") auto
    then show ?thesis by auto
  next
    case True
    then have r: "Initialize g = Some (Inr G2)" and valid: "b1 = True" "b2 = True" unfolding run by auto
    have "edge_accepts tid h (output_streams G ! nat (upstream e)) e" if e: "e \<in> set (input_streams G)" for e
    proof -
      have v: "upstream e \<noteq> - 1 \<and> IsConsistentWith h (edge_type e) (edge_type (output_streams G ! nat (upstream e))) = Some True"
        using validated_edge [OF b(2) [unfolded valid] e] .
      then show ?thesis using edge_checked [OF h(2)] ins' settled(1) e by blast
    qed
    moreover have "edge_accepts tid h (output_side_packets G ! nat (upstream e)) e" if e: "e \<in> set (input_side_packets G)" "upstream e \<noteq> - 1" for e
    proof -
      have "IsConsistentWith h (edge_type e) (edge_type (output_side_packets G ! nat (upstream e))) = Some True" using validated_side [OF b(1) [unfolded valid] e] .
      then show ?thesis using edge_checked [OF h(2)] side' settled(2) e by blast
    qed
    moreover have "affects G2 = affects G1" unfolding G2_def by (rule affects_with)
    then have "\<forall>k < length (calculators G2). ancestor_sources (calculators G2 ! k) = {s. affects G2 s k}"
      unfolding fields(7) by (simp add: G2_def)
    moreover have "executors_valid (config G2)" using True ValidateExecutors_result by blast
    moreover have "stream_wired G2 = stream_wired G" "side_wired G2 = side_wired G" by (rule same_wired; simp add: fields)+
    ultimately show ?thesis using r wired(1,2) fields by simp
  qed
qed

theorem initialize_correct_witness:
  "\<exists>G. Initialize ordered_graph = Some (Inr G) \<and> list_all (stream_wired G) (input_streams G) \<and> executors_valid (config G)"
proof -
  obtain G where "Initialize ordered_graph = Some (Inr G)" using ordered_graph_initialized by blast
  with initialize_correct [OF ordered_graph_ready ordered_graph_typed, of undefined] show ?thesis by auto
qed

end
