(* ===== verification/Calculators.thy ===== *)
theory Calculators
  imports Output_Shard
begin

text \<open>
  What the calculators of the hand tracking graph share: the operations a calculator makes on an output stream, in their order,
  and the run of its \<^verbatim>\<open>Process\<close> over the inputs it is called with.
\<close>

datatype 'a out_op = SendPacket "'a packet" | NextBound Timestamp | CloseStream

text \<open>The operations on the shard of the stream; the errors they report.\<close>

fun run_out :: "('a packet \<Rightarrow> bool) \<Rightarrow> 'a out_op list \<Rightarrow> 'a OutputStreamShard \<Rightarrow> output_error list \<times> 'a OutputStreamShard" where
  "run_out v [] o' = ([], o')"
| "run_out v (x # xs) o' =
     (case (case x of SendPacket p \<Rightarrow> oss_AddPacket v p o' | NextBound t \<Rightarrow> oss_SetNextTimestampBound t o' | CloseStream \<Rightarrow> ([], oss_Close o')) of
        (es, o1) \<Rightarrow> (case run_out v xs o1 of (es', o2) \<Rightarrow> (es @ es', o2)))"

lemma run_out_append:
  "run_out v (xs @ ys) o' = (case run_out v xs o' of (es, o1) \<Rightarrow> (case run_out v ys o1 of (es', o2) \<Rightarrow> (es @ es', o2)))"
  by (induction xs arbitrary: o') (auto split: prod.splits)

text \<open>The packets sent.\<close>

fun sent :: "'a out_op list \<Rightarrow> 'a packet list" where
  "sent [] = []"
| "sent (SendPacket p # xs) = p # sent xs"
| "sent (_ # xs) = sent xs"

lemma sent_append [simp]: "sent (xs @ ys) = sent xs @ sent ys"
  by (induction xs rule: sent.induct) auto

lemma sent_packets [simp]: "sent (map SendPacket ps) = ps"
  by (induction ps) auto

text \<open>\<open>process\<close> on the inputs in turn: the outputs of all calls together and the last state.\<close>

fun run_calculator :: "('i \<Rightarrow> 's \<Rightarrow> 'e + ('o list \<times> 's)) \<Rightarrow> 'i list \<Rightarrow> 's \<Rightarrow> 'e + ('o list \<times> 's)" where
  "run_calculator process [] s = Inr ([], s)"
| "run_calculator process (i # is') s =
     (case process i s of
        Inl e \<Rightarrow> Inl e
      | Inr (os, s1) \<Rightarrow> (case run_calculator process is' s1 of Inl e \<Rightarrow> Inl e | Inr (os', s2) \<Rightarrow> Inr (os @ os', s2)))"

lemma run_calculator_snoc:
  "run_calculator process (xs @ [x]) s =
     (case run_calculator process xs s of
        Inl e \<Rightarrow> Inl e
      | Inr (os, s1) \<Rightarrow> (case process x s1 of Inl e \<Rightarrow> Inl e | Inr (os', s2) \<Rightarrow> Inr (os @ os', s2)))"
  by (induction xs arbitrary: s) (auto split: sum.splits prod.splits)

lemma run_calculator_append:
  "run_calculator process (xs @ ys) s =
     (case run_calculator process xs s of
        Inl e \<Rightarrow> Inl e
      | Inr (os, s1) \<Rightarrow> (case run_calculator process ys s1 of Inl e \<Rightarrow> Inl e | Inr (os', s2) \<Rightarrow> Inr (os @ os', s2)))"
  by (induction xs arbitrary: s) (auto split: sum.splits prod.splits)

text \<open>Whether every input is acceptable after the inputs before it.\<close>

fun accepted :: "('i list \<Rightarrow> 'i \<Rightarrow> bool) \<Rightarrow> 'i list \<Rightarrow> 'i list \<Rightarrow> bool" where
  "accepted A before [] = True"
| "accepted A before (x # xs) = (A before x \<and> accepted A (before @ [x]) xs)"

lemma accepted_snoc: "accepted A before (xs @ [x]) \<longleftrightarrow> accepted A before xs \<and> A (before @ xs) x"
  by (induction xs arbitrary: before) auto

lemma accepted_each [simp]: "accepted (\<lambda>_. P) before xs \<longleftrightarrow> (\<forall>x \<in> set xs. P x)"
  by (induction xs arbitrary: before) auto

text \<open>
  The contract of a calculator: a relation between the inputs so far, the outputs so far and the state, which every call on an
  acceptable input keeps without an error.
\<close>

locale calculator =
  fixes process :: "'i \<Rightarrow> 's \<Rightarrow> 'e + ('o list \<times> 's)"
    and start :: 's
    and accepts :: "'i list \<Rightarrow> 'i \<Rightarrow> bool"
    and rel :: "'i list \<Rightarrow> 'o list \<Rightarrow> 's \<Rightarrow> bool"
  assumes rel_start: "rel [] [] start"
    and rel_process: "rel xs os s \<Longrightarrow> accepts xs x \<Longrightarrow> \<exists>os' s'. process x s = Inr (os', s') \<and> rel (xs @ [x]) (os @ os') s'"
begin

lemma run_rel: "accepted accepts [] xs \<Longrightarrow> \<exists>os s. run_calculator process xs start = Inr (os, s) \<and> rel xs os s"
proof (induction xs rule: rev_induct)
  case Nil
  then show ?case by (simp add: rel_start)
next
  case (snoc x xs)
  then obtain os s where r: "run_calculator process xs start = Inr (os, s)" "rel xs os s" by (auto simp: accepted_snoc)
  from snoc.prems have "accepts xs x" by (simp add: accepted_snoc)
  from rel_process [OF r(2) this] r(1) show ?case by (auto simp: run_calculator_snoc)
qed

end

end
