(* ===== verification/Previous_Loopback.thy ===== *)
theory Previous_Loopback
  imports Calculators
begin

text \<open>
  \<^verbatim>\<open>calculators/core/previous_loopback_calculator.cc\<close>: pairs each packet of MAIN with what came back on LOOP for the packet of MAIN before it.
  An input is what a call of \<^verbatim>\<open>Process\<close> sees on the two streams: a packet each, which may be empty.
\<close>

section \<open>The calculator\<close>

record 'a PreviousLoopback =
  main_packet_specs :: "(Timestamp \<times> Timestamp) list"
  prev_main_ts :: Timestamp
  prev_non_empty_main_ts :: Timestamp
  loop_packets :: "'a packet list"
  prev_loop_ts :: Timestamp

definition PreviousLoopback_new :: "'a PreviousLoopback" where
  "PreviousLoopback_new = \<lparr>main_packet_specs = [], prev_main_ts = Unstarted, prev_non_empty_main_ts = Unstarted, loop_packets = [], prev_loop_ts = Unset\<rparr>"

definition note_main :: "'b packet \<Rightarrow> 'a PreviousLoopback \<Rightarrow> 'a PreviousLoopback" where
  "note_main p s =
     (if prev_main_ts s < pkt_ts p then
        s\<lparr>main_packet_specs := main_packet_specs s @ [(pkt_ts p, if packet_IsEmpty p then Unset else prev_non_empty_main_ts s)],
          prev_non_empty_main_ts := (if packet_IsEmpty p then prev_non_empty_main_ts s else pkt_ts p),
          prev_main_ts := pkt_ts p\<rparr>
      else s)"

definition note_loop :: "'a packet \<Rightarrow> 'a PreviousLoopback \<Rightarrow> 'a PreviousLoopback" where
  "note_loop p s =
     (if prev_loop_ts s < pkt_ts p then s\<lparr>loop_packets := loop_packets s @ [p], prev_loop_ts := pkt_ts p\<rparr> else s)"

text \<open>The loop: the operations on PREV_LOOP and what is left of the two queues.\<close>

definition close_after :: "Timestamp \<Rightarrow> 'a out_op list" where
  "close_after t = (if t = prev_ts Done then [CloseStream] else [])"

definition then_out :: "'o list \<Rightarrow> 'e + ('o list \<times> 's) \<Rightarrow> 'e + ('o list \<times> 's)" where
  "then_out os r = (case r of Inl e \<Rightarrow> Inl e | Inr (os', s) \<Rightarrow> Inr (os @ os', s))"

function match_packets ::
  "(Timestamp \<times> Timestamp) list \<Rightarrow> 'a packet list \<Rightarrow> ts_error + ('a out_op list \<times> (Timestamp \<times> Timestamp) list \<times> 'a packet list)" where
  "match_packets [] ls = Inr ([], [], ls)"
| "match_packets (m # ms) [] = Inr ([], m # ms, [])"
| "match_packets ((t, lt) # ms) (l # ls) =
     (if lt < pkt_ts l then
        (case ts_add t 1 of Inl e \<Rightarrow> Inl e | Inr b \<Rightarrow> then_out (NextBound b # close_after t) (match_packets ms (l # ls)))
      else if pkt_ts l < lt then then_out (close_after t) (match_packets ((t, lt) # ms) ls)
      else if packet_IsEmpty l then
        (case ts_add t 1 of Inl e \<Rightarrow> Inl e | Inr b \<Rightarrow> then_out (NextBound b # close_after t) (match_packets ms ls))
      else then_out (SendPacket (packet_At t l) # close_after t) (match_packets ms ls))"
  by pat_completeness auto
termination by (relation "measure (\<lambda>(ms, ls). length ms + length ls)") auto

definition Loopback_Process ::
  "'b packet \<times> 'a packet \<Rightarrow> 'a PreviousLoopback \<Rightarrow> ts_error + ('a out_op list \<times> 'a PreviousLoopback)" where
  "Loopback_Process i s =
     (let s1 = note_loop (snd i) (note_main (fst i) s)
      in case match_packets (main_packet_specs s1) (loop_packets s1) of
           Inl e \<Rightarrow> Inl e
         | Inr (os, ms, ls) \<Rightarrow> Inr (os, s1\<lparr>main_packet_specs := ms, loop_packets := ls\<rparr>))"

section \<open>Matching online and at once\<close>

text \<open>What was noted so far if nothing were matched: the two histories.\<close>

definition history :: "('b packet \<times> 'a packet) list \<Rightarrow> 'a PreviousLoopback" where
  "history xs = fold (\<lambda>i s. note_loop (snd i) (note_main (fst i) s)) xs PreviousLoopback_new"

lemma then_out_simps [simp]: "then_out os (Inl e) = Inl e" "then_out os (Inr (os', s)) = Inr (os @ os', s)"
  by (simp_all add: then_out_def)

lemma match_append:
  assumes "match_packets ms ls = Inr (os, mr, lr)"
  shows "match_packets (ms @ ms') (ls @ ls') = then_out os (match_packets (mr @ ms') (lr @ ls'))"
  using assms
proof (induction ms ls arbitrary: os rule: match_packets.induct)
  case (1 ls)
  then show ?case by (cases "match_packets ms' (ls @ ls')") auto
next
  case (2 m ms)
  then show ?case by (cases "match_packets (m # ms @ ms') ls'") auto
next
  case (3 t lt ms l ls)
  have assoc: "then_out xs (then_out ys r) = then_out (xs @ ys) r" for xs ys :: "'a out_op list" and r :: "ts_error + ('a out_op list \<times> _)"
    by (cases r) auto
  have inv: "then_out xs r = Inr (ys, z) \<longleftrightarrow> (\<exists>zs. r = Inr (zs, z) \<and> ys = xs @ zs)" for xs ys :: "'a out_op list" and r z
    by (cases r) auto
  show ?case
  proof (cases "lt < pkt_ts l")
    case True
    then obtain b zs where r: "ts_add t 1 = Inr b" "match_packets ms (l # ls) = Inr (zs, mr, lr)" "os = (NextBound b # close_after t) @ zs"
      using 3(5) by (auto simp: inv split: sum.splits)
    from 3(1) [OF True r(1,2)] show ?thesis by (simp add: True r assoc)
  next
    case f: False
    show ?thesis
    proof (cases "pkt_ts l < lt")
      case True
      then obtain zs where r: "match_packets ((t, lt) # ms) ls = Inr (zs, mr, lr)" "os = close_after t @ zs" using f 3(5) by (auto simp: inv)
      from 3(2) [OF f True r(1)] show ?thesis by (simp add: f True r assoc)
    next
      case g: False
      show ?thesis
      proof (cases "packet_IsEmpty l")
        case True
        then obtain b zs where r: "ts_add t 1 = Inr b" "match_packets ms ls = Inr (zs, mr, lr)" "os = (NextBound b # close_after t) @ zs"
          using f g 3(5) by (auto simp: inv split: sum.splits)
        from 3(3) [OF f g True r(1,2)] show ?thesis by (simp add: f g True r assoc)
      next
        case False
        then obtain zs where r: "match_packets ms ls = Inr (zs, mr, lr)" "os = (SendPacket (packet_At t l) # close_after t) @ zs"
          using f g 3(5) by (auto simp: inv)
        from 3(4) [OF f g False r(1)] show ?thesis by (simp add: f g False r assoc)
      qed
    qed
  qed
qed

section \<open>What a packet of MAIN gets\<close>

text \<open>The decision on a noted packet of MAIN, when the packets of LOOP are all there.\<close>

definition decision :: "'a packet list \<Rightarrow> Timestamp \<times> Timestamp \<Rightarrow> 'a out_op list" where
  "decision L m =
     (case find (\<lambda>p. pkt_ts p = snd m) L of
        Some p \<Rightarrow> (if packet_IsEmpty p then NextBound (Ts (min (ts_value Timestamp.Max) (ts_value (fst m) + 1))) else SendPacket (packet_At (fst m) p))
      | None \<Rightarrow> NextBound (Ts (min (ts_value Timestamp.Max) (ts_value (fst m) + 1)))) # close_after (fst m)"

definition spec_ok :: "(Timestamp \<times> Timestamp) list \<Rightarrow> bool" where
  "spec_ok ms \<longleftrightarrow> sorted_wrt (<) (filter (\<lambda>t. t \<noteq> Unset) (map snd ms)) \<and>
     (\<forall>m \<in> set ms. IsRangeValue (fst m) \<and> (fst m = Timestamp.Max \<longrightarrow> snd m = Unset))"

definition loop_ok :: "'a packet list \<Rightarrow> bool" where
  "loop_ok ls \<longleftrightarrow> sorted_wrt (<) (map pkt_ts ls) \<and> (\<forall>l \<in> set ls. Unset < pkt_ts l)"

lemma ts_add_one: "IsRangeValue t \<Longrightarrow> ts_add t 1 = Inr (Ts (min (ts_value Timestamp.Max) (ts_value t + 1)))"
  by (cases t) (auto simp: ts_add_def IsRangeValue_def safe_int_def Timestamp_new_def IsSpecialValue_def special_defs)

lemma close_after_range: "t \<noteq> Timestamp.Max \<Longrightarrow> close_after t = []"
  by (simp add: close_after_def prev_ts_eq) (simp add: special_defs)

lemma find_none: "(\<And>p. p \<in> set L \<Longrightarrow> pkt_ts p \<noteq> u) \<Longrightarrow> find (\<lambda>p. pkt_ts p = u) L = None"
  by (auto simp: find_None_iff)

lemma find_mid:
  "(\<And>p. p \<in> set pre \<Longrightarrow> pkt_ts p \<noteq> pkt_ts l) \<Longrightarrow> find (\<lambda>p. pkt_ts p = pkt_ts l) (pre @ l # ls) = Some l"
  by (induction pre) auto

lemma match_decides:
  assumes "spec_ok ms" "loop_ok (pre @ ls)" "\<forall>p \<in> set pre. \<forall>m \<in> set ms. snd m \<noteq> Unset \<longrightarrow> pkt_ts p < snd m"
  shows "\<exists>decided mr lr. match_packets ms ls = Inr (concat (map (decision (pre @ ls)) decided), mr, lr) \<and> ms = decided @ mr \<and> (mr = [] \<or> lr = [])"
  using assms
proof (induction ms ls arbitrary: pre rule: match_packets.induct)
  case (1 ls)
  then show ?case by simp
next
  case (2 m ms)
  then show ?case by simp
next
  case (3 t lt ms l ls)
  let ?L = "pre @ l # ls" and ?b = "Ts (min (ts_value Timestamp.Max) (ts_value t + 1))"
  have range: "ts_add t 1 = Inr ?b" and max: "t = Timestamp.Max \<Longrightarrow> lt = Unset" using 3(5) by (simp_all add: spec_ok_def ts_add_one)
  have ms: "spec_ok ms" using 3(5) by (auto simp: spec_ok_def split: if_splits)
  have above: "Unset < pkt_ts p" if "p \<in> set ?L" for p using 3(6) that by (auto simp: loop_ok_def)
  have after: "pkt_ts l < pkt_ts p" if "p \<in> set ls" for p using 3(6) that by (auto simp: loop_ok_def sorted_wrt_append)
  have before: "pkt_ts p < pkt_ts l" if "p \<in> set pre" for p using 3(6) that by (auto simp: loop_ok_def sorted_wrt_append)
  have later: "lt < snd m" if "m \<in> set ms" "snd m \<noteq> Unset" "lt \<noteq> Unset" for m using 3(5) that by (auto simp: spec_ok_def)
  show ?case
  proof (cases "lt < pkt_ts l")
    case True
    have "pkt_ts p \<noteq> lt" if "p \<in> set ?L" for p
    proof (cases "lt = Unset")
      case u: True
      then show ?thesis using above [OF that] by auto
    next
      case False
      then show ?thesis using that 3(7) after True by fastforce
    qed
    then have d: "decision ?L (t, lt) = NextBound ?b # close_after t" using find_none [of ?L lt] by (simp add: decision_def)
    have "\<forall>p \<in> set pre. \<forall>m \<in> set ms. snd m \<noteq> Unset \<longrightarrow> pkt_ts p < snd m" using 3(7) by simp
    from 3(1) [OF True range ms 3(6) this] obtain decided mr lr where
      "match_packets ms (l # ls) = Inr (concat (map (decision ?L) decided), mr, lr)" "ms = decided @ mr" "mr = [] \<or> lr = []" by blast
    then show ?thesis by - (rule exI [of _ "(t, lt) # decided"], rule exI [of _ mr], rule exI [of _ lr], simp add: True range d)
  next
    case f: False
    then have lt: "lt \<noteq> Unset" using above [of l] by auto
    have L: "?L = (pre @ [l]) @ ls" by simp
    show ?thesis
    proof (cases "pkt_ts l < lt")
      case True
      have "\<forall>p \<in> set (pre @ [l]). \<forall>m \<in> set ((t, lt) # ms). snd m \<noteq> Unset \<longrightarrow> pkt_ts p < snd m"
        using 3(7) True later [OF _ _ lt] by (auto intro: less_trans)
      from 3(2) [OF f True 3(5) 3(6) [unfolded L] this] obtain decided mr lr where r:
        "match_packets ((t, lt) # ms) ls = Inr (concat (map (decision ?L) decided), mr, lr)" "(t, lt) # ms = decided @ mr" "mr = [] \<or> lr = []" unfolding L by blast
      have c: "close_after t = []" using close_after_range max lt by blast
      have "match_packets ((t, lt) # ms) (l # ls) = Inr (concat (map (decision ?L) decided), mr, lr)" using r(1) by (simp add: f True c)
      with r(2,3) show ?thesis by blast
    next
      case g: False
      then have eq: "lt = pkt_ts l" using f by simp
      have fd: "find (\<lambda>p. pkt_ts p = lt) ?L = Some l" unfolding eq using before by (intro find_mid) fastforce
      have pre': "\<forall>p \<in> set (pre @ [l]). \<forall>m \<in> set ms. snd m \<noteq> Unset \<longrightarrow> pkt_ts p < snd m"
        using 3(7) later [OF _ _ lt] eq by auto
      show ?thesis
      proof (cases "packet_IsEmpty l")
        case True
        then have d: "decision ?L (t, lt) = NextBound ?b # close_after t" using fd by (simp add: decision_def)
        from 3(3) [OF f g True range ms 3(6) [unfolded L] pre'] obtain decided mr lr where
          "match_packets ms ls = Inr (concat (map (decision ?L) decided), mr, lr)" "ms = decided @ mr" "mr = [] \<or> lr = []" unfolding L by blast
        then show ?thesis by - (rule exI [of _ "(t, lt) # decided"], rule exI [of _ mr], rule exI [of _ lr], simp add: f g True range d)
      next
        case False
        then have d: "decision ?L (t, lt) = SendPacket (packet_At t l) # close_after t" using fd by (simp add: decision_def)
        from 3(4) [OF f g False ms 3(6) [unfolded L] pre'] obtain decided mr lr where
          "match_packets ms ls = Inr (concat (map (decision ?L) decided), mr, lr)" "ms = decided @ mr" "mr = [] \<or> lr = []" unfolding L by blast
        then show ?thesis by - (rule exI [of _ "(t, lt) # decided"], rule exI [of _ mr], rule exI [of _ lr], simp add: f g False d)
      qed
    qed
  qed
qed

section \<open>Histories\<close>

text \<open>The packets of MAIN that are noted, each with the timestamp of LOOP it waits for, and the packets of LOOP.\<close>

fun expected :: "Timestamp \<Rightarrow> Timestamp \<Rightarrow> 'b packet list \<Rightarrow> (Timestamp \<times> Timestamp) list" where
  "expected last_main last_non_empty [] = []"
| "expected last_main last_non_empty (p # ps) =
     (if last_main < pkt_ts p
      then (pkt_ts p, if packet_IsEmpty p then Unset else last_non_empty) #
             expected (pkt_ts p) (if packet_IsEmpty p then last_non_empty else pkt_ts p) ps
      else expected last_main last_non_empty ps)"

fun arrived :: "Timestamp \<Rightarrow> 'a packet list \<Rightarrow> 'a packet list" where
  "arrived last_loop [] = []"
| "arrived last_loop (p # ps) = (if last_loop < pkt_ts p then p # arrived (pkt_ts p) ps else arrived last_loop ps)"

definition loop_input :: "'b packet \<times> 'a packet \<Rightarrow> bool" where
  "loop_input i \<longleftrightarrow> (Unstarted < pkt_ts (fst i) \<longrightarrow> IsRangeValue (pkt_ts (fst i)) \<and> (pkt_ts (fst i) = Timestamp.Max \<longrightarrow> packet_IsEmpty (fst i)))"

definition note_input :: "'b packet \<times> 'a packet \<Rightarrow> 'a PreviousLoopback \<Rightarrow> 'a PreviousLoopback" where
  "note_input i s = note_loop (snd i) (note_main (fst i) s)"

lemma history_snoc: "history (xs @ [x]) = note_input x (history xs)"
  by (simp add: history_def note_input_def)

lemma notes_eq:
  "main_packet_specs (fold note_input xs s) = main_packet_specs s @ expected (prev_main_ts s) (prev_non_empty_main_ts s) (map fst xs) \<and>
   loop_packets (fold note_input xs s) = loop_packets s @ arrived (prev_loop_ts s) (map snd xs)"
  by (induction xs arbitrary: s) (simp_all add: note_input_def note_main_def note_loop_def)

lemma history_eq:
  "main_packet_specs (history xs) = expected Unstarted Unstarted (map fst xs)" "loop_packets (history xs) = arrived Unset (map snd xs)"
  using notes_eq [of xs PreviousLoopback_new] by (simp_all add: history_def note_input_def [abs_def] PreviousLoopback_new_def)

lemma arrived_ok: "sorted_wrt (<) (map pkt_ts (arrived u ps)) \<and> (\<forall>l \<in> set (arrived u ps). u < pkt_ts l)"
proof (induction ps arbitrary: u)
  case (Cons p ps)
  from Cons.IH [of "pkt_ts p"] Cons.IH [of u] show ?case by (auto intro: less_trans)
qed simp

lemma expected_ok:
  assumes "Unstarted \<le> n" "n \<le> m" "\<forall>p \<in> set ps. Unstarted < pkt_ts p \<longrightarrow> IsRangeValue (pkt_ts p) \<and> (pkt_ts p = Timestamp.Max \<longrightarrow> packet_IsEmpty p)"
  shows "sorted_wrt (<) (filter (\<lambda>t. t \<noteq> Unset) (map snd (expected m n ps))) \<and> (\<forall>e \<in> set (expected m n ps). snd e \<noteq> Unset \<longrightarrow> n \<le> snd e) \<and>
    (\<forall>e \<in> set (expected m n ps). IsRangeValue (fst e) \<and> (fst e = Timestamp.Max \<longrightarrow> snd e = Unset))"
  using assms
proof (induction ps arbitrary: m n)
  case (Cons p ps)
  show ?case
  proof (cases "m < pkt_ts p")
    case False
    then show ?thesis using Cons by simp
  next
    case True
    let ?n = "if packet_IsEmpty p then n else pkt_ts p"
    have n: "Unstarted \<le> ?n" "?n \<le> pkt_ts p" "n \<le> ?n" "\<not> packet_IsEmpty p \<Longrightarrow> n < ?n" using Cons.prems(1,2) True by auto
    have "Unstarted < pkt_ts p" using Cons.prems(1,2) True by (metis le_less_trans order_trans)
    moreover have "n \<noteq> Unset" using Cons.prems(1) special_order(1) by (metis leD)
    moreover note Cons.IH [OF n(1,2)] Cons.prems(3)
    ultimately show ?thesis using True n by (auto intro: order_trans less_le_trans)
  qed
qed simp

lemma history_ok:
  assumes "\<forall>i \<in> set xs. loop_input i"
  shows "spec_ok (main_packet_specs (history xs))" "loop_ok (loop_packets (history xs))"
  using expected_ok [of Unstarted Unstarted "map fst xs"] arrived_ok [of Unset "map snd xs"] assms
  by (auto simp: history_eq spec_ok_def loop_ok_def loop_input_def)

section \<open>The run\<close>

definition loop_rel :: "('b packet \<times> 'a packet) list \<Rightarrow> 'a out_op list \<Rightarrow> 'a PreviousLoopback \<Rightarrow> bool" where
  "loop_rel xs os s \<longleftrightarrow> (\<forall>i \<in> set xs. loop_input i) \<and>
     match_packets (main_packet_specs (history xs)) (loop_packets (history xs)) = Inr (os, main_packet_specs s, loop_packets s) \<and>
     prev_main_ts s = prev_main_ts (history xs) \<and> prev_non_empty_main_ts s = prev_non_empty_main_ts (history xs) \<and>
     prev_loop_ts s = prev_loop_ts (history xs)"

lemma note_appends:
  assumes "prev_main_ts s = prev_main_ts h" "prev_non_empty_main_ts s = prev_non_empty_main_ts h" "prev_loop_ts s = prev_loop_ts h"
  shows "\<exists>ms ls. main_packet_specs (note_input x s) = main_packet_specs s @ ms \<and> main_packet_specs (note_input x h) = main_packet_specs h @ ms \<and>
    loop_packets (note_input x s) = loop_packets s @ ls \<and> loop_packets (note_input x h) = loop_packets h @ ls \<and>
    prev_main_ts (note_input x s) = prev_main_ts (note_input x h) \<and> prev_non_empty_main_ts (note_input x s) = prev_non_empty_main_ts (note_input x h) \<and>
    prev_loop_ts (note_input x s) = prev_loop_ts (note_input x h)"
  using assms by (auto simp: note_input_def note_main_def note_loop_def)

lemma loop_rel_step:
  assumes "loop_rel xs os s" "loop_input x"
  shows "\<exists>os' s'. Loopback_Process x s = Inr (os', s') \<and> loop_rel (xs @ [x]) (os @ os') s'"
proof -
  let ?h = "history xs"
  from note_appends [of s ?h x] assms(1) obtain ms ls where n:
    "main_packet_specs (note_input x s) = main_packet_specs s @ ms" "main_packet_specs (note_input x ?h) = main_packet_specs ?h @ ms"
    "loop_packets (note_input x s) = loop_packets s @ ls" "loop_packets (note_input x ?h) = loop_packets ?h @ ls"
    "prev_main_ts (note_input x s) = prev_main_ts (note_input x ?h)" "prev_non_empty_main_ts (note_input x s) = prev_non_empty_main_ts (note_input x ?h)"
    "prev_loop_ts (note_input x s) = prev_loop_ts (note_input x ?h)" by (auto simp: loop_rel_def)
  have ok: "\<forall>i \<in> set (xs @ [x]). loop_input i" using assms by (auto simp: loop_rel_def)
  have "match_packets (main_packet_specs ?h) (loop_packets ?h) = Inr (os, main_packet_specs s, loop_packets s)" using assms(1) by (simp add: loop_rel_def)
  from match_append [OF this, of ms ls] have m:
    "match_packets (main_packet_specs (history (xs @ [x]))) (loop_packets (history (xs @ [x]))) =
      then_out os (match_packets (main_packet_specs (note_input x s)) (loop_packets (note_input x s)))"
    by (simp add: history_snoc n(1-4))
  obtain os1 mr lr where "match_packets (main_packet_specs (history (xs @ [x]))) (loop_packets (history (xs @ [x]))) = Inr (os1, mr, lr)"
    using match_decides [OF history_ok(1) [OF ok], of "[]" "loop_packets (history (xs @ [x]))"] history_ok(2) [OF ok] by auto
  with m obtain os' where r: "match_packets (main_packet_specs (note_input x s)) (loop_packets (note_input x s)) = Inr (os', mr, lr)"
    by (cases "match_packets (main_packet_specs (note_input x s)) (loop_packets (note_input x s))") auto
  show ?thesis using ok m r n(5-7)
    by (intro exI [of _ os'] exI [of _ "(note_input x s)\<lparr>main_packet_specs := mr, loop_packets := lr\<rparr>"])
      (simp add: Loopback_Process_def note_input_def [symmetric] Let_def loop_rel_def history_snoc)
qed

interpretation loopback: calculator Loopback_Process PreviousLoopback_new "\<lambda>_. loop_input" loop_rel
  by unfold_locales (simp add: loop_rel_def history_def PreviousLoopback_new_def, rule loop_rel_step)

text \<open>
  A packet of MAIN with contents at the last timestamp is the exception: the close test also follows a packet of LOOP that is merely
  dropped, so that the stream is closed before the packet that is due on it, and the packet is refused.
\<close>

lemma loopback_closes_early:
  assumes "l1 < l2" "\<not> oss_closed o'"
  shows "match_packets [(Timestamp.Max, l2)] [\<lparr>pkt_ts = l1, pkt_data = x\<rparr>, \<lparr>pkt_ts = l2, pkt_data = Some y\<rparr>] =
      Inr ([CloseStream, SendPacket \<lparr>pkt_ts = Timestamp.Max, pkt_data = Some y\<rparr>, CloseStream], [], [])"
    and "fst (run_out v [CloseStream, SendPacket \<lparr>pkt_ts = Timestamp.Max, pkt_data = Some y\<rparr>, CloseStream] o') = [SentToClosed]"
proof -
  have "prev_ts Done = Timestamp.Max" by (simp add: prev_ts_eq special_defs)
  then show "match_packets [(Timestamp.Max, l2)] [\<lparr>pkt_ts = l1, pkt_data = x\<rparr>, \<lparr>pkt_ts = l2, pkt_data = Some y\<rparr>] =
      Inr ([CloseStream, SendPacket \<lparr>pkt_ts = Timestamp.Max, pkt_data = Some y\<rparr>, CloseStream], [], [])"
    using assms by (auto simp: packet_IsEmpty_def packet_At_def close_after_def dest: less_asym)
qed (use assms in \<open>simp add: oss_AddPacket_def oss_AddPacketInternal_def oss_Close_def\<close>)

text \<open>
  C32: The previous loop packet. On any run whose packets of MAIN have timestamps in the range, and none but an empty one at the last of it,
  however the packets of MAIN and LOOP come interleaved, no check fails, and the calculator decides on the
  packets of MAIN in order: a packet that is not empty gets the contents of the LOOP packet with the timestamp of the last packet of
  MAIN before it that was not empty, at its own timestamp, if there is one that is not empty, and a bound after it otherwise; so
  does an empty packet.  It decides as soon as it can: a decision is open only while no packet of LOOP waits.  The stream
  is closed right after the decision on the last possible timestamp.
\<close>

theorem loopback_matches:
  assumes "\<forall>i \<in> set xs. loop_input i"
  shows "\<exists>os s decided. run_calculator Loopback_Process xs PreviousLoopback_new = Inr (os, s) \<and>
    expected Unstarted Unstarted (map fst xs) = decided @ main_packet_specs s \<and>
    os = concat (map (decision (arrived Unset (map snd xs))) decided) \<and> (main_packet_specs s = [] \<or> loop_packets s = [])"
proof -
  from loopback.run_rel [of xs] assms obtain os s where r: "run_calculator Loopback_Process xs PreviousLoopback_new = Inr (os, s)" "loop_rel xs os s" by auto
  from match_decides [of "main_packet_specs (history xs)" "[]" "loop_packets (history xs)"] history_ok [OF assms] r(2)
  obtain decided where "os = concat (map (decision (loop_packets (history xs))) decided)" "main_packet_specs (history xs) = decided @ main_packet_specs s"
    "main_packet_specs s = [] \<or> loop_packets s = []" by (auto simp: loop_rel_def)
  with r(1) show ?thesis by (auto simp: history_eq)
qed

theorem loopback_matches_witness:
  "\<exists>os s decided. run_calculator Loopback_Process
     [(\<lparr>pkt_ts = Ts 1, pkt_data = Some ''a''\<rparr>, \<lparr>pkt_ts = Unstarted, pkt_data = None\<rparr>),
      (\<lparr>pkt_ts = Ts 2, pkt_data = Some ''b''\<rparr>, \<lparr>pkt_ts = Ts 1, pkt_data = Some (7::int)\<rparr>)] PreviousLoopback_new = Inr (os, s) \<and>
     [(Ts 1, Unstarted), (Ts 2, Ts 1)] = decided @ main_packet_specs s \<and>
     os = concat (map (decision [\<lparr>pkt_ts = Unstarted, pkt_data = None\<rparr>, \<lparr>pkt_ts = Ts 1, pkt_data = Some 7\<rparr>]) decided)"
proof -
  let ?xs = "[(\<lparr>pkt_ts = Ts 1, pkt_data = Some ''a''\<rparr>, \<lparr>pkt_ts = Unstarted, pkt_data = None\<rparr>),
      (\<lparr>pkt_ts = Ts 2, pkt_data = Some ''b''\<rparr>, \<lparr>pkt_ts = Ts 1, pkt_data = Some (7::int)\<rparr>)]"
  have "\<forall>i \<in> set ?xs. loop_input i" by (simp add: loop_input_def IsRangeValue_def special_defs)
  moreover have "Unstarted < Ts 1" by (simp add: special_defs)
  ultimately show ?thesis using loopback_matches [of ?xs] by (auto simp: packet_IsEmpty_def)
qed

end
