(* ===== verification/Loop_Calculators.thy ===== *)
theory Loop_Calculators
  imports Calculators
begin

text \<open>
  \<^verbatim>\<open>calculators/core/begin_loop_calculator.h\<close> and \<^verbatim>\<open>end_loop_calculator.h\<close>: a graph runs once for each element of a collection, at timestamps made
  up for the purpose, and the results are collected again.  Whether a packet is the only owner of its contents decides between
  moving and copying; \<open>movable\<close> and \<open>copiable\<close> say which is possible, and the values are the same.
\<close>

datatype loop_error = LoopTimestamp ts_error | NotCopiable

definition loop_ts :: "ts_error + 'x \<Rightarrow> loop_error + 'x" where
  "loop_ts r = (case r of Inl e \<Rightarrow> Inl (LoopTimestamp e) | Inr x \<Rightarrow> Inr x)"

section \<open>The beginning of a loop\<close>

text \<open>The operations on the outputs; a bound is set on all of them.\<close>

datatype ('a, 'c) begin_out = OutItem "'a packet" | OutClone nat "'c packet" | OutBatchEnd "Timestamp packet" | OutBounds Timestamp

definition ForwardClonePackets :: "'c option list \<Rightarrow> Timestamp \<Rightarrow> ('a, 'c) begin_out list" where
  "ForwardClonePackets clones t = concat (map (\<lambda>(i, c). case c of None \<Rightarrow> [] | Some x \<Rightarrow> [OutClone i \<lparr>pkt_ts = t, pkt_data = Some x\<rparr>]) (enumerate 0 clones))"

fun emit_items :: "'c option list \<Rightarrow> 'a list \<Rightarrow> Timestamp \<Rightarrow> ts_error + (('a, 'c) begin_out list \<times> Timestamp)" where
  "emit_items clones [] t = Inr ([], t)"
| "emit_items clones (x # xs) t =
     (case ts_add t 1 of
        Inl e \<Rightarrow> Inl e
      | Inr t1 \<Rightarrow>
          (case emit_items clones xs t1 of
             Inl e \<Rightarrow> Inl e
           | Inr (os, t2) \<Rightarrow> Inr (OutItem \<lparr>pkt_ts = t, pkt_data = Some x\<rparr> # ForwardClonePackets clones t @ os, t2)))"

text \<open>An input: the input timestamp, the collection if there is one, and the packets to clone; the state is \<^verbatim>\<open>loop_internal_timestamp_\<close>.\<close>

definition BeginLoop_start :: Timestamp where
  "BeginLoop_start = Ts 0"

definition BeginLoop_Process ::
  "bool \<Rightarrow> bool \<Rightarrow> Timestamp \<times> 'a list option \<times> 'c option list \<Rightarrow> Timestamp \<Rightarrow> loop_error + (('a, 'c) begin_out list \<times> Timestamp)" where
  "BeginLoop_Process movable copiable i last_timestamp =
     (case i of (input_timestamp, iterable, clones) \<Rightarrow>
        case (case iterable of
                None \<Rightarrow> Inr ([], last_timestamp)
              | Some xs \<Rightarrow> if \<not> movable \<and> \<not> copiable then Inl NotCopiable else loop_ts (emit_items clones xs last_timestamp)) of
          Inl e \<Rightarrow> Inl e
        | Inr (os, t1) \<Rightarrow>
            (case (if last_timestamp = t1 then map_sum id (\<lambda>t. ([OutBounds t], t)) (loop_ts (ts_add t1 1)) else Inr ([], t1)) of
               Inl e \<Rightarrow> Inl e
             | Inr (bs, t2) \<Rightarrow>
                 (case ts_sub t2 1 of
                    Inl e \<Rightarrow> Inl (LoopTimestamp e)
                  | Inr t3 \<Rightarrow> Inr (os @ bs @ [OutBatchEnd \<lparr>pkt_ts = t3, pkt_data = Some input_timestamp\<rparr>], t2))))"

section \<open>The end of a loop\<close>

text \<open>An input: the packets of ITEM and of BATCH_END, if any; the state is the collection, if there is one.\<close>

definition EndLoop_Process ::
  "bool \<Rightarrow> bool \<Rightarrow> 'b option \<times> Timestamp option \<Rightarrow> 'b list option \<Rightarrow> loop_error + ('b list out_op list \<times> 'b list option)" where
  "EndLoop_Process movable copiable i s =
     (case i of (item, batch_end) \<Rightarrow>
        case (case item of
                None \<Rightarrow> Inr s
              | Some x \<Rightarrow>
                  if \<not> movable \<and> \<not> copiable then Inl NotCopiable else Inr (Some ((case s of None \<Rightarrow> [] | Some xs \<Rightarrow> xs) @ [x]))) of
          Inl e \<Rightarrow> Inl e
        | Inr s1 \<Rightarrow>
            (case batch_end of
               None \<Rightarrow> Inr ([], s1)
             | Some t \<Rightarrow>
                 (case s1 of
                    Some xs \<Rightarrow> Inr ([SendPacket \<lparr>pkt_ts = t, pkt_data = Some xs\<rparr>], None)
                  | None \<Rightarrow> map_sum LoopTimestamp (\<lambda>b. ([NextBound b], None)) (Timestamp_new (ts_value t + 1)))))"

section \<open>The body of a loop\<close>

text \<open>
  A body that maps the items with \<open>f\<close>, and the default input policy of the end: one call for each timestamp at which there is a
  packet, with the packets at that timestamp.
\<close>

fun items_of :: "('a, 'c) begin_out list \<Rightarrow> (Timestamp \<times> 'a) list" where
  "items_of [] = []"
| "items_of (OutItem p # os) = (case pkt_data p of None \<Rightarrow> items_of os | Some x \<Rightarrow> (pkt_ts p, x) # items_of os)"
| "items_of (_ # os) = items_of os"

fun ends_of :: "('a, 'c) begin_out list \<Rightarrow> (Timestamp \<times> Timestamp) list" where
  "ends_of [] = []"
| "ends_of (OutBatchEnd p # os) = (case pkt_data p of None \<Rightarrow> ends_of os | Some x \<Rightarrow> (pkt_ts p, x) # ends_of os)"
| "ends_of (_ # os) = ends_of os"

definition loop_sets :: "('a \<Rightarrow> 'b) \<Rightarrow> (Timestamp \<times> 'a) list \<Rightarrow> (Timestamp \<times> Timestamp) list \<Rightarrow> ('b option \<times> Timestamp option) list" where
  "loop_sets f items ends =
     map (\<lambda>t. (map_option f (map_of items t), map_of ends t)) (sorted_list_of_set (set (map fst items) \<union> set (map fst ends)))"

section \<open>What the loop numbers\<close>

fun numbered :: "int \<Rightarrow> 'a list \<Rightarrow> (Timestamp \<times> 'a) list" where
  "numbered n [] = []"
| "numbered n (x # xs) = (Ts n, x) # numbered (n + 1) xs"

type_synonym ('a, 'c) batch = "Timestamp \<times> 'a list option \<times> 'c option list"

definition batch_list :: "('a, 'c) batch \<Rightarrow> 'a list" where
  "batch_list b = (case fst (snd b) of None \<Rightarrow> [] | Some xs \<Rightarrow> xs)"

definition batch_len :: "('a, 'c) batch \<Rightarrow> int" where
  "batch_len b = max 1 (int (length (batch_list b)))"

lemma batch_len_pos: "1 \<le> batch_len b"
  by (simp add: batch_len_def)

lemma items_of_append [simp]: "items_of (os @ os') = items_of os @ items_of os'"
  by (induction os rule: items_of.induct) (auto split: option.splits)

lemma ends_of_append [simp]: "ends_of (os @ os') = ends_of os @ ends_of os'"
  by (induction os rule: ends_of.induct) (auto split: option.splits)

lemma no_items: "\<forall>o' \<in> set os. \<exists>i p. o' = OutClone i p \<Longrightarrow> items_of os = [] \<and> ends_of os = []"
  by (induction os) auto

lemma clones_only: "\<forall>o' \<in> set (ForwardClonePackets clones t). \<exists>i p. o' = OutClone i p"
  by (auto simp: ForwardClonePackets_def split: option.splits)

lemmas clones_neither [simp] = no_items [OF clones_only, THEN conjunct1] no_items [OF clones_only, THEN conjunct2]

lemma ts_succ: "0 \<le> n \<Longrightarrow> n < ts_value Timestamp.Max \<Longrightarrow> ts_add (Ts n) 1 = Inr (Ts (n + 1))"
  by (auto simp: ts_add_def IsRangeValue_def safe_int_def Timestamp_new_def IsSpecialValue_def special_defs)

lemma ts_pred: "1 \<le> n \<Longrightarrow> n \<le> ts_value Timestamp.Max \<Longrightarrow> ts_sub (Ts n) 1 = Inr (Ts (n - 1))"
  by (auto simp: ts_sub_def diff_neg_def ts_add_def IsRangeValue_def safe_int_def Timestamp_new_def IsSpecialValue_def special_defs)

lemma emit_items_numbers:
  "0 \<le> n \<Longrightarrow> n + int (length xs) \<le> ts_value Timestamp.Max \<Longrightarrow>
    \<exists>os. emit_items clones xs (Ts n) = Inr (os, Ts (n + int (length xs))) \<and> items_of os = numbered n xs \<and> ends_of os = []"
proof (induction xs arbitrary: n)
  case (Cons x xs)
  from Cons.IH [of "n + 1"] Cons.prems obtain os where
    "emit_items clones xs (Ts (n + 1)) = Inr (os, Ts (n + 1 + int (length xs)))" "items_of os = numbered (n + 1) xs" "ends_of os = []" by auto
  with Cons.prems show ?case by (simp add: ts_succ add.assoc)
qed simp

lemma BeginLoop_one:
  assumes "m \<or> c" "0 \<le> n" "n + batch_len b \<le> ts_value Timestamp.Max"
  shows "\<exists>os. BeginLoop_Process m c b (Ts n) = Inr (os, Ts (n + batch_len b)) \<and> items_of os = numbered n (batch_list b) \<and>
    ends_of os = [(Ts (n + batch_len b - 1), fst b)]"
proof -
  obtain t it cl where b: "b = (t, it, cl)" by (cases b)
  have "n + int (length (batch_list b)) \<le> ts_value Timestamp.Max" using assms(3) by (simp add: batch_len_def)
  from emit_items_numbers [OF assms(2) this, of cl] obtain os where e:
    "emit_items cl (batch_list b) (Ts n) = Inr (os, Ts (n + int (length (batch_list b))))" "items_of os = numbered n (batch_list b)" "ends_of os = []" by blast
  have p: "ts_sub (Ts (n + batch_len b)) 1 = Inr (Ts (n + batch_len b - 1))" using ts_pred [of "n + batch_len b"] batch_len_pos [of b] assms(2,3) by simp
  show ?thesis
  proof (cases "batch_list b = []")
    case True
    then have len: "batch_len b = 1" by (simp add: batch_len_def)
    have "it = None \<or> it = Some []" using True b by (cases it) (auto simp: batch_list_def)
    then show ?thesis using assms p ts_succ [of n] by (auto simp: BeginLoop_Process_def b len [unfolded b] True [unfolded b] loop_ts_def)
  next
    case False
    then have len: "batch_len b = int (length (batch_list b))" by (cases "batch_list b") (auto simp: batch_len_def)
    from False obtain xs where "it = Some xs" "batch_list b = xs" "xs \<noteq> []" using b by (cases it) (auto simp: batch_list_def)
    then show ?thesis using assms(1) e p len by (auto simp: BeginLoop_Process_def b loop_ts_def)
  qed
qed

fun loop_items :: "int \<Rightarrow> ('a, 'c) batch list \<Rightarrow> (Timestamp \<times> 'a) list" where
  "loop_items n [] = []"
| "loop_items n (b # bs) = numbered n (batch_list b) @ loop_items (n + batch_len b) bs"

fun loop_ends :: "int \<Rightarrow> ('a, 'c) batch list \<Rightarrow> (Timestamp \<times> Timestamp) list" where
  "loop_ends n [] = []"
| "loop_ends n (b # bs) = (Ts (n + batch_len b - 1), fst b) # loop_ends (n + batch_len b) bs"

lemma BeginLoop_run:
  assumes "m \<or> c" "0 \<le> n" "n + (\<Sum>b\<leftarrow>bs. batch_len b) \<le> ts_value Timestamp.Max"
  shows "\<exists>os s. run_calculator (BeginLoop_Process m c) bs (Ts n) = Inr (os, s) \<and> items_of os = loop_items n bs \<and> ends_of os = loop_ends n bs"
  using assms(2,3)
proof (induction bs arbitrary: n)
  case (Cons b bs)
  have nonneg: "0 \<le> (\<Sum>b\<leftarrow>bs. batch_len b)" by (intro sum_list_nonneg) (auto intro: order_trans [OF zero_le_one batch_len_pos])
  have "n + batch_len b \<le> ts_value Timestamp.Max" using Cons.prems nonneg by simp
  from BeginLoop_one [OF assms(1) Cons.prems(1) this] obtain os where o:
    "BeginLoop_Process m c b (Ts n) = Inr (os, Ts (n + batch_len b))" "items_of os = numbered n (batch_list b)" "ends_of os = [(Ts (n + batch_len b - 1), fst b)]" by blast
  from Cons.IH [of "n + batch_len b"] Cons.prems batch_len_pos [of b] obtain os' s where
    "run_calculator (BeginLoop_Process m c) bs (Ts (n + batch_len b)) = Inr (os', s)" "items_of os' = loop_items (n + batch_len b) bs"
    "ends_of os' = loop_ends (n + batch_len b) bs" by (auto simp: add.assoc)
  with o show ?case by simp
qed simp

section \<open>What the end is called with\<close>

lemma sorted_list_of_set_sep:
  assumes "finite A" "finite B" "\<And>x y. x \<in> A \<Longrightarrow> y \<in> B \<Longrightarrow> x < (y::'a::linorder)"
  shows "sorted_list_of_set (A \<union> B) = sorted_list_of_set A @ sorted_list_of_set B"
proof -
  have "sorted_wrt (<) (sorted_list_of_set A @ sorted_list_of_set B)" using assms by (simp add: sorted_wrt_append)
  moreover have "set (sorted_list_of_set A @ sorted_list_of_set B) = A \<union> B" using assms by simp
  ultimately show ?thesis using assms(1,2) by (metis sorted_list_of_set.idem_if_sorted_distinct strict_sorted_iff)
qed

lemma loop_sets_append:
  assumes "\<And>t u. t \<in> fst ` set I1 \<union> fst ` set E1 \<Longrightarrow> u \<in> fst ` set I2 \<union> fst ` set E2 \<Longrightarrow> t < u"
  shows "loop_sets f (I1 @ I2) (E1 @ E2) = loop_sets f I1 E1 @ loop_sets f I2 E2"
proof -
  let ?A = "fst ` set I1 \<union> fst ` set E1" and ?B = "fst ` set I2 \<union> fst ` set E2"
  have keys: "set (map fst (I1 @ I2)) \<union> set (map fst (E1 @ E2)) = ?A \<union> ?B" by auto
  have order: "sorted_list_of_set (?A \<union> ?B) = sorted_list_of_set ?A @ sorted_list_of_set ?B" using assms by (intro sorted_list_of_set_sep) auto
  have none2: "map_of I2 t = None" "map_of E2 t = None" if "t \<in> ?A" for t using assms [OF that] by (auto simp: map_of_eq_None_iff)
  have none1: "map_of I1 t = None" "map_of E1 t = None" if "t \<in> ?B" for t using assms [OF _ that] by (auto simp: map_of_eq_None_iff)
  show ?thesis unfolding loop_sets_def keys order by (auto simp: map_add_def none1 none2 simp del: Un_iff split: option.splits)
qed

fun batch_sets :: "('a \<Rightarrow> 'b) \<Rightarrow> Timestamp \<Rightarrow> 'a list \<Rightarrow> ('b option \<times> Timestamp option) list" where
  "batch_sets f t [] = [(None, Some t)]"
| "batch_sets f t [x] = [(Some (f x), Some t)]"
| "batch_sets f t (x # y # xs) = (Some (f x), None) # batch_sets f t (y # xs)"

lemma numbered_keys: "p \<in> set (numbered n xs) \<Longrightarrow> n \<le> ts_value (fst p) \<and> ts_value (fst p) < n + int (length xs)"
proof (induction xs arbitrary: n)
  case (Cons x xs)
  show ?case using Cons.prems Cons.IH [of "n + 1"] by auto
qed simp

lemma loop_sets_batch: "loop_sets f (numbered n xs) [(Ts (n + max 1 (int (length xs)) - 1), t)] = batch_sets f t xs"
proof (induction f t xs arbitrary: n rule: batch_sets.induct)
  case (3 f t x y xs)
  have later: "n < ts_value (fst p)" if "p \<in> set (numbered (n + 1) (y # xs))" for p
    using numbered_keys [OF that] by simp
  have "loop_sets f ([(Ts n, x)] @ numbered (n + 1) (y # xs)) ([] @ [(Ts (n + 1 + max 1 (int (length (y # xs))) - 1), t)]) =
    loop_sets f [(Ts n, x)] [] @ loop_sets f (numbered (n + 1) (y # xs)) [(Ts (n + 1 + max 1 (int (length (y # xs))) - 1), t)]"
    by (rule loop_sets_append) (use later in \<open>fastforce simp: less_Timestamp_def\<close>)
  moreover have "loop_sets f [(Ts n, x)] [] = [(Some (f x), None)]" by (simp add: loop_sets_def)
  ultimately show ?case using 3 [of "n + 1"] by (simp add: add.commute add.left_commute max_def)
qed (simp_all add: loop_sets_def)

lemma loop_keys: "p \<in> set (loop_items n bs) \<Longrightarrow> n \<le> ts_value (fst p)" "q \<in> set (loop_ends n bs) \<Longrightarrow> n \<le> ts_value (fst q)"
proof (induction n bs rule: loop_ends.induct)
  case (2 n b bs)
  { case 1
    then show ?case using "2.IH"(1) batch_len_pos [of b] numbered_keys [of p n "batch_list b"] by auto
  next
    case 2
    then show ?case using "2.IH"(2) batch_len_pos [of b] by auto
  }
qed simp_all

lemma numbered_sorted: "sorted_wrt (<) (map fst (numbered n xs))"
  by (induction n xs rule: numbered.induct) (use numbered_keys in \<open>fastforce simp: less_Timestamp_def\<close>)+

lemma loop_items_sorted: "sorted_wrt (<) (map fst (loop_items n bs))"
proof (induction n bs rule: loop_items.induct)
  case (2 n b bs)
  have "p < q" if "p \<in> fst ` set (numbered n (batch_list b))" "q \<in> fst ` set (loop_items (n + batch_len b) bs)" for p q
    using that numbered_keys [of _ n "batch_list b"] loop_keys(1) [of _ "n + batch_len b" bs] by (fastforce simp: less_Timestamp_def batch_len_def)
  with 2 show ?case by (simp add: sorted_wrt_append numbered_sorted)
qed simp

lemma loop_sets_batches: "loop_sets f (loop_items n bs) (loop_ends n bs) = concat (map (\<lambda>b. batch_sets f (fst b) (batch_list b)) bs)"
proof (induction bs arbitrary: n)
  case (Cons b bs)
  have early: "ts_value (fst p) < n + batch_len b" if "p \<in> set (numbered n (batch_list b))" for p
    using numbered_keys [OF that] by (simp add: batch_len_def)
  have "loop_sets f (numbered n (batch_list b) @ loop_items (n + batch_len b) bs) ([(Ts (n + batch_len b - 1), fst b)] @ loop_ends (n + batch_len b) bs) =
    loop_sets f (numbered n (batch_list b)) [(Ts (n + batch_len b - 1), fst b)] @ loop_sets f (loop_items (n + batch_len b) bs) (loop_ends (n + batch_len b) bs)"
    by (rule loop_sets_append) (use early loop_keys [of _ "n + batch_len b" bs] in \<open>fastforce simp: less_Timestamp_def\<close>)
  moreover have "loop_sets f (numbered n (batch_list b)) [(Ts (n + batch_len b - 1), fst b)] = batch_sets f (fst b) (batch_list b)"
    using loop_sets_batch [of f n "batch_list b" "fst b"] by (simp add: batch_len_def)
  ultimately show ?case using Cons.IH by simp
qed (simp add: loop_sets_def)

section \<open>The results\<close>

lemma EndLoop_batch:
  assumes "m \<or> c" "xs \<noteq> []"
  shows "run_calculator (EndLoop_Process m c) (batch_sets f t xs) s =
    Inr ([SendPacket \<lparr>pkt_ts = t, pkt_data = Some (case_option [] id s @ map f xs)\<rparr>], None)"
  using assms(2)
proof (induction f t xs arbitrary: s rule: batch_sets.induct)
  case (2 f t x)
  then show ?case using assms(1) by (cases s) (auto simp: EndLoop_Process_def)
next
  case (3 f t x y xs)
  then show ?case using assms(1) by (cases s) (auto simp: EndLoop_Process_def)
qed simp

text \<open>What the loop is to output for a batch.\<close>

definition batch_result :: "('a \<Rightarrow> 'b) \<Rightarrow> ('a, 'c) batch \<Rightarrow> 'b list out_op" where
  "batch_result f b =
     (if batch_list b = [] then NextBound (Ts (ts_value (fst b) + 1)) else SendPacket \<lparr>pkt_ts = fst b, pkt_data = Some (map f (batch_list b))\<rparr>)"

lemma EndLoop_batches:
  assumes "m \<or> c" "\<forall>b \<in> set bs. batch_list b = [] \<longrightarrow> \<not> IsSpecialValue (Ts (ts_value (fst b) + 1))"
  shows "run_calculator (EndLoop_Process m c) (concat (map (\<lambda>b. batch_sets f (fst b) (batch_list b)) bs)) None = Inr (map (batch_result f) bs, None)"
  using assms(2)
proof (induction bs)
  case (Cons b bs)
  have one: "run_calculator (EndLoop_Process m c) (batch_sets f (fst b) (batch_list b)) None = Inr ([batch_result f b], None)"
  proof (cases "batch_list b = []")
    case True
    with Cons.prems show ?thesis by (simp add: EndLoop_Process_def batch_result_def Timestamp_new_def)
  next
    case False
    then show ?thesis by (simp add: EndLoop_batch [OF assms(1)] batch_result_def)
  qed
  have "run_calculator (EndLoop_Process m c) (concat (map (\<lambda>b. batch_sets f (fst b) (batch_list b)) bs)) None = Inr (map (batch_result f) bs, None)"
    using Cons by simp
  with one show ?case by (simp add: run_calculator_append)
qed simp

text \<open>
  C31: A loop in the graph is a map: when the body applies \<open>f\<close> to every item and the end is called by the default policy, the end sends for
  each collection, in the order and at the timestamp it came, the list of the results of its elements in their order; for an
  empty or missing collection it raises the bound past the timestamp instead, so that the outputs and the inputs stay aligned.  The items go
  round at strictly increasing timestamps.
\<close>

theorem loop_maps_batches:
  assumes "m \<or> c" "m' \<or> c'" and total: "(\<Sum>b\<leftarrow>bs. batch_len b) \<le> ts_value Timestamp.Max"
    and empty_at: "\<And>b. b \<in> set bs \<Longrightarrow> batch_list b = [] \<Longrightarrow> \<not> IsSpecialValue (Ts (ts_value (fst b) + 1))"
  shows "\<exists>os s. run_calculator (BeginLoop_Process m c) bs BeginLoop_start = Inr (os, s) \<and> sorted_wrt (<) (map fst (items_of os)) \<and>
    run_calculator (EndLoop_Process m' c') (loop_sets f (items_of os) (ends_of os)) None = Inr (map (batch_result f) bs, None)"
proof -
  from BeginLoop_run [OF assms(1), of 0 bs] total obtain os s where
    o: "run_calculator (BeginLoop_Process m c) bs BeginLoop_start = Inr (os, s)" "items_of os = loop_items 0 bs" "ends_of os = loop_ends 0 bs"
    by (auto simp: BeginLoop_start_def)
  have "run_calculator (EndLoop_Process m' c') (loop_sets f (items_of os) (ends_of os)) None = Inr (map (batch_result f) bs, None)"
    unfolding o(2,3) loop_sets_batches by (rule EndLoop_batches [OF assms(2)]) (use empty_at in auto)
  with o show ?thesis using loop_items_sorted [of 0 bs] by auto
qed

definition "example_batches = [(Ts 5, Some [1, 2, 3], [Some ''x'']), (Ts 9, None, [None]), (Ts 12, Some [4::int], [None])]"

theorem loop_maps_batches_witness:
  "\<exists>os s. run_calculator (BeginLoop_Process True False) example_batches BeginLoop_start = Inr (os, s) \<and> sorted_wrt (<) (map fst (items_of os)) \<and>
    run_calculator (EndLoop_Process False True) (loop_sets (\<lambda>x. x * x) (items_of os) (ends_of os)) None =
      Inr ([SendPacket \<lparr>pkt_ts = Ts 5, pkt_data = Some [1, 4, 9]\<rparr>, NextBound (Ts 10), SendPacket \<lparr>pkt_ts = Ts 12, pkt_data = Some [16]\<rparr>], None)"
proof -
  have results: "map (batch_result (\<lambda>x. x * x)) example_batches =
      [SendPacket \<lparr>pkt_ts = Ts 5, pkt_data = Some [1, 4, 9]\<rparr>, NextBound (Ts 10), SendPacket \<lparr>pkt_ts = Ts 12, pkt_data = Some [16]\<rparr>]"
    by (simp add: example_batches_def batch_list_def batch_result_def)
  have "\<exists>os s. run_calculator (BeginLoop_Process True False) example_batches BeginLoop_start = Inr (os, s) \<and> sorted_wrt (<) (map fst (items_of os)) \<and>
    run_calculator (EndLoop_Process False True) (loop_sets (\<lambda>x. x * x) (items_of os) (ends_of os)) None =
      Inr (map (batch_result (\<lambda>x. x * x)) example_batches, None)"
    by (rule loop_maps_batches) (auto simp: example_batches_def batch_len_def batch_list_def special_defs IsSpecialValue_def less_eq_Timestamp_def)
  then show ?thesis unfolding results .
qed

end
