(* ===== verification/Flow_Limiter.thy ===== *)
theory Flow_Limiter
  imports Calculators
begin

text \<open>
  \<^verbatim>\<open>calculators/core/flow_limiter_calculator.cc\<close>: the node in front of the hand tracking graph that drops the frames the graph has no time for.
  A call sees the timestamp it is called at, the timestamp of its FINISHED packet, a packet on each of its data streams, which may be empty, the
  options it finds on its OPTIONS input (what they make of the old ones), and the shard of its first output stream.
\<close>

section \<open>The calculator\<close>

record FlowLimiterCalculatorOptions =
  max_in_flight :: int
  max_in_queue :: int
  in_flight_timeout :: int

record 'a FlowLimiter =
  flow_options :: FlowLimiterCalculatorOptions
  input_queues :: "'a packet list list"
  frames_in_flight :: "Timestamp list"
  allowed :: "(Timestamp \<times> bool) list"

record 'a flow_input =
  input_timestamp :: Timestamp
  finished_timestamp :: Timestamp
  frames :: "'a packet list"
  retrieved :: "FlowLimiterCalculatorOptions \<Rightarrow> FlowLimiterCalculatorOptions"
  main_output :: "'a OutputStreamShard"

datatype 'a flow_op = Frame nat "'a out_op" | Allow "bool out_op"

text \<open>\<open>BeforeBegin\<close> is \<^verbatim>\<open>std::prev\<close> of the beginning of a map, which is undefined.\<close>

datatype flow_error = FlowTimestamp ts_error | BeforeBegin

definition FlowLimiter_Open :: "nat \<Rightarrow> FlowLimiterCalculatorOptions \<Rightarrow> int option \<Rightarrow> 'a FlowLimiter" where
  "FlowLimiter_Open num_entries options side_max_in_flight =
     \<lparr>flow_options = (case side_max_in_flight of None \<Rightarrow> options | Some n \<Rightarrow> options\<lparr>max_in_flight := n\<rparr>),
      input_queues = replicate num_entries [], frames_in_flight = [], allowed = [(Unset, True)]\<rparr>"

text \<open>A signed number compared with a \<^verbatim>\<open>size_t\<close> is converted to it.\<close>

definition as_size :: "int \<Rightarrow> nat" where
  "as_size n = nat (n mod 2 ^ 64)"

definition ProcessingAllowed :: "int \<Rightarrow> Timestamp list \<Rightarrow> bool" where
  "ProcessingAllowed most in_flight = (length in_flight < as_size most)"

text \<open>The map \<^verbatim>\<open>allowed_\<close> in the order of its keys: assignment and the entry before the upper bound of a timestamp.\<close>

fun allowed_put :: "Timestamp \<Rightarrow> bool \<Rightarrow> (Timestamp \<times> bool) list \<Rightarrow> (Timestamp \<times> bool) list" where
  "allowed_put t b [] = [(t, b)]"
| "allowed_put t b ((u, c) # al) = (if u < t then (u, c) # allowed_put t b al else if u = t then (t, b) # al else (t, b) # (u, c) # al)"

definition until_upper_bound :: "Timestamp \<Rightarrow> (Timestamp \<times> bool) list \<Rightarrow> (Timestamp \<times> bool) list" where
  "until_upper_bound t al = takeWhile (\<lambda>e. fst e \<le> t) al"

definition IsAllowed :: "Timestamp \<Rightarrow> (Timestamp \<times> bool) list \<Rightarrow> flow_error + bool" where
  "IsAllowed t al = (if until_upper_bound t al = [] then Inl BeforeBegin else Inr (snd (last (until_upper_bound t al))))"

definition discard_ranges :: "Timestamp \<Rightarrow> (Timestamp \<times> bool) list \<Rightarrow> flow_error + (Timestamp \<times> bool) list" where
  "discard_ranges t al = (if until_upper_bound t al = [] then Inl BeforeBegin else Inr (drop (length (until_upper_bound t al) - 1) al))"

definition SendAllow :: "bool \<Rightarrow> bool \<Rightarrow> Timestamp \<Rightarrow> 'a flow_op list" where
  "SendAllow has_allow b t = (if has_allow then [Allow (SendPacket \<lparr>pkt_ts = t, pkt_data = Some b\<rparr>)] else [])"

definition limiter_bound :: "Timestamp \<Rightarrow> 'b out_op" where
  "limiter_bound t = (if Timestamp.Max < t then CloseStream else NextBound t)"

text \<open>The steps of \<^verbatim>\<open>Process\<close>, each loop a function.\<close>

definition pop_finished :: "Timestamp \<Rightarrow> Timestamp list \<Rightarrow> Timestamp list" where
  "pop_finished t in_flight = dropWhile (\<lambda>f. f \<le> t) in_flight"

definition queue_frames :: "'a packet list \<Rightarrow> 'a packet list list \<Rightarrow> 'a packet list list" where
  "queue_frames ps qs = map2 (\<lambda>p q. if packet_IsEmpty p then q else q @ [p]) ps qs"

fun pop_expired :: "int \<Rightarrow> Timestamp \<Rightarrow> Timestamp list \<Rightarrow> ts_error + Timestamp list" where
  "pop_expired timeout latest [] = Inr []"
| "pop_expired timeout latest (f # fs) =
     (case ts_diff latest f of Inl e \<Rightarrow> Inl e | Inr d \<Rightarrow> if timeout < d then pop_expired timeout latest fs else Inr (f # fs))"

fun release_frames ::
  "bool \<Rightarrow> int \<Rightarrow> 'a packet list \<Rightarrow> Timestamp list \<Rightarrow> (Timestamp \<times> bool) list
    \<Rightarrow> 'a flow_op list \<times> 'a packet list \<times> Timestamp list \<times> (Timestamp \<times> bool) list" where
  "release_frames has_allow most [] in_flight al = ([], [], in_flight, al)"
| "release_frames has_allow most (p # q) in_flight al =
     (if ProcessingAllowed most in_flight then
        (case release_frames has_allow most q (in_flight @ [pkt_ts p]) (allowed_put (pkt_ts p) True al) of
           (os, r) \<Rightarrow> (Frame 0 (SendPacket p) # SendAllow has_allow True (pkt_ts p) @ os, r))
      else ([], p # q, in_flight, al))"

fun limit_queue ::
  "bool \<Rightarrow> int \<Rightarrow> 'a packet list \<Rightarrow> (Timestamp \<times> bool) list \<Rightarrow> 'a flow_op list \<times> 'a packet list \<times> (Timestamp \<times> bool) list" where
  "limit_queue has_allow most [] al = ([], [], al)"
| "limit_queue has_allow most (p # q) al =
     (if as_size most < length (p # q) then
        (case limit_queue has_allow most q (allowed_put (pkt_ts p) False al) of
           (os, r) \<Rightarrow> (SendAllow has_allow False (pkt_ts p) @ os, r))
      else ([], p # q, al))"

definition stream_bound :: "'a packet \<Rightarrow> 'a packet list \<Rightarrow> Timestamp" where
  "stream_bound p q = (if q = [] then next_ts (pkt_ts p) else pkt_ts (hd q))"

fun release_settled :: "Timestamp \<Rightarrow> (Timestamp \<times> bool) list \<Rightarrow> 'a packet list \<Rightarrow> flow_error + ('a packet list \<times> 'a packet list)" where
  "release_settled settled al [] = Inr ([], [])"
| "release_settled settled al (p # q) =
     (if pkt_ts p < settled then
        (case IsAllowed (pkt_ts p) al of
           Inl e \<Rightarrow> Inl e
         | Inr b \<Rightarrow>
             (case release_settled settled al q of Inl e \<Rightarrow> Inl e | Inr (ps, r) \<Rightarrow> Inr (if b then p # ps else ps, r)))
      else Inr ([], p # q))"

text \<open>The auxiliary streams from the \<open>i\<close>-th on, with the packets of the call on them.\<close>

fun ProcessAuxiliaryInputs ::
  "Timestamp \<Rightarrow> (Timestamp \<times> bool) list \<Rightarrow> nat \<Rightarrow> 'a packet list \<Rightarrow> 'a packet list list \<Rightarrow> flow_error + ('a flow_op list \<times> 'a packet list list)" where
  "ProcessAuxiliaryInputs settled al i (p # ps) (q # qs) =
     (case release_settled settled al q of
        Inl e \<Rightarrow> Inl e
      | Inr (out, q1) \<Rightarrow>
          (case ProcessAuxiliaryInputs settled al (Suc i) ps qs of
             Inl e \<Rightarrow> Inl e
           | Inr (os, qs1) \<Rightarrow>
               Inr (map (\<lambda>p. Frame i (SendPacket p)) out @ Frame i (limiter_bound (stream_bound p q1)) # os, q1 # qs1)))"
| "ProcessAuxiliaryInputs settled al i ps qs = Inr ([], [])"

definition InputTimestampBound :: "'a packet list \<Rightarrow> 'a packet list list \<Rightarrow> Timestamp" where
  "InputTimestampBound ps qs = fold min (map2 stream_bound ps qs) Done"

text \<open>The operations on one stream, in their order.\<close>

fun stream_ops :: "nat \<Rightarrow> 'a flow_op list \<Rightarrow> 'a out_op list" where
  "stream_ops i [] = []"
| "stream_ops i (Frame j x # os) = (if i = j then x # stream_ops i os else stream_ops i os)"
| "stream_ops i (Allow x # os) = stream_ops i os"

fun allow_ops :: "'a flow_op list \<Rightarrow> bool out_op list" where
  "allow_ops [] = []"
| "allow_ops (Frame j x # os) = allow_ops os"
| "allow_ops (Allow x # os) = x # allow_ops os"

definition FlowLimiter_Process ::
  "('a packet \<Rightarrow> bool) \<Rightarrow> bool \<Rightarrow> 'a flow_input \<Rightarrow> 'a FlowLimiter \<Rightarrow> flow_error + ('a flow_op list \<times> 'a FlowLimiter)" where
  "FlowLimiter_Process v has_allow i s =
     (let options = retrieved i (flow_options s);
          in_flight = (if finished_timestamp i = input_timestamp i then pop_finished (finished_timestamp i) (frames_in_flight s) else frames_in_flight s);
          queues = queue_frames (frames i) (input_queues s);
          latest = pkt_ts (hd (frames i))
      in case (if 0 < in_flight_timeout options \<and> latest = input_timestamp i \<and> latest < Timestamp.Max
               then pop_expired (in_flight_timeout options) latest in_flight else Inr in_flight) of
           Inl e \<Rightarrow> Inl (FlowTimestamp e)
         | Inr in_flight1 \<Rightarrow>
             (case release_frames has_allow (max_in_flight options) (hd queues) in_flight1 (allowed s) of
                (released, queue1, in_flight2, allowed1) \<Rightarrow>
             (case limit_queue has_allow (max_in_queue options) queue1 allowed1 of
                (dropped, queue2, allowed2) \<Rightarrow>
             (let bound = stream_bound (hd (frames i)) queue2;
                  bounds = Frame 0 (limiter_bound bound) # (if queue2 = [] \<and> has_allow then [Allow (limiter_bound bound)] else []);
                  settled = oss_next_timestamp_bound (snd (run_out v (stream_ops 0 (released @ dropped @ bounds)) (main_output i)))
              in case ProcessAuxiliaryInputs settled allowed2 1 (tl (frames i)) (tl queues) of
                   Inl e \<Rightarrow> Inl e
                 | Inr (aux, queues3) \<Rightarrow>
                     (case discard_ranges (InputTimestampBound (frames i) (queue2 # queues3)) allowed2 of
                        Inl e \<Rightarrow> Inl e
                      | Inr allowed3 \<Rightarrow>
                          Inr (released @ dropped @ bounds @ aux,
                               s\<lparr>flow_options := options, input_queues := queue2 # queues3, frames_in_flight := in_flight2, allowed := allowed3\<rparr>))))))"

definition LedgerSize :: "'a FlowLimiter \<Rightarrow> int" where
  "LedgerSize s = int (length (frames_in_flight s) + length (allowed s) + (\<Sum>q\<leftarrow>input_queues s. length q))"

section \<open>The loops of a call\<close>

definition in_order :: "'a packet list \<Rightarrow> bool" where
  "in_order ps \<longleftrightarrow> sorted_wrt (<) (map pkt_ts ps)"

lemma in_order_simps [simp]:
  "in_order []" "in_order (p # ps) \<longleftrightarrow> (\<forall>q \<in> set ps. pkt_ts p < pkt_ts q) \<and> in_order ps"
  "in_order (ps @ qs) \<longleftrightarrow> in_order ps \<and> in_order qs \<and> (\<forall>p \<in> set ps. \<forall>q \<in> set qs. pkt_ts p < pkt_ts q)"
  by (auto simp: in_order_def sorted_wrt_append)

lemma allowed_put_end: "\<forall>e \<in> set al. fst e < t \<Longrightarrow> allowed_put t b al = al @ [(t, b)]"
  by (induction t b al rule: allowed_put.induct) auto

definition released_ops :: "bool \<Rightarrow> 'a packet list \<Rightarrow> 'a flow_op list" where
  "released_ops has_allow ps = concat (map (\<lambda>p. Frame 0 (SendPacket p) # SendAllow has_allow True (pkt_ts p)) ps)"

definition dropped_ops :: "bool \<Rightarrow> 'a packet list \<Rightarrow> 'a flow_op list" where
  "dropped_ops has_allow ps = concat (map (\<lambda>p. SendAllow has_allow False (pkt_ts p)) ps)"

definition ranges :: "bool \<Rightarrow> 'a packet list \<Rightarrow> (Timestamp \<times> bool) list" where
  "ranges b ps = map (\<lambda>p. (pkt_ts p, b)) ps"

lemma release_frames_result:
  assumes "in_order q" "\<forall>e \<in> set al. \<forall>p \<in> set q. fst e < pkt_ts p"
  shows "\<exists>rs q'. q = rs @ q' \<and>
    release_frames has_allow most q in_flight al = (released_ops has_allow rs, q', in_flight @ map pkt_ts rs, al @ ranges True rs) \<and>
    (rs = [] \<or> length in_flight + length rs \<le> as_size most) \<and> (q' = [] \<or> as_size most \<le> length in_flight + length rs)"
  using assms
proof (induction has_allow most q in_flight al rule: release_frames.induct)
  case (2 has_allow most p q in_flight al)
  show ?case
  proof (cases "ProcessingAllowed most in_flight")
    case True
    have put: "allowed_put (pkt_ts p) True al = al @ [(pkt_ts p, True)]" using 2(3) by (intro allowed_put_end) auto
    have "in_order q" "\<forall>e \<in> set (al @ [(pkt_ts p, True)]). \<forall>p \<in> set q. fst e < pkt_ts p" using 2(2,3) by auto
    from 2(1) [OF True, unfolded put, OF this] obtain rs q' where r: "q = rs @ q'"
      "release_frames has_allow most q (in_flight @ [pkt_ts p]) (al @ [(pkt_ts p, True)]) =
        (released_ops has_allow rs, q', (in_flight @ [pkt_ts p]) @ map pkt_ts rs, (al @ [(pkt_ts p, True)]) @ ranges True rs)"
      "rs = [] \<or> length (in_flight @ [pkt_ts p]) + length rs \<le> as_size most"
      "q' = [] \<or> as_size most \<le> length (in_flight @ [pkt_ts p]) + length rs" by blast
    show ?thesis using True r
      by (intro exI [of _ "p # rs"] exI [of _ q']) (auto simp: put released_ops_def ranges_def ProcessingAllowed_def)
  next
    case False
    then show ?thesis by (intro exI [of _ "[]"] exI [of _ "p # q"]) (auto simp: released_ops_def ranges_def ProcessingAllowed_def)
  qed
qed (auto simp: released_ops_def ranges_def)

lemma limit_queue_result:
  assumes "in_order q" "\<forall>e \<in> set al. \<forall>p \<in> set q. fst e < pkt_ts p"
  shows "\<exists>ds q'. q = ds @ q' \<and> limit_queue has_allow most q al = (dropped_ops has_allow ds, q', al @ ranges False ds) \<and>
    length q' \<le> as_size most \<and> (ds = [] \<or> length q' = as_size most)"
  using assms
proof (induction has_allow most q al rule: limit_queue.induct)
  case (2 has_allow most p q al)
  show ?case
  proof (cases "as_size most < length (p # q)")
    case True
    have put: "allowed_put (pkt_ts p) False al = al @ [(pkt_ts p, False)]" using 2(3) by (intro allowed_put_end) auto
    from 2(1) [OF True] 2(2,3) obtain ds q' where r: "q = ds @ q'"
      "limit_queue has_allow most q (al @ [(pkt_ts p, False)]) = (dropped_ops has_allow ds, q', (al @ [(pkt_ts p, False)]) @ ranges False ds)"
      "length q' \<le> as_size most" "ds = [] \<or> length q' = as_size most"
      unfolding put by fastforce
    show ?thesis using True r by (intro exI [of _ "p # ds"] exI [of _ q']) (auto simp: put dropped_ops_def ranges_def)
  next
    case False
    then show ?thesis by (intro exI [of _ "[]"] exI [of _ "p # q"]) (auto simp: dropped_ops_def ranges_def)
  qed
qed (auto simp: dropped_ops_def ranges_def)

text \<open>No check fails in the loop that gives frames up, and it gives up the oldest ones.\<close>

lemma pop_expired_result:
  assumes "\<forall>f \<in> set fs. Ts 0 \<le> f \<and> f \<le> latest" "IsRangeValue latest"
  shows "\<exists>j. pop_expired timeout latest fs = Inr (drop j fs)"
  using assms
proof (induction timeout latest fs rule: pop_expired.induct)
  case (2 timeout latest f fs)
  have "ts_diff latest f = Inr (ts_value latest - ts_value f)"
    using 2(2,3) by (cases f; cases latest) (auto simp: ts_diff_def IsRangeValue_def safe_int_def special_defs)
  moreover obtain j where "timeout < ts_value latest - ts_value f \<longrightarrow> pop_expired timeout latest fs = Inr (drop j fs)"
    using 2 calculation by fastforce
  ultimately show ?case by (cases "timeout < ts_value latest - ts_value f") (auto intro: exI [of _ "Suc j"] exI [of _ 0])
qed auto

lemma ops_append [simp]:
  "stream_ops i (os @ os') = stream_ops i os @ stream_ops i os'" "allow_ops (os @ os') = allow_ops os @ allow_ops os'"
  by (induction i os rule: stream_ops.induct) auto

lemma released_streams [simp]:
  "stream_ops i (released_ops has_allow ps) = (if i = 0 then map SendPacket ps else [])"
  "allow_ops (released_ops has_allow ps) = (if has_allow then map (\<lambda>p. SendPacket \<lparr>pkt_ts = pkt_ts p, pkt_data = Some True\<rparr>) ps else [])"
  by (induction ps) (auto simp: released_ops_def SendAllow_def)

lemma dropped_streams [simp]:
  "stream_ops i (dropped_ops has_allow ps) = []"
  "allow_ops (dropped_ops has_allow ps) = (if has_allow then map (\<lambda>p. SendPacket \<lparr>pkt_ts = pkt_ts p, pkt_data = Some False\<rparr>) ps else [])"
  by (induction ps) (auto simp: dropped_ops_def SendAllow_def)

lemma sent_bound [simp]: "sent [limiter_bound b] = []" "sent (limiter_bound b # xs) = sent xs"
  by (auto simp: limiter_bound_def)

lemma settled_bound:
  assumes "Timestamp.Min \<le> b"
  shows "oss_next_timestamp_bound (snd (run_out v (xs @ [limiter_bound b]) o')) = (if Timestamp.Max < b then Done else b)"
  using assms
  by (cases b) (auto simp: run_out_append limiter_bound_def oss_Close_def oss_SetNextTimestampBound_def IsAllowedInStream_def special_defs split: prod.splits)

lemma release_settled_result:
  assumes "\<And>p. p \<in> set q \<Longrightarrow> pkt_ts p < settled \<Longrightarrow> IsAllowed (pkt_ts p) al = Inr (V (pkt_ts p))"
  shows "\<exists>as q'. q = as @ q' \<and> release_settled settled al q = Inr (filter (\<lambda>p. V (pkt_ts p)) as, q') \<and>
    (\<forall>p \<in> set as. pkt_ts p < settled) \<and> (q' = [] \<or> settled \<le> pkt_ts (hd q'))"
  using assms
proof (induction settled al q rule: release_settled.induct)
  case (2 settled al p q)
  show ?case
  proof (cases "pkt_ts p < settled")
    case True
    with 2(2) [of p] have al: "IsAllowed (pkt_ts p) al = Inr (V (pkt_ts p))" by simp
    from 2(1) [OF True al] 2(2) obtain as q' where "q = as @ q'" "release_settled settled al q = Inr (filter (\<lambda>p. V (pkt_ts p)) as, q')"
      "\<forall>p \<in> set as. pkt_ts p < settled" "q' = [] \<or> settled \<le> pkt_ts (hd q')" by auto
    then show ?thesis using True al by - (rule exI [of _ "p # as"], rule exI [of _ q'], simp)
  next
    case False
    then show ?thesis by - (rule exI [of _ "[]"], rule exI [of _ "p # q"], simp)
  qed
qed simp

lemma ProcessAuxiliaryInputs_result:
  assumes "length ps = length qs"
    and "\<forall>q \<in> set qs. \<forall>p \<in> set q. pkt_ts p < settled \<longrightarrow> IsAllowed (pkt_ts p) al = Inr (V (pkt_ts p))"
  shows "\<exists>os qs'. ProcessAuxiliaryInputs settled al i ps qs = Inr (os, qs') \<and> length qs' = length qs \<and> allow_ops os = [] \<and>
    (\<forall>j < i. stream_ops j os = []) \<and>
    (\<forall>k < length qs. \<exists>as. qs ! k = as @ qs' ! k \<and> sent (stream_ops (i + k) os) = filter (\<lambda>p. V (pkt_ts p)) as \<and>
      (\<forall>p \<in> set as. pkt_ts p < settled) \<and> (qs' ! k = [] \<or> settled \<le> pkt_ts (hd (qs' ! k))))"
  using assms
proof (induction settled al i ps qs rule: ProcessAuxiliaryInputs.induct)
  case (1 settled al i p ps q qs)
  from release_settled_result [of q settled al V] 1(3) obtain as q' where
    q: "q = as @ q'" "release_settled settled al q = Inr (filter (\<lambda>p. V (pkt_ts p)) as, q')"
      "\<forall>p \<in> set as. pkt_ts p < settled" "q' = [] \<or> settled \<le> pkt_ts (hd q')" by auto
  have len: "length ps = length qs" using 1(2) by simp
  have sub: "\<forall>q \<in> set qs. \<forall>p \<in> set q. pkt_ts p < settled \<longrightarrow> IsAllowed (pkt_ts p) al = Inr (V (pkt_ts p))" using 1(3) by simp
  from 1(1) [OF q(2) refl len sub] obtain os qs' where r: "ProcessAuxiliaryInputs settled al (Suc i) ps qs = Inr (os, qs')"
    "length qs' = length qs" "allow_ops os = []" "\<forall>j < Suc i. stream_ops j os = []"
    "\<forall>k < length qs. \<exists>as. qs ! k = as @ qs' ! k \<and> sent (stream_ops (Suc i + k) os) = filter (\<lambda>p. V (pkt_ts p)) as \<and>
      (\<forall>p \<in> set as. pkt_ts p < settled) \<and> (qs' ! k = [] \<or> settled \<le> pkt_ts (hd (qs' ! k)))" by blast
  define os1 where "os1 = map (\<lambda>p. Frame i (SendPacket p)) (filter (\<lambda>p. V (pkt_ts p)) as) @ Frame i (limiter_bound (stream_bound p q')) # os"
  have head: "stream_ops j (map (\<lambda>p. Frame i (SendPacket p)) ws) = (if j = i then map SendPacket ws else [])"
    "allow_ops (map (\<lambda>p. Frame i (SendPacket p)) ws) = []" for j and ws :: "'a packet list" by (induction ws) auto
  have "ProcessAuxiliaryInputs settled al i (p # ps) (q # qs) = Inr (os1, q' # qs')" using q r by (simp add: os1_def)
  moreover have "allow_ops os1 = []" "\<forall>j < i. stream_ops j os1 = []" using r(3,4) by (auto simp: os1_def head)
  moreover have "\<exists>as. (q # qs) ! k = as @ (q' # qs') ! k \<and> sent (stream_ops (i + k) os1) = filter (\<lambda>p. V (pkt_ts p)) as \<and>
      (\<forall>p \<in> set as. pkt_ts p < settled) \<and> ((q' # qs') ! k = [] \<or> settled \<le> pkt_ts (hd ((q' # qs') ! k)))" if "k < length (q # qs)" for k
  proof (cases k)
    case 0
    then show ?thesis using q r(4) by (auto simp: os1_def head intro!: exI [of _ as])
  next
    case (Suc k')
    then show ?thesis using r(5) that by (auto simp: os1_def head)
  qed
  ultimately show ?case using r(2) by - (rule exI [of _ os1], rule exI [of _ "q' # qs'"], simp)
qed auto

section \<open>The decisions\<close>

text \<open>The map holds the end of the list of all decisions, which begins with an open range; a timestamp has the verdict of the last decision up to it.\<close>

definition verdicts :: "('a packet \<times> bool) list \<Rightarrow> (Timestamp \<times> bool) list" where
  "verdicts decided = (Unset, True) # map (\<lambda>d. (pkt_ts (fst d), snd d)) decided"

definition verdict :: "('a packet \<times> bool) list \<Rightarrow> Timestamp \<Rightarrow> bool" where
  "verdict decided t = (case filter (\<lambda>d. pkt_ts (fst d) \<le> t) decided of [] \<Rightarrow> True | d # ds \<Rightarrow> snd (last (d # ds)))"

lemma until_upper_bound_eq: "sorted_wrt (<) (map fst al) \<Longrightarrow> until_upper_bound t al = filter (\<lambda>e. fst e \<le> t) al"
proof (induction al)
  case (Cons e al)
  have "\<not> fst e \<le> t \<Longrightarrow> filter (\<lambda>e. fst e \<le> t) al = []" using Cons.prems by (intro filter_False) force
  with Cons show ?case by (cases "fst e \<le> t") (auto simp: until_upper_bound_def)
qed (simp add: until_upper_bound_def)

lemma last_filter_drop: "filter P (drop k L) \<noteq> [] \<Longrightarrow> last (filter P (drop k L)) = last (filter P L)"
  by (metis append_take_drop_id filter_append last_append)

lemma last_verdicts: "Unset \<le> t \<Longrightarrow> snd (last (filter (\<lambda>e. fst e \<le> t) (verdicts decided))) = verdict decided t"
  by (cases "filter (\<lambda>d. pkt_ts (fst d) \<le> t) decided") (auto simp: verdicts_def verdict_def filter_map o_def last_map)

lemma Unset_least_key: "sorted_wrt (<) (map fst (verdicts decided)) \<Longrightarrow> e \<in> set (verdicts decided) \<Longrightarrow> Unset \<le> fst e"
  by (auto simp: verdicts_def)

lemma IsAllowed_verdict:
  assumes "sorted_wrt (<) (map fst (verdicts decided))" "k < length (verdicts decided)" "fst (verdicts decided ! k) \<le> t"
  shows "IsAllowed t (drop k (verdicts decided)) = Inr (verdict decided t)"
proof -
  let ?al = "drop k (verdicts decided)"
  have s: "sorted_wrt (<) (map fst ?al)" using assms(1) by (simp add: drop_map [symmetric] sorted_wrt_drop)
  have "?al = verdicts decided ! k # drop (Suc k) (verdicts decided)" using assms(2) by (simp add: Cons_nth_drop_Suc)
  then have ne: "filter (\<lambda>e. fst e \<le> t) ?al \<noteq> []" using assms(3) by (metis filter.simps(2) list.distinct(1))
  have "Unset \<le> t" using Unset_least_key [OF assms(1), of "verdicts decided ! k"] assms(2,3) by auto
  then show ?thesis using ne by (simp add: IsAllowed_def until_upper_bound_eq [OF s] last_filter_drop [OF ne] last_verdicts)
qed

lemma discard_ranges_result:
  assumes "k < length L" "fst (L ! k) \<le> b"
  shows "\<exists>k'. discard_ranges b (drop k L) = Inr (drop k' L) \<and> k' < length L \<and> fst (L ! k') \<le> b"
proof -
  let ?n = "length (until_upper_bound b (drop k L))"
  have c: "drop k L = L ! k # drop (Suc k) L" using assms(1) by (simp add: Cons_nth_drop_Suc)
  have ne: "until_upper_bound b (drop k L) \<noteq> []" unfolding c using assms(2) by (simp add: until_upper_bound_def)
  then have n: "?n - 1 < ?n" by simp
  have le: "?n \<le> length (drop k L)" unfolding until_upper_bound_def by (rule length_takeWhile_le)
  with n have lt: "k + (?n - 1) < length L" by simp
  have "fst (drop k L ! (?n - 1)) \<le> b" using n unfolding until_upper_bound_def by (metis nth_mem set_takeWhileD takeWhile_nth)
  moreover have "drop k L ! (?n - 1) = L ! (k + (?n - 1))" using lt by simp
  ultimately show ?thesis using lt ne by (intro exI [of _ "k + (?n - 1)"]) (simp add: discard_ranges_def add.commute)
qed

lemma verdict_append: "\<forall>d \<in> set ds. t < pkt_ts (fst d) \<Longrightarrow> verdict (decided @ ds) t = verdict decided t"
  by (auto simp: verdict_def filter_empty_conv intro!: arg_cong [where f = "case_list _ _"] filter_False)

section \<open>Runs\<close>

definition frames_of :: "nat \<Rightarrow> 'a flow_input list \<Rightarrow> 'a packet list" where
  "frames_of k xs = filter (\<lambda>p. \<not> packet_IsEmpty p) (map (\<lambda>i. frames i ! k) xs)"

definition last_value :: "nat \<Rightarrow> 'a flow_input list \<Rightarrow> Timestamp" where
  "last_value k xs = (if xs = [] then Unset else pkt_ts (frames (last xs) ! k))"

text \<open>
  What the input handler of the node gives it: on each stream the timestamps do not go back, and a packet with contents comes later than
  what was seen before; the timestamps of such packets are those of a camera.
\<close>

definition flow_accepts :: "nat \<Rightarrow> 'a flow_input list \<Rightarrow> 'a flow_input \<Rightarrow> bool" where
  "flow_accepts n xs i \<longleftrightarrow> length (frames i) = n \<and> IsRangeValue (input_timestamp i) \<and>
     (\<forall>k < n. last_value k xs \<le> pkt_ts (frames i ! k) \<and> pkt_ts (frames i ! k) \<noteq> PreStream \<and>
       (\<not> packet_IsEmpty (frames i ! k) \<longrightarrow>
          last_value k xs < pkt_ts (frames i ! k) \<and> Ts 0 \<le> pkt_ts (frames i ! k) \<and> pkt_ts (frames i ! k) \<le> Timestamp.Max))"

definition flow_history :: "nat \<Rightarrow> 'a flow_input list \<Rightarrow> bool" where
  "flow_history n xs \<longleftrightarrow> (\<forall>k < n. last_value k xs \<noteq> PreStream \<and> in_order (frames_of k xs) \<and>
     (\<forall>p \<in> set (frames_of k xs). Ts 0 \<le> pkt_ts p \<and> pkt_ts p \<le> Timestamp.Max \<and> pkt_ts p \<le> last_value k xs))"

lemma frames_of_snoc: "frames_of k (xs @ [i]) = frames_of k xs @ (if packet_IsEmpty (frames i ! k) then [] else [frames i ! k])"
  by (simp add: frames_of_def)

lemma last_value_snoc [simp]: "last_value k (xs @ [i]) = pkt_ts (frames i ! k)"
  by (simp add: last_value_def)

lemma flow_history_snoc: "flow_history n xs \<Longrightarrow> flow_accepts n xs i \<Longrightarrow> flow_history n (xs @ [i])"
proof -
  assume h: "flow_history n xs" and a: "flow_accepts n xs i"
  have "in_order (frames_of k (xs @ [i]))" "\<forall>p \<in> set (frames_of k (xs @ [i])). Ts 0 \<le> pkt_ts p \<and> pkt_ts p \<le> Timestamp.Max \<and> pkt_ts p \<le> pkt_ts (frames i ! k)"
    "pkt_ts (frames i ! k) \<noteq> PreStream" if "k < n" for k
  proof -
    from h that have h: "in_order (frames_of k xs)" "\<forall>p \<in> set (frames_of k xs). Ts 0 \<le> pkt_ts p \<and> pkt_ts p \<le> Timestamp.Max \<and> pkt_ts p \<le> last_value k xs"
      by (simp_all add: flow_history_def)
    from a that have a: "last_value k xs \<le> pkt_ts (frames i ! k)" "pkt_ts (frames i ! k) \<noteq> PreStream"
      "\<not> packet_IsEmpty (frames i ! k) \<longrightarrow> last_value k xs < pkt_ts (frames i ! k) \<and> Ts 0 \<le> pkt_ts (frames i ! k) \<and> pkt_ts (frames i ! k) \<le> Timestamp.Max"
      by (simp_all add: flow_accepts_def)
    show "in_order (frames_of k (xs @ [i]))" using h a(3) by (auto simp: frames_of_snoc dest: le_less_trans)
    show "\<forall>p \<in> set (frames_of k (xs @ [i])). Ts 0 \<le> pkt_ts p \<and> pkt_ts p \<le> Timestamp.Max \<and> pkt_ts p \<le> pkt_ts (frames i ! k)"
      using h(2) a(1,3) by (auto simp: frames_of_snoc dest: order_trans)
    show "pkt_ts (frames i ! k) \<noteq> PreStream" by (rule a(2))
  qed
  then show "flow_history n (xs @ [i])" by (simp add: flow_history_def)
qed

lemma queue_frames_nth:
  "length ps = length qs \<Longrightarrow> k < length qs \<Longrightarrow> queue_frames ps qs ! k = qs ! k @ (if packet_IsEmpty (ps ! k) then [] else [ps ! k])"
  by (simp add: queue_frames_def)

lemma next_value_le: "v \<noteq> PreStream \<Longrightarrow> v < t \<Longrightarrow> Ts 0 \<le> t \<Longrightarrow> t \<le> Timestamp.Max \<Longrightarrow> next_ts v \<le> t"
  by (cases v; cases t) (auto simp: next_ts_eq special_defs)

lemma before_next: "v \<noteq> PreStream \<Longrightarrow> Ts 0 \<le> t \<Longrightarrow> t \<le> Timestamp.Max \<Longrightarrow> t < (if Timestamp.Max < next_ts v then Done else next_ts v) \<Longrightarrow> t \<le> v"
  by (cases v; cases t) (auto simp: next_ts_eq special_defs split: if_splits)

lemma Min_le_next: "Timestamp.Min \<le> next_ts v"
  by (cases v) (auto simp: next_ts_eq special_defs)

text \<open>A timestamp that no stream has passed.\<close>

definition reached :: "nat \<Rightarrow> Timestamp \<Rightarrow> 'a flow_input list \<Rightarrow> 'a packet list list \<Rightarrow> bool" where
  "reached n t xs qs \<longleftrightarrow> (\<forall>j < n. t \<le> next_ts (last_value j xs) \<and> (\<forall>p \<in> set (qs ! j). t \<le> pkt_ts p))"

text \<open>The state after the inputs, with the decisions on the frames of the main stream so far.\<close>

definition flow_state :: "nat \<Rightarrow> 'a flow_input list \<Rightarrow> ('a packet \<times> bool) list \<Rightarrow> 'a FlowLimiter \<Rightarrow> bool" where
  "flow_state n xs decided s \<longleftrightarrow> length (input_queues s) = n \<and>
     frames_of 0 xs = map fst decided @ input_queues s ! 0 \<and>
     (\<exists>j. frames_in_flight s = drop j (map (\<lambda>d. pkt_ts (fst d)) (filter snd decided))) \<and>
     (\<forall>k < n. \<exists>before. frames_of k xs = before @ input_queues s ! k) \<and>
     (\<exists>k < length (verdicts decided). allowed s = drop k (verdicts decided) \<and> reached n (fst (verdicts decided ! k)) xs (input_queues s))"

lemma verdicts_sorted:
  assumes "in_order (map fst decided)" "\<forall>d \<in> set decided. Ts 0 \<le> pkt_ts (fst d)"
  shows "sorted_wrt (<) (map fst (verdicts decided))"
proof -
  have "Unset < t" if "Ts 0 \<le> t" for t using that by (cases t) (auto simp: special_defs)
  then show ?thesis using assms by (auto simp: verdicts_def in_order_def o_def)
qed

lemma fold_min_le: "fold min bs b \<le> (b::Timestamp)" "x \<in> set bs \<Longrightarrow> fold min bs b \<le> x"
proof (induction bs arbitrary: b)
  case (Cons y bs)
  { case 1 then show ?case using Cons.IH(1) [of "min y b"] by (simp add: min_le_iff_disj) }
  { case 2 then show ?case using Cons.IH(1) [of "min y b"] Cons.IH(2) [of "min y b"] by (auto simp: min_le_iff_disj) }
qed simp_all

lemma fold_min_ge: "t \<le> b \<Longrightarrow> \<forall>x \<in> set bs. t \<le> x \<Longrightarrow> t \<le> fold min bs (b::Timestamp)"
  by (induction bs arbitrary: b) auto

text \<open>What one call adds: the frames it decides on, and on the auxiliary streams the packets it is done with.\<close>

definition flow_call ::
  "nat \<Rightarrow> bool \<Rightarrow> 'a flow_input list \<Rightarrow> ('a packet \<times> bool) list \<Rightarrow> 'a FlowLimiter \<Rightarrow> ('a packet \<times> bool) list \<Rightarrow> 'a flow_op list \<Rightarrow> 'a FlowLimiter \<Rightarrow> 'a flow_input \<Rightarrow> bool" where
  "flow_call n has_allow xs decided s new os s' i \<longleftrightarrow>
     sent (stream_ops 0 os) = map fst (filter snd new) \<and>
     sent (allow_ops os) = (if has_allow then map (\<lambda>d. \<lparr>pkt_ts = pkt_ts (fst d), pkt_data = Some (snd d)\<rparr>) new else []) \<and>
     (\<forall>d \<in> set new. \<forall>t. t \<le> last_value 0 xs \<longrightarrow> (\<forall>p \<in> set (input_queues s ! 0). t < pkt_ts p) \<longrightarrow> t < pkt_ts (fst d)) \<and>
     (\<forall>k. 0 < k \<and> k < n \<longrightarrow> (\<exists>as. input_queues s ! k @ (if packet_IsEmpty (frames i ! k) then [] else [frames i ! k]) = as @ input_queues s' ! k \<and>
        sent (stream_ops k os) = filter (\<lambda>p. verdict (decided @ new) (pkt_ts p)) as \<and>
        (\<forall>p \<in> set as. pkt_ts p \<le> pkt_ts (frames i ! 0) \<and> (\<forall>q \<in> set (input_queues s' ! 0). pkt_ts p < pkt_ts q)) \<and>
        (\<forall>p \<in> set (input_queues s' ! k). if input_queues s' ! 0 = [] then next_ts (pkt_ts (frames i ! 0)) \<le> pkt_ts p else pkt_ts (hd (input_queues s' ! 0)) \<le> pkt_ts p))) \<and>
     flow_options s' = retrieved i (flow_options s) \<and>
     length (input_queues s' ! 0) \<le> as_size (max_in_queue (flow_options s')) \<and>
     (length (frames_in_flight s') \<le> length (frames_in_flight s) \<or> length (frames_in_flight s') \<le> as_size (max_in_flight (flow_options s'))) \<and>
     (input_queues s' ! 0 \<noteq> [] \<longrightarrow> as_size (max_in_flight (flow_options s')) \<le> length (frames_in_flight s'))"

lemma in_flight_dropped:
  assumes "\<forall>f \<in> set fs. Ts 0 \<le> f \<and> f \<le> latest" "IsRangeValue t"
  shows "\<exists>j. (if 0 < timeout \<and> latest = t \<and> latest < Timestamp.Max
     then pop_expired timeout latest (if c then pop_finished u fs else fs) else Inr (if c then pop_finished u fs else fs)) = Inr (drop j fs)"
proof -
  obtain j where j: "(if c then pop_finished u fs else fs) = drop j fs"
    by (cases c) (simp_all add: pop_finished_def dropWhile_eq_drop exI [of _ 0] that [of 0])
  have "\<forall>f \<in> set (drop j fs). Ts 0 \<le> f \<and> f \<le> latest" using assms(1) by (auto dest: in_set_dropD)
  from pop_expired_result [OF this] assms(2) obtain j' where "latest = t \<longrightarrow> pop_expired timeout latest (drop j fs) = Inr (drop j' (drop j fs))" by metis
  then show ?thesis unfolding j by (auto simp: drop_drop)
qed

text \<open>The main stream of a call: the queue, the decisions and the map.\<close>

lemma flow_main:
  assumes "in_order (map fst decided @ q)" "\<forall>p \<in> set (map fst decided @ q). Ts 0 \<le> pkt_ts p" "k < length (verdicts decided)"
  shows "\<exists>rs ds q'. q = rs @ ds @ q' \<and>
    release_frames has_allow m q in_flight (drop k (verdicts decided)) =
      (released_ops has_allow rs, ds @ q', in_flight @ map pkt_ts rs, drop k (verdicts decided) @ ranges True rs) \<and>
    limit_queue has_allow m' (ds @ q') (drop k (verdicts decided) @ ranges True rs) =
      (dropped_ops has_allow ds, q', drop k (verdicts (decided @ map (\<lambda>p. (p, True)) rs @ map (\<lambda>p. (p, False)) ds))) \<and>
    length q' \<le> as_size m' \<and> (rs = [] \<or> length in_flight + length rs \<le> as_size m) \<and>
    (q' = [] \<or> as_size m \<le> length in_flight + length rs)"
proof -
  have U: "Unset < t" if "Ts 0 \<le> t" for t using that by (cases t) (auto simp: special_defs)
  have keys: "\<forall>e \<in> set (drop k (verdicts decided)). \<forall>p \<in> set q. fst e < pkt_ts p"
    using assms(1,2) U by (fastforce simp: verdicts_def dest!: in_set_dropD)
  have "in_order q" using assms(1) by simp
  from release_frames_result [OF this keys, of has_allow m in_flight] obtain rs q1 where
    r: "q = rs @ q1" "release_frames has_allow m q in_flight (drop k (verdicts decided)) =
        (released_ops has_allow rs, q1, in_flight @ map pkt_ts rs, drop k (verdicts decided) @ ranges True rs)"
      "rs = [] \<or> length in_flight + length rs \<le> as_size m" "q1 = [] \<or> as_size m \<le> length in_flight + length rs" by blast
  have "\<forall>e \<in> set (drop k (verdicts decided) @ ranges True rs). \<forall>p \<in> set q1. fst e < pkt_ts p" "in_order q1"
    using keys \<open>in_order q\<close> unfolding r(1) by (auto simp: ranges_def)
  from limit_queue_result [OF this(2,1), of has_allow m'] obtain ds q' where
    d: "q1 = ds @ q'" "limit_queue has_allow m' q1 (drop k (verdicts decided) @ ranges True rs) =
        (dropped_ops has_allow ds, q', (drop k (verdicts decided) @ ranges True rs) @ ranges False ds)" "length q' \<le> as_size m'" by blast
  have "(drop k (verdicts decided) @ ranges True rs) @ ranges False ds = drop k (verdicts (decided @ map (\<lambda>p. (p, True)) rs @ map (\<lambda>p. (p, False)) ds))"
    using assms(3) by (simp add: verdicts_def ranges_def drop_Cons' o_def)
  with r d show ?thesis by (intro exI [of _ rs] exI [of _ ds] exI [of _ q']) auto
qed

lemma reached_queue:
  assumes "reached n t xs qs" "flow_history n xs" "flow_accepts n xs i" "length qs = n"
  shows "reached n t (xs @ [i]) (queue_frames (frames i) qs)"
proof -
  have "t \<le> next_ts (pkt_ts (frames i ! j))" "\<forall>p \<in> set (queue_frames (frames i) qs ! j). t \<le> pkt_ts p" if j: "j < n" for j
  proof -
    from assms j have old: "t \<le> next_ts (last_value j xs)" "\<forall>p \<in> set (qs ! j). t \<le> pkt_ts p" "last_value j xs \<noteq> PreStream"
      "last_value j xs \<le> pkt_ts (frames i ! j)" "length (frames i) = length qs"
      by (auto simp: reached_def flow_history_def flow_accepts_def)
    have new: "\<not> packet_IsEmpty (frames i ! j) \<Longrightarrow> next_ts (last_value j xs) \<le> pkt_ts (frames i ! j)"
      using assms(3) j old(3) by (intro next_value_le) (auto simp: flow_accepts_def)
    show "t \<le> next_ts (pkt_ts (frames i ! j))" using old(1) next_ts_mono [OF old(4,3)] by (rule order_trans)
    show "\<forall>p \<in> set (queue_frames (frames i) qs ! j). t \<le> pkt_ts p"
      using old(1,2,5) new j assms(4) by (auto simp: queue_frames_nth dest: order_trans)
  qed
  then show ?thesis by (simp add: reached_def)
qed

lemma reached_bound:
  assumes "reached n t (xs @ [i]) qs" "length (frames i) = n" "length qs' = n" "\<forall>j < n. set (qs' ! j) \<subseteq> set (qs ! j)" "t \<le> Done"
  shows "t \<le> InputTimestampBound (frames i) qs'"
proof -
  have "t \<le> stream_bound (frames i ! j) (qs' ! j)" if "j < n" for j
    using assms(1,4) that by (cases "qs' ! j") (auto simp: reached_def stream_bound_def)
  then show ?thesis unfolding InputTimestampBound_def using assms(2,3,5) by (intro fold_min_ge) (auto simp: set_zip)
qed

lemma bound_reached:
  assumes "t \<le> InputTimestampBound (frames i) qs'" "length (frames i) = n" "length qs' = n" "flow_history n (xs @ [i])"
    "\<forall>j < n. \<exists>before. frames_of j (xs @ [i]) = before @ qs' ! j"
  shows "reached n t (xs @ [i]) qs'"
proof -
  have "t \<le> next_ts (pkt_ts (frames i ! j))" "\<forall>p \<in> set (qs' ! j). t \<le> pkt_ts p" if j: "j < n" for j
  proof -
    have "stream_bound (frames i ! j) (qs' ! j) \<in> set (map2 stream_bound (frames i) qs')" using assms(2,3) j by (auto simp: set_zip)
    from fold_min_le(2) [OF this, of Done] have t: "t \<le> stream_bound (frames i ! j) (qs' ! j)" using assms(1) by (auto simp: InputTimestampBound_def)
    from assms(5) j obtain before where before: "frames_of j (xs @ [i]) = before @ qs' ! j" by blast
    have "in_order (frames_of j (xs @ [i]))" "\<forall>p \<in> set (frames_of j (xs @ [i])). Ts 0 \<le> pkt_ts p \<and> pkt_ts p \<le> Timestamp.Max \<and> pkt_ts p \<le> pkt_ts (frames i ! j)"
      using assms(4) j by (simp_all add: flow_history_def)
    then have h: "in_order (before @ qs' ! j)" "\<forall>p \<in> set (qs' ! j). Ts 0 \<le> pkt_ts p \<and> pkt_ts p \<le> Timestamp.Max \<and> pkt_ts p \<le> pkt_ts (frames i ! j)"
      unfolding before by auto
    have up: "u \<le> next_ts v" if "u \<le> Timestamp.Max" "u \<le> v" "Ts 0 \<le> u" for u v
      using that by (cases u; cases v) (auto simp: next_ts_eq special_defs)
    show "t \<le> next_ts (pkt_ts (frames i ! j))"
      using t h(2) up [of "pkt_ts (hd (qs' ! j))" "pkt_ts (frames i ! j)"] by (cases "qs' ! j") (auto simp: stream_bound_def dest: order_trans)
    show "\<forall>p \<in> set (qs' ! j). t \<le> pkt_ts p" using t h(1) by (cases "qs' ! j") (auto simp: stream_bound_def dest: order_trans [OF _ less_imp_le])
  qed
  then show ?thesis by (simp add: reached_def)
qed

text \<open>What is before the settled bound, and what waits for it.\<close>

lemma settled_before:
  assumes "in_order q" "\<forall>p \<in> set q. pkt_ts p \<le> Timestamp.Max \<and> pkt_ts p \<le> pkt_ts m" "pkt_ts m \<noteq> PreStream"
    "Ts 0 \<le> t" "t \<le> Timestamp.Max"
  defines "settled \<equiv> (if Timestamp.Max < stream_bound m q then Done else stream_bound m q)"
  shows "t < settled \<Longrightarrow> t \<le> pkt_ts m \<and> (\<forall>p \<in> set q. t < pkt_ts p)"
    and "settled \<le> t \<Longrightarrow> if q = [] then next_ts (pkt_ts m) \<le> t else pkt_ts (hd q) \<le> t"
proof -
  have D: "Timestamp.Max < Done" by (simp add: special_defs)
  show "t < settled \<Longrightarrow> t \<le> pkt_ts m \<and> (\<forall>p \<in> set q. t < pkt_ts p)"
    using assms(1-5) before_next [of "pkt_ts m" t] unfolding settled_def
    by (cases q) (auto simp: stream_bound_def dest: less_trans less_imp_le leD split: if_splits)
  show "settled \<le> t \<Longrightarrow> if q = [] then next_ts (pkt_ts m) \<le> t else pkt_ts (hd q) \<le> t"
    using assms(5) D unfolding settled_def by (auto simp: stream_bound_def split: if_splits)
qed

text \<open>The auxiliary streams of a call.\<close>

lemma flow_auxiliary:
  assumes k: "k < length (verdicts decided)" and reach: "reached n (fst (verdicts decided ! k)) xs' qs"
    and len: "length ps = n" "length qs = n"
    and sorted: "sorted_wrt (<) (map fst (verdicts (decided @ new)))"
  shows "\<exists>os qs'. ProcessAuxiliaryInputs settled (drop k (verdicts (decided @ new))) 1 (tl ps) (tl qs) = Inr (os, qs') \<and>
    length qs' = n - 1 \<and> allow_ops os = [] \<and> stream_ops 0 os = [] \<and>
    (\<forall>j. 0 < j \<and> j < n \<longrightarrow> (\<exists>as. qs ! j = as @ qs' ! (j - 1) \<and>
      sent (stream_ops j os) = filter (\<lambda>p. verdict (decided @ new) (pkt_ts p)) as \<and> (\<forall>p \<in> set as. pkt_ts p < settled) \<and>
      (qs' ! (j - 1) = [] \<or> settled \<le> pkt_ts (hd (qs' ! (j - 1))))))"
proof -
  have key: "verdicts (decided @ new) ! k = verdicts decided ! k" "k < length (verdicts (decided @ new))"
    using k by (auto simp: verdicts_def nth_Cons' nth_append)
  have all: "\<forall>q \<in> set (tl qs). \<forall>p \<in> set q. pkt_ts p < settled \<longrightarrow> IsAllowed (pkt_ts p) (drop k (verdicts (decided @ new))) = Inr (verdict (decided @ new) (pkt_ts p))"
  proof (intro ballI impI)
    fix q p assume q: "q \<in> set (tl qs)" "p \<in> set q"
    then have "q \<in> set qs" by (cases qs) auto
    then obtain j where "j < n" "q = qs ! j" using len(2) by (auto simp: in_set_conv_nth)
    then have "fst (verdicts decided ! k) \<le> pkt_ts p" using reach q(2) by (auto simp: reached_def)
    then show "IsAllowed (pkt_ts p) (drop k (verdicts (decided @ new))) = Inr (verdict (decided @ new) (pkt_ts p))"
      using IsAllowed_verdict [OF sorted key(2)] key(1) by simp
  qed
  have "length (tl ps) = length (tl qs)" using len by simp
  from ProcessAuxiliaryInputs_result [OF this all, of 1] obtain os qs' where
    r: "ProcessAuxiliaryInputs settled (drop k (verdicts (decided @ new))) 1 (tl ps) (tl qs) = Inr (os, qs')" "length qs' = length (tl qs)"
      "allow_ops os = []" "stream_ops 0 os = []" and
    s: "\<forall>j < length (tl qs). \<exists>as. tl qs ! j = as @ qs' ! j \<and> sent (stream_ops (1 + j) os) = filter (\<lambda>p. verdict (decided @ new) (pkt_ts p)) as \<and>
      (\<forall>p \<in> set as. pkt_ts p < settled) \<and> (qs' ! j = [] \<or> settled \<le> pkt_ts (hd (qs' ! j)))" by auto
  have "\<exists>as. qs ! j = as @ qs' ! (j - 1) \<and> sent (stream_ops j os) = filter (\<lambda>p. verdict (decided @ new) (pkt_ts p)) as \<and>
      (\<forall>p \<in> set as. pkt_ts p < settled) \<and> (qs' ! (j - 1) = [] \<or> settled \<le> pkt_ts (hd (qs' ! (j - 1))))" if "0 < j" "j < n" for j
    using s [rule_format, of "j - 1"] that len(2) by (simp add: nth_tl)
  with r len(2) show ?thesis by auto
qed

text \<open>What a call does, given what its loops do.\<close>

lemma FlowLimiter_Process_eq:
  assumes "(if 0 < in_flight_timeout (retrieved i (flow_options s)) \<and> pkt_ts (hd (frames i)) = input_timestamp i \<and> pkt_ts (hd (frames i)) < Timestamp.Max
      then pop_expired (in_flight_timeout (retrieved i (flow_options s))) (pkt_ts (hd (frames i)))
        (if finished_timestamp i = input_timestamp i then pop_finished (finished_timestamp i) (frames_in_flight s) else frames_in_flight s)
      else Inr (if finished_timestamp i = input_timestamp i then pop_finished (finished_timestamp i) (frames_in_flight s) else frames_in_flight s)) = Inr fl1"
    and "release_frames has_allow (max_in_flight (retrieved i (flow_options s))) (hd (queue_frames (frames i) (input_queues s))) fl1 (allowed s) =
      (released, q1, fl2, al1)"
    and "limit_queue has_allow (max_in_queue (retrieved i (flow_options s))) q1 al1 = (dropped, q2, al2)"
    and "bounds = Frame 0 (limiter_bound (stream_bound (hd (frames i)) q2)) #
      (if q2 = [] \<and> has_allow then [Allow (limiter_bound (stream_bound (hd (frames i)) q2))] else [])"
    and "settled = oss_next_timestamp_bound (snd (run_out v (stream_ops 0 (released @ dropped @ bounds)) (main_output i)))"
    and "ProcessAuxiliaryInputs settled al2 1 (tl (frames i)) (tl (queue_frames (frames i) (input_queues s))) = Inr (aux, queues3)"
    and "discard_ranges (InputTimestampBound (frames i) (q2 # queues3)) al2 = Inr al3"
  shows "FlowLimiter_Process v has_allow i s = Inr (released @ dropped @ bounds @ aux,
     s\<lparr>flow_options := retrieved i (flow_options s), input_queues := q2 # queues3, frames_in_flight := fl2, allowed := al3\<rparr>)"
  using assms unfolding FlowLimiter_Process_def by (simp only: Let_def sum.case prod.case)

lemma sent_map: "sent (map (\<lambda>x. SendPacket (g x)) ps) = map g ps"
  by (induction ps) auto

lemma drop_then_append: "\<exists>m. drop k xs @ ys = drop m (xs @ ys)"
  by (rule exI [of _ "min k (length xs)"]) (cases "k \<le> length xs"; simp)

lemma in_flight_append:
  assumes "fl = drop j (map (\<lambda>d. pkt_ts (fst d)) (filter snd decided))"
  shows "\<exists>j'. drop j1 fl @ map pkt_ts rs = drop j' (map (\<lambda>d. pkt_ts (fst d)) (filter snd (decided @ map (\<lambda>p. (p, True)) rs @ map (\<lambda>p. (p, False)) ds)))"
  using drop_then_append [of "j1 + j" "map (\<lambda>d. pkt_ts (fst d)) (filter snd decided)" "map pkt_ts rs"]
  unfolding assms by (simp add: o_def filter_map add.commute)

text \<open>The frames in flight and the main stream of a call.\<close>

lemma flow_call_main:
  assumes st: "flow_state n xs decided s" and n: "0 < n" and h: "flow_history n xs" and a: "flow_accepts n xs i" and k: "k < length (verdicts decided)"
  defines "o' \<equiv> retrieved i (flow_options s)" and "Q \<equiv> queue_frames (frames i) (input_queues s)"
  shows "\<exists>j rs ds q'. Q ! 0 = rs @ ds @ q' \<and>
    (if 0 < in_flight_timeout o' \<and> pkt_ts (hd (frames i)) = input_timestamp i \<and> pkt_ts (hd (frames i)) < Timestamp.Max
      then pop_expired (in_flight_timeout o') (pkt_ts (hd (frames i)))
        (if finished_timestamp i = input_timestamp i then pop_finished (finished_timestamp i) (frames_in_flight s) else frames_in_flight s)
      else Inr (if finished_timestamp i = input_timestamp i then pop_finished (finished_timestamp i) (frames_in_flight s) else frames_in_flight s)) =
      Inr (drop j (frames_in_flight s)) \<and>
    release_frames has_allow (max_in_flight o') (hd Q) (drop j (frames_in_flight s)) (drop k (verdicts decided)) =
      (released_ops has_allow rs, ds @ q', drop j (frames_in_flight s) @ map pkt_ts rs, drop k (verdicts decided) @ ranges True rs) \<and>
    limit_queue has_allow (max_in_queue o') (ds @ q') (drop k (verdicts decided) @ ranges True rs) =
      (dropped_ops has_allow ds, q', drop k (verdicts (decided @ map (\<lambda>p. (p, True)) rs @ map (\<lambda>p. (p, False)) ds))) \<and>
    length q' \<le> as_size (max_in_queue o') \<and> (rs = [] \<or> length (drop j (frames_in_flight s)) + length rs \<le> as_size (max_in_flight o')) \<and>
    (q' = [] \<or> as_size (max_in_flight o') \<le> length (drop j (frames_in_flight s)) + length rs)"
proof -
  from st obtain j0 where len: "length (input_queues s) = n" and f0: "frames_of 0 xs = map fst decided @ input_queues s ! 0"
    and fl: "frames_in_flight s = drop j0 (map (\<lambda>d. pkt_ts (fst d)) (filter snd decided))"
    by (auto simp: flow_state_def)
  have lenf: "length (frames i) = n" using a by (simp add: flow_accepts_def)
  then have lenQ: "length Q = n" using len by (simp add: Q_def queue_frames_def)
  have hd: "hd Q = Q ! 0" "hd (frames i) = frames i ! 0" using lenQ lenf n by (metis hd_conv_nth length_0_conv less_nat_zero_code)+
  have F0: "frames_of 0 (xs @ [i]) = map fst decided @ Q ! 0" using f0 n len lenf by (simp add: frames_of_snoc Q_def queue_frames_nth)
  have old: "in_order (map fst decided @ Q ! 0)"
    "\<forall>p \<in> set (map fst decided @ Q ! 0). Ts 0 \<le> pkt_ts p \<and> pkt_ts p \<le> Timestamp.Max \<and> pkt_ts p \<le> pkt_ts (frames i ! 0)"
    using flow_history_snoc [OF h a] n unfolding flow_history_def F0 [symmetric] by auto
  have "\<forall>f \<in> set (frames_in_flight s). Ts 0 \<le> f \<and> f \<le> pkt_ts (frames i ! 0)" using old(2) by (fastforce simp: fl dest!: in_set_dropD)
  from in_flight_dropped [OF this, of "input_timestamp i" "in_flight_timeout o'" "finished_timestamp i = input_timestamp i" "finished_timestamp i"] a
  obtain j where pop: "(if 0 < in_flight_timeout o' \<and> pkt_ts (hd (frames i)) = input_timestamp i \<and> pkt_ts (hd (frames i)) < Timestamp.Max
      then pop_expired (in_flight_timeout o') (pkt_ts (hd (frames i)))
        (if finished_timestamp i = input_timestamp i then pop_finished (finished_timestamp i) (frames_in_flight s) else frames_in_flight s)
      else Inr (if finished_timestamp i = input_timestamp i then pop_finished (finished_timestamp i) (frames_in_flight s) else frames_in_flight s)) =
      Inr (drop j (frames_in_flight s))"
    unfolding hd flow_accepts_def by blast
  from flow_main [OF old(1) _ k, of has_allow "max_in_flight o'" "drop j (frames_in_flight s)" "max_in_queue o'"] old(2) pop
  show ?thesis unfolding hd(1) by blast
qed

lemma flow_step:
  fixes xs :: "'a flow_input list"
  assumes st: "flow_state n xs decided s" and n: "0 < n" and h: "flow_history n xs" and a: "flow_accepts n xs i"
  shows "\<exists>os s' new. FlowLimiter_Process v has_allow i s = Inr (os, s') \<and> flow_state n (xs @ [i]) (decided @ new) s' \<and>
    flow_call n has_allow xs decided s new os s' i"
proof -
  let ?o = "retrieved i (flow_options s)" and ?Q = "queue_frames (frames i) (input_queues s)" and ?xs = "xs @ [i]"
  note H = flow_history_snoc [OF h a]
  from st obtain j0 k where len: "length (input_queues s) = n" and f0: "frames_of 0 xs = map fst decided @ input_queues s ! 0"
    and fl: "frames_in_flight s = drop j0 (map (\<lambda>d. pkt_ts (fst d)) (filter snd decided))"
    and suffix: "\<forall>k < n. \<exists>before. frames_of k xs = before @ input_queues s ! k"
    and k: "k < length (verdicts decided)" "allowed s = drop k (verdicts decided)" "reached n (fst (verdicts decided ! k)) xs (input_queues s)"
    by (auto simp: flow_state_def)
  have lenf: "length (frames i) = n" using a by (simp add: flow_accepts_def)
  have lenQ: "length ?Q = n" using len lenf by (simp add: queue_frames_def)
  have nth: "?Q ! j = input_queues s ! j @ (if packet_IsEmpty (frames i ! j) then [] else [frames i ! j])" if "j < n" for j
    using that len lenf by (simp add: queue_frames_nth)
  have hd: "hd (frames i) = frames i ! 0" using lenf n by (metis hd_conv_nth length_0_conv less_nat_zero_code)
  have F0: "frames_of 0 ?xs = map fst decided @ ?Q ! 0" using f0 nth n by (simp add: frames_of_snoc)
  have F: "\<exists>before. frames_of j ?xs = before @ ?Q ! j" if "j < n" for j
    using suffix that by (fastforce simp: frames_of_snoc nth)
  have all: "in_order (frames_of j ?xs)"
    "\<forall>p \<in> set (frames_of j ?xs). Ts 0 \<le> pkt_ts p \<and> pkt_ts p \<le> Timestamp.Max \<and> pkt_ts p \<le> pkt_ts (frames i ! j)"
    "pkt_ts (frames i ! j) \<noteq> PreStream" if "j < n" for j
    using H that by (simp_all add: flow_history_def)
  from flow_call_main [OF st n h a k(1), of has_allow] obtain j1 rs ds q' where q: "?Q ! 0 = rs @ ds @ q'" and
    pop: "(if 0 < in_flight_timeout ?o \<and> pkt_ts (hd (frames i)) = input_timestamp i \<and> pkt_ts (hd (frames i)) < Timestamp.Max
      then pop_expired (in_flight_timeout ?o) (pkt_ts (hd (frames i)))
        (if finished_timestamp i = input_timestamp i then pop_finished (finished_timestamp i) (frames_in_flight s) else frames_in_flight s)
      else Inr (if finished_timestamp i = input_timestamp i then pop_finished (finished_timestamp i) (frames_in_flight s) else frames_in_flight s)) =
      Inr (drop j1 (frames_in_flight s))" and
    rel: "release_frames has_allow (max_in_flight ?o) (hd ?Q) (drop j1 (frames_in_flight s)) (drop k (verdicts decided)) =
      (released_ops has_allow rs, ds @ q', drop j1 (frames_in_flight s) @ map pkt_ts rs, drop k (verdicts decided) @ ranges True rs)" and
    lim: "limit_queue has_allow (max_in_queue ?o) (ds @ q') (drop k (verdicts decided) @ ranges True rs) =
      (dropped_ops has_allow ds, q', drop k (verdicts (decided @ map (\<lambda>p. (p, True)) rs @ map (\<lambda>p. (p, False)) ds)))" and
    most: "length q' \<le> as_size (max_in_queue ?o)" "rs = [] \<or> length (drop j1 (frames_in_flight s)) + length rs \<le> as_size (max_in_flight ?o)"
      "q' = [] \<or> as_size (max_in_flight ?o) \<le> length (drop j1 (frames_in_flight s)) + length rs"
    by blast
  define new where "new = map (\<lambda>p. (p, True)) rs @ map (\<lambda>p. (p, False)) ds"
  define bounds :: "'a flow_op list" where "bounds = Frame 0 (limiter_bound (stream_bound (hd (frames i)) q')) #
    (if q' = [] \<and> has_allow then [Allow (limiter_bound (stream_bound (hd (frames i)) q'))] else [])"
  define settled where "settled = oss_next_timestamp_bound (snd (run_out v (stream_ops 0 (released_ops has_allow rs @ dropped_ops has_allow ds @ bounds)) (main_output i)))"
  have frames0: "frames_of 0 ?xs = map fst (decided @ new) @ q'" using F0 q by (simp add: new_def o_def)
  have "Timestamp.Min \<le> stream_bound (hd (frames i)) q'"
    using all(2) [of 0] n Min_le_next [of "pkt_ts (hd (frames i))"] unfolding frames0 stream_bound_def
    by (cases q') (auto simp: special_defs elim!: order_trans [rotated])
  from settled_bound [OF this, of v "map SendPacket rs" "main_output i"] have settled: "settled = (if Timestamp.Max < stream_bound (frames i ! 0) q' then Done else stream_bound (frames i ! 0) q')"
    by (cases "q' = []") (simp_all add: settled_def bounds_def hd)
  have sorted: "sorted_wrt (<) (map fst (verdicts (decided @ new)))"
    using all(1,2) [of 0] n unfolding frames0 by (intro verdicts_sorted) auto
  from flow_auxiliary [OF k(1) reached_queue [OF k(3) h a len] lenf lenQ sorted, of settled] obtain aux qs' where
    aux: "ProcessAuxiliaryInputs settled (drop k (verdicts (decided @ new))) 1 (tl (frames i)) (tl ?Q) = Inr (aux, qs')"
      "length qs' = n - 1" "allow_ops aux = []" "stream_ops 0 aux = []" and
    as: "\<forall>j. 0 < j \<and> j < n \<longrightarrow> (\<exists>as. ?Q ! j = as @ qs' ! (j - 1) \<and>
      sent (stream_ops j aux) = filter (\<lambda>p. verdict (decided @ new) (pkt_ts p)) as \<and> (\<forall>p \<in> set as. pkt_ts p < settled) \<and>
      (qs' ! (j - 1) = [] \<or> settled \<le> pkt_ts (hd (qs' ! (j - 1)))))" by blast
  have upto: "pkt_ts p \<le> pkt_ts (frames i ! 0) \<and> (\<forall>q \<in> set q'. pkt_ts p < pkt_ts q)" if "j < n" "p \<in> set (?Q ! j)" "pkt_ts p < settled" for j p
  proof -
    from F [OF that(1)] obtain before where "frames_of j ?xs = before @ ?Q ! j" by blast
    then have "Ts 0 \<le> pkt_ts p" "pkt_ts p \<le> Timestamp.Max" using all(2) [OF that(1)] that(2) by auto
    then show ?thesis using settled_before(1) [of q' "frames i ! 0" "pkt_ts p"] that(3) all [of 0] n unfolding settled frames0 by auto
  qed
  have waits: "if q' = [] then next_ts (pkt_ts (frames i ! 0)) \<le> pkt_ts p else pkt_ts (hd q') \<le> pkt_ts p" if "0 < j" "j < n" "p \<in> set (qs' ! (j - 1))" for j p
  proof -
    from F [OF that(2)] obtain before where b: "frames_of j ?xs = before @ ?Q ! j" by blast
    from as [rule_format, of j] that(1,2) obtain as where w: "?Q ! j = as @ qs' ! (j - 1)" "qs' ! (j - 1) = [] \<or> settled \<le> pkt_ts (hd (qs' ! (j - 1)))" by blast
    have "settled \<le> pkt_ts p" using w(2) that(3) all(1) [OF that(2)] unfolding b w(1) by (cases "qs' ! (j - 1)") (auto dest: order_trans [OF _ less_imp_le])
    moreover have "Ts 0 \<le> pkt_ts p" "pkt_ts p \<le> Timestamp.Max" using all(2) [OF that(2)] that(3) unfolding b w(1) by auto
    ultimately show ?thesis using settled_before(2) [of q' "frames i ! 0" "pkt_ts p"] all [of 0] n unfolding settled frames0 by auto
  qed
  have len': "length (q' # qs') = n" using aux(2) n by simp
  have sub: "\<forall>j < n. \<exists>before. ?Q ! j = before @ (q' # qs') ! j"
  proof (intro allI impI)
    fix j assume j: "j < n"
    show "\<exists>before. ?Q ! j = before @ (q' # qs') ! j"
    proof (cases j)
      case 0
      then show ?thesis using q by (auto intro: exI [of _ "rs @ ds"])
    next
      case (Suc j')
      then show ?thesis using as [rule_format, of j] j by auto
    qed
  qed
  then have suffix': "\<forall>j < n. \<exists>before. frames_of j ?xs = before @ (q' # qs') ! j" using F by (metis append_assoc)
  have L: "verdicts (decided @ new) ! k = verdicts decided ! k" "k < length (verdicts (decided @ new))"
    using k(1) by (auto simp: verdicts_def nth_Cons' nth_append)
  have key: "fst (verdicts decided ! k) \<le> Done"
  proof -
    have "verdicts decided ! k \<in> set (verdicts decided)" using k(1) by simp
    moreover have "\<forall>d \<in> set decided. pkt_ts (fst d) \<le> Timestamp.Max" using all(2) [of 0] n unfolding frames0 by auto
    moreover have "Timestamp.Max \<le> Done" "Unset \<le> Done" by (simp_all add: special_defs)
    ultimately show ?thesis by (auto simp: verdicts_def dest: order_trans)
  qed
  have "\<forall>j < n. set ((q' # qs') ! j) \<subseteq> set (?Q ! j)" using sub by fastforce
  from reached_bound [OF reached_queue [OF k(3) h a len] lenf len' this key] L(1)
  have "fst (verdicts (decided @ new) ! k) \<le> InputTimestampBound (frames i) (q' # qs')" by simp
  from discard_ranges_result [OF L(2) this] obtain k' where
    k': "discard_ranges (InputTimestampBound (frames i) (q' # qs')) (drop k (verdicts (decided @ new))) = Inr (drop k' (verdicts (decided @ new)))"
      "k' < length (verdicts (decided @ new))" "fst (verdicts (decided @ new) ! k') \<le> InputTimestampBound (frames i) (q' # qs')" by blast
  define s' where "s' = s\<lparr>flow_options := ?o, input_queues := q' # qs', frames_in_flight := drop j1 (frames_in_flight s) @ map pkt_ts rs, allowed := drop k' (verdicts (decided @ new))\<rparr>"
  have run: "FlowLimiter_Process v has_allow i s = Inr (released_ops has_allow rs @ dropped_ops has_allow ds @ bounds @ aux, s')"
    unfolding s'_def by (rule FlowLimiter_Process_eq [OF pop _ _ _ _ aux(1) k'(1)])
      (use rel lim in \<open>simp_all add: k(2) bounds_def settled_def new_def\<close>)
  have state: "flow_state n ?xs (decided @ new) s'"
    unfolding flow_state_def s'_def
    using len' frames0 suffix' k'(1,2) bound_reached [OF k'(3) lenf len' H suffix'] in_flight_append [OF fl, of j1 rs ds] by (auto simp: new_def)
  have streams: "sent (stream_ops 0 (released_ops has_allow rs @ dropped_ops has_allow ds @ bounds @ aux)) = rs"
    "sent (allow_ops (released_ops has_allow rs @ dropped_ops has_allow ds @ bounds @ aux)) =
      (if has_allow then map (\<lambda>d. \<lparr>pkt_ts = pkt_ts (fst d), pkt_data = Some (snd d)\<rparr>) new else [])"
    "0 < j \<Longrightarrow> sent (stream_ops j (released_ops has_allow rs @ dropped_ops has_allow ds @ bounds @ aux)) = sent (stream_ops j aux)" for j
    using aux(3,4) by (auto simp: bounds_def new_def sent_map)
  have later: "t < pkt_ts (fst d)" if "d \<in> set new" "t \<le> last_value 0 xs" "\<forall>p \<in> set (input_queues s ! 0). t < pkt_ts p" for d t
  proof -
    have "fst d \<in> set (?Q ! 0)" using that(1) q by (auto simp: new_def)
    then show ?thesis using that(2,3) n a by (auto simp: nth flow_accepts_def split: if_splits dest: le_less_trans)
  qed
  have auxiliary: "\<exists>as. input_queues s ! j @ (if packet_IsEmpty (frames i ! j) then [] else [frames i ! j]) = as @ (q' # qs') ! j \<and>
      sent (stream_ops j (released_ops has_allow rs @ dropped_ops has_allow ds @ bounds @ aux)) = filter (\<lambda>p. verdict (decided @ new) (pkt_ts p)) as \<and>
      (\<forall>p \<in> set as. pkt_ts p \<le> pkt_ts (frames i ! 0) \<and> (\<forall>q \<in> set q'. pkt_ts p < pkt_ts q))" if j: "0 < j" "j < n" for j
  proof -
    from as [rule_format, of j] j obtain as where w: "?Q ! j = as @ qs' ! (j - 1)"
      "sent (stream_ops j aux) = filter (\<lambda>p. verdict (decided @ new) (pkt_ts p)) as" "\<forall>p \<in> set as. pkt_ts p < settled" by blast
    have "\<forall>p \<in> set as. pkt_ts p \<le> pkt_ts (frames i ! 0) \<and> (\<forall>q \<in> set q'. pkt_ts p < pkt_ts q)" using upto [OF j(2)] w(1,3) by auto
    with w j show ?thesis unfolding streams(3) [OF j(1)] nth [OF j(2), symmetric] by (intro exI [of _ as]) simp
  qed
  define os where "os = released_ops has_allow rs @ dropped_ops has_allow ds @ bounds @ aux"
  have s'_sel: "input_queues s' = q' # qs'" "flow_options s' = ?o" "length (frames_in_flight s') = length (drop j1 (frames_in_flight s)) + length rs"
    by (simp_all add: s'_def)
  have in_flight: "length (frames_in_flight s') \<le> length (frames_in_flight s) \<or> length (frames_in_flight s') \<le> as_size (max_in_flight ?o)"
    using most(2) by (auto simp: s'_sel(3))
  have released: "rs = map fst (filter snd new)" by (simp add: new_def filter_map o_def)
  have "flow_call n has_allow xs decided s new os s' i"
    unfolding flow_call_def s'_sel(1,2) nth_Cons_0
  proof (intro conjI)
    show "sent (stream_ops 0 os) = map fst (filter snd new)" using streams(1) released by (simp add: os_def)
    show "sent (allow_ops os) = (if has_allow then map (\<lambda>d. \<lparr>pkt_ts = pkt_ts (fst d), pkt_data = Some (snd d)\<rparr>) new else [])"
      using streams(2) by (simp only: os_def)
    show "\<forall>d \<in> set new. \<forall>t. t \<le> last_value 0 xs \<longrightarrow> (\<forall>p \<in> set (input_queues s ! 0). t < pkt_ts p) \<longrightarrow> t < pkt_ts (fst d)" using later by blast
    show "\<forall>k. 0 < k \<and> k < n \<longrightarrow> (\<exists>as. input_queues s ! k @ (if packet_IsEmpty (frames i ! k) then [] else [frames i ! k]) = as @ (q' # qs') ! k \<and>
        sent (stream_ops k os) = filter (\<lambda>p. verdict (decided @ new) (pkt_ts p)) as \<and>
        (\<forall>p \<in> set as. pkt_ts p \<le> pkt_ts (frames i ! 0) \<and> (\<forall>q \<in> set q'. pkt_ts p < pkt_ts q)) \<and>
        (\<forall>p \<in> set ((q' # qs') ! k). if q' = [] then next_ts (pkt_ts (frames i ! 0)) \<le> pkt_ts p else pkt_ts (hd q') \<le> pkt_ts p))"
    proof (intro allI impI)
      fix j assume j: "0 < j \<and> j < n"
      then have tail: "(q' # qs') ! j = qs' ! (j - 1)" by (cases j) auto
      from auxiliary [of j, folded os_def] j waits [of j] show "\<exists>as. input_queues s ! j @ (if packet_IsEmpty (frames i ! j) then [] else [frames i ! j]) = as @ (q' # qs') ! j \<and>
        sent (stream_ops j os) = filter (\<lambda>p. verdict (decided @ new) (pkt_ts p)) as \<and>
        (\<forall>p \<in> set as. pkt_ts p \<le> pkt_ts (frames i ! 0) \<and> (\<forall>q \<in> set q'. pkt_ts p < pkt_ts q)) \<and>
        (\<forall>p \<in> set ((q' # qs') ! j). if q' = [] then next_ts (pkt_ts (frames i ! 0)) \<le> pkt_ts p else pkt_ts (hd q') \<le> pkt_ts p)"
        unfolding tail by blast
    qed
  qed (use most in_flight in \<open>auto simp: s'_sel(3)\<close>)
  with run [folded os_def] state show ?thesis by blast
qed

section \<open>The contract\<close>

text \<open>The options in force at each call, from those of \<^verbatim>\<open>Open\<close>, and the largest limit among them.\<close>

definition opened_options :: "FlowLimiterCalculatorOptions \<Rightarrow> int option \<Rightarrow> FlowLimiterCalculatorOptions" where
  "opened_options o' m = (case m of None \<Rightarrow> o' | Some k \<Rightarrow> o'\<lparr>max_in_flight := k\<rparr>)"

fun options_used :: "FlowLimiterCalculatorOptions \<Rightarrow> 'a flow_input list \<Rightarrow> FlowLimiterCalculatorOptions list" where
  "options_used o' [] = []"
| "options_used o' (i # xs) = retrieved i o' # options_used (retrieved i o') xs"

definition largest_limit :: "FlowLimiterCalculatorOptions \<Rightarrow> 'a flow_input list \<Rightarrow> nat" where
  "largest_limit o' xs = fold (\<lambda>u. max (as_size (max_in_flight u))) (options_used o' xs) 0"

lemma options_used_snoc: "options_used o' (xs @ [i]) = options_used o' xs @ [retrieved i (last (o' # options_used o' xs))]"
  by (induction xs arbitrary: o') auto

lemma largest_limit_snoc:
  "largest_limit o' (xs @ [i]) = max (as_size (max_in_flight (retrieved i (last (o' # options_used o' xs))))) (largest_limit o' xs)"
  by (simp add: largest_limit_def options_used_snoc)

definition flow_outputs :: "nat \<Rightarrow> bool \<Rightarrow> 'a flow_input list \<Rightarrow> ('a packet \<times> bool) list \<Rightarrow> 'a flow_op list \<Rightarrow> 'a FlowLimiter \<Rightarrow> bool" where
  "flow_outputs n has_allow xs decided os s \<longleftrightarrow>
     sent (stream_ops 0 os) = map fst (filter snd decided) \<and>
     sent (allow_ops os) = (if has_allow then map (\<lambda>d. \<lparr>pkt_ts = pkt_ts (fst d), pkt_data = Some (snd d)\<rparr>) decided else []) \<and>
     (\<forall>k. 0 < k \<and> k < n \<longrightarrow> (\<exists>as. frames_of k xs = as @ input_queues s ! k \<and>
        sent (stream_ops k os) = filter (\<lambda>p. verdict decided (pkt_ts p)) as \<and>
        (\<forall>p \<in> set as. pkt_ts p \<le> last_value 0 xs \<and> (\<forall>q \<in> set (input_queues s ! 0). pkt_ts p < pkt_ts q)) \<and>
        (\<forall>p \<in> set (input_queues s ! k). if input_queues s ! 0 = [] then next_ts (last_value 0 xs) \<le> pkt_ts p else pkt_ts (hd (input_queues s ! 0)) \<le> pkt_ts p)))"

definition flow_rel :: "nat \<Rightarrow> bool \<Rightarrow> FlowLimiterCalculatorOptions \<Rightarrow> 'a flow_input list \<Rightarrow> 'a flow_op list \<Rightarrow> 'a FlowLimiter \<Rightarrow> bool" where
  "flow_rel n has_allow o' xs os s \<longleftrightarrow> flow_history n xs \<and> flow_options s = last (o' # options_used o' xs) \<and>
     (\<exists>decided. flow_state n xs decided s \<and> flow_outputs n has_allow xs decided os s) \<and> length (frames_in_flight s) \<le> largest_limit o' xs \<and>
     (xs \<noteq> [] \<longrightarrow> length (input_queues s ! 0) \<le> as_size (max_in_queue (flow_options s)) \<and>
       (input_queues s ! 0 \<noteq> [] \<longrightarrow> as_size (max_in_flight (flow_options s)) \<le> length (frames_in_flight s)))"

lemma flow_outputs_step:
  assumes out: "flow_outputs n has_allow xs decided os s" and call: "flow_call n has_allow xs decided s new os' s' i"
    and st: "flow_state n xs decided s" "flow_state n (xs @ [i]) (decided @ new) s'" and acc: "flow_accepts n xs i" "0 < n"
  shows "flow_outputs n has_allow (xs @ [i]) (decided @ new) (os @ os') s'"
proof -
  have "frames_of 0 xs = map fst decided @ input_queues s ! 0" "frames_of 0 (xs @ [i]) = map fst (decided @ new) @ input_queues s' ! 0"
    using st unfolding flow_state_def by blast+
  then have "input_queues s ! 0 @ (if packet_IsEmpty (frames i ! 0) then [] else [frames i ! 0]) = map fst new @ input_queues s' ! 0"
    by (simp add: frames_of_snoc)
  from arg_cong [OF this, of set]
  have "set (input_queues s' ! 0) \<subseteq> set (input_queues s ! 0) \<union> (if packet_IsEmpty (frames i ! 0) then {} else {frames i ! 0})"
    by (auto split: if_splits)
  then have queue: "\<forall>q \<in> set (input_queues s' ! 0). q \<in> set (input_queues s ! 0) \<or> last_value 0 xs < pkt_ts q"
    and main: "last_value 0 xs \<le> pkt_ts (frames i ! 0)"
    using acc by (auto simp: flow_accepts_def split: if_splits)
  have aux: "\<exists>as. frames_of k (xs @ [i]) = as @ input_queues s' ! k \<and>
        sent (stream_ops k (os @ os')) = filter (\<lambda>p. verdict (decided @ new) (pkt_ts p)) as \<and>
        (\<forall>p \<in> set as. pkt_ts p \<le> pkt_ts (frames i ! 0) \<and> (\<forall>q \<in> set (input_queues s' ! 0). pkt_ts p < pkt_ts q)) \<and>
        (\<forall>p \<in> set (input_queues s' ! k). if input_queues s' ! 0 = [] then next_ts (pkt_ts (frames i ! 0)) \<le> pkt_ts p else pkt_ts (hd (input_queues s' ! 0)) \<le> pkt_ts p)"
    if k: "0 < k \<and> k < n" for k
  proof -
    from out k obtain as where a: "frames_of k xs = as @ input_queues s ! k" "sent (stream_ops k os) = filter (\<lambda>p. verdict decided (pkt_ts p)) as"
      "\<forall>p \<in> set as. pkt_ts p \<le> last_value 0 xs \<and> (\<forall>q \<in> set (input_queues s ! 0). pkt_ts p < pkt_ts q)" by (auto simp: flow_outputs_def)
    from call k obtain bs where b: "input_queues s ! k @ (if packet_IsEmpty (frames i ! k) then [] else [frames i ! k]) = bs @ input_queues s' ! k"
      "sent (stream_ops k os') = filter (\<lambda>p. verdict (decided @ new) (pkt_ts p)) bs"
      "\<forall>p \<in> set bs. pkt_ts p \<le> pkt_ts (frames i ! 0) \<and> (\<forall>q \<in> set (input_queues s' ! 0). pkt_ts p < pkt_ts q)"
      "\<forall>p \<in> set (input_queues s' ! k). if input_queues s' ! 0 = [] then next_ts (pkt_ts (frames i ! 0)) \<le> pkt_ts p else pkt_ts (hd (input_queues s' ! 0)) \<le> pkt_ts p"
      unfolding flow_call_def by blast
    have "\<forall>p \<in> set as. \<forall>d \<in> set new. pkt_ts p < pkt_ts (fst d)" using call a(3) unfolding flow_call_def by blast
    then have "\<forall>p \<in> set as. verdict (decided @ new) (pkt_ts p) = verdict decided (pkt_ts p)" using verdict_append by blast
    then have "filter (\<lambda>p. verdict decided (pkt_ts p)) as = filter (\<lambda>p. verdict (decided @ new) (pkt_ts p)) as" by (intro filter_cong) auto
    moreover have "\<forall>p \<in> set as. pkt_ts p \<le> pkt_ts (frames i ! 0) \<and> (\<forall>q \<in> set (input_queues s' ! 0). pkt_ts p < pkt_ts q)"
      using a(3) queue main by (meson le_less_trans order_trans)
    ultimately show ?thesis using a(1,2) b by (intro exI [of _ "as @ bs"]) (auto simp: frames_of_snoc)
  qed
  from out have o1: "sent (stream_ops 0 os) = map fst (filter snd decided)"
    "sent (allow_ops os) = (if has_allow then map (\<lambda>d. \<lparr>pkt_ts = pkt_ts (fst d), pkt_data = Some (snd d)\<rparr>) decided else [])"
    unfolding flow_outputs_def by blast+
  from call have c1: "sent (stream_ops 0 os') = map fst (filter snd new)"
    "sent (allow_ops os') = (if has_allow then map (\<lambda>d. \<lparr>pkt_ts = pkt_ts (fst d), pkt_data = Some (snd d)\<rparr>) new else [])"
    unfolding flow_call_def by blast+
  show ?thesis unfolding flow_outputs_def last_value_snoc
  proof (intro conjI)
    show "sent (stream_ops 0 (os @ os')) = map fst (filter snd (decided @ new))" using o1(1) c1(1) by simp
    show "sent (allow_ops (os @ os')) = (if has_allow then map (\<lambda>d. \<lparr>pkt_ts = pkt_ts (fst d), pkt_data = Some (snd d)\<rparr>) (decided @ new) else [])"
      using o1(2) c1(2) by simp
  qed (use aux in blast)
qed

lemma flow_rel_step:
  assumes "flow_rel n has_allow o' xs os s" "flow_accepts n xs i" "0 < n"
  shows "\<exists>os' s'. FlowLimiter_Process v has_allow i s = Inr (os', s') \<and> flow_rel n has_allow o' (xs @ [i]) (os @ os') s'"
proof -
  from assms(1) obtain decided where r: "flow_history n xs" "flow_state n xs decided s" "flow_outputs n has_allow xs decided os s"
    "length (frames_in_flight s) \<le> largest_limit o' xs" "flow_options s = last (o' # options_used o' xs)" by (auto simp: flow_rel_def)
  from flow_step [OF r(2) assms(3) r(1) assms(2), of v has_allow] obtain os' s' new where
    s: "FlowLimiter_Process v has_allow i s = Inr (os', s')" "flow_state n (xs @ [i]) (decided @ new) s'"
      "flow_call n has_allow xs decided s new os' s' i" by blast
  have bounds: "flow_options s' = retrieved i (flow_options s)" "length (input_queues s' ! 0) \<le> as_size (max_in_queue (flow_options s'))"
    "length (frames_in_flight s') \<le> length (frames_in_flight s) \<or> length (frames_in_flight s') \<le> as_size (max_in_flight (flow_options s'))"
    "input_queues s' ! 0 \<noteq> [] \<longrightarrow> as_size (max_in_flight (flow_options s')) \<le> length (frames_in_flight s')"
    using s(3) unfolding flow_call_def by blast+
  have "length (frames_in_flight s') \<le> largest_limit o' (xs @ [i])" using bounds(1,3) r(4,5) by (auto simp: largest_limit_snoc)
  moreover have "flow_outputs n has_allow (xs @ [i]) (decided @ new) (os @ os') s'" by (rule flow_outputs_step [OF r(3) s(3) r(2) s(2) assms(2,3)])
  moreover have "flow_options s' = last (o' # options_used o' (xs @ [i]))" using bounds(1) r(5) by (simp add: options_used_snoc)
  ultimately have "flow_rel n has_allow o' (xs @ [i]) (os @ os') s'"
    unfolding flow_rel_def using flow_history_snoc [OF r(1) assms(2)] s(2) bounds(2,4) by blast
  with s(1) show ?thesis by blast
qed

lemma flow_rel_start: "flow_rel (Suc n) has_allow (opened_options o' m) [] [] (FlowLimiter_Open (Suc n) o' m)"
  by (auto simp: flow_rel_def flow_history_def flow_state_def flow_outputs_def FlowLimiter_Open_def frames_of_def last_value_def verdicts_def reached_def
      opened_options_def special_defs next_ts_eq simp del: replicate.simps intro!: exI [of _ "[]"] exI [of _ 0])

interpretation limiter: calculator "FlowLimiter_Process v has_allow" "FlowLimiter_Open (Suc n) o' m" "flow_accepts (Suc n)" "flow_rel (Suc n) has_allow (opened_options o' m)"
  for v has_allow n o' m
  by unfold_locales (rule flow_rel_start, blast intro: flow_rel_step)

section \<open>Properties\<close>

text \<open>Two frames come, the second while the first is in flight, then a frame is finished and a third comes.\<close>

definition example_flow :: "int flow_input list" where
  "example_flow =
     (let packet = \<lambda>t x. \<lparr>pkt_ts = Ts t, pkt_data = x\<rparr>;
          call = \<lambda>t f ps. \<lparr>input_timestamp = Ts t, finished_timestamp = Ts f, frames = ps,
            retrieved = (\<lambda>o'. \<lparr>max_in_flight = 1, max_in_queue = 0, in_flight_timeout = 0\<rparr>), main_output = OutputStreamShard_new\<rparr>
      in [call 1 0 [packet 1 (Some 10), packet 1 (Some 11)], call 2 0 [packet 2 (Some 20), packet 2 (Some 21)], call 2 2 [packet 2 None, packet 2 None],
          call 3 2 [packet 3 (Some 30), packet 3 (Some 31)]])"

lemma example_flow_accepted: "accepted (flow_accepts (Suc 1)) [] example_flow"
  by (simp add: example_flow_def Let_def flow_accepts_def last_value_def IsRangeValue_def special_defs as_size_def
      packet_IsEmpty_def less_Suc_eq all_conj_distrib)

text \<open>
  C28: Flow limiting. On any run whose timestamps do not go back on a stream, with any options, no check fails and no map access is undefined, and the
  limiter decides on the frames of its main stream one by one in their order: those let through leave on the first output in order, the
  ALLOW stream tells each decision at the timestamp of its frame, and the frames without a decision are in the queue.  On every auxiliary stream
  exactly those packets pass that fall where the last decision was to let through, although the map of decisions is cut at every call; and none is held back once
  the main stream has been decided past it.
\<close>

theorem flow_limiter_decides:
  assumes "accepted (flow_accepts (Suc n)) [] xs"
  shows "\<exists>os s decided. run_calculator (FlowLimiter_Process v has_allow) xs (FlowLimiter_Open (Suc n) o' m) = Inr (os, s) \<and>
    frames_of 0 xs = map fst decided @ input_queues s ! 0 \<and>
    sent (stream_ops 0 os) = map fst (filter snd decided) \<and>
    sent (allow_ops os) = (if has_allow then map (\<lambda>d. \<lparr>pkt_ts = pkt_ts (fst d), pkt_data = Some (snd d)\<rparr>) decided else []) \<and>
    (\<forall>k. 0 < k \<and> k \<le> n \<longrightarrow> (\<exists>as. frames_of k xs = as @ input_queues s ! k \<and>
       sent (stream_ops k os) = filter (\<lambda>p. verdict decided (pkt_ts p)) as \<and>
       (\<forall>p \<in> set (input_queues s ! k). if input_queues s ! 0 = [] then next_ts (last_value 0 xs) \<le> pkt_ts p else pkt_ts (hd (input_queues s ! 0)) \<le> pkt_ts p)))"
proof -
  from limiter.run_rel [OF assms, of v has_allow o' m] obtain os s decided where
    r: "run_calculator (FlowLimiter_Process v has_allow) xs (FlowLimiter_Open (Suc n) o' m) = Inr (os, s)" and
    d: "flow_state (Suc n) xs decided s" "flow_outputs (Suc n) has_allow xs decided os s" unfolding flow_rel_def by blast
  have f: "frames_of 0 xs = map fst decided @ input_queues s ! 0" using d(1) by (simp add: flow_state_def)
  have o1: "sent (stream_ops 0 os) = map fst (filter snd decided)"
    "sent (allow_ops os) = (if has_allow then map (\<lambda>d. \<lparr>pkt_ts = pkt_ts (fst d), pkt_data = Some (snd d)\<rparr>) decided else [])"
    using d(2) unfolding flow_outputs_def by blast+
  have o2: "\<exists>as. frames_of k xs = as @ input_queues s ! k \<and> sent (stream_ops k os) = filter (\<lambda>p. verdict decided (pkt_ts p)) as \<and>
      (\<forall>p \<in> set (input_queues s ! k). if input_queues s ! 0 = [] then next_ts (last_value 0 xs) \<le> pkt_ts p else pkt_ts (hd (input_queues s ! 0)) \<le> pkt_ts p)"
    if "0 < k \<and> k \<le> n" for k
  proof -
    from that have "0 < k \<and> k < Suc n" by simp
    with d(2) show ?thesis unfolding flow_outputs_def by blast
  qed
  show ?thesis
    by (rule exI [of _ os], rule exI [of _ s], rule exI [of _ decided], intro conjI allI impI) (use r f o1 o2 in \<open>assumption | blast\<close>)+
qed

theorem flow_limiter_decides_witness:
  "\<exists>os s decided. run_calculator (FlowLimiter_Process (\<lambda>_. True) True) example_flow (FlowLimiter_Open (Suc 1) \<lparr>max_in_flight = 1, max_in_queue = 0, in_flight_timeout = 0\<rparr> None) = Inr (os, s) \<and>
    frames_of 0 example_flow = map fst decided @ input_queues s ! 0 \<and> sent (stream_ops 0 os) = map fst (filter snd decided)"
  using flow_limiter_decides [OF example_flow_accepted, of "\<lambda>_. True" True _ None] by blast

text \<open>
  C29: The limits. The frames in flight are always the latest of the frames let through, and at most as many as the largest limit in force at a call so far: the
  limit given to \<^verbatim>\<open>Open\<close>, unless an OPTIONS packet has changed it; after
  a call at most \<open>max_in_queue\<close> frames wait, and they wait only while \<open>max_in_flight\<close> frames are in flight.  The limits are compared as sizes, so that a
  negative one is no limit.
\<close>

theorem flow_limiter_limits:
  assumes "accepted (flow_accepts (Suc n)) [] xs"
  shows "\<exists>os s. run_calculator (FlowLimiter_Process v has_allow) xs (FlowLimiter_Open (Suc n) o' m) = Inr (os, s) \<and>
    (\<exists>j. frames_in_flight s = drop j (map pkt_ts (sent (stream_ops 0 os)))) \<and>
    length (frames_in_flight s) \<le> largest_limit (opened_options o' m) xs \<and>
    (xs \<noteq> [] \<longrightarrow> length (input_queues s ! 0) \<le> as_size (max_in_queue (flow_options s)) \<and>
      (input_queues s ! 0 \<noteq> [] \<longrightarrow> as_size (max_in_flight (flow_options s)) \<le> length (frames_in_flight s)))"
proof -
  from limiter.run_rel [OF assms, of v has_allow o' m] obtain os s where
    r: "run_calculator (FlowLimiter_Process v has_allow) xs (FlowLimiter_Open (Suc n) o' m) = Inr (os, s)" and
    d: "flow_rel (Suc n) has_allow (opened_options o' m) xs os s" by blast
  have "\<exists>j. frames_in_flight s = drop j (map pkt_ts (sent (stream_ops 0 os)))"
    using d by (auto simp: flow_rel_def flow_state_def flow_outputs_def o_def)
  with r d show ?thesis unfolding flow_rel_def by blast
qed

text \<open>The same frames without OPTIONS packets.\<close>

definition plain_flow :: "int flow_input list" where
  "plain_flow = map (\<lambda>i. i\<lparr>retrieved := (\<lambda>o'. o')\<rparr>) example_flow"

lemma plain_flow_accepted: "accepted (flow_accepts (Suc 1)) [] plain_flow"
  by (simp add: plain_flow_def example_flow_def Let_def flow_accepts_def last_value_def IsRangeValue_def special_defs
      packet_IsEmpty_def less_Suc_eq all_conj_distrib)

theorem flow_limiter_limits_witness:
  "\<exists>os s. run_calculator (FlowLimiter_Process (\<lambda>_. True) True) plain_flow (FlowLimiter_Open (Suc 1) \<lparr>max_in_flight = 1, max_in_queue = 0, in_flight_timeout = 0\<rparr> None) = Inr (os, s) \<and>
    length (frames_in_flight s) \<le> 1"
proof -
  have "largest_limit (opened_options \<lparr>max_in_flight = 1, max_in_queue = 0, in_flight_timeout = 0\<rparr> None) plain_flow = 1"
    by (simp add: largest_limit_def opened_options_def plain_flow_def example_flow_def Let_def as_size_def)
  with flow_limiter_limits [OF plain_flow_accepted, of "\<lambda>_. True" True "\<lparr>max_in_flight = 1, max_in_queue = 0, in_flight_timeout = 0\<rparr>" None]
  show ?thesis by auto
qed

lemma negative_limit_unbounded: "- (2 ^ 31) \<le> m \<Longrightarrow> m < 0 \<Longrightarrow> length fs < 2 ^ 63 \<Longrightarrow> ProcessingAllowed m fs"
proof -
  assume "- (2 ^ 31) \<le> m" "m < 0" "length fs < 2 ^ 63"
  moreover then have "m mod 2 ^ 64 = m + 2 ^ 64" using mod_add_self2 [of m "2 ^ 64 :: int"] mod_pos_pos_trivial [of "m + 2 ^ 64" "2 ^ 64"] by simp
  ultimately show ?thesis by (simp add: ProcessingAllowed_def as_size_def)
qed

end
