(* ===== verification/Gate.thy ===== *)
theory Gate
  imports Calculators
begin

text \<open>
  \<^verbatim>\<open>calculators/core/gate_calculator.cc\<close>: the node that passes the packets of its data streams on while it is open; the hand tracking graph uses it to run the palm
  detector only when the hands of the last frame are not enough.
\<close>

section \<open>The calculator\<close>

datatype GateState = GATE_UNINITIALIZED | GATE_ALLOW | GATE_DISALLOW

text \<open>What the graph connects: the tags present, the numbers of data streams and whether STATE_CHANGE is connected.\<close>

record GateContract =
  side_allow :: bool
  side_disallow :: bool
  stream_allow :: bool
  stream_disallow :: bool
  data_inputs :: nat
  data_outputs :: nat
  state_change :: bool

datatype gate_error = GateRetCheck | GateEmptySidePacket

definition CheckAndInitAllowDisallowInputs :: "GateContract \<Rightarrow> gate_error option" where
  "CheckAndInitAllowDisallowInputs cc =
     (let input_via_side_packet = side_allow cc \<or> side_disallow cc;
          input_via_stream = stream_allow cc \<or> stream_disallow cc
      in if input_via_side_packet \<and> (input_via_stream \<or> side_allow cc = side_disallow cc) then Some GateRetCheck
         else if input_via_stream \<and> (input_via_side_packet \<or> stream_allow cc = stream_disallow cc) then Some GateRetCheck
         else None)"

definition Gate_GetContract :: "GateContract \<Rightarrow> gate_error option" where
  "Gate_GetContract cc =
     (case CheckAndInitAllowDisallowInputs cc of
        Some e \<Rightarrow> Some e
      | None \<Rightarrow> if data_outputs cc \<noteq> data_inputs cc then Some GateRetCheck else None)"

record GateCalculator =
  last_gate_state :: GateState
  num_data_streams :: nat
  empty_packets_as_allow :: bool
  use_side_packet_for_allow_disallow :: bool
  allow_by_side_packet_decision :: bool
  use_option_for_allow_disallow :: bool
  allow_by_option_decision :: bool

text \<open>The values of the side packets (an optional one may be missing, and reading it aborts) and the two options.\<close>

definition Gate_Open :: "GateContract \<Rightarrow> bool option \<Rightarrow> bool option \<Rightarrow> bool \<Rightarrow> bool \<Rightarrow> gate_error + GateCalculator" where
  "Gate_Open cc allow_packet disallow_packet option_empty_as_allow option_allow =
     (let gate = (\<lambda>use_side decision. \<lparr>last_gate_state = GATE_UNINITIALIZED, num_data_streams = data_inputs cc,
            empty_packets_as_allow = option_empty_as_allow, use_side_packet_for_allow_disallow = use_side, allow_by_side_packet_decision = decision,
            use_option_for_allow_disallow = (\<not> use_side \<and> \<not> stream_allow cc \<and> \<not> stream_disallow cc), allow_by_option_decision = option_allow\<rparr>)
      in if side_allow cc then (case allow_packet of None \<Rightarrow> Inl GateEmptySidePacket | Some b \<Rightarrow> Inr (gate True b))
         else if side_disallow cc then (case disallow_packet of None \<Rightarrow> Inl GateEmptySidePacket | Some b \<Rightarrow> Inr (gate True (\<not> b)))
         else Inr (gate False False))"

text \<open>
  An input: the timestamp, the packets of ALLOW and DISALLOW if there are any, those of the data streams, and which of the data outputs are closed.
\<close>

record 'a gate_input =
  gate_timestamp :: Timestamp
  allow_packet :: "bool option"
  disallow_packet :: "bool option"
  data_packets :: "'a packet list"
  data_closed :: "bool list"

datatype 'a gate_op = Data nat "'a out_op" | StateChange "bool packet"

definition gate_allows :: "GateContract \<Rightarrow> 'a gate_input \<Rightarrow> GateCalculator \<Rightarrow> bool" where
  "gate_allows cc i g =
     (if use_option_for_allow_disallow g then allow_by_option_decision g
      else if use_side_packet_for_allow_disallow g then allow_by_side_packet_decision g
      else let a1 = (case allow_packet i of Some b \<Rightarrow> if stream_allow cc then b else empty_packets_as_allow g | None \<Rightarrow> empty_packets_as_allow g)
           in (case disallow_packet i of Some b \<Rightarrow> if stream_disallow cc then \<not> b else a1 | None \<Rightarrow> a1))"

definition close_data :: "'a gate_input \<Rightarrow> GateCalculator \<Rightarrow> 'a gate_op list" where
  "close_data i g = concat (map (\<lambda>k. if \<not> data_closed i ! k \<and> use_side_packet_for_allow_disallow g then [Data k CloseStream] else []) [0..<num_data_streams g])"

definition pass_data :: "'a gate_input \<Rightarrow> GateCalculator \<Rightarrow> 'a gate_op list" where
  "pass_data i g = concat (map (\<lambda>k. if packet_IsEmpty (data_packets i ! k) then [] else [Data k (SendPacket (data_packets i ! k))]) [0..<num_data_streams g])"

definition Gate_Process :: "GateContract \<Rightarrow> 'a gate_input \<Rightarrow> GateCalculator \<Rightarrow> gate_error + ('a gate_op list \<times> GateCalculator)" where
  "Gate_Process cc i g =
     (let allow = gate_allows cc i g;
          new_gate_state = (if allow then GATE_ALLOW else GATE_DISALLOW);
          change = (if state_change cc \<and> last_gate_state g \<noteq> GATE_UNINITIALIZED \<and> last_gate_state g \<noteq> new_gate_state
                    then [StateChange \<lparr>pkt_ts = gate_timestamp i, pkt_data = Some allow\<rparr>] else []);
          g1 = g\<lparr>last_gate_state := new_gate_state\<rparr>
      in Inr (change @ (if allow then pass_data i g1 else close_data i g1), g1))"

section \<open>What the gate is to do\<close>

text \<open>The decision on one input, from the inputs of the node alone; the packets of one data stream that pass; the changes.\<close>

definition gate_decision :: "GateContract \<Rightarrow> bool option \<Rightarrow> bool option \<Rightarrow> bool \<Rightarrow> bool \<Rightarrow> 'a gate_input \<Rightarrow> bool" where
  "gate_decision cc side_a side_d as_allow by_option i =
     (if side_allow cc then side_a = Some True else if side_disallow cc then side_d = Some False
      else if stream_allow cc then (case allow_packet i of Some b \<Rightarrow> b | None \<Rightarrow> as_allow)
      else if stream_disallow cc then (case disallow_packet i of Some b \<Rightarrow> \<not> b | None \<Rightarrow> as_allow)
      else by_option)"

definition passed :: "('a gate_input \<Rightarrow> bool) \<Rightarrow> nat \<Rightarrow> 'a gate_input list \<Rightarrow> 'a packet list" where
  "passed D k xs = filter (\<lambda>p. \<not> packet_IsEmpty p) (map (\<lambda>i. data_packets i ! k) (filter D xs))"

fun changes :: "('a gate_input \<Rightarrow> bool) \<Rightarrow> 'a gate_input list \<Rightarrow> bool packet list" where
  "changes D (x # y # xs) = (if D x \<noteq> D y then \<lparr>pkt_ts = gate_timestamp y, pkt_data = Some (D y)\<rparr> # changes D (y # xs) else changes D (y # xs))"
| "changes D xs = []"

fun data_ops :: "nat \<Rightarrow> 'a gate_op list \<Rightarrow> 'a out_op list" where
  "data_ops k [] = []"
| "data_ops k (Data j x # os) = (if j = k then x # data_ops k os else data_ops k os)"
| "data_ops k (StateChange p # os) = data_ops k os"

fun change_ops :: "'a gate_op list \<Rightarrow> bool packet list" where
  "change_ops [] = []"
| "change_ops (Data j x # os) = change_ops os"
| "change_ops (StateChange p # os) = p # change_ops os"

lemma gate_ops_append [simp]:
  "data_ops k (os @ os') = data_ops k os @ data_ops k os'" "change_ops (os @ os') = change_ops os @ change_ops os'"
  by (induction k os rule: data_ops.induct) auto

lemma data_ops_concat:
  assumes "distinct js" "\<forall>j. f j = [] \<or> (\<exists>x. f j = [Data j x])"
  shows "data_ops k (concat (map f js)) = (if k \<in> set js then data_ops k (f k) else []) \<and> change_ops (concat (map f js)) = []"
  using assms(1)
proof (induction js)
  case (Cons j js)
  have "data_ops k (f j) = (if j = k then data_ops k (f k) else [])" "change_ops (f j) = []"
    using assms(2) by (metis data_ops.simps(1,2) change_ops.simps(1,2))+
  with Cons show ?case by auto
qed simp

lemma pass_data_streams:
  "k < num_data_streams g \<Longrightarrow> data_ops k (pass_data i g) = (if packet_IsEmpty (data_packets i ! k) then [] else [SendPacket (data_packets i ! k)])"
  "change_ops (pass_data i g) = []"
  unfolding pass_data_def by (subst data_ops_concat; auto)+

lemma close_data_streams:
  "k < num_data_streams g \<Longrightarrow> data_ops k (close_data i g) = (if \<not> data_closed i ! k \<and> use_side_packet_for_allow_disallow g then [CloseStream] else [])"
  "change_ops (close_data i g) = []"
  unfolding close_data_def by (subst data_ops_concat; auto)+

lemma changes_snoc:
  "changes D (xs @ [y]) = changes D xs @ (if xs \<noteq> [] \<and> D (last xs) \<noteq> D y then [\<lparr>pkt_ts = gate_timestamp y, pkt_data = Some (D y)\<rparr>] else [])"
  by (induction D xs rule: changes.induct) auto

text \<open>The relation of the contract; \<open>D\<close> is the decision.\<close>

definition gate_rel :: "GateContract \<Rightarrow> GateCalculator \<Rightarrow> ('a gate_input \<Rightarrow> bool) \<Rightarrow> 'a gate_input list \<Rightarrow> 'a gate_op list \<Rightarrow> GateCalculator \<Rightarrow> bool" where
  "gate_rel cc g0 D xs os g \<longleftrightarrow>
     g = g0\<lparr>last_gate_state := (if xs = [] then last_gate_state g0 else if D (last xs) then GATE_ALLOW else GATE_DISALLOW)\<rparr> \<and>
     (\<forall>k < num_data_streams g0. sent (data_ops k os) = passed D k xs \<and>
        (\<not> use_side_packet_for_allow_disallow g0 \<longrightarrow> data_ops k os = map SendPacket (passed D k xs))) \<and>
     change_ops os = (if state_change cc then changes D xs else [])"

lemma gate_step:
  fixes xs :: "'a gate_input list"
  assumes "gate_rel cc g0 D xs os g" "\<And>s. gate_allows cc x (g0\<lparr>last_gate_state := s\<rparr>) = D x" "last_gate_state g0 = GATE_UNINITIALIZED"
  shows "\<exists>os' g'. Gate_Process cc x g = Inr (os', g') \<and> gate_rel cc g0 D (xs @ [x]) (os @ os') g'"
proof -
  define g1 where "g1 = g0\<lparr>last_gate_state := (if D x then GATE_ALLOW else GATE_DISALLOW)\<rparr>"
  define change :: "'a gate_op list" where "change = (if state_change cc \<and> xs \<noteq> [] \<and> D (last xs) \<noteq> D x then [StateChange \<lparr>pkt_ts = gate_timestamp x, pkt_data = Some (D x)\<rparr>] else [])"
  have g: "g = g0\<lparr>last_gate_state := (if xs = [] then last_gate_state g0 else if D (last xs) then GATE_ALLOW else GATE_DISALLOW)\<rparr>"
    using assms(1) by (simp add: gate_rel_def)
  have p: "Gate_Process cc x g = Inr (change @ (if D x then pass_data x g1 else close_data x g1), g1)"
    using assms(2,3) unfolding g by (auto simp: Gate_Process_def Let_def change_def g1_def)
  have n: "num_data_streams g1 = num_data_streams g0" "use_side_packet_for_allow_disallow g1 = use_side_packet_for_allow_disallow g0" by (simp_all add: g1_def)
  have "gate_rel cc g0 D (xs @ [x]) (os @ change @ (if D x then pass_data x g1 else close_data x g1)) g1"
    using assms(1) unfolding gate_rel_def
    by (auto simp: g1_def [symmetric] passed_def pass_data_streams close_data_streams n changes_snoc change_def)
  with p show ?thesis by blast
qed

lemma gate_allows_decision:
  assumes "Gate_GetContract cc = None" "Gate_Open cc sa sd as_allow by_option = Inr g0"
  shows "gate_allows cc x (g0\<lparr>last_gate_state := s\<rparr>) = gate_decision cc sa sd as_allow by_option x" "last_gate_state g0 = GATE_UNINITIALIZED"
    "num_data_streams g0 = data_inputs cc" "use_side_packet_for_allow_disallow g0 = (side_allow cc \<or> side_disallow cc)"
  using assms
  by (auto simp: Gate_GetContract_def CheckAndInitAllowDisallowInputs_def Gate_Open_def gate_allows_def gate_decision_def Let_def
      split: if_splits option.splits)

interpretation gate: calculator "Gate_Process cc" g0 "\<lambda>_ _. Gate_GetContract cc = None \<and> Gate_Open cc sa sd as_allow by_option = Inr g0"
    "gate_rel cc g0 (gate_decision cc sa sd as_allow by_option)"
  for cc g0 sa sd as_allow by_option
proof unfold_locales
  show "gate_rel cc g0 (gate_decision cc sa sd as_allow by_option) [] [] g0" by (simp add: gate_rel_def passed_def)
next
  fix xs os s x
  assume "gate_rel cc g0 (gate_decision cc sa sd as_allow by_option) xs os s" "Gate_GetContract cc = None \<and> Gate_Open cc sa sd as_allow by_option = Inr g0"
  then show "\<exists>os' s'. Gate_Process cc x s = Inr (os', s') \<and> gate_rel cc g0 (gate_decision cc sa sd as_allow by_option) (xs @ [x]) (os @ os') s'"
    by (intro gate_step) (auto simp: gate_allows_decision)
qed

text \<open>
  C30: The gate. A gate that its contract accepts and that could be opened passes on each data stream exactly the packets of the inputs it is open for, unchanged and in
  their order, where being open depends on that input alone (the side packet, else the control stream, else the option), and STATE_CHANGE tells exactly
  the inputs at which it opens or closes; the data streams are closed only when a side packet shuts the gate for good.
\<close>

theorem gate_passes:
  assumes "Gate_GetContract cc = None" "Gate_Open cc sa sd as_allow by_option = Inr g0"
  shows "\<exists>os g. run_calculator (Gate_Process cc) xs g0 = Inr (os, g) \<and>
    (\<forall>k < data_inputs cc. sent (data_ops k os) = passed (gate_decision cc sa sd as_allow by_option) k xs \<and>
      (\<not> side_allow cc \<and> \<not> side_disallow cc \<longrightarrow> data_ops k os = map SendPacket (sent (data_ops k os)))) \<and>
    change_ops os = (if state_change cc then changes (gate_decision cc sa sd as_allow by_option) xs else [])"
proof -
  from gate.run_rel [of cc sa sd as_allow by_option g0 xs] assms obtain os g where
    "run_calculator (Gate_Process cc) xs g0 = Inr (os, g)" "gate_rel cc g0 (gate_decision cc sa sd as_allow by_option) xs os g" by auto
  then show ?thesis using gate_allows_decision [OF assms] by (auto simp: gate_rel_def)
qed

definition "example_gate = \<lparr>side_allow = False, side_disallow = False, stream_allow = False, stream_disallow = True, data_inputs = 1, data_outputs = 1, state_change = True\<rparr>"

definition "example_gate_inputs = map (\<lambda>(t, d). \<lparr>gate_timestamp = Ts t, allow_packet = None, disallow_packet = d,
  data_packets = [\<lparr>pkt_ts = Ts t, pkt_data = Some t\<rparr>], data_closed = [False]\<rparr>) [(1, Some False), (2, Some True), (3, None), (4, Some False)]"

theorem gate_passes_witness:
  "\<exists>g0 os g. Gate_Open example_gate None None False False = Inr g0 \<and> run_calculator (Gate_Process example_gate) example_gate_inputs g0 = Inr (os, g) \<and>
    sent (data_ops 0 os) = [\<lparr>pkt_ts = Ts 1, pkt_data = Some 1\<rparr>, \<lparr>pkt_ts = Ts 4, pkt_data = Some 4\<rparr>] \<and>
    change_ops os = [\<lparr>pkt_ts = Ts 2, pkt_data = Some False\<rparr>, \<lparr>pkt_ts = Ts 4, pkt_data = Some True\<rparr>]"
proof -
  obtain g0 where g0: "Gate_Open example_gate None None False False = Inr g0" by (simp add: example_gate_def Gate_Open_def Let_def)
  have c: "Gate_GetContract example_gate = None" by (simp add: example_gate_def Gate_GetContract_def CheckAndInitAllowDisallowInputs_def)
  have "passed (gate_decision example_gate None None False False) 0 example_gate_inputs = [\<lparr>pkt_ts = Ts 1, pkt_data = Some 1\<rparr>, \<lparr>pkt_ts = Ts 4, pkt_data = Some 4\<rparr>]"
    "changes (gate_decision example_gate None None False False) example_gate_inputs = [\<lparr>pkt_ts = Ts 2, pkt_data = Some False\<rparr>, \<lparr>pkt_ts = Ts 4, pkt_data = Some True\<rparr>]"
    "data_inputs example_gate = 1" "state_change example_gate"
    by (simp_all add: example_gate_def example_gate_inputs_def passed_def gate_decision_def packet_IsEmpty_def)
  with gate_passes [OF c g0, of example_gate_inputs] g0 show ?thesis by fastforce
qed

text \<open>The contract declares the side packet optional, but \<^verbatim>\<open>Open\<close> reads it without a test: without the packet the program aborts.\<close>

lemma optional_side_packet_aborts: "side_allow cc \<Longrightarrow> Gate_Open cc None sd as_allow by_option = Inl GateEmptySidePacket"
  by (simp add: Gate_Open_def)

end
