(* ===== verification/Spec2Isabelle.thy ===== *)
theory Spec2Isabelle
  imports Game_Loop Barrier_Handlers Sync_Handlers Mux_Handler Fixed_Size_Handler Timestamp_Align_Handler Graph_Output In_Order_Output Throttling Graph_Input
    Topological_Sorter Stream_Types Graph_Validation Previous_Loopback Loop_Calculators Flow_Limiter Gate
begin

text \<open>
  A verification development for Space Invaders steered by hand tracking: the game under \<^verbatim>\<open>src/src\<close> and the part of MediaPipe under
  \<^verbatim>\<open>src/mediapipe/mediapipe\<close> that moves the frames of the camera to the hand tracking graph and its results back.

  \<^bold>\<open>The program.\<close>  \<^verbatim>\<open>main.cpp\<close> runs the game: each frame it reads the hand from a \<open>HandTracker\<close>, moves the ship, the bullets and the grid of monsters,
  lets \<open>Collisions\<close> settle who was hit, and \<open>Score\<close> keep the books.  The tracker's own thread hands camera frames to \<^verbatim>\<open>LibMP\<close>, a thin wrapper of a
  MediaPipe \<open>CalculatorGraph\<close>: a graph of calculator nodes joined by streams of timestamped packets.  A packet enters at a graph input stream, waits in
  the \<open>InputStreamManager\<close> queue of every consumer, is taken from there by the node's \<open>InputStreamHandler\<close> once the node may run at its timestamp, and
  what the node writes leaves through its \<open>OutputStreamHandler\<close> to the queues downstream or to a \<open>GraphOutputStream\<close>, which \<^verbatim>\<open>LibMP\<close> polls.  A
  \<open>SchedulerQueue\<close> orders the nodes that may run, the \<open>Scheduler\<close> drives the run from start to end, and full queues throttle what feeds them.  Before a run the
  configuration of the graph is validated: names are parsed, the nodes are wired and sorted, and the types of their ports compared.

  \<^bold>\<open>Conventions.\<close>  A class is a record and a method a function on it, with the name of the source; an undefined access, a failed \<^verbatim>\<open>CHECK\<close> or an exception is
  \<open>None\<close> or the left side of a sum.  \<^verbatim>\<open>float\<close> arithmetic is computed exactly and rounded to binary32 after each operation.  A mutex makes
  a critical section one step; what runs between two sections interleaves with everything else, as the rules of an inductive step relation.
  Code outside the repository enters as a parameter: bounding boxes and pictures of SFML, \<^verbatim>\<open>rand()\<close>, the camera, what a calculator is given as payload
  and how it validates it.  Three kinds of undefined or special behaviour are not outcomes of the model: the state of the ship, which its constructor leaves
  uninitialised, is a parameter; \<^verbatim>\<open>float\<close> and \<^verbatim>\<open>double\<close> have neither infinities nor NaN, division by zero gives zero, and a conversion to an integer is the
  truncated value; and \<^verbatim>\<open>int\<close> is unbounded, except where the code converts it or compares it with a size.

  \<^bold>\<open>The game.\<close>
  \<^item> \<open>Machine_Float\<close>: binary32 and binary64 rounding, with monotonicity, exactness on small integers and error bounds; \<open>Prelude\<close>: number conversions, the
    SFML calls and the list lemmas shared by the rest.
  \<^item> \<open>Entities\<close> (\<^verbatim>\<open>Entity/Bullet\<close>, \<^verbatim>\<open>Monster\<close>, \<^verbatim>\<open>EntityState\<close>), \<open>Monster_Cluster\<close> (\<^verbatim>\<open>Entity/MonsterCluster\<close>: laying out, marching, shooting) and
    \<open>Player\<close> (\<^verbatim>\<open>Entity/Player\<close>: steering, inertia, borders, firing): an invariant for each, kept by every operation, and what each operation does.
  \<^item> \<open>Score\<close> and \<open>Collisions\<close> (\<^verbatim>\<open>GameProcessing\<close>): the table of scores and its file, the collision pass and the agreement of all counters.
  \<^item> \<open>Hand_Tracker\<close> (\<^verbatim>\<open>HandTracking/HandTracker\<close>): landmarks, the fist, the mapping to the window, and the race between the two threads.
  \<^item> \<open>Game_Loop\<close> (\<^verbatim>\<open>main.cpp\<close>): the start state and one frame; the loop invariant composes those of all components.

  \<^bold>\<open>Streams and handlers\<close> (\<^verbatim>\<open>framework\<close>).
  \<^item> \<open>Timestamp\<close> (\<^verbatim>\<open>timestamp\<close>), \<open>Input_Stream\<close> (\<^verbatim>\<open>input_stream_manager\<close>) and \<open>Calculator_Context\<close> (\<^verbatim>\<open>input_stream_shard\<close>, \<^verbatim>\<open>calculator_context\<close>,
    \<^verbatim>\<open>calculator_context_manager\<close>): order and neighbours of timestamps, the ordered queue and its bound, what one call sees.
  \<^item> \<open>Input_Handler\<close> (\<^verbatim>\<open>input_stream_handler\<close>, \<^verbatim>\<open>default_input_stream_handler\<close>): the base class, with \<open>GetNodeReadiness\<close> and \<open>FillInputSet\<close> as the
    arguments of the functions that call them.  The locale \<open>handler_policy\<close> states what a policy owes the base class, and its conclusion is that the
    scheduling loop returns; it is interpreted for the default handler, in \<open>Barrier_Handlers\<close> for the early close and barrier handlers, and in \<open>Timestamp_Align_Handler\<close>.
    \<open>Sync_Handlers\<close> has the immediate and sync set handlers, \<open>Mux_Handler\<close>, \<open>Fixed_Size_Handler\<close> and \<open>Timestamp_Align_Handler\<close> the handlers of these names.
  \<^item> \<open>Output_Shard\<close>, \<open>Output_Stream\<close> and \<open>In_Order_Output\<close> (\<^verbatim>\<open>output_stream_shard\<close>, \<^verbatim>\<open>output_stream_manager\<close>, \<^verbatim>\<open>output_stream_handler\<close>,
    \<^verbatim>\<open>in_order_output_stream_handler\<close>): what one call wrote reaches every mirror, and calls that end out of order are released, and their packets sent, in order.
    The loops over the mirrors (\<open>update_mirrors\<close>) take the visit of a mirror as an argument: inside a node it is the operation of the handler behind the
    mirror, at a graph input also the callbacks that it makes.
  \<^item> \<open>Graph_Output\<close> (\<^verbatim>\<open>graph_output_stream\<close>): observers as a step relation of arrivals and any number of notifying threads, and the poller as a refinement of a channel.

  \<^bold>\<open>Running a graph\<close> (\<^verbatim>\<open>framework\<close>).
  \<^item> \<open>Node_Scheduling\<close> (\<^verbatim>\<open>calculator_node\<close>): the status and the scheduling state of a node, and the threads that look at its inputs.
  \<^item> \<open>Scheduler_Queue\<close> (\<^verbatim>\<open>scheduler_queue\<close>) and \<open>Graph_Scheduler\<close> (\<^verbatim>\<open>scheduler\<close>): priorities, tasks, the state machine of a run, source layers, idleness.
    A configuration has, besides the scheduler and the place of the thread in \<open>HandleIdle\<close>, two fields of history that no operation reads.
  \<^item> \<open>Throttling\<close> and \<open>Graph_Input\<close> (\<^verbatim>\<open>calculator_graph\<close>, \<^verbatim>\<open>examples/desktop/libmp\<close>): flow control, packets entering and streams closing.
    In \<open>Throttling\<close> the callbacks of full queues arrive in any order; in \<open>Graph_Input\<close> the thread that adds a packet carries them and the error callbacks
    out on the spot.
  \<^item> \<open>Topological_Sorter\<close> (\<^verbatim>\<open>framework/deps/topologicalsorter\<close>): the order in which the nodes of a graph are built, and the cycle that prevents it.

  \<^bold>\<open>Validating a graph\<close> (\<^verbatim>\<open>framework\<close>).
  \<^item> \<open>Decimal\<close> (numbers as strings), \<open>Tag_Names\<close> (\<^verbatim>\<open>tool/validate_name\<close>) and \<open>Tag_Map\<close> (\<^verbatim>\<open>tool/tag_map\<close>): the grammar of names, and the streams of a node by tag and index.
  \<^item> \<open>Packet_Types\<close> (\<^verbatim>\<open>packet_type\<close>) and \<open>Stream_Types\<close> (the passes of \<^verbatim>\<open>validated_graph_config\<close> over the types of edges): types that point to each
    other as a union-find forest on a list, and what a resolved and checked edge accepts.
  \<^item> \<open>Validated_Graph\<close> (\<^verbatim>\<open>validated_graph_config\<close>): the graph and the operations that wire it.  \<open>Stream_Wiring\<close> and \<open>Side_Packet_Wiring\<close> say what one pass does,
    \<open>Wiring_Order\<close> when it needs no sorting, \<open>Graph_Wiring\<close> when wiring succeeds and what it gives, \<open>Graph_Validation\<close> has the rest of \<open>Initialize\<close>:
    types, executors, and the ancestor sources, which are those that affect a node along edges to later nodes only.

  \<^bold>\<open>Calculators\<close> (\<^verbatim>\<open>calculators/core\<close>).  \<open>Calculators\<close> has the operations of a calculator on its outputs and the locale \<open>calculator\<close>: a relation between the
  history of inputs, the state and the history of outputs, kept by each call, holds of every run.  It is interpreted in \<open>Previous_Loopback\<close>,
  \<open>Flow_Limiter\<close> and \<open>Gate\<close>; \<open>Loop_Calculators\<close> composes the two ends of a loop.

  \<^bold>\<open>Termination.\<close>  No loop has fuel.  A loop that the source does not obviously end is a \<open>partial_function (option)\<close>, where \<open>None\<close> is also
  the loop that never ends, and it is proved to return: \<open>schedule_loop\<close> (each round takes work from the queues), \<open>fixed_ready_loop\<close>,
  \<open>notify_run\<close> (the packets waiting), \<open>GetSameAs\<close> (the links of types form trees), \<open>propagation_while\<close> (the calls in flight), \<open>dfs_while\<close> and \<open>take_nodes\<close> (nodes not yet seen).  The exception is
  \<open>idle_loop\<close>: the loop of \<open>HandleIdle\<close> does not end in one reachable situation, which is characterised exactly.

  \<^bold>\<open>What the properties show.\<close>  Of the game: no frame takes the back of an empty vector, a remainder by zero or an index out of range, whatever the inputs and
  the state the ship begins with; its books agree, lives are lost one at a time, and the whole ship stays in the
  window.  Of the framework: queues stay ordered, a handler that reports a node ready delivers exactly the packets of that timestamp, outputs reach
  their mirrors in order, no wakeup of a node is lost, and flow control is exact in every interleaving, but for streams that have refused a batch.  Of validation: names are parsed as their grammar says,
  a graph is wired exactly if it can be, and a graph found valid is wired and typed as its configuration says, but for choices of types.  Of the calculators: each run computes a reference
  function of its history.  Where the code does otherwise, the theorem says exactly what it does: a wakeup of an observer that is lost, the loop of \<open>HandleIdle\<close> that spins,
  a packet refused downstream for which success is reported.

  \<^bold>\<open>Not modelled.\<close>  Windows, fonts, textures, sound and event polling (I/O of SFML); the camera and OpenCV; protocol buffers and the parsing of a graph from its text;
  profiling, tracing, GPU, executors' threads and timers; services; inference and image calculators; bindings, tasks and modules that the game does not run; expanding
  subgraphs and asking a calculator for its contract; opening, processing and closing a node, of which the calculator's part is a parameter of its runs.
\<close>

end
